(* ===== verification/Canon_Prelude.thy ===== *)
theory Canon_Prelude
  imports Main "HOL-Library.Word"
begin

unbundle bit_operations_syntax

section \<open>Prelude: the C machine seen by the models\<close>

text \<open>
  What every component of the library shares: the machine integers of
  core/primitives/types.h and limits.h, the outcome of running a C function, the contract
  checks of core/primitives/contract.h, C arrays and pointers, and the word and list lemmas
  the component theories rest on.

  The data model is LP64: \<open>size_t\<close>, \<open>uintptr_t\<close> and \<open>uint64_t\<close> are 64 bits wide. Unsigned
  arithmetic is word arithmetic (it wraps). A signed value of type \<open>isize\<close> is an \<open>int\<close>; its
  arithmetic goes through \<open>isize_val\<close>, which makes signed overflow undefined behaviour.
\<close>

subsection \<open>Machine integers (core/primitives/types.h, core/primitives/limits.h)\<close>

type_synonym u8 = "8 word"
type_synonym u16 = "16 word"
type_synonym u32 = "32 word"
type_synonym u64 = "64 word"
type_synonym usize = "64 word"
type_synonym uptr = "64 word"
type_synonym isize = int

definition canon_usize_max :: usize where
  "canon_usize_max = 0xFFFFFFFFFFFFFFFF"

definition canon_isize_max :: isize where
  "canon_isize_max = 0x7FFFFFFFFFFFFFFF"

definition canon_isize_min :: isize where
  "canon_isize_min = - 0x8000000000000000"

definition canon_kb :: usize where
  "canon_kb = 1024"

definition canon_mb :: usize where
  "canon_mb = 1024 * 1024"

definition canon_gb :: usize where
  "canon_gb = 1024 * 1024 * 1024"

definition canon_default_align :: usize where
  "canon_default_align = 16"

definition canon_vec_max_capacity :: usize where
  "canon_vec_max_capacity = canon_gb"

definition canon_arena_max_size :: usize where
  "canon_arena_max_size = canon_gb"

subsection \<open>Outcomes of a C function\<close>

text \<open>
  A C function either returns, or violates a contract (the default handler of contract.h
  prints the location and aborts), or runs into undefined behaviour: a read or write
  outside an object, a dereferenced null pointer, a shift by the width or more, a signed
  overflow, a division by zero. The last is a value of the model so that its absence can
  be proved.
\<close>

datatype fault =
    Violation string
  | Undefined string

type_synonym 'a run = "fault + 'a"

abbreviation ret :: "'a \<Rightarrow> 'a run" where
  "ret \<equiv> Inr"

abbreviation violation :: "string \<Rightarrow> 'a run" where
  "violation msg \<equiv> Inl (Violation msg)"

abbreviation undefined_behaviour :: "string \<Rightarrow> 'a run" where
  "undefined_behaviour msg \<equiv> Inl (Undefined msg)"

definition bindR :: "'a run \<Rightarrow> ('a \<Rightarrow> 'b run) \<Rightarrow> 'b run" where
  "bindR m f = (case m of Inl e \<Rightarrow> Inl e | Inr a \<Rightarrow> f a)"

lemma bindR_simps [simp]:
  "bindR (Inr a) f = f a"
  "bindR (Inl e) f = Inl e"
  by (simp_all add: bindR_def)

lemma bindR_assoc: "bindR (bindR m f) g = bindR m (\<lambda>a. bindR (f a) g)"
  by (cases m) simp_all

lemma bindR_eq_Inr: "bindR m f = Inr b \<longleftrightarrow> (\<exists>a. m = Inr a \<and> f a = Inr b)"
  by (cases m) simp_all

lemma bindR_cong [fundef_cong]:
  "m = m' \<Longrightarrow> (\<And>a. m' = Inr a \<Longrightarrow> f a = g a) \<Longrightarrow> bindR m f = bindR m' g"
  by (cases m') simp_all

definition returns :: "'a run \<Rightarrow> bool" where
  "returns m \<longleftrightarrow> (case m of Inl e \<Rightarrow> False | Inr a \<Rightarrow> True)"

lemma returns_simps [simp]: "returns (Inr a)" "\<not> returns (Inl e)"
  by (simp_all add: returns_def)

text \<open>
  \<open>require_msg(cond, msg)\<close> and \<open>ensure_msg(cond, msg)\<close> of contract.h in the default build
  (neither \<open>CANON_NO_REQUIRE\<close> nor \<open>NDEBUG\<close>): the rest of the function runs only when the
  condition holds.
\<close>

definition require_msg :: "bool \<Rightarrow> string \<Rightarrow> 'a run \<Rightarrow> 'a run" where
  "require_msg cond msg k = (if cond then k else violation msg)"

definition ensure_msg :: "bool \<Rightarrow> string \<Rightarrow> 'a run \<Rightarrow> 'a run" where
  "ensure_msg cond msg k = require_msg cond msg k"

lemma require_msg_cong [fundef_cong]:
  "c = d \<Longrightarrow> msg = msg' \<Longrightarrow> (d \<Longrightarrow> k = l) \<Longrightarrow> require_msg c msg k = require_msg d msg' l"
  by (simp add: require_msg_def)

lemma require_msg_simps [simp]:
  "require_msg True msg k = k"
  "require_msg False msg k = violation msg"
  by (simp_all add: require_msg_def)

lemma ensure_msg_simps [simp]:
  "ensure_msg True msg k = k"
  "ensure_msg False msg k = violation msg"
  by (simp_all add: ensure_msg_def)

subsection \<open>Signed values, pointers and arrays\<close>

definition isize_val :: "int \<Rightarrow> isize run" where
  "isize_val x = (if canon_isize_min \<le> x \<and> x \<le> canon_isize_max then ret x
                  else undefined_behaviour ''signed overflow'')"

definition isize_ok :: "int \<Rightarrow> bool" where
  "isize_ok x \<longleftrightarrow> canon_isize_min \<le> x \<and> x \<le> canon_isize_max"

text \<open>
  A pointer to an object is \<open>None\<close> for NULL and \<open>Some\<close> of the object it points to: a function
  that changes the object returns the pointer with the new object.
\<close>

type_synonym 'a cptr = "'a option"

definition deref :: "'a cptr \<Rightarrow> 'a run" where
  "deref p = (case p of None \<Rightarrow> undefined_behaviour ''null dereference'' | Some a \<Rightarrow> ret a)"

lemma deref_simps [simp]:
  "deref None = undefined_behaviour ''null dereference''"
  "deref (Some a) = ret a"
  by (simp_all add: deref_def)

text \<open>
  An array object is the list of its elements; an access outside it is undefined behaviour.
\<close>

definition arr_get :: "'a list \<Rightarrow> usize \<Rightarrow> 'a run" where
  "arr_get xs i = (if unat i < length xs then ret (xs ! unat i)
                   else undefined_behaviour ''read outside the array'')"

definition arr_set :: "'a list \<Rightarrow> usize \<Rightarrow> 'a \<Rightarrow> 'a list run" where
  "arr_set xs i x = (if unat i < length xs then ret (xs[unat i := x])
                     else undefined_behaviour ''write outside the array'')"

lemma arr_get_ret [simp]: "unat i < length xs \<Longrightarrow> arr_get xs i = ret (xs ! unat i)"
  by (simp add: arr_get_def)

lemma arr_set_ret [simp]: "unat i < length xs \<Longrightarrow> arr_set xs i x = ret (xs[unat i := x])"
  by (simp add: arr_set_def)

text \<open>Division and remainder on \<open>usize\<close>: by zero they are undefined behaviour.\<close>

definition div_usize :: "usize \<Rightarrow> usize \<Rightarrow> usize run" where
  "div_usize a b = (if b = 0 then undefined_behaviour ''division by zero'' else ret (a div b))"

definition mod_usize :: "usize \<Rightarrow> usize \<Rightarrow> usize run" where
  "mod_usize a b = (if b = 0 then undefined_behaviour ''division by zero'' else ret (a mod b))"

lemma div_mod_usize_ret [simp]:
  "b \<noteq> 0 \<Longrightarrow> div_usize a b = ret (a div b)"
  "b \<noteq> 0 \<Longrightarrow> mod_usize a b = ret (a mod b)"
  by (simp_all add: div_usize_def mod_usize_def)

subsection \<open>Words as natural numbers\<close>

text \<open>
  The lemmas that move an index computation on \<open>usize\<close> to \<open>nat\<close>, where the invariants bound
  it. \<open>word_to_nat\<close> is the bundle the component proofs use.
\<close>

lemma unat_usize_add:
  "unat (a + b) = unat a + unat b" if "unat a + unat b < 2 ^ 64" for a b :: usize
  using that by (simp add: unat_word_ariths)

lemma unat_usize_Suc:
  "unat (a + 1) = Suc (unat a)" if "unat a < 2 ^ 64 - 1" for a :: usize
proof -
  have "unat a + unat (1 :: usize) < 2 ^ 64" using that by simp
  then show ?thesis by (simp only: unat_usize_add) simp
qed

lemma unat_usize_pred:
  "unat (a - 1) = unat a - 1" if "a \<noteq> 0" for a :: usize
proof -
  have "0 < unat a" using that by (simp add: unat_gt_0)
  then have "1 \<le> a" by (simp add: word_le_nat_alt)
  then show ?thesis by (simp add: unat_sub)
qed

lemma usize_bound: "unat (a :: usize) < 2 ^ 64"
  using unsigned_less [of a] by simp

lemma unat_usize_lt_Suc:
  "unat (a + 1) = Suc (unat a)" if "a < b" for a b :: usize
proof (rule unat_usize_Suc)
  show "unat a < 2 ^ 64 - 1"
    using that usize_bound [of b] by (simp add: word_less_nat_alt)
qed

lemma unat_of_small: "k < 2 ^ 64 \<Longrightarrow> unat (of_nat k :: usize) = k"
  by (simp add: unat_of_nat take_bit_nat_eq_self_iff)

lemma unat_usize_max: "unat canon_usize_max = 2 ^ 64 - 1"
  by (simp add: canon_usize_max_def)

lemma usize_eq_iff: "a = b \<longleftrightarrow> unat a = unat b" for a b :: usize
  by (rule word_unat_eq_iff)

lemmas word_to_nat = word_less_nat_alt word_le_nat_alt usize_eq_iff

lemma unat_div_word: "unat (a div b) = unat a div unat b" for a b :: usize
  by (rule unat_div)

lemma unat_mod_word: "unat (a mod b) = unat a mod unat b" for a b :: usize
  by (rule unat_mod)

lemma unat_ucast_widen:
  "unat (ucast x :: 'w::len word) = unat x" if "LENGTH('a) \<le> LENGTH('w)" for x :: "'a::len word"
proof -
  have "unat x < 2 ^ LENGTH('w)"
    using unsigned_less [of x] that by (rule order_less_le_trans [OF _ power_increasing]) simp_all
  then show ?thesis by (simp add: unsigned_ucast_eq take_bit_nat_eq_self)
qed

subsection \<open>Lists\<close>

lemma map_nth_upt: "map (\<lambda>i. xs ! i) [0..<length xs] = xs"
  by (rule map_nth)

lemma take_Suc_update:
  "take (Suc n) (xs[n := x]) = take n xs @ [x]" if "n < length xs"
  using that by (simp add: take_Suc_conv_app_nth)

lemma take_update_ge: "n \<le> i \<Longrightarrow> take n (xs[i := x]) = take n xs"
  by simp

lemma case_list_hd: "(case xs of [] \<Rightarrow> a | y # ys \<Rightarrow> f y) = (if xs = [] then a else f (hd xs))"
  by (cases xs) simp_all

lemma case_list_last: "(case rev xs of [] \<Rightarrow> a | y # ys \<Rightarrow> f y) = (if xs = [] then a else f (last xs))"
  by (cases xs rule: rev_cases) simp_all

lemma list_update_swap_nth:
  "k < length xs \<Longrightarrow> xs[i := a, j := b] ! k = (if k = j then b else if k = i then a else xs ! k)"
  by (simp add: nth_list_update)

end
