(* ===== verification/Canon_Semantics.thy ===== *)
theory Canon_Semantics
  imports Canon_Prelude
begin

section \<open>Error codes, Result and Option (semantics/)\<close>

text \<open>
  semantics/error.h: the enum \<open>Error\<close>, its numeric values and its messages.
  semantics/result/result_impl.h and semantics/option/option_impl.h: the tagged structs
  \<open>Result\<close> and \<open>Option\<close> and their combinators. The tag \<open>is_ok\<close> (\<open>has_value\<close>) with the
  union (the value) is a datatype: the code never reads the member the tag rules out,
  except where a violated contract has already stopped the run.
\<close>

subsection \<open>The enum Error\<close>

datatype error =
    ERR_OK
  | ERR_INVALID_ARG | ERR_OUT_OF_RANGE | ERR_PARSE_FAILED | ERR_INVALID_FORMAT | ERR_INVALID_STATE
  | ERR_OUT_OF_MEMORY | ERR_BUFFER_TOO_SMALL | ERR_CAPACITY_EXCEEDED | ERR_NOT_FOUND
  | ERR_IO_FAILED | ERR_PERMISSION | ERR_TIMEOUT | ERR_NOT_SUPPORTED | ERR_ALREADY_EXISTS
  | ERR_OVERFLOW | ERR_UNDERFLOW | ERR_DIVIDE_BY_ZERO
  | ERR_UNKNOWN | ERR_NOT_IMPLEMENTED
  | ERR_COUNT

fun error_code :: "error \<Rightarrow> int" where
  "error_code ERR_OK = 0"
| "error_code ERR_INVALID_ARG = 1"
| "error_code ERR_OUT_OF_RANGE = 2"
| "error_code ERR_PARSE_FAILED = 3"
| "error_code ERR_INVALID_FORMAT = 4"
| "error_code ERR_INVALID_STATE = 5"
| "error_code ERR_OUT_OF_MEMORY = 100"
| "error_code ERR_BUFFER_TOO_SMALL = 101"
| "error_code ERR_CAPACITY_EXCEEDED = 102"
| "error_code ERR_NOT_FOUND = 103"
| "error_code ERR_IO_FAILED = 200"
| "error_code ERR_PERMISSION = 201"
| "error_code ERR_TIMEOUT = 202"
| "error_code ERR_NOT_SUPPORTED = 203"
| "error_code ERR_ALREADY_EXISTS = 204"
| "error_code ERR_OVERFLOW = 300"
| "error_code ERR_UNDERFLOW = 301"
| "error_code ERR_DIVIDE_BY_ZERO = 302"
| "error_code ERR_UNKNOWN = 400"
| "error_code ERR_NOT_IMPLEMENTED = 401"
| "error_code ERR_COUNT = 402"

text \<open>
  \<open>error_message\<close> switches over the enum; its \<open>default\<close> branch (an \<open>int\<close> that is no
  enumerator) answers as \<open>ERR_UNKNOWN\<close> does, and the model's argument is always an
  enumerator.
\<close>

fun error_message :: "error \<Rightarrow> string" where
  "error_message ERR_OK = ''No error''"
| "error_message ERR_INVALID_ARG = ''Invalid argument''"
| "error_message ERR_OUT_OF_RANGE = ''Value out of range''"
| "error_message ERR_PARSE_FAILED = ''Parse failed''"
| "error_message ERR_INVALID_FORMAT = ''Invalid format''"
| "error_message ERR_INVALID_STATE = ''Invalid state''"
| "error_message ERR_OUT_OF_MEMORY = ''Out of memory''"
| "error_message ERR_BUFFER_TOO_SMALL = ''Buffer too small''"
| "error_message ERR_CAPACITY_EXCEEDED = ''Capacity exceeded''"
| "error_message ERR_NOT_FOUND = ''Not found''"
| "error_message ERR_IO_FAILED = ''I/O operation failed''"
| "error_message ERR_PERMISSION = ''Permission denied''"
| "error_message ERR_TIMEOUT = ''Operation timed out''"
| "error_message ERR_NOT_SUPPORTED = ''Not supported''"
| "error_message ERR_ALREADY_EXISTS = ''Already exists''"
| "error_message ERR_OVERFLOW = ''Numeric overflow''"
| "error_message ERR_UNDERFLOW = ''Numeric underflow''"
| "error_message ERR_DIVIDE_BY_ZERO = ''Division by zero''"
| "error_message ERR_UNKNOWN = ''Unknown error''"
| "error_message ERR_NOT_IMPLEMENTED = ''Not implemented''"
| "error_message ERR_COUNT = ''Invalid error code (ERR_COUNT)''"

definition error_is_ok :: "error \<Rightarrow> bool" where
  "error_is_ok e \<longleftrightarrow> e = ERR_OK"

definition error_in_range :: "error \<Rightarrow> bool" where
  "error_in_range e \<longleftrightarrow> error_code ERR_OK \<le> error_code e \<and> error_code e < error_code ERR_COUNT"

subsection \<open>Result\<close>

datatype ('t, 'e) result = Ok 't | Err 'e

type_synonym bool_result = "(bool, error) result"

fun result_is_ok :: "('t, 'e) result \<Rightarrow> bool" where
  "result_is_ok (Ok v) = True"
| "result_is_ok (Err e) = False"

definition result_is_err :: "('t, 'e) result \<Rightarrow> bool" where
  "result_is_err r \<longleftrightarrow> \<not> result_is_ok r"

definition result_get_ok :: "('t, 'e) result \<Rightarrow> 't cptr \<Rightarrow> (bool \<times> 't cptr) run" where
  "result_get_ok r out =
     require_msg (out \<noteq> None) ''result_get_ok: output pointer must not be NULL''
       (case r of Ok v \<Rightarrow> ret (True, Some v) | Err e \<Rightarrow> ret (False, out))"

definition result_get_err :: "('t, 'e) result \<Rightarrow> 'e cptr \<Rightarrow> (bool \<times> 'e cptr) run" where
  "result_get_err r out =
     require_msg (out \<noteq> None) ''result_get_err: output pointer must not be NULL''
       (case r of Ok v \<Rightarrow> ret (False, out) | Err e \<Rightarrow> ret (True, Some e))"

fun result_unwrap_or :: "('t, 'e) result \<Rightarrow> 't \<Rightarrow> 't" where
  "result_unwrap_or (Ok v) fallback = v"
| "result_unwrap_or (Err e) fallback = fallback"

definition result_unwrap :: "('t, 'e) result \<Rightarrow> 't run" where
  "result_unwrap r =
     (case r of Ok v \<Rightarrow> ret v | Err e \<Rightarrow> violation ''result_unwrap: called on Err value'')"

definition result_unwrap_err :: "('t, 'e) result \<Rightarrow> 'e run" where
  "result_unwrap_err r =
     (case r of Ok v \<Rightarrow> violation ''result_unwrap_err: called on Ok value'' | Err e \<Rightarrow> ret e)"

definition result_expect :: "('t, 'e) result \<Rightarrow> string \<Rightarrow> 't run" where
  "result_expect r msg = (case r of Ok v \<Rightarrow> ret v | Err e \<Rightarrow> violation msg)"

fun result_map :: "('t, 'e) result \<Rightarrow> ('t \<Rightarrow> 't) \<Rightarrow> ('t, 'e) result" where
  "result_map (Ok v) f = Ok (f v)"
| "result_map (Err e) f = Err e"

fun result_map_err :: "('t, 'e) result \<Rightarrow> ('e \<Rightarrow> 'e) \<Rightarrow> ('t, 'e) result" where
  "result_map_err (Ok v) f = Ok v"
| "result_map_err (Err e) f = Err (f e)"

fun result_and_then :: "('t, 'e) result \<Rightarrow> ('t \<Rightarrow> ('t, 'e) result) \<Rightarrow> ('t, 'e) result" where
  "result_and_then (Ok v) f = f v"
| "result_and_then (Err e) f = Err e"

fun result_or_else :: "('t, 'e) result \<Rightarrow> ('e \<Rightarrow> ('t, 'e) result) \<Rightarrow> ('t, 'e) result" where
  "result_or_else (Ok v) f = Ok v"
| "result_or_else (Err e) f = f e"

definition result_and :: "('t, 'e) result \<Rightarrow> ('t, 'e) result \<Rightarrow> ('t, 'e) result" where
  "result_and r other = (if result_is_ok r then other else r)"

definition result_or :: "('t, 'e) result \<Rightarrow> ('t, 'e) result \<Rightarrow> ('t, 'e) result" where
  "result_or r other = (if result_is_ok r then r else other)"

fun result_eq ::
  "('t, 'e) result \<Rightarrow> ('t, 'e) result \<Rightarrow> ('t \<Rightarrow> 't \<Rightarrow> bool) \<Rightarrow> ('e \<Rightarrow> 'e \<Rightarrow> bool) \<Rightarrow> bool" where
  "result_eq (Ok a) (Ok b) eq_ok eq_err = eq_ok a b"
| "result_eq (Err a) (Err b) eq_ok eq_err = eq_err a b"
| "result_eq r1 r2 eq_ok eq_err = False"

subsection \<open>Option\<close>

text \<open>\<open>option_T\<close> of the code is HOL's \<open>option\<close>: \<open>option_T_none()\<close> is \<open>None\<close>.\<close>

definition option_some :: "'t \<Rightarrow> 't option" where
  "option_some v = Some v"

definition option_none :: "'t option" where
  "option_none = None"

definition option_is_some :: "'t option \<Rightarrow> bool" where
  "option_is_some opt \<longleftrightarrow> (case opt of None \<Rightarrow> False | Some v \<Rightarrow> True)"

definition option_is_none :: "'t option \<Rightarrow> bool" where
  "option_is_none opt \<longleftrightarrow> \<not> option_is_some opt"

definition option_get :: "'t option \<Rightarrow> 't cptr \<Rightarrow> (bool \<times> 't cptr) run" where
  "option_get opt out =
     require_msg (out \<noteq> None) ''option_get: out parameter cannot be NULL''
       (case opt of Some v \<Rightarrow> ret (True, Some v) | None \<Rightarrow> ret (False, out))"

definition option_unwrap_or :: "'t option \<Rightarrow> 't \<Rightarrow> 't" where
  "option_unwrap_or opt fallback = (case opt of Some v \<Rightarrow> v | None \<Rightarrow> fallback)"

definition option_unwrap :: "'t option \<Rightarrow> 't run" where
  "option_unwrap opt =
     (case opt of Some v \<Rightarrow> ret v | None \<Rightarrow> violation ''option_unwrap called on None'')"

definition option_expect :: "'t option \<Rightarrow> string \<Rightarrow> 't run" where
  "option_expect opt msg = (case opt of Some v \<Rightarrow> ret v | None \<Rightarrow> violation msg)"

definition option_map :: "'t option \<Rightarrow> ('t \<Rightarrow> 't) \<Rightarrow> 't option" where
  "option_map opt f = (case opt of Some v \<Rightarrow> option_some (f v) | None \<Rightarrow> option_none)"

definition option_and_then :: "'t option \<Rightarrow> ('t \<Rightarrow> 't option) \<Rightarrow> 't option" where
  "option_and_then opt f = (case opt of Some v \<Rightarrow> f v | None \<Rightarrow> option_none)"

definition option_or_else :: "'t option \<Rightarrow> (unit \<Rightarrow> 't option) \<Rightarrow> 't option" where
  "option_or_else opt fallback = (case opt of Some v \<Rightarrow> opt | None \<Rightarrow> fallback ())"

definition option_filter :: "'t option \<Rightarrow> ('t \<Rightarrow> bool) \<Rightarrow> 't option" where
  "option_filter opt pred =
     (case opt of Some v \<Rightarrow> (if pred v then opt else option_none) | None \<Rightarrow> option_none)"

definition option_combine_with :: "'t option \<Rightarrow> 't option \<Rightarrow> ('t \<Rightarrow> 't \<Rightarrow> 't) \<Rightarrow> 't option" where
  "option_combine_with o1 o2 combine =
     (case (o1, o2) of (Some a, Some b) \<Rightarrow> option_some (combine a b) | _ \<Rightarrow> option_none)"

definition option_replace :: "'t option cptr \<Rightarrow> 't \<Rightarrow> ('t option \<times> 't option cptr) run" where
  "option_replace p new_value =
     require_msg (p \<noteq> None) ''option_replace: o parameter cannot be NULL''
       (bindR (deref p) (\<lambda>old. ret (old, Some (option_some new_value))))"

definition option_take :: "'t option cptr \<Rightarrow> ('t option \<times> 't option cptr) run" where
  "option_take p =
     require_msg (p \<noteq> None) ''option_take: o parameter cannot be NULL''
       (bindR (deref p) (\<lambda>old. ret (old, Some option_none)))"

definition option_eq :: "'t option \<Rightarrow> 't option \<Rightarrow> ('t \<Rightarrow> 't \<Rightarrow> bool) \<Rightarrow> bool" where
  "option_eq o1 o2 eq =
     (case (o1, o2) of
        (None, None) \<Rightarrow> True
      | (Some a, Some b) \<Rightarrow> eq a b
      | _ \<Rightarrow> False)"

subsection \<open>Lemmas\<close>

lemmas option_defs = option_some_def option_none_def option_is_some_def option_is_none_def
  option_map_def option_and_then_def option_or_else_def option_filter_def
  option_combine_with_def option_unwrap_or_def

lemma option_some_none [simp]: "option_some v = Some v" "option_none = None"
  by (simp_all add: option_defs)

text \<open>The enumerators have different codes, and \<open>ERR_COUNT\<close> is the largest.\<close>

lemma error_code_inj: "error_code a = error_code b \<Longrightarrow> a = b"
  by (cases a; cases b) simp_all

lemma error_in_range_iff: "error_in_range e \<longleftrightarrow> e \<noteq> ERR_COUNT"
  by (cases e) (simp_all add: error_in_range_def)

text \<open>The monad laws of \<open>and_then\<close> with \<open>Ok\<close>, and the duality with \<open>or_else\<close>.\<close>

lemma result_and_then_assoc:
  "result_and_then (result_and_then r f) g = result_and_then r (\<lambda>v. result_and_then (f v) g)"
  by (cases r) simp_all

lemma result_or_else_assoc:
  "result_or_else (result_or_else r f) g = result_or_else r (\<lambda>e. result_or_else (f e) g)"
  by (cases r) simp_all

lemma result_map_eq_and_then: "result_map r f = result_and_then r (\<lambda>v. Ok (f v))"
  by (cases r) simp_all

lemma result_eq_equality: "result_eq r1 r2 (=) (=) \<longleftrightarrow> r1 = r2"
  by (cases r1; cases r2) simp_all

lemma option_and_then_assoc:
  "option_and_then (option_and_then opt f) g = option_and_then opt (\<lambda>v. option_and_then (f v) g)"
  by (cases opt) (simp_all add: option_defs)

lemma option_eq_equality: "option_eq o1 o2 (=) \<longleftrightarrow> o1 = o2"
  by (cases o1; cases o2) (simp_all add: option_eq_def)

text \<open>\<open>unwrap\<close> returns exactly on \<open>Ok\<close>, and then what \<open>unwrap_or\<close> returns.\<close>

lemma result_unwrap_returns: "returns (result_unwrap r) \<longleftrightarrow> result_is_ok r"
  by (cases r) (simp_all add: result_unwrap_def)

lemma result_unwrap_unwrap_or:
  "result_is_ok r \<Longrightarrow> result_unwrap r = ret (result_unwrap_or r d)"
  by (cases r) (simp_all add: result_unwrap_def)

text \<open>\<open>take\<close> leaves the option empty: taking twice gives \<open>None\<close> the second time.\<close>

lemma option_take_twice:
  "option_take (Some opt) = ret (opt, Some None)"
  "option_take (Some None) = ret (None, Some None)"
  by (simp_all add: option_take_def)

lemma option_replace_take:
  "bindR (option_replace (Some opt) v) (\<lambda>(old, p). option_take p) = ret (Some v, Some None)"
  by (simp add: option_replace_def option_take_def)

end
