(* ===== verification/Canon_Checked.thy ===== *)
theory Canon_Checked
  imports Canon_Prelude "HOL-Library.Signed_Division"
begin

section \<open>Checked arithmetic (core/primitives/checked.h)\<close>

text \<open>
  Addition, subtraction, multiplication, division and remainder with overflow detection,
  for the unsigned widths and for \<open>isize\<close>. Every function stores through a result
  pointer and returns whether the operation was exact; the model returns the pair of the
  returned bool and the result pointer.

  The add, sub and mul functions have two bodies, chosen by \<open>CANON_HAS_BUILTIN_OVERFLOW\<close>:
  the compiler builtin and the portable fallback. The argument \<open>builtin\<close> of the model is
  that macro, and \<open>builtin_add_overflow\<close> and its kin are the documented effect of the
  compiler's builtins: the wrapped result is stored, and the call tells whether the exact
  result does not fit. The other theories call the fallback, which is also the body the
  repository verifies; for the unsigned functions the two agree on everything.
\<close>

subsection \<open>The compiler builtins and the assertion on the result pointer\<close>

definition builtin_add_overflow :: "'w::len word \<Rightarrow> 'w word \<Rightarrow> bool \<times> 'w word" where
  "builtin_add_overflow a b = (2 ^ LENGTH('w) \<le> unat a + unat b, a + b)"

definition builtin_sub_overflow :: "'w::len word \<Rightarrow> 'w word \<Rightarrow> bool \<times> 'w word" where
  "builtin_sub_overflow a b = (unat a < unat b, a - b)"

definition builtin_mul_overflow :: "'w::len word \<Rightarrow> 'w word \<Rightarrow> bool \<times> 'w word" where
  "builtin_mul_overflow a b = (2 ^ LENGTH('w) \<le> unat a * unat b, a * b)"

text \<open>The signed builtins store the exact result reduced to two's complement.\<close>

definition wrap_isize :: "int \<Rightarrow> isize" where
  "wrap_isize x = (x + 2 ^ 63) mod 2 ^ 64 - 2 ^ 63"

definition builtin_overflow_isize :: "int \<Rightarrow> bool \<times> isize" where
  "builtin_overflow_isize exact = (\<not> isize_ok exact, wrap_isize exact)"

definition checked_assert_result :: "'a cptr \<Rightarrow> 'b run \<Rightarrow> 'b run" where
  "checked_assert_result p k =
     require_msg (p \<noteq> None) ''checked: result pointer must not be NULL'' k"

definition store_builtin :: "bool \<times> 'a \<Rightarrow> (bool \<times> 'a cptr) run" where
  "store_builtin r = ret (\<not> fst r, Some (snd r))"

subsection \<open>Addition\<close>

definition checked_add :: "bool \<Rightarrow> usize \<Rightarrow> usize \<Rightarrow> usize cptr \<Rightarrow> (bool \<times> usize cptr) run" where
  "checked_add builtin a b result = checked_assert_result result
     (if builtin then store_builtin (builtin_add_overflow a b)
      else (let r = a + b in ret (a \<le> r, Some r)))"

definition checked_add_u8 :: "bool \<Rightarrow> u8 \<Rightarrow> u8 \<Rightarrow> u8 cptr \<Rightarrow> (bool \<times> u8 cptr) run" where
  "checked_add_u8 builtin a b result = checked_assert_result result
     (if builtin then store_builtin (builtin_add_overflow a b)
      else (let total = (ucast a :: u16) + ucast b in ret (total \<le> 0xFF, Some (ucast total))))"

definition checked_add_u16 :: "bool \<Rightarrow> u16 \<Rightarrow> u16 \<Rightarrow> u16 cptr \<Rightarrow> (bool \<times> u16 cptr) run" where
  "checked_add_u16 builtin a b result = checked_assert_result result
     (if builtin then store_builtin (builtin_add_overflow a b)
      else (let total = (ucast a :: u32) + ucast b in ret (total \<le> 0xFFFF, Some (ucast total))))"

definition checked_add_u32 :: "bool \<Rightarrow> u32 \<Rightarrow> u32 \<Rightarrow> u32 cptr \<Rightarrow> (bool \<times> u32 cptr) run" where
  "checked_add_u32 builtin a b result = checked_assert_result result
     (if builtin then store_builtin (builtin_add_overflow a b)
      else (let total = (ucast a :: u64) + ucast b in ret (total \<le> 0xFFFFFFFF, Some (ucast total))))"

definition checked_add_u64 :: "bool \<Rightarrow> u64 \<Rightarrow> u64 \<Rightarrow> u64 cptr \<Rightarrow> (bool \<times> u64 cptr) run" where
  "checked_add_u64 builtin a b result = checked_assert_result result
     (if builtin then store_builtin (builtin_add_overflow a b)
      else (let r = a + b in ret (a \<le> r, Some r)))"

subsection \<open>Subtraction\<close>

definition checked_sub :: "bool \<Rightarrow> usize \<Rightarrow> usize \<Rightarrow> usize cptr \<Rightarrow> (bool \<times> usize cptr) run" where
  "checked_sub builtin a b result = checked_assert_result result
     (if builtin then store_builtin (builtin_sub_overflow a b)
      else ret (b \<le> a, Some (a - b)))"

definition checked_sub_u8 :: "bool \<Rightarrow> u8 \<Rightarrow> u8 \<Rightarrow> u8 cptr \<Rightarrow> (bool \<times> u8 cptr) run" where
  "checked_sub_u8 builtin a b result = checked_assert_result result
     (if builtin then store_builtin (builtin_sub_overflow a b)
      else ret (b \<le> a, Some (a - b)))"

definition checked_sub_u16 :: "bool \<Rightarrow> u16 \<Rightarrow> u16 \<Rightarrow> u16 cptr \<Rightarrow> (bool \<times> u16 cptr) run" where
  "checked_sub_u16 builtin a b result = checked_assert_result result
     (if builtin then store_builtin (builtin_sub_overflow a b)
      else ret (b \<le> a, Some (a - b)))"

definition checked_sub_u32 :: "bool \<Rightarrow> u32 \<Rightarrow> u32 \<Rightarrow> u32 cptr \<Rightarrow> (bool \<times> u32 cptr) run" where
  "checked_sub_u32 builtin a b result = checked_assert_result result
     (if builtin then store_builtin (builtin_sub_overflow a b)
      else ret (b \<le> a, Some (a - b)))"

definition checked_sub_u64 :: "bool \<Rightarrow> u64 \<Rightarrow> u64 \<Rightarrow> u64 cptr \<Rightarrow> (bool \<times> u64 cptr) run" where
  "checked_sub_u64 builtin a b result = checked_assert_result result
     (if builtin then store_builtin (builtin_sub_overflow a b)
      else ret (b \<le> a, Some (a - b)))"

subsection \<open>Multiplication\<close>

definition checked_mul :: "bool \<Rightarrow> usize \<Rightarrow> usize \<Rightarrow> usize cptr \<Rightarrow> (bool \<times> usize cptr) run" where
  "checked_mul builtin a b result = checked_assert_result result
     (if builtin then store_builtin (builtin_mul_overflow a b)
      else if a = 0 \<or> b = 0 then ret (True, Some 0)
      else (let r = a * b in ret (r div a = b, Some r)))"

definition checked_mul_u8 :: "bool \<Rightarrow> u8 \<Rightarrow> u8 \<Rightarrow> u8 cptr \<Rightarrow> (bool \<times> u8 cptr) run" where
  "checked_mul_u8 builtin a b result = checked_assert_result result
     (if builtin then store_builtin (builtin_mul_overflow a b)
      else (let product = (ucast a :: u16) * ucast b in ret (product \<le> 0xFF, Some (ucast product))))"

definition checked_mul_u16 :: "bool \<Rightarrow> u16 \<Rightarrow> u16 \<Rightarrow> u16 cptr \<Rightarrow> (bool \<times> u16 cptr) run" where
  "checked_mul_u16 builtin a b result = checked_assert_result result
     (if builtin then store_builtin (builtin_mul_overflow a b)
      else (let product = (ucast a :: u32) * ucast b in ret (product \<le> 0xFFFF, Some (ucast product))))"

definition checked_mul_u32 :: "bool \<Rightarrow> u32 \<Rightarrow> u32 \<Rightarrow> u32 cptr \<Rightarrow> (bool \<times> u32 cptr) run" where
  "checked_mul_u32 builtin a b result = checked_assert_result result
     (if builtin then store_builtin (builtin_mul_overflow a b)
      else (let product = (ucast a :: u64) * ucast b in ret (product \<le> 0xFFFFFFFF, Some (ucast product))))"

definition checked_mul_u64 :: "bool \<Rightarrow> u64 \<Rightarrow> u64 \<Rightarrow> u64 cptr \<Rightarrow> (bool \<times> u64 cptr) run" where
  "checked_mul_u64 builtin a b result = checked_assert_result result
     (if builtin then store_builtin (builtin_mul_overflow a b)
      else if a = 0 \<or> b = 0 then ret (True, Some 0)
      else (let r = a * b in ret (r div a = b, Some r)))"

subsection \<open>Signed addition, subtraction and multiplication\<close>

text \<open>
  Signed operations are written with \<open>isize_val\<close>: the result is undefined behaviour when it
  does not fit, also for the intermediate values of the guards. C's division truncates.
\<close>

definition checked_add_isize :: "bool \<Rightarrow> isize \<Rightarrow> isize \<Rightarrow> isize cptr \<Rightarrow> (bool \<times> isize cptr) run" where
  "checked_add_isize builtin a b result = checked_assert_result result
     (if builtin then store_builtin (builtin_overflow_isize (a + b))
      else if 0 < a \<and> 0 < b then
        bindR (isize_val (canon_isize_max - a)) (\<lambda>room.
          if room < b then ret (False, result)
          else bindR (isize_val (a + b)) (\<lambda>r. ret (True, Some r)))
      else if a < 0 \<and> b < 0 then
        bindR (isize_val (canon_isize_min - a)) (\<lambda>room.
          if b < room then ret (False, result)
          else bindR (isize_val (a + b)) (\<lambda>r. ret (True, Some r)))
      else bindR (isize_val (a + b)) (\<lambda>r. ret (True, Some r)))"

definition checked_sub_isize :: "bool \<Rightarrow> isize \<Rightarrow> isize \<Rightarrow> isize cptr \<Rightarrow> (bool \<times> isize cptr) run" where
  "checked_sub_isize builtin a b result = checked_assert_result result
     (if builtin then store_builtin (builtin_overflow_isize (a - b))
      else if 0 < b then
        bindR (isize_val (canon_isize_min + b)) (\<lambda>low.
          if a < low then ret (False, result)
          else bindR (isize_val (a - b)) (\<lambda>r. ret (True, Some r)))
      else if b < 0 then
        bindR (isize_val (canon_isize_max + b)) (\<lambda>high.
          if high < a then ret (False, result)
          else bindR (isize_val (a - b)) (\<lambda>r. ret (True, Some r)))
      else bindR (isize_val (a - b)) (\<lambda>r. ret (True, Some r)))"

definition checked_mul_isize :: "bool \<Rightarrow> isize \<Rightarrow> isize \<Rightarrow> isize cptr \<Rightarrow> (bool \<times> isize cptr) run" where
  "checked_mul_isize builtin a b result = checked_assert_result result
     (if builtin then store_builtin (builtin_overflow_isize (a * b))
      else if a = 0 \<or> b = 0 then ret (True, Some 0)
      else if a = 1 then ret (True, Some b)
      else if b = 1 then ret (True, Some a)
      else if a = canon_isize_min \<or> b = canon_isize_min then ret (False, result)
      else if 0 < a \<and> 0 < b \<and> canon_isize_max sdiv b < a then ret (False, result)
      else if a < 0 \<and> b < 0 \<and> a < canon_isize_max sdiv b then ret (False, result)
      else if 0 < a \<and> b < 0 \<and> b < canon_isize_min sdiv a then ret (False, result)
      else if a < 0 \<and> 0 < b \<and> a < canon_isize_min sdiv b then ret (False, result)
      else bindR (isize_val (a * b)) (\<lambda>r. ret (True, Some r)))"

subsection \<open>Division and remainder\<close>

definition checked_div :: "usize \<Rightarrow> usize \<Rightarrow> usize cptr \<Rightarrow> (bool \<times> usize cptr) run" where
  "checked_div a b result = checked_assert_result result
     (if b = 0 then ret (False, result) else ret (True, Some (a div b)))"

definition checked_div_u8 :: "u8 \<Rightarrow> u8 \<Rightarrow> u8 cptr \<Rightarrow> (bool \<times> u8 cptr) run" where
  "checked_div_u8 a b result = checked_assert_result result
     (if b = 0 then ret (False, result) else ret (True, Some (a div b)))"

definition checked_div_u16 :: "u16 \<Rightarrow> u16 \<Rightarrow> u16 cptr \<Rightarrow> (bool \<times> u16 cptr) run" where
  "checked_div_u16 a b result = checked_assert_result result
     (if b = 0 then ret (False, result) else ret (True, Some (a div b)))"

definition checked_div_u32 :: "u32 \<Rightarrow> u32 \<Rightarrow> u32 cptr \<Rightarrow> (bool \<times> u32 cptr) run" where
  "checked_div_u32 a b result = checked_assert_result result
     (if b = 0 then ret (False, result) else ret (True, Some (a div b)))"

definition checked_div_u64 :: "u64 \<Rightarrow> u64 \<Rightarrow> u64 cptr \<Rightarrow> (bool \<times> u64 cptr) run" where
  "checked_div_u64 a b result = checked_assert_result result
     (if b = 0 then ret (False, result) else ret (True, Some (a div b)))"

definition checked_div_isize :: "isize \<Rightarrow> isize \<Rightarrow> isize cptr \<Rightarrow> (bool \<times> isize cptr) run" where
  "checked_div_isize a b result = checked_assert_result result
     (if b = 0 then ret (False, result)
      else if a = canon_isize_min \<and> b = -1 then ret (False, result)
      else bindR (isize_val (a sdiv b)) (\<lambda>q. ret (True, Some q)))"

definition checked_mod :: "usize \<Rightarrow> usize \<Rightarrow> usize cptr \<Rightarrow> (bool \<times> usize cptr) run" where
  "checked_mod a b result = checked_assert_result result
     (if b = 0 then ret (False, result) else ret (True, Some (a mod b)))"

definition checked_mod_u8 :: "u8 \<Rightarrow> u8 \<Rightarrow> u8 cptr \<Rightarrow> (bool \<times> u8 cptr) run" where
  "checked_mod_u8 a b result = checked_assert_result result
     (if b = 0 then ret (False, result) else ret (True, Some (a mod b)))"

definition checked_mod_u16 :: "u16 \<Rightarrow> u16 \<Rightarrow> u16 cptr \<Rightarrow> (bool \<times> u16 cptr) run" where
  "checked_mod_u16 a b result = checked_assert_result result
     (if b = 0 then ret (False, result) else ret (True, Some (a mod b)))"

definition checked_mod_u32 :: "u32 \<Rightarrow> u32 \<Rightarrow> u32 cptr \<Rightarrow> (bool \<times> u32 cptr) run" where
  "checked_mod_u32 a b result = checked_assert_result result
     (if b = 0 then ret (False, result) else ret (True, Some (a mod b)))"

definition checked_mod_u64 :: "u64 \<Rightarrow> u64 \<Rightarrow> u64 cptr \<Rightarrow> (bool \<times> u64 cptr) run" where
  "checked_mod_u64 a b result = checked_assert_result result
     (if b = 0 then ret (False, result) else ret (True, Some (a mod b)))"

definition checked_mod_isize :: "isize \<Rightarrow> isize \<Rightarrow> isize cptr \<Rightarrow> (bool \<times> isize cptr) run" where
  "checked_mod_isize a b result = checked_assert_result result
     (if b = 0 then ret (False, result)
      else if a = canon_isize_min \<and> b = -1 then ret (False, result)
      else bindR (isize_val (a sdiv b)) (\<lambda>q. ret (True, Some (a smod b))))"

text \<open>
  C makes \<open>a % b\<close> undefined whenever \<open>a / b\<close> overflows, hence the quotient in
  \<open>checked_mod_isize\<close>.
\<close>


subsection \<open>Overflow tests on words\<close>

text \<open>
  The three overflow tests of the fallbacks: \<open>a \<le> a + b\<close> for addition, division back for
  multiplication, and the comparison with the largest narrow value after computing in the
  double width.
\<close>

lemma word_add_no_overflow_iff:
  "a \<le> a + b \<longleftrightarrow> unat a + unat b < 2 ^ LENGTH('w)" for a b :: "'w::len word"
proof
  assume le: "a \<le> a + b"
  show "unat a + unat b < 2 ^ LENGTH('w)"
  proof (rule ccontr)
    assume "\<not> ?thesis"
    then have ge: "2 ^ LENGTH('w) \<le> unat a + unat b" by simp
    have lt: "unat a < 2 ^ LENGTH('w)" "unat b < 2 ^ LENGTH('w)" by (rule unsigned_less)+
    have "unat (a + b) = (unat a + unat b) mod 2 ^ LENGTH('w)" by (rule unat_word_ariths(1))
    also have "\<dots> = (unat a + unat b - 2 ^ LENGTH('w)) mod 2 ^ LENGTH('w)"
      by (rule le_mod_geq [OF ge])
    also have "\<dots> = unat a + unat b - 2 ^ LENGTH('w)"
      using lt by (intro mod_less) linarith
    finally have "unat a \<le> unat a + unat b - 2 ^ LENGTH('w)"
      using le by (simp add: word_le_nat_alt)
    then show False using lt ge by linarith
  qed
next
  assume "unat a + unat b < 2 ^ LENGTH('w)"
  then have "unat (a + b) = unat a + unat b" by (simp add: unat_word_ariths)
  then show "a \<le> a + b" by (simp add: word_le_nat_alt)
qed

lemma word_mult_no_overflow_iff:
  "a * b div a = b \<longleftrightarrow> unat a * unat b < 2 ^ LENGTH('w)" if "a \<noteq> 0" for a b :: "'w::len word"
proof
  assume eq: "a * b div a = b"
  have "unat a * unat b = unat a * unat (a * b div a)" by (simp add: eq)
  also have "\<dots> = unat a * (unat (a * b) div unat a)" by (simp add: unat_div)
  also have "\<dots> \<le> unat (a * b)" by simp
  also have "\<dots> < 2 ^ LENGTH('w)" by (rule unsigned_less)
  finally show "unat a * unat b < 2 ^ LENGTH('w)" .
next
  assume "unat a * unat b < 2 ^ LENGTH('w)"
  then have "unat (a * b) = unat a * unat b" by (simp add: unat_word_ariths)
  moreover have "unat a \<noteq> 0" using that by (simp add: unat_eq_0)
  ultimately have "unat (a * b div a) = unat b" by (simp add: unat_div)
  then show "a * b div a = b" by (simp add: word_unat_eq_iff)
qed

lemma double_width_bound: "2 * 2 ^ k \<le> (2::nat) ^ (2 * k)" if "0 < k"
proof -
  have "(2::nat) ^ Suc k \<le> 2 ^ (2 * k)" using that by (intro power_increasing) auto
  then show ?thesis by simp
qed

lemma widened_add:
  fixes a b :: "'a::len word"
  assumes "LENGTH('w::len) = 2 * LENGTH('a)"
  shows "unat ((ucast a :: 'w word) + ucast b) = unat a + unat b"
    and "ucast ((ucast a :: 'w word) + ucast b) = a + b"
proof -
  have lt: "unat a < 2 ^ LENGTH('a)" "unat b < 2 ^ LENGTH('a)" by (rule unsigned_less)+
  have "unat a + unat b < 2 * 2 ^ LENGTH('a)" using lt by linarith
  also have "\<dots> \<le> 2 ^ LENGTH('w)" unfolding assms by (rule double_width_bound) simp
  finally have small: "unat a + unat b < 2 ^ LENGTH('w)" .
  have cast: "unat (ucast x :: 'w word) = unat x" for x :: "'a word"
    by (rule unat_ucast_widen) (simp add: assms)
  show "unat ((ucast a :: 'w word) + ucast b) = unat a + unat b"
    using small by (simp add: unat_word_ariths cast)
  then show "ucast ((ucast a :: 'w word) + ucast b) = a + b"
    by (simp add: word_unat_eq_iff unsigned_ucast_eq unat_word_ariths take_bit_eq_mod)
qed

lemma widened_mult:
  fixes a b :: "'a::len word"
  assumes "LENGTH('w::len) = 2 * LENGTH('a)"
  shows "unat ((ucast a :: 'w word) * ucast b) = unat a * unat b"
    and "ucast ((ucast a :: 'w word) * ucast b) = a * b"
proof -
  have lt: "unat a < 2 ^ LENGTH('a)" "unat b < 2 ^ LENGTH('a)" by (rule unsigned_less)+
  have "unat a * unat b < 2 ^ LENGTH('a) * 2 ^ LENGTH('a)"
    using lt by (intro mult_strict_mono) simp_all
  also have "\<dots> = 2 ^ LENGTH('w)" by (simp add: assms mult_2 power_add)
  finally have small: "unat a * unat b < 2 ^ LENGTH('w)" .
  have cast: "unat (ucast x :: 'w word) = unat x" for x :: "'a word"
    by (rule unat_ucast_widen) (simp add: assms)
  show "unat ((ucast a :: 'w word) * ucast b) = unat a * unat b"
    using small by (simp add: unat_word_ariths cast)
  then show "ucast ((ucast a :: 'w word) * ucast b) = a * b"
    by (simp add: word_unat_eq_iff unsigned_ucast_eq unat_word_ariths take_bit_eq_mod)
qed

subsection \<open>Every unsigned function is exact, on both bodies\<close>

text \<open>
  The value of each function with a result pointer, whatever body the build selects: the
  bool tells whether the mathematical result fits, and the stored value is the wrapped one.
  With a null result pointer the assertion fires.
\<close>

lemma checked_assert_result_simps [simp]:
  "checked_assert_result (Some r) k = k"
  "checked_assert_result None k = violation ''checked: result pointer must not be NULL''"
  by (simp_all add: checked_assert_result_def)

lemmas builtin_defs = store_builtin_def builtin_add_overflow_def builtin_sub_overflow_def
  builtin_mul_overflow_def

lemma checked_add_exact [simp]:
  "checked_add builtin a b (Some r) = ret (unat a + unat b < 2 ^ 64, Some (a + b))"
  using word_add_no_overflow_iff [of a b] by (simp add: checked_add_def builtin_defs not_le)

lemma checked_add_u64_exact [simp]:
  "checked_add_u64 builtin a b (Some r) = ret (unat a + unat b < 2 ^ 64, Some (a + b))"
  using word_add_no_overflow_iff [of a b] by (simp add: checked_add_u64_def builtin_defs not_le)

lemma checked_add_u8_exact [simp]:
  "checked_add_u8 builtin a b (Some r) = ret (unat a + unat b < 2 ^ 8, Some (a + b))"
  using widened_add [where 'w = 16, of a b]
  by (auto simp: checked_add_u8_def builtin_defs word_le_nat_alt)

lemma checked_add_u16_exact [simp]:
  "checked_add_u16 builtin a b (Some r) = ret (unat a + unat b < 2 ^ 16, Some (a + b))"
  using widened_add [where 'w = 32, of a b]
  by (auto simp: checked_add_u16_def builtin_defs word_le_nat_alt)

lemma checked_add_u32_exact [simp]:
  "checked_add_u32 builtin a b (Some r) = ret (unat a + unat b < 2 ^ 32, Some (a + b))"
  using widened_add [where 'w = 64, of a b]
  by (auto simp: checked_add_u32_def builtin_defs word_le_nat_alt)

lemma checked_sub_exact [simp]:
  "checked_sub builtin a b (Some r) = ret (unat b \<le> unat a, Some (a - b))"
  "checked_sub_u64 builtin a b (Some r) = ret (unat b \<le> unat a, Some (a - b))"
  by (simp_all add: checked_sub_def checked_sub_u64_def builtin_defs word_le_nat_alt not_less)

lemma checked_sub_u32_exact [simp]:
  "checked_sub_u32 builtin c d (Some q) = ret (unat d \<le> unat c, Some (c - d))"
  by (simp add: checked_sub_u32_def builtin_defs word_le_nat_alt not_less)

lemma checked_sub_u16_exact [simp]:
  "checked_sub_u16 builtin c d (Some q) = ret (unat d \<le> unat c, Some (c - d))"
  by (simp add: checked_sub_u16_def builtin_defs word_le_nat_alt not_less)

lemma checked_sub_u8_exact [simp]:
  "checked_sub_u8 builtin c d (Some q) = ret (unat d \<le> unat c, Some (c - d))"
  by (simp add: checked_sub_u8_def builtin_defs word_le_nat_alt not_less)

lemma checked_mul_exact [simp]:
  "checked_mul builtin a b (Some r) = ret (unat a * unat b < 2 ^ 64, Some (a * b))"
proof (cases "a = 0")
  case True
  then show ?thesis by (simp add: checked_mul_def builtin_defs)
next
  case False
  with word_mult_no_overflow_iff [of a b] show ?thesis
    by (auto simp: checked_mul_def builtin_defs not_le)
qed

lemma checked_mul_u64_exact [simp]:
  "checked_mul_u64 builtin a b (Some r) = ret (unat a * unat b < 2 ^ 64, Some (a * b))"
  using checked_mul_exact [of builtin a b r] by (simp add: checked_mul_def checked_mul_u64_def)

lemma checked_mul_u8_exact [simp]:
  "checked_mul_u8 builtin a b (Some r) = ret (unat a * unat b < 2 ^ 8, Some (a * b))"
  using widened_mult [where 'w = 16, of a b]
  by (auto simp: checked_mul_u8_def builtin_defs word_le_nat_alt)

lemma checked_mul_u16_exact [simp]:
  "checked_mul_u16 builtin a b (Some r) = ret (unat a * unat b < 2 ^ 16, Some (a * b))"
  using widened_mult [where 'w = 32, of a b]
  by (auto simp: checked_mul_u16_def builtin_defs word_le_nat_alt)

lemma checked_mul_u32_exact [simp]:
  "checked_mul_u32 builtin a b (Some r) = ret (unat a * unat b < 2 ^ 32, Some (a * b))"
  using widened_mult [where 'w = 64, of a b]
  by (auto simp: checked_mul_u32_def builtin_defs word_le_nat_alt)

subsection \<open>The signed functions are exact and never overflow\<close>

lemmas isize_defs = isize_ok_def isize_val_def canon_isize_min_def canon_isize_max_def

lemma isize_val_ret: "isize_ok x \<Longrightarrow> isize_val x = ret x"
  by (simp add: isize_ok_def isize_val_def)

definition store_exact :: "int \<Rightarrow> isize \<Rightarrow> (bool \<times> isize cptr) run" where
  "store_exact x r = (if isize_ok x then ret (True, Some x) else ret (False, Some r))"

lemma checked_add_isize_exact:
  "isize_ok a \<Longrightarrow> isize_ok b \<Longrightarrow> checked_add_isize False a b (Some r) = store_exact (a + b) r"
  by (simp add: checked_add_isize_def store_exact_def isize_defs) linarith

lemma checked_sub_isize_exact:
  "isize_ok a \<Longrightarrow> isize_ok b \<Longrightarrow> checked_sub_isize False a b (Some r) = store_exact (a - b) r"
  by (simp add: checked_sub_isize_def store_exact_def isize_defs)

text \<open>The four guards of \<open>checked_mul_isize\<close>, one per pair of signs, by division.\<close>

lemma int_div_less_iff: "m div b < a \<longleftrightarrow> m < a * b" if "0 < b" for a b m :: int
proof
  assume "m div b < a"
  then have "(m div b + 1) * b \<le> a * b" using that by (intro mult_right_mono) simp_all
  moreover have "m < (m div b + 1) * b"
    using pos_mod_bound [OF that, of m] div_mult_mod_eq [of m b]
    unfolding distrib_right mult_1 by linarith
  ultimately show "m < a * b" by linarith
next
  assume lt: "m < a * b"
  show "m div b < a"
  proof (rule ccontr)
    assume "\<not> ?thesis"
    then have "a * b \<le> m div b * b" using that by (intro mult_right_mono) simp_all
    moreover have "m div b * b \<le> m"
      using pos_mod_sign [OF that, of m] div_mult_mod_eq [of m b] by linarith
    ultimately show False using lt by linarith
  qed
qed

lemma sdiv_guards:
  fixes a b m :: int
  shows "0 < a \<Longrightarrow> 0 < b \<Longrightarrow> 0 < m \<Longrightarrow> m sdiv b < a \<longleftrightarrow> m < a * b"
    and "a < 0 \<Longrightarrow> b < 0 \<Longrightarrow> 0 < m \<Longrightarrow> a < m sdiv b \<longleftrightarrow> m < a * b"
    and "0 < a \<Longrightarrow> b < 0 \<Longrightarrow> m < 0 \<Longrightarrow> b < m sdiv a \<longleftrightarrow> a * b < m"
    and "a < 0 \<Longrightarrow> 0 < b \<Longrightarrow> m < 0 \<Longrightarrow> a < m sdiv b \<longleftrightarrow> a * b < m"
proof -
  show "0 < a \<Longrightarrow> 0 < b \<Longrightarrow> 0 < m \<Longrightarrow> m sdiv b < a \<longleftrightarrow> m < a * b"
    by (simp add: signed_divide_int_def int_div_less_iff)
  show "a < 0 \<Longrightarrow> b < 0 \<Longrightarrow> 0 < m \<Longrightarrow> a < m sdiv b \<longleftrightarrow> m < a * b"
    using int_div_less_iff [of "- b" m "- a"] by (simp add: signed_divide_int_def) linarith
  show "0 < a \<Longrightarrow> b < 0 \<Longrightarrow> m < 0 \<Longrightarrow> b < m sdiv a \<longleftrightarrow> a * b < m"
    using int_div_less_iff [of a "- m" "- b"]
    by (simp add: signed_divide_int_def mult.commute) linarith
  show "a < 0 \<Longrightarrow> 0 < b \<Longrightarrow> m < 0 \<Longrightarrow> a < m sdiv b \<longleftrightarrow> a * b < m"
    using int_div_less_iff [of b "- m" "- a"] by (simp add: signed_divide_int_def) linarith
qed

lemma mult_isize_min:
  fixes a b :: int
  assumes "a = canon_isize_min" and "b \<noteq> 0" and "b \<noteq> 1"
  shows "\<not> isize_ok (a * b)"
proof (cases "1 < b")
  case True
  then show ?thesis using assms(1) by (simp add: isize_defs)
next
  case False
  with assms show ?thesis by (simp add: isize_defs)
qed

lemma checked_mul_isize_exact:
  assumes "isize_ok a" and "isize_ok b"
  shows "checked_mul_isize False a b (Some r) = store_exact (a * b) r"
proof -
  consider "a = 0 \<or> b = 0 \<or> a = 1 \<or> b = 1"
    | "a = canon_isize_min \<or> b = canon_isize_min" "a \<noteq> 0" "b \<noteq> 0" "a \<noteq> 1" "b \<noteq> 1"
    | "a \<noteq> canon_isize_min" "b \<noteq> canon_isize_min" "a \<noteq> 0" "b \<noteq> 0" "a \<noteq> 1" "b \<noteq> 1"
    by blast
  then show ?thesis
  proof cases
    case 1
    with assms show ?thesis by (auto simp: checked_mul_isize_def store_exact_def isize_defs)
  next
    case 2
    then have "\<not> isize_ok (a * b)"
      using mult_isize_min [of a b] mult_isize_min [of b a] by (auto simp: mult.commute)
    with 2 show ?thesis by (simp add: checked_mul_isize_def store_exact_def)
  next
    case 3
    have max: "0 < canon_isize_max" and min: "canon_isize_min < 0" by (simp_all add: isize_defs)
    consider "0 < a" "0 < b" | "a < 0" "b < 0" | "0 < a" "b < 0" | "a < 0" "0 < b"
      using 3 by linarith
    then show ?thesis
    proof cases
      case 1
      then have "0 < a * b" by (rule mult_pos_pos)
      with min have "canon_isize_min < a * b" by linarith
      with 1 3 show ?thesis
        by (simp add: checked_mul_isize_def store_exact_def sdiv_guards(1) [OF 1 max] isize_ok_def
            isize_val_def not_less less_imp_le)
    next
      case 2
      then have "0 < a * b" by (simp add: mult_neg_neg)
      with 2 3 min order_less_trans [OF min this] show ?thesis
        by (simp add: checked_mul_isize_def store_exact_def sdiv_guards(2) [OF 2 max] isize_ok_def
            isize_val_def not_less less_imp_le)
    next
      case c: 3
      then have "a * b < 0" by (simp add: mult_pos_neg)
      with c 3 max order_less_trans [OF this max] show ?thesis
        by (simp add: checked_mul_isize_def store_exact_def sdiv_guards(3) [OF c min] isize_ok_def
            isize_val_def not_less less_imp_le)
    next
      case 4
      then have "a * b < 0" by (simp add: mult_neg_pos)
      with 4 3 max order_less_trans [OF this max] show ?thesis
        by (simp add: checked_mul_isize_def store_exact_def sdiv_guards(4) [OF 4 min] isize_ok_def
            isize_val_def not_less less_imp_le)
    qed
  qed
qed

lemma sdiv_isize_ok:
  assumes "isize_ok a" "isize_ok b" "b \<noteq> 0" "\<not> (a = canon_isize_min \<and> b = -1)"
  shows "isize_ok (a sdiv b)"
proof -
  have le: "\<bar>a\<bar> div \<bar>b\<bar> \<le> \<bar>a\<bar>" using zdiv_mono2 [of "\<bar>a\<bar>" 1 "\<bar>b\<bar>"] assms(3) by simp
  have nn: "0 \<le> \<bar>a\<bar> div \<bar>b\<bar>" by (simp add: pos_imp_zdiv_nonneg_iff assms)
  show ?thesis
  proof (cases "a = canon_isize_min \<and> b < 0")
    case True
    then have "2 \<le> \<bar>b\<bar>" using assms by linarith
    then have "\<bar>a\<bar> div \<bar>b\<bar> \<le> \<bar>a\<bar> div 2" by (intro zdiv_mono2) simp_all
    with True show ?thesis using nn by (simp add: signed_divide_int_def isize_defs)
  next
    case False
    have abs: "\<bar>a sdiv b\<bar> \<le> \<bar>a\<bar>"
      using le nn assms by (simp add: signed_divide_int_def abs_mult abs_sgn_eq)
    show ?thesis
    proof (cases "a = canon_isize_min")
      case True
      with False assms have "0 < b" by simp
      with True have "a sdiv b \<le> 0"
        using nn by (simp add: signed_divide_int_def isize_defs)
      with True abs show ?thesis by (simp add: isize_defs)
    next
      case False
      with abs assms(1) show ?thesis by (simp add: isize_defs) linarith
    qed
  qed
qed

lemma checked_div_isize_exact:
  assumes "isize_ok a" "isize_ok b"
  shows "checked_div_isize a b (Some r) =
    (if b = 0 \<or> \<not> isize_ok (a sdiv b) then ret (False, Some r) else ret (True, Some (a sdiv b)))"
proof (cases "b \<noteq> 0 \<and> \<not> (a = canon_isize_min \<and> b = -1)")
  case True
  with assms have "isize_ok (a sdiv b)" by (intro sdiv_isize_ok) auto
  with True show ?thesis by (auto simp: checked_div_isize_def isize_val_ret)
next
  case False
  then show ?thesis by (auto simp: checked_div_isize_def signed_divide_int_def isize_defs)
qed

lemma checked_mod_isize_exact:
  assumes "isize_ok a" "isize_ok b"
  shows "checked_mod_isize a b (Some r) =
    (if b = 0 \<or> \<not> isize_ok (a sdiv b) then ret (False, Some r) else ret (True, Some (a smod b)))"
proof (cases "b \<noteq> 0 \<and> \<not> (a = canon_isize_min \<and> b = -1)")
  case True
  with assms have "isize_ok (a sdiv b)" by (intro sdiv_isize_ok) auto
  with True show ?thesis by (auto simp: checked_mod_isize_def isize_val_ret)
next
  case False
  then show ?thesis by (auto simp: checked_mod_isize_def signed_divide_int_def isize_defs)
qed

end
