(* ===== verification/Canon_Bits.thy ===== *)
theory Canon_Bits
  imports Canon_Prelude
begin

section \<open>Bit manipulation (core/primitives/bits.h)\<close>

text \<open>
  The functions of bits.h on \<open>u64\<close> values, with the portable bodies (the ones compiled when
  neither the GCC nor the MSVC intrinsics are selected, and the ones the repository
  verifies). A shift by the width or more is undefined behaviour.
\<close>

subsection \<open>Shifts of C\<close>

definition shl_u64 :: "u64 \<Rightarrow> u64 \<Rightarrow> u64 run" where
  "shl_u64 v n = (if n < 64 then ret (push_bit (unat n) v)
                  else undefined_behaviour ''shift by the width or more'')"

definition shr_u64 :: "u64 \<Rightarrow> u64 \<Rightarrow> u64 run" where
  "shr_u64 v n = (if n < 64 then ret (drop_bit (unat n) v)
                  else undefined_behaviour ''shift by the width or more'')"

subsection \<open>Single bits\<close>

definition bits_test :: "u64 \<Rightarrow> u32 \<Rightarrow> bool run" where
  "bits_test value pos = bindR (shr_u64 value (ucast pos)) (\<lambda>s. ret (s AND 1 \<noteq> 0))"

definition bits_set :: "u64 \<Rightarrow> u32 \<Rightarrow> u64 run" where
  "bits_set value pos = bindR (shl_u64 1 (ucast pos)) (\<lambda>m. ret (value OR m))"

definition bits_clear :: "u64 \<Rightarrow> u32 \<Rightarrow> u64 run" where
  "bits_clear value pos = bindR (shl_u64 1 (ucast pos)) (\<lambda>m. ret (value AND NOT m))"

definition bits_toggle :: "u64 \<Rightarrow> u32 \<Rightarrow> u64 run" where
  "bits_toggle value pos = bindR (shl_u64 1 (ucast pos)) (\<lambda>m. ret (value XOR m))"

subsection \<open>Bit fields\<close>

definition bits_extract :: "u64 \<Rightarrow> u32 \<Rightarrow> u32 \<Rightarrow> u64 run" where
  "bits_extract value start count =
     (if count = 0 then ret 0
      else if 64 \<le> count then shr_u64 value (ucast start)
      else bindR (shl_u64 1 (ucast count)) (\<lambda>m.
           bindR (shr_u64 value (ucast start)) (\<lambda>s. ret (s AND (m - 1)))))"

definition bits_insert :: "u64 \<Rightarrow> u64 \<Rightarrow> u32 \<Rightarrow> u32 \<Rightarrow> u64 run" where
  "bits_insert dst src start count =
     (if count = 0 then ret dst
      else if 64 \<le> count then shl_u64 src (ucast start)
      else bindR (shl_u64 1 (ucast count)) (\<lambda>m.
           bindR (shl_u64 (m - 1) (ucast start)) (\<lambda>field.
           bindR (shl_u64 src (ucast start)) (\<lambda>s.
             ret ((dst AND NOT field) OR (s AND field))))))"

subsection \<open>Counting\<close>

definition bits_popcount :: "u64 \<Rightarrow> u32" where
  "bits_popcount value =
     (let v = value - (drop_bit 1 value AND 0x5555555555555555);
          v = (v AND 0x3333333333333333) + (drop_bit 2 v AND 0x3333333333333333);
          v = (v + drop_bit 4 v) AND 0x0F0F0F0F0F0F0F0F
      in ucast (drop_bit 56 (v * 0x0101010101010101)))"

text \<open>
  One line of the binary search of \<open>bits_clz\<close> (\<open>bits_ctz\<close>): when the bits under the mask
  are all clear, count them and shift them out.
\<close>

definition clz_step :: "u64 \<Rightarrow> nat \<Rightarrow> u32 \<times> u64 \<Rightarrow> u32 \<times> u64" where
  "clz_step m k = (\<lambda>(count, v).
     if v AND m = 0 then (count + of_nat k, push_bit k v) else (count, v))"

definition bits_clz :: "u64 \<Rightarrow> u32" where
  "bits_clz value =
     (if value = 0 then 64
      else
        let s = (0, value);
            s = clz_step 0xFFFFFFFF00000000 32 s;
            s = clz_step 0xFFFF000000000000 16 s;
            s = clz_step 0xFF00000000000000 8 s;
            s = clz_step 0xF000000000000000 4 s;
            s = clz_step 0xC000000000000000 2 s
        in (if snd s AND 0x8000000000000000 = 0 then fst s + 1 else fst s))"

definition ctz_step :: "u64 \<Rightarrow> nat \<Rightarrow> u32 \<times> u64 \<Rightarrow> u32 \<times> u64" where
  "ctz_step m k = (\<lambda>(count, v).
     if v AND m = 0 then (count + of_nat k, drop_bit k v) else (count, v))"

definition bits_ctz :: "u64 \<Rightarrow> u32" where
  "bits_ctz value =
     (if value = 0 then 64
      else
        let s = (0, value);
            s = ctz_step 0x00000000FFFFFFFF 32 s;
            s = ctz_step 0x000000000000FFFF 16 s;
            s = ctz_step 0x00000000000000FF 8 s;
            s = ctz_step 0x000000000000000F 4 s;
            s = ctz_step 0x0000000000000003 2 s
        in (if snd s AND 0x0000000000000001 = 0 then fst s + 1 else fst s))"

definition bits_ffs :: "u64 \<Rightarrow> u32" where
  "bits_ffs value = (if value = 0 then 0 else bits_ctz value + 1)"

definition bits_fls :: "u64 \<Rightarrow> u32" where
  "bits_fls value = (if value = 0 then 0 else 64 - bits_clz value)"

subsection \<open>Rotations\<close>

definition bits_rotl :: "u64 \<Rightarrow> u32 \<Rightarrow> u64 run" where
  "bits_rotl value shift =
     (let sh = ucast shift AND 63 in
      if sh = 0 then ret value
      else bindR (shl_u64 value sh) (\<lambda>l.
           bindR (shr_u64 value (64 - sh)) (\<lambda>r. ret (l OR r))))"

definition bits_rotr :: "u64 \<Rightarrow> u32 \<Rightarrow> u64 run" where
  "bits_rotr value shift =
     (let sh = ucast shift AND 63 in
      if sh = 0 then ret value
      else bindR (shr_u64 value sh) (\<lambda>r.
           bindR (shl_u64 value (64 - sh)) (\<lambda>l. ret (r OR l))))"

subsection \<open>Powers of two\<close>

definition bits_is_power_of_two :: "u64 \<Rightarrow> bool" where
  "bits_is_power_of_two value \<longleftrightarrow> value \<noteq> 0 \<and> value AND (value - 1) = 0"

definition bits_next_power_of_two :: "u64 \<Rightarrow> u64" where
  "bits_next_power_of_two value =
     (if value = 0 then 0
      else if push_bit 63 1 < value then 0
      else
        let v = value - 1;
            v = v OR drop_bit 1 v;
            v = v OR drop_bit 2 v;
            v = v OR drop_bit 4 v;
            v = v OR drop_bit 8 v;
            v = v OR drop_bit 16 v;
            v = v OR drop_bit 32 v
        in v + 1)"

subsection \<open>Byte swaps\<close>

text \<open>In \<open>bits_bswap16\<close> both shifts are done on the promoted \<open>int\<close> and then truncated.\<close>

definition bits_bswap16 :: "u16 \<Rightarrow> u16" where
  "bits_bswap16 value = ucast (drop_bit 8 (ucast value :: u32) OR push_bit 8 (ucast value))"

definition bits_bswap32 :: "u32 \<Rightarrow> u32" where
  "bits_bswap32 value =
     push_bit 24 (value AND 0x000000FF) OR
     push_bit 8 (value AND 0x0000FF00) OR
     drop_bit 8 (value AND 0x00FF0000) OR
     drop_bit 24 (value AND 0xFF000000)"

definition bits_bswap64 :: "u64 \<Rightarrow> u64" where
  "bits_bswap64 value =
     push_bit 56 (value AND 0x00000000000000FF) OR
     push_bit 40 (value AND 0x000000000000FF00) OR
     push_bit 24 (value AND 0x0000000000FF0000) OR
     push_bit 8 (value AND 0x00000000FF000000) OR
     drop_bit 8 (value AND 0x000000FF00000000) OR
     drop_bit 24 (value AND 0x0000FF0000000000) OR
     drop_bit 40 (value AND 0x00FF000000000000) OR
     drop_bit 56 (value AND 0xFF00000000000000)"

subsection \<open>Lemmas: single bits and fields\<close>

lemma unat_ucast_u32: "unat (ucast k :: u64) = unat k" for k :: u32
  by (rule unat_ucast_widen) simp

lemma ucast_lt_64: "(ucast k :: u64) < 64 \<longleftrightarrow> k < 64" for k :: u32
  by (simp add: word_less_nat_alt unat_ucast_u32)

lemma shl_shr_ret:
  "n < 64 \<Longrightarrow> shl_u64 v n = ret (push_bit (unat n) v)"
  "n < 64 \<Longrightarrow> shr_u64 v n = ret (drop_bit (unat n) v)"
  by (simp_all add: shl_u64_def shr_u64_def)

lemma and_one_bit: "(v AND 1 \<noteq> 0) \<longleftrightarrow> bit v 0" for v :: u64
  by (simp add: and_one_eq odd_iff_mod_2_eq_one bit_0)

lemma bits_test_ret: "k < 64 \<Longrightarrow> bits_test v k = ret (bit v (unat k))"
  by (simp add: bits_test_def shl_shr_ret ucast_lt_64 unat_ucast_u32 and_one_bit bit_drop_bit_eq)

lemma bits_test_undefined: "64 \<le> k \<Longrightarrow> \<not> returns (bits_test v k)"
  by (simp add: bits_test_def shr_u64_def ucast_lt_64 not_less)

lemma bits_update_bit:
  assumes "k < 64"
  shows "\<exists>r. bits_set v k = ret r \<and> (\<forall>i. bit r i \<longleftrightarrow> bit v i \<or> i = unat k)"
    and "\<exists>r. bits_clear v k = ret r \<and> (\<forall>i. bit r i \<longleftrightarrow> bit v i \<and> i \<noteq> unat k)"
    and "\<exists>r. bits_toggle v k = ret r \<and> (\<forall>i. bit r i \<longleftrightarrow> (if i = unat k then \<not> bit v i else bit v i))"
proof -
  have lt: "unat k < 64" using assms by (simp add: word_less_nat_alt)
  show "\<exists>r. bits_set v k = ret r \<and> (\<forall>i. bit r i \<longleftrightarrow> bit v i \<or> i = unat k)"
    using assms lt by (auto simp: bits_set_def shl_shr_ret ucast_lt_64 unat_ucast_u32 bit_simps)
  show "\<exists>r. bits_clear v k = ret r \<and> (\<forall>i. bit r i \<longleftrightarrow> bit v i \<and> i \<noteq> unat k)"
    using assms lt
    by (auto simp: bits_clear_def shl_shr_ret ucast_lt_64 unat_ucast_u32 bit_simps dest: bit_imp_le_length)
  show "\<exists>r. bits_toggle v k = ret r \<and> (\<forall>i. bit r i \<longleftrightarrow> (if i = unat k then \<not> bit v i else bit v i))"
    using assms lt by (auto simp: bits_toggle_def shl_shr_ret ucast_lt_64 unat_ucast_u32 bit_simps)
qed

text \<open>A field mask: \<open>(1 << count) - 1\<close> has exactly the low \<open>count\<close> bits.\<close>

lemma field_mask: "push_bit n 1 - 1 = (mask n :: u64)"
  by (simp add: mask_eq_exp_minus_1)

lemma bits_extract_bit:
  assumes "start < 64"
  shows "\<exists>r. bits_extract v start count = ret r \<and>
    (\<forall>i. bit r i \<longleftrightarrow> i < unat count \<and> bit v (unat start + i))"
proof -
  have start: "(ucast start :: u64) < 64" using assms by (simp add: ucast_lt_64)
  consider "count = 0" | "64 \<le> count" | "count \<noteq> 0" "count < 64" by fastforce
  then show ?thesis
  proof cases
    case 1
    then show ?thesis by (simp add: bits_extract_def)
  next
    case 2
    then have "64 \<le> unat count" "count \<noteq> 0" by (auto simp: word_le_nat_alt)
    with 2 show ?thesis using start
      by (auto simp: bits_extract_def shl_shr_ret unat_ucast_u32 bit_simps ac_simps
          dest: bit_imp_le_length)
  next
    case 3
    then show ?thesis using start
      by (auto simp: bits_extract_def shl_shr_ret unat_ucast_u32 ucast_lt_64 field_mask bit_simps
          ac_simps simp del: push_bit_of_1 dest: bit_imp_le_length)
  qed
qed

lemma bits_insert_bit:
  assumes "start < 64" "count < 64"
  shows "\<exists>r. bits_insert dst src start count = ret r \<and>
    (\<forall>i. bit r i \<longleftrightarrow> (if unat start \<le> i \<and> i < unat start + unat count
                      then i < 64 \<and> bit src (i - unat start) else bit dst i))"
proof (cases "count = 0")
  case True
  then show ?thesis by (auto simp: bits_insert_def)
next
  case False
  have st: "(ucast start :: u64) < 64" "(ucast count :: u64) < 64"
    using assms by (simp_all add: ucast_lt_64)
  show ?thesis using assms False st
    by (auto simp: bits_insert_def shl_shr_ret unat_ucast_u32 not_le field_mask bit_simps
        simp del: push_bit_of_1 dest: bit_imp_le_length)
qed

lemma bits_insert_full:
  "start < 64 \<Longrightarrow> 64 \<le> count \<Longrightarrow> bits_insert dst src start count = ret (push_bit (unat start) src)"
  by (auto simp: bits_insert_def shl_shr_ret ucast_lt_64 unat_ucast_u32)

subsection \<open>Lemmas: powers of two\<close>

text \<open>
  \<open>w AND (w - 1)\<close> clears the lowest set bit: with \<open>k\<close> that bit, \<open>w = h OR 2 ^ k\<close> where \<open>h\<close>
  has only bits above \<open>k\<close>, so \<open>w - 1 = h OR mask k\<close>.
\<close>

lemma and_pred_clears_lowest:
  fixes w :: "'w::len word"
  assumes "bit w k" and low: "\<And>i. i < k \<Longrightarrow> \<not> bit w i"
  shows "w AND (w - 1) = w AND NOT (mask (Suc k))"
proof -
  let ?h = "w AND NOT (mask (Suc k))"
  have "k < LENGTH('w)" using assms(1) by (rule bit_imp_le_length)
  have "?h AND push_bit k 1 = 0"
    by (rule bit_word_eqI) (auto simp: bit_simps)
  then have "?h + push_bit k 1 = ?h OR push_bit k 1" by (rule disjunctive_add_eq_or)
  also have "\<dots> = w"
    using assms \<open>k < LENGTH('w)\<close> by (intro bit_word_eqI) (auto simp: bit_simps less_Suc_eq not_less intro: leI)
  finally have w: "w = ?h + push_bit k 1" by simp
  have "?h AND mask k = 0" by (rule bit_word_eqI) (auto simp: bit_simps)
  then have "?h + mask k = ?h OR mask k" by (rule disjunctive_add_eq_or)
  moreover have "w - 1 = ?h + mask k"
    by (subst w) (simp add: mask_eq_exp_minus_1)
  ultimately have "w - 1 = ?h OR mask k" by simp
  then show ?thesis
    using assms by (intro bit_word_eqI) (auto simp: bit_simps less_Suc_eq)
qed

lemma word_lowest_bit:
  fixes w :: "'w::len word"
  assumes "w \<noteq> 0"
  obtains k where "bit w k" "\<And>i. i < k \<Longrightarrow> \<not> bit w i" "k < LENGTH('w)"
proof -
  from assms obtain j where "bit w j" by (metis bit_word_eqI bit_0_eq bot_apply bot_bool_def)
  define k where "k = (LEAST k. bit w k)"
  have "bit w k" unfolding k_def using \<open>bit w j\<close> by (rule LeastI)
  moreover have "\<not> bit w i" if "i < k" for i using that unfolding k_def by (rule not_less_Least)
  ultimately show ?thesis using that bit_imp_le_length by blast
qed

lemma power_of_two_word_iff:
  fixes w :: "'w::len word"
  shows "w \<noteq> 0 \<and> w AND (w - 1) = 0 \<longleftrightarrow> (\<exists>k < LENGTH('w). w = push_bit k 1)"
proof
  assume *: "w \<noteq> 0 \<and> w AND (w - 1) = 0"
  then obtain k where k: "bit w k" "\<And>i. i < k \<Longrightarrow> \<not> bit w i" "k < LENGTH('w)"
    using word_lowest_bit [of w] by metis
  have "w AND NOT (mask (Suc k)) = 0"
    using and_pred_clears_lowest [OF k(1,2)] * by simp
  then have high: "\<not> bit w i" if "k < i" for i
    using that by (auto simp: bit_eq_iff [where 'a = "'w word"] bit_simps dest: bit_imp_le_length)
  have "w = push_bit k 1"
    using k high by (intro bit_word_eqI) (auto simp: bit_simps dest: bit_imp_le_length intro: linorder_cases)
  with k show "\<exists>k < LENGTH('w). w = push_bit k 1" by blast
next
  assume "\<exists>k < LENGTH('w). w = push_bit k 1"
  then obtain k where k: "k < LENGTH('w)" "w = push_bit k 1" by blast
  have b: "bit w i \<longleftrightarrow> i = k" for i using k by (auto simp: bit_simps)
  then have "w AND (w - 1) = w AND NOT (mask (Suc k))" by (intro and_pred_clears_lowest) auto
  also have "\<dots> = 0" using b by (intro bit_word_eqI) (auto simp: bit_simps)
  finally show "w \<noteq> 0 \<and> w AND (w - 1) = 0" using b [of k] by auto
qed

lemma unat_push_bit_1: "k < LENGTH('w) \<Longrightarrow> unat (push_bit k 1 :: 'w::len word) = 2 ^ k"
proof -
  assume "k < LENGTH('w)"
  then have "take_bit LENGTH('w) (2 ^ k) = (2 ^ k :: nat)" by (simp add: take_bit_nat_eq_self)
  moreover have "unat (word_of_nat (2 ^ k) :: 'w word) = take_bit LENGTH('w) (2 ^ k)"
    by (simp add: unsigned_of_nat del: of_nat_power)
  ultimately show ?thesis by simp
qed

lemma power_of_two_unat_iff:
  fixes w :: "'w::len word"
  shows "w \<noteq> 0 \<and> w AND (w - 1) = 0 \<longleftrightarrow> (\<exists>k < LENGTH('w). unat w = 2 ^ k)"
proof -
  have "w = push_bit k 1 \<longleftrightarrow> unat w = 2 ^ k" if "k < LENGTH('w)" for k
    by (simp only: word_unat_eq_iff unat_push_bit_1 [OF that])
  then show ?thesis unfolding power_of_two_word_iff by blast
qed

lemma bits_is_power_of_two_iff: "bits_is_power_of_two v \<longleftrightarrow> (\<exists>k < 64. unat v = 2 ^ k)"
  using power_of_two_unat_iff [of v] by (simp add: bits_is_power_of_two_def)

lemma bit_nat_ge: "bit (n :: nat) k \<Longrightarrow> 2 ^ k \<le> n"
  by (metis bit_iff_odd div_less even_zero not_less)

lemma nat_bit_above:
  assumes "2 ^ i \<le> (n :: nat)"
  obtains j where "bit n (i + j)"
proof -
  have "drop_bit i n \<noteq> 0" using assms by (simp add: drop_bit_eq_div div_eq_0_iff)
  then obtain j where "bit (drop_bit i n) j" by (metis bit_eqI bit_0_eq bot_apply bot_bool_def)
  with that show ?thesis by (simp add: bit_simps)
qed

subsection \<open>Lemmas: the smearing of the highest bit\<close>

text \<open>
  After the shifts by 1, 2, 4, ... up to 32 every bit below a set bit is set: \<open>smeared s\<close>
  says so for a window of \<open>s\<close> bits, and each line of the code doubles the window.
\<close>

definition smeared :: "nat \<Rightarrow> u64 \<Rightarrow> u64 \<Rightarrow> bool" where
  "smeared s v w \<longleftrightarrow> (\<forall>i. bit w i \<longleftrightarrow> (\<exists>j < s. bit v (i + j)))"

lemma smeared_1: "smeared 1 v v"
  by (simp add: smeared_def)

lemma smeared_double:
  assumes "smeared s v w" and t: "t = s + s"
  shows "smeared t v (w OR drop_bit s w)"
  unfolding smeared_def t
proof
  fix i
  have "(\<exists>j < s + s. bit v (i + j)) \<longleftrightarrow> (\<exists>j < s. bit v (i + j)) \<or> (\<exists>j < s. bit v (i + s + j))"
  proof
    assume "\<exists>j < s + s. bit v (i + j)"
    then obtain j where j: "j < s + s" "bit v (i + j)" by blast
    show "(\<exists>j < s. bit v (i + j)) \<or> (\<exists>j < s. bit v (i + s + j))"
    proof (cases "j < s")
      case True
      with j show ?thesis by blast
    next
      case False
      with j have "j - s < s" "bit v (i + s + (j - s))" by simp_all
      then show ?thesis by blast
    qed
  next
    assume "(\<exists>j < s. bit v (i + j)) \<or> (\<exists>j < s. bit v (i + s + j))"
    then show "\<exists>j < s + s. bit v (i + j)"
      by (metis add.assoc add_strict_left_mono trans_less_add1)
  qed
  then show "bit (w OR drop_bit s w) i \<longleftrightarrow> (\<exists>j < s + s. bit v (i + j))"
    using assms by (simp add: smeared_def bit_simps add.commute)
qed

lemma smeared_64_mask:
  assumes "smeared 64 v w"
  shows "w = mask (LEAST n. unat v < 2 ^ n)"
proof -
  define n where "n = (LEAST n. unat v < 2 ^ n)"
  have lt: "unat v < 2 ^ n" unfolding n_def by (rule LeastI [of _ 64]) (rule usize_bound)
  have le: "2 ^ i \<le> unat v" if "i < n" for i
    using that not_less_Least unfolding n_def by (meson not_less)
  have "bit w i \<longleftrightarrow> i < n" if "i < 64" for i
  proof
    assume "bit w i"
    then obtain j where "bit v (i + j)" using assms by (auto simp: smeared_def)
    then have "bit (unat v) (i + j)" by (simp add: bit_unsigned_iff)
    then have "2 ^ (i + j) \<le> unat v" by (rule bit_nat_ge)
    then have "(2::nat) ^ (i + j) < 2 ^ n" using lt by (rule order_le_less_trans)
    then show "i < n" by simp
  next
    assume "i < n"
    then have "2 ^ i \<le> unat v" by (rule le)
    then obtain j where "bit (unat v) (i + j)" by (rule nat_bit_above)
    then have "bit v (i + j)" by (simp add: bit_unsigned_iff)
    moreover from this have "j < 64" using bit_imp_le_length [of v "i + j"] by simp
    ultimately show "bit w i" using assms by (auto simp: smeared_def)
  qed
  then show ?thesis unfolding n_def [symmetric]
    by (intro bit_word_eqI) (simp add: bit_simps)
qed

lemma bits_next_power_of_two_normal:
  assumes "v \<noteq> 0" "v \<le> push_bit 63 1"
  shows "bits_next_power_of_two v = push_bit (LEAST n. unat v \<le> 2 ^ n) 1"
proof -
  let ?v = "v - 1"
  define w1 where "w1 = ?v OR drop_bit 1 ?v"
  define w2 where "w2 = w1 OR drop_bit 2 w1"
  define w3 where "w3 = w2 OR drop_bit 4 w2"
  define w4 where "w4 = w3 OR drop_bit 8 w3"
  define w5 where "w5 = w4 OR drop_bit 16 w4"
  define w where "w = w5 OR drop_bit 32 w5"
  note defs = w1_def w2_def w3_def w4_def w5_def w_def
  have "smeared 2 ?v w1" unfolding w1_def by (rule smeared_double [OF smeared_1]) simp
  then have "smeared 4 ?v w2" unfolding w2_def by (rule smeared_double) simp
  then have "smeared 8 ?v w3" unfolding w3_def by (rule smeared_double) simp
  then have "smeared 16 ?v w4" unfolding w4_def by (rule smeared_double) simp
  then have "smeared 32 ?v w5" unfolding w5_def by (rule smeared_double) simp
  then have "smeared 64 ?v w" unfolding w_def by (rule smeared_double) simp
  then have "w = mask (LEAST n. unat ?v < 2 ^ n)" by (rule smeared_64_mask)
  moreover have "unat ?v < 2 ^ n \<longleftrightarrow> unat v \<le> 2 ^ n" for n
    using assms(1) by (simp add: unat_usize_pred unat_gt_0 [symmetric] less_eq_Suc_le)
  ultimately have "w = mask (LEAST n. unat v \<le> 2 ^ n)" by simp
  moreover have "bits_next_power_of_two v = w + 1"
    using assms by (simp add: bits_next_power_of_two_def defs Let_def not_less)
  ultimately show ?thesis by (simp add: mask_eq_exp_minus_1)
qed

lemma bits_next_power_of_two_least:
  assumes "v \<noteq> 0" "unat v \<le> 2 ^ 63"
  shows "\<exists>k \<le> 63. unat (bits_next_power_of_two v) = 2 ^ k \<and> unat v \<le> 2 ^ k \<and>
    (\<forall>j. unat v \<le> 2 ^ j \<longrightarrow> k \<le> j)"
proof -
  define k where "k = (LEAST n. unat v \<le> 2 ^ n)"
  have le: "unat v \<le> 2 ^ k" unfolding k_def by (rule LeastI [of _ 63]) (rule assms)
  have least: "k \<le> j" if "unat v \<le> 2 ^ j" for j using that unfolding k_def by (rule Least_le)
  have k63: "k \<le> 63" using assms by (intro least)
  have "v \<le> push_bit 63 1"
    using assms unat_push_bit_1 [of 63, where 'w = 64] by (simp add: word_le_nat_alt)
  then have "bits_next_power_of_two v = push_bit k 1"
    unfolding k_def by (rule bits_next_power_of_two_normal [OF assms(1)])
  then have "unat (bits_next_power_of_two v) = 2 ^ k"
    using k63 unat_push_bit_1 [of k, where 'w = 64] by simp
  with k63 le least show ?thesis by blast
qed

lemma bits_next_power_of_two_overflow:
  "2 ^ 63 < unat v \<Longrightarrow> bits_next_power_of_two v = 0"
  using unat_push_bit_1 [of 63, where 'w = 64]
  by (simp add: bits_next_power_of_two_def word_less_nat_alt)

subsection \<open>Lemmas: leading and trailing zeros\<close>

lemma bit_u64_lt: "bit v i \<Longrightarrow> i < 64" for v :: u64
  using bit_imp_le_length [of v i] by simp

lemma and_zero_iff: "a AND b = 0 \<longleftrightarrow> (\<forall>i. bit a i \<longrightarrow> \<not> bit b i)" for a b :: "'w::len word"
proof
  assume "a AND b = 0"
  then have "\<not> bit (a AND b) i" for i by simp
  then show "\<forall>i. bit a i \<longrightarrow> \<not> bit b i" by (simp add: bit_and_iff)
next
  assume "\<forall>i. bit a i \<longrightarrow> \<not> bit b i"
  then show "a AND b = 0" by (intro bit_word_eqI) (simp add: bit_and_iff)
qed

lemma and_top_mask: "n \<le> 64 \<Longrightarrow> v AND push_bit n (mask (64 - n)) = 0 \<longleftrightarrow> (\<forall>i \<ge> n. \<not> bit v i)"
  for v :: u64
  using bit_u64_lt [of v] by (fastforce simp: and_zero_iff bit_simps)

lemma and_low_mask: "v AND mask n = 0 \<longleftrightarrow> (\<forall>i < n. \<not> bit v i)" for v :: u64
  using bit_u64_lt [of v] by (fastforce simp: and_zero_iff bit_simps)

text \<open>
  The state of \<open>bits_clz\<close>: the counted top bits of \<open>value\<close> are clear, the rest is at the top
  of \<open>v\<close>, and one of the top \<open>w\<close> bits of \<open>v\<close> is set.
\<close>

definition clz_inv :: "u64 \<Rightarrow> nat \<Rightarrow> u32 \<times> u64 \<Rightarrow> bool" where
  "clz_inv value w s \<longleftrightarrow>
     (\<exists>c. fst s = of_nat c \<and> c + w \<le> 64 \<and> snd s = push_bit c value \<and>
          (\<forall>i < 64. 64 \<le> i + c \<longrightarrow> \<not> bit value i) \<and> (\<exists>i < 64. 64 \<le> i + w \<and> bit (snd s) i))"

lemma clz_step_inv:
  assumes "clz_inv value (k + k) s" "m = push_bit (64 - k) (mask k)" "k \<le> 32"
  shows "clz_inv value k (clz_step m k s)"
proof -
  obtain count v where s: "s = (count, v)" by (cases s)
  from assms(1) obtain c where c: "count = of_nat c" "c + (k + k) \<le> 64" "v = push_bit c value"
    "\<forall>i < 64. 64 \<le> i + c \<longrightarrow> \<not> bit value i" and top: "\<exists>i < 64. 64 \<le> i + (k + k) \<and> bit v i"
    unfolding clz_inv_def s by auto
  have m: "v AND m = 0 \<longleftrightarrow> (\<forall>i \<ge> 64 - k. \<not> bit v i)"
    using and_top_mask [of "64 - k" v] assms(2,3) by simp
  show ?thesis
  proof (cases "v AND m = 0")
    case True
    have "\<not> bit value i" if "i < 64" "64 \<le> i + (c + k)" for i
    proof (cases "64 \<le> i + c")
      case False
      with True m that have "\<not> bit v (i + c)" by simp
      with c False show ?thesis by (simp add: bit_simps)
    qed (use c that in auto)
    moreover obtain i where "i < 64" "64 \<le> i + (k + k)" "bit v i" using top by blast
    moreover from this True m have "i < 64 - k" by (meson not_less)
    ultimately show ?thesis using True c assms(3)
      unfolding clz_inv_def s clz_step_def
      by (intro exI [of _ "k + c"]) (auto simp: bit_simps add.commute intro!: exI [of _ "i + k"])
  next
    case False
    with m obtain i where "64 - k \<le> i" "bit v i" by blast
    with False c show ?thesis
      unfolding clz_inv_def s clz_step_def
      by (intro exI [of _ c]) (auto dest: bit_imp_le_length intro!: exI [of _ i])
  qed
qed

lemma clz_step_last: "(if snd s AND m = 0 then fst s + 1 else fst s) = fst (clz_step m 1 s)"
  by (cases s) (simp add: clz_step_def)

lemma bits_clz_spec:
  assumes "v \<noteq> 0"
  shows "\<exists>c < 64. unat (bits_clz v) = c \<and> bit v (63 - c) \<and> (\<forall>i > 63 - c. \<not> bit v i)"
proof -
  define s5 where "s5 = clz_step 0xC000000000000000 2 (clz_step 0xF000000000000000 4
    (clz_step 0xFF00000000000000 8 (clz_step 0xFFFF000000000000 16
    (clz_step 0xFFFFFFFF00000000 32 (0, v)))))"
  obtain j where "bit v j" using word_lowest_bit [OF assms] by blast
  then have "clz_inv v 64 (0, v)" by (auto simp: clz_inv_def dest: bit_u64_lt intro!: exI [of _ j])
  then have "clz_inv v 32 (clz_step 0xFFFFFFFF00000000 32 (0, v))"
    by (intro clz_step_inv) (simp_all add: mask_numeral)
  then have "clz_inv v 16 (clz_step 0xFFFF000000000000 16 (clz_step 0xFFFFFFFF00000000 32 (0, v)))"
    by (intro clz_step_inv) (simp_all add: mask_numeral)
  then have "clz_inv v 8 (clz_step 0xFF00000000000000 8
    (clz_step 0xFFFF000000000000 16 (clz_step 0xFFFFFFFF00000000 32 (0, v))))"
    by (intro clz_step_inv) (simp_all add: mask_numeral)
  then have "clz_inv v 4 (clz_step 0xF000000000000000 4 (clz_step 0xFF00000000000000 8
    (clz_step 0xFFFF000000000000 16 (clz_step 0xFFFFFFFF00000000 32 (0, v)))))"
    by (intro clz_step_inv) (simp_all add: mask_numeral)
  then have "clz_inv v 2 s5"
    unfolding s5_def by (intro clz_step_inv) (simp_all add: mask_numeral)
  then have "clz_inv v (1 + 1) s5" by (simp only: one_add_one)
  then have "clz_inv v 1 (clz_step 0x8000000000000000 1 s5)"
    by (rule clz_step_inv) simp_all
  moreover have "bits_clz v = fst (clz_step 0x8000000000000000 1 s5)"
    using assms by (simp add: bits_clz_def s5_def Let_def clz_step_last)
  ultimately obtain c i where c: "bits_clz v = of_nat c" "c < 64"
    "\<forall>i < 64. 64 \<le> i + c \<longrightarrow> \<not> bit v i" and i: "bit (push_bit c v) i" "i < 64" "64 \<le> i + 1"
    by (auto simp: clz_inv_def less_Suc_eq_le [symmetric] simp del: One_nat_def)
  from i(2,3) have "i = 63" by simp
  have "unat (bits_clz v) = c" using c(1,2) by (simp add: unsigned_of_nat take_bit_nat_eq_self)
  moreover have "bit v (63 - c)" using i(1) \<open>i = 63\<close> by (simp add: bit_simps)
  moreover have "\<not> bit v i" if "63 - c < i" for i
    using c(2,3) that bit_u64_lt [of v i] by fastforce
  ultimately show ?thesis using c(2) by blast
qed

text \<open>The same for \<open>bits_ctz\<close>, from the other end.\<close>

definition ctz_inv :: "u64 \<Rightarrow> nat \<Rightarrow> u32 \<times> u64 \<Rightarrow> bool" where
  "ctz_inv value w s \<longleftrightarrow>
     (\<exists>c. fst s = of_nat c \<and> c + w \<le> 64 \<and> snd s = drop_bit c value \<and>
          (\<forall>i < c. \<not> bit value i) \<and> (\<exists>i < w. bit (snd s) i))"

lemma ctz_step_inv:
  assumes "ctz_inv value (k + k) s" "m = mask k"
  shows "ctz_inv value k (ctz_step m k s)"
proof -
  obtain count v where s: "s = (count, v)" by (cases s)
  from assms(1) obtain c where c: "count = of_nat c" "c + (k + k) \<le> 64" "v = drop_bit c value"
    "\<forall>i < c. \<not> bit value i" and low: "\<exists>i < k + k. bit v i"
    unfolding ctz_inv_def s by auto
  have m: "v AND m = 0 \<longleftrightarrow> (\<forall>i < k. \<not> bit v i)"
    using and_low_mask [of v k] assms(2) by simp
  show ?thesis
  proof (cases "v AND m = 0")
    case True
    have "\<not> bit value i" if "i < k + c" for i
    proof (cases "i < c")
      case False
      with True m that have "\<not> bit v (i - c)" by simp
      with c False show ?thesis by (simp add: bit_simps)
    qed (use c in auto)
    moreover obtain i where "i < k + k" "bit v i" using low by blast
    moreover from this True m have "k \<le> i" by (meson not_less)
    ultimately show ?thesis using True c
      unfolding ctz_inv_def s ctz_step_def
      by (intro exI [of _ "k + c"])
        (auto simp: bit_simps add.commute add.left_commute intro!: exI [of _ "i - k"])
  next
    case False
    with m obtain i where "i < k" "bit v i" by blast
    with False c show ?thesis
      unfolding ctz_inv_def s ctz_step_def
      by (intro exI [of _ c]) (auto intro!: exI [of _ i])
  qed
qed

lemma ctz_step_last: "(if snd s AND m = 0 then fst s + 1 else fst s) = fst (ctz_step m 1 s)"
  by (cases s) (simp add: ctz_step_def)

lemma bits_ctz_spec:
  assumes "v \<noteq> 0"
  shows "\<exists>c < 64. unat (bits_ctz v) = c \<and> bit v c \<and> (\<forall>i < c. \<not> bit v i)"
proof -
  define s5 where "s5 = ctz_step 0x3 2 (ctz_step 0xF 4 (ctz_step 0xFF 8
    (ctz_step 0xFFFF 16 (ctz_step 0xFFFFFFFF 32 (0, v)))))"
  obtain j where "bit v j" using word_lowest_bit [OF assms] by blast
  then have "ctz_inv v 64 (0, v)" by (auto simp: ctz_inv_def dest: bit_u64_lt intro!: exI [of _ j])
  then have "ctz_inv v 32 (ctz_step 0xFFFFFFFF 32 (0, v))"
    by (intro ctz_step_inv) (simp_all add: mask_numeral)
  then have "ctz_inv v 16 (ctz_step 0xFFFF 16 (ctz_step 0xFFFFFFFF 32 (0, v)))"
    by (intro ctz_step_inv) (simp_all add: mask_numeral)
  then have "ctz_inv v 8 (ctz_step 0xFF 8 (ctz_step 0xFFFF 16 (ctz_step 0xFFFFFFFF 32 (0, v))))"
    by (intro ctz_step_inv) (simp_all add: mask_numeral)
  then have "ctz_inv v 4 (ctz_step 0xF 4 (ctz_step 0xFF 8 (ctz_step 0xFFFF 16
    (ctz_step 0xFFFFFFFF 32 (0, v)))))"
    by (intro ctz_step_inv) (simp_all add: mask_numeral)
  then have "ctz_inv v 2 s5"
    unfolding s5_def by (intro ctz_step_inv) (simp_all add: mask_numeral)
  then have "ctz_inv v (1 + 1) s5" by (simp only: one_add_one)
  then have "ctz_inv v 1 (ctz_step 0x1 1 s5)" by (rule ctz_step_inv) simp_all
  moreover have "bits_ctz v = fst (ctz_step 0x1 1 s5)"
    using assms by (simp add: bits_ctz_def s5_def Let_def ctz_step_last)
  ultimately obtain c where c: "bits_ctz v = of_nat c" "c < 64"
    "\<forall>i < c. \<not> bit v i" "bit (drop_bit c v) 0"
    by (auto simp: ctz_inv_def less_Suc_eq)
  have "unat (bits_ctz v) = c" using c(1,2) by (simp add: unsigned_of_nat take_bit_nat_eq_self)
  moreover have "bit v c" using c(4) by (simp only: bit_drop_bit_eq o_apply add_0_right)
  ultimately show ?thesis using c(2,3) by blast
qed

subsection \<open>Lemmas: rotations and byte swaps\<close>

lemma rot_amount: "unat (ucast shift AND 63 :: u64) = unat (shift :: u32) mod 64"
proof -
  have "(63 :: u64) = mask 6" by (simp add: mask_numeral)
  then have "(ucast shift AND 63 :: u64) = take_bit 6 (ucast shift)"
    by (simp only: take_bit_eq_mask)
  then show ?thesis
    by (simp only: unsigned_take_bit_eq unat_ucast_u32) (simp add: take_bit_eq_mod)
qed

text \<open>Bit \<open>i\<close> moves to \<open>(i + shift) mod 64\<close>, whatever the shift.\<close>

lemma bits_rotl_bit:
  "\<exists>r. bits_rotl v shift = ret r \<and>
    (\<forall>i < 64. bit r i \<longleftrightarrow> bit v ((i + 64 - unat shift mod 64) mod 64))"
proof -
  define sh :: u64 where "sh = ucast shift AND 63"
  have n: "unat sh = unat shift mod 64" unfolding sh_def by (rule rot_amount)
  then have lt: "unat sh < 64" by simp
  show ?thesis
  proof (cases "sh = 0")
    case True
    then have "unat shift mod 64 = 0" using n by simp
    with True show ?thesis
      by (auto simp: bits_rotl_def Let_def sh_def [symmetric] mod_if)
  next
    case False
    then have pos: "0 < unat sh" by (simp add: unat_gt_0)
    have d: "unat (64 - sh) = 64 - unat sh" using lt by (simp add: unat_sub word_le_nat_alt)
    have "sh < 64" "64 - sh < 64" using lt pos d by (simp_all add: word_less_nat_alt)
    then have "bits_rotl v shift = ret (push_bit (unat sh) v OR drop_bit (64 - unat sh) v)"
      using False by (simp add: bits_rotl_def Let_def sh_def [symmetric] shl_shr_ret d)
    moreover have "bit (push_bit (unat sh) v OR drop_bit (64 - unat sh) v) i \<longleftrightarrow>
      bit v ((i + 64 - unat sh) mod 64)" if "i < 64" for i
    proof (cases "i < unat sh")
      case True
      with lt that have "(i + 64 - unat sh) mod 64 = 64 - unat sh + i" by simp
      with True that show ?thesis by (simp add: bit_simps)
    next
      case False
      then have "(i + 64 - unat sh) mod 64 = i - unat sh" using that by (simp add: mod_if)
      moreover have "\<not> bit v (64 - unat sh + i)" using False lt bit_u64_lt [of v] by fastforce
      ultimately show ?thesis using False that by (simp add: bit_simps)
    qed
    ultimately show ?thesis by (auto simp: n [symmetric])
  qed
qed

lemma bits_rotr_bit:
  "\<exists>r. bits_rotr v shift = ret r \<and> (\<forall>i < 64. bit r i \<longleftrightarrow> bit v ((i + unat shift mod 64) mod 64))"
proof -
  define sh :: u64 where "sh = ucast shift AND 63"
  have n: "unat sh = unat shift mod 64" unfolding sh_def by (rule rot_amount)
  then have lt: "unat sh < 64" by simp
  show ?thesis
  proof (cases "sh = 0")
    case True
    then have "unat shift mod 64 = 0" using n by simp
    with True show ?thesis
      by (auto simp: bits_rotr_def Let_def sh_def [symmetric])
  next
    case False
    then have pos: "0 < unat sh" by (simp add: unat_gt_0)
    have d: "unat (64 - sh) = 64 - unat sh" using lt by (simp add: unat_sub word_le_nat_alt)
    have "sh < 64" "64 - sh < 64" using lt pos d by (simp_all add: word_less_nat_alt)
    then have "bits_rotr v shift = ret (drop_bit (unat sh) v OR push_bit (64 - unat sh) v)"
      using False by (simp add: bits_rotr_def Let_def sh_def [symmetric] shl_shr_ret d)
    moreover have "bit (drop_bit (unat sh) v OR push_bit (64 - unat sh) v) i \<longleftrightarrow>
      bit v ((i + unat sh) mod 64)" if "i < 64" for i
    proof (cases "i + unat sh < 64")
      case True
      with that show ?thesis by (auto simp: bit_simps add.commute)
    next
      case False
      then have "(i + unat sh) mod 64 = i - (64 - unat sh)" using lt that by (simp add: mod_if)
      moreover have "\<not> bit v (unat sh + i)" using False bit_u64_lt [of v "unat sh + i"] by linarith
      moreover have "64 - unat sh \<le> i" using False by linarith
      ultimately show ?thesis using lt that by (simp add: bit_simps)
    qed
    ultimately show ?thesis by (auto simp: n [symmetric])
  qed
qed

lemma bits_bswap16_involution: "bits_bswap16 (bits_bswap16 v) = v"
  by (rule bit_word_eqI) (auto simp: bits_bswap16_def bit_simps dest: bit_imp_le_length)

text \<open>
  The swaps write byte \<open>b\<close> of the value at byte \<open>n - 1 - b\<close>. \<open>byte_field\<close> gives the masks of
  the code as shifted byte masks.
\<close>

lemma byte_move_bit:
  fixes v :: "'w::len word"
  assumes "i < LENGTH('w)"
  shows "bit (push_bit k (v AND push_bit s (mask 8))) i \<longleftrightarrow> s + k \<le> i \<and> i < s + k + 8 \<and> bit v (i - k)"
    and "k \<le> s \<Longrightarrow> bit (drop_bit k (v AND push_bit s (mask 8))) i \<longleftrightarrow>
      s - k \<le> i \<and> i < s - k + 8 \<and> bit v (i + k)"
  using assms by (auto simp: bit_simps add.commute dest: bit_imp_le_length)

lemma byte_fields_32:
  "(0x000000FF :: u32) = push_bit 0 (mask 8)" "(0x0000FF00 :: u32) = push_bit 8 (mask 8)"
  "(0x00FF0000 :: u32) = push_bit 16 (mask 8)" "(0xFF000000 :: u32) = push_bit 24 (mask 8)"
  by (simp_all add: mask_numeral)

definition swap_pos32 :: "nat \<Rightarrow> nat" where
  "swap_pos32 i = (if i < 8 then i + 24 else if i < 16 then i + 8
     else if i < 24 then i - 8 else i - 24)"

lemma swap_pos32_involution: "i < 32 \<Longrightarrow> swap_pos32 i < 32 \<and> swap_pos32 (swap_pos32 i) = i"
  by (auto simp: swap_pos32_def)

lemma bits_bswap32_bit: "i < 32 \<Longrightarrow> bit (bits_bswap32 v) i \<longleftrightarrow> bit v (swap_pos32 i)"
  unfolding bits_bswap32_def byte_fields_32 swap_pos32_def
  by (auto simp: bit_or_iff byte_move_bit simp del: push_bit_and drop_bit_and push_bit_0_id)

lemma bits_bswap32_involution: "bits_bswap32 (bits_bswap32 v) = v"
  by (rule bit_word_eqI) (simp add: bits_bswap32_bit swap_pos32_involution)

lemma byte_fields_64:
  "(0x00000000000000FF :: u64) = push_bit 0 (mask 8)"
  "(0x000000000000FF00 :: u64) = push_bit 8 (mask 8)"
  "(0x0000000000FF0000 :: u64) = push_bit 16 (mask 8)"
  "(0x00000000FF000000 :: u64) = push_bit 24 (mask 8)"
  "(0x000000FF00000000 :: u64) = push_bit 32 (mask 8)"
  "(0x0000FF0000000000 :: u64) = push_bit 40 (mask 8)"
  "(0x00FF000000000000 :: u64) = push_bit 48 (mask 8)"
  "(0xFF00000000000000 :: u64) = push_bit 56 (mask 8)"
  by (simp_all add: mask_numeral)

definition swap_pos64 :: "nat \<Rightarrow> nat" where
  "swap_pos64 i = (
     if i < 8 then i + 56 else if i < 16 then i + 40 else if i < 24 then i + 24
     else if i < 32 then i + 8 else if i < 40 then i - 8 else if i < 48 then i - 24
     else if i < 56 then i - 40 else i - 56)"

lemma swap_pos64_involution: "i < 64 \<Longrightarrow> swap_pos64 i < 64 \<and> swap_pos64 (swap_pos64 i) = i"
  by (auto simp: swap_pos64_def)

lemma bits_bswap64_bit: "i < 64 \<Longrightarrow> bit (bits_bswap64 v) i \<longleftrightarrow> bit v (swap_pos64 i)"
  unfolding bits_bswap64_def byte_fields_64 swap_pos64_def
  by (auto simp: bit_or_iff byte_move_bit simp del: push_bit_and drop_bit_and push_bit_0_id)

lemma bits_bswap64_involution: "bits_bswap64 (bits_bswap64 v) = v"
  by (rule bit_word_eqI) (simp add: bits_bswap64_bit swap_pos64_involution)

text \<open>Rotating left and then right by the same amount gives the value back.\<close>

lemma bits_rot_inverse:
  "bindR (bits_rotl v shift) (\<lambda>r. bits_rotr r shift) = ret v"
  "bindR (bits_rotr v shift) (\<lambda>r. bits_rotl r shift) = ret v"
proof -
  obtain r where r: "bits_rotl v shift = ret r"
    "\<And>i. i < 64 \<Longrightarrow> bit r i \<longleftrightarrow> bit v ((i + 64 - unat shift mod 64) mod 64)"
    using bits_rotl_bit [of v shift] by blast
  obtain q where q: "bits_rotr r shift = ret q"
    "\<And>i. i < 64 \<Longrightarrow> bit q i \<longleftrightarrow> bit r ((i + unat shift mod 64) mod 64)"
    using bits_rotr_bit [of r shift] by blast
  have "q = v"
  proof (rule bit_word_eqI)
    fix i assume "i < LENGTH(64)"
    moreover from this have "((i + unat shift mod 64) mod 64 + 64 - unat shift mod 64) mod 64 = i"
      by (simp add: mod_if [of "i + unat shift mod 64"])
    ultimately show "bit q i \<longleftrightarrow> bit v i" by (simp add: q(2) r(2))
  qed
  then show "bindR (bits_rotl v shift) (\<lambda>r. bits_rotr r shift) = ret v" by (simp add: r(1) q(1))
next
  obtain r where r: "bits_rotr v shift = ret r"
    "\<And>i. i < 64 \<Longrightarrow> bit r i \<longleftrightarrow> bit v ((i + unat shift mod 64) mod 64)"
    using bits_rotr_bit [of v shift] by blast
  obtain q where q: "bits_rotl r shift = ret q"
    "\<And>i. i < 64 \<Longrightarrow> bit q i \<longleftrightarrow> bit r ((i + 64 - unat shift mod 64) mod 64)"
    using bits_rotl_bit [of r shift] by blast
  have "q = v"
  proof (rule bit_word_eqI)
    fix i assume "i < LENGTH(64)"
    moreover from this have "((i + 64 - unat shift mod 64) mod 64 + unat shift mod 64) mod 64 = i"
      by (simp add: mod_if [of "i + 64 - unat shift mod 64"])
    ultimately show "bit q i \<longleftrightarrow> bit v i" by (simp add: q(2) r(2))
  qed
  then show "bindR (bits_rotr v shift) (\<lambda>r. bits_rotl r shift) = ret v" by (simp add: r(1) q(1))
qed

lemma bits_extract_insert:
  assumes "start < 64" "count < 64" "unat start + unat count \<le> 64"
  shows "bindR (bits_insert dst src start count) (\<lambda>r. bits_extract r start count) =
    ret (take_bit (unat count) src)"
proof -
  obtain r where r: "bits_insert dst src start count = ret r"
    "\<And>i. bit r i \<longleftrightarrow> (if unat start \<le> i \<and> i < unat start + unat count
                      then i < 64 \<and> bit src (i - unat start) else bit dst i)"
    using bits_insert_bit [OF assms(1,2)] by metis
  obtain q where q: "bits_extract r start count = ret q"
    "\<And>i. bit q i \<longleftrightarrow> i < unat count \<and> bit r (unat start + i)"
    using bits_extract_bit [OF assms(1)] by metis
  have "q = take_bit (unat count) src"
    using assms(3) by (intro bit_word_eqI) (auto simp: q(2) r(2) bit_simps)
  then show ?thesis by (simp add: r(1) q(1))
qed

end
