(* ===== verification/Canon_Ptr.thy ===== *)
theory Canon_Ptr
  imports Canon_Prelude Canon_Bits
begin

section \<open>Alignment and pointer arithmetic (core/primitives/ptr.h)\<close>

text \<open>
  Pointers are addresses here (\<open>uptr\<close>, 0 is NULL), as in the code, which converts them to
  \<open>uintptr_t\<close>. What C adds (a pointer may only move inside its object) is not part of
  these functions; arena.h and pool.h keep it, and their theories prove it.
\<close>

definition null_ptr :: uptr where
  "null_ptr = 0"

definition is_power_of_two :: "usize \<Rightarrow> bool" where
  "is_power_of_two n \<longleftrightarrow> 0 < n \<and> n AND (n - 1) = 0"

definition is_aligned :: "usize \<Rightarrow> usize \<Rightarrow> bool run" where
  "is_aligned n align =
     require_msg (is_power_of_two align) ''is_aligned: align must be a nonzero power of two''
       (ret (n AND (align - 1) = 0))"

definition align_up :: "usize \<Rightarrow> usize \<Rightarrow> usize run" where
  "align_up n align =
     require_msg (is_power_of_two align) ''align_up: align must be a nonzero power of two''
       (ret ((n + align - 1) AND NOT (align - 1)))"

definition align_down :: "usize \<Rightarrow> usize \<Rightarrow> usize run" where
  "align_down n align =
     require_msg (is_power_of_two align) ''align_down: align must be a nonzero power of two''
       (ret (n AND NOT (align - 1)))"

definition align_padding :: "usize \<Rightarrow> usize \<Rightarrow> usize" where
  "align_padding n align = (0 - n) AND (align - 1)"

definition ptr_align_up :: "uptr \<Rightarrow> usize \<Rightarrow> uptr run" where
  "ptr_align_up p align =
     require_msg (is_power_of_two align) ''ptr_align_up: align must be a nonzero power of two''
       (if p = null_ptr then ret null_ptr else align_up p align)"

definition ptr_align_down :: "uptr \<Rightarrow> usize \<Rightarrow> uptr run" where
  "ptr_align_down p align =
     require_msg (is_power_of_two align) ''ptr_align_down: align must be a nonzero power of two''
       (if p = null_ptr then ret null_ptr else align_down p align)"

definition ptr_is_aligned :: "uptr \<Rightarrow> usize \<Rightarrow> bool run" where
  "ptr_is_aligned p align =
     require_msg (is_power_of_two align) ''ptr_is_aligned: align must be a nonzero power of two''
       (if p = null_ptr then ret False else is_aligned p align)"

definition ptr_align_padding :: "uptr \<Rightarrow> usize \<Rightarrow> usize" where
  "ptr_align_padding p align = (if p = null_ptr then 0 else align_padding p align)"

definition ptr_offset :: "uptr \<Rightarrow> usize \<Rightarrow> uptr run" where
  "ptr_offset p n =
     (if p = null_ptr then ret null_ptr
      else ensure_msg (p \<le> canon_usize_max - n) ''ptr_offset: offset would overflow address space''
        (ret (p + n)))"

definition ptr_offset_const :: "uptr \<Rightarrow> usize \<Rightarrow> uptr run" where
  "ptr_offset_const p n =
     (if p = null_ptr then ret null_ptr
      else ensure_msg (p \<le> canon_usize_max - n)
        ''ptr_offset_const: offset would overflow address space'' (ret (p + n)))"

definition ptr_retreat :: "uptr \<Rightarrow> usize \<Rightarrow> uptr run" where
  "ptr_retreat p n =
     (if p = null_ptr then ret null_ptr
      else ensure_msg (n \<le> p) ''ptr_retreat: retreat would underflow address space''
        (ret (p - n)))"

definition ptr_diff :: "uptr \<Rightarrow> uptr \<Rightarrow> isize run" where
  "ptr_diff to_p from_p =
     require_msg (to_p \<noteq> null_ptr) ''ptr_diff: to is NULL''
     (require_msg (from_p \<noteq> null_ptr) ''ptr_diff: from is NULL''
       (isize_val (uint to_p - uint from_p)))"

definition ptr_span :: "uptr \<Rightarrow> uptr \<Rightarrow> usize run" where
  "ptr_span to_p from_p =
     require_msg (to_p \<noteq> null_ptr) ''ptr_span: to is NULL''
     (require_msg (from_p \<noteq> null_ptr) ''ptr_span: from is NULL''
     (require_msg (from_p \<le> to_p) ''ptr_span: to must be >= from''
       (bindR (isize_val (uint to_p - uint from_p)) (\<lambda>d. ret (word_of_int d)))))"

definition ptr_in_range :: "uptr \<Rightarrow> uptr \<Rightarrow> uptr \<Rightarrow> bool" where
  "ptr_in_range p region_start region_end =
     (if p = null_ptr \<or> region_start = null_ptr \<or> region_end = null_ptr then False
      else region_start \<le> p \<and> p < region_end)"

definition ptr_range_in_range :: "uptr \<Rightarrow> usize \<Rightarrow> uptr \<Rightarrow> uptr \<Rightarrow> bool" where
  "ptr_range_in_range p len region_start region_end =
     (if p = null_ptr \<or> region_start = null_ptr \<or> region_end = null_ptr then False
      else if p < region_start \<or> region_end < p then False
      else len \<le> region_end - p)"

definition ptr_elem :: "uptr \<Rightarrow> usize \<Rightarrow> usize \<Rightarrow> uptr run" where
  "ptr_elem base index elem_size =
     require_msg (base \<noteq> null_ptr) ''ptr_elem: base cannot be NULL''
     (require_msg (0 < elem_size) ''ptr_elem: elem_size must be > 0''
     (ensure_msg (index \<le> canon_usize_max div elem_size) ''ptr_elem: index * elem_size overflows usize''
       (ptr_offset base (index * elem_size))))"

definition ptr_elem_const :: "uptr \<Rightarrow> usize \<Rightarrow> usize \<Rightarrow> uptr run" where
  "ptr_elem_const base index elem_size =
     require_msg (base \<noteq> null_ptr) ''ptr_elem_const: base cannot be NULL''
     (require_msg (0 < elem_size) ''ptr_elem_const: elem_size must be > 0''
     (ensure_msg (index \<le> canon_usize_max div elem_size)
        ''ptr_elem_const: index * elem_size overflows usize''
       (ptr_offset_const base (index * elem_size))))"

definition ptr_or :: "uptr \<Rightarrow> uptr \<Rightarrow> uptr" where
  "ptr_or p fallback = (if p \<noteq> null_ptr then p else fallback)"

definition ptr_or_const :: "uptr \<Rightarrow> uptr \<Rightarrow> uptr" where
  "ptr_or_const p fallback = (if p \<noteq> null_ptr then p else fallback)"

definition ptr_is_valid :: "uptr \<Rightarrow> bool" where
  "ptr_is_valid p \<longleftrightarrow> p \<noteq> null_ptr"

subsection \<open>Alignment on numbers\<close>

text \<open>
  An alignment is \<open>2 ^ k\<close>, \<open>align - 1\<close> is its mask, and the three operations are rounding to
  multiples of \<open>2 ^ k\<close>.
\<close>

lemma is_power_of_two_iff: "is_power_of_two n \<longleftrightarrow> (\<exists>k < 64. unat n = 2 ^ k)"
  using power_of_two_unat_iff [of n] by (auto simp: is_power_of_two_def word_gt_0)

lemma is_power_of_two_bits: "is_power_of_two n \<longleftrightarrow> bits_is_power_of_two n"
  by (simp add: is_power_of_two_def bits_is_power_of_two_def word_gt_0)

lemma power_of_two_obtain:
  assumes "is_power_of_two a"
  obtains k where "k < 64" "unat a = 2 ^ k" "a - 1 = mask k"
proof -
  from assms obtain k where k: "k < 64" "unat a = 2 ^ k"
    by (auto simp: is_power_of_two_iff)
  then have "unat a = unat (push_bit k 1 :: usize)" by (simp only: unat_push_bit_1 len_bit0 len_num1)
  then have "a = push_bit k 1" by (simp only: word_unat_eq_iff)
  then have "a - 1 = mask k" by (simp add: mask_eq_exp_minus_1)
  with k that show ?thesis by blast
qed

lemma and_mask_mod: "unat (n AND mask k :: usize) = unat n mod 2 ^ k"
proof -
  have "n AND mask k = take_bit k n" by (simp only: take_bit_eq_mask)
  then show ?thesis by (simp only: unsigned_take_bit_eq) (simp add: take_bit_eq_mod)
qed

lemma and_not_mask_round:
  "unat (n AND NOT (mask k) :: usize) = unat n - unat n mod 2 ^ k"
proof -
  have "(n AND mask k) AND (n AND NOT (mask k)) = 0" by (rule bit_word_eqI) (auto simp: bit_simps)
  then have "(n AND mask k) + (n AND NOT (mask k)) = (n AND mask k) OR (n AND NOT (mask k))"
    by (rule disjunctive_add_eq_or)
  also have "\<dots> = n" by (rule bit_word_eqI) (auto simp: bit_simps)
  finally have "n AND NOT (mask k) = n - (n AND mask k)" by (simp add: algebra_simps)
  moreover have "n AND mask k \<le> n" by (simp add: word_le_nat_alt and_mask_mod)
  ultimately show ?thesis by (simp add: unat_sub and_mask_mod)
qed

lemma is_aligned_iff:
  assumes "is_power_of_two a"
  shows "is_aligned n a = ret (unat a dvd unat n)"
proof -
  obtain k where k: "unat a = 2 ^ k" "a - 1 = mask k"
    using assms by (rule power_of_two_obtain)
  have "n AND mask k = 0 \<longleftrightarrow> unat n mod 2 ^ k = 0"
    by (simp only: and_mask_mod [symmetric] unat_eq_0)
  then show ?thesis using assms by (simp add: is_aligned_def k dvd_eq_mod_eq_0)
qed

lemma align_down_value:
  assumes "is_power_of_two a"
  shows "\<exists>r. align_down n a = ret r \<and> unat r = unat n div unat a * unat a"
proof -
  obtain k where k: "unat a = 2 ^ k" "a - 1 = mask k"
    using assms by (rule power_of_two_obtain)
  show ?thesis using assms by (simp add: align_down_def k and_not_mask_round minus_mod_eq_div_mult)
qed

lemma align_up_value:
  assumes "is_power_of_two a" "unat n + unat a \<le> 2 ^ 64"
  shows "\<exists>r. align_up n a = ret r \<and> unat r = (unat n + unat a - 1) div unat a * unat a"
proof -
  obtain k where k: "k < 64" "unat a = 2 ^ k" "a - 1 = mask k"
    using assms(1) by (rule power_of_two_obtain)
  have "(1::nat) \<le> 2 ^ k" by simp
  have a1: "unat (a - 1) = unat a - 1"
    using k(2) by (intro unat_usize_pred) (auto simp: usize_eq_iff)
  have "unat n + unat (a - 1) < 2 ^ 64" using assms(2) a1 k(2) \<open>1 \<le> 2 ^ k\<close> by linarith
  then have "unat (n + (a - 1)) = unat n + unat a - 1"
    using a1 k(2) \<open>1 \<le> 2 ^ k\<close> by (simp only: unat_usize_add)
  then have val: "unat ((n + mask k) AND NOT (mask k)) = (unat n + unat a - 1) div unat a * unat a"
    by (simp add: and_not_mask_round k(2,3) minus_mod_eq_div_mult)
  have eq: "n + a - 1 = n + mask k" by (simp add: k(3) [symmetric])
  show ?thesis unfolding align_up_def eq k(3) using assms(1) val by simp
qed

lemma unat_minus_usize: "unat (0 - n :: usize) = (if n = 0 then 0 else 2 ^ 64 - unat n)"
proof (cases "n = 0")
  case False
  have "n + (0 - n) = 0" by simp
  have "(unat n + unat (0 - n)) mod 2 ^ 64 = 0"
    using unat_word_ariths(1) [of n "0 - n"] by simp
  moreover have "0 < unat n" "unat n < 2 ^ 64" "unat (0 - n) < 2 ^ 64"
    using False usize_bound by (simp_all add: unat_gt_0)
  ultimately have "unat n + unat (0 - n) = 2 ^ 64" by (auto simp: mod_if split: if_splits)
  then show ?thesis using False by simp
qed simp

text \<open>The padding is what is missing to the next multiple: it is below the alignment.\<close>

lemma align_padding_value:
  assumes "is_power_of_two a"
  shows "unat (align_padding n a) < unat a"
    and "unat a dvd unat n + unat (align_padding n a)"
proof -
  obtain k where k: "k < 64" "unat a = 2 ^ k" "a - 1 = mask k"
    using assms by (rule power_of_two_obtain)
  have pad: "unat (align_padding n a) = unat (0 - n) mod 2 ^ k"
    unfolding align_padding_def k(3) by (rule and_mask_mod)
  then show "unat (align_padding n a) < unat a" using k(2) by simp
  have "(unat n + unat (0 - n)) mod 2 ^ k = 0"
  proof (cases "n = 0")
    case False
    then have "unat n + unat (0 - n) = 2 ^ 64"
      using usize_bound [of n] by (simp add: unat_minus_usize del: diff_0)
    also have "(2::nat) ^ 64 = 2 ^ (64 - k) * 2 ^ k" using k(1) by (simp flip: power_add)
    finally show ?thesis by simp
  qed simp
  then show "unat a dvd unat n + unat (align_padding n a)"
    unfolding pad k(2) by (simp add: mod_add_right_eq dvd_eq_mod_eq_0)
qed

end
