(* ===== verification/Canon_Memory.thy ===== *)
theory Canon_Memory
  imports Canon_Checked Canon_Ptr
begin

section \<open>Raw memory (core/memory.h) and its views (core/slice.h)\<close>

text \<open>
  The byte memory of the machine: a heap gives the byte at an address, or \<open>None\<close> where no
  object is. The functions of string.h that the code calls (memcpy, memmove, memset, memcmp)
  act on it as the C standard says; an access outside every object is undefined behaviour,
  and so is a memcpy of overlapping regions. memcmp answers only a sign: the standard leaves
  the magnitude open and the model takes -1, 0 and 1. malloc is not modelled: the allocator is an argument of
  \<open>mem_alloc\<close>.

  The lemmas give the contents of the destination after each operation, the frame (what is
  outside the destination keeps its value), and the alignment arithmetic.
\<close>

subsection \<open>The heap and string.h\<close>

type_synonym heap = "uptr \<Rightarrow> u8 option"

fun read_bytes :: "heap \<Rightarrow> uptr \<Rightarrow> nat \<Rightarrow> u8 list run" where
  "read_bytes h p 0 = ret []"
| "read_bytes h p (Suc n) = (case h p of
     None \<Rightarrow> undefined_behaviour ''read outside every object''
   | Some b \<Rightarrow> bindR (read_bytes h (p + 1) n) (\<lambda>bs. ret (b # bs)))"

fun write_bytes :: "heap \<Rightarrow> uptr \<Rightarrow> u8 list \<Rightarrow> heap run" where
  "write_bytes h p [] = ret h"
| "write_bytes h p (b # bs) = (case h p of
     None \<Rightarrow> undefined_behaviour ''write outside every object''
   | Some old \<Rightarrow> write_bytes (h(p \<mapsto> b)) (p + 1) bs)"

definition std_memmove :: "heap \<Rightarrow> uptr \<Rightarrow> uptr \<Rightarrow> usize \<Rightarrow> heap run" where
  "std_memmove h dest src n = bindR (read_bytes h src (unat n)) (\<lambda>bs. write_bytes h dest bs)"

definition std_memcpy :: "heap \<Rightarrow> uptr \<Rightarrow> uptr \<Rightarrow> usize \<Rightarrow> heap run" where
  "std_memcpy h dest src n =
     (if 0 < n \<and> (if dest \<le> src then src - dest < n else dest - src < n)
      then undefined_behaviour ''memcpy of overlapping regions''
      else std_memmove h dest src n)"

definition std_memset :: "heap \<Rightarrow> uptr \<Rightarrow> int \<Rightarrow> usize \<Rightarrow> heap run" where
  "std_memset h p value n = write_bytes h p (replicate (unat n) (word_of_int value))"

fun bytes_compare :: "u8 list \<Rightarrow> u8 list \<Rightarrow> int" where
  "bytes_compare (x # xs) (y # ys) =
     (if x < y then - 1 else if y < x then 1 else bytes_compare xs ys)"
| "bytes_compare xs ys = 0"

definition std_memcmp :: "heap \<Rightarrow> uptr \<Rightarrow> uptr \<Rightarrow> usize \<Rightarrow> int run" where
  "std_memcmp h a b n =
     bindR (read_bytes h a (unat n)) (\<lambda>xs. bindR (read_bytes h b (unat n)) (\<lambda>ys. ret (bytes_compare xs ys)))"

subsection \<open>core/memory.h\<close>

definition canon_mem_swap_max :: usize where
  "canon_mem_swap_max = 256"

definition mem_regions_overlap :: "uptr \<Rightarrow> uptr \<Rightarrow> usize \<Rightarrow> bool" where
  "mem_regions_overlap a b n =
     (if a = null_ptr \<or> b = null_ptr \<or> n = 0 then False
      else if a \<le> b then b - a < n else a - b < n)"

definition mem_alloc :: "(usize \<Rightarrow> heap \<Rightarrow> uptr \<times> heap) \<Rightarrow> usize \<Rightarrow> heap \<Rightarrow> uptr \<times> heap" where
  "mem_alloc malloc n h = (if n = 0 then (null_ptr, h) else malloc n h)"

definition mem_free :: "(uptr \<Rightarrow> heap \<Rightarrow> heap) \<Rightarrow> uptr \<Rightarrow> heap \<Rightarrow> heap" where
  "mem_free free p h = free p h"

definition mem_alloc_array_checked ::
  "bool \<Rightarrow> (usize \<Rightarrow> heap \<Rightarrow> uptr \<times> heap) \<Rightarrow> usize \<Rightarrow> usize \<Rightarrow> heap \<Rightarrow> (uptr \<times> heap) run" where
  "mem_alloc_array_checked builtin malloc element_size cnt h =
     (if element_size = 0 \<or> cnt = 0 then ret (null_ptr, h)
      else bindR (checked_mul builtin element_size cnt (Some 0)) (\<lambda>(fits, total).
        if \<not> fits then ret (null_ptr, h)
        else bindR (deref total) (\<lambda>n. ret (mem_alloc malloc n h))))"

definition mem_align :: "usize \<Rightarrow> usize run" where
  "mem_align n = (let natural = canon_default_align in
     if n = 0 then ret 0
     else if n > canon_usize_max - (natural - 1) then ret canon_usize_max
     else align_up n natural)"

definition mem_align_to :: "usize \<Rightarrow> usize \<Rightarrow> usize run" where
  "mem_align_to n alignment =
     require_msg (alignment > 0) ''mem_align_to: alignment must be > 0''
     (require_msg (is_power_of_two alignment) ''mem_align_to: alignment must be a power of 2''
     (if n = 0 then ret 0
      else if n > canon_usize_max - (alignment - 1) then ret canon_usize_max
      else align_up n alignment))"

definition mem_is_aligned :: "uptr \<Rightarrow> usize \<Rightarrow> bool run" where
  "mem_is_aligned p alignment =
     require_msg (alignment > 0) ''mem_is_aligned: alignment must be > 0''
     (require_msg (is_power_of_two alignment) ''mem_is_aligned: alignment must be a power of 2''
       (ptr_is_aligned p alignment))"

definition mem_get_alignment :: "uptr \<Rightarrow> usize" where
  "mem_get_alignment p = (if p = null_ptr then 0 else p AND (NOT p + 1))"

definition mem_is_power_of_two :: "usize \<Rightarrow> bool" where
  "mem_is_power_of_two n = is_power_of_two n"

definition mem_copy :: "heap \<Rightarrow> uptr \<Rightarrow> uptr \<Rightarrow> usize \<Rightarrow> heap run" where
  "mem_copy h dest src n =
     (if dest = null_ptr \<or> src = null_ptr \<or> n = 0 then ret h
      else require_msg (\<not> mem_regions_overlap dest src n) ''mem_copy: regions overlap''
        (std_memcpy h dest src n))"

definition mem_move :: "heap \<Rightarrow> uptr \<Rightarrow> uptr \<Rightarrow> usize \<Rightarrow> heap run" where
  "mem_move h dest src n =
     (if dest = null_ptr \<or> src = null_ptr \<or> n = 0 then ret h else std_memmove h dest src n)"

definition mem_set :: "heap \<Rightarrow> uptr \<Rightarrow> int \<Rightarrow> usize \<Rightarrow> heap run" where
  "mem_set h p value n = (if p = null_ptr \<or> n = 0 then ret h else std_memset h p value n)"

definition mem_zero :: "heap \<Rightarrow> uptr \<Rightarrow> usize \<Rightarrow> heap run" where
  "mem_zero h p n = (if p = null_ptr \<or> n = 0 then ret h else std_memset h p 0 n)"

text \<open>The volatile loop of the portable branch: \<open>k\<close> iterations are left, \<open>i\<close> is the index.\<close>

fun mem_secure_zero_loop :: "heap \<Rightarrow> uptr \<Rightarrow> usize \<Rightarrow> nat \<Rightarrow> heap run" where
  "mem_secure_zero_loop h p i 0 = ret h"
| "mem_secure_zero_loop h p i (Suc k) =
     bindR (write_bytes h (p + i) [0]) (\<lambda>h'. mem_secure_zero_loop h' p (i + 1) k)"

definition mem_secure_zero :: "heap \<Rightarrow> uptr \<Rightarrow> usize \<Rightarrow> heap run" where
  "mem_secure_zero h p n =
     (if p = null_ptr \<or> n = 0 then ret h else mem_secure_zero_loop h p 0 (unat n))"

definition mem_compare :: "heap \<Rightarrow> uptr \<Rightarrow> uptr \<Rightarrow> usize \<Rightarrow> int run" where
  "mem_compare h a b n =
     (if a = b then ret 0
      else if a = null_ptr \<or> b = null_ptr then ret (if a = null_ptr then - 1 else 1)
      else if n = 0 then ret 0
      else std_memcmp h a b n)"

definition mem_equal :: "heap \<Rightarrow> uptr \<Rightarrow> uptr \<Rightarrow> usize \<Rightarrow> bool run" where
  "mem_equal h a b n =
     (if a = b then ret True
      else if a = null_ptr \<or> b = null_ptr then ret False
      else if n = 0 then ret True
      else bindR (std_memcmp h a b n) (\<lambda>c. ret (c = 0)))"

fun mem_is_all_loop :: "heap \<Rightarrow> uptr \<Rightarrow> u8 \<Rightarrow> usize \<Rightarrow> nat \<Rightarrow> bool run" where
  "mem_is_all_loop h p v i 0 = ret True"
| "mem_is_all_loop h p v i (Suc k) =
     bindR (read_bytes h (p + i) 1) (\<lambda>bs.
       if hd bs \<noteq> v then ret False else mem_is_all_loop h p v (i + 1) k)"

definition mem_is_all :: "heap \<Rightarrow> uptr \<Rightarrow> int \<Rightarrow> usize \<Rightarrow> bool run" where
  "mem_is_all h p value n =
     (if p = null_ptr \<or> n = 0 then ret False
      else mem_is_all_loop h p (word_of_int value) 0 (unat n))"

definition mem_is_zero :: "heap \<Rightarrow> uptr \<Rightarrow> usize \<Rightarrow> bool run" where
  "mem_is_zero h p n = mem_is_all h p 0 n"

text \<open>\<open>tmp\<close> is a local array: its contents are the bytes read from \<open>a\<close>.\<close>

definition mem_swap :: "heap \<Rightarrow> uptr \<Rightarrow> uptr \<Rightarrow> usize \<Rightarrow> heap run" where
  "mem_swap h a b n =
     (if a = null_ptr \<or> b = null_ptr \<or> n = 0 then ret h
      else require_msg (n \<le> canon_mem_swap_max) ''mem_swap: size exceeds CANON_MEM_SWAP_MAX''
        (require_msg (\<not> mem_regions_overlap a b n) ''mem_swap: regions overlap''
        (bindR (read_bytes h a (unat n)) (\<lambda>tmp.
         bindR (std_memcpy h a b n) (\<lambda>h'. write_bytes h' b tmp)))))"

definition mem_swap_buf :: "heap \<Rightarrow> uptr \<Rightarrow> uptr \<Rightarrow> usize \<Rightarrow> uptr \<Rightarrow> usize \<Rightarrow> heap run" where
  "mem_swap_buf h a b n scratch scratch_len =
     (if a = null_ptr \<or> b = null_ptr \<or> scratch = null_ptr \<or> n = 0 then ret h
      else require_msg (scratch_len \<ge> n) ''mem_swap_buf: scratch buffer too small''
        (require_msg (\<not> mem_regions_overlap a b n) ''mem_swap_buf: a and b overlap''
        (require_msg (\<not> mem_regions_overlap a scratch n) ''mem_swap_buf: a and scratch overlap''
        (require_msg (\<not> mem_regions_overlap b scratch n) ''mem_swap_buf: b and scratch overlap''
        (bindR (std_memcpy h scratch a n) (\<lambda>h1.
         bindR (std_memcpy h1 a b n) (\<lambda>h2. std_memcpy h2 b scratch n)))))))"

subsection \<open>Regions of the heap\<close>

text \<open>
  \<open>region h p xs\<close>: the bytes from \<open>p\<close> on are \<open>xs\<close>. \<open>span p n\<close> are the addresses of \<open>n\<close> bytes
  from \<open>p\<close>; a region never wraps around the address space (\<open>fits p n\<close>), and does not hold
  the address 0.
\<close>

fun region :: "heap \<Rightarrow> uptr \<Rightarrow> u8 list \<Rightarrow> bool" where
  "region h p [] \<longleftrightarrow> True"
| "region h p (x # xs) \<longleftrightarrow> h p = Some x \<and> region h (p + 1) xs"

definition fits :: "uptr \<Rightarrow> nat \<Rightarrow> bool" where
  "fits p n \<longleftrightarrow> unat p + n \<le> 2 ^ 64"

definition span :: "uptr \<Rightarrow> nat \<Rightarrow> uptr set" where
  "span p n = {q. unat p \<le> unat q \<and> unat q < unat p + n}"

lemma span_0 [simp]: "span p 0 = {}"
  by (auto simp: span_def)

lemma span_Suc: "fits p (Suc n) \<Longrightarrow> span p (Suc n) = insert p (span (p + 1) n)"
proof (cases n)
  case 0
  then show ?thesis by (auto simp: span_def usize_eq_iff)
next
  case (Suc m)
  assume "fits p (Suc n)"
  then have "unat (p + 1) = Suc (unat p)"
    using Suc by (intro unat_usize_Suc) (simp add: fits_def)
  then show ?thesis by (auto simp: span_def usize_eq_iff)
qed

lemma fits_Suc: "fits p (Suc n) \<Longrightarrow> n = 0 \<or> (fits (p + 1) n \<and> p \<notin> span (p + 1) n)"
  by (cases n) (auto simp: fits_def span_def unat_usize_Suc)

lemma read_bytes_region: "region h p xs \<Longrightarrow> read_bytes h p (length xs) = ret xs"
  by (induction xs arbitrary: p) auto

lemma region_unique: "region h p xs \<Longrightarrow> region h p ys \<Longrightarrow> length xs = length ys \<Longrightarrow> xs = ys"
  by (metis read_bytes_region sum.inject(2))

lemma region_cong:
  assumes "\<And>q. q \<in> span p (length xs) \<Longrightarrow> h q = h' q" "fits p (length xs)"
  shows "region h p xs = region h' p xs"
  using assms
proof (induction xs arbitrary: p)
  case (Cons x xs)
  have fits: "fits p (Suc (length xs))" using Cons.prems(2) by simp
  have eq: "h p = h' p" using Cons.prems(1) [of p] fits by (simp add: span_Suc)
  show ?case
  proof (cases "xs = []")
    case False
    then have "fits (p + 1) (length xs)" using fits_Suc [OF fits] by simp
    moreover have "\<And>q. q \<in> span (p + 1) (length xs) \<Longrightarrow> h q = h' q"
      using Cons.prems(1) fits by (simp add: span_Suc)
    ultimately show ?thesis using eq Cons.IH by simp
  qed (simp add: eq)
qed simp

text \<open>A write into a region of the same length: it succeeds, and nothing else changes.\<close>

lemma write_bytes_region:
  assumes "region h p xs" "length ys = length xs" "fits p (length xs)"
  shows "\<exists>h'. write_bytes h p ys = ret h' \<and> region h' p ys \<and>
    (\<forall>q. q \<notin> span p (length xs) \<longrightarrow> h' q = h q)"
  using assms
proof (induction xs arbitrary: h p ys)
  case (Cons x xs)
  obtain y ys' where ys: "ys = y # ys'" "length ys' = length xs"
    using Cons.prems(2) by (cases ys) auto
  have fits: "fits p (Suc (length xs))" using Cons.prems(3) by simp
  show ?case
  proof (cases "xs = []")
    case True
    with ys Cons.prems fits show ?thesis by (simp add: span_Suc)
  next
    case False
    then have f: "fits (p + 1) (length xs)" "p \<notin> span (p + 1) (length xs)"
      using fits_Suc [OF fits] by auto
    have "region (h(p \<mapsto> y)) (p + 1) xs = region h (p + 1) xs"
      using f by (intro region_cong) auto
    then have "region (h(p \<mapsto> y)) (p + 1) xs" using Cons.prems(1) by simp
    from Cons.IH [OF this ys(2) f(1)]
    obtain h' where h': "write_bytes (h(p \<mapsto> y)) (p + 1) ys' = ret h'" "region h' (p + 1) ys'"
      "\<forall>q. q \<notin> span (p + 1) (length xs) \<longrightarrow> h' q = (h(p \<mapsto> y)) q"
      by blast
    with ys f(2) fits Cons.prems(1) show ?thesis by (auto simp: span_Suc)
  qed
qed simp

lemma mem_move_region:
  assumes "region h src xs" "region h dest ys" "unat n = length xs" "length ys = length xs"
    "fits dest (length xs)" "src \<noteq> 0" "dest \<noteq> 0"
  shows "\<exists>h'. mem_move h dest src n = ret h' \<and> region h' dest xs \<and>
    (\<forall>q. q \<notin> span dest (length xs) \<longrightarrow> h' q = h q)"
proof (cases "n = 0")
  case True
  with assms show ?thesis by (simp add: mem_move_def)
next
  case False
  with assms write_bytes_region [of h dest ys xs] show ?thesis
    by (auto simp: mem_move_def std_memmove_def null_ptr_def read_bytes_region)
qed

subsection \<open>Overlap of two regions\<close>

text \<open>The test on the addresses is the overlap of the two regions.\<close>

lemma addr_distance_span:
  "(if a \<le> b then b - a < n else a - b < n) \<longleftrightarrow> span a (unat n) \<inter> span b (unat n) \<noteq> {}"
  if "0 < n" for a b n :: usize
proof -
  have n: "0 < unat n" using that by (simp add: unat_gt_0)
  have le: "span x (unat n) \<inter> span y (unat n) \<noteq> {} \<longleftrightarrow> unat y - unat x < unat n"
    if "unat x \<le> unat y" for x y :: usize
  proof
    assume "unat y - unat x < unat n"
    then have "y \<in> span x (unat n) \<inter> span y (unat n)" using n that by (simp add: span_def)
    then show "span x (unat n) \<inter> span y (unat n) \<noteq> {}" by blast
  qed (auto simp: span_def)
  show ?thesis
    using le [of a b] le [of b a] by (auto simp: word_to_nat unat_sub Int_commute)
qed

lemma mem_regions_overlap_iff:
  "a \<noteq> 0 \<Longrightarrow> b \<noteq> 0 \<Longrightarrow> mem_regions_overlap a b n \<longleftrightarrow> span a (unat n) \<inter> span b (unat n) \<noteq> {}"
  using addr_distance_span [of n a b]
  by (cases "n = 0") (auto simp: mem_regions_overlap_def null_ptr_def word_gt_0)

subsection \<open>Copy, set and swap\<close>

text \<open>
  The premises the lemmas share: \<open>object h p xs n\<close> says that \<open>p\<close> points to \<open>n\<close> bytes \<open>xs\<close>.
\<close>

definition object :: "heap \<Rightarrow> uptr \<Rightarrow> u8 list \<Rightarrow> usize \<Rightarrow> bool" where
  "object h p xs n \<longleftrightarrow> p \<noteq> 0 \<and> region h p xs \<and> length xs = unat n \<and> fits p (unat n)"

lemma object_frame:
  assumes "object h p xs n" "\<forall>q. q \<notin> span d m \<longrightarrow> h' q = h q" "span d m \<inter> span p (unat n) = {}"
  shows "object h' p xs n"
proof -
  have "region h p xs = region h' p xs"
    using assms by (intro region_cong) (auto simp: object_def)
  then show ?thesis using assms(1) by (simp add: object_def)
qed

lemma object_write:
  assumes "object h p xs n" "length ys = unat n"
  shows "\<exists>h'. write_bytes h p ys = ret h' \<and> object h' p ys n \<and> (\<forall>q. q \<notin> span p (unat n) \<longrightarrow> h' q = h q)"
  using assms write_bytes_region [of h p xs ys] by (auto simp: object_def)

lemma object_read: "object h p xs n \<Longrightarrow> read_bytes h p (unat n) = ret xs"
  using read_bytes_region [of h p xs] by (simp add: object_def)

lemma std_memcpy_object:
  assumes "object h src xs n" "object h dest ys n" "\<not> mem_regions_overlap dest src n"
  shows "\<exists>h'. std_memcpy h dest src n = ret h' \<and> object h' dest xs n \<and>
    (\<forall>q. q \<notin> span dest (unat n) \<longrightarrow> h' q = h q)"
proof -
  have "std_memcpy h dest src n = write_bytes h dest xs"
    using assms(3) object_read [OF assms(1)] assms(1,2)
    by (auto simp: std_memcpy_def std_memmove_def mem_regions_overlap_def null_ptr_def object_def
        split: if_splits)
  then show ?thesis using object_write [OF assms(2), of xs] assms(1) by (simp add: object_def)
qed

lemma mem_copy_object:
  assumes "object h src xs n" "object h dest ys n"
  shows "if mem_regions_overlap dest src n
    then mem_copy h dest src n = violation ''mem_copy: regions overlap''
    else \<exists>h'. mem_copy h dest src n = ret h' \<and> object h' dest xs n \<and> object h' src xs n \<and>
      (\<forall>q. q \<notin> span dest (unat n) \<longrightarrow> h' q = h q)"
proof (cases "n = 0")
  case True
  with assms show ?thesis by (simp add: mem_copy_def mem_regions_overlap_def object_def)
next
  case n: False
  have nn: "dest \<noteq> null_ptr" "src \<noteq> null_ptr" using assms by (simp_all add: object_def null_ptr_def)
  show ?thesis
  proof (cases "mem_regions_overlap dest src n")
    case True
    with n nn show ?thesis by (simp add: mem_copy_def)
  next
    case False
    then have "span dest (unat n) \<inter> span src (unat n) = {}"
      using nn mem_regions_overlap_iff [of dest src n] by (simp add: null_ptr_def)
    moreover from std_memcpy_object [OF assms False] obtain h' where
      "std_memcpy h dest src n = ret h'" "object h' dest xs n"
      "\<forall>q. q \<notin> span dest (unat n) \<longrightarrow> h' q = h q" by blast
    ultimately show ?thesis using n nn False object_frame [OF assms(1)] by (auto simp: mem_copy_def)
  qed
qed

lemma mem_move_object:
  assumes "object h src xs n" "object h dest ys n"
  shows "\<exists>h'. mem_move h dest src n = ret h' \<and> object h' dest xs n \<and>
    (\<forall>q. q \<notin> span dest (unat n) \<longrightarrow> h' q = h q)"
  using assms mem_move_region [of h src xs dest ys n] by (auto simp: object_def)

lemma mem_set_object:
  assumes "object h p xs n"
  shows "\<exists>h'. mem_set h p value n = ret h' \<and> object h' p (replicate (unat n) (word_of_int value)) n \<and>
    (\<forall>q. q \<notin> span p (unat n) \<longrightarrow> h' q = h q)"
proof (cases "n = 0")
  case True
  with assms show ?thesis by (simp add: mem_set_def object_def)
next
  case False
  with assms object_write [OF assms] show ?thesis
    by (simp add: mem_set_def std_memset_def object_def null_ptr_def)
qed

lemma mem_zero_eq_set: "mem_zero h p n = mem_set h p 0 n"
  by (simp add: mem_zero_def mem_set_def)

lemma secure_loop_write:
  "fits (p + i) k \<Longrightarrow> mem_secure_zero_loop h p i k = write_bytes h (p + i) (replicate k 0)"
proof (induction k arbitrary: h i)
  case (Suc k)
  have "k = 0 \<or> fits (p + (i + 1)) k"
    using fits_Suc [OF Suc.prems] by (auto simp: add.assoc)
  then show ?case using Suc.IH by (auto simp: add.assoc split: option.splits)
qed simp

text \<open>The volatile loop writes what memset would.\<close>

lemma mem_secure_zero_eq: "fits p (unat n) \<Longrightarrow> mem_secure_zero h p n = mem_zero h p n"
  using secure_loop_write [of p 0 "unat n" h]
  by (simp add: mem_secure_zero_def mem_zero_def std_memset_def)

lemma mem_swap_object:
  assumes "object h a xs n" "object h b ys n" "\<not> mem_regions_overlap a b n"
    "n \<le> canon_mem_swap_max"
  shows "\<exists>h'. mem_swap h a b n = ret h' \<and> object h' a ys n \<and> object h' b xs n \<and>
    (\<forall>q. q \<notin> span a (unat n) \<union> span b (unat n) \<longrightarrow> h' q = h q)"
proof (cases "n = 0")
  case True
  with assms show ?thesis by (simp add: mem_swap_def object_def)
next
  case False
  have nn: "a \<noteq> null_ptr" "b \<noteq> null_ptr" using assms by (simp_all add: object_def null_ptr_def)
  have dj: "span a (unat n) \<inter> span b (unat n) = {}"
    using nn assms(3) mem_regions_overlap_iff [of a b n] by (simp add: null_ptr_def)
  from std_memcpy_object [OF assms(2,1,3)] obtain h1 where
    h1: "std_memcpy h a b n = ret h1" "object h1 a ys n" "\<forall>q. q \<notin> span a (unat n) \<longrightarrow> h1 q = h q"
    by blast
  have "object h1 b ys n" using object_frame [OF assms(2) h1(3) dj] .
  from object_write [OF this, of xs] assms(1) obtain h2 where
    h2: "write_bytes h1 b xs = ret h2" "object h2 b xs n" "\<forall>q. q \<notin> span b (unat n) \<longrightarrow> h2 q = h1 q"
    by (auto simp: object_def)
  have "object h2 a ys n" using object_frame [OF h1(2) h2(3)] dj by blast
  moreover have "mem_swap h a b n = ret h2"
    using assms False nn h1 h2 object_read [OF assms(1)] by (simp add: mem_swap_def)
  ultimately show ?thesis using h1(3) h2(2,3) by auto
qed

subsection \<open>Comparison\<close>

lemma bytes_compare_eq_0: "length xs = length ys \<Longrightarrow> bytes_compare xs ys = 0 \<longleftrightarrow> xs = ys"
  by (induction xs ys rule: bytes_compare.induct) auto

lemma mem_equal_object:
  assumes "object h a xs n" "object h b ys n"
  shows "mem_equal h a b n = ret (xs = ys)"
proof (cases "a = b \<or> n = 0")
  case True
  with assms have "xs = ys" by (auto simp: object_def dest: region_unique)
  with True assms show ?thesis by (auto simp: mem_equal_def object_def null_ptr_def)
next
  case False
  have "length xs = length ys" "a \<noteq> null_ptr" "b \<noteq> null_ptr"
    using assms by (simp_all add: object_def null_ptr_def)
  with False show ?thesis
    by (simp add: mem_equal_def std_memcmp_def object_read [OF assms(1)] object_read [OF assms(2)]
        bytes_compare_eq_0)
qed

lemma mem_is_all_loop_region:
  "region h (p + i) xs \<Longrightarrow> mem_is_all_loop h p v i (length xs) = ret (\<forall>x \<in> set xs. x = v)"
  by (induction xs arbitrary: i) (auto simp: add.assoc)

lemma mem_is_all_object:
  assumes "object h p xs n"
  shows "mem_is_all h p value n = ret (n \<noteq> 0 \<and> (\<forall>x \<in> set xs. x = word_of_int value))"
  using assms mem_is_all_loop_region [of h p 0 xs "word_of_int value"]
  by (auto simp: mem_is_all_def object_def null_ptr_def)

subsection \<open>Alignment of sizes and addresses\<close>

lemma default_align: "is_power_of_two canon_default_align" "unat canon_default_align = 16"
  by (simp_all add: canon_default_align_def is_power_of_two_def)

lemma mem_align_to_value:
  assumes "is_power_of_two a" "n \<noteq> 0"
  shows "\<exists>r. mem_align_to n a = ret r \<and>
    (if unat n + unat a \<le> 2 ^ 64 then unat r = (unat n + unat a - 1) div unat a * unat a
     else r = canon_usize_max)"
proof -
  have pos: "0 < a" using assms(1) by (simp add: is_power_of_two_def)
  then have a: "unat (a - 1) = unat a - 1" "0 < unat a"
    by (auto simp: unat_usize_pred word_gt_0 unat_gt_0)
  have "unat (canon_usize_max - (a - 1)) = 2 ^ 64 - unat a"
    using a usize_bound [of a] by (simp add: unat_sub word_le_nat_alt unat_usize_max)
  then have "n > canon_usize_max - (a - 1) \<longleftrightarrow> \<not> unat n + unat a \<le> 2 ^ 64"
    using usize_bound [of a] by (simp add: word_less_nat_alt) linarith
  with assms pos align_up_value [of a n] show ?thesis
    by (auto simp: mem_align_to_def)
qed

lemma mem_align_eq: "mem_align n = mem_align_to n canon_default_align"
  using default_align
  by (auto simp: mem_align_def mem_align_to_def Let_def canon_default_align_def is_power_of_two_def)

end
