(* ===== verification/Canon_Slice.thy ===== *)
theory Canon_Slice
  imports Canon_Memory
begin

section \<open>Fat pointers (core/slice.h, and the byte-view functions of core/memory.h)\<close>

text \<open>
  \<open>bytes_t\<close>, \<open>cbytes_t\<close> and \<open>str_t\<close> are an address with a length; they differ in C in const and
  in the element type only, and share the record \<open>view\<close>. The functions that read what a view
  points to take the heap. \<open>DEFINE_SLICE(type)\<close> makes a typed view: there the pointer is the
  list of the elements from it on, so \<open>s.ptr + start\<close> drops \<open>start\<close> elements; its conversions
  to bytes are not modelled. The lemmas relate a view to the bytes (or elements) it shows:
  slicing is take and drop of them, the comparisons are equality, prefix and suffix.
\<close>

record view =
  v_ptr :: uptr
  v_len :: usize

type_synonym bytes = view
type_synonym cbytes = view
type_synonym str = view

subsection \<open>Byte views\<close>

definition bytes_from :: "uptr \<Rightarrow> usize \<Rightarrow> bytes run" where
  "bytes_from p len = require_msg (p \<noteq> null_ptr \<or> len = 0) ''bytes_from: NULL ptr with non-zero len''
     (ret \<lparr>v_ptr = p, v_len = len\<rparr>)"

definition bytes_empty :: bytes where
  "bytes_empty = \<lparr>v_ptr = null_ptr, v_len = 0\<rparr>"

definition cbytes_from :: "uptr \<Rightarrow> usize \<Rightarrow> cbytes run" where
  "cbytes_from p len = require_msg (p \<noteq> null_ptr \<or> len = 0) ''cbytes_from: NULL ptr with non-zero len''
     (ret \<lparr>v_ptr = p, v_len = len\<rparr>)"

definition cbytes_empty :: cbytes where
  "cbytes_empty = \<lparr>v_ptr = null_ptr, v_len = 0\<rparr>"

definition bytes_as_const :: "bytes \<Rightarrow> cbytes" where
  "bytes_as_const b = \<lparr>v_ptr = v_ptr b, v_len = v_len b\<rparr>"

definition bytes_is_empty :: "bytes \<Rightarrow> bool" where
  "bytes_is_empty b \<longleftrightarrow> v_len b = 0"

definition bytes_at :: "bytes \<Rightarrow> usize \<Rightarrow> uptr" where
  "bytes_at b i = (if v_ptr b = null_ptr \<or> i \<ge> v_len b then null_ptr else v_ptr b + i)"

definition bytes_equal :: "heap \<Rightarrow> bytes \<Rightarrow> bytes \<Rightarrow> bool run" where
  "bytes_equal h a b =
     (if v_len a \<noteq> v_len b then ret False
      else if v_ptr a = v_ptr b then ret True
      else if v_ptr a = null_ptr \<or> v_ptr b = null_ptr then ret False
      else if v_len a = 0 then ret True
      else bindR (std_memcmp h (v_ptr a) (v_ptr b) (v_len a)) (\<lambda>c. ret (c = 0)))"

definition bytes_slice :: "bytes \<Rightarrow> usize \<Rightarrow> usize \<Rightarrow> bytes" where
  "bytes_slice b start stop =
     (if v_ptr b = null_ptr \<or> start \<ge> v_len b then bytes_empty
      else let e = (if stop > v_len b then v_len b else stop) in
        if start \<ge> e then bytes_empty
        else \<lparr>v_ptr = v_ptr b + start, v_len = e - start\<rparr>)"

definition bytes_take :: "bytes \<Rightarrow> usize \<Rightarrow> bytes" where
  "bytes_take b n = bytes_slice b 0 n"

definition bytes_skip :: "bytes \<Rightarrow> usize \<Rightarrow> bytes" where
  "bytes_skip b n =
     (if v_ptr b = null_ptr \<or> n \<ge> v_len b then bytes_empty
      else \<lparr>v_ptr = v_ptr b + n, v_len = v_len b - n\<rparr>)"

subsection \<open>String views\<close>

definition str_from :: "uptr \<Rightarrow> usize \<Rightarrow> str run" where
  "str_from p len = require_msg (p \<noteq> null_ptr \<or> len = 0) ''str_from: NULL ptr with non-zero len''
     (ret \<lparr>v_ptr = p, v_len = len\<rparr>)"

text \<open>
  strlen: the number of bytes before the first zero byte. The search ends at the end of the
  address space at the latest: \<open>fuel\<close> is the number of addresses left.
\<close>

fun std_strlen :: "heap \<Rightarrow> uptr \<Rightarrow> nat \<Rightarrow> usize run" where
  "std_strlen h p 0 = undefined_behaviour ''string without a terminator''"
| "std_strlen h p (Suc fuel) = (case h p of
     None \<Rightarrow> undefined_behaviour ''read outside every object''
   | Some b \<Rightarrow> if b = 0 then ret 0 else bindR (std_strlen h (p + 1) fuel) (\<lambda>n. ret (n + 1)))"

definition str_from_cstr :: "heap \<Rightarrow> uptr \<Rightarrow> str run" where
  "str_from_cstr h cstr =
     (if cstr = null_ptr then ret \<lparr>v_ptr = null_ptr, v_len = 0\<rparr>
      else bindR (std_strlen h cstr (2 ^ 64 - unat cstr)) (\<lambda>n. ret \<lparr>v_ptr = cstr, v_len = n\<rparr>))"

definition str_empty :: str where
  "str_empty = \<lparr>v_ptr = null_ptr, v_len = 0\<rparr>"

definition str_is_empty :: "str \<Rightarrow> bool" where
  "str_is_empty s \<longleftrightarrow> v_len s = 0"

definition str_equal :: "heap \<Rightarrow> str \<Rightarrow> str \<Rightarrow> bool run" where
  "str_equal h a b =
     (if v_len a \<noteq> v_len b then ret False
      else if v_ptr a = v_ptr b then ret True
      else if v_ptr a = null_ptr \<or> v_ptr b = null_ptr then ret False
      else if v_len a = 0 then ret True
      else bindR (std_memcmp h (v_ptr a) (v_ptr b) (v_len a)) (\<lambda>c. ret (c = 0)))"

definition str_starts_with :: "heap \<Rightarrow> str \<Rightarrow> str \<Rightarrow> bool run" where
  "str_starts_with h s prefix =
     (if v_len prefix > v_len s then ret False
      else if v_ptr prefix = null_ptr \<or> v_len prefix = 0 then ret True
      else bindR (std_memcmp h (v_ptr s) (v_ptr prefix) (v_len prefix)) (\<lambda>c. ret (c = 0)))"

definition str_ends_with :: "heap \<Rightarrow> str \<Rightarrow> str \<Rightarrow> bool run" where
  "str_ends_with h s suffix =
     (if v_len suffix > v_len s then ret False
      else if v_ptr suffix = null_ptr \<or> v_len suffix = 0 then ret True
      else bindR (std_memcmp h (v_ptr s + (v_len s - v_len suffix)) (v_ptr suffix) (v_len suffix))
        (\<lambda>c. ret (c = 0)))"

definition str_slice :: "str \<Rightarrow> usize \<Rightarrow> usize \<Rightarrow> str" where
  "str_slice s start stop =
     (if v_ptr s = null_ptr \<or> start \<ge> v_len s then str_empty
      else let e = (if stop > v_len s then v_len s else stop) in
        if start \<ge> e then str_empty
        else \<lparr>v_ptr = v_ptr s + start, v_len = e - start\<rparr>)"

definition str_take :: "str \<Rightarrow> usize \<Rightarrow> str" where
  "str_take s n = str_slice s 0 n"

definition str_skip :: "str \<Rightarrow> usize \<Rightarrow> str" where
  "str_skip s n =
     (if v_ptr s = null_ptr \<or> n \<ge> v_len s then str_empty
      else \<lparr>v_ptr = v_ptr s + n, v_len = v_len s - n\<rparr>)"

definition str_as_bytes :: "str \<Rightarrow> cbytes" where
  "str_as_bytes s = \<lparr>v_ptr = v_ptr s, v_len = v_len s\<rparr>"

subsection \<open>Memory operations on byte views (core/memory.h)\<close>

definition mem_copy_bytes :: "heap \<Rightarrow> bytes \<Rightarrow> cbytes \<Rightarrow> (usize \<times> heap) run" where
  "mem_copy_bytes h dest src =
     (if v_ptr dest = null_ptr \<or> v_ptr src = null_ptr \<or> v_len src = 0 then ret (0, h)
      else require_msg (v_len dest \<ge> v_len src) ''mem_copy_bytes: dest smaller than src''
        (if v_len dest < v_len src then ret (0, h)
         else require_msg (\<not> mem_regions_overlap (v_ptr dest) (v_ptr src) (v_len src))
           ''mem_copy_bytes: regions overlap''
           (bindR (std_memcpy h (v_ptr dest) (v_ptr src) (v_len src)) (\<lambda>h'. ret (v_len src, h')))))"

definition mem_move_bytes :: "heap \<Rightarrow> bytes \<Rightarrow> cbytes \<Rightarrow> (usize \<times> heap) run" where
  "mem_move_bytes h dest src =
     (if v_ptr dest = null_ptr \<or> v_ptr src = null_ptr \<or> v_len src = 0 then ret (0, h)
      else require_msg (v_len dest \<ge> v_len src) ''mem_move_bytes: dest smaller than src''
        (if v_len dest < v_len src then ret (0, h)
         else bindR (std_memmove h (v_ptr dest) (v_ptr src) (v_len src)) (\<lambda>h'. ret (v_len src, h'))))"

definition mem_zero_bytes :: "heap \<Rightarrow> bytes \<Rightarrow> heap run" where
  "mem_zero_bytes h b =
     (if v_ptr b = null_ptr \<or> v_len b = 0 then ret h else std_memset h (v_ptr b) 0 (v_len b))"

definition mem_set_bytes :: "heap \<Rightarrow> bytes \<Rightarrow> int \<Rightarrow> heap run" where
  "mem_set_bytes h b value =
     (if v_ptr b = null_ptr \<or> v_len b = 0 then ret h else std_memset h (v_ptr b) value (v_len b))"

definition mem_equal_bytes :: "heap \<Rightarrow> cbytes \<Rightarrow> cbytes \<Rightarrow> bool run" where
  "mem_equal_bytes h a b =
     (if v_len a \<noteq> v_len b then ret False
      else if v_ptr a = v_ptr b then ret True
      else if v_ptr a = null_ptr \<or> v_ptr b = null_ptr then ret False
      else if v_len a = 0 then ret True
      else bindR (std_memcmp h (v_ptr a) (v_ptr b) (v_len a)) (\<lambda>c. ret (c = 0)))"

definition mem_is_zero_bytes :: "heap \<Rightarrow> cbytes \<Rightarrow> bool run" where
  "mem_is_zero_bytes h b = mem_is_all h (v_ptr b) 0 (v_len b)"

definition mem_secure_zero_bytes :: "heap \<Rightarrow> bytes \<Rightarrow> heap run" where
  "mem_secure_zero_bytes h b = mem_secure_zero h (v_ptr b) (v_len b)"

subsection \<open>Typed slices: \<open>DEFINE_SLICE(type)\<close>\<close>

record 'a slice =
  s_ptr :: "'a list cptr"
  s_len :: usize

definition slice_from :: "'a list cptr \<Rightarrow> usize \<Rightarrow> 'a slice run" where
  "slice_from p len = require_msg (p \<noteq> None \<or> len = 0) ''slice_from: NULL ptr with non-zero len''
     (ret \<lparr>s_ptr = p, s_len = len\<rparr>)"

definition slice_empty :: "'a slice" where
  "slice_empty = \<lparr>s_ptr = None, s_len = 0\<rparr>"

definition slice_length :: "'a slice \<Rightarrow> usize" where
  "slice_length s = s_len s"

definition slice_is_empty :: "'a slice \<Rightarrow> bool" where
  "slice_is_empty s \<longleftrightarrow> s_len s = 0"

definition slice_get :: "'a slice \<Rightarrow> usize \<Rightarrow> 'a cptr \<Rightarrow> (bool \<times> 'a cptr) run" where
  "slice_get s i out = (case s_ptr s of
     None \<Rightarrow> ret (False, out)
   | Some xs \<Rightarrow> if out = None \<or> i \<ge> s_len s then ret (False, out)
       else bindR (arr_get xs i) (\<lambda>x. ret (True, Some x)))"

definition slice_get_unchecked :: "'a slice \<Rightarrow> usize \<Rightarrow> 'a run" where
  "slice_get_unchecked s i =
     ensure_msg (s_ptr s \<noteq> None) ''slice_get_unchecked: NULL ptr''
     (ensure_msg (i < s_len s) ''slice_get_unchecked: index out of bounds''
       (bindR (deref (s_ptr s)) (\<lambda>xs. arr_get xs i)))"

text \<open>A pointer to an element is the element's position in the slice and its value.\<close>

definition slice_at :: "'a slice \<Rightarrow> usize \<Rightarrow> (usize \<times> 'a) cptr run" where
  "slice_at s i = (case s_ptr s of
     None \<Rightarrow> ret None
   | Some xs \<Rightarrow> if i \<ge> s_len s then ret None else bindR (arr_get xs i) (\<lambda>x. ret (Some (i, x))))"

definition slice_first :: "'a slice \<Rightarrow> (usize \<times> 'a) cptr run" where
  "slice_first s = (case s_ptr s of
     None \<Rightarrow> ret None
   | Some xs \<Rightarrow> if s_len s > 0 then bindR (arr_get xs 0) (\<lambda>x. ret (Some (0, x))) else ret None)"

definition slice_last :: "'a slice \<Rightarrow> (usize \<times> 'a) cptr run" where
  "slice_last s = (case s_ptr s of
     None \<Rightarrow> ret None
   | Some xs \<Rightarrow> if s_len s > 0 then bindR (arr_get xs (s_len s - 1)) (\<lambda>x. ret (Some (s_len s - 1, x)))
       else ret None)"

definition slice_slice :: "'a slice \<Rightarrow> usize \<Rightarrow> usize \<Rightarrow> 'a slice" where
  "slice_slice s start stop = (case s_ptr s of
     None \<Rightarrow> slice_empty
   | Some xs \<Rightarrow>
       if start \<ge> s_len s then slice_empty
       else let e = (if stop > s_len s then s_len s else stop) in
         if start \<ge> e then slice_empty
         else \<lparr>s_ptr = Some (drop (unat start) xs), s_len = e - start\<rparr>)"

definition slice_take :: "'a slice \<Rightarrow> usize \<Rightarrow> 'a slice" where
  "slice_take s n = slice_slice s 0 n"

definition slice_skip :: "'a slice \<Rightarrow> usize \<Rightarrow> 'a slice" where
  "slice_skip s n = (case s_ptr s of
     None \<Rightarrow> slice_empty
   | Some xs \<Rightarrow>
       if n \<ge> s_len s then slice_empty
       else \<lparr>s_ptr = Some (drop (unat n) xs), s_len = s_len s - n\<rparr>)"

subsection \<open>What a view shows\<close>

text \<open>The bytes of a view: none for NULL, else the object it points to.\<close>

definition shows_bytes :: "heap \<Rightarrow> view \<Rightarrow> u8 list \<Rightarrow> bool" where
  "shows_bytes h v xs \<longleftrightarrow>
     (if v_ptr v = null_ptr then v_len v = 0 \<and> xs = [] else object h (v_ptr v) xs (v_len v))"

definition slice_ok :: "'a slice \<Rightarrow> bool" where
  "slice_ok s \<longleftrightarrow> (case s_ptr s of None \<Rightarrow> s_len s = 0 | Some xs \<Rightarrow> unat (s_len s) \<le> length xs)"

definition slice_list :: "'a slice \<Rightarrow> 'a list" where
  "slice_list s = (case s_ptr s of None \<Rightarrow> [] | Some xs \<Rightarrow> take (unat (s_len s)) xs)"

lemma region_drop:
  "region h p xs \<Longrightarrow> k \<le> length xs \<Longrightarrow> region h (p + of_nat k) (drop k xs)"
proof (induction k arbitrary: p xs)
  case (Suc k)
  then obtain x ys where "xs = x # ys" by (cases xs) auto
  with Suc show ?case using Suc.IH [of "p + 1" ys] by (simp add: ac_simps)
qed simp

lemma region_take: "region h p xs \<Longrightarrow> region h p (take k xs)"
proof (induction xs arbitrary: p k)
  case (Cons x xs)
  then show ?case by (cases k) auto
qed simp

lemma object_part:
  assumes "object h p xs n" "unat i < unat n" "unat i + unat m \<le> unat n"
  shows "object h (p + i) (take (unat m) (drop (unat i) xs)) m"
proof -
  have fits: "unat p + unat n \<le> 2 ^ 64" "p \<noteq> 0" "region h p xs" "length xs = unat n"
    using assms(1) by (simp_all add: object_def fits_def)
  then have add: "unat (p + i) = unat p + unat i" using assms(2) by (intro unat_usize_add) linarith
  have "0 < unat p" using fits(2) by (simp add: unat_gt_0)
  then have "p + i \<noteq> 0" using add by (metis add_is_0 less_numeral_extra(3) unat_0)
  moreover have "region h (p + i) (drop (unat i) xs)"
    using region_drop [OF fits(3), of "unat i"] assms(2) fits(4) by simp
  ultimately show ?thesis
    using add fits assms(3) by (simp add: object_def fits_def region_take)
qed

text \<open>Slicing a view is taking and dropping its bytes, with the end clamped to the length.\<close>

lemma bytes_slice_shows:
  assumes "shows_bytes h b xs"
  shows "shows_bytes h (bytes_slice b start stop) (drop (unat start) (take (unat stop) xs))"
proof (cases "v_ptr b = null_ptr \<or> start \<ge> v_len b \<or> start \<ge> stop")
  case True
  then have "bytes_slice b start stop = bytes_empty"
    by (auto simp: bytes_slice_def Let_def)
  moreover have "drop (unat start) (take (unat stop) xs) = []"
    using True assms by (auto simp: shows_bytes_def object_def word_to_nat split: if_splits)
  ultimately show ?thesis by (simp add: shows_bytes_def bytes_empty_def)
next
  case False
  define e where "e = (if stop > v_len b then v_len b else stop)"
  have o: "object h (v_ptr b) xs (v_len b)" using assms False by (simp add: shows_bytes_def)
  have e: "unat e = min (unat stop) (unat (v_len b))" "start < e"
    using False by (auto simp: e_def word_to_nat)
  then have m: "unat (e - start) = unat e - unat start" by (simp add: unat_sub)
  have "object h (v_ptr b + start) (take (unat (e - start)) (drop (unat start) xs)) (e - start)"
    using e m False by (intro object_part [OF o]) (auto simp: word_to_nat)
  moreover have "take (unat (e - start)) (drop (unat start) xs) = drop (unat start) (take (unat stop) xs)"
    using o e m by (simp add: object_def drop_take min_def)
  moreover have "bytes_slice b start stop = \<lparr>v_ptr = v_ptr b + start, v_len = e - start\<rparr>"
    using False e(2) by (auto simp: bytes_slice_def Let_def e_def)
  ultimately show ?thesis by (simp add: shows_bytes_def object_def null_ptr_def)
qed

lemma bytes_skip_shows:
  assumes "shows_bytes h b xs"
  shows "shows_bytes h (bytes_skip b n) (drop (unat n) xs)"
proof (cases "v_ptr b = null_ptr \<or> n \<ge> v_len b")
  case True
  with assms show ?thesis
    by (auto simp: bytes_skip_def shows_bytes_def bytes_empty_def object_def word_to_nat split: if_splits)
next
  case False
  have o: "object h (v_ptr b) xs (v_len b)" using assms False by (simp add: shows_bytes_def)
  have m: "unat n < unat (v_len b)" "unat (v_len b - n) = unat (v_len b) - unat n"
    using False by (auto simp: word_to_nat unat_sub)
  have "object h (v_ptr b + n) (drop (unat n) xs) (v_len b - n)"
    using object_part [OF o, of n "v_len b - n"] m o by (simp add: object_def)
  with False show ?thesis by (simp add: bytes_skip_def shows_bytes_def object_def null_ptr_def)
qed

text \<open>The string functions are the byte functions.\<close>

lemma str_bytes_same:
  "str_slice = bytes_slice" "str_skip = bytes_skip" "str_equal = bytes_equal"
  "mem_equal_bytes = bytes_equal"
  by (simp_all add: fun_eq_iff str_slice_def bytes_slice_def str_empty_def bytes_empty_def
      str_skip_def bytes_skip_def str_equal_def bytes_equal_def mem_equal_bytes_def)

lemma std_memcmp_object:
  "object h a xs n \<Longrightarrow> object h b ys n \<Longrightarrow> std_memcmp h a b n = ret (bytes_compare xs ys)"
  by (simp add: std_memcmp_def object_read)

lemma shows_bytes_length: "shows_bytes h v xs \<Longrightarrow> length xs = unat (v_len v)"
  by (auto simp: shows_bytes_def object_def split: if_splits)

lemma bytes_equal_shows:
  assumes "shows_bytes h a xs" "shows_bytes h b ys"
    "v_ptr a \<noteq> null_ptr" "v_ptr b \<noteq> null_ptr"
  shows "bytes_equal h a b = ret (xs = ys)"
proof (cases "v_len a = v_len b")
  case False
  then have "length xs \<noteq> length ys" using assms by (simp add: shows_bytes_length usize_eq_iff)
  with False show ?thesis by (auto simp: bytes_equal_def)
next
  case True
  with assms have o: "object h (v_ptr a) xs (v_len a)" "object h (v_ptr b) ys (v_len a)"
    by (simp_all add: shows_bytes_def)
  then have len: "length xs = unat (v_len a)" "length ys = unat (v_len a)" by (simp_all add: object_def)
  show ?thesis
  proof (cases "v_ptr a = v_ptr b \<or> v_len a = 0")
    case same: True
    then have "xs = ys" using o len by (auto simp: object_def dest: region_unique)
    with same True assms show ?thesis by (auto simp: bytes_equal_def)
  next
    case False
    with True assms o len show ?thesis
      by (simp add: bytes_equal_def std_memcmp_object bytes_compare_eq_0)
  qed
qed

lemma str_starts_with_shows:
  assumes "shows_bytes h s xs" "shows_bytes h prefix ys"
  shows "str_starts_with h s prefix = ret (take (length ys) xs = ys)"
proof (cases "v_len prefix > v_len s")
  case True
  then have "length xs < length ys" using assms by (simp add: shows_bytes_length word_to_nat)
  with True show ?thesis by (auto simp: str_starts_with_def)
next
  case False
  show ?thesis
  proof (cases "v_ptr prefix = null_ptr \<or> v_len prefix = 0")
    case True
    then have "ys = []" using assms(2) by (auto simp: shows_bytes_def object_def split: if_splits)
    with True False show ?thesis by (auto simp: str_starts_with_def)
  next
    case nz: False
    then have "v_len s \<noteq> 0" using False by (auto simp: word_gt_0)
    then have o: "object h (v_ptr s) xs (v_len s)" "object h (v_ptr prefix) ys (v_len prefix)"
      using assms nz by (auto simp: shows_bytes_def split: if_splits)
    have len: "length ys = unat (v_len prefix)" "unat (v_len prefix) \<le> length xs"
      using o False by (auto simp: object_def word_to_nat)
    have "object h (v_ptr s) (take (unat (v_len prefix)) xs) (v_len prefix)"
      using object_part [OF o(1), of 0 "v_len prefix"] \<open>v_len s \<noteq> 0\<close> len o(1)
      by (simp add: object_def unat_gt_0)
    with o(2) nz False len show ?thesis
      by (auto simp: str_starts_with_def std_memcmp_object bytes_compare_eq_0)
  qed
qed

lemma str_ends_with_shows:
  assumes "shows_bytes h s xs" "shows_bytes h suffix ys"
  shows "str_ends_with h s suffix =
    ret (length ys \<le> length xs \<and> drop (length xs - length ys) xs = ys)"
proof (cases "v_len suffix > v_len s")
  case True
  then have "length xs < length ys" using assms by (simp add: shows_bytes_length word_to_nat)
  with True show ?thesis by (auto simp: str_ends_with_def)
next
  case False
  show ?thesis
  proof (cases "v_ptr suffix = null_ptr \<or> v_len suffix = 0")
    case True
    then have "ys = []" using assms(2) by (auto simp: shows_bytes_def object_def split: if_splits)
    with True False show ?thesis by (auto simp: str_ends_with_def)
  next
    case nz: False
    then have "v_len s \<noteq> 0" using False by (auto simp: word_gt_0)
    then have o: "object h (v_ptr s) xs (v_len s)" "object h (v_ptr suffix) ys (v_len suffix)"
      using assms nz by (auto simp: shows_bytes_def split: if_splits)
    have len: "length ys = unat (v_len suffix)" "length xs = unat (v_len s)"
      "unat (v_len suffix) \<le> unat (v_len s)" "0 < unat (v_len suffix)"
      using o False nz by (auto simp: object_def not_less word_le_nat_alt unat_gt_0)
    have d: "unat (v_len s - v_len suffix) = unat (v_len s) - unat (v_len suffix)"
      using len(3) by (simp add: unat_sub word_le_nat_alt)
    have "object h (v_ptr s + (v_len s - v_len suffix)) (drop (length xs - length ys) xs) (v_len suffix)"
    proof -
      have "object h (v_ptr s + (v_len s - v_len suffix))
          (take (unat (v_len suffix)) (drop (unat (v_len s - v_len suffix)) xs)) (v_len suffix)"
        by (rule object_part [OF o(1)]) (use len(3,4) d in linarith)+
      then show ?thesis using len(1-3) d by simp
    qed
    with o(2) nz False len show ?thesis
      by (auto simp: str_ends_with_def std_memcmp_object bytes_compare_eq_0)
  qed
qed

text \<open>The terminator found by strlen is the first zero byte.\<close>

lemma std_strlen_region:
  "region h p (xs @ [0]) \<Longrightarrow> 0 \<notin> set xs \<Longrightarrow> length xs < fuel \<Longrightarrow>
   std_strlen h p fuel = ret (of_nat (length xs))"
proof (induction xs arbitrary: p fuel)
  case Nil
  then show ?case by (cases fuel) auto
next
  case (Cons x xs)
  then obtain f where "fuel = Suc f" by (cases fuel) auto
  with Cons show ?case by auto
qed

lemma str_from_cstr_region:
  assumes "region h p (xs @ [0])" "0 \<notin> set xs" "p \<noteq> 0" "fits p (Suc (length xs))"
  shows "\<exists>s. str_from_cstr h p = ret s \<and> v_ptr s = p \<and> unat (v_len s) = length xs \<and> shows_bytes h s xs"
proof -
  have len: "length xs < 2 ^ 64" using assms(4) by (simp add: fits_def)
  have "length xs < 2 ^ 64 - unat p" using assms(4) by (simp add: fits_def)
  then have "std_strlen h p (2 ^ 64 - unat p) = ret (of_nat (length xs))"
    using assms by (intro std_strlen_region)
  moreover have "unat (of_nat (length xs) :: usize) = length xs"
    using len by (simp add: unsigned_of_nat take_bit_nat_eq_self)
  moreover have "region h p xs" using region_take [OF assms(1), of "length xs"] by simp
  ultimately show ?thesis
    using assms(3,4) by (simp add: str_from_cstr_def shows_bytes_def object_def fits_def null_ptr_def)
qed

subsection \<open>What a typed slice shows\<close>

lemma length_slice_list: "slice_ok s \<Longrightarrow> length (slice_list s) = unat (s_len s)"
  by (auto simp: slice_ok_def slice_list_def split: option.splits)

lemma slice_get_value:
  assumes "slice_ok s"
  shows "slice_get s i (Some v) =
    ret (if unat i < length (slice_list s) then (True, Some (slice_list s ! unat i)) else (False, Some v))"
  using assms by (auto simp: slice_get_def slice_ok_def slice_list_def word_to_nat split: option.splits)

lemma slice_slice_value:
  assumes "slice_ok s"
  shows "slice_ok (slice_slice s start stop)"
    and "slice_list (slice_slice s start stop) = drop (unat start) (take (unat stop) (slice_list s))"
proof -
  define e where "e = (if stop > s_len s then s_len s else stop)"
  have e: "unat e = min (unat stop) (unat (s_len s))" by (auto simp: e_def word_to_nat)
  have "slice_ok (slice_slice s start stop) \<and>
    slice_list (slice_slice s start stop) = drop (unat start) (take (unat stop) (slice_list s))"
  proof (cases "s_ptr s")
    case None
    then show ?thesis by (simp add: slice_slice_def slice_ok_def slice_list_def slice_empty_def)
  next
    case (Some xs)
    then have len: "unat (s_len s) \<le> length xs" using assms by (simp add: slice_ok_def)
    show ?thesis
    proof (cases "start \<ge> s_len s \<or> start \<ge> e")
      case True
      then have "slice_slice s start stop = slice_empty"
        using Some by (auto simp: slice_slice_def Let_def e_def)
      with True Some len e show ?thesis
        by (auto simp: slice_ok_def slice_list_def slice_empty_def word_to_nat)
    next
      case False
      then have m: "unat (e - start) = unat e - unat start" by (auto simp: unat_sub word_to_nat)
      have "slice_slice s start stop = \<lparr>s_ptr = Some (drop (unat start) xs), s_len = e - start\<rparr>"
        using Some False by (auto simp: slice_slice_def Let_def e_def)
      with Some len e m show ?thesis
        by (auto simp: slice_ok_def slice_list_def drop_take min_def)
    qed
  qed
  then show "slice_ok (slice_slice s start stop)"
    "slice_list (slice_slice s start stop) = drop (unat start) (take (unat stop) (slice_list s))"
    by blast+
qed

end
