(* ===== verification/Canon_Arena.thy ===== *)
theory Canon_Arena
  imports Canon_Slice
begin

section \<open>The arena allocator (core/arena.h)\<close>

text \<open>
  The linear allocator over a caller's buffer. The struct is the record \<open>arena\<close>: the address of
  the buffer, its capacity, the bump offset and the accumulated padding. An \<open>Arena*\<close> is NULL or
  the arena it points to; a function that changes the arena returns it. The blocks are addresses,
  and the functions that write into them (\<open>arena_alloc_zero\<close>, \<open>arena_reset_secure\<close>) act on the
  byte heap of \<open>Canon_Memory\<close>. The counters of CANON_ARENA_DEBUG and the lifetime token of
  CANON_LIFETIME_DEBUG are off, as in a release build.

  \<open>arena_ok\<close> is the invariant: a non-null buffer of \<open>capacity\<close> bytes inside the address space, the
  offset not beyond the capacity. The arena is an instance of \<open>allocator\<close>, the contract of an
  allocator that never frees: from it follows that the blocks of any sequence of allocations
  are disjoint, inside the buffer and disjoint from what is still free.
\<close>

subsection \<open>The struct and the operations\<close>

record arena =
  arena_buffer :: uptr
  arena_cap :: usize
  arena_offset :: usize
  arena_padding :: usize

type_synonym arena_marker = usize

definition arena_init :: "arena cptr \<Rightarrow> uptr \<Rightarrow> usize \<Rightarrow> arena cptr run" where
  "arena_init p buffer capacity =
     require_msg (p \<noteq> None) ''arena_init: arena cannot be NULL''
     (require_msg (buffer \<noteq> null_ptr) ''arena_init: buffer cannot be NULL''
     (require_msg (capacity > 0) ''arena_init: capacity must be > 0''
     (require_msg (capacity \<le> canon_arena_max_size) ''arena_init: capacity exceeds CANON_ARENA_MAX_SIZE''
     (ret (Some \<lparr>arena_buffer = buffer, arena_cap = capacity, arena_offset = 0, arena_padding = 0\<rparr>)))))"

definition arena_reset :: "arena cptr \<Rightarrow> arena cptr" where
  "arena_reset p = (case p of
     None \<Rightarrow> None | Some a \<Rightarrow> Some (a\<lparr>arena_offset := 0, arena_padding := 0\<rparr>))"

definition arena_reset_secure :: "heap \<Rightarrow> arena cptr \<Rightarrow> (heap \<times> arena cptr) run" where
  "arena_reset_secure h p = (case p of
     None \<Rightarrow> ret (h, None)
   | Some a \<Rightarrow>
       if arena_offset a = 0 then ret (h, p)
       else bindR (mem_secure_zero h (arena_buffer a) (arena_offset a)) (\<lambda>h'.
            ret (h', Some (a\<lparr>arena_offset := 0, arena_padding := 0\<rparr>))))"

definition arena_alloc :: "arena cptr \<Rightarrow> usize \<Rightarrow> (uptr \<times> arena cptr) run" where
  "arena_alloc p n = (case p of
     None \<Rightarrow> violation ''arena_alloc: arena cannot be NULL''
   | Some a \<Rightarrow>
       if n = 0 then ret (null_ptr, p)
       else bindR (ptr_offset (arena_buffer a) (arena_offset a)) (\<lambda>current.
         let pad = ptr_align_padding current canon_default_align in
         if arena_offset a > canon_usize_max - pad \<or> arena_offset a + pad > canon_usize_max - n \<or>
            arena_offset a + pad + n > arena_cap a
         then ret (null_ptr, p)
         else let a1 = a\<lparr>arena_offset := arena_offset a + pad, arena_padding := arena_padding a + pad\<rparr> in
           bindR (ptr_offset (arena_buffer a1) (arena_offset a1)) (\<lambda>result.
           ret (result, Some (a1\<lparr>arena_offset := arena_offset a1 + n\<rparr>)))))"

definition arena_alloc_aligned :: "arena cptr \<Rightarrow> usize \<Rightarrow> usize \<Rightarrow> (uptr \<times> arena cptr) run" where
  "arena_alloc_aligned p n alignment = (case p of
     None \<Rightarrow> violation ''arena_alloc_aligned: arena cannot be NULL''
   | Some a \<Rightarrow>
       require_msg (is_power_of_two alignment) ''arena_alloc_aligned: alignment must be a power of 2''
       (if n = 0 then ret (null_ptr, p)
        else bindR (ptr_offset (arena_buffer a) (arena_offset a)) (\<lambda>current.
          let pad = ptr_align_padding current alignment in
          if arena_offset a > canon_usize_max - pad \<or> arena_offset a + pad > canon_usize_max - n \<or>
             arena_offset a + pad + n > arena_cap a
          then ret (null_ptr, p)
          else let a1 = a\<lparr>arena_offset := arena_offset a + pad, arena_padding := arena_padding a + pad\<rparr> in
            bindR (ptr_offset (arena_buffer a1) (arena_offset a1)) (\<lambda>result.
            ret (result, Some (a1\<lparr>arena_offset := arena_offset a1 + n\<rparr>))))))"

definition arena_alloc_zero :: "heap \<Rightarrow> arena cptr \<Rightarrow> usize \<Rightarrow> (uptr \<times> heap \<times> arena cptr) run" where
  "arena_alloc_zero h p n = bindR (arena_alloc p n) (\<lambda>(q, p').
     bindR (if q \<noteq> null_ptr then mem_zero h q n else ret h) (\<lambda>h'. ret (q, h', p')))"

definition arena_alloc_aligned_zero ::
  "heap \<Rightarrow> arena cptr \<Rightarrow> usize \<Rightarrow> usize \<Rightarrow> (uptr \<times> heap \<times> arena cptr) run" where
  "arena_alloc_aligned_zero h p n alignment = bindR (arena_alloc_aligned p n alignment) (\<lambda>(q, p').
     bindR (if q \<noteq> null_ptr then mem_zero h q n else ret h) (\<lambda>h'. ret (q, h', p')))"

text \<open>\<open>out\<close> is NULL or the pointer variable it points to.\<close>

definition arena_try_alloc :: "arena cptr \<Rightarrow> usize \<Rightarrow> uptr cptr \<Rightarrow> (bool \<times> uptr cptr \<times> arena cptr) run" where
  "arena_try_alloc p n out = bindR (arena_alloc p n) (\<lambda>(q, p').
     ret (out \<noteq> None \<and> q \<noteq> null_ptr, (if out \<noteq> None then Some q else None), p'))"

definition arena_try_alloc_aligned ::
  "arena cptr \<Rightarrow> usize \<Rightarrow> usize \<Rightarrow> uptr cptr \<Rightarrow> (bool \<times> uptr cptr \<times> arena cptr) run" where
  "arena_try_alloc_aligned p n alignment out = bindR (arena_alloc_aligned p n alignment) (\<lambda>(q, p').
     ret (out \<noteq> None \<and> q \<noteq> null_ptr, (if out \<noteq> None then Some q else None), p'))"

definition arena_capacity :: "arena cptr \<Rightarrow> usize" where
  "arena_capacity p = (case p of Some a \<Rightarrow> arena_cap a | None \<Rightarrow> 0)"

definition arena_remaining :: "arena cptr \<Rightarrow> usize" where
  "arena_remaining p = (case p of Some a \<Rightarrow> arena_cap a - arena_offset a | None \<Rightarrow> 0)"

definition arena_used :: "arena cptr \<Rightarrow> usize" where
  "arena_used p = (case p of Some a \<Rightarrow> arena_offset a | None \<Rightarrow> 0)"

definition arena_is_empty :: "arena cptr \<Rightarrow> bool" where
  "arena_is_empty p = (case p of None \<Rightarrow> True | Some a \<Rightarrow> arena_offset a = 0)"

definition arena_is_full :: "arena cptr \<Rightarrow> bool" where
  "arena_is_full p = (case p of None \<Rightarrow> True | Some a \<Rightarrow> arena_offset a \<ge> arena_cap a)"

definition arena_mark :: "arena cptr \<Rightarrow> arena_marker" where
  "arena_mark p = (case p of Some a \<Rightarrow> arena_offset a | None \<Rightarrow> 0)"

definition arena_reset_to :: "arena cptr \<Rightarrow> arena_marker \<Rightarrow> arena cptr run" where
  "arena_reset_to p mark = (case p of
     None \<Rightarrow> ret None
   | Some a \<Rightarrow>
       require_msg (mark \<le> arena_offset a) ''arena_reset_to: mark is ahead of current offset''
       (ret (Some (a\<lparr>arena_offset := mark\<rparr>))))"

definition arena_as_bytes :: "arena cptr \<Rightarrow> bytes run" where
  "arena_as_bytes p = (case p of
     None \<Rightarrow> violation ''arena_as_bytes: arena cannot be NULL''
   | Some a \<Rightarrow> bytes_from (arena_buffer a) (arena_offset a))"

definition arena_as_cbytes :: "arena cptr \<Rightarrow> cbytes run" where
  "arena_as_cbytes p = (case p of
     None \<Rightarrow> violation ''arena_as_cbytes: arena cannot be NULL''
   | Some a \<Rightarrow> cbytes_from (arena_buffer a) (arena_offset a))"

definition arena_buffer_bytes :: "arena cptr \<Rightarrow> bytes run" where
  "arena_buffer_bytes p = (case p of
     None \<Rightarrow> violation ''arena_buffer_bytes: arena cannot be NULL''
   | Some a \<Rightarrow> bytes_from (arena_buffer a) (arena_cap a))"

definition arena_buffer_cbytes :: "arena cptr \<Rightarrow> cbytes run" where
  "arena_buffer_cbytes p = (case p of
     None \<Rightarrow> violation ''arena_buffer_cbytes: arena cannot be NULL''
   | Some a \<Rightarrow> cbytes_from (arena_buffer a) (arena_cap a))"

definition arena_free_bytes :: "arena cptr \<Rightarrow> bytes run" where
  "arena_free_bytes p = (case p of
     None \<Rightarrow> violation ''arena_free_bytes: arena cannot be NULL''
   | Some a \<Rightarrow>
       if arena_offset a \<ge> arena_cap a then ret bytes_empty
       else bindR (ptr_offset (arena_buffer a) (arena_offset a)) (\<lambda>q.
            bytes_from q (arena_cap a - arena_offset a)))"

definition arena_free_cbytes :: "arena cptr \<Rightarrow> cbytes run" where
  "arena_free_cbytes p = (case p of
     None \<Rightarrow> violation ''arena_free_cbytes: arena cannot be NULL''
   | Some a \<Rightarrow>
       if arena_offset a \<ge> arena_cap a then ret cbytes_empty
       else bindR (ptr_offset_const (arena_buffer a) (arena_offset a)) (\<lambda>q.
            cbytes_from q (arena_cap a - arena_offset a)))"

text \<open>\<open>arena_alloc_type\<close> and \<open>arena_alloc_array\<close>: \<open>elem\<close> is \<open>sizeof(Type)\<close>, which is not 0.\<close>

definition arena_alloc_type :: "arena cptr \<Rightarrow> usize \<Rightarrow> (uptr \<times> arena cptr) run" where
  "arena_alloc_type p n = arena_alloc p n"

definition arena_alloc_array :: "arena cptr \<Rightarrow> usize \<Rightarrow> usize \<Rightarrow> (uptr \<times> arena cptr) run" where
  "arena_alloc_array p elem cnt =
     bindR (div_usize canon_usize_max elem) (\<lambda>most.
       if cnt \<le> most then arena_alloc p (elem * cnt) else ret (null_ptr, p))"

definition arena_alloc_type_zero :: "heap \<Rightarrow> arena cptr \<Rightarrow> usize \<Rightarrow> (uptr \<times> heap \<times> arena cptr) run" where
  "arena_alloc_type_zero h p n = arena_alloc_zero h p n"

definition arena_alloc_array_zero ::
  "heap \<Rightarrow> arena cptr \<Rightarrow> usize \<Rightarrow> usize \<Rightarrow> (uptr \<times> heap \<times> arena cptr) run" where
  "arena_alloc_array_zero h p elem cnt =
     bindR (div_usize canon_usize_max elem) (\<lambda>most.
       if cnt \<le> most then arena_alloc_zero h p (elem * cnt) else ret (null_ptr, h, p))"

subsection \<open>The contract of an allocator without free\<close>

text \<open>
  A client asks for blocks; NULL answers a request that is not met. \<open>free s\<close> is the set of
  addresses the allocator still has.
\<close>

type_synonym ('s, 'r) alloc_fn = "'s \<Rightarrow> 'r \<Rightarrow> (uptr \<times> 's) run"

definition block_span :: "uptr \<times> nat \<Rightarrow> uptr set" where
  "block_span b = (if fst b = null_ptr then {} else span (fst b) (snd b))"

fun serve :: "('s, 'r) alloc_fn \<Rightarrow> ('s \<Rightarrow> 'r \<Rightarrow> nat) \<Rightarrow> 's \<Rightarrow> 'r list \<Rightarrow> ((uptr \<times> nat) list \<times> 's) run" where
  "serve alloc amount s [] = ret ([], s)"
| "serve alloc amount s (r # rs) = bindR (alloc s r) (\<lambda>(p, s').
     bindR (serve alloc amount s' rs) (\<lambda>(bs, t). ret ((p, amount s r) # bs, t)))"

locale allocator =
  fixes inv :: "'s \<Rightarrow> bool"
    and asks :: "'r \<Rightarrow> bool"
    and free :: "'s \<Rightarrow> uptr set"
    and amount :: "'s \<Rightarrow> 'r \<Rightarrow> nat"
    and alloc :: "('s, 'r) alloc_fn"
  assumes alloc_block: "inv s \<Longrightarrow> asks r \<Longrightarrow>
      \<exists>p s'. alloc s r = ret (p, s') \<and> inv s' \<and> block_span (p, amount s r) \<subseteq> free s \<and>
        free s' \<subseteq> free s - block_span (p, amount s r)"
begin

text \<open>The blocks of any sequence of requests are disjoint and were free; what is left is disjoint from them.\<close>

lemma serve_disjoint:
  "inv s \<Longrightarrow> \<forall>r \<in> set rs. asks r \<Longrightarrow>
   \<exists>bs t. serve alloc amount s rs = ret (bs, t) \<and> inv t \<and> length bs = length rs \<and>
     sorted_wrt (\<lambda>b c. block_span b \<inter> block_span c = {}) bs \<and>
     (\<forall>b \<in> set bs. block_span b \<subseteq> free s - free t) \<and> free t \<subseteq> free s"
proof (induction rs arbitrary: s)
  case (Cons r rs)
  obtain p s' where p: "alloc s r = ret (p, s')" "inv s'" "block_span (p, amount s r) \<subseteq> free s"
    "free s' \<subseteq> free s - block_span (p, amount s r)"
    using alloc_block [OF Cons.prems(1), of r] Cons.prems(2) by auto
  obtain bs t where bs: "serve alloc amount s' rs = ret (bs, t)" "inv t" "length bs = length rs"
    "sorted_wrt (\<lambda>b c. block_span b \<inter> block_span c = {}) bs"
    "\<forall>b \<in> set bs. block_span b \<subseteq> free s' - free t" "free t \<subseteq> free s'"
    using Cons.IH [OF p(2)] Cons.prems(2) by auto
  have "block_span (p, amount s r) \<inter> block_span b = {}" if "b \<in> set bs" for b
    using that bs(5) p(4) by blast
  moreover have "block_span (p, amount s r) \<subseteq> free s - free t" using p(3,4) bs(6) by blast
  moreover have "\<forall>b \<in> set bs. block_span b \<subseteq> free s - free t" using bs(5) p(4) by blast
  moreover have "free t \<subseteq> free s" using bs(6) p(4) by blast
  ultimately show ?case using p(1) bs(1-4) by auto
qed simp

end

subsection \<open>The invariant and the allocation\<close>

definition arena_ok :: "arena cptr \<Rightarrow> bool" where
  "arena_ok p = (case p of
     None \<Rightarrow> False
   | Some a \<Rightarrow> arena_buffer a \<noteq> null_ptr \<and> arena_offset a \<le> arena_cap a \<and>
       unat (arena_buffer a) + unat (arena_cap a) < 2 ^ 64)"

definition arena_free :: "arena cptr \<Rightarrow> uptr set" where
  "arena_free p = (case p of
     None \<Rightarrow> {}
   | Some a \<Rightarrow> span (arena_buffer a + arena_offset a) (unat (arena_cap a) - unat (arena_offset a)))"

lemma arena_init_ok:
  assumes "buffer \<noteq> null_ptr" "0 < capacity" "capacity \<le> canon_arena_max_size"
    "unat buffer + unat capacity < 2 ^ 64"
  shows "\<exists>p. arena_init (Some a) buffer capacity = ret p \<and> arena_ok p \<and>
    arena_free p = span buffer (unat capacity) \<and> arena_used p = 0 \<and> arena_capacity p = capacity"
  using assms by (simp add: arena_init_def arena_ok_def arena_free_def arena_used_def arena_capacity_def)

lemma arena_alloc_is_aligned:
  "arena_alloc p n = (case p of None \<Rightarrow> violation ''arena_alloc: arena cannot be NULL''
     | Some a \<Rightarrow> arena_alloc_aligned p n canon_default_align)"
  using default_align(1) by (cases p) (simp_all add: arena_alloc_def arena_alloc_aligned_def)

text \<open>An allocation on the offsets: \<open>at\<close> is the offset of the block.\<close>

lemma arena_alloc_aligned_value:
  assumes "arena_ok (Some a)" "is_power_of_two al" "n \<noteq> 0"
  defines "at \<equiv> arena_offset a + ptr_align_padding (arena_buffer a + arena_offset a) al"
  shows "unat al dvd unat (arena_buffer a) + unat (arena_offset a) +
      unat (ptr_align_padding (arena_buffer a + arena_offset a) al)" (is "?div")
    "unat (ptr_align_padding (arena_buffer a + arena_offset a) al) < unat al" (is "?small")
    "if unat (arena_offset a) + unat (ptr_align_padding (arena_buffer a + arena_offset a) al) + unat n
        \<le> unat (arena_cap a)
     then arena_alloc_aligned (Some a) n al = ret (arena_buffer a + at,
        Some (a\<lparr>arena_offset := at + n, arena_padding := arena_padding a + (at - arena_offset a)\<rparr>))
     else arena_alloc_aligned (Some a) n al = ret (null_ptr, Some a)" (is ?alloc)
    "unat (arena_offset a) + unat (ptr_align_padding (arena_buffer a + arena_offset a) al) + unat n
        \<le> unat (arena_cap a) \<Longrightarrow>
     unat at = unat (arena_offset a) + unat (ptr_align_padding (arena_buffer a + arena_offset a) al) \<and>
     unat (at + n) = unat at + unat n"
proof -
  let ?b = "arena_buffer a" and ?o = "arena_offset a" and ?c = "arena_cap a"
  let ?pad = "ptr_align_padding (?b + ?o) al"
  have ok: "?b \<noteq> null_ptr" "unat ?o \<le> unat ?c" "unat ?b + unat ?c < 2 ^ 64"
    using assms(1) by (simp_all add: arena_ok_def word_le_nat_alt)
  then have bo: "unat (?b + ?o) = unat ?b + unat ?o" by (intro unat_usize_add) linarith
  have nn: "?b + ?o \<noteq> null_ptr" using ok(1) bo by (auto simp: null_ptr_def usize_eq_iff)
  then have pad: "?pad = align_padding (?b + ?o) al" by (simp add: ptr_align_padding_def)
  show ?div ?small using align_padding_value [OF assms(2), of "?b + ?o"] bo pad by (simp_all add: add.assoc)
  have max: "x \<le> canon_usize_max - y \<longleftrightarrow> unat x + unat y < 2 ^ 64" for x y :: usize
    using usize_bound [of y] by (simp add: word_le_nat_alt unat_sub unat_usize_max) linarith
  have off: "ptr_offset ?b ?o = ret (?b + ?o)" using ok by (simp add: ptr_offset_def max)
  {
    assume f: "unat ?o + unat ?pad + unat n \<le> unat ?c"
    then have at: "unat at = unat ?o + unat ?pad"
      using usize_bound [of ?c] unfolding at_def by (intro unat_usize_add) linarith
    moreover have "unat at + unat n < 2 ^ 64" using at f usize_bound [of ?c] by linarith
    ultimately show "unat at = unat ?o + unat ?pad \<and> unat (at + n) = unat at + unat n"
      by (simp only: unat_usize_add simp_thms)
  } note vals = this
  have fits: "\<not> (?o > canon_usize_max - ?pad \<or> at > canon_usize_max - n \<or> at + n > ?c) \<longleftrightarrow>
      unat ?o + unat ?pad + unat n \<le> unat ?c" (is "?l \<longleftrightarrow> ?r")
  proof
    assume ?l
    then have le: "?o \<le> canon_usize_max - ?pad" "at \<le> canon_usize_max - n" "at + n \<le> ?c"
      by (simp_all add: not_less)
    have u: "unat ?o + unat ?pad < 2 ^ 64" "unat at + unat n < 2 ^ 64" "unat (at + n) \<le> unat ?c"
      using le(1,2) [unfolded max] le(3) [unfolded word_le_nat_alt] by blast+
    from unat_usize_add [OF u(1)] unat_usize_add [OF u(2)] u(3) show ?r by (simp add: at_def)
  next
    assume r: ?r
    have "?o \<le> canon_usize_max - ?pad" "at \<le> canon_usize_max - n"
      using r vals [OF r] usize_bound [of ?c] unfolding max by linarith+
    moreover have "at + n \<le> ?c" using r vals [OF r] by (simp add: word_le_nat_alt)
    ultimately show ?l by (simp add: not_less)
  qed
  have res: "ptr_offset ?b at = ret (?b + at)" if ?l
    using that vals ok unfolding fits by (simp add: ptr_offset_def max)
  show ?alloc
    unfolding fits [symmetric] using assms(2,3) off res
    by (simp add: arena_alloc_aligned_def Let_def at_def)
qed

text \<open>What an allocation leaves unchanged, and that the offset only grows.\<close>

definition arena_grows :: "arena cptr \<Rightarrow> arena cptr \<Rightarrow> bool" where
  "arena_grows p q \<longleftrightarrow> (case (p, q) of
     (Some a, Some b) \<Rightarrow> arena_buffer b = arena_buffer a \<and> arena_cap b = arena_cap a \<and>
       arena_offset a \<le> arena_offset b
   | (p', q') \<Rightarrow> p' = q')"

lemma arena_grows_refl: "arena_grows p p"
  by (cases p) (simp_all add: arena_grows_def)

lemma arena_grows_trans: "arena_grows p q \<Longrightarrow> arena_grows q r \<Longrightarrow> arena_grows p r"
  by (auto simp: arena_grows_def split: option.splits)

lemma arena_alloc_aligned_step:
  assumes "arena_ok p" "is_power_of_two al"
  shows "\<exists>q p'. arena_alloc_aligned p n al = ret (q, p') \<and> arena_ok p' \<and> arena_grows p p' \<and>
    block_span (q, unat n) \<subseteq> arena_free p \<and> arena_free p' \<subseteq> arena_free p - block_span (q, unat n) \<and>
    (q \<noteq> null_ptr \<longrightarrow> unat al dvd unat q \<and> n \<noteq> 0 \<and> fits q (unat n)) \<and> (q = null_ptr \<longrightarrow> p' = p)"
proof -
  obtain a where p: "p = Some a" using assms(1) by (auto simp: arena_ok_def split: option.splits)
  show ?thesis
  proof (cases "n = 0")
    case True
    with assms p show ?thesis
      by (simp add: arena_alloc_aligned_def block_span_def arena_grows_refl)
  next
    case False
    let ?pad = "ptr_align_padding (arena_buffer a + arena_offset a) al"
    let ?at = "arena_offset a + ?pad"
    let ?b = "unat (arena_buffer a)" and ?o = "unat (arena_offset a)" and ?c = "unat (arena_cap a)"
    note val = arena_alloc_aligned_value [OF assms(1) [unfolded p] assms(2) False]
    have ok: "arena_buffer a \<noteq> null_ptr" "?o \<le> ?c" "?b + ?c < 2 ^ 64"
      using assms(1) p by (simp_all add: arena_ok_def word_le_nat_alt)
    show ?thesis
    proof (cases "?o + unat ?pad + unat n \<le> ?c")
      case fail: False
      with val(3) assms p show ?thesis by (simp add: block_span_def arena_grows_refl)
    next
      case True
      let ?a' = "a\<lparr>arena_offset := ?at + n, arena_padding := arena_padding a + (?at - arena_offset a)\<rparr>"
      have at: "unat ?at = ?o + unat ?pad" "unat (?at + n) = unat ?at + unat n" using val(4) [OF True] by simp_all
      have q: "unat (arena_buffer a + ?at) = ?b + unat ?at"
        using ok True at by (intro unat_usize_add) linarith
      then have qn: "arena_buffer a + ?at \<noteq> null_ptr" using ok(1) by (auto simp: null_ptr_def usize_eq_iff)
      have bo: "unat (arena_buffer a + arena_offset a) = ?b + ?o" using ok by (intro unat_usize_add) linarith
      have end1: "unat (arena_buffer a + (?at + n)) = ?b + unat ?at + unat n"
        using ok True at by (subst unat_usize_add) linarith+
      have free: "arena_free (Some ?a') = span (arena_buffer a + (?at + n)) (?c - (unat ?at + unat n))"
        by (simp add: arena_free_def at)
      have "arena_alloc_aligned p n al = ret (arena_buffer a + ?at, Some ?a')"
        using val(3) True p by simp
      moreover have "arena_ok (Some ?a')"
        using ok at True by (simp add: arena_ok_def word_le_nat_alt)
      moreover have "arena_grows p (Some ?a')" using p at by (simp add: arena_grows_def word_le_nat_alt)
      moreover have "block_span (arena_buffer a + ?at, unat n) \<subseteq> arena_free p"
        using ok at True q bo qn p by (auto simp: block_span_def arena_free_def span_def)
      moreover have "arena_free (Some ?a') \<subseteq> arena_free p - block_span (arena_buffer a + ?at, unat n)"
        unfolding free using ok at True q bo end1 p by (auto simp: block_span_def arena_free_def span_def)
      moreover have "unat al dvd unat (arena_buffer a + ?at)" using val(1) q at by (simp add: add.assoc)
      moreover have "fits (arena_buffer a + ?at) (unat n)" using ok at True q by (simp add: fits_def)
      ultimately show ?thesis using False qn by blast
    qed
  qed
qed

lemma arena_alloc_step:
  assumes "arena_ok p"
  shows "\<exists>q p'. arena_alloc p n = ret (q, p') \<and> arena_ok p' \<and> arena_grows p p' \<and>
    block_span (q, unat n) \<subseteq> arena_free p \<and> arena_free p' \<subseteq> arena_free p - block_span (q, unat n) \<and>
    (q \<noteq> null_ptr \<longrightarrow> 16 dvd unat q \<and> n \<noteq> 0 \<and> fits q (unat n)) \<and> (q = null_ptr \<longrightarrow> p' = p)"
proof -
  have "arena_alloc p n = arena_alloc_aligned p n canon_default_align"
    using assms by (auto simp: arena_alloc_is_aligned arena_ok_def split: option.splits)
  with arena_alloc_aligned_step [OF assms default_align(1), of n] default_align(2) show ?thesis by simp
qed

text \<open>The arena meets the contract, with requests for a size and an alignment, or a size only.\<close>

definition arena_serve :: "(arena cptr, usize \<times> usize) alloc_fn" where
  "arena_serve p r = arena_alloc_aligned p (fst r) (snd r)"

interpretation ar: allocator arena_ok "\<lambda>r. is_power_of_two (snd r)" arena_free "\<lambda>p r. unat (fst r)" arena_serve
proof
  fix p and r :: "usize \<times> usize"
  assume "arena_ok p" "is_power_of_two (snd r)"
  from arena_alloc_aligned_step [OF this, of "fst r"]
  show "\<exists>q p'. arena_serve p r = ret (q, p') \<and> arena_ok p' \<and> block_span (q, unat (fst r)) \<subseteq> arena_free p \<and>
      arena_free p' \<subseteq> arena_free p - block_span (q, unat (fst r))"
    unfolding arena_serve_def by blast
qed

interpretation ar_default: allocator arena_ok "\<lambda>n. True" arena_free "\<lambda>p n. unat n" arena_alloc
proof
  fix p and n :: usize
  assume "arena_ok p"
  from arena_alloc_step [OF this, of n]
  show "\<exists>q p'. arena_alloc p n = ret (q, p') \<and> arena_ok p' \<and> block_span (q, unat n) \<subseteq> arena_free p \<and>
      arena_free p' \<subseteq> arena_free p - block_span (q, unat n)"
    by blast
qed

text \<open>A relation that every allocation respects holds between the first and the last state.\<close>

lemma serve_related:
  "serve alloc amount s rs = ret (bs, t) \<Longrightarrow> ok s \<Longrightarrow> \<forall>r \<in> set rs. asks r \<Longrightarrow>
   (\<And>s r p s'. ok s \<Longrightarrow> asks r \<Longrightarrow> alloc s r = ret (p, s') \<Longrightarrow> ok s' \<and> R s s') \<Longrightarrow>
   (\<And>s. R s s) \<Longrightarrow> (\<And>s t u. R s t \<Longrightarrow> R t u \<Longrightarrow> R s u) \<Longrightarrow> R s t"
proof (induction rs arbitrary: s bs)
  case (Cons r rs)
  from Cons.prems(1) obtain p s' cs where s': "alloc s r = ret (p, s')"
    "serve alloc amount s' rs = ret (cs, t)" by (auto simp: bindR_eq_Inr)
  have R: "ok s' \<and> R s s'" using Cons.prems(3) by (intro Cons.prems(4) [OF Cons.prems(2) _ s'(1)]) simp
  have "R s' t" using R Cons.prems(3) by (intro Cons.IH [OF s'(2) _ _ Cons.prems(4-6)]) simp_all
  then show ?case using R by (intro Cons.prems(6) [of s s' t]) simp_all
qed simp

lemma arena_serve_grows:
  assumes "serve arena_serve amount p rs = ret (bs, q)" "arena_ok p" "\<forall>r \<in> set rs. is_power_of_two (snd r)"
  shows "arena_grows p q"
proof (rule serve_related [where R = arena_grows and ok = arena_ok and alloc = arena_serve and asks = "\<lambda>r. is_power_of_two (snd r)", OF assms])
  fix p :: "arena cptr" and r :: "usize \<times> usize" and q p'
  assume "arena_ok p" "is_power_of_two (snd r)" "arena_serve p r = ret (q, p')"
  then show "arena_ok p' \<and> arena_grows p p'"
    using arena_alloc_aligned_step [of p "snd r" "fst r"] by (auto simp: arena_serve_def)
qed (auto intro: arena_grows_refl arena_grows_trans)

lemma arena_rollback:
  assumes "arena_grows (Some a) q" "arena_ok q"
  shows "\<exists>b. arena_reset_to q (arena_mark (Some a)) = ret (Some (a\<lparr>arena_padding := b\<rparr>))"
proof -
  obtain c where c: "q = Some c" using assms(2) by (auto simp: arena_ok_def split: option.splits)
  with assms(1) have "c\<lparr>arena_offset := arena_offset a\<rparr> = a\<lparr>arena_padding := arena_padding c\<rparr>"
    by (cases a, cases c) (simp add: arena_grows_def)
  moreover have "arena_reset_to q (arena_mark (Some a)) = ret (Some (c\<lparr>arena_offset := arena_offset a\<rparr>))"
    using assms(1) c by (simp add: arena_reset_to_def arena_mark_def arena_grows_def)
  ultimately show ?thesis by auto
qed

subsection \<open>Zeroed blocks and the secure reset\<close>

text \<open>\<open>backed h p n\<close>: there is an object of \<open>n\<close> bytes at \<open>p\<close>.\<close>

definition backed :: "heap \<Rightarrow> uptr \<Rightarrow> nat \<Rightarrow> bool" where
  "backed h p n \<longleftrightarrow> (\<forall>q \<in> span p n. h q \<noteq> None)"

lemma backed_region: "fits p n \<Longrightarrow> backed h p n \<Longrightarrow> \<exists>xs. length xs = n \<and> region h p xs"
proof (induction n arbitrary: p)
  case (Suc n)
  then obtain x where x: "h p = Some x" by (auto simp: backed_def span_Suc)
  have "\<exists>xs. length xs = n \<and> region h (p + 1) xs"
  proof (cases "n = 0")
    case False
    then have "fits (p + 1) n" using fits_Suc [OF Suc.prems(1)] by simp
    with Suc.IH Suc.prems show ?thesis by (auto simp: backed_def span_Suc)
  qed simp
  with x show ?case by (metis length_Cons region.simps(2))
qed simp

lemma region_replicate: "fits p n \<Longrightarrow> region h p (replicate n v) \<Longrightarrow> q \<in> span p n \<Longrightarrow> h q = Some v"
proof (induction n arbitrary: p)
  case (Suc n)
  show ?case
  proof (cases "n = 0")
    case True
    with Suc.prems show ?thesis by (simp add: span_Suc)
  next
    case False
    with Suc fits_Suc [OF Suc.prems(1)] show ?thesis by (auto simp: span_Suc)
  qed
qed simp

lemma mem_zero_backed:
  assumes "p \<noteq> null_ptr" "fits p (unat n)" "backed h p (unat n)"
  shows "\<exists>h'. mem_zero h p n = ret h' \<and> (\<forall>q. h' q = (if q \<in> span p (unat n) then Some 0 else h q))"
proof -
  obtain xs where "length xs = unat n" "region h p xs" using backed_region [OF assms(2,3)] by blast
  then have "object h p xs n" using assms(1,2) by (simp add: object_def null_ptr_def)
  from mem_set_object [OF this, of 0] obtain h' where h': "mem_zero h p n = ret h'"
    "object h' p (replicate (unat n) 0) n" "\<forall>q. q \<notin> span p (unat n) \<longrightarrow> h' q = h q"
    by (auto simp: mem_zero_eq_set)
  with region_replicate [OF assms(2), of h' 0] show ?thesis by (auto simp: object_def)
qed

definition arena_backed :: "heap \<Rightarrow> arena cptr \<Rightarrow> bool" where
  "arena_backed h p = (case p of None \<Rightarrow> False | Some a \<Rightarrow> backed h (arena_buffer a) (unat (arena_cap a)))"

lemma arena_free_backed:
  assumes "arena_ok p" "arena_backed h p" "block_span (q, n) \<subseteq> arena_free p" "q \<noteq> null_ptr"
  shows "backed h q n"
proof -
  obtain a where p: "p = Some a" using assms(1) by (auto simp: arena_ok_def split: option.splits)
  have ok: "unat (arena_offset a) \<le> unat (arena_cap a)" "unat (arena_buffer a) + unat (arena_cap a) < 2 ^ 64"
    using assms(1) p by (simp_all add: arena_ok_def word_le_nat_alt)
  then have "unat (arena_buffer a + arena_offset a) = unat (arena_buffer a) + unat (arena_offset a)"
    by (intro unat_usize_add) linarith
  then have "arena_free p \<subseteq> span (arena_buffer a) (unat (arena_cap a))"
    using ok p by (auto simp: arena_free_def span_def)
  with assms(2-4) p show ?thesis by (auto simp: arena_backed_def backed_def block_span_def)
qed

subsection \<open>Properties\<close>

text \<open>C6: The blocks that any sequence of \<open>arena_alloc_aligned\<close> calls returns are pairwise disjoint, were
  free before and are no longer free; the arena keeps its invariant.\<close>

theorem arena_blocks_disjoint:
  "arena_ok p \<Longrightarrow> \<forall>r \<in> set rs. is_power_of_two (snd r) \<Longrightarrow>
   \<exists>bs q. serve (\<lambda>p r. arena_alloc_aligned p (fst r) (snd r)) (\<lambda>p r. unat (fst r)) p rs = ret (bs, q) \<and>
     arena_ok q \<and> length bs = length rs \<and> sorted_wrt (\<lambda>b c. block_span b \<inter> block_span c = {}) bs \<and>
     (\<forall>b \<in> set bs. block_span b \<subseteq> arena_free p - arena_free q)"
  using ar.serve_disjoint [of p rs] unfolding arena_serve_def [abs_def] by blast

theorem arena_blocks_disjoint_witness:
  "\<exists>bs q. serve (\<lambda>p r. arena_alloc_aligned p (fst r) (snd r)) (\<lambda>p r. unat (fst r))
      (Some \<lparr>arena_buffer = 4096, arena_cap = 64, arena_offset = 0, arena_padding = 0\<rparr>) [(10, 8), (20, 32)] =
      ret (bs, q) \<and> length bs = 2 \<and> sorted_wrt (\<lambda>b c. block_span b \<inter> block_span c = {}) bs"
proof -
  have "arena_ok (Some \<lparr>arena_buffer = 4096, arena_cap = 64, arena_offset = 0, arena_padding = 0\<rparr>)"
    by (simp add: arena_ok_def null_ptr_def)
  moreover have "\<forall>r \<in> set [(10, 8), (20, 32) :: usize \<times> usize]. is_power_of_two (snd r)"
    by (simp add: is_power_of_two_def)
  ultimately show ?thesis using arena_blocks_disjoint by fastforce
qed

text \<open>\<open>arena_alloc_aligned\<close> of a nonzero size: when the size and the padding to the alignment fit, it
  returns the first aligned address from the bump offset on (the padding is below the
  alignment) and the offset moves behind the block; otherwise it returns NULL and the arena is
  unchanged. No check overflows.\<close>

theorem arena_alloc_aligned_correct:
  "arena_ok (Some a) \<Longrightarrow> is_power_of_two al \<Longrightarrow> n \<noteq> 0 \<Longrightarrow>
   \<exists>pad < unat al. unat al dvd unat (arena_buffer a) + unat (arena_offset a) + pad \<and>
     (if unat (arena_offset a) + pad + unat n \<le> unat (arena_cap a)
      then \<exists>q b. arena_alloc_aligned (Some a) n al = ret (q, Some b) \<and>
        unat q = unat (arena_buffer a) + unat (arena_offset a) + pad \<and>
        unat (arena_offset b) = unat (arena_offset a) + pad + unat n \<and>
        arena_buffer b = arena_buffer a \<and> arena_cap b = arena_cap a
      else arena_alloc_aligned (Some a) n al = ret (null_ptr, Some a))"
proof -
  assume a: "arena_ok (Some a)" "is_power_of_two al" "n \<noteq> 0"
  let ?pad = "ptr_align_padding (arena_buffer a + arena_offset a) al"
  note val = arena_alloc_aligned_value [OF a]
  have "unat (arena_buffer a + (arena_offset a + ?pad)) = unat (arena_buffer a) + unat (arena_offset a + ?pad)"
    if "unat (arena_offset a) + unat ?pad + unat n \<le> unat (arena_cap a)"
    using a(1) val(4) [OF that] that by (intro unat_usize_add) (simp add: arena_ok_def)
  with val show ?thesis by (intro exI [of _ "unat ?pad"]) auto
qed

theorem arena_alloc_aligned_correct_witness:
  "\<exists>pad < 32. 32 dvd 4096 + 10 + pad \<and>
     (if 10 + pad + 20 \<le> (64 :: nat)
      then \<exists>q b. arena_alloc_aligned (Some \<lparr>arena_buffer = 4096, arena_cap = 64, arena_offset = 10,
          arena_padding = 0\<rparr>) 20 32 = ret (q, Some b) \<and> unat q = 4096 + 10 + pad
      else arena_alloc_aligned (Some \<lparr>arena_buffer = 4096, arena_cap = 64, arena_offset = 10,
          arena_padding = 0\<rparr>) 20 32 =
        ret (null_ptr, Some \<lparr>arena_buffer = 4096, arena_cap = 64, arena_offset = 10, arena_padding = 0\<rparr>))"
proof -
  have "arena_ok (Some \<lparr>arena_buffer = 4096, arena_cap = 64, arena_offset = 10, arena_padding = 0\<rparr>)"
    by (simp add: arena_ok_def null_ptr_def)
  from arena_alloc_aligned_correct [OF this, of 32 20] show ?thesis
    by (simp add: is_power_of_two_def) (elim exE conjE, rule exI, auto split: if_splits)
qed

text \<open>Rolling an arena back to a mark, after any sequence of allocations made since the mark, gives the
  arena at the mark but for the accumulated padding.\<close>

theorem arena_mark_rollback:
  "arena_ok (Some a) \<Longrightarrow> \<forall>r \<in> set rs. is_power_of_two (snd r) \<Longrightarrow>
   \<exists>bs q b. serve (\<lambda>p r. arena_alloc_aligned p (fst r) (snd r)) (\<lambda>p r. unat (fst r)) (Some a) rs = ret (bs, q) \<and>
     arena_reset_to q (arena_mark (Some a)) = ret (Some (a\<lparr>arena_padding := b\<rparr>))"
proof -
  assume a: "arena_ok (Some a)" "\<forall>r \<in> set rs. is_power_of_two (snd r)"
  from ar.serve_disjoint [OF this] obtain bs q where
    q: "serve arena_serve (\<lambda>p r. unat (fst r)) (Some a) rs = ret (bs, q)" "arena_ok q" by blast
  from arena_rollback [OF arena_serve_grows [OF q(1) a] q(2)] q(1) show ?thesis
    unfolding arena_serve_def [abs_def] by blast
qed

theorem arena_mark_rollback_witness:
  "\<exists>bs q b. serve (\<lambda>p r. arena_alloc_aligned p (fst r) (snd r)) (\<lambda>p r. unat (fst r))
      (Some \<lparr>arena_buffer = 4096, arena_cap = 64, arena_offset = 0, arena_padding = 0\<rparr>) [(10, 8)] = ret (bs, q) \<and>
     arena_reset_to q 0 = ret (Some \<lparr>arena_buffer = 4096, arena_cap = 64, arena_offset = 0, arena_padding = b\<rparr>)"
  using arena_mark_rollback [of "\<lparr>arena_buffer = 4096, arena_cap = 64, arena_offset = 0, arena_padding = 0\<rparr>"
      "[(10, 8)]"]
  by (simp add: arena_ok_def null_ptr_def is_power_of_two_def arena_mark_def)

text \<open>\<open>arena_alloc_zero\<close> returns NULL and leaves the memory alone, or a block of the free part whose
  bytes are all 0, with every other byte of the memory unchanged.\<close>

theorem arena_alloc_zero_correct:
  "arena_ok p \<Longrightarrow> arena_backed h p \<Longrightarrow>
   \<exists>q h' p'. arena_alloc_zero h p n = ret (q, h', p') \<and> arena_ok p' \<and> block_span (q, unat n) \<subseteq> arena_free p \<and>
     (\<forall>x. h' x = (if x \<in> block_span (q, unat n) then Some 0 else h x))"
proof -
  assume a: "arena_ok p" "arena_backed h p"
  from arena_alloc_step [OF a(1), of n] obtain q p' where q: "arena_alloc p n = ret (q, p')" "arena_ok p'"
    "block_span (q, unat n) \<subseteq> arena_free p" "q \<noteq> null_ptr \<longrightarrow> fits q (unat n)" by blast
  show ?thesis
  proof (cases "q = null_ptr")
    case False
    with mem_zero_backed [OF False _ arena_free_backed [OF a q(3) False]] q show ?thesis
      by (auto simp: arena_alloc_zero_def block_span_def)
  qed (use q in \<open>simp add: arena_alloc_zero_def block_span_def\<close>)
qed

theorem arena_alloc_zero_correct_witness:
  "\<exists>q h' p'. arena_alloc_zero (\<lambda>x. Some 7)
       (Some \<lparr>arena_buffer = 4096, arena_cap = 64, arena_offset = 0, arena_padding = 0\<rparr>) 10 = ret (q, h', p') \<and>
     (\<forall>x. h' x = Some (if x \<in> block_span (q, 10) then 0 else 7))"
  using arena_alloc_zero_correct [of "Some \<lparr>arena_buffer = 4096, arena_cap = 64, arena_offset = 0,
      arena_padding = 0\<rparr>" "\<lambda>x. Some 7" 10]
  by (fastforce simp: arena_ok_def null_ptr_def arena_backed_def backed_def)

text \<open>\<open>arena_reset_secure\<close> empties the arena and overwrites with 0 every byte up to the bump offset,
  blocks and padding, and no other.\<close>

theorem arena_reset_secure_correct:
  "arena_ok (Some a) \<Longrightarrow> arena_backed h (Some a) \<Longrightarrow>
   \<exists>h' p'. arena_reset_secure h (Some a) = ret (h', p') \<and> arena_used p' = 0 \<and>
     arena_free p' = span (arena_buffer a) (unat (arena_cap a)) \<and>
     (\<forall>x. h' x = (if x \<in> span (arena_buffer a) (unat (arena_offset a)) then Some 0 else h x))"
proof -
  assume a: "arena_ok (Some a)" "arena_backed h (Some a)"
  have ok: "arena_buffer a \<noteq> null_ptr" "unat (arena_offset a) \<le> unat (arena_cap a)"
    "unat (arena_buffer a) + unat (arena_cap a) < 2 ^ 64"
    using a(1) by (simp_all add: arena_ok_def word_le_nat_alt)
  then have fits: "fits (arena_buffer a) (unat (arena_offset a))" by (simp add: fits_def)
  have "backed h (arena_buffer a) (unat (arena_offset a))"
    using a(2) ok(2) by (auto simp: arena_backed_def backed_def span_def)
  from mem_zero_backed [OF ok(1) fits this] show ?thesis
    by (auto simp: arena_reset_secure_def mem_secure_zero_eq [OF fits] arena_used_def arena_free_def)
qed

theorem arena_reset_secure_correct_witness:
  "\<exists>h' p'. arena_reset_secure (\<lambda>x. Some 7)
       (Some \<lparr>arena_buffer = 4096, arena_cap = 64, arena_offset = 16, arena_padding = 0\<rparr>) = ret (h', p') \<and>
     arena_used p' = 0 \<and> (\<forall>x. h' x = Some (if x \<in> span 4096 16 then 0 else 7))"
  using arena_reset_secure_correct [of "\<lparr>arena_buffer = 4096, arena_cap = 64, arena_offset = 16,
      arena_padding = 0\<rparr>" "\<lambda>x. Some 7"]
  by (fastforce simp: arena_ok_def null_ptr_def arena_backed_def backed_def)

end
