(* ===== verification/Canon_Pool.thy ===== *)
theory Canon_Pool
  imports Canon_Arena
begin

section \<open>The object pool (core/pool.h)\<close>

text \<open>
  A pool reserves one region of an arena at initialisation and hands out its slots in order.
  The pool holds a pointer to an arena that other code uses too, so the arenas live in a store:
  \<open>arena_store\<close> maps a reference to the arena object there, and an operation that changes the
  arena returns the store. \<open>pool_ok\<close> is the invariant of the struct (\<open>pool_invariant\<close> of the
  header's annotations, with the alignment of the region that \<open>pool_reset\<close> relies on).

  The lemmas: initialisation reserves a region that was free; the pool is an \<open>allocator\<close> whose
  blocks are the slots; the reset re-reserves the same region; the index access returns the
  address that the allocation returned.
\<close>

subsection \<open>The struct and the operations\<close>

type_synonym arena_ref = nat
type_synonym arena_store = "arena_ref \<Rightarrow> arena option"

definition arena_load :: "arena_store \<Rightarrow> arena_ref \<Rightarrow> arena run" where
  "arena_load st r = (case st r of None \<Rightarrow> undefined_behaviour ''dangling arena pointer'' | Some a \<Rightarrow> ret a)"

record pool =
  pool_arena :: "arena_ref cptr"
  pool_size :: usize
  pool_cap :: usize
  pool_count :: usize
  pool_base :: arena_marker
  pool_end :: arena_marker

definition pool_init ::
  "bool \<Rightarrow> pool cptr \<Rightarrow> arena_ref cptr \<Rightarrow> usize \<Rightarrow> usize \<Rightarrow> arena_store \<Rightarrow>
   (bool \<times> pool cptr \<times> arena_store) run" where
  "pool_init builtin p ar object_size max_objects st = (case p of
     None \<Rightarrow> violation ''pool_init: pool cannot be NULL''
   | Some pl \<Rightarrow> (case ar of
       None \<Rightarrow> violation ''pool_init: arena cannot be NULL''
     | Some r \<Rightarrow>
         require_msg (object_size > 0) ''pool_init: object_size must be > 0''
         (require_msg (max_objects > 0) ''pool_init: max_objects must be > 0''
         (bindR (mem_align object_size) (\<lambda>aligned_size.
          if aligned_size = canon_usize_max then ret (False, p, st)
          else bindR (checked_mul builtin aligned_size max_objects (Some 0)) (\<lambda>(fits, out).
          if \<not> fits then ret (False, p, st)
          else bindR (deref out) (\<lambda>needed.
          bindR (arena_load st r) (\<lambda>a.
          if needed > arena_remaining (Some a) then ret (False, p, st)
          else let pl1 = pl\<lparr>pool_arena := Some r, pool_size := aligned_size,
                            pool_cap := max_objects, pool_count := 0\<rparr> in
          bindR (arena_alloc (Some a) needed) (\<lambda>(region, p').
          bindR (deref p') (\<lambda>a'. let st' = st(r \<mapsto> a') in
          if region = null_ptr then ret (False, Some pl1, st')
          else bindR (isize_val (int (unat region) - int (unat (arena_buffer a')))) (\<lambda>region_off.
            ret (True, Some (pl1\<lparr>pool_base := word_of_int region_off,
                                 pool_end := arena_mark (Some a')\<rparr>), st'))))))))))))"

definition pool_alloc :: "arena_store \<Rightarrow> pool cptr \<Rightarrow> (uptr \<times> pool cptr) run" where
  "pool_alloc st p = (case p of
     None \<Rightarrow> violation ''pool_alloc: pool cannot be NULL''
   | Some pl \<Rightarrow>
       if pool_count pl \<ge> pool_cap pl then ret (null_ptr, p)
       else bindR (deref (pool_arena pl)) (\<lambda>r. bindR (arena_load st r) (\<lambda>a.
         bindR (ptr_offset (arena_buffer a) (pool_base pl)) (\<lambda>base.
         bindR (ptr_elem base (pool_count pl) (pool_size pl)) (\<lambda>slot.
         ret (slot, Some (pl\<lparr>pool_count := pool_count pl + 1\<rparr>)))))))"

definition pool_alloc_zero :: "heap \<Rightarrow> arena_store \<Rightarrow> pool cptr \<Rightarrow> (uptr \<times> heap \<times> pool cptr) run" where
  "pool_alloc_zero h st p = bindR (pool_alloc st p) (\<lambda>(q, p').
     if q \<noteq> null_ptr then bindR (deref p') (\<lambda>pl. bindR (mem_zero h q (pool_size pl)) (\<lambda>h'. ret (q, h', p')))
     else ret (q, h, p'))"

definition pool_try_alloc :: "arena_store \<Rightarrow> pool cptr \<Rightarrow> uptr cptr \<Rightarrow> (bool \<times> uptr cptr \<times> pool cptr) run" where
  "pool_try_alloc st p out =
     require_msg (p \<noteq> None) ''pool_try_alloc: pool cannot be NULL''
     (bindR (pool_alloc st p) (\<lambda>(q, p').
       ret (q \<noteq> null_ptr, (if out \<noteq> None then Some q else out), p')))"

definition pool_try_alloc_zero ::
  "heap \<Rightarrow> arena_store \<Rightarrow> pool cptr \<Rightarrow> uptr cptr \<Rightarrow> (bool \<times> uptr cptr \<times> heap \<times> pool cptr) run" where
  "pool_try_alloc_zero h st p out =
     require_msg (p \<noteq> None) ''pool_try_alloc_zero: pool cannot be NULL''
     (bindR (pool_alloc_zero h st p) (\<lambda>(q, h', p').
       ret (q \<noteq> null_ptr, (if out \<noteq> None then Some q else out), h', p')))"

text \<open>
  The pointer difference is signed, and so is \<open>end_mark\<close> after its cast.
\<close>

definition pool_get :: "arena_store \<Rightarrow> pool cptr \<Rightarrow> usize \<Rightarrow> uptr run" where
  "pool_get st p i = (case p of
     None \<Rightarrow> ret null_ptr
   | Some pl \<Rightarrow> (case pool_arena pl of
       None \<Rightarrow> ret null_ptr
     | Some r \<Rightarrow>
         if i \<ge> pool_count pl then ret null_ptr
         else bindR (arena_load st r) (\<lambda>a.
           bindR (ptr_offset (arena_buffer a) (pool_base pl)) (\<lambda>base.
           bindR (ptr_elem base i (pool_size pl)) (\<lambda>q.
           require_msg (arena_buffer a \<le> q \<and>
               int (unat q) - int (unat (arena_buffer a)) < sint (pool_end pl))
             ''pool_get: address outside reserved region - pool may have been reset''
             (ret q))))))"

definition pool_get_const :: "arena_store \<Rightarrow> pool cptr \<Rightarrow> usize \<Rightarrow> uptr run" where
  "pool_get_const st p i = (case p of
     None \<Rightarrow> ret null_ptr
   | Some pl \<Rightarrow> (case pool_arena pl of
       None \<Rightarrow> ret null_ptr
     | Some r \<Rightarrow>
         if i \<ge> pool_count pl then ret null_ptr
         else bindR (arena_load st r) (\<lambda>a.
           bindR (ptr_offset_const (arena_buffer a) (pool_base pl)) (\<lambda>base.
           bindR (ptr_elem_const base i (pool_size pl)) (\<lambda>q.
           require_msg (arena_buffer a \<le> q \<and>
               int (unat q) - int (unat (arena_buffer a)) < sint (pool_end pl))
             ''pool_get_const: address outside reserved region - pool may have been reset''
             (ret q))))))"

definition pool_used :: "pool cptr \<Rightarrow> usize" where
  "pool_used p = (case p of Some pl \<Rightarrow> pool_count pl | None \<Rightarrow> 0)"

definition pool_capacity :: "pool cptr \<Rightarrow> usize" where
  "pool_capacity p = (case p of Some pl \<Rightarrow> pool_cap pl | None \<Rightarrow> 0)"

definition pool_remaining :: "pool cptr \<Rightarrow> usize" where
  "pool_remaining p = (case p of Some pl \<Rightarrow> pool_cap pl - pool_count pl | None \<Rightarrow> 0)"

definition pool_is_full :: "pool cptr \<Rightarrow> bool" where
  "pool_is_full p = (case p of None \<Rightarrow> True | Some pl \<Rightarrow> pool_count pl \<ge> pool_cap pl)"

definition pool_is_empty :: "pool cptr \<Rightarrow> bool" where
  "pool_is_empty p = (case p of None \<Rightarrow> True | Some pl \<Rightarrow> pool_count pl = 0)"

definition pool_object_size :: "pool cptr \<Rightarrow> usize" where
  "pool_object_size p = (case p of Some pl \<Rightarrow> pool_size pl | None \<Rightarrow> 0)"

definition pool_memory_used :: "pool cptr \<Rightarrow> usize" where
  "pool_memory_used p = (case p of Some pl \<Rightarrow> pool_size pl * pool_count pl | None \<Rightarrow> 0)"

definition pool_memory_reserved :: "pool cptr \<Rightarrow> usize" where
  "pool_memory_reserved p = (case p of Some pl \<Rightarrow> pool_size pl * pool_cap pl | None \<Rightarrow> 0)"

definition pool_as_bytes :: "arena_store \<Rightarrow> pool cptr \<Rightarrow> bytes run" where
  "pool_as_bytes st p = (case p of
     None \<Rightarrow> ret bytes_empty
   | Some pl \<Rightarrow> (case pool_arena pl of
       None \<Rightarrow> ret bytes_empty
     | Some r \<Rightarrow>
         if pool_count pl = 0 then ret bytes_empty
         else bindR (arena_load st r) (\<lambda>a. bindR (ptr_offset (arena_buffer a) (pool_base pl)) (\<lambda>base.
           bytes_from base (pool_size pl * pool_count pl)))))"

definition pool_as_cbytes :: "arena_store \<Rightarrow> pool cptr \<Rightarrow> cbytes run" where
  "pool_as_cbytes st p = (case p of
     None \<Rightarrow> ret cbytes_empty
   | Some pl \<Rightarrow> (case pool_arena pl of
       None \<Rightarrow> ret cbytes_empty
     | Some r \<Rightarrow>
         if pool_count pl = 0 then ret cbytes_empty
         else bindR (arena_load st r) (\<lambda>a. bindR (ptr_offset_const (arena_buffer a) (pool_base pl)) (\<lambda>base.
           cbytes_from base (pool_size pl * pool_count pl)))))"

definition pool_reserved_bytes :: "arena_store \<Rightarrow> pool cptr \<Rightarrow> bytes run" where
  "pool_reserved_bytes st p = (case p of
     None \<Rightarrow> ret bytes_empty
   | Some pl \<Rightarrow> (case pool_arena pl of
       None \<Rightarrow> ret bytes_empty
     | Some r \<Rightarrow> bindR (arena_load st r) (\<lambda>a. bindR (ptr_offset (arena_buffer a) (pool_base pl)) (\<lambda>base.
         bytes_from base (pool_size pl * pool_cap pl)))))"

definition pool_reserved_cbytes :: "arena_store \<Rightarrow> pool cptr \<Rightarrow> cbytes run" where
  "pool_reserved_cbytes st p = (case p of
     None \<Rightarrow> ret cbytes_empty
   | Some pl \<Rightarrow> (case pool_arena pl of
       None \<Rightarrow> ret cbytes_empty
     | Some r \<Rightarrow> bindR (arena_load st r) (\<lambda>a. bindR (ptr_offset_const (arena_buffer a) (pool_base pl)) (\<lambda>base.
         cbytes_from base (pool_size pl * pool_cap pl)))))"

definition pool_reset :: "pool cptr \<Rightarrow> arena_store \<Rightarrow> (pool cptr \<times> arena_store) run" where
  "pool_reset p st = (case p of
     None \<Rightarrow> ret (p, st)
   | Some pl \<Rightarrow> (case pool_arena pl of
       None \<Rightarrow> ret (p, st)
     | Some r \<Rightarrow> bindR (arena_load st r) (\<lambda>a.
         bindR (arena_reset_to (Some a) (pool_base pl)) (\<lambda>back.
         let pl1 = pl\<lparr>pool_count := 0\<rparr>; needed = pool_size pl1 * pool_cap pl1 in
         bindR (arena_alloc back needed) (\<lambda>(region, p').
         bindR (deref p') (\<lambda>a'.
         ensure_msg (region \<noteq> null_ptr)
           ''pool_reset: failed to re-reserve pool region after rollback''
           (ret (Some pl1, st(r \<mapsto> a')))))))))"

definition pool_reset_secure ::
  "heap \<Rightarrow> pool cptr \<Rightarrow> arena_store \<Rightarrow> (heap \<times> pool cptr \<times> arena_store) run" where
  "pool_reset_secure h p st = (case p of
     None \<Rightarrow> bindR (pool_reset p st) (\<lambda>(p', st'). ret (h, p', st'))
   | Some pl \<Rightarrow> (case pool_arena pl of
       None \<Rightarrow> bindR (pool_reset p st) (\<lambda>(p', st'). ret (h, p', st'))
     | Some r \<Rightarrow>
         if pool_count pl = 0 then bindR (pool_reset p st) (\<lambda>(p', st'). ret (h, p', st'))
         else bindR (arena_load st r) (\<lambda>a. bindR (ptr_offset (arena_buffer a) (pool_base pl)) (\<lambda>base.
           bindR (mem_secure_zero h base (pool_size pl * pool_count pl)) (\<lambda>h'.
           bindR (pool_reset p st) (\<lambda>(p', st'). ret (h', p', st')))))))"

subsection \<open>The invariant\<close>

definition pool_ok :: "arena_store \<Rightarrow> pool cptr \<Rightarrow> bool" where
  "pool_ok st p \<longleftrightarrow> (case p of
     None \<Rightarrow> False
   | Some pl \<Rightarrow> (case pool_arena pl of
       None \<Rightarrow> False
     | Some r \<Rightarrow> (case st r of
         None \<Rightarrow> False
       | Some a \<Rightarrow> arena_ok (Some a) \<and> 0 < pool_size pl \<and> 0 < pool_cap pl \<and> pool_count pl \<le> pool_cap pl \<and>
           unat (pool_end pl) = unat (pool_base pl) + unat (pool_cap pl) * unat (pool_size pl) \<and>
           pool_end pl \<le> arena_cap a \<and> pool_base pl \<le> arena_offset a \<and>
           arena_cap a \<le> canon_arena_max_size \<and>
           16 dvd unat (arena_buffer a) + unat (pool_base pl))))"

text \<open>The slot with index \<open>i\<close>, and the addresses of the slots not yet handed out.\<close>

definition pool_slot :: "arena_store \<Rightarrow> pool \<Rightarrow> nat \<Rightarrow> uptr" where
  "pool_slot st pl i = (case pool_arena pl of
     None \<Rightarrow> null_ptr
   | Some r \<Rightarrow> (case st r of
       None \<Rightarrow> null_ptr
     | Some a \<Rightarrow> arena_buffer a + pool_base pl + of_nat i * pool_size pl))"

definition pool_free :: "arena_store \<Rightarrow> pool cptr \<Rightarrow> uptr set" where
  "pool_free st p = (case p of
     None \<Rightarrow> {}
   | Some pl \<Rightarrow> span (pool_slot st pl (unat (pool_count pl)))
       ((unat (pool_cap pl) - unat (pool_count pl)) * unat (pool_size pl)))"

lemma pool_ok_obtain:
  assumes "pool_ok st p"
  obtains pl r a where "p = Some pl" "pool_arena pl = Some r" "st r = Some a" "arena_ok (Some a)"
    "0 < unat (pool_size pl)" "0 < unat (pool_cap pl)" "unat (pool_count pl) \<le> unat (pool_cap pl)"
    "unat (pool_end pl) = unat (pool_base pl) + unat (pool_cap pl) * unat (pool_size pl)"
    "unat (pool_end pl) \<le> unat (arena_cap a)" "unat (pool_base pl) \<le> unat (arena_offset a)"
    "unat (arena_cap a) \<le> 2 ^ 30" "16 dvd unat (arena_buffer a) + unat (pool_base pl)"
    "unat (arena_buffer a) + unat (arena_cap a) < 2 ^ 64" "arena_buffer a \<noteq> null_ptr"
proof -
  have gb: "unat canon_arena_max_size = 2 ^ 30"
    by (simp add: canon_arena_max_size_def canon_gb_def)
  from assms obtain pl where pl: "p = Some pl" by (auto simp: pool_ok_def split: option.splits)
  from assms pl obtain r where r: "pool_arena pl = Some r" by (auto simp: pool_ok_def split: option.splits)
  from assms pl r obtain a where a: "st r = Some a" by (auto simp: pool_ok_def split: option.splits)
  show thesis
    using assms gb by (intro that [OF pl r a])
      (simp_all add: pool_ok_def pl r a arena_ok_def word_le_nat_alt unat_gt_0 word_gt_0)
qed

text \<open>The slot addresses: they stay inside the reserved region and do not wrap.\<close>

lemma pool_slot_value:
  assumes "pool_ok st (Some pl)" "pool_arena pl = Some r" "st r = Some a" "i \<le> unat (pool_cap pl)"
  shows "unat (pool_slot st pl i) = unat (arena_buffer a) + unat (pool_base pl) + i * unat (pool_size pl)"
    "unat (pool_slot st pl i) \<le> unat (arena_buffer a) + unat (pool_end pl)"
    "unat (arena_buffer a) + unat (pool_end pl) < 2 ^ 64"
    "pool_slot st pl i \<noteq> null_ptr"
proof -
  let ?b = "unat (arena_buffer a) + unat (pool_base pl)"
  from assms(1) obtain r' a' where ok: "pool_arena pl = Some r'" "st r' = Some a'"
    "unat (pool_end pl) = unat (pool_base pl) + unat (pool_cap pl) * unat (pool_size pl)"
    "unat (pool_end pl) \<le> unat (arena_cap a')"
    "unat (arena_buffer a') + unat (arena_cap a') < 2 ^ 64" "arena_buffer a' \<noteq> null_ptr"
    by (elim pool_ok_obtain) auto
  then have a': "a' = a" using assms(2,3) by simp
  show lt: "unat (arena_buffer a) + unat (pool_end pl) < 2 ^ 64" using ok(4,5) unfolding a' by linarith
  have im: "i * unat (pool_size pl) \<le> unat (pool_cap pl) * unat (pool_size pl)"
    using assms(4) by (rule mult_right_mono) simp
  have small: "?b + i * unat (pool_size pl) < 2 ^ 64" using im lt ok(3) by linarith
  have base: "unat (arena_buffer a + pool_base pl) = ?b" using small by (intro unat_usize_add) linarith
  have i: "unat (of_nat i :: usize) = i" using assms(4) usize_bound [of "pool_cap pl"]
    by (simp add: unat_of_nat take_bit_nat_eq_self)
  have mul: "unat (of_nat i * pool_size pl) = i * unat (pool_size pl)"
    using small i by (simp add: unat_word_ariths)
  show val: "unat (pool_slot st pl i) = ?b + i * unat (pool_size pl)"
    using small base mul assms(2,3) by (simp add: pool_slot_def unat_usize_add)
  show "unat (pool_slot st pl i) \<le> unat (arena_buffer a) + unat (pool_end pl)"
    using val im ok(3) by linarith
  have "0 < unat (arena_buffer a)" using ok(6) a' by (simp add: null_ptr_def unat_gt_0)
  then show "pool_slot st pl i \<noteq> null_ptr" using val by (auto simp: null_ptr_def)
qed

lemma offset_ret:
  "unat p + unat n < 2 ^ 64 \<Longrightarrow> ptr_offset p n = ret (if p = null_ptr then null_ptr else p + n)"
  "unat p + unat n < 2 ^ 64 \<Longrightarrow> ptr_offset_const p n = ret (if p = null_ptr then null_ptr else p + n)"
proof -
  assume lt: "unat p + unat n < 2 ^ 64"
  have "n \<le> canon_usize_max" using usize_bound [of n] by (simp add: word_le_nat_alt unat_usize_max)
  then have "unat (canon_usize_max - n) = 2 ^ 64 - 1 - unat n" by (simp only: unat_sub unat_usize_max)
  then have "p \<le> canon_usize_max - n" using lt unfolding word_le_nat_alt by linarith
  then show "ptr_offset p n = ret (if p = null_ptr then null_ptr else p + n)"
    "ptr_offset_const p n = ret (if p = null_ptr then null_ptr else p + n)"
    by (simp_all add: ptr_offset_def ptr_offset_const_def)
qed

lemma elem_ret:
  assumes "p \<noteq> null_ptr" "0 < unat n" "unat p + unat i * unat n < 2 ^ 64"
  shows "ptr_elem p i n = ret (p + i * n)" "ptr_elem_const p i n = ret (p + i * n)"
proof -
  have m: "unat (i * n) = unat i * unat n" using assms(3) by (simp add: unat_word_ariths)
  have "unat i * unat n \<le> unat canon_usize_max" using assms(3) unfolding unat_usize_max by linarith
  then have "unat i \<le> unat canon_usize_max div unat n" by (simp add: assms(2) less_eq_div_iff_mult_less_eq)
  then have "i \<le> canon_usize_max div n" by (simp add: word_le_nat_alt unat_div_word)
  moreover have "0 < n" using assms(2) by (simp add: word_less_nat_alt)
  ultimately show "ptr_elem p i n = ret (p + i * n)" "ptr_elem_const p i n = ret (p + i * n)"
    using assms(1,3) m by (simp_all add: ptr_elem_def ptr_elem_const_def offset_ret)
qed

text \<open>The address computation of \<open>pool_alloc\<close> and \<open>pool_get\<close>.\<close>

lemma pool_address:
  assumes "pool_ok st (Some pl)" "pool_arena pl = Some r" "st r = Some a" "i < pool_cap pl"
  shows "ptr_offset (arena_buffer a) (pool_base pl) = ret (arena_buffer a + pool_base pl)"
    "ptr_offset_const (arena_buffer a) (pool_base pl) = ret (arena_buffer a + pool_base pl)"
    "ptr_elem (arena_buffer a + pool_base pl) i (pool_size pl) = ret (pool_slot st pl (unat i))"
    "ptr_elem_const (arena_buffer a + pool_base pl) i (pool_size pl) = ret (pool_slot st pl (unat i))"
proof -
  from assms(1) obtain r' a' where ok: "pool_arena pl = Some r'" "st r' = Some a'"
    "0 < unat (pool_size pl)" "unat (pool_end pl) = unat (pool_base pl) + unat (pool_cap pl) * unat (pool_size pl)"
    "arena_buffer a' \<noteq> null_ptr" by (elim pool_ok_obtain) auto
  then have a': "a' = a" using assms(2,3) by simp
  note 0 = pool_slot_value [OF assms(1-3), of 0]
  have i: "unat i \<le> unat (pool_cap pl)" using assms(4) by (simp add: word_less_nat_alt)
  note v = pool_slot_value [OF assms(1-3) i]
  have base: "unat (arena_buffer a) + unat (pool_base pl) < 2 ^ 64" using 0(3) ok(4) by linarith
  then show "ptr_offset (arena_buffer a) (pool_base pl) = ret (arena_buffer a + pool_base pl)"
    "ptr_offset_const (arena_buffer a) (pool_base pl) = ret (arena_buffer a + pool_base pl)"
    using ok(5) a' by (simp_all add: offset_ret)
  have nn: "arena_buffer a + pool_base pl \<noteq> null_ptr" using 0(4) assms(2,3) by (simp add: pool_slot_def)
  have sm: "unat (arena_buffer a + pool_base pl) + unat i * unat (pool_size pl) < 2 ^ 64"
    using v(1) usize_bound [of "pool_slot st pl (unat i)"] unat_usize_add [OF base] by linarith
  have "arena_buffer a + pool_base pl + i * pool_size pl = pool_slot st pl (unat i)"
    using assms(2,3) by (simp add: pool_slot_def)
  then show "ptr_elem (arena_buffer a + pool_base pl) i (pool_size pl) = ret (pool_slot st pl (unat i))"
    "ptr_elem_const (arena_buffer a + pool_base pl) i (pool_size pl) = ret (pool_slot st pl (unat i))"
    using elem_ret [OF nn ok(3) sm] by simp_all
qed

subsection \<open>Allocation\<close>

lemma pool_alloc_value:
  assumes "pool_ok st (Some pl)"
  shows "pool_alloc st (Some pl) =
    (if pool_count pl < pool_cap pl
     then ret (pool_slot st pl (unat (pool_count pl)), Some (pl\<lparr>pool_count := pool_count pl + 1\<rparr>))
     else ret (null_ptr, Some pl))"
proof -
  from assms obtain r a where ra: "pool_arena pl = Some r" "st r = Some a"
    by (elim pool_ok_obtain) auto
  show ?thesis
    using pool_address [OF assms ra, of "pool_count pl"] ra
    by (auto simp: pool_alloc_def arena_load_def not_le)
qed

lemma pool_ok_count:
  "pool_ok st (Some pl) \<Longrightarrow> c \<le> pool_cap pl \<Longrightarrow> pool_ok st (Some (pl\<lparr>pool_count := c\<rparr>))"
  by (auto simp: pool_ok_def split: option.splits)

lemma pool_slot_count [simp]: "pool_slot st (pl\<lparr>pool_count := c\<rparr>) i = pool_slot st pl i"
  by (simp add: pool_slot_def split: option.split)

lemma pool_alloc_step:
  assumes "pool_ok st p"
  shows "\<exists>q p'. pool_alloc st p = ret (q, p') \<and> pool_ok st p' \<and> pool_object_size p' = pool_object_size p \<and>
    block_span (q, unat (pool_object_size p)) \<subseteq> pool_free st p \<and>
    pool_free st p' \<subseteq> pool_free st p - block_span (q, unat (pool_object_size p))"
proof -
  from assms obtain pl r a where pl: "p = Some pl" and ra: "pool_arena pl = Some r" "st r = Some a"
    by (elim pool_ok_obtain) auto
  note ok = assms [unfolded pl]
  show ?thesis
  proof (cases "pool_count pl < pool_cap pl")
    case False
    then show ?thesis using pool_alloc_value [OF ok] ok pl by (auto simp: block_span_def pool_object_size_def)
  next
    case True
    let ?c = "unat (pool_count pl)" and ?n = "unat (pool_cap pl)" and ?s = "unat (pool_size pl)"
    let ?pl = "pl\<lparr>pool_count := pool_count pl + 1\<rparr>"
    have lt: "?c < ?n" using True by (simp add: word_less_nat_alt)
    have suc: "unat (pool_count pl + 1) = Suc ?c" by (rule unat_usize_lt_Suc [OF True])
    have ok': "pool_ok st (Some ?pl)"
      using True by (intro pool_ok_count [OF ok]) (simp add: word_le_nat_alt suc word_less_nat_alt)
    have v: "unat (pool_slot st pl (Suc ?c)) = unat (pool_slot st pl ?c) + ?s"
      using lt pool_slot_value(1) [OF ok ra, of ?c] pool_slot_value(1) [OF ok ra, of "Suc ?c"] by simp
    have m: "(?n - ?c) * ?s = ?s + (?n - Suc ?c) * ?s"
      using lt by (metis Suc_diff_Suc mult_Suc)
    have "block_span (pool_slot st pl ?c, ?s) \<subseteq> pool_free st p"
      using m by (auto simp: block_span_def pool_free_def pl span_def)
    moreover have "pool_free st (Some ?pl) \<subseteq> pool_free st p - block_span (pool_slot st pl ?c, ?s)"
      using m v suc pl by (auto simp: block_span_def pool_free_def span_def)
    ultimately show ?thesis
      using pool_alloc_value [OF ok] True ok' pl by (simp add: pool_object_size_def)
  qed
qed

interpretation pl: allocator "\<lambda>p. pool_ok st p" "\<lambda>r :: unit. True" "pool_free st"
    "\<lambda>p r. unat (pool_object_size p)" "\<lambda>p r. pool_alloc st p" for st
proof
  fix p and r :: unit
  assume "pool_ok st p"
  from pool_alloc_step [OF this]
  show "\<exists>q p'. pool_alloc st p = ret (q, p') \<and> pool_ok st p' \<and>
      block_span (q, unat (pool_object_size p)) \<subseteq> pool_free st p \<and>
      pool_free st p' \<subseteq> pool_free st p - block_span (q, unat (pool_object_size p))"
    by blast
qed


subsection \<open>Index access\<close>

lemma sint_small: "sint w = int (unat w)" if "unat w < 2 ^ 63" for w :: usize
proof -
  have u: "uint w = int (unat w)" by simp
  have "int (unat w) < int (2 ^ 63)" using that by (simp only: of_nat_less_iff)
  then have "int (unat w) < 2 ^ 63" by (simp only: of_nat_power of_nat_numeral)
  then have "signed_take_bit 63 (int (unat w)) = int (unat w)"
    by (intro signed_take_bit_int_eq_self) linarith+
  then show ?thesis by (simp only: sint_uint u) simp
qed

lemma pool_get_value:
  assumes "pool_ok st (Some pl)"
  shows "pool_get st (Some pl) i = ret (if i < pool_count pl then pool_slot st pl (unat i) else null_ptr)"
    "pool_get_const st (Some pl) i = ret (if i < pool_count pl then pool_slot st pl (unat i) else null_ptr)"
proof -
  from assms obtain r a where ra: "pool_arena pl = Some r" "st r = Some a" and
    ok: "unat (pool_end pl) = unat (pool_base pl) + unat (pool_cap pl) * unat (pool_size pl)"
    "0 < unat (pool_size pl)" "pool_count pl \<le> pool_cap pl" "unat (pool_end pl) \<le> 2 ^ 30"
    by (elim pool_ok_obtain) (auto simp: word_le_nat_alt)
  have "sint (pool_end pl) = int (unat (pool_end pl))"
    using ok(4) by (intro sint_small) simp
  moreover have "arena_buffer a \<le> pool_slot st pl (unat i) \<and>
      int (unat (pool_slot st pl (unat i))) - int (unat (arena_buffer a)) < int (unat (pool_end pl))"
    if "i < pool_count pl"
  proof -
    have i: "unat i < unat (pool_cap pl)" using that ok(3) by (simp add: word_less_nat_alt word_le_nat_alt)
    have "unat i * unat (pool_size pl) < unat (pool_cap pl) * unat (pool_size pl)"
      using i ok(2) by (rule mult_strict_right_mono)
    then have "unat (arena_buffer a) \<le> unat (pool_slot st pl (unat i))"
      "unat (pool_slot st pl (unat i)) < unat (arena_buffer a) + unat (pool_end pl)"
      using pool_slot_value(1) [OF assms ra less_imp_le [OF i]] ok(1) by linarith+
    then show ?thesis unfolding word_le_nat_alt by linarith
  qed
  moreover have "i < pool_cap pl" if "i < pool_count pl" using that ok(3) by (rule order_less_le_trans)
  ultimately show "pool_get st (Some pl) i = ret (if i < pool_count pl then pool_slot st pl (unat i) else null_ptr)"
    "pool_get_const st (Some pl) i = ret (if i < pool_count pl then pool_slot st pl (unat i) else null_ptr)"
    using ra pool_address [OF assms ra, of i]
    by (auto simp: pool_get_def pool_get_const_def arena_load_def not_le)
qed

subsection \<open>Initialisation and reset\<close>

lemma mem_align_value:
  assumes "mem_align n = ret m" "m \<noteq> canon_usize_max" "0 < n"
  shows "16 dvd unat m" "n \<le> m" "0 < unat m"
proof -
  have n: "n \<noteq> 0" using assms(3) by auto
  from mem_align_to_value [OF default_align(1) n] assms(1,2) default_align(2)
  have v: "unat m = (unat n + 15) div 16 * 16" by (auto simp: mem_align_eq split: if_splits)
  then show "16 dvd unat m" by simp
  have "unat n \<le> unat m" using v by linarith
  then show "n \<le> m" by (simp add: word_le_nat_alt)
  moreover have "0 < unat n" using n by (simp add: unat_gt_0)
  ultimately show "0 < unat m" by (simp add: word_le_nat_alt)
qed

lemma mem_align_ret: "\<exists>m. mem_align n = ret m"
proof (cases "n = 0")
  case False
  with mem_align_to_value [OF default_align(1) False] show ?thesis by (auto simp: mem_align_eq)
qed (simp add: mem_align_def)

text \<open>What \<open>arena_alloc\<close> gives, on the offset of the block.\<close>

lemma arena_alloc_offsets:
  assumes "arena_ok (Some a)" "n \<noteq> 0"
  obtains "arena_alloc (Some a) n = ret (null_ptr, Some a)"
    "unat (arena_cap a) < unat (arena_offset a) + 15 + unat n"
    "16 dvd unat (arena_buffer a) + unat (arena_offset a) \<Longrightarrow> unat (arena_cap a) < unat (arena_offset a) + unat n"
  | off pad where "arena_alloc (Some a) n = ret (arena_buffer a + off,
        Some (a\<lparr>arena_offset := off + n, arena_padding := pad\<rparr>))"
      "arena_offset a \<le> off" "unat off + unat n \<le> unat (arena_cap a)"
      "16 dvd unat (arena_buffer a) + unat off" "unat (off + n) = unat off + unat n"
      "16 dvd unat (arena_buffer a) + unat (arena_offset a) \<Longrightarrow> off = arena_offset a"
proof -
  let ?pad = "ptr_align_padding (arena_buffer a + arena_offset a) canon_default_align"
  let ?at = "arena_offset a + ?pad"
  note v = arena_alloc_aligned_value [OF assms(1) default_align(1) assms(2), unfolded default_align(2)]
  have eq: "arena_alloc (Some a) n = arena_alloc_aligned (Some a) n canon_default_align"
    by (simp add: arena_alloc_is_aligned)
  have aligned: "?pad = 0" if "16 dvd unat (arena_buffer a) + unat (arena_offset a)"
  proof -
    have "16 dvd unat ?pad" using v(1) that dvd_add_right_iff by blast
    then have "unat ?pad = 0" using v(2) by (auto elim: dvdE)
    then show ?thesis by (metis unat_eq_0)
  qed
  show thesis
  proof (cases "unat (arena_offset a) + unat ?pad + unat n \<le> unat (arena_cap a)")
    case False
    have "unat ?pad \<le> 15" "?pad = 0 \<Longrightarrow> unat ?pad = 0" using v(2) by simp_all
    with aligned False v(3) eq show thesis by (intro that(1)) auto
  next
    case True
    note at = v(4) [OF True]
    from aligned True v(1,3) at eq show thesis
      by (intro that(2) [of ?at "arena_padding a + (?at - arena_offset a)"])
        (simp_all add: word_le_nat_alt add.assoc)
  qed
qed


text \<open>The region that an initialisation or a reset reserves.\<close>

lemma pool_region:
  assumes "arena_ok (Some a)" "arena_cap a \<le> canon_arena_max_size" "0 < unat sz" "0 < unat cap"
    "unat needed = unat cap * unat sz" "unat off + unat needed \<le> unat (arena_cap a)"
    "arena_offset a \<le> off" "16 dvd unat (arena_buffer a) + unat off" "unat (off + needed) = unat off + unat needed"
    "pool_arena pl = Some r" "pool_size pl = sz" "pool_cap pl = cap" "pool_count pl \<le> cap"
    "pool_base pl = off" "pool_end pl = off + needed"
    "st r = Some (a\<lparr>arena_offset := off + needed, arena_padding := pad\<rparr>)"
  shows "pool_ok st (Some pl)"
  using assms by (simp add: pool_ok_def arena_ok_def word_le_nat_alt word_gt_0 unat_gt_0)

text \<open>What each failing initialisation leaves: the pool as it was, or with its first four fields set.\<close>

definition pool_touched :: "pool \<Rightarrow> arena_ref \<Rightarrow> usize \<Rightarrow> usize \<Rightarrow> pool" where
  "pool_touched pl r sz cap = pl\<lparr>pool_arena := Some r, pool_size := sz, pool_cap := cap, pool_count := 0\<rparr>"

lemma pool_init_cases:
  assumes "arena_ok (Some a)" "arena_cap a \<le> canon_arena_max_size" "st r = Some a"
    "0 < object_size" "0 < max_objects" "mem_align object_size = ret m"
  obtains "pool_init builtin (Some pl) (Some r) object_size max_objects st = ret (False, Some pl, st)"
    "m = canon_usize_max \<or> unat (arena_cap a) < unat (arena_offset a) + unat m * unat max_objects"
  | "pool_init builtin (Some pl) (Some r) object_size max_objects st =
      ret (False, Some (pool_touched pl r m max_objects), st)"
    "unat (arena_offset a) + unat m * unat max_objects \<le> unat (arena_cap a)"
    "unat (arena_cap a) < unat (arena_offset a) + 15 + unat m * unat max_objects"
  | off pad where "pool_init builtin (Some pl) (Some r) object_size max_objects st =
      ret (True, Some ((pool_touched pl r m max_objects)
            \<lparr>pool_base := off, pool_end := off + m * max_objects\<rparr>),
        st(r \<mapsto> a\<lparr>arena_offset := off + m * max_objects, arena_padding := pad\<rparr>))"
    "m \<noteq> canon_usize_max" "unat (m * max_objects) = unat m * unat max_objects"
    "arena_offset a \<le> off" "unat off + unat m * unat max_objects \<le> unat (arena_cap a)"
    "16 dvd unat (arena_buffer a) + unat off" "unat (off + m * max_objects) = unat off + unat (m * max_objects)"
proof -
  let ?init = "pool_init builtin (Some pl) (Some r) object_size max_objects st"
  have ok: "unat (arena_offset a) \<le> unat (arena_cap a)" "unat (arena_cap a) \<le> 2 ^ 30"
    "unat (arena_buffer a) + unat (arena_cap a) < 2 ^ 64"
    using assms(1,2) by (simp_all add: arena_ok_def word_le_nat_alt canon_arena_max_size_def canon_gb_def)
  have rem: "unat (arena_remaining (Some a)) = unat (arena_cap a) - unat (arena_offset a)"
    using ok(1) by (simp add: arena_remaining_def unat_sub word_le_nat_alt)
  show thesis
  proof (cases "m = canon_usize_max \<or> \<not> unat m * unat max_objects < 2 ^ 64 \<or>
      m * max_objects > arena_remaining (Some a)")
    case True
    then have "?init = ret (False, Some pl, st)"
      using assms(3-6) by (auto simp: pool_init_def arena_load_def)
    moreover have "m = canon_usize_max \<or> unat (arena_cap a) < unat (arena_offset a) + unat m * unat max_objects"
    proof (cases "unat m * unat max_objects < 2 ^ 64")
      case lt: True
      then have "unat (m * max_objects) = unat m * unat max_objects" by (simp add: unat_word_ariths)
      with True lt rem show ?thesis by (auto simp: word_less_nat_alt)
    next
      case False
      with ok show ?thesis by linarith
    qed
    ultimately show thesis by (rule that(1))
  next
    case False
    then have m: "m \<noteq> canon_usize_max" "unat (m * max_objects) = unat m * unat max_objects"
      "unat m * unat max_objects < 2 ^ 64" "\<not> m * max_objects > arena_remaining (Some a)"
      by (simp_all add: unat_word_ariths)
    then have le: "unat (arena_offset a) + unat m * unat max_objects \<le> unat (arena_cap a)"
      using rem ok(1) by (simp add: word_less_nat_alt)
    have nz: "m * max_objects \<noteq> 0"
      using mem_align_value(3) [OF assms(6) m(1) assms(4)] assms(5) m(2)
      by (metis mult_eq_0_iff neq0_conv unat_eq_0 word_gt_0)
    have init: "?init = bindR (arena_alloc (Some a) (m * max_objects)) (\<lambda>(region, p').
          bindR (deref p') (\<lambda>a'. let st' = st(r \<mapsto> a') in
          if region = null_ptr then ret (False, Some (pool_touched pl r m max_objects), st')
          else bindR (isize_val (int (unat region) - int (unat (arena_buffer a')))) (\<lambda>region_off.
            ret (True, Some ((pool_touched pl r m max_objects)\<lparr>pool_base := word_of_int region_off,
                                 pool_end := arena_mark (Some a')\<rparr>), st'))))"
      unfolding pool_touched_def using assms(3-6) m by (simp add: pool_init_def arena_load_def Let_def)
    from arena_alloc_offsets [OF assms(1) nz] show thesis
    proof cases
      case 1
      then have "?init = ret (False, Some (pool_touched pl r m max_objects), st)"
        using init assms(3) by (simp add: fun_upd_idem)
      then show thesis using le 1(2) m(2) by (intro that(2)) simp_all
    next
      case (2 off pad)
      have u: "unat (arena_buffer a + off) = unat (arena_buffer a) + unat off"
        using 2(3) ok(3) by (intro unat_usize_add) linarith
      have "arena_buffer a + off \<noteq> null_ptr"
        using u assms(1) by (auto simp: null_ptr_def arena_ok_def usize_eq_iff)
      moreover have "isize_val (int (unat off)) = ret (int (unat off))"
      proof (rule isize_val_ret)
        have "unat off \<le> 1073741824" using 2(3) ok(2) by simp
        then show "isize_ok (int (unat off))"
          unfolding isize_ok_def canon_isize_min_def canon_isize_max_def by linarith
      qed
      ultimately have "?init = ret (True, Some ((pool_touched pl r m max_objects)
            \<lparr>pool_base := off, pool_end := off + m * max_objects\<rparr>),
        st(r \<mapsto> a\<lparr>arena_offset := off + m * max_objects, arena_padding := pad\<rparr>))"
        unfolding init 2(1) by (simp add: u arena_mark_def Let_def)
      then show thesis using 2 m by (intro that(3)) simp_all
    qed
  qed
qed


lemma pool_init_value:
  assumes "arena_ok (Some a)" "arena_cap a \<le> canon_arena_max_size" "st r = Some a"
    "0 < object_size" "0 < max_objects"
    "pool_init builtin (Some pl) (Some r) object_size max_objects st = ret (True, p', st')"
  shows "pool_ok st' p' \<and> pool_used p' = 0 \<and> pool_capacity p' = max_objects \<and>
      object_size \<le> pool_object_size p' \<and> 16 dvd unat (pool_object_size p') \<and>
      pool_free st' p' \<subseteq> arena_free (Some a) \<and> arena_free (st' r) \<inter> pool_free st' p' = {} \<and>
      arena_grows (st r) (st' r)"
proof -
  obtain m where m: "mem_align object_size = ret m" using mem_align_ret by blast
  from pool_init_cases [where st = st and r = r and builtin = builtin and pl = pl, OF assms(1-5) m]
  show ?thesis
  proof cases
    case (3 off pad)
    let ?n = "m * max_objects" and ?a = "a\<lparr>arena_offset := off + m * max_objects, arena_padding := pad\<rparr>"
    let ?pl = "(pool_touched pl r m max_objects)\<lparr>pool_base := off, pool_end := off + m * max_objects\<rparr>"
    have p': "p' = Some ?pl" "st' = st(r \<mapsto> ?a)" using 3(1) assms(6) by simp_all
    have m': "16 dvd unat m" "object_size \<le> m" "0 < unat m" using mem_align_value [OF m 3(2) assms(4)] by simp_all
    have "0 < unat max_objects" using assms(5) by (simp add: word_gt_0 unat_gt_0)
    then have ok: "pool_ok st' (Some ?pl)" unfolding p'
      using 3 m' assms(1,2) by (intro pool_region [where a = a and r = r and needed = ?n and sz = m and cap = max_objects])
        (simp_all add: pool_touched_def mult.commute)
    have ra: "pool_arena ?pl = Some r" "st' r = Some ?a" by (simp_all add: pool_touched_def p')
    have slot: "unat (pool_slot st' ?pl 0) = unat (arena_buffer a) + unat off"
      using pool_slot_value(1) [OF ok ra, of 0] by simp
    have free: "pool_free st' (Some ?pl) = span (pool_slot st' ?pl 0) (unat ?n)"
      using 3(3) by (simp add: pool_free_def pool_touched_def mult.commute)
    have b: "unat (arena_buffer a) + unat (arena_cap a) < 2 ^ 64" "unat (arena_offset a) \<le> unat off"
      "unat off + unat ?n \<le> unat (arena_cap a)"
      using assms(1) 3(3-5) by (simp_all add: arena_ok_def word_le_nat_alt)
    have o: "unat (arena_buffer a + arena_offset a) = unat (arena_buffer a) + unat (arena_offset a)"
      using b by (intro unat_usize_add) linarith
    have e: "unat (arena_buffer a + (off + ?n)) = unat (arena_buffer a) + (unat off + unat ?n)"
      using b 3(7) by (subst unat_usize_add) linarith+
    have "pool_free st' (Some ?pl) \<subseteq> arena_free (Some a)"
      using slot o b unfolding free by (auto simp: arena_free_def span_def)
    moreover have "arena_free (st' r) \<inter> pool_free st' (Some ?pl) = {}"
      unfolding free by (simp only: p'(2) fun_upd_same arena_free_def option.case arena.simps)
        (use slot e in \<open>auto simp: span_def p'(2)\<close>)
    moreover have "arena_grows (st r) (st' r)"
      using assms(3) b 3(7) by (simp add: p' arena_grows_def word_le_nat_alt)
    ultimately show ?thesis
      using ok m' by (simp add: p'(1) pool_used_def pool_capacity_def pool_object_size_def pool_touched_def)
  qed (use assms(6) in simp_all)
qed

text \<open>A sequence of allocations: the slots in order, then NULL.\<close>

definition pool_answer :: "arena_store \<Rightarrow> pool \<Rightarrow> nat \<Rightarrow> uptr \<times> nat" where
  "pool_answer st pl i = (if i < unat (pool_cap pl) then pool_slot st pl i else null_ptr, unat (pool_size pl))"

lemma pool_serve:
  "pool_ok st (Some pl) \<Longrightarrow>
   serve (\<lambda>p r. pool_alloc st p) (\<lambda>p r. unat (pool_object_size p)) (Some pl) (rs :: unit list) =
     ret (map (\<lambda>i. pool_answer st pl (unat (pool_count pl) + i)) [0..<length rs],
          Some (pl\<lparr>pool_count := of_nat (min (unat (pool_cap pl)) (unat (pool_count pl) + length rs))\<rparr>))"
proof (induction rs arbitrary: pl)
  case Nil
  then have "unat (pool_count pl) \<le> unat (pool_cap pl)" by (auto elim: pool_ok_obtain)
  then show ?case by simp
next
  case (Cons x rs)
  have upt: "map f [0..<length (x # rs)] = f 0 # map (\<lambda>i. f (Suc i)) [0..<length rs]" for f :: "nat \<Rightarrow> uptr \<times> nat"
    by (simp add: upt_conv_Cons map_Suc_upt [symmetric] del: upt_Suc)
  let ?serve = "serve (\<lambda>p r. pool_alloc st p) (\<lambda>p r. unat (pool_object_size p))"
  show ?case
  proof (cases "pool_count pl < pool_cap pl")
    case True
    let ?pl = "pl\<lparr>pool_count := pool_count pl + 1\<rparr>"
    have suc: "unat (pool_count pl + 1) = Suc (unat (pool_count pl))" by (rule unat_usize_lt_Suc [OF True])
    have "pool_ok st (Some ?pl)"
      using True by (intro pool_ok_count [OF Cons.prems]) (simp add: word_le_nat_alt suc word_less_nat_alt)
    note IH = Cons.IH [OF this]
    show ?thesis unfolding upt
      using IH True by (simp add: pool_alloc_value [OF Cons.prems] pool_answer_def suc word_less_nat_alt
          pool_object_size_def)
  next
    case False
    then have "unat (pool_cap pl) \<le> unat (pool_count pl)" by (simp add: word_less_nat_alt)
    with Cons.IH [OF Cons.prems] show ?thesis unfolding upt
      by (simp add: pool_alloc_value [OF Cons.prems] pool_answer_def pool_object_size_def False)
  qed
qed


text \<open>A reset: the same region again, nothing else is left of the arena's blocks after it.\<close>

lemma pool_reset_value:
  assumes "pool_ok st (Some pl)" "pool_arena pl = Some r" "st r = Some a"
  shows "\<exists>pad. pool_reset (Some pl) st = ret (Some (pl\<lparr>pool_count := 0\<rparr>),
      st(r \<mapsto> a\<lparr>arena_offset := pool_end pl, arena_padding := pad\<rparr>))"
proof -
  let ?n = "pool_size pl * pool_cap pl" and ?a = "a\<lparr>arena_offset := pool_base pl\<rparr>"
  from assms have ok: "arena_ok (Some a)" "0 < unat (pool_size pl)" "0 < unat (pool_cap pl)"
    "unat (pool_end pl) = unat (pool_base pl) + unat (pool_cap pl) * unat (pool_size pl)"
    "unat (pool_end pl) \<le> unat (arena_cap a)" "pool_base pl \<le> arena_offset a"
    "16 dvd unat (arena_buffer a) + unat (pool_base pl)"
    by (auto elim!: pool_ok_obtain simp: word_le_nat_alt)
  have n: "unat ?n = unat (pool_cap pl) * unat (pool_size pl)"
    using ok(4) usize_bound [of "pool_end pl"] by (simp add: unat_word_ariths mult.commute)
  then have nz: "?n \<noteq> 0" using ok(2,3) by (metis mult_pos_pos neq0_conv unat_0)
  have e: "pool_base pl + ?n = pool_end pl"
    using ok(4) n usize_bound [of "pool_end pl"] by (simp add: usize_eq_iff unat_usize_add)
  have rollback: "arena_reset_to (Some a) (pool_base pl) = ret (Some ?a)"
    using ok(6) by (simp add: arena_reset_to_def)
  have "arena_ok (Some ?a)" using ok(1,4,5) by (simp add: arena_ok_def word_le_nat_alt)
  from arena_alloc_offsets [OF this nz] show ?thesis
  proof cases
    case 1
    with ok(4,5,7) n show ?thesis by simp
  next
    case (2 off pad)
    have off: "off = pool_base pl" using 2(6) ok(7) by simp
    have u: "unat (arena_buffer a + pool_base pl) = unat (arena_buffer a) + unat (pool_base pl)"
      using pool_slot_value [OF assms, of 0] assms(2,3) by (simp add: pool_slot_def)
    then have "arena_buffer a + pool_base pl \<noteq> null_ptr"
      using ok(1) by (auto simp: null_ptr_def arena_ok_def usize_eq_iff)
    with 2(1) rollback assms(2,3) e show ?thesis
      by (auto simp: pool_reset_def arena_load_def Let_def off)
  qed
qed

lemma pool_reset_ok:
  assumes "pool_ok st (Some pl)" "pool_arena pl = Some r" "st r = Some a"
  shows "pool_ok (st(r \<mapsto> a\<lparr>arena_offset := pool_end pl, arena_padding := pad\<rparr>)) (Some (pl\<lparr>pool_count := 0\<rparr>))"
  using assms by (auto simp: pool_ok_def arena_ok_def word_le_nat_alt)


subsection \<open>Properties\<close>

text \<open>The concrete pool of the witnesses: four objects of 20 bytes from an arena at address 4104.\<close>

definition wit_arena :: arena where
  "wit_arena = \<lparr>arena_buffer = 4104, arena_cap = 256, arena_offset = 8, arena_padding = 0\<rparr>"

definition wit_pool :: pool where
  "wit_pool = \<lparr>pool_arena = None, pool_size = 0, pool_cap = 0, pool_count = 0, pool_base = 0, pool_end = 0\<rparr>"

definition wit_store :: arena_store where
  "wit_store = [0 \<mapsto> wit_arena]"

lemma wit_arena_ok: "arena_ok (Some wit_arena)" "arena_cap wit_arena \<le> canon_arena_max_size"
  "wit_store 0 = Some wit_arena"
  by (simp_all add: wit_arena_def arena_ok_def null_ptr_def canon_arena_max_size_def canon_gb_def wit_store_def)

lemma wit_pool_init:
  "pool_init True (Some wit_pool) (Some 0) 20 4 wit_store =
    ret (True, Some \<lparr>pool_arena = Some 0, pool_size = 32, pool_cap = 4, pool_count = 0, pool_base = 8, pool_end = 136\<rparr>,
      wit_store(0 \<mapsto> wit_arena\<lparr>arena_offset := 136\<rparr>))"
  by (simp add: pool_init_def wit_pool_def wit_store_def wit_arena_def mem_align_def canon_default_align_def
      canon_usize_max_def align_up_def is_power_of_two_def arena_load_def arena_remaining_def arena_alloc_def
      ptr_offset_def ptr_align_padding_def align_padding_def null_ptr_def Let_def isize_val_def canon_isize_min_def
      canon_isize_max_def arena_mark_def)

lemma wit_pool_init_fails:
  "pool_init True (Some wit_pool) (Some 0) 20 4 [0 \<mapsto> wit_arena\<lparr>arena_offset := 124\<rparr>] =
    ret (False, Some \<lparr>pool_arena = Some 0, pool_size = 32, pool_cap = 4, pool_count = 0, pool_base = 0, pool_end = 0\<rparr>,
      [0 \<mapsto> wit_arena\<lparr>arena_offset := 124\<rparr>])"
  by (simp add: pool_init_def wit_pool_def wit_store_def wit_arena_def mem_align_def canon_default_align_def
      canon_usize_max_def align_up_def is_power_of_two_def arena_load_def arena_remaining_def arena_alloc_def
      ptr_offset_def ptr_align_padding_def align_padding_def null_ptr_def Let_def isize_val_def canon_isize_min_def
      canon_isize_max_def arena_mark_def)

text \<open>C21: After a successful \<open>pool_init\<close> every sequence of \<open>pool_alloc\<close> calls returns: as many slots as
  were asked for up to the capacity, pairwise disjoint, aligned, large enough, inside what the arena
  had free before and disjoint from what the arena can still hand out.\<close>

theorem pool_slots_disjoint:
  assumes "arena_ok (Some a)" "arena_cap a \<le> canon_arena_max_size" "st r = Some a"
    "0 < object_size" "0 < max_objects"
    "pool_init builtin (Some pl) (Some r) object_size max_objects st = ret (True, p, st')"
  shows "\<exists>bs q. serve (\<lambda>p x. pool_alloc st' p) (\<lambda>p x. unat (pool_object_size p)) p (replicate n ()) = ret (bs, q) \<and>
    pool_ok st' q \<and> length bs = n \<and> sorted_wrt (\<lambda>b c. block_span b \<inter> block_span c = {}) bs \<and>
    (\<forall>i < n. fst (bs ! i) \<noteq> null_ptr \<longleftrightarrow> i < unat max_objects) \<and>
    (\<forall>b \<in> set bs. block_span b \<subseteq> arena_free (Some a) - arena_free (st' r) \<and>
       16 dvd unat (fst b) \<and> unat object_size \<le> snd b)"
proof -
  note init = pool_init_value [OF assms]
  then have ok: "pool_ok st' p" by simp
  then obtain pl' r' a' where pl': "p = Some pl'" "pool_arena pl' = Some r'" "st' r' = Some a'"
    "16 dvd unat (arena_buffer a') + unat (pool_base pl')" by (elim pool_ok_obtain) auto
  note ok' = ok [unfolded pl'(1)]
  obtain bs q where bs: "serve (\<lambda>p x. pool_alloc st' p) (\<lambda>p x. unat (pool_object_size p)) p (replicate n ()) = ret (bs, q)"
    "pool_ok st' q" "length bs = n" "sorted_wrt (\<lambda>b c. block_span b \<inter> block_span c = {}) bs"
    "\<forall>b \<in> set bs. block_span b \<subseteq> pool_free st' p - pool_free st' q"
    using pl.serve_disjoint [OF ok, of "replicate n ()"] by auto
  have val: "bs = map (pool_answer st' pl') [0..<n]"
    using bs(1) pool_serve [OF ok', of "replicate n ()"] init pl'(1) by (simp add: pool_used_def)
  have "16 dvd unat (pool_slot st' pl' i)" if "i < unat (pool_cap pl')" for i
    using pool_slot_value(1) [OF ok' pl'(2,3), of i] pl'(4) init pl'(1) that by (simp add: pool_object_size_def)
  moreover have "pool_slot st' pl' i \<noteq> null_ptr" if "i < unat (pool_cap pl')" for i
    using pool_slot_value(4) [OF ok' pl'(2,3), of i] that by simp
  ultimately have "\<forall>i < n. fst (bs ! i) \<noteq> null_ptr \<longleftrightarrow> i < unat max_objects"
    "\<forall>b \<in> set bs. 16 dvd unat (fst b) \<and> unat object_size \<le> snd b"
    using init pl'(1) by (auto simp: val pool_answer_def pool_capacity_def pool_object_size_def word_le_nat_alt null_ptr_def)
  moreover have "\<forall>b \<in> set bs. block_span b \<subseteq> arena_free (Some a) - arena_free (st' r)"
    using bs(5) init by blast
  ultimately show ?thesis using bs(1-4) by blast
qed

theorem pool_slots_disjoint_witness:
  "\<exists>p st' bs q. pool_init True (Some wit_pool) (Some 0) 20 4 wit_store = ret (True, p, st') \<and>
    serve (\<lambda>p x. pool_alloc st' p) (\<lambda>p x. unat (pool_object_size p)) p (replicate 6 ()) = ret (bs, q) \<and>
    length bs = 6 \<and> sorted_wrt (\<lambda>b c. block_span b \<inter> block_span c = {}) bs \<and> fst (bs ! 3) \<noteq> null_ptr \<and>
    fst (bs ! 4) = null_ptr"
proof -
  have "0 < (20 :: usize)" "0 < (4 :: usize)" by simp_all
  from pool_slots_disjoint [OF wit_arena_ok this wit_pool_init, of 6] obtain bs q where
    bs: "serve (\<lambda>p x. pool_alloc (wit_store(0 \<mapsto> wit_arena\<lparr>arena_offset := 136\<rparr>)) p)
      (\<lambda>p x. unat (pool_object_size p))
      (Some \<lparr>pool_arena = Some 0, pool_size = 32, pool_cap = 4, pool_count = 0, pool_base = 8, pool_end = 136\<rparr>)
      (replicate 6 ()) = ret (bs, q)" "length bs = 6" "sorted_wrt (\<lambda>b c. block_span b \<inter> block_span c = {}) bs"
    "\<forall>i < 6. fst (bs ! i) \<noteq> null_ptr \<longleftrightarrow> i < unat (4 :: usize)" by blast
  have "fst (bs ! 3) \<noteq> null_ptr \<and> fst (bs ! 4) = null_ptr"
    using bs(4) [rule_format, of 3] bs(4) [rule_format, of 4] by simp
  with bs wit_pool_init show ?thesis by blast
qed

text \<open>\<open>pool_get\<close> returns for each index the address that the allocation with that index returned.\<close>

theorem pool_get_round_trip:
  assumes "pool_ok st p" "pool_used p = 0"
  shows "\<exists>bs q. serve (\<lambda>p x. pool_alloc st p) (\<lambda>p x. unat (pool_object_size p)) p (replicate n ()) = ret (bs, q) \<and>
    length bs = n \<and> (\<forall>i < n. i < 2 ^ 64 \<longrightarrow> pool_get st q (of_nat i) = ret (fst (bs ! i)))"
proof -
  obtain pl where pl: "p = Some pl" using assms(1) by (elim pool_ok_obtain) auto
  note ok = assms(1) [unfolded pl]
  let ?q = "pl\<lparr>pool_count := of_nat (min (unat (pool_cap pl)) n)\<rparr>"
  have cnt: "unat (of_nat (min (unat (pool_cap pl)) n) :: usize) = min (unat (pool_cap pl)) n"
    using usize_bound [of "pool_cap pl"] by (simp add: unat_of_nat take_bit_nat_eq_self)
  have "pool_ok st (Some ?q)" by (rule pool_ok_count [OF ok]) (simp add: word_le_nat_alt cnt)
  moreover have "unat (of_nat i :: usize) = i" if "i < 2 ^ 64" for i
    using that by (simp add: unat_of_nat take_bit_nat_eq_self)
  ultimately have "pool_get st (Some ?q) (of_nat i) = ret (fst (pool_answer st pl i))" if "i < 2 ^ 64" "i < n" for i
    using that by (simp add: pool_get_value word_less_nat_alt cnt pool_answer_def)
  moreover have "serve (\<lambda>p x. pool_alloc st p) (\<lambda>p x. unat (pool_object_size p)) p (replicate n ()) =
      ret (map (pool_answer st pl) [0..<n], Some ?q)"
    using pool_serve [OF ok, of "replicate n ()"] assms(2) pl by (simp add: pool_used_def)
  ultimately show ?thesis by simp
qed

theorem pool_get_round_trip_witness:
  "\<exists>p st' bs q. pool_init True (Some wit_pool) (Some 0) 20 4 wit_store = ret (True, p, st') \<and>
    serve (\<lambda>p x. pool_alloc st' p) (\<lambda>p x. unat (pool_object_size p)) p (replicate 3 ()) = ret (bs, q) \<and>
    pool_get st' q 2 = ret (fst (bs ! 2))"
proof -
  have "0 < (20 :: usize)" "0 < (4 :: usize)" by simp_all
  note init = pool_init_value [OF wit_arena_ok this wit_pool_init]
  have two: "of_nat 2 = (2 :: usize)" by simp
  from pool_get_round_trip [of _ _ 3, OF init [THEN conjunct1] init [THEN conjunct2, THEN conjunct1]] obtain bs q where
    "serve (\<lambda>p x. pool_alloc (wit_store(0 \<mapsto> wit_arena\<lparr>arena_offset := 136\<rparr>)) p) (\<lambda>p x. unat (pool_object_size p))
      (Some \<lparr>pool_arena = Some 0, pool_size = 32, pool_cap = 4, pool_count = 0, pool_base = 8, pool_end = 136\<rparr>)
      (replicate 3 ()) = ret (bs, q)"
    "\<forall>i < 3. i < 2 ^ 64 \<longrightarrow> pool_get (wit_store(0 \<mapsto> wit_arena\<lparr>arena_offset := 136\<rparr>)) q (of_nat i) = ret (fst (bs ! i))"
    by blast
  moreover from this(2) [rule_format, of 2] two
  have "pool_get (wit_store(0 \<mapsto> wit_arena\<lparr>arena_offset := 136\<rparr>)) q 2 = ret (fst (bs ! 2))" by simp
  ultimately show ?thesis using wit_pool_init by blast
qed

text \<open>A failing \<open>pool_init\<close> leaves the arena as it was. It leaves the pool as it was too, unless the
  region would fit without its alignment padding: then the first four fields are overwritten.\<close>

theorem pool_init_failure:
  assumes "arena_ok (Some a)" "arena_cap a \<le> canon_arena_max_size" "st r = Some a"
    "0 < object_size" "0 < max_objects"
    "pool_init builtin (Some pl) (Some r) object_size max_objects st = ret (False, p, st')"
  shows "st' = st \<and> (\<exists>m. mem_align object_size = ret m \<and>
    (p = Some pl \<or>
     p = Some (pl\<lparr>pool_arena := Some r, pool_size := m, pool_cap := max_objects, pool_count := 0\<rparr>) \<and>
       unat (arena_offset a) + unat m * unat max_objects \<le> unat (arena_cap a) \<and>
       unat (arena_cap a) < unat (arena_offset a) + 15 + unat m * unat max_objects))"
proof -
  obtain m where m: "mem_align object_size = ret m" using mem_align_ret by blast
  from pool_init_cases [where st = st and r = r and builtin = builtin and pl = pl, OF assms(1-5) m]
  show ?thesis
  proof cases
    case 1
    with assms(6) m show ?thesis by simp
  next
    case 2
    with assms(6) m show ?thesis by (simp add: pool_touched_def)
  qed (use assms(6) in simp_all)
qed

theorem pool_init_failure_witness:
  "\<exists>p st'. pool_init True (Some wit_pool) (Some 0) 20 4 [0 \<mapsto> wit_arena\<lparr>arena_offset := 124\<rparr>] = ret (False, p, st') \<and>
    st' = [0 \<mapsto> wit_arena\<lparr>arena_offset := 124\<rparr>] \<and> p \<noteq> Some wit_pool"
proof -
  have "arena_ok (Some (wit_arena\<lparr>arena_offset := 124\<rparr>))"
    "arena_cap (wit_arena\<lparr>arena_offset := 124\<rparr>) \<le> canon_arena_max_size"
    by (simp_all add: wit_arena_def arena_ok_def null_ptr_def canon_arena_max_size_def canon_gb_def)
  from pool_init_failure [OF this _ _ _ wit_pool_init_fails] wit_pool_init_fails show ?thesis
    by (simp add: wit_pool_def)
qed

text \<open>\<open>pool_reset_secure\<close> zeroes the bytes of all slots handed out and nothing else, empties the pool,
  keeps its invariant and its region, and moves the arena's offset to the end of the region.\<close>

theorem pool_reset_secure_correct:
  assumes "pool_ok st (Some pl)" "pool_arena pl = Some r" "st r = Some a" "arena_backed h (Some a)"
  shows "\<exists>h' st' pad. pool_reset_secure h (Some pl) st = ret (h', Some (pl\<lparr>pool_count := 0\<rparr>), st') \<and>
    st' = st(r \<mapsto> a\<lparr>arena_offset := pool_end pl, arena_padding := pad\<rparr>) \<and>
    pool_ok st' (Some (pl\<lparr>pool_count := 0\<rparr>)) \<and>
    (\<forall>q. h' q = (if q \<in> span (pool_slot st pl 0) (unat (pool_count pl) * unat (pool_size pl)) then Some 0 else h q))"
proof -
  obtain pad where reset: "pool_reset (Some pl) st = ret (Some (pl\<lparr>pool_count := 0\<rparr>),
      st(r \<mapsto> a\<lparr>arena_offset := pool_end pl, arena_padding := pad\<rparr>))"
    using pool_reset_value [OF assms(1-3)] by blast
  note ok = pool_reset_ok [OF assms(1-3), of pad]
  show ?thesis
  proof (cases "pool_count pl = 0")
    case True
    with reset ok assms(2) show ?thesis by (auto simp: pool_reset_secure_def)
  next
    case False
    let ?n = "pool_size pl * pool_count pl" and ?q = "pool_slot st pl 0"
    from assms have p: "pool_count pl \<le> pool_cap pl" "0 < unat (pool_cap pl)"
      "unat (pool_end pl) = unat (pool_base pl) + unat (pool_cap pl) * unat (pool_size pl)"
      "unat (pool_end pl) \<le> unat (arena_cap a)"
      by (auto elim!: pool_ok_obtain simp: word_le_nat_alt)
    have "unat (pool_count pl) * unat (pool_size pl) \<le> unat (pool_cap pl) * unat (pool_size pl)"
      using p(1) by (simp add: word_le_nat_alt mult_right_mono)
    moreover have "unat (pool_cap pl) * unat (pool_size pl) < 2 ^ 64"
      using p(3) usize_bound [of "pool_end pl"] by linarith
    ultimately have "unat (pool_count pl) * unat (pool_size pl) < 2 ^ 64"
      "unat (pool_count pl) * unat (pool_size pl) \<le> unat (pool_cap pl) * unat (pool_size pl)" by linarith+
    then have n: "unat ?n = unat (pool_count pl) * unat (pool_size pl)"
      "unat ?n \<le> unat (pool_cap pl) * unat (pool_size pl)"
      by (simp_all add: unat_word_ariths mult.commute)
    note v = pool_slot_value [OF assms(1-3), of 0]
    have "unat ?q + unat ?n \<le> unat (arena_buffer a) + unat (pool_end pl)"
      using v(1) n p(3) by simp
    then have fits: "fits ?q (unat ?n)" and "span ?q (unat ?n) \<subseteq> span (arena_buffer a) (unat (arena_cap a))"
      using v(1,3) p(4) unfolding fits_def span_def by auto
    then have "backed h ?q (unat ?n)" using assms(4) by (auto simp: arena_backed_def backed_def)
    from mem_zero_backed [OF v(4) fits this] obtain h' where h': "mem_zero h ?q ?n = ret h'"
      "\<forall>x. h' x = (if x \<in> span ?q (unat ?n) then Some 0 else h x)" by auto
    have "0 < pool_cap pl" using p(2) by (simp add: word_gt_0 unat_gt_0)
    from pool_address(1) [OF assms(1-3) this]
    have "ptr_offset (arena_buffer a) (pool_base pl) = ret ?q"
      using assms(2,3) by (simp add: pool_slot_def)
    with False assms(2,3) h' reset ok n(1) show ?thesis
      by (auto simp: pool_reset_secure_def arena_load_def mem_secure_zero_eq [OF fits])
  qed
qed

theorem pool_reset_secure_correct_witness:
  "\<exists>p pl st' h' st''. pool_init True (Some wit_pool) (Some 0) 20 4 wit_store = ret (True, Some p, st') \<and>
    pool_alloc st' (Some p) = ret (4112, Some pl) \<and>
    pool_reset_secure (\<lambda>q. Some 7) (Some pl) st' = ret (h', Some (pl\<lparr>pool_count := 0\<rparr>), st'') \<and>
    h' 4112 = Some 0 \<and> h' 4144 = Some 7"
proof -
  let ?st = "wit_store(0 \<mapsto> wit_arena\<lparr>arena_offset := 136\<rparr>)"
  let ?p = "\<lparr>pool_arena = Some 0, pool_size = 32, pool_cap = 4, pool_count = 0, pool_base = 8, pool_end = 136\<rparr>"
  have "0 < (20 :: usize)" "0 < (4 :: usize)" by simp_all
  then have ok: "pool_ok ?st (Some ?p)"
    using pool_init_value [OF wit_arena_ok _ _ wit_pool_init] by blast
  then have ok1: "pool_ok ?st (Some (?p\<lparr>pool_count := 1\<rparr>))" by (intro pool_ok_count) simp_all
  have slot: "pool_slot ?st ?p 0 = 4112" by (simp add: pool_slot_def wit_arena_def)
  have "pool_alloc ?st (Some ?p) = ret (4112, Some (?p\<lparr>pool_count := 1\<rparr>))"
    using pool_alloc_value [OF ok] slot by simp
  moreover have "arena_backed (\<lambda>q. Some 7) (Some (wit_arena\<lparr>arena_offset := 136\<rparr>))"
    by (simp add: arena_backed_def backed_def)
  then obtain h' st'' where
    "pool_reset_secure (\<lambda>q. Some 7) (Some (?p\<lparr>pool_count := 1\<rparr>)) ?st =
      ret (h', Some (?p\<lparr>pool_count := 1, pool_count := 0\<rparr>), st'')"
    "\<forall>q. h' q = (if q \<in> span 4112 32 then Some 0 else Some 7)"
    using pool_reset_secure_correct [OF ok1, of 0 "wit_arena\<lparr>arena_offset := 136\<rparr>" "\<lambda>q. Some 7"] slot
    by (auto simp: pool_slot_def)
  ultimately show ?thesis using wit_pool_init by (auto simp: span_def)
qed

end
