(* ===== verification/Canon_Interfaces.thy ===== *)
theory Canon_Interfaces
  imports Canon_Prelude Canon_Semantics
begin

section \<open>The contracts of the bounded containers\<close>

text \<open>
  The queue, the double-ended queue and the stack of data/ share one shape: an operation
  takes a pointer to the container and returns a \<open>Result\<close> with the container after it. The
  locales state what a client may rely on, over the operations, the invariant, the list of
  the contents and the capacity; the clients' theorems (refinement of an abstract bounded
  list machine for any sequence of operations, and round trips) are proved in them once.
  Canon_Deque, Canon_Queue and Canon_Vec interpret them on the models of the code.
\<close>

subsection \<open>The abstract bounded machines\<close>

datatype 'a op = Put 'a | Take

text \<open>What an operation answers: whether it succeeded, the error, and the element taken.\<close>

datatype 'a answer = Done | Taken 'a | Failed error

text \<open>A bounded queue of capacity \<open>n\<close> and a bounded stack of capacity \<open>n\<close>, on lists.\<close>

fun fifo_step :: "nat \<Rightarrow> 'a list \<Rightarrow> 'a op \<Rightarrow> 'a answer \<times> 'a list" where
  "fifo_step n xs (Put x) =
     (if length xs < n then (Done, xs @ [x]) else (Failed ERR_CAPACITY_EXCEEDED, xs))"
| "fifo_step n [] Take = (Failed ERR_INVALID_STATE, [])"
| "fifo_step n (x # xs) Take = (Taken x, xs)"

fun lifo_step :: "nat \<Rightarrow> 'a list \<Rightarrow> 'a op \<Rightarrow> 'a answer \<times> 'a list" where
  "lifo_step n xs (Put x) =
     (if length xs < n then (Done, x # xs) else (Failed ERR_CAPACITY_EXCEEDED, xs))"
| "lifo_step n [] Take = (Failed ERR_INVALID_STATE, [])"
| "lifo_step n (x # xs) Take = (Taken x, xs)"

fun run_ops :: "('s \<Rightarrow> 'a op \<Rightarrow> 'a answer \<times> 's) \<Rightarrow> 's \<Rightarrow> 'a op list \<Rightarrow> 'a answer list \<times> 's" where
  "run_ops step s [] = ([], s)"
| "run_ops step s (c # cs) =
     (let (a, s') = step s c; (rest, t) = run_ops step s' cs in (a # rest, t))"

text \<open>
  A client of the code: \<open>put\<close> with an element, or \<open>take\<close> through an out pointer that points
  to \<open>slot\<close>. The run ends with a fault if an operation does.
\<close>

type_synonym ('s, 'a) put_fn = "'s \<Rightarrow> 'a \<Rightarrow> (bool_result \<times> 's) run"
type_synonym ('s, 'a) take_fn = "'s \<Rightarrow> 'a cptr \<Rightarrow> (bool_result \<times> 's \<times> 'a cptr) run"

fun code_step :: "('s, 'a) put_fn \<Rightarrow> ('s, 'a) take_fn \<Rightarrow> 'a \<Rightarrow> 's \<Rightarrow> 'a op \<Rightarrow> ('a answer \<times> 's) run" where
  "code_step put take_out slot s (Put x) =
     bindR (put s x) (\<lambda>(r, s'). ret (case r of Ok b \<Rightarrow> Done | Err e \<Rightarrow> Failed e, s'))"
| "code_step put take_out slot s Take =
     bindR (take_out s (Some slot)) (\<lambda>(r, s', out).
       case r of
         Ok b \<Rightarrow> bindR (deref out) (\<lambda>x. ret (Taken x, s'))
       | Err e \<Rightarrow> ret (Failed e, s'))"

fun code_run ::
  "('s, 'a) put_fn \<Rightarrow> ('s, 'a) take_fn \<Rightarrow> 'a \<Rightarrow> 's \<Rightarrow> 'a op list \<Rightarrow> ('a answer list \<times> 's) run" where
  "code_run put take_out slot s [] = ret ([], s)"
| "code_run put take_out slot s (c # cs) =
     bindR (code_step put take_out slot s c) (\<lambda>(a, s').
     bindR (code_run put take_out slot s' cs) (\<lambda>(rest, t). ret (a # rest, t)))"

subsection \<open>A bounded container with one way in and one way out\<close>

text \<open>
  \<open>machine\<close> is the abstract step on the list of the contents; the laws say that \<open>put\<close> and
  \<open>take_out\<close> answer what it answers, keep the invariant and the capacity, and never fault.
\<close>

locale bounded_container =
  fixes inv :: "'s \<Rightarrow> bool"
    and contents :: "'s \<Rightarrow> 'a list"
    and cap :: "'s \<Rightarrow> nat"
    and put :: "('s, 'a) put_fn"
    and take_out :: "('s, 'a) take_fn"
    and machine :: "nat \<Rightarrow> 'a list \<Rightarrow> 'a op \<Rightarrow> 'a answer \<times> 'a list"
  assumes step_ok:
    "inv s \<Longrightarrow> \<exists>s'. code_step put take_out slot s c =
       ret (fst (machine (cap s) (contents s) c), s') \<and> inv s' \<and> cap s' = cap s \<and>
       contents s' = snd (machine (cap s) (contents s) c)"
begin

lemma run_refines:
  "inv s \<Longrightarrow> \<exists>s'. code_run put take_out slot s cs =
     ret (fst (run_ops (machine (cap s)) (contents s) cs), s') \<and> inv s' \<and> cap s' = cap s \<and>
     contents s' = snd (run_ops (machine (cap s)) (contents s) cs)"
proof (induction cs arbitrary: s)
  case Nil
  then show ?case by simp
next
  case (Cons c cs)
  obtain s' where s': "code_step put take_out slot s c =
      ret (fst (machine (cap s) (contents s) c), s')" "inv s'" "cap s' = cap s"
      "contents s' = snd (machine (cap s) (contents s) c)"
    using step_ok [OF Cons.prems] by blast
  obtain t where "code_run put take_out slot s' cs =
      ret (fst (run_ops (machine (cap s')) (contents s') cs), t)" "inv t" "cap t = cap s'"
      "contents t = snd (run_ops (machine (cap s')) (contents s') cs)"
    using Cons.IH [OF s'(2)] by blast
  with s' show ?case by (auto simp: split_beta Let_def)
qed

lemma run_returns: "inv s \<Longrightarrow> returns (code_run put take_out slot s cs)"
  using run_refines [of s slot cs] by auto

end

subsection \<open>First in, first out\<close>

locale bounded_fifo = bounded_container inv contents cap put take_out fifo_step
  for inv :: "'s \<Rightarrow> bool" and contents :: "'s \<Rightarrow> 'a list" and cap :: "'s \<Rightarrow> nat"
    and put :: "('s, 'a) put_fn" and take_out :: "('s, 'a) take_fn"
begin

lemma put_then_take_machine:
  "length ys + length xs \<le> n \<Longrightarrow>
   run_ops (fifo_step n) ys (map Put xs) = (map (\<lambda>_. Done) xs, ys @ xs)"
  by (induction xs arbitrary: ys) auto

lemma take_machine: "run_ops (fifo_step n) xs (map (\<lambda>_. Take) xs) = (map Taken xs, [])"
  by (induction xs) auto

text \<open>What was put into an empty queue comes out in the same order.\<close>

lemma fifo_round_trip:
  assumes "inv s" "contents s = []" "length xs \<le> cap s"
  shows "\<exists>s' t. code_run put take_out slot s (map Put xs) = ret (map (\<lambda>_. Done) xs, s') \<and>
    code_run put take_out slot s' (map (\<lambda>_. Take) xs) = ret (map Taken xs, t) \<and> contents t = []"
proof -
  have put: "run_ops (fifo_step (cap s)) (contents s) (map Put xs) = (map (\<lambda>_. Done) xs, xs)"
    using assms(2,3) put_then_take_machine [of "[]" xs "cap s"] by simp
  then obtain s' where s': "code_run put take_out slot s (map Put xs) = ret (map (\<lambda>_. Done) xs, s')"
    "inv s'" "contents s' = xs"
    using run_refines [OF assms(1), of slot "map Put xs"] by auto
  then show ?thesis
    using run_refines [OF s'(2), of slot "map (\<lambda>_. Take) xs"] take_machine [of "cap s'" xs] by auto
qed

end

subsection \<open>Last in, first out\<close>

locale bounded_lifo = bounded_container inv contents cap put take_out lifo_step
  for inv :: "'s \<Rightarrow> bool" and contents :: "'s \<Rightarrow> 'a list" and cap :: "'s \<Rightarrow> nat"
    and put :: "('s, 'a) put_fn" and take_out :: "('s, 'a) take_fn"
begin

lemma put_machine:
  "length ys + length xs \<le> n \<Longrightarrow>
   run_ops (lifo_step n) ys (map Put xs) = (map (\<lambda>_. Done) xs, rev xs @ ys)"
  by (induction xs arbitrary: ys) auto

lemma take_machine: "run_ops (lifo_step n) xs (map (\<lambda>_. Take) xs) = (map Taken xs, [])"
  by (induction xs) auto

text \<open>What was pushed comes out in the opposite order.\<close>

lemma lifo_round_trip:
  assumes "inv s" "contents s = []" "length xs \<le> cap s"
  shows "\<exists>s' t. code_run put take_out slot s (map Put xs) = ret (map (\<lambda>_. Done) xs, s') \<and>
    code_run put take_out slot s' (map (\<lambda>_. Take) xs) = ret (map Taken (rev xs), t) \<and> contents t = []"
proof -
  have put: "run_ops (lifo_step (cap s)) (contents s) (map Put xs) = (map (\<lambda>_. Done) xs, rev xs)"
    using assms(2,3) put_machine [of "[]" xs "cap s"] by simp
  then obtain s' where s': "code_run put take_out slot s (map Put xs) = ret (map (\<lambda>_. Done) xs, s')"
    "inv s'" "contents s' = rev xs"
    using run_refines [OF assms(1), of slot "map Put xs"] by auto
  have eq: "map (\<lambda>_. Take) (rev xs) = map (\<lambda>_. Take) xs" by (simp add: map_replicate_const)
  have "run_ops (lifo_step (cap s')) (rev xs) (map (\<lambda>_. Take) xs) = (map Taken (rev xs), [])"
    by (simp only: eq [symmetric] take_machine)
  with s' show ?thesis
    using run_refines [OF s'(2), of slot "map (\<lambda>_. Take) xs"] by auto
qed

end

subsection \<open>A double-ended queue\<close>

text \<open>
  Four operations on the two ends. Each end with itself is a stack, each with the other a
  queue: the sublocales give the theorems above for the four pairs.
\<close>

locale bounded_deque =
  fixes inv :: "'s \<Rightarrow> bool"
    and contents :: "'s \<Rightarrow> 'a list"
    and cap :: "'s \<Rightarrow> nat"
    and push_front push_back :: "('s, 'a) put_fn"
    and pop_front pop_back :: "('s, 'a) take_fn"
  assumes push_back_room: "inv s \<Longrightarrow> length (contents s) < cap s \<Longrightarrow>
      \<exists>s'. push_back s x = ret (Ok True, s') \<and> inv s' \<and> cap s' = cap s \<and> contents s' = contents s @ [x]"
    and push_front_room: "inv s \<Longrightarrow> length (contents s) < cap s \<Longrightarrow>
      \<exists>s'. push_front s x = ret (Ok True, s') \<and> inv s' \<and> cap s' = cap s \<and> contents s' = x # contents s"
    and push_full: "inv s \<Longrightarrow> \<not> length (contents s) < cap s \<Longrightarrow>
      push_back s x = ret (Err ERR_CAPACITY_EXCEEDED, s) \<and>
      push_front s x = ret (Err ERR_CAPACITY_EXCEEDED, s)"
    and pop_front_some: "inv s \<Longrightarrow> contents s = y # ys \<Longrightarrow>
      \<exists>s'. pop_front s (Some v) = ret (Ok True, s', Some y) \<and> inv s' \<and> cap s' = cap s \<and> contents s' = ys"
    and pop_back_some: "inv s \<Longrightarrow> contents s = ys @ [y] \<Longrightarrow>
      \<exists>s'. pop_back s (Some v) = ret (Ok True, s', Some y) \<and> inv s' \<and> cap s' = cap s \<and> contents s' = ys"
    and pop_empty: "inv s \<Longrightarrow> contents s = [] \<Longrightarrow>
      pop_front s (Some v) = ret (Err ERR_INVALID_STATE, s, Some v) \<and>
      pop_back s (Some v) = ret (Err ERR_INVALID_STATE, s, Some v)"

sublocale bounded_deque \<subseteq> forward: bounded_fifo inv contents cap push_back pop_front
proof
  fix s slot c
  assume s: "inv s"
  show "\<exists>s'. code_step push_back pop_front slot s c =
    ret (fst (fifo_step (cap s) (contents s) c), s') \<and> inv s' \<and> cap s' = cap s \<and>
    contents s' = snd (fifo_step (cap s) (contents s) c)"
  proof (cases c)
    case (Put x)
    with s push_back_room [OF s, of x] push_full [OF s, of x] show ?thesis
      by (cases "length (contents s) < cap s") auto
  next
    case Take
    show ?thesis
    proof (cases "contents s")
      case Nil
      with s Take pop_empty [OF s Nil, of slot] show ?thesis by simp
    next
      case (Cons y ys)
      with Take pop_front_some [OF s Cons, of slot] show ?thesis by auto
    qed
  qed
qed

sublocale bounded_deque \<subseteq> backward: bounded_fifo inv "\<lambda>s. rev (contents s)" cap push_front pop_back
proof
  fix s slot c
  assume s: "inv s"
  show "\<exists>s'. code_step push_front pop_back slot s c =
    ret (fst (fifo_step (cap s) (rev (contents s)) c), s') \<and> inv s' \<and> cap s' = cap s \<and>
    rev (contents s') = snd (fifo_step (cap s) (rev (contents s)) c)"
  proof (cases c)
    case (Put x)
    with s push_front_room [OF s, of x] push_full [OF s, of x] show ?thesis
      by (cases "length (contents s) < cap s") auto
  next
    case Take
    show ?thesis
    proof (cases "contents s" rule: rev_cases)
      case Nil
      with s Take pop_empty [OF s Nil, of slot] show ?thesis by simp
    next
      case (snoc ys y)
      with Take pop_back_some [OF s snoc, of slot] show ?thesis by auto
    qed
  qed
qed

sublocale bounded_deque \<subseteq> top_end: bounded_lifo inv "\<lambda>s. rev (contents s)" cap push_back pop_back
proof
  fix s slot c
  assume s: "inv s"
  show "\<exists>s'. code_step push_back pop_back slot s c =
    ret (fst (lifo_step (cap s) (rev (contents s)) c), s') \<and> inv s' \<and> cap s' = cap s \<and>
    rev (contents s') = snd (lifo_step (cap s) (rev (contents s)) c)"
  proof (cases c)
    case (Put x)
    with s push_back_room [OF s, of x] push_full [OF s, of x] show ?thesis
      by (cases "length (contents s) < cap s") auto
  next
    case Take
    show ?thesis
    proof (cases "contents s" rule: rev_cases)
      case Nil
      with s Take pop_empty [OF s Nil, of slot] show ?thesis by simp
    next
      case (snoc ys y)
      with Take pop_back_some [OF s snoc, of slot] show ?thesis by auto
    qed
  qed
qed

end
