(* ===== verification/Canon_Deque.thy ===== *)
theory Canon_Deque
  imports Canon_Interfaces
begin

section \<open>The double-ended queue (data/deque/deque_impl.h)\<close>

text \<open>
  The bounded ring buffer over a buffer that the caller owns. A deque is its struct; the
  object behind \<open>d\<close> is \<open>Some\<close> of it, NULL is \<open>None\<close>, and \<open>buffer\<close> is the caller's array, or
  NULL. Every operation of the \<open>IMPL_DEQUE_*\<close> macros is a definition, in their order; a
  function that writes through \<open>d\<close> or \<open>out\<close> returns them. \<open>sizeof(type)\<close> and the element
  \<open>{0}\<close> are arguments. \<open>ring\<close> reads the live window of the buffer; \<open>deque_ok\<close> is the
  representation invariant, and \<open>deque_list\<close> the list of the elements from front to back.
  The lemmas of each operation compute it on a well-formed deque, and the deque is an
  instance of \<open>bounded_deque\<close>.
\<close>

subsection \<open>The struct and its operations\<close>

record 'a deque =
  dq_buffer :: "'a list cptr"
  dq_capacity :: usize
  dq_head :: usize
  dq_tail :: usize
  dq_size :: usize

definition canon_deque_max_capacity :: usize where
  "canon_deque_max_capacity = canon_vec_max_capacity"

definition deque_init :: "usize \<Rightarrow> 'a deque cptr \<Rightarrow> 'a list cptr \<Rightarrow> usize \<Rightarrow> 'a deque cptr run" where
  "deque_init esz p buffer capacity =
     require_msg (p \<noteq> None) ''d cannot be NULL''
     (require_msg (buffer \<noteq> None) ''buffer cannot be NULL''
     (require_msg (capacity > 0) ''capacity must be > 0''
     (bindR (div_usize canon_deque_max_capacity esz) (\<lambda>max_count.
      require_msg (capacity \<le> max_count) ''capacity exceeds CANON_DEQUE_MAX_CAPACITY''
      (bindR (deref p) (\<lambda>d.
         ret (Some (d\<lparr>dq_buffer := buffer, dq_capacity := capacity, dq_head := 0,
                      dq_tail := 0, dq_size := 0\<rparr>))))))))"

definition deque_empty :: "'a deque" where
  "deque_empty = \<lparr>dq_buffer = None, dq_capacity = 0, dq_head = 0, dq_tail = 0, dq_size = 0\<rparr>"

definition deque_len :: "'a deque cptr \<Rightarrow> usize" where
  "deque_len p = (case p of Some d \<Rightarrow> dq_size d | None \<Rightarrow> 0)"

definition deque_capacity :: "'a deque cptr \<Rightarrow> usize" where
  "deque_capacity p = (case p of Some d \<Rightarrow> dq_capacity d | None \<Rightarrow> 0)"

definition deque_remaining :: "'a deque cptr \<Rightarrow> usize" where
  "deque_remaining p = (case p of Some d \<Rightarrow> dq_capacity d - dq_size d | None \<Rightarrow> 0)"

definition deque_is_empty :: "'a deque cptr \<Rightarrow> bool" where
  "deque_is_empty p = (case p of None \<Rightarrow> True | Some d \<Rightarrow> dq_size d = 0)"

definition deque_is_full :: "'a deque cptr \<Rightarrow> bool" where
  "deque_is_full p = (case p of None \<Rightarrow> True | Some d \<Rightarrow> dq_size d \<ge> dq_capacity d)"

definition deque_push_front :: "'a deque cptr \<Rightarrow> 'a \<Rightarrow> (bool_result \<times> 'a deque cptr) run" where
  "deque_push_front p item = (case p of
     None \<Rightarrow> ret (Err ERR_INVALID_ARG, p)
   | Some d \<Rightarrow> (case dq_buffer d of
       None \<Rightarrow> ret (Err ERR_INVALID_ARG, p)
     | Some buf \<Rightarrow>
         if dq_size d \<ge> dq_capacity d then ret (Err ERR_CAPACITY_EXCEEDED, p)
         else let head = (if dq_head d = 0 then dq_capacity d - 1 else dq_head d - 1) in
           bindR (arr_set buf head item) (\<lambda>buf'.
             ret (Ok True, Some (d\<lparr>dq_head := head, dq_buffer := Some buf', dq_size := dq_size d + 1\<rparr>)))))"

definition deque_push_back :: "'a deque cptr \<Rightarrow> 'a \<Rightarrow> (bool_result \<times> 'a deque cptr) run" where
  "deque_push_back p item = (case p of
     None \<Rightarrow> ret (Err ERR_INVALID_ARG, p)
   | Some d \<Rightarrow> (case dq_buffer d of
       None \<Rightarrow> ret (Err ERR_INVALID_ARG, p)
     | Some buf \<Rightarrow>
         if dq_size d \<ge> dq_capacity d then ret (Err ERR_CAPACITY_EXCEEDED, p)
         else bindR (arr_set buf (dq_tail d) item) (\<lambda>buf'.
              bindR (mod_usize (dq_tail d + 1) (dq_capacity d)) (\<lambda>tail.
                ret (Ok True, Some (d\<lparr>dq_buffer := Some buf', dq_tail := tail, dq_size := dq_size d + 1\<rparr>))))))"

definition deque_try_push_front :: "'a deque cptr \<Rightarrow> 'a \<Rightarrow> (bool \<times> 'a deque cptr) run" where
  "deque_try_push_front p item = (case p of
     None \<Rightarrow> ret (False, p)
   | Some d \<Rightarrow> (case dq_buffer d of
       None \<Rightarrow> ret (False, p)
     | Some buf \<Rightarrow>
         if dq_size d \<ge> dq_capacity d then ret (False, p)
         else let head = (if dq_head d = 0 then dq_capacity d - 1 else dq_head d - 1) in
           bindR (arr_set buf head item) (\<lambda>buf'.
             ret (True, Some (d\<lparr>dq_head := head, dq_buffer := Some buf', dq_size := dq_size d + 1\<rparr>)))))"

definition deque_try_push_back :: "'a deque cptr \<Rightarrow> 'a \<Rightarrow> (bool \<times> 'a deque cptr) run" where
  "deque_try_push_back p item = (case p of
     None \<Rightarrow> ret (False, p)
   | Some d \<Rightarrow> (case dq_buffer d of
       None \<Rightarrow> ret (False, p)
     | Some buf \<Rightarrow>
         if dq_size d \<ge> dq_capacity d then ret (False, p)
         else bindR (arr_set buf (dq_tail d) item) (\<lambda>buf'.
              bindR (mod_usize (dq_tail d + 1) (dq_capacity d)) (\<lambda>tail.
                ret (True, Some (d\<lparr>dq_buffer := Some buf', dq_tail := tail, dq_size := dq_size d + 1\<rparr>))))))"

definition deque_push_front_unchecked :: "'a deque cptr \<Rightarrow> 'a \<Rightarrow> 'a deque cptr run" where
  "deque_push_front_unchecked p item =
     ensure_msg (p \<noteq> None) ''d cannot be NULL'' (bindR (deref p) (\<lambda>d.
     ensure_msg (dq_buffer d \<noteq> None) ''d->buffer cannot be NULL''
     (ensure_msg (dq_size d < dq_capacity d) ''deque is full''
     (let head = (if dq_head d = 0 then dq_capacity d - 1 else dq_head d - 1) in
      bindR (deref (dq_buffer d)) (\<lambda>buf.
      bindR (arr_set buf head item) (\<lambda>buf'.
        ret (Some (d\<lparr>dq_head := head, dq_buffer := Some buf', dq_size := dq_size d + 1\<rparr>))))))))"

definition deque_push_back_unchecked :: "'a deque cptr \<Rightarrow> 'a \<Rightarrow> 'a deque cptr run" where
  "deque_push_back_unchecked p item =
     ensure_msg (p \<noteq> None) ''d cannot be NULL'' (bindR (deref p) (\<lambda>d.
     ensure_msg (dq_buffer d \<noteq> None) ''d->buffer cannot be NULL''
     (ensure_msg (dq_size d < dq_capacity d) ''deque is full''
     (bindR (deref (dq_buffer d)) (\<lambda>buf.
      bindR (arr_set buf (dq_tail d) item) (\<lambda>buf'.
      bindR (mod_usize (dq_tail d + 1) (dq_capacity d)) (\<lambda>tail.
        ret (Some (d\<lparr>dq_buffer := Some buf', dq_tail := tail, dq_size := dq_size d + 1\<rparr>)))))))))"

definition deque_pop_front ::
  "'a deque cptr \<Rightarrow> 'a cptr \<Rightarrow> (bool_result \<times> 'a deque cptr \<times> 'a cptr) run" where
  "deque_pop_front p out = (case (p, out) of
     (Some d, Some old) \<Rightarrow> (case dq_buffer d of
       None \<Rightarrow> ret (Err ERR_INVALID_ARG, p, out)
     | Some buf \<Rightarrow>
         if dq_size d = 0 then ret (Err ERR_INVALID_STATE, p, out)
         else bindR (arr_get buf (dq_head d)) (\<lambda>item.
              bindR (mod_usize (dq_head d + 1) (dq_capacity d)) (\<lambda>head.
                ret (Ok True, Some (d\<lparr>dq_head := head, dq_size := dq_size d - 1\<rparr>), Some item))))
   | (p', out') \<Rightarrow> ret (Err ERR_INVALID_ARG, p, out))"

definition deque_pop_back ::
  "'a deque cptr \<Rightarrow> 'a cptr \<Rightarrow> (bool_result \<times> 'a deque cptr \<times> 'a cptr) run" where
  "deque_pop_back p out = (case (p, out) of
     (Some d, Some old) \<Rightarrow> (case dq_buffer d of
       None \<Rightarrow> ret (Err ERR_INVALID_ARG, p, out)
     | Some buf \<Rightarrow>
         if dq_size d = 0 then ret (Err ERR_INVALID_STATE, p, out)
         else let tail = (if dq_tail d = 0 then dq_capacity d - 1 else dq_tail d - 1) in
           bindR (arr_get buf tail) (\<lambda>item.
             ret (Ok True, Some (d\<lparr>dq_tail := tail, dq_size := dq_size d - 1\<rparr>), Some item)))
   | (p', out') \<Rightarrow> ret (Err ERR_INVALID_ARG, p, out))"

text \<open>The option forms call the pop with a local \<open>out = {0}\<close>.\<close>

definition deque_pop_front_option :: "'a \<Rightarrow> 'a deque cptr \<Rightarrow> ('a option \<times> 'a deque cptr) run" where
  "deque_pop_front_option zero p =
     bindR (deque_pop_front p (Some zero)) (\<lambda>(r, p', out).
       if result_is_ok r then bindR (deref out) (\<lambda>x. ret (option_some x, p'))
       else ret (option_none, p'))"

definition deque_pop_back_option :: "'a \<Rightarrow> 'a deque cptr \<Rightarrow> ('a option \<times> 'a deque cptr) run" where
  "deque_pop_back_option zero p =
     bindR (deque_pop_back p (Some zero)) (\<lambda>(r, p', out).
       if result_is_ok r then bindR (deref out) (\<lambda>x. ret (option_some x, p'))
       else ret (option_none, p'))"

definition deque_peek_front :: "'a deque cptr \<Rightarrow> 'a cptr \<Rightarrow> (bool \<times> 'a cptr) run" where
  "deque_peek_front p out =
     require_msg (p \<noteq> None) ''d cannot be NULL''
     (require_msg (out \<noteq> None) ''out cannot be NULL'' (bindR (deref p) (\<lambda>d.
      if dq_size d = 0 then ret (False, out)
      else bindR (deref (dq_buffer d)) (\<lambda>buf.
           bindR (arr_get buf (dq_head d)) (\<lambda>item. ret (True, Some item))))))"

definition deque_peek_back :: "'a deque cptr \<Rightarrow> 'a cptr \<Rightarrow> (bool \<times> 'a cptr) run" where
  "deque_peek_back p out =
     require_msg (p \<noteq> None) ''d cannot be NULL''
     (require_msg (out \<noteq> None) ''out cannot be NULL'' (bindR (deref p) (\<lambda>d.
      if dq_size d = 0 then ret (False, out)
      else let back_idx = (if dq_tail d = 0 then dq_capacity d - 1 else dq_tail d - 1) in
           bindR (deref (dq_buffer d)) (\<lambda>buf.
           bindR (arr_get buf back_idx) (\<lambda>item. ret (True, Some item))))))"

definition deque_peek_front_option :: "'a \<Rightarrow> 'a deque cptr \<Rightarrow> 'a option run" where
  "deque_peek_front_option zero p =
     bindR (deque_peek_front p (Some zero)) (\<lambda>(found, out).
       if found then bindR (deref out) (\<lambda>x. ret (option_some x)) else ret option_none)"

definition deque_peek_back_option :: "'a \<Rightarrow> 'a deque cptr \<Rightarrow> 'a option run" where
  "deque_peek_back_option zero p =
     bindR (deque_peek_back p (Some zero)) (\<lambda>(found, out).
       if found then bindR (deref out) (\<lambda>x. ret (option_some x)) else ret option_none)"

definition deque_clear :: "'a deque cptr \<Rightarrow> 'a deque cptr" where
  "deque_clear p = (case p of
     None \<Rightarrow> None
   | Some d \<Rightarrow> Some (d\<lparr>dq_size := 0, dq_head := 0, dq_tail := 0\<rparr>))"

definition deque_swap :: "'a deque cptr \<Rightarrow> 'a deque cptr \<Rightarrow> ('a deque cptr \<times> 'a deque cptr) run" where
  "deque_swap p q =
     require_msg (p \<noteq> None) ''a cannot be NULL''
     (require_msg (q \<noteq> None) ''b cannot be NULL''
     (bindR (deref p) (\<lambda>a. bindR (deref q) (\<lambda>b. ret (Some b, Some a)))))"

subsection \<open>The live window of the ring buffer\<close>

definition ring :: "'a list \<Rightarrow> nat \<Rightarrow> nat \<Rightarrow> nat \<Rightarrow> 'a list" where
  "ring buf c h n = map (\<lambda>i. buf ! ((h + i) mod c)) [0..<n]"

lemma length_ring [simp]: "length (ring buf c h n) = n"
  by (simp add: ring_def)

lemma ring_0 [simp]: "ring buf c h 0 = []"
  by (simp add: ring_def)

lemma ring_nth: "i < n \<Longrightarrow> ring buf c h n ! i = buf ! ((h + i) mod c)"
  by (simp add: ring_def)

lemma ring_Suc: "ring buf c h (Suc n) = ring buf c h n @ [buf ! ((h + n) mod c)]"
  by (simp add: ring_def)

lemma ring_Cons: "ring buf c h (Suc n) = buf ! (h mod c) # ring buf c (Suc h mod c) n"
  by (simp add: ring_def upt_conv_Cons map_Suc_upt [symmetric] mod_simps comp_def del: upt_Suc)

lemma ring_slots_distinct: "i < c \<Longrightarrow> j < c \<Longrightarrow> (h + i) mod c = (h + j) mod c \<Longrightarrow> i = j"
  for h i j c :: nat
proof (induction i j rule: linorder_wlog)
  case (le i j)
  then have "c dvd (h + j) - (h + i)" by (subst mod_eq_dvd_iff_nat [symmetric]) simp_all
  with le show ?case by (auto dest: dvd_imp_le)
next
  case (sym i j)
  then show ?case by simp
qed

text \<open>A write to a slot outside the window does not change it.\<close>

lemma ring_update:
  assumes "k < c" "n \<le> k"
  shows "ring (buf[(h + k) mod c := x]) c h n = ring buf c h n"
proof (rule nth_equalityI)
  fix i assume "i < length (ring (buf[(h + k) mod c := x]) c h n)"
  then have "i < n" by simp
  then have "(h + k) mod c \<noteq> (h + i) mod c"
    using assms ring_slots_distinct [of k c i h] by auto
  then show "ring (buf[(h + k) mod c := x]) c h n ! i = ring buf c h n ! i"
    using \<open>i < n\<close> by (simp add: ring_nth)
qed simp

lemma ring_put_back:
  assumes "n < c" "c \<le> length buf"
  shows "ring (buf[(h + n) mod c := x]) c h (Suc n) = ring buf c h n @ [x]"
proof -
  have "(h + n) mod c < length buf" using assms by (simp add: order_less_le_trans [of _ c])
  then show ?thesis using assms by (simp add: ring_Suc ring_update)
qed

lemma ring_put_front:
  assumes "n < c" "c \<le> length buf" "h < c"
  defines "h' \<equiv> (if h = 0 then c - 1 else h - 1)"
  shows "ring (buf[h' := x]) c h' (Suc n) = x # ring buf c h n"
proof -
  have h': "h' < c" "Suc h' mod c = h" using assms by (auto simp: h'_def)
  have slot: "(h + (c - 1)) mod c = h'"
    using assms by (auto simp: h'_def mod_if)
  have "ring (buf[h' := x]) c h n = ring buf c h n"
    using ring_update [of "c - 1" c n buf h x] assms(1) unfolding slot by simp
  then show ?thesis using h' assms by (simp add: ring_Cons)
qed

subsection \<open>The invariant and the contents\<close>

definition deque_ok :: "'a deque \<Rightarrow> bool" where
  "deque_ok d \<longleftrightarrow> (case dq_buffer d of
     None \<Rightarrow> False
   | Some buf \<Rightarrow> dq_capacity d > 0 \<and> unat (dq_capacity d) \<le> length buf \<and>
       dq_head d < dq_capacity d \<and> dq_tail d < dq_capacity d \<and> dq_size d \<le> dq_capacity d \<and>
       unat (dq_tail d) = (unat (dq_head d) + unat (dq_size d)) mod unat (dq_capacity d))"

definition deque_list :: "'a deque \<Rightarrow> 'a list" where
  "deque_list d = (case dq_buffer d of
     None \<Rightarrow> []
   | Some buf \<Rightarrow> ring buf (unat (dq_capacity d)) (unat (dq_head d)) (unat (dq_size d)))"

text \<open>The same on the pointer: the state a client holds.\<close>

definition deque_inv :: "'a deque cptr \<Rightarrow> bool" where
  "deque_inv p = (case p of None \<Rightarrow> False | Some d \<Rightarrow> deque_ok d)"

definition deque_contents :: "'a deque cptr \<Rightarrow> 'a list" where
  "deque_contents p = (case p of None \<Rightarrow> [] | Some d \<Rightarrow> deque_list d)"

definition deque_cap :: "'a deque cptr \<Rightarrow> nat" where
  "deque_cap p = unat (deque_capacity p)"

lemmas deque_abs_defs = deque_inv_def deque_contents_def deque_cap_def deque_capacity_def deque_len_def

lemma deque_okE:
  assumes "deque_ok d"
  obtains buf where "dq_buffer d = Some buf" "0 < unat (dq_capacity d)"
    "unat (dq_capacity d) \<le> length buf" "unat (dq_head d) < unat (dq_capacity d)"
    "unat (dq_tail d) < unat (dq_capacity d)" "unat (dq_size d) \<le> unat (dq_capacity d)"
    "unat (dq_tail d) = (unat (dq_head d) + unat (dq_size d)) mod unat (dq_capacity d)"
    "deque_list d = ring buf (unat (dq_capacity d)) (unat (dq_head d)) (unat (dq_size d))"
    "dq_capacity d \<noteq> 0"
  using assms by (auto simp: deque_ok_def deque_list_def word_to_nat split: option.splits)

lemma deque_invE:
  assumes "deque_inv p"
  obtains d where "p = Some d" "deque_ok d"
  using assms by (auto simp: deque_inv_def split: option.splits)

lemma length_deque_list: "deque_ok d \<Longrightarrow> length (deque_list d) = unat (dq_size d)"
  by (auto elim!: deque_okE)

subsection \<open>Stepping an index around the ring\<close>

lemma unat_ring_next:
  "unat ((i + 1) mod c) = Suc (unat i) mod unat c" if "i < c" for i c :: usize
  using that by (simp add: unat_mod_word unat_usize_lt_Suc)

lemma unat_ring_prev:
  "unat (if i = 0 then c - 1 else i - 1) = (if unat i = 0 then unat c - 1 else unat i - 1)"
  if "i < c" for i c :: usize
  using that by (auto simp: unat_usize_pred word_to_nat)

lemma deque_push_back_step:
  assumes d: "deque_ok d" and room: "dq_size d < dq_capacity d"
  shows "\<exists>d' buf. dq_buffer d = Some buf \<and>
    arr_set buf (dq_tail d) x = ret (buf[unat (dq_tail d) := x]) \<and>
    d' = d\<lparr>dq_buffer := Some (buf[unat (dq_tail d) := x]),
           dq_tail := (dq_tail d + 1) mod dq_capacity d, dq_size := dq_size d + 1\<rparr> \<and>
    deque_ok d' \<and> deque_list d' = deque_list d @ [x] \<and> dq_capacity d' = dq_capacity d"
proof -
  obtain buf where b: "dq_buffer d = Some buf" "0 < unat (dq_capacity d)"
    "unat (dq_capacity d) \<le> length buf" "unat (dq_head d) < unat (dq_capacity d)"
    "unat (dq_tail d) < unat (dq_capacity d)"
    "unat (dq_tail d) = (unat (dq_head d) + unat (dq_size d)) mod unat (dq_capacity d)"
    "deque_list d = ring buf (unat (dq_capacity d)) (unat (dq_head d)) (unat (dq_size d))"
    using d by (rule deque_okE)
  have n: "unat (dq_size d + 1) = Suc (unat (dq_size d))"
    using room by (rule unat_usize_lt_Suc)
  have t: "unat ((dq_tail d + 1) mod dq_capacity d) =
      (unat (dq_head d) + Suc (unat (dq_size d))) mod unat (dq_capacity d)"
    using b by (simp add: unat_ring_next word_to_nat mod_Suc_eq)
  have room': "unat (dq_size d) < unat (dq_capacity d)" using room by (simp add: word_to_nat)
  have w: "arr_set buf (dq_tail d) x = ret (buf[unat (dq_tail d) := x])"
    using b(3,5) by (intro arr_set_ret) linarith
  let ?d' = "d\<lparr>dq_buffer := Some (buf[unat (dq_tail d) := x]),
           dq_tail := (dq_tail d + 1) mod dq_capacity d, dq_size := dq_size d + 1\<rparr>"
  have "deque_ok ?d' \<and> deque_list ?d' = deque_list d @ [x]"
    using b n t room' ring_put_back [OF room' b(3), of "unat (dq_head d)" x]
    by (simp add: deque_ok_def deque_list_def word_to_nat)
  with w b(1) show ?thesis by (intro exI [of _ ?d'] exI [of _ buf]) simp
qed

lemma deque_push_front_step:
  assumes d: "deque_ok d" and room: "dq_size d < dq_capacity d"
    and head: "head = (if dq_head d = 0 then dq_capacity d - 1 else dq_head d - 1)"
  shows "\<exists>d' buf. dq_buffer d = Some buf \<and>
    arr_set buf head x = ret (buf[unat head := x]) \<and>
    d' = d\<lparr>dq_head := head, dq_buffer := Some (buf[unat head := x]), dq_size := dq_size d + 1\<rparr> \<and>
    deque_ok d' \<and> deque_list d' = x # deque_list d \<and> dq_capacity d' = dq_capacity d"
proof -
  obtain buf where b: "dq_buffer d = Some buf" "0 < unat (dq_capacity d)"
    "unat (dq_capacity d) \<le> length buf" "unat (dq_head d) < unat (dq_capacity d)"
    "unat (dq_tail d) < unat (dq_capacity d)"
    "unat (dq_tail d) = (unat (dq_head d) + unat (dq_size d)) mod unat (dq_capacity d)"
    "deque_list d = ring buf (unat (dq_capacity d)) (unat (dq_head d)) (unat (dq_size d))"
    using d by (rule deque_okE)
  have n: "unat (dq_size d + 1) = Suc (unat (dq_size d))"
    using room by (rule unat_usize_lt_Suc)
  have h: "unat head = (if unat (dq_head d) = 0 then unat (dq_capacity d) - 1 else unat (dq_head d) - 1)"
    unfolding head using b(4) by (intro unat_ring_prev) (simp add: word_to_nat)
  then have h': "unat head < unat (dq_capacity d)"
    "(unat head + Suc (unat (dq_size d))) mod unat (dq_capacity d) = unat (dq_tail d)"
    using b by auto
  have room': "unat (dq_size d) < unat (dq_capacity d)" using room by (simp add: word_to_nat)
  show ?thesis
    using b n h' room' ring_put_front [OF room' b(3,4), of x, folded h]
    by (simp add: deque_ok_def deque_list_def word_to_nat)
qed

subsection \<open>What the operations do on a well-formed deque\<close>

lemma deque_full_iff: "deque_ok d \<Longrightarrow> dq_size d \<ge> dq_capacity d \<longleftrightarrow> \<not> length (deque_list d) < deque_cap (Some d)"
  by (auto simp: length_deque_list deque_abs_defs word_to_nat)

lemma deque_room_iff: "deque_ok d \<Longrightarrow> dq_size d < dq_capacity d \<longleftrightarrow> length (deque_list d) < deque_cap (Some d)"
  using deque_full_iff [of d] by (simp add: not_le [symmetric])

lemma deque_empty_iff: "deque_ok d \<Longrightarrow> dq_size d = 0 \<longleftrightarrow> deque_list d = []"
  using length_deque_list [of d] by (metis length_0_conv unat_eq_zero)

lemma deque_push_back_room:
  assumes "deque_inv p" "length (deque_contents p) < deque_cap p"
  shows "\<exists>p'. deque_push_back p x = ret (Ok True, p') \<and> deque_inv p' \<and>
    deque_cap p' = deque_cap p \<and> deque_contents p' = deque_contents p @ [x]"
proof -
  obtain d where d: "p = Some d" "deque_ok d" using assms(1) by (rule deque_invE)
  then have room: "dq_size d < dq_capacity d"
    using assms(2) by (simp add: deque_room_iff deque_contents_def)
  then have "\<not> dq_capacity d \<le> dq_size d" "dq_capacity d \<noteq> 0" by auto
  with deque_push_back_step [OF d(2) room, of x] d show ?thesis
    by (auto simp: deque_push_back_def deque_abs_defs)
qed

lemma deque_push_front_room:
  assumes "deque_inv p" "length (deque_contents p) < deque_cap p"
  shows "\<exists>p'. deque_push_front p x = ret (Ok True, p') \<and> deque_inv p' \<and>
    deque_cap p' = deque_cap p \<and> deque_contents p' = x # deque_contents p"
proof -
  obtain d where d: "p = Some d" "deque_ok d" using assms(1) by (rule deque_invE)
  then have room: "dq_size d < dq_capacity d"
    using assms(2) by (simp add: deque_room_iff deque_contents_def)
  from deque_push_front_step [OF d(2) room refl, of x] d show ?thesis
    using room by (auto simp: deque_push_front_def deque_abs_defs Let_def)
qed

lemma deque_push_full:
  assumes "deque_inv p" "\<not> length (deque_contents p) < deque_cap p"
  shows "deque_push_back p x = ret (Err ERR_CAPACITY_EXCEEDED, p)"
    and "deque_push_front p x = ret (Err ERR_CAPACITY_EXCEEDED, p)"
proof -
  obtain d where d: "p = Some d" "deque_ok d" using assms(1) by (rule deque_invE)
  then have "dq_capacity d \<le> dq_size d"
    using assms(2) by (simp add: deque_full_iff deque_contents_def)
  with d show "deque_push_back p x = ret (Err ERR_CAPACITY_EXCEEDED, p)"
    "deque_push_front p x = ret (Err ERR_CAPACITY_EXCEEDED, p)"
    by (auto simp: deque_push_back_def deque_push_front_def elim: deque_okE)
qed

lemma deque_pop_front_some:
  assumes "deque_inv p" "deque_contents p = y # ys"
  shows "\<exists>p'. deque_pop_front p (Some v) = ret (Ok True, p', Some y) \<and> deque_inv p' \<and>
    deque_cap p' = deque_cap p \<and> deque_contents p' = ys"
proof -
  obtain d where d: "p = Some d" "deque_ok d" using assms(1) by (rule deque_invE)
  from d(2) obtain buf where b: "dq_buffer d = Some buf"
    "unat (dq_capacity d) \<le> length buf" "unat (dq_head d) < unat (dq_capacity d)"
    "unat (dq_tail d) < unat (dq_capacity d)" "unat (dq_size d) \<le> unat (dq_capacity d)"
    "unat (dq_tail d) = (unat (dq_head d) + unat (dq_size d)) mod unat (dq_capacity d)"
    "deque_list d = ring buf (unat (dq_capacity d)) (unat (dq_head d)) (unat (dq_size d))"
    "dq_capacity d \<noteq> 0"
    by (rule deque_okE)
  have ne: "dq_size d \<noteq> 0"
    using assms(2) d by (simp add: deque_empty_iff deque_contents_def)
  then obtain m where m: "unat (dq_size d) = Suc m" "unat (dq_size d - 1) = m"
    by (metis unat_usize_pred diff_Suc_1 not0_implies_Suc unat_eq_zero)
  have h: "unat ((dq_head d + 1) mod dq_capacity d) = Suc (unat (dq_head d)) mod unat (dq_capacity d)"
    using b by (intro unat_ring_next) (simp add: word_to_nat)
  have y: "buf ! unat (dq_head d) = y"
    "ring buf (unat (dq_capacity d)) (Suc (unat (dq_head d)) mod unat (dq_capacity d)) m = ys"
    using assms(2) d b m by (simp_all add: deque_contents_def ring_Cons)
  have r: "arr_get buf (dq_head d) = ret y" using b y by (subst arr_get_ret) simp_all
  show ?thesis
    using d b ne m h y r
    by (simp add: deque_pop_front_def deque_abs_defs deque_ok_def deque_list_def word_to_nat mod_simps)
qed

lemma deque_pop_back_read:
  assumes "deque_ok d" "deque_list d = ys @ [y]"
  defines "tail \<equiv> (if dq_tail d = 0 then dq_capacity d - 1 else dq_tail d - 1)"
  shows "\<exists>buf. dq_buffer d = Some buf \<and> arr_get buf tail = ret y \<and> dq_size d \<noteq> 0 \<and>
    deque_ok (d\<lparr>dq_tail := tail, dq_size := dq_size d - 1\<rparr>) \<and>
    deque_list (d\<lparr>dq_tail := tail, dq_size := dq_size d - 1\<rparr>) = ys"
proof -
  obtain buf where b: "dq_buffer d = Some buf"
    "unat (dq_capacity d) \<le> length buf" "unat (dq_head d) < unat (dq_capacity d)"
    "unat (dq_tail d) < unat (dq_capacity d)" "unat (dq_size d) \<le> unat (dq_capacity d)"
    "unat (dq_tail d) = (unat (dq_head d) + unat (dq_size d)) mod unat (dq_capacity d)"
    "deque_list d = ring buf (unat (dq_capacity d)) (unat (dq_head d)) (unat (dq_size d))"
    "dq_capacity d \<noteq> 0"
    using assms(1) by (rule deque_okE)
  have ne: "dq_size d \<noteq> 0"
    using assms(1,2) by (simp add: deque_empty_iff)
  then obtain m where m: "unat (dq_size d) = Suc m" "unat (dq_size d - 1) = m"
    by (metis unat_usize_pred diff_Suc_1 not0_implies_Suc unat_eq_zero)
  have "unat tail = (if unat (dq_tail d) = 0 then unat (dq_capacity d) - 1 else unat (dq_tail d) - 1)"
    unfolding tail_def using b(4) by (intro unat_ring_prev) (simp add: word_to_nat)
  then have t: "unat tail = (unat (dq_head d) + m) mod unat (dq_capacity d)"
    using b m by (auto simp: mod_Suc)
  have y: "buf ! unat tail = y" "ring buf (unat (dq_capacity d)) (unat (dq_head d)) m = ys"
    using assms(2) b(7) m by (simp_all add: ring_Suc t)
  have lt: "unat tail < length buf"
    using t b(2,3) by (metis less_le_trans mod_less_divisor not_less_zero neq0_conv)
  then have r: "arr_get buf tail = ret y" using y by simp
  show ?thesis
    using b ne m t y r by (simp add: deque_ok_def deque_list_def word_to_nat)
qed

lemma deque_pop_back_some:
  assumes "deque_inv p" "deque_contents p = ys @ [y]"
  shows "\<exists>p'. deque_pop_back p (Some v) = ret (Ok True, p', Some y) \<and> deque_inv p' \<and>
    deque_cap p' = deque_cap p \<and> deque_contents p' = ys"
proof -
  obtain d where d: "p = Some d" "deque_ok d" using assms(1) by (rule deque_invE)
  with assms(2) have "deque_list d = ys @ [y]" by (simp add: deque_contents_def)
  from deque_pop_back_read [OF d(2) this] d show ?thesis
    by (auto simp: deque_pop_back_def deque_abs_defs Let_def)
qed

lemma deque_pop_empty:
  assumes "deque_inv p" "deque_contents p = []"
  shows "deque_pop_front p (Some v) = ret (Err ERR_INVALID_STATE, p, Some v)"
    and "deque_pop_back p (Some v) = ret (Err ERR_INVALID_STATE, p, Some v)"
proof -
  obtain d where d: "p = Some d" "deque_ok d" using assms(1) by (rule deque_invE)
  then have "dq_size d = 0" using assms(2) by (simp add: deque_empty_iff deque_contents_def)
  with d show "deque_pop_front p (Some v) = ret (Err ERR_INVALID_STATE, p, Some v)"
    "deque_pop_back p (Some v) = ret (Err ERR_INVALID_STATE, p, Some v)"
    by (auto simp: deque_pop_front_def deque_pop_back_def elim: deque_okE)
qed

text \<open>The code's deque meets the contract: its clients' theorems are the facts \<open>dq.*\<close>.\<close>

interpretation dq: bounded_deque deque_inv deque_contents deque_cap
  deque_push_front deque_push_back deque_pop_front deque_pop_back
  by unfold_locales
    (simp_all add: deque_push_back_room deque_push_front_room deque_push_full
      deque_pop_front_some deque_pop_back_some deque_pop_empty)

subsection \<open>The other operations in terms of the four\<close>

lemma deque_try_push_front_eq:
  "deque_try_push_front p x = bindR (deque_push_front p x) (\<lambda>(r, p'). ret (result_is_ok r, p'))"
  by (auto simp: deque_try_push_front_def deque_push_front_def Let_def arr_set_def split: option.splits)

lemma deque_try_push_back_eq:
  "deque_try_push_back p x = bindR (deque_push_back p x) (\<lambda>(r, p'). ret (result_is_ok r, p'))"
  by (auto simp: deque_try_push_back_def deque_push_back_def bindR_assoc arr_set_def mod_usize_def
      split: option.splits)

lemma deque_unchecked_eq:
  assumes "deque_inv p"
  shows "deque_push_front_unchecked p x =
      (if deque_is_full p then violation ''deque is full''
       else bindR (deque_push_front p x) (\<lambda>(r, p'). ret p'))"
    and "deque_push_back_unchecked p x =
      (if deque_is_full p then violation ''deque is full''
       else bindR (deque_push_back p x) (\<lambda>(r, p'). ret p'))"
proof -
  obtain d where d: "p = Some d" "deque_ok d" using assms by (rule deque_invE)
  then obtain buf where "dq_buffer d = Some buf" "dq_capacity d \<noteq> 0" by (auto elim: deque_okE)
  with d show "deque_push_front_unchecked p x =
      (if deque_is_full p then violation ''deque is full''
       else bindR (deque_push_front p x) (\<lambda>(r, p'). ret p'))"
    "deque_push_back_unchecked p x =
      (if deque_is_full p then violation ''deque is full''
       else bindR (deque_push_back p x) (\<lambda>(r, p'). ret p'))"
    by (auto simp: deque_push_front_unchecked_def deque_push_back_unchecked_def deque_push_front_def
        deque_push_back_def deque_is_full_def Let_def bindR_assoc arr_set_def not_less [symmetric])
qed

lemma deque_len_capacity:
  assumes "deque_inv p"
  shows "unat (deque_len p) = length (deque_contents p)"
    and "unat (deque_remaining p) = deque_cap p - length (deque_contents p)"
    and "deque_is_empty p \<longleftrightarrow> deque_contents p = []"
    and "deque_is_full p \<longleftrightarrow> length (deque_contents p) = deque_cap p"
    and "length (deque_contents p) \<le> deque_cap p"
proof -
  obtain d where d: "p = Some d" "deque_ok d" using assms by (rule deque_invE)
  then have n: "length (deque_list d) = unat (dq_size d)" "dq_size d \<le> dq_capacity d"
    by (simp_all add: length_deque_list) (auto simp: word_to_nat elim: deque_okE)
  with d show "unat (deque_len p) = length (deque_contents p)"
    "unat (deque_remaining p) = deque_cap p - length (deque_contents p)"
    "deque_is_empty p \<longleftrightarrow> deque_contents p = []"
    "deque_is_full p \<longleftrightarrow> length (deque_contents p) = deque_cap p"
    "length (deque_contents p) \<le> deque_cap p"
    by (auto simp: deque_abs_defs deque_remaining_def deque_is_empty_def deque_is_full_def
        deque_empty_iff unat_sub word_to_nat)
qed

lemma deque_peek_front_value:
  assumes "deque_inv p"
  shows "deque_peek_front p (Some v) =
    ret (case deque_contents p of [] \<Rightarrow> (False, Some v) | y # ys \<Rightarrow> (True, Some y))"
proof -
  obtain d where d: "p = Some d" "deque_ok d" using assms by (rule deque_invE)
  show ?thesis
  proof (cases "deque_list d")
    case Nil
    then have "dq_size d = 0" using d by (simp add: deque_empty_iff)
    with d Nil show ?thesis by (simp add: deque_peek_front_def deque_contents_def)
  next
    case (Cons y ys)
    with assms d obtain p' where "deque_pop_front p (Some v) = ret (Ok True, p', Some y)"
      using deque_pop_front_some [of p y ys v] by (auto simp: deque_contents_def)
    with d Cons show ?thesis
      by (auto simp: deque_peek_front_def deque_pop_front_def deque_contents_def bindR_eq_Inr
          split: option.splits if_splits)
  qed
qed

lemma deque_peek_back_value:
  assumes "deque_inv p"
  shows "deque_peek_back p (Some v) =
    ret (case rev (deque_contents p) of [] \<Rightarrow> (False, Some v) | y # ys \<Rightarrow> (True, Some y))"
proof -
  obtain d where d: "p = Some d" "deque_ok d" using assms by (rule deque_invE)
  show ?thesis
  proof (cases "deque_list d" rule: rev_cases)
    case Nil
    then have "dq_size d = 0" using d by (simp add: deque_empty_iff)
    with d Nil show ?thesis by (simp add: deque_peek_back_def deque_contents_def)
  next
    case (snoc ys y)
    from deque_pop_back_read [OF d(2) snoc] d snoc show ?thesis
      by (auto simp: deque_peek_back_def deque_contents_def Let_def)
  qed
qed

lemma deque_pop_front_option_value:
  assumes "deque_inv p"
  shows "\<exists>p'. deque_pop_front_option zero p =
      ret (case deque_contents p of [] \<Rightarrow> None | y # ys \<Rightarrow> Some y, p') \<and>
    deque_inv p' \<and> deque_contents p' = tl (deque_contents p) \<and> deque_cap p' = deque_cap p"
proof (cases "deque_contents p")
  case Nil
  with assms show ?thesis
    by (simp add: deque_pop_front_option_def deque_pop_empty option_none_def)
next
  case (Cons y ys)
  with deque_pop_front_some [OF assms Cons, of zero] show ?thesis
    by (auto simp: deque_pop_front_option_def option_some_def)
qed

lemma deque_pop_back_option_value:
  assumes "deque_inv p"
  shows "\<exists>p'. deque_pop_back_option zero p =
      ret (if deque_contents p = [] then None else Some (last (deque_contents p)), p') \<and>
    deque_inv p' \<and> deque_contents p' = butlast (deque_contents p) \<and> deque_cap p' = deque_cap p"
proof (cases "deque_contents p" rule: rev_cases)
  case Nil
  with assms show ?thesis
    by (simp add: deque_pop_back_option_def deque_pop_empty option_none_def)
next
  case (snoc ys y)
  with deque_pop_back_some [OF assms snoc, of zero] show ?thesis
    by (auto simp: deque_pop_back_option_def option_some_def)
qed

lemma deque_init_ok:
  assumes "0 < unat capacity" "unat capacity \<le> length buf" "esz \<noteq> 0"
    "unat capacity \<le> 2 ^ 30 div unat esz"
  shows "\<exists>p'. deque_init esz (Some d) (Some buf) capacity = ret p' \<and> deque_inv p' \<and>
    deque_contents p' = [] \<and> deque_cap p' = unat capacity"
proof -
  have "unat (canon_deque_max_capacity div esz) = 2 ^ 30 div unat esz"
    by (simp add: unat_div_word canon_deque_max_capacity_def canon_vec_max_capacity_def canon_gb_def)
  with assms show ?thesis
    by (simp add: deque_init_def deque_abs_defs deque_ok_def deque_list_def word_to_nat)
qed

lemma deque_clear_ok:
  assumes "deque_inv p"
  shows "deque_inv (deque_clear p) \<and> deque_contents (deque_clear p) = [] \<and>
    deque_cap (deque_clear p) = deque_cap p"
proof -
  obtain d where d: "p = Some d" "deque_ok d" using assms by (rule deque_invE)
  then show ?thesis
    by (auto simp: deque_clear_def deque_abs_defs deque_ok_def deque_list_def split: option.splits)
qed

text \<open>A deque that is not initialised: every operation answers an error, and none faults.\<close>

lemma deque_zero_safe:
  "deque_push_front (Some deque_empty) x = ret (Err ERR_INVALID_ARG, Some deque_empty)"
  "deque_push_back (Some deque_empty) x = ret (Err ERR_INVALID_ARG, Some deque_empty)"
  "deque_pop_front (Some deque_empty) out = ret (Err ERR_INVALID_ARG, Some deque_empty, out)"
  "deque_pop_back (Some deque_empty) out = ret (Err ERR_INVALID_ARG, Some deque_empty, out)"
  "deque_peek_front (Some deque_empty) (Some v) = ret (False, Some v)"
  "deque_peek_back (Some deque_empty) (Some v) = ret (False, Some v)"
  by (auto simp: deque_empty_def deque_push_front_def deque_push_back_def deque_pop_front_def
      deque_pop_back_def deque_peek_front_def deque_peek_back_def split: option.splits)

subsection \<open>Properties\<close>

text \<open>On a well-formed deque any sequence of pushes at the front and pops at the back, with
  the answers and the errors of every call, is a run of the bounded queue of the deque's
  capacity read from back to front; no call faults, and the deque stays well-formed.\<close>

theorem deque_backward_refines_queue:
  "deque_inv p \<Longrightarrow> \<exists>p'. code_run deque_push_front deque_pop_back slot p cs =
     ret (fst (run_ops (fifo_step (deque_cap p)) (rev (deque_contents p)) cs), p') \<and>
     deque_inv p' \<and> deque_cap p' = deque_cap p \<and>
     rev (deque_contents p') = snd (run_ops (fifo_step (deque_cap p)) (rev (deque_contents p)) cs)"
  by (rule dq.backward.run_refines)

text \<open>A well-formed deque of capacity 3 whose window wraps around the end of the buffer.\<close>

definition deque_sample :: "nat deque cptr" where
  "deque_sample = Some \<lparr>dq_buffer = Some [20, 0, 10], dq_capacity = 3, dq_head = 2, dq_tail = 1, dq_size = 2\<rparr>"

lemma deque_sample_ok: "deque_inv deque_sample" "deque_contents deque_sample = [10, 20]" "deque_cap deque_sample = 3"
  by (simp_all add: deque_sample_def deque_abs_defs deque_ok_def deque_list_def ring_def upt_rec)

theorem deque_backward_refines_queue_witness:
  "\<exists>p'. code_run deque_push_front deque_pop_back 0 deque_sample [Put 30, Put 40, Take] =
     ret ([Done, Failed ERR_CAPACITY_EXCEEDED, Taken 20], p') \<and> rev (deque_contents p') = [10, 30]"
  using deque_backward_refines_queue [OF deque_sample_ok(1), of 0 "[Put 30, Put 40, Take]"]
  by (auto simp: deque_sample_ok)

text \<open>On a well-formed deque pushes and pops at the back are a run of the bounded stack of the
  deque's capacity, with the last element as the top; no call faults.\<close>

theorem deque_back_refines_stack:
  "deque_inv p \<Longrightarrow> \<exists>p'. code_run deque_push_back deque_pop_back slot p cs =
     ret (fst (run_ops (lifo_step (deque_cap p)) (rev (deque_contents p)) cs), p') \<and>
     deque_inv p' \<and> deque_cap p' = deque_cap p \<and>
     rev (deque_contents p') = snd (run_ops (lifo_step (deque_cap p)) (rev (deque_contents p)) cs)"
  by (rule dq.top_end.run_refines)

theorem deque_back_refines_stack_witness:
  "\<exists>p'. code_run deque_push_back deque_pop_back 0 deque_sample [Put 30, Put 40, Take] =
     ret ([Done, Failed ERR_CAPACITY_EXCEEDED, Taken 30], p') \<and> rev (deque_contents p') = [20, 10]"
  using deque_back_refines_stack [OF deque_sample_ok(1), of 0 "[Put 30, Put 40, Take]"]
  by (auto simp: deque_sample_ok)

text \<open>On a well-formed deque the unchecked pushes violate their contract exactly when the deque
  is full, and otherwise leave the deque the checked pushes leave.\<close>

theorem deque_unchecked_pushes:
  "deque_inv p \<Longrightarrow>
     deque_push_front_unchecked p x =
       (if length (deque_contents p) = deque_cap p then violation ''deque is full''
        else bindR (deque_push_front p x) (\<lambda>(r, p'). ret p')) \<and>
     deque_push_back_unchecked p x =
       (if length (deque_contents p) = deque_cap p then violation ''deque is full''
        else bindR (deque_push_back p x) (\<lambda>(r, p'). ret p'))"
  by (simp add: deque_unchecked_eq deque_len_capacity(4))

theorem deque_unchecked_pushes_witness:
  "deque_push_back_unchecked deque_sample 5 = bindR (deque_push_back deque_sample 5) (\<lambda>(r, p'). ret p')"
  using deque_unchecked_pushes [OF deque_sample_ok(1), of 5] by (simp add: deque_sample_ok)

text \<open>Peeking at a well-formed deque gives its first and its last element and reports an empty
  deque as false without writing \<open>out\<close>.\<close>

theorem deque_peek_ends:
  "deque_inv p \<Longrightarrow>
     deque_peek_front p (Some v) =
       ret (if deque_contents p = [] then (False, Some v) else (True, Some (hd (deque_contents p)))) \<and>
     deque_peek_back p (Some v) =
       ret (if deque_contents p = [] then (False, Some v) else (True, Some (last (deque_contents p))))"
  by (simp add: deque_peek_front_value deque_peek_back_value case_list_hd case_list_last hd_rev)

theorem deque_peek_ends_witness:
  "deque_peek_front deque_sample (Some 0) = ret (True, Some 10) \<and>
   deque_peek_back deque_sample (Some 0) = ret (True, Some 20)"
  using deque_peek_ends [OF deque_sample_ok(1), of 0] by (simp add: deque_sample_ok)

end
