(* ===== verification/Canon_Queue.thy ===== *)
theory Canon_Queue
  imports Canon_Deque
begin

section \<open>The first-in-first-out queue (data/queue.h)\<close>

text \<open>
  \<open>DEFINE_QUEUE(linkage, type)\<close> makes a queue the deque of its type: \<open>enqueue\<close> pushes at the
  back and \<open>dequeue\<close> pops at the front. Each function of the macro is a definition that
  calls the deque function the macro calls. The queue is an instance of \<open>bounded_fifo\<close>, so
  any sequence of operations answers what the abstract bounded queue answers.
\<close>

type_synonym 'a queue = "'a deque"

definition queue_init :: "usize \<Rightarrow> 'a queue cptr \<Rightarrow> 'a list cptr \<Rightarrow> usize \<Rightarrow> 'a queue cptr run" where
  "queue_init esz q buffer capacity =
     require_msg (q \<noteq> None) ''q cannot be NULL'' (deque_init esz q buffer capacity)"

definition queue_enqueue :: "'a queue cptr \<Rightarrow> 'a \<Rightarrow> (bool_result \<times> 'a queue cptr) run" where
  "queue_enqueue q item = deque_push_back q item"

definition queue_try_enqueue :: "'a queue cptr \<Rightarrow> 'a \<Rightarrow> (bool \<times> 'a queue cptr) run" where
  "queue_try_enqueue q item = deque_try_push_back q item"

definition queue_enqueue_unchecked :: "'a queue cptr \<Rightarrow> 'a \<Rightarrow> 'a queue cptr run" where
  "queue_enqueue_unchecked q item = deque_push_back_unchecked q item"

definition queue_dequeue ::
  "'a queue cptr \<Rightarrow> 'a cptr \<Rightarrow> (bool_result \<times> 'a queue cptr \<times> 'a cptr) run" where
  "queue_dequeue q out = deque_pop_front q out"

definition queue_dequeue_option :: "'a \<Rightarrow> 'a queue cptr \<Rightarrow> ('a option \<times> 'a queue cptr) run" where
  "queue_dequeue_option zero q = deque_pop_front_option zero q"

definition queue_peek :: "'a queue cptr \<Rightarrow> 'a cptr \<Rightarrow> (bool \<times> 'a cptr) run" where
  "queue_peek q out = deque_peek_front q out"

definition queue_peek_option :: "'a \<Rightarrow> 'a queue cptr \<Rightarrow> 'a option run" where
  "queue_peek_option zero q = deque_peek_front_option zero q"

definition queue_len :: "'a queue cptr \<Rightarrow> usize" where
  "queue_len q = deque_len q"

definition queue_capacity :: "'a queue cptr \<Rightarrow> usize" where
  "queue_capacity q = deque_capacity q"

definition queue_remaining :: "'a queue cptr \<Rightarrow> usize" where
  "queue_remaining q = deque_remaining q"

definition queue_is_empty :: "'a queue cptr \<Rightarrow> bool" where
  "queue_is_empty q = deque_is_empty q"

definition queue_is_full :: "'a queue cptr \<Rightarrow> bool" where
  "queue_is_full q = deque_is_full q"

definition queue_clear :: "'a queue cptr \<Rightarrow> 'a queue cptr" where
  "queue_clear q = deque_clear q"

lemmas queue_defs = queue_init_def queue_enqueue_def queue_try_enqueue_def
  queue_enqueue_unchecked_def queue_dequeue_def queue_dequeue_option_def queue_peek_def
  queue_peek_option_def queue_len_def queue_capacity_def queue_remaining_def
  queue_is_empty_def queue_is_full_def queue_clear_def

lemma queue_ops_eq: "queue_enqueue = deque_push_back" "queue_dequeue = deque_pop_front"
  by (simp_all add: fun_eq_iff queue_defs)

interpretation q: bounded_fifo deque_inv deque_contents deque_cap queue_enqueue queue_dequeue
  unfolding queue_ops_eq by (rule dq.forward.bounded_fifo_axioms)

lemma queue_init_ok:
  assumes "0 < unat capacity" "unat capacity \<le> length buf" "esz \<noteq> 0"
    "unat capacity \<le> 2 ^ 30 div unat esz"
  shows "\<exists>q. queue_init esz (Some d) (Some buf) capacity = ret q \<and> deque_inv q \<and>
    deque_contents q = [] \<and> deque_cap q = unat capacity"
  using deque_init_ok [OF assms] by (simp add: queue_init_def)

subsection \<open>Properties\<close>

text \<open>C2: On a well-formed queue every sequence of enqueue and dequeue calls gives the answers and
  the errors of the abstract bounded first-in-first-out queue of the same capacity; no call
  faults (no access outside the buffer, no division by zero), and the queue stays well-formed.\<close>

theorem queue_refines_fifo:
  "deque_inv q \<Longrightarrow> \<exists>q'. code_run queue_enqueue queue_dequeue slot q cs =
     ret (fst (run_ops (fifo_step (deque_cap q)) (deque_contents q) cs), q') \<and>
     deque_inv q' \<and> deque_cap q' = deque_cap q \<and>
     deque_contents q' = snd (run_ops (fifo_step (deque_cap q)) (deque_contents q) cs)"
  by (rule q.run_refines)

theorem queue_refines_fifo_witness:
  "\<exists>q'. code_run queue_enqueue queue_dequeue 0 deque_sample [Take, Put 30, Put 40, Put 50, Take] =
     ret ([Taken 10, Done, Done, Failed ERR_CAPACITY_EXCEEDED, Taken 20], q') \<and>
     deque_contents q' = [30, 40]"
  using queue_refines_fifo [OF deque_sample_ok(1), of 0 "[Take, Put 30, Put 40, Put 50, Take]"]
  by (auto simp: deque_sample_ok)

text \<open>A queue initialised over a buffer returns the elements put into it, up to its capacity,
  in the order they were put.\<close>

theorem queue_round_trip:
  "0 < unat capacity \<Longrightarrow> unat capacity \<le> length buf \<Longrightarrow> esz \<noteq> 0 \<Longrightarrow>
   unat capacity \<le> 2 ^ 30 div unat esz \<Longrightarrow> length xs \<le> unat capacity \<Longrightarrow>
   \<exists>q1 q2 q3. queue_init esz (Some d) (Some buf) capacity = ret q1 \<and>
     code_run queue_enqueue queue_dequeue slot q1 (map Put xs) = ret (map (\<lambda>_. Done) xs, q2) \<and>
     code_run queue_enqueue queue_dequeue slot q2 (map (\<lambda>_. Take) xs) = ret (map Taken xs, q3) \<and>
     deque_contents q3 = []"
proof -
  assume init: "0 < unat capacity" "unat capacity \<le> length buf" "esz \<noteq> 0"
    "unat capacity \<le> 2 ^ 30 div unat esz" and xs: "length xs \<le> unat capacity"
  obtain q1 where q1: "queue_init esz (Some d) (Some buf) capacity = ret q1" "deque_inv q1"
    "deque_contents q1 = []" "deque_cap q1 = unat capacity"
    using queue_init_ok [OF init] by blast
  with q.fifo_round_trip [OF q1(2,3), of xs slot] xs show ?thesis by auto
qed

theorem queue_round_trip_witness:
  "\<exists>q1 q2 q3. queue_init 8 (Some deque_empty) (Some [0, 0 :: nat]) 2 = ret q1 \<and>
     code_run queue_enqueue queue_dequeue 0 q1 [Put 7, Put 8] = ret ([Done, Done], q2) \<and>
     code_run queue_enqueue queue_dequeue 0 q2 [Take, Take] = ret ([Taken 7, Taken 8], q3) \<and>
     deque_contents q3 = []"
  using queue_round_trip [of 2 "[0, 0]" 8 "[7, 8]" deque_empty 0] by simp

end
