(* ===== verification/Canon_Vec.thy ===== *)
theory Canon_Vec
  imports Canon_Interfaces Canon_Checked
begin

section \<open>The bounded vector (data/vec/vec_impl.h)\<close>

text \<open>
  The fixed-capacity vector over a caller's buffer. The buffer is the list of its elements,
  or NULL; a vector is its struct, and the object behind \<open>v\<close> is \<open>Some\<close> of it. Every operation
  of the \<open>IMPL_VEC_*\<close> macros is a definition, in their order, except \<open>IMPL_VEC_ARENA_ALLOC\<close>.
  A pointer to an element of the buffer is its index. \<open>mem_move\<close> and \<open>mem_copy\<close> of whole
  elements are \<open>arr_move\<close> and \<open>arr_copy\<close>: the byte counts \<open>n * sizeof(type)\<close> do not wrap, as
  a capacity is at most \<open>CANON_VEC_MAX_CAPACITY / sizeof(type)\<close>.
  \<open>vec_ok\<close> is the representation invariant and \<open>vec_list\<close> the elements. The vector with push
  and pop is an instance of \<open>bounded_lifo\<close>.
\<close>

subsection \<open>Moving elements of an array\<close>

definition arr_move :: "'a list \<Rightarrow> usize \<Rightarrow> usize \<Rightarrow> usize \<Rightarrow> 'a list run" where
  "arr_move xs dest src n =
     (if unat src + unat n \<le> length xs \<and> unat dest + unat n \<le> length xs
      then ret (take (unat dest) xs @ take (unat n) (drop (unat src) xs) @ drop (unat dest + unat n) xs)
      else undefined_behaviour ''memmove outside the array'')"

definition arr_copy :: "'a list \<Rightarrow> usize \<Rightarrow> 'a list \<Rightarrow> usize \<Rightarrow> 'a list run" where
  "arr_copy xs dest src n =
     (if unat n \<le> length src \<and> unat dest + unat n \<le> length xs
      then ret (take (unat dest) xs @ take (unat n) src @ drop (unat dest + unat n) xs)
      else undefined_behaviour ''memcpy outside the array'')"

subsection \<open>The structs and construction\<close>

record 'a vec =
  vec_items :: "'a list cptr"
  vec_length :: usize
  vec_cap :: usize

record 'a vec_iter =
  it_vec :: "'a vec cptr"
  it_index :: usize

record 'a vec_slice =
  vs_items :: "'a list cptr"
  vs_len :: usize

definition vec_empty :: "'a vec" where
  "vec_empty = \<lparr>vec_items = None, vec_length = 0, vec_cap = 0\<rparr>"

definition vec_init :: "usize \<Rightarrow> 'a list cptr \<Rightarrow> usize \<Rightarrow> 'a vec run" where
  "vec_init esz buffer capacity =
     require_msg (buffer \<noteq> None \<or> capacity = 0) ''buffer cannot be NULL when capacity > 0''
     (bindR (div_usize canon_vec_max_capacity esz) (\<lambda>max_count.
        if capacity > max_count then ret \<lparr>vec_items = None, vec_length = 0, vec_cap = 0\<rparr>
        else ret \<lparr>vec_items = buffer, vec_length = 0, vec_cap = capacity\<rparr>))"

text \<open>
  \<open>malloc\<close> gives an array for a number of bytes, or NULL. \<open>vec_free\<close> also returns the buffer
  that it hands to \<open>mem_free\<close>.
\<close>

definition vec_alloc :: "bool \<Rightarrow> (usize \<Rightarrow> 'a list cptr) \<Rightarrow> usize \<Rightarrow> usize \<Rightarrow> 'a vec run" where
  "vec_alloc builtin malloc esz capacity =
     (if capacity = 0 then ret vec_empty
      else bindR (div_usize canon_vec_max_capacity esz) (\<lambda>max_count.
        if capacity > max_count then ret vec_empty
        else bindR (checked_mul builtin capacity esz (Some 0)) (\<lambda>(fits, total).
          if \<not> fits then ret vec_empty
          else bindR (deref total) (\<lambda>total_bytes.
            let buf = (if total_bytes = 0 then None else malloc total_bytes) in
            if buf = None then ret vec_empty else vec_init esz buf capacity))))"

definition vec_free :: "'a vec cptr \<Rightarrow> 'a list cptr \<times> 'a vec cptr" where
  "vec_free p = (case p of
     None \<Rightarrow> (None, None)
   | Some v \<Rightarrow> (vec_items v, Some \<lparr>vec_items = None, vec_length = 0, vec_cap = 0\<rparr>))"

subsection \<open>Queries and element access\<close>

definition vec_len :: "'a vec cptr \<Rightarrow> usize" where
  "vec_len p = (case p of Some v \<Rightarrow> vec_length v | None \<Rightarrow> 0)"

definition vec_capacity :: "'a vec cptr \<Rightarrow> usize" where
  "vec_capacity p = (case p of Some v \<Rightarrow> vec_cap v | None \<Rightarrow> 0)"

definition vec_remaining :: "'a vec cptr \<Rightarrow> usize" where
  "vec_remaining p = (case p of Some v \<Rightarrow> vec_cap v - vec_length v | None \<Rightarrow> 0)"

definition vec_is_empty :: "'a vec cptr \<Rightarrow> bool" where
  "vec_is_empty p = (case p of None \<Rightarrow> True | Some v \<Rightarrow> vec_length v = 0)"

definition vec_is_full :: "'a vec cptr \<Rightarrow> bool" where
  "vec_is_full p = (case p of None \<Rightarrow> True | Some v \<Rightarrow> vec_length v \<ge> vec_cap v)"

definition items_get :: "'a vec \<Rightarrow> usize \<Rightarrow> 'a run" where
  "items_get v i = bindR (deref (vec_items v)) (\<lambda>xs. arr_get xs i)"

definition items_set :: "'a vec \<Rightarrow> usize \<Rightarrow> 'a \<Rightarrow> 'a vec run" where
  "items_set v i x = bindR (deref (vec_items v)) (\<lambda>xs.
     bindR (arr_set xs i x) (\<lambda>xs'. ret (v\<lparr>vec_items := Some xs'\<rparr>)))"

definition vec_get :: "'a vec cptr \<Rightarrow> usize \<Rightarrow> 'a cptr \<Rightarrow> (bool \<times> 'a cptr) run" where
  "vec_get p i out = (case p of
     None \<Rightarrow> ret (False, out)
   | Some v \<Rightarrow> if out = None \<or> i \<ge> vec_length v then ret (False, out)
       else bindR (items_get v i) (\<lambda>x. ret (True, Some x)))"

definition vec_get_option :: "'a vec cptr \<Rightarrow> usize \<Rightarrow> 'a option run" where
  "vec_get_option p i = (case p of
     None \<Rightarrow> ret option_none
   | Some v \<Rightarrow> if i \<ge> vec_length v then ret option_none
       else bindR (items_get v i) (\<lambda>x. ret (option_some x)))"

definition vec_get_unchecked :: "'a vec cptr \<Rightarrow> usize \<Rightarrow> 'a run" where
  "vec_get_unchecked p i =
     ensure_msg (p \<noteq> None) ''v cannot be NULL'' (bindR (deref p) (\<lambda>v.
     ensure_msg (vec_items v \<noteq> None) ''v->items cannot be NULL''
     (ensure_msg (i < vec_length v) ''index out of bounds'' (items_get v i))))"

definition vec_at :: "'a vec cptr \<Rightarrow> usize \<Rightarrow> usize run" where
  "vec_at p i =
     ensure_msg (p \<noteq> None) ''v cannot be NULL'' (bindR (deref p) (\<lambda>v.
     ensure_msg (i < vec_length v) ''index out of bounds'' (ret i)))"

definition vec_set :: "'a vec cptr \<Rightarrow> usize \<Rightarrow> 'a \<Rightarrow> (bool \<times> 'a vec cptr) run" where
  "vec_set p i val = (case p of
     None \<Rightarrow> ret (False, p)
   | Some v \<Rightarrow> if i \<ge> vec_length v then ret (False, p)
       else bindR (items_set v i val) (\<lambda>v'. ret (True, Some v')))"

definition vec_first :: "'a vec cptr \<Rightarrow> usize cptr" where
  "vec_first p = (case p of
     None \<Rightarrow> None | Some v \<Rightarrow> if vec_length v > 0 then Some 0 else None)"

definition vec_last :: "'a vec cptr \<Rightarrow> usize cptr" where
  "vec_last p = (case p of
     None \<Rightarrow> None | Some v \<Rightarrow> if vec_length v > 0 then Some (vec_length v - 1) else None)"

definition vec_data :: "'a vec cptr \<Rightarrow> 'a list cptr" where
  "vec_data p = (case p of None \<Rightarrow> None | Some v \<Rightarrow> vec_items v)"

subsection \<open>Push, pop and clear\<close>

definition vec_push :: "'a vec cptr \<Rightarrow> 'a \<Rightarrow> (bool_result \<times> 'a vec cptr) run" where
  "vec_push p item = (case p of
     None \<Rightarrow> ret (Err ERR_INVALID_ARG, p)
   | Some v \<Rightarrow>
       if vec_items v = None then ret (Err ERR_INVALID_ARG, p)
       else if vec_length v \<ge> vec_cap v then ret (Err ERR_CAPACITY_EXCEEDED, p)
       else bindR (items_set v (vec_length v) item) (\<lambda>v'.
         ret (Ok True, Some (v'\<lparr>vec_length := vec_length v + 1\<rparr>))))"

definition vec_try_push :: "'a vec cptr \<Rightarrow> 'a \<Rightarrow> (bool \<times> 'a vec cptr) run" where
  "vec_try_push p item = (case p of
     None \<Rightarrow> ret (False, p)
   | Some v \<Rightarrow>
       if vec_items v = None \<or> vec_length v \<ge> vec_cap v then ret (False, p)
       else bindR (items_set v (vec_length v) item) (\<lambda>v'.
         ret (True, Some (v'\<lparr>vec_length := vec_length v + 1\<rparr>))))"

definition vec_push_unchecked :: "'a vec cptr \<Rightarrow> 'a \<Rightarrow> 'a vec cptr run" where
  "vec_push_unchecked p item =
     ensure_msg (p \<noteq> None) ''v cannot be NULL'' (bindR (deref p) (\<lambda>v.
     ensure_msg (vec_items v \<noteq> None) ''v->items cannot be NULL''
     (ensure_msg (vec_length v < vec_cap v) ''vector is full''
       (bindR (items_set v (vec_length v) item) (\<lambda>v'.
         ret (Some (v'\<lparr>vec_length := vec_length v + 1\<rparr>)))))))"

definition vec_pop :: "'a vec cptr \<Rightarrow> 'a cptr \<Rightarrow> (bool_result \<times> 'a vec cptr \<times> 'a cptr) run" where
  "vec_pop p out = (case p of
     None \<Rightarrow> ret (Err ERR_INVALID_ARG, p, out)
   | Some v \<Rightarrow>
       if out = None \<or> vec_items v = None then ret (Err ERR_INVALID_ARG, p, out)
       else if vec_length v = 0 then ret (Err ERR_INVALID_STATE, p, out)
       else bindR (items_get v (vec_length v - 1)) (\<lambda>x.
         ret (Ok True, Some (v\<lparr>vec_length := vec_length v - 1\<rparr>), Some x)))"

definition vec_pop_option :: "'a \<Rightarrow> 'a vec cptr \<Rightarrow> ('a option \<times> 'a vec cptr) run" where
  "vec_pop_option zero p =
     bindR (vec_pop p (Some zero)) (\<lambda>(r, p', out).
       if result_is_ok r then bindR (deref out) (\<lambda>x. ret (option_some x, p'))
       else ret (option_none, p'))"

definition vec_clear :: "'a vec cptr \<Rightarrow> 'a vec cptr" where
  "vec_clear p = (case p of None \<Rightarrow> None | Some v \<Rightarrow> Some (v\<lparr>vec_length := 0\<rparr>))"

subsection \<open>Insertion, removal and bulk operations\<close>

definition vec_insert :: "'a vec cptr \<Rightarrow> usize \<Rightarrow> 'a \<Rightarrow> (bool_result \<times> 'a vec cptr) run" where
  "vec_insert p i item = (case p of
     None \<Rightarrow> ret (Err ERR_INVALID_ARG, p)
   | Some v \<Rightarrow> (case vec_items v of
       None \<Rightarrow> ret (Err ERR_INVALID_ARG, p)
     | Some xs \<Rightarrow>
         if i > vec_length v then ret (Err ERR_OUT_OF_RANGE, p)
         else if vec_length v \<ge> vec_cap v then ret (Err ERR_CAPACITY_EXCEEDED, p)
         else bindR (if i < vec_length v then arr_move xs (i + 1) i (vec_length v - i) else ret xs) (\<lambda>ys.
              bindR (arr_set ys i item) (\<lambda>zs.
                ret (Ok True, Some (v\<lparr>vec_items := Some zs, vec_length := vec_length v + 1\<rparr>))))))"

definition vec_remove ::
  "'a vec cptr \<Rightarrow> usize \<Rightarrow> 'a cptr \<Rightarrow> (bool_result \<times> 'a vec cptr \<times> 'a cptr) run" where
  "vec_remove p i out = (case p of
     None \<Rightarrow> ret (Err ERR_INVALID_ARG, p, out)
   | Some v \<Rightarrow> (case vec_items v of
       None \<Rightarrow> ret (Err ERR_INVALID_ARG, p, out)
     | Some xs \<Rightarrow>
         if out = None then ret (Err ERR_INVALID_ARG, p, out)
         else if vec_length v = 0 then ret (Err ERR_INVALID_STATE, p, out)
         else if i \<ge> vec_length v then ret (Err ERR_OUT_OF_RANGE, p, out)
         else bindR (arr_get xs i) (\<lambda>x.
              bindR (if i < vec_length v - 1 then arr_move xs i (i + 1) (vec_length v - i - 1) else ret xs)
                (\<lambda>ys. ret (Ok True, Some (v\<lparr>vec_items := Some ys, vec_length := vec_length v - 1\<rparr>), Some x)))))"

definition vec_remove_option :: "'a \<Rightarrow> 'a vec cptr \<Rightarrow> usize \<Rightarrow> ('a option \<times> 'a vec cptr) run" where
  "vec_remove_option zero p i =
     bindR (vec_remove p i (Some zero)) (\<lambda>(r, p', out).
       if result_is_ok r then bindR (deref out) (\<lambda>x. ret (option_some x, p'))
       else ret (option_none, p'))"

text \<open>
  \<open>overlap\<close> says whether the source overlaps the free part of the buffer that the elements go
  to: \<open>mem_copy\<close> checks it on the addresses, when there is something to copy.
\<close>

definition vec_append_array ::
  "bool \<Rightarrow> bool \<Rightarrow> 'a vec cptr \<Rightarrow> 'a list cptr \<Rightarrow> usize \<Rightarrow> (bool_result \<times> 'a vec cptr) run" where
  "vec_append_array builtin overlap p src cnt = (case (p, src) of
     (Some v, Some ys) \<Rightarrow> (case vec_items v of
       None \<Rightarrow> ret (Err ERR_INVALID_ARG, p)
     | Some xs \<Rightarrow>
         bindR (checked_add builtin (vec_length v) cnt (Some 0)) (\<lambda>(fits, sum).
           if \<not> fits then ret (Err ERR_OVERFLOW, p)
           else bindR (deref sum) (\<lambda>total.
             if total > vec_cap v then ret (Err ERR_CAPACITY_EXCEEDED, p)
             else bindR (if cnt = 0 then ret xs
                         else require_msg (\<not> overlap) ''mem_copy: regions overlap''
                           (arr_copy xs (vec_length v) ys cnt)) (\<lambda>zs.
               ret (Ok True, Some (v\<lparr>vec_items := Some zs, vec_length := total\<rparr>))))))
   | (p', src') \<Rightarrow> ret (Err ERR_INVALID_ARG, p))"

definition vec_extend ::
  "bool \<Rightarrow> bool \<Rightarrow> 'a vec cptr \<Rightarrow> 'a list cptr \<Rightarrow> usize \<Rightarrow> (bool_result \<times> 'a vec cptr) run" where
  "vec_extend builtin overlap p src cnt = vec_append_array builtin overlap p src cnt"

text \<open>The loop of fill: \<open>k\<close> iterations are left, \<open>i\<close> is the loop variable.\<close>

fun vec_fill_loop :: "'a list \<Rightarrow> usize \<Rightarrow> 'a \<Rightarrow> usize \<Rightarrow> nat \<Rightarrow> 'a list run" where
  "vec_fill_loop xs len value i 0 = ret xs"
| "vec_fill_loop xs len value i (Suc k) =
     bindR (arr_set xs (len + i) value) (\<lambda>ys. vec_fill_loop ys len value (i + 1) k)"

definition vec_fill :: "'a vec cptr \<Rightarrow> 'a \<Rightarrow> usize \<Rightarrow> 'a vec cptr run" where
  "vec_fill p value cnt = (case p of
     None \<Rightarrow> ret None
   | Some v \<Rightarrow> (case vec_items v of
       None \<Rightarrow> ret (Some v)
     | Some xs \<Rightarrow>
         let remaining = vec_cap v - vec_length v;
             to_fill = (if cnt < remaining then cnt else remaining)
         in bindR (vec_fill_loop xs (vec_length v) value 0 (unat to_fill)) (\<lambda>ys.
              ret (Some (v\<lparr>vec_items := Some ys, vec_length := vec_length v + to_fill\<rparr>)))))"

definition vec_swap :: "'a vec cptr \<Rightarrow> 'a vec cptr \<Rightarrow> ('a vec cptr \<times> 'a vec cptr) run" where
  "vec_swap p q =
     require_msg (p \<noteq> None) ''a cannot be NULL''
     (require_msg (q \<noteq> None) ''b cannot be NULL''
     (bindR (deref p) (\<lambda>a. bindR (deref q) (\<lambda>b. ret (Some b, Some a)))))"

subsection \<open>Iterator and slice\<close>

definition vec_iter_init :: "'a vec cptr \<Rightarrow> 'a vec_iter" where
  "vec_iter_init p = \<lparr>it_vec = p, it_index = 0\<rparr>"

definition vec_iter_next ::
  "'a vec_iter cptr \<Rightarrow> 'a cptr \<Rightarrow> (bool \<times> 'a vec_iter cptr \<times> 'a cptr) run" where
  "vec_iter_next it out = (case it of
     None \<Rightarrow> ret (False, it, out)
   | Some s \<Rightarrow> (case it_vec s of
       None \<Rightarrow> ret (False, it, out)
     | Some v \<Rightarrow>
         if out = None then ret (False, it, out)
         else if it_index s \<ge> vec_length v then ret (False, it, out)
         else bindR (items_get v (it_index s)) (\<lambda>x.
           ret (True, Some (s\<lparr>it_index := it_index s + 1\<rparr>), Some x))))"

definition vec_slice_init :: "'a vec cptr \<Rightarrow> usize \<Rightarrow> usize \<Rightarrow> 'a vec_slice" where
  "vec_slice_init p start stop = (case p of
     None \<Rightarrow> \<lparr>vs_items = None, vs_len = 0\<rparr>
   | Some v \<Rightarrow>
       if start > stop \<or> stop > vec_length v then \<lparr>vs_items = None, vs_len = 0\<rparr>
       else \<lparr>vs_items = map_option (drop (unat start)) (vec_items v), vs_len = stop - start\<rparr>)"

definition vec_slice_get :: "'a vec_slice cptr \<Rightarrow> usize \<Rightarrow> usize run" where
  "vec_slice_get sp i =
     ensure_msg (sp \<noteq> None) ''s cannot be NULL'' (bindR (deref sp) (\<lambda>s.
     ensure_msg (i < vs_len s) ''index out of bounds'' (ret i)))"

subsection \<open>The invariant and the contents\<close>

definition vec_ok :: "'a vec \<Rightarrow> bool" where
  "vec_ok v \<longleftrightarrow> (case vec_items v of
     None \<Rightarrow> False
   | Some xs \<Rightarrow> vec_length v \<le> vec_cap v \<and> unat (vec_cap v) \<le> length xs)"

definition vec_list :: "'a vec \<Rightarrow> 'a list" where
  "vec_list v = (case vec_items v of None \<Rightarrow> [] | Some xs \<Rightarrow> take (unat (vec_length v)) xs)"

definition vec_inv :: "'a vec cptr \<Rightarrow> bool" where
  "vec_inv p = (case p of None \<Rightarrow> False | Some v \<Rightarrow> vec_ok v)"

definition vec_contents :: "'a vec cptr \<Rightarrow> 'a list" where
  "vec_contents p = (case p of None \<Rightarrow> [] | Some v \<Rightarrow> vec_list v)"

definition vec_room :: "'a vec cptr \<Rightarrow> nat" where
  "vec_room p = unat (vec_capacity p)"

lemmas vec_abs_defs = vec_inv_def vec_contents_def vec_room_def vec_capacity_def

lemma vec_someI [simp]:
  "vec_inv (Some \<lparr>vec_items = Some xs, vec_length = len, vec_cap = c\<rparr>) \<longleftrightarrow>
     unat len \<le> unat c \<and> unat c \<le> length xs"
  "vec_contents (Some \<lparr>vec_items = Some xs, vec_length = len, vec_cap = c\<rparr>) = take (unat len) xs"
  "vec_room (Some \<lparr>vec_items = i, vec_length = len, vec_cap = c\<rparr>) = unat c"
  by (simp_all add: vec_abs_defs vec_ok_def vec_list_def word_le_nat_alt)

text \<open>A well-formed vector in terms of its buffer: what every proof below starts with.\<close>

lemma vec_invE:
  assumes "vec_inv p"
  obtains xs len c where "p = Some \<lparr>vec_items = Some xs, vec_length = len, vec_cap = c\<rparr>"
    "unat len \<le> unat c" "unat c \<le> length xs" "vec_contents p = take (unat len) xs"
    "length (vec_contents p) = unat len" "vec_room p = unat c"
proof -
  obtain v where v: "p = Some v" "vec_ok v" using assms by (auto simp: vec_inv_def split: option.splits)
  obtain i len c where r: "v = \<lparr>vec_items = i, vec_length = len, vec_cap = c\<rparr>" by (cases v)
  with v obtain xs where "i = Some xs" by (auto simp: vec_ok_def split: option.splits)
  with v r have p: "p = Some \<lparr>vec_items = Some xs, vec_length = len, vec_cap = c\<rparr>" by simp
  with assms have "unat len \<le> unat c" "unat c \<le> length xs" by simp_all
  with p show thesis by (intro that [of xs len c]) simp_all
qed

subsection \<open>What the operations do on a well-formed vector\<close>

lemma vec_push_room:
  assumes "vec_inv p" "length (vec_contents p) < vec_room p"
  shows "\<exists>p'. vec_push p x = ret (Ok True, p') \<and> vec_inv p' \<and> vec_room p' = vec_room p \<and>
    vec_contents p' = vec_contents p @ [x]"
proof -
  obtain xs len c where v: "p = Some \<lparr>vec_items = Some xs, vec_length = len, vec_cap = c\<rparr>"
    "unat c \<le> length xs" "unat len < unat c"
    using assms by (elim vec_invE) auto
  then have "unat (len + 1) = Suc (unat len)" "\<not> c \<le> len"
    by (simp_all add: unat_usize_lt_Suc [of len c] word_less_nat_alt word_le_nat_alt)
  with v show ?thesis by (simp add: vec_push_def items_set_def take_Suc_update)
qed

lemma vec_push_full:
  assumes "vec_inv p" "\<not> length (vec_contents p) < vec_room p"
  shows "vec_push p x = ret (Err ERR_CAPACITY_EXCEEDED, p)"
  using assms by (elim vec_invE) (auto simp: vec_push_def word_le_nat_alt)

lemma vec_pop_some:
  assumes "vec_inv p" "vec_contents p = ys @ [y]"
  shows "\<exists>p'. vec_pop p (Some v) = ret (Ok True, p', Some y) \<and> vec_inv p' \<and> vec_room p' = vec_room p \<and>
    vec_contents p' = ys"
proof -
  obtain xs len c where v: "p = Some \<lparr>vec_items = Some xs, vec_length = len, vec_cap = c\<rparr>"
    "unat len \<le> unat c" "unat c \<le> length xs" "vec_contents p = take (unat len) xs"
    "length (vec_contents p) = unat len"
    using assms(1) by (rule vec_invE)
  have "unat len = length (ys @ [y])" using v(5) unfolding assms(2) by (rule sym)
  then have len: "unat len = Suc (length ys)" "take (unat len) xs = ys @ [y]"
    using v(4) assms(2) by simp_all
  then have "len \<noteq> 0" by auto
  then have n: "len \<noteq> 0" "unat (len - 1) = length ys"
    using len(1) by (simp_all add: unat_usize_pred)
  have lt: "length ys < length xs" using v(2,3) len(1) by linarith
  then have "take (length ys) xs @ [xs ! length ys] = ys @ [y]"
    using len by (simp add: take_Suc_conv_app_nth)
  then have "xs ! length ys = y" "take (length ys) xs = ys" by simp_all
  with v(1-3) n len(1) lt show ?thesis by (simp add: vec_pop_def items_get_def)
qed

lemma vec_pop_empty:
  assumes "vec_inv p" "vec_contents p = []"
  shows "vec_pop p (Some v) = ret (Err ERR_INVALID_STATE, p, Some v)"
  using assms by (elim vec_invE) (auto simp: vec_pop_def unat_eq_zero)

text \<open>The vector with push and pop is a bounded stack: its top is the last element.\<close>

definition vec_top_first :: "'a vec cptr \<Rightarrow> 'a list" where
  "vec_top_first p = rev (vec_contents p)"

interpretation stk: bounded_lifo vec_inv vec_top_first vec_room vec_push vec_pop
proof
  fix p :: "'a vec cptr" and slot c
  assume p: "vec_inv p"
  show "\<exists>p'. code_step vec_push vec_pop slot p c =
    ret (fst (lifo_step (vec_room p) (vec_top_first p) c), p') \<and> vec_inv p' \<and> vec_room p' = vec_room p \<and>
    vec_top_first p' = snd (lifo_step (vec_room p) (vec_top_first p) c)"
  proof (cases c)
    case (Put x)
    with p vec_push_room [OF p, of x] vec_push_full [OF p, of x] show ?thesis
      by (cases "length (vec_contents p) < vec_room p") (auto simp: vec_top_first_def)
  next
    case Take
    show ?thesis
    proof (cases "vec_contents p" rule: rev_cases)
      case Nil
      with p Take vec_pop_empty [OF p Nil, of slot] show ?thesis by (simp add: vec_top_first_def)
    next
      case (snoc ys y)
      with Take vec_pop_some [OF p snoc, of slot] show ?thesis by (auto simp: vec_top_first_def)
    qed
  qed
qed

lemma vec_try_push_eq:
  "vec_try_push p x = bindR (vec_push p x) (\<lambda>(r, p'). ret (result_is_ok r, p'))"
  by (auto simp: vec_try_push_def vec_push_def bindR_assoc split: option.splits)

lemma vec_push_unchecked_eq:
  "vec_inv p \<Longrightarrow> vec_push_unchecked p x =
    (if vec_is_full p then violation ''vector is full'' else bindR (vec_push p x) (\<lambda>(r, p'). ret p'))"
  by (elim vec_invE) (auto simp: vec_push_unchecked_def vec_push_def vec_is_full_def bindR_assoc
      items_set_def arr_set_def not_le [symmetric])

lemma vec_len_capacity:
  assumes "vec_inv p"
  shows "unat (vec_len p) = length (vec_contents p)"
    and "unat (vec_remaining p) = vec_room p - length (vec_contents p)"
    and "vec_is_empty p \<longleftrightarrow> vec_contents p = []"
    and "vec_is_full p \<longleftrightarrow> length (vec_contents p) = vec_room p"
    and "length (vec_contents p) \<le> vec_room p"
  using assms
  by (auto elim!: vec_invE simp: vec_len_def vec_remaining_def vec_is_empty_def vec_is_full_def
      unat_sub word_le_nat_alt unat_eq_zero)

lemma vec_get_value:
  "vec_inv p \<Longrightarrow> vec_get p i (Some v) =
    ret (if unat i < length (vec_contents p) then (True, Some (vec_contents p ! unat i)) else (False, Some v))"
  by (elim vec_invE) (auto simp: vec_get_def items_get_def word_le_nat_alt)

lemma vec_get_option_value:
  "vec_inv p \<Longrightarrow> vec_get_option p i =
    ret (if unat i < length (vec_contents p) then Some (vec_contents p ! unat i) else None)"
  by (elim vec_invE) (auto simp: vec_get_option_def items_get_def word_le_nat_alt option_some_def option_none_def)

lemma vec_set_value:
  "vec_inv p \<Longrightarrow> \<exists>p'. vec_set p i x = ret (unat i < length (vec_contents p), p') \<and> vec_inv p' \<and>
    vec_room p' = vec_room p \<and> vec_contents p' = (vec_contents p)[unat i := x]"
  by (elim vec_invE) (auto simp: vec_set_def items_set_def word_le_nat_alt take_update_swap list_update_beyond)

subsection \<open>Shifting elements\<close>

lemma insert_shift:
  assumes "i < n" "n < length xs"
  shows "take (Suc n) ((take (Suc i) xs @ take (n - i) (drop i xs) @ drop (Suc n) xs)[i := x]) =
    take i xs @ x # drop i (take n xs)"
proof -
  have "take (Suc i) xs = take i xs @ [xs ! i]" using assms by (simp add: take_Suc_conv_app_nth)
  then have "(take (Suc i) xs @ take (n - i) (drop i xs) @ drop (Suc n) xs)[i := x] =
      take i xs @ x # take (n - i) (drop i xs) @ drop (Suc n) xs"
    using assms by (simp add: list_update_append)
  then show ?thesis using assms by (simp add: drop_take Suc_diff_le)
qed

lemma remove_shift:
  assumes "i < n" "n \<le> length xs"
  shows "take (n - 1) (take i xs @ take (n - i - 1) (drop (Suc i) xs) @ drop (n - 1) xs) =
    take i xs @ drop (Suc i) (take n xs)"
  using assms by (simp add: drop_take)

text \<open>Opening and closing a gap in the first \<open>len\<close> elements of a buffer, as \<open>insert\<close> and \<open>remove\<close> do.\<close>

lemma insert_in_place:
  assumes "unat i \<le> unat len" "unat len < length xs"
  shows "\<exists>ys. (if i < len then arr_move xs (i + 1) i (len - i) else ret xs) = ret ys \<and> length ys = length xs \<and>
    arr_set ys i x = ret (ys[unat i := x]) \<and>
    take (Suc (unat len)) (ys[unat i := x]) = take (unat i) xs @ x # drop (unat i) (take (unat len) xs)"
proof (cases "i < len")
  case True
  then have i: "unat i < unat len" "unat (i + 1) = Suc (unat i)" "unat (len - i) = unat len - unat i"
    by (simp_all add: unat_usize_lt_Suc [of i len] word_less_nat_alt unat_sub word_le_nat_alt)
  then obtain ys where ys: "arr_move xs (i + 1) i (len - i) = ret ys" "length ys = length xs"
    "take (Suc (unat len)) (ys[unat i := x]) = take (unat i) xs @ x # drop (unat i) (take (unat len) xs)"
    using insert_shift [OF i(1) assms(2), of x] assms by (auto simp: arr_move_def)
  moreover have "arr_set ys i x = ret (ys[unat i := x])" using i(1) assms(2) ys(2) by (intro arr_set_ret) linarith
  ultimately show ?thesis using True by simp
next
  case False
  then have "unat i = unat len" using assms(1) by (simp add: word_less_nat_alt)
  with assms show ?thesis using False by (simp add: take_Suc_update)
qed

lemma remove_in_place:
  assumes "unat i < unat len" "unat len \<le> length xs"
  shows "\<exists>ys. (if i < len - 1 then arr_move xs i (i + 1) (len - i - 1) else ret xs) = ret ys \<and> length ys = length xs \<and>
    arr_get xs i = ret (take (unat len) xs ! unat i) \<and> unat (len - 1) = unat len - 1 \<and>
    take (unat len - 1) ys = take (unat i) (take (unat len) xs) @ drop (Suc (unat i)) (take (unat len) xs)"
proof -
  have "len \<noteq> 0" using assms(1) by auto
  then have l: "unat (len - 1) = unat len - 1" by (rule unat_usize_pred)
  show ?thesis
  proof (cases "i < len - 1")
    case True
    then have j: "unat (i + 1) = Suc (unat i)" "unat i < unat len - 1"
      using l by (simp_all add: unat_usize_lt_Suc [of i "len - 1"] word_less_nat_alt)
    have "len - i \<noteq> 0" "i \<le> len" using assms(1) by (auto simp: word_le_nat_alt)
    then have "unat (len - i - 1) = unat len - unat i - 1"
      by (simp add: unat_usize_pred unat_sub word_le_nat_alt)
    then have "arr_move xs i (i + 1) (len - i - 1) =
        ret (take (unat i) xs @ take (unat len - unat i - 1) (drop (Suc (unat i)) xs) @ drop (unat len - 1) xs)"
      using assms j by (simp add: arr_move_def)
    then show ?thesis using True l assms remove_shift [OF assms] by simp
  next
    case False
    then have "unat i = unat len - 1" using l assms(1) by (simp add: word_less_nat_alt)
    then show ?thesis using False l assms by simp
  qed
qed

lemma vec_insert_value:
  assumes "vec_inv p"
  shows "if unat i > length (vec_contents p) then vec_insert p i x = ret (Err ERR_OUT_OF_RANGE, p)
    else if length (vec_contents p) = vec_room p then vec_insert p i x = ret (Err ERR_CAPACITY_EXCEEDED, p)
    else \<exists>p'. vec_insert p i x = ret (Ok True, p') \<and> vec_inv p' \<and> vec_room p' = vec_room p \<and>
      vec_contents p' = take (unat i) (vec_contents p) @ x # drop (unat i) (vec_contents p)"
proof -
  obtain xs len c where v: "p = Some \<lparr>vec_items = Some xs, vec_length = len, vec_cap = c\<rparr>"
    "unat len \<le> unat c" "unat c \<le> length xs" "vec_contents p = take (unat len) xs"
    "length (vec_contents p) = unat len" "vec_room p = unat c"
    using assms by (rule vec_invE)
  show ?thesis
  proof (cases "unat i > unat len \<or> unat len = unat c")
    case True
    with v show ?thesis by (auto simp: vec_insert_def word_le_nat_alt word_less_nat_alt)
  next
    case False
    then have lt: "unat i \<le> unat len" "unat len < unat c" "unat len < length xs" "i \<le> len" "\<not> c \<le> len"
      using v(2,3) by (auto simp: word_le_nat_alt)
    then have s: "unat (len + 1) = Suc (unat len)" by (simp add: unat_usize_lt_Suc [of len c])
    from insert_in_place [OF lt(1,3), of x] obtain ys where
      "(if i < len then arr_move xs (i + 1) i (len - i) else ret xs) = ret ys" "length ys = length xs"
      "arr_set ys i x = ret (ys[unat i := x])"
      "take (Suc (unat len)) (ys[unat i := x]) = take (unat i) xs @ x # drop (unat i) (take (unat len) xs)" by blast
    moreover have "\<not> len < i" using lt(4) by auto
    ultimately show ?thesis using v lt s by (simp add: vec_insert_def split del: if_split cong: if_cong)
  qed
qed

lemma vec_remove_value:
  assumes "vec_inv p"
  shows "if vec_contents p = [] then vec_remove p i (Some v) = ret (Err ERR_INVALID_STATE, p, Some v)
    else if unat i \<ge> length (vec_contents p) then vec_remove p i (Some v) = ret (Err ERR_OUT_OF_RANGE, p, Some v)
    else \<exists>p'. vec_remove p i (Some v) = ret (Ok True, p', Some (vec_contents p ! unat i)) \<and>
      vec_inv p' \<and> vec_room p' = vec_room p \<and>
      vec_contents p' = take (unat i) (vec_contents p) @ drop (Suc (unat i)) (vec_contents p)"
proof -
  obtain xs len c where v: "p = Some \<lparr>vec_items = Some xs, vec_length = len, vec_cap = c\<rparr>"
    "unat len \<le> unat c" "unat c \<le> length xs" "vec_contents p = take (unat len) xs"
    "length (vec_contents p) = unat len" "vec_room p = unat c"
    using assms by (rule vec_invE)
  show ?thesis
  proof (cases "len = 0 \<or> unat i \<ge> unat len")
    case True
    with v show ?thesis
      by (cases "len = 0") (auto simp: vec_remove_def word_le_nat_alt unat_eq_zero)
  next
    case False
    then have i: "unat i < unat len" "unat len \<le> length xs" "\<not> len \<le> i" "len \<noteq> 0"
      "unat (len - 1) = unat len - 1"
      using v(2,3) by (auto simp: word_le_nat_alt unat_usize_pred)
    then have ne: "vec_contents p \<noteq> []" using v(5) by auto
    from remove_in_place [OF i(1,2)] obtain ys where
      "(if i < len - 1 then arr_move xs i (i + 1) (len - i - 1) else ret xs) = ret ys" "length ys = length xs"
      "arr_get xs i = ret (take (unat len) xs ! unat i)"
      "take (unat len - 1) ys = take (unat i) (take (unat len) xs) @ drop (Suc (unat i)) (take (unat len) xs)" by blast
    with v i ne show ?thesis by (simp add: vec_remove_def split del: if_split cong: if_cong)
  qed
qed

subsection \<open>Bulk operations and iteration\<close>

lemma vec_append_array_value:
  assumes "vec_inv p" "unat cnt \<le> length ys" "\<not> overlap"
  shows "if length (vec_contents p) + unat cnt \<ge> 2 ^ 64
      then vec_append_array builtin overlap p (Some ys) cnt = ret (Err ERR_OVERFLOW, p)
    else if length (vec_contents p) + unat cnt > vec_room p
      then vec_append_array builtin overlap p (Some ys) cnt = ret (Err ERR_CAPACITY_EXCEEDED, p)
    else \<exists>p'. vec_append_array builtin overlap p (Some ys) cnt = ret (Ok True, p') \<and> vec_inv p' \<and>
      vec_room p' = vec_room p \<and> vec_contents p' = vec_contents p @ take (unat cnt) ys"
proof -
  obtain xs len c where v: "p = Some \<lparr>vec_items = Some xs, vec_length = len, vec_cap = c\<rparr>"
    "unat len \<le> unat c" "unat c \<le> length xs" "vec_contents p = take (unat len) xs"
    "length (vec_contents p) = unat len" "vec_room p = unat c"
    using assms(1) by (rule vec_invE)
  show ?thesis
  proof (cases "unat len + unat cnt < 2 ^ 64")
    case False
    with v show ?thesis by (simp add: vec_append_array_def)
  next
    case fits: True
    then have sum: "unat (len + cnt) = unat len + unat cnt" by (rule unat_usize_add)
    show ?thesis
    proof (cases "unat len + unat cnt > unat c")
      case True
      with v fits sum show ?thesis by (simp add: vec_append_array_def word_less_nat_alt)
    next
      case False
      then have "unat len + unat cnt \<le> length xs" "\<not> c < len + cnt"
        using v(3) sum by (auto simp: word_less_nat_alt)
      with v fits sum assms(2,3) False show ?thesis
        by (cases "cnt = 0") (simp_all add: vec_append_array_def arr_copy_def)
    qed
  qed
qed

lemma vec_fill_loop_value:
  "unat len + unat i + k \<le> length xs \<Longrightarrow> length xs < 2 ^ 64 \<Longrightarrow> vec_fill_loop xs len value i k =
    ret (take (unat len + unat i) xs @ replicate k value @ drop (unat len + unat i + k) xs)"
proof (induction k arbitrary: xs i)
  case (Suc k)
  have add: "unat (len + i) = unat len + unat i" using Suc.prems by (intro unat_usize_add) linarith
  have lt: "unat len + unat i < length xs" using Suc.prems by linarith
  show ?case
  proof (cases "k = 0")
    case True
    with add lt show ?thesis by (simp add: upd_conv_take_nth_drop)
  next
    case False
    then have i: "unat (i + 1) = Suc (unat i)" using Suc.prems by (intro unat_usize_Suc) linarith
    have "vec_fill_loop (xs[unat len + unat i := value]) len value (i + 1) k =
      ret (take (Suc (unat len + unat i)) (xs[unat len + unat i := value]) @ replicate k value @
           drop (Suc (unat len + unat i) + k) xs)"
      using Suc.IH [of "i + 1" "xs[unat len + unat i := value]"] Suc.prems i by simp
    with add lt show ?thesis by (simp add: take_Suc_update)
  qed
qed simp

text \<open>
  Fill appends copies up to the capacity. The buffer of a real array is shorter than the
  address space.
\<close>

lemma vec_fill_value:
  assumes "vec_inv p" "\<forall>v xs. p = Some v \<longrightarrow> vec_items v = Some xs \<longrightarrow> length xs < 2 ^ 64"
  shows "\<exists>p'. vec_fill p x cnt = ret p' \<and> vec_inv p' \<and> vec_room p' = vec_room p \<and>
    vec_contents p' = vec_contents p @ replicate (min (unat cnt) (vec_room p - length (vec_contents p))) x"
proof -
  obtain xs len c where v: "p = Some \<lparr>vec_items = Some xs, vec_length = len, vec_cap = c\<rparr>"
    "unat len \<le> unat c" "unat c \<le> length xs" "vec_contents p = take (unat len) xs"
    "length (vec_contents p) = unat len" "vec_room p = unat c"
    using assms(1) by (rule vec_invE)
  define k where "k = (if cnt < c - len then cnt else c - len)"
  have k: "unat k = min (unat cnt) (unat c - unat len)"
    using v(2) by (auto simp: k_def word_less_nat_alt unat_sub word_le_nat_alt min_def)
  then have bound: "unat len + unat k \<le> unat c" using v(2) by auto
  then have sum: "unat (len + k) = unat len + unat k"
    using usize_bound [of c] by (intro unat_usize_add) linarith
  have "vec_fill_loop xs len x 0 (unat k) =
      ret (take (unat len) xs @ replicate (unat k) x @ drop (unat len + unat k) xs)"
    using vec_fill_loop_value [of len 0 "unat k" xs x] bound v(1,3) assms(2) by simp
  with v bound sum k show ?thesis by (simp add: vec_fill_def Let_def flip: k_def)
qed

text \<open>Calling next until it answers false visits the elements in order.\<close>

fun iter_collect :: "'a \<Rightarrow> 'a vec_iter \<Rightarrow> nat \<Rightarrow> 'a list run" where
  "iter_collect slot it 0 = ret []"
| "iter_collect slot it (Suc k) = bindR (vec_iter_next (Some it) (Some slot)) (\<lambda>(more, it', out).
     if more then bindR (deref it') (\<lambda>it''. bindR (deref out) (\<lambda>x.
       bindR (iter_collect slot it'' k) (\<lambda>xs. ret (x # xs))))
     else ret [])"

lemma iter_collect_from:
  assumes "vec_inv p"
  shows "unat i \<le> length (vec_contents p) \<Longrightarrow> length (vec_contents p) - unat i < k \<Longrightarrow>
    iter_collect slot \<lparr>it_vec = p, it_index = i\<rparr> k = ret (drop (unat i) (vec_contents p))"
proof (induction k arbitrary: i)
  case (Suc k)
  obtain xs len c where v: "p = Some \<lparr>vec_items = Some xs, vec_length = len, vec_cap = c\<rparr>"
    "unat len \<le> unat c" "unat c \<le> length xs" "vec_contents p = take (unat len) xs"
    "length (vec_contents p) = unat len"
    using assms by (rule vec_invE)
  show ?case
  proof (cases "i < len")
    case False
    then have "len \<le> i" by simp
    with v Suc.prems False show ?thesis by (simp add: vec_iter_next_def word_less_nat_alt)
  next
    case True
    then have i: "unat (i + 1) = Suc (unat i)" "unat i < unat len"
      by (simp_all add: unat_usize_lt_Suc word_less_nat_alt)
    then have "iter_collect slot \<lparr>it_vec = p, it_index = i + 1\<rparr> k = ret (drop (Suc (unat i)) (vec_contents p))"
      using Suc.IH [of "i + 1"] Suc.prems v(5) by simp
    moreover have "vec_contents p ! unat i # drop (Suc (unat i)) (vec_contents p) = drop (unat i) (vec_contents p)"
      using i(2) v(5) by (intro Cons_nth_drop_Suc) simp
    moreover have "\<not> len \<le> i" using True by simp
    moreover have "unat i < length xs" using i(2) v(2,3) by linarith
    ultimately show ?thesis using v i(2) by (simp add: vec_iter_next_def items_get_def)
  qed
qed simp

lemma vec_iter_visits_all:
  "vec_inv p \<Longrightarrow> iter_collect slot (vec_iter_init p) (Suc (length (vec_contents p))) = ret (vec_contents p)"
  using iter_collect_from [of p 0 "Suc (length (vec_contents p))" slot] by (simp add: vec_iter_init_def)

lemma vec_init_ok:
  assumes "unat capacity \<le> length buf" "esz \<noteq> 0" "unat capacity \<le> 2 ^ 30 div unat esz"
  shows "\<exists>v. vec_init esz (Some buf) capacity = ret v \<and> vec_inv (Some v) \<and> vec_contents (Some v) = [] \<and>
    vec_room (Some v) = unat capacity"
proof -
  have "unat (canon_vec_max_capacity div esz) = 2 ^ 30 div unat esz"
    by (simp add: unat_div_word canon_vec_max_capacity_def canon_gb_def)
  then have "\<not> capacity > canon_vec_max_capacity div esz" using assms(3) by (simp add: word_less_nat_alt)
  with assms show ?thesis by (simp add: vec_init_def)
qed

subsection \<open>Properties\<close>

definition vec_sample :: "nat vec cptr" where
  "vec_sample = Some \<lparr>vec_items = Some [10, 20, 0, 0], vec_length = 2, vec_cap = 4\<rparr>"

lemma vec_sample_ok: "vec_inv vec_sample" "vec_contents vec_sample = [10, 20]" "vec_room vec_sample = 4"
  by (simp_all add: vec_sample_def)

text \<open>C7: Inserting into a well-formed vector answers ERR_OUT_OF_RANGE past the end and
  ERR_CAPACITY_EXCEEDED when full, unchanged; otherwise the element stands at the index and
  the elements from there on are shifted by one.\<close>

theorem vec_insert_correct:
  "vec_inv p \<Longrightarrow>
   (if unat i > length (vec_contents p) then vec_insert p i x = ret (Err ERR_OUT_OF_RANGE, p)
    else if length (vec_contents p) = vec_room p then vec_insert p i x = ret (Err ERR_CAPACITY_EXCEEDED, p)
    else \<exists>p'. vec_insert p i x = ret (Ok True, p') \<and> vec_inv p' \<and> vec_room p' = vec_room p \<and>
      vec_contents p' = take (unat i) (vec_contents p) @ x # drop (unat i) (vec_contents p))"
  by (rule vec_insert_value)

theorem vec_insert_correct_witness:
  "\<exists>p'. vec_insert vec_sample 1 15 = ret (Ok True, p') \<and> vec_contents p' = [10, 15, 20]"
  using vec_insert_correct [OF vec_sample_ok(1), of 1 15] by (auto simp: vec_sample_ok)

text \<open>C8: Removing from a well-formed vector answers ERR_INVALID_STATE when empty and
  ERR_OUT_OF_RANGE past the end, unchanged; otherwise it returns the element at the index and
  closes the gap.\<close>

theorem vec_remove_correct:
  "vec_inv p \<Longrightarrow>
   (if vec_contents p = [] then vec_remove p i (Some v) = ret (Err ERR_INVALID_STATE, p, Some v)
    else if unat i \<ge> length (vec_contents p) then vec_remove p i (Some v) = ret (Err ERR_OUT_OF_RANGE, p, Some v)
    else \<exists>p'. vec_remove p i (Some v) = ret (Ok True, p', Some (vec_contents p ! unat i)) \<and>
      vec_inv p' \<and> vec_room p' = vec_room p \<and>
      vec_contents p' = take (unat i) (vec_contents p) @ drop (Suc (unat i)) (vec_contents p))"
  by (rule vec_remove_value)

theorem vec_remove_correct_witness:
  "\<exists>p'. vec_remove vec_sample 0 (Some 0) = ret (Ok True, p', Some 10) \<and> vec_contents p' = [20]"
  using vec_remove_correct [OF vec_sample_ok(1), of 0 0] by (auto simp: vec_sample_ok)

text \<open>Appending an array to a well-formed vector is all or nothing: ERR_OVERFLOW or
  ERR_CAPACITY_EXCEEDED with the vector unchanged, or the elements at its end in order.\<close>

theorem vec_append_array_correct:
  "vec_inv p \<Longrightarrow> unat cnt \<le> length ys \<Longrightarrow>
   (if length (vec_contents p) + unat cnt \<ge> 2 ^ 64
      then vec_append_array builtin False p (Some ys) cnt = ret (Err ERR_OVERFLOW, p)
    else if length (vec_contents p) + unat cnt > vec_room p
      then vec_append_array builtin False p (Some ys) cnt = ret (Err ERR_CAPACITY_EXCEEDED, p)
    else \<exists>p'. vec_append_array builtin False p (Some ys) cnt = ret (Ok True, p') \<and> vec_inv p' \<and>
      vec_room p' = vec_room p \<and> vec_contents p' = vec_contents p @ take (unat cnt) ys)"
  by (rule vec_append_array_value) simp_all

theorem vec_append_array_correct_witness:
  "\<exists>p'. vec_append_array False False vec_sample (Some [7, 8, 9]) 2 = ret (Ok True, p') \<and>
    vec_contents p' = [10, 20, 7, 8]"
  using vec_append_array_correct [OF vec_sample_ok(1), of 2 "[7, 8, 9]" False]
  by (auto simp: vec_sample_ok)

text \<open>Stepping a fresh iterator over a well-formed vector until it answers false visits the
  elements in order, each once, and reads nothing outside them.\<close>

theorem vec_iter_complete:
  "vec_inv p \<Longrightarrow>
   iter_collect slot (vec_iter_init p) (Suc (length (vec_contents p))) = ret (vec_contents p)"
  by (rule vec_iter_visits_all)

theorem vec_iter_complete_witness: "iter_collect 0 (vec_iter_init vec_sample) 3 = ret [10, 20]"
  using vec_iter_complete [OF vec_sample_ok(1), of 0] by (simp add: vec_sample_ok eval_nat_numeral)

end
