(* ===== verification/Canon_Stack.thy ===== *)
theory Canon_Stack
  imports Canon_Vec
begin

section \<open>The last-in-first-out stack (data/stack.h)\<close>

text \<open>
  \<open>DEFINE_STACK(linkage, type)\<close> makes a stack the vector of its type, with the top at its
  end. Each function of the macro is a definition that calls what the macro calls. The stack
  is an instance of \<open>bounded_lifo\<close>.
\<close>

type_synonym 'a stack = "'a vec"

definition stack_init :: "usize \<Rightarrow> 'a stack cptr \<Rightarrow> 'a list cptr \<Rightarrow> usize \<Rightarrow> 'a stack cptr run" where
  "stack_init esz s buffer capacity =
     require_msg (s \<noteq> None) ''s cannot be NULL''
       (bindR (vec_init esz buffer capacity) (\<lambda>v. ret (Some v)))"

definition stack_push :: "'a stack cptr \<Rightarrow> 'a \<Rightarrow> (bool_result \<times> 'a stack cptr) run" where
  "stack_push s item = vec_push s item"

definition stack_try_push :: "'a stack cptr \<Rightarrow> 'a \<Rightarrow> (bool \<times> 'a stack cptr) run" where
  "stack_try_push s item = vec_try_push s item"

definition stack_push_unchecked :: "'a stack cptr \<Rightarrow> 'a \<Rightarrow> 'a stack cptr run" where
  "stack_push_unchecked s item = vec_push_unchecked s item"

definition stack_pop ::
  "'a stack cptr \<Rightarrow> 'a cptr \<Rightarrow> (bool_result \<times> 'a stack cptr \<times> 'a cptr) run" where
  "stack_pop s out = vec_pop s out"

definition stack_pop_option :: "'a \<Rightarrow> 'a stack cptr \<Rightarrow> ('a option \<times> 'a stack cptr) run" where
  "stack_pop_option zero s = vec_pop_option zero s"

definition stack_peek :: "'a stack cptr \<Rightarrow> 'a cptr \<Rightarrow> (bool \<times> 'a cptr) run" where
  "stack_peek s out =
     require_msg (s \<noteq> None) ''s cannot be NULL''
     (require_msg (out \<noteq> None) ''out cannot be NULL''
       (if vec_is_empty s then ret (False, out)
        else (case vec_last s of
          None \<Rightarrow> ret (False, out)
        | Some last_idx \<Rightarrow> bindR (deref s) (\<lambda>v.
            bindR (items_get v last_idx) (\<lambda>x. ret (True, Some x))))))"

definition stack_peek_option :: "'a \<Rightarrow> 'a stack cptr \<Rightarrow> 'a option run" where
  "stack_peek_option zero s =
     bindR (stack_peek s (Some zero)) (\<lambda>(found, out).
       if found then bindR (deref out) (\<lambda>x. ret (option_some x)) else ret option_none)"

definition stack_len :: "'a stack cptr \<Rightarrow> usize" where
  "stack_len s = vec_len s"

definition stack_capacity :: "'a stack cptr \<Rightarrow> usize" where
  "stack_capacity s = vec_capacity s"

definition stack_remaining :: "'a stack cptr \<Rightarrow> usize" where
  "stack_remaining s = vec_remaining s"

definition stack_is_empty :: "'a stack cptr \<Rightarrow> bool" where
  "stack_is_empty s = vec_is_empty s"

definition stack_is_full :: "'a stack cptr \<Rightarrow> bool" where
  "stack_is_full s = vec_is_full s"

definition stack_clear :: "'a stack cptr \<Rightarrow> 'a stack cptr" where
  "stack_clear s = vec_clear s"

lemma stack_ops_eq: "stack_push = vec_push" "stack_pop = vec_pop"
  by (simp_all add: fun_eq_iff stack_push_def stack_pop_def)

interpretation st: bounded_lifo vec_inv vec_top_first vec_room stack_push stack_pop
  unfolding stack_ops_eq by (rule stk.bounded_lifo_axioms)

lemma stack_peek_value:
  assumes "vec_inv s"
  shows "stack_peek s (Some v) =
    ret (case vec_top_first s of [] \<Rightarrow> (False, Some v) | y # ys \<Rightarrow> (True, Some y))"
proof (cases "vec_contents s" rule: rev_cases)
  case Nil
  with assms show ?thesis
    using vec_len_capacity(3) [OF assms] by (auto simp: stack_peek_def vec_top_first_def vec_inv_def split: option.splits)
next
  case (snoc ys y)
  with vec_pop_some [OF assms snoc, of v] obtain p' where "vec_pop s (Some v) = ret (Ok True, p', Some y)" by auto
  with assms snoc show ?thesis
    by (elim vec_invE) (auto simp: vec_pop_def bindR_eq_Inr stack_peek_def vec_is_empty_def vec_last_def
        vec_top_first_def word_gt_0 split: if_splits)
qed

lemma stack_init_ok:
  assumes "unat capacity \<le> length buf" "esz \<noteq> 0" "unat capacity \<le> 2 ^ 30 div unat esz"
  shows "\<exists>s. stack_init esz (Some v) (Some buf) capacity = ret s \<and> vec_inv s \<and> vec_top_first s = [] \<and>
    vec_room s = unat capacity"
  using vec_init_ok [OF assms] by (auto simp: stack_init_def vec_top_first_def)

subsection \<open>Properties\<close>

definition stack_sample :: "nat stack cptr" where
  "stack_sample = Some \<lparr>vec_items = Some [10, 20, 0], vec_length = 2, vec_cap = 3\<rparr>"

lemma stack_sample_ok: "vec_inv stack_sample" "vec_top_first stack_sample = [20, 10]" "vec_room stack_sample = 3"
  by (simp_all add: stack_sample_def vec_top_first_def)

text \<open>C4: On a well-formed stack every sequence of push and pop calls gives the answers and the
  errors of the abstract bounded last-in-first-out stack of the same capacity; no call faults.\<close>

theorem stack_refines_lifo:
  "vec_inv s \<Longrightarrow> \<exists>s'. code_run stack_push stack_pop slot s cs =
     ret (fst (run_ops (lifo_step (vec_room s)) (vec_top_first s) cs), s') \<and>
     vec_inv s' \<and> vec_room s' = vec_room s \<and>
     vec_top_first s' = snd (run_ops (lifo_step (vec_room s)) (vec_top_first s) cs)"
  by (rule st.run_refines)

theorem stack_refines_lifo_witness:
  "\<exists>s'. code_run stack_push stack_pop 0 stack_sample [Put 30, Put 40, Take, Take, Take, Take] =
     ret ([Done, Failed ERR_CAPACITY_EXCEEDED, Taken 30, Taken 20, Taken 10, Failed ERR_INVALID_STATE], s') \<and>
     vec_top_first s' = []"
  using stack_refines_lifo [OF stack_sample_ok(1), of 0 "[Put 30, Put 40, Take, Take, Take, Take]"]
  by (auto simp: stack_sample_ok)

text \<open>Peeking at a well-formed stack gives the element the next pop takes, and leaves \<open>out\<close>
  alone on an empty stack.\<close>

theorem stack_peek_is_next_pop:
  "vec_inv s \<Longrightarrow>
     (vec_top_first s = [] \<longrightarrow> stack_peek s (Some v) = ret (False, Some v)) \<and>
     (vec_top_first s \<noteq> [] \<longrightarrow> stack_peek s (Some v) = ret (True, Some (hd (vec_top_first s))) \<and>
       (\<exists>s'. stack_pop s (Some v) = ret (Ok True, s', Some (hd (vec_top_first s)))))"
proof -
  assume s: "vec_inv s"
  show ?thesis
  proof (cases "vec_contents s" rule: rev_cases)
    case Nil
    with stack_peek_value [OF s, of v] show ?thesis by (simp add: vec_top_first_def)
  next
    case (snoc ys y)
    with stack_peek_value [OF s, of v] vec_pop_some [OF s snoc, of v] show ?thesis
      by (auto simp: vec_top_first_def stack_pop_def)
  qed
qed

theorem stack_peek_is_next_pop_witness:
  "stack_peek stack_sample (Some 0) = ret (True, Some 20)"
  using stack_peek_is_next_pop [OF stack_sample_ok(1), of 0] by (simp add: stack_sample_ok)

end
