(* ===== verification/Canon_Compare.thy ===== *)
theory Canon_Compare
  imports Canon_Prelude
begin

section \<open>Comparators and arrays of opaque elements (core/primitives/compare.h, ptr.h)\<close>

text \<open>
  The algorithms of algo/ and the priority queue work on an array of \<open>elem_size\<close>-byte elements
  through \<open>ptr_elem\<close> and compare elements with an \<open>algo_cmp_fn\<close>. Such an array is the list of
  its elements; \<open>elem_get\<close> and \<open>elem_set\<close> are an access through \<open>ptr_elem\<close>, with its contract
  checks, and \<open>array_fits\<close> says that the array's size in bytes is a \<open>usize\<close>, as it is for any
  object. A comparator is a function of the two elements: its \<open>ctx\<close> argument is fixed.

  The locale \<open>comparator\<close> is the contract of \<open>algo_cmp_fn\<close>; the comparators of compare.h for
  the integer types interpret it (the floating-point ones are not modelled).
\<close>

subsection \<open>The comparators of compare.h\<close>

type_synonym 'a cmp_fn = "'a \<Rightarrow> 'a \<Rightarrow> int"
type_synonym 'a pred_fn = "'a \<Rightarrow> bool"

definition three_way :: "bool \<Rightarrow> bool \<Rightarrow> int" where
  "three_way gt lt = (if gt then 1 else 0) - (if lt then 1 else 0)"

definition algo_cmp_u8 :: "u8 cmp_fn" where
  "algo_cmp_u8 x y = three_way (x > y) (x < y)"

definition algo_cmp_u8_desc :: "u8 cmp_fn" where
  "algo_cmp_u8_desc a b = algo_cmp_u8 b a"

definition algo_cmp_u16 :: "u16 cmp_fn" where
  "algo_cmp_u16 x y = three_way (x > y) (x < y)"

definition algo_cmp_u16_desc :: "u16 cmp_fn" where
  "algo_cmp_u16_desc a b = algo_cmp_u16 b a"

definition algo_cmp_u32 :: "u32 cmp_fn" where
  "algo_cmp_u32 x y = three_way (x > y) (x < y)"

definition algo_cmp_u32_desc :: "u32 cmp_fn" where
  "algo_cmp_u32_desc a b = algo_cmp_u32 b a"

definition algo_cmp_u64 :: "u64 cmp_fn" where
  "algo_cmp_u64 x y = three_way (x > y) (x < y)"

definition algo_cmp_u64_desc :: "u64 cmp_fn" where
  "algo_cmp_u64_desc a b = algo_cmp_u64 b a"

definition algo_cmp_usize :: "usize cmp_fn" where
  "algo_cmp_usize x y = three_way (x > y) (x < y)"

definition algo_cmp_usize_desc :: "usize cmp_fn" where
  "algo_cmp_usize_desc a b = algo_cmp_usize b a"

text \<open>A signed element is its two's complement word, compared as \<open>sint\<close>.\<close>

definition algo_cmp_i8 :: "8 word cmp_fn" where
  "algo_cmp_i8 x y = three_way (sint x > sint y) (sint x < sint y)"

definition algo_cmp_i8_desc :: "8 word cmp_fn" where
  "algo_cmp_i8_desc a b = algo_cmp_i8 b a"

definition algo_cmp_i16 :: "16 word cmp_fn" where
  "algo_cmp_i16 x y = three_way (sint x > sint y) (sint x < sint y)"

definition algo_cmp_i16_desc :: "16 word cmp_fn" where
  "algo_cmp_i16_desc a b = algo_cmp_i16 b a"

definition algo_cmp_i32 :: "32 word cmp_fn" where
  "algo_cmp_i32 x y = three_way (sint x > sint y) (sint x < sint y)"

definition algo_cmp_i32_desc :: "32 word cmp_fn" where
  "algo_cmp_i32_desc a b = algo_cmp_i32 b a"

definition algo_cmp_i64 :: "64 word cmp_fn" where
  "algo_cmp_i64 x y = three_way (sint x > sint y) (sint x < sint y)"

definition algo_cmp_i64_desc :: "64 word cmp_fn" where
  "algo_cmp_i64_desc a b = algo_cmp_i64 b a"

definition algo_cmp_isize :: "64 word cmp_fn" where
  "algo_cmp_isize x y = three_way (sint x > sint y) (sint x < sint y)"

definition algo_cmp_isize_desc :: "64 word cmp_fn" where
  "algo_cmp_isize_desc a b = algo_cmp_isize b a"

subsection \<open>The contract of a comparator\<close>

locale comparator =
  fixes cmp :: "'a cmp_fn"
  assumes cmp_flip: "cmp a b < 0 \<longleftrightarrow> 0 < cmp b a"
    and cmp_trans: "cmp a b \<le> 0 \<Longrightarrow> cmp b c \<le> 0 \<Longrightarrow> cmp a c \<le> 0"
begin

lemma cmp_refl [simp]: "cmp a a = 0"
  using cmp_flip [of a a] by linarith

lemma cmp_sym: "cmp a b = 0 \<longleftrightarrow> cmp b a = 0"
  using cmp_flip [of a b] cmp_flip [of b a] by linarith

lemma cmp_le_flip: "cmp a b \<le> 0 \<longleftrightarrow> 0 \<le> cmp b a"
  using cmp_flip [of b a] by linarith

lemma cmp_total: "\<not> cmp a b \<le> 0 \<Longrightarrow> cmp b a \<le> 0"
  using cmp_flip [of b a] by linarith

lemma cmp_less_trans: "cmp a b < 0 \<Longrightarrow> cmp b c \<le> 0 \<Longrightarrow> cmp a c < 0"
  using cmp_trans [of b c a] cmp_flip [of a b] cmp_flip [of a c] cmp_le_flip [of a c] by linarith

lemma cmp_le_less_trans: "cmp a b \<le> 0 \<Longrightarrow> cmp b c < 0 \<Longrightarrow> cmp a c < 0"
  using cmp_trans [of c a b] cmp_flip [of b c] cmp_flip [of a c] cmp_le_flip [of a c] by linarith

text \<open>Elements that compare equal to one compare alike with every other.\<close>

lemma cmp_equal_class: "cmp z a = 0 \<Longrightarrow> cmp z b = 0 \<Longrightarrow> cmp a b = 0"
proof -
  assume "cmp z a = 0" "cmp z b = 0"
  moreover from this have "cmp a z = 0" "cmp b z = 0" by (simp_all add: cmp_sym [of a z] cmp_sym [of b z])
  ultimately have "cmp a b \<le> 0" "cmp b a \<le> 0"
    using cmp_trans [of a z b] cmp_trans [of b z a] by simp_all
  then show "cmp a b = 0" using cmp_le_flip [of a b] cmp_le_flip [of b a] by linarith
qed

end

lemma three_way_simps [simp]:
  "three_way gt lt \<le> 0 \<longleftrightarrow> (gt \<longrightarrow> lt)"
  "three_way gt lt < 0 \<longleftrightarrow> \<not> gt \<and> lt"
  "0 < three_way gt lt \<longleftrightarrow> gt \<and> \<not> lt"
  "three_way gt lt = 0 \<longleftrightarrow> gt = lt"
  by (auto simp: three_way_def)

text \<open>A three-way comparison of keys in a linear order meets the contract, and so does its reverse.\<close>

lemma three_way_comparator:
  fixes key :: "'a \<Rightarrow> 'k::linorder"
  shows "comparator (\<lambda>x y. three_way (key x > key y) (key x < key y))"
    and "comparator (\<lambda>x y. three_way (key y > key x) (key y < key x))"
  by unfold_locales auto

interpretation u8_up: comparator algo_cmp_u8
  using three_way_comparator(1) [where key = "\<lambda>x :: u8. x"] by (simp add: algo_cmp_u8_def [abs_def])

interpretation u8_down: comparator algo_cmp_u8_desc
  using three_way_comparator(2) [where key = "\<lambda>x :: u8. x"] by (simp add: algo_cmp_u8_desc_def [abs_def] algo_cmp_u8_def [abs_def])

interpretation u16_up: comparator algo_cmp_u16
  using three_way_comparator(1) [where key = "\<lambda>x :: u16. x"] by (simp add: algo_cmp_u16_def [abs_def])

interpretation u16_down: comparator algo_cmp_u16_desc
  using three_way_comparator(2) [where key = "\<lambda>x :: u16. x"] by (simp add: algo_cmp_u16_desc_def [abs_def] algo_cmp_u16_def [abs_def])

interpretation u32_up: comparator algo_cmp_u32
  using three_way_comparator(1) [where key = "\<lambda>x :: u32. x"] by (simp add: algo_cmp_u32_def [abs_def])

interpretation u32_down: comparator algo_cmp_u32_desc
  using three_way_comparator(2) [where key = "\<lambda>x :: u32. x"] by (simp add: algo_cmp_u32_desc_def [abs_def] algo_cmp_u32_def [abs_def])

interpretation u64_up: comparator algo_cmp_u64
  using three_way_comparator(1) [where key = "\<lambda>x :: u64. x"] by (simp add: algo_cmp_u64_def [abs_def])

interpretation u64_down: comparator algo_cmp_u64_desc
  using three_way_comparator(2) [where key = "\<lambda>x :: u64. x"] by (simp add: algo_cmp_u64_desc_def [abs_def] algo_cmp_u64_def [abs_def])

interpretation usize_up: comparator algo_cmp_usize
  using three_way_comparator(1) [where key = "\<lambda>x :: usize. x"] by (simp add: algo_cmp_usize_def [abs_def])

interpretation usize_down: comparator algo_cmp_usize_desc
  using three_way_comparator(2) [where key = "\<lambda>x :: usize. x"] by (simp add: algo_cmp_usize_desc_def [abs_def] algo_cmp_usize_def [abs_def])

interpretation i8_up: comparator algo_cmp_i8
  using three_way_comparator(1) [where key = "sint :: 8 word \<Rightarrow> int"]
  by (simp add: algo_cmp_i8_def [abs_def])

interpretation i8_down: comparator algo_cmp_i8_desc
  using three_way_comparator(2) [where key = "sint :: 8 word \<Rightarrow> int"]
  by (simp add: algo_cmp_i8_desc_def [abs_def] algo_cmp_i8_def [abs_def])

interpretation i16_up: comparator algo_cmp_i16
  using three_way_comparator(1) [where key = "sint :: 16 word \<Rightarrow> int"]
  by (simp add: algo_cmp_i16_def [abs_def])

interpretation i16_down: comparator algo_cmp_i16_desc
  using three_way_comparator(2) [where key = "sint :: 16 word \<Rightarrow> int"]
  by (simp add: algo_cmp_i16_desc_def [abs_def] algo_cmp_i16_def [abs_def])

interpretation i32_up: comparator algo_cmp_i32
  using three_way_comparator(1) [where key = "sint :: 32 word \<Rightarrow> int"]
  by (simp add: algo_cmp_i32_def [abs_def])

interpretation i32_down: comparator algo_cmp_i32_desc
  using three_way_comparator(2) [where key = "sint :: 32 word \<Rightarrow> int"]
  by (simp add: algo_cmp_i32_desc_def [abs_def] algo_cmp_i32_def [abs_def])

interpretation i64_up: comparator algo_cmp_i64
  using three_way_comparator(1) [where key = "sint :: 64 word \<Rightarrow> int"]
  by (simp add: algo_cmp_i64_def [abs_def])

interpretation i64_down: comparator algo_cmp_i64_desc
  using three_way_comparator(2) [where key = "sint :: 64 word \<Rightarrow> int"]
  by (simp add: algo_cmp_i64_desc_def [abs_def] algo_cmp_i64_def [abs_def])

interpretation isize_up: comparator algo_cmp_isize
  using three_way_comparator(1) [where key = "sint :: 64 word \<Rightarrow> int"]
  by (simp add: algo_cmp_isize_def [abs_def])

interpretation isize_down: comparator algo_cmp_isize_desc
  using three_way_comparator(2) [where key = "sint :: 64 word \<Rightarrow> int"]
  by (simp add: algo_cmp_isize_desc_def [abs_def] algo_cmp_isize_def [abs_def])

subsection \<open>Access to the elements\<close>

definition elem_ptr :: "usize \<Rightarrow> usize \<Rightarrow> 'b run \<Rightarrow> 'b run" where
  "elem_ptr esz i k =
     require_msg (0 < esz) ''ptr_elem: elem_size must be > 0''
     (ensure_msg (i \<le> canon_usize_max div esz) ''ptr_elem: index * elem_size overflows usize'' k)"

definition elem_get :: "usize \<Rightarrow> 'a list \<Rightarrow> usize \<Rightarrow> 'a run" where
  "elem_get esz xs i = elem_ptr esz i (arr_get xs i)"

definition elem_set :: "usize \<Rightarrow> 'a list \<Rightarrow> usize \<Rightarrow> 'a \<Rightarrow> 'a list run" where
  "elem_set esz xs i x = elem_ptr esz i (arr_set xs i x)"

definition array_fits :: "usize \<Rightarrow> nat \<Rightarrow> bool" where
  "array_fits esz n \<longleftrightarrow> 0 < unat esz \<and> n * unat esz < 2 ^ 64"

lemma array_fits_length: "array_fits esz n \<Longrightarrow> n < 2 ^ 64"
  by (metis array_fits_def le_less_trans mult.right_neutral mult_le_mono2 Suc_leI One_nat_def)

lemma elem_ptr_ret:
  assumes "array_fits esz n" "unat i \<le> n"
  shows "elem_ptr esz i k = k"
proof -
  have "unat i * unat esz < 2 ^ 64"
    using assms by (metis array_fits_def le_less_trans mult_le_mono1)
  then have "unat i \<le> (2 ^ 64 - 1) div unat esz"
    using assms(1) by (subst less_eq_div_iff_mult_less_eq) (auto simp: array_fits_def)
  then have "i \<le> canon_usize_max div esz" by (simp add: word_le_nat_alt unat_div_word unat_usize_max)
  moreover have "0 < esz" using assms(1) by (simp add: array_fits_def word_less_nat_alt)
  ultimately show ?thesis by (simp add: elem_ptr_def)
qed

lemma elem_get_ret [simp]:
  "array_fits esz (length xs) \<Longrightarrow> unat i < length xs \<Longrightarrow> elem_get esz xs i = ret (xs ! unat i)"
  by (simp add: elem_get_def elem_ptr_ret [of esz "length xs"])

lemma elem_set_ret [simp]:
  "array_fits esz (length xs) \<Longrightarrow> unat i < length xs \<Longrightarrow> elem_set esz xs i x = ret (xs[unat i := x])"
  by (simp add: elem_set_def elem_ptr_ret [of esz "length xs"])

end
