(* ===== verification/Canon_Sort.thy ===== *)
theory Canon_Sort
  imports Canon_Compare "HOL-Library.Multiset"
begin

section \<open>Stable sorting (algo/sort/sort_impl.h)\<close>

text \<open>
  \<open>algo_sort\<close> is insertion sort on a range below 16 elements or without a temporary buffer,
  and merge sort otherwise. The definitions follow the functions of sort_impl.h: the inner
  loop of the insertion sort with its index \<open>j\<close> (\<open>k\<close> iterations are left), the merge with
  its three indexes and its three loops, the recursion on ranges. The temporary buffer is an
  array of its own, written element by element and copied back. An element of more than
  \<open>ALGO_SORT_SWAP_BUF_SIZE\<close> bytes violates the contract of the swap.

  The specification is \<open>stable_sort_of\<close>: the output is a permutation of the input, ordered by
  the comparator, and elements that compare equal keep their order. The lemmas show what the
  loops compute on the segment they work on, as list functions, and that those sort.
\<close>

subsection \<open>Swap and insertion sort\<close>

definition algo_sort_swap_buf_size :: usize where
  "algo_sort_swap_buf_size = 256"

text \<open>The three copies go through the local buffer \<open>tmp\<close>, which holds the element at \<open>a\<close>.\<close>

definition algo_sort_swap :: "usize \<Rightarrow> 'a list \<Rightarrow> usize \<Rightarrow> usize \<Rightarrow> 'a list run" where
  "algo_sort_swap esz xs a b =
     require_msg (esz \<le> algo_sort_swap_buf_size) ''algo_sort_swap: elem_size exceeds ALGO_SORT_SWAP_BUF_SIZE''
     (bindR (arr_get xs a) (\<lambda>tmp.
      bindR (arr_get xs b) (\<lambda>y.
      bindR (arr_set xs a y) (\<lambda>xs'. arr_set xs' b tmp))))"

text \<open>\<open>for (j = i; j > left; j--)\<close>: \<open>k = j - left\<close> iterations are left.\<close>

fun insertion_inner :: "usize \<Rightarrow> 'a cmp_fn \<Rightarrow> 'a list \<Rightarrow> usize \<Rightarrow> nat \<Rightarrow> 'a list run" where
  "insertion_inner esz cmp xs j 0 = ret xs"
| "insertion_inner esz cmp xs j (Suc k) =
     bindR (elem_get esz xs (j - 1)) (\<lambda>a.
     bindR (elem_get esz xs j) (\<lambda>b.
       if cmp a b \<le> 0 then ret xs
       else bindR (algo_sort_swap esz xs (j - 1) j) (\<lambda>xs'. insertion_inner esz cmp xs' (j - 1) k)))"

text \<open>\<open>for (i = left + 1; i < right; i++)\<close>: \<open>k = right - i\<close> iterations are left.\<close>

fun insertion_outer :: "usize \<Rightarrow> 'a cmp_fn \<Rightarrow> 'a list \<Rightarrow> usize \<Rightarrow> usize \<Rightarrow> nat \<Rightarrow> 'a list run" where
  "insertion_outer esz cmp xs left i 0 = ret xs"
| "insertion_outer esz cmp xs left i (Suc k) =
     bindR (insertion_inner esz cmp xs i (unat i - unat left)) (\<lambda>xs'.
       insertion_outer esz cmp xs' left (i + 1) k)"

definition algo_insertion_sort_range ::
  "'a list \<Rightarrow> usize \<Rightarrow> usize \<Rightarrow> usize \<Rightarrow> 'a cmp_fn \<Rightarrow> 'a list run" where
  "algo_insertion_sort_range xs left right esz cmp =
     insertion_outer esz cmp xs left (left + 1) (unat right - unat (left + 1))"

subsection \<open>Merge sort\<close>

text \<open>The first loop; its result is the buffer and the three indexes when it ends.\<close>

function merge_both ::
  "usize \<Rightarrow> 'a cmp_fn \<Rightarrow> 'a list \<Rightarrow> usize \<Rightarrow> usize \<Rightarrow> 'a list \<Rightarrow> usize \<Rightarrow> usize \<Rightarrow> usize \<Rightarrow>
   ('a list \<times> usize \<times> usize \<times> usize) run" where
  "merge_both esz cmp xs mid right temp i j k =
     (if i < mid \<and> j < right then
        bindR (elem_get esz xs i) (\<lambda>le.
        bindR (elem_get esz xs j) (\<lambda>re.
          if cmp le re \<le> 0
          then bindR (elem_set esz temp k le) (\<lambda>temp'. merge_both esz cmp xs mid right temp' (i + 1) j (k + 1))
          else bindR (elem_set esz temp k re) (\<lambda>temp'. merge_both esz cmp xs mid right temp' i (j + 1) (k + 1))))
      else ret (temp, i, j, k))"
  by pat_completeness auto
termination
  by (relation "measure (\<lambda>(esz, cmp, xs, mid, right, temp, i, j, k). (unat mid - unat i) + (unat right - unat j))")
    (auto simp: unat_usize_lt_Suc word_less_nat_alt)

declare merge_both.simps [simp del]

text \<open>The second and the third loop copy what is left of one side, from \<open>i\<close> to \<open>stop\<close>.\<close>

function merge_rest ::
  "usize \<Rightarrow> 'a list \<Rightarrow> usize \<Rightarrow> 'a list \<Rightarrow> usize \<Rightarrow> usize \<Rightarrow> ('a list \<times> usize) run" where
  "merge_rest esz xs stop temp i k =
     (if i < stop then
        bindR (elem_get esz xs i) (\<lambda>x.
        bindR (elem_set esz temp k x) (\<lambda>temp'. merge_rest esz xs stop temp' (i + 1) (k + 1)))
      else ret (temp, k))"
  by pat_completeness auto
termination
  by (relation "measure (\<lambda>(esz, xs, stop, temp, i, k). unat stop - unat i)")
    (auto simp: unat_usize_lt_Suc word_less_nat_alt)

declare merge_rest.simps [simp del]

text \<open>The result is the array and the temporary buffer.\<close>

definition algo_merge ::
  "'a list \<Rightarrow> usize \<Rightarrow> usize \<Rightarrow> usize \<Rightarrow> usize \<Rightarrow> 'a cmp_fn \<Rightarrow> 'a list \<Rightarrow> ('a list \<times> 'a list) run" where
  "algo_merge xs left mid right esz cmp temp =
     bindR (merge_both esz cmp xs mid right temp left mid 0) (\<lambda>(temp1, i, j, k).
     bindR (merge_rest esz xs mid temp1 i k) (\<lambda>(temp2, k2).
     bindR (merge_rest esz xs right temp2 j k2) (\<lambda>(temp3, k3).
       elem_ptr esz left
         (let n = unat (right - left) in
          if n \<le> length temp3 \<and> unat left + n \<le> length xs
          then ret (take (unat left) xs @ take n temp3 @ drop (unat left + n) xs, temp3)
          else undefined_behaviour ''memcpy outside the array''))))"

function algo_merge_sort_range ::
  "'a list \<Rightarrow> usize \<Rightarrow> usize \<Rightarrow> usize \<Rightarrow> 'a cmp_fn \<Rightarrow> 'a list \<Rightarrow> ('a list \<times> 'a list) run" where
  "algo_merge_sort_range xs left right esz cmp temp =
     (if right - left \<le> 1 then ret (xs, temp)
      else if right - left < 16 then
        bindR (algo_insertion_sort_range xs left right esz cmp) (\<lambda>xs'. ret (xs', temp))
      else let mid = left + (right - left) div 2 in
        bindR (algo_merge_sort_range xs left mid esz cmp temp) (\<lambda>(xs1, temp1).
        bindR (algo_merge_sort_range xs1 mid right esz cmp temp1) (\<lambda>(xs2, temp2).
          algo_merge xs2 left mid right esz cmp temp2)))"
  by pat_completeness auto

lemma half_range:
  fixes left right :: usize
  assumes "\<not> right - left \<le> 1"
  defines "mid \<equiv> left + (right - left) div 2"
  shows "unat (mid - left) = unat (right - left) div 2"
    and "unat (right - mid) = unat (right - left) - unat (right - left) div 2"
proof -
  have h: "unat ((right - left) div 2) = unat (right - left) div 2" by (simp add: unat_div_word)
  then show "unat (mid - left) = unat (right - left) div 2" by (simp add: mid_def)
  have "right - mid = (right - left) - (right - left) div 2" by (simp add: mid_def)
  moreover have "(right - left) div 2 \<le> right - left" using h by (simp add: word_le_nat_alt)
  ultimately show "unat (right - mid) = unat (right - left) - unat (right - left) div 2"
    by (simp only: unat_sub h)
qed

termination algo_merge_sort_range
  by (relation "measure (\<lambda>(xs, left, right, esz, cmp, temp). unat (right - left))")
    (simp_all only: in_measure split_conv half_range not_le word_less_nat_alt, simp_all)

declare algo_merge_sort_range.simps [simp del]

subsection \<open>Entry points\<close>

definition algo_sort ::
  "'a list cptr \<Rightarrow> usize \<Rightarrow> usize \<Rightarrow> 'a cmp_fn cptr \<Rightarrow> 'a list cptr \<Rightarrow> 'a list run" where
  "algo_sort base len esz cmp temp_buffer =
     require_msg (base \<noteq> None) ''algo_sort: base cannot be NULL''
     (require_msg (esz > 0) ''algo_sort: elem_size must be > 0''
     (require_msg (cmp \<noteq> None) ''algo_sort: cmp cannot be NULL''
     (bindR (deref base) (\<lambda>xs. bindR (deref cmp) (\<lambda>c.
       if len < 2 then ret xs
       else case temp_buffer of
         None \<Rightarrow> algo_insertion_sort_range xs 0 len esz c
       | Some temp \<Rightarrow>
           if len < 16 then algo_insertion_sort_range xs 0 len esz c
           else bindR (algo_merge_sort_range xs 0 len esz c temp) (\<lambda>(ys, temp'). ret ys))))))"

fun is_sorted_loop :: "usize \<Rightarrow> 'a cmp_fn \<Rightarrow> 'a list \<Rightarrow> usize \<Rightarrow> nat \<Rightarrow> bool run" where
  "is_sorted_loop esz cmp xs i 0 = ret True"
| "is_sorted_loop esz cmp xs i (Suc k) =
     bindR (elem_get esz xs (i - 1)) (\<lambda>a.
     bindR (elem_get esz xs i) (\<lambda>b.
       if cmp a b > 0 then ret False else is_sorted_loop esz cmp xs (i + 1) k))"

definition algo_is_sorted :: "'a list cptr \<Rightarrow> usize \<Rightarrow> usize \<Rightarrow> 'a cmp_fn cptr \<Rightarrow> bool run" where
  "algo_is_sorted base len esz cmp =
     require_msg (base \<noteq> None) ''algo_is_sorted: base cannot be NULL''
     (require_msg (esz > 0) ''algo_is_sorted: elem_size must be > 0''
     (require_msg (cmp \<noteq> None) ''algo_is_sorted: cmp cannot be NULL''
     (bindR (deref base) (\<lambda>xs. bindR (deref cmp) (\<lambda>c.
       if len < 2 then ret True else is_sorted_loop esz c xs 1 (unat len - 1))))))"

subsection \<open>What a stable sort is\<close>

text \<open>The elements that compare equal to \<open>z\<close> are in \<open>ys\<close> in the order they have in \<open>xs\<close>.\<close>

definition stable_sort_of :: "'a cmp_fn \<Rightarrow> 'a list \<Rightarrow> 'a list \<Rightarrow> bool" where
  "stable_sort_of cmp xs ys \<longleftrightarrow> mset ys = mset xs \<and> sorted_wrt (\<lambda>a b. cmp a b \<le> 0) ys \<and>
     (\<forall>z. filter (\<lambda>a. cmp z a = 0) ys = filter (\<lambda>a. cmp z a = 0) xs)"

text \<open>
  The list functions the loops compute: \<open>sink x r\<close> moves \<open>x\<close> down the reversed prefix \<open>r\<close>, past
  the elements greater than it, and \<open>merge_lists\<close> takes the left head unless the right one is
  smaller.
\<close>

fun sink :: "'a cmp_fn \<Rightarrow> 'a \<Rightarrow> 'a list \<Rightarrow> 'a list" where
  "sink cmp x [] = [x]"
| "sink cmp x (y # r) = (if cmp y x \<le> 0 then x # y # r else y # sink cmp x r)"

fun merge_lists :: "'a cmp_fn \<Rightarrow> 'a list \<Rightarrow> 'a list \<Rightarrow> 'a list" where
  "merge_lists cmp [] ys = ys"
| "merge_lists cmp xs [] = xs"
| "merge_lists cmp (x # xs) (y # ys) =
     (if cmp x y \<le> 0 then x # merge_lists cmp xs (y # ys) else y # merge_lists cmp (x # xs) ys)"

lemma merge_lists_Nil2 [simp]: "merge_lists cmp xs [] = xs"
  by (cases xs) auto

lemma length_sink [simp]: "length (sink cmp x r) = Suc (length r)"
  by (induction r) auto

lemma mset_sink [simp]: "mset (sink cmp x r) = add_mset x (mset r)"
  by (induction r) auto

lemma length_merge_lists [simp]: "length (merge_lists cmp xs ys) = length xs + length ys"
  by (induction cmp xs ys rule: merge_lists.induct) auto

lemma mset_merge_lists [simp]: "mset (merge_lists cmp xs ys) = mset xs + mset ys"
  by (induction cmp xs ys rule: merge_lists.induct) auto

lemma set_sink [simp]: "set (sink cmp x r) = insert x (set r)"
  by (induction r) auto

lemma set_merge_lists [simp]: "set (merge_lists cmp xs ys) = set xs \<union> set ys"
  by (induction cmp xs ys rule: merge_lists.induct) auto

context comparator
begin

lemma sink_sorted:
  "sorted_wrt (\<lambda>a b. cmp b a \<le> 0) r \<Longrightarrow> sorted_wrt (\<lambda>a b. cmp b a \<le> 0) (sink cmp x r)"
  by (induction r) (auto dest: cmp_total intro: cmp_trans)

text \<open>An element sinks only past greater ones, so its class keeps its order.\<close>

lemma sink_stable:
  "filter (\<lambda>a. cmp z a = 0) (sink cmp x r) = filter (\<lambda>a. cmp z a = 0) (x # r)"
proof (induction r)
  case (Cons y r)
  have "cmp z x = 0 \<Longrightarrow> cmp z y = 0 \<Longrightarrow> cmp y x \<le> 0"
    using cmp_equal_class [of z y x] by simp
  with Cons show ?case by auto
qed simp

lemma merge_induct [case_names Nil1 Nil2 Cons]:
  assumes "\<And>ys. P [] ys" "\<And>x xs. P (x # xs) []"
    "\<And>x xs y ys. (cmp x y \<le> 0 \<Longrightarrow> P xs (y # ys)) \<Longrightarrow> (\<not> cmp x y \<le> 0 \<Longrightarrow> P (x # xs) ys) \<Longrightarrow>
      P (x # xs) (y # ys)"
  shows "P xs ys"
  using assms merge_lists.induct [of "\<lambda>c xs ys. c = cmp \<longrightarrow> P xs ys" cmp xs ys] by auto

lemma merge_sorted:
  "sorted_wrt (\<lambda>a b. cmp a b \<le> 0) xs \<Longrightarrow> sorted_wrt (\<lambda>a b. cmp a b \<le> 0) ys \<Longrightarrow>
   sorted_wrt (\<lambda>a b. cmp a b \<le> 0) (merge_lists cmp xs ys)"
  by (induction xs ys rule: merge_induct) (auto dest: cmp_total intro: cmp_trans)

lemma merge_stable:
  "sorted_wrt (\<lambda>a b. cmp a b \<le> 0) xs \<Longrightarrow>
   filter (\<lambda>a. cmp z a = 0) (merge_lists cmp xs ys) =
   filter (\<lambda>a. cmp z a = 0) xs @ filter (\<lambda>a. cmp z a = 0) ys"
proof (induction xs ys rule: merge_induct)
  case (Cons x xs y ys)
  show ?case
  proof (cases "cmp x y \<le> 0")
    case True
    with Cons show ?thesis by simp
  next
    case False
    have "filter (\<lambda>a. cmp z a = 0) (x # xs) = []" if "cmp z y = 0"
    proof (rule filter_False, rule ballI)
      fix a assume "a \<in> set (x # xs)"
      then have "cmp x a \<le> 0" using Cons.prems by auto
      moreover have "cmp y x < 0" using False cmp_flip [of y x] by simp
      ultimately have "cmp y a < 0" by (rule cmp_less_trans [rotated])
      then show "cmp z a \<noteq> 0" using cmp_equal_class [OF that, of a] by auto
    qed
    with Cons False show ?thesis by auto
  qed
qed auto

lemma stable_sort_of_merge:
  "stable_sort_of cmp xs xs' \<Longrightarrow> stable_sort_of cmp ys ys' \<Longrightarrow>
   stable_sort_of cmp (xs @ ys) (merge_lists cmp xs' ys')"
  by (simp add: stable_sort_of_def merge_sorted merge_stable)

lemma sorted_rev:
  "sorted_wrt (\<lambda>a b. cmp b a \<le> 0) (rev xs) \<longleftrightarrow> sorted_wrt (\<lambda>a b. cmp a b \<le> 0) xs"
  by (simp add: sorted_wrt_rev)

lemma stable_sort_of_sink:
  assumes "stable_sort_of cmp xs ys"
  shows "stable_sort_of cmp (xs @ [x]) (rev (sink cmp x (rev ys)))"
proof -
  have "sorted_wrt (\<lambda>a b. cmp a b \<le> 0) (rev (sink cmp x (rev ys)))"
    using assms sink_sorted [of "rev ys" x] sorted_rev [of ys] sorted_rev [of "rev (sink cmp x (rev ys))"]
    by (simp add: stable_sort_of_def)
  moreover have "filter (\<lambda>a. cmp z a = 0) (rev (sink cmp x (rev ys))) = filter (\<lambda>a. cmp z a = 0) (xs @ [x])" for z
    using assms sink_stable [of z x "rev ys"]
    by (simp add: stable_sort_of_def flip: rev_filter)
  ultimately show ?thesis using assms by (simp add: stable_sort_of_def)
qed

lemma stable_sort_of_refl [simp]: "stable_sort_of cmp [] []" "stable_sort_of cmp [x] [x]"
  by (simp_all add: stable_sort_of_def)

end

subsection \<open>What the loops compute\<close>

lemma insertion_inner_sinks:
  assumes "esz \<le> algo_sort_swap_buf_size"
  shows "array_fits esz (length pre + length r + Suc (length post)) \<Longrightarrow> unat j = length pre + length r \<Longrightarrow>
    insertion_inner esz cmp (pre @ rev r @ x # post) j (length r) = ret (pre @ rev (sink cmp x r) @ post)"
proof (induction r arbitrary: post j)
  case (Cons y r)
  let ?xs = "pre @ rev r @ y # x # post"
  have fits: "array_fits esz (length ?xs)" using Cons.prems(1) by (simp add: add.assoc)
  have j: "unat j = Suc (length pre + length r)" using Cons.prems(2) by simp
  then have "j \<noteq> 0" by auto
  then have j1: "unat (j - 1) = length pre + length r" using j by (simp add: unat_usize_pred)
  have get: "elem_get esz ?xs (j - 1) = ret y" "elem_get esz ?xs j = ret x"
    using fits j j1 by (simp_all add: nth_append)
  show ?case
  proof (cases "cmp y x \<le> 0")
    case True
    with get show ?thesis by simp
  next
    case False
    have "algo_sort_swap esz ?xs (j - 1) j = ret (pre @ rev r @ x # y # post)"
      using assms j j1 by (simp add: algo_sort_swap_def nth_append list_update_append)
    moreover have "insertion_inner esz cmp (pre @ rev r @ x # (y # post)) (j - 1) (length r) =
        ret (pre @ rev (sink cmp x r) @ y # post)"
      using Cons.IH [of "y # post" "j - 1"] Cons.prems(1) j1 by simp
    ultimately show ?thesis using get False by simp
  qed
qed simp

context comparator
begin

lemma insertion_outer_sorts:
  assumes "esz \<le> algo_sort_swap_buf_size" "unat left = length pre"
  shows "array_fits esz (length pre + length seg + length rest + length post) \<Longrightarrow>
    unat i = length pre + length seg \<Longrightarrow> stable_sort_of cmp orig seg \<Longrightarrow>
    \<exists>ys. insertion_outer esz cmp (pre @ seg @ rest @ post) left i (length rest) = ret (pre @ ys @ post) \<and>
      stable_sort_of cmp (orig @ rest) ys"
proof (induction rest arbitrary: seg orig i)
  case (Cons x rest)
  have len: "length pre + length seg + Suc (length rest) + length post < 2 ^ 64"
    using array_fits_length [OF Cons.prems(1)] by simp
  have inner: "insertion_inner esz cmp (pre @ rev (rev seg) @ x # rest @ post) i (length (rev seg)) =
      ret (pre @ rev (sink cmp x (rev seg)) @ rest @ post)"
    using Cons.prems by (intro insertion_inner_sinks assms(1)) (simp_all add: add.assoc)
  have i: "unat (i + 1) = length pre + Suc (length seg)"
    using Cons.prems(2) len by (subst unat_usize_Suc) simp_all
  have "\<exists>ys. insertion_outer esz cmp (pre @ rev (sink cmp x (rev seg)) @ rest @ post) left (i + 1) (length rest) =
      ret (pre @ ys @ post) \<and> stable_sort_of cmp ((orig @ [x]) @ rest) ys"
    using Cons.prems i stable_sort_of_sink [OF Cons.prems(3), of x] by (intro Cons.IH) simp_all
  with inner Cons.prems(2) assms(2) show ?case by simp
qed simp

end

definition segment :: "'a list \<Rightarrow> nat \<Rightarrow> nat \<Rightarrow> 'a list" where
  "segment xs i j = take (j - i) (drop i xs)"

lemma segment_split: "i \<le> j \<Longrightarrow> j \<le> length xs \<Longrightarrow> xs = take i xs @ segment xs i j @ drop j xs"
  by (simp add: segment_def) (metis append_take_drop_id drop_drop le_add_diff_inverse2)

lemma length_segment [simp]: "j \<le> length xs \<Longrightarrow> length (segment xs i j) = j - i"
  by (simp add: segment_def)

lemma segment_empty [simp]: "segment xs i i = []"
  by (simp add: segment_def)

lemma segment_Cons: "i < j \<Longrightarrow> j \<le> length xs \<Longrightarrow> segment xs i j = xs ! i # segment xs (Suc i) j"
  by (simp add: segment_def Cons_nth_drop_Suc [symmetric] take_Cons')

lemma segment_append:
  assumes "i \<le> j" "j \<le> k"
  shows "segment xs i k = segment xs i j @ segment xs j k"
proof -
  have "k - i = (j - i) + (k - j)" using assms by simp
  then have "take (k - i) (drop i xs) = take (j - i) (drop i xs) @ take (k - j) (drop (j - i) (drop i xs))"
    by (simp only: take_add)
  then show ?thesis using assms by (simp add: segment_def)
qed

context comparator
begin

lemma insertion_range_sorts:
  assumes "array_fits esz (length xs)" "esz \<le> algo_sort_swap_buf_size"
    "unat left < unat right" "unat right \<le> length xs"
  shows "\<exists>ys. algo_insertion_sort_range xs left right esz cmp =
      ret (take (unat left) xs @ ys @ drop (unat right) xs) \<and>
    stable_sort_of cmp (segment xs (unat left) (unat right)) ys"
proof -
  have l: "unat (left + 1) = Suc (unat left)"
    using assms(3) by (intro unat_usize_lt_Suc [of left right]) (simp add: word_less_nat_alt)
  let ?rest = "segment xs (Suc (unat left)) (unat right)"
  have xs: "take (unat left) xs @ [xs ! unat left] @ ?rest @ drop (unat right) xs = xs"
    using segment_split [of "unat left" "unat right" xs] segment_Cons [of "unat left" "unat right" xs] assms(3,4)
    by simp
  have len: "length ?rest = unat right - unat (left + 1)" using assms(4) l by simp
  have "\<exists>ys. insertion_outer esz cmp (take (unat left) xs @ [xs ! unat left] @ ?rest @ drop (unat right) xs)
      left (left + 1) (length ?rest) = ret (take (unat left) xs @ ys @ drop (unat right) xs) \<and>
    stable_sort_of cmp ([xs ! unat left] @ ?rest) ys"
    using assms l by (intro insertion_outer_sorts) simp_all
  then show ?thesis unfolding xs len
    using assms(3,4) by (simp add: algo_insertion_sort_range_def segment_Cons)
qed

end

lemma merge_rest_copies:
  "array_fits esz (length xs) \<Longrightarrow> array_fits esz (length temp) \<Longrightarrow> unat i \<le> unat stop \<Longrightarrow>
   unat stop \<le> length xs \<Longrightarrow> unat k + (unat stop - unat i) \<le> length temp \<Longrightarrow>
   \<exists>temp' k'. merge_rest esz xs stop temp i k = ret (temp', k') \<and> length temp' = length temp \<and>
     unat k' = unat k + (unat stop - unat i) \<and>
     take (unat k') temp' = take (unat k) temp @ segment xs (unat i) (unat stop)"
proof (induction esz xs stop temp i k rule: merge_rest.induct)
  case (1 esz xs stop temp i k)
  show ?case
  proof (cases "i < stop")
    case False
    then have "unat i = unat stop" using 1(4) by (simp add: word_less_nat_alt)
    with False show ?thesis by (subst merge_rest.simps) simp
  next
    case True
    then have lt: "unat i < unat stop" "unat (i + 1) = Suc (unat i)"
      by (simp_all add: word_less_nat_alt unat_usize_lt_Suc)
    have k: "unat k < length temp" "unat (k + 1) = Suc (unat k)"
      using lt 1(6) array_fits_length [OF 1(3)] by (simp_all add: unat_usize_Suc)
    have get: "elem_get esz xs i = ret (xs ! unat i)" using 1(2,5) lt by simp
    have set: "elem_set esz temp k (xs ! unat i) = ret (temp[unat k := xs ! unat i])"
      using 1(3) k by simp
    have "\<exists>temp' k'. merge_rest esz xs stop (temp[unat k := xs ! unat i]) (i + 1) (k + 1) = ret (temp', k') \<and>
        length temp' = length temp \<and> unat k' = Suc (unat k) + (unat stop - Suc (unat i)) \<and>
        take (unat k') temp' = take (Suc (unat k)) (temp[unat k := xs ! unat i]) @
          segment xs (Suc (unat i)) (unat stop)"
      using 1(1) [OF True get set] 1(2-6) lt k by simp
    with True get set lt k 1(5) show ?thesis
      by (subst merge_rest.simps) (auto simp: take_Suc_update segment_Cons)
  qed
qed

text \<open>
  The loop keeps: what is in the buffer, followed by the merge of what is left of both sides,
  is the merge of both sides. It ends when one side is empty.
\<close>

lemma merge_both_merges:
  "array_fits esz (length xs) \<Longrightarrow> array_fits esz (length temp) \<Longrightarrow> unat i \<le> unat mid \<Longrightarrow>
   unat mid \<le> length xs \<Longrightarrow> unat j \<le> unat right \<Longrightarrow> unat right \<le> length xs \<Longrightarrow>
   unat k + (unat mid - unat i) + (unat right - unat j) \<le> length temp \<Longrightarrow>
   \<exists>temp' i' j' k'. merge_both esz cmp xs mid right temp i j k = ret (temp', i', j', k') \<and>
     length temp' = length temp \<and> unat i' \<le> unat mid \<and> unat j' \<le> unat right \<and>
     (unat i' = unat mid \<or> unat j' = unat right) \<and>
     unat k' + (unat mid - unat i') + (unat right - unat j') =
       unat k + (unat mid - unat i) + (unat right - unat j) \<and>
     take (unat k') temp' @ merge_lists cmp (segment xs (unat i') (unat mid)) (segment xs (unat j') (unat right)) =
       take (unat k) temp @ merge_lists cmp (segment xs (unat i) (unat mid)) (segment xs (unat j) (unat right))"
proof (induction esz cmp xs mid right temp i j k rule: merge_both.induct)
  case (1 esz cmp xs mid right temp i j k)
  show ?case
  proof (cases "i < mid \<and> j < right")
    case False
    then have "unat i = unat mid \<or> unat j = unat right" using 1(5,7) by (auto simp: word_less_nat_alt)
    with False 1(5,7) show ?thesis by (subst merge_both.simps) auto
  next
    case True
    then have lt: "unat i < unat mid" "unat (i + 1) = Suc (unat i)"
        "unat j < unat right" "unat (j + 1) = Suc (unat j)"
      using unat_usize_lt_Suc [of i mid] unat_usize_lt_Suc [of j right]
      by (simp_all add: word_less_nat_alt)
    have k: "unat k < length temp" "unat (k + 1) = Suc (unat k)"
      using lt 1(9) array_fits_length [OF 1(4)] by (simp_all add: unat_usize_Suc)
    have get: "elem_get esz xs i = ret (xs ! unat i)" "elem_get esz xs j = ret (xs ! unat j)"
      using 1(3,6,8) lt by simp_all
    have set: "elem_set esz temp k x = ret (temp[unat k := x])" for x using 1(4) k by simp
    have segs: "segment xs (unat i) (unat mid) = xs ! unat i # segment xs (Suc (unat i)) (unat mid)"
      "segment xs (unat j) (unat right) = xs ! unat j # segment xs (Suc (unat j)) (unat right)"
      using lt 1(6,8) by (simp_all add: segment_Cons)
    show ?thesis
    proof (cases "cmp (xs ! unat i) (xs ! unat j) \<le> 0")
      case le: True
      have cnt: "unat (k + 1) + (unat mid - unat (i + 1)) + (unat right - unat j) =
          unat k + (unat mid - unat i) + (unat right - unat j)" using lt k(2) by linarith
      from 1(1) [OF True get le set, unfolded cnt] 1(3-9) lt k le show ?thesis
        by (subst merge_both.simps) (simp add: True get set segs take_Suc_update)
    next
      case gt: False
      have cnt: "unat (k + 1) + (unat mid - unat i) + (unat right - unat (j + 1)) =
          unat k + (unat mid - unat i) + (unat right - unat j)" using lt k(2) by linarith
      from 1(2) [OF True get gt set, unfolded cnt] 1(3-9) lt k gt show ?thesis
        by (subst merge_both.simps) (simp add: True get set segs take_Suc_update)
    qed
  qed
qed

lemma algo_merge_merges:
  assumes "array_fits esz (length xs)" "array_fits esz (length temp)"
    "unat left \<le> unat mid" "unat mid \<le> unat right" "unat right \<le> length xs"
    "unat right - unat left \<le> length temp"
  shows "\<exists>temp'. algo_merge xs left mid right esz cmp temp =
      ret (take (unat left) xs @
           merge_lists cmp (segment xs (unat left) (unat mid)) (segment xs (unat mid) (unat right)) @
           drop (unat right) xs, temp') \<and> length temp' = length temp"
proof -
  let ?m = "merge_lists cmp (segment xs (unat left) (unat mid)) (segment xs (unat mid) (unat right))"
  obtain t1 i j k where 1: "merge_both esz cmp xs mid right temp left mid 0 = ret (t1, i, j, k)"
    "length t1 = length temp" "unat i \<le> unat mid" "unat j \<le> unat right"
    "unat i = unat mid \<or> unat j = unat right"
    "unat k + (unat mid - unat i) + (unat right - unat j) = unat right - unat left"
    "take (unat k) t1 @ merge_lists cmp (segment xs (unat i) (unat mid)) (segment xs (unat j) (unat right)) = ?m"
    using merge_both_merges [of esz xs temp left mid mid right 0 cmp] assms by auto
  have fit: "array_fits esz (length t1)" "unat mid \<le> length xs" "unat k + (unat mid - unat i) \<le> length t1"
    using assms 1(2,6) by simp_all
  from merge_rest_copies [OF assms(1) fit(1) 1(3) fit(2,3)]
  obtain t2 k2 where 2: "merge_rest esz xs mid t1 i k = ret (t2, k2)" "length t2 = length temp"
    "unat k2 = unat k + (unat mid - unat i)"
    "take (unat k2) t2 = take (unat k) t1 @ segment xs (unat i) (unat mid)"
    using 1(2) by auto
  have fit2: "array_fits esz (length t2)" "unat k2 + (unat right - unat j) \<le> length t2"
    using assms(2,6) 1(6) 2(2,3) by simp_all
  from merge_rest_copies [OF assms(1) fit2(1) 1(4) assms(5) fit2(2)]
  obtain t3 k3 where 3: "merge_rest esz xs right t2 j k2 = ret (t3, k3)" "length t3 = length temp"
    "unat k3 = unat k2 + (unat right - unat j)"
    "take (unat k3) t3 = take (unat k2) t2 @ segment xs (unat j) (unat right)"
    using 2(2) by auto
  have n: "unat (right - left) = unat right - unat left" "unat k3 = unat right - unat left"
    using assms 1(6) 2(3) 3(3) by (simp_all add: unat_sub word_le_nat_alt)
  have "take (unat k3) t3 = ?m"
    using 1(5,7) 2(4) 3(4) by auto
  moreover have "elem_ptr esz left l = l" for l :: "('a list \<times> 'a list) run"
    using assms by (intro elem_ptr_ret [of esz "length xs"]) simp_all
  ultimately show ?thesis
    using 1(1) 2(1) 3(1,2) n assms by (simp add: algo_merge_def Let_def)
qed

lemma segment_parts:
  assumes "length a = i" "length b = j - i" "i \<le> j"
  shows "segment (a @ b @ c) i j = b" "take j (a @ b @ c) = a @ b" "take i (a @ b @ c) = a"
    "drop j (a @ b @ c) = c"
  using assms by (simp_all add: segment_def)

lemma drop_same: "j \<le> i \<Longrightarrow> drop j xs = drop j ys \<Longrightarrow> drop i xs = drop i ys"
  by (metis drop_drop le_add_diff_inverse2)

lemma segment_drop_same: "j \<le> i \<Longrightarrow> drop j xs = drop j ys \<Longrightarrow> segment xs i k = segment ys i k"
  unfolding segment_def using drop_same by metis

lemma stable_sort_of_length: "stable_sort_of cmp xs ys \<Longrightarrow> length ys = length xs"
  by (simp add: stable_sort_of_def) (metis size_mset)

context comparator
begin

lemma middle_between:
  assumes "unat left \<le> unat right" "\<not> right - left \<le> (1 :: usize)"
  shows "unat left \<le> unat (left + (right - left) div 2)" "unat (left + (right - left) div 2) \<le> unat right"
    "unat (left + (right - left) div 2 - left) < unat (right - left)" "unat (right - (left + (right - left) div 2)) < unat (right - left)"
proof -
  have n: "unat (right - left) = unat right - unat left" using assms(1) by (simp add: unat_sub word_le_nat_alt)
  have h: "unat ((right - left) div 2) = (unat right - unat left) div 2" by (simp add: unat_div_word n)
  have "unat (left + (right - left) div 2) = unat left + (unat right - unat left) div 2"
    using assms(1) usize_bound [of right] unfolding h [symmetric] by (intro unat_usize_add) (use h assms(1) in linarith)
  then show "unat left \<le> unat (left + (right - left) div 2)" "unat (left + (right - left) div 2) \<le> unat right"
    using assms(1) by linarith+
  have half: "N div 2 < N \<and> N - N div 2 < N" if "2 \<le> N" for N :: nat using that by presburger
  have "2 \<le> unat (right - left)" using assms(2) by (simp add: word_le_nat_alt)
  from half [OF this] show "unat (left + (right - left) div 2 - left) < unat (right - left)"
    "unat (right - (left + (right - left) div 2)) < unat (right - left)" by (simp_all only: half_range [OF assms(2)])
qed

text \<open>Two halves that are sorted one after the other, and their merge.\<close>

lemma halves_merge:
  assumes "array_fits esz (length xs)" "array_fits esz (length temp)" "esz \<le> algo_sort_swap_buf_size"
    "unat left \<le> unat mid" "unat mid \<le> unat right" "unat right \<le> length xs" "unat right - unat left \<le> length temp"
    "length xs1 = length xs" "length t2 = length temp" "xs1 = take (unat left) xs @ ys1 @ drop (unat mid) xs"
    "stable_sort_of cmp (segment xs (unat left) (unat mid)) ys1" "stable_sort_of cmp (segment xs1 (unat mid) (unat right)) ys2"
  shows "\<exists>ys t3. algo_merge (take (unat mid) xs1 @ ys2 @ drop (unat right) xs1) left mid right esz cmp t2 =
      ret (take (unat left) xs @ ys @ drop (unat right) xs, t3) \<and> length t3 = length temp \<and>
    stable_sort_of cmp (segment xs (unat left) (unat right)) ys"
proof -
  have tl: "length (take (unat left) xs) = unat left" and l1: "length ys1 = unat mid - unat left"
    using stable_sort_of_length [OF assms(11)] assms(4-6) by simp_all
  note parts1 = segment_parts [OF tl l1 assms(4), of "drop (unat mid) xs", folded assms(10)]
  have seg: "segment xs1 (unat mid) (unat right) = segment xs (unat mid) (unat right)" "drop (unat right) xs1 = drop (unat right) xs"
    by (rule segment_drop_same [OF order_refl parts1(4)], rule drop_same [OF assms(5) parts1(4)])
  define xs2 where "xs2 = take (unat left) xs @ ys1 @ ys2 @ drop (unat right) xs"
  have l2: "length ys2 = unat right - unat mid" using stable_sort_of_length [OF assms(12)] assms(5,6,8) by simp
  have xs2: "take (unat mid) xs1 @ ys2 @ drop (unat right) xs1 = xs2" using seg(2) parts1(2) by (simp add: xs2_def)
  have len2: "length xs2 = length xs" using l1 l2 assms(4-6) by (simp add: xs2_def)
  have parts2: "take (unat left) xs2 = take (unat left) xs" "segment xs2 (unat left) (unat mid) = ys1"
    using segment_parts [OF tl l1 assms(4), of "ys2 @ drop (unat right) xs"] by (simp_all add: xs2_def)
  have tl2: "length (take (unat left) xs @ ys1) = unat mid" using tl l1 assms(4) by simp
  have parts3: "segment xs2 (unat mid) (unat right) = ys2" "drop (unat right) xs2 = drop (unat right) xs"
    using segment_parts [OF tl2 l2 assms(5), of "drop (unat right) xs"] by (simp_all add: xs2_def)
  obtain t3 where "algo_merge xs2 left mid right esz cmp t2 =
      ret (take (unat left) xs @ merge_lists cmp ys1 ys2 @ drop (unat right) xs, t3)" "length t3 = length temp"
    using algo_merge_merges [of esz xs2 t2 left mid right cmp] assms(1-7,9) len2 parts2 parts3 by auto
  moreover have "stable_sort_of cmp (segment xs (unat left) (unat right)) (merge_lists cmp ys1 ys2)"
    using stable_sort_of_merge [OF assms(11,12)] segment_append [OF assms(4,5), of xs] seg(1) by simp
  ultimately show ?thesis unfolding xs2 by blast
qed

lemma merge_sort_range_sorts:
  "array_fits esz (length xs) \<Longrightarrow> array_fits esz (length temp) \<Longrightarrow> esz \<le> algo_sort_swap_buf_size \<Longrightarrow>
   unat left \<le> unat right \<Longrightarrow> unat right \<le> length xs \<Longrightarrow> unat right - unat left \<le> length temp \<Longrightarrow>
   \<exists>ys temp'. algo_merge_sort_range xs left right esz cmp temp =
       ret (take (unat left) xs @ ys @ drop (unat right) xs, temp') \<and> length temp' = length temp \<and>
     stable_sort_of cmp (segment xs (unat left) (unat right)) ys"
proof (induction "unat (right - left)" arbitrary: xs left right temp rule: less_induct)
  case (less left right xs temp)
  note prems = less.prems
  have n: "unat (right - left) = unat right - unat left"
    using prems(4) by (simp add: unat_sub word_le_nat_alt)
  show ?case
  proof (cases "right - left \<le> 1")
    case True
    then have "length (segment xs (unat left) (unat right)) \<le> 1"
      using n prems(5) by (simp add: word_le_nat_alt)
    then have "segment xs (unat left) (unat right) = [] \<or>
        (\<exists>x. segment xs (unat left) (unat right) = [x])"
      by (cases "segment xs (unat left) (unat right)") auto
    then have "stable_sort_of cmp (segment xs (unat left) (unat right)) (segment xs (unat left) (unat right))"
      by auto
    with True segment_split [OF prems(4,5)] show ?thesis
      by (subst algo_merge_sort_range.simps) auto
  next
    case big: False
    then have lt: "unat left < unat right" using n by (auto simp: word_le_nat_alt)
    show ?thesis
    proof (cases "right - left < 16")
      case True
      with big insertion_range_sorts [OF prems(1,3) lt prems(5)] show ?thesis
        by (subst algo_merge_sort_range.simps) auto
    next
      case False
      let ?mid = "left + (right - left) div 2"
      note mid = middle_between [OF prems(4) big]
      have room: "unat ?mid \<le> length xs" "unat ?mid - unat left \<le> length temp" "unat right - unat ?mid \<le> length temp"
        using mid(1,2) prems(5,6) by linarith+
      obtain ys1 t1 where 1: "algo_merge_sort_range xs left ?mid esz cmp temp =
          ret (take (unat left) xs @ ys1 @ drop (unat ?mid) xs, t1)" "length t1 = length temp"
          "stable_sort_of cmp (segment xs (unat left) (unat ?mid)) ys1"
        using less.hyps [OF mid(3) prems(1,2,3) mid(1) room(1,2)] by auto
      define xs1 where "xs1 = take (unat left) xs @ ys1 @ drop (unat ?mid) xs"
      have len1: "length xs1 = length xs" using stable_sort_of_length [OF 1(3)] mid(1,2) prems(5) by (simp add: xs1_def)
      obtain ys2 t2 where 2: "algo_merge_sort_range xs1 ?mid right esz cmp t1 =
          ret (take (unat ?mid) xs1 @ ys2 @ drop (unat right) xs1, t2)" "length t2 = length temp"
          "stable_sort_of cmp (segment xs1 (unat ?mid) (unat right)) ys2"
        using less.hyps [OF mid(4), of xs1 t1] prems(1-3,5) mid(2) room(3) len1 1(2) by auto
      obtain ys t3 where "algo_merge (take (unat ?mid) xs1 @ ys2 @ drop (unat right) xs1) left ?mid right esz cmp t2 =
          ret (take (unat left) xs @ ys @ drop (unat right) xs, t3)" "length t3 = length temp"
          "stable_sort_of cmp (segment xs (unat left) (unat right)) ys"
        using halves_merge [OF prems(1,2,3) mid(1,2) prems(5,6) len1 2(2) xs1_def 1(3) 2(3)] by blast
      then show ?thesis using big False 1(1) 2(1)
        by (subst algo_merge_sort_range.simps) (simp add: Let_def flip: xs1_def)
    qed
  qed
qed

text \<open>
  The whole function: with room for the elements in the temporary buffer, or without one.
\<close>

lemma algo_sort_sorts:
  assumes "array_fits esz (length xs)" "esz \<le> algo_sort_swap_buf_size" "unat len \<le> length xs"
    "\<And>temp. temp_buffer = Some temp \<Longrightarrow> array_fits esz (length temp) \<and> unat len \<le> length temp"
  shows "\<exists>ys. algo_sort (Some xs) len esz (Some cmp) temp_buffer = ret (ys @ drop (unat len) xs) \<and>
    stable_sort_of cmp (take (unat len) xs) ys"
proof -
  have e: "0 < esz" using assms(1) by (simp add: array_fits_def word_less_nat_alt)
  have seg: "segment xs 0 (unat len) = take (unat len) xs" by (simp add: segment_def)
  have one: "xs = [] \<or> (\<exists>y ys. xs = y # ys)" by (cases xs) auto
  show ?thesis
  proof (cases "len < 2")
    case True
    then have "unat len = 0 \<or> unat len = 1" by (auto simp: word_less_nat_alt)
    with one assms(3) have "stable_sort_of cmp (take (unat len) xs) (take (unat len) xs)" by auto
    with True e show ?thesis by (simp add: algo_sort_def) (metis append_take_drop_id)
  next
    case False
    then have lt: "unat (0 :: usize) < unat len" by (simp add: word_less_nat_alt)
    note ins = insertion_range_sorts [OF assms(1,2) lt assms(3)]
    show ?thesis
    proof (cases "temp_buffer = None \<or> len < 16")
      case True
      with ins False e seg show ?thesis by (auto simp: algo_sort_def split: option.splits)
    next
      case c: False
      then obtain temp where t: "temp_buffer = Some temp" by auto
      from merge_sort_range_sorts [of esz xs temp 0 len] assms(1-3) assms(4) [OF t] c t False e seg
      show ?thesis by (auto simp: algo_sort_def)
    qed
  qed
qed

end

subsection \<open>The sortedness test\<close>

lemma is_sorted_loop_value:
  assumes "array_fits esz (length xs)"
  shows "0 < unat i \<Longrightarrow> unat i + k \<le> length xs \<Longrightarrow>
    is_sorted_loop esz cmp xs i k = ret (\<forall>m. unat i \<le> m \<and> m < unat i + k \<longrightarrow> cmp (xs ! (m - 1)) (xs ! m) \<le> 0)"
proof (induction k arbitrary: i)
  case (Suc k)
  have "i \<noteq> 0" using Suc.prems(1) by auto
  then have i: "unat (i - 1) = unat i - 1" "unat i < length xs" "unat i - 1 < length xs"
    using Suc.prems by (simp_all add: unat_usize_pred)
  show ?case
  proof (cases "cmp (xs ! (unat i - 1)) (xs ! unat i) \<le> 0")
    case False
    with i assms show ?thesis by (auto intro!: exI [of _ "unat i"])
  next
    case True
    have len: "length xs < 2 ^ 64" using array_fits_length [OF assms] .
    have range: "unat i \<le> m \<and> m < unat i + Suc k \<longleftrightarrow> m = unat i \<or> (Suc (unat i) \<le> m \<and> m < Suc (unat i) + k)" for m
      by auto
    have all: "(\<forall>m. unat i \<le> m \<and> m < unat i + Suc k \<longrightarrow> P m) \<longleftrightarrow>
        P (unat i) \<and> (\<forall>m. Suc (unat i) \<le> m \<and> m < Suc (unat i) + k \<longrightarrow> P m)" for P
      unfolding range by blast
    show ?thesis
    proof (cases "k = 0")
      case True
      with \<open>cmp (xs ! (unat i - 1)) (xs ! unat i) \<le> 0\<close> i assms show ?thesis
        by (auto simp: less_Suc_eq_le dest!: le_antisym)
    next
      case False
      then have i1: "unat (i + 1) = Suc (unat i)" using Suc.prems len by (intro unat_usize_Suc) linarith
      have "is_sorted_loop esz cmp xs (i + 1) k =
        ret (\<forall>m. Suc (unat i) \<le> m \<and> m < Suc (unat i) + k \<longrightarrow> cmp (xs ! (m - 1)) (xs ! m) \<le> 0)"
        using Suc.IH [of "i + 1"] Suc.prems i1 by simp
      with True i assms show ?thesis unfolding all by simp
    qed
  qed
qed auto

subsection \<open>Properties\<close>

text \<open>C3: \<open>algo_sort\<close> with a comparator that is a total preorder sorts the first \<open>len\<close> elements
  stably, leaves the rest alone, and reads and writes nothing outside the array and the
  temporary buffer; this holds for both algorithms and every length.\<close>

theorem algo_sort_stable:
  "comparator cmp \<Longrightarrow> array_fits esz (length xs) \<Longrightarrow> unat esz \<le> 256 \<Longrightarrow> unat len \<le> length xs \<Longrightarrow>
   (\<forall>temp. temp_buffer = Some temp \<longrightarrow> array_fits esz (length temp) \<and> unat len \<le> length temp) \<Longrightarrow>
   \<exists>ys. algo_sort (Some xs) len esz (Some cmp) temp_buffer = ret (ys @ drop (unat len) xs) \<and>
     stable_sort_of cmp (take (unat len) xs) ys"
  by (rule comparator.algo_sort_sorts) (auto simp: word_le_nat_alt algo_sort_swap_buf_size_def)

text \<open>Pairs compared by their first component, as a client that sorts records does.\<close>

definition cmp_fst :: "(u8 \<times> u8) cmp_fn" where
  "cmp_fst a b = algo_cmp_u8 (fst a) (fst b)"

lemma cmp_fst_comparator: "comparator cmp_fst"
  using three_way_comparator(1) [of "fst :: u8 \<times> u8 \<Rightarrow> u8"]
  by (simp add: cmp_fst_def [abs_def] algo_cmp_u8_def)

theorem algo_sort_stable_witness:
  "\<exists>ys. algo_sort (Some [(2, 1), (1, 5), (2, 0)]) 3 2 (Some cmp_fst) None = ret ys \<and>
     stable_sort_of cmp_fst [(2, 1), (1, 5), (2, 0)] ys"
  using algo_sort_stable [OF cmp_fst_comparator, of 2 "[(2, 1), (1, 5), (2, 0)]" 3 None]
  by (simp add: array_fits_def)

text \<open>An element of more than ALGO_SORT_SWAP_BUF_SIZE bytes is not sorted byte by byte: the
  insertion sort of two elements that are out of order violates the contract of the swap.\<close>

theorem algo_sort_large_element:
  "unat esz > 256 \<Longrightarrow> array_fits esz 2 \<Longrightarrow> cmp x y > 0 \<Longrightarrow>
   algo_sort (Some [x, y]) 2 esz (Some cmp) temp_buffer =
     violation ''algo_sort_swap: elem_size exceeds ALGO_SORT_SWAP_BUF_SIZE''"
proof -
  assume esz: "unat esz > 256" and fits: "array_fits esz 2" and gt: "cmp x y > 0"
  have e: "0 < esz" "\<not> esz \<le> algo_sort_swap_buf_size"
    using esz by (simp_all add: word_less_nat_alt word_le_nat_alt algo_sort_swap_buf_size_def)
  have one: "unat (0 + 1 :: usize) = Suc 0" "unat (2 :: usize) - Suc 0 = Suc 0" by simp_all
  have "algo_insertion_sort_range [x, y] 0 2 esz cmp =
      violation ''algo_sort_swap: elem_size exceeds ALGO_SORT_SWAP_BUF_SIZE''"
    unfolding algo_insertion_sort_range_def one insertion_outer.simps
    using fits gt e by (simp add: algo_sort_swap_def numeral_2_eq_2)
  with e show ?thesis by (simp add: algo_sort_def split: option.splits)
qed

theorem algo_sort_large_element_witness:
  "algo_sort (Some [9, 4]) 2 300 (Some algo_cmp_u8) None =
     violation ''algo_sort_swap: elem_size exceeds ALGO_SORT_SWAP_BUF_SIZE''"
  by (rule algo_sort_large_element) (simp_all add: array_fits_def algo_cmp_u8_def)

end
