(* ===== verification/Canon_Search.thy ===== *)
theory Canon_Search
  imports Canon_Compare
begin

section \<open>Binary search (algo/search/search_impl.h)\<close>

text \<open>
  The searches on a sorted array: lower and upper bound, the exact search and the equal range.
  The loops are \<open>while (low < high)\<close> with \<open>mid = low + (high - low) / 2\<close>, on \<open>usize\<close>. A search
  that finds nothing returns \<open>CANON_USIZE_MAX\<close>. The lemmas state a bound as a partition
  point: the elements before it are below the key and those from it on are not.
\<close>

function bound_loop :: "usize \<Rightarrow> ('a \<Rightarrow> bool) \<Rightarrow> 'a list \<Rightarrow> usize \<Rightarrow> usize \<Rightarrow> usize run" where
  "bound_loop esz below xs low high =
     (if low < high then
        let mid = low + (high - low) div 2 in
        bindR (elem_get esz xs mid) (\<lambda>x.
          if below x then bound_loop esz below xs (mid + 1) high
          else bound_loop esz below xs low mid)
      else ret low)"
  by pat_completeness auto

lemma midpoint:
  fixes low high :: usize
  assumes "low < high"
  defines "mid \<equiv> low + (high - low) div 2"
  shows "unat mid = (unat low + unat high) div 2"
    and "unat low \<le> unat mid" "unat mid < unat high" "unat (mid + 1) = Suc (unat mid)"
proof -
  have lt: "unat low < unat high" using assms(1) by (simp add: word_less_nat_alt)
  have h: "unat ((high - low) div 2) = (unat high - unat low) div 2"
    using lt by (simp add: unat_div_word unat_sub word_le_nat_alt)
  have m: "unat mid = unat low + (unat high - unat low) div 2"
    using lt usize_bound [of high] unfolding mid_def h [symmetric]
    by (intro unat_usize_add) (use h lt in linarith)
  then show "unat mid = (unat low + unat high) div 2" using lt by presburger
  show "unat low \<le> unat mid" "unat mid < unat high" using m lt by linarith+
  then show "unat (mid + 1) = Suc (unat mid)"
    using usize_bound [of high] by (intro unat_usize_Suc) linarith
qed

termination bound_loop
proof (relation "measure (\<lambda>(esz, below, xs, low, high). unat high - unat low)", goal_cases)
  case 1
  show ?case by simp
next
  case (2 esz below xs low high mid x)
  note m = midpoint [OF 2(1), folded 2(2)]
  then show ?case by simp
next
  case (3 esz below xs low high mid x)
  note m = midpoint [OF 3(1), folded 3(2)]
  then show ?case by simp
qed

declare bound_loop.simps [simp del]

text \<open>The two loops of the source differ in the test of the element only.\<close>

definition algo_lower_bound_impl :: "'a list \<Rightarrow> usize \<Rightarrow> usize \<Rightarrow> 'a \<Rightarrow> 'a cmp_fn \<Rightarrow> usize run" where
  "algo_lower_bound_impl xs len esz key cmp = bound_loop esz (\<lambda>x. cmp x key < 0) xs 0 len"

definition algo_lower_bound ::
  "'a list cptr \<Rightarrow> usize \<Rightarrow> usize \<Rightarrow> 'a cptr \<Rightarrow> 'a cmp_fn cptr \<Rightarrow> usize run" where
  "algo_lower_bound array len esz key cmp =
     require_msg (array \<noteq> None) ''algo_lower_bound: array cannot be NULL''
     (require_msg (key \<noteq> None) ''algo_lower_bound: key cannot be NULL''
     (require_msg (cmp \<noteq> None) ''algo_lower_bound: cmp cannot be NULL''
     (require_msg (esz > 0) ''algo_lower_bound: elem_size must be > 0''
     (if len = 0 then ret 0
      else bindR (deref array) (\<lambda>xs. bindR (deref key) (\<lambda>k. bindR (deref cmp) (\<lambda>c.
        algo_lower_bound_impl xs len esz k c)))))))"

definition algo_upper_bound ::
  "'a list cptr \<Rightarrow> usize \<Rightarrow> usize \<Rightarrow> 'a cptr \<Rightarrow> 'a cmp_fn cptr \<Rightarrow> usize run" where
  "algo_upper_bound array len esz key cmp =
     require_msg (array \<noteq> None) ''algo_upper_bound: array cannot be NULL''
     (require_msg (key \<noteq> None) ''algo_upper_bound: key cannot be NULL''
     (require_msg (cmp \<noteq> None) ''algo_upper_bound: cmp cannot be NULL''
     (require_msg (esz > 0) ''algo_upper_bound: elem_size must be > 0''
     (if len = 0 then ret 0
      else bindR (deref array) (\<lambda>xs. bindR (deref key) (\<lambda>k. bindR (deref cmp) (\<lambda>c.
        bound_loop esz (\<lambda>x. c x k \<le> 0) xs 0 len)))))))"

definition algo_find_sorted ::
  "'a list cptr \<Rightarrow> usize \<Rightarrow> usize \<Rightarrow> 'a cptr \<Rightarrow> 'a cmp_fn cptr \<Rightarrow> usize run" where
  "algo_find_sorted array len esz key cmp =
     require_msg (array \<noteq> None) ''algo_find_sorted: array cannot be NULL''
     (require_msg (key \<noteq> None) ''algo_find_sorted: key cannot be NULL''
     (require_msg (cmp \<noteq> None) ''algo_find_sorted: cmp cannot be NULL''
     (require_msg (esz > 0) ''algo_find_sorted: elem_size must be > 0''
     (if len = 0 then ret canon_usize_max
      else bindR (deref array) (\<lambda>xs. bindR (deref key) (\<lambda>k. bindR (deref cmp) (\<lambda>c.
        bindR (algo_lower_bound_impl xs len esz k c) (\<lambda>pos.
          if pos < len
          then bindR (elem_get esz xs pos) (\<lambda>x.
            if c x k = 0 then ret pos else ret canon_usize_max)
          else ret canon_usize_max))))))))"

definition algo_binary_search ::
  "'a list cptr \<Rightarrow> usize \<Rightarrow> usize \<Rightarrow> 'a cptr \<Rightarrow> 'a cmp_fn cptr \<Rightarrow> bool run" where
  "algo_binary_search array len esz key cmp =
     bindR (algo_find_sorted array len esz key cmp) (\<lambda>i. ret (i \<noteq> canon_usize_max))"

text \<open>\<open>out_range\<close> is an array of two; the model gives NULL or its two entries.\<close>

definition algo_equal_range ::
  "'a list cptr \<Rightarrow> usize \<Rightarrow> usize \<Rightarrow> 'a cptr \<Rightarrow> 'a cmp_fn cptr \<Rightarrow> (usize \<times> usize) cptr \<Rightarrow>
   (usize \<times> usize) cptr run" where
  "algo_equal_range array len esz key cmp out_range =
     require_msg (array \<noteq> None) ''algo_equal_range: array cannot be NULL''
     (require_msg (key \<noteq> None) ''algo_equal_range: key cannot be NULL''
     (require_msg (cmp \<noteq> None) ''algo_equal_range: cmp cannot be NULL''
     (require_msg (esz > 0) ''algo_equal_range: elem_size must be > 0''
     (require_msg (out_range \<noteq> None) ''algo_equal_range: out_range cannot be NULL''
     (if len = 0 then ret (Some (0, 0))
      else bindR (deref array) (\<lambda>xs. bindR (deref key) (\<lambda>k. bindR (deref cmp) (\<lambda>c.
        bindR (algo_lower_bound_impl xs len esz k c) (\<lambda>lo.
        bindR (algo_upper_bound array len esz key cmp) (\<lambda>hi. ret (Some (lo, hi))))))))))))"

subsection \<open>Partition points\<close>

definition partition_point :: "('a \<Rightarrow> bool) \<Rightarrow> 'a list \<Rightarrow> nat \<Rightarrow> bool" where
  "partition_point below xs n \<longleftrightarrow> n \<le> length xs \<and> (\<forall>i < n. below (xs ! i)) \<and>
     (\<forall>i. n \<le> i \<and> i < length xs \<longrightarrow> \<not> below (xs ! i))"

lemma partition_point_unique: "partition_point P xs m \<Longrightarrow> partition_point P xs n \<Longrightarrow> m = n"
  unfolding partition_point_def by (metis linorder_neqE_nat order_less_le_trans order_refl)

text \<open>
  On an array where no element below the key follows one that is not, the loop finds the
  partition point between its two indexes.
\<close>

lemma bound_loop_partition:
  assumes fits: "array_fits esz (length ys)"
    and mono: "\<forall>i j. i \<le> j \<and> j < n \<and> below (ys ! j) \<longrightarrow> below (ys ! i)"
    and "n \<le> length ys"
  shows "unat low \<le> unat high \<Longrightarrow> unat high \<le> n \<Longrightarrow> (\<forall>i < unat low. below (ys ! i)) \<Longrightarrow>
    (\<forall>i. unat high \<le> i \<and> i < n \<longrightarrow> \<not> below (ys ! i)) \<Longrightarrow>
    \<exists>r. bound_loop esz below ys low high = ret r \<and> unat r \<le> n \<and> (\<forall>i < unat r. below (ys ! i)) \<and>
      (\<forall>i. unat r \<le> i \<and> i < n \<longrightarrow> \<not> below (ys ! i))"
proof (induction "unat high - unat low" arbitrary: low high rule: less_induct)
  case less
  show ?case
  proof (cases "low < high")
    case False
    then have "unat low = unat high" using less.prems(1) by (simp add: word_less_nat_alt)
    with False less.prems show ?thesis by (subst bound_loop.simps) simp
  next
    case True
    define mid where "mid = low + (high - low) div 2"
    note m = midpoint(2-4) [OF True, folded mid_def]
    have get: "elem_get esz ys mid = ret (ys ! unat mid)"
      using fits m less.prems(2) assms(3) by (intro elem_get_ret) linarith+
    show ?thesis
    proof (cases "below (ys ! unat mid)")
      case below: True
      then have "\<forall>i < unat (mid + 1). below (ys ! i)"
        using mono m less.prems(2) by (metis less_Suc_eq_le less_le_trans)
      then show ?thesis
        using less.hyps [of high "mid + 1"] less.prems m below get True
        by (subst bound_loop.simps) (simp add: Let_def flip: mid_def)
    next
      case above: False
      then have "\<forall>i. unat mid \<le> i \<and> i < n \<longrightarrow> \<not> below (ys ! i)" using mono by blast
      then show ?thesis
        using less.hyps [of mid low] less.prems m above get True
        by (subst bound_loop.simps) (simp add: Let_def flip: mid_def)
    qed
  qed
qed

lemma bound_loop_finds:
  assumes "array_fits esz (length ys)" "unat len \<le> length ys"
    "\<forall>i j. i \<le> j \<and> j < unat len \<and> below (ys ! j) \<longrightarrow> below (ys ! i)"
  shows "\<exists>r. bound_loop esz below ys 0 len = ret r \<and> partition_point below (take (unat len) ys) (unat r)"
proof -
  have none: "\<forall>i. unat len \<le> i \<and> i < unat len \<longrightarrow> \<not> below (ys ! i)" by auto
  from bound_loop_partition [OF assms(1,3,2), of 0 len] none
  obtain r where "bound_loop esz below ys 0 len = ret r" "unat r \<le> unat len"
    "\<forall>i < unat r. below (ys ! i)" "\<forall>i. unat r \<le> i \<and> i < unat len \<longrightarrow> \<not> below (ys ! i)"
    by (auto simp only: unat_0 order_refl le0 not_less_zero)
  with assms(2) show ?thesis by (auto simp: partition_point_def)
qed

context comparator
begin

definition ordered :: "'a list \<Rightarrow> bool" where
  "ordered xs \<longleftrightarrow> sorted_wrt (\<lambda>a b. cmp a b \<le> 0) xs"

lemma ordered_nth: "ordered xs \<Longrightarrow> i \<le> j \<Longrightarrow> j < length xs \<Longrightarrow> cmp (xs ! i) (xs ! j) \<le> 0"
  unfolding ordered_def by (metis cmp_refl order_refl le_neq_implies_less sorted_wrt_nth_less)

lemma ordered_take_nth:
  "ordered (take n ys) \<Longrightarrow> n \<le> length ys \<Longrightarrow> i \<le> j \<Longrightarrow> j < n \<Longrightarrow> cmp (ys ! i) (ys ! j) \<le> 0"
  using ordered_nth [of "take n ys" i j] by simp

lemma lower_bound_finds:
  assumes "array_fits esz (length ys)" "unat len \<le> length ys" "ordered (take (unat len) ys)"
  shows "\<exists>r. algo_lower_bound (Some ys) len esz (Some key) (Some cmp) = ret r \<and>
    partition_point (\<lambda>x. cmp x key < 0) (take (unat len) ys) (unat r)"
    and "\<exists>r. algo_lower_bound_impl ys len esz key cmp = ret r \<and>
    partition_point (\<lambda>x. cmp x key < 0) (take (unat len) ys) (unat r)"
proof -
  have "0 < esz" using assms(1) by (simp add: array_fits_def word_less_nat_alt)
  have mono: "\<forall>i j. i \<le> j \<and> j < unat len \<and> cmp (ys ! j) key < 0 \<longrightarrow> cmp (ys ! i) key < 0"
    using ordered_take_nth [OF assms(3,2)] cmp_le_less_trans by blast
  from bound_loop_finds [where below = "\<lambda>x. cmp x key < 0", OF assms(1,2) mono]
  show impl: "\<exists>r. algo_lower_bound_impl ys len esz key cmp = ret r \<and>
    partition_point (\<lambda>x. cmp x key < 0) (take (unat len) ys) (unat r)"
    by (simp add: algo_lower_bound_impl_def)
  then show "\<exists>r. algo_lower_bound (Some ys) len esz (Some key) (Some cmp) = ret r \<and>
    partition_point (\<lambda>x. cmp x key < 0) (take (unat len) ys) (unat r)"
    using \<open>0 < esz\<close> by (auto simp: algo_lower_bound_def partition_point_def)
qed

lemma upper_bound_finds:
  assumes "array_fits esz (length ys)" "unat len \<le> length ys" "ordered (take (unat len) ys)"
  shows "\<exists>r. algo_upper_bound (Some ys) len esz (Some key) (Some cmp) = ret r \<and>
    partition_point (\<lambda>x. cmp x key \<le> 0) (take (unat len) ys) (unat r)"
proof -
  have "0 < esz" using assms(1) by (simp add: array_fits_def word_less_nat_alt)
  have mono: "\<forall>i j. i \<le> j \<and> j < unat len \<and> cmp (ys ! j) key \<le> 0 \<longrightarrow> cmp (ys ! i) key \<le> 0"
    using ordered_take_nth [OF assms(3,2)] cmp_trans by blast
  from bound_loop_finds [where below = "\<lambda>x. cmp x key \<le> 0", OF assms(1,2) mono] \<open>0 < esz\<close> show ?thesis
    by (auto simp: algo_upper_bound_def partition_point_def)
qed

text \<open>The exact search answers the first match, or \<open>CANON_USIZE_MAX\<close> when there is none.\<close>

lemma find_sorted_finds:
  assumes "array_fits esz (length ys)" "unat len \<le> length ys" "ordered (take (unat len) ys)"
  shows "if \<exists>i < unat len. cmp (ys ! i) key = 0
    then \<exists>r. algo_find_sorted (Some ys) len esz (Some key) (Some cmp) = ret r \<and> unat r < unat len \<and>
      cmp (ys ! unat r) key = 0 \<and> (\<forall>i < unat r. cmp (ys ! i) key \<noteq> 0)
    else algo_find_sorted (Some ys) len esz (Some key) (Some cmp) = ret canon_usize_max"
proof (cases "len = 0")
  case True
  have "0 < esz" using assms(1) by (simp add: array_fits_def word_less_nat_alt)
  with True show ?thesis by (simp add: algo_find_sorted_def)
next
  case False
  have e: "0 < esz" using assms(1) by (simp add: array_fits_def word_less_nat_alt)
  obtain r where r: "algo_lower_bound_impl ys len esz key cmp = ret r"
    "partition_point (\<lambda>x. cmp x key < 0) (take (unat len) ys) (unat r)"
    using lower_bound_finds(2) [OF assms] by blast
  have bounds: "unat r \<le> unat len" "\<And>i. i < unat r \<Longrightarrow> cmp (ys ! i) key < 0"
    "\<And>i. unat r \<le> i \<Longrightarrow> i < unat len \<Longrightarrow> 0 \<le> cmp (ys ! i) key"
    using r(2) assms(2) by (auto simp: partition_point_def not_less)
  show ?thesis
  proof (cases "unat r < unat len \<and> cmp (ys ! unat r) key = 0")
    case True
    then have "elem_get esz ys r = ret (ys ! unat r)" using assms(1,2) by (intro elem_get_ret) simp_all
    moreover have "\<forall>i < unat r. cmp (ys ! i) key \<noteq> 0" using bounds(2) by fastforce
    ultimately show ?thesis using True False e r(1) by (auto simp: algo_find_sorted_def word_less_nat_alt)
  next
    case miss: False
    have none: "cmp (ys ! i) key \<noteq> 0" if "i < unat len" for i
    proof (cases "i < unat r")
      case True
      with bounds(2) show ?thesis by fastforce
    next
      case False
      then have "unat r < unat len" "cmp (ys ! unat r) (ys ! i) \<le> 0"
        using that ordered_take_nth [OF assms(3,2), of "unat r" i] by simp_all
      moreover from this miss bounds(3) [of "unat r"] have "0 < cmp (ys ! unat r) key" by fastforce
      ultimately show ?thesis
        using cmp_flip [of key "ys ! unat r"] cmp_less_trans [of key "ys ! unat r" "ys ! i"] cmp_flip [of key "ys ! i"]
        by auto
    qed
    have "r < len \<Longrightarrow> elem_get esz ys r = ret (ys ! unat r)"
      using assms(1,2) by (intro elem_get_ret) (simp_all add: word_less_nat_alt)
    with miss none False e r(1) show ?thesis by (auto simp: algo_find_sorted_def word_less_nat_alt)
  qed
qed

end

subsection \<open>Properties\<close>

text \<open>On an array sorted by the comparator, \<open>algo_lower_bound\<close> returns the partition point: all
  elements before it compare below the key and none from it on does. The search ends and reads
  only elements of the array.\<close>

theorem algo_lower_bound_correct:
  "comparator cmp \<Longrightarrow> array_fits esz (length ys) \<Longrightarrow> unat len \<le> length ys \<Longrightarrow>
   sorted_wrt (\<lambda>a b. cmp a b \<le> 0) (take (unat len) ys) \<Longrightarrow>
   \<exists>r. algo_lower_bound (Some ys) len esz (Some key) (Some cmp) = ret r \<and>
     partition_point (\<lambda>x. cmp x key < 0) (take (unat len) ys) (unat r)"
  by (rule comparator.lower_bound_finds(1)) (simp_all add: comparator.ordered_def)

theorem algo_lower_bound_correct_witness:
  "\<exists>r. algo_lower_bound (Some [1, 3, 3, 7]) 4 1 (Some 3) (Some algo_cmp_u8) = ret r \<and>
     partition_point (\<lambda>x. algo_cmp_u8 x 3 < 0) [1, 3, 3, 7] (unat r)"
  using algo_lower_bound_correct [OF u8_up.comparator_axioms, of 1 "[1, 3, 3, 7]" 4 3]
  by (simp add: array_fits_def algo_cmp_u8_def)

text \<open>C9: On an array sorted by the comparator, \<open>algo_find_sorted\<close> returns the index of the first
  element that compares equal to the key, and CANON_USIZE_MAX exactly when there is none.\<close>

theorem algo_find_sorted_correct:
  "comparator cmp \<Longrightarrow> array_fits esz (length ys) \<Longrightarrow> unat len \<le> length ys \<Longrightarrow>
   sorted_wrt (\<lambda>a b. cmp a b \<le> 0) (take (unat len) ys) \<Longrightarrow>
   (if \<exists>i < unat len. cmp (ys ! i) key = 0
    then \<exists>r. algo_find_sorted (Some ys) len esz (Some key) (Some cmp) = ret r \<and> unat r < unat len \<and>
      cmp (ys ! unat r) key = 0 \<and> (\<forall>i < unat r. cmp (ys ! i) key \<noteq> 0)
    else algo_find_sorted (Some ys) len esz (Some key) (Some cmp) = ret canon_usize_max)"
  by (rule comparator.find_sorted_finds) (simp_all add: comparator.ordered_def)

theorem algo_find_sorted_correct_witness:
  "algo_find_sorted (Some [1, 3, 3, 7]) 4 1 (Some 5) (Some algo_cmp_u8) = ret canon_usize_max"
proof -
  have "([1, 3, 3, 7] :: u8 list) ! i \<in> set [1, 3, 3, 7]" if "i < 4" for i
    using that by (intro nth_mem) simp
  then have none: "\<not> (\<exists>i < unat (4 :: usize). algo_cmp_u8 ([1, 3, 3, 7] ! i) 5 = 0)"
    by (fastforce simp: algo_cmp_u8_def)
  have "algo_find_sorted (Some [1, 3, 3, 7]) 4 1 (Some 5) (Some algo_cmp_u8) = ret canon_usize_max"
    if "array_fits 1 (length ([1, 3, 3, 7] :: u8 list))" "unat (4 :: usize) \<le> length ([1, 3, 3, 7] :: u8 list)"
      "sorted_wrt (\<lambda>a b. algo_cmp_u8 a b \<le> 0) (take (unat (4 :: usize)) [1, 3, 3, 7])"
    using algo_find_sorted_correct [OF u8_up.comparator_axioms that, of 5] unfolding if_not_P [OF none] .
  then show ?thesis by (simp add: array_fits_def algo_cmp_u8_def)
qed

end
