(* ===== verification/Canon_Algo.thy ===== *)
theory Canon_Algo
  imports Canon_Compare Canon_Semantics Canon_Slice
begin

section \<open>The other algorithms (algo/find, any_all, filter, map, unique, reverse, fold)\<close>

text \<open>
  Each algorithm has a function on an array of opaque elements (\<open>*_impl.h\<close>), accessed through
  \<open>ptr_elem\<close>, and one on a typed slice (\<open>*.h\<close>), accessed by subscript. A predicate, a comparator
  or a transformation is a function of the elements: its context is fixed. The arrays that the
  code requires not to overlap are different lists. In every loop \<open>k\<close> iterations are left. The
  two versions have the same loop over different element accesses, which is a parameter of it.

  The lemmas give each algorithm as the list function it computes: \<open>filter\<close>, \<open>map\<close>, \<open>rev\<close>, a
  fold that stops at the first error, and \<open>dedup\<close> for the removal of adjacent equal elements.
\<close>

subsection \<open>Find (algo/find)\<close>

type_synonym 'a access = "usize \<Rightarrow> 'a run"

fun find_loop :: "'a access \<Rightarrow> 'a pred_fn \<Rightarrow> usize \<Rightarrow> nat \<Rightarrow> (usize \<times> 'a) option run" where
  "find_loop get pred i 0 = ret None"
| "find_loop get pred i (Suc k) =
     bindR (get i) (\<lambda>x. if pred x then ret (Some (i, x)) else find_loop get pred (i + 1) k)"

text \<open>\<open>out_elem\<close> is NULL or a pointer variable; a pointer to an element is its index and value.\<close>

definition algo_find ::
  "'a list cptr \<Rightarrow> usize \<Rightarrow> usize \<Rightarrow> 'a pred_fn cptr \<Rightarrow> usize cptr \<Rightarrow> (usize \<times> 'a) cptr cptr \<Rightarrow>
   (bool \<times> usize cptr \<times> (usize \<times> 'a) cptr cptr) run" where
  "algo_find base len esz pred out_index out_elem =
     require_msg (base \<noteq> None) ''algo_find: base cannot be NULL''
     (require_msg (pred \<noteq> None) ''algo_find: pred cannot be NULL''
     (require_msg (esz > 0) ''algo_find: elem_size must be > 0''
     (if len = 0 then ret (False, out_index, out_elem)
      else bindR (deref base) (\<lambda>xs. bindR (deref pred) (\<lambda>p.
        bindR (find_loop (elem_get esz xs) p 0 (unat len)) (\<lambda>r. case r of
            None \<Rightarrow> ret (False, out_index, out_elem)
          | Some (i, x) \<Rightarrow> ret (True, map_option (\<lambda>_. i) out_index, map_option (\<lambda>_. Some (i, x)) out_elem)))))))"

definition slice_elem :: "'a slice \<Rightarrow> usize \<Rightarrow> 'a run" where
  "slice_elem sv i = bindR (deref (s_ptr sv)) (\<lambda>xs. arr_get xs i)"

definition algo_find_slice :: "'a slice \<Rightarrow> 'a pred_fn cptr \<Rightarrow> 'a option run" where
  "algo_find_slice sv pred =
     require_msg (pred \<noteq> None) ''algo_find_slice: pred cannot be NULL''
     (require_msg (s_len sv = 0 \<or> s_ptr sv \<noteq> None) ''algo_find_slice: non-empty slice has NULL ptr''
     (bindR (deref pred) (\<lambda>p. bindR (find_loop (slice_elem sv) p 0 (unat (s_len sv))) (\<lambda>r. ret (map_option snd r)))))"

definition algo_find_index_slice :: "'a slice \<Rightarrow> 'a pred_fn cptr \<Rightarrow> usize run" where
  "algo_find_index_slice sv pred =
     require_msg (pred \<noteq> None) ''algo_find_index_slice: pred cannot be NULL''
     (require_msg (s_len sv = 0 \<or> s_ptr sv \<noteq> None) ''algo_find_index_slice: non-empty slice has NULL ptr''
     (bindR (deref pred) (\<lambda>p. bindR (find_loop (slice_elem sv) p 0 (unat (s_len sv))) (\<lambda>r.
       ret (case r of None \<Rightarrow> canon_usize_max | Some (i, x) \<Rightarrow> i)))))"

subsection \<open>Any and all (algo/any_all)\<close>

fun any_loop :: "'a access \<Rightarrow> 'a pred_fn \<Rightarrow> usize \<Rightarrow> nat \<Rightarrow> bool run" where
  "any_loop get pred i 0 = ret False"
| "any_loop get pred i (Suc k) =
     bindR (get i) (\<lambda>x. if pred x then ret True else any_loop get pred (i + 1) k)"

definition algo_any :: "'a list cptr \<Rightarrow> usize \<Rightarrow> usize \<Rightarrow> 'a pred_fn cptr \<Rightarrow> bool run" where
  "algo_any base len esz pred =
     require_msg (base \<noteq> None) ''algo_any: base cannot be NULL''
     (require_msg (pred \<noteq> None) ''algo_any: pred cannot be NULL''
     (require_msg (esz > 0) ''algo_any: elem_size must be > 0''
     (bindR (deref base) (\<lambda>xs. bindR (deref pred) (\<lambda>p. any_loop (elem_get esz xs) p 0 (unat len))))))"

fun all_loop :: "'a access \<Rightarrow> 'a pred_fn \<Rightarrow> usize \<Rightarrow> nat \<Rightarrow> bool run" where
  "all_loop get pred i 0 = ret True"
| "all_loop get pred i (Suc k) =
     bindR (get i) (\<lambda>x. if \<not> pred x then ret False else all_loop get pred (i + 1) k)"

definition algo_all :: "'a list cptr \<Rightarrow> usize \<Rightarrow> usize \<Rightarrow> 'a pred_fn cptr \<Rightarrow> bool run" where
  "algo_all base len esz pred =
     require_msg (base \<noteq> None) ''algo_all: base cannot be NULL''
     (require_msg (pred \<noteq> None) ''algo_all: pred cannot be NULL''
     (require_msg (esz > 0) ''algo_all: elem_size must be > 0''
     (bindR (deref base) (\<lambda>xs. bindR (deref pred) (\<lambda>p. all_loop (elem_get esz xs) p 0 (unat len))))))"

definition algo_any_slice :: "'a slice \<Rightarrow> 'a pred_fn cptr \<Rightarrow> bool run" where
  "algo_any_slice sv pred =
     require_msg (pred \<noteq> None) ''algo_any_slice: pred cannot be NULL''
     (bindR (deref pred) (\<lambda>p. any_loop (slice_elem sv) p 0 (unat (s_len sv))))"

definition algo_all_slice :: "'a slice \<Rightarrow> 'a pred_fn cptr \<Rightarrow> bool run" where
  "algo_all_slice sv pred =
     require_msg (pred \<noteq> None) ''algo_all_slice: pred cannot be NULL''
     (bindR (deref pred) (\<lambda>p. all_loop (slice_elem sv) p 0 (unat (s_len sv))))"

subsection \<open>Filter (algo/filter)\<close>

text \<open>The result is the number of elements written and the output array.\<close>

fun filter_loop ::
  "'a access \<Rightarrow> ('a list \<Rightarrow> usize \<Rightarrow> 'a \<Rightarrow> 'a list run) \<Rightarrow> 'a pred_fn \<Rightarrow> usize \<Rightarrow> 'a list \<Rightarrow> usize \<Rightarrow> usize \<Rightarrow>
   nat \<Rightarrow> (usize \<times> 'a list) run" where
  "filter_loop get put pred cap out written i 0 = ret (written, out)"
| "filter_loop get put pred cap out written i (Suc k) =
     bindR (get i) (\<lambda>x.
       if pred x then
         bindR (put out written x) (\<lambda>out'.
           if written + 1 \<ge> cap then ret (written + 1, out')
           else filter_loop get put pred cap out' (written + 1) (i + 1) k)
       else filter_loop get put pred cap out written (i + 1) k)"

definition algo_filter ::
  "'a list cptr \<Rightarrow> usize \<Rightarrow> 'a list cptr \<Rightarrow> usize \<Rightarrow> usize \<Rightarrow> 'a pred_fn cptr \<Rightarrow> (usize \<times> 'a list) run" where
  "algo_filter out out_cap base len esz pred =
     require_msg (out \<noteq> None) ''algo_filter: out cannot be NULL''
     (require_msg (base \<noteq> None) ''algo_filter: base cannot be NULL''
     (require_msg (pred \<noteq> None) ''algo_filter: pred cannot be NULL''
     (require_msg (esz > 0) ''algo_filter: elem_size must be > 0''
     (bindR (deref out) (\<lambda>os. bindR (deref base) (\<lambda>xs. bindR (deref pred) (\<lambda>p.
        if len = 0 \<or> out_cap = 0 then ret (0, os)
        else filter_loop (elem_get esz xs) (elem_set esz) p out_cap os 0 0 (unat len))))))))"

definition algo_filter_slice ::
  "'a list cptr \<Rightarrow> usize \<Rightarrow> 'a slice \<Rightarrow> 'a pred_fn cptr \<Rightarrow> (usize \<times> 'a list) run" where
  "algo_filter_slice out out_cap sv pred =
     require_msg (pred \<noteq> None) ''algo_filter_slice: pred cannot be NULL''
     (require_msg (out \<noteq> None) ''algo_filter_slice: out cannot be NULL''
     (require_msg (s_len sv = 0 \<or> s_ptr sv \<noteq> None) ''algo_filter_slice: non-empty slice has NULL ptr''
     (bindR (deref out) (\<lambda>os. bindR (deref pred) (\<lambda>p.
        if s_len sv = 0 \<or> out_cap = 0 then ret (0, os)
        else filter_loop (slice_elem sv) arr_set p out_cap os 0 0 (unat (s_len sv)))))))"

subsection \<open>Map (algo/map)\<close>

text \<open>
  The callback writes through a pointer to the output element: it is a function of the old output
  element and of the input. In place it is a function of the element.
\<close>

fun map_loop ::
  "usize \<Rightarrow> usize \<Rightarrow> ('b \<Rightarrow> 'a \<Rightarrow> 'b) \<Rightarrow> 'b list \<Rightarrow> 'a list \<Rightarrow> usize \<Rightarrow> nat \<Rightarrow> 'b list run" where
  "map_loop osz isz fn out xs i 0 = ret out"
| "map_loop osz isz fn out xs i (Suc k) =
     bindR (elem_get osz out i) (\<lambda>y. bindR (elem_get isz xs i) (\<lambda>x.
     bindR (elem_set osz out i (fn y x)) (\<lambda>out'. map_loop osz isz fn out' xs (i + 1) k)))"

definition algo_map ::
  "'b list cptr \<Rightarrow> 'a list cptr \<Rightarrow> usize \<Rightarrow> usize \<Rightarrow> usize \<Rightarrow> ('b \<Rightarrow> 'a \<Rightarrow> 'b) cptr \<Rightarrow> 'b list run" where
  "algo_map out inp len out_esz in_esz fn =
     require_msg (out \<noteq> None) ''algo_map: out cannot be NULL''
     (require_msg (inp \<noteq> None) ''algo_map: in cannot be NULL''
     (require_msg (fn \<noteq> None) ''algo_map: fn cannot be NULL''
     (require_msg (out_esz > 0) ''algo_map: out_elem_size must be > 0''
     (require_msg (in_esz > 0) ''algo_map: in_elem_size must be > 0''
     (bindR (deref out) (\<lambda>os. bindR (deref inp) (\<lambda>xs. bindR (deref fn) (\<lambda>f.
        map_loop out_esz in_esz f os xs 0 (unat len)))))))))"

fun map_inplace_loop :: "usize \<Rightarrow> ('a \<Rightarrow> 'a) \<Rightarrow> 'a list \<Rightarrow> usize \<Rightarrow> nat \<Rightarrow> 'a list run" where
  "map_inplace_loop esz fn xs i 0 = ret xs"
| "map_inplace_loop esz fn xs i (Suc k) =
     bindR (elem_get esz xs i) (\<lambda>x. bindR (elem_set esz xs i (fn x)) (\<lambda>xs'.
       map_inplace_loop esz fn xs' (i + 1) k))"

definition algo_map_inplace :: "'a list cptr \<Rightarrow> usize \<Rightarrow> usize \<Rightarrow> ('a \<Rightarrow> 'a) cptr \<Rightarrow> 'a list run" where
  "algo_map_inplace base len esz fn =
     require_msg (base \<noteq> None) ''algo_map_inplace: base cannot be NULL''
     (require_msg (fn \<noteq> None) ''algo_map_inplace: fn cannot be NULL''
     (require_msg (esz > 0) ''algo_map_inplace: elem_size must be > 0''
     (bindR (deref base) (\<lambda>xs. bindR (deref fn) (\<lambda>f. map_inplace_loop esz f xs 0 (unat len))))))"

text \<open>On slices: the pointer of the output slice is its array, which the loop changes.\<close>

fun map_slice_loop ::
  "('b \<Rightarrow> 'a \<Rightarrow> 'b) \<Rightarrow> 'b slice \<Rightarrow> 'a slice \<Rightarrow> usize \<Rightarrow> nat \<Rightarrow> 'b slice run" where
  "map_slice_loop fn so si i 0 = ret so"
| "map_slice_loop fn so si i (Suc k) =
     bindR (deref (s_ptr so)) (\<lambda>os. bindR (arr_get os i) (\<lambda>y. bindR (slice_elem si i) (\<lambda>x.
     bindR (arr_set os i (fn y x)) (\<lambda>os'. map_slice_loop fn (so\<lparr>s_ptr := Some os'\<rparr>) si (i + 1) k))))"

definition algo_map_slice :: "'b slice \<Rightarrow> 'a slice \<Rightarrow> ('b \<Rightarrow> 'a \<Rightarrow> 'b) cptr \<Rightarrow> 'b slice run" where
  "algo_map_slice so si fn =
     require_msg (fn \<noteq> None) ''algo_map_slice: fn cannot be NULL''
     (bindR (deref fn) (\<lambda>f.
        let len = (if s_len so < s_len si then s_len so else s_len si) in
        map_slice_loop f so si 0 (unat len)))"

fun map_inplace_slice_loop :: "('a \<Rightarrow> 'a) \<Rightarrow> 'a slice \<Rightarrow> usize \<Rightarrow> nat \<Rightarrow> 'a slice run" where
  "map_inplace_slice_loop fn sv i 0 = ret sv"
| "map_inplace_slice_loop fn sv i (Suc k) =
     bindR (deref (s_ptr sv)) (\<lambda>xs. bindR (arr_get xs i) (\<lambda>x. bindR (arr_set xs i (fn x)) (\<lambda>xs'.
       map_inplace_slice_loop fn (sv\<lparr>s_ptr := Some xs'\<rparr>) (i + 1) k)))"

definition algo_map_inplace_slice :: "'a slice \<Rightarrow> ('a \<Rightarrow> 'a) cptr \<Rightarrow> 'a slice run" where
  "algo_map_inplace_slice sv fn =
     require_msg (fn \<noteq> None) ''algo_map_inplace_slice: fn cannot be NULL''
     (bindR (deref fn) (\<lambda>f. map_inplace_slice_loop f sv 0 (unat (s_len sv))))"

subsection \<open>Unique (algo/unique)\<close>

text \<open>\<open>write\<close> elements are kept so far, \<open>rd\<close> is the index of the next element to look at.\<close>

fun unique_loop :: "usize \<Rightarrow> 'a cmp_fn \<Rightarrow> 'a list \<Rightarrow> usize \<Rightarrow> usize \<Rightarrow> nat \<Rightarrow> (usize \<times> 'a list) run" where
  "unique_loop esz cmp xs write rd 0 = ret (write, xs)"
| "unique_loop esz cmp xs write rd (Suc k) =
     bindR (elem_get esz xs (write - 1)) (\<lambda>prev. bindR (elem_get esz xs rd) (\<lambda>cur.
       if cmp prev cur \<noteq> 0 then
         bindR (if write \<noteq> rd then elem_set esz xs write cur else ret xs) (\<lambda>xs'.
           unique_loop esz cmp xs' (write + 1) (rd + 1) k)
       else unique_loop esz cmp xs write (rd + 1) k))"

definition algo_unique :: "'a list cptr \<Rightarrow> usize \<Rightarrow> usize \<Rightarrow> 'a cmp_fn cptr \<Rightarrow> (usize \<times> 'a list) run" where
  "algo_unique array len esz cmp =
     require_msg (array \<noteq> None) ''algo_unique: array cannot be NULL''
     (require_msg (esz > 0) ''algo_unique: elem_size must be > 0''
     (require_msg (cmp \<noteq> None) ''algo_unique: cmp cannot be NULL''
     (bindR (deref array) (\<lambda>xs. bindR (deref cmp) (\<lambda>c.
        if len \<le> 1 then ret (len, xs) else unique_loop esz c xs 1 1 (unat len - 1))))))"

text \<open>On a slice: \<open>esz\<close> is \<open>sizeof(type)\<close>; the array that the slice points to is returned.\<close>

definition algo_unique_slice :: "usize \<Rightarrow> 'a slice \<Rightarrow> 'a cmp_fn cptr \<Rightarrow> (usize \<times> 'a list cptr) run" where
  "algo_unique_slice esz sv cmp =
     require_msg (cmp \<noteq> None) ''algo_unique_slice: cmp cannot be NULL''
     (require_msg (s_len sv = 0 \<or> s_ptr sv \<noteq> None) ''algo_unique_slice: non-empty slice has NULL ptr''
     (if s_len sv \<le> 1 then ret (s_len sv, s_ptr sv)
      else bindR (algo_unique (s_ptr sv) (s_len sv) esz cmp) (\<lambda>(n, xs). ret (n, Some xs))))"

subsection \<open>Reverse and palindrome (algo/reverse)\<close>

text \<open>
  The two pointers of \<open>algo_reverse\<close> are byte offsets from the array; an element is at a multiple
  of its size. The local buffer \<open>temp\<close> holds the element at \<open>left\<close>. The loop takes fuel.
\<close>

definition algo_reverse_swap_buf_size :: usize where
  "algo_reverse_swap_buf_size = 256"

definition off_get :: "usize \<Rightarrow> 'a list \<Rightarrow> usize \<Rightarrow> 'a run" where
  "off_get esz xs off =
     (if unat off mod unat esz \<noteq> 0 then undefined_behaviour ''not at an element'' else arr_get xs (off div esz))"

definition off_set :: "usize \<Rightarrow> 'a list \<Rightarrow> usize \<Rightarrow> 'a \<Rightarrow> 'a list run" where
  "off_set esz xs off x =
     (if unat off mod unat esz \<noteq> 0 then undefined_behaviour ''not at an element'' else arr_set xs (off div esz) x)"

fun reverse_loop :: "usize \<Rightarrow> 'a list \<Rightarrow> usize \<Rightarrow> usize \<Rightarrow> nat \<Rightarrow> 'a list run" where
  "reverse_loop esz xs left right 0 = undefined_behaviour ''out of fuel''"
| "reverse_loop esz xs left right (Suc fuel) =
     (if left < right then
        bindR (off_get esz xs left) (\<lambda>temp.
        require_msg (right - left \<ge> esz) ''mem_copy: regions overlap''
        (bindR (off_get esz xs right) (\<lambda>y. bindR (off_set esz xs left y) (\<lambda>xs1.
         bindR (off_set esz xs1 right temp) (\<lambda>xs2.
           reverse_loop esz xs2 (left + esz) (right - esz) fuel)))))
      else ret xs)"

definition algo_reverse :: "'a list cptr \<Rightarrow> usize \<Rightarrow> usize \<Rightarrow> 'a list run" where
  "algo_reverse array len esz =
     require_msg (array \<noteq> None) ''algo_reverse: array cannot be NULL''
     (require_msg (esz > 0) ''algo_reverse: elem_size must be > 0''
     (require_msg (esz \<le> algo_reverse_swap_buf_size)
        ''algo_reverse: elem_size exceeds ALGO_REVERSE_SWAP_BUF_SIZE''
     (bindR (deref array) (\<lambda>xs.
        if len < 2 then ret xs else reverse_loop esz xs 0 ((len - 1) * esz) (unat len)))))"

definition algo_reverse_slice :: "usize \<Rightarrow> 'a slice \<Rightarrow> 'a list cptr run" where
  "algo_reverse_slice esz sv =
     require_msg (s_len sv = 0 \<or> s_ptr sv \<noteq> None) ''algo_reverse_slice: non-empty slice has NULL ptr''
     (if s_len sv < 2 then ret (s_ptr sv)
      else bindR (algo_reverse (s_ptr sv) (s_len sv) esz) (\<lambda>xs. ret (Some xs)))"

fun palindrome_loop :: "usize \<Rightarrow> 'a cmp_fn \<Rightarrow> 'a list \<Rightarrow> usize \<Rightarrow> usize \<Rightarrow> nat \<Rightarrow> bool run" where
  "palindrome_loop esz cmp xs l r 0 = undefined_behaviour ''out of fuel''"
| "palindrome_loop esz cmp xs l r (Suc fuel) =
     (if l < r then
        bindR (elem_get esz xs l) (\<lambda>a. bindR (elem_get esz xs r) (\<lambda>b.
          if cmp a b \<noteq> 0 then ret False else palindrome_loop esz cmp xs (l + 1) (r - 1) fuel))
      else ret True)"

definition algo_is_palindrome :: "'a list cptr \<Rightarrow> usize \<Rightarrow> usize \<Rightarrow> 'a cmp_fn cptr \<Rightarrow> bool run" where
  "algo_is_palindrome array len esz cmp =
     require_msg (array \<noteq> None) ''algo_is_palindrome: array cannot be NULL''
     (require_msg (esz > 0) ''algo_is_palindrome: elem_size must be > 0''
     (require_msg (cmp \<noteq> None) ''algo_is_palindrome: cmp cannot be NULL''
     (bindR (deref array) (\<lambda>xs. bindR (deref cmp) (\<lambda>c.
        if len < 2 then ret True else palindrome_loop esz c xs 0 (len - 1) (unat len))))))"

definition algo_is_palindrome_slice :: "usize \<Rightarrow> 'a slice \<Rightarrow> 'a cmp_fn cptr \<Rightarrow> bool run" where
  "algo_is_palindrome_slice esz sv cmp =
     require_msg (cmp \<noteq> None) ''algo_is_palindrome_slice: cmp cannot be NULL''
     (require_msg (s_len sv = 0 \<or> s_ptr sv \<noteq> None) ''algo_is_palindrome_slice: non-empty slice has NULL ptr''
     (if s_len sv < 2 then ret True else algo_is_palindrome (s_ptr sv) (s_len sv) esz cmp))"

subsection \<open>Fold (algo/fold)\<close>

text \<open>
  The accumulator is an object; a fallible step returns a \<open>Result\<close> and the accumulator after it.
  The macros work on an array expression, the functions on a slice.
\<close>

fun fold_loop :: "'a access \<Rightarrow> ('s \<Rightarrow> 'a \<Rightarrow> 's) \<Rightarrow> 's \<Rightarrow> usize \<Rightarrow> nat \<Rightarrow> 's run" where
  "fold_loop get fn acc i 0 = ret acc"
| "fold_loop get fn acc i (Suc k) = bindR (get i) (\<lambda>x. fold_loop get fn (fn acc x) (i + 1) k)"

definition algo_fold :: "'s cptr \<Rightarrow> 'a list cptr \<Rightarrow> usize \<Rightarrow> ('s \<Rightarrow> 'a \<Rightarrow> 's) cptr \<Rightarrow> 's run" where
  "algo_fold acc array len fold_fn =
     require_msg (acc \<noteq> None) ''ALGO_FOLD: (acc_ptr) cannot be NULL''
     (require_msg (array \<noteq> None) ''ALGO_FOLD: (array) cannot be NULL''
     (require_msg (fold_fn \<noteq> None) ''ALGO_FOLD: (fold_fn) cannot be NULL''
     (bindR (deref acc) (\<lambda>a. bindR (deref array) (\<lambda>xs. bindR (deref fold_fn) (\<lambda>f.
        fold_loop (arr_get xs) f a 0 (unat len)))))))"

fun fold_result_loop ::
  "'a access \<Rightarrow> ('s \<Rightarrow> 'a \<Rightarrow> bool_result \<times> 's) \<Rightarrow> bool_result \<Rightarrow> 's \<Rightarrow> usize \<Rightarrow> nat \<Rightarrow> (bool_result \<times> 's) run" where
  "fold_result_loop get fn r acc i 0 = ret (r, acc)"
| "fold_result_loop get fn r acc i (Suc k) = bindR (get i) (\<lambda>x.
     let (r', acc') = fn acc x in
     if result_is_err r' then ret (r', acc') else fold_result_loop get fn r' acc' (i + 1) k)"

definition algo_fold_result ::
  "'s cptr \<Rightarrow> 'a list cptr \<Rightarrow> usize \<Rightarrow> ('s \<Rightarrow> 'a \<Rightarrow> bool_result \<times> 's) cptr \<Rightarrow> (bool_result \<times> 's) run" where
  "algo_fold_result acc array len fold_fn =
     require_msg (acc \<noteq> None) ''ALGO_FOLD_RESULT: (acc_ptr) cannot be NULL''
     (require_msg (array \<noteq> None) ''ALGO_FOLD_RESULT: (array) cannot be NULL''
     (require_msg (fold_fn \<noteq> None) ''ALGO_FOLD_RESULT: (fold_fn) cannot be NULL''
     (bindR (deref acc) (\<lambda>a. bindR (deref array) (\<lambda>xs. bindR (deref fold_fn) (\<lambda>f.
        fold_result_loop (arr_get xs) f (Ok True) a 0 (unat len)))))))"

definition algo_fold_slice :: "'s cptr \<Rightarrow> 'a slice \<Rightarrow> ('s \<Rightarrow> 'a \<Rightarrow> 's) cptr \<Rightarrow> 's run" where
  "algo_fold_slice acc sv fn =
     require_msg (acc \<noteq> None) ''algo_fold_slice: acc_ptr cannot be NULL''
     (require_msg (fn \<noteq> None) ''algo_fold_slice: fn cannot be NULL''
     (require_msg (s_len sv = 0 \<or> s_ptr sv \<noteq> None) ''algo_fold_slice: non-empty slice has NULL ptr''
     (bindR (deref acc) (\<lambda>a. bindR (deref fn) (\<lambda>f. fold_loop (slice_elem sv) f a 0 (unat (s_len sv)))))))"

text \<open>The slice version answers \<open>Ok true\<close> at the end, the macro the answer of the last step.\<close>

fun fold_result_slice_loop ::
  "('s \<Rightarrow> 'a \<Rightarrow> bool_result \<times> 's) \<Rightarrow> 's \<Rightarrow> 'a slice \<Rightarrow> usize \<Rightarrow> nat \<Rightarrow> (bool_result \<times> 's) run" where
  "fold_result_slice_loop fn acc sv i 0 = ret (Ok True, acc)"
| "fold_result_slice_loop fn acc sv i (Suc k) = bindR (slice_elem sv i) (\<lambda>x.
     let (r, acc') = fn acc x in
     if result_is_err r then ret (r, acc') else fold_result_slice_loop fn acc' sv (i + 1) k)"

definition algo_fold_result_slice ::
  "'s cptr \<Rightarrow> 'a slice \<Rightarrow> ('s \<Rightarrow> 'a \<Rightarrow> bool_result \<times> 's) cptr \<Rightarrow> (bool_result \<times> 's) run" where
  "algo_fold_result_slice acc sv fn =
     require_msg (acc \<noteq> None) ''algo_fold_result_slice: acc_ptr cannot be NULL''
     (require_msg (fn \<noteq> None) ''algo_fold_result_slice: fn cannot be NULL''
     (require_msg (s_len sv = 0 \<or> s_ptr sv \<noteq> None) ''algo_fold_result_slice: non-empty slice has NULL ptr''
     (bindR (deref acc) (\<lambda>a. bindR (deref fn) (\<lambda>f. fold_result_slice_loop f a sv 0 (unat (s_len sv)))))))"

subsection \<open>The loops over an access\<close>

text \<open>The index of the first element that satisfies a predicate; the length if there is none.\<close>

definition first_match :: "('a \<Rightarrow> bool) \<Rightarrow> 'a list \<Rightarrow> nat" where
  "first_match p xs = length (takeWhile (\<lambda>x. \<not> p x) xs)"

text \<open>
  What the loops need of an access: inside the range it gives the element. The three accesses of
  the code meet it: opaque elements of an array, a typed array, and a slice.
\<close>

locale indexable =
  fixes ok :: "'c \<Rightarrow> bool"
    and elems :: "'c \<Rightarrow> 'a list"
    and get :: "'c \<Rightarrow> 'a access"
  assumes get_elem: "ok c \<Longrightarrow> unat i < length (elems c) \<Longrightarrow> get c i = ret (elems c ! unat i)"
    and length_fits: "ok c \<Longrightarrow> length (elems c) < 2 ^ 64"
begin

definition rest :: "'c \<Rightarrow> usize \<Rightarrow> nat \<Rightarrow> 'a list" where
  "rest c i k = take k (drop (unat i) (elems c))"

lemma rest_0: "rest c i 0 = []"
  by (simp add: rest_def)

lemma rest_all: "k \<le> length (elems c) \<Longrightarrow> rest c 0 k = take k (elems c)"
  by (simp add: rest_def)

lemma step:
  assumes "ok c" "unat i + Suc k \<le> length (elems c)"
  shows "get c i = ret (elems c ! unat i)" "rest c i (Suc k) = elems c ! unat i # rest c (i + 1) k"
    "unat (i + 1) + k \<le> length (elems c)"
proof -
  show "get c i = ret (elems c ! unat i)" using assms by (intro get_elem) simp_all
  have "unat (i + 1) = Suc (unat i)" using assms(2) length_fits [OF assms(1)] by (intro unat_usize_Suc) linarith
  then show "rest c i (Suc k) = elems c ! unat i # rest c (i + 1) k" "unat (i + 1) + k \<le> length (elems c)"
    using assms(2) by (simp_all add: rest_def Cons_nth_drop_Suc [symmetric])
qed

lemma any_loop_value:
  "ok c \<Longrightarrow> unat i + k \<le> length (elems c) \<Longrightarrow> any_loop (get c) p i k = ret (\<exists>x \<in> set (rest c i k). p x)"
  by (induction k arbitrary: i) (simp_all add: rest_0 step)

lemma all_loop_value:
  "ok c \<Longrightarrow> unat i + k \<le> length (elems c) \<Longrightarrow> all_loop (get c) p i k = ret (\<forall>x \<in> set (rest c i k). p x)"
  by (induction k arbitrary: i) (simp_all add: rest_0 step)

lemma fold_loop_value:
  "ok c \<Longrightarrow> unat i + k \<le> length (elems c) \<Longrightarrow> fold_loop (get c) f a i k = ret (foldl f a (rest c i k))"
  by (induction k arbitrary: i a) (simp_all add: rest_0 step)

lemma find_loop_value:
  "ok c \<Longrightarrow> unat i + k \<le> length (elems c) \<Longrightarrow> find_loop (get c) p i k =
   ret (if first_match p (rest c i k) < k
        then Some (i + of_nat (first_match p (rest c i k)), rest c i k ! first_match p (rest c i k)) else None)"
proof (induction k arbitrary: i)
  case (Suc k)
  then show ?case
    using step [of c i k] by (auto simp: first_match_def ac_simps)
qed (simp add: rest_0)

lemma filter_loop_value:
  assumes "ok c" "unat i + k \<le> length (elems c)" "unat w < unat cap" "unat cap \<le> length out"
    "\<And>os w x. length os = length out \<Longrightarrow> unat w < length os \<Longrightarrow> put os w x = ret (os[unat w := x])"
  defines "kept \<equiv> \<lambda>pred i w k. take (unat cap - unat w) (filter pred (rest c i k))"
  shows "filter_loop (get c) put p cap out w i k = ret (w + of_nat (length (kept p i w k)),
    take (unat w) out @ kept p i w k @ drop (unat w + length (kept p i w k)) out)"
  using assms(2-5)
proof (induction k arbitrary: i w out)
  case 0
  then show ?case by (simp add: kept_def rest_0)
next
  case (Suc k)
  note st = step [OF assms(1) Suc.prems(1)]
  show ?case
  proof (cases "p (elems c ! unat i)")
    case False
    then have "kept p i w (Suc k) = kept p (i + 1) w k" by (simp add: kept_def st)
    with False Suc.IH [OF st(3) Suc.prems(2,3)] Suc.prems(4) st(1) show ?thesis by simp
  next
    case True
    let ?x = "elems c ! unat i" and ?out = "out[unat w := elems c ! unat i]"
    have w: "unat (w + 1) = Suc (unat w)" using Suc.prems(2) usize_bound [of cap] by (intro unat_usize_Suc) linarith
    have put: "put out w ?x = ret ?out" using Suc.prems(2,3) by (intro Suc.prems(4)) simp_all
    have tk: "take (Suc (unat w)) ?out = take (unat w) out @ [?x]"
      using Suc.prems(2,3) by (intro take_Suc_update) linarith
    have ys: "kept p i w (Suc k) = ?x # take (unat cap - Suc (unat w)) (filter p (rest c (i + 1) k))"
      using True Suc.prems(2) by (simp add: kept_def st take_Cons' Suc_diff_Suc)
    show ?thesis
    proof (cases "unat (w + 1) < unat cap")
      case False
      then have "kept p i w (Suc k) = [?x]" using ys w by simp
      with True False put st(1) w Suc.prems(2,3) show ?thesis
        by (simp add: word_le_nat_alt upd_conv_take_nth_drop)
    next
      case less: True
      have "filter_loop (get c) put p cap out w i (Suc k) = filter_loop (get c) put p cap ?out (w + 1) (i + 1) k"
        using True put st(1) less by (simp add: word_le_nat_alt)
      also have "\<dots> = ret (w + 1 + of_nat (length (kept p (i + 1) (w + 1) k)),
          take (unat (w + 1)) ?out @ kept p (i + 1) (w + 1) k @ drop (unat (w + 1) + length (kept p (i + 1) (w + 1) k)) ?out)"
        using Suc.prems(3,4) less by (intro Suc.IH [OF st(3)]) simp_all
      also have "kept p i w (Suc k) = ?x # kept p (i + 1) (w + 1) k" using ys w by (simp add: kept_def)
      ultimately show ?thesis by (simp add: w tk add.assoc)
    qed
  qed
qed

end

interpretation opaque: indexable "\<lambda>xs. array_fits esz (length xs)" "\<lambda>xs. xs" "elem_get esz" for esz
  by unfold_locales (auto dest: array_fits_length)

interpretation typed: indexable "\<lambda>xs. length xs < 2 ^ 64" "\<lambda>xs. xs" arr_get
  by unfold_locales auto

lemma slice_elem_value:
  "slice_ok s \<Longrightarrow> unat i < length (slice_list s) \<Longrightarrow> slice_elem s i = ret (slice_list s ! unat i)"
  by (cases "s_ptr s") (auto simp: slice_elem_def slice_ok_def slice_list_def)

lemma slice_list_length: "slice_ok s \<Longrightarrow> length (slice_list s) = unat (s_len s)"
  by (cases "s_ptr s") (auto simp: slice_ok_def slice_list_def)

lemma slice_ok_nonnull: "slice_ok s \<Longrightarrow> s_len s = 0 \<or> s_ptr s \<noteq> None"
  by (auto simp: slice_ok_def)

interpretation sliced: indexable slice_ok slice_list slice_elem
  using usize_bound by unfold_locales (simp_all add: slice_elem_value slice_list_length)

subsection \<open>Map and fold\<close>

lemma map_loop_value:
  "array_fits osz (length out) \<Longrightarrow> array_fits isz (length xs) \<Longrightarrow> unat i + k \<le> length out \<Longrightarrow>
   unat i + k \<le> length xs \<Longrightarrow>
   map_loop osz isz f out xs i k = ret (take (unat i) out @
     map2 f (take k (drop (unat i) out)) (take k (drop (unat i) xs)) @ drop (unat i + k) out)"
proof (induction k arbitrary: i out)
  case (Suc k)
  have i: "unat (i + 1) = Suc (unat i)"
    using Suc.prems(1,3) by (intro unat_usize_Suc) (auto dest!: array_fits_length)
  have "take (Suc (unat i)) (out[unat i := y]) = take (unat i) out @ [y]" for y
    using Suc.prems(3) by (intro take_Suc_update) linarith
  with Suc.prems show ?case
    by (simp add: Suc.IH i Cons_nth_drop_Suc [symmetric])
qed simp

lemma map_inplace_loop_value:
  "array_fits esz (length xs) \<Longrightarrow> unat i + k \<le> length xs \<Longrightarrow>
   map_inplace_loop esz f xs i k =
     ret (take (unat i) xs @ map f (take k (drop (unat i) xs)) @ drop (unat i + k) xs)"
proof (induction k arbitrary: i xs)
  case (Suc k)
  have i: "unat (i + 1) = Suc (unat i)"
    using Suc.prems by (intro unat_usize_Suc) (auto dest!: array_fits_length)
  have "take (Suc (unat i)) (xs[unat i := y]) = take (unat i) xs @ [y]" for y
    using Suc.prems(2) by (intro take_Suc_update) linarith
  with Suc.prems show ?case
    by (simp add: Suc.IH i Cons_nth_drop_Suc [symmetric])
qed simp

lemma map_inplace_slice_loop_value:
  "length xs < 2 ^ 64 \<Longrightarrow> unat i + k \<le> length xs \<Longrightarrow>
   map_inplace_slice_loop f (sv\<lparr>s_ptr := Some xs\<rparr>) i k =
     ret (sv\<lparr>s_ptr := Some (take (unat i) xs @ map f (take k (drop (unat i) xs)) @ drop (unat i + k) xs)\<rparr>)"
proof (induction k arbitrary: i xs)
  case (Suc k)
  have i: "unat (i + 1) = Suc (unat i)" using Suc.prems by (intro unat_usize_Suc) linarith
  have "take (Suc (unat i)) (xs[unat i := y]) = take (unat i) xs @ [y]" for y
    using Suc.prems(2) by (intro take_Suc_update) linarith
  with Suc.prems show ?case
    by (simp add: Suc.IH i Cons_nth_drop_Suc [symmetric])
qed simp

lemma map_slice_loop_value:
  "length os < 2 ^ 64 \<Longrightarrow> slice_ok si \<Longrightarrow> unat i + k \<le> length os \<Longrightarrow> unat i + k \<le> unat (s_len si) \<Longrightarrow>
   map_slice_loop f (so\<lparr>s_ptr := Some os\<rparr>) si i k = ret (so\<lparr>s_ptr := Some (take (unat i) os @
     map2 f (take k (drop (unat i) os)) (take k (drop (unat i) (slice_list si))) @ drop (unat i + k) os)\<rparr>)"
proof (induction k arbitrary: i os)
  case (Suc k)
  have i: "unat (i + 1) = Suc (unat i)" using Suc.prems by (intro unat_usize_Suc) linarith
  have "take (Suc (unat i)) (os[unat i := y]) = take (unat i) os @ [y]" for y
    using Suc.prems(3) by (intro take_Suc_update) linarith
  with Suc.prems show ?case
    by (simp add: Suc.IH i Cons_nth_drop_Suc [symmetric] slice_elem_value slice_list_length)
qed simp

text \<open>A fold that stops at the first error.\<close>

fun fold_until :: "('s \<Rightarrow> 'a \<Rightarrow> bool_result \<times> 's) \<Rightarrow> bool_result \<Rightarrow> 's \<Rightarrow> 'a list \<Rightarrow> bool_result \<times> 's" where
  "fold_until f r a [] = (r, a)"
| "fold_until f r a (x # xs) =
     (case f a x of (Ok b, a') \<Rightarrow> fold_until f (Ok b) a' xs | (Err e, a') \<Rightarrow> (Err e, a'))"

lemma fold_result_loop_value:
  "length xs < 2 ^ 64 \<Longrightarrow> unat i + k \<le> length xs \<Longrightarrow>
   fold_result_loop (arr_get xs) f r a i k = ret (fold_until f r a (take k (drop (unat i) xs)))"
proof (induction k arbitrary: i r a)
  case (Suc k)
  have i: "unat (i + 1) = Suc (unat i)" using Suc.prems by (intro unat_usize_Suc) linarith
  with Suc show ?case
    by (auto simp: Cons_nth_drop_Suc [symmetric] result_is_err_def split: prod.splits result.splits)
qed simp

lemma fold_result_slice_loop_value:
  "slice_ok s \<Longrightarrow> unat i + k \<le> unat (s_len s) \<Longrightarrow>
   fold_result_slice_loop f a s i k = ret (case fold_until f (Ok r) a (take k (drop (unat i) (slice_list s))) of
     (Ok b, a') \<Rightarrow> (Ok True, a') | (Err e, a') \<Rightarrow> (Err e, a'))"
proof (induction k arbitrary: i a r)
  case (Suc k)
  let ?x = "slice_list s ! unat i"
  have i: "unat (i + 1) = Suc (unat i)" using Suc.prems usize_bound [of "s_len s"] by (intro unat_usize_Suc) linarith
  have rest: "take (Suc k) (drop (unat i) (slice_list s)) = ?x # take k (drop (unat (i + 1)) (slice_list s))"
    using Suc.prems by (simp add: i Cons_nth_drop_Suc [symmetric] slice_list_length)
  have get: "slice_elem s i = ret ?x" using Suc.prems by (simp add: slice_elem_value slice_list_length)
  have IH: "fold_result_slice_loop f a' s (i + 1) k =
      ret (case fold_until f (Ok b) a' (take k (drop (unat (i + 1)) (slice_list s))) of
        (Ok c, a'') \<Rightarrow> (Ok True, a'') | (Err e, a'') \<Rightarrow> (Err e, a''))" for a' b
    using Suc.prems i by (intro Suc.IH) simp_all
  show ?case
  proof (cases "f a ?x")
    case (Pair res a')
    show ?thesis
    proof (cases res)
      case (Ok b)
      with Pair IH [of a' b] show ?thesis unfolding rest by (simp add: get result_is_err_def)
    next
      case (Err e)
      with Pair show ?thesis unfolding rest by (simp add: get result_is_err_def)
    qed
  qed
qed simp

subsection \<open>Unique\<close>

text \<open>The reference: an element is kept when it differs from the last one kept.\<close>

fun dedup_after :: "'a cmp_fn \<Rightarrow> 'a \<Rightarrow> 'a list \<Rightarrow> 'a list" where
  "dedup_after cmp p [] = []"
| "dedup_after cmp p (x # xs) = (if cmp p x \<noteq> 0 then x # dedup_after cmp x xs else dedup_after cmp p xs)"

fun dedup :: "'a cmp_fn \<Rightarrow> 'a list \<Rightarrow> 'a list" where
  "dedup cmp [] = []"
| "dedup cmp (x # xs) = x # dedup_after cmp x xs"

lemma dedup_after_equality:
  "(\<And>a b. cmp a b = 0 \<longleftrightarrow> a = b) \<Longrightarrow> p # dedup_after cmp p xs = remdups_adj (p # xs)"
  by (induction xs arbitrary: p) auto

lemma dedup_equality: "(\<And>a b. cmp a b = 0 \<longleftrightarrow> a = b) \<Longrightarrow> dedup cmp xs = remdups_adj xs"
  using dedup_after_equality [of cmp] by (cases xs) auto

lemma dedup_successive: "successively (\<lambda>a b. cmp a b \<noteq> 0) (dedup cmp xs)"
proof -
  have "successively (\<lambda>a b. cmp a b \<noteq> 0) (p # dedup_after cmp p ys)" for p ys
    by (induction ys arbitrary: p) auto
  then show ?thesis by (cases xs) auto
qed

lemma length_dedup_after: "length (dedup_after cmp p xs) \<le> length xs"
  by (induction xs arbitrary: p) (auto intro: le_SucI)

lemma unique_loop_value:
  assumes "array_fits esz (length xs)" "0 < unat w" "unat w \<le> unat i" "unat i + k \<le> length xs"
  defines "kept \<equiv> \<lambda>c xs w i k. dedup_after c (xs ! (unat w - 1)) (take k (drop (unat i) xs))"
  shows "\<exists>zs. unique_loop esz cmp xs w i k = ret (w + of_nat (length (kept cmp xs w i k)), zs) \<and> length zs = length xs \<and>
    take (unat w + length (kept cmp xs w i k)) zs = take (unat w) xs @ kept cmp xs w i k \<and>
    drop (unat i + k) zs = drop (unat i + k) xs"
  using assms(1-4)
proof (induction k arbitrary: w i xs)
  case 0
  then show ?case by (simp add: kept_def)
next
  case (Suc k)
  have len: "length xs < 2 ^ 64" using array_fits_length [OF Suc.prems(1)] .
  have i: "unat (i + 1) = Suc (unat i)" using Suc.prems(4) len by (intro unat_usize_Suc) linarith
  have w: "unat (w + 1) = Suc (unat w)" using Suc.prems(3,4) len by (intro unat_usize_Suc) linarith
  have w1: "unat (w - 1) = unat w - 1" using Suc.prems(2) by (intro unat_usize_pred) auto
  let ?prev = "xs ! (unat w - 1)" and ?cur = "xs ! unat i"
  have get: "elem_get esz xs (w - 1) = ret ?prev" "elem_get esz xs i = ret ?cur"
    using Suc.prems by (simp_all add: w1)
  have rest: "take (Suc k) (drop (unat i) xs) = ?cur # take k (drop (unat (i + 1)) xs)"
    using Suc.prems(4) by (simp add: i Cons_nth_drop_Suc [symmetric])
  show ?case
  proof (cases "cmp ?prev ?cur = 0")
    case True
    then have ys: "kept cmp xs w i (Suc k) = kept cmp xs w (i + 1) k" by (simp add: kept_def rest)
    show ?thesis using Suc.IH [OF Suc.prems(1,2), of "i + 1"] Suc.prems(3,4) True get by (simp add: ys i)
  next
    case False
    let ?xs = "xs[unat w := ?cur]"
    have put: "(if w \<noteq> i then elem_set esz xs w ?cur else ret xs) = ret ?xs"
      using Suc.prems(1,3,4) by (auto simp: list_update_id)
    have same: "drop (Suc (unat i)) ?xs = drop (Suc (unat i)) xs" using Suc.prems(3) by simp
    have ys: "kept cmp xs w i (Suc k) = ?cur # kept cmp ?xs (w + 1) (i + 1) k"
      using False Suc.prems(3,4) by (simp add: kept_def rest w i same)
    have tk: "take (Suc (unat w)) ?xs = take (unat w) xs @ [?cur]"
      using Suc.prems(3,4) by (intro take_Suc_update) linarith
    have "\<exists>zs. unique_loop esz cmp ?xs (w + 1) (i + 1) k = ret (w + 1 + of_nat (length (kept cmp ?xs (w + 1) (i + 1) k)), zs) \<and>
      length zs = length ?xs \<and>
      take (unat (w + 1) + length (kept cmp ?xs (w + 1) (i + 1) k)) zs = take (unat (w + 1)) ?xs @ kept cmp ?xs (w + 1) (i + 1) k \<and>
      drop (unat (i + 1) + k) zs = drop (unat (i + 1) + k) ?xs"
      using Suc.prems i w by (intro Suc.IH) simp_all
    then show ?thesis
      using get put False Suc.prems(3) ys tk by (auto simp: w i add.assoc)
  qed
qed

lemma algo_unique_value:
  assumes "array_fits esz (length xs)" "unat len \<le> length xs"
  shows "\<exists>n zs. algo_unique (Some xs) len esz (Some cmp) = ret (n, zs) \<and> length zs = length xs \<and>
    take (unat n) zs = dedup cmp (take (unat len) xs) \<and> unat n = length (dedup cmp (take (unat len) xs)) \<and>
    drop (unat len) zs = drop (unat len) xs"
proof -
  have esz: "0 < esz" using assms(1) by (simp add: array_fits_def word_less_nat_alt)
  show ?thesis
  proof (cases "len \<le> 1")
    case True
    then have "unat len = 0 \<or> unat len = 1" by (auto simp: word_le_nat_alt)
    then have "dedup cmp (take (unat len) xs) = take (unat len) xs"
      by (cases xs) auto
    with True esz assms(2) show ?thesis by (simp add: algo_unique_def)
  next
    case False
    then have "1 < unat len" by (simp add: word_le_nat_alt)
    then obtain x ys where xs: "xs = x # ys" "take (unat len) xs = x # take (unat len - 1) ys"
      using assms(2) by (cases xs) (auto simp: take_Cons')
    let ?d = "dedup_after cmp x (take (unat len - 1) ys)"
    have "length ?d \<le> unat len - 1" using length_dedup_after [of cmp x "take (unat len - 1) ys"] by simp
    then have n: "unat (1 + of_nat (length ?d) :: usize) = Suc (length ?d)"
      using \<open>1 < unat len\<close> usize_bound [of len] by (subst unat_usize_add) (simp_all add: unat_of_nat take_bit_nat_eq_self)
    from unique_loop_value [OF assms(1), of 1 1 "unat len - 1" cmp] assms(2) \<open>1 < unat len\<close> xs
    show ?thesis using esz False n by (auto simp: algo_unique_def)
  qed
qed

subsection \<open>Reverse and palindrome\<close>

lemma array_fits_mult: "array_fits esz n \<Longrightarrow> a \<le> n \<Longrightarrow> a * unat esz < 2 ^ 64"
  unfolding array_fits_def using mult_le_mono1 [of a n "unat esz"] by linarith

lemma offset_access:
  assumes "array_fits esz (length xs)" "a < length xs"
  shows "off_get esz xs (of_nat (a * unat esz)) = ret (xs ! a)"
    "off_set esz xs (of_nat (a * unat esz)) x = ret (xs[a := x])"
proof -
  have e: "0 < unat esz" "a * unat esz < 2 ^ 64"
    using assms(1) array_fits_mult [OF assms(1), of a] assms(2) by (simp_all add: array_fits_def)
  then have u: "unat (of_nat (a * unat esz) :: usize) = a * unat esz"
    by (simp add: unat_of_nat take_bit_nat_eq_self del: of_nat_mult)
  then have "unat (of_nat (a * unat esz) div esz) = a" using e(1) by (simp only: unat_div_word) simp
  with u assms(2) show "off_get esz xs (of_nat (a * unat esz)) = ret (xs ! a)"
    "off_set esz xs (of_nat (a * unat esz)) x = ret (xs[a := x])"
    by (simp_all add: off_get_def off_set_def del: of_nat_mult)
qed

lemma reverse_loop_value:
  "array_fits esz (length xs) \<Longrightarrow> a \<le> Suc b \<Longrightarrow> b < length xs \<Longrightarrow> b + 2 \<le> a + 2 * fuel \<Longrightarrow>
   \<exists>ys. reverse_loop esz xs (of_nat (a * unat esz)) (of_nat (b * unat esz)) fuel = ret ys \<and> length ys = length xs \<and>
     (\<forall>i < length xs. ys ! i = (if a \<le> i \<and> i \<le> b then xs ! (a + b - i) else xs ! i))"
proof (induction fuel arbitrary: xs a b)
  case (Suc fuel)
  have e: "0 < unat esz" "Suc b * unat esz < 2 ^ 64"
    using array_fits_mult [OF Suc.prems(1), of "Suc b"] Suc.prems(1,3) by (simp_all add: array_fits_def)
  have u: "unat (of_nat (c * unat esz) :: usize) = c * unat esz" if "c \<le> Suc b" for c
  proof -
    have "c * unat esz < 2 ^ 64" using e(2) mult_le_mono1 [OF that, of "unat esz"] by linarith
    then show ?thesis by (simp add: unat_of_nat take_bit_nat_eq_self del: of_nat_mult)
  qed
  have less: "(of_nat (a * unat esz) :: usize) < of_nat (b * unat esz) \<longleftrightarrow> a < b"
    using u [of a] u [of b] Suc.prems(2) e(1) by (simp add: word_less_nat_alt del: of_nat_mult)
  show ?case
  proof (cases "a < b")
    case False
    then have "a + b - i = i" if "a \<le> i" "i \<le> b" for i using that by simp
    with False less show ?thesis by (simp del: of_nat_mult)
  next
    case True
    let ?xs = "xs[a := xs ! b, b := xs ! a]"
    have nx: "of_nat (a * unat esz) + esz = (of_nat (Suc a * unat esz) :: usize)"
      "of_nat (b * unat esz) - esz = (of_nat ((b - 1) * unat esz) :: usize)"
      using True by (simp_all add: algebra_simps of_nat_diff)
    have "1 \<le> b - a" using True by linarith
    then have "1 * unat esz \<le> (b - a) * unat esz" by (rule mult_le_mono1)
    then have gap: "esz \<le> of_nat (b * unat esz) - of_nat (a * unat esz)"
      using u [of a] u [of b] True less by (simp add: word_le_nat_alt unat_sub diff_mult_distrib del: of_nat_mult)
    have "\<exists>ys. reverse_loop esz ?xs (of_nat (Suc a * unat esz)) (of_nat ((b - 1) * unat esz)) fuel = ret ys \<and>
        length ys = length ?xs \<and>
        (\<forall>i < length ?xs. ys ! i = (if Suc a \<le> i \<and> i \<le> b - 1 then ?xs ! (Suc a + (b - 1) - i) else ?xs ! i))"
      using Suc.prems True by (intro Suc.IH) simp_all
    then obtain ys where ys: "reverse_loop esz ?xs (of_nat (Suc a * unat esz)) (of_nat ((b - 1) * unat esz)) fuel = ret ys"
      "length ys = length xs"
      "\<forall>i < length xs. ys ! i = (if Suc a \<le> i \<and> i \<le> b - 1 then ?xs ! (Suc a + (b - 1) - i) else ?xs ! i)" by auto
    have "reverse_loop esz xs (of_nat (a * unat esz)) (of_nat (b * unat esz)) (Suc fuel) = ret ys"
      using less True gap Suc.prems(1,3) ys(1) [folded nx]
      by (simp add: offset_access del: of_nat_mult)
    moreover have "ys ! i = (if a \<le> i \<and> i \<le> b then xs ! (a + b - i) else xs ! i)" if "i < length xs" for i
      using ys(3) that True Suc.prems(3) by (auto simp: nth_list_update)
    ultimately show ?thesis using ys(2) by blast
  qed
qed simp

lemma algo_reverse_value:
  assumes "array_fits esz (length xs)" "unat len \<le> length xs" "unat esz \<le> 256"
  shows "algo_reverse (Some xs) len esz = ret (rev (take (unat len) xs) @ drop (unat len) xs)"
proof -
  have esz: "0 < esz" "esz \<le> algo_reverse_swap_buf_size"
    using assms(1,3) by (simp_all add: array_fits_def word_less_nat_alt word_le_nat_alt algo_reverse_swap_buf_size_def)
  show ?thesis
  proof (cases "len < 2")
    case True
    then have "unat len = 0 \<or> unat len = 1" by (auto simp: word_less_nat_alt)
    then have "rev (take (unat len) xs) = take (unat len) xs" by (cases xs) auto
    with True esz show ?thesis by (simp add: algo_reverse_def)
  next
    case False
    then have n: "2 \<le> unat len" by (simp add: word_less_nat_alt)
    then have n1: "unat (len - 1) = unat len - 1" by (intro unat_usize_pred) auto
    have last: "(len - 1) * esz = of_nat ((unat len - 1) * unat esz)" unfolding n1 [symmetric] by simp
    have zero: "0 = (of_nat (0 * unat esz) :: usize)" by simp
    have "unat len - 1 < length xs" "unat len - 1 + 2 \<le> 0 + 2 * unat len" using assms(2) n by simp_all
    from reverse_loop_value [OF assms(1) _ this] obtain ys where
      ys: "reverse_loop esz xs 0 ((len - 1) * esz) (unat len) = ret ys" "length ys = length xs"
      "\<forall>i < length xs. ys ! i = (if 0 \<le> i \<and> i \<le> unat len - 1 then xs ! (0 + (unat len - 1) - i) else xs ! i)"
      unfolding last zero [symmetric] by blast
    have "ys = rev (take (unat len) xs) @ drop (unat len) xs"
      using ys(2,3) assms(2) n by (intro nth_equalityI) (auto simp: nth_append rev_nth)
    with False esz ys(1) show ?thesis by (simp add: algo_reverse_def)
  qed
qed

lemma palindrome_loop_value:
  "array_fits esz (length xs) \<Longrightarrow> unat r < length xs \<Longrightarrow> unat l \<le> Suc (unat r) \<Longrightarrow> unat r + 2 \<le> unat l + 2 * fuel \<Longrightarrow>
   palindrome_loop esz cmp xs l r fuel =
     ret (\<forall>i j. unat l \<le> i \<longrightarrow> i < j \<longrightarrow> i + j = unat l + unat r \<longrightarrow> cmp (xs ! i) (xs ! j) = 0)"
proof (induction fuel arbitrary: l r)
  case (Suc fuel)
  define pal where "pal = (\<lambda>a b. \<forall>i j. a \<le> i \<longrightarrow> i < j \<longrightarrow> i + j = a + b \<longrightarrow> cmp (xs ! i) (xs ! j) = 0)"
  have "palindrome_loop esz cmp xs l r (Suc fuel) = ret (pal (unat l) (unat r))"
  proof (cases "l < r")
    case False
    then have "pal (unat l) (unat r)" by (simp add: pal_def word_less_nat_alt)
    with False show ?thesis by simp
  next
    case True
    then have lt: "unat l < unat r" by (simp add: word_less_nat_alt)
    have l: "unat (l + 1) = Suc (unat l)" by (rule unat_usize_lt_Suc [OF True])
    have r: "unat (r - 1) = unat r - 1" using lt by (intro unat_usize_pred) auto
    have split: "pal (unat l) (unat r) \<longleftrightarrow> cmp (xs ! unat l) (xs ! unat r) = 0 \<and> pal (Suc (unat l)) (unat r - 1)"
      unfolding pal_def
    proof (intro iffI conjI allI impI)
      fix i j assume "cmp (xs ! unat l) (xs ! unat r) = 0 \<and> (\<forall>i j. Suc (unat l) \<le> i \<longrightarrow> i < j \<longrightarrow>
          i + j = Suc (unat l) + (unat r - 1) \<longrightarrow> cmp (xs ! i) (xs ! j) = 0)"
        "unat l \<le> i" "i < j" "i + j = unat l + unat r"
      moreover have "j = unat r" if "i = unat l" using that calculation(4) by simp
      moreover have "i + j = Suc (unat l) + (unat r - 1)" using calculation(4) lt by simp
      ultimately show "cmp (xs ! i) (xs ! j) = 0" by (cases "i = unat l") auto
    qed (use lt in \<open>auto simp: ac_simps\<close>)
    have "palindrome_loop esz cmp xs (l + 1) (r - 1) fuel = ret (pal (unat (l + 1)) (unat (r - 1)))"
      unfolding pal_def using Suc.prems lt l r by (intro Suc.IH) simp_all
    with True Suc.prems lt show ?thesis by (simp add: split l r)
  qed
  then show ?case by (simp only: pal_def)
qed simp

subsection \<open>The entry points\<close>

lemma esz_pos: "array_fits esz n \<Longrightarrow> 0 < esz"
  by (simp add: array_fits_def word_less_nat_alt)

lemma first_match_less: "first_match p xs < length xs \<longleftrightarrow> (\<exists>x \<in> set xs. p x)"
proof -
  have "length (takeWhile (\<lambda>x. \<not> p x) xs) \<le> length xs" by (rule length_takeWhile_le)
  moreover have "length (takeWhile (\<lambda>x. \<not> p x) xs) = length xs \<longleftrightarrow> (\<forall>x \<in> set xs. \<not> p x)"
    by (metis takeWhile_eq_all_conv takeWhile_eq_take take_all order_refl)
  ultimately show ?thesis unfolding first_match_def by (metis le_neq_implies_less less_irrefl)
qed

lemma first_match_holds: "first_match p xs < length xs \<Longrightarrow> p (xs ! first_match p xs)"
  unfolding first_match_def using nth_length_takeWhile by blast

lemma first_match_before: "i < first_match p xs \<Longrightarrow> \<not> p (xs ! i)"
  unfolding first_match_def using set_takeWhileD [of "xs ! i" "\<lambda>x. \<not> p x" xs]
  by (metis nth_mem takeWhile_nth)

lemma first_match_bound: "first_match p xs \<le> length xs"
  by (simp add: first_match_def length_takeWhile_le)

lemma algo_any_value:
  "array_fits esz (length xs) \<Longrightarrow> unat len \<le> length xs \<Longrightarrow>
   algo_any (Some xs) len esz (Some p) = ret (\<exists>x \<in> set (take (unat len) xs). p x)"
  by (simp add: algo_any_def esz_pos opaque.any_loop_value opaque.rest_all)

lemma algo_all_value:
  "array_fits esz (length xs) \<Longrightarrow> unat len \<le> length xs \<Longrightarrow>
   algo_all (Some xs) len esz (Some p) = ret (\<forall>x \<in> set (take (unat len) xs). p x)"
  by (simp add: algo_all_def esz_pos opaque.all_loop_value opaque.rest_all)

lemma algo_any_all_slice_value:
  assumes "slice_ok sv"
  shows "algo_any_slice sv (Some p) = ret (\<exists>x \<in> set (slice_list sv). p x)"
    "algo_all_slice sv (Some p) = ret (\<forall>x \<in> set (slice_list sv). p x)"
  using assms
  by (simp_all add: algo_any_slice_def algo_all_slice_def sliced.any_loop_value sliced.all_loop_value
      sliced.rest_all slice_list_length)

lemma algo_find_slice_value:
  assumes "slice_ok sv"
  shows "algo_find_slice sv (Some pred) = (let m = first_match pred (slice_list sv) in
      ret (if m < unat (s_len sv) then Some (slice_list sv ! m) else None))"
    "algo_find_index_slice sv (Some pred) = (let m = first_match pred (slice_list sv) in
      ret (if m < unat (s_len sv) then of_nat m else canon_usize_max))"
  using assms slice_ok_nonnull [OF assms(1)]
  by (simp_all add: algo_find_slice_def algo_find_index_slice_def sliced.find_loop_value sliced.rest_all slice_list_length)

lemma algo_map_value:
  "array_fits osz (length out) \<Longrightarrow> array_fits isz (length xs) \<Longrightarrow> unat len \<le> length out \<Longrightarrow> unat len \<le> length xs \<Longrightarrow>
   algo_map (Some out) (Some xs) len osz isz (Some f) =
     ret (map2 f (take (unat len) out) (take (unat len) xs) @ drop (unat len) out)"
  by (simp add: algo_map_def esz_pos map_loop_value)

lemma algo_map_inplace_value:
  "array_fits esz (length xs) \<Longrightarrow> unat len \<le> length xs \<Longrightarrow>
   algo_map_inplace (Some xs) len esz (Some f) = ret (map f (take (unat len) xs) @ drop (unat len) xs)"
  by (simp add: algo_map_inplace_def esz_pos map_inplace_loop_value)

lemma algo_fold_value:
  "length xs < 2 ^ 64 \<Longrightarrow> unat len \<le> length xs \<Longrightarrow>
   algo_fold (Some a) (Some xs) len (Some f) = ret (foldl f a (take (unat len) xs))"
  by (simp add: algo_fold_def typed.fold_loop_value typed.rest_all)

lemma algo_fold_slice_value:
  "slice_ok sv \<Longrightarrow> algo_fold_slice (Some a) sv (Some f) = ret (foldl f a (slice_list sv))"
  using slice_ok_nonnull [of sv]
  by (simp add: algo_fold_slice_def sliced.fold_loop_value sliced.rest_all slice_list_length)

lemma algo_fold_result_value:
  "length xs < 2 ^ 64 \<Longrightarrow> unat len \<le> length xs \<Longrightarrow>
   algo_fold_result (Some a) (Some xs) len (Some f) = ret (fold_until f (Ok True) a (take (unat len) xs))"
  by (simp add: algo_fold_result_def fold_result_loop_value)

subsection \<open>Properties\<close>

text \<open>\<open>algo_find\<close> stores the index and the address of the first element that satisfies the predicate,
  and answers false, storing nothing, when there is none.\<close>

theorem algo_find_correct:
  assumes "array_fits esz (length xs)" "unat len \<le> length xs"
  shows "(\<forall>i < unat len. \<not> p (xs ! i)) \<and>
      algo_find (Some xs) len esz (Some p) oi oe = ret (False, oi, oe) \<or>
    (\<exists>m < unat len. p (xs ! m) \<and> (\<forall>i < m. \<not> p (xs ! i)) \<and>
      algo_find (Some xs) len esz (Some p) oi oe =
        ret (True, map_option (\<lambda>_. of_nat m) oi, map_option (\<lambda>_. Some (of_nat m, xs ! m)) oe))"
proof -
  let ?ys = "take (unat len) xs"
  let ?m = "first_match p ?ys"
  have loop: "find_loop (elem_get esz xs) p 0 (unat len) =
      ret (if ?m < unat len then Some (of_nat ?m, ?ys ! ?m) else None)"
    using opaque.find_loop_value [of esz xs 0 "unat len" p] assms by (simp add: opaque.rest_all)
  show ?thesis
  proof (cases "?m < unat len")
    case True
    then have m: "?m < length ?ys" using assms(2) by simp
    have "p (xs ! ?m)" using first_match_holds [OF m] True by simp
    moreover have "\<not> p (xs ! i)" if "i < ?m" for i using first_match_before [OF that] that True by simp
    moreover have "len \<noteq> 0" using True by auto
    then have "algo_find (Some xs) len esz (Some p) oi oe =
        ret (True, map_option (\<lambda>_. of_nat ?m) oi, map_option (\<lambda>_. Some (of_nat ?m, xs ! ?m)) oe)"
      using True loop esz_pos [OF assms(1)] by (simp add: algo_find_def)
    ultimately show ?thesis using True by blast
  next
    case False
    then have "\<not> ?m < length ?ys" using assms(2) by simp
    then have "\<forall>i < unat len. \<not> p (xs ! i)"
      using assms(2) by (metis first_match_less length_take min.absorb2 nth_mem nth_take)
    moreover have "algo_find (Some xs) len esz (Some p) oi oe = ret (False, oi, oe)"
      using False loop esz_pos [OF assms(1)] by (simp add: algo_find_def)
    ultimately show ?thesis by blast
  qed
qed

theorem algo_find_correct_witness:
  "algo_find (Some [4, 7, 9 :: u32]) 3 4 (Some (\<lambda>x. 5 < x)) (Some 0) None = ret (True, Some 1, None)"
proof -
  let ?xs = "[4, 7, 9 :: u32]"
  have "\<not> (\<forall>i < unat (3 :: usize). \<not> 5 < ?xs ! i)" by (intro notI) (drule spec [of _ 1], simp)
  with algo_find_correct [of 4 ?xs 3 "\<lambda>x. 5 < x" "Some 0" None] obtain m where m: "m < 3"
    "5 < ?xs ! m" "\<forall>i < m. \<not> 5 < ?xs ! i"
    "algo_find (Some ?xs) 3 4 (Some (\<lambda>x. 5 < x)) (Some 0) None = ret (True, Some (of_nat m), None)"
    by (auto simp: array_fits_def)
  have "m \<noteq> 0" using m(2) by (intro notI) simp
  moreover have "\<not> 1 < m" using m(3) by (auto dest!: spec [of _ 1])
  ultimately have "m = 1" by linarith
  with m(4) show ?thesis by simp
qed

text \<open>\<open>algo_filter\<close> writes the elements that satisfy the predicate, in their order and up to the capacity
  of the output, answers how many it wrote and leaves the rest of the output as it was.\<close>

theorem algo_filter_correct:
  assumes "array_fits esz (length xs)" "array_fits esz (length out)" "unat len \<le> length xs" "unat cap \<le> length out"
  shows "\<exists>n zs. algo_filter (Some out) cap (Some xs) len esz (Some p) = ret (n, zs) \<and>
    take (unat n) zs = take (unat cap) (filter p (take (unat len) xs)) \<and>
    unat n = min (unat cap) (length (filter p (take (unat len) xs))) \<and>
    length zs = length out \<and> drop (unat n) zs = drop (unat n) out"
proof (cases "len = 0 \<or> cap = 0")
  case True
  then have "algo_filter (Some out) cap (Some xs) len esz (Some p) = ret (0, out)"
    using esz_pos [OF assms(1)] by (simp add: algo_filter_def)
  with True show ?thesis by auto
next
  case False
  let ?ys = "take (unat cap) (filter p (take (unat len) xs))"
  have "0 < unat cap" using False by (simp add: unat_gt_0)
  with opaque.filter_loop_value [OF assms(1), of 0 "unat len" 0 cap out "elem_set esz" p] assms
  have "filter_loop (elem_get esz xs) (elem_set esz) p cap out 0 0 (unat len) =
      ret (of_nat (length ?ys), ?ys @ drop (length ?ys) out)"
    by (simp add: opaque.rest_all)
  then have "algo_filter (Some out) cap (Some xs) len esz (Some p) = ret (of_nat (length ?ys), ?ys @ drop (length ?ys) out)"
    using False esz_pos [OF assms(1)] by (simp add: algo_filter_def)
  moreover have "length ?ys \<le> unat cap" "length ?ys = min (unat cap) (length (filter p (take (unat len) xs)))"
    by simp_all
  moreover define ys where "ys = ?ys"
  ultimately have "algo_filter (Some out) cap (Some xs) len esz (Some p) = ret (of_nat (length ys), ys @ drop (length ys) out)"
    "length ys \<le> unat cap" "length ys = min (unat cap) (length (filter p (take (unat len) xs)))" by simp_all
  moreover from this(2) have "unat (of_nat (length ys) :: usize) = length ys"
    using usize_bound [of cap] by (simp add: unat_of_nat take_bit_nat_eq_self)
  ultimately show ?thesis using assms(4) by (auto simp: ys_def [symmetric])
qed

theorem algo_filter_correct_witness:
  "\<exists>n zs. algo_filter (Some [0, 0, 0 :: u32]) 2 (Some [4, 7, 9, 8]) 4 4 (Some (\<lambda>x. 5 < x)) = ret (n, zs) \<and>
    take (unat n) zs = [7, 9]"
  using algo_filter_correct [of 4 "[4, 7, 9, 8 :: u32]" "[0, 0, 0]" 4 2 "\<lambda>x. 5 < x"]
  by (auto simp: array_fits_def)

text \<open>\<open>algo_unique\<close> leaves in front the elements without adjacent duplicates, answers how many there are
  and does not touch what lies behind the range; no two neighbours of the result compare equal.\<close>

theorem algo_unique_correct:
  assumes "array_fits esz (length xs)" "unat len \<le> length xs"
  shows "\<exists>n zs. algo_unique (Some xs) len esz (Some cmp) = ret (n, zs) \<and> length zs = length xs \<and>
    drop (unat len) zs = drop (unat len) xs \<and> unat n \<le> unat len \<and>
    successively (\<lambda>a b. cmp a b \<noteq> 0) (take (unat n) zs) \<and>
    ((\<forall>a b. cmp a b = 0 \<longleftrightarrow> a = b) \<longrightarrow> take (unat n) zs = remdups_adj (take (unat len) xs))"
proof -
  obtain n zs where nzs: "algo_unique (Some xs) len esz (Some cmp) = ret (n, zs)" "length zs = length xs"
    "take (unat n) zs = dedup cmp (take (unat len) xs)" "unat n = length (dedup cmp (take (unat len) xs))"
    "drop (unat len) zs = drop (unat len) xs"
    using algo_unique_value [OF assms, of cmp] by blast
  have "length (dedup cmp ys) \<le> length ys" for ys
    using length_dedup_after [of cmp] by (cases ys) auto
  from this [of "take (unat len) xs"] have "unat n \<le> unat len" using nzs(4) assms(2) by simp
  with nzs dedup_successive [of cmp "take (unat len) xs"] dedup_equality [of cmp "take (unat len) xs"]
  show ?thesis by auto
qed

theorem algo_unique_correct_witness:
  "\<exists>n zs. algo_unique (Some [3, 3, 5, 5, 3 :: u32]) 5 4 (Some algo_cmp_u32) = ret (n, zs) \<and> take (unat n) zs = [3, 5, 3]"
  using algo_unique_correct [of 4 "[3, 3, 5, 5, 3 :: u32]" 5 algo_cmp_u32]
  by (auto simp: array_fits_def algo_cmp_u32_def)

text \<open>\<open>algo_is_palindrome\<close> answers true exactly when \<open>algo_reverse\<close> leaves the array as it is, for a
  comparator that is equality; both return.\<close>

theorem palindrome_iff_reverse:
  assumes "array_fits esz (length xs)" "unat len \<le> length xs" "unat esz \<le> 256"
    "\<And>a b. cmp a b = 0 \<longleftrightarrow> a = b"
  shows "algo_is_palindrome (Some xs) len esz (Some cmp) = ret (algo_reverse (Some xs) len esz = ret xs)"
proof -
  let ?ys = "take (unat len) xs"
  have rev: "algo_reverse (Some xs) len esz = ret xs \<longleftrightarrow> rev ?ys = ?ys"
    using algo_reverse_value [OF assms(1-3)] by (metis append_take_drop_id append_same_eq sum.inject(2))
  show ?thesis
  proof (cases "len < 2")
    case True
    then have "length ?ys \<le> 1" by (simp add: word_less_nat_alt min_def)
    then have "rev ?ys = ?ys" by (cases ?ys) auto
    with True rev esz_pos [OF assms(1)] show ?thesis by (simp add: algo_is_palindrome_def)
  next
    case False
    then have n: "2 \<le> unat len" by (simp add: word_less_nat_alt)
    then have n1: "unat (len - 1) = unat len - 1" by (intro unat_usize_pred) auto
    have "algo_is_palindrome (Some xs) len esz (Some cmp) =
        ret (\<forall>i j. i < j \<longrightarrow> i + j = unat len - 1 \<longrightarrow> xs ! i = xs ! j)"
      using palindrome_loop_value [OF assms(1), of "len - 1" 0 "unat len" cmp] assms(2,4) n n1 False esz_pos [OF assms(1)]
      by (simp add: algo_is_palindrome_def)
    moreover have "rev ?ys = ?ys \<longleftrightarrow> (\<forall>i j. i < j \<longrightarrow> i + j = unat len - 1 \<longrightarrow> xs ! i = xs ! j)"
    proof
      assume r: "rev ?ys = ?ys"
      show "\<forall>i j. i < j \<longrightarrow> i + j = unat len - 1 \<longrightarrow> xs ! i = xs ! j"
      proof (intro allI impI)
        fix i j assume "i < j" "i + j = unat len - 1"
        then have "i < unat len" "j = unat len - Suc i" using n by linarith+
        with assms(2) show "xs ! i = xs ! j" using rev_nth [of i ?ys] by (simp add: r)
      qed
    next
      assume p: "\<forall>i j. i < j \<longrightarrow> i + j = unat len - 1 \<longrightarrow> xs ! i = xs ! j"
      show "rev ?ys = ?ys"
      proof (rule nth_equalityI)
        fix i assume "i < length (rev ?ys)"
        then have i: "i < unat len" using assms(2) by simp
        consider "i < unat len - Suc i" | "i = unat len - Suc i" | "unat len - Suc i < i" by linarith
        then have "xs ! (unat len - Suc i) = xs ! i"
        proof cases
          case 1
          then show ?thesis using p [rule_format, of i "unat len - Suc i"] i by simp
        next
          case 3
          then show ?thesis using p [rule_format, of "unat len - Suc i" i] i by simp
        qed simp
        then show "rev ?ys ! i = ?ys ! i" using i assms(2) by (simp add: rev_nth)
      qed simp
    qed
    ultimately show ?thesis using rev by simp
  qed
qed

theorem palindrome_iff_reverse_witness:
  "algo_is_palindrome (Some [1, 2, 1 :: u32]) 3 4 (Some algo_cmp_u32) =
    ret (algo_reverse (Some [1, 2, 1]) 3 4 = ret [1, 2, 1 :: u32])"
  by (rule palindrome_iff_reverse) (auto simp: array_fits_def algo_cmp_u32_def)

end
