(* ===== verification/Canon_Heap.thy ===== *)
theory Canon_Heap
  imports Canon_Compare "HOL-Library.Multiset"
begin

section \<open>Binary heaps in an array\<close>

text \<open>
  The mathematics of the heap of data/priority_queue.h on lists: the order between an element
  and its parent (\<open>edge_ok\<close>), heaps that are whole, whole from an index on, or broken at one
  index, and what one exchange of a sift loop does to them. Canon_PriorityQueue applies
  these lemmas to the loops of the code.
\<close>

subsection \<open>Exchanges and permutations of a prefix\<close>

definition exchange :: "'a list \<Rightarrow> nat \<Rightarrow> nat \<Rightarrow> 'a list" where
  "exchange xs i j = xs[i := xs ! j, j := xs ! i]"

lemma length_exchange [simp]: "length (exchange xs i j) = length xs"
  by (simp add: exchange_def)

lemma exchange_nth:
  "i < length xs \<Longrightarrow> j < length xs \<Longrightarrow> k < length xs \<Longrightarrow>
   exchange xs i j ! k = (if k = i then xs ! j else if k = j then xs ! i else xs ! k)"
  by (auto simp: exchange_def nth_list_update)

text \<open>\<open>ys\<close> is \<open>xs\<close> with its first \<open>n\<close> elements permuted.\<close>

definition permuted :: "nat \<Rightarrow> 'a list \<Rightarrow> 'a list \<Rightarrow> bool" where
  "permuted n xs ys \<longleftrightarrow> length ys = length xs \<and> mset (take n ys) = mset (take n xs) \<and> drop n ys = drop n xs"

lemma permuted_refl [simp]: "permuted n xs xs"
  by (simp add: permuted_def)

lemma permuted_trans: "permuted n xs ys \<Longrightarrow> permuted n ys zs \<Longrightarrow> permuted n xs zs"
  by (simp add: permuted_def)

lemma permuted_length: "permuted n xs ys \<Longrightarrow> length ys = length xs"
  by (simp add: permuted_def)

lemma permuted_exchange:
  assumes "i < n" "j < n" "n \<le> length xs"
  shows "permuted n xs (exchange xs i j)"
proof -
  have "take n (exchange xs i j) = (take n xs)[i := take n xs ! j, j := take n xs ! i]"
    using assms by (simp add: exchange_def take_update_swap)
  then have "mset (take n (exchange xs i j)) = mset (take n xs)"
    using assms mset_swap [of j "take n xs" i] by simp
  then show ?thesis using assms by (simp add: permuted_def exchange_def)
qed

subsection \<open>Heaps\<close>

abbreviation parent :: "nat \<Rightarrow> nat" where
  "parent i \<equiv> (i - 1) div 2"

definition edge_ok :: "'a cmp_fn \<Rightarrow> 'a list \<Rightarrow> nat \<Rightarrow> bool" where
  "edge_ok cmp xs i \<longleftrightarrow> cmp (xs ! parent i) (xs ! i) \<le> 0"

text \<open>Every element of the first \<open>n\<close> whose parent is at \<open>m\<close> or later is in order with it.\<close>

definition heap_from :: "'a cmp_fn \<Rightarrow> nat \<Rightarrow> nat \<Rightarrow> 'a list \<Rightarrow> bool" where
  "heap_from cmp m n xs \<longleftrightarrow> (\<forall>i. 0 < i \<and> i < n \<and> m \<le> parent i \<longrightarrow> edge_ok cmp xs i)"

text \<open>The parent of \<open>k\<close> is in order with the children of \<open>k\<close>.\<close>

definition skip_ok :: "'a cmp_fn \<Rightarrow> nat \<Rightarrow> nat \<Rightarrow> 'a list \<Rightarrow> bool" where
  "skip_ok cmp n k xs \<longleftrightarrow> (\<forall>i. 0 < i \<and> i < n \<and> parent i = k \<longrightarrow> cmp (xs ! parent k) (xs ! i) \<le> 0)"

text \<open>
  Broken below \<open>k\<close> only (sifting down), above \<open>k\<close> only (sifting up), or on both sides.
\<close>

definition broken_below :: "'a cmp_fn \<Rightarrow> nat \<Rightarrow> nat \<Rightarrow> nat \<Rightarrow> 'a list \<Rightarrow> bool" where
  "broken_below cmp m n k xs \<longleftrightarrow>
     (\<forall>i. 0 < i \<and> i < n \<and> m \<le> parent i \<and> parent i \<noteq> k \<longrightarrow> edge_ok cmp xs i) \<and>
     (0 < k \<and> m \<le> parent k \<longrightarrow> skip_ok cmp n k xs)"

definition broken_above :: "'a cmp_fn \<Rightarrow> nat \<Rightarrow> nat \<Rightarrow> 'a list \<Rightarrow> bool" where
  "broken_above cmp n k xs \<longleftrightarrow>
     (\<forall>i. 0 < i \<and> i < n \<and> i \<noteq> k \<longrightarrow> edge_ok cmp xs i) \<and> (0 < k \<longrightarrow> skip_ok cmp n k xs)"

definition broken_at :: "'a cmp_fn \<Rightarrow> nat \<Rightarrow> nat \<Rightarrow> 'a list \<Rightarrow> bool" where
  "broken_at cmp n k xs \<longleftrightarrow>
     (\<forall>i. 0 < i \<and> i < n \<and> i \<noteq> k \<and> parent i \<noteq> k \<longrightarrow> edge_ok cmp xs i) \<and> (0 < k \<longrightarrow> skip_ok cmp n k xs)"

lemma broken_above_at: "broken_above cmp n k xs \<Longrightarrow> broken_at cmp n k xs"
  by (simp add: broken_above_def broken_at_def)

lemma broken_above_end:
  "broken_above cmp n k xs \<Longrightarrow> k = 0 \<or> edge_ok cmp xs k \<Longrightarrow> heap_from cmp 0 n xs"
  unfolding broken_above_def heap_from_def by (metis less_irrefl)

lemma broken_at_end:
  "broken_at cmp n k xs \<Longrightarrow> k = 0 \<or> edge_ok cmp xs k \<Longrightarrow> broken_below cmp 0 n k xs"
  unfolding broken_at_def broken_below_def by (metis less_irrefl)

lemma broken_below_end:
  assumes "broken_below cmp m n k xs" "\<And>i. 0 < i \<Longrightarrow> i < n \<Longrightarrow> parent i = k \<Longrightarrow> edge_ok cmp xs i"
  shows "heap_from cmp m n xs"
  using assms unfolding broken_below_def heap_from_def by metis

lemma heap_from_root: "heap_from cmp 0 n xs \<Longrightarrow> broken_below cmp 0 n 0 xs"
  by (simp add: heap_from_def broken_below_def)

lemma heap_from_cong:
  assumes "\<And>i. i < n \<Longrightarrow> xs ! i = ys ! i"
  shows "heap_from cmp m n xs = heap_from cmp m n ys"
proof -
  have "edge_ok cmp xs i = edge_ok cmp ys i" if "i < n" for i
    using assms [OF that] assms [of "parent i"] that by (simp add: edge_ok_def)
  then show ?thesis by (auto simp: heap_from_def)
qed

lemma heap_from_shorter: "heap_from cmp m n xs \<Longrightarrow> n' \<le> n \<Longrightarrow> heap_from cmp m n' xs"
  by (simp add: heap_from_def)

context comparator
begin

lemma heap_skip_ok: "heap_from cmp m n xs \<Longrightarrow> 0 < k \<Longrightarrow> k < n \<Longrightarrow> m \<le> parent k \<Longrightarrow> skip_ok cmp n k xs"
  unfolding skip_ok_def
proof (intro allI impI)
  fix i assume h: "heap_from cmp m n xs" "0 < k" "k < n" "m \<le> parent k" "0 < i \<and> i < n \<and> parent i = k"
  have "m \<le> k" using h(4) by linarith
  with h have "edge_ok cmp xs i" "edge_ok cmp xs k" by (simp_all add: heap_from_def)
  with h(5) show "cmp (xs ! parent k) (xs ! i) \<le> 0" unfolding edge_ok_def by (metis cmp_trans)
qed

lemma heap_broken_below: "heap_from cmp m n xs \<Longrightarrow> k < n \<Longrightarrow> broken_below cmp m n k xs"
  using heap_skip_ok [of m n xs k] by (simp add: broken_below_def heap_from_def)

text \<open>The root is a least element.\<close>

lemma heap_root_least: "heap_from cmp 0 n xs \<Longrightarrow> i < n \<Longrightarrow> cmp (xs ! 0) (xs ! i) \<le> 0"
proof (induction i rule: less_induct)
  case (less i)
  show ?case
  proof (cases "i = 0")
    case False
    then have "parent i < i" by linarith
    with less False have "cmp (xs ! 0) (xs ! parent i) \<le> 0" "edge_ok cmp xs i"
      by (simp_all add: heap_from_def)
    then show ?thesis unfolding edge_ok_def by (rule cmp_trans)
  qed simp
qed

text \<open>One step up: the element at \<open>k\<close> is smaller than its parent and changes places with it.\<close>

lemma exchange_up:
  assumes "broken_at cmp n k xs" "0 < k" "k < n" "n \<le> length xs" "\<not> edge_ok cmp xs k"
  shows "broken_above cmp n (parent k) (exchange xs (parent k) k)"
proof -
  let ?p = "parent k" and ?ys = "exchange xs (parent k) k"
  have p: "?p < k" using assms(2) by linarith
  have ys: "?ys ! i = (if i = ?p then xs ! k else if i = k then xs ! ?p else xs ! i)" if "i < n" for i
    using that p assms(3,4) by (subst exchange_nth) simp_all
  have kp: "cmp (xs ! k) (xs ! ?p) \<le> 0" using assms(5) cmp_total by (simp add: edge_ok_def)
  have edges: "cmp (xs ! parent i) (xs ! i) \<le> 0" if "0 < i" "i < n" "i \<noteq> k" "parent i \<noteq> k" for i
    using assms(1) that by (simp add: broken_at_def edge_ok_def)
  have skip: "cmp (xs ! ?p) (xs ! i) \<le> 0" if "0 < i" "i < n" "parent i = k" for i
    using assms(1,2) that by (simp add: broken_at_def skip_ok_def)
  have "edge_ok cmp ?ys i" if i: "0 < i" "i < n" "i \<noteq> ?p" for i
  proof -
    have pi: "parent i < n" using i by linarith
    consider "i = k" | "parent i = k" "i \<noteq> k" | "i \<noteq> k" "parent i = ?p" | "i \<noteq> k" "parent i \<noteq> k" "parent i \<noteq> ?p"
      by blast
    then show ?thesis
    proof cases
      case 1
      then have "?ys ! i = xs ! ?p" "?ys ! parent i = xs ! k" using ys [OF i(2)] ys [OF pi] p by auto
      with kp show ?thesis by (simp add: edge_ok_def)
    next
      case 2
      then have "?ys ! i = xs ! i" "?ys ! parent i = xs ! ?p" using ys [OF i(2)] ys [OF pi] p i(3) by auto
      with skip [OF i(1,2) 2(1)] show ?thesis by (simp add: edge_ok_def)
    next
      case 3
      then have "?ys ! i = xs ! i" "?ys ! parent i = xs ! k" using ys [OF i(2)] ys [OF pi] p i(3) by auto
      moreover have "cmp (xs ! ?p) (xs ! i) \<le> 0" using edges [OF i(1,2) 3(1)] 3(2) p by simp
      ultimately show ?thesis using cmp_trans [OF kp] by (simp add: edge_ok_def)
    next
      case 4
      then have "?ys ! i = xs ! i" "?ys ! parent i = xs ! parent i" using ys [OF i(2)] ys [OF pi] i(3) by auto
      with edges [OF i(1,2) 4(1,2)] show ?thesis by (simp add: edge_ok_def)
    qed
  qed
  moreover have "skip_ok cmp n ?p ?ys" if "0 < ?p"
    unfolding skip_ok_def
  proof (intro allI impI)
    fix i assume i: "0 < i \<and> i < n \<and> parent i = ?p"
    have pp: "parent ?p < ?p" "?p < n" "parent ?p \<noteq> k" using that p assms(3) by linarith+
    have up: "cmp (xs ! parent ?p) (xs ! ?p) \<le> 0" using edges [of ?p] that pp p by simp
    have gp: "?ys ! parent ?p = xs ! parent ?p" using ys [of "parent ?p"] pp by simp
    have "i \<noteq> ?p" using i pp by auto
    show "cmp (?ys ! parent ?p) (?ys ! i) \<le> 0"
    proof (cases "i = k")
      case True
      then have "?ys ! i = xs ! ?p" using ys [of i] i \<open>i \<noteq> ?p\<close> by simp
      then show ?thesis using gp up by simp
    next
      case False
      then have "cmp (xs ! ?p) (xs ! i) \<le> 0" using edges [of i] i p by simp
      then have "cmp (xs ! parent ?p) (xs ! i) \<le> 0" by (rule cmp_trans [OF up])
      moreover have "?ys ! i = xs ! i" using ys [of i] i \<open>i \<noteq> ?p\<close> False by simp
      ultimately show ?thesis using gp by simp
    qed
  qed
  ultimately show ?thesis by (simp add: broken_above_def)
qed

text \<open>One step down: the smaller child \<open>c\<close> of \<open>k\<close> changes places with it.\<close>

lemma exchange_down:
  assumes "broken_below cmp m n k xs" "m \<le> k" "0 < c" "c < n" "parent c = k" "n \<le> length xs"
    and less: "cmp (xs ! c) (xs ! k) \<le> 0"
    and least: "\<And>i. 0 < i \<Longrightarrow> i < n \<Longrightarrow> parent i = k \<Longrightarrow> cmp (xs ! c) (xs ! i) \<le> 0"
  shows "broken_below cmp m n c (exchange xs k c)"
proof -
  let ?ys = "exchange xs k c"
  have k: "k < c" using assms(3,5) by linarith
  have ys: "?ys ! i = (if i = k then xs ! c else if i = c then xs ! k else xs ! i)" if "i < n" for i
    using that k assms(4,6) by (subst exchange_nth) simp_all
  have edges: "cmp (xs ! parent i) (xs ! i) \<le> 0" if "0 < i" "i < n" "m \<le> parent i" "parent i \<noteq> k" for i
    using assms(1) that by (simp add: broken_below_def edge_ok_def)
  have "edge_ok cmp ?ys i" if i: "0 < i" "i < n" "m \<le> parent i" "parent i \<noteq> c" for i
  proof -
    have pi: "parent i < n" "parent i < i" using i by linarith+
    consider "i = c" | "i = k" | "i \<noteq> c" "i \<noteq> k" "parent i = k" | "i \<noteq> c" "i \<noteq> k" "parent i \<noteq> k" by blast
    then show ?thesis
    proof cases
      case 1
      then have "?ys ! i = xs ! k" "?ys ! parent i = xs ! c" using ys [OF i(2)] ys [OF pi(1)] k assms(5) by auto
      with less show ?thesis by (simp add: edge_ok_def)
    next
      case 2
      then have "cmp (xs ! parent k) (xs ! c) \<le> 0"
        using assms(1,3-5) i by (simp add: broken_below_def skip_ok_def)
      moreover have "?ys ! i = xs ! c" "?ys ! parent i = xs ! parent k"
        using 2 ys [OF i(2)] ys [OF pi(1)] pi(2) k by auto
      ultimately show ?thesis by (simp add: edge_ok_def)
    next
      case 3
      then have "?ys ! i = xs ! i" "?ys ! parent i = xs ! c" using ys [OF i(2)] ys [OF pi(1)] by auto
      with least [OF i(1,2) 3(3)] show ?thesis by (simp add: edge_ok_def)
    next
      case 4
      then have "?ys ! i = xs ! i" "?ys ! parent i = xs ! parent i" using ys [OF i(2)] ys [OF pi(1)] i(4) by auto
      with edges [OF i(1,2,3) 4(3)] show ?thesis by (simp add: edge_ok_def)
    qed
  qed
  moreover have "skip_ok cmp n c ?ys"
    unfolding skip_ok_def
  proof (intro allI impI)
    fix i assume i: "0 < i \<and> i < n \<and> parent i = c"
    have "c < i" using i by linarith
    then have "?ys ! i = xs ! i" "?ys ! parent c = xs ! c" using ys [of i] ys [of k] i k assms(4,5) by auto
    moreover have "cmp (xs ! parent i) (xs ! i) \<le> 0" using edges [of i] i k assms(2) by simp
    ultimately show "cmp (?ys ! parent c) (?ys ! i) \<le> 0" using i by simp
  qed
  ultimately show ?thesis by (simp add: broken_below_def)
qed

end

end
