(* ===== verification/Canon_PriorityQueue.thy ===== *)
theory Canon_PriorityQueue
  imports Canon_Interfaces Canon_Heap
begin

section \<open>The binary heap (data/priority_queue.h)\<close>

text \<open>
  The bounded min-heap over a caller's buffer of \<open>elem_size\<close>-byte elements. The struct is the
  record \<open>pq\<close>: the buffer is the list of its elements or NULL, the comparator, with the \<open>ctx\<close> it
  is always called with, a function or NULL. The sift loops follow the source: up, while the index is not the root; down, \<open>while
  (true)\<close> with the smaller of the two children, with fuel \<open>len + 1\<close>, which is more than the
  number of iterations on every heap whose index arithmetic does not wrap (\<open>pq_ok\<close>): the index
  grows in every iteration. Running out of the fuel is a fault, so a theorem that an
  operation returns also shows that its loop ends.

  \<open>pq_ok\<close> is the heap invariant, \<open>pq_bag\<close> the multiset of the elements. The queue is an
  instance of \<open>priority_container\<close>, whose clients know that a pop gives a least element and
  that draining a queue sorts it. The views as bytes are not modelled.
\<close>

subsection \<open>The struct and the index arithmetic\<close>

record 'a pq =
  pq_data :: "'a list cptr"
  pq_length :: usize
  pq_cap :: usize
  pq_elem_size :: usize
  pq_cmp_fn :: "'a cmp_fn cptr"

definition pq_cmp :: "'a pq \<Rightarrow> 'a \<Rightarrow> 'a \<Rightarrow> int run" where
  "pq_cmp pq a b = bindR (deref (pq_cmp_fn pq)) (\<lambda>c. ret (c a b))"

definition pq_parent :: "usize \<Rightarrow> usize run" where
  "pq_parent i = require_msg (i > 0) ''pq_parent_: i must be > 0 (root has no parent)''
     (ret ((i - 1) div 2))"

definition pq_left_child :: "usize \<Rightarrow> usize" where
  "pq_left_child i = 2 * i + 1"

definition pq_right_child :: "usize \<Rightarrow> usize" where
  "pq_right_child i = 2 * i + 2"

text \<open>An element through \<open>ptr_elem(pq->data, i, pq->elem_size)\<close>.\<close>

definition pq_elems :: "'a pq \<Rightarrow> 'a list run" where
  "pq_elems pq = (case pq_data pq of
     None \<Rightarrow> violation ''ptr_elem: base cannot be NULL'' | Some xs \<Rightarrow> ret xs)"

definition pq_get :: "'a pq \<Rightarrow> usize \<Rightarrow> 'a run" where
  "pq_get pq i = bindR (pq_elems pq) (\<lambda>xs. elem_get (pq_elem_size pq) xs i)"

definition pq_set :: "'a pq \<Rightarrow> usize \<Rightarrow> 'a \<Rightarrow> 'a pq run" where
  "pq_set pq i x = bindR (pq_elems pq) (\<lambda>xs.
     bindR (elem_set (pq_elem_size pq) xs i x) (\<lambda>ys. ret (pq\<lparr>pq_data := Some ys\<rparr>)))"

text \<open>Both branches of the swap, \<open>mem_swap\<close> and the loop over the bytes, exchange the elements.\<close>

definition pq_swap :: "'a pq \<Rightarrow> usize \<Rightarrow> usize \<Rightarrow> 'a pq run" where
  "pq_swap pq a b =
     (if a = b then ret pq
      else bindR (pq_get pq a) (\<lambda>x. bindR (pq_get pq b) (\<lambda>y.
           bindR (pq_set pq a y) (\<lambda>pq'. pq_set pq' b x))))"

function pq_sift_up :: "'a pq \<Rightarrow> usize \<Rightarrow> 'a pq run" where
  "pq_sift_up pq idx =
     (if idx > 0 then
        bindR (pq_parent idx) (\<lambda>p.
        bindR (pq_get pq p) (\<lambda>pe.
        bindR (pq_get pq idx) (\<lambda>ie.
        bindR (pq_cmp pq pe ie) (\<lambda>c.
          if c \<le> 0 then ret pq
          else bindR (pq_swap pq p idx) (\<lambda>pq'. pq_sift_up pq' p)))))
      else ret pq)"
  by pat_completeness auto

lemma unat_parent: "0 < i \<Longrightarrow> pq_parent i = ret p \<Longrightarrow> unat p = (unat i - 1) div 2"
  by (auto simp: pq_parent_def unat_div_word unat_usize_pred word_gt_0)

termination pq_sift_up
proof (relation "measure (\<lambda>(pq, idx). unat idx)", goal_cases)
  case 1
  show ?case by simp
next
  case (2 pq idx p pe ie c pq')
  then have "unat p = (unat idx - 1) div 2" "0 < unat idx"
    using unat_parent [of idx p] by (simp_all add: word_less_nat_alt)
  then have "unat p < unat idx" by linarith
  then show ?case by simp
qed

declare pq_sift_up.simps [simp del]

text \<open>The index of the smallest of \<open>idx\<close> and its children, as the loop body computes it.\<close>

definition pq_smallest :: "'a pq \<Rightarrow> usize \<Rightarrow> usize run" where
  "pq_smallest pq idx =
     bindR (if pq_left_child idx < pq_length pq
            then bindR (pq_get pq idx) (\<lambda>sl. bindR (pq_get pq (pq_left_child idx)) (\<lambda>le.
                 bindR (pq_cmp pq le sl) (\<lambda>c. ret (if c < 0 then pq_left_child idx else idx))))
            else ret idx) (\<lambda>smallest.
       if pq_right_child idx < pq_length pq
       then bindR (pq_get pq smallest) (\<lambda>sl. bindR (pq_get pq (pq_right_child idx)) (\<lambda>re.
            bindR (pq_cmp pq re sl) (\<lambda>c. ret (if c < 0 then pq_right_child idx else smallest))))
       else ret smallest)"

fun pq_sift_down_loop :: "nat \<Rightarrow> 'a pq \<Rightarrow> usize \<Rightarrow> 'a pq run" where
  "pq_sift_down_loop 0 pq idx = undefined_behaviour ''the loop does not end''"
| "pq_sift_down_loop (Suc fuel) pq idx =
     bindR (pq_smallest pq idx) (\<lambda>smallest.
       if smallest = idx then ret pq
       else bindR (pq_swap pq idx smallest) (\<lambda>pq'. pq_sift_down_loop fuel pq' smallest))"

definition pq_sift_down :: "'a pq \<Rightarrow> usize \<Rightarrow> 'a pq run" where
  "pq_sift_down pq i = pq_sift_down_loop (Suc (unat (pq_length pq))) pq i"

subsection \<open>The operations\<close>

definition pq_init ::
  "'a pq cptr \<Rightarrow> 'a list cptr \<Rightarrow> usize \<Rightarrow> usize \<Rightarrow> 'a cmp_fn cptr \<Rightarrow> 'a pq cptr run" where
  "pq_init p buffer capacity elem_size cmp =
     require_msg (p \<noteq> None) ''pq_init: pq cannot be NULL''
     (require_msg (buffer \<noteq> None) ''pq_init: buffer cannot be NULL''
     (require_msg (capacity > 0) ''pq_init: capacity must be > 0''
     (require_msg (elem_size > 0) ''pq_init: elem_size must be > 0''
     (require_msg (cmp \<noteq> None) ''pq_init: cmp cannot be NULL''
     (ret (Some \<lparr>pq_data = buffer, pq_length = 0, pq_cap = capacity,
                 pq_elem_size = elem_size, pq_cmp_fn = cmp\<rparr>))))))"

text \<open>\<open>while (i-- > 0)\<close>: \<open>k\<close> is the value of \<open>i\<close> before the test.\<close>

fun pq_heapify_loop :: "'a pq \<Rightarrow> nat \<Rightarrow> 'a pq run" where
  "pq_heapify_loop pq 0 = ret pq"
| "pq_heapify_loop pq (Suc k) = bindR (pq_sift_down pq (of_nat k)) (\<lambda>pq'. pq_heapify_loop pq' k)"

definition pq_heapify :: "'a pq cptr \<Rightarrow> usize \<Rightarrow> 'a pq cptr run" where
  "pq_heapify p len = (case p of
     None \<Rightarrow> ret None
   | Some pq \<Rightarrow>
       require_msg (pq_data pq \<noteq> None) ''pq_heapify: pq not initialized (data is NULL)''
       (require_msg (pq_cmp_fn pq \<noteq> None) ''pq_heapify: pq not initialized (cmp is NULL)''
       (require_msg (pq_cap pq > 0) ''pq_heapify: pq not initialized (capacity is 0)''
       (if len = 0 then ret (Some (pq\<lparr>pq_length := 0\<rparr>))
        else let n = (if len > pq_cap pq then pq_cap pq else len);
                 pq1 = pq\<lparr>pq_length := n\<rparr>
             in if n \<ge> 2
                then bindR (pq_parent (n - 1)) (\<lambda>i.
                     bindR (pq_heapify_loop pq1 (unat (i + 1))) (\<lambda>pq2. ret (Some pq2)))
                else ret (Some pq1)))))"

definition pq_push_result :: "'a pq cptr \<Rightarrow> 'a cptr \<Rightarrow> (bool_result \<times> 'a pq cptr) run" where
  "pq_push_result p elem = (case (p, elem) of
     (Some pq, Some x) \<Rightarrow>
       if pq_length pq \<ge> pq_cap pq then ret (Err ERR_CAPACITY_EXCEEDED, p)
       else bindR (pq_set pq (pq_length pq) x) (\<lambda>pq1.
            let pq2 = pq1\<lparr>pq_length := pq_length pq1 + 1\<rparr> in
            bindR (pq_sift_up pq2 (pq_length pq2 - 1)) (\<lambda>pq3. ret (Ok True, Some pq3)))
   | (p', e') \<Rightarrow> ret (Err ERR_INVALID_ARG, p))"

definition pq_pop_raw :: "'a pq cptr \<Rightarrow> 'a cptr \<Rightarrow> (bool \<times> 'a pq cptr \<times> 'a cptr) run" where
  "pq_pop_raw p out = (case p of
     None \<Rightarrow> ret (False, p, out)
   | Some pq \<Rightarrow>
       if pq_length pq = 0 then ret (False, p, out)
       else bindR (case out of None \<Rightarrow> ret None | Some old \<Rightarrow> bindR (pq_get pq 0) (\<lambda>x. ret (Some x)))
         (\<lambda>out'.
            let pq1 = pq\<lparr>pq_length := pq_length pq - 1\<rparr> in
            if pq_length pq1 > 0
            then bindR (pq_get pq1 (pq_length pq1)) (\<lambda>x.
                 bindR (pq_set pq1 0 x) (\<lambda>pq2.
                 bindR (pq_sift_down pq2 0) (\<lambda>pq3. ret (True, Some pq3, out'))))
            else ret (True, Some pq1, out')))"

text \<open>The pointer to the top element is the element.\<close>

definition pq_peek_raw :: "'a pq cptr \<Rightarrow> 'a cptr run" where
  "pq_peek_raw p = (case p of
     None \<Rightarrow> ret None
   | Some pq \<Rightarrow> if pq_length pq = 0 then ret None else bindR (pq_get pq 0) (\<lambda>x. ret (Some x)))"

definition pq_remove_at_result :: "'a pq cptr \<Rightarrow> usize \<Rightarrow> (bool_result \<times> 'a pq cptr) run" where
  "pq_remove_at_result p i = (case p of
     None \<Rightarrow> ret (Err ERR_INVALID_ARG, p)
   | Some pq \<Rightarrow>
       if i \<ge> pq_length pq then ret (Err ERR_OUT_OF_RANGE, p)
       else let pq1 = pq\<lparr>pq_length := pq_length pq - 1\<rparr> in
         if i = pq_length pq1 then ret (Ok True, Some pq1)
         else bindR (pq_get pq1 (pq_length pq1)) (\<lambda>x.
              bindR (pq_set pq1 i x) (\<lambda>pq2.
              bindR (pq_sift_up pq2 i) (\<lambda>pq3.
              bindR (pq_sift_down pq3 i) (\<lambda>pq4. ret (Ok True, Some pq4))))))"

definition pq_push :: "'a pq cptr \<Rightarrow> 'a cptr \<Rightarrow> (bool \<times> 'a pq cptr) run" where
  "pq_push p elem = bindR (pq_push_result p elem) (\<lambda>(r, p'). ret (result_is_ok r, p'))"

definition pq_pop :: "'a pq cptr \<Rightarrow> 'a cptr \<Rightarrow> (bool \<times> 'a pq cptr \<times> 'a cptr) run" where
  "pq_pop p out = pq_pop_raw p out"

definition pq_peek :: "'a pq cptr \<Rightarrow> 'a cptr \<Rightarrow> (bool \<times> 'a cptr) run" where
  "pq_peek p out = bindR (pq_peek_raw p) (\<lambda>top.
     if top = None \<or> out = None then ret (False, out) else ret (True, top))"

definition pq_remove_at :: "'a pq cptr \<Rightarrow> usize \<Rightarrow> (bool \<times> 'a pq cptr) run" where
  "pq_remove_at p i = bindR (pq_remove_at_result p i) (\<lambda>(r, p'). ret (result_is_ok r, p'))"

definition pq_len :: "'a pq cptr \<Rightarrow> usize" where
  "pq_len p = (case p of Some pq \<Rightarrow> pq_length pq | None \<Rightarrow> 0)"

definition pq_capacity :: "'a pq cptr \<Rightarrow> usize" where
  "pq_capacity p = (case p of Some pq \<Rightarrow> pq_cap pq | None \<Rightarrow> 0)"

definition pq_remaining :: "'a pq cptr \<Rightarrow> usize" where
  "pq_remaining p = (case p of Some pq \<Rightarrow> pq_cap pq - pq_length pq | None \<Rightarrow> 0)"

definition pq_is_empty :: "'a pq cptr \<Rightarrow> bool" where
  "pq_is_empty p = (case p of None \<Rightarrow> True | Some pq \<Rightarrow> pq_length pq = 0)"

definition pq_is_full :: "'a pq cptr \<Rightarrow> bool" where
  "pq_is_full p = (case p of None \<Rightarrow> False | Some pq \<Rightarrow> pq_length pq \<ge> pq_cap pq)"

text \<open>The typed wrappers that do more than call: \<open>DEFINE_PRIORITY_QUEUE(type)\<close>.\<close>

definition pq_typed_pop_option :: "'a \<Rightarrow> 'a pq cptr \<Rightarrow> ('a option \<times> 'a pq cptr) run" where
  "pq_typed_pop_option zero p = bindR (pq_pop_raw p (Some zero)) (\<lambda>(found, p', val).
     if \<not> found then ret (option_none, p') else bindR (deref val) (\<lambda>x. ret (option_some x, p')))"

definition pq_typed_peek_option :: "'a pq cptr \<Rightarrow> 'a option run" where
  "pq_typed_peek_option p = bindR (pq_peek_raw p) (\<lambda>raw.
     case raw of None \<Rightarrow> ret option_none | Some x \<Rightarrow> ret (option_some x))"

subsection \<open>The loops on the elements\<close>

text \<open>
  \<open>pq_holds cmp pq xs\<close>: the struct holds the elements \<open>xs\<close> and the comparator \<open>cmp\<close>, its
  buffer is an object (at most \<open>PTRDIFF_MAX\<close> bytes), and \<open>len\<close> elements are in it.
\<close>

definition pq_holds :: "'a cmp_fn \<Rightarrow> 'a pq \<Rightarrow> 'a list \<Rightarrow> bool" where
  "pq_holds cmp pq xs \<longleftrightarrow> pq_data pq = Some xs \<and> pq_cmp_fn pq = Some cmp \<and>
     array_fits (pq_elem_size pq) (length xs) \<and> length xs < 2 ^ 63 \<and>
     unat (pq_length pq) \<le> length xs"

lemma pq_get_ret: "pq_holds cmp pq xs \<Longrightarrow> unat i < length xs \<Longrightarrow> pq_get pq i = ret (xs ! unat i)"
  by (simp add: pq_holds_def pq_get_def pq_elems_def)

lemma pq_set_ret:
  "pq_holds cmp pq xs \<Longrightarrow> unat i < length xs \<Longrightarrow> pq_set pq i x = ret (pq\<lparr>pq_data := Some (xs[unat i := x])\<rparr>)"
  by (simp add: pq_holds_def pq_set_def pq_elems_def)

lemma pq_cmp_ret: "pq_holds cmp pq xs \<Longrightarrow> pq_cmp pq a b = ret (cmp a b)"
  by (simp add: pq_holds_def pq_cmp_def)

lemma pq_holds_data: "pq_holds cmp pq xs \<Longrightarrow> length ys = length xs \<Longrightarrow> pq_holds cmp (pq\<lparr>pq_data := Some ys\<rparr>) ys"
  by (simp add: pq_holds_def)

lemma pq_swap_ret:
  assumes "pq_holds cmp pq xs" "unat a < length xs" "unat b < length xs" "a \<noteq> b"
  shows "pq_swap pq a b = ret (pq\<lparr>pq_data := Some (exchange xs (unat a) (unat b))\<rparr>)"
proof -
  have 1: "pq_holds cmp (pq\<lparr>pq_data := Some (xs[unat a := xs ! unat b])\<rparr>) (xs[unat a := xs ! unat b])"
    using assms(1) by (rule pq_holds_data) simp
  show ?thesis
    using assms pq_set_ret [OF 1, of b]
    by (simp add: pq_swap_def pq_get_ret [OF assms(1)] pq_set_ret [OF assms(1)] exchange_def)
qed

lemma pq_parent_ret:
  assumes "0 < i"
  shows "\<exists>p. pq_parent i = ret p \<and> unat p = parent (unat i) \<and> p \<noteq> i \<and> unat p < unat i"
proof -
  have i: "0 < unat i" using assms by (simp add: word_less_nat_alt)
  have "unat ((i - 1) div 2) = parent (unat i)"
    using assms by (auto simp: unat_div_word unat_usize_pred word_gt_0)
  moreover from this i have "unat ((i - 1) div 2) < unat i" by linarith
  ultimately show ?thesis using assms by (auto simp: pq_parent_def)
qed

lemma pq_children:
  assumes "unat i < n" "n < 2 ^ 63"
  shows "unat (pq_left_child i) = 2 * unat i + 1" "unat (pq_right_child i) = 2 * unat i + 2"
proof -
  have "unat (2 * i) = 2 * unat i" using assms by (simp add: unat_word_ariths)
  with assms show "unat (pq_left_child i) = 2 * unat i + 1" "unat (pq_right_child i) = 2 * unat i + 2"
    by (simp_all add: pq_left_child_def pq_right_child_def unat_word_ariths)
qed

lemma child_iff: "0 < i \<Longrightarrow> parent i = k \<longleftrightarrow> i = 2 * k + 1 \<or> i = 2 * k + 2"
  by auto

context comparator
begin

lemma pq_sift_up_heap:
  "pq_holds cmp pq xs \<Longrightarrow> unat idx < n \<Longrightarrow> n \<le> length xs \<Longrightarrow> broken_above cmp n (unat idx) xs \<Longrightarrow>
   \<exists>ys. pq_sift_up pq idx = ret (pq\<lparr>pq_data := Some ys\<rparr>) \<and> permuted n xs ys \<and> heap_from cmp 0 n ys"
proof (induction "unat idx" arbitrary: pq idx xs rule: less_induct)
  case less
  have data: "pq\<lparr>pq_data := Some xs\<rparr> = pq" using less.prems(1) by (simp add: pq_holds_def)
  show ?case
  proof (cases "0 < idx")
    case False
    then have "unat idx = 0" by (simp add: word_gt_0)
    with broken_above_end [OF less.prems(4)] False data show ?thesis
      by (subst pq_sift_up.simps) (auto intro!: exI [of _ xs])
  next
    case True
    obtain p where p: "pq_parent idx = ret p" "unat p = parent (unat idx)" "p \<noteq> idx" "unat p < unat idx"
      using pq_parent_ret [OF True] by auto
    have idx: "0 < unat idx" using True by (simp add: word_less_nat_alt)
    have get: "pq_get pq p = ret (xs ! unat p)" "pq_get pq idx = ret (xs ! unat idx)"
      using pq_get_ret [OF less.prems(1)] p less.prems(2,3) by simp_all
    note step = True p(1) get pq_cmp_ret [OF less.prems(1)]
    show ?thesis
    proof (cases "edge_ok cmp xs (unat idx)")
      case ok: True
      with broken_above_end [OF less.prems(4)] data step p(2) show ?thesis
        by (subst pq_sift_up.simps) (auto simp: edge_ok_def intro!: exI [of _ xs])
    next
      case False
      let ?ys = "exchange xs (unat p) (unat idx)" and ?pq = "pq\<lparr>pq_data := Some (exchange xs (unat p) (unat idx))\<rparr>"
      have swap: "pq_swap pq p idx = ret ?pq"
        using pq_swap_ret [OF less.prems(1)] p less.prems(2,3) by simp
      have "broken_above cmp n (unat p) ?ys"
        using exchange_up [OF broken_above_at [OF less.prems(4)] idx less.prems(2,3) False] p(2) by simp
      then obtain ys where "pq_sift_up ?pq p = ret (?pq\<lparr>pq_data := Some ys\<rparr>)" "permuted n ?ys ys" "heap_from cmp 0 n ys"
        using less.hyps [OF p(4) pq_holds_data [OF less.prems(1) length_exchange]] less.prems(2,3) p(4) by auto
      moreover have "permuted n xs ?ys" using less.prems(2,3) p(4) by (intro permuted_exchange) simp_all
      moreover have "pq_sift_up pq idx = pq_sift_up ?pq p"
        using step swap False p(2) by (subst pq_sift_up.simps) (simp add: edge_ok_def)
      ultimately show ?thesis using permuted_trans by (intro exI [of _ ys]) auto
    qed
  qed
qed

text \<open>Where the heap is broken on both sides of the index, sifting up repairs it or does nothing.\<close>

lemma pq_sift_up_broken_at:
  assumes "pq_holds cmp pq xs" "unat idx < n" "n \<le> length xs" "broken_at cmp n (unat idx) xs"
  shows "\<exists>ys. pq_sift_up pq idx = ret (pq\<lparr>pq_data := Some ys\<rparr>) \<and> permuted n xs ys \<and>
    broken_below cmp 0 n (unat idx) ys"
proof (cases "unat idx = 0 \<or> edge_ok cmp xs (unat idx)")
  case True
  have data: "pq\<lparr>pq_data := Some xs\<rparr> = pq" using assms(1) by (simp add: pq_holds_def)
  have "pq_sift_up pq idx = ret pq"
  proof (cases "0 < idx")
    case pos: True
    obtain p where p: "pq_parent idx = ret p" "unat p = parent (unat idx)" "unat p < unat idx"
      using pq_parent_ret [OF pos] by auto
    have get: "pq_get pq p = ret (xs ! unat p)" "pq_get pq idx = ret (xs ! unat idx)"
      using pq_get_ret [OF assms(1)] p assms(2,3) by simp_all
    show ?thesis
      using True pos p get pq_cmp_ret [OF assms(1)]
      by (subst pq_sift_up.simps) (auto simp: edge_ok_def word_less_nat_alt)
  qed (subst pq_sift_up.simps, simp)
  with broken_at_end [OF assms(4)] True data show ?thesis by (auto intro!: exI [of _ xs])
next
  case False
  then have idx: "0 < unat idx" "0 < idx" by (auto simp: word_less_nat_alt)
  obtain p where p: "pq_parent idx = ret p" "unat p = parent (unat idx)" "p \<noteq> idx" "unat p < unat idx"
    using pq_parent_ret [OF idx(2)] by auto
  have get: "pq_get pq p = ret (xs ! unat p)" "pq_get pq idx = ret (xs ! unat idx)"
    using pq_get_ret [OF assms(1)] p assms(2,3) by simp_all
  let ?ys = "exchange xs (unat p) (unat idx)" and ?pq = "pq\<lparr>pq_data := Some (exchange xs (unat p) (unat idx))\<rparr>"
  have swap: "pq_swap pq p idx = ret ?pq"
    using pq_swap_ret [OF assms(1)] p assms(2,3) by simp
  have "broken_above cmp n (unat p) ?ys"
    using exchange_up [OF assms(4) idx(1) assms(2,3)] False p(2) by simp
  then obtain ys where "pq_sift_up ?pq p = ret (?pq\<lparr>pq_data := Some ys\<rparr>)" "permuted n ?ys ys" "heap_from cmp 0 n ys"
    using pq_sift_up_heap [OF pq_holds_data [OF assms(1)], of ?ys p n] assms(2,3) p(4) by auto
  moreover have "permuted n xs ?ys" using assms(2,3) p(4) by (intro permuted_exchange) simp_all
  moreover have "pq_sift_up pq idx = pq_sift_up ?pq p"
    using idx(2) p get swap False pq_cmp_ret [OF assms(1)]
    by (subst pq_sift_up.simps) (simp add: edge_ok_def)
  ultimately show ?thesis
    using permuted_trans heap_broken_below assms(2) by fastforce
qed

lemma pq_smallest_least:
  assumes "pq_holds cmp pq xs" "unat idx < unat (pq_length pq)"
  shows "\<exists>s. pq_smallest pq idx = ret s \<and>
    (s = idx \<or> (unat s < unat (pq_length pq) \<and> unat idx < unat s \<and> parent (unat s) = unat idx \<and>
      cmp (xs ! unat s) (xs ! unat idx) < 0)) \<and>
    (\<forall>i. 0 < i \<and> i < unat (pq_length pq) \<and> parent i = unat idx \<longrightarrow> cmp (xs ! unat s) (xs ! i) \<le> 0)"
proof -
  let ?n = "unat (pq_length pq)" and ?l = "pq_left_child idx" and ?r = "pq_right_child idx"
  have bounds: "unat idx < ?n" "?n \<le> length xs" "length xs < 2 ^ 63" using assms by (simp_all add: pq_holds_def)
  then have "?n < 2 ^ 63" by linarith
  note ch = pq_children [OF bounds(1) this]
  have get: "unat i < ?n \<Longrightarrow> pq_get pq i = ret (xs ! unat i)" for i
    using pq_get_ret [OF assms(1)] bounds(2) by simp
  define s1 where "s1 = (if unat ?l < ?n \<and> cmp (xs ! unat ?l) (xs ! unat idx) < 0 then ?l else idx)"
  define s where "s = (if unat ?r < ?n \<and> cmp (xs ! unat ?r) (xs ! unat s1) < 0 then ?r else s1)"
  have s1n: "unat s1 < ?n" using bounds(1) by (simp add: s1_def)
  have "pq_smallest pq idx = ret s"
    using get bounds(1) s1n
    by (auto simp: pq_smallest_def pq_cmp_ret [OF assms(1)] word_less_nat_alt s_def s1_def)
  moreover have s1: "s1 = idx \<or> s1 = ?l \<and> unat ?l < ?n \<and> cmp (xs ! unat s1) (xs ! unat idx) < 0"
    "unat ?l < ?n \<longrightarrow> cmp (xs ! unat s1) (xs ! unat ?l) \<le> 0"
    by (auto simp: s1_def cmp_le_flip not_less)
  have s: "s = s1 \<or> s = ?r \<and> unat ?r < ?n \<and> cmp (xs ! unat s) (xs ! unat s1) < 0"
    "unat ?r < ?n \<longrightarrow> cmp (xs ! unat s) (xs ! unat ?r) \<le> 0"
    by (auto simp: s_def cmp_le_flip not_less)
  have le: "cmp (xs ! unat s) (xs ! unat s1) \<le> 0" using s(1) by auto
  have least: "cmp (xs ! unat s) (xs ! i) \<le> 0" if "0 < i" "i < ?n" "parent i = unat idx" for i
    using that child_iff [of i "unat idx"] ch s(2) s1(2) cmp_trans [OF le] by metis
  moreover have "s = idx \<or> (unat s < ?n \<and> unat idx < unat s \<and> parent (unat s) = unat idx \<and>
      cmp (xs ! unat s) (xs ! unat idx) < 0)"
  proof (cases "s = s1")
    case True
    with s1(1) ch show ?thesis by auto
  next
    case False
    then have r: "s = ?r" "unat ?r < ?n" "cmp (xs ! unat s) (xs ! unat s1) < 0" using s(1) by auto
    have "cmp (xs ! unat s1) (xs ! unat idx) \<le> 0" using s1(1) by auto
    from cmp_less_trans [OF r(3) this] r ch show ?thesis by auto
  qed
  ultimately show ?thesis by blast
qed

lemma pq_sift_down_loop_heap:
  "pq_holds cmp pq xs \<Longrightarrow> unat idx < unat (pq_length pq) \<Longrightarrow> m \<le> unat idx \<Longrightarrow>
   broken_below cmp m (unat (pq_length pq)) (unat idx) xs \<Longrightarrow> unat (pq_length pq) - unat idx < fuel \<Longrightarrow>
   \<exists>ys. pq_sift_down_loop fuel pq idx = ret (pq\<lparr>pq_data := Some ys\<rparr>) \<and>
     permuted (unat (pq_length pq)) xs ys \<and> heap_from cmp m (unat (pq_length pq)) ys"
proof (induction fuel arbitrary: pq idx xs)
  case (Suc fuel)
  let ?n = "unat (pq_length pq)"
  have nl: "?n \<le> length xs" and data: "pq\<lparr>pq_data := Some xs\<rparr> = pq"
    using Suc.prems(1) by (simp_all add: pq_holds_def)
  obtain s where s: "pq_smallest pq idx = ret s"
    "s = idx \<or> (unat s < ?n \<and> unat idx < unat s \<and> parent (unat s) = unat idx \<and> cmp (xs ! unat s) (xs ! unat idx) < 0)"
    "\<forall>i. 0 < i \<and> i < ?n \<and> parent i = unat idx \<longrightarrow> cmp (xs ! unat s) (xs ! i) \<le> 0"
    using pq_smallest_least [OF Suc.prems(1,2)] by auto
  show ?case
  proof (cases "s = idx")
    case True
    then have "heap_from cmp m ?n xs"
      using s(3) by (intro broken_below_end [OF Suc.prems(4)]) (simp add: edge_ok_def)
    with s(1) True data show ?thesis by (auto intro!: exI [of _ xs])
  next
    case False
    with s(2) have c: "unat s < ?n" "unat idx < unat s" "parent (unat s) = unat idx"
      "cmp (xs ! unat s) (xs ! unat idx) \<le> 0" by auto
    let ?ys = "exchange xs (unat idx) (unat s)" and ?pq = "pq\<lparr>pq_data := Some (exchange xs (unat idx) (unat s))\<rparr>"
    have swap: "pq_swap pq idx s = ret ?pq"
      using pq_swap_ret [OF Suc.prems(1)] c(1,2) nl False by simp
    have "broken_below cmp m ?n (unat s) ?ys"
      using s(3) c nl Suc.prems(3) by (intro exchange_down [OF Suc.prems(4)]) auto
    moreover have "?n - unat s < fuel" using c(1,2) Suc.prems(5) by linarith
    ultimately obtain ys where "pq_sift_down_loop fuel ?pq s = ret (?pq\<lparr>pq_data := Some ys\<rparr>)"
      "permuted ?n ?ys ys" "heap_from cmp m ?n ys"
      using Suc.IH [OF pq_holds_data [OF Suc.prems(1)], of ?ys s] c(1,2) Suc.prems(3,5) by auto
    moreover have "permuted ?n xs ?ys" using c(1,2) nl by (intro permuted_exchange) simp_all
    ultimately show ?thesis using s(1) False swap permuted_trans by (intro exI [of _ ys]) auto
  qed
qed simp

lemma pq_sift_down_heap:
  assumes "pq_holds cmp pq xs" "unat idx < unat (pq_length pq)" "m \<le> unat idx"
    "broken_below cmp m (unat (pq_length pq)) (unat idx) xs"
  shows "\<exists>ys. pq_sift_down pq idx = ret (pq\<lparr>pq_data := Some ys\<rparr>) \<and>
    permuted (unat (pq_length pq)) xs ys \<and> heap_from cmp m (unat (pq_length pq)) ys"
  using pq_sift_down_loop_heap [OF assms, of "Suc (unat (pq_length pq))"]
  by (simp add: pq_sift_down_def del: pq_sift_down_loop.simps)

end

subsection \<open>The contract of a priority queue\<close>

text \<open>
  What a client of a bounded priority queue relies on: a push adds to the multiset of the
  elements or reports that the queue is full, a pop takes a least element.
\<close>

type_synonym ('s, 'a) pq_push_fn = "'s \<Rightarrow> 'a cptr \<Rightarrow> (bool_result \<times> 's) run"
type_synonym ('s, 'a) pq_pop_fn = "'s \<Rightarrow> 'a cptr \<Rightarrow> (bool \<times> 's \<times> 'a cptr) run"

fun push_all :: "('s, 'a) pq_push_fn \<Rightarrow> 's \<Rightarrow> 'a list \<Rightarrow> 's run" where
  "push_all push s [] = ret s"
| "push_all push s (x # xs) = bindR (push s (Some x)) (\<lambda>(r, s'). push_all push s' xs)"

text \<open>Popping into a variable until the queue reports that it is empty, at most \<open>k\<close> times.\<close>

fun drain :: "('s, 'a) pq_pop_fn \<Rightarrow> 'a \<Rightarrow> 's \<Rightarrow> nat \<Rightarrow> ('a list \<times> 's) run" where
  "drain pop slot s 0 = ret ([], s)"
| "drain pop slot s (Suc k) = bindR (pop s (Some slot)) (\<lambda>(found, s', out).
     if found then bindR (deref out) (\<lambda>x. bindR (drain pop slot s' k) (\<lambda>(xs, t). ret (x # xs, t)))
     else ret ([], s'))"

locale priority_container = comparator cmp for cmp :: "'a cmp_fn" +
  fixes inv :: "'s \<Rightarrow> bool"
    and bag :: "'s \<Rightarrow> 'a multiset"
    and cap :: "'s \<Rightarrow> nat"
    and push :: "('s, 'a) pq_push_fn"
    and pop :: "('s, 'a) pq_pop_fn"
  assumes push_room: "inv s \<Longrightarrow> size (bag s) < cap s \<Longrightarrow>
      \<exists>s'. push s (Some x) = ret (Ok True, s') \<and> inv s' \<and> cap s' = cap s \<and> bag s' = add_mset x (bag s)"
    and push_full: "inv s \<Longrightarrow> \<not> size (bag s) < cap s \<Longrightarrow>
      push s (Some x) = ret (Err ERR_CAPACITY_EXCEEDED, s)"
    and pop_least: "inv s \<Longrightarrow> bag s \<noteq> {#} \<Longrightarrow>
      \<exists>s' x. pop s (Some v) = ret (True, s', Some x) \<and> inv s' \<and> cap s' = cap s \<and>
        bag s = add_mset x (bag s') \<and> (\<forall>y \<in># bag s. cmp x y \<le> 0)"
    and pop_empty: "inv s \<Longrightarrow> bag s = {#} \<Longrightarrow> pop s (Some v) = ret (False, s, Some v)"
begin

text \<open>A drained queue gives its elements in order.\<close>

lemma drain_sorted:
  "inv s \<Longrightarrow> size (bag s) \<le> k \<Longrightarrow>
   \<exists>ys t. drain pop slot s k = ret (ys, t) \<and> mset ys = bag s \<and> sorted_wrt (\<lambda>a b. cmp a b \<le> 0) ys \<and>
     inv t \<and> bag t = {#}"
proof (induction k arbitrary: s)
  case (Suc k)
  show ?case
  proof (cases "bag s = {#}")
    case True
    with Suc.prems(1) pop_empty [OF Suc.prems(1), of slot] show ?thesis by simp
  next
    case False
    then obtain s' x where p: "pop s (Some slot) = ret (True, s', Some x)" "inv s'"
      "bag s = add_mset x (bag s')" "\<forall>y \<in># bag s. cmp x y \<le> 0"
      using pop_least [OF Suc.prems(1), of slot] by blast
    with Suc.prems(2) have "size (bag s') \<le> k" by simp
    then obtain ys t where "drain pop slot s' k = ret (ys, t)" "mset ys = bag s'"
      "sorted_wrt (\<lambda>a b. cmp a b \<le> 0) ys" "inv t" "bag t = {#}"
      using Suc.IH [OF p(2)] by blast
    moreover from this have "\<forall>y \<in> set ys. cmp x y \<le> 0" using p(3,4) by (metis set_mset_mset union_single_eq_member add_mset_add_single insert_iff set_mset_add_mset_insert)
    ultimately show ?thesis using p by simp
  qed
qed simp

lemma push_all_bag:
  "inv s \<Longrightarrow> size (bag s) + length xs \<le> cap s \<Longrightarrow>
   \<exists>t. push_all push s xs = ret t \<and> inv t \<and> cap t = cap s \<and> bag t = bag s + mset xs"
proof (induction xs arbitrary: s)
  case (Cons x xs)
  from Cons.prems(2) have "size (bag s) < cap s" by simp
  from push_room [OF Cons.prems(1) this, of x] obtain s' where
    s': "push s (Some x) = ret (Ok True, s')" "inv s'" "cap s' = cap s" "bag s' = add_mset x (bag s)" by blast
  with Cons.IH [OF s'(2)] Cons.prems(2) show ?case by auto
qed simp

text \<open>Pushing a list into an empty queue and draining the queue sorts the list.\<close>

lemma heap_sort:
  assumes "inv s" "bag s = {#}" "length xs \<le> cap s"
  shows "\<exists>t ys u. push_all push s xs = ret t \<and> drain pop slot t (length xs) = ret (ys, u) \<and>
    mset ys = mset xs \<and> sorted_wrt (\<lambda>a b. cmp a b \<le> 0) ys"
proof -
  obtain t where t: "push_all push s xs = ret t" "inv t" "bag t = mset xs"
    using push_all_bag [OF assms(1), of xs] assms(2,3) by auto
  with drain_sorted [OF t(2), of "length xs" slot] show ?thesis by auto
qed

end

subsection \<open>The heap meets the contract\<close>

definition pq_ok :: "'a cmp_fn \<Rightarrow> 'a pq cptr \<Rightarrow> bool" where
  "pq_ok cmp p \<longleftrightarrow> (case p of
     None \<Rightarrow> False
   | Some pq \<Rightarrow> (case pq_data pq of
       None \<Rightarrow> False
     | Some xs \<Rightarrow> pq_holds cmp pq xs \<and> unat (pq_length pq) \<le> unat (pq_cap pq) \<and>
         unat (pq_cap pq) \<le> length xs \<and> heap_from cmp 0 (unat (pq_length pq)) xs))"

definition pq_bag :: "'a pq cptr \<Rightarrow> 'a multiset" where
  "pq_bag p = (case p of
     None \<Rightarrow> {#}
   | Some pq \<Rightarrow> (case pq_data pq of None \<Rightarrow> {#} | Some xs \<Rightarrow> mset (take (unat (pq_length pq)) xs)))"

definition pq_room :: "'a pq cptr \<Rightarrow> nat" where
  "pq_room p = unat (pq_capacity p)"

lemma pq_okE:
  assumes "pq_ok cmp p"
  obtains pq xs where "p = Some pq" "pq_holds cmp pq xs" "unat (pq_length pq) \<le> unat (pq_cap pq)"
    "unat (pq_cap pq) \<le> length xs" "heap_from cmp 0 (unat (pq_length pq)) xs"
    "pq_bag p = mset (take (unat (pq_length pq)) xs)" "size (pq_bag p) = unat (pq_length pq)"
    "pq_room p = unat (pq_cap pq)"
  using assms by (auto simp: pq_ok_def pq_bag_def pq_room_def pq_capacity_def split: option.splits)

text \<open>After an operation the struct differs in the buffer and the length.\<close>

lemma pq_okI:
  assumes "pq_holds cmp (pq\<lparr>pq_data := Some ys\<rparr>) ys" "unat (pq_length pq) \<le> unat (pq_cap pq)"
    "unat (pq_cap pq) \<le> length ys" "heap_from cmp 0 (unat (pq_length pq)) ys"
  shows "pq_ok cmp (Some (pq\<lparr>pq_data := Some ys\<rparr>))"
    "pq_bag (Some (pq\<lparr>pq_data := Some ys\<rparr>)) = mset (take (unat (pq_length pq)) ys)"
    "pq_room (Some (pq\<lparr>pq_data := Some ys\<rparr>)) = unat (pq_cap pq)"
  using assms by (simp_all add: pq_ok_def pq_bag_def pq_room_def pq_capacity_def)

context comparator
begin

lemma pq_push_room:
  assumes "pq_ok cmp p" "size (pq_bag p) < pq_room p"
  shows "\<exists>p'. pq_push_result p (Some x) = ret (Ok True, p') \<and> pq_ok cmp p' \<and> pq_room p' = pq_room p \<and>
    pq_bag p' = add_mset x (pq_bag p)"
proof -
  obtain pq xs where p: "p = Some pq" "pq_holds cmp pq xs" "unat (pq_length pq) \<le> unat (pq_cap pq)"
    "unat (pq_cap pq) \<le> length xs" "heap_from cmp 0 (unat (pq_length pq)) xs"
    "pq_bag p = mset (take (unat (pq_length pq)) xs)" "size (pq_bag p) = unat (pq_length pq)"
    "pq_room p = unat (pq_cap pq)"
    using assms(1) by (rule pq_okE)
  let ?n = "unat (pq_length pq)" and ?xs = "xs[unat (pq_length pq) := x]"
  let ?pq = "pq\<lparr>pq_data := Some ?xs, pq_length := pq_length pq + 1\<rparr>"
  have lt: "pq_length pq < pq_cap pq" "?n < unat (pq_cap pq)" "?n < length xs"
    using assms(2) p(4,7,8) by (auto simp: word_less_nat_alt)
  then have n: "unat (pq_length pq + 1) = Suc ?n" "pq_length pq + 1 - 1 = pq_length pq"
    by (simp_all add: unat_usize_lt_Suc)
  have holds: "pq_holds cmp ?pq ?xs" using p(2) lt(3) n by (simp add: pq_holds_def)
  have same: "i < ?n \<Longrightarrow> xs ! i = ?xs ! i" for i by simp
  have "heap_from cmp 0 ?n ?xs" using p(5) heap_from_cong [OF same] by simp
  then have "broken_above cmp (Suc ?n) ?n ?xs"
    by (auto simp: broken_above_def heap_from_def skip_ok_def less_Suc_eq)
  then obtain ys where ys: "pq_sift_up ?pq (pq_length pq) = ret (?pq\<lparr>pq_data := Some ys\<rparr>)"
    "permuted (Suc ?n) ?xs ys" "heap_from cmp 0 (Suc ?n) ys"
    using pq_sift_up_heap [OF holds, of "pq_length pq" "Suc ?n"] lt(3) by auto
  have "pq_push_result p (Some x) = ret (Ok True, Some (?pq\<lparr>pq_data := Some ys\<rparr>))"
    using p(1,2) lt n ys(1) by (simp add: pq_push_result_def pq_set_ret [OF p(2)] Let_def)
  moreover have holds': "pq_holds cmp (?pq\<lparr>pq_data := Some ys\<rparr>) ys"
    using permuted_length [OF ys(2)] by (intro pq_holds_data [OF holds]) simp
  have "mset (take (Suc ?n) ys) = add_mset x (mset (take ?n xs))"
    using ys(2) lt(3) by (simp add: permuted_def take_Suc_update)
  with pq_okI [where pq = ?pq, OF holds'] have "pq_ok cmp (Some (?pq\<lparr>pq_data := Some ys\<rparr>)) \<and>
      pq_bag (Some (?pq\<lparr>pq_data := Some ys\<rparr>)) = add_mset x (mset (take ?n xs)) \<and>
      pq_room (Some (?pq\<lparr>pq_data := Some ys\<rparr>)) = unat (pq_cap pq)"
    using ys(3) n lt p(4) permuted_length [OF ys(2)] by simp
  ultimately show ?thesis using p(6,8) by auto
qed

lemma pq_push_full:
  assumes "pq_ok cmp p" "\<not> size (pq_bag p) < pq_room p"
  shows "pq_push_result p (Some x) = ret (Err ERR_CAPACITY_EXCEEDED, p)"
  using assms by (elim pq_okE) (auto simp: pq_push_result_def word_le_nat_alt)

lemma pq_shrink:
  assumes "pq_holds cmp pq xs" "pq_length pq \<noteq> 0"
  shows "pq_holds cmp (pq\<lparr>pq_length := pq_length pq - 1\<rparr>) xs"
    "unat (pq_length pq - 1) = unat (pq_length pq) - 1" "0 < unat (pq_length pq)"
proof -
  show "0 < unat (pq_length pq)" using assms(2) by (simp add: unat_gt_0)
  show "unat (pq_length pq - 1) = unat (pq_length pq) - 1" using assms(2) by (rule unat_usize_pred)
  moreover have "unat (pq_length pq) \<le> length xs" using assms(1) by (simp add: pq_holds_def)
  ultimately have "unat (pq_length pq - 1) \<le> length xs" by linarith
  with assms(1) show "pq_holds cmp (pq\<lparr>pq_length := pq_length pq - 1\<rparr>) xs" by (simp add: pq_holds_def)
qed

text \<open>Removing the element at \<open>i\<close> by putting the last one there: the multiset.\<close>

lemma mset_replace_last:
  assumes "i < n" "n < length xs"
  shows "mset (take (Suc n) xs) = add_mset (xs ! i) (mset (take n (xs[i := xs ! n])))"
proof -
  have "mset ((take n xs)[i := xs ! n]) = add_mset (xs ! n) (mset (take n xs) - {#take n xs ! i#})"
    using assms by (intro mset_update) simp
  moreover have "xs ! i \<in># mset (take n xs)" using assms by (force simp: in_set_conv_nth)
  ultimately show ?thesis
    using assms by (simp add: take_Suc_conv_app_nth take_update_swap add_mset_commute)
qed

lemma pq_pop_least:
  assumes "pq_ok cmp p" "pq_bag p \<noteq> {#}"
  shows "\<exists>p' x. pq_pop_raw p (Some v) = ret (True, p', Some x) \<and> pq_ok cmp p' \<and> pq_room p' = pq_room p \<and>
    pq_bag p = add_mset x (pq_bag p') \<and> (\<forall>y \<in># pq_bag p. cmp x y \<le> 0)"
proof -
  obtain pq xs where p: "p = Some pq" "pq_holds cmp pq xs" "unat (pq_length pq) \<le> unat (pq_cap pq)"
    "unat (pq_cap pq) \<le> length xs" "heap_from cmp 0 (unat (pq_length pq)) xs"
    "pq_bag p = mset (take (unat (pq_length pq)) xs)" "size (pq_bag p) = unat (pq_length pq)"
    "pq_room p = unat (pq_cap pq)"
    using assms(1) by (rule pq_okE)
  have ne: "pq_length pq \<noteq> 0" using assms(2) p(7) by auto
  note shrink = pq_shrink [OF p(2) ne]
  let ?m = "unat (pq_length pq) - 1" and ?pq1 = "pq\<lparr>pq_length := pq_length pq - 1\<rparr>"
  have m: "unat (pq_length pq) = Suc ?m" "?m < length xs" using shrink(3) p(3,4) by linarith+
  have pos0: "0 < length xs" using m(2) by linarith
  then have top: "pq_get pq 0 = ret (xs ! 0)" using pq_get_ret [OF p(2), of 0] by simp
  have least: "\<forall>y \<in># pq_bag p. cmp (xs ! 0) y \<le> 0"
    using heap_root_least [OF p(5)] p(3,4,6) by (auto simp: in_set_conv_nth)
  have data: "pq\<lparr>pq_data := Some xs\<rparr> = pq" using p(2) by (simp add: pq_holds_def)
  show ?thesis
  proof (cases "?m = 0")
    case True
    then have "pq_length pq - 1 = 0" using shrink(2) by (simp add: unat_eq_zero)
    moreover have "take (Suc 0) xs = [xs ! 0]" using m by (cases xs) simp_all
    ultimately have "pq_pop_raw p (Some v) = ret (True, Some ?pq1, Some (xs ! 0))" "pq_ok cmp (Some ?pq1)"
      "pq_bag (Some ?pq1) = {#}" "pq_room (Some ?pq1) = pq_room p" "pq_bag p = {#xs ! 0#}"
      using p(1,2,4,6,8) ne top shrink(1) m True
      by (simp_all add: pq_pop_raw_def pq_ok_def pq_bag_def pq_room_def pq_capacity_def pq_holds_def heap_from_def)
    with least show ?thesis by auto
  next
    case False
    let ?xs = "xs[0 := xs ! ?m]" and ?pq2 = "pq\<lparr>pq_length := pq_length pq - 1, pq_data := Some (xs[0 := xs ! ?m])\<rparr>"
    have pos: "0 < pq_length pq - 1" using False shrink(2) by (simp add: word_less_nat_alt)
    have steps: "pq_get ?pq1 (pq_length pq - 1) = ret (xs ! ?m)" "pq_set ?pq1 0 (xs ! ?m) = ret ?pq2"
      using pq_get_ret [OF shrink(1), of "pq_length pq - 1"] pq_set_ret [OF shrink(1), of 0] shrink(2) m pos0 by simp_all
    have holds: "pq_holds cmp ?pq2 ?xs" using pq_holds_data [OF shrink(1), of ?xs] by simp
    have "broken_below cmp 0 ?m 0 ?xs"
      using heap_from_shorter [OF p(5), of ?m] by (auto simp: broken_below_def heap_from_def edge_ok_def)
    then obtain ys where ys: "pq_sift_down ?pq2 0 = ret (?pq2\<lparr>pq_data := Some ys\<rparr>)" "permuted ?m ?xs ys"
      "heap_from cmp 0 ?m ys"
      using pq_sift_down_heap [OF holds, of 0 0] shrink(2) False by auto
    have "pq_pop_raw p (Some v) = ret (True, Some (?pq2\<lparr>pq_data := Some ys\<rparr>), Some (xs ! 0))"
      using p(1) ne top pos steps ys(1) by (simp add: pq_pop_raw_def Let_def)
    moreover have holds': "pq_holds cmp (?pq2\<lparr>pq_data := Some ys\<rparr>) ys"
      using permuted_length [OF ys(2)] by (intro pq_holds_data [OF holds]) simp
    have bag: "pq_bag p = add_mset (xs ! 0) (mset (take ?m ys))"
      using p(6) m False mset_replace_last [of 0 ?m xs] ys(2) by (simp add: permuted_def)
    have "pq_ok cmp (Some (?pq2\<lparr>pq_data := Some ys\<rparr>)) \<and>
        pq_bag (Some (?pq2\<lparr>pq_data := Some ys\<rparr>)) = mset (take ?m ys) \<and>
        pq_room (Some (?pq2\<lparr>pq_data := Some ys\<rparr>)) = unat (pq_cap pq)"
      using pq_okI [where pq = ?pq2, OF holds'] ys(3) shrink(2) p(3,4) permuted_length [OF ys(2)] by simp
    ultimately show ?thesis using bag p(8) least by auto
  qed
qed

lemma pq_pop_empty:
  assumes "pq_ok cmp p" "pq_bag p = {#}"
  shows "pq_pop_raw p (Some v) = ret (False, p, Some v)"
  using assms by (elim pq_okE) (auto simp: pq_pop_raw_def unat_eq_zero)

lemma mset_take_pred:
  "0 < n \<Longrightarrow> n - 1 < length xs \<Longrightarrow> mset (take n xs) = add_mset (xs ! (n - 1)) (mset (take (n - 1) xs))"
  by (cases n) (simp_all add: take_Suc_conv_app_nth)

text \<open>Removing at an index: the multiset loses the element that was there.\<close>

lemma remove_broken_at:
  assumes "heap_from cmp 0 (Suc m) xs" "i < m" "m < length xs"
  shows "broken_at cmp m i (xs[i := xs ! m])"
proof -
  let ?ys = "xs[i := xs ! m]"
  have edge: "edge_ok cmp ?ys j" if "0 < j" "j < m" "j \<noteq> i" "parent j \<noteq> i" for j
    using assms(1) that by (auto simp: heap_from_def edge_ok_def)
  have skip: "skip_ok cmp m i ?ys" if "0 < i"
    unfolding skip_ok_def
  proof (intro allI impI)
    fix j assume j: "0 < j \<and> j < m \<and> parent j = i"
    have "skip_ok cmp (Suc m) i xs" using heap_skip_ok [OF assms(1) that] assms(2) by simp
    with j have "cmp (xs ! parent i) (xs ! j) \<le> 0" by (simp add: skip_ok_def)
    moreover have "parent i \<noteq> i" "j \<noteq> i" using that j by linarith+
    ultimately show "cmp (?ys ! parent i) (?ys ! j) \<le> 0" by simp
  qed
  show ?thesis using edge skip by (simp add: broken_at_def)
qed

lemma pq_remove_at_removes:
  assumes "pq_ok cmp (Some pq)" "pq_data pq = Some xs" "i < pq_length pq"
  shows "\<exists>p'. pq_remove_at_result (Some pq) i = ret (Ok True, p') \<and> pq_ok cmp p' \<and>
    pq_room p' = pq_room (Some pq) \<and> pq_bag (Some pq) = add_mset (xs ! unat i) (pq_bag p')"
proof -
  have p: "pq_holds cmp pq xs" "unat (pq_length pq) \<le> unat (pq_cap pq)"
    "unat (pq_cap pq) \<le> length xs" "heap_from cmp 0 (unat (pq_length pq)) xs"
    "pq_bag (Some pq) = mset (take (unat (pq_length pq)) xs)" "pq_room (Some pq) = unat (pq_cap pq)"
    using assms(1,2) by (simp_all add: pq_ok_def pq_bag_def pq_room_def pq_capacity_def)
  have i: "unat i < unat (pq_length pq)" using assms(3) by (simp add: word_less_nat_alt)
  then have ne: "pq_length pq \<noteq> 0" by auto
  note shrink = pq_shrink [OF p(1) ne]
  let ?m = "unat (pq_length pq) - 1" and ?pq1 = "pq\<lparr>pq_length := pq_length pq - 1\<rparr>"
  have m: "unat (pq_length pq) = Suc ?m" "?m < length xs" using shrink(3) p(2,3) by linarith+
  have data: "pq\<lparr>pq_data := Some xs\<rparr> = pq" using assms(2) by simp
  show ?thesis
  proof (cases "i = pq_length pq - 1")
    case True
    have "pq_ok cmp (Some ?pq1)" using p(2-4) shrink assms(2) heap_from_shorter [OF p(4), of ?m]
      by (simp add: pq_ok_def)
    moreover have "mset (take (unat (pq_length pq)) xs) = add_mset (xs ! ?m) (mset (take ?m xs))"
      using shrink(3) m(2) by (rule mset_take_pred)
    ultimately show ?thesis using True assms(2,3) p(5) shrink(2)
      by (auto simp: pq_remove_at_result_def pq_bag_def pq_room_def pq_capacity_def)
  next
    case False
    have "unat i \<noteq> ?m" using False shrink(2) by (metis word_unat_eq_iff)
    then have lt: "unat i < ?m" using i by linarith
    let ?xs = "xs[unat i := xs ! ?m]" and ?pq2 = "pq\<lparr>pq_length := pq_length pq - 1, pq_data := Some (xs[unat i := xs ! ?m])\<rparr>"
    have "unat i < length xs" using lt m(2) by linarith
    then have steps: "pq_get ?pq1 (pq_length pq - 1) = ret (xs ! ?m)" "pq_set ?pq1 i (xs ! ?m) = ret ?pq2"
      using pq_get_ret [OF shrink(1), of "pq_length pq - 1"] pq_set_ret [OF shrink(1), of i] shrink(2) m by simp_all
    have holds: "pq_holds cmp ?pq2 ?xs" using pq_holds_data [OF shrink(1), of ?xs] by simp
    have "broken_at cmp ?m (unat i) ?xs" using remove_broken_at [OF _ lt m(2)] p(4) m(1) by simp
    then obtain ys where ys: "pq_sift_up ?pq2 i = ret (?pq2\<lparr>pq_data := Some ys\<rparr>)" "permuted ?m ?xs ys"
      "broken_below cmp 0 ?m (unat i) ys"
      using pq_sift_up_broken_at [OF holds lt] m(2) by auto
    have holds2: "pq_holds cmp (?pq2\<lparr>pq_data := Some ys\<rparr>) ys"
      using permuted_length [OF ys(2)] by (intro pq_holds_data [OF holds]) simp
    obtain zs where zs: "pq_sift_down (?pq2\<lparr>pq_data := Some ys\<rparr>) i = ret (?pq2\<lparr>pq_data := Some zs\<rparr>)"
      "permuted ?m ys zs" "heap_from cmp 0 ?m zs"
      using pq_sift_down_heap [OF holds2, of i 0] ys(3) lt shrink(2) by auto
    have perm: "permuted ?m ?xs zs" using ys(2) zs(2) by (rule permuted_trans)
    have holds3: "pq_holds cmp (?pq2\<lparr>pq_data := Some zs\<rparr>) zs"
      using permuted_length [OF perm] by (intro pq_holds_data [OF holds]) simp
    have "pq_remove_at_result (Some pq) i = ret (Ok True, Some (?pq2\<lparr>pq_data := Some zs\<rparr>))"
      using assms(3) False steps ys(1) zs(1) by (simp add: pq_remove_at_result_def Let_def)
    moreover have "pq_bag (Some pq) = add_mset (xs ! unat i) (mset (take ?m zs))"
      using p(5) m lt mset_replace_last [of "unat i" ?m xs] perm by (simp add: permuted_def)
    moreover have "pq_ok cmp (Some (?pq2\<lparr>pq_data := Some zs\<rparr>)) \<and>
        pq_bag (Some (?pq2\<lparr>pq_data := Some zs\<rparr>)) = mset (take ?m zs) \<and>
        pq_room (Some (?pq2\<lparr>pq_data := Some zs\<rparr>)) = unat (pq_cap pq)"
      using pq_okI [where pq = ?pq2, OF holds3] zs(3) shrink(2) p(2,3) permuted_length [OF perm] by simp
    ultimately show ?thesis using p(6) by auto
  qed
qed

text \<open>Floyd's algorithm: at the start of an iteration the heap is in order from \<open>k\<close> on.\<close>

lemma pq_heapify_loop_heap:
  "pq_holds cmp pq xs \<Longrightarrow> k \<le> unat (pq_length pq) \<Longrightarrow> heap_from cmp k (unat (pq_length pq)) xs \<Longrightarrow>
   \<exists>ys. pq_heapify_loop pq k = ret (pq\<lparr>pq_data := Some ys\<rparr>) \<and>
     permuted (unat (pq_length pq)) xs ys \<and> heap_from cmp 0 (unat (pq_length pq)) ys"
proof (induction k arbitrary: pq xs)
  case 0
  then show ?case by (auto simp: pq_holds_def intro!: exI [of _ xs])
next
  case (Suc k)
  let ?n = "unat (pq_length pq)"
  have k: "unat (of_nat k :: usize) = k"
    using Suc.prems(2) unsigned_less [of "pq_length pq", where 'a = nat] by (simp add: unat_of_nat take_bit_nat_eq_self)
  have "parent k < k \<or> k = 0" by linarith
  then have "broken_below cmp k ?n k xs"
    using Suc.prems(3) by (auto simp: broken_below_def heap_from_def)
  then obtain ys where ys: "pq_sift_down pq (of_nat k) = ret (pq\<lparr>pq_data := Some ys\<rparr>)"
    "permuted ?n xs ys" "heap_from cmp k ?n ys"
    using pq_sift_down_heap [OF Suc.prems(1), of "of_nat k" k] k Suc.prems(2) by auto
  have "pq_holds cmp (pq\<lparr>pq_data := Some ys\<rparr>) ys"
    using Suc.prems(1) permuted_length [OF ys(2)] by (rule pq_holds_data)
  from Suc.IH [OF this] ys Suc.prems(2) permuted_trans [OF ys(2)] show ?case by fastforce
qed

lemma pq_heapify_heap:
  assumes "pq_data pq = Some xs" "pq_cmp_fn pq = Some cmp" "array_fits (pq_elem_size pq) (length xs)"
    "length xs < 2 ^ 63" "0 < pq_cap pq" "unat (pq_cap pq) \<le> length xs" "len \<le> pq_cap pq"
  shows "\<exists>p'. pq_heapify (Some pq) len = ret p' \<and> pq_ok cmp p' \<and> pq_room p' = unat (pq_cap pq) \<and>
    pq_bag p' = mset (take (unat len) xs)"
proof -
  let ?pq1 = "pq\<lparr>pq_length := len\<rparr>" and ?n = "unat len"
  have len: "?n \<le> unat (pq_cap pq)" using assms(7) by (simp add: word_le_nat_alt)
  then have holds: "pq_holds cmp ?pq1 xs" using assms(1-4,6) by (simp add: pq_holds_def)
  have small: "pq_ok cmp (Some ?pq1) \<and> pq_bag (Some ?pq1) = mset (take ?n xs)" if "?n < 2"
    using that holds assms(1,6) len by (auto simp: pq_ok_def pq_bag_def heap_from_def)
  consider "len = 0" | "len \<noteq> 0" "\<not> 2 \<le> len" | "2 \<le> len" by blast
  then show ?thesis
  proof cases
    case 3
    then have n: "2 \<le> ?n" by (simp add: word_le_nat_alt)
    have pred: "unat (len - 1) = ?n - 1" using 3 n by (intro unat_usize_pred) auto
    then have "0 < len - 1" using n by (simp add: word_less_nat_alt)
    then obtain i where i: "pq_parent (len - 1) = ret i" "unat i = parent (?n - 1)"
      using pq_parent_ret [of "len - 1"] pred by auto
    have "parent (?n - 1) < ?n" using n by linarith
    then have si: "unat (i + 1) = Suc (parent (?n - 1))"
      using i(2) by (intro trans [OF unat_usize_lt_Suc [of i len]]) (simp_all add: word_less_nat_alt)
    have "\<not> (j < ?n \<and> Suc (parent (?n - 1)) \<le> parent j)" for j
      using div_le_mono [of "j - 1" "?n - 1 - 1" 2] by linarith
    then have "heap_from cmp (unat (i + 1)) ?n xs" by (auto simp: heap_from_def si)
    moreover have "unat (i + 1) \<le> ?n" using si \<open>parent (?n - 1) < ?n\<close> by simp
    ultimately obtain ys where ys: "pq_heapify_loop ?pq1 (unat (i + 1)) = ret (?pq1\<lparr>pq_data := Some ys\<rparr>)"
      "permuted ?n xs ys" "heap_from cmp 0 ?n ys"
      using pq_heapify_loop_heap [OF holds, of "unat (i + 1)"] by auto
    have holds': "pq_holds cmp (?pq1\<lparr>pq_data := Some ys\<rparr>) ys"
      using permuted_length [OF ys(2)] by (intro pq_holds_data [OF holds]) simp
    have "pq_heapify (Some pq) len = ret (Some (?pq1\<lparr>pq_data := Some ys\<rparr>))"
      using assms(1,2,5,7) 3 i(1) ys(1) by (auto simp: pq_heapify_def Let_def not_less)
    moreover have "mset (take ?n ys) = mset (take ?n xs)" using ys(2) by (simp add: permuted_def)
    ultimately show ?thesis
      using pq_okI [where pq = ?pq1, OF holds'] ys(3) len assms(6) permuted_length [OF ys(2)] by simp
  next
    case 1
    then show ?thesis using small assms(1,2,5) by (simp add: pq_heapify_def pq_room_def pq_capacity_def)
  next
    case 2
    then have "\<not> pq_cap pq < len" "?n < 2" using len by (simp_all add: word_le_nat_alt word_less_nat_alt)
    then show ?thesis using 2 small assms(1,2,5)
      by (simp add: pq_heapify_def pq_room_def pq_capacity_def Let_def)
  qed
qed

end

text \<open>The heap with any comparator that is a total preorder meets the contract.\<close>

sublocale comparator \<subseteq> heap: priority_container cmp "pq_ok cmp" pq_bag pq_room pq_push_result pq_pop_raw
  by unfold_locales (simp_all add: pq_push_room pq_push_full pq_pop_least pq_pop_empty)

context comparator
begin

lemmas pq_heap_sort = heap.heap_sort [unfolded pq_room_def]

end

subsection \<open>Properties\<close>

lemma heap_1_7_3: "heap_from algo_cmp_u8 0 3 [1, 7, 3]"
proof -
  have "edge_ok algo_cmp_u8 [1, 7, 3] i" if "0 < i" "i < 3" for i
  proof -
    from that have "i = 1 \<or> i = 2" by linarith
    then show ?thesis by (auto simp: edge_ok_def algo_cmp_u8_def)
  qed
  then show ?thesis by (simp add: heap_from_def)
qed

text \<open>C5: A pop from a nonempty heap with any comparator that is a total preorder returns a least
  element, removes exactly that element and leaves a heap; the loop that sifts the last element
  down from the root ends.\<close>

theorem pq_pop_gives_least:
  "comparator cmp \<Longrightarrow> pq_ok cmp p \<Longrightarrow> pq_bag p \<noteq> {#} \<Longrightarrow>
   \<exists>p' x. pq_pop p (Some v) = ret (True, p', Some x) \<and> pq_ok cmp p' \<and> pq_capacity p' = pq_capacity p \<and>
     pq_bag p = add_mset x (pq_bag p') \<and> (\<forall>y \<in># pq_bag p. cmp x y \<le> 0)"
  using comparator.pq_pop_least [of cmp p v] by (auto simp: pq_pop_def pq_room_def word_unat_eq_iff)

theorem pq_pop_gives_least_witness:
  "\<exists>p' x. pq_pop (Some \<lparr>pq_data = Some [1, 7, 3], pq_length = 3, pq_cap = 3, pq_elem_size = 1,
       pq_cmp_fn = Some algo_cmp_u8\<rparr>) (Some 0) = ret (True, p', Some x) \<and> pq_bag p' = {#7, 3#} \<and> x = 1"
proof -
  let ?p = "Some \<lparr>pq_data = Some [1, 7, 3], pq_length = 3, pq_cap = 3, pq_elem_size = 1,
       pq_cmp_fn = Some algo_cmp_u8\<rparr>"
  have bag: "pq_bag ?p = {#1, 7, 3#}" by (simp add: pq_bag_def)
  from heap_1_7_3 have "pq_ok algo_cmp_u8 ?p" by (simp add: pq_ok_def pq_holds_def array_fits_def)
  from pq_pop_gives_least [OF u8_up.comparator_axioms this, of 0] bag obtain p' x where
    "pq_pop ?p (Some 0) = ret (True, p', Some x)" "{#1, 7, 3#} = add_mset x (pq_bag p')"
    "algo_cmp_u8 x 1 \<le> 0" by auto
  moreover from this(2) have "x \<in># {#1, 7, 3#}" by (metis union_single_eq_member)
  then have "x = 1 \<or> x = 7 \<or> x = 3" by simp
  ultimately have "x = 1" by (auto simp: algo_cmp_u8_def)
  with \<open>pq_pop ?p (Some 0) = _\<close> \<open>{#1, 7, 3#} = _\<close> show ?thesis by auto
qed

text \<open>Heap sort: pushing a list into an empty heap with room for it and popping until the heap is
  empty gives the elements of the list in the order of the comparator.\<close>

theorem pq_sorts:
  "comparator cmp \<Longrightarrow> pq_ok cmp p \<Longrightarrow> pq_bag p = {#} \<Longrightarrow> length xs \<le> unat (pq_capacity p) \<Longrightarrow>
   \<exists>q ys u. push_all pq_push_result p xs = ret q \<and> drain pq_pop_raw slot q (length xs) = ret (ys, u) \<and>
     mset ys = mset xs \<and> sorted_wrt (\<lambda>a b. cmp a b \<le> 0) ys"
  by (rule comparator.pq_heap_sort)

theorem pq_sorts_witness:
  "\<exists>q ys u. push_all pq_push_result (Some \<lparr>pq_data = Some [0, 0, 0], pq_length = 0, pq_cap = 3,
       pq_elem_size = 1, pq_cmp_fn = Some algo_cmp_u8\<rparr>) [7, 3] = ret q \<and>
     drain pq_pop_raw 0 q (length [7, 3 :: u8]) = ret (ys, u) \<and> mset ys = mset [7, 3] \<and>
     sorted_wrt (\<lambda>a b. algo_cmp_u8 a b \<le> 0) ys"
  by (intro pq_sorts [OF u8_up.comparator_axioms])
    (simp_all add: pq_ok_def pq_holds_def array_fits_def heap_from_def pq_bag_def pq_capacity_def)

text \<open>\<open>pq_heapify\<close> makes a heap of any first \<open>len\<close> elements of the buffer: the queue
  then holds exactly these elements, and every element is in order with its parent.\<close>

theorem pq_heapify_correct:
  "comparator cmp \<Longrightarrow> pq_data pq = Some xs \<Longrightarrow> pq_cmp_fn pq = Some cmp \<Longrightarrow>
   array_fits (pq_elem_size pq) (length xs) \<Longrightarrow> length xs < 2 ^ 63 \<Longrightarrow> 0 < pq_cap pq \<Longrightarrow>
   unat (pq_cap pq) \<le> length xs \<Longrightarrow> len \<le> pq_cap pq \<Longrightarrow>
   \<exists>p'. pq_heapify (Some pq) len = ret p' \<and> pq_ok cmp p' \<and> pq_capacity p' = pq_cap pq \<and>
     pq_bag p' = mset (take (unat len) xs)"
  using comparator.pq_heapify_heap [of cmp pq xs len] by (auto simp: pq_room_def word_unat_eq_iff)

theorem pq_heapify_correct_witness:
  "\<exists>p'. pq_heapify (Some \<lparr>pq_data = Some [7, 3, 1], pq_length = 0, pq_cap = 3,
       pq_elem_size = 1, pq_cmp_fn = Some algo_cmp_u8\<rparr>) 3 = ret p' \<and> pq_ok algo_cmp_u8 p' \<and>
     pq_bag p' = {#7, 3, 1#}"
  using pq_heapify_correct [OF u8_up.comparator_axioms, of "\<lparr>pq_data = Some [7, 3, 1], pq_length = 0,
      pq_cap = 3, pq_elem_size = 1, pq_cmp_fn = Some algo_cmp_u8\<rparr>" "[7, 3, 1]" 3]
  by (auto simp: array_fits_def add_mset_commute)

text \<open>\<open>pq_remove_at_result\<close> at an index of the heap removes exactly the element there and leaves a
  heap, whether the element put in its place has to rise or to sink.\<close>

theorem pq_remove_at_correct:
  "comparator cmp \<Longrightarrow> pq_ok cmp (Some pq) \<Longrightarrow> pq_data pq = Some xs \<Longrightarrow> i < pq_length pq \<Longrightarrow>
   \<exists>p'. pq_remove_at_result (Some pq) i = ret (Ok True, p') \<and> pq_ok cmp p' \<and>
     pq_bag (Some pq) = add_mset (xs ! unat i) (pq_bag p')"
  using comparator.pq_remove_at_removes [of cmp pq xs i] by auto

theorem pq_remove_at_correct_witness:
  "\<exists>p'. pq_remove_at_result (Some \<lparr>pq_data = Some [1, 7, 3], pq_length = 3, pq_cap = 3,
       pq_elem_size = 1, pq_cmp_fn = Some algo_cmp_u8\<rparr>) 1 = ret (Ok True, p') \<and> pq_ok algo_cmp_u8 p'"
proof -
  let ?p = "\<lparr>pq_data = Some [1, 7, 3], pq_length = 3, pq_cap = 3, pq_elem_size = 1,
       pq_cmp_fn = Some algo_cmp_u8\<rparr>"
  from heap_1_7_3 have "pq_ok algo_cmp_u8 (Some ?p)" by (simp add: pq_ok_def pq_holds_def array_fits_def)
  from pq_remove_at_correct [OF u8_up.comparator_axioms this, of "[1, 7, 3]" 1] show ?thesis by auto
qed

text \<open>\<open>pq_remove_at_result\<close> on NULL reports an invalid argument, not an index out of range.\<close>

theorem pq_remove_at_null: "pq_remove_at_result None i = ret (Err ERR_INVALID_ARG, None)"
  by (simp add: pq_remove_at_result_def)

end
