(* ===== verification/Canon_HashMap.thy ===== *)
theory Canon_HashMap
  imports Canon_Semantics Canon_Checked Canon_Bits Canon_Slice
begin

section \<open>The Robin Hood hash map (data/hashmap/hashmap_impl.h)\<close>

text \<open>
  Open addressing with linear probing over a caller's array of slots. A slot is the record \<open>slot\<close>
  and the map the record \<open>hashmap\<close>; the array of slots is a list, a \<open>HASHMAP_TYPE_NAME*\<close> is NULL or
  the map. The macros HASHMAP_HASH_FN and HASHMAP_EQ_FN, with the \<open>ctx\<close> they are always called
  with, are the arguments \<open>hash\<close> and \<open>eq\<close>; the locale \<open>hash_keys\<close> is what hashmap.h asks of them.
  A \<open>for\<close> loop with the counter \<open>i\<close> is a recursion on the number of iterations that are left, as
  \<open>i\<close> is not used in its body; so every operation of the model is total. A pointer into a slot is
  the index of the slot.

  The load factor (floating point) and the macro layer (hashmap_mangle.h) are not
  modelled. The
  invariant and the proofs are in \<open>Canon_RobinHood\<close>.
\<close>

subsection \<open>The structs and the internal helpers\<close>

record ('k, 'v) slot =
  slot_hash :: u64
  slot_psl :: u32
  slot_occupied :: bool
  slot_key :: 'k
  slot_val :: 'v

record ('k, 'v) hashmap =
  hm_slots :: "('k, 'v) slot list cptr"
  hm_cap :: usize
  hm_length :: usize

type_synonym 'k hash_fn = "'k \<Rightarrow> u64"
type_synonym 'k eq_fn = "'k \<Rightarrow> 'k \<Rightarrow> bool"

definition hm_home :: "u64 \<Rightarrow> usize \<Rightarrow> usize" where
  "hm_home h capacity = h AND (capacity - 1)"

definition hm_wrap :: "usize \<Rightarrow> usize \<Rightarrow> usize" where
  "hm_wrap index capacity = index AND (capacity - 1)"

definition hm_normalize_hash :: "u64 \<Rightarrow> u64" where
  "hm_normalize_hash h = (if h = 0 then 1 else h)"

text \<open>The loop of \<open>empty_slots_\<close>: \<open>k\<close> iterations are left, \<open>j\<close> is the index.\<close>

fun hm_empty_slots :: "('k, 'v) slot list \<Rightarrow> usize \<Rightarrow> nat \<Rightarrow> ('k, 'v) slot list run" where
  "hm_empty_slots slots j 0 = ret slots"
| "hm_empty_slots slots j (Suc k) =
     bindR (arr_get slots j) (\<lambda>s.
     bindR (arr_set slots j (s\<lparr>slot_occupied := False, slot_hash := 0, slot_psl := 0\<rparr>)) (\<lambda>slots'.
       hm_empty_slots slots' (j + 1) k))"

text \<open>\<open>slot_size\<close> is the size of a slot in bytes.\<close>

definition hm_buffer_size :: "bool \<Rightarrow> usize \<Rightarrow> usize \<Rightarrow> usize run" where
  "hm_buffer_size builtin slot_size capacity =
     bindR (checked_mul builtin capacity slot_size (Some 0)) (\<lambda>(fits, total).
       if \<not> fits then ret 0 else deref total)"

text \<open>
  \<open>contents\<close> are the slots that the bytes of the buffer hold when it is read as an array of
  slots, whatever the caller left in it.
\<close>

definition hm_init ::
  "bool \<Rightarrow> usize \<Rightarrow> usize \<Rightarrow> ('k, 'v) hashmap cptr \<Rightarrow> bytes \<Rightarrow> ('k, 'v) slot list \<Rightarrow> usize \<Rightarrow>
   (bool_result \<times> ('k, 'v) hashmap cptr) run" where
  "hm_init builtin slot_size slot_align p buf contents capacity =
     (if p = None then ret (Err ERR_INVALID_ARG, p)
      else if v_ptr buf = null_ptr then ret (Err ERR_INVALID_ARG, p)
      else if capacity = 0 then ret (Err ERR_INVALID_ARG, p)
      else if \<not> bits_is_power_of_two capacity then ret (Err ERR_INVALID_ARG, p)
      else bindR (hm_buffer_size builtin slot_size capacity) (\<lambda>required.
        if required = 0 \<or> v_len buf < required then ret (Err ERR_BUFFER_TOO_SMALL, p)
        else bindR (mod_usize (v_ptr buf) slot_align) (\<lambda>r.
          if r \<noteq> 0 then ret (Err ERR_INVALID_ARG, p)
          else bindR (hm_empty_slots contents 0 (unat capacity)) (\<lambda>slots.
            ret (Ok True, Some \<lparr>hm_slots = Some slots, hm_cap = capacity, hm_length = 0\<rparr>)))))"

definition hm_clear :: "('k, 'v) hashmap cptr \<Rightarrow> ('k, 'v) hashmap cptr run" where
  "hm_clear p = (case p of
     None \<Rightarrow> violation ''hashmap_clear: map cannot be NULL''
   | Some m \<Rightarrow> (case hm_slots m of
       None \<Rightarrow> violation ''hashmap_clear: map is uninitialized''
     | Some slots \<Rightarrow> bindR (hm_empty_slots slots 0 (unat (hm_cap m))) (\<lambda>slots'.
         ret (Some (m\<lparr>hm_slots := Some slots', hm_length := 0\<rparr>)))))"

definition hm_len :: "('k, 'v) hashmap cptr \<Rightarrow> usize run" where
  "hm_len p = (case p of
     None \<Rightarrow> violation ''hashmap_len: map cannot be NULL'' | Some m \<Rightarrow> ret (hm_length m))"

definition hm_capacity :: "('k, 'v) hashmap cptr \<Rightarrow> usize run" where
  "hm_capacity p = (case p of
     None \<Rightarrow> violation ''hashmap_capacity: map cannot be NULL'' | Some m \<Rightarrow> ret (hm_cap m))"

definition hm_is_empty :: "('k, 'v) hashmap cptr \<Rightarrow> bool run" where
  "hm_is_empty p = (case p of
     None \<Rightarrow> violation ''hashmap_is_empty: map cannot be NULL'' | Some m \<Rightarrow> ret (hm_length m = 0))"

subsection \<open>Insertion\<close>

text \<open>
  The loop of \<open>hashmap_insert\<close>. The flag \<open>is_new_key\<close> of the code is never reset: where the key
  is in the map the loop returns at that slot.
\<close>

fun hm_insert_loop ::
  "'k eq_fn \<Rightarrow> nat \<Rightarrow> ('k, 'v) hashmap \<Rightarrow> ('k, 'v) slot list \<Rightarrow> ('k, 'v) slot \<Rightarrow> u32 \<Rightarrow> usize \<Rightarrow>
   (bool_result \<times> ('k, 'v) hashmap) run" where
  "hm_insert_loop eq 0 m slots incoming psl idx = ret (Err ERR_CAPACITY_EXCEEDED, m\<lparr>hm_slots := Some slots\<rparr>)"
| "hm_insert_loop eq (Suc k) m slots incoming psl idx =
     bindR (arr_get slots idx) (\<lambda>s.
       if \<not> slot_occupied s then
         bindR (arr_set slots idx incoming) (\<lambda>slots'.
         ret (Ok True, m\<lparr>hm_slots := Some slots', hm_length := hm_length m + 1\<rparr>))
       else if slot_hash s = slot_hash incoming \<and> eq (slot_key s) (slot_key incoming) then
         bindR (arr_set slots idx (s\<lparr>slot_val := slot_val incoming\<rparr>)) (\<lambda>slots'.
         ret (Ok False, m\<lparr>hm_slots := Some slots'\<rparr>))
       else
         bindR (if slot_psl s < psl
                then bindR (arr_set slots idx incoming) (\<lambda>slots'. ret (slots', s, slot_psl s))
                else ret (slots, incoming, psl)) (\<lambda>(slots', incoming', psl').
         hm_insert_loop eq k m slots' (incoming'\<lparr>slot_psl := psl' + 1\<rparr>) (psl' + 1)
           (hm_wrap (idx + 1) (hm_cap m))))"

definition hm_insert ::
  "'k hash_fn \<Rightarrow> 'k eq_fn \<Rightarrow> ('k, 'v) hashmap cptr \<Rightarrow> 'k cptr \<Rightarrow> 'v cptr \<Rightarrow>
   (bool_result \<times> ('k, 'v) hashmap cptr) run" where
  "hm_insert hash eq p key val = (case (p, key, val) of
     (Some m, Some k, Some v) \<Rightarrow> (case hm_slots m of
         None \<Rightarrow> violation ''hashmap_insert: map is uninitialized''
       | Some slots \<Rightarrow>
           if hm_length m \<ge> hm_cap m - hm_cap m div 4 then ret (Err ERR_CAPACITY_EXCEEDED, p)
           else let h = hm_normalize_hash (hash k) in
             bindR (hm_insert_loop eq (unat (hm_cap m)) m slots
               \<lparr>slot_hash = h, slot_psl = 0, slot_occupied = True, slot_key = k, slot_val = v\<rparr>
               0 (hm_home h (hm_cap m))) (\<lambda>(r, m'). ret (r, Some m')))
   | (p', k', v') \<Rightarrow> ret (Err ERR_INVALID_ARG, p))"

subsection \<open>Lookup\<close>

fun hm_get_loop ::
  "'k eq_fn \<Rightarrow> nat \<Rightarrow> usize \<Rightarrow> ('k, 'v) slot list \<Rightarrow> u64 \<Rightarrow> 'k \<Rightarrow> u32 \<Rightarrow> usize \<Rightarrow> 'v option run" where
  "hm_get_loop eq 0 capacity slots h key psl idx = ret option_none"
| "hm_get_loop eq (Suc k) capacity slots h key psl idx =
     bindR (arr_get slots idx) (\<lambda>s.
       if \<not> slot_occupied s then ret option_none
       else if slot_psl s < psl then ret option_none
       else if slot_hash s = h \<and> eq (slot_key s) key then ret (option_some (slot_val s))
       else hm_get_loop eq k capacity slots h key (psl + 1) (hm_wrap (idx + 1) capacity))"

definition hm_get :: "'k hash_fn \<Rightarrow> 'k eq_fn \<Rightarrow> ('k, 'v) hashmap cptr \<Rightarrow> 'k cptr \<Rightarrow> 'v option run" where
  "hm_get hash eq p key = (case p of
     None \<Rightarrow> violation ''hashmap_get: map cannot be NULL''
   | Some m \<Rightarrow> (case hm_slots m of
       None \<Rightarrow> violation ''hashmap_get: map is uninitialized''
     | Some slots \<Rightarrow> (case key of
         None \<Rightarrow> violation ''hashmap_get: key cannot be NULL''
       | Some k \<Rightarrow> let h = hm_normalize_hash (hash k) in
           hm_get_loop eq (unat (hm_cap m)) (hm_cap m) slots h k 0 (hm_home h (hm_cap m)))))"

text \<open>\<open>hashmap_get_or_null\<close>: the pointer to the value of a slot is the index of the slot.\<close>

fun hm_get_or_null_loop ::
  "'k eq_fn \<Rightarrow> nat \<Rightarrow> usize \<Rightarrow> ('k, 'v) slot list \<Rightarrow> u64 \<Rightarrow> 'k \<Rightarrow> u32 \<Rightarrow> usize \<Rightarrow> usize option run" where
  "hm_get_or_null_loop eq 0 capacity slots h key psl idx = ret None"
| "hm_get_or_null_loop eq (Suc k) capacity slots h key psl idx =
     bindR (arr_get slots idx) (\<lambda>s.
       if \<not> slot_occupied s then ret None
       else if slot_psl s < psl then ret None
       else if slot_hash s = h \<and> eq (slot_key s) key then ret (Some idx)
       else hm_get_or_null_loop eq k capacity slots h key (psl + 1) (hm_wrap (idx + 1) capacity))"

definition hm_get_or_null :: "'k hash_fn \<Rightarrow> 'k eq_fn \<Rightarrow> ('k, 'v) hashmap cptr \<Rightarrow> 'k cptr \<Rightarrow> usize option run" where
  "hm_get_or_null hash eq p key = (case p of
     None \<Rightarrow> violation ''hashmap_get_or_null: map cannot be NULL''
   | Some m \<Rightarrow> (case hm_slots m of
       None \<Rightarrow> violation ''hashmap_get_or_null: map is uninitialized''
     | Some slots \<Rightarrow> (case key of
         None \<Rightarrow> violation ''hashmap_get_or_null: key cannot be NULL''
       | Some k \<Rightarrow> let h = hm_normalize_hash (hash k) in
           hm_get_or_null_loop eq (unat (hm_cap m)) (hm_cap m) slots h k 0 (hm_home h (hm_cap m)))))"

definition hm_contains_key :: "'k hash_fn \<Rightarrow> 'k eq_fn \<Rightarrow> ('k, 'v) hashmap cptr \<Rightarrow> 'k cptr \<Rightarrow> bool run" where
  "hm_contains_key hash eq p key =
     require_msg (p \<noteq> None) ''hashmap_contains_key: map cannot be NULL''
     (require_msg (key \<noteq> None) ''hashmap_contains_key: key cannot be NULL''
     (bindR (hm_get hash eq p key) (\<lambda>v. ret (option_is_some v))))"

subsection \<open>Removal\<close>

fun hm_find_loop ::
  "'k eq_fn \<Rightarrow> nat \<Rightarrow> usize \<Rightarrow> ('k, 'v) slot list \<Rightarrow> u64 \<Rightarrow> 'k \<Rightarrow> u32 \<Rightarrow> usize \<Rightarrow> usize run" where
  "hm_find_loop eq 0 capacity slots h key psl idx = ret capacity"
| "hm_find_loop eq (Suc k) capacity slots h key psl idx =
     bindR (arr_get slots idx) (\<lambda>s.
       if \<not> slot_occupied s then ret capacity
       else if slot_psl s < psl then ret capacity
       else if slot_hash s = h \<and> eq (slot_key s) key then ret idx
       else hm_find_loop eq k capacity slots h key (psl + 1) (hm_wrap (idx + 1) capacity))"

text \<open>The backward shift: it returns the slots and the index of the slot that is to be emptied.\<close>

fun hm_shift_loop ::
  "nat \<Rightarrow> usize \<Rightarrow> ('k, 'v) slot list \<Rightarrow> usize \<Rightarrow> (('k, 'v) slot list \<times> usize) run" where
  "hm_shift_loop 0 capacity slots cur = ret (slots, cur)"
| "hm_shift_loop (Suc k) capacity slots cur =
     (let nxt = hm_wrap (cur + 1) capacity in
      bindR (arr_get slots nxt) (\<lambda>s.
        if \<not> slot_occupied s \<or> slot_psl s = 0 then ret (slots, cur)
        else bindR (arr_set slots cur s) (\<lambda>slots1.
             bindR (arr_get slots1 cur) (\<lambda>c.
             bindR (arr_set slots1 cur (c\<lparr>slot_psl := slot_psl c - 1\<rparr>)) (\<lambda>slots2.
               hm_shift_loop k capacity slots2 nxt)))))"

definition hm_remove ::
  "'k hash_fn \<Rightarrow> 'k eq_fn \<Rightarrow> ('k, 'v) hashmap cptr \<Rightarrow> 'k cptr \<Rightarrow> (('v, error) result \<times> ('k, 'v) hashmap cptr) run" where
  "hm_remove hash eq p key = (case (p, key) of
     (Some m, Some k) \<Rightarrow> (case hm_slots m of
         None \<Rightarrow> violation ''hashmap_remove: map is uninitialized''
       | Some slots \<Rightarrow> let h = hm_normalize_hash (hash k) in
           bindR (hm_find_loop eq (unat (hm_cap m)) (hm_cap m) slots h k 0 (hm_home h (hm_cap m))) (\<lambda>found.
             if found = hm_cap m then ret (Err ERR_NOT_FOUND, p)
             else bindR (arr_get slots found) (\<lambda>old.
               bindR (hm_shift_loop (unat (hm_cap m - 1)) (hm_cap m) slots found) (\<lambda>(slots1, cur).
               bindR (arr_get slots1 cur) (\<lambda>c.
               bindR (arr_set slots1 cur (c\<lparr>slot_occupied := False, slot_hash := 0, slot_psl := 0\<rparr>)) (\<lambda>slots2.
                 ret (Ok (slot_val old), Some (m\<lparr>hm_slots := Some slots2,
                   hm_length := (if hm_length m > 0 then hm_length m - 1 else hm_length m)\<rparr>))))))))
   | (p', k') \<Rightarrow> ret (Err ERR_INVALID_ARG, p))"

subsection \<open>Iteration\<close>

text \<open>
  \<open>while (*iter < capacity)\<close>: a recursion on the distance to the capacity. \<open>key_out\<close> and
  \<open>val_out\<close> are NULL or a pointer variable; a pointer to the key or the value is the index of the slot.
\<close>

fun hm_iter_loop :: "nat \<Rightarrow> usize \<Rightarrow> ('k, 'v) slot list \<Rightarrow> usize \<Rightarrow> (usize option \<times> usize) run" where
  "hm_iter_loop 0 capacity slots iter = ret (None, iter)"
| "hm_iter_loop (Suc k) capacity slots iter =
     bindR (arr_get slots iter) (\<lambda>s.
       if slot_occupied s then ret (Some iter, iter + 1) else hm_iter_loop k capacity slots (iter + 1))"

definition hm_iter_next ::
  "('k, 'v) hashmap cptr \<Rightarrow> usize cptr \<Rightarrow> usize cptr \<Rightarrow> usize cptr \<Rightarrow>
   (bool \<times> usize cptr \<times> usize cptr \<times> usize cptr) run" where
  "hm_iter_next p iter key_out val_out = (case p of
     None \<Rightarrow> violation ''hashmap_iter_next: map cannot be NULL''
   | Some m \<Rightarrow> (case hm_slots m of
       None \<Rightarrow> violation ''hashmap_iter_next: map is uninitialized''
     | Some slots \<Rightarrow> (case iter of
         None \<Rightarrow> violation ''hashmap_iter_next: iter cannot be NULL''
       | Some i \<Rightarrow> bindR (hm_iter_loop (unat (hm_cap m) - unat i) (hm_cap m) slots i) (\<lambda>(found, i').
           case found of
             None \<Rightarrow> ret (False, Some i', key_out, val_out)
           | Some j \<Rightarrow> ret (True, Some i', (if key_out \<noteq> None then Some j else None),
               (if val_out \<noteq> None then Some j else None))))))"

text \<open>The key functions of the library's own verified instance, u64 keys.\<close>

definition hash_u64 :: "u64 hash_fn" where
  "hash_u64 k = (let h = k * 11400714819323198485 in if h \<noteq> 0 then h else 1)"

definition eq_u64 :: "u64 eq_fn" where
  "eq_u64 a b \<longleftrightarrow> a = b"

end
