(* ===== verification/Canon_RobinHood.thy ===== *)
theory Canon_RobinHood
  imports Canon_HashMap
begin

section \<open>The hash map refines a map\<close>

text \<open>
  \<open>placed\<close>, \<open>linked\<close> and \<open>keys_differ\<close> are the representation invariant, the Robin Hood order
  included: every occupied slot is at its probe distance from its home, a displaced slot has an
  occupied predecessor which is at most one less displaced, and no two slots have equal keys. The
  invariant makes the early exits of the lookups correct. The abstract value of a hash map is
  the function \<open>hm_value\<close> from keys to values; get, insert and remove refine lookup, update and
  deletion on it.
\<close>

subsection \<open>The representation invariant\<close>

text \<open>The slot at probe distance \<open>d\<close> from the home of a hash, in a table of \<open>C\<close> slots.\<close>

definition hm_at :: "nat \<Rightarrow> u64 \<Rightarrow> nat \<Rightarrow> nat" where
  "hm_at C h d = (unat h + d) mod C"

abbreviation dist :: "('k, 'v) slot \<Rightarrow> nat" where
  "dist s \<equiv> unat (slot_psl s)"

definition placed :: "'k hash_fn \<Rightarrow> nat \<Rightarrow> ('k, 'v) slot list \<Rightarrow> bool" where
  "placed hash C ss \<longleftrightarrow> (\<forall>i < C. slot_occupied (ss ! i) \<longrightarrow>
     slot_hash (ss ! i) = hm_normalize_hash (hash (slot_key (ss ! i))) \<and>
     dist (ss ! i) < C \<and> hm_at C (slot_hash (ss ! i)) (dist (ss ! i)) = i)"

definition linked_at :: "nat \<Rightarrow> ('k, 'v) slot list \<Rightarrow> nat \<Rightarrow> bool" where
  "linked_at C ss i \<longleftrightarrow> (let s = ss ! i; t = ss ! (Suc i mod C) in
     slot_occupied t \<and> 0 < dist t \<longrightarrow> slot_occupied s \<and> dist t \<le> dist s + 1)"

definition linked :: "nat \<Rightarrow> ('k, 'v) slot list \<Rightarrow> bool" where
  "linked C ss \<longleftrightarrow> (\<forall>i < C. linked_at C ss i)"

definition keys_differ :: "'k eq_fn \<Rightarrow> nat \<Rightarrow> ('k, 'v) slot list \<Rightarrow> bool" where
  "keys_differ eq C ss \<longleftrightarrow> (\<forall>i < C. \<forall>j < C.
     slot_occupied (ss ! i) \<and> slot_occupied (ss ! j) \<and> eq (slot_key (ss ! i)) (slot_key (ss ! j)) \<longrightarrow> i = j)"

definition robin_hood :: "'k hash_fn \<Rightarrow> 'k eq_fn \<Rightarrow> nat \<Rightarrow> ('k, 'v) slot list \<Rightarrow> bool" where
  "robin_hood hash eq C ss \<longleftrightarrow> 0 < C \<and> C \<le> length ss \<and> placed hash C ss \<and> linked C ss \<and> keys_differ eq C ss"

definition has_key_at :: "'k eq_fn \<Rightarrow> nat \<Rightarrow> ('k, 'v) slot list \<Rightarrow> 'k \<Rightarrow> nat \<Rightarrow> bool" where
  "has_key_at eq C ss k i \<longleftrightarrow> i < C \<and> slot_occupied (ss ! i) \<and> eq (slot_key (ss ! i)) k"

definition hm_entry :: "'k eq_fn \<Rightarrow> nat \<Rightarrow> ('k, 'v) slot list \<Rightarrow> 'k \<Rightarrow> 'v \<Rightarrow> bool" where
  "hm_entry eq C ss k v \<longleftrightarrow> (\<exists>i. has_key_at eq C ss k i \<and> slot_val (ss ! i) = v)"

definition occupied :: "nat \<Rightarrow> ('k, 'v) slot list \<Rightarrow> nat set" where
  "occupied C ss = {i. i < C \<and> slot_occupied (ss ! i)}"

lemma hm_at_less [simp]: "0 < C \<Longrightarrow> hm_at C h d < C"
  by (simp add: hm_at_def)

lemma hm_at_Suc: "Suc (hm_at C h d) mod C = hm_at C h (Suc d)"
  by (simp add: hm_at_def mod_Suc_eq)

lemma mod_shift_surj: "\<exists>d < C. (a + d) mod C = e" if "e < (C :: nat)"
proof -
  let ?d = "(e + (C - a mod C)) mod C"
  have r: "a mod C < C" using that by simp
  have "(a + ?d) mod C = (a mod C + (e + (C - a mod C))) mod C"
    by (metis mod_add_left_eq mod_add_right_eq)
  also have "a mod C + (e + (C - a mod C)) = e + C" using r by linarith
  finally show ?thesis using that by (intro exI [of _ ?d]) simp
qed

lemma mod_round: "(a + d) mod C = a \<Longrightarrow> a < C \<Longrightarrow> d < C \<Longrightarrow> d = (0 :: nat)"
  by (cases "a + d < C") (simp_all add: mod_if [of "a + d"] less_diff_conv2)

lemma Suc_mod_inj: "i < C \<Longrightarrow> j < C \<Longrightarrow> Suc i mod C = Suc j mod C \<Longrightarrow> i = j"
  by (auto simp: mod_Suc split: if_splits)

text \<open>
  Every slot from the home of an element up to the element is occupied, and the one at
  distance \<open>d\<close> is itself displaced by at least \<open>d\<close>: the reason for the early exits.
\<close>

lemma robin_hood_reach:
  assumes "robin_hood hash eq C ss" "i < C" "slot_occupied (ss ! i)" "d \<le> dist (ss ! i)"
  shows "slot_occupied (ss ! hm_at C (slot_hash (ss ! i)) d) \<and> d \<le> dist (ss ! hm_at C (slot_hash (ss ! i)) d)"
  using assms(4)
proof (induction rule: inc_induct)
  case base
  have "hm_at C (slot_hash (ss ! i)) (dist (ss ! i)) = i"
    using assms(1-3) unfolding robin_hood_def placed_def by blast
  with assms(3) show ?case by simp
next
  case (step n)
  let ?j = "hm_at C (slot_hash (ss ! i)) n"
  have "linked_at C ss ?j" using assms(1) by (simp add: robin_hood_def linked_def)
  then show ?case using step.IH by (auto simp: linked_at_def Let_def hm_at_Suc)
qed

lemma robin_hood_dist_small:
  assumes "robin_hood hash eq C ss" "e < C" "\<not> slot_occupied (ss ! e)" "i < C" "slot_occupied (ss ! i)"
  shows "dist (ss ! i) + 1 < C"
proof (rule ccontr)
  assume "\<not> dist (ss ! i) + 1 < C"
  moreover obtain d where d: "d < C" "hm_at C (slot_hash (ss ! i)) d = e"
    using mod_shift_surj [OF assms(2)] by (auto simp: hm_at_def)
  ultimately have "d \<le> dist (ss ! i)" by linarith
  from robin_hood_reach [OF assms(1,4,5) this] d(2) assms(3) show False by simp
qed

text \<open>What hashmap.h asks of the key functions.\<close>

locale hash_keys =
  fixes hash :: "'k hash_fn" and eq :: "'k eq_fn"
  assumes eq_refl: "eq a a"
    and eq_sym: "eq a b \<Longrightarrow> eq b a"
    and eq_trans: "eq a b \<Longrightarrow> eq b c \<Longrightarrow> eq a c"
    and eq_hash: "eq a b \<Longrightarrow> hash a = hash b"
begin

abbreviation norm :: "'k \<Rightarrow> u64" where
  "norm k \<equiv> hm_normalize_hash (hash k)"

lemma has_key_hash:
  "robin_hood hash eq C ss \<Longrightarrow> has_key_at eq C ss k i \<Longrightarrow>
   slot_hash (ss ! i) = norm k \<and> hm_at C (norm k) (dist (ss ! i)) = i \<and> dist (ss ! i) < C"
proof -
  assume "robin_hood hash eq C ss" "has_key_at eq C ss k i"
  then have i: "slot_hash (ss ! i) = norm (slot_key (ss ! i))" "dist (ss ! i) < C"
    "hm_at C (slot_hash (ss ! i)) (dist (ss ! i)) = i" "hash (slot_key (ss ! i)) = hash k"
    using eq_hash unfolding robin_hood_def placed_def has_key_at_def by blast+
  from i(3) i(2) show ?thesis unfolding i(1) i(4) by blast
qed

lemma has_key_unique:
  "robin_hood hash eq C ss \<Longrightarrow> has_key_at eq C ss k i \<Longrightarrow> has_key_at eq C ss k j \<Longrightarrow> i = j"
  using eq_trans [OF _ eq_sym, of "slot_key (ss ! i)" k "slot_key (ss ! j)"]
  unfolding has_key_at_def robin_hood_def keys_differ_def by blast

text \<open>As long as the key was not met, the slot at hand is occupied and at least as displaced as the probe.\<close>

lemma probe_goes_on:
  assumes "robin_hood hash eq C ss" "has_key_at eq C ss k i" "\<forall>e < d. \<not> has_key_at eq C ss k (hm_at C (norm k) e)"
  shows "d < C \<and> slot_occupied (ss ! hm_at C (norm k) d) \<and> d \<le> dist (ss ! hm_at C (norm k) d)"
proof -
  have i: "slot_hash (ss ! i) = norm k" "hm_at C (norm k) (dist (ss ! i)) = i" "dist (ss ! i) < C"
    using has_key_hash [OF assms(1,2)] by simp_all
  have "\<not> dist (ss ! i) < d"
  proof
    assume "dist (ss ! i) < d"
    with assms(3) have "\<not> has_key_at eq C ss k (hm_at C (norm k) (dist (ss ! i)))" by blast
    then show False unfolding i(2) using assms(2) by blast
  qed
  then have d: "d \<le> dist (ss ! i)" by simp
  have "i < C" "slot_occupied (ss ! i)" using assms(2) by (simp_all add: has_key_at_def)
  from robin_hood_reach [OF assms(1) this d] have
    "slot_occupied (ss ! hm_at C (norm k) d) \<and> d \<le> dist (ss ! hm_at C (norm k) d)" unfolding i(1) .
  moreover have "d < C" using d i(3) by linarith
  ultimately show ?thesis by blast
qed

end

subsection \<open>The probe loops\<close>

lemma hm_index:
  assumes "bits_is_power_of_two cap"
  shows "unat (hm_home h cap) = hm_at (unat cap) h 0"
    "unat idx < unat cap \<Longrightarrow> unat (hm_wrap (idx + 1) cap) = Suc (unat idx) mod unat cap"
    "0 < unat cap"
proof -
  have "is_power_of_two cap" using assms by (simp add: is_power_of_two_bits)
  then obtain k where k: "unat cap = 2 ^ k" "cap - 1 = mask k" by (rule power_of_two_obtain)
  show "unat (hm_home h cap) = hm_at (unat cap) h 0"
    unfolding hm_home_def k(2) and_mask_mod k(1) by (simp add: hm_at_def)
  show "unat (hm_wrap (idx + 1) cap) = Suc (unat idx) mod unat cap" if "unat idx < unat cap"
    unfolding hm_wrap_def k(2) and_mask_mod k(1) [symmetric]
    using that unat_usize_lt_Suc [of idx cap] by (simp add: word_less_nat_alt)
  show "0 < unat cap" using k(1) by simp
qed

lemma unat_psl_Suc: "unat (p + 1) = Suc (unat p)" if "unat p < C" "C \<le> 2 ^ 30" for p :: u32
  using that by (simp add: unat_word_ariths)

text \<open>The three lookups run the same probe.\<close>

lemma hm_get_loop_probe:
  "hm_get_loop eq n cap ss h k psl idx = bindR (hm_get_or_null_loop eq n cap ss h k psl idx)
     (\<lambda>r. ret (map_option (\<lambda>i. slot_val (ss ! unat i)) r))"
  by (induction eq n cap ss h k psl idx rule: hm_get_loop.induct) (auto simp: option_defs arr_get_def)

lemma hm_find_loop_probe:
  "hm_find_loop eq n cap ss h k psl idx = bindR (hm_get_or_null_loop eq n cap ss h k psl idx)
     (\<lambda>r. ret (case r of None \<Rightarrow> cap | Some i \<Rightarrow> i))"
  by (induction eq n cap ss h k psl idx rule: hm_find_loop.induct) (auto simp: arr_get_def)

context hash_keys
begin

lemma probe_finds:
  assumes "bits_is_power_of_two cap" "unat cap \<le> 2 ^ 30" "robin_hood hash eq (unat cap) ss"
  shows "unat idx = hm_at (unat cap) (norm k) d \<Longrightarrow> unat psl = d \<Longrightarrow> d + n = unat cap \<Longrightarrow>
    \<forall>e < d. \<not> has_key_at eq (unat cap) ss k (hm_at (unat cap) (norm k) e) \<Longrightarrow>
    \<exists>r. hm_get_or_null_loop eq n cap ss (norm k) k psl idx = ret r \<and>
      (case r of None \<Rightarrow> \<forall>i. \<not> has_key_at eq (unat cap) ss k i | Some j \<Rightarrow> has_key_at eq (unat cap) ss k (unat j))"
proof (induction n arbitrary: d psl idx)
  case 0
  then have "\<not> has_key_at eq (unat cap) ss k i" for i
    using probe_goes_on [OF assms(3) _ 0(4)] by fastforce
  then show ?case by simp
next
  case (Suc n)
  let ?C = "unat cap" and ?s = "ss ! unat idx"
  note index = hm_index [OF assms(1)]
  have C: "?C \<le> length ss" "unat idx < ?C" using assms(3) Suc.prems(1) index(3) by (simp_all add: robin_hood_def)
  then have get: "arr_get ss idx = ret ?s" by simp
  have stop: "\<forall>i. \<not> has_key_at eq ?C ss k i" if "\<not> slot_occupied ?s \<or> slot_psl ?s < psl"
    using that probe_goes_on [OF assms(3) _ Suc.prems(4)] Suc.prems(1,2) by (auto simp: word_less_nat_alt)
  show ?case
  proof (cases "\<not> slot_occupied ?s \<or> slot_psl ?s < psl")
    case True
    with get stop [OF True] show ?thesis by auto
  next
    case go: False
    show ?thesis
    proof (cases "slot_hash ?s = norm k \<and> eq (slot_key ?s) k")
      case True
      with get go C show ?thesis by (auto simp: has_key_at_def)
    next
      case False
      then have miss: "\<not> has_key_at eq ?C ss k (unat idx)"
        using has_key_hash [OF assms(3), of k "unat idx"] by (auto simp: has_key_at_def)
      have "unat (hm_wrap (idx + 1) cap) = hm_at ?C (norm k) (Suc d)"
        using index(2) [OF C(2)] Suc.prems(1) by (simp add: hm_at_Suc)
      moreover have "unat (psl + 1) = Suc d"
        using Suc.prems(2,3) assms(2) by (simp add: unat_psl_Suc [of psl ?C])
      moreover have "Suc d + n = ?C" using Suc.prems(3) by simp
      moreover have "\<forall>e < Suc d. \<not> has_key_at eq ?C ss k (hm_at ?C (norm k) e)"
        using Suc.prems(1,4) miss by (simp add: less_Suc_eq)
      ultimately have "\<exists>r. hm_get_or_null_loop eq n cap ss (norm k) k (psl + 1) (hm_wrap (idx + 1) cap) = ret r \<and>
          (case r of None \<Rightarrow> \<forall>i. \<not> has_key_at eq ?C ss k i | Some j \<Rightarrow> has_key_at eq ?C ss k (unat j))"
        by (rule Suc.IH)
      moreover have "hm_get_or_null_loop eq (Suc n) cap ss (norm k) k psl idx =
          hm_get_or_null_loop eq n cap ss (norm k) k (psl + 1) (hm_wrap (idx + 1) cap)"
        using get go False by auto
      ultimately show ?thesis by simp
    qed
  qed
qed

end

subsection \<open>Insertion keeps the Robin Hood order\<close>

text \<open>
  \<open>carried\<close>: what holds of the incoming element at the start of an iteration, at probe distance
  \<open>d\<close>: it may be stored here, and no slot from its home to here has its key.
\<close>

definition carried :: "'k hash_fn \<Rightarrow> 'k eq_fn \<Rightarrow> nat \<Rightarrow> ('k, 'v) slot list \<Rightarrow> ('k, 'v) slot \<Rightarrow> nat \<Rightarrow> bool" where
  "carried hash eq C ss inc d \<longleftrightarrow> slot_occupied inc \<and>
     slot_hash inc = hm_normalize_hash (hash (slot_key inc)) \<and> dist inc = d \<and> d < C \<and>
     (\<forall>e. d = Suc e \<longrightarrow> slot_occupied (ss ! hm_at C (slot_hash inc) e) \<and> d \<le> dist (ss ! hm_at C (slot_hash inc) e) + 1) \<and>
     (\<forall>e < d. \<not> has_key_at eq C ss (slot_key inc) (hm_at C (slot_hash inc) e))"

lemma carriedD:
  assumes "carried hash eq C ss inc d"
  shows "slot_occupied inc" "slot_hash inc = hm_normalize_hash (hash (slot_key inc))" "dist inc = d" "d < C"
    "d = Suc e \<Longrightarrow> slot_occupied (ss ! hm_at C (slot_hash inc) e) \<and> d \<le> dist (ss ! hm_at C (slot_hash inc) e) + 1"
    "\<forall>e < d. \<not> has_key_at eq C ss (slot_key inc) (hm_at C (slot_hash inc) e)"
  using assms unfolding carried_def by blast+

lemma occupied_update_same:
  "slot_occupied (ss ! p) \<Longrightarrow> slot_occupied x \<Longrightarrow> p < length ss \<Longrightarrow>
   slot_occupied (ss[p := x] ! i) = slot_occupied (ss ! i)"
  by (cases "i = p") simp_all

text \<open>The links after a store: only those into and out of the slot change.\<close>

lemma linked_update:
  assumes "linked C ss" "C \<le> length ss" "p < C"
    "\<And>i. i < C \<Longrightarrow> Suc i mod C = p \<Longrightarrow> slot_occupied x \<Longrightarrow> 0 < dist x \<Longrightarrow>
       slot_occupied (ss[p := x] ! i) \<and> dist x \<le> dist (ss[p := x] ! i) + 1"
    "Suc p mod C \<noteq> p \<Longrightarrow> slot_occupied (ss ! (Suc p mod C)) \<Longrightarrow> 0 < dist (ss ! (Suc p mod C)) \<Longrightarrow>
       slot_occupied x \<and> dist (ss ! (Suc p mod C)) \<le> dist x + 1"
  shows "linked C (ss[p := x])"
  unfolding linked_def
proof (intro allI impI)
  fix i assume i: "i < C"
  have p: "p < length ss" using assms(2,3) by simp
  show "linked_at C (ss[p := x]) i"
  proof (cases "Suc i mod C = p")
    case True
    with assms(4) [OF i True] p show ?thesis by (auto simp: linked_at_def)
  next
    case j: False
    show ?thesis
    proof (cases "i = p")
      case True
      with assms(5) j p show ?thesis by (auto simp: linked_at_def)
    next
      case False
      with j i assms(1) show ?thesis by (simp add: linked_def linked_at_def)
    qed
  qed
qed

lemma placed_update:
  assumes "placed hash C ss" "p < length ss"
    "slot_occupied x \<Longrightarrow> slot_hash x = hm_normalize_hash (hash (slot_key x)) \<and> dist x < C \<and>
       hm_at C (slot_hash x) (dist x) = p"
  shows "placed hash C (ss[p := x])"
  unfolding placed_def
proof (intro allI impI)
  fix i assume i: "i < C" "slot_occupied (ss[p := x] ! i)"
  show "slot_hash (ss[p := x] ! i) = hm_normalize_hash (hash (slot_key (ss[p := x] ! i))) \<and>
      dist (ss[p := x] ! i) < C \<and> hm_at C (slot_hash (ss[p := x] ! i)) (dist (ss[p := x] ! i)) = i"
  proof (cases "i = p")
    case True
    have x: "ss[p := x] ! i = x" using True assms(2) by simp
    show ?thesis using i(2) assms(3) True unfolding x by blast
  next
    case False
    then have "ss[p := x] ! i = ss ! i" by simp
    then show ?thesis using i assms(1) unfolding placed_def by metis
  qed
qed

context hash_keys
begin

lemma keys_differ_update:
  assumes "keys_differ eq C ss" "p < length ss"
    "\<And>j. slot_occupied x \<Longrightarrow> j \<noteq> p \<Longrightarrow> \<not> has_key_at eq C ss (slot_key x) j"
  shows "keys_differ eq C (ss[p := x])"
  unfolding keys_differ_def
proof (intro allI impI)
  fix i j
  assume ij: "i < C" "j < C" "slot_occupied (ss[p := x] ! i) \<and> slot_occupied (ss[p := x] ! j) \<and>
    eq (slot_key (ss[p := x] ! i)) (slot_key (ss[p := x] ! j))"
  have other: "\<not> (slot_occupied x \<and> slot_occupied (ss ! j) \<and> eq (slot_key (ss ! j)) (slot_key x))"
    if "j < C" "j \<noteq> p" for j
    using assms(3) [of j] that by (auto simp: has_key_at_def)
  show "i = j"
  proof (rule ccontr)
    assume ne: "i \<noteq> j"
    consider "i = p" "j \<noteq> p" | "j = p" "i \<noteq> p" | "i \<noteq> p" "j \<noteq> p" using ne by blast
    then show False
    proof cases
      case 1
      then have "slot_occupied x" "slot_occupied (ss ! j)" "eq (slot_key x) (slot_key (ss ! j))"
        using ij(3) assms(2) by simp_all
      with other [OF ij(2) 1(2)] eq_sym show False by blast
    next
      case 2
      then have "slot_occupied x" "slot_occupied (ss ! i)" "eq (slot_key (ss ! i)) (slot_key x)"
        using ij(3) assms(2) by simp_all
      with other [OF ij(1) 2(2)] show False by blast
    next
      case 3
      then have "slot_occupied (ss ! i)" "slot_occupied (ss ! j)" "eq (slot_key (ss ! i)) (slot_key (ss ! j))"
        using ij(3) by simp_all
      with ij(1,2) assms(1) ne show False unfolding keys_differ_def by blast
    qed
  qed
qed

lemma carried_absent:
  assumes "robin_hood hash eq C ss" "carried hash eq C ss inc d"
    "\<not> slot_occupied (ss ! hm_at C (slot_hash inc) d) \<or> dist (ss ! hm_at C (slot_hash inc) d) < d"
  shows "\<not> has_key_at eq C ss (slot_key inc) j"
proof
  assume "has_key_at eq C ss (slot_key inc) j"
  from probe_goes_on [OF assms(1) this, of d] assms(2,3) show False by (auto simp: carried_def)
qed

lemma carried_store:
  assumes "robin_hood hash eq C ss" "carried hash eq C ss inc d" "p = hm_at C (slot_hash inc) d"
    "\<not> slot_occupied (ss ! p) \<or> dist (ss ! p) < d"
  shows "robin_hood hash eq C (ss[p := inc])"
proof -
  have C: "0 < C" "C \<le> length ss" "placed hash C ss" "linked C ss" "keys_differ eq C ss"
    using assms(1) by (simp_all add: robin_hood_def)
  then have p: "p < C" "p < length ss" using assms(3) hm_at_less [OF C(1), of "slot_hash inc" d] by linarith+
  have inc: "dist inc = d" "d < C" "slot_hash inc = norm (slot_key inc)" "slot_occupied inc"
    using assms(2) by (simp_all add: carried_def)
  have "linked C (ss[p := inc])"
  proof (rule linked_update [OF C(4) C(2) p(1)])
    fix i assume i: "i < C" "Suc i mod C = p" "0 < dist inc"
    then obtain e where e: "d = Suc e" using inc(1) by (cases d) auto
    then have "i = hm_at C (slot_hash inc) e"
      using i assms(3) C(1) by (intro Suc_mod_inj [of i C]) (simp_all add: hm_at_Suc)
    with carriedD(5) [OF assms(2) e] have "slot_occupied (ss ! i)" "d \<le> dist (ss ! i) + 1" by blast+
    then show "slot_occupied (ss[p := inc] ! i) \<and> dist inc \<le> dist (ss[p := inc] ! i) + 1"
      using inc(1,4) p(2) by (cases "i = p") simp_all
  next
    assume j: "Suc p mod C \<noteq> p" "slot_occupied (ss ! (Suc p mod C))" "0 < dist (ss ! (Suc p mod C))"
    have "linked_at C ss p" using C(4) p(1) by (simp add: linked_def)
    with j assms(4) inc(1,4) show "slot_occupied inc \<and> dist (ss ! (Suc p mod C)) \<le> dist inc + 1"
      by (auto simp: linked_at_def Let_def)
  qed
  moreover have "placed hash C (ss[p := inc])"
    using C(3) p(2) inc assms(3) by (intro placed_update) simp_all
  moreover have "keys_differ eq C (ss[p := inc])"
    using carried_absent [OF assms(1,2)] assms(3,4) by (intro keys_differ_update C(5) p(2)) simp
  ultimately show ?thesis using C(1,2) by (simp add: robin_hood_def)
qed

text \<open>The element is carried on, past a slot that is displaced as much.\<close>

lemma carried_on:
  assumes "robin_hood hash eq C ss" "carried hash eq C ss inc d" "p = hm_at C (slot_hash inc) d"
    "slot_occupied (ss ! p)" "d \<le> dist (ss ! p)" "\<not> eq (slot_key (ss ! p)) (slot_key inc)"
    "e < C" "\<not> slot_occupied (ss ! e)" "dist inc' = Suc d" "inc' = inc\<lparr>slot_psl := slot_psl inc'\<rparr>"
  shows "carried hash eq C ss inc' (Suc d)"
proof -
  have "p < C" using assms(1,3) by (simp add: robin_hood_def)
  then have "Suc d < C" using robin_hood_dist_small [OF assms(1,7,8) _ assms(4)] assms(5) by simp
  moreover have "\<not> has_key_at eq C ss (slot_key inc) p" using assms(6) by (simp add: has_key_at_def)
  moreover have "slot_key inc' = slot_key inc" "slot_hash inc' = slot_hash inc" "slot_occupied inc' = slot_occupied inc"
    by (subst assms(10), simp)+
  ultimately show ?thesis using carriedD [OF assms(2)] assms(3-5,9) unfolding carried_def by (auto simp: less_Suc_eq)
qed

text \<open>The exchange: the displaced element is carried on from the next slot.\<close>

lemma carried_swap:
  assumes "robin_hood hash eq C ss" "carried hash eq C ss inc d" "p = hm_at C (slot_hash inc) d"
    "slot_occupied (ss ! p)" "dist (ss ! p) < d" "e < C" "\<not> slot_occupied (ss ! e)"
    "dist old = Suc (dist (ss ! p))" "old = (ss ! p)\<lparr>slot_psl := slot_psl old\<rparr>"
  shows "carried hash eq C (ss[p := inc]) old (dist old)"
    "\<not> has_key_at eq C (ss[p := inc]) (slot_key old) j"
proof -
  have C: "0 < C" "C \<le> length ss" "placed hash C ss" using assms(1) by (simp_all add: robin_hood_def)
  then have p: "p < C" "p < length ss" using assms(3) hm_at_less [OF C(1), of "slot_hash inc" d] by linarith+
  have old: "slot_key old = slot_key (ss ! p)" "slot_hash old = slot_hash (ss ! p)"
    "slot_occupied old = slot_occupied (ss ! p)"
    by (subst assms(9), simp)+
  have at: "hm_at C (slot_hash (ss ! p)) (dist (ss ! p)) = p" "slot_hash (ss ! p) = norm (slot_key (ss ! p))"
    using C(3) p(1) assms(4) unfolding placed_def by blast+
  show no: "\<not> has_key_at eq C (ss[p := inc]) (slot_key old) j" for j
  proof (cases "j = p")
    case True
    have "\<not> has_key_at eq C ss (slot_key inc) p" using carried_absent [OF assms(1,2)] assms(3,5) by simp
    then show ?thesis using True p assms(4) eq_sym by (auto simp: has_key_at_def old(1))
  next
    case False
    have "has_key_at eq C ss (slot_key (ss ! p)) p" using p assms(4) eq_refl by (simp add: has_key_at_def)
    with has_key_unique [OF assms(1)] False have "\<not> has_key_at eq C ss (slot_key (ss ! p)) j" by blast
    then show ?thesis using False by (simp add: has_key_at_def old(1))
  qed
  have "dist old < C" using robin_hood_dist_small [OF assms(1,6,7) p(1) assms(4)] assms(8) by simp
  moreover have "slot_occupied inc" "dist inc = d" using assms(2) by (simp_all add: carried_def)
  ultimately show "carried hash eq C (ss[p := inc]) old (dist old)"
    using no old at assms(4,5,8) p(2) by (simp add: carried_def)
qed

lemma hm_entry_update:
  assumes "p < C" "C \<le> length ss" "slot_occupied x"
  shows "hm_entry eq C (ss[p := x]) k v \<longleftrightarrow> eq (slot_key x) k \<and> slot_val x = v \<or>
    (\<exists>i. i \<noteq> p \<and> has_key_at eq C ss k i \<and> slot_val (ss ! i) = v)"
proof -
  have nth: "ss[p := x] ! i = (if i = p then x else ss ! i)" if "i < C" for i
    using that assms(1,2) by (simp add: nth_list_update)
  show ?thesis
    unfolding hm_entry_def has_key_at_def using nth assms(1,3) by (metis (no_types, lifting))
qed

lemma has_key_eq: "eq k k' \<Longrightarrow> has_key_at eq C ss k i = has_key_at eq C ss k' i"
  unfolding has_key_at_def using eq_trans eq_sym by blast

lemma entry_put:
  assumes "p < C" "C \<le> length ss" "slot_occupied x" "\<And>i. \<not> has_key_at eq C ss (slot_key x) i"
  shows "hm_entry eq C (ss[p := x]) k v \<longleftrightarrow> (if eq (slot_key x) k then v = slot_val x
    else \<exists>i. i \<noteq> p \<and> has_key_at eq C ss k i \<and> slot_val (ss ! i) = v)"
  using hm_entry_update [OF assms(1-3), of k v] has_key_eq [of "slot_key x" k C ss] assms(4) by auto

lemma entry_replace:
  assumes "robin_hood hash eq C ss" "has_key_at eq C ss k0 p" "slot_occupied x" "slot_key x = slot_key (ss ! p)"
  shows "hm_entry eq C (ss[p := x]) k v \<longleftrightarrow> (if eq k0 k then v = slot_val x else hm_entry eq C ss k v)"
proof -
  have p: "p < C" "C \<le> length ss" using assms(1,2) by (simp_all add: robin_hood_def has_key_at_def)
  have "eq (slot_key (ss ! p)) k0" using assms(2) by (simp add: has_key_at_def)
  then have iff: "eq (slot_key x) k \<longleftrightarrow> eq k0 k" unfolding assms(4) using eq_trans eq_sym by blast
  show ?thesis
  proof (cases "eq k0 k")
    case True
    then have "has_key_at eq C ss k p" using assms(2) has_key_eq by blast
    then have "\<not> has_key_at eq C ss k i" if "i \<noteq> p" for i using has_key_unique [OF assms(1)] that by blast
    with True iff show ?thesis using hm_entry_update [OF p assms(3), of k v] by auto
  next
    case False
    then have "\<not> has_key_at eq C ss k p" using iff assms(4) by (simp add: has_key_at_def)
    then have "hm_entry eq C ss k v \<longleftrightarrow> (\<exists>i. i \<noteq> p \<and> has_key_at eq C ss k i \<and> slot_val (ss ! i) = v)"
      unfolding hm_entry_def by metis
    with False iff show ?thesis using hm_entry_update [OF p assms(3), of k v] by simp
  qed
qed

lemma robin_hood_cong:
  assumes "robin_hood hash eq C ss" "length ss' = length ss"
    "\<And>i. slot_occupied (ss' ! i) = slot_occupied (ss ! i) \<and> slot_psl (ss' ! i) = slot_psl (ss ! i) \<and>
       slot_hash (ss' ! i) = slot_hash (ss ! i) \<and> slot_key (ss' ! i) = slot_key (ss ! i)"
  shows "robin_hood hash eq C ss'"
proof -
  have "robin_hood hash eq C ss' = robin_hood hash eq C ss"
    by (simp only: robin_hood_def placed_def linked_def linked_at_def keys_differ_def Let_def assms(2,3))
  with assms(1) show ?thesis by simp
qed

lemma card_occupied_put:
  assumes "p < C" "C \<le> length ss" "slot_occupied x"
  shows "card (occupied C (ss[p := x])) = card (occupied C ss) + (if slot_occupied (ss ! p) then 0 else 1)"
proof -
  have "occupied C (ss[p := x]) = insert p (occupied C ss)"
    using assms by (auto simp: occupied_def nth_list_update)
  moreover have "finite (occupied C ss)" by (simp add: occupied_def)
  ultimately show ?thesis using assms(1) by (simp add: occupied_def insert_absorb)
qed

text \<open>The insertion loop, from an iteration on.\<close>

definition insert_done ::
  "nat \<Rightarrow> ('k, 'v) slot list \<Rightarrow> ('k, 'v) slot \<Rightarrow> ('k, 'v) slot list \<Rightarrow> bool \<Rightarrow> bool" where
  "insert_done C ss inc ss' new \<longleftrightarrow> robin_hood hash eq C ss' \<and> length ss' = length ss \<and>
     (new \<longleftrightarrow> (\<forall>i. \<not> has_key_at eq C ss (slot_key inc) i)) \<and>
     card (occupied C ss') = card (occupied C ss) + (if new then 1 else 0) \<and>
     (\<forall>k v. hm_entry eq C ss' k v \<longleftrightarrow> (if eq (slot_key inc) k then v = slot_val inc else hm_entry eq C ss k v))"

lemma insert_done_empty:
  assumes "robin_hood hash eq C ss" "carried hash eq C ss inc d" "p = hm_at C (slot_hash inc) d"
    "\<not> slot_occupied (ss ! p)"
  shows "insert_done C ss inc (ss[p := inc]) True"
proof -
  have absent: "\<not> has_key_at eq C ss (slot_key inc) i" for i
    using carried_absent [OF assms(1,2)] assms(3,4) by simp
  have p: "p < C" "C \<le> length ss" "slot_occupied inc"
    using assms(1,3) carriedD(1) [OF assms(2)] by (simp_all add: robin_hood_def)
  have "hm_entry eq C ss k v \<longleftrightarrow> (\<exists>i. i \<noteq> p \<and> has_key_at eq C ss k i \<and> slot_val (ss ! i) = v)" for k v
    using assms(4) unfolding hm_entry_def has_key_at_def by metis
  then show ?thesis
    using carried_store [OF assms(1-3)] entry_put [OF p absent] card_occupied_put [OF p] assms(4) absent
    by (simp add: insert_done_def)
qed

lemma insert_done_found:
  assumes "robin_hood hash eq C ss" "has_key_at eq C ss (slot_key inc) p"
  shows "insert_done C ss inc (ss[p := (ss ! p)\<lparr>slot_val := slot_val inc\<rparr>]) False"
proof -
  let ?x = "(ss ! p)\<lparr>slot_val := slot_val inc\<rparr>"
  have p: "p < C" "C \<le> length ss" "slot_occupied ?x" "slot_occupied (ss ! p)"
    using assms by (simp_all add: robin_hood_def has_key_at_def)
  have "ss[p := ?x] ! i = (if i = p then ?x else ss ! i)" for i using p(1,2) by (cases "i = p") simp_all
  then have "robin_hood hash eq C (ss[p := ?x])" by (intro robin_hood_cong [OF assms(1)]) simp_all
  then show ?thesis
    using entry_replace [OF assms, of ?x] card_occupied_put [OF p(1-3)] p(4) assms(2)
    by (auto simp: insert_done_def)
qed

lemma insert_done_swap:
  assumes "robin_hood hash eq C ss" "carried hash eq C ss inc d" "p = hm_at C (slot_hash inc) d"
    "slot_occupied (ss ! p)" "dist (ss ! p) < d" "slot_key old = slot_key (ss ! p)" "slot_val old = slot_val (ss ! p)"
    "insert_done C (ss[p := inc]) old ss' new" "\<And>j. \<not> has_key_at eq C (ss[p := inc]) (slot_key old) j"
  shows "insert_done C ss inc ss' True \<and> new"
proof -
  have new: new using assms(8,9) by (simp add: insert_done_def)
  have absent: "\<not> has_key_at eq C ss (slot_key inc) i" for i
    using carried_absent [OF assms(1,2)] assms(3,5) by simp
  have p: "p < C" "C \<le> length ss" "slot_occupied inc"
    using assms(1,3) carriedD(1) [OF assms(2)] by (simp_all add: robin_hood_def)
  have differ: "\<not> (eq (slot_key inc) k \<and> eq (slot_key old) k)" for k
    using absent [of p] p(1) assms(4,6) eq_trans eq_sym unfolding has_key_at_def by metis
  have at_p: "has_key_at eq C ss k p \<longleftrightarrow> eq (slot_key old) k" for k
    using p(1) assms(4,6) by (simp add: has_key_at_def)
  have entry: "hm_entry eq C ss k v \<longleftrightarrow> (if eq (slot_key old) k then v = slot_val old
      else \<exists>i. i \<noteq> p \<and> has_key_at eq C ss k i \<and> slot_val (ss ! i) = v)" for k v
    using has_key_unique [OF assms(1), of k p] at_p [of k] assms(7) unfolding hm_entry_def by metis
  have "hm_entry eq C ss' k v \<longleftrightarrow> (if eq (slot_key inc) k then v = slot_val inc else hm_entry eq C ss k v)" for k v
    using assms(8) entry_put [OF p absent, of k v] entry [of k v] differ [of k] by (auto simp: insert_done_def)
  moreover have "card (occupied C ss') = card (occupied C ss) + 1"
    using assms(4,8) new card_occupied_put [OF p] by (simp add: insert_done_def)
  ultimately show ?thesis using assms(8) new absent by (simp add: insert_done_def)
qed

text \<open>\<open>insert_ends\<close>: the loop returns and has done the insertion.\<close>

definition insert_ends ::
  "nat \<Rightarrow> ('k, 'v) hashmap \<Rightarrow> ('k, 'v) slot list \<Rightarrow> ('k, 'v) slot \<Rightarrow> (bool_result \<times> ('k, 'v) hashmap) run \<Rightarrow> bool" where
  "insert_ends C m ss inc r \<longleftrightarrow> (\<exists>ss' new. insert_done C ss inc ss' new \<and>
     r = ret (Ok new, m\<lparr>hm_slots := Some ss', hm_length := hm_length m + (if new then 1 else 0)\<rparr>))"

lemma insert_loop_done:
  assumes "bits_is_power_of_two (hm_cap m)" "unat (hm_cap m) \<le> 2 ^ 30"
  shows "robin_hood hash eq (unat (hm_cap m)) ss \<Longrightarrow> carried hash eq (unat (hm_cap m)) ss inc (unat psl) \<Longrightarrow>
    unat idx = hm_at (unat (hm_cap m)) (slot_hash inc) (unat psl) \<Longrightarrow> e < n \<Longrightarrow>
    \<not> slot_occupied (ss ! ((unat idx + e) mod unat (hm_cap m))) \<Longrightarrow>
    insert_ends (unat (hm_cap m)) m ss inc (hm_insert_loop eq n m ss inc psl idx)"
proof (induction n arbitrary: ss inc psl idx e)
  case (Suc n)
  let ?C = "unat (hm_cap m)" and ?p = "unat idx"
  let ?s = "ss ! unat idx" and ?idx' = "hm_wrap (idx + 1) (hm_cap m)"
  note rh = Suc.prems(1) and car = Suc.prems(2) and at = Suc.prems(3)
  have C: "0 < ?C" "?C \<le> length ss" using rh by (simp_all add: robin_hood_def)
  then have p: "?p < ?C" "?p < length ss" using at hm_at_less [OF C(1), of "slot_hash inc" "unat psl"] by linarith+
  have get: "arr_get ss idx = ret ?s" and set: "arr_set ss idx x = ret (ss[?p := x])" for x using p by simp_all
  have empty: "(?p + e) mod ?C < ?C" using C(1) by simp
  have idx': "unat ?idx' = Suc ?p mod ?C" using hm_index(2) [OF assms(1) p(1)] .
  have psl: "unat psl < ?C" using carriedD(4) [OF car] .
  have advance: "e - 1 < n \<and> \<not> slot_occupied (ss ! ((unat ?idx' + (e - 1)) mod ?C))" if "slot_occupied ?s"
  proof (cases e)
    case 0
    with Suc.prems(5) p that show ?thesis by simp
  next
    case (Suc e')
    have "(Suc ?p mod ?C + e') mod ?C = (?p + e) mod ?C" by (simp add: Suc mod_add_left_eq)
    with Suc.prems(4,5) Suc idx' show ?thesis by simp
  qed
  consider (free) "\<not> slot_occupied ?s"
    | (found) "slot_occupied ?s" "has_key_at eq ?C ss (slot_key inc) ?p"
    | (swap) "slot_occupied ?s" "\<not> has_key_at eq ?C ss (slot_key inc) ?p" "dist ?s < unat psl"
    | (on) "slot_occupied ?s" "\<not> has_key_at eq ?C ss (slot_key inc) ?p" "unat psl \<le> dist ?s"
    by linarith
  then show ?case
  proof cases
    case free
    with insert_done_empty [OF rh car at] get set show ?thesis by (auto simp: insert_ends_def)
  next
    case found
    then have "slot_hash ?s = slot_hash inc" "eq (slot_key ?s) (slot_key inc)"
      using has_key_hash [OF rh found(2)] carriedD(2) [OF car] by (simp_all add: has_key_at_def)
    with found insert_done_found [OF rh found(2)] get set show ?thesis by (auto simp: insert_ends_def)
  next
    case swap
    let ?old = "?s\<lparr>slot_psl := slot_psl ?s + 1\<rparr>" and ?ss = "ss[?p := inc]"
    have occ: "slot_occupied (?ss ! i) = slot_occupied (ss ! i)" for i
      using carriedD(1) [OF car] by (intro occupied_update_same swap(1) p(2))
    have old: "dist ?old = Suc (dist ?s)" using swap(3) psl assms(2) unat_psl_Suc [of "slot_psl ?s" ?C] by simp
    note carry = carried_swap [OF rh car at swap(1,3) empty Suc.prems(5) old]
    have rh': "robin_hood hash eq ?C ?ss" using carried_store [OF rh car at] swap(3) by simp
    have "hm_at ?C (slot_hash ?s) (dist ?s) = ?p" using rh p(1) swap(1) unfolding robin_hood_def placed_def by blast
    then have "unat ?idx' = hm_at ?C (slot_hash ?old) (dist ?old)" unfolding idx' old by (simp flip: hm_at_Suc)
    then have "insert_ends ?C m ?ss ?old (hm_insert_loop eq n m ?ss ?old (slot_psl ?s + 1) ?idx')"
      using Suc.IH [OF rh', of ?old "slot_psl ?s + 1" ?idx' "e - 1"] carry(1) advance [OF swap(1)] occ by simp
    then obtain ss' new where step: "insert_done ?C ?ss ?old ss' new" "hm_insert_loop eq n m ?ss ?old (slot_psl ?s + 1) ?idx' =
        ret (Ok new, m\<lparr>hm_slots := Some ss', hm_length := hm_length m + (if new then 1 else 0)\<rparr>)"
      by (auto simp: insert_ends_def)
    have "insert_done ?C ss inc ss' True \<and> new"
      using insert_done_swap [OF rh car at swap(1,3) _ _ step(1)] carry(2) by simp
    moreover have "hm_insert_loop eq (Suc n) m ss inc psl idx = hm_insert_loop eq n m ?ss ?old (slot_psl ?s + 1) ?idx'"
      using swap get set p(1) by (auto simp: has_key_at_def word_less_nat_alt)
    ultimately show ?thesis using step(2) by (auto simp: insert_ends_def)
  next
    case on
    let ?inc = "inc\<lparr>slot_psl := psl + 1\<rparr>"
    have psl1: "unat (psl + 1) = Suc (unat psl)" using psl assms(2) by (rule unat_psl_Suc)
    have ne: "\<not> eq (slot_key ?s) (slot_key inc)" using on(1,2) p(1) by (simp add: has_key_at_def)
    have "carried hash eq ?C ss ?inc (Suc (unat psl))"
      using carried_on [OF rh car at on(1,3) ne empty Suc.prems(5), of ?inc] psl1 by simp
    moreover have "unat ?idx' = hm_at ?C (slot_hash ?inc) (unat (psl + 1))"
      unfolding idx' psl1 using at by (simp flip: hm_at_Suc)
    ultimately have "insert_ends ?C m ss ?inc (hm_insert_loop eq n m ss ?inc (psl + 1) ?idx')"
      using Suc.IH [OF rh, of ?inc "psl + 1" ?idx' "e - 1"] psl1 advance [OF on(1)] by simp
    moreover have "hm_insert_loop eq (Suc n) m ss inc psl idx = hm_insert_loop eq n m ss ?inc (psl + 1) ?idx'"
      using on get ne by (simp add: word_less_nat_alt)
    moreover have "insert_done ?C ss ?inc ss' new = insert_done ?C ss inc ss' new" for ss' new
      by (simp add: insert_done_def)
    ultimately show ?thesis by (simp only: insert_ends_def)
  qed
qed simp

end

subsection \<open>The abstract map\<close>

definition hm_value :: "'k eq_fn \<Rightarrow> ('k, 'v) hashmap cptr \<Rightarrow> 'k \<Rightarrow> 'v option" where
  "hm_value eq p k = (case p of
     None \<Rightarrow> None
   | Some m \<Rightarrow> (case hm_slots m of
       None \<Rightarrow> None
     | Some ss \<Rightarrow> map_option slot_val
         (find (\<lambda>s. slot_occupied s \<and> eq (slot_key s) k) (take (unat (hm_cap m)) ss))))"

text \<open>The bound on the capacity is that of the ACSL contracts that hashmap.h describes; the code refuses no
  larger one, and the properties of this theory say nothing of such tables.\<close>

definition hm_ok :: "'k hash_fn \<Rightarrow> 'k eq_fn \<Rightarrow> ('k, 'v) hashmap cptr \<Rightarrow> bool" where
  "hm_ok hash eq p \<longleftrightarrow> (case p of
     None \<Rightarrow> False
   | Some m \<Rightarrow> (case hm_slots m of
       None \<Rightarrow> False
     | Some ss \<Rightarrow> bits_is_power_of_two (hm_cap m) \<and> unat (hm_cap m) \<le> 2 ^ 30 \<and>
         robin_hood hash eq (unat (hm_cap m)) ss \<and> card (occupied (unat (hm_cap m)) ss) = unat (hm_length m) \<and>
         unat (hm_length m) \<le> unat (hm_cap m) - unat (hm_cap m) div 4))"

text \<open>How many entries the map has, and how many it can take.\<close>

definition hm_count :: "('k, 'v) hashmap cptr \<Rightarrow> nat" where
  "hm_count p = (case p of None \<Rightarrow> 0 | Some m \<Rightarrow> unat (hm_length m))"

definition hm_limit :: "('k, 'v) hashmap cptr \<Rightarrow> nat" where
  "hm_limit p = (case p of None \<Rightarrow> 0 | Some m \<Rightarrow> unat (hm_cap m) - unat (hm_cap m) div 4)"

lemma hm_okE:
  assumes "hm_ok hash eq p"
  obtains m ss where "p = Some m" "hm_slots m = Some ss" "bits_is_power_of_two (hm_cap m)"
    "unat (hm_cap m) \<le> 2 ^ 30" "robin_hood hash eq (unat (hm_cap m)) ss"
    "card (occupied (unat (hm_cap m)) ss) = unat (hm_length m)"
    "unat (hm_length m) \<le> unat (hm_cap m) - unat (hm_cap m) div 4"
  using assms by (auto simp: hm_ok_def split: option.splits)

lemma unat_limit: "unat (cap - cap div 4) = unat cap - unat cap div 4" for cap :: usize
proof -
  have "cap div 4 \<le> cap" by (simp add: word_le_nat_alt unat_div_word)
  then show ?thesis by (simp add: unat_sub unat_div_word)
qed

lemma find_entry:
  "find (\<lambda>s. slot_occupied s \<and> eq (slot_key s) k) (take C ss) = Some s \<Longrightarrow> C \<le> length ss \<Longrightarrow>
   \<exists>i. has_key_at eq C ss k i \<and> ss ! i = s"
  by (auto simp: find_Some_iff has_key_at_def)

lemma find_no_entry:
  "find (\<lambda>s. slot_occupied s \<and> eq (slot_key s) k) (take C ss) = None \<Longrightarrow> C \<le> length ss \<Longrightarrow>
   \<not> has_key_at eq C ss k i"
  by (fastforce simp: find_None_iff has_key_at_def in_set_conv_nth)

context hash_keys
begin

lemma hm_value_entry:
  assumes "p = Some m" "hm_slots m = Some ss" "robin_hood hash eq (unat (hm_cap m)) ss"
  shows "hm_value eq p k = Some v \<longleftrightarrow> hm_entry eq (unat (hm_cap m)) ss k v"
    "hm_value eq p k = None \<longleftrightarrow> (\<forall>i. \<not> has_key_at eq (unat (hm_cap m)) ss k i)"
proof -
  let ?C = "unat (hm_cap m)"
  have C: "?C \<le> length ss" using assms(3) by (simp add: robin_hood_def)
  define r where "r = find (\<lambda>s. slot_occupied s \<and> eq (slot_key s) k) (take ?C ss)"
  have val: "hm_value eq p k = map_option slot_val r" using assms(1,2) by (simp add: hm_value_def r_def)
  have both: "(hm_value eq p k = Some v \<longleftrightarrow> hm_entry eq ?C ss k v) \<and>
      (hm_value eq p k = None \<longleftrightarrow> (\<forall>i. \<not> has_key_at eq ?C ss k i))"
  proof (cases r)
    case None
    with find_no_entry [OF _ C, of eq k] val show ?thesis by (simp add: r_def hm_entry_def)
  next
    case (Some s)
    then obtain i where i: "has_key_at eq ?C ss k i" "ss ! i = s"
      using find_entry [OF _ C, of eq k s] by (auto simp: r_def)
    then have "hm_entry eq ?C ss k v \<longleftrightarrow> slot_val s = v"
      using has_key_unique [OF assms(3) i(1)] unfolding hm_entry_def by metis
    with i Some val show ?thesis by auto
  qed
  then show "hm_value eq p k = Some v \<longleftrightarrow> hm_entry eq ?C ss k v"
    "hm_value eq p k = None \<longleftrightarrow> (\<forall>i. \<not> has_key_at eq ?C ss k i)" by blast+
qed

lemma hm_get_value:
  assumes "hm_ok hash eq p"
  shows "hm_get hash eq p (Some k) = ret (hm_value eq p k)"
proof -
  obtain m ss where p: "p = Some m" "hm_slots m = Some ss" "bits_is_power_of_two (hm_cap m)"
    "unat (hm_cap m) \<le> 2 ^ 30" "robin_hood hash eq (unat (hm_cap m)) ss"
    using assms by (rule hm_okE)
  let ?C = "unat (hm_cap m)"
  note index = hm_index [OF p(3)]
  obtain r where r: "hm_get_or_null_loop eq ?C (hm_cap m) ss (norm k) k 0 (hm_home (norm k) (hm_cap m)) = ret r"
    "case r of None \<Rightarrow> \<forall>i. \<not> has_key_at eq ?C ss k i | Some j \<Rightarrow> has_key_at eq ?C ss k (unat j)"
    using probe_finds [OF p(3-5), where d = 0 and n = ?C, of "hm_home (norm k) (hm_cap m)" k 0] index(1) by auto
  have "map_option (\<lambda>i. slot_val (ss ! unat i)) r = hm_value eq p k"
  proof (cases r)
    case None
    with r(2) show ?thesis using hm_value_entry(2) [OF p(1,2,5), of k] by simp
  next
    case (Some j)
    with r(2) have "hm_entry eq ?C ss k (slot_val (ss ! unat j))" by (auto simp: hm_entry_def)
    then have "hm_value eq p k = Some (slot_val (ss ! unat j))" by (simp only: hm_value_entry(1) [OF p(1,2,5)])
    with Some show ?thesis by simp
  qed
  with r(1) p(1,2) show ?thesis by (simp add: hm_get_def Let_def hm_get_loop_probe)
qed

lemma hm_insert_room:
  assumes "hm_ok hash eq p" "hm_count p < hm_limit p"
  shows "\<exists>p'. hm_insert hash eq p (Some k) (Some v) = ret (Ok (hm_value eq p k = None), p') \<and> hm_ok hash eq p' \<and>
    hm_limit p' = hm_limit p \<and> hm_count p' = hm_count p + (if hm_value eq p k = None then 1 else 0) \<and>
    (\<forall>x. hm_value eq p' x = (if eq k x then Some v else hm_value eq p x))"
proof -
  obtain m ss where p: "p = Some m" "hm_slots m = Some ss" "bits_is_power_of_two (hm_cap m)"
    "unat (hm_cap m) \<le> 2 ^ 30" "robin_hood hash eq (unat (hm_cap m)) ss"
    "card (occupied (unat (hm_cap m)) ss) = unat (hm_length m)"
    using assms(1) by (rule hm_okE)
  let ?C = "unat (hm_cap m)" and ?h = "norm k"
  let ?inc = "\<lparr>slot_hash = norm k, slot_psl = 0, slot_occupied = True, slot_key = k, slot_val = v\<rparr>"
  note index = hm_index [OF p(3)]
  have room: "unat (hm_length m) < ?C - ?C div 4" using assms(2) p(1) by (simp add: hm_count_def hm_limit_def)
  have "\<exists>i < ?C. \<not> slot_occupied (ss ! i)"
  proof (rule ccontr)
    assume "\<not> ?thesis"
    then have "occupied ?C ss = {..<?C}" by (auto simp: occupied_def)
    with p(6) room show False by simp
  qed
  then obtain i where i: "i < ?C" "\<not> slot_occupied (ss ! i)" by blast
  obtain e where e: "e < ?C" "(unat (hm_home ?h (hm_cap m)) + e) mod ?C = i" using mod_shift_surj [OF i(1)] by blast
  have car: "carried hash eq ?C ss ?inc (unat (0 :: u32))" using index(3) by (simp add: carried_def)
  have "unat (hm_home ?h (hm_cap m)) = hm_at ?C (slot_hash ?inc) (unat (0 :: u32))" using index(1) by simp
  from insert_loop_done [OF p(3-5) car this e(1)] i(2) e(2) obtain ss' new where
    new: "insert_done ?C ss ?inc ss' new" "hm_insert_loop eq ?C m ss ?inc 0 (hm_home ?h (hm_cap m)) =
      ret (Ok new, m\<lparr>hm_slots := Some ss', hm_length := hm_length m + (if new then 1 else 0)\<rparr>)"
    by (auto simp: insert_ends_def)
  let ?m = "m\<lparr>hm_slots := Some ss', hm_length := hm_length m + (if new then 1 else 0)\<rparr>"
  have iff: "new \<longleftrightarrow> hm_value eq p k = None"
    using new(1) hm_value_entry(2) [OF p(1,2,5), of k] by (simp add: insert_done_def)
  have len: "unat (hm_length ?m) = unat (hm_length m) + (if new then 1 else 0)"
    using room usize_bound [of "hm_cap m"] by (auto intro!: trans [OF unat_usize_Suc])
  have "hm_ok hash eq (Some ?m)"
    using p(3,4,6) new(1) len room by (auto simp: hm_ok_def insert_done_def)
  moreover have "hm_insert hash eq p (Some k) (Some v) = ret (Ok new, Some ?m)"
    using p(1,2) room new(2) unat_limit [of "hm_cap m"]
    by (simp add: hm_insert_def Let_def word_le_nat_alt not_le)
  moreover have "hm_value eq (Some ?m) x = (if eq k x then Some v else hm_value eq p x)" for x
  proof -
    have rh: "robin_hood hash eq (unat (hm_cap ?m)) ss'" using new(1) by (simp add: insert_done_def)
    have "hm_entry eq ?C ss' x w \<longleftrightarrow> (if eq k x then w = v else hm_entry eq ?C ss x w)" for w
      using new(1) by (simp add: insert_done_def)
    then have "hm_value eq (Some ?m) x = Some w \<longleftrightarrow> (if eq k x then Some v else hm_value eq p x) = Some w" for w
      using hm_value_entry(1) [OF refl _ rh, of x w] hm_value_entry(1) [OF p(1,2,5), of x w] by auto
    then show ?thesis by (metis not_None_eq)
  qed
  ultimately show ?thesis using iff len p(1) by (auto simp: hm_limit_def hm_count_def)
qed

end

subsection \<open>The backward shift keeps the Robin Hood order\<close>

definition emptied :: "('k, 'v) slot list \<Rightarrow> nat \<Rightarrow> ('k, 'v) slot list" where
  "emptied ss p = ss[p := (ss ! p)\<lparr>slot_occupied := False, slot_hash := 0, slot_psl := 0\<rparr>]"

lemma emptied_nth:
  "p < length ss \<Longrightarrow> \<not> slot_occupied (emptied ss p ! p)" "i \<noteq> p \<Longrightarrow> emptied ss p ! i = ss ! i"
  "length (emptied ss p) = length ss"
  by (simp_all add: emptied_def)

text \<open>
  The state of the shift with the hole at \<open>p\<close>: everything but the link out of the hole holds,
  and an element behind the hole may follow the element before it when it moves by one.
\<close>

definition hole :: "'k hash_fn \<Rightarrow> 'k eq_fn \<Rightarrow> nat \<Rightarrow> ('k, 'v) slot list \<Rightarrow> nat \<Rightarrow> bool" where
  "hole hash eq C ss p \<longleftrightarrow> p < C \<and> C \<le> length ss \<and> placed hash C (emptied ss p) \<and>
     keys_differ eq C (emptied ss p) \<and> (\<forall>i < C. i \<noteq> p \<longrightarrow> linked_at C (emptied ss p) i) \<and>
     (\<forall>i < C. Suc i mod C = p \<longrightarrow> (let t = emptied ss p ! (Suc p mod C) in
        slot_occupied t \<and> 1 < dist t \<longrightarrow>
        slot_occupied (emptied ss p ! i) \<and> dist t \<le> dist (emptied ss p ! i) + 2))"

lemma holeD:
  assumes "hole hash eq C ss p"
  shows "p < C" "C \<le> length ss" "placed hash C (emptied ss p)" "keys_differ eq C (emptied ss p)"
    "i < C \<Longrightarrow> i \<noteq> p \<Longrightarrow> linked_at C (emptied ss p) i"
    "i < C \<Longrightarrow> Suc i mod C = p \<Longrightarrow> slot_occupied (emptied ss p ! (Suc p mod C)) \<Longrightarrow>
      1 < dist (emptied ss p ! (Suc p mod C)) \<Longrightarrow>
      slot_occupied (emptied ss p ! i) \<and> dist (emptied ss p ! (Suc p mod C)) \<le> dist (emptied ss p ! i) + 2"
  using assms unfolding hole_def Let_def by blast+

text \<open>The slot after the hole stops the shift.\<close>

definition stops :: "('k, 'v) slot \<Rightarrow> bool" where
  "stops t \<longleftrightarrow> \<not> slot_occupied t \<or> slot_psl t = 0"

lemma stops_iff: "stops t \<longleftrightarrow> \<not> slot_occupied t \<or> dist t = 0"
  by (simp add: stops_def unat_eq_zero)

lemma hole_done:
  assumes "hole hash eq C ss p" "Suc p mod C = p \<or> stops (ss ! (Suc p mod C))"
  shows "robin_hood hash eq C (emptied ss p)"
proof -
  note h = holeD [OF assms(1)]
  have len: "p < length ss" using h(1,2) by linarith
  have "linked_at C (emptied ss p) p"
  proof (cases "Suc p mod C = p")
    case True
    then show ?thesis using emptied_nth(1) [OF len] by (simp add: linked_at_def)
  next
    case False
    then show ?thesis using assms(2) emptied_nth(2) [OF False, of ss] by (auto simp: linked_at_def stops_iff)
  qed
  then have "linked C (emptied ss p)" using h(5) unfolding linked_def by blast
  then show ?thesis using h(1-4) by (simp add: robin_hood_def emptied_nth(3))
qed

context hash_keys
begin

lemma hole_start:
  assumes "robin_hood hash eq C ss" "p < C" "slot_occupied (ss ! p)"
  shows "hole hash eq C ss p"
proof -
  have C: "C \<le> length ss" "placed hash C ss" "linked C ss" "keys_differ eq C ss"
    using assms(1) by (simp_all add: robin_hood_def)
  have len: "p < length ss" using C(1) assms(2) by linarith
  note nth = emptied_nth(1) [OF len] emptied_nth(2) [of _ p ss]
  have "placed hash C (emptied ss p)" unfolding emptied_def by (rule placed_update [OF C(2) len]) simp
  moreover have "keys_differ eq C (emptied ss p)" unfolding emptied_def
    by (rule keys_differ_update [OF C(4) len]) simp
  moreover have "linked_at C (emptied ss p) i" if "i < C" "i \<noteq> p" for i
  proof (cases "Suc i mod C = p")
    case True
    then show ?thesis using nth(1) by (simp add: linked_at_def)
  next
    case False
    then show ?thesis using that C(3) nth(2) by (simp add: linked_def linked_at_def)
  qed
  moreover have "slot_occupied (emptied ss p ! i) \<and>
      dist (emptied ss p ! (Suc p mod C)) \<le> dist (emptied ss p ! i) + 2"
    if i: "i < C" "Suc i mod C = p" and t: "slot_occupied (emptied ss p ! (Suc p mod C))"
      "1 < dist (emptied ss p ! (Suc p mod C))" for i
  proof -
    have ne: "Suc p mod C \<noteq> p" using t(1) nth(1) by auto
    then have ip: "i \<noteq> p" using i(2) by auto
    have "linked_at C ss p" "linked_at C ss i" using C(3) assms(2) i(1) by (simp_all add: linked_def)
    then show ?thesis using t nth(2) [OF ne] nth(2) [OF ip] i(2) assms(3) by (auto simp: linked_at_def Let_def)
  qed
  ultimately show ?thesis using assms(2) C(1) by (simp add: hole_def Let_def)
qed

text \<open>One iteration: the element behind the hole moves into it.\<close>

lemma hole_step:
  assumes "hole hash eq C ss p" "q = Suc p mod C" "q \<noteq> p" "\<not> stops (ss ! q)"
    "dist x = dist (ss ! q) - 1" "x = (ss ! q)\<lparr>slot_psl := slot_psl x\<rparr>"
  shows "hole hash eq C (ss[p := x]) q" "card (occupied C (emptied (ss[p := x]) q)) = card (occupied C (emptied ss p))"
    "hm_entry eq C (emptied (ss[p := x]) q) k v = hm_entry eq C (emptied ss p) k v"
proof -
  note h = holeD [OF assms(1)]
  let ?E = "emptied ss p" and ?E' = "emptied (ss[p := x]) q"
  have qC: "q < C" using h(1) assms(2) by simp
  with h(1,2) have q: "q < C" "p < length ss" "q < length ss" by linarith+
  have x: "slot_key x = slot_key (ss ! q)" "slot_hash x = slot_hash (ss ! q)" "slot_occupied x = slot_occupied (ss ! q)"
    "slot_val x = slot_val (ss ! q)"
    by (subst assms(6), simp)+
  have t: "slot_occupied (ss ! q)" "0 < dist (ss ! q)" using assms(4) by (auto simp: stops_iff)
  have E: "?E ! q = ss ! q" "\<not> slot_occupied (?E ! p)" using emptied_nth(1,2) [where p = p and ss = ss] q(2) assms(3) by simp_all
  have E': "?E' ! p = x" "\<not> slot_occupied (?E' ! q)" "\<And>i. i \<noteq> p \<Longrightarrow> i \<noteq> q \<Longrightarrow> ?E' ! i = ?E ! i"
    using assms(3) q(2,3) by (simp_all add: emptied_def)
  let ?e = "(ss ! q)\<lparr>slot_occupied := False, slot_hash := 0, slot_psl := 0\<rparr>"
  have F: "?E' = ?E[q := ?e, p := x]"
    using assms(3) by (simp add: emptied_def list_update_swap [of q p])
  have "slot_occupied (?E ! q) \<longrightarrow> slot_hash (?E ! q) = norm (slot_key (?E ! q)) \<and> dist (?E ! q) < C \<and>
      hm_at C (slot_hash (?E ! q)) (dist (?E ! q)) = q"
    using h(3) q(1) unfolding placed_def by blast
  then have at: "hm_at C (slot_hash (ss ! q)) (dist (ss ! q)) = q" "slot_hash (ss ! q) = norm (slot_key (ss ! q))"
    "dist (ss ! q) < C" using t(1) unfolding E(1) by blast+
  have dx: "Suc (dist x) = dist (ss ! q)" using t(2) assms(5) by linarith
  have "Suc (hm_at C (slot_hash x) (dist x)) mod C = Suc p mod C"
    unfolding hm_at_Suc x(2) dx using at(1) assms(2) by (rule trans)
  moreover have "0 < C" using h(1) by linarith
  ultimately have xp: "hm_at C (slot_hash x) (dist x) = p" using Suc_mod_inj [OF hm_at_less h(1)] by blast
  have placed: "placed hash C ?E'"
    unfolding F using h(2,3) q xp at(2,3) x assms(5)
    by (intro placed_update) (simp_all add: emptied_nth(3))
  have keysF: "keys_differ eq C (?E[q := ?e])"
    by (rule keys_differ_update [OF h(4)]) (simp_all add: q(3) emptied_nth(3))
  have keyF: "has_key_at eq C (?E[q := ?e]) k i \<longleftrightarrow> i \<noteq> q \<and> has_key_at eq C ?E k i" for k i
    using q(3) by (cases "i = q") (simp_all add: has_key_at_def emptied_nth(3))
  have "keys_differ eq C ?E'"
    unfolding F
  proof (rule keys_differ_update [OF keysF])
    fix j
    have "j = q" if "has_key_at eq C ?E (slot_key x) j"
      using that h(4) q(1) t(1) E(1) x(1) unfolding keys_differ_def has_key_at_def by metis
    then show "\<not> has_key_at eq C (?E[q := ?e]) (slot_key x) j" unfolding keyF by blast
  qed (simp add: q(2) emptied_nth(3))
  moreover have "linked_at C ?E' i" if i: "i < C" "i \<noteq> q" for i
  proof -
    let ?j = "Suc i mod C"
    consider "?j = q" | "?j = p" "i \<noteq> p" | "?j \<noteq> q" "?j \<noteq> p" "i \<noteq> p"
      using assms(2) by blast
    then show ?thesis
    proof cases
      case 1
      then show ?thesis using E'(2) by (simp add: linked_at_def)
    next
      case 2
      then show ?thesis
        using h(6) [OF i(1) 2(1)] t E E'(1) E'(3) [OF 2(2) i(2)] assms(2,5) x(3) by (auto simp: linked_at_def)
    next
      case 3
      then show ?thesis using h(5) [OF i(1)] i(2) E'(3) by (simp add: linked_at_def)
    qed
  qed
  moreover have "slot_occupied (?E' ! i) \<and> dist (?E' ! (Suc q mod C)) \<le> dist (?E' ! i) + 2"
    if i: "i < C" "Suc i mod C = q" and occ: "slot_occupied (?E' ! (Suc q mod C))" "1 < dist (?E' ! (Suc q mod C))" for i
  proof -
    have "i = p" using i h(1) assms(2) by (intro Suc_mod_inj [of i C]) simp_all
    moreover have "Suc q mod C \<noteq> q" using occ(1) E'(2) by auto
    moreover have "dist (?E ! (Suc q mod C)) \<le> dist (ss ! q) + 1" if "Suc q mod C \<noteq> p" "Suc q mod C \<noteq> q"
      using h(5) [OF q(1) assms(3)] E(1) occ E'(3) [OF that] by (auto simp: linked_at_def Let_def)
    ultimately show ?thesis using E' x(3) t assms(5) by (cases "Suc q mod C = p") auto
  qed
  ultimately show "hole hash eq C (ss[p := x]) q"
    using placed q(1) h(2) by (simp add: hole_def Let_def)
  have "occupied C ?E' = insert p (occupied C ?E - {q})" "p \<notin> occupied C ?E" "q \<in> occupied C ?E" "finite (occupied C ?E)"
    using E E' x(3) t(1) q(1) h(1) by (auto simp: occupied_def) (metis E'(3))+
  then show "card (occupied C ?E') = card (occupied C ?E)" 
    by (metis card.remove card_insert_disjoint Diff_iff finite_Diff)
  have "hm_entry eq C ?E' k v \<longleftrightarrow> eq (slot_key x) k \<and> slot_val x = v \<or>
      (\<exists>i. i \<noteq> p \<and> has_key_at eq C (?E[q := ?e]) k i \<and> slot_val (?E[q := ?e] ! i) = v)"
    unfolding F using h(1,2) x(3) t(1) by (intro hm_entry_update) (simp_all add: emptied_nth(3))
  also have "\<dots> \<longleftrightarrow> has_key_at eq C ?E k q \<and> slot_val (?E ! q) = v \<or>
      (\<exists>i. i \<noteq> p \<and> i \<noteq> q \<and> has_key_at eq C ?E k i \<and> slot_val (?E ! i) = v)"
  proof -
    have "has_key_at eq C ?E k q \<longleftrightarrow> eq (slot_key x) k" unfolding has_key_at_def E(1) x(1) using q(1) t(1) by blast
    moreover have "slot_val (?E ! q) = slot_val x" unfolding E(1) x(4) ..
    moreover have "slot_val (?E[q := ?e] ! i) = slot_val (?E ! i)" if "i \<noteq> q" for i using that by simp
    ultimately show ?thesis unfolding keyF by metis
  qed
  also have "\<dots> \<longleftrightarrow> hm_entry eq C ?E k v"
  proof -
    have "\<not> has_key_at eq C ?E k p" using E(2) by (simp add: has_key_at_def)
    then show ?thesis unfolding hm_entry_def by metis
  qed
  finally show "hm_entry eq C ?E' k v = hm_entry eq C ?E k v" .
qed

text \<open>
  Enough iterations are left: a slot that stops the shift comes before the hole is reached
  again, or the table has two slots.
\<close>

definition shift_room :: "nat \<Rightarrow> ('k, 'v) slot list \<Rightarrow> nat \<Rightarrow> nat \<Rightarrow> bool" where
  "shift_room C ss p n \<longleftrightarrow> Suc p mod C = p \<or>
     (\<exists>e \<le> n. Suc e < C \<and> stops (ss ! ((Suc p + e) mod C))) \<or> C = 2 \<and> n = 1"

lemma shift_roomI: "e \<le> n \<Longrightarrow> Suc e < C \<Longrightarrow> stops (ss ! ((Suc p + e) mod C)) \<Longrightarrow> shift_room C ss p n"
  unfolding shift_room_def by blast

lemma shift_room_start:
  assumes "i < C" "i \<noteq> p" "\<not> slot_occupied (ss ! i)" "p < C"
  shows "shift_room C ss p (C - 1)"
proof -
  obtain e where e: "e < C" "(Suc p + e) mod C = i" using mod_shift_surj [OF assms(1)] by blast
  have "Suc e \<noteq> C"
  proof
    assume "Suc e = C"
    then have "Suc p + e = p + C" by linarith
    with e(2) have "(p + C) mod C = i" by (simp only:)
    with assms(2,4) show False by simp
  qed
  then have "Suc e < C" "e \<le> C - 1" using e(1) by linarith+
  then show ?thesis using e(2) assms(3) by (intro shift_roomI [of e]) (simp_all only: stops_def simp_thms)
qed

lemma shift_room_step:
  assumes "shift_room C ss p (Suc n)" "p < C" "Suc p mod C \<noteq> p" "\<not> stops (ss ! (Suc p mod C))"
    "C \<le> length ss" "dist (ss ! (Suc p mod C)) < C" "dist x = dist (ss ! (Suc p mod C)) - 1"
  shows "shift_room C (ss[p := x]) (Suc p mod C) n"
proof -
  let ?q = "Suc p mod C"
  from assms(1,3) consider e where "e \<le> Suc n" "Suc e < C" "stops (ss ! ((Suc p + e) mod C))" | "C = 2" "n = 0"
    unfolding shift_room_def by auto
  then show ?thesis
  proof cases
    case 1
    obtain e' where e: "e = Suc e'" using 1(3) assms(4) by (cases e) auto
    have j: "(Suc ?q + e') mod C = (Suc p + e) mod C" by (metis e add_Suc_right add_Suc mod_Suc_eq mod_add_left_eq)
    have "(Suc p + e) mod C \<noteq> p"
    proof
      assume "(Suc p + e) mod C = p"
      then have "(p + Suc e) mod C = p" by simp
      from mod_round [OF this assms(2) 1(2)] show False by simp
    qed
    then have "stops (ss[p := x] ! ((Suc ?q + e') mod C))" using 1(3) unfolding j by simp
    with 1(1,2) show ?thesis unfolding e by (intro shift_roomI [of e']) simp_all
  next
    case 2
    then have q: "Suc ?q mod C = p" using assms(2) by (auto simp: mod_Suc less_2_cases_iff)
    have "dist x = 0" using 2(1) assms(6,7) by linarith
    then have "stops (ss[p := x] ! ((Suc ?q + 0) mod C))" using assms(2,5) unfolding add_0_right q by (simp add: stops_iff)
    with 2 show ?thesis by (intro shift_roomI [of 0]) simp_all
  qed
qed

lemma unat_psl_pred: "unat (p - 1) = unat p - 1" if "p \<noteq> 0" for p :: u32
proof -
  have "0 < unat p" using that by (simp add: unat_gt_0)
  then have "1 \<le> p" by (simp add: word_le_nat_alt)
  then show ?thesis by (simp add: unat_sub)
qed

definition shift_done :: "nat \<Rightarrow> ('k, 'v) slot list \<Rightarrow> nat \<Rightarrow> ('k, 'v) slot list \<Rightarrow> nat \<Rightarrow> bool" where
  "shift_done C ss p ss' p' \<longleftrightarrow> p' < C \<and> length ss' = length ss \<and> robin_hood hash eq C (emptied ss' p') \<and>
     card (occupied C (emptied ss' p')) = card (occupied C (emptied ss p)) \<and>
     (\<forall>k v. hm_entry eq C (emptied ss' p') k v = hm_entry eq C (emptied ss p) k v)"

lemma shift_stops:
  "hole hash eq C ss p \<Longrightarrow> Suc p mod C = p \<or> stops (ss ! (Suc p mod C)) \<Longrightarrow> shift_done C ss p ss p"
  using hole_done [of hash eq C ss p] holeD(1) [of hash eq C ss p] by (simp add: shift_done_def)

lemma shift_loop_done:
  assumes "bits_is_power_of_two cap"
  shows "hole hash eq (unat cap) ss (unat cur) \<Longrightarrow> shift_room (unat cap) ss (unat cur) n \<Longrightarrow> n < unat cap \<Longrightarrow>
    \<exists>ss' cur'. hm_shift_loop n cap ss cur = ret (ss', cur') \<and> shift_done (unat cap) ss (unat cur) ss' (unat cur')"
proof (induction n arbitrary: ss cur)
  case 0
  then have "Suc (unat cur) mod unat cap = unat cur \<or> stops (ss ! (Suc (unat cur) mod unat cap))"
    by (auto simp: shift_room_def)
  with shift_stops [OF 0(1)] show ?case by auto
next
  case (Suc n)
  let ?C = "unat cap" and ?p = "unat cur" and ?q = "Suc (unat cur) mod unat cap"
  let ?next = "hm_wrap (cur + 1) cap"
  note h = holeD [OF Suc.prems(1)]
  have nxt: "unat ?next = ?q" using hm_index(2) [OF assms h(1)] .
  have len: "?q < ?C" "?q < length ss" "?p < length ss" using h(1,2) by (auto intro: less_le_trans [of _ "unat cap"])
  have qp: "?q \<noteq> ?p" using Suc.prems(3) h(1) mod_round [of ?p 1 ?C] by auto
  have get: "arr_get ss ?next = ret (ss ! ?q)" using len nxt by simp
  show ?case
  proof (cases "stops (ss ! ?q)")
    case True
    with shift_stops [OF Suc.prems(1)] get show ?thesis by (auto simp: stops_def)
  next
    case False
    let ?x = "(ss ! ?q)\<lparr>slot_psl := slot_psl (ss ! ?q) - 1\<rparr>"
    have x: "dist ?x = dist (ss ! ?q) - 1" using False by (simp add: stops_def unat_psl_pred)
    have "slot_occupied (emptied ss ?p ! ?q) \<longrightarrow> dist (emptied ss ?p ! ?q) < ?C"
      using h(3) len(1) unfolding placed_def by blast
    then have small: "dist (ss ! ?q) < ?C" using False emptied_nth(2) [OF qp, of ss] by (simp add: stops_def)
    note step = hole_step [OF Suc.prems(1) refl qp False x]
    have room: "shift_room ?C (ss[?p := ?x]) ?q n"
      using shift_room_step [OF Suc.prems(2) h(1) qp False h(2) small x] .
    obtain ss' cur' where IH: "hm_shift_loop n cap (ss[?p := ?x]) ?next = ret (ss', cur')"
      "shift_done ?C (ss[?p := ?x]) ?q ss' (unat cur')"
      using Suc.IH [of "ss[?p := ?x]" ?next, unfolded nxt, OF _ room] step(1) Suc.prems(3) by auto
    have "hm_shift_loop (Suc n) cap ss cur = hm_shift_loop n cap (ss[?p := ?x]) ?next"
      using False get len by (simp add: stops_def)
    moreover have "shift_done ?C ss ?p ss' (unat cur')"
      using IH(2) step(2,3) by (simp add: shift_done_def)
    ultimately show ?thesis using IH(1) by auto
  qed
qed

text \<open>What emptying a slot does to the entries.\<close>

lemma entry_emptied:
  assumes "robin_hood hash eq C ss" "has_key_at eq C ss k0 p"
  shows "hm_entry eq C (emptied ss p) k v \<longleftrightarrow> \<not> eq k0 k \<and> hm_entry eq C ss k v"
    "card (occupied C (emptied ss p)) = card (occupied C ss) - 1" "0 < card (occupied C ss)"
proof -
  have p: "p < C" "p < length ss" "slot_occupied (ss ! p)"
    using assms by (auto simp: robin_hood_def has_key_at_def)
  note nth = emptied_nth(1) [OF p(2)] emptied_nth(2) [of _ p ss]
  have key: "has_key_at eq C (emptied ss p) k i \<longleftrightarrow> i \<noteq> p \<and> has_key_at eq C ss k i" for i
    using nth by (cases "i = p") (simp_all add: has_key_at_def)
  have "has_key_at eq C ss k p \<longleftrightarrow> eq k0 k"
    using assms(2) eq_trans eq_sym unfolding has_key_at_def by blast
  then have "(\<exists>i. i \<noteq> p \<and> has_key_at eq C ss k i \<and> slot_val (ss ! i) = v) \<longleftrightarrow> \<not> eq k0 k \<and> hm_entry eq C ss k v"
    using has_key_unique [OF assms(1), of k p] unfolding hm_entry_def by metis
  moreover have "hm_entry eq C (emptied ss p) k v \<longleftrightarrow> (\<exists>i. i \<noteq> p \<and> has_key_at eq C ss k i \<and> slot_val (ss ! i) = v)"
    unfolding hm_entry_def key using nth(2) by auto
  ultimately show "hm_entry eq C (emptied ss p) k v \<longleftrightarrow> \<not> eq k0 k \<and> hm_entry eq C ss k v" by simp
  have occ: "occupied C (emptied ss p) = occupied C ss - {p}" "p \<in> occupied C ss" "finite (occupied C ss)"
    using nth p by (auto simp: occupied_def) (metis nth(2))+
  then show "card (occupied C (emptied ss p)) = card (occupied C ss) - 1" "0 < card (occupied C ss)"
    by (auto simp: card_gt_0_iff)
qed

lemma hm_value_cong:
  assumes "p = Some m" "hm_slots m = Some ss" "robin_hood hash eq (unat (hm_cap m)) ss"
    "p' = Some m'" "hm_slots m' = Some ss'" "robin_hood hash eq (unat (hm_cap m')) ss'"
    "\<And>v. hm_entry eq (unat (hm_cap m')) ss' x v \<longleftrightarrow> P \<and> hm_entry eq (unat (hm_cap m)) ss x v"
  shows "hm_value eq p' x = (if P then hm_value eq p x else None)"
proof -
  have "hm_value eq p' x = Some w \<longleftrightarrow> (if P then hm_value eq p x else None) = Some w" for w
    using hm_value_entry(1) [OF assms(1-3), of x w] hm_value_entry(1) [OF assms(4-6), of x w] assms(7) by simp
  then show ?thesis by (metis not_None_eq)
qed

lemma hm_get_or_null_points:
  assumes "hm_ok hash eq (Some m)" "hm_slots m = Some ss"
  shows "\<exists>r. hm_get_or_null hash eq (Some m) (Some k) = ret r \<and>
    map_option (\<lambda>i. slot_val (ss ! unat i)) r = hm_value eq (Some m) k \<and>
    (\<forall>i. r = Some i \<longrightarrow> has_key_at eq (unat (hm_cap m)) ss k (unat i))"
proof -
  have p: "bits_is_power_of_two (hm_cap m)" "unat (hm_cap m) \<le> 2 ^ 30" "robin_hood hash eq (unat (hm_cap m)) ss"
    using assms by (simp_all add: hm_ok_def)
  let ?C = "unat (hm_cap m)"
  obtain r where r: "hm_get_or_null_loop eq ?C (hm_cap m) ss (norm k) k 0 (hm_home (norm k) (hm_cap m)) = ret r"
    "case r of None \<Rightarrow> \<forall>i. \<not> has_key_at eq ?C ss k i | Some j \<Rightarrow> has_key_at eq ?C ss k (unat j)"
    using probe_finds [OF p, where d = 0 and n = ?C, of "hm_home (norm k) (hm_cap m)" k 0] hm_index(1) [OF p(1)] by auto
  have "hm_get_or_null hash eq (Some m) (Some k) = ret r" using r(1) assms(2) by (simp add: hm_get_or_null_def Let_def)
  moreover have "ret (map_option (\<lambda>i. slot_val (ss ! unat i)) r) = hm_get hash eq (Some m) (Some k)"
    using r(1) assms(2) by (simp add: hm_get_def Let_def hm_get_loop_probe)
  ultimately show ?thesis using r(2) hm_get_value [OF assms(1), of k] by (auto split: option.splits)
qed

lemma hm_remove_absent:
  assumes "hm_ok hash eq p" "hm_value eq p k = None"
  shows "hm_remove hash eq p (Some k) = ret (Err ERR_NOT_FOUND, p)"
proof -
  obtain m ss where p: "p = Some m" "hm_slots m = Some ss" using assms(1) by (rule hm_okE)
  obtain r where r: "hm_get_or_null hash eq (Some m) (Some k) = ret r"
    "map_option (\<lambda>i. slot_val (ss ! unat i)) r = hm_value eq (Some m) k"
    using hm_get_or_null_points [of m ss k] assms(1) p by auto
  with assms(2) p have "r = None" by simp
  with r(1) p show ?thesis by (simp add: hm_remove_def hm_get_or_null_def Let_def hm_find_loop_probe)
qed

lemma hm_remove_present:
  assumes "hm_ok hash eq p" "hm_value eq p k = Some v"
  shows "\<exists>p'. hm_remove hash eq p (Some k) = ret (Ok v, p') \<and> hm_ok hash eq p' \<and> hm_limit p' = hm_limit p \<and>
    hm_count p = Suc (hm_count p') \<and> (\<forall>x. hm_value eq p' x = (if eq k x then None else hm_value eq p x))"
proof -
  obtain m ss where p: "p = Some m" "hm_slots m = Some ss" "bits_is_power_of_two (hm_cap m)"
    "unat (hm_cap m) \<le> 2 ^ 30" "robin_hood hash eq (unat (hm_cap m)) ss"
    "card (occupied (unat (hm_cap m)) ss) = unat (hm_length m)"
    "unat (hm_length m) \<le> unat (hm_cap m) - unat (hm_cap m) div 4"
    using assms(1) by (rule hm_okE)
  let ?C = "unat (hm_cap m)"
  obtain i where i: "hm_get_or_null hash eq (Some m) (Some k) = ret (Some i)" "slot_val (ss ! unat i) = v"
    "has_key_at eq ?C ss k (unat i)"
    using hm_get_or_null_points [of m ss k] assms p(1,2) by auto
  then have lt: "unat i < ?C" "slot_occupied (ss ! unat i)" "unat i < length ss"
    using p(5) by (auto simp: has_key_at_def robin_hood_def)
  then have ne: "i \<noteq> hm_cap m" by auto
  have find: "hm_find_loop eq ?C (hm_cap m) ss (norm k) k 0 (hm_home (norm k) (hm_cap m)) = ret i"
    using i(1) p(2) by (auto simp: hm_get_or_null_def Let_def hm_find_loop_probe)
  have pos: "0 < ?C" using hm_index(3) [OF p(3)] .
  then have "unat (hm_cap m - 1) = ?C - 1" by (intro unat_usize_pred) auto
  moreover have "shift_room ?C ss (unat i) (?C - 1)"
  proof (cases "\<exists>j < ?C. \<not> slot_occupied (ss ! j)")
    case True
    then show ?thesis using lt shift_room_start [of _ ?C "unat i" ss] by metis
  next
    case False
    then have "occupied ?C ss = {..<?C}" by (auto simp: occupied_def)
    then have "?C div 4 = 0" using p(6,7) pos by simp
    moreover obtain e where "?C = 2 ^ e" using p(3) by (auto simp: bits_is_power_of_two_iff)
    ultimately have "?C = 1 \<or> ?C = 2" by (cases e; cases "e - 1") (auto simp: div_eq_0_iff)
    then show ?thesis using lt(1) by (auto simp: shift_room_def)
  qed
  moreover have "?C - 1 < ?C" using pos by simp
  ultimately obtain ss1 cur where sh: "hm_shift_loop (unat (hm_cap m - 1)) (hm_cap m) ss i = ret (ss1, cur)"
    "shift_done ?C ss (unat i) ss1 (unat cur)"
    using shift_loop_done [OF p(3) hole_start [OF p(5) lt(1,2)], of "?C - 1"] by auto
  let ?ss = "emptied ss1 (unat cur)"
  let ?m = "m\<lparr>hm_slots := Some ?ss, hm_length := hm_length m - 1\<rparr>"
  note fin = sh(2) [unfolded shift_done_def] and ent = entry_emptied [OF p(5) i(3)]
  have cur: "unat cur < length ss1" using fin by (auto simp: robin_hood_def emptied_def)
  have len: "0 < unat (hm_length m)" "0 < hm_length m" "unat (hm_length m - 1) = unat (hm_length m) - 1"
    using ent(3) p(6) by (simp_all add: word_less_nat_alt unat_usize_pred unat_gt_0)
  have run: "hm_remove hash eq p (Some k) = ret (Ok v, Some ?m)"
    using p(1,2) find ne lt sh(1) cur i(2) len(2) by (simp add: hm_remove_def Let_def emptied_def)
  have rh: "robin_hood hash eq (unat (hm_cap ?m)) ?ss" using fin by simp
  have "hm_ok hash eq (Some ?m)"
    using p(3,4,6,7) fin ent(2) len by (simp add: hm_ok_def)
  moreover have "hm_value eq (Some ?m) x = (if \<not> eq k x then hm_value eq p x else None)" for x
    using fin ent(1) by (intro hm_value_cong [OF p(1,2,5) refl _ rh]) simp_all
  moreover have "hm_count p = Suc (hm_count (Some ?m))" "hm_limit (Some ?m) = hm_limit p"
    using len p(1) by (simp_all add: hm_count_def hm_limit_def)
  ultimately show ?thesis using run by (intro exI [of _ "Some ?m"]) auto
qed

lemma hm_insert_full:
  assumes "hm_ok hash eq p" "\<not> hm_count p < hm_limit p"
  shows "hm_insert hash eq p (Some k) (Some v) = ret (Err ERR_CAPACITY_EXCEEDED, p)"
proof -
  obtain m ss where p: "p = Some m" "hm_slots m = Some ss" using assms(1) by (rule hm_okE)
  with assms(2) unat_limit [of "hm_cap m"] show ?thesis
    by (simp add: hm_insert_def hm_count_def hm_limit_def word_le_nat_alt)
qed

end

subsection \<open>Initialisation and iteration\<close>

lemma hm_empty_slots_ret:
  "unat j + n \<le> length ss \<Longrightarrow> length ss < 2 ^ 64 \<Longrightarrow>
   \<exists>ss'. hm_empty_slots ss j n = ret ss' \<and> length ss' = length ss \<and>
     (\<forall>i. unat j \<le> i \<and> i < unat j + n \<longrightarrow> \<not> slot_occupied (ss' ! i)) \<and>
     (\<forall>i. i < unat j \<longrightarrow> ss' ! i = ss ! i)"
proof (induction n arbitrary: ss j)
  case (Suc n)
  let ?x = "(ss ! unat j)\<lparr>slot_occupied := False, slot_hash := 0, slot_psl := 0\<rparr>"
  have j: "unat (j + 1) = Suc (unat j)" using Suc.prems by (intro unat_usize_Suc) linarith
  with Suc.prems Suc.IH [of "j + 1" "ss[unat j := ?x]"] obtain ss' where ss':
    "hm_empty_slots (ss[unat j := ?x]) (j + 1) n = ret ss'" "length ss' = length ss"
    "\<forall>i. Suc (unat j) \<le> i \<and> i < Suc (unat j) + n \<longrightarrow> \<not> slot_occupied (ss' ! i)"
    "\<forall>i. i < Suc (unat j) \<longrightarrow> ss' ! i = ss[unat j := ?x] ! i" by auto
  have "\<not> slot_occupied (ss' ! i)" if "unat j \<le> i" "i < unat j + Suc n" for i
    using that ss'(3,4) Suc.prems(1) by (cases "i = unat j") auto
  moreover have "hm_empty_slots ss j (Suc n) = ret ss'" using ss'(1) Suc.prems(1) by simp
  ultimately show ?case using ss'(2,4) by auto
qed auto

lemma robin_hood_empty:
  "0 < C \<Longrightarrow> C \<le> length ss \<Longrightarrow> \<forall>i < C. \<not> slot_occupied (ss ! i) \<Longrightarrow> robin_hood hash eq C ss"
  by (simp add: robin_hood_def placed_def linked_def linked_at_def keys_differ_def)

lemma hm_value_empty:
  "hm_slots m = Some ss \<Longrightarrow> \<forall>i < unat (hm_cap m). \<not> slot_occupied (ss ! i) \<Longrightarrow> hm_value eq (Some m) k = None"
  by (auto simp: hm_value_def find_None_iff in_set_conv_nth)

lemma hm_new:
  assumes "bits_is_power_of_two cap" "unat cap \<le> 2 ^ 30" "unat cap \<le> length ss" "length ss < 2 ^ 64"
  shows "\<exists>ss'. hm_empty_slots ss 0 (unat cap) = ret ss' \<and>
    hm_ok hash eq (Some \<lparr>hm_slots = Some ss', hm_cap = cap, hm_length = 0\<rparr>) \<and>
    hm_value eq (Some \<lparr>hm_slots = Some ss', hm_cap = cap, hm_length = 0\<rparr>) = (\<lambda>k. None)"
proof -
  obtain ss' where ss': "hm_empty_slots ss 0 (unat cap) = ret ss'" "length ss' = length ss"
    "\<forall>i < unat cap. \<not> slot_occupied (ss' ! i)"
    using hm_empty_slots_ret [of 0 "unat cap" ss] assms(3,4) by auto
  then have "occupied (unat cap) ss' = {}" by (auto simp: occupied_def)
  moreover have "robin_hood hash eq (unat cap) ss'"
    using robin_hood_empty [OF hm_index(3) [OF assms(1)] _ ss'(3)] ss'(2) assms(3) by simp
  ultimately show ?thesis using ss' assms(1,2) hm_value_empty [of _ ss' eq] by (auto simp: hm_ok_def)
qed

lemma hm_iter_loop_next:
  "unat i + n = unat cap \<Longrightarrow> unat cap \<le> length ss \<Longrightarrow>
   (if \<exists>j. unat i \<le> j \<and> j < unat cap \<and> slot_occupied (ss ! j)
    then \<exists>j. hm_iter_loop n cap ss i = ret (Some j, j + 1) \<and> unat i \<le> unat j \<and> unat j < unat cap \<and>
      slot_occupied (ss ! unat j) \<and> (\<forall>e. unat i \<le> e \<and> e < unat j \<longrightarrow> \<not> slot_occupied (ss ! e))
    else hm_iter_loop n cap ss i = ret (None, cap))"
proof (induction n arbitrary: i)
  case 0
  then show ?case by (simp add: usize_eq_iff)
next
  case (Suc n)
  then have lt: "unat i < unat cap" "unat i < length ss" by linarith+
  then have get: "arr_get ss i = ret (ss ! unat i)" by simp
  show ?case
  proof (cases "slot_occupied (ss ! unat i)")
    case True
    then have "\<exists>j. unat i \<le> j \<and> j < unat cap \<and> slot_occupied (ss ! j)" using lt by blast
    then show ?thesis using True get lt by (auto intro!: exI [of _ i])
  next
    case False
    have i: "unat (i + 1) = Suc (unat i)"
      using lt(1) usize_bound [of cap] by (intro unat_usize_Suc) linarith
    have next_iff: "unat i \<le> j \<and> slot_occupied (ss ! j) \<longleftrightarrow> Suc (unat i) \<le> j \<and> slot_occupied (ss ! j)" for j
      using False by (cases "j = unat i") auto
    have none: "(\<forall>e. unat i \<le> e \<and> e < j \<longrightarrow> \<not> slot_occupied (ss ! e)) \<longleftrightarrow>
        (\<forall>e. Suc (unat i) \<le> e \<and> e < j \<longrightarrow> \<not> slot_occupied (ss ! e))" for j
      using next_iff by blast
    have "hm_iter_loop (Suc n) cap ss i = hm_iter_loop n cap ss (i + 1)" using False get by simp
    then show ?thesis
      using Suc.IH [of "i + 1"] Suc.prems next_iff unfolding i none by (auto split: if_splits) 
  qed
qed

subsection \<open>The contract of a bounded dictionary\<close>

text \<open>
  The abstract machine: a function from keys to values and the number of its entries. \<open>same\<close>
  is the equality of keys that the dictionary uses.
\<close>

datatype ('k, 'v) dict_op = Get 'k | Put 'k 'v | Del 'k

datatype 'v dict_answer = Got "'v option" | Stored "(bool, error) result" | Deleted "('v, error) result"

fun dict_step ::
  "('k \<Rightarrow> 'k \<Rightarrow> bool) \<Rightarrow> nat \<Rightarrow> ('k \<Rightarrow> 'v option) \<times> nat \<Rightarrow> ('k, 'v) dict_op \<Rightarrow>
   'v dict_answer \<times> ('k \<Rightarrow> 'v option) \<times> nat" where
  "dict_step same limit (f, n) (Get k) = (Got (f k), f, n)"
| "dict_step same limit (f, n) (Put k v) =
     (if n < limit
      then (Stored (Ok (f k = None)), (\<lambda>x. if same k x then Some v else f x), n + (if f k = None then 1 else 0))
      else (Stored (Err ERR_CAPACITY_EXCEEDED), f, n))"
| "dict_step same limit (f, n) (Del k) = (case f k of
     None \<Rightarrow> (Deleted (Err ERR_NOT_FOUND), f, n)
   | Some v \<Rightarrow> (Deleted (Ok v), (\<lambda>x. if same k x then None else f x), n - 1))"

fun dict_run ::
  "('k \<Rightarrow> 'k \<Rightarrow> bool) \<Rightarrow> nat \<Rightarrow> ('k \<Rightarrow> 'v option) \<times> nat \<Rightarrow> ('k, 'v) dict_op list \<Rightarrow> 'v dict_answer list" where
  "dict_run same limit a [] = []"
| "dict_run same limit a (x # xs) = (let (r, a') = dict_step same limit a x in r # dict_run same limit a' xs)"

type_synonym ('s, 'k, 'v) get_fn = "'s \<Rightarrow> 'k cptr \<Rightarrow> 'v option run"
type_synonym ('s, 'k, 'v) insert_fn = "'s \<Rightarrow> 'k cptr \<Rightarrow> 'v cptr \<Rightarrow> (bool_result \<times> 's) run"
type_synonym ('s, 'k, 'v) remove_fn = "'s \<Rightarrow> 'k cptr \<Rightarrow> (('v, error) result \<times> 's) run"

fun dict_exec ::
  "('s, 'k, 'v) get_fn \<Rightarrow> ('s, 'k, 'v) insert_fn \<Rightarrow> ('s, 'k, 'v) remove_fn \<Rightarrow> 's \<Rightarrow> ('k, 'v) dict_op list \<Rightarrow>
   'v dict_answer list run" where
  "dict_exec get ins del s [] = ret []"
| "dict_exec get ins del s (Get k # xs) = bindR (get s (Some k)) (\<lambda>v.
     bindR (dict_exec get ins del s xs) (\<lambda>rs. ret (Got v # rs)))"
| "dict_exec get ins del s (Put k v # xs) = bindR (ins s (Some k) (Some v)) (\<lambda>(r, s').
     bindR (dict_exec get ins del s' xs) (\<lambda>rs. ret (Stored r # rs)))"
| "dict_exec get ins del s (Del k # xs) = bindR (del s (Some k)) (\<lambda>(r, s').
     bindR (dict_exec get ins del s' xs) (\<lambda>rs. ret (Deleted r # rs)))"

locale bounded_dict =
  fixes inv :: "'s \<Rightarrow> bool"
    and entries :: "'s \<Rightarrow> 'k \<Rightarrow> 'v option"
    and count :: "'s \<Rightarrow> nat"
    and limit :: "'s \<Rightarrow> nat"
    and same :: "'k \<Rightarrow> 'k \<Rightarrow> bool"
    and get :: "('s, 'k, 'v) get_fn"
    and ins :: "('s, 'k, 'v) insert_fn"
    and del :: "('s, 'k, 'v) remove_fn"
  assumes get_entry: "inv s \<Longrightarrow> get s (Some k) = ret (entries s k)"
    and ins_room: "inv s \<Longrightarrow> count s < limit s \<Longrightarrow>
      \<exists>s'. ins s (Some k) (Some v) = ret (Ok (entries s k = None), s') \<and> inv s' \<and> limit s' = limit s \<and>
        count s' = count s + (if entries s k = None then 1 else 0) \<and>
        (\<forall>x. entries s' x = (if same k x then Some v else entries s x))"
    and ins_full: "inv s \<Longrightarrow> \<not> count s < limit s \<Longrightarrow>
      ins s (Some k) (Some v) = ret (Err ERR_CAPACITY_EXCEEDED, s)"
    and del_present: "inv s \<Longrightarrow> entries s k = Some v \<Longrightarrow>
      \<exists>s'. del s (Some k) = ret (Ok v, s') \<and> inv s' \<and> limit s' = limit s \<and> count s = Suc (count s') \<and>
        (\<forall>x. entries s' x = (if same k x then None else entries s x))"
    and del_absent: "inv s \<Longrightarrow> entries s k = None \<Longrightarrow> del s (Some k) = ret (Err ERR_NOT_FOUND, s)"
begin

text \<open>Every sequence of operations returns the answers of the abstract machine.\<close>

lemma exec_simulates:
  "inv s \<Longrightarrow> dict_exec get ins del s xs = ret (dict_run same (limit s) (entries s, count s) xs)"
proof (induction xs arbitrary: s)
  case (Cons x xs)
  show ?case
  proof (cases x)
    case (Get k)
    with Cons get_entry show ?thesis by simp
  next
    case (Put k v)
    show ?thesis
    proof (cases "count s < limit s")
      case True
      from ins_room [OF Cons.prems True, of k v] obtain s' where s': "ins s (Some k) (Some v) = ret (Ok (entries s k = None), s')"
        "inv s'" "limit s' = limit s" "count s' = count s + (if entries s k = None then 1 else 0)"
        "entries s' = (\<lambda>x. if same k x then Some v else entries s x)" by (auto simp: fun_eq_iff)
      show ?thesis using Cons.IH [OF s'(2)] Put True s'(1) unfolding s'(3-5) by simp
    qed (use Cons ins_full Put in simp)
  next
    case (Del k)
    show ?thesis
    proof (cases "entries s k")
      case (Some v)
      from del_present [OF Cons.prems Some] obtain s' where s': "del s (Some k) = ret (Ok v, s')"
        "inv s'" "limit s' = limit s" "count s' = count s - 1"
        "entries s' = (\<lambda>x. if same k x then None else entries s x)" by (auto simp: fun_eq_iff)
      show ?thesis using Cons.IH [OF s'(2)] Del Some s'(1) unfolding s'(3-5) by simp
    qed (use Cons del_absent Del in simp)
  qed
qed simp

end

text \<open>The hash map with any key functions that hashmap.h admits meets the contract.\<close>

sublocale hash_keys \<subseteq> dict: bounded_dict "hm_ok hash eq" "hm_value eq" hm_count hm_limit eq
  "hm_get hash eq" "hm_insert hash eq" "hm_remove hash eq"
  by unfold_locales
    (assumption | rule hm_get_value hm_insert_room hm_insert_full hm_remove_present hm_remove_absent)+

context hash_keys
begin

lemmas hm_simulates = dict.exec_simulates

end

interpretation u64_keys: hash_keys hash_u64 eq_u64
  by unfold_locales (simp_all add: eq_u64_def)

subsection \<open>Properties\<close>

definition hm_sample :: "(u64, nat) hashmap" where
  "hm_sample = \<lparr>hm_slots = Some (replicate 4
     \<lparr>slot_hash = 0, slot_psl = 0, slot_occupied = False, slot_key = 0, slot_val = 0\<rparr>), hm_cap = 4, hm_length = 0\<rparr>"

lemma bits_is_power_of_two_4: "bits_is_power_of_two 4"
  by (simp add: bits_is_power_of_two_def)

lemma hm_sample_ok: "hm_ok hash eq (Some hm_sample)"
proof -
  let ?ss = "replicate 4 \<lparr>slot_hash = 0, slot_psl = 0, slot_occupied = False, slot_key = (0 :: u64), slot_val = (0 :: nat)\<rparr>"
  have "robin_hood hash eq 4 ?ss" by (rule robin_hood_empty) simp_all
  moreover have "occupied 4 ?ss = {}" by (simp add: occupied_def)
  ultimately show ?thesis by (simp add: hm_ok_def hm_sample_def bits_is_power_of_two_4)
qed

lemma hm_sample_empty: "hm_value eq (Some hm_sample) = (\<lambda>k. None)"
  by (rule ext) (simp add: hm_value_def hm_sample_def find_None_iff)

lemma hm_sample_size: "hm_limit (Some hm_sample) = 3" "hm_count (Some hm_sample) = 0"
  by (simp_all add: hm_limit_def hm_count_def hm_sample_def)

text \<open>A full table of two slots, both entries at home in the last slot: key 5 has moved on past the end, to the first.\<close>

definition hm_full :: "(u64, nat) hashmap" where
  "hm_full = \<lparr>hm_slots = Some
     [\<lparr>slot_hash = 1663341875487337577, slot_psl = 1, slot_occupied = True, slot_key = 5, slot_val = 50\<rparr>,
      \<lparr>slot_hash = 15755400384260043839, slot_psl = 0, slot_occupied = True, slot_key = 3, slot_val = 30\<rparr>],
    hm_cap = 2, hm_length = 2\<rparr>"

lemma hm_full_ok: "hm_ok hash_u64 eq_u64 (Some hm_full)"
proof -
  let ?ss = "the (hm_slots hm_full)"
  have two: "i < 2 \<longleftrightarrow> i = 0 \<or> i = 1" for i :: nat by auto
  have "placed hash_u64 2 ?ss" "linked 2 ?ss" "keys_differ eq_u64 2 ?ss"
    by (auto simp: placed_def linked_def linked_at_def keys_differ_def two hm_full_def hm_at_def hash_u64_def eq_u64_def
        hm_normalize_hash_def Let_def)
  moreover have "occupied 2 ?ss = {0, 1}" by (auto simp: occupied_def two hm_full_def)
  moreover have "bits_is_power_of_two 2" by (simp add: bits_is_power_of_two_def)
  ultimately show ?thesis by (simp add: hm_ok_def robin_hood_def hm_full_def)
qed

text \<open>C1: The hash map refines a map with a bounded number of entries: every sequence of gets, inserts and
  removes, from every map in Robin Hood order and with any key functions that are an equality
  with a compatible hash, returns the answers of the abstract map. So get finds what insert
  stored, remove deletes it and nothing else changes, whatever the collisions and displacements.\<close>

theorem hashmap_refines_map:
  "hash_keys hash eq \<Longrightarrow> hm_ok hash eq p \<Longrightarrow>
   dict_exec (hm_get hash eq) (hm_insert hash eq) (hm_remove hash eq) p xs =
     ret (dict_run eq (hm_limit p) (hm_value eq p, hm_count p) xs)"
  by (rule hash_keys.hm_simulates)

theorem hashmap_refines_map_witness:
  "dict_exec (hm_get hash_u64 eq_u64) (hm_insert hash_u64 eq_u64) (hm_remove hash_u64 eq_u64)
     (Some hm_sample) [Put 5 7, Put 5 8, Get 5, Del 5, Get 5] =
   ret [Stored (Ok True), Stored (Ok False), Got (Some 8), Deleted (Ok 8), Got None]"
  using hashmap_refines_map [OF u64_keys.hash_keys_axioms hm_sample_ok, of "[Put 5 7, Put 5 8, Get 5, Del 5, Get 5]"]
  by (simp add: hm_sample_empty hm_sample_size eq_u64_def del: dict_exec.simps)

text \<open>An insert keeps the Robin Hood order, the entry count and the load limit; it succeeds exactly when the
  load limit is not reached, and reports whether the key is new.\<close>

theorem hm_insert_invariant:
  "hash_keys hash eq \<Longrightarrow> hm_ok hash eq p \<Longrightarrow>
   \<exists>r p'. hm_insert hash eq p (Some k) (Some v) = ret (r, p') \<and> hm_ok hash eq p' \<and> hm_limit p' = hm_limit p \<and>
     r = (if hm_count p < hm_limit p then Ok (hm_value eq p k = None) else Err ERR_CAPACITY_EXCEEDED)"
  using hash_keys.hm_insert_room [of hash eq p k v] hash_keys.hm_insert_full [of hash eq p k v]
  by (cases "hm_count p < hm_limit p") auto

theorem hm_insert_invariant_witness:
  "\<exists>p'. hm_insert hash_u64 eq_u64 (Some hm_sample) (Some 5) (Some 7) = ret (Ok True, p') \<and> hm_ok hash_u64 eq_u64 p'"
  using hm_insert_invariant [OF u64_keys.hash_keys_axioms hm_sample_ok, of 5 7]
  by (auto simp: hm_sample_empty hm_sample_size)

text \<open>C10: A remove keeps the Robin Hood order and the entry count, whatever the collisions, at every capacity up to the
  \<open>2 ^ 30\<close> slots that the contracts of hashmap.h assume and the code does not check, and also from a table of one or two
  slots that are all occupied; it returns the value of the key or reports that there is none, and every other key
  keeps its value.\<close>

theorem hm_remove_invariant:
  "hash_keys hash eq \<Longrightarrow> hm_ok hash eq p \<Longrightarrow>
   \<exists>p'. hm_remove hash eq p (Some k) =
       ret (case hm_value eq p k of None \<Rightarrow> Err ERR_NOT_FOUND | Some v \<Rightarrow> Ok v, p') \<and>
     hm_ok hash eq p' \<and> (\<forall>x. hm_value eq p' x = (if eq k x then None else hm_value eq p x))"
proof -
  assume a: "hash_keys hash eq" "hm_ok hash eq p"
  show ?thesis
  proof (cases "hm_value eq p k")
    case None
    have "hm_value eq p x = None" if "eq k x" for x
    proof -
      obtain m ss where p: "p = Some m" "hm_slots m = Some ss" "robin_hood hash eq (unat (hm_cap m)) ss"
        using a(2) by (rule hm_okE)
      have "\<forall>i. \<not> has_key_at eq (unat (hm_cap m)) ss k i"
        using None hash_keys.hm_value_entry(2) [OF a(1) p] by blast
      then have "\<forall>i. \<not> has_key_at eq (unat (hm_cap m)) ss x i"
        using hash_keys.has_key_eq [OF a(1) that, of "unat (hm_cap m)" ss] by blast
      then show ?thesis using hash_keys.hm_value_entry(2) [OF a(1) p] by blast
    qed
    with hash_keys.hm_remove_absent [OF a None] a(2) None show ?thesis by auto
  next
    case (Some v)
    with hash_keys.hm_remove_present [OF a Some] show ?thesis by auto
  qed
qed

theorem hm_remove_invariant_witness:
  "\<exists>p'. hm_remove hash_u64 eq_u64 (Some hm_full) (Some 3) = ret (Ok 30, p') \<and> hm_ok hash_u64 eq_u64 p' \<and>
     hm_value eq_u64 p' 3 = None \<and> hm_value eq_u64 p' 5 = Some 50 \<and>
     map_option (\<lambda>m. map_option (map slot_occupied) (hm_slots m)) p' = Some (Some [False, True])"
proof -
  have v: "hm_value eq_u64 (Some hm_full) 3 = Some 30" "hm_value eq_u64 (Some hm_full) 5 = Some 50"
    by (simp_all add: hm_value_def hm_full_def eq_u64_def)
  have twice: "hm_find_loop eq_u64 2 = hm_find_loop eq_u64 (Suc (Suc 0))" by (simp only: numeral_2_eq_2)
  have run: "hm_remove hash_u64 eq_u64 (Some hm_full) (Some 3) = ret (Ok 30, Some \<lparr>hm_slots = Some
      [\<lparr>slot_hash = 0, slot_psl = 0, slot_occupied = False, slot_key = 5, slot_val = 50\<rparr>,
       \<lparr>slot_hash = 1663341875487337577, slot_psl = 0, slot_occupied = True, slot_key = 5, slot_val = 50\<rparr>],
      hm_cap = 2, hm_length = 1\<rparr>)"
    by (simp add: hm_remove_def hm_full_def hash_u64_def eq_u64_def hm_normalize_hash_def hm_home_def hm_wrap_def
        Let_def arr_get_def arr_set_def twice)
  from hm_remove_invariant [OF u64_keys.hash_keys_axioms hm_full_ok, of 3] v
  show ?thesis unfolding run by (auto simp: eq_u64_def)
qed

text \<open>\<open>hashmap_init\<close> over an aligned buffer that is large enough, whatever it contains, makes an empty map in
  Robin Hood order.\<close>

theorem hm_init_empty:
  "bits_is_power_of_two cap \<Longrightarrow> unat cap \<le> 2 ^ 30 \<Longrightarrow> 0 < esz \<Longrightarrow> unat cap * unat esz < 2 ^ 64 \<Longrightarrow>
   v_ptr buf \<noteq> null_ptr \<Longrightarrow> cap * esz \<le> v_len buf \<Longrightarrow> align \<noteq> 0 \<Longrightarrow> v_ptr buf mod align = 0 \<Longrightarrow>
   unat cap \<le> length contents \<Longrightarrow> length contents < 2 ^ 64 \<Longrightarrow>
   \<exists>p'. hm_init builtin esz align (Some m) buf contents cap = ret (Ok True, p') \<and> hm_ok hash eq p' \<and>
     hm_value eq p' = (\<lambda>k. None) \<and> hm_limit p' = unat cap - unat cap div 4"
proof -
  assume a: "bits_is_power_of_two cap" "unat cap \<le> 2 ^ 30" "0 < esz" "unat cap * unat esz < 2 ^ 64"
    "v_ptr buf \<noteq> null_ptr" "cap * esz \<le> v_len buf" "align \<noteq> 0" "v_ptr buf mod align = 0"
    "unat cap \<le> length contents" "length contents < 2 ^ 64"
  have "0 < unat cap" "0 < unat esz" using hm_index(3) [OF a(1)] a(3) by (simp_all add: word_less_nat_alt)
  then have "unat (cap * esz) \<noteq> 0" using a(4) by (simp add: unat_word_ariths)
  then have "cap * esz \<noteq> 0" "cap \<noteq> 0" using \<open>0 < unat cap\<close> by auto
  with a hm_new [OF a(1,2,9,10), of hash eq] show ?thesis
    by (auto simp: hm_init_def hm_buffer_size_def hm_limit_def not_less)
qed

theorem hm_init_empty_witness:
  "\<exists>p'. hm_init False 40 8 (Some hm_sample) \<lparr>v_ptr = 4096, v_len = 160\<rparr>
       (replicate 4 \<lparr>slot_hash = 9, slot_psl = 9, slot_occupied = True, slot_key = 3, slot_val = 1\<rparr>) 4 =
       ret (Ok True, p') \<and> hm_value eq_u64 p' = (\<lambda>k. None)"
proof -
  let ?c = "replicate 4 \<lparr>slot_hash = 9, slot_psl = 9, slot_occupied = True, slot_key = 3, slot_val = (1 :: nat)\<rparr>"
  have "\<exists>p'. hm_init False 40 8 (Some hm_sample) \<lparr>v_ptr = 4096, v_len = 160\<rparr> ?c 4 = ret (Ok True, p') \<and>
      hm_ok hash_u64 eq_u64 p' \<and> hm_value eq_u64 p' = (\<lambda>k. None) \<and> hm_limit p' = unat (4 :: usize) - unat (4 :: usize) div 4"
    by (rule hm_init_empty [OF bits_is_power_of_two_4]) (simp_all add: null_ptr_def)
  then show ?thesis by blast
qed

text \<open>\<open>hashmap_iter_next\<close> returns the next occupied slot from the position on, without passing over any, and
  false exactly when there is none; the loop ends.\<close>

theorem hm_iter_next_correct:
  "hm_ok hash eq (Some m) \<Longrightarrow> hm_slots m = Some ss \<Longrightarrow> i \<le> hm_cap m \<Longrightarrow>
   (if \<exists>j. unat i \<le> j \<and> j < unat (hm_cap m) \<and> slot_occupied (ss ! j)
    then \<exists>j. hm_iter_next (Some m) (Some i) (Some k0) (Some v0) = ret (True, Some (j + 1), Some j, Some j) \<and>
      unat i \<le> unat j \<and> unat j < unat (hm_cap m) \<and> slot_occupied (ss ! unat j) \<and>
      (\<forall>e. unat i \<le> e \<and> e < unat j \<longrightarrow> \<not> slot_occupied (ss ! e))
    else hm_iter_next (Some m) (Some i) (Some k0) (Some v0) = ret (False, Some (hm_cap m), Some k0, Some v0))"
proof -
  assume a: "hm_ok hash eq (Some m)" "hm_slots m = Some ss" "i \<le> hm_cap m"
  let ?n = "unat (hm_cap m) - unat i"
  have "unat i + ?n = unat (hm_cap m)" "unat (hm_cap m) \<le> length ss"
    using a by (simp_all add: hm_ok_def robin_hood_def word_le_nat_alt)
  note step = hm_iter_loop_next [OF this]
  show ?thesis
  proof (cases "\<exists>j. unat i \<le> j \<and> j < unat (hm_cap m) \<and> slot_occupied (ss ! j)")
    case True
    with step a(2) show ?thesis unfolding if_P [OF True] by (auto simp: hm_iter_next_def)
  next
    case False
    with step a(2) show ?thesis unfolding if_not_P [OF False] by (simp add: hm_iter_next_def)
  qed
qed

theorem hm_iter_next_correct_witness:
  "hm_iter_next (Some hm_sample) (Some 0) (Some 1) (Some 1) = ret (False, Some 4, Some 1, Some 1)"
proof -
  have "hm_slots hm_sample = Some (replicate 4 \<lparr>slot_hash = 0, slot_psl = 0, slot_occupied = False, slot_key = 0, slot_val = 0\<rparr>)"
    by (simp add: hm_sample_def)
  note step = hm_iter_next_correct [OF hm_sample_ok [of hash_u64 eq_u64] this, of 0 1 1]
  have "\<not> (\<exists>j. unat (0 :: usize) \<le> j \<and> j < unat (hm_cap hm_sample) \<and> slot_occupied (replicate 4
      \<lparr>slot_hash = 0, slot_psl = 0, slot_occupied = False, slot_key = (0 :: u64), slot_val = (0 :: nat)\<rparr> ! j))"
    by (auto simp: hm_sample_def)
  from step [unfolded if_not_P [OF this]] show ?thesis by (simp add: hm_sample_def)
qed

end
