(* ===== verification/Canon_Popcount.thy ===== *)
theory Canon_Popcount
  imports Canon_Bits
begin

section \<open>The population count (core/primitives/bits.h)\<close>

text \<open>
  The portable branch of \<open>bits_popcount\<close> adds bits in parallel: it turns the 64 one-bit fields of
  the word into 32 two-bit sums, these into 16 four-bit sums, and these into eight bytes, which
  one multiplication adds up in the top byte. The proof follows the fields: \<open>digits w e k\<close> is the
  number with the \<open>k\<close> fields \<open>e 0, e 1, ...\<close> of width \<open>w\<close>, a mask of alternating fields selects the
  even ones, and a shift by the width before it the odd ones.
\<close>

fun digits :: "nat \<Rightarrow> (nat \<Rightarrow> nat) \<Rightarrow> nat \<Rightarrow> nat" where
  "digits w e 0 = 0"
| "digits w e (Suc k) = e 0 + 2 ^ w * digits w (\<lambda>j. e (Suc j)) k"

lemma digits_cong: "(\<And>j. j < k \<Longrightarrow> e j = f j) \<Longrightarrow> digits w e k = digits w f k"
proof (induction k arbitrary: e f)
  case (Suc k)
  have "digits w (\<lambda>j. e (Suc j)) k = digits w (\<lambda>j. f (Suc j)) k"
    by (rule Suc.IH) (use Suc.prems in simp)
  with Suc.prems [of 0] show ?case by simp
qed simp

lemma digits_add: "digits w (\<lambda>j. e j + f j) k = digits w e k + digits w f k"
  by (induction k arbitrary: e f) (simp_all add: algebra_simps)

lemma digits_less: "(\<And>j. e j < 2 ^ w) \<Longrightarrow> digits w e k < 2 ^ (w * k)"
proof (induction k arbitrary: e)
  case (Suc k)
  have "digits w (\<lambda>j. e (Suc j)) k < 2 ^ (w * k)" by (rule Suc.IH) (rule Suc.prems)
  then have "Suc (digits w (\<lambda>j. e (Suc j)) k) * 2 ^ w \<le> 2 ^ (w * k) * 2 ^ w"
    by (intro mult_right_mono) simp_all
  then show ?case using Suc.prems [of 0] by (simp add: power_add algebra_simps)
qed simp

lemma and_concat_nat:
  fixes a b x y :: nat
  assumes "a < 2 ^ n" "b < 2 ^ n"
  shows "(a + 2 ^ n * x) AND (b + 2 ^ n * y) = (a AND b) + 2 ^ n * (x AND y)"
proof -
  have cat: "c + 2 ^ n * z = c OR push_bit n z" if "c < 2 ^ n" for c z :: nat
  proof -
    have "c = take_bit n c" using that by (simp add: take_bit_nat_eq_self)
    moreover have "take_bit n c AND push_bit n z = 0" by (rule bit_eqI) (auto simp: bit_simps)
    ultimately have "c AND push_bit n z = 0" by simp
    from disjunctive_add_eq_or [OF this] show ?thesis by (simp add: push_bit_eq_mult mult.commute)
  qed
  have "a = take_bit n a" "b = take_bit n b" using assms by (simp_all add: take_bit_nat_eq_self)
  then have bits: "bit a i \<Longrightarrow> i < n" "bit b i \<Longrightarrow> i < n" for i
    by (metis bit_take_bit_iff)+
  have "a AND b < 2 ^ n"
    using assms by (metis take_bit_nat_eq_self_iff take_bit_and)
  then have "(a AND b) + 2 ^ n * (x AND y) = (a AND b) OR push_bit n (x AND y)" by (rule cat)
  also have "\<dots> = (a OR push_bit n x) AND (b OR push_bit n y)"
    by (rule bit_eqI) (use bits in \<open>fastforce simp: bit_simps\<close>)
  finally show ?thesis using assms by (simp add: cat)
qed

lemma digits_select:
  "(\<And>j. e j < 2 ^ w) \<Longrightarrow>
   digits w e (2 * k) AND digits (2 * w) (\<lambda>_. 2 ^ w - 1) k = digits (2 * w) (\<lambda>j. e (2 * j)) k"
proof (induction k arbitrary: e)
  case (Suc k)
  have two: "(2::nat) ^ (2 * w) = 2 ^ w * 2 ^ w" by (simp add: mult_2 power_add)
  have low: "e 0 + 2 ^ w * e 1 < 2 ^ (2 * w)"
    using digits_less [of e w 2] Suc.prems by (simp add: numeral_2_eq_2 mult.commute)
  have "e 0 + 2 ^ w * e 1 AND 2 ^ w - 1 = take_bit w (e 0 + 2 ^ w * e 1)"
    by (simp add: take_bit_eq_mask mask_eq_exp_minus_1)
  also have "\<dots> = e 0" using Suc.prems [of 0] by (simp add: take_bit_eq_mod)
  finally have lowand: "e 0 + 2 ^ w * e 1 AND 2 ^ w - 1 = e 0" .
  have left: "digits w e (2 * Suc k) = (e 0 + 2 ^ w * e 1) + 2 ^ (2 * w) * digits w (\<lambda>j. e (Suc (Suc j))) (2 * k)"
    by (simp add: two distrib_left mult.assoc)
  have m: "(2::nat) ^ w - 1 < 2 ^ (2 * w)"
    using power_increasing [of w "2 * w" "2::nat"] zero_less_power [of "2::nat" w] by linarith
  have right: "digits (2 * w) (\<lambda>_. 2 ^ w - 1) (Suc k) =
      (2 ^ w - 1) + 2 ^ (2 * w) * digits (2 * w) (\<lambda>_. 2 ^ w - 1) k" by simp
  have IH: "digits w (\<lambda>j. e (Suc (Suc j))) (2 * k) AND digits (2 * w) (\<lambda>_. 2 ^ w - 1) k =
      digits (2 * w) (\<lambda>j. e (Suc (Suc (2 * j)))) k" by (rule Suc.IH) (rule Suc.prems)
  show ?case unfolding left right and_concat_nat [OF low m] lowand IH by simp
qed simp

lemma digits_shift:
  "e 0 < 2 ^ w \<Longrightarrow> e k = 0 \<Longrightarrow> drop_bit w (digits w e k) = digits w (\<lambda>j. e (Suc j)) k"
proof (cases k)
  case (Suc l)
  assume "e 0 < 2 ^ w" "e k = 0"
  moreover have top: "digits w f (Suc l) = digits w f l" if "f l = 0" for f
    using that by (induction l arbitrary: f) auto
  ultimately show ?thesis
    using Suc top [of "\<lambda>j. e (Suc j)"] by (simp del: digits.simps add: digits.simps(2) [of w e l] drop_bit_eq_div)
qed simp

lemma digits_of_nat: "digits 1 (\<lambda>j. of_bool (bit n j)) k = take_bit k n" for n :: nat
  by (induction k arbitrary: n) (simp_all add: take_bit_Suc bit_Suc bit_0 odd_iff_mod_2_eq_one mod2_eq_if)

lemma digits_pairs:
  "digits w e (2 * k) = digits (2 * w) (\<lambda>j. e (2 * j)) k + 2 ^ w * digits (2 * w) (\<lambda>j. e (2 * j + 1)) k"
  by (induction k arbitrary: e) (simp_all add: power_add mult_2 distrib_left distrib_right mult.assoc)

lemma unat_select:
  fixes v m :: u64
  assumes "unat v = digits w e (2 * k)" "unat m = digits (2 * w) (\<lambda>_. 2 ^ w - 1) k" "\<And>j. e j < 2 ^ w"
  shows "unat (v AND m) = digits (2 * w) (\<lambda>j. e (2 * j)) k"
  using assms digits_select [of e w k] by (simp add: unsigned_and_eq)

lemma unat_select_shift:
  fixes v m :: u64
  assumes "unat v = digits w e (2 * k)" "unat m = digits (2 * w) (\<lambda>_. 2 ^ w - 1) k" "\<And>j. e j < 2 ^ w"
    "e (2 * k) = 0"
  shows "unat (drop_bit w v AND m) = digits (2 * w) (\<lambda>j. e (2 * j + 1)) k"
proof -
  have "drop_bit w (unat v) = digits w (\<lambda>j. e (Suc j)) (2 * k)"
    unfolding assms(1) by (rule digits_shift) (use assms(3,4) in simp_all)
  then have "unat (drop_bit w v) = digits w (\<lambda>j. e (Suc j)) (2 * k)"
    using take_bit_nat_eq_self [OF usize_bound [of v]] by (simp add: unsigned_drop_bit_eq)
  from unat_select [OF this assms(2)] show ?thesis using assms(3) by simp
qed

lemma sum_pairs: "(\<Sum>i < 2 * k. f i) = (\<Sum>j < k. f (2 * j) + f (2 * j + 1))" for f :: "nat \<Rightarrow> nat"
  by (induction k) simp_all

lemma digits_8: "digits w g 8 = g 0 + 2 ^ w * (g 1 + 2 ^ w * (g 2 + 2 ^ w * (g 3 + 2 ^ w * (g 4 + 2 ^ w * (g 5 +
    2 ^ w * (g 6 + 2 ^ w * g 7))))))"
proof -
  have "(8::nat) = Suc (Suc (Suc (Suc (Suc (Suc (Suc (Suc 0)))))))" by simp
  then have "digits w g 8 = digits w g (Suc (Suc (Suc (Suc (Suc (Suc (Suc (Suc 0))))))))" by (rule arg_cong)
  then show ?thesis by (simp only: digits.simps) (simp add: numeral_eq_Suc)
qed

lemma top_byte_sum:
  fixes v :: u64
  assumes "unat v = digits 8 g 8" "\<And>j. g j \<le> 8"
  shows "unat (drop_bit 56 (v * 0x0101010101010101)) = (\<Sum>j < 8. g j)"
proof -
  have g: "g 0 \<le> 8" "g 1 \<le> 8" "g 2 \<le> 8" "g 3 \<le> 8" "g 4 \<le> 8" "g 5 \<le> 8" "g 6 \<le> 8" "g 7 \<le> 8"
    using assms(2) by blast+
  define low where "low = g 0 + 256 * (g 0 + g 1) + 256 ^ 2 * (g 0 + g 1 + g 2) + 256 ^ 3 * (g 0 + g 1 + g 2 + g 3) +
    256 ^ 4 * (g 0 + g 1 + g 2 + g 3 + g 4) + 256 ^ 5 * (g 0 + g 1 + g 2 + g 3 + g 4 + g 5) +
    256 ^ 6 * (g 0 + g 1 + g 2 + g 3 + g 4 + g 5 + g 6)"
  define s where "s = (\<Sum>j < 8. g j)"
  have s: "s = g 0 + g 1 + g 2 + g 3 + g 4 + g 5 + g 6 + g 7"
    by (simp add: s_def lessThan_nat_numeral)
  define high where "high = (g 1 + g 2 + g 3 + g 4 + g 5 + g 6 + g 7) + 256 * (g 2 + g 3 + g 4 + g 5 + g 6 + g 7) +
    256 ^ 2 * (g 3 + g 4 + g 5 + g 6 + g 7) + 256 ^ 3 * (g 4 + g 5 + g 6 + g 7) + 256 ^ 4 * (g 5 + g 6 + g 7) +
    256 ^ 5 * (g 6 + g 7) + 256 ^ 6 * g 7"
  have v: "unat v = g 0 + 256 * g 1 + 256 ^ 2 * g 2 + 256 ^ 3 * g 3 + 256 ^ 4 * g 4 + 256 ^ 5 * g 5 +
      256 ^ 6 * g 6 + 256 ^ 7 * g 7"
    unfolding assms(1) digits_8 by simp
  have "unat v * 0x0101010101010101 = low + 2 ^ 56 * s + 2 ^ 64 * high"
    unfolding v s low_def high_def by simp
  moreover have "low < 2 ^ 56" using g unfolding low_def by simp
  moreover have "s < 256" using g unfolding s by linarith
  ultimately have "unat v * 0x0101010101010101 mod 2 ^ 64 div 2 ^ 56 = s"
    by simp
  then show ?thesis
    by (simp add: unsigned_drop_bit_eq unat_word_ariths drop_bit_eq_div s_def)
qed

lemma digits_numeral:
  "digits w e (numeral k) = e 0 + 2 ^ w * digits w (\<lambda>j. e (Suc j)) (pred_numeral k)"
  by (simp add: numeral_eq_Suc)

lemma mask_digits:
  "digits 2 (\<lambda>_. Suc 0) 32 = 0x5555555555555555"
  "digits 4 (\<lambda>_. 3) 16 = 0x3333333333333333"
  "digits 8 (\<lambda>_. 15) 8 = 0x0F0F0F0F0F0F0F0F"
  "digits 4 (\<lambda>_. 2) 16 = 0x2222222222222222"
  "digits 4 (\<lambda>_. 4) 16 = 0x4444444444444444"
  by (simp_all add: digits_numeral)

lemma digits_mono: "(\<And>j. h j \<le> c) \<Longrightarrow> digits w h k \<le> digits w (\<lambda>_. c) k"
  by (induction k arbitrary: h) (auto intro!: add_mono)

lemma bits_popcount_sum: "unat (bits_popcount v) = (\<Sum>i < 64. of_bool (bit v i))"
proof -
  define b :: "nat \<Rightarrow> nat" where "b i = of_bool (bit v i)" for i
  define e where "e j = b (2 * j) + b (2 * j + 1)" for j
  define f where "f j = e (2 * j) + e (2 * j + 1)" for j
  define g where "g j = f (2 * j) + f (2 * j + 1)" for j
  have le: "b i \<le> 1" "e i \<le> 2" "f i \<le> 4" "g i \<le> 8" for i
  proof -
    show b: "b i \<le> 1" for i by (simp add: b_def)
    show e: "e i \<le> 2" for i using b [of "2 * i"] b [of "2 * i + 1"] by (simp add: e_def)
    show f: "f i \<le> 4" for i using e [of "2 * i"] e [of "2 * i + 1"] by (simp add: f_def)
    show "g i \<le> 8" using f [of "2 * i"] f [of "2 * i + 1"] by (simp add: g_def)
  qed
  have lt: "b i < 2 ^ 1" "e i < 2 ^ 2" "f i < 2 ^ 4" for i
    using le(1) [of i] le(2) [of i] le(3) [of i] by simp_all
  have zero: "b i = 0" if "64 \<le> i" for i using that bit_imp_le_length [of v i] by (auto simp: b_def)
  then have zero_e: "e i = 0" if "32 \<le> i" for i using that by (simp add: e_def)
  then have zero_f: "f i = 0" if "16 \<le> i" for i using that by (simp add: f_def)
  have v0: "unat v = digits 1 b (2 * 32)"
    using digits_of_nat [where k = 64 and n = "unat v"] take_bit_nat_eq_self [OF usize_bound [of v]]
    by (simp add: b_def [abs_def] bit_unsigned_iff)
  define y where "y = drop_bit 1 v AND (0x5555555555555555 :: u64)"
  have y: "unat y = digits 2 (\<lambda>j. b (2 * j + 1)) 32"
    unfolding y_def using unat_select_shift [OF v0, where m = "0x5555555555555555"] lt(1) zero
    by (simp add: mask_digits)
  have v0': "unat v = digits 2 (\<lambda>j. b (2 * j)) 32 + 2 * unat y"
    using v0 digits_pairs [of 1 b 32] y by simp
  define v1 where "v1 = v - y"
  have "unat v1 = unat v - unat y"
    unfolding v1_def using v0' by (intro unat_sub) (simp add: word_le_nat_alt)
  then have v1: "unat v1 = digits 2 e (2 * 16)"
    using v0' y digits_add [of 2 "\<lambda>j. b (2 * j)" "\<lambda>j. b (2 * j + 1)" 32] by (simp add: e_def [abs_def])
  define v2 where "v2 = (v1 AND 0x3333333333333333) + (drop_bit 2 v1 AND 0x3333333333333333)"
  have s2: "unat (v1 AND 0x3333333333333333) = digits 4 (\<lambda>j. e (2 * j)) 16"
    using unat_select [OF v1, where m = "0x3333333333333333"] lt(2) by (simp add: mask_digits)
  have s2': "unat (drop_bit 2 v1 AND 0x3333333333333333) = digits 4 (\<lambda>j. e (2 * j + 1)) 16"
    using unat_select_shift [OF v1, where m = "0x3333333333333333"] lt(2) zero_e by (simp add: mask_digits)
  have small: "digits 4 h 16 \<le> 2 ^ 62" if "\<And>j. h j \<le> 2" for h
    using digits_mono [where h = h, OF that, of 4 16] by (simp add: mask_digits)
  have "unat v2 = digits 4 (\<lambda>j. e (2 * j)) 16 + digits 4 (\<lambda>j. e (2 * j + 1)) 16"
    unfolding v2_def s2 [symmetric] s2' [symmetric]
    by (rule unat_usize_add) (use small [of "\<lambda>j. e (2 * j)"] small [of "\<lambda>j. e (2 * j + 1)"] le(2) s2 s2' in simp)
  then have v2: "unat v2 = digits 4 f 16" by (simp add: f_def [abs_def] digits_add)
  have s3: "unat (drop_bit 4 v2) = digits 4 (\<lambda>j. f (Suc j)) 16"
    using digits_shift [of f 4 16] lt(3) [of 0] zero_f take_bit_nat_eq_self [OF usize_bound [of v2]] v2
    by (simp add: unsigned_drop_bit_eq)
  have small': "digits 4 h 16 \<le> 0x4444444444444444" if "\<And>j. h j \<le> 4" for h
    using digits_mono [where h = h, OF that, of 4 16] by (simp add: mask_digits)
  have "unat v2 + unat (drop_bit 4 v2) < 2 ^ 64"
    using small' [of f, OF le(3)] small' [of "\<lambda>j. f (Suc j)", OF le(3)] unfolding v2 s3 by simp
  then have "unat (v2 + drop_bit 4 v2) = digits 4 f 16 + digits 4 (\<lambda>j. f (Suc j)) 16"
    using v2 s3 by (simp only: unat_usize_add)
  then have "unat (v2 + drop_bit 4 v2) = digits 4 (\<lambda>j. f j + f (Suc j)) (2 * 8)" by (simp add: digits_add)
  moreover have "f j + f (Suc j) < 2 ^ 4" for j using le(3) [of j] le(3) [of "Suc j"] by simp
  ultimately have "unat ((v2 + drop_bit 4 v2) AND 0x0F0F0F0F0F0F0F0F) = digits 8 g 8"
    using unat_select [of "v2 + drop_bit 4 v2" 4 "\<lambda>j. f j + f (Suc j)" 8 "0x0F0F0F0F0F0F0F0F"]
    by (simp add: mask_digits g_def [abs_def])
  from top_byte_sum [OF this le(4)]
  have top: "unat (drop_bit 56 (((v2 + drop_bit 4 v2) AND 0x0F0F0F0F0F0F0F0F) * 0x0101010101010101)) =
      (\<Sum>j < 8. g j)" .
  moreover have "(\<Sum>j < 8. g j) \<le> 64" using sum_bounded_above [of "{..<8}" g 8] le(4) by simp
  moreover have "bits_popcount v =
      ucast (drop_bit 56 (((v2 + drop_bit 4 v2) AND 0x0F0F0F0F0F0F0F0F) * 0x0101010101010101))"
    by (simp only: bits_popcount_def Let_def y_def v1_def v2_def)
  ultimately have "unat (bits_popcount v) = (\<Sum>j < 8. g j)"
    by (simp add: unsigned_ucast_eq take_bit_nat_eq_self)
  also have "\<dots> = (\<Sum>i < 64. b i)"
    using sum_pairs [of f 8] sum_pairs [of e 16] sum_pairs [of b 32] by (simp add: g_def f_def e_def)
  finally show ?thesis by (simp add: b_def)
qed

lemma bits_popcount_card: "unat (bits_popcount v) = card {i. bit v i}"
proof -
  have "{i. bit v i} = {..<64} \<inter> {i. bit v i}" using bit_imp_le_length [of v] by auto
  then show ?thesis by (simp add: bits_popcount_sum sum.If_cases of_bool_def)
qed

text \<open>C39: the portable \<open>bits_popcount\<close> returns the number of the bits that are set, which is at most 64.\<close>

theorem bits_popcount_correct: "unat (bits_popcount v) = card {i. bit v i} \<and> bits_popcount v \<le> 64"
proof -
  have "unat (bits_popcount v) \<le> (\<Sum>i < (64 :: nat). 1)"
    unfolding bits_popcount_sum by (intro sum_mono) simp
  then show ?thesis by (simp add: bits_popcount_card word_le_nat_alt)
qed

end
