(* ===== verification/Canon_Bitset.thy ===== *)
theory Canon_Bitset
  imports Canon_Popcount Canon_Slice Canon_Semantics
begin

section \<open>Bit sets (data/bitset.h)\<close>

text \<open>
  A bit set of fixed capacity over an array of 64-bit words of the caller. The words are a list; a
  read or a write outside it is undefined behaviour. The debug lifetime token is compiled out, so
  opening and closing it do nothing and have no definition. The two operands of a binary operation
  are values: either the same bit set or ones whose arrays do not overlap.
\<close>

record bitset =
  bs_words :: "u64 list cptr"
  bs_capacity :: usize
  bs_word_count :: usize

definition bitset_word_total :: "usize \<Rightarrow> usize" where
  "bitset_word_total n = (n + 64 - 1) div 64"

definition bitset_npos :: usize where
  "bitset_npos = canon_usize_max"

definition bitset_word_of :: "usize \<Rightarrow> usize" where
  "bitset_word_of i = i div 64"

definition bitset_mask_of :: "usize \<Rightarrow> u64" where
  "bitset_mask_of i = push_bit (unat (i mod 64)) 1"

text \<open>\<open>bs->words[w]\<close>, read and written.\<close>

definition bs_get :: "bitset \<Rightarrow> usize \<Rightarrow> u64 run" where
  "bs_get bs w = bindR (deref (bs_words bs)) (\<lambda>ws. arr_get ws w)"

definition bs_put :: "bitset \<Rightarrow> usize \<Rightarrow> u64 \<Rightarrow> bitset run" where
  "bs_put bs w x = bindR (deref (bs_words bs)) (\<lambda>ws.
     bindR (arr_set ws w x) (\<lambda>ws'. ret (bs\<lparr>bs_words := Some ws'\<rparr>)))"

text \<open>\<open>mem_set(words, value, bytes)\<close> on an array of words, for a multiple of eight bytes.\<close>

definition words_set :: "u64 list \<Rightarrow> u8 \<Rightarrow> usize \<Rightarrow> u64 list run" where
  "words_set ws value bytes =
     (let n = unat bytes div 8 in
      if n \<le> length ws then ret (replicate n (ucast value * 0x0101010101010101) @ drop n ws)
      else undefined_behaviour ''write outside the array'')"

definition bitset_clear_padding :: "bitset cptr \<Rightarrow> bitset cptr run" where
  "bitset_clear_padding p =
     require_msg (p \<noteq> None) ''bitset_clear_padding: bs cannot be NULL'' (bindR (deref p) (\<lambda>bs.
     let r = bs_capacity bs mod 64 in
     if r \<noteq> 0
     then bindR (bs_get bs (bs_word_count bs - 1)) (\<lambda>x.
          bindR (bs_put bs (bs_word_count bs - 1) (x AND (push_bit (unat r) 1 - 1))) (\<lambda>bs'. ret (Some bs')))
     else ret p))"

definition bitset_init :: "bitset cptr \<Rightarrow> u64 list cptr \<Rightarrow> usize \<Rightarrow> bitset cptr run" where
  "bitset_init p words capacity =
     require_msg (p \<noteq> None) ''bitset_init: bs cannot be NULL''
     (require_msg (words \<noteq> None) ''bitset_init: words cannot be NULL''
     (require_msg (capacity > 0) ''bitset_init: capacity must be > 0''
     (require_msg (capacity \<le> canon_usize_max - 63)
        ''bitset_init: capacity too large (word count would overflow)''
     (bindR (deref words) (\<lambda>ws.
      bindR (words_set ws 0 (bitset_word_total capacity * 8)) (\<lambda>ws'.
        ret (Some \<lparr>bs_words = Some ws', bs_capacity = capacity,
                   bs_word_count = bitset_word_total capacity\<rparr>)))))))"

subsection \<open>Single bits\<close>

definition bitset_set :: "bitset cptr \<Rightarrow> usize \<Rightarrow> bitset cptr run" where
  "bitset_set p i = (case p of
     None \<Rightarrow> ret p
   | Some bs \<Rightarrow>
       if bs_words bs = None then ret p
       else require_msg (i < bs_capacity bs) ''bitset_set: index out of range''
         (bindR (bs_get bs (bitset_word_of i)) (\<lambda>x.
          bindR (bs_put bs (bitset_word_of i) (x OR bitset_mask_of i)) (\<lambda>bs'. ret (Some bs')))))"

definition bitset_clear :: "bitset cptr \<Rightarrow> usize \<Rightarrow> bitset cptr run" where
  "bitset_clear p i = (case p of
     None \<Rightarrow> ret p
   | Some bs \<Rightarrow>
       if bs_words bs = None then ret p
       else require_msg (i < bs_capacity bs) ''bitset_clear: index out of range''
         (bindR (bs_get bs (bitset_word_of i)) (\<lambda>x.
          bindR (bs_put bs (bitset_word_of i) (x AND NOT (bitset_mask_of i))) (\<lambda>bs'. ret (Some bs')))))"

definition bitset_toggle :: "bitset cptr \<Rightarrow> usize \<Rightarrow> bitset cptr run" where
  "bitset_toggle p i = (case p of
     None \<Rightarrow> ret p
   | Some bs \<Rightarrow>
       if bs_words bs = None then ret p
       else require_msg (i < bs_capacity bs) ''bitset_toggle: index out of range''
         (bindR (bs_get bs (bitset_word_of i)) (\<lambda>x.
          bindR (bs_put bs (bitset_word_of i) (x XOR bitset_mask_of i)) (\<lambda>bs'. ret (Some bs')))))"

definition bitset_test :: "bitset cptr \<Rightarrow> usize \<Rightarrow> bool run" where
  "bitset_test p i = (case p of
     None \<Rightarrow> ret False
   | Some bs \<Rightarrow>
       if bs_words bs = None then ret False
       else require_msg (i < bs_capacity bs) ''bitset_test: index out of range''
         (bindR (bs_get bs (bitset_word_of i)) (\<lambda>x. ret (x AND bitset_mask_of i \<noteq> 0))))"

definition bitset_assign :: "bitset cptr \<Rightarrow> usize \<Rightarrow> bool \<Rightarrow> bitset cptr run" where
  "bitset_assign p i v = (case p of
     None \<Rightarrow> ret p
   | Some bs \<Rightarrow>
       if bs_words bs = None then ret p
       else if v then bitset_set p i else bitset_clear p i)"

subsection \<open>All bits\<close>

definition bitset_clear_all :: "bitset cptr \<Rightarrow> bitset cptr run" where
  "bitset_clear_all p = (case p of
     None \<Rightarrow> ret p
   | Some bs \<Rightarrow> (case bs_words bs of
       None \<Rightarrow> ret p
     | Some ws \<Rightarrow> bindR (words_set ws 0 (bs_word_count bs * 8)) (\<lambda>ws'. ret (Some (bs\<lparr>bs_words := Some ws'\<rparr>)))))"

definition bitset_set_all :: "bitset cptr \<Rightarrow> bitset cptr run" where
  "bitset_set_all p = (case p of
     None \<Rightarrow> ret p
   | Some bs \<Rightarrow> (case bs_words bs of
       None \<Rightarrow> ret p
     | Some ws \<Rightarrow> bindR (words_set ws 0xFF (bs_word_count bs * 8)) (\<lambda>ws'.
         bitset_clear_padding (Some (bs\<lparr>bs_words := Some ws'\<rparr>)))))"

text \<open>
  The loops that assign to each word in turn: \<open>k\<close> words are left, \<open>w\<close> is the index, and \<open>f w x\<close> is
  the new value of \<open>words[w] = x\<close>.
\<close>

fun bs_for :: "(usize \<Rightarrow> u64 \<Rightarrow> u64 run) \<Rightarrow> usize \<Rightarrow> nat \<Rightarrow> bitset \<Rightarrow> bitset run" where
  "bs_for f w 0 bs = ret bs"
| "bs_for f w (Suc k) bs =
     bindR (bs_get bs w) (\<lambda>x. bindR (f w x) (\<lambda>y. bindR (bs_put bs w y) (\<lambda>bs'. bs_for f (w + 1) k bs')))"

definition bitset_not :: "bitset cptr \<Rightarrow> bitset cptr run" where
  "bitset_not p = (case p of
     None \<Rightarrow> ret p
   | Some bs \<Rightarrow>
       if bs_words bs = None then ret p
       else bindR (bs_for (\<lambda>w x. ret (NOT x)) 0 (unat (bs_word_count bs)) bs) (\<lambda>bs'.
            bitset_clear_padding (Some bs')))"

definition bs_common :: "bitset \<Rightarrow> bitset \<Rightarrow> usize" where
  "bs_common bs other =
     (if bs_word_count bs < bs_word_count other then bs_word_count bs else bs_word_count other)"

definition bitset_and :: "bitset cptr \<Rightarrow> bitset cptr \<Rightarrow> bitset cptr run" where
  "bitset_and p q = (case (p, q) of
     (Some bs, Some other) \<Rightarrow>
       let n = bs_common bs other in
       bindR (bs_for (\<lambda>w x. bindR (bs_get other w) (\<lambda>y. ret (x AND y))) 0 (unat n) bs) (\<lambda>bs'.
       bindR (bs_for (\<lambda>w x. ret 0) n (unat (bs_word_count bs - n)) bs') (\<lambda>bs''. ret (Some bs'')))
   | (p', q') \<Rightarrow> ret p)"

definition bitset_or :: "bitset cptr \<Rightarrow> bitset cptr \<Rightarrow> bitset cptr run" where
  "bitset_or p q = (case (p, q) of
     (Some bs, Some other) \<Rightarrow>
       bindR (bs_for (\<lambda>w x. bindR (bs_get other w) (\<lambda>y. ret (x OR y))) 0 (unat (bs_common bs other)) bs)
         (\<lambda>bs'. ret (Some bs'))
   | (p', q') \<Rightarrow> ret p)"

definition bitset_xor :: "bitset cptr \<Rightarrow> bitset cptr \<Rightarrow> bitset cptr run" where
  "bitset_xor p q = (case (p, q) of
     (Some bs, Some other) \<Rightarrow>
       bindR (bs_for (\<lambda>w x. bindR (bs_get other w) (\<lambda>y. ret (x XOR y))) 0 (unat (bs_common bs other)) bs)
         (\<lambda>bs'. bitset_clear_padding (Some bs'))
   | (p', q') \<Rightarrow> ret p)"

subsection \<open>Queries\<close>

fun bs_count_loop :: "bitset \<Rightarrow> usize \<Rightarrow> nat \<Rightarrow> usize \<Rightarrow> usize run" where
  "bs_count_loop bs w 0 acc = ret acc"
| "bs_count_loop bs w (Suc k) acc =
     bindR (bs_get bs w) (\<lambda>x. bs_count_loop bs (w + 1) k (acc + ucast (bits_popcount x)))"

definition bitset_count :: "bitset cptr \<Rightarrow> usize run" where
  "bitset_count p = (case p of
     None \<Rightarrow> ret 0
   | Some bs \<Rightarrow> if bs_words bs = None then ret 0 else bs_count_loop bs 0 (unat (bs_word_count bs)) 0)"

fun bs_all_loop :: "(usize \<Rightarrow> u64 \<Rightarrow> bool run) \<Rightarrow> bitset \<Rightarrow> usize \<Rightarrow> nat \<Rightarrow> bool run" where
  "bs_all_loop t bs w 0 = ret True"
| "bs_all_loop t bs w (Suc k) =
     bindR (bs_get bs w) (\<lambda>x. bindR (t w x) (\<lambda>b. if \<not> b then ret False else bs_all_loop t bs (w + 1) k))"

definition bitset_is_empty :: "bitset cptr \<Rightarrow> bool run" where
  "bitset_is_empty p = (case p of
     None \<Rightarrow> ret True
   | Some bs \<Rightarrow> if bs_words bs = None then ret True
       else bs_all_loop (\<lambda>w x. ret (x = 0)) bs 0 (unat (bs_word_count bs)))"

definition bitset_is_full :: "bitset cptr \<Rightarrow> bool run" where
  "bitset_is_full p = (case p of
     None \<Rightarrow> ret False
   | Some bs \<Rightarrow> if bs_words bs = None then ret False
       else bindR (bitset_count p) (\<lambda>n. ret (n = bs_capacity bs)))"

definition bitset_is_disjoint :: "bitset cptr \<Rightarrow> bitset cptr \<Rightarrow> bool run" where
  "bitset_is_disjoint p q = (case (p, q) of
     (Some bs, Some other) \<Rightarrow>
       bs_all_loop (\<lambda>w x. bindR (bs_get other w) (\<lambda>y. ret (x AND y = 0))) bs 0 (unat (bs_common bs other))
   | (p', q') \<Rightarrow> ret True)"

definition bitset_capacity :: "bitset cptr \<Rightarrow> usize" where
  "bitset_capacity p = (case p of None \<Rightarrow> 0 | Some bs \<Rightarrow> bs_capacity bs)"

subsection \<open>Searching\<close>

text \<open>The scan for the first nonzero word from \<open>w\<close> on, with \<open>k\<close> words left.\<close>

definition bs_limit :: "bitset \<Rightarrow> usize \<Rightarrow> usize" where
  "bs_limit bs found = (if found < bs_capacity bs then found else bitset_npos)"

fun bs_scan_up :: "bitset \<Rightarrow> usize \<Rightarrow> nat \<Rightarrow> usize run" where
  "bs_scan_up bs w 0 = ret bitset_npos"
| "bs_scan_up bs w (Suc k) =
     bindR (bs_get bs w) (\<lambda>x.
       if x \<noteq> 0 then ret (bs_limit bs (w * 64 + ucast (bits_ctz x)))
       else bs_scan_up bs (w + 1) k)"

definition bitset_find_first :: "bitset cptr \<Rightarrow> usize run" where
  "bitset_find_first p = (case p of
     None \<Rightarrow> ret bitset_npos
   | Some bs \<Rightarrow> if bs_words bs = None then ret bitset_npos
       else bs_scan_up bs 0 (unat (bs_word_count bs)))"

definition bitset_find_next :: "bitset cptr \<Rightarrow> usize \<Rightarrow> usize run" where
  "bitset_find_next p prev = (case p of
     None \<Rightarrow> ret bitset_npos
   | Some bs \<Rightarrow>
       if bs_words bs = None \<or> prev \<ge> bs_capacity bs then ret bitset_npos
       else let start = prev + 1 in
         if start \<ge> bs_capacity bs then ret bitset_npos
         else let w = bitset_word_of start; b = start mod 64 in
           bindR (bs_get bs w) (\<lambda>x.
             if drop_bit (unat b) x \<noteq> 0
             then ret (bs_limit bs (w * 64 + b + ucast (bits_ctz (drop_bit (unat b) x))))
             else bs_scan_up bs (w + 1) (unat (bs_word_count bs) - unat (w + 1))))"

text \<open>\<open>while (w-- > 0)\<close>: \<open>k\<close> is the number of words not yet visited, so the next index is \<open>k - 1\<close>.\<close>

fun bs_scan_down :: "bitset \<Rightarrow> nat \<Rightarrow> usize run" where
  "bs_scan_down bs 0 = ret bitset_npos"
| "bs_scan_down bs (Suc k) =
     (let w = of_nat k in
      bindR (bs_get bs w) (\<lambda>x.
        if x \<noteq> 0 then ret (bs_limit bs (w * 64 + (64 - 1 - ucast (bits_clz x))))
        else bs_scan_down bs k))"

definition bitset_find_last :: "bitset cptr \<Rightarrow> usize run" where
  "bitset_find_last p = (case p of
     None \<Rightarrow> ret bitset_npos
   | Some bs \<Rightarrow> if bs_words bs = None then ret bitset_npos
       else bs_scan_down bs (unat (bs_word_count bs)))"

definition bitset_find_first_option :: "bitset cptr \<Rightarrow> usize option run" where
  "bitset_find_first_option p = bindR (bitset_find_first p) (\<lambda>raw.
     if raw = bitset_npos then ret option_none else ret (option_some raw))"

definition bitset_find_next_option :: "bitset cptr \<Rightarrow> usize \<Rightarrow> usize option run" where
  "bitset_find_next_option p prev = bindR (bitset_find_next p prev) (\<lambda>raw.
     if raw = bitset_npos then ret option_none else ret (option_some raw))"

definition bitset_find_last_option :: "bitset cptr \<Rightarrow> usize option run" where
  "bitset_find_last_option p = bindR (bitset_find_last p) (\<lambda>raw.
     if raw = bitset_npos then ret option_none else ret (option_some raw))"

text \<open>
  \<open>BITSET_FOR_EACH\<close> with a body that collects the indices: \<open>fuel\<close> bounds the rounds, and running
  out of it is a fault.
\<close>

fun bs_each_loop :: "nat \<Rightarrow> bitset cptr \<Rightarrow> usize \<Rightarrow> usize list run" where
  "bs_each_loop 0 p i = undefined_behaviour ''the loop does not end''"
| "bs_each_loop (Suc fuel) p i =
     (if i = bitset_npos then ret []
      else bindR (bitset_find_next p i) (\<lambda>j. bindR (bs_each_loop fuel p j) (\<lambda>rest. ret (i # rest))))"

definition bitset_for_each :: "nat \<Rightarrow> bitset cptr \<Rightarrow> usize list run" where
  "bitset_for_each fuel p = bindR (bitset_find_first p) (\<lambda>i. bs_each_loop fuel p i)"

text \<open>The views of the words as bytes; \<open>addr\<close> is the address of the array.\<close>

definition bitset_as_bytes :: "uptr \<Rightarrow> bitset cptr \<Rightarrow> bytes run" where
  "bitset_as_bytes addr p = (case p of
     None \<Rightarrow> ret bytes_empty
   | Some bs \<Rightarrow> if bs_words bs = None then ret bytes_empty else bytes_from addr (bs_word_count bs * 8))"

definition bitset_as_cbytes :: "uptr \<Rightarrow> bitset cptr \<Rightarrow> cbytes run" where
  "bitset_as_cbytes addr p = (case p of
     None \<Rightarrow> ret cbytes_empty
   | Some bs \<Rightarrow> if bs_words bs = None then ret cbytes_empty else cbytes_from addr (bs_word_count bs * 8))"


subsection \<open>The set a bit set stands for\<close>

text \<open>
  \<open>bs_rep p c A\<close>: \<open>p\<close> points to a bit set of capacity \<open>c\<close> with the members \<open>A\<close>. The last line also says
  that the padding, the bits from \<open>c\<close> to the end of the last word, is clear, for \<open>A\<close> lies below \<open>c\<close>.
\<close>

definition word_bit :: "u64 list \<Rightarrow> nat \<Rightarrow> bool" where
  "word_bit ws i = bit (ws ! (i div 64)) (i mod 64)"

definition bs_rep :: "bitset cptr \<Rightarrow> nat \<Rightarrow> nat set \<Rightarrow> bool" where
  "bs_rep p c A \<longleftrightarrow> (case p of None \<Rightarrow> False | Some bs \<Rightarrow> (case bs_words bs of None \<Rightarrow> False | Some ws \<Rightarrow>
     unat (bs_capacity bs) = c \<and> 0 < c \<and> c \<le> 2 ^ 64 - 64 \<and>
     unat (bs_word_count bs) = (c + 63) div 64 \<and> (c + 63) div 64 \<le> length ws \<and> A \<subseteq> {..<c} \<and>
     (\<forall>i < 64 * ((c + 63) div 64). word_bit ws i \<longleftrightarrow> i \<in> A)))"

lemma bs_repE:
  assumes "bs_rep p c A"
  obtains bs ws where "p = Some bs" "bs_words bs = Some ws" "unat (bs_capacity bs) = c" "0 < c"
    "c \<le> 2 ^ 64 - 64" "unat (bs_word_count bs) = (c + 63) div 64" "(c + 63) div 64 \<le> length ws" "A \<subseteq> {..<c}"
    "\<And>i. i < 64 * ((c + 63) div 64) \<Longrightarrow> word_bit ws i \<longleftrightarrow> i \<in> A" "(c + 63) div 64 \<le> 2 ^ 58"
proof -
  obtain bs ws where "p = Some bs" "bs_words bs = Some ws" using assms
    by (auto simp: bs_rep_def split: option.splits)
  then show ?thesis using assms that [of bs ws] by (auto simp: bs_rep_def)
qed

lemma bs_rep_words:
  "bs_rep (Some bs) c A \<Longrightarrow> (c + 63) div 64 \<le> length ws \<Longrightarrow> B \<subseteq> {..<c} \<Longrightarrow>
   (\<And>i. i < 64 * ((c + 63) div 64) \<Longrightarrow> word_bit ws i \<longleftrightarrow> i \<in> B) \<Longrightarrow>
   bs_rep (Some (bs\<lparr>bs_words := Some ws\<rparr>)) c B"
  by (elim bs_repE) (simp add: bs_rep_def)

lemma div64_less: "i < c \<Longrightarrow> i div 64 < (c + 63) div 64" for i :: nat
  by (simp add: less_Suc_eq_le div_le_mono flip: Suc_le_eq)

lemma words_of_capacity:
  fixes c :: nat
  shows "c mod 64 = 0 \<Longrightarrow> 64 * ((c + 63) div 64) = c"
    "c mod 64 \<noteq> 0 \<Longrightarrow> (c + 63) div 64 = Suc (c div 64)"
proof -
  define q r where "q = c div 64" and "r = c mod 64"
  have c: "c = 64 * q + r" "r < 64" by (simp_all add: q_def r_def)
  show "64 * ((c + 63) div 64) = c" if "c mod 64 = 0"
  proof -
    have "r = 0" using that by (simp only: r_def)
    then have c: "c = 64 * q" using c by simp
    have "(c + 63) div 64 = q" unfolding c by (rule div_nat_eqI) simp_all
    then show ?thesis by (simp add: c)
  qed
  show "(c + 63) div 64 = Suc (c div 64)" if "c mod 64 \<noteq> 0"
  proof -
    have "0 < r" using that by (simp add: r_def)
    with c have "64 * Suc q \<le> c + 63" "c + 63 < 64 * Suc (Suc q)" by simp_all
    then show ?thesis unfolding q_def [symmetric] by (intro div_nat_eqI) (simp_all add: mult.commute)
  qed
qed

lemma below_words: "i < c \<Longrightarrow> i < 64 * ((c + 63) div 64)" for i c :: nat
proof -
  have "c + 63 = 64 * ((c + 63) div 64) + (c + 63) mod 64" "(c + 63) mod 64 < 64" by simp_all
  then show "i < c \<Longrightarrow> ?thesis" by linarith
qed

lemma mask_bit: "bit (bitset_mask_of i) j \<longleftrightarrow> j = unat i mod 64"
proof -
  have "unat (i mod 64) = unat i mod 64" by (simp add: unat_mod_word)
  then show ?thesis by (auto simp: bitset_mask_of_def bit_exp_iff)
qed

lemma word_bit_update:
  "w < length ws \<Longrightarrow> word_bit (ws[w := x]) i \<longleftrightarrow> (if i div 64 = w then bit x (i mod 64) else word_bit ws i)"
  by (simp add: word_bit_def nth_list_update)

lemma unat_word_of: "unat (bitset_word_of i) = unat i div 64"
  by (simp add: bitset_word_of_def unat_div_word)

lemma div_mod_64_eq: "i div 64 = j div 64 \<and> i mod 64 = j mod 64 \<longleftrightarrow> i = j" for i j :: nat
  by (metis div_mult_mod_eq)

lemma bs_get_ret: "bs_words bs = Some ws \<Longrightarrow> unat w < length ws \<Longrightarrow> bs_get bs w = ret (ws ! unat w)"
  by (simp add: bs_get_def)

lemma bs_put_ret:
  "bs_words bs = Some ws \<Longrightarrow> unat w < length ws \<Longrightarrow> bs_put bs w x = ret (bs\<lparr>bs_words := Some (ws[unat w := x])\<rparr>)"
  by (simp add: bs_put_def)

text \<open>One word of the representation is rewritten at the bit of the index \<open>i\<close>.\<close>

lemma bs_rep_bit:
  assumes "bs_rep p c A" "unat i < c"
    and "\<And>x j. j < 64 \<Longrightarrow> bit (f x) j \<longleftrightarrow> (if j = unat i mod 64 then new (bit x j) else bit x j)"
  shows "\<exists>bs x. p = Some bs \<and> bs_words bs \<noteq> None \<and> i < bs_capacity bs \<and> bs_get bs (bitset_word_of i) = ret x \<and>
    (bit x (unat i mod 64) \<longleftrightarrow> unat i \<in> A) \<and>
    (\<exists>bs'. bs_put bs (bitset_word_of i) (f x) = ret bs' \<and>
      bs_rep (Some bs') c (if new (unat i \<in> A) then insert (unat i) A else A - {unat i}))"
proof -
  from assms(1) obtain bs ws where b: "p = Some bs" "bs_words bs = Some ws" "unat (bs_capacity bs) = c" "0 < c"
    "c \<le> 2 ^ 64 - 64" "unat (bs_word_count bs) = (c + 63) div 64" "(c + 63) div 64 \<le> length ws" "A \<subseteq> {..<c}"
    "\<And>i. i < 64 * ((c + 63) div 64) \<Longrightarrow> word_bit ws i \<longleftrightarrow> i \<in> A" by (elim bs_repE) blast
  let ?w = "unat i div 64"
  have w: "?w < (c + 63) div 64" using assms(2) by (rule div64_less)
  then have wl: "?w < length ws" using b(7) by simp
  have "unat i < 64 * ((c + 63) div 64)" using w by linarith
  then have old: "bit (ws ! ?w) (unat i mod 64) \<longleftrightarrow> unat i \<in> A" using b(9) by (simp add: word_bit_def)
  have "word_bit (ws[?w := f (ws ! ?w)]) j \<longleftrightarrow>
      j \<in> (if new (unat i \<in> A) then insert (unat i) A else A - {unat i})" if "j < 64 * ((c + 63) div 64)" for j
  proof (cases "j = unat i")
    case True
    then show ?thesis using assms(3) [of "unat i mod 64"] old wl by (simp add: word_bit_update)
  next
    case False
    then have "word_bit (ws[?w := f (ws ! ?w)]) j \<longleftrightarrow> word_bit ws j"
      using assms(3) [of "j mod 64"] wl div_mod_64_eq [of j "unat i"]
      by (auto simp: word_bit_def nth_list_update)
    then show ?thesis using False b(9) [OF that] by simp
  qed
  then have "bs_rep (Some (bs\<lparr>bs_words := Some (ws[?w := f (ws ! ?w)])\<rparr>)) c
      (if new (unat i \<in> A) then insert (unat i) A else A - {unat i})"
    using assms b(7,8) unfolding b(1) by (intro bs_rep_words [of bs c A]) auto
  then show ?thesis
    using b wl old assms(2) by (auto simp: bs_get_ret bs_put_ret unat_word_of word_less_nat_alt)
qed

lemma bitset_bit_ops:
  assumes "bs_rep p c A" "unat i < c"
  shows "\<exists>q. bitset_set p i = ret q \<and> bs_rep q c (insert (unat i) A)"
    "\<exists>q. bitset_clear p i = ret q \<and> bs_rep q c (A - {unat i})"
    "\<exists>q. bitset_toggle p i = ret q \<and> bs_rep q c (if unat i \<in> A then A - {unat i} else insert (unat i) A)"
    "bitset_test p i = ret (unat i \<in> A)"
    "\<exists>q. bitset_assign p i v = ret q \<and> bs_rep q c (if v then insert (unat i) A else A - {unat i})"
proof -
  have set: "bit (x OR bitset_mask_of i) j \<longleftrightarrow> (if j = unat i mod 64 then True else bit x j)" for x j
    by (auto simp: bit_or_iff mask_bit)
  have clr: "bit (x AND NOT (bitset_mask_of i)) j \<longleftrightarrow> (if j = unat i mod 64 then False else bit x j)" if "j < 64" for x j
    using that by (auto simp: bit_and_iff bit_not_iff mask_bit)
  have tgl: "bit (x XOR bitset_mask_of i) j \<longleftrightarrow> (if j = unat i mod 64 then \<not> bit x j else bit x j)" for x j
    by (auto simp: bit_xor_iff mask_bit)
  show s: "\<exists>q. bitset_set p i = ret q \<and> bs_rep q c (insert (unat i) A)"
    using bs_rep_bit [OF assms, of "\<lambda>x. x OR bitset_mask_of i" "\<lambda>_. True"] set by (auto simp: bitset_set_def)
  show cl: "\<exists>q. bitset_clear p i = ret q \<and> bs_rep q c (A - {unat i})"
    using bs_rep_bit [OF assms, of "\<lambda>x. x AND NOT (bitset_mask_of i)" "\<lambda>_. False"] clr
    by (auto simp: bitset_clear_def)
  show "\<exists>q. bitset_toggle p i = ret q \<and> bs_rep q c (if unat i \<in> A then A - {unat i} else insert (unat i) A)"
    using bs_rep_bit [OF assms, of "\<lambda>x. x XOR bitset_mask_of i" Not] tgl
    by (auto simp: bitset_toggle_def split: if_splits)
  have "x AND bitset_mask_of i \<noteq> 0 \<longleftrightarrow> bit x (unat i mod 64)" for x
    by (auto simp: bit_eq_iff [of "x AND bitset_mask_of i"] bit_and_iff mask_bit)
  moreover obtain bs x where "p = Some bs" "bs_words bs \<noteq> None" "i < bs_capacity bs"
    "bs_get bs (bitset_word_of i) = ret x" "bit x (unat i mod 64) \<longleftrightarrow> unat i \<in> A"
    using bs_rep_bit [OF assms, of "\<lambda>x. x" "\<lambda>b. b"] by auto
  ultimately show "bitset_test p i = ret (unat i \<in> A)" by (auto simp: bitset_test_def)
  from s cl assms(1) show "\<exists>q. bitset_assign p i v = ret q \<and> bs_rep q c (if v then insert (unat i) A else A - {unat i})"
    by (elim bs_repE) (auto simp: bitset_assign_def)
qed


subsection \<open>Operations on all words\<close>

lemma bs_words_same: "bs_words bs = Some ws \<Longrightarrow> bs\<lparr>bs_words := Some ws\<rparr> = bs"
  by (cases bs) simp

lemma bs_for_ret:
  assumes "bs_words bs = Some ws" "unat w + k \<le> length ws" "unat w + k < 2 ^ 64"
    and "\<And>i x. unat i < unat w + k \<Longrightarrow> f i x = ret (g (unat i) x)"
  shows "\<exists>ws'. bs_for f w k bs = ret (bs\<lparr>bs_words := Some ws'\<rparr>) \<and> length ws' = length ws \<and>
    (\<forall>i < length ws. ws' ! i = (if unat w \<le> i \<and> i < unat w + k then g i (ws ! i) else ws ! i))"
  using assms
proof (induction k arbitrary: w ws bs)
  case 0
  then show ?case by (intro exI [of _ ws]) (auto simp: bs_words_same)
next
  case (Suc k)
  have w: "unat (w + 1) = Suc (unat w)" using Suc.prems(3) by (intro unat_usize_Suc) simp
  let ?ws = "ws[unat w := g (unat w) (ws ! unat w)]"
  have "bs_for f w (Suc k) bs = bs_for f (w + 1) k (bs\<lparr>bs_words := Some ?ws\<rparr>)"
    using Suc.prems by (simp add: bs_get_ret bs_put_ret)
  moreover obtain ws' where "bs_for f (w + 1) k (bs\<lparr>bs_words := Some ?ws\<rparr>) =
      ret (bs\<lparr>bs_words := Some ?ws\<rparr>\<lparr>bs_words := Some ws'\<rparr>)" "length ws' = length ?ws"
    "\<forall>i < length ?ws. ws' ! i = (if unat (w + 1) \<le> i \<and> i < unat (w + 1) + k then g i (?ws ! i) else ?ws ! i)"
    using Suc.IH [of "bs\<lparr>bs_words := Some ?ws\<rparr>" ?ws "w + 1"] Suc.prems w by auto
  moreover have "ws' ! i = (if unat w \<le> i \<and> i < unat w + Suc k then g i (ws ! i) else ws ! i)" if "i < length ws" for i
    using that calculation w by (cases "i = unat w") auto
  ultimately show ?case by (intro exI [of _ ws']) simp
qed

lemma bs_capacity_for: "bs_for f w k bs = ret bs' \<Longrightarrow> bs_capacity bs' = bs_capacity bs \<and> bs_word_count bs' = bs_word_count bs"
  by (induction k arbitrary: w bs) (auto simp: bindR_eq_Inr bs_put_def)

text \<open>Clearing the padding leaves the bits below the capacity, whatever the padding held.\<close>

lemma clear_padding_rep:
  assumes "bs_words bs = Some ws" "unat (bs_capacity bs) = c" "0 < c" "c \<le> 2 ^ 64 - 64"
    "unat (bs_word_count bs) = (c + 63) div 64" "(c + 63) div 64 \<le> length ws" "A \<subseteq> {..<c}"
    "\<And>i. i < c \<Longrightarrow> word_bit ws i \<longleftrightarrow> i \<in> A"
  shows "\<exists>q. bitset_clear_padding (Some bs) = ret q \<and> bs_rep q c A"
proof (cases "c mod 64 = 0")
  case True
  then have "bs_capacity bs mod 64 = 0" using assms(2) by (simp add: word_unat_eq_iff unat_mod_word)
  then have "bitset_clear_padding (Some bs) = ret (Some bs)" by (simp add: bitset_clear_padding_def)
  moreover have n: "64 * ((c + 63) div 64) = c" using words_of_capacity(1) [OF True] .
  have "\<forall>i < 64 * ((c + 63) div 64). word_bit ws i \<longleftrightarrow> i \<in> A" unfolding n using assms(8) by blast
  then have "bs_rep (Some bs) c A" using assms(1-7) by (simp add: bs_rep_def)
  ultimately show ?thesis by blast
next
  case False
  let ?r = "c mod 64" and ?n = "(c + 63) div 64"
  have r: "unat (bs_capacity bs mod 64) = ?r" using assms(2) by (simp add: unat_mod_word)
  then have r0: "bs_capacity bs mod 64 \<noteq> 0" using False by (auto simp: word_unat_eq_iff)
  have n: "?n = Suc (c div 64)" using words_of_capacity(2) [OF False] .
  have last: "unat (bs_word_count bs - 1) = c div 64"
    using assms(5) n unat_usize_pred [of "bs_word_count bs"] by (auto simp: word_unat_eq_iff)
  let ?ws = "ws[c div 64 := ws ! (c div 64) AND mask ?r]"
  have "bitset_clear_padding (Some bs) = ret (Some (bs\<lparr>bs_words := Some ?ws\<rparr>))"
    using assms(1,6) last r r0 n by (simp add: bitset_clear_padding_def bs_get_ret bs_put_ret mask_eq_exp_minus_1)
  moreover have "word_bit ?ws i \<longleftrightarrow> i \<in> A" if "i < 64 * ?n" for i
  proof (cases "i < c")
    case True
    have "i = 64 * (i div 64) + i mod 64" "c = 64 * (c div 64) + ?r" by simp_all
    with True have "i mod 64 < ?r" if "i div 64 = c div 64" using that by linarith
    then have "word_bit ?ws i \<longleftrightarrow> word_bit ws i" using assms(6) n
      by (auto simp: word_bit_def nth_list_update bit_and_iff bit_mask_iff)
    then show ?thesis using assms(8) True by simp
  next
    case False
    then have "c div 64 \<le> i div 64" by (simp add: div_le_mono)
    moreover have "i div 64 < Suc (c div 64)" using that n by (simp add: less_mult_imp_div_less mult.commute)
    ultimately have blk: "i div 64 = c div 64" by simp
    moreover have "i = 64 * (i div 64) + i mod 64" "c = 64 * (c div 64) + ?r" by simp_all
    ultimately have "?r \<le> i mod 64" using False by linarith
    with blk show ?thesis using False assms(6,7) n
      by (auto simp: word_bit_def nth_list_update bit_and_iff bit_mask_iff)
  qed
  ultimately show ?thesis using assms by (simp add: bs_rep_def)
qed

lemma clear_padding_words:
  "bs_rep (Some bs) c A \<Longrightarrow> (c + 63) div 64 \<le> length ws \<Longrightarrow> B \<subseteq> {..<c} \<Longrightarrow>
   (\<And>i. i < c \<Longrightarrow> word_bit ws i \<longleftrightarrow> i \<in> B) \<Longrightarrow>
   \<exists>q. bitset_clear_padding (Some (bs\<lparr>bs_words := Some ws\<rparr>)) = ret q \<and> bs_rep q c B"
  by (elim bs_repE) (rule clear_padding_rep, simp_all)

lemma words_set_ret:
  assumes "unat n * 8 < 2 ^ 64" "unat n \<le> length ws"
  shows "words_set ws v (n * 8) = ret (replicate (unat n) (ucast v * 0x0101010101010101) @ drop (unat n) ws)"
proof -
  have "unat (n * 8) = unat n * 8" using assms(1) by (simp add: unat_word_ariths)
  then show ?thesis using assms(2) by (simp add: words_set_def Let_def)
qed

lemma word_bit_replicate: "i < 64 * n \<Longrightarrow> word_bit (replicate n x @ ws) i \<longleftrightarrow> bit x (i mod 64)"
  by (simp add: word_bit_def nth_append less_mult_imp_div_less mult.commute)

lemma bitset_all_ops:
  assumes "bs_rep p c A"
  shows "\<exists>q. bitset_clear_all p = ret q \<and> bs_rep q c {}"
    "\<exists>q. bitset_set_all p = ret q \<and> bs_rep q c {..<c}"
    "\<exists>q. bitset_not p = ret q \<and> bs_rep q c ({..<c} - A)"
proof -
  from assms obtain bs ws where b: "p = Some bs" "bs_words bs = Some ws" "unat (bs_capacity bs) = c" "0 < c"
    "c \<le> 2 ^ 64 - 64" "unat (bs_word_count bs) = (c + 63) div 64" "(c + 63) div 64 \<le> length ws" "A \<subseteq> {..<c}"
    and bits: "\<And>i. i < 64 * ((c + 63) div 64) \<Longrightarrow> word_bit ws i \<longleftrightarrow> i \<in> A" and small: "(c + 63) div 64 \<le> 2 ^ 58"
    by (elim bs_repE) blast
  let ?n = "(c + 63) div 64"
  have setw: "words_set ws v (bs_word_count bs * 8) = ret (replicate ?n (ucast v * 0x0101010101010101) @ drop ?n ws)" for v
    using words_set_ret [of "bs_word_count bs" ws v] b(6,7) small by simp
  have below: "i < c \<Longrightarrow> i < 64 * ?n" for i using below_words by auto
  show "\<exists>q. bitset_clear_all p = ret q \<and> bs_rep q c {}"
    using assms bs_rep_words [of bs c A] b setw [of 0]
    by (simp add: bitset_clear_all_def word_bit_replicate)
  have ones: "(ucast (0xFF :: u8) * 0x0101010101010101 :: u64) = mask 64" by (simp add: mask_eq_exp_minus_1)
  have "word_bit (replicate ?n (mask 64) @ drop ?n ws) i" if "i < c" for i
    using word_bit_replicate [OF below [OF that]] by (simp add: bit_mask_iff)
  then obtain q where "bitset_clear_padding (Some (bs\<lparr>bs_words := Some (replicate ?n (mask 64) @ drop ?n ws)\<rparr>)) = ret q"
    "bs_rep q c {..<c}"
    using clear_padding_words [OF assms [unfolded b(1)], of "replicate ?n (mask 64) @ drop ?n ws" "{..<c}"] by auto
  then show "\<exists>q. bitset_set_all p = ret q \<and> bs_rep q c {..<c}"
    using b(1,2) setw [of 255] unfolding ones by (simp only: bitset_set_all_def option.case bindR_simps) blast
  obtain ws' where ws': "bs_for (\<lambda>w x. ret (NOT x)) 0 (unat (bs_word_count bs)) bs = ret (bs\<lparr>bs_words := Some ws'\<rparr>)"
    "length ws' = length ws" "\<forall>i < length ws. ws' ! i = (if i < ?n then NOT (ws ! i) else ws ! i)"
    using bs_for_ret [OF b(2), of 0 "unat (bs_word_count bs)" "\<lambda>w x. ret (NOT x)" "\<lambda>i x. NOT x"] b small by auto
  have "word_bit ws' i \<longleftrightarrow> i \<notin> A" if "i < c" for i
    using that ws'(3) b(7) bits [OF below [OF that]] div64_less [OF that]
    by (auto simp: word_bit_def bit_not_iff)
  then show "\<exists>q. bitset_not p = ret q \<and> bs_rep q c ({..<c} - A)"
    using clear_padding_words [OF assms [unfolded b(1)], of ws' "{..<c} - A"] b ws'
    by (auto simp: bitset_not_def)
qed

end
