(* ===== verification/Canon_BitsetOps.thy ===== *)
theory Canon_BitsetOps
  imports Canon_Bitset
begin

section \<open>Bit sets: operations on two sets, counting and searching\<close>

text \<open>
  The remaining operations of data/bitset.h against the set that \<open>bs_rep\<close> gives: intersection, union
  and symmetric difference, the cardinality, the searches and the iteration.
\<close>

subsection \<open>Two operands\<close>

lemma unat_common: "unat (bs_common a b) = min (unat (bs_word_count a)) (unat (bs_word_count b))"
  by (simp add: bs_common_def word_less_nat_alt)

text \<open>Where the words of the second operand end, its members have ended.\<close>

lemma bs_rep_other:
  assumes "bs_rep (Some other) d B" "bs_words other = Some os"
  shows "i div 64 < (d + 63) div 64 \<Longrightarrow> bit (os ! (i div 64)) (i mod 64) \<longleftrightarrow> i \<in> B"
    "\<not> i div 64 < (d + 63) div 64 \<Longrightarrow> i \<notin> B"
proof -
  have B: "B \<subseteq> {..<d}" and bits: "\<And>i. i < 64 * ((d + 63) div 64) \<Longrightarrow> word_bit os i \<longleftrightarrow> i \<in> B"
    using assms by (auto elim!: bs_repE)
  show "bit (os ! (i div 64)) (i mod 64) \<longleftrightarrow> i \<in> B" if "i div 64 < (d + 63) div 64"
    using bits [of i] that div_mult_mod_eq [of i 64] by (auto simp: word_bit_def)
  show "i \<notin> B" if "\<not> i div 64 < (d + 63) div 64"
    using B that div64_less [of i d] by auto
qed

lemma min_words: "n \<le> 2 ^ 58 \<Longrightarrow> min n m < (2 ^ 64 :: nat)"
  by (auto simp: min_def)

lemma bs_zip_ret:
  assumes "bs_rep (Some bs) c A" "bs_rep (Some other) d B" "bs_words bs = Some ws" "bs_words other = Some os"
  shows "\<exists>ws'. bs_for (\<lambda>w x. bindR (bs_get other w) (\<lambda>y. ret (f x y))) 0 (unat (bs_common bs other)) bs =
      ret (bs\<lparr>bs_words := Some ws'\<rparr>) \<and> length ws' = length ws \<and>
    (\<forall>i < length ws. ws' ! i =
       (if i < (c + 63) div 64 \<and> i < (d + 63) div 64 then f (ws ! i) (os ! i) else ws ! i))"
proof -
  have n: "unat (bs_common bs other) = min ((c + 63) div 64) ((d + 63) div 64)"
    "(c + 63) div 64 \<le> length ws" "(d + 63) div 64 \<le> length os" "(c + 63) div 64 \<le> 2 ^ 58"
    "min ((c + 63) div 64) ((d + 63) div 64) \<le> length ws"
    using assms by (auto elim!: bs_repE simp: unat_common)
  obtain ws' where "bs_for (\<lambda>w x. bindR (bs_get other w) (\<lambda>y. ret (f x y))) 0 (unat (bs_common bs other)) bs =
      ret (bs\<lparr>bs_words := Some ws'\<rparr>)" "length ws' = length ws"
    "\<forall>i < length ws. ws' ! i = (if unat (0 :: usize) \<le> i \<and> i < unat (0 :: usize) + unat (bs_common bs other)
       then f (ws ! i) (os ! i) else ws ! i)"
    using bs_for_ret [OF assms(3), of 0 "unat (bs_common bs other)"
        "\<lambda>w x. bindR (bs_get other w) (\<lambda>y. ret (f x y))" "\<lambda>i x. f x (os ! i)"] n min_words [OF n(4)]
    by (auto simp: bs_get_ret [OF assms(4)])
  then show ?thesis using n by (intro exI [of _ ws']) simp
qed

text \<open>The loop on the bits: \<open>g\<close> is \<open>f\<close> on one bit.\<close>

lemma bs_zip_bits:
  assumes p: "bs_rep (Some bs) c A" and q: "bs_rep (Some other) d B" and ws: "bs_words bs = Some ws"
    and g: "\<And>x y j. j < 64 \<Longrightarrow> bit (f x y) j \<longleftrightarrow> g (bit x j) (bit y j)"
  shows "\<exists>ws'. bs_for (\<lambda>w x. bindR (bs_get other w) (\<lambda>y. ret (f x y))) 0 (unat (bs_common bs other)) bs =
      ret (bs\<lparr>bs_words := Some ws'\<rparr>) \<and> length ws' = length ws \<and>
    (\<forall>i < 64 * ((c + 63) div 64). word_bit ws' i \<longleftrightarrow>
       (if i div 64 < (d + 63) div 64 then g (i \<in> A) (i \<in> B) else i \<in> A \<and> i \<notin> B))"
proof -
  obtain os where os: "bs_words other = Some os" using q by (elim bs_repE) blast
  have n: "(c + 63) div 64 \<le> length ws" using p ws by (auto elim!: bs_repE)
  from bs_zip_ret [OF p q ws os, of f] obtain ws' where
    w: "bs_for (\<lambda>w x. bindR (bs_get other w) (\<lambda>y. ret (f x y))) 0 (unat (bs_common bs other)) bs =
      ret (bs\<lparr>bs_words := Some ws'\<rparr>)" "length ws' = length ws"
    "\<forall>i < length ws. ws' ! i =
       (if i < (c + 63) div 64 \<and> i < (d + 63) div 64 then f (ws ! i) (os ! i) else ws ! i)" by blast
  have "word_bit ws' i \<longleftrightarrow> (if i div 64 < (d + 63) div 64 then g (i \<in> A) (i \<in> B) else i \<in> A \<and> i \<notin> B)"
    if "i < 64 * ((c + 63) div 64)" for i
  proof -
    have blk: "i div 64 < (c + 63) div 64" using that by (simp add: less_mult_imp_div_less mult.commute)
    then show ?thesis
      using w(3) n g [of "i mod 64"] bs_rep_other(1) [OF p ws blk] bs_rep_other [OF q os, of i]
      by (simp add: word_bit_def)
  qed
  with w(1,2) show ?thesis by blast
qed

lemma bitset_or_rep:
  assumes p: "bs_rep p c A" and q: "bs_rep q d B" and sub: "B \<subseteq> {..<c}"
  shows "\<exists>r. bitset_or p q = ret r \<and> bs_rep r c (A \<union> B)"
proof -
  from p obtain bs ws where b: "p = Some bs" "bs_words bs = Some ws" "(c + 63) div 64 \<le> length ws" "A \<subseteq> {..<c}"
    by (elim bs_repE) blast
  from q obtain other os where o: "q = Some other" "bs_words other = Some os" by (elim bs_repE) blast
  note rep = p [unfolded b(1)] and orep = q [unfolded o(1)]
  obtain ws' where w: "bs_for (\<lambda>w x. bindR (bs_get other w) (\<lambda>y. ret (x OR y))) 0 (unat (bs_common bs other)) bs =
      ret (bs\<lparr>bs_words := Some ws'\<rparr>)" "length ws' = length ws"
    "\<forall>i < 64 * ((c + 63) div 64). word_bit ws' i \<longleftrightarrow>
       (if i div 64 < (d + 63) div 64 then i \<in> A \<or> i \<in> B else i \<in> A \<and> i \<notin> B)"
    using bs_zip_bits [OF rep orep b(2), of "(OR)" "(\<or>)"] by (auto simp: bit_or_iff)
  have "bs_rep (Some (bs\<lparr>bs_words := Some ws'\<rparr>)) c (A \<union> B)"
    using w(2,3) b(3,4) sub bs_rep_other(2) [OF orep o(2)] by (intro bs_rep_words [OF rep]) auto
  then show ?thesis using w(1) by (simp add: bitset_or_def b(1) o(1))
qed

lemma bitset_xor_rep:
  assumes p: "bs_rep p c A" and q: "bs_rep q d B"
  shows "\<exists>r. bitset_xor p q = ret r \<and> bs_rep r c ({..<c} \<inter> (A - B \<union> (B - A)))"
proof -
  from p obtain bs ws where b: "p = Some bs" "bs_words bs = Some ws" "(c + 63) div 64 \<le> length ws" "A \<subseteq> {..<c}"
    by (elim bs_repE) blast
  from q obtain other os where o: "q = Some other" "bs_words other = Some os" by (elim bs_repE) blast
  note rep = p [unfolded b(1)] and orep = q [unfolded o(1)]
  obtain ws' where w: "bs_for (\<lambda>w x. bindR (bs_get other w) (\<lambda>y. ret (x XOR y))) 0 (unat (bs_common bs other)) bs =
      ret (bs\<lparr>bs_words := Some ws'\<rparr>)" "length ws' = length ws"
    "\<forall>i < 64 * ((c + 63) div 64). word_bit ws' i \<longleftrightarrow>
       (if i div 64 < (d + 63) div 64 then (i \<in> A) \<noteq> (i \<in> B) else i \<in> A \<and> i \<notin> B)"
    using bs_zip_bits [OF rep orep b(2), of "(XOR)" "\<lambda>a b. a \<noteq> b"] by (auto simp: bit_xor_iff)
  have "word_bit ws' i \<longleftrightarrow> i \<in> {..<c} \<inter> (A - B \<union> (B - A))" if "i < c" for i
    using that below_words [OF that] w(3) bs_rep_other(2) [OF orep o(2), of i] by auto
  then show ?thesis
    using clear_padding_words [OF rep, of ws' "{..<c} \<inter> (A - B \<union> (B - A))"] w(1,2) b(3)
    by (simp add: bitset_xor_def b(1) o(1))
qed

lemma bitset_and_rep:
  assumes p: "bs_rep p c A" and q: "bs_rep q d B"
  shows "\<exists>r. bitset_and p q = ret r \<and> bs_rep r c (A \<inter> B)"
proof -
  from p obtain bs ws where b: "p = Some bs" "bs_words bs = Some ws" "unat (bs_word_count bs) = (c + 63) div 64"
    "(c + 63) div 64 \<le> length ws" "A \<subseteq> {..<c}" "(c + 63) div 64 \<le> 2 ^ 58" by (elim bs_repE) blast
  from q obtain other os where o: "q = Some other" "bs_words other = Some os"
    "unat (bs_word_count other) = (d + 63) div 64" by (elim bs_repE) blast
  note rep = p [unfolded b(1)] and orep = q [unfolded o(1)]
  let ?n = "(c + 63) div 64" and ?k = "min ((c + 63) div 64) ((d + 63) div 64)"
  have common: "unat (bs_common bs other) = ?k" using b(3) o(3) by (simp add: unat_common)
  obtain ws1 where w1: "bs_for (\<lambda>w x. bindR (bs_get other w) (\<lambda>y. ret (x AND y))) 0 (unat (bs_common bs other)) bs =
      ret (bs\<lparr>bs_words := Some ws1\<rparr>)" "length ws1 = length ws"
    "\<forall>i < 64 * ?n. word_bit ws1 i \<longleftrightarrow> (if i div 64 < (d + 63) div 64 then i \<in> A \<and> i \<in> B else i \<in> A \<and> i \<notin> B)"
    using bs_zip_bits [OF rep orep b(2), of "(AND)" "(\<and>)"] by (auto simp: bit_and_iff)
  have "unat (bs_word_count bs - bs_common bs other) = ?n - ?k"
    using common b(3) by (subst unat_sub) (auto simp: word_le_nat_alt)
  then have sum: "unat (bs_common bs other) + unat (bs_word_count bs - bs_common bs other) = ?n"
    using common by simp
  have n64: "?n < 2 ^ 64" using b(6) by (rule order_le_less_trans) simp
  from bs_for_ret [of "bs\<lparr>bs_words := Some ws1\<rparr>" ws1 "bs_common bs other"
      "unat (bs_word_count bs - bs_common bs other)" "\<lambda>w x. ret 0" "\<lambda>i x. 0", unfolded sum]
  obtain ws2 where w2: "bs_for (\<lambda>w x. ret 0) (bs_common bs other) (unat (bs_word_count bs - bs_common bs other))
      (bs\<lparr>bs_words := Some ws1\<rparr>) = ret (bs\<lparr>bs_words := Some ws2\<rparr>)" "length ws2 = length ws"
    "\<forall>i < length ws. ws2 ! i = (if ?k \<le> i \<and> i < ?n then 0 else ws1 ! i)"
    using b(4) w1(2) n64 unfolding common by auto
  have "word_bit ws2 i \<longleftrightarrow> i \<in> A \<inter> B" if i: "i < 64 * ?n" for i
  proof -
    have blk: "i div 64 < ?n" using i by (simp add: less_mult_imp_div_less mult.commute)
    then have "word_bit ws2 i \<longleftrightarrow> i div 64 < (d + 63) div 64 \<and> word_bit ws1 i"
      using w2(3) b(4) by (cases "i div 64 < (d + 63) div 64") (simp_all add: word_bit_def min_le_iff_disj not_le)
    then show ?thesis using w1(3) i bs_rep_other(2) [OF orep o(2), of i] by auto
  qed
  then have "bs_rep (Some (bs\<lparr>bs_words := Some ws2\<rparr>)) c (A \<inter> B)"
    using b(4,5) w2(2) by (intro bs_rep_words [OF rep]) auto
  then show ?thesis using w1(1) w2(1) by (simp add: bitset_and_def b(1) o(1) Let_def)
qed

subsection \<open>Scanning tests\<close>

lemma bs_all_loop_ret:
  assumes "bs_words bs = Some ws" "unat w + k \<le> length ws" "unat w + k < 2 ^ 64"
    and "\<And>i x. unat i < unat w + k \<Longrightarrow> t i x = ret (P (unat i) x)"
  shows "bs_all_loop t bs w k = ret (\<forall>i. unat w \<le> i \<and> i < unat w + k \<longrightarrow> P i (ws ! i))"
  using assms
proof (induction k arbitrary: w)
  case (Suc k)
  have w: "unat (w + 1) = Suc (unat w)" using Suc.prems(3) by (intro unat_usize_Suc) simp
  have IH: "bs_all_loop t bs (w + 1) k =
      ret (\<forall>i. unat (w + 1) \<le> i \<and> i < unat (w + 1) + k \<longrightarrow> P i (ws ! i))"
    using Suc.prems w by (intro Suc.IH) simp_all
  have "(\<forall>i. unat w \<le> i \<and> i < unat w + Suc k \<longrightarrow> P i (ws ! i)) \<longleftrightarrow>
      P (unat w) (ws ! unat w) \<and> (\<forall>i. Suc (unat w) \<le> i \<and> i < Suc (unat w + k) \<longrightarrow> P i (ws ! i))"
    by (auto simp: Suc_le_eq) (metis le_neq_implies_less)
  then show ?case using Suc.prems by (simp add: IH w bs_get_ret)
qed auto

lemma word_zero_iff: "x = 0 \<longleftrightarrow> (\<forall>j < 64. \<not> bit x j)" for x :: u64
  by (auto simp: bit_eq_iff [of x 0])

lemma block_all:
  "(\<forall>i < n. \<forall>j < 64. P (64 * i + j)) \<longleftrightarrow> (\<forall>l < 64 * n. P l)" for n :: nat
proof safe
  fix l :: nat
  assume "\<forall>i < n. \<forall>j < 64. P (64 * i + j)" "l < 64 * n"
  moreover have "l div 64 < n" using \<open>l < 64 * n\<close> by (simp add: less_mult_imp_div_less mult.commute)
  moreover have "64 * (l div 64) + l mod 64 = l" by simp
  ultimately show "P l" by (metis mod_less_divisor zero_less_numeral)
next
  fix i j :: nat
  assume "\<forall>l < 64 * n. P l" "i < n" "j < 64"
  then show "P (64 * i + j)" by simp
qed

lemma bitset_is_empty_ret:
  assumes "bs_rep p c A"
  shows "bitset_is_empty p = ret (A = {})"
proof -
  from assms obtain bs ws where b: "p = Some bs" "bs_words bs = Some ws" "unat (bs_word_count bs) = (c + 63) div 64"
    "(c + 63) div 64 \<le> length ws" "A \<subseteq> {..<c}" "(c + 63) div 64 \<le> 2 ^ 58"
    and bits: "\<And>i. i < 64 * ((c + 63) div 64) \<Longrightarrow> word_bit ws i \<longleftrightarrow> i \<in> A" by (elim bs_repE) blast
  let ?n = "(c + 63) div 64"
  have "bitset_is_empty p = ret (\<forall>i < ?n. ws ! i = 0)"
    using bs_all_loop_ret [OF b(2), of 0 ?n "\<lambda>w x. ret (x = 0)" "\<lambda>i x. x = 0"] b
    by (simp add: bitset_is_empty_def)
  moreover have "(\<forall>i < ?n. ws ! i = 0) \<longleftrightarrow> (\<forall>l < 64 * ?n. \<not> word_bit ws l)"
    by (simp add: word_zero_iff word_bit_def flip: block_all)
  moreover have "(\<forall>l < 64 * ?n. \<not> word_bit ws l) \<longleftrightarrow> A = {}"
    using bits b(5) below_words [of _ c] by blast
  ultimately show ?thesis by simp
qed

lemma bitset_is_disjoint_ret:
  assumes p: "bs_rep p c A" and q: "bs_rep q d B"
  shows "bitset_is_disjoint p q = ret (A \<inter> B = {})"
proof -
  from p obtain bs ws where b: "p = Some bs" "bs_words bs = Some ws" "unat (bs_word_count bs) = (c + 63) div 64"
    "(c + 63) div 64 \<le> length ws" "A \<subseteq> {..<c}" "(c + 63) div 64 \<le> 2 ^ 58" by (elim bs_repE) blast
  from q obtain other os where o: "q = Some other" "bs_words other = Some os"
    "unat (bs_word_count other) = (d + 63) div 64" "(d + 63) div 64 \<le> length os" by (elim bs_repE) blast
  note inA = bs_rep_other [OF p [unfolded b(1)] b(2)] and inB = bs_rep_other [OF q [unfolded o(1)] o(2)]
  let ?k = "min ((c + 63) div 64) ((d + 63) div 64)"
  have common: "unat (bs_common bs other) = ?k" using b(3) o(3) by (simp add: unat_common)
  have k: "?k \<le> length ws" "?k < 2 ^ 64" using b(4) min_words [OF b(6)] by auto
  have "bitset_is_disjoint p q = ret (\<forall>i < ?k. ws ! i AND os ! i = 0)"
    using bs_all_loop_ret [OF b(2), of 0 ?k "\<lambda>w x. bindR (bs_get other w) (\<lambda>y. ret (x AND y = 0))"
        "\<lambda>i x. x AND os ! i = 0"] k b o common
    by (simp add: bitset_is_disjoint_def bs_get_ret)
  moreover have "(\<forall>i < ?k. ws ! i AND os ! i = 0) \<longleftrightarrow> (\<forall>l < 64 * ?k. \<not> (word_bit ws l \<and> word_bit os l))"
    by (simp add: word_zero_iff word_bit_def bit_and_iff flip: block_all)
  moreover have "(\<forall>l < 64 * ?k. \<not> (word_bit ws l \<and> word_bit os l)) \<longleftrightarrow> A \<inter> B = {}"
  proof -
    have "l < 64 * ?k \<longleftrightarrow> l div 64 < (c + 63) div 64 \<and> l div 64 < (d + 63) div 64" for l
      by (auto simp: div_less_iff_less_mult mult.commute)
    then show ?thesis using inA inB by (simp add: word_bit_def) blast
  qed
  ultimately show ?thesis by simp
qed


subsection \<open>Counting\<close>

lemma bs_count_loop_ret:
  assumes "bs_words bs = Some ws" "unat w + k \<le> length ws" "unat w + k < 2 ^ 64"
  shows "bs_count_loop bs w k acc = ret (acc + of_nat (\<Sum>i = unat w..<unat w + k. card {j. bit (ws ! i) j}))"
  using assms
proof (induction k arbitrary: w acc)
  case (Suc k)
  have w: "unat (w + 1) = Suc (unat w)" using Suc.prems(3) by (intro unat_usize_Suc) simp
  have pc: "ucast (bits_popcount x) = (of_nat (card {j. bit x j}) :: usize)" for x
    by (simp only: bits_popcount_card [symmetric] of_nat_unat)
  have sum: "(\<Sum>i = unat w..<unat w + Suc k. card {j. bit (ws ! i) j}) =
      card {j. bit (ws ! unat w) j} + (\<Sum>i = Suc (unat w)..<Suc (unat w) + k. card {j. bit (ws ! i) j})"
    by (simp add: sum.atLeast_Suc_lessThan)
  show ?case using Suc.prems Suc.IH [of "w + 1" "acc + ucast (bits_popcount (ws ! unat w))"]
    unfolding sum by (simp add: bs_get_ret w pc add.assoc)
qed simp

text \<open>The members of a set, word by word.\<close>

lemma card_by_words:
  fixes ws :: "u64 list"
  assumes "A \<subseteq> {..<64 * n}" "\<And>i. i < 64 * n \<Longrightarrow> word_bit ws i \<longleftrightarrow> i \<in> A"
  shows "card A = (\<Sum>i < n. card {j. bit (ws ! i) j})"
proof -
  let ?B = "\<lambda>i. (\<lambda>j. 64 * i + j) ` {j. bit (ws ! i) j}"
  have lt: "bit (ws ! i) j \<Longrightarrow> j < 64" for i j using bit_imp_le_length [of "ws ! i" j] by simp
  have "A = (\<Union>i < n. ?B i)"
  proof (intro set_eqI iffI)
    fix l assume l: "l \<in> A"
    then have "l < 64 * n" using assms(1) by auto
    then have "l div 64 < n" "bit (ws ! (l div 64)) (l mod 64)"
      using l assms(2) [of l] by (auto simp: word_bit_def less_mult_imp_div_less mult.commute)
    moreover have "l = 64 * (l div 64) + l mod 64" by simp
    ultimately show "l \<in> (\<Union>i < n. ?B i)" by (intro UN_I [of "l div 64"] image_eqI [of _ _ "l mod 64"]) auto
  next
    fix l assume "l \<in> (\<Union>i < n. ?B i)"
    then obtain i j where l: "i < n" "bit (ws ! i) j" "l = 64 * i + j" by auto
    with lt [OF l(2)] show "l \<in> A" using assms(2) [of l] by (simp add: word_bit_def)
  qed
  moreover have "card (\<Union>i < n. ?B i) = (\<Sum>i < n. card (?B i))"
  proof (intro card_UN_disjoint ballI impI)
    fix i k :: nat
    assume "i \<noteq> k"
    show "?B i \<inter> ?B k = {}"
    proof (rule ccontr)
      assume "?B i \<inter> ?B k \<noteq> {}"
      then obtain j l where "64 * i + j = 64 * k + l" "j < 64" "l < 64" using lt by blast
      then have "i = k" by linarith
      with \<open>i \<noteq> k\<close> show False ..
    qed
  next
    fix i :: nat
    show "finite (?B i)" using lt [of i] finite_subset [of "{j. bit (ws ! i) j}" "{..<64}"] by auto
  qed simp
  ultimately show ?thesis by (simp add: card_image inj_on_def)
qed

lemma bitset_count_ret:
  assumes "bs_rep p c A"
  shows "bitset_count p = ret (of_nat (card A))" "card A < 2 ^ 64" "card A \<le> c"
proof -
  from assms obtain bs ws where b: "p = Some bs" "bs_words bs = Some ws" "unat (bs_word_count bs) = (c + 63) div 64"
    "(c + 63) div 64 \<le> length ws" "A \<subseteq> {..<c}" "(c + 63) div 64 \<le> 2 ^ 58" "c \<le> 2 ^ 64 - 64"
    and bits: "\<And>i. i < 64 * ((c + 63) div 64) \<Longrightarrow> word_bit ws i \<longleftrightarrow> i \<in> A" by (elim bs_repE) blast
  let ?n = "(c + 63) div 64"
  have sub: "A \<subseteq> {..<64 * ?n}" using b(5) below_words [of _ c] by blast
  have n64: "?n < 2 ^ 64" using b(6) by (rule order_le_less_trans) simp
  have "bitset_count p = ret (of_nat (\<Sum>i = 0..<?n. card {j. bit (ws ! i) j}))"
    using bs_count_loop_ret [OF b(2), of 0 ?n 0] b n64 by (simp add: bitset_count_def)
  also have "(\<Sum>i = 0..<?n. card {j. bit (ws ! i) j}) = card A"
    using card_by_words [OF sub bits] by (simp add: lessThan_atLeast0)
  finally show "bitset_count p = ret (of_nat (card A))" .
  show "card A \<le> c" using card_mono [OF _ b(5)] by simp
  then show "card A < 2 ^ 64" using b(7) by simp
qed

lemma bitset_is_full_ret:
  assumes "bs_rep p c A"
  shows "bitset_is_full p = ret (A = {..<c})"
proof -
  from assms obtain bs where b: "p = Some bs" "bs_words bs \<noteq> None" "unat (bs_capacity bs) = c" "A \<subseteq> {..<c}"
    by (auto elim!: bs_repE)
  have "of_nat (card A) = bs_capacity bs \<longleftrightarrow> card A = c"
    using bitset_count_ret(2) [OF assms] b(3)
    by (auto simp: word_unat_eq_iff unat_of_nat take_bit_nat_eq_self)
  also have "\<dots> \<longleftrightarrow> A = {..<c}"
    using b(4) card_subset_eq [of "{..<c}" A] by auto
  finally show ?thesis using bitset_count_ret(1) [OF assms] b(1,2) by (auto simp: bitset_is_full_def)
qed


subsection \<open>Searching\<close>

text \<open>
  \<open>next_member A m r\<close>: \<open>r\<close> is the least member of \<open>A\<close> that is at least \<open>m\<close>, or \<open>BITSET_NPOS\<close> where there
  is none; \<open>last_member\<close> is its counterpart for the greatest member.
\<close>

definition next_member :: "nat set \<Rightarrow> nat \<Rightarrow> usize \<Rightarrow> bool" where
  "next_member A m r \<longleftrightarrow>
     (if r = bitset_npos then \<forall>i \<in> A. i < m else unat r \<in> A \<and> m \<le> unat r \<and> (\<forall>i \<in> A. i < m \<or> unat r \<le> i))"

definition last_member :: "nat set \<Rightarrow> usize \<Rightarrow> bool" where
  "last_member A r \<longleftrightarrow> (if r = bitset_npos then A = {} else unat r \<in> A \<and> (\<forall>i \<in> A. i \<le> unat r))"

lemma npos_not_member: "bs_rep p c A \<Longrightarrow> unat r \<in> A \<Longrightarrow> r \<noteq> bitset_npos"
  by (elim bs_repE) (auto simp: bitset_npos_def canon_usize_max_def)

lemma unat_of_nat_usize: "n < 2 ^ 64 \<Longrightarrow> unat (of_nat n :: usize) = n"
  by (simp add: unat_of_nat)

lemma unat_bit_index:
  assumes "w < 2 ^ 58" "j < 64"
  shows "unat (of_nat w * 64 + of_nat j :: usize) = 64 * w + j"
proof -
  have "64 * w + j < 2 ^ 64" using assms by simp
  then have "unat (of_nat (64 * w + j) :: usize) = 64 * w + j" by (rule unat_of_nat_usize)
  moreover have "(of_nat w * 64 + of_nat j :: usize) = of_nat (64 * w + j)" by (simp add: mult.commute)
  ultimately show ?thesis by (simp only:)
qed

lemma bs_limit_member:
  assumes "bs_rep (Some bs) c A" "unat r \<in> A"
  shows "bs_limit bs r = r"
  using assms by (elim bs_repE) (auto simp: bs_limit_def word_less_nat_alt)

text \<open>A member found at bit \<open>j\<close> of the word \<open>w\<close>, all members from \<open>m\<close> on being at this bit or above.\<close>

lemma found_next:
  assumes rep: "bs_rep (Some bs) c A" and ws: "bs_words bs = Some ws"
    and w: "w < (c + 63) div 64" and j: "j < 64" "bit (ws ! w) j" and m: "m \<le> 64 * w + j"
    and least: "\<And>i. i \<in> A \<Longrightarrow> m \<le> i \<Longrightarrow> 64 * w + j \<le> i"
  shows "next_member A m (bs_limit bs (of_nat w * 64 + of_nat j))"
proof -
  have "w < 2 ^ 58" using rep w by (elim bs_repE) simp
  then have r: "unat (of_nat w * 64 + of_nat j :: usize) = 64 * w + j" using j(1) by (rule unat_bit_index)
  have "64 * w + j \<in> A"
    using bs_rep_other(1) [OF rep ws, of "64 * w + j"] w j by simp
  moreover have "i < m \<or> 64 * w + j \<le> i" if "i \<in> A" for i using least [OF that] by linarith
  ultimately have least': "\<forall>i \<in> A. i < m \<or> unat (of_nat w * 64 + of_nat j :: usize) \<le> i"
    and mem: "unat (of_nat w * 64 + of_nat j :: usize) \<in> A" using r by simp_all
  show ?thesis
    unfolding bs_limit_member [OF rep mem] next_member_def
    using npos_not_member [OF rep mem] mem r m least' by simp
qed

lemma word_member:
  assumes "bs_rep (Some bs) c A" "bs_words bs = Some ws" "i \<in> A"
  shows "i div 64 < (c + 63) div 64" "bit (ws ! (i div 64)) (i mod 64)"
  using bs_rep_other [OF assms(1,2), of i] assms(3) by auto

lemma bs_scan_up_ret:
  assumes rep: "bs_rep (Some bs) c A" and ws: "bs_words bs = Some ws"
  shows "unat w + k = (c + 63) div 64 \<Longrightarrow> \<exists>r. bs_scan_up bs w k = ret r \<and> next_member A (64 * unat w) r"
proof (induction k arbitrary: w)
  case 0
  have "i < 64 * unat w" if "i \<in> A" for i
    using word_member(1) [OF rep ws that] 0 by (simp add: div_less_iff_less_mult mult.commute)
  then show ?case by (simp add: next_member_def)
next
  case (Suc k)
  from rep ws have len: "(c + 63) div 64 \<le> length ws" "(c + 63) div 64 \<le> 2 ^ 58" by (auto elim!: bs_repE)
  have w: "unat w < (c + 63) div 64" using Suc.prems by simp
  then have get: "bs_get bs w = ret (ws ! unat w)" using len ws by (simp add: bs_get_ret)
  show ?case
  proof (cases "ws ! unat w = 0")
    case True
    have w1: "unat (w + 1) = Suc (unat w)" using w len(2) by (intro unat_usize_Suc) simp
    then obtain r where r: "bs_scan_up bs (w + 1) k = ret r" "next_member A (64 * unat (w + 1)) r"
      using Suc.IH [of "w + 1"] Suc.prems by auto
    have skip: "64 * unat (w + 1) \<le> i" if "i \<in> A" "64 * unat w \<le> i" for i
    proof -
      have "i div 64 \<noteq> unat w" using word_member(2) [OF rep ws that(1)] True by auto
      moreover have "unat w \<le> i div 64" using that(2) by (simp add: less_eq_div_iff_mult_less_eq mult.commute)
      ultimately have "Suc (unat w) \<le> i div 64" by simp
      then show ?thesis unfolding w1 by (simp add: less_eq_div_iff_mult_less_eq)
    qed
    have "next_member A (64 * unat w) r"
      using r(2) skip w1 unfolding next_member_def by (fastforce simp: not_less split: if_splits)
    then show ?thesis using r(1) True get by simp
  next
    case False
    then obtain j where j: "j < 64" "unat (bits_ctz (ws ! unat w)) = j" "bit (ws ! unat w) j"
      "\<forall>i < j. \<not> bit (ws ! unat w) i" using bits_ctz_spec [of "ws ! unat w"] by blast
    have "64 * unat w + j \<le> i" if "i \<in> A" "64 * unat w \<le> i" for i
    proof (cases "i div 64 = unat w")
      case True
      then have "\<not> i mod 64 < j" using word_member(2) [OF rep ws that(1)] j(4) by auto
      moreover have "i = 64 * (i div 64) + i mod 64" by simp
      ultimately show ?thesis unfolding True by linarith
    next
      case False
      then have "unat w < i div 64" using that(2) by (simp add: less_eq_div_iff_mult_less_eq mult.commute le_neq_implies_less)
      then have "64 * Suc (unat w) \<le> i" by (simp add: Suc_leI less_eq_div_iff_mult_less_eq flip: Suc_le_eq)
      then show ?thesis using j(1) by simp
    qed
    then have "next_member A (64 * unat w) (bs_limit bs (of_nat (unat w) * 64 + of_nat j))"
      using found_next [OF rep ws w j(1,3)] by simp
    moreover have "(of_nat j :: usize) = ucast (bits_ctz (ws ! unat w))" using j(2) of_nat_unat by metis
    ultimately show ?thesis using False get by simp
  qed
qed


lemma bitset_find_first_ret:
  assumes "bs_rep p c A"
  shows "\<exists>r. bitset_find_first p = ret r \<and> next_member A 0 r"
proof -
  from assms obtain bs ws where b: "p = Some bs" "bs_words bs = Some ws" "unat (bs_word_count bs) = (c + 63) div 64"
    by (elim bs_repE) blast
  then show ?thesis using bs_scan_up_ret [OF assms [unfolded b(1)] b(2), of 0 "(c + 63) div 64"]
    by (simp add: bitset_find_first_def)
qed

lemma block_above: "64 * Suc a \<le> i \<Longrightarrow> b < 64 \<Longrightarrow> 64 * a + b \<le> i" for a b i :: nat
  by simp

lemma next_member_none: "A \<subseteq> {..<c} \<Longrightarrow> c \<le> m \<Longrightarrow> next_member A m bitset_npos"
  by (auto simp: next_member_def)

text \<open>A member at or above \<open>n\<close> in the word of \<open>n\<close> is a bit of that word shifted down to \<open>n\<close>.\<close>

lemma member_shifted:
  assumes "bs_rep (Some bs) c A" "bs_words bs = Some ws" "i \<in> A" "n \<le> i" "i div 64 = n div 64"
  shows "bit (drop_bit (n mod 64) (ws ! (n div 64))) (i - n) \<and> i - n = i mod 64 - n mod 64"
proof -
  have "i = 64 * (i div 64) + i mod 64" "n = 64 * (n div 64) + n mod 64" by simp_all
  then have "n mod 64 \<le> i mod 64" "i - n = i mod 64 - n mod 64" using assms(4,5) by linarith+
  then show ?thesis using word_member(2) [OF assms(1-3)] assms(5) by (simp add: bit_drop_bit_eq)
qed

lemma next_word_above: "n \<le> i \<Longrightarrow> i div 64 \<noteq> n div 64 \<Longrightarrow> 64 * Suc (n div 64) \<le> (i :: nat)"
proof -
  assume "n \<le> i" "i div 64 \<noteq> n div 64"
  then have "Suc (n div 64) \<le> i div 64" using div_le_mono [of n i 64] by simp
  then show "64 * Suc (n div 64) \<le> i" by (simp add: less_eq_div_iff_mult_less_eq)
qed

text \<open>\<open>bitset_find_next\<close>: the word of the start is shifted so that the lower bits drop out.\<close>

lemma bitset_find_next_ret:
  assumes rep: "bs_rep p c A"
  shows "\<exists>r. bitset_find_next p prev = ret r \<and> next_member A (Suc (unat prev)) r"
proof -
  from rep obtain bs ws where b: "p = Some bs" "bs_words bs = Some ws" "unat (bs_capacity bs) = c"
    "unat (bs_word_count bs) = (c + 63) div 64" "(c + 63) div 64 \<le> length ws" "(c + 63) div 64 \<le> 2 ^ 58"
    "A \<subseteq> {..<c}" "c \<le> 2 ^ 64 - 64" by (elim bs_repE) blast
  note rep' = rep [unfolded b(1)]
  show ?thesis
  proof (cases "Suc (unat prev) < c")
    case False
    then have "prev \<ge> bs_capacity bs \<or> (prev < bs_capacity bs \<and> prev + 1 \<ge> bs_capacity bs)"
      using b(3,8) unat_usize_Suc [of prev] by (auto simp: word_le_nat_alt word_less_nat_alt)
    then have "bitset_find_next p prev = ret bitset_npos" by (auto simp: bitset_find_next_def b(1) Let_def)
    then show ?thesis using next_member_none [OF b(7)] False by (simp add: not_less)
  next
    case True
    define start where "start = prev + 1"
    have s: "unat start = Suc (unat prev)" unfolding start_def using True b(8) by (intro unat_usize_Suc) simp
    let ?w = "unat start div 64" and ?b = "unat start mod 64"
    have sc: "unat start < c" using True s by simp
    have w: "?w < (c + 63) div 64" using sc by (rule div64_less)
    have uw: "unat (bitset_word_of start) = ?w" and ub: "unat (start mod 64) = ?b"
      by (simp_all add: unat_word_of unat_mod_word)
    let ?x = "drop_bit ?b (ws ! ?w)"
    have code: "bitset_find_next p prev =
       (if ?x \<noteq> 0 then ret (bs_limit bs (bitset_word_of start * 64 + start mod 64 + ucast (bits_ctz ?x)))
        else bs_scan_up bs (bitset_word_of start + 1) (unat (bs_word_count bs) - unat (bitset_word_of start + 1)))"
      using b(2,3,5) w sc s True
      by (simp add: bitset_find_next_def b(1) Let_def bs_get_ret uw ub word_le_nat_alt flip: start_def)
    have split: "i = 64 * (i div 64) + i mod 64" for i :: nat by simp
    show ?thesis
    proof (cases "?x = 0")
      case True
      have w1: "unat (bitset_word_of start + 1) = Suc ?w" using w b(6) uw by (subst unat_usize_Suc) simp_all
      then obtain r where r: "bitset_find_next p prev = ret r" "next_member A (64 * Suc ?w) r"
        using bs_scan_up_ret [OF rep' b(2), of "bitset_word_of start + 1" "(c + 63) div 64 - Suc ?w"] w b(4) True code
        by auto
      have skip: "64 * Suc ?w \<le> i" if "i \<in> A" "unat start \<le> i" for i
        using next_word_above [OF that(2)] member_shifted [OF rep' b(2) that] True by auto
      have "unat start \<le> 64 * Suc ?w" using split [of "unat start"] mod_less_divisor [of 64 "unat start"] by simp
      then have "next_member A (unat start) r"
        using r(2) skip unfolding next_member_def by (fastforce simp: not_less split: if_splits)
      then show ?thesis using r(1) s by simp
    next
      case False
      then obtain j where j: "unat (bits_ctz ?x) = j" "bit ?x j" "\<forall>i < j. \<not> bit ?x i"
        using bits_ctz_spec [of ?x] by blast
      then have bj: "bit (ws ! ?w) (?b + j)" by (simp add: bit_drop_bit_eq)
      then have lt: "?b + j < 64" using bit_imp_le_length by fastforce
      have "64 * ?w + (?b + j) \<le> i" if "i \<in> A" "unat start \<le> i" for i
      proof (cases "i div 64 = ?w")
        case True
        then have "\<not> i - unat start < j" using member_shifted [OF rep' b(2) that] j(3) by blast
        then show ?thesis using that(2) split [of "unat start"] by linarith
      next
        case False
        then show ?thesis using block_above [OF next_word_above [OF that(2)] lt] by blast
      qed
      then have "next_member A (unat start) (bs_limit bs (of_nat ?w * 64 + of_nat (?b + j)))"
        using found_next [OF rep' b(2) w lt bj] split [of "unat start"] by simp
      moreover have "of_nat ?w = bitset_word_of start" "of_nat ?b = start mod 64"
        "of_nat j = (ucast (bits_ctz ?x) :: usize)"
        unfolding uw [symmetric] ub [symmetric] j(1) [symmetric] of_nat_unat by simp_all
      then have "(of_nat ?w * 64 + of_nat (?b + j) :: usize) =
          bitset_word_of start * 64 + start mod 64 + ucast (bits_ctz ?x)"
        by (simp only: of_nat_add add.assoc)
      ultimately show ?thesis using False code s by simp
    qed
  qed
qed


lemma bs_scan_down_ret:
  assumes rep: "bs_rep (Some bs) c A" and ws: "bs_words bs = Some ws"
  shows "k \<le> (c + 63) div 64 \<Longrightarrow> (\<And>i. i \<in> A \<Longrightarrow> i < 64 * k) \<Longrightarrow>
    \<exists>r. bs_scan_down bs k = ret r \<and> last_member A r"
proof (induction k)
  case 0
  then show ?case by (auto simp: last_member_def)
next
  case (Suc k)
  from rep ws have len: "(c + 63) div 64 \<le> length ws" "(c + 63) div 64 \<le> 2 ^ 58" by (auto elim!: bs_repE)
  have k: "k < (c + 63) div 64" "k < 2 ^ 58" using Suc.prems(1) len(2) by simp_all
  have uk: "unat (of_nat k :: usize) = k" using k(2) by (intro unat_of_nat_usize) simp
  have get: "bs_get bs (of_nat k) = ret (ws ! k)" using len(1) ws k(1) uk by (simp add: bs_get_ret)
  have top: "i div 64 \<le> k" if "i \<in> A" for i
    using Suc.prems(2) [OF that] by (simp add: div_less_iff_less_mult mult.commute flip: less_Suc_eq_le)
  show ?case
  proof (cases "ws ! k = 0")
    case True
    have "i < 64 * k" if "i \<in> A" for i
    proof -
      have "i div 64 \<noteq> k" using word_member(2) [OF rep ws that] True by auto
      then have "i div 64 < k" using top [OF that] by simp
      then show ?thesis by (simp add: div_less_iff_less_mult mult.commute)
    qed
    then show ?thesis using Suc True k(1) get by simp
  next
    case False
    then obtain j where j: "j < 64" "unat (bits_clz (ws ! k)) = j" "bit (ws ! k) (63 - j)"
      "\<forall>i > 63 - j. \<not> bit (ws ! k) i" using bits_clz_spec [of "ws ! k"] by blast
    have jw: "(of_nat j :: usize) = ucast (bits_clz (ws ! k))" using j(2) of_nat_unat by metis
    have "64 - 1 - ucast (bits_clz (ws ! k)) = (of_nat (63 - j) :: usize)"
      using j(1) by (simp add: of_nat_diff flip: jw)
    then have code: "bs_scan_down bs (Suc k) = ret (bs_limit bs (of_nat k * 64 + of_nat (63 - j)))"
      using False get by (simp add: Let_def)
    have r: "unat (of_nat k * 64 + of_nat (63 - j) :: usize) = 64 * k + (63 - j)"
      using k(2) by (rule unat_bit_index) simp
    have "64 * k + (63 - j) \<in> A"
      using bs_rep_other(1) [OF rep ws, of "64 * k + (63 - j)"] k(1) j(3) by simp
    with r have mem: "unat (of_nat k * 64 + of_nat (63 - j) :: usize) \<in> A" by simp
    have "i \<le> 64 * k + (63 - j)" if "i \<in> A" for i
    proof (cases "i div 64 = k")
      case True
      then have "\<not> 63 - j < i mod 64" using word_member(2) [OF rep ws that] j(4) by auto
      moreover have "i = 64 * (i div 64) + i mod 64" by simp
      ultimately show ?thesis unfolding True by linarith
    next
      case False
      then have "i div 64 < k" using top [OF that] by simp
      then have "i < 64 * k" by (simp add: div_less_iff_less_mult mult.commute)
      then show ?thesis by simp
    qed
    then have "last_member A (of_nat k * 64 + of_nat (63 - j))"
      using npos_not_member [OF rep mem] mem r by (simp add: last_member_def)
    then show ?thesis using code bs_limit_member [OF rep mem] by simp
  qed
qed

lemma bitset_find_last_ret:
  assumes "bs_rep p c A"
  shows "\<exists>r. bitset_find_last p = ret r \<and> last_member A r"
proof -
  from assms obtain bs ws where b: "p = Some bs" "bs_words bs = Some ws" "unat (bs_word_count bs) = (c + 63) div 64"
    "A \<subseteq> {..<c}" by (elim bs_repE) blast
  have "i < 64 * ((c + 63) div 64)" if "i \<in> A" for i using that b(4) by (intro below_words) auto
  then show ?thesis using bs_scan_down_ret [OF assms [unfolded b(1)] b(2) order_refl] b
    by (simp add: bitset_find_last_def)
qed

subsection \<open>The iteration\<close>

lemma sorted_from:
  assumes "finite A" "n \<in> A" "m \<le> n" "\<forall>i \<in> A. i < m \<or> n \<le> i"
  shows "sorted_list_of_set {i \<in> A. m \<le> i} = n # sorted_list_of_set {i \<in> A. Suc n \<le> i}"
proof -
  let ?S = "{i \<in> A. m \<le> i}"
  have "Min ?S = n" using assms by (intro Min_eqI) auto
  moreover have "?S - {n} = {i \<in> A. Suc n \<le> i}" using assms(3,4) by (fastforce simp: not_less)
  moreover have "finite ?S" "?S \<noteq> {}" using assms by auto
  ultimately show ?thesis using sorted_list_of_set_nonempty [of ?S] by simp
qed

lemma bs_each_loop_ret:
  assumes "bs_rep p c A" "finite A"
  shows "next_member A m r \<Longrightarrow> card {i \<in> A. m \<le> i} < fuel \<Longrightarrow>
    \<exists>is. bs_each_loop fuel p r = ret is \<and> map unat is = sorted_list_of_set {i \<in> A. m \<le> i}"
proof (induction fuel arbitrary: m r)
  case (Suc fuel)
  show ?case
  proof (cases "r = bitset_npos")
    case True
    then have none: "{i \<in> A. m \<le> i} = {}" using Suc.prems(1) by (fastforce simp: next_member_def)
    show ?thesis unfolding none by (simp add: True)
  next
    case False
    then have r: "unat r \<in> A" "m \<le> unat r" "\<forall>i \<in> A. i < m \<or> unat r \<le> i"
      using Suc.prems(1) by (simp_all add: next_member_def)
    obtain j where j: "bitset_find_next p r = ret j" "next_member A (Suc (unat r)) j"
      using bitset_find_next_ret [OF assms(1)] by blast
    have fin: "finite {i \<in> A. m \<le> i}" using assms(2) by simp
    have "unat r \<in> {i \<in> A. m \<le> i}" "unat r \<notin> {i \<in> A. Suc (unat r) \<le> i}" using r(1,2) by simp_all
    moreover have "{i \<in> A. Suc (unat r) \<le> i} \<subseteq> {i \<in> A. m \<le> i}"
      using order_trans [OF r(2)] Suc_leD by blast
    ultimately have "{i \<in> A. Suc (unat r) \<le> i} \<subset> {i \<in> A. m \<le> i}" by blast
    from psubset_card_mono [OF fin this] Suc.prems(2) have "card {i \<in> A. Suc (unat r) \<le> i} < fuel"
      by linarith
    then obtain rest where "bs_each_loop fuel p j = ret rest"
      "map unat rest = sorted_list_of_set {i \<in> A. Suc (unat r) \<le> i}" using Suc.IH [OF j(2)] by blast
    with False j(1) sorted_from [OF assms(2) r] show ?thesis by simp
  qed
qed simp


subsection \<open>The properties\<close>

text \<open>A client of one bit set, and the set it should see.\<close>

datatype bit_op =
    SetBit usize
  | ClearBit usize
  | ToggleBit usize
  | AssignBit usize bool
  | ClearAll
  | SetAll
  | Complement

fun bitset_exec :: "bit_op \<Rightarrow> bitset cptr \<Rightarrow> bitset cptr run" where
  "bitset_exec (SetBit i) p = bitset_set p i"
| "bitset_exec (ClearBit i) p = bitset_clear p i"
| "bitset_exec (ToggleBit i) p = bitset_toggle p i"
| "bitset_exec (AssignBit i v) p = bitset_assign p i v"
| "bitset_exec ClearAll p = bitset_clear_all p"
| "bitset_exec SetAll p = bitset_set_all p"
| "bitset_exec Complement p = bitset_not p"

fun bit_op_index :: "bit_op \<Rightarrow> nat" where
  "bit_op_index (SetBit i) = unat i"
| "bit_op_index (ClearBit i) = unat i"
| "bit_op_index (ToggleBit i) = unat i"
| "bit_op_index (AssignBit i v) = unat i"
| "bit_op_index _ = 0"

fun set_exec :: "nat \<Rightarrow> bit_op \<Rightarrow> nat set \<Rightarrow> nat set" where
  "set_exec c (SetBit i) A = insert (unat i) A"
| "set_exec c (ClearBit i) A = A - {unat i}"
| "set_exec c (ToggleBit i) A = (if unat i \<in> A then A - {unat i} else insert (unat i) A)"
| "set_exec c (AssignBit i v) A = (if v then insert (unat i) A else A - {unat i})"
| "set_exec c ClearAll A = {}"
| "set_exec c SetAll A = {..<c}"
| "set_exec c Complement A = {..<c} - A"

fun bitset_run :: "bit_op list \<Rightarrow> bitset cptr \<Rightarrow> bitset cptr run" where
  "bitset_run [] p = ret p"
| "bitset_run (x # xs) p = bindR (bitset_exec x p) (\<lambda>q. bitset_run xs q)"

lemma bitset_exec_rep:
  assumes "bs_rep p c A" "bit_op_index x < c"
  shows "\<exists>q. bitset_exec x p = ret q \<and> bs_rep q c (set_exec c x A)"
  using bitset_bit_ops [OF assms(1)] bitset_all_ops [OF assms(1)] assms(2) by (cases x) simp_all

lemma bitset_run_rep:
  "bs_rep p c A \<Longrightarrow> \<forall>x \<in> set xs. bit_op_index x < c \<Longrightarrow>
   \<exists>q. bitset_run xs p = ret q \<and> bs_rep q c (fold (set_exec c) xs A)"
proof (induction xs arbitrary: p A)
  case (Cons x xs)
  then obtain q where "bitset_exec x p = ret q" "bs_rep q c (set_exec c x A)"
    using bitset_exec_rep [of p c A x] by auto
  with Cons.IH [of q "set_exec c x A"] Cons.prems(2) show ?case by simp
qed simp

lemma bitset_init_rep:
  assumes "0 < capacity" "capacity \<le> canon_usize_max - 63" "(unat capacity + 63) div 64 \<le> length ws"
  shows "\<exists>q. bitset_init (Some old) (Some ws) capacity = ret q \<and> bs_rep q (unat capacity) {}"
proof -
  let ?n = "(unat capacity + 63) div 64"
  have c: "unat capacity \<le> 2 ^ 64 - 64" using assms(2) by (simp add: canon_usize_max_def word_le_nat_alt)
  have "unat (capacity + 64 - 1) = unat capacity + 63"
    using c by (simp add: unat_word_ariths flip: add_diff_eq)
  then have n: "unat (bitset_word_total capacity) = ?n"
    by (simp add: bitset_word_total_def unat_div_word)
  have small: "?n \<le> 2 ^ 58" using c by simp
  have "words_set ws 0 (bitset_word_total capacity * 8) = ret (replicate ?n 0 @ drop ?n ws)"
    using words_set_ret [of "bitset_word_total capacity" ws 0] n small assms(3) by simp
  moreover have "bs_rep (Some \<lparr>bs_words = Some (replicate ?n 0 @ drop ?n ws), bs_capacity = capacity,
      bs_word_count = bitset_word_total capacity\<rparr>) (unat capacity) {}"
    using n c assms(1,3) by (simp add: bs_rep_def word_bit_replicate word_less_nat_alt)
  ultimately show ?thesis using assms(1,2) by (simp add: bitset_init_def)
qed


text \<open>C14: a bit set made by \<open>bitset_init\<close> from any words is empty, and after any sequence of the seven
  writing operations with indices below the capacity it is the set that the same operations give on
  sets; no operation faults, and the padding is clear at the end.\<close>

theorem bitset_refines_set:
  "0 < capacity \<Longrightarrow> capacity \<le> canon_usize_max - 63 \<Longrightarrow> (unat capacity + 63) div 64 \<le> length ws \<Longrightarrow>
   \<forall>x \<in> set xs. bit_op_index x < unat capacity \<Longrightarrow>
   \<exists>p q. bitset_init (Some old) (Some ws) capacity = ret p \<and> bs_rep p (unat capacity) {} \<and>
     bitset_run xs p = ret q \<and> bs_rep q (unat capacity) (fold (set_exec (unat capacity)) xs {})"
  using bitset_init_rep [of capacity ws old] bitset_run_rep [of _ "unat capacity" "{}" xs] by blast

theorem bitset_refines_set_witness:
  "\<exists>p q. bitset_init (Some \<lparr>bs_words = None, bs_capacity = 0, bs_word_count = 0\<rparr>) (Some [7, 9]) 70 = ret p \<and> bs_rep p 70 {} \<and>
     bitset_run [SetBit 3, SetBit 65, Complement, ToggleBit 65] p = ret q \<and>
     bs_rep q 70 (fold (set_exec 70) [SetBit 3, SetBit 65, Complement, ToggleBit 65] {})"
  using bitset_refines_set [of 70 "[7, 9]" "[SetBit 3, SetBit 65, Complement, ToggleBit 65]" "\<lparr>bs_words = None, bs_capacity = 0, bs_word_count = 0\<rparr>"]
  by (simp add: canon_usize_max_def)

lemma bs_rep_example: "bs_rep (Some \<lparr>bs_words = Some [5], bs_capacity = 10, bs_word_count = 1\<rparr>) 10 {0, 2}"
proof -
  have "bit (5 :: u64) i \<longleftrightarrow> i = 0 \<or> i = 2" for i
    using bit_1_iff [of "i - 2", where 'a = u64] by (cases i rule: nat.exhaust; cases "i - 1"; cases "i - 2")
      (auto simp: bit_numeral_rec bit_1_iff)
  then show ?thesis by (auto simp: bs_rep_def word_bit_def)
qed

text \<open>On a bit set with the members \<open>A\<close> and the capacity \<open>c\<close> the queries return what the set says:
  membership, cardinality, emptiness, fullness, disjointness with another bit set, the least and
  the greatest member, and the least member after an index (\<open>BITSET_NPOS\<close> where there is none).\<close>

theorem bitset_queries_correct:
  "bs_rep p c A \<Longrightarrow> bs_rep q d B \<Longrightarrow>
   (unat i < c \<longrightarrow> bitset_test p i = ret (unat i \<in> A)) \<and>
   (\<exists>n. bitset_count p = ret n \<and> unat n = card A) \<and>
   bitset_is_empty p = ret (A = {}) \<and> bitset_is_full p = ret (A = {..<c}) \<and>
   bitset_is_disjoint p q = ret (A \<inter> B = {}) \<and>
   (\<exists>r. bitset_find_first p = ret r \<and> next_member A 0 r) \<and>
   (\<exists>r. bitset_find_next p i = ret r \<and> next_member A (Suc (unat i)) r) \<and>
   (\<exists>r. bitset_find_last p = ret r \<and> last_member A r)"
  using bitset_bit_ops(4) bitset_count_ret unat_of_nat_usize bitset_is_empty_ret bitset_is_full_ret
    bitset_is_disjoint_ret bitset_find_first_ret bitset_find_next_ret bitset_find_last_ret by simp

theorem bitset_queries_correct_witness:
  "\<exists>n. bitset_count (Some \<lparr>bs_words = Some [5], bs_capacity = 10, bs_word_count = 1\<rparr>) = ret n \<and>
     unat n = card {0, 2 :: nat}"
  using bitset_queries_correct [OF bs_rep_example bs_rep_example, of 0] by blast

text \<open>\<open>BITSET_FOR_EACH\<close> ends after as many rounds as there are members and visits every member once,
  in increasing order.\<close>

theorem bitset_for_each_visits:
  "bs_rep p c A \<Longrightarrow>
   \<exists>is. bitset_for_each (Suc (card A)) p = ret is \<and> map unat is = sorted_list_of_set A"
proof -
  assume p: "bs_rep p c A"
  then have "finite A" by (elim bs_repE) (auto intro: finite_subset)
  moreover obtain r where "bitset_find_first p = ret r" "next_member A 0 r" using bitset_find_first_ret [OF p] by blast
  ultimately show ?thesis using bs_each_loop_ret [OF p, of 0 r "Suc (card A)"] by (simp add: bitset_for_each_def)
qed

theorem bitset_for_each_visits_witness:
  "\<exists>is. bitset_for_each 3 (Some \<lparr>bs_words = Some [5], bs_capacity = 10, bs_word_count = 1\<rparr>) = ret is \<and>
     map unat is = sorted_list_of_set {0, 2}"
  using bitset_for_each_visits [OF bs_rep_example] by (simp add: numeral_3_eq_3)

text \<open>\<open>bitset_and\<close> is intersection, \<open>bitset_xor\<close> is symmetric difference cut at the capacity, for
  operands of any two capacities; \<open>bitset_or\<close> is union when the members of the other operand lie
  below the capacity.\<close>

theorem bitset_binary_correct:
  "bs_rep p c A \<Longrightarrow> bs_rep q d B \<Longrightarrow>
   (\<exists>r. bitset_and p q = ret r \<and> bs_rep r c (A \<inter> B)) \<and>
   (\<exists>r. bitset_xor p q = ret r \<and> bs_rep r c ({..<c} \<inter> (A - B \<union> (B - A)))) \<and>
   (B \<subseteq> {..<c} \<longrightarrow> (\<exists>r. bitset_or p q = ret r \<and> bs_rep r c (A \<union> B)))"
  using bitset_and_rep bitset_xor_rep bitset_or_rep by simp

theorem bitset_binary_correct_witness:
  "\<exists>r. bitset_and (Some \<lparr>bs_words = Some [5], bs_capacity = 10, bs_word_count = 1\<rparr>)
      (Some \<lparr>bs_words = Some [5], bs_capacity = 10, bs_word_count = 1\<rparr>) = ret r \<and> bs_rep r 10 {0, 2}"
  using bitset_binary_correct [OF bs_rep_example bs_rep_example] by simp

text \<open>The union in general: the bits that the words of the first operand then have.\<close>

lemma bitset_or_words:
  assumes p: "bs_rep p c A" and q: "bs_rep q d B"
  shows "\<exists>bs ws. bitset_or p q = ret (Some bs) \<and> bs_words bs = Some ws \<and> unat (bs_capacity bs) = c \<and>
    unat (bs_word_count bs) = (c + 63) div 64 \<and> (c + 63) div 64 \<le> length ws \<and>
    (\<forall>i < 64 * ((c + 63) div 64). word_bit ws i \<longleftrightarrow> i \<in> A \<union> B)"
proof -
  from p obtain bs ws where b: "p = Some bs" "bs_words bs = Some ws" "(c + 63) div 64 \<le> length ws" "unat (bs_capacity bs) = c"
    "unat (bs_word_count bs) = (c + 63) div 64" by (elim bs_repE) blast
  from q obtain other os where o: "q = Some other" "bs_words other = Some os" by (elim bs_repE) blast
  note rep = p [unfolded b(1)] and orep = q [unfolded o(1)]
  obtain ws' where w: "bs_for (\<lambda>w x. bindR (bs_get other w) (\<lambda>y. ret (x OR y))) 0 (unat (bs_common bs other)) bs =
      ret (bs\<lparr>bs_words := Some ws'\<rparr>)" "length ws' = length ws"
    "\<forall>i < 64 * ((c + 63) div 64). word_bit ws' i \<longleftrightarrow>
       (if i div 64 < (d + 63) div 64 then i \<in> A \<or> i \<in> B else i \<in> A \<and> i \<notin> B)"
    using bs_zip_bits [OF rep orep b(2), of "(OR)" "(\<or>)"] by (auto simp: bit_or_iff)
  have "word_bit ws' i \<longleftrightarrow> i \<in> A \<union> B" if "i < 64 * ((c + 63) div 64)" for i
    using w(3) that bs_rep_other(2) [OF orep o(2), of i] by auto
  with w(1,2) b o show ?thesis
    by (intro exI [of _ "bs\<lparr>bs_words := Some ws'\<rparr>"] exI [of _ ws']) (simp add: bitset_or_def)
qed

text \<open>C38: \<open>bitset_or\<close> on operands of any two capacities keeps the invariant that the bits past the capacity are clear exactly
  when the other operand has no member from the capacity to the end of the last word: it does not cut the result
  at the capacity. Whatever the operands, the members counted afterwards are those of both, up to the end of the last
  word, so that the count can exceed the capacity; the set is reported full exactly when the count is the capacity.\<close>

theorem bitset_or_padding:
  assumes "bs_rep p c A" "bs_rep q d B"
  defines "U \<equiv> A \<union> B \<inter> {..<64 * ((c + 63) div 64)}"
  shows "\<exists>r. bitset_or p q = ret r \<and> unat (bitset_capacity r) = c \<and>
    ((\<exists>C. bs_rep r c C) \<longleftrightarrow> B \<inter> {c..<64 * ((c + 63) div 64)} = {}) \<and>
    bitset_count r = ret (of_nat (card U)) \<and> card U < 2 ^ 64 \<and> bitset_is_full r = ret (card U = c)"
proof -
  let ?n = "(c + 63) div 64"
  from bitset_or_words [OF assms(1,2)] obtain bs ws where w: "bitset_or p q = ret (Some bs)" "bs_words bs = Some ws"
    "unat (bs_capacity bs) = c" "unat (bs_word_count bs) = ?n" "?n \<le> length ws"
    "\<And>i. i < 64 * ?n \<Longrightarrow> word_bit ws i \<longleftrightarrow> i \<in> A \<union> B" by blast
  have c: "0 < c" "c \<le> 2 ^ 64 - 64" "?n \<le> 2 ^ 58" and A: "A \<subseteq> {..<c}" using assms(1) by (auto elim!: bs_repE)
  then have sub: "U \<subseteq> {..<64 * ?n}" unfolding U_def using below_words [of _ c] by auto
  have bits: "word_bit ws i \<longleftrightarrow> i \<in> U" if "i < 64 * ?n" for i using w(6) [OF that] that by (auto simp: U_def)
  have n64: "?n < 2 ^ 64" using c(3) by (rule order_le_less_trans) simp
  have "bitset_count (Some bs) = ret (of_nat (\<Sum>i = 0..<?n. card {j. bit (ws ! i) j}))"
    using bs_count_loop_ret [OF w(2), of 0 ?n 0] w(2,4,5) n64 by (simp add: bitset_count_def)
  then have count: "bitset_count (Some bs) = ret (of_nat (card U))"
    using card_by_words [OF sub bits] by (simp add: lessThan_atLeast0)
  have "card U \<le> 64 * ?n" using card_mono [OF _ sub] by simp
  also have "64 * ?n \<le> c + 63" by simp
  finally have small: "card U < 2 ^ 64" using c(1,2) by linarith
  have "of_nat (card U) = bs_capacity bs \<longleftrightarrow> card U = c"
    using small w(3) by (auto simp: word_unat_eq_iff unat_of_nat take_bit_nat_eq_self)
  then have full: "bitset_is_full (Some bs) = ret (card U = c)" using count w(2) by (simp add: bitset_is_full_def)
  have "(\<exists>C. bs_rep (Some bs) c C) \<longleftrightarrow> B \<inter> {c..<64 * ?n} = {}"
  proof
    assume "\<exists>C. bs_rep (Some bs) c C"
    then obtain C where "C \<subseteq> {..<c}" "\<And>i. i < 64 * ?n \<Longrightarrow> word_bit ws i \<longleftrightarrow> i \<in> C" using w(2) by (auto simp: bs_rep_def)
    then have "i < c" if "i \<in> B" "i < 64 * ?n" for i using w(6) [OF that(2)] that by blast
    then show "B \<inter> {c..<64 * ?n} = {}" by force
  next
    assume "B \<inter> {c..<64 * ?n} = {}"
    then have "U \<subseteq> {..<c}" unfolding U_def using A by force
    then have "bs_rep (Some bs) c U" using w(2-5) bits c by (simp add: bs_rep_def)
    then show "\<exists>C. bs_rep (Some bs) c C" by blast
  qed
  with w(1,3) count small full show ?thesis by (intro exI [of _ "Some bs"]) (simp add: bitset_capacity_def)
qed

theorem bitset_or_padding_witness:
  "\<exists>r. bitset_or (Some \<lparr>bs_words = Some [0], bs_capacity = 4, bs_word_count = 1\<rparr>)
        (Some \<lparr>bs_words = Some [0xFF], bs_capacity = 8, bs_word_count = 1\<rparr>) = ret r \<and>
     bitset_capacity r = 4 \<and> bitset_count r = ret 8 \<and> bitset_is_full r = ret False \<and> (\<nexists>C. bs_rep r 4 C)"
proof -
  have p: "bs_rep (Some \<lparr>bs_words = Some [0], bs_capacity = 4, bs_word_count = 1\<rparr>) 4 {}" by (simp add: bs_rep_def word_bit_def)
  have m: "(0xFF :: u64) = mask 8" by (simp add: mask_eq_exp_minus_1)
  have "word_bit [0xFF] i \<longleftrightarrow> i \<in> {..<8}" if "i < 64" for i
    using that by (simp only: word_bit_def m) (simp add: bit_mask_iff)
  then have q: "bs_rep (Some \<lparr>bs_words = Some [0xFF], bs_capacity = 8, bs_word_count = 1\<rparr>) 8 {..<8}" by (simp add: bs_rep_def)
  have "{} \<union> {..<8} \<inter> {..<64 * ((4 + 63) div 64)} = {..<8 :: nat}" by auto
  moreover have "5 \<in> {..<8} \<inter> {4..<64 * ((4 + 63) div 64) :: nat}" by simp
  then have "{..<8} \<inter> {4..<64 * ((4 + 63) div 64)} \<noteq> ({} :: nat set)" by blast
  ultimately show ?thesis using bitset_or_padding [OF p q] by (auto simp: word_unat_eq_iff)
qed

text \<open>What a later search makes of such a set: its greatest member is not found.\<close>

theorem bitset_or_wider_find_last:
  "\<exists>r. bitset_or (Some \<lparr>bs_words = Some [0], bs_capacity = 4, bs_word_count = 1\<rparr>)
        (Some \<lparr>bs_words = Some [0xFF], bs_capacity = 8, bs_word_count = 1\<rparr>) = ret r \<and>
     bitset_find_last r = ret bitset_npos"
  by (simp add: bitset_or_def bs_common_def bs_get_def bs_put_def
      bitset_find_last_def bs_limit_def bits_clz_def clz_step_def Let_def arr_get_def arr_set_def)

end
