(* ===== verification/Canon_Range.thy ===== *)
theory Canon_Range
  imports Canon_Checked Canon_Semantics
begin

section \<open>Ranges (data/range.h)\<close>

text \<open>
  The bounded integer generator: the values \<open>current\<close>, \<open>current + step\<close>, ... before \<open>end\<close>. The
  fields are \<open>isize\<close>; every signed operation of the code goes through \<open>isize_val\<close>, so that the
  theorems below also show that none of them overflows. The lemmas relate each operation to the
  list of the values that are still to come.
\<close>

record rng =
  rg_current :: isize
  rg_end :: isize
  rg_step :: isize

definition range_make :: "isize \<Rightarrow> isize \<Rightarrow> isize \<Rightarrow> rng run" where
  "range_make start stop step =
     require_msg (step \<noteq> canon_isize_min) ''range_make: step cannot be ISIZE_MIN (would overflow on negation)''
     (let st = (if step = 0 then 1 else step) in
      ret \<lparr>rg_current = start, rg_end = stop, rg_step = st\<rparr>)"

definition range_upto :: "isize \<Rightarrow> rng run" where
  "range_upto stop = range_make 0 stop 1"

definition range_from_to :: "isize \<Rightarrow> isize \<Rightarrow> rng run" where
  "range_from_to start stop = range_make start stop 1"

definition range_downfrom :: "isize \<Rightarrow> rng run" where
  "range_downfrom start = range_make start 0 (- 1)"

definition range_downto :: "isize \<Rightarrow> isize \<Rightarrow> rng run" where
  "range_downto start stop = range_make start stop (- 1)"

definition range_is_empty :: "rng cptr \<Rightarrow> bool" where
  "range_is_empty p = (case p of
     None \<Rightarrow> True
   | Some r \<Rightarrow>
       if rg_step r > 0 then rg_current r \<ge> rg_end r
       else if rg_step r < 0 then rg_current r \<le> rg_end r
       else True)"

definition range_has_next :: "rng cptr \<Rightarrow> bool" where
  "range_has_next p = (\<not> range_is_empty p)"

definition range_is_valid :: "rng cptr \<Rightarrow> bool" where
  "range_is_valid p = (p \<noteq> None \<and> \<not> range_is_empty p)"

text \<open>The conversion of an \<open>isize\<close> to \<open>usize\<close> is modulo \<open>2 ^ 64\<close>.\<close>

definition rg_abs_step :: "rng \<Rightarrow> usize run" where
  "rg_abs_step r =
     (if rg_step r > 0 then ret (word_of_int (rg_step r))
      else bindR (isize_val (- rg_step r)) (\<lambda>neg_step. ret (word_of_int neg_step)))"

definition range_len :: "rng cptr \<Rightarrow> usize run" where
  "range_len p = (case p of
     None \<Rightarrow> ret 0
   | Some r \<Rightarrow>
       if range_is_empty p then ret 0
       else bindR (rg_abs_step r) (\<lambda>abs_step.
         let lo = (if rg_step r > 0 then rg_current r else rg_end r);
             hi = (if rg_step r > 0 then rg_end r else rg_current r) in
         bindR (if lo \<ge> 0 \<or> hi < 0
                then bindR (isize_val (hi - lo)) (\<lambda>d. ret (word_of_int d :: usize))
                else bindR (isize_val (lo + 1)) (\<lambda>lo1. bindR (isize_val (- lo1)) (\<lambda>neg_lo_m1.
                     ret (word_of_int hi + word_of_int neg_lo_m1 + 1)))) (\<lambda>span.
         bindR (div_usize (span - 1) abs_step) (\<lambda>q. ret (q + 1)))))"

definition range_remaining :: "rng cptr \<Rightarrow> usize run" where
  "range_remaining p = range_len p"

definition range_peek :: "rng cptr \<Rightarrow> isize cptr \<Rightarrow> bool \<times> isize cptr" where
  "range_peek p out = (case (p, out) of
     (Some r, Some old) \<Rightarrow> if range_is_empty p then (False, out) else (True, Some (rg_current r))
   | (p', out') \<Rightarrow> (False, out))"

definition range_peek_option :: "rng cptr \<Rightarrow> isize \<Rightarrow> isize option run" where
  "range_peek_option p uninit = (let (ok, out) = range_peek p (Some uninit) in
     if ok then bindR (deref out) (\<lambda>v. ret (option_some v)) else ret option_none)"

text \<open>
  \<open>builtin\<close> chooses the branch of \<open>checked_add_isize\<close>; \<open>uninit\<close> is the content of the local
  \<open>next_value\<close> before the call.
\<close>

definition range_next :: "bool \<Rightarrow> isize \<Rightarrow> rng cptr \<Rightarrow> (isize \<times> rng cptr) run" where
  "range_next builtin uninit p =
     require_msg (p \<noteq> None) ''range_next: r cannot be NULL''
     (require_msg (range_has_next p) ''range_next: called on exhausted range''
     (bindR (deref p) (\<lambda>r.
      bindR (checked_add_isize builtin (rg_current r) (rg_step r) (Some uninit)) (\<lambda>(fits, out).
        if fits then bindR (deref out) (\<lambda>next_value.
          let r1 = r\<lparr>rg_current := next_value\<rparr> in
          if rg_step r1 > 0 \<and> rg_current r1 \<ge> rg_end r1 then ret (rg_current r, Some (r1\<lparr>rg_current := rg_end r1\<rparr>))
          else if rg_step r1 < 0 \<and> rg_current r1 \<le> rg_end r1
          then ret (rg_current r, Some (r1\<lparr>rg_current := rg_end r1\<rparr>))
          else ret (rg_current r, Some r1))
        else ret (rg_current r, Some (r\<lparr>rg_current := rg_end r\<rparr>))))))"

definition range_reset :: "rng cptr \<Rightarrow> isize \<Rightarrow> rng cptr" where
  "range_reset p new_start = map_option (\<lambda>r. r\<lparr>rg_current := new_start\<rparr>) p"

text \<open>\<open>(isize)offset\<close> is the two's complement value; the proofs show that the offset fits.\<close>

definition range_skip :: "rng cptr \<Rightarrow> usize \<Rightarrow> rng cptr run" where
  "range_skip p n = (case p of
     None \<Rightarrow> ret p
   | Some r \<Rightarrow>
       if n = 0 \<or> range_is_empty p then ret p
       else bindR (range_len p) (\<lambda>count.
         if n \<ge> count then ret (Some (r\<lparr>rg_current := rg_end r\<rparr>))
         else bindR (rg_abs_step r) (\<lambda>abs_step.
           let offset = n * abs_step; half = word_of_int canon_isize_max in
           if rg_step r > 0 then
             bindR (if offset > half
                    then bindR (isize_val (rg_current r + canon_isize_max)) (\<lambda>c. ret (c, offset - half))
                    else ret (rg_current r, offset)) (\<lambda>(c, off).
             bindR (isize_val (c + sint off)) (\<lambda>c'. ret (Some (r\<lparr>rg_current := c'\<rparr>))))
           else
             bindR (if offset > half
                    then bindR (isize_val (rg_current r - canon_isize_max)) (\<lambda>c. ret (c, offset - half))
                    else ret (rg_current r, offset)) (\<lambda>(c, off).
             bindR (isize_val (c - sint off)) (\<lambda>c'. ret (Some (r\<lparr>rg_current := c'\<rparr>)))))))"

text \<open>
  \<open>RANGE_FOR\<close> with a body that collects the values, the variable being an \<open>isize\<close>: \<open>fuel\<close> bounds
  the rounds, and running out of it is a fault.
\<close>

fun range_for :: "bool \<Rightarrow> isize \<Rightarrow> nat \<Rightarrow> rng cptr \<Rightarrow> (isize list \<times> rng cptr) run" where
  "range_for builtin uninit 0 p = undefined_behaviour ''the loop does not end''"
| "range_for builtin uninit (Suc fuel) p =
     (if range_has_next p
      then bindR (range_next builtin uninit p) (\<lambda>(v, q).
           bindR (range_for builtin uninit fuel q) (\<lambda>(vs, q'). ret (v # vs, q')))
      else ret ([], p))"

subsection \<open>The values of a range\<close>

text \<open>The fields of a range that \<open>range_make\<close> built from \<open>isize\<close> values, and how many values are to come.\<close>

definition rng_ok :: "rng \<Rightarrow> bool" where
  "rng_ok r \<longleftrightarrow> isize_ok (rg_current r) \<and> isize_ok (rg_end r) \<and> isize_ok (rg_step r) \<and>
     rg_step r \<noteq> 0 \<and> rg_step r \<noteq> canon_isize_min"

definition rng_span :: "rng \<Rightarrow> int" where
  "rng_span r = (if rg_step r > 0 then rg_end r - rg_current r else rg_current r - rg_end r)"

definition rng_count :: "rng \<Rightarrow> nat" where
  "rng_count r = (if rng_span r \<le> 0 then 0 else nat ((rng_span r - 1) div \<bar>rg_step r\<bar> + 1))"

definition rng_list :: "rng \<Rightarrow> isize list" where
  "rng_list r = map (\<lambda>i. rg_current r + int i * rg_step r) [0..<rng_count r]"

lemma range_is_empty_iff: "rng_ok r \<Longrightarrow> range_is_empty (Some r) \<longleftrightarrow> rng_span r \<le> 0"
  by (auto simp: range_is_empty_def rng_ok_def rng_span_def)

lemma rng_count_0_iff: "rng_ok r \<Longrightarrow> rng_count r = 0 \<longleftrightarrow> rng_span r \<le> 0"
proof -
  assume "rng_ok r"
  then have "rng_span r > 0 \<Longrightarrow> (rng_span r - 1) div \<bar>rg_step r\<bar> \<ge> 0"
    by (intro pos_imp_zdiv_nonneg_iff [THEN iffD2]) (auto simp: rng_ok_def)
  then show ?thesis by (auto simp: rng_count_def)
qed

text \<open>\<open>n\<close> values are to come exactly when the \<open>n\<close>th step still lies within the span.\<close>

lemma less_rng_count:
  assumes "rng_ok r"
  shows "n < rng_count r \<longleftrightarrow> int n * \<bar>rg_step r\<bar> < rng_span r"
proof (cases "rng_span r \<le> 0")
  case True
  have "0 \<le> int n * \<bar>rg_step r\<bar>" by simp
  with True have "\<not> int n * \<bar>rg_step r\<bar> < rng_span r" by linarith
  with True show ?thesis by (simp add: rng_count_def)
next
  case False
  let ?a = "\<bar>rg_step r\<bar>" and ?q = "(rng_span r - 1) div \<bar>rg_step r\<bar>"
  have a: "0 < ?a" using assms by (auto simp: rng_ok_def)
  have q: "0 \<le> ?q" using False a by (simp add: pos_imp_zdiv_nonneg_iff)
  have "n < rng_count r \<longleftrightarrow> int n \<le> ?q" using False q by (auto simp: rng_count_def)
  also have "\<dots> \<longleftrightarrow> int n * ?a \<le> rng_span r - 1" using int_div_less_iff [OF a, of "rng_span r - 1" "int n"] by linarith
  finally show ?thesis by auto
qed


text \<open>The range after \<open>n\<close> of its values have been taken.\<close>

definition rng_advance :: "rng \<Rightarrow> nat \<Rightarrow> rng" where
  "rng_advance r n = r\<lparr>rg_current :=
     (if int n * \<bar>rg_step r\<bar> < rng_span r then rg_current r + int n * rg_step r else rg_end r)\<rparr>"

lemma rng_advance_fields [simp]:
  "rg_step (rng_advance r n) = rg_step r" "rg_end (rng_advance r n) = rg_end r"
  by (simp_all add: rng_advance_def)

lemma rng_advance_span:
  "rng_ok r \<Longrightarrow> rng_span (rng_advance r n) =
     (if int n * \<bar>rg_step r\<bar> < rng_span r then rng_span r - int n * \<bar>rg_step r\<bar> else 0)"
  by (cases "rg_step r > 0") (simp_all add: rng_advance_def rng_span_def rng_ok_def)

lemma rng_advance_ok:
  assumes "rng_ok r"
  shows "rng_ok (rng_advance r n)"
proof (cases "int n * \<bar>rg_step r\<bar> < rng_span r")
  case True
  have d: "0 \<le> int n * \<bar>rg_step r\<bar>" by simp
  show ?thesis
  proof (cases "rg_step r > 0")
    case pos: True
    define e where "e = int n * rg_step r"
    with d pos have "0 \<le> e" by simp
    with pos True assms show ?thesis
      by (simp add: rng_advance_def rng_ok_def rng_span_def isize_ok_def flip: e_def)
  next
    case neg: False
    define e where "e = int n * rg_step r"
    with neg have "e \<le> 0" by (simp add: mult_nonneg_nonpos)
    with neg True assms show ?thesis
      by (simp add: rng_advance_def rng_ok_def rng_span_def isize_ok_def flip: e_def)
  qed
qed (use assms in \<open>simp add: rng_advance_def rng_ok_def\<close>)

lemma rng_advance_add:
  assumes "rng_ok r" "int m * \<bar>rg_step r\<bar> < rng_span r"
  shows "rng_advance (rng_advance r m) n = rng_advance r (m + n)"
proof -
  have "int n * \<bar>rg_step r\<bar> < rng_span (rng_advance r m) \<longleftrightarrow> int (m + n) * \<bar>rg_step r\<bar> < rng_span r"
    using assms by (simp add: rng_advance_span distrib_right) linarith
  then show ?thesis using assms(2) by (simp add: rng_advance_def distrib_right add.assoc)
qed

lemma rng_advance_0: "0 < rng_span r \<Longrightarrow> rng_advance r 0 = r"
  by (simp add: rng_advance_def)

lemma rng_list_advance:
  assumes "rng_ok r" "int n * \<bar>rg_step r\<bar> < rng_span r"
  shows "rng_list (rng_advance r n) = drop n (rng_list r)"
proof (rule nth_equalityI)
  have iff: "j < rng_count (rng_advance r n) \<longleftrightarrow> n + j < rng_count r" for j
    using assms by (simp add: less_rng_count rng_advance_ok rng_advance_span distrib_right) linarith
  have "rng_count (rng_advance r n) = rng_count r - n"
  proof (rule ccontr)
    assume "rng_count (rng_advance r n) \<noteq> rng_count r - n"
    then consider "rng_count (rng_advance r n) < rng_count r - n" | "rng_count r - n < rng_count (rng_advance r n)"
      by linarith
    then show False
      using iff [of "rng_count (rng_advance r n)"] iff [of "rng_count r - n"] by cases linarith+
  qed
  then show len: "length (rng_list (rng_advance r n)) = length (drop n (rng_list r))"
    by (simp add: rng_list_def)
  fix i assume "i < length (rng_list (rng_advance r n))"
  then show "rng_list (rng_advance r n) ! i = drop n (rng_list r) ! i"
    using assms(2) len by (simp add: rng_list_def rng_advance_def distrib_right)
qed

lemma rng_list_Cons:
  assumes "rng_ok r" "0 < rng_span r"
  shows "rng_list r = rg_current r # rng_list (rng_advance r 1)"
proof -
  have pos: "0 < rng_count r" using assms rng_count_0_iff [of r] by simp
  show ?thesis
  proof (cases "int 1 * \<bar>rg_step r\<bar> < rng_span r")
    case True
    then have "rng_list (rng_advance r 1) = drop 1 (rng_list r)" by (rule rng_list_advance [OF assms(1)])
    moreover have "rng_list r = rng_list r ! 0 # drop 1 (rng_list r)"
      using pos by (cases "rng_list r") (auto simp: rng_list_def)
    ultimately show ?thesis using pos by (simp add: rng_list_def)
  next
    case False
    then have "rng_count r = 1" "rng_count (rng_advance r 1) = 0"
      using less_rng_count [OF assms(1), of 1] pos rng_count_0_iff [OF rng_advance_ok [OF assms(1)], of 1]
        rng_advance_span [OF assms(1), of 1] by simp_all
    then show ?thesis by (simp add: rng_list_def)
  qed
qed

subsection \<open>The operations\<close>

lemma unat_word_of_int: "0 \<le> x \<Longrightarrow> x < 2 ^ 64 \<Longrightarrow> unat (word_of_int x :: usize) = nat x"
  by (simp add: unat_eq_nat_uint uint_word_of_int)

lemma rg_abs_step_ret:
  assumes "rng_ok r"
  shows "rg_abs_step r = ret (word_of_int \<bar>rg_step r\<bar>)"
proof (cases "rg_step r > 0")
  case False
  with assms have "isize_ok (- rg_step r)" by (auto simp: rng_ok_def isize_defs)
  with False show ?thesis by (simp add: rg_abs_step_def isize_val_ret)
qed (simp add: rg_abs_step_def)

lemma rng_step_bound: "rng_ok r \<Longrightarrow> 0 < \<bar>rg_step r\<bar> \<and> \<bar>rg_step r\<bar> < 2 ^ 63"
  by (auto simp: rng_ok_def isize_defs)

lemma rng_span_bound: "rng_ok r \<Longrightarrow> rng_span r < 2 ^ 64"
  by (auto simp: rng_ok_def rng_span_def isize_defs)

lemma range_len_ret:
  assumes "rng_ok r"
  shows "\<exists>n. range_len (Some r) = ret n \<and> unat n = rng_count r"
proof (cases "rng_span r \<le> 0")
  case True
  then show ?thesis using range_is_empty_iff [OF assms] by (simp add: range_len_def rng_count_def)
next
  case False
  let ?S = "rng_span r" and ?a = "\<bar>rg_step r\<bar>"
  define lo where "lo = (if rg_step r > 0 then rg_current r else rg_end r)"
  define hi where "hi = (if rg_step r > 0 then rg_end r else rg_current r)"
  have S: "?S = hi - lo" by (simp add: rng_span_def lo_def hi_def)
  have ok: "isize_ok lo" "isize_ok hi" using assms by (simp_all add: lo_def hi_def rng_ok_def)
  have span: "(if lo \<ge> 0 \<or> hi < 0
                then bindR (isize_val (hi - lo)) (\<lambda>d. ret (word_of_int d :: usize))
                else bindR (isize_val (lo + 1)) (\<lambda>lo1. bindR (isize_val (- lo1)) (\<lambda>neg_lo_m1.
                     ret (word_of_int hi + word_of_int neg_lo_m1 + 1)))) = ret (word_of_int ?S)"
  proof (cases "lo \<ge> 0 \<or> hi < 0")
    case True
    then have "isize_ok (hi - lo)" using ok False S by (auto simp: isize_defs)
    with True show ?thesis by (simp add: S isize_val_ret)
  next
    case False
    then have "isize_ok (lo + 1)" "isize_ok (- (lo + 1))" using ok by (auto simp: isize_defs)
    moreover have "word_of_int hi + word_of_int (- (lo + 1)) + 1 = (word_of_int (hi - lo) :: usize)"
      by simp
    ultimately show ?thesis using False by (simp add: S isize_val_ret)
  qed
  have uS: "unat (word_of_int ?S :: usize) = nat ?S" using False rng_span_bound [OF assms] by (intro unat_word_of_int) simp_all
  have ua: "unat (word_of_int ?a :: usize) = nat ?a" using rng_step_bound [OF assms] by (intro unat_word_of_int) simp_all
  have a0: "(word_of_int ?a :: usize) \<noteq> 0" using ua rng_step_bound [OF assms] by auto
  have S0: "(word_of_int ?S :: usize) \<noteq> 0" using uS False by auto
  let ?q = "(word_of_int ?S - 1) div word_of_int ?a :: usize"
  have q: "unat ?q = (nat ?S - 1) div nat ?a"
    using uS ua S0 by (simp add: unat_div_word unat_usize_pred)
  have "(nat ?S - 1) div nat ?a \<le> nat ?S - 1" by (rule div_le_dividend)
  moreover have "0 < nat ?S" "nat ?S < 2 ^ 64" using False rng_span_bound [OF assms] by (simp_all add: nat_less_iff)
  ultimately have "unat ?q < 2 ^ 64 - 1" unfolding q by linarith
  then have "unat (?q + 1) = Suc ((nat ?S - 1) div nat ?a)" using q by (simp add: unat_usize_Suc)
  moreover have "rng_count r = Suc ((nat ?S - 1) div nat ?a)"
    using False rng_step_bound [OF assms]
    by (simp add: rng_count_def nat_add_distrib pos_imp_zdiv_nonneg_iff nat_div_distrib nat_diff_distrib)
  moreover have "range_len (Some r) = ret (?q + 1)"
    using False range_is_empty_iff [OF assms] span a0
    by (simp add: range_len_def rg_abs_step_ret [OF assms] Let_def flip: lo_def hi_def)
  ultimately show ?thesis by simp
qed

lemma wrap_isize_ok: "isize_ok x \<Longrightarrow> wrap_isize x = x"
  by (simp add: wrap_isize_def isize_defs)

lemma checked_add_isize_cases:
  "isize_ok a \<Longrightarrow> isize_ok b \<Longrightarrow>
   \<exists>v. checked_add_isize builtin a b (Some u) = ret (isize_ok (a + b), Some v) \<and> (isize_ok (a + b) \<longrightarrow> v = a + b)"
proof (cases builtin)
  case True
  then show ?thesis
    by (simp add: checked_add_isize_def checked_assert_result_def store_builtin_def builtin_overflow_isize_def
        wrap_isize_ok)
next
  case False
  assume "isize_ok a" "isize_ok b"
  with False show ?thesis by (auto simp: checked_add_isize_exact store_exact_def)
qed

lemma range_next_ret:
  assumes "rng_ok r" "0 < rng_span r"
  shows "range_next builtin u (Some r) = ret (rg_current r, Some (rng_advance r 1))"
proof -
  have has: "range_has_next (Some r)" using range_is_empty_iff [OF assms(1)] assms(2) by (simp add: range_has_next_def)
  have ok: "isize_ok (rg_current r)" "isize_ok (rg_step r)" "isize_ok (rg_end r)" using assms(1) by (simp_all add: rng_ok_def)
  obtain v where v: "checked_add_isize builtin (rg_current r) (rg_step r) (Some u) =
      ret (isize_ok (rg_current r + rg_step r), Some v)"
    "isize_ok (rg_current r + rg_step r) \<longrightarrow> v = rg_current r + rg_step r"
    using checked_add_isize_cases [OF ok(1,2)] by blast
  have "\<not> isize_ok (rg_current r + rg_step r) \<Longrightarrow> \<not> \<bar>rg_step r\<bar> < rng_span r"
    using ok by (auto simp: isize_ok_def rng_span_def split: if_splits)
  then show ?thesis
    using has v assms by (auto simp: range_next_def rng_advance_def Let_def rng_span_def rng_ok_def split: if_splits)
qed

lemma range_for_ret:
  "rng_ok r \<Longrightarrow> rng_count r < fuel \<Longrightarrow>
   \<exists>q. range_for builtin u fuel (Some r) = ret (rng_list r, Some q) \<and> range_is_empty (Some q)"
proof (induction fuel arbitrary: r)
  case (Suc fuel)
  show ?case
  proof (cases "rng_span r \<le> 0")
    case True
    then show ?thesis using range_is_empty_iff [OF Suc.prems(1)]
      by (simp add: range_has_next_def rng_list_def rng_count_def)
  next
    case False
    then have "length (rng_list r) = Suc (length (rng_list (rng_advance r 1)))"
      using rng_list_Cons [OF Suc.prems(1)] by simp
    then have "rng_count (rng_advance r 1) < fuel" using Suc.prems(2) by (simp add: rng_list_def)
    then obtain q where "range_for builtin u fuel (Some (rng_advance r 1)) = ret (rng_list (rng_advance r 1), Some q)"
      "range_is_empty (Some q)" using Suc.IH [OF rng_advance_ok [OF Suc.prems(1)]] by blast
    then show ?thesis
      using False range_is_empty_iff [OF Suc.prems(1)] range_next_ret [OF Suc.prems(1)] rng_list_Cons [OF Suc.prems(1)]
      by (simp add: range_has_next_def)
  qed
qed simp


text \<open>
  An offset of up to \<open>2 * ISIZE_MAX\<close> is applied in two parts that both fit an \<open>isize\<close>.
\<close>

lemma offset_words:
  assumes "0 \<le> e" "e < 2 ^ 64 - 1"
  shows "(word_of_int canon_isize_max :: usize) < word_of_int e \<longleftrightarrow> canon_isize_max < e"
    "canon_isize_max < e \<Longrightarrow> sint (word_of_int e - word_of_int canon_isize_max :: usize) = e - canon_isize_max"
    "e \<le> canon_isize_max \<Longrightarrow> sint (word_of_int e :: usize) = e"
proof -
  have ue: "uint (word_of_int e :: usize) = e" using assms by (simp add: uint_word_of_int)
  have um: "uint (word_of_int canon_isize_max :: usize) = canon_isize_max"
    by (simp add: uint_word_of_int canon_isize_max_def)
  show "(word_of_int canon_isize_max :: usize) < word_of_int e \<longleftrightarrow> canon_isize_max < e"
    unfolding word_less_def ue um ..
  have small: "sint (word_of_int x :: usize) = x" if "0 \<le> x" "x \<le> canon_isize_max" for x
    using that by (simp add: signed_of_int signed_take_bit_int_eq_self canon_isize_max_def)
  show "sint (word_of_int e - word_of_int canon_isize_max :: usize) = e - canon_isize_max" if "canon_isize_max < e"
    unfolding wi_hom_sub using that assms(2) by (intro small) (simp_all add: canon_isize_max_def)
  show "sint (word_of_int e :: usize) = e" if "e \<le> canon_isize_max"
    using assms(1) that by (rule small)
qed

lemma skip_forward:
  assumes "0 \<le> e" "e < 2 ^ 64 - 1" "isize_ok c" "isize_ok (c + e)"
  shows "bindR (if word_of_int canon_isize_max < (word_of_int e :: usize)
      then bindR (isize_val (c + canon_isize_max)) (\<lambda>c. ret (c, word_of_int e - word_of_int canon_isize_max))
      else ret (c, word_of_int e :: usize)) (\<lambda>(c, off). bindR (isize_val (c + sint off)) f) = f (c + e)"
proof (cases "canon_isize_max < e")
  case True
  then have "isize_ok (c + canon_isize_max)" using assms(3,4) by (simp add: isize_defs)
  with True assms show ?thesis
    by (simp add: offset_words(1) offset_words(2) [OF assms(1,2) True] isize_val_ret)
next
  case False
  with assms show ?thesis by (simp add: offset_words isize_val_ret)
qed

lemma skip_backward:
  assumes "0 \<le> e" "e < 2 ^ 64 - 1" "isize_ok c" "isize_ok (c - e)"
  shows "bindR (if word_of_int canon_isize_max < (word_of_int e :: usize)
      then bindR (isize_val (c - canon_isize_max)) (\<lambda>c. ret (c, word_of_int e - word_of_int canon_isize_max))
      else ret (c, word_of_int e :: usize)) (\<lambda>(c, off). bindR (isize_val (c - sint off)) f) = f (c - e)"
proof (cases "canon_isize_max < e")
  case True
  then have "isize_ok (c - canon_isize_max)" using assms(3,4) by (simp add: isize_defs)
  with True assms show ?thesis
    by (simp add: offset_words(1) offset_words(2) [OF assms(1,2) True] isize_val_ret)
next
  case False
  with assms show ?thesis by (simp add: offset_words isize_val_ret)
qed

lemma range_skip_ret:
  assumes "rng_ok r" "0 < rng_span r" "n \<noteq> 0"
  shows "range_skip (Some r) n = ret (Some (rng_advance r (unat n)))"
proof -
  obtain count where count: "range_len (Some r) = ret count" "unat count = rng_count r"
    using range_len_ret [OF assms(1)] by blast
  have ne: "\<not> range_is_empty (Some r)" using range_is_empty_iff [OF assms(1)] assms(2) by simp
  let ?a = "\<bar>rg_step r\<bar>"
  have past: "count \<le> n \<longleftrightarrow> \<not> int (unat n) * ?a < rng_span r"
    using less_rng_count [OF assms(1), of "unat n"] count(2) unfolding word_le_nat_alt by linarith
  show ?thesis
  proof (cases "count \<le> n")
    case True
    then show ?thesis using past count(1) ne assms(3) by (simp add: range_skip_def rng_advance_def)
  next
    case False
    define e where "e = int (unat n) * ?a"
    have e: "0 \<le> e" "e < rng_span r" using False past by (simp_all add: e_def)
    then have e64: "e < 2 ^ 64 - 1" using rng_span_bound [OF assms(1)] by linarith
    have "n * word_of_int ?a = (word_of_int e :: usize)" by (simp add: e_def)
    then obtain as where as: "rg_abs_step r = ret as" "n * as = word_of_int e"
      using rg_abs_step_ret [OF assms(1)] by blast
    note ok = assms(1) [unfolded rng_ok_def]
    show ?thesis
    proof (cases "rg_step r > 0")
      case True
      have "rng_advance r (unat n) = r\<lparr>rg_current := rg_current r + e\<rparr>"
        using e True by (simp add: rng_advance_def e_def)
      moreover have "isize_ok (rg_current r + e)" using e ok True by (simp add: isize_ok_def rng_span_def)
      ultimately show ?thesis
        using False count(1) ne assms(3) True skip_forward [OF e(1) e64, of "rg_current r"] ok
        by (simp add: range_skip_def as Let_def split del: if_split cong: if_cong)
    next
      case neg: False
      have "rng_advance r (unat n) = r\<lparr>rg_current := rg_current r - e\<rparr>"
        using e neg by (simp add: rng_advance_def e_def)
      moreover have "isize_ok (rg_current r - e)" using e ok neg by (simp add: isize_ok_def rng_span_def)
      ultimately show ?thesis
        using False count(1) ne assms(3) neg skip_backward [OF e(1) e64, of "rg_current r"] ok
        by (simp add: range_skip_def as Let_def split del: if_split cong: if_cong)
    qed
  qed
qed

lemma range_make_ok:
  "isize_ok a \<Longrightarrow> isize_ok b \<Longrightarrow> isize_ok s \<Longrightarrow> s \<noteq> canon_isize_min \<Longrightarrow>
   \<exists>r. range_make a b s = ret r \<and> rng_ok r \<and> rg_current r = a \<and> rg_end r = b \<and>
     rg_step r = (if s = 0 then 1 else s)"
  by (auto simp: range_make_def rng_ok_def isize_defs)

text \<open>\<open>n\<close> rounds of the loop \<open>while (range_has_next(r)) range_next(r)\<close>, at most.\<close>

fun range_nexts :: "bool \<Rightarrow> isize \<Rightarrow> nat \<Rightarrow> rng cptr \<Rightarrow> rng cptr run" where
  "range_nexts builtin uninit 0 p = ret p"
| "range_nexts builtin uninit (Suc n) p =
     (if range_has_next p then bindR (range_next builtin uninit p) (\<lambda>(v, q). range_nexts builtin uninit n q)
      else ret p)"

lemma range_nexts_ret:
  "rng_ok r \<Longrightarrow> range_nexts builtin u n (Some r) =
     ret (Some (if rng_span r \<le> 0 then r else rng_advance r n))"
proof (induction n arbitrary: r)
  case 0
  then show ?case by (simp add: rng_advance_0)
next
  case (Suc n)
  show ?case
  proof (cases "rng_span r \<le> 0")
    case True
    then show ?thesis using range_is_empty_iff [OF Suc.prems] by (simp add: range_has_next_def)
  next
    case False
    have step: "range_nexts builtin u (Suc n) (Some r) = range_nexts builtin u n (Some (rng_advance r 1))"
      using False range_is_empty_iff [OF Suc.prems] range_next_ret [OF Suc.prems] by (simp add: range_has_next_def)
    also have "\<dots> = ret (Some (if rng_span (rng_advance r 1) \<le> 0 then rng_advance r 1
        else rng_advance (rng_advance r 1) n))" by (rule Suc.IH [OF rng_advance_ok [OF Suc.prems]])
    also have "\<dots> = ret (Some (rng_advance r (Suc n)))"
    proof (cases "int 1 * \<bar>rg_step r\<bar> < rng_span r")
      case True
      then show ?thesis using rng_advance_add [OF Suc.prems True, of n] rng_advance_span [OF Suc.prems, of 1] by simp
    next
      case stop: False
      have "\<bar>rg_step r\<bar> \<le> int (Suc n) * \<bar>rg_step r\<bar>"
        using mult_right_mono [of 1 "int (Suc n)" "\<bar>rg_step r\<bar>"] by simp
      then have "\<not> int (Suc n) * \<bar>rg_step r\<bar> < rng_span r" using stop by linarith
      then show ?thesis using stop rng_advance_span [OF Suc.prems, of 1] by (simp add: rng_advance_def)
    qed
    finally show ?thesis using False by simp
  qed
qed

subsection \<open>The properties\<close>

text \<open>C40: \<open>RANGE_FOR\<close> over any range that \<open>range_make\<close> built ends, and its body sees exactly the values
  \<open>start\<close>, \<open>start + step\<close>, ... before the end, as many as \<open>range_len\<close> announces; no signed operation
  overflows, with either branch of the checked addition, even where \<open>current + step\<close> is not an
  \<open>isize\<close> or the span does not fit one.\<close>

theorem range_for_yields:
  "isize_ok a \<Longrightarrow> isize_ok b \<Longrightarrow> isize_ok s \<Longrightarrow> s \<noteq> canon_isize_min \<Longrightarrow>
   \<exists>r n vs q. range_make a b s = ret r \<and> range_len (Some r) = ret n \<and>
     range_for builtin u (Suc (unat n)) (Some r) = ret (vs, Some q) \<and> range_is_empty (Some q) \<and>
     length vs = unat n \<and> (\<forall>i < unat n. vs ! i = a + int i * (if s = 0 then 1 else s)) \<and>
     (if s \<ge> 0 then (\<forall>v \<in> set vs. v < b) \<and> a + int (unat n) * (if s = 0 then 1 else s) \<ge> b
      else (\<forall>v \<in> set vs. b < v) \<and> a + int (unat n) * s \<le> b)"
proof -
  assume "isize_ok a" "isize_ok b" "isize_ok s" "s \<noteq> canon_isize_min"
  then obtain r where r: "range_make a b s = ret r" "rng_ok r" "rg_current r = a" "rg_end r = b"
    "rg_step r = (if s = 0 then 1 else s)" using range_make_ok by blast
  obtain n where n: "range_len (Some r) = ret n" "unat n = rng_count r" using range_len_ret [OF r(2)] by blast
  obtain q where q: "range_for builtin u (Suc (unat n)) (Some r) = ret (rng_list r, Some q)" "range_is_empty (Some q)"
    using range_for_ret [OF r(2)] n(2) by fastforce
  have inside: "int i * \<bar>rg_step r\<bar> < rng_span r" if "i < unat n" for i
    using that n(2) less_rng_count [OF r(2)] by simp
  have outside: "\<not> int (unat n) * \<bar>rg_step r\<bar> < rng_span r"
    using n(2) less_rng_count [OF r(2), of "unat n"] by simp
  have in1: "rg_current r + int i * rg_step r < rg_end r" if "i < unat n" "rg_step r > 0" for i
    using inside [OF that(1)] that(2) by (simp add: rng_span_def)
  have in2: "rg_end r < rg_current r + int i * rg_step r" if "i < unat n" "\<not> rg_step r > 0" for i
    using inside [OF that(1)] that(2) by (simp add: rng_span_def)
  have "if s \<ge> 0 then (\<forall>v \<in> set (rng_list r). v < b) \<and> a + int (unat n) * (if s = 0 then 1 else s) \<ge> b
      else (\<forall>v \<in> set (rng_list r). b < v) \<and> a + int (unat n) * s \<le> b"
  proof (cases "rg_step r > 0")
    case True
    then have "\<forall>v \<in> set (rng_list r). v < b" using in1 n(2) r(4) by (auto simp: rng_list_def)
    then show ?thesis using True outside r(3-5) by (auto simp: rng_span_def split: if_splits)
  next
    case False
    then have "\<forall>v \<in> set (rng_list r). b < v" using in2 n(2) r(4) by (auto simp: rng_list_def)
    then show ?thesis using False outside r(3-5) by (auto simp: rng_span_def split: if_splits)
  qed
  then show ?thesis using r(1,3,5) n q by (intro exI [of _ r] exI [of _ n] exI [of _ "rng_list r"] exI [of _ q]) (simp add: rng_list_def)
qed

theorem range_for_yields_witness:
  "\<exists>r n vs q. range_make 10 0 (- 4) = ret r \<and> range_len (Some r) = ret n \<and>
     range_for True 0 (Suc (unat n)) (Some r) = ret (vs, Some q) \<and> length vs = unat n"
proof -
  have "isize_ok 10" "isize_ok 0" "isize_ok (- 4)" "- 4 \<noteq> canon_isize_min" by (simp_all add: isize_defs)
  from range_for_yields [OF this, of True 0] show ?thesis by blast
qed

text \<open>\<open>range_skip\<close>, which computes the new position in one step, leaves the range that up to \<open>n\<close> calls
  of \<open>range_next\<close> leave, for every \<open>n\<close>; and none of its signed operations overflows.\<close>

theorem range_skip_is_nexts:
  "rng_ok r \<Longrightarrow> range_skip (Some r) n = range_nexts builtin u (unat n) (Some r)"
proof -
  assume r: "rng_ok r"
  show ?thesis
  proof (cases "rng_span r \<le> 0 \<or> n = 0")
    case True
    then have "range_skip (Some r) n = ret (Some r)" using range_is_empty_iff [OF r] by (auto simp: range_skip_def)
    moreover have "range_nexts builtin u (unat n) (Some r) = ret (Some r)"
      using True range_nexts_ret [OF r] by (auto simp: rng_advance_0)
    ultimately show ?thesis by simp
  next
    case False
    then show ?thesis using range_skip_ret [OF r] range_nexts_ret [OF r] by simp
  qed
qed

theorem range_skip_is_nexts_witness:
  "range_skip (Some \<lparr>rg_current = 0, rg_end = 10, rg_step = 3\<rparr>) 2 =
   range_nexts False 0 2 (Some \<lparr>rg_current = 0, rg_end = 10, rg_step = 3\<rparr>)"
  using range_skip_is_nexts [of "\<lparr>rg_current = 0, rg_end = 10, rg_step = 3\<rparr>" 2 False 0]
  by (simp add: rng_ok_def isize_defs del: range_nexts.simps)

end
