(* ===== verification/Canon_Random.thy ===== *)
theory Canon_Random
  imports Canon_Prelude
begin

section \<open>The random generator (util/random.h)\<close>

text \<open>
  PCG32: a 64-bit linear congruential generator whose state is permuted into 32-bit outputs. The
  floating-point functions are not modelled. The loop of \<open>random_range\<close> that rejects small outputs
  takes a bound on its rounds; the theorem below shows that \<open>2 ^ 64\<close> rounds are enough from every
  state, because the generator has full period.
\<close>

record random_gen =
  rn_state :: u64
  rn_inc :: u64

definition random_step :: "u64 \<Rightarrow> u64 \<Rightarrow> u64" where
  "random_step inc oldstate = oldstate * 6364136223846793005 + inc"

definition random_output :: "u64 \<Rightarrow> u32" where
  "random_output oldstate =
     (let xorshifted = ucast (drop_bit 27 (drop_bit 18 oldstate XOR oldstate)) :: u32;
          rot = ucast (drop_bit 59 oldstate) :: u32 in
      drop_bit (unat rot) xorshifted OR push_bit (unat (- rot AND 31)) xorshifted)"

definition random_u32 :: "random_gen cptr \<Rightarrow> (u32 \<times> random_gen cptr) run" where
  "random_u32 p = require_msg (p \<noteq> None) ''random_u32: r is NULL'' (bindR (deref p) (\<lambda>r.
     ret (random_output (rn_state r), Some (r\<lparr>rn_state := random_step (rn_inc r) (rn_state r)\<rparr>))))"

definition random_seed :: "random_gen cptr \<Rightarrow> u64 \<Rightarrow> u64 \<Rightarrow> random_gen cptr run" where
  "random_seed p seed seq = require_msg (p \<noteq> None) ''random_seed: r is NULL''
     (bindR (random_u32 (Some \<lparr>rn_state = 0 + seed, rn_inc = push_bit 1 seq OR 1\<rparr>)) (\<lambda>(x, q).
      bindR (random_u32 q) (\<lambda>(y, q'). ret q')))"

fun random_range_loop :: "nat \<Rightarrow> u32 \<Rightarrow> random_gen cptr \<Rightarrow> (u32 \<times> random_gen cptr) run" where
  "random_range_loop 0 threshold p = undefined_behaviour ''the loop does not end''"
| "random_range_loop (Suc fuel) threshold p =
     bindR (random_u32 p) (\<lambda>(v, q).
       if v < threshold then random_range_loop fuel threshold q else ret (v, q))"

definition random_threshold :: "u32 \<Rightarrow> u32" where
  "random_threshold bound = - bound mod bound"

definition random_range :: "nat \<Rightarrow> random_gen cptr \<Rightarrow> u32 \<Rightarrow> (u32 \<times> random_gen cptr) run" where
  "random_range fuel p bound = require_msg (p \<noteq> None) ''random_range: r is NULL''
     (if bound = 0 then ret (0, p)
      else bindR (random_range_loop fuel (random_threshold bound) p) (\<lambda>(v, q). ret (v mod bound, q)))"

definition random_bool :: "random_gen cptr \<Rightarrow> (bool \<times> random_gen cptr) run" where
  "random_bool p = bindR (random_u32 p) (\<lambda>(v, q). ret (v AND 1 \<noteq> 0, q))"

text \<open>A signed 32-bit value, as \<open>isize_val\<close> for \<open>isize\<close>; the conversion from \<open>u32\<close> is two's complement.\<close>

definition i32_val :: "int \<Rightarrow> int run" where
  "i32_val x = (if - (2 ^ 31) \<le> x \<and> x < 2 ^ 31 then ret x else undefined_behaviour ''signed overflow'')"

definition random_i32_range :: "nat \<Rightarrow> random_gen cptr \<Rightarrow> int \<Rightarrow> int \<Rightarrow> (int \<times> random_gen cptr) run" where
  "random_i32_range fuel p lo hi = require_msg (p \<noteq> None) ''random_i32_range: r is NULL''
     (if lo \<ge> hi then ret (lo, p)
      else bindR (isize_val (hi - lo)) (\<lambda>d. bindR (isize_val (d + 1)) (\<lambda>span.
           bindR (random_range fuel p (word_of_int span)) (\<lambda>(v, q).
           bindR (i32_val (lo + sint v)) (\<lambda>x. ret (x, q))))))"

subsection \<open>Full period\<close>

text \<open>
  After \<open>n\<close> steps the state is \<open>a ^ n * s + inc * (1 + a + ... + a ^ (n - 1))\<close>. The sum doubles
  its index by a factor that is twice an odd number, so it is divisible by \<open>2 ^ k\<close> only where \<open>n\<close> is.
\<close>

definition lcg_mult :: nat where
  "lcg_mult = 6364136223846793005"

definition powers_sum :: "nat \<Rightarrow> nat" where
  "powers_sum n = (\<Sum>i < n. lcg_mult ^ i)"

lemma sum_lessThan_add: "(\<Sum>i < m + n. f i) = (\<Sum>i < m. f i) + (\<Sum>i < n. f (m + i))" for f :: "nat \<Rightarrow> nat"
  by (induction n) simp_all

lemma powers_sum_double: "powers_sum (2 * m) = powers_sum m * (1 + lcg_mult ^ m)"
  unfolding mult_2 powers_sum_def by (simp add: sum_lessThan_add power_add distrib_left sum_distrib_left sum_distrib_right sum.distrib ac_simps)

lemma lcg_mult_odd: "odd lcg_mult"
  by (simp add: lcg_mult_def)

lemma powers_sum_odd: "odd n \<Longrightarrow> odd (powers_sum n)"
proof -
  have "odd (powers_sum n) \<longleftrightarrow> odd n"
    by (induction n) (simp_all add: powers_sum_def lcg_mult_odd)
  then show "odd n \<Longrightarrow> odd (powers_sum n)" by simp
qed

lemma lcg_mult_power_mod: "lcg_mult ^ m mod 4 = 1"
proof -
  have "lcg_mult mod 4 = 1" by (simp add: lcg_mult_def)
  then show ?thesis by (metis mod_mod_trivial power_mod power_one mod_less one_less_numeral_iff semiring_norm(76))
qed

lemma dvd_powers_sum: "2 ^ k dvd powers_sum n \<Longrightarrow> 2 ^ k dvd n"
proof (induction k arbitrary: n)
  case (Suc k)
  have "even (powers_sum n)" using Suc.prems by (metis dvd_trans dvd_triv_left power_Suc)
  then have "even n" using powers_sum_odd [of n] by blast
  then obtain m where n: "n = 2 * m" by blast
  have "(1 + lcg_mult ^ m) mod 4 = 2" using lcg_mult_power_mod [of m] by presburger
  then have "(1 + lcg_mult ^ m) div 2 mod 2 = 1" "(1 + lcg_mult ^ m) mod 2 = 0" by presburger+
  then obtain q where q: "1 + lcg_mult ^ m = 2 * q" "odd q"
    by (metis div_mult_mod_eq add_0_right mult.commute odd_iff_mod_2_eq_one)
  have "2 ^ Suc k dvd 2 * (powers_sum m * q)"
    using Suc.prems unfolding n powers_sum_double q(1) by (simp add: ac_simps)
  then have "2 ^ k dvd powers_sum m * q" by simp
  moreover have "coprime (2 ^ k) q" using q(2) by simp
  ultimately have "2 ^ k dvd powers_sum m" by (simp add: coprime_dvd_mult_left_iff)
  then show ?case unfolding n using Suc.IH by simp
qed simp

lemma powers_sum_Suc: "powers_sum (Suc n) = lcg_mult * powers_sum n + 1"
proof (induction n)
  case (Suc n)
  have "powers_sum (Suc (Suc n)) = powers_sum (Suc n) + lcg_mult ^ Suc n" by (simp add: powers_sum_def)
  also have "\<dots> = lcg_mult * powers_sum n + 1 + lcg_mult * lcg_mult ^ n" using Suc by simp
  also have "\<dots> = lcg_mult * powers_sum (Suc n) + 1" by (simp add: powers_sum_def distrib_left)
  finally show ?case .
qed (simp add: powers_sum_def)

lemma random_step_eq: "random_step inc s = of_nat lcg_mult * s + inc"
  by (simp add: random_step_def lcg_mult_def mult.commute)

lemma random_steps:
  "(random_step inc ^^ n) s = of_nat (lcg_mult ^ n) * s + inc * of_nat (powers_sum n)"
proof (induction n)
  case (Suc n)
  have "(random_step inc ^^ Suc n) s = of_nat lcg_mult * (of_nat (lcg_mult ^ n) * s + inc * of_nat (powers_sum n)) + inc"
    by (simp add: Suc random_step_eq)
  also have "\<dots> = of_nat (lcg_mult ^ Suc n) * s + inc * of_nat (powers_sum (Suc n))"
    unfolding powers_sum_Suc by (simp add: algebra_simps)
  finally show ?case .
qed (simp add: powers_sum_def)

lemma powers_sum_telescope: "(lcg_mult - 1) * powers_sum n + 1 = lcg_mult ^ n"
proof (induction n)
  case (Suc n)
  have "(lcg_mult - 1) * powers_sum (Suc n) + 1 = ((lcg_mult - 1) * powers_sum n + 1) + (lcg_mult - 1) * lcg_mult ^ n"
    by (simp add: powers_sum_def distrib_left)
  also have "\<dots> = lcg_mult ^ n + (lcg_mult - 1) * lcg_mult ^ n" unfolding Suc.IH ..
  also have "\<dots> = lcg_mult ^ Suc n" by (simp add: lcg_mult_def)
  finally show ?case .
qed (simp add: powers_sum_def)

lemma even_unat_iff: "even (unat u) \<longleftrightarrow> even u" for u :: u64
  using even_of_nat [of "unat u", where 'a = u64] by simp

lemma odd_word_mult_eq_0:
  fixes x u :: u64
  assumes "x * u = 0" "odd (unat u)"
  shows "x = 0"
proof -
  have "(of_nat (unat x * unat u) :: u64) = 0" using assms(1) by simp
  then have "2 ^ 64 dvd unat x * unat u" by (simp only: word_of_nat_eq_0_iff) simp
  moreover have "coprime (2 ^ 64) (unat u)" using assms(2) by (simp only: coprime_power_left_iff coprime_left_2_iff_odd) simp
  ultimately have "2 ^ 64 dvd unat x" by (simp only: coprime_dvd_mult_left_iff)
  then show "x = 0" using usize_bound [of x] by (metis nat_dvd_not_less unat_gt_0 word_gt_0)
qed

lemma full_period:
  assumes "odd (unat inc)" "(random_step inc ^^ n) s = s"
  shows "2 ^ 64 dvd n"
proof -
  have tele: "(of_nat (lcg_mult ^ n) :: u64) = of_nat (lcg_mult - 1) * of_nat (powers_sum n) + 1"
    unfolding powers_sum_telescope [symmetric] by simp
  have "of_nat (powers_sum n) * (of_nat (lcg_mult - 1) * s + inc) = (0 :: u64)"
    using assms(2) unfolding random_steps tele by (simp add: algebra_simps)
  moreover have "odd (unat (of_nat (lcg_mult - 1) * s + inc))"
    using assms(1) lcg_mult_odd by (simp add: even_unat_iff)
  ultimately have "of_nat (powers_sum n) = (0 :: u64)" by (rule odd_word_mult_eq_0)
  then have "2 ^ 64 dvd powers_sum n" by (simp only: word_of_nat_eq_0_iff) simp
  then show ?thesis by (rule dvd_powers_sum)
qed


text \<open>Hence every state is reached from every state.\<close>

lemma random_steps_inj:
  assumes "odd (unat inc)"
  shows "inj_on (\<lambda>n. (random_step inc ^^ n) s) {..<2 ^ 64}"
proof (rule linorder_inj_onI)
  fix i j :: nat
  assume "i < j" "i \<in> {..<2 ^ 64}" "j \<in> {..<2 ^ 64}"
  show "(random_step inc ^^ i) s \<noteq> (random_step inc ^^ j) s"
  proof
    assume eq: "(random_step inc ^^ i) s = (random_step inc ^^ j) s"
    obtain d where d: "j = d + i" "0 < d"
      using less_imp_add_positive [OF \<open>i < j\<close>] by (metis add.commute)
    have "(random_step inc ^^ d) ((random_step inc ^^ i) s) = (random_step inc ^^ i) s"
      using eq unfolding d(1) funpow_add o_apply by (rule sym)
    then have "2 ^ 64 dvd d" by (rule full_period [OF assms])
    then have "2 ^ 64 \<le> d" using d(2) by (rule dvd_imp_le)
    then show False using d(1) \<open>j \<in> {..<2 ^ 64}\<close> by simp
  qed
qed auto

lemma random_steps_reach:
  assumes "odd (unat inc)"
  shows "\<exists>n < 2 ^ 64. (random_step inc ^^ n) s = t"
proof -
  let ?f = "\<lambda>n. (random_step inc ^^ n) s"
  have "card (?f ` {..<2 ^ 64}) = card (UNIV :: u64 set)"
    unfolding card_image [OF random_steps_inj [OF assms]] by (simp add: card_word)
  from card_subset_eq [OF finite subset_UNIV this] have "t \<in> ?f ` {..<2 ^ 64}" by blast
  then show ?thesis by blast
qed

subsection \<open>The operations\<close>

definition rn_ok :: "random_gen cptr \<Rightarrow> bool" where
  "rn_ok p \<longleftrightarrow> (case p of None \<Rightarrow> False | Some r \<Rightarrow> odd (unat (rn_inc r)))"

lemma random_u32_ret:
  "random_u32 (Some r) = ret (random_output (rn_state r), Some (r\<lparr>rn_state := random_step (rn_inc r) (rn_state r)\<rparr>))"
  by (simp add: random_u32_def)

lemma random_seed_ok: "\<exists>q. random_seed (Some r) seed seq = ret q \<and> rn_ok q"
proof -
  have "odd (push_bit 1 seq OR 1)" by (simp add: even_or_iff)
  then show ?thesis by (simp add: random_seed_def random_u32_ret rn_ok_def even_unat_iff)
qed

text \<open>The loop returns within as many rounds as it takes to reach an output that is not rejected.\<close>

lemma random_range_loop_ret:
  "\<not> random_output ((random_step (rn_inc r) ^^ n) (rn_state r)) < threshold \<Longrightarrow> n < fuel \<Longrightarrow>
   \<exists>v r'. random_range_loop fuel threshold (Some r) = ret (v, Some r') \<and> \<not> v < threshold \<and> rn_inc r' = rn_inc r"
proof (induction n arbitrary: r fuel)
  case 0
  then obtain k where "fuel = Suc k" by (cases fuel) auto
  with 0 show ?case by (simp add: random_u32_ret)
next
  case (Suc n)
  then obtain k where k: "fuel = Suc k" "n < k" by (cases fuel) auto
  let ?r = "r\<lparr>rn_state := random_step (rn_inc r) (rn_state r)\<rparr>"
  have "\<not> random_output ((random_step (rn_inc ?r) ^^ n) (rn_state ?r)) < threshold"
    using Suc.prems(1) by (simp flip: funpow_swap1)
  from Suc.IH [OF this k(2)] show ?case using k(1) by (simp add: random_u32_ret not_less)
qed

lemma random_output_max: "random_output 0x7fffe0000000000 = 0xFFFFFFFF"
  by (simp add: random_output_def Let_def)

lemma random_range_loop_ends:
  assumes "rn_ok p"
  shows "\<exists>v q. random_range_loop (2 ^ 64) threshold p = ret (v, q) \<and> \<not> v < threshold \<and> rn_ok q"
proof -
  obtain r where r: "p = Some r" "odd (unat (rn_inc r))" using assms by (auto simp: rn_ok_def split: option.splits)
  obtain n where n: "n < 2 ^ 64" "(random_step (rn_inc r) ^^ n) (rn_state r) = 0x7fffe0000000000"
    using random_steps_reach [OF r(2)] by blast
  have "threshold \<le> 0xFFFFFFFF" using unsigned_less [of threshold, where 'a = nat] by (simp add: word_le_nat_alt)
  then have "\<not> random_output ((random_step (rn_inc r) ^^ n) (rn_state r)) < threshold"
    by (simp add: n(2) random_output_max not_less)
  from random_range_loop_ret [OF this n(1)] show ?thesis using r by (auto simp: rn_ok_def)
qed


subsection \<open>No bias\<close>

lemma unat_threshold: "bound \<noteq> 0 \<Longrightarrow> unat (random_threshold bound) = 2 ^ 32 mod unat bound"
proof -
  assume b: "bound \<noteq> 0"
  have le: "unat bound \<le> 2 ^ 32" using unsigned_less [of bound, where 'a = nat] by simp
  have "0 < unat bound" using b by (simp add: unat_gt_0)
  then have small: "2 ^ 32 - unat bound < 2 ^ LENGTH(32)" by simp
  have "- bound = of_nat (2 ^ 32 - unat bound)" using le by (simp add: of_nat_diff)
  then have "unat (- bound) = 2 ^ 32 - unat bound" using small by (simp only: unat_of_nat mod_less)
  moreover note le
  ultimately show ?thesis by (simp add: random_threshold_def unat_mod mod_if [of "2 ^ 32"] le_mod_geq)
qed

text \<open>Among the numbers from \<open>N mod b\<close> up to \<open>N\<close> each residue occurs \<open>N div b\<close> times.\<close>

lemma card_residue:
  fixes N b v :: nat
  assumes "v < b"
  shows "card {x. N mod b \<le> x \<and> x < N \<and> x mod b = v} = N div b"
proof -
  define t where "t = N mod b"
  have tb: "t < b" unfolding t_def using assms by (intro mod_less_divisor) simp
  define u where "u = (if t \<le> v then v else v + b)"
  have u: "t \<le> u" "u < t + b" "u mod b = v" using assms tb by (auto simp: u_def)
  have N: "N = t + b * (N div b)" by (simp add: t_def)
  have "{x. t \<le> x \<and> x < N \<and> x mod b = v} = (\<lambda>k. u + b * k) ` {..<N div b}"
  proof (intro set_eqI iffI)
    fix x assume x: "x \<in> {x. t \<le> x \<and> x < N \<and> x mod b = v}"
    have ge: "u \<le> x"
    proof (rule ccontr)
      assume "\<not> u \<le> x"
      with x u have "t \<le> x" "x < u" "x mod b = u mod b" by auto
      then obtain k where "u = x + b * k" "0 < k"
        by (metis mod_eq_nat1E mult_0_right add_0_right gr0I less_imp_le_nat order_less_irrefl)
      then have "x + b \<le> u" by simp
      with \<open>t \<le> x\<close> u(2) show False by linarith
    qed
    moreover have "x mod b = u mod b" using x u(3) by simp
    ultimately obtain k where k: "x = u + b * k" by (metis mod_eq_nat1E)
    have "k < N div b"
    proof (rule ccontr)
      assume "\<not> k < N div b"
      then have "b * (N div b) \<le> b * k" by simp
      moreover have "x < N" using x by simp
      ultimately show False using k N u(1) by linarith
    qed
    with k show "x \<in> (\<lambda>k. u + b * k) ` {..<N div b}" by blast
  next
    fix x assume "x \<in> (\<lambda>k. u + b * k) ` {..<N div b}"
    then obtain k where k: "x = u + b * k" "k < N div b" by blast
    have "b * Suc k \<le> b * (N div b)" using k(2) by (intro mult_le_mono2) simp
    then have "x < N" using k(1) N u(2) by simp
    then show "x \<in> {x. t \<le> x \<and> x < N \<and> x mod b = v}" using k(1) u by simp
  qed
  moreover have "inj_on (\<lambda>k. u + b * k) {..<N div b}" using assms by (intro inj_onI) simp
  ultimately show ?thesis by (simp add: card_image flip: t_def)
qed

lemma card_words: "card {x :: u32. P (unat x)} = card {n. n < 2 ^ 32 \<and> P n}"
proof -
  have "{n. n < 2 ^ 32 \<and> P n} = unat ` {x :: u32. P (unat x)}"
  proof (intro set_eqI iffI)
    fix n :: nat assume "n \<in> {n. n < 2 ^ 32 \<and> P n}"
    then have "unat (of_nat n :: u32) = n" "P n" by (simp_all add: unat_of_nat)
    then show "n \<in> unat ` {x :: u32. P (unat x)}" by (metis (mono_tags) image_eqI mem_Collect_eq)
  qed (use unsigned_less [where 'a = nat and 'b = 32] in auto)
  moreover have "inj_on unat {x :: u32. P (unat x)}" by (rule inj_onI) (simp add: word_unat_eq_iff)
  ultimately show ?thesis by (simp add: card_image)
qed

text \<open>\<open>random_range\<close> is unbiased: among the 32-bit outputs that it does not reject, exactly
  \<open>2 ^ 32 div bound\<close> give each value below the bound.\<close>

theorem random_range_unbiased:
  "v < bound \<Longrightarrow>
   card {x :: u32. \<not> x < random_threshold bound \<and> x mod bound = v} = 2 ^ 32 div unat bound"
proof -
  assume v: "v < bound"
  then have "bound \<noteq> 0" by auto
  then have "{x :: u32. \<not> x < random_threshold bound \<and> x mod bound = v} =
      {x. 2 ^ 32 mod unat bound \<le> unat x \<and> unat x mod unat bound = unat v}"
    by (simp add: word_less_nat_alt unat_threshold not_less word_unat_eq_iff unat_mod)
  also have "card \<dots> = card {n. n < 2 ^ 32 \<and> 2 ^ 32 mod unat bound \<le> n \<and> n mod unat bound = unat v}"
    by (rule card_words [where P = "\<lambda>n. 2 ^ 32 mod unat bound \<le> n \<and> n mod unat bound = unat v"])
  also have "{n. n < 2 ^ 32 \<and> 2 ^ 32 mod unat bound \<le> n \<and> n mod unat bound = unat v} =
      {n. 2 ^ 32 mod unat bound \<le> n \<and> n < 2 ^ 32 \<and> n mod unat bound = unat v}" by blast
  also have "card \<dots> = 2 ^ 32 div unat bound"
    using v by (intro card_residue) (simp add: word_less_nat_alt)
  finally show ?thesis .
qed

theorem random_range_unbiased_witness:
  "card {x :: u32. \<not> x < random_threshold 6 \<and> x mod 6 = 5} = 715827882"
  using random_range_unbiased [of 5 6] by simp

lemma random_range_value:
  assumes "rn_ok q" "0 < bound"
  shows "\<exists>v q'. random_range (2 ^ 64) q bound = ret (v, q') \<and> v < bound \<and> rn_ok q'"
proof -
  obtain v q' where loop: "random_range_loop (2 ^ 64) (random_threshold bound) q = ret (v, q')" "rn_ok q'"
    using random_range_loop_ends [OF assms(1)] by blast
  have "q \<noteq> None" using assms(1) by (cases q) (simp_all add: rn_ok_def)
  moreover have "v mod bound < bound" using assms(2) by (simp add: word_less_nat_alt unat_mod)
  ultimately show ?thesis using loop assms(2) by (auto simp: random_range_def)
qed

text \<open>C22: \<open>random_range\<close> always returns: a generator seeded with any seed and stream has full period, so
  from the state that \<open>random_seed\<close> leaves, and from any state with an odd increment, the loop
  finds an output that it accepts within \<open>2 ^ 64\<close> rounds, and the value is below the bound.\<close>

theorem random_range_returns:
  "\<exists>p. random_seed (Some r) seed seq = ret p \<and> rn_ok p \<and>
     (\<forall>q bound. rn_ok q \<and> 0 < bound \<longrightarrow>
        (\<exists>v q'. random_range (2 ^ 64) q bound = ret (v, q') \<and> v < bound \<and> rn_ok q'))"
  using random_seed_ok [of r seed seq] random_range_value by blast

theorem random_range_returns_witness:
  "\<exists>p v q'. random_seed (Some \<lparr>rn_state = 0, rn_inc = 0\<rparr>) 42 54 = ret p \<and>
     random_range (2 ^ 64) p 6 = ret (v, q') \<and> v < 6"
proof -
  have "0 < (6 :: u32)" by simp
  then show ?thesis using random_range_returns [of "\<lparr>rn_state = 0, rn_inc = 0\<rparr>" 42 54] by blast
qed


lemma uint_word_of_int_32: "0 \<le> k \<Longrightarrow> k < 2 ^ 32 \<Longrightarrow> uint (word_of_int k :: u32) = k"
  by (simp add: unsigned_of_int take_bit_int_eq_self)

lemma sint_u32: "sint v = (if v < 2 ^ 31 then uint v else uint v - 2 ^ 32)" for v :: u32
proof -
  have "sint v = (uint v + 2 ^ 31) mod 2 ^ 32 - 2 ^ 31"
    using int_word_sint [of "uint v", where 'a = 32] by simp
  moreover have "0 \<le> uint v" "uint v < 2 ^ 32" using unsigned_less [of v, where 'a = int] by simp_all
  moreover have "v < 2 ^ 31 \<longleftrightarrow> uint v < 2 ^ 31" by (simp add: word_less_def)
  moreover have "(x + 2 ^ 31) mod 2 ^ 32 - 2 ^ 31 = (if x < 2 ^ 31 then x else x - 2 ^ 32)"
    if "0 \<le> x" "x < 2 ^ 32" for x :: int
  proof (cases "x < 2 ^ 31")
    case True
    with that show ?thesis by simp
  next
    case False
    have "(x + 2 ^ 31) mod 2 ^ 32 = (x - 2 ^ 31) mod 2 ^ 32" using mod_add_self2 [of "x - 2 ^ 31" "2 ^ 32"] by (simp add: add.commute)
    also have "\<dots> = x - 2 ^ 31" using False that by simp
    finally show ?thesis using False by simp
  qed
  ultimately show ?thesis by simp
qed

text \<open>\<open>random_i32_range\<close> keeps to \<open>[lo, hi]\<close> when the two are less than \<open>2 ^ 31\<close> apart. When they are
  further apart and the draw is \<open>2 ^ 31\<close> or more, its conversion to \<open>i32\<close> is negative and the final
  signed addition overflows; and over the whole type the width is 0 modulo \<open>2 ^ 32\<close>, so that the
  result is always \<open>lo\<close>, whatever the state.\<close>

theorem random_i32_range_bounds:
  "rn_ok p \<Longrightarrow> - (2 ^ 31) \<le> lo \<Longrightarrow> lo < hi \<Longrightarrow> hi < 2 ^ 31 \<Longrightarrow>
   (if hi - lo < 2 ^ 31
    then \<exists>x q. random_i32_range (2 ^ 64) p lo hi = ret (x, q) \<and> lo \<le> x \<and> x \<le> hi \<and> rn_ok q
    else if hi - lo = 2 ^ 32 - 1 then random_i32_range (2 ^ 64) p lo hi = ret (lo, p)
    else \<exists>v q. random_range (2 ^ 64) p (word_of_int (hi - lo + 1)) = ret (v, q) \<and> rn_ok q \<and>
      (if 2 ^ 31 \<le> v then random_i32_range (2 ^ 64) p lo hi = undefined_behaviour ''signed overflow''
       else random_i32_range (2 ^ 64) p lo hi = ret (lo + int (unat v), q)))"
proof -
  assume p: "rn_ok p" and lo: "- (2 ^ 31) \<le> lo" and lt: "lo < hi" and hi: "hi < 2 ^ 31"
  define bound :: u32 where "bound = word_of_int (hi - lo + 1)"
  have pn: "p \<noteq> None" using p by (cases p) (simp_all add: rn_ok_def)
  have code: "random_i32_range (2 ^ 64) p lo hi =
      bindR (random_range (2 ^ 64) p bound) (\<lambda>(v, q). bindR (i32_val (lo + sint v)) (\<lambda>x. ret (x, q)))"
    using lo lt hi pn by (simp add: random_i32_range_def bound_def isize_val_def canon_isize_min_def canon_isize_max_def)
  show ?thesis
  proof (cases "hi - lo = 2 ^ 32 - 1")
    case True
    then have "bound = 0" by (simp add: bound_def word_of_int_eq_0_iff flip: of_int_add)
    then have "random_range (2 ^ 64) p bound = ret (0, p)" using pn by (simp add: random_range_def)
    moreover have "i32_val lo = ret lo" using lo lt hi by (simp add: i32_val_def)
    ultimately show ?thesis using True code by simp
  next
    case False
    then have uint: "uint bound = hi - lo + 1" unfolding bound_def
      using lo lt hi by (intro uint_word_of_int_32) simp_all
    then have "0 < bound" using lt by (simp add: word_less_def)
    then obtain v q where v: "random_range (2 ^ 64) p bound = ret (v, q)" "v < bound" "rn_ok q"
      using random_range_value [OF p] by blast
    have vb: "uint v \<le> hi - lo" using v(2) uint by (simp add: word_less_def)
    show ?thesis
    proof (cases "v < 2 ^ 31")
      case True
      then have s: "sint v = uint v" by (simp add: sint_u32)
      moreover have range: "- (2 ^ 31) \<le> lo + uint v" using lo uint_ge_0 [of v] by linarith
      ultimately have "random_i32_range (2 ^ 64) p lo hi = ret (lo + uint v, q)"
        using code v(1) vb hi range by (simp add: i32_val_def)
      moreover have "lo \<le> lo + uint v" "lo + uint v \<le> hi" using uint_ge_0 [of v] vb by linarith+
      ultimately show ?thesis using v True False unfolding bound_def [symmetric] by (auto simp: not_le)
    next
      case big: False
      then have "2 ^ 31 \<le> uint v" "sint v = uint v - 2 ^ 32" by (simp_all add: sint_u32 word_less_def)
      then have "random_i32_range (2 ^ 64) p lo hi = undefined_behaviour ''signed overflow''"
        using code v(1) vb hi by (simp add: i32_val_def)
      moreover have "\<not> hi - lo < 2 ^ 31" using \<open>2 ^ 31 \<le> uint v\<close> vb by simp
      ultimately show ?thesis using v big False unfolding bound_def [symmetric] by (auto simp: not_less)
    qed
  qed
qed


theorem random_i32_range_bounds_witness:
  "\<exists>x q. random_i32_range (2 ^ 64) (Some \<lparr>rn_state = 1, rn_inc = 1\<rparr>) (- 5) 5 = ret (x, q) \<and> - 5 \<le> x \<and> x \<le> 5"
proof -
  have "rn_ok (Some \<lparr>rn_state = 1, rn_inc = 1\<rparr>)" by (simp add: rn_ok_def)
  from random_i32_range_bounds [OF this, of "- 5" 5] show ?thesis by auto
qed

text \<open>
  One such draw: between \<open>- (2 ^ 31)\<close> and \<open>2 ^ 31 - 2\<close> from the state whose output is \<open>0xEFFFFBFF\<close>, the
  final addition leaves the type.
\<close>

lemma random_i32_range_overflow:
  "random_i32_range 1 (Some \<lparr>rn_state = 0x77ffe0000000000, rn_inc = 1\<rparr>) (- (2 ^ 31)) (2 ^ 31 - 2) =
   undefined_behaviour ''signed overflow''"
proof -
  have "random_output 0x77ffe0000000000 = 0xEFFFFBFF" by (simp add: random_output_def Let_def)
  moreover have "random_threshold 0xFFFFFFFF = 1" by (simp add: random_threshold_def)
  ultimately show ?thesis
    by (simp add: random_i32_range_def random_range_def random_u32_ret isize_val_def canon_isize_min_def
        canon_isize_max_def i32_val_def sint_u32)
qed

end
