(* ===== verification/Canon_Borrow.thy ===== *)
theory Canon_Borrow
  imports Canon_Pool
begin

section \<open>Lifetime tokens, tracked borrows and regions (core/primitives/lifetime.h, semantics/borrow.h, core/region.h)\<close>

text \<open>
  A borrow is a view with a tag for its source. In the build with CANON_LIFETIME_DEBUG it also
  holds a pointer to the lifetime of its owner and the token that the lifetime had when the borrow
  was made, and a read checks them; the flag \<open>debug\<close> of the functions selects the build. The
  lifetimes live in a store, because owner and borrow share them. The four borrow structs of the
  code differ in the view only and share the record \<open>borrow\<close>.

  A region runs cleanup hooks in reverse order of their registration and then resets its arena.
  A hook is a function of its context and of the rest of the state (the arenas and a world); the
  rule that the header states for hooks, that they leave the region itself alone, is built in.

  The lemmas: a tracked borrow can be read exactly as long as nothing has happened to its owner;
  tokens of one owner differ when the counter is atomic, and may coincide when it is not.
\<close>

subsection \<open>Tokens and lifetimes (core/primitives/lifetime.h)\<close>

type_synonym region_id = u64

definition region_id_static :: region_id where
  "region_id_static = 0"

record lifetime =
  lt_id :: region_id
  lt_open :: bool

type_synonym lt_ref = nat
type_synonym lt_store = "lt_ref \<Rightarrow> lifetime option"

definition lt_load :: "lt_store \<Rightarrow> lt_ref \<Rightarrow> lifetime run" where
  "lt_load lts r = (case lts r of None \<Rightarrow> undefined_behaviour ''dangling lifetime pointer'' | Some l \<Rightarrow> ret l)"

text \<open>The id made from one value of the counter, and the generator with its static counter.\<close>

definition lifetime_token :: "uptr \<Rightarrow> u64 \<Rightarrow> region_id" where
  "lifetime_token owner c = (let tok = c XOR owner in if tok = region_id_static then 1 else tok)"

definition canon_lifetime_next_id :: "uptr \<Rightarrow> u64 \<Rightarrow> region_id \<times> u64" where
  "canon_lifetime_next_id owner counter = (lifetime_token owner counter, counter + 1)"

text \<open>What the owners do with their lifetime: open it, restamp it, close it.\<close>

definition lifetime_open :: "uptr \<Rightarrow> lifetime \<Rightarrow> u64 \<Rightarrow> lifetime \<times> u64" where
  "lifetime_open owner l counter = (let (tok, counter') = canon_lifetime_next_id owner counter in
     (l\<lparr>lt_id := tok, lt_open := True\<rparr>, counter'))"

definition lifetime_restamp :: "uptr \<Rightarrow> lifetime \<Rightarrow> u64 \<Rightarrow> lifetime \<times> u64" where
  "lifetime_restamp owner l counter = (let (tok, counter') = canon_lifetime_next_id owner counter in
     (l\<lparr>lt_id := tok\<rparr>, counter'))"

definition lifetime_close :: "lifetime \<Rightarrow> lifetime" where
  "lifetime_close l = l\<lparr>lt_open := False\<rparr>"

subsection \<open>The check of a borrow (core/region.h, semantics/borrow.h)\<close>

definition lifetime_assert_valid :: "region_id \<Rightarrow> bool \<Rightarrow> region_id \<Rightarrow> string \<Rightarrow> unit run" where
  "lifetime_assert_valid source_id source_open borrow_id site =
     (if borrow_id = region_id_static then ret ()
      else require_msg source_open site (require_msg (source_id = borrow_id) site (ret ())))"

record 'v borrow =
  b_view :: 'v
  b_source :: uptr
  b_lt :: "lt_ref cptr"
  b_id :: region_id

definition borrow_lt_init :: "bool \<Rightarrow> lt_store \<Rightarrow> lt_ref cptr \<Rightarrow> 'v borrow \<Rightarrow> 'v borrow run" where
  "borrow_lt_init debug lts src b =
     (if \<not> debug then ret b
      else case src of
        None \<Rightarrow> ret (b\<lparr>b_lt := None, b_id := region_id_static\<rparr>)
      | Some r \<Rightarrow> bindR (lt_load lts r) (\<lambda>l. ret (b\<lparr>b_lt := Some r, b_id := lt_id l\<rparr>)))"

definition borrow_untracked :: "'v \<Rightarrow> uptr \<Rightarrow> 'v borrow" where
  "borrow_untracked v source = \<lparr>b_view = v, b_source = source, b_lt = None, b_id = region_id_static\<rparr>"

definition borrow_lt_check :: "bool \<Rightarrow> lt_store \<Rightarrow> 'v borrow \<Rightarrow> string \<Rightarrow> unit run" where
  "borrow_lt_check debug lts b site =
     (if \<not> debug then ret ()
      else case b_lt b of
        None \<Rightarrow> ret ()
      | Some r \<Rightarrow> bindR (lt_load lts r) (\<lambda>l. lifetime_assert_valid (lt_id l) (lt_open l) (b_id b) site))"

subsection \<open>Borrowed pointers\<close>

type_synonym borrowed_ptr = "uptr borrow"

definition borrowed_ptr_from :: "uptr \<Rightarrow> uptr \<Rightarrow> borrowed_ptr" where
  "borrowed_ptr_from p source = borrow_untracked p source"

definition borrowed_ptr_from_lifetime :: "bool \<Rightarrow> lt_store \<Rightarrow> uptr \<Rightarrow> lt_ref cptr \<Rightarrow> uptr \<Rightarrow> borrowed_ptr run" where
  "borrowed_ptr_from_lifetime debug lts p source_lt source = borrow_lt_init debug lts source_lt (borrow_untracked p source)"

definition borrowed_ptr_null :: borrowed_ptr where
  "borrowed_ptr_null = borrow_untracked null_ptr null_ptr"

definition borrowed_ptr_get :: "bool \<Rightarrow> lt_store \<Rightarrow> borrowed_ptr cptr \<Rightarrow> uptr run" where
  "borrowed_ptr_get debug lts p = (case p of
     None \<Rightarrow> violation ''borrowed_ptr_get: b must not be NULL''
   | Some b \<Rightarrow> bindR (borrow_lt_check debug lts b ''borrowed_ptr_get'') (\<lambda>_. ret (b_view b)))"

definition borrowed_ptr_is_valid :: "borrowed_ptr cptr \<Rightarrow> bool" where
  "borrowed_ptr_is_valid p = (case p of None \<Rightarrow> False | Some b \<Rightarrow> b_view b \<noteq> null_ptr)"

definition borrowed_ptr_eq :: "borrowed_ptr \<Rightarrow> borrowed_ptr \<Rightarrow> bool" where
  "borrowed_ptr_eq a b \<longleftrightarrow> b_view a = b_view b"

subsection \<open>Borrowed strings\<close>

type_synonym borrowed_str = "str borrow"

definition borrowed_str_from :: "str \<Rightarrow> uptr \<Rightarrow> borrowed_str" where
  "borrowed_str_from s source = borrow_untracked s source"

definition borrowed_str_from_lifetime :: "bool \<Rightarrow> lt_store \<Rightarrow> str \<Rightarrow> lt_ref cptr \<Rightarrow> uptr \<Rightarrow> borrowed_str run" where
  "borrowed_str_from_lifetime debug lts s source_lt source = borrow_lt_init debug lts source_lt (borrow_untracked s source)"

definition borrowed_str_from_cstr :: "heap \<Rightarrow> uptr \<Rightarrow> uptr \<Rightarrow> borrowed_str run" where
  "borrowed_str_from_cstr h cstr source = bindR (str_from_cstr h cstr) (\<lambda>s. ret (borrow_untracked s source))"

definition borrowed_str_empty :: borrowed_str where
  "borrowed_str_empty = borrow_untracked str_empty null_ptr"

definition borrowed_str_get :: "bool \<Rightarrow> lt_store \<Rightarrow> borrowed_str cptr \<Rightarrow> str run" where
  "borrowed_str_get debug lts p = (case p of
     None \<Rightarrow> violation ''borrowed_str_get: b must not be NULL''
   | Some b \<Rightarrow> bindR (borrow_lt_check debug lts b ''borrowed_str_get'') (\<lambda>_. ret (b_view b)))"

definition borrowed_str_is_valid :: "borrowed_str cptr \<Rightarrow> bool" where
  "borrowed_str_is_valid p = (case p of None \<Rightarrow> False | Some b \<Rightarrow> v_ptr (b_view b) \<noteq> null_ptr)"

definition borrowed_str_len :: "borrowed_str cptr \<Rightarrow> usize" where
  "borrowed_str_len p = (case p of None \<Rightarrow> 0 | Some b \<Rightarrow> v_len (b_view b))"

definition borrowed_str_eq :: "heap \<Rightarrow> borrowed_str \<Rightarrow> borrowed_str \<Rightarrow> bool run" where
  "borrowed_str_eq h a b = str_equal h (b_view a) (b_view b)"

text \<open>A part of a borrow inherits the source and the lifetime fields.\<close>

definition borrowed_str_slice :: "borrowed_str \<Rightarrow> usize \<Rightarrow> usize \<Rightarrow> borrowed_str" where
  "borrowed_str_slice b start stop = b\<lparr>b_view := str_slice (b_view b) start stop\<rparr>"

subsection \<open>Borrowed bytes\<close>

type_synonym borrowed_bytes = "cbytes borrow"

definition borrowed_bytes_from :: "uptr \<Rightarrow> usize \<Rightarrow> uptr \<Rightarrow> borrowed_bytes run" where
  "borrowed_bytes_from p len source = bindR (cbytes_from p len) (\<lambda>v. ret (borrow_untracked v source))"

definition borrowed_bytes_from_lifetime ::
  "bool \<Rightarrow> lt_store \<Rightarrow> uptr \<Rightarrow> usize \<Rightarrow> lt_ref cptr \<Rightarrow> uptr \<Rightarrow> borrowed_bytes run" where
  "borrowed_bytes_from_lifetime debug lts p len source_lt source = bindR (cbytes_from p len) (\<lambda>v.
     borrow_lt_init debug lts source_lt (borrow_untracked v source))"

definition borrowed_bytes_from_cbytes :: "cbytes \<Rightarrow> uptr \<Rightarrow> borrowed_bytes" where
  "borrowed_bytes_from_cbytes cb source = borrow_untracked cb source"

definition borrowed_bytes_empty :: borrowed_bytes where
  "borrowed_bytes_empty = borrow_untracked cbytes_empty null_ptr"

definition borrowed_bytes_get :: "bool \<Rightarrow> lt_store \<Rightarrow> borrowed_bytes cptr \<Rightarrow> cbytes run" where
  "borrowed_bytes_get debug lts p = (case p of
     None \<Rightarrow> violation ''borrowed_bytes_get: b must not be NULL''
   | Some b \<Rightarrow> bindR (borrow_lt_check debug lts b ''borrowed_bytes_get'') (\<lambda>_. ret (b_view b)))"

definition borrowed_bytes_len :: "borrowed_bytes cptr \<Rightarrow> usize" where
  "borrowed_bytes_len p = (case p of None \<Rightarrow> 0 | Some b \<Rightarrow> v_len (b_view b))"

definition borrowed_bytes_is_valid :: "borrowed_bytes cptr \<Rightarrow> bool" where
  "borrowed_bytes_is_valid p = (case p of None \<Rightarrow> False | Some b \<Rightarrow> v_ptr (b_view b) \<noteq> null_ptr)"

definition borrowed_bytes_eq :: "heap \<Rightarrow> borrowed_bytes \<Rightarrow> borrowed_bytes \<Rightarrow> bool run" where
  "borrowed_bytes_eq h a b = (let x = b_view a; y = b_view b in
     if v_len x \<noteq> v_len y then ret False
     else if v_len x = 0 then ret True
     else if v_ptr x = v_ptr y then ret True
     else if v_ptr x = null_ptr \<or> v_ptr y = null_ptr then ret False
     else bindR (std_memcmp h (v_ptr x) (v_ptr y) (v_len x)) (\<lambda>c. ret (c = 0)))"

definition borrowed_bytes_slice :: "borrowed_bytes \<Rightarrow> usize \<Rightarrow> usize \<Rightarrow> borrowed_bytes" where
  "borrowed_bytes_slice b start stop = (let base = v_ptr (b_view b); len = v_len (b_view b) in
     if base = null_ptr \<or> start \<ge> len then borrowed_bytes_empty
     else let e = (if stop > len then len else stop) in
       if start \<ge> e then borrowed_bytes_empty
       else b\<lparr>b_view := \<lparr>v_ptr = base + start, v_len = e - start\<rparr>\<rparr>)"

subsection \<open>Borrowed typed slices: \<open>DEFINE_BORROWED_SLICE(type)\<close>\<close>

type_synonym 'a borrowed_slice = "'a slice borrow"

definition borrowed_slice_from :: "'a slice \<Rightarrow> uptr \<Rightarrow> 'a borrowed_slice" where
  "borrowed_slice_from s source = borrow_untracked s source"

definition borrowed_slice_from_lifetime ::
  "bool \<Rightarrow> lt_store \<Rightarrow> 'a slice \<Rightarrow> lt_ref cptr \<Rightarrow> uptr \<Rightarrow> 'a borrowed_slice run" where
  "borrowed_slice_from_lifetime debug lts s source_lt source = borrow_lt_init debug lts source_lt (borrow_untracked s source)"

definition borrowed_slice_empty :: "'a borrowed_slice" where
  "borrowed_slice_empty = borrow_untracked slice_empty null_ptr"

definition borrowed_slice_get :: "bool \<Rightarrow> lt_store \<Rightarrow> 'a borrowed_slice cptr \<Rightarrow> 'a slice run" where
  "borrowed_slice_get debug lts p = (case p of
     None \<Rightarrow> violation ''borrowed_slice_get: b must not be NULL''
   | Some b \<Rightarrow> bindR (borrow_lt_check debug lts b ''borrowed_slice_get'') (\<lambda>_. ret (b_view b)))"

definition borrowed_slice_len :: "'a borrowed_slice cptr \<Rightarrow> usize" where
  "borrowed_slice_len p = (case p of None \<Rightarrow> 0 | Some b \<Rightarrow> s_len (b_view b))"

definition borrowed_slice_is_valid :: "'a borrowed_slice cptr \<Rightarrow> bool" where
  "borrowed_slice_is_valid p = (case p of None \<Rightarrow> False | Some b \<Rightarrow> s_ptr (b_view b) \<noteq> None)"

text \<open>A pointer to an element is its index and value, as in \<open>slice_at\<close>. There is no lifetime check.\<close>

definition borrowed_slice_at :: "'a borrowed_slice cptr \<Rightarrow> usize \<Rightarrow> (usize \<times> 'a) cptr run" where
  "borrowed_slice_at p i = (case p of
     None \<Rightarrow> ret None
   | Some b \<Rightarrow> (case s_ptr (b_view b) of
       None \<Rightarrow> ret None
     | Some xs \<Rightarrow> if i \<ge> s_len (b_view b) then ret None else bindR (arr_get xs i) (\<lambda>x. ret (Some (i, x)))))"

definition borrowed_slice_slice :: "'a borrowed_slice \<Rightarrow> usize \<Rightarrow> usize \<Rightarrow> 'a borrowed_slice" where
  "borrowed_slice_slice b start stop = b\<lparr>b_view := slice_slice (b_view b) start stop\<rparr>"

subsection \<open>Regions (core/region.h)\<close>

type_synonym 'w world = "arena_store \<times> 'w"
type_synonym ('c, 'w) hook = "'c cptr \<Rightarrow> 'w world \<Rightarrow> 'w world run"

record ('c, 'w) cleanup =
  hook_fn :: "('c, 'w) hook cptr"
  hook_ctx :: "'c cptr"

record ('c, 'w) rgn =
  rgn_id :: region_id
  rgn_open :: bool
  rgn_arena :: "arena_ref cptr"
  rgn_parent :: uptr
  rgn_cleanups :: "('c, 'w) cleanup list"
  rgn_hooks :: usize

definition region_max_cleanup :: usize where
  "region_max_cleanup = 8"

definition region_begin :: "uptr \<Rightarrow> ('c, 'w) rgn run" where
  "region_begin r =
     require_msg (r \<noteq> null_ptr) ''region_begin: r cannot be NULL''
     (ret \<lparr>rgn_id = r, rgn_open = True, rgn_arena = None, rgn_parent = null_ptr,
           rgn_cleanups = replicate (unat region_max_cleanup) \<lparr>hook_fn = None, hook_ctx = None\<rparr>, rgn_hooks = 0\<rparr>)"

fun region_hooks_loop ::
  "('c, 'w) cleanup list \<Rightarrow> 'w world \<Rightarrow> usize \<Rightarrow> nat \<Rightarrow> (('c, 'w) cleanup list \<times> 'w world) run" where
  "region_hooks_loop cs w i 0 = ret (cs, w)"
| "region_hooks_loop cs w i (Suc k) =
     bindR (arr_get cs (i - 1)) (\<lambda>h. case hook_fn h of
         None \<Rightarrow> region_hooks_loop cs w (i - 1) k
       | Some f \<Rightarrow> bindR (f (hook_ctx h) w) (\<lambda>w'.
           bindR (arr_set cs (i - 1) \<lparr>hook_fn = None, hook_ctx = None\<rparr>) (\<lambda>cs'.
             region_hooks_loop cs' w' (i - 1) k)))"

definition region_end :: "('c, 'w) rgn cptr \<Rightarrow> 'w world \<Rightarrow> (('c, 'w) rgn cptr \<times> 'w world) run" where
  "region_end p w = (case p of
     None \<Rightarrow> violation ''region_end: r cannot be NULL''
   | Some r \<Rightarrow>
       require_msg (rgn_open r) ''region_end: region is already closed''
       (bindR (region_hooks_loop (rgn_cleanups r) w (rgn_hooks r) (unat (rgn_hooks r))) (\<lambda>(cs, st, w').
        bindR (case rgn_arena r of
            None \<Rightarrow> ret st
          | Some a \<Rightarrow> bindR (arena_load st a) (\<lambda>ar. bindR (deref (arena_reset (Some ar))) (\<lambda>ar'. ret (st(a \<mapsto> ar')))))
          (\<lambda>st'. ret (Some (r\<lparr>rgn_cleanups := cs, rgn_hooks := 0, rgn_arena := None, rgn_open := False\<rparr>), st', w')))))"

definition region_attach_arena :: "('c, 'w) rgn cptr \<Rightarrow> arena_ref cptr \<Rightarrow> ('c, 'w) rgn cptr run" where
  "region_attach_arena p arena = (case p of
     None \<Rightarrow> violation ''region_attach_arena: r cannot be NULL''
   | Some r \<Rightarrow>
       require_msg (rgn_open r) ''region_attach_arena: region is not open''
       (require_msg (arena \<noteq> None) ''region_attach_arena: arena cannot be NULL''
         (ret (Some (r\<lparr>rgn_arena := arena\<rparr>)))))"

definition region_register ::
  "('c, 'w) rgn cptr \<Rightarrow> ('c, 'w) hook cptr \<Rightarrow> 'c cptr \<Rightarrow> (bool \<times> ('c, 'w) rgn cptr) run" where
  "region_register p fn ctx = (case p of
     None \<Rightarrow> violation ''region_register: r cannot be NULL''
   | Some r \<Rightarrow>
       require_msg (rgn_open r) ''region_register: region is not open''
       (require_msg (fn \<noteq> None) ''region_register: fn cannot be NULL''
       (if rgn_hooks r \<ge> region_max_cleanup then ret (False, p)
        else bindR (arr_set (rgn_cleanups r) (rgn_hooks r) \<lparr>hook_fn = fn, hook_ctx = ctx\<rparr>) (\<lambda>cs.
          ret (True, Some (r\<lparr>rgn_cleanups := cs, rgn_hooks := rgn_hooks r + 1\<rparr>))))))"

text \<open>The parent is its address with the region there.\<close>

definition region_set_parent :: "('c, 'w) rgn cptr \<Rightarrow> uptr \<times> ('c, 'w) rgn \<Rightarrow> ('c, 'w) rgn cptr run" where
  "region_set_parent p parent = (case p of
     None \<Rightarrow> violation ''region_set_parent: r cannot be NULL''
   | Some r \<Rightarrow>
       require_msg (rgn_open r) ''region_set_parent: region is not open''
       (require_msg (fst parent \<noteq> null_ptr) ''region_set_parent: parent cannot be NULL''
       (require_msg (rgn_open (snd parent)) ''region_set_parent: parent is not open''
         (ret (Some (r\<lparr>rgn_parent := fst parent\<rparr>))))))"

definition region_id :: "('c, 'w) rgn cptr \<Rightarrow> region_id" where
  "region_id p = (case p of Some r \<Rightarrow> rgn_id r | None \<Rightarrow> region_id_static)"

definition region_is_open :: "('c, 'w) rgn cptr \<Rightarrow> bool" where
  "region_is_open p = (case p of Some r \<Rightarrow> rgn_open r | None \<Rightarrow> False)"

definition region_has_parent :: "('c, 'w) rgn cptr \<Rightarrow> bool" where
  "region_has_parent p = (case p of Some r \<Rightarrow> rgn_parent r \<noteq> null_ptr | None \<Rightarrow> False)"

definition region_hook_count :: "('c, 'w) rgn cptr \<Rightarrow> usize" where
  "region_hook_count p = (case p of Some r \<Rightarrow> rgn_hooks r | None \<Rightarrow> 0)"

definition region_assert_open :: "('c, 'w) rgn cptr \<Rightarrow> unit run" where
  "region_assert_open p = (case p of
     None \<Rightarrow> violation ''region_assert_open: r cannot be NULL''
   | Some r \<Rightarrow> ensure_msg (rgn_open r) ''region_assert_open: region is closed - borrow may be invalid'' (ret ()))"

definition region_assert_borrow_valid :: "('c, 'w) rgn cptr \<Rightarrow> region_id \<Rightarrow> unit run" where
  "region_assert_borrow_valid p borrow_rid =
     (if borrow_rid = region_id_static then ret ()
      else case p of
        None \<Rightarrow> violation ''region_assert_borrow_valid: r cannot be NULL''
      | Some r \<Rightarrow>
          ensure_msg (rgn_open r) ''region_assert_borrow_valid: region is closed''
          (ensure_msg (rgn_id r = borrow_rid) ''region_assert_borrow_valid: ID mismatch - wrong region'' (ret ())))"

subsection \<open>The hooks of a region\<close>

definition region_ok :: "('c, 'w) rgn \<Rightarrow> (('c, 'w) hook \<times> 'c cptr) list \<Rightarrow> bool" where
  "region_ok r hs \<longleftrightarrow> rgn_open r \<and> length (rgn_cleanups r) = 8 \<and> length hs \<le> 8 \<and> unat (rgn_hooks r) = length hs \<and>
     take (length hs) (rgn_cleanups r) = map (\<lambda>(f, c). \<lparr>hook_fn = Some f, hook_ctx = c\<rparr>) hs"

fun register_all ::
  "('c, 'w) rgn cptr \<Rightarrow> (('c, 'w) hook \<times> 'c cptr) list \<Rightarrow> (bool list \<times> ('c, 'w) rgn cptr) run" where
  "register_all p [] = ret ([], p)"
| "register_all p ((f, c) # hs) = bindR (region_register p (Some f) c) (\<lambda>(ok, p').
     bindR (register_all p' hs) (\<lambda>(oks, q). ret (ok # oks, q)))"

fun run_hooks :: "(('c, 'w) hook \<times> 'c cptr) list \<Rightarrow> 'w world \<Rightarrow> 'w world run" where
  "run_hooks [] w = ret w"
| "run_hooks ((f, c) # hs) w = bindR (f c w) (run_hooks hs)"

lemma region_register_value:
  assumes "region_ok r hs" "length hs < 8"
  shows "\<exists>r'. region_register (Some r) (Some f) c = ret (True, Some r') \<and> region_ok r' (hs @ [(f, c)]) \<and>
    rgn_arena r' = rgn_arena r \<and> rgn_id r' = rgn_id r"
proof -
  have n: "unat (rgn_hooks r + 1) = Suc (length hs)"
    using assms by (subst unat_usize_Suc) (simp_all add: region_ok_def)
  let ?cs = "(rgn_cleanups r)[unat (rgn_hooks r) := \<lparr>hook_fn = Some f, hook_ctx = c\<rparr>]"
  have "take (Suc (length hs)) ?cs = map (\<lambda>(f, c). \<lparr>hook_fn = Some f, hook_ctx = c\<rparr>) (hs @ [(f, c)])"
    using assms take_Suc_update [of "length hs" "rgn_cleanups r"] by (simp add: region_ok_def)
  with assms n show ?thesis
    by (simp add: region_register_def region_ok_def region_max_cleanup_def word_le_nat_alt)
qed

lemma region_register_full:
  "region_ok r hs \<Longrightarrow> length hs = 8 \<Longrightarrow> region_register (Some r) (Some f) c = ret (False, Some r)"
  by (simp add: region_register_def region_ok_def region_max_cleanup_def word_le_nat_alt)

text \<open>The first eight hooks are registered, every further one is refused.\<close>

lemma register_all_value:
  "region_ok r hs \<Longrightarrow> \<exists>r'. register_all (Some r) gs =
     ret (map (\<lambda>i. length hs + i < 8) [0..<length gs], Some r') \<and> region_ok r' (hs @ take (8 - length hs) gs) \<and>
     rgn_arena r' = rgn_arena r \<and> rgn_id r' = rgn_id r"
proof (induction gs arbitrary: r hs)
  case (Cons g gs)
  obtain f c where g: "g = (f, c)" by (cases g)
  have upt: "map P [0..<length (g # gs)] = P 0 # map (\<lambda>i. P (Suc i)) [0..<length gs]" for P :: "nat \<Rightarrow> bool"
    by (simp add: upt_conv_Cons map_Suc_upt [symmetric] del: upt_Suc)
  show ?case
  proof (cases "length hs < 8")
    case True
    from region_register_value [OF Cons.prems True, of f c] obtain r' where r': "region_register (Some r) (Some f) c = ret (True, Some r')"
      "region_ok r' (hs @ [(f, c)])" "rgn_arena r' = rgn_arena r" "rgn_id r' = rgn_id r" by blast
    have "8 - length hs = Suc (8 - Suc (length hs))" using True by linarith
    with Cons.IH [OF r'(2)] r' True upt [of "\<lambda>i. length hs + i < 8"] show ?thesis
      by (auto simp: g simp del: upt_Suc)
  next
    case False
    then have "length hs = 8" using Cons.prems by (simp add: region_ok_def)
    with Cons.IH [OF Cons.prems] region_register_full [OF Cons.prems] upt [of "\<lambda>i. length hs + i < 8"]
    show ?thesis by (auto simp: g simp del: upt_Suc)
  qed
qed simp

lemma region_hooks_loop_value:
  "length hs < 2 ^ 64 \<Longrightarrow> take (length hs) cs = map (\<lambda>(f, c). \<lparr>hook_fn = Some f, hook_ctx = c\<rparr>) hs \<Longrightarrow>
   bindR (region_hooks_loop cs w (of_nat (length hs)) (length hs)) (\<lambda>(cs', w'). ret w') = run_hooks (rev hs) w"
proof (induction hs arbitrary: cs w rule: rev_induct)
  case (snoc g hs)
  obtain f c where g: "g = (f, c)" by (cases g)
  let ?n = "length hs"
  have idx: "of_nat (length (hs @ [g])) - 1 = (of_nat ?n :: usize)" by simp
  have u: "unat (of_nat ?n :: usize) = ?n" using snoc.prems(1) by (simp add: unat_of_nat take_bit_nat_eq_self)
  have len: "?n < length cs" using arg_cong [OF snoc.prems(2), of length] by (simp add: min_def split: if_splits)
  have h: "cs ! ?n = \<lparr>hook_fn = Some f, hook_ctx = c\<rparr>"
    using arg_cong [OF snoc.prems(2), of "\<lambda>l. l ! ?n"] g by (simp add: nth_append)
  have pre: "take ?n cs = map (\<lambda>(f, c). \<lparr>hook_fn = Some f, hook_ctx = c\<rparr>) hs"
    using arg_cong [OF snoc.prems(2), of "take ?n"] by (simp add: min_def)
  show ?case
  proof (cases "f c w")
    case (Inl e)
    then show ?thesis using idx u len h g by (simp del: of_nat_Suc)
  next
    case (Inr w')
    have "bindR (region_hooks_loop (cs[?n := \<lparr>hook_fn = None, hook_ctx = None\<rparr>]) w' (of_nat ?n) ?n)
        (\<lambda>(cs', w'). ret w') = run_hooks (rev hs) w'"
      using snoc.prems(1) pre by (intro snoc.IH) simp_all
    then show ?thesis using idx u len h g Inr by (simp del: of_nat_Suc)
  qed
qed simp

lemma region_begin_value:
  "p \<noteq> null_ptr \<Longrightarrow> \<exists>r. region_begin p = ret r \<and> region_ok r [] \<and> rgn_arena r = None \<and> rgn_id r = p"
  by (simp add: region_begin_def region_ok_def region_max_cleanup_def)

text \<open>The end of a region with \<open>hs\<close> registered: the hooks in reverse order, then the arena.\<close>

definition arena_emptied :: "arena_ref cptr \<Rightarrow> 'w world \<Rightarrow> 'w world run" where
  "arena_emptied a w = (case a of
     None \<Rightarrow> ret w
   | Some r \<Rightarrow> bindR (arena_load (fst w) r) (\<lambda>ar.
       ret ((fst w)(r \<mapsto> ar\<lparr>arena_offset := 0, arena_padding := 0\<rparr>), snd w)))"

lemma region_end_value:
  assumes "region_ok r hs"
  shows "bindR (region_end (Some r) w) (\<lambda>(p, w'). ret w') = bindR (run_hooks (rev hs) w) (arena_emptied (rgn_arena r))"
    "region_end (Some r) w = ret (p, w') \<Longrightarrow> \<exists>q. p = Some q \<and> \<not> rgn_open q \<and> rgn_hooks q = 0 \<and>
       rgn_arena q = None \<and> rgn_id q = rgn_id r"
proof -
  have n: "rgn_hooks r = of_nat (length hs)" "length hs < 2 ^ 64" "unat (rgn_hooks r) = length hs"
    using assms by (auto simp: region_ok_def unat_of_nat usize_eq_iff take_bit_nat_eq_self)
  have loop: "bindR (region_hooks_loop (rgn_cleanups r) w (rgn_hooks r) (unat (rgn_hooks r))) (\<lambda>(cs', w'). ret w') =
      run_hooks (rev hs) w"
    unfolding n(3) unfolding n(1) using assms n(2) by (intro region_hooks_loop_value) (simp_all add: region_ok_def)
  have o: "rgn_open r" using assms by (simp add: region_ok_def)
  show "bindR (region_end (Some r) w) (\<lambda>(p, w'). ret w') = bindR (run_hooks (rev hs) w) (arena_emptied (rgn_arena r))"
    unfolding loop [symmetric] using o
    by (cases "region_hooks_loop (rgn_cleanups r) w (rgn_hooks r) (unat (rgn_hooks r))")
      (auto simp: region_end_def arena_emptied_def arena_reset_def bindR_assoc split: option.splits)
  show "region_end (Some r) w = ret (p, w') \<Longrightarrow> \<exists>q. p = Some q \<and> \<not> rgn_open q \<and> rgn_hooks q = 0 \<and>
       rgn_arena q = None \<and> rgn_id q = rgn_id r"
    using o by (auto simp: region_end_def bindR_eq_Inr)
qed

subsection \<open>Tokens\<close>

lemma xor_cancel: "c XOR a = c' XOR a \<longleftrightarrow> c = c'" for a c c' :: u64
  by (metis bit.xor_left_self xor.commute xor.left_commute)

lemma xor_zero_iff: "c XOR a = 0 \<longleftrightarrow> c = a" for a c :: u64
  by (metis xor_cancel xor_self_eq)

lemma token_not_static: "lifetime_token owner c \<noteq> region_id_static"
  by (simp add: lifetime_token_def Let_def region_id_static_def)

text \<open>Two tokens of one owner differ, while the counter has not reached the address of the owner.\<close>

lemma token_distinct:
  "unat c < unat owner \<Longrightarrow> unat c' < unat owner \<Longrightarrow> lifetime_token owner c = lifetime_token owner c' \<longleftrightarrow> c = c'"
  by (auto simp: lifetime_token_def Let_def region_id_static_def xor_cancel xor_zero_iff)

text \<open>Owners that are opened one after the other, all of them still open at the end.\<close>

fun lt_opens :: "uptr list \<Rightarrow> u64 \<Rightarrow> lifetime list \<times> u64" where
  "lt_opens [] c = ([], c)"
| "lt_opens (owner # owners) c = (let (l, c1) = lifetime_open owner \<lparr>lt_id = region_id_static, lt_open = False\<rparr> c;
     (ls, c2) = lt_opens owners c1 in (l # ls, c2))"

lemma lt_opens_nth:
  "lt_opens owners c = (ls, c') \<Longrightarrow> length ls = length owners \<and>
    (\<forall>i < length owners. ls ! i = \<lparr>lt_id = lifetime_token (owners ! i) (c + of_nat i), lt_open = True\<rparr>)"
proof (induction owners arbitrary: c ls)
  case (Cons owner owners)
  obtain ls' where ls: "lt_opens owners (c + 1) = (ls', c')" "ls = \<lparr>lt_id = lifetime_token owner c, lt_open = True\<rparr> # ls'"
    using Cons.prems by (auto simp: lifetime_open_def canon_lifetime_next_id_def split: prod.splits)
  have "ls ! i = \<lparr>lt_id = lifetime_token ((owner # owners) ! i) (c + of_nat i), lt_open = True\<rparr>" if "i < Suc (length owners)" for i
    using Cons.IH [OF ls(1)] that by (cases i) (auto simp: ls(2) add.assoc)
  then show ?case using Cons.IH [OF ls(1)] ls(2) by simp
qed simp

lemma token_eq_iff:
  assumes "unat c < unat a" "unat d < unat b"
  shows "lifetime_token a c = lifetime_token b d \<longleftrightarrow> a XOR b = c XOR d"
proof -
  have "c \<noteq> a" "d \<noteq> b" using assms by auto
  then have "lifetime_token a c = c XOR a" "lifetime_token b d = d XOR b"
    by (simp_all add: lifetime_token_def Let_def region_id_static_def xor_zero_iff)
  moreover have "(c XOR a) XOR (d XOR b) = (a XOR b) XOR (c XOR d)" by (simp add: ac_simps)
  ultimately show ?thesis using xor_zero_iff [of "c XOR a" "d XOR b"] xor_zero_iff [of "a XOR b" "c XOR d"] by simp
qed

subsection \<open>Concurrent owners\<close>

text \<open>
  Threads that draw tokens for owners at one address (one after the other in that place). With an
  atomic counter a draw is one step. With the plain counter of the last resort it is a read of the
  counter into \<open>c_\<close> and the increment, a read and a write of the counter.
\<close>

datatype draw = Idle | Held u64 | Loaded u64 u64 | Drawn u64

inductive atomic_step :: "u64 \<times> (nat \<Rightarrow> draw) \<Rightarrow> u64 \<times> (nat \<Rightarrow> draw) \<Rightarrow> bool" where
  fetch_add: "ts t = Idle \<Longrightarrow> atomic_step (c, ts) (c + 1, ts(t := Drawn c))"

inductive plain_step :: "u64 \<times> (nat \<Rightarrow> draw) \<Rightarrow> u64 \<times> (nat \<Rightarrow> draw) \<Rightarrow> bool" where
  hold: "ts t = Idle \<Longrightarrow> plain_step (c, ts) (c, ts(t := Held c))"
| load: "ts t = Held d \<Longrightarrow> plain_step (c, ts) (c, ts(t := Loaded d c))"
| store: "ts t = Loaded d x \<Longrightarrow> plain_step (c, ts) (x + 1, ts(t := Drawn d))"

inductive_cases atomic_stepE: "atomic_step s s'"

inductive_simps plain_step_simps: "plain_step (c, ts) s'"

inductive runs :: "('s \<Rightarrow> 's \<Rightarrow> bool) \<Rightarrow> 's \<Rightarrow> nat \<Rightarrow> 's \<Rightarrow> bool" for step s where
  runs_none: "runs step s 0 s"
| runs_step: "runs step s n t \<Longrightarrow> step t u \<Longrightarrow> runs step s (Suc n) u"

text \<open>The invariant: all values drawn are below the counter and differ.\<close>

lemma atomic_runs_inv:
  assumes "runs atomic_step (1, \<lambda>_. Idle) n (c, ts)" "n < 2 ^ 64 - 1"
  shows "unat c = Suc n \<and> (\<forall>t d. ts t = Drawn d \<longrightarrow> unat d \<le> n) \<and>
    (\<forall>t u d. ts t = Drawn d \<longrightarrow> ts u = Drawn d \<longrightarrow> t = u) \<and> (\<forall>t. ts t = Idle \<or> (\<exists>d. ts t = Drawn d))"
  using assms
proof (induction n "(c, ts)" arbitrary: c ts rule: runs.induct)
  case (runs_step n mid)
  obtain c0 ts0 where mid: "mid = (c0, ts0)" by (cases mid)
  with runs_step have IH: "unat c0 = Suc n" "\<forall>t d. ts0 t = Drawn d \<longrightarrow> unat d \<le> n"
    "\<forall>t u d. ts0 t = Drawn d \<longrightarrow> ts0 u = Drawn d \<longrightarrow> t = u" "\<forall>t. ts0 t = Idle \<or> (\<exists>d. ts0 t = Drawn d)"
    by auto
  from runs_step(3) mid obtain t where t: "ts0 t = Idle" "c = c0 + 1" "ts = ts0(t := Drawn c0)"
    by (auto elim: atomic_stepE)
  have "unat c = Suc (Suc n)" using t(2) IH(1) runs_step.prems by (simp add: unat_usize_Suc)
  moreover have "ts0 x \<noteq> Drawn c0" for x using IH(1,2) by (metis Suc_n_not_le_n)
  ultimately show ?case using IH t by (auto simp: le_Suc_eq)
qed simp


lemma runs_stepI: "runs step s n t \<Longrightarrow> step t u \<Longrightarrow> n' = Suc n \<Longrightarrow> runs step s n' u"
  by (simp add: runs_step)

subsection \<open>Tracked reads\<close>

datatype lt_event = Lt_open | Lt_restamp | Lt_close

definition lt_event :: "uptr \<Rightarrow> lifetime \<times> u64 \<Rightarrow> lt_event \<Rightarrow> lifetime \<times> u64" where
  "lt_event owner s e = (case e of
     Lt_open \<Rightarrow> lifetime_open owner (fst s) (snd s)
   | Lt_restamp \<Rightarrow> lifetime_restamp owner (fst s) (snd s)
   | Lt_close \<Rightarrow> (lifetime_close (fst s), snd s))"

abbreviation lt_events :: "uptr \<Rightarrow> lifetime \<times> u64 \<Rightarrow> lt_event list \<Rightarrow> lifetime \<times> u64" where
  "lt_events owner s es \<equiv> foldl (lt_event owner) s es"

lemmas lt_event_defs = lt_event_def lifetime_open_def lifetime_restamp_def lifetime_close_def
  canon_lifetime_next_id_def Let_def

lemma snd_lt_event: "snd (lt_event owner s e) = (if e = Lt_close then snd s else snd s + 1)"
  by (cases e) (simp_all add: lt_event_defs)

lemma lt_events_counter:
  "unat (snd s) + length es < 2 ^ 64 \<Longrightarrow>
   unat (snd s) \<le> unat (snd (lt_events owner s es)) \<and> unat (snd (lt_events owner s es)) \<le> unat (snd s) + length es"
proof (induction es rule: rev_induct)
  case (snoc e es)
  let ?s = "lt_events owner s es"
  have IH: "unat (snd s) \<le> unat (snd ?s)" "unat (snd ?s) \<le> unat (snd s) + length es" using snoc by simp_all
  with snoc.prems have "unat (snd ?s + 1) = Suc (unat (snd ?s))" by (intro unat_usize_Suc) simp
  with IH show ?case by (simp add: snd_lt_event)
qed simp

lemma lt_event_stale:
  "unat c < unat (snd s) \<Longrightarrow> unat (snd s) < unat owner \<Longrightarrow>
   \<not> lt_open (fst (lt_event owner s e)) \<or> lt_id (fst (lt_event owner s e)) \<noteq> lifetime_token owner c"
  by (cases e) (auto simp: lt_event_defs token_distinct)

text \<open>After any event the lifetime is closed or has another token.\<close>

lemma lt_events_stale:
  assumes "unat c + length es < unat owner" "es \<noteq> []"
  shows "let s = lt_events owner (lifetime_open owner l c) es in \<not> lt_open (fst s) \<or> lt_id (fst s) \<noteq> lifetime_token owner c"
proof -
  obtain ds e where es: "es = ds @ [e]" using assms(2) by (metis rev_exhaust)
  have b: "unat owner < 2 ^ 64" by (rule order_less_le_trans [OF unsigned_less]) simp
  with assms es have suc: "unat (c + 1) = Suc (unat c)" by (intro unat_usize_Suc) simp
  then have s: "unat (snd (lifetime_open owner l c)) = Suc (unat c)" by (simp add: lt_event_defs)
  have "unat c < unat (snd (lt_events owner (lifetime_open owner l c) ds))"
    "unat (snd (lt_events owner (lifetime_open owner l c) ds)) < unat owner"
    using lt_events_counter [of "lifetime_open owner l c" ds owner] s assms(1) es b by simp_all
  then show ?thesis using lt_event_stale by (simp add: es Let_def)
qed

lemma lifetime_open_token [simp]: "lt_id (fst (lifetime_open owner l c)) = lifetime_token owner c"
  "lt_open (fst (lifetime_open owner l c))"
  by (simp_all add: lt_event_defs)

lemma bindR_ret: "bindR m ret = m"
  by (cases m) simp_all

lemma tracked_check:
  assumes "unat c + length es < unat owner" "lts r = Some (fst (lifetime_open owner l c))"
    "lts' r = Some (fst (lt_events owner (lifetime_open owner l c) es))"
  shows "bindR (borrow_lt_init True lts (Some r) (borrow_untracked v source)) (\<lambda>b.
      bindR (borrow_lt_check True lts' b site) (\<lambda>_. ret (b_view b))) =
    (if es = [] then ret v else violation site)"
  using assms lt_events_stale [OF assms(1), of l]
  by (auto simp: borrow_lt_init_def borrow_lt_check_def lt_load_def lifetime_assert_valid_def borrow_untracked_def
      require_msg_def token_not_static Let_def)


subsection \<open>Properties\<close>

text \<open>C12: In the debug build a view borrowed from an open owner can be read back, by the getter of
  pointers, strings and byte views, exactly when nothing was done to the owner since: after any
  sequence of reopenings, restampings (resets) and closings the read is a contract violation. The
  counter must not have reached the address of the owner.\<close>

theorem tracked_read_iff_no_event:
  assumes "unat c + length es < unat owner"
    and "lts r = Some (fst (lifetime_open owner l c))"
    and "lts' r = Some (fst (lt_events owner (lifetime_open owner l c) es))"
  shows "bindR (borrowed_ptr_from_lifetime True lts p (Some r) src) (\<lambda>b. borrowed_ptr_get True lts' (Some b)) =
      (if es = [] then ret p else violation ''borrowed_ptr_get'') \<and>
    bindR (borrowed_str_from_lifetime True lts s (Some r) src) (\<lambda>b. borrowed_str_get True lts' (Some b)) =
      (if es = [] then ret s else violation ''borrowed_str_get'') \<and>
    bindR (borrowed_bytes_from_lifetime True lts q n (Some r) src) (\<lambda>b. borrowed_bytes_get True lts' (Some b)) =
      (if es = [] then cbytes_from q n else bindR (cbytes_from q n) (\<lambda>_. violation ''borrowed_bytes_get''))"
  by (simp_all add: tracked_check [where lts = lts and lts' = lts' and r = r and l = l, OF assms] borrowed_ptr_from_lifetime_def borrowed_ptr_get_def borrowed_str_from_lifetime_def
      borrowed_str_get_def borrowed_bytes_from_lifetime_def borrowed_bytes_get_def bindR_assoc bindR_ret)

theorem tracked_read_iff_no_event_witness:
  "bindR (borrowed_ptr_from_lifetime True [0 \<mapsto> fst (lifetime_open 4096 \<lparr>lt_id = 0, lt_open = False\<rparr> 7)] 64 (Some 0) 4096)
     (\<lambda>b. borrowed_ptr_get True [0 \<mapsto> fst (lt_events 4096 (lifetime_open 4096 \<lparr>lt_id = 0, lt_open = False\<rparr> 7)
        [Lt_restamp, Lt_close])] (Some b)) = violation ''borrowed_ptr_get''"
  using tracked_read_iff_no_event [of 7 "[Lt_restamp, Lt_close]" 4096
      "[0 \<mapsto> fst (lifetime_open 4096 \<lparr>lt_id = 0, lt_open = False\<rparr> 7)]" 0 "\<lparr>lt_id = 0, lt_open = False\<rparr>"
      "[0 \<mapsto> fst (lt_events 4096 (lifetime_open 4096 \<lparr>lt_id = 0, lt_open = False\<rparr> 7) [Lt_restamp, Lt_close])]" 64 4096]
  by simp

text \<open>C33: When owners are opened one after the other from the first value of the counter on, fewer of them than the
  lowest of their addresses, every one that is open has a token that is not the static one, and two of them that are live
  at the same time have the same token exactly when the exclusive-or of their addresses is that of the positions,
  from 1, at which they were opened. So owners at one address never share a token, but owners at different
  addresses can.\<close>

theorem live_owners_share_token_iff:
  assumes "lt_opens owners 1 = (ls, c)" "\<forall>a \<in> set owners. length owners < unat a" "i < j" "j < length owners"
  shows "lt_open (ls ! i) \<and> lt_open (ls ! j) \<and> lt_id (ls ! i) \<noteq> region_id_static \<and> lt_id (ls ! j) \<noteq> region_id_static \<and>
    (lt_id (ls ! i) = lt_id (ls ! j) \<longleftrightarrow> owners ! i XOR owners ! j = of_nat (Suc i) XOR of_nat (Suc j)) \<and>
    (owners ! i = owners ! j \<longrightarrow> lt_id (ls ! i) \<noteq> lt_id (ls ! j))"
proof -
  have l: "ls ! k = \<lparr>lt_id = lifetime_token (owners ! k) (of_nat (Suc k)), lt_open = True\<rparr>" if "k < length owners" for k
    using lt_opens_nth [OF assms(1)] that by (simp add: add.commute)
  have big: "length owners < unat (owners ! k)" if "k < length owners" for k using assms(2) that by simp
  then have u: "unat (of_nat (Suc k) :: u64) = Suc k" if "k < length owners" for k
    using big [OF that] that usize_bound [of "owners ! k"] by (intro unat_of_small) linarith
  have "lifetime_token (owners ! i) (of_nat (Suc i)) = lifetime_token (owners ! j) (of_nat (Suc j)) \<longleftrightarrow>
      owners ! i XOR owners ! j = of_nat (Suc i) XOR of_nat (Suc j)"
    using u [of i] u [of j] big [of i] big [of j] assms(3,4) by (intro token_eq_iff) linarith+
  moreover have "(of_nat (Suc i) :: u64) \<noteq> of_nat (Suc j)"
    using u [of i] u [of j] assms(3,4) by (metis Suc_inject less_irrefl order_less_trans)
  then have "(of_nat (Suc i) :: u64) XOR of_nat (Suc j) \<noteq> 0" by (simp add: xor_zero_iff)
  ultimately show ?thesis using l [of i] l [of j] assms(3,4) token_not_static by auto
qed

theorem live_owners_share_token_iff_witness:
  "let owners = 4112 # replicate 15 8192 @ [4096] in \<exists>ls c. lt_opens owners 1 = (ls, c) \<and>
     lt_open (ls ! 0) \<and> lt_open (ls ! 16) \<and> lt_id (ls ! 0) = lt_id (ls ! 16) \<and> lt_id (ls ! 1) \<noteq> lt_id (ls ! 15)"
proof -
  let ?os = "4112 # replicate 15 8192 @ [4096] :: uptr list"
  obtain ls c where o: "lt_opens ?os 1 = (ls, c)" by (cases "lt_opens ?os 1")
  have small: "\<forall>a \<in> set ?os. length ?os < unat a" by simp
  have at: "?os ! 1 = 8192" "?os ! 15 = 8192" "?os ! 16 = 4096" "length ?os = 17" by (simp_all add: nth_append)
  have "lt_open (ls ! 0) \<and> lt_open (ls ! 16) \<and> lt_id (ls ! 0) = lt_id (ls ! 16)"
    using live_owners_share_token_iff [OF o small, of 0 16] unfolding at by simp
  moreover have "lt_id (ls ! 1) \<noteq> lt_id (ls ! 15)"
    using live_owners_share_token_iff [OF o small, of 1 15] unfolding at by simp
  ultimately show ?thesis unfolding Let_def using o by blast
qed

text \<open>C32: With an atomic counter, threads that draw tokens for owners at one address draw different
  ones, in every interleaving, as long as the counter stays below that address.\<close>

theorem atomic_tokens_distinct:
  assumes "runs atomic_step (1, \<lambda>_. Idle) n (counter, ts)" "Suc n < unat owner"
    and "ts t = Drawn c" "ts u = Drawn d" "lifetime_token owner c = lifetime_token owner d"
  shows "t = u"
proof -
  have "unat owner < 2 ^ 64" by (rule order_less_le_trans [OF unsigned_less]) simp
  with assms(2) have "n < 2 ^ 64 - 1" by simp
  note inv = atomic_runs_inv [OF assms(1) this]
  then have "unat c < unat owner" "unat d < unat owner" using assms(2,3,4) by fastforce+
  then have "c = d" using assms(5) by (simp add: token_distinct)
  with inv assms(3,4) show ?thesis by blast
qed

theorem atomic_tokens_distinct_witness:
  "runs atomic_step (1, \<lambda>_. Idle) 2 (3, (\<lambda>_. Idle)(0 := Drawn 1, 1 := Drawn 2)) \<and>
   lifetime_token 4096 1 \<noteq> lifetime_token 4096 2"
proof -
  have "atomic_step (1, \<lambda>_. Idle) (2, (\<lambda>_. Idle)(0 := Drawn 1))" "atomic_step (2, (\<lambda>_. Idle)(0 := Drawn 1))
      (3, (\<lambda>_. Idle)(0 := Drawn 1, 1 := Drawn 2))"
    using fetch_add [of "\<lambda>_. Idle" 0 1] fetch_add [of "(\<lambda>_. Idle)(0 := Drawn 1)" 1 2] by simp_all
  then have r: "runs atomic_step (1, \<lambda>_. Idle) 2 (3, (\<lambda>_. Idle)(0 := Drawn 1, 1 := Drawn 2))"
    by (intro runs_stepI [OF runs_stepI [OF runs_none]]) (assumption | rule refl | simp)+
  then show ?thesis using atomic_tokens_distinct [OF r, of 4096 0 1 1 2] by auto
qed

text \<open>With the plain counter of the last resort two threads can draw one token: there is a run
  of six steps in which both have the value 1, while the counter has moved on by one.\<close>

theorem plain_counter_races:
  "runs plain_step (1, \<lambda>_. Idle) 6 (2, (\<lambda>_. Idle)(0 := Drawn 1, 1 := Drawn 1))"
proof -
  let ?i = "\<lambda>_. Idle" and ?step = "plain_step"
  have "?step (1, ?i) (1, ?i(0 := Held 1))" "?step (1, ?i(0 := Held 1)) (1, ?i(0 := Held 1, 1 := Held 1))"
    using hold [of ?i 0 1] hold [of "?i(0 := Held 1)" 1 1] by simp_all
  moreover have "?step (1, ?i(0 := Held 1, 1 := Held 1)) (1, ?i(0 := Loaded 1 1, 1 := Held 1))"
    using load [of "?i(0 := Held 1, 1 := Held 1)" 0 1 1] by (simp add: fun_upd_twist)
  moreover have "?step (1, ?i(0 := Loaded 1 1, 1 := Held 1)) (1, ?i(0 := Loaded 1 1, 1 := Loaded 1 1))"
    using load [of "?i(0 := Loaded 1 1, 1 := Held 1)" 1 1 1] by simp
  moreover have "?step (1, ?i(0 := Loaded 1 1, 1 := Loaded 1 1)) (2, ?i(0 := Drawn 1, 1 := Loaded 1 1))"
    using store [of "?i(0 := Loaded 1 1, 1 := Loaded 1 1)" 0 1 1 1] by (simp add: fun_upd_twist)
  moreover have "?step (2, ?i(0 := Drawn 1, 1 := Loaded 1 1)) (2, ?i(0 := Drawn 1, 1 := Drawn 1))"
    using store [of "?i(0 := Drawn 1, 1 := Loaded 1 1)" 1 1 1 2] by simp
  ultimately show ?thesis
    by (intro runs_stepI [OF runs_stepI [OF runs_stepI [OF runs_stepI [OF runs_stepI [OF runs_stepI [OF runs_none]]]]]])
      (assumption | rule refl | simp)+
qed

text \<open>C31: The life of a region with an arena: of the hooks registered the first eight are accepted,
  \<open>region_end\<close> runs those in the reverse order of their registration, stops at a hook that fails,
  and empties the arena only after the last of them; the region is then closed.\<close>

theorem region_end_runs_hooks_lifo:
  fixes hs :: "(('c, 'w) hook \<times> 'c cptr) list"
  assumes "addr \<noteq> null_ptr"
  shows "bindR (region_begin addr) (\<lambda>r. bindR (region_attach_arena (Some r) (Some a)) (\<lambda>p.
      bindR (register_all p hs) (\<lambda>(oks, q). bindR (region_end q w) (\<lambda>(q', w'). ret (oks, region_is_open q', w'))))) =
    bindR (run_hooks (rev (take 8 hs)) w) (\<lambda>w1. bindR (arena_emptied (Some a) w1) (\<lambda>w2.
      ret (map (\<lambda>i. i < 8) [0..<length hs], False, w2)))"
proof -
  obtain r :: "('c, 'w) rgn" where r: "region_begin addr = ret r" "region_ok r []" using region_begin_value [OF assms] by blast
  have att: "region_attach_arena (Some r) (Some a) = ret (Some (r\<lparr>rgn_arena := Some a\<rparr>))"
    "region_ok (r\<lparr>rgn_arena := Some a\<rparr>) []"
    using r(2) by (simp_all add: region_attach_arena_def region_ok_def)
  obtain q where q: "register_all (Some (r\<lparr>rgn_arena := Some a\<rparr>)) hs = ret (map (\<lambda>i. i < 8) [0..<length hs], Some q)"
    "region_ok q (take 8 hs)" "rgn_arena q = Some a"
    using register_all_value [OF att(2), of hs] by auto
  have "bindR (region_end (Some q) w) (\<lambda>(q', w'). ret (map (\<lambda>i. i < 8) [0..<length hs], region_is_open q', w')) =
      bindR (bindR (region_end (Some q) w) (\<lambda>(q', w'). ret w')) (\<lambda>w2. ret (map (\<lambda>i. i < 8) [0..<length hs], False, w2))"
    using region_end_value(2) [OF q(2), of w]
    by (cases "region_end (Some q) w") (auto simp: region_is_open_def)
  then show ?thesis using r att q region_end_value(1) [OF q(2), of w] by (simp add: bindR_assoc)
qed

theorem region_end_runs_hooks_lifo_witness:
  "let log = (\<lambda>n c w. ret (fst w, snd w @ [n])) :: nat \<Rightarrow> (unit, nat list) hook in
   bindR (region_begin 4096) (\<lambda>r. bindR (region_attach_arena (Some r) (Some 0)) (\<lambda>p.
      bindR (register_all p [(log 1, None), (log 2, None)]) (\<lambda>(oks, q). bindR (region_end q
         ([0 \<mapsto> \<lparr>arena_buffer = 64, arena_cap = 32, arena_offset = 8, arena_padding = 0\<rparr>], [])) (\<lambda>(q', w').
        ret (oks, region_is_open q', w'))))) =
    ret ([True, True], False, [0 \<mapsto> \<lparr>arena_buffer = 64, arena_cap = 32, arena_offset = 0, arena_padding = 0\<rparr>], [2, 1])"
  unfolding Let_def
  by (subst region_end_runs_hooks_lifo) (simp_all add: arena_emptied_def arena_load_def null_ptr_def upt_rec fun_eq_iff)

end
