(* ===== verification/Canon_StringBuf.thy ===== *)
theory Canon_StringBuf
  imports Canon_Borrow
begin

section \<open>String buffers (data/stringbuf.h)\<close>

text \<open>
  A string builder of fixed capacity over bytes of the heap, which it gets from an arena or from the
  caller. The buffer always holds the string, a zero byte and unused bytes (\<open>sb_ok\<close>).

  \<open>vsnprintf\<close> is a parameter: a function of the heap, the destination, its size, the format and the
  arguments that gives a result and a heap. What the C standard promises of it is \<open>vsnprintf_ok\<close>. The
  functions with variable arguments only build the argument list, which is a parameter \<open>'a\<close> here. The
  empty string literal has an address, which is a parameter too.

  The lemmas: every operation keeps the invariant, the pointer and the capacity, and writes nothing
  outside the buffer; on sources outside the buffer the operations are those of a bounded list; an
  append of a part of the buffer itself works as well, because the copy is a memmove.
\<close>

record stringbuf =
  sb_arena :: "arena_ref cptr"
  sb_data :: uptr
  sb_len :: usize
  sb_cap :: usize

subsection \<open>Initialisation\<close>

definition stringbuf_init_arena ::
  "heap \<Rightarrow> stringbuf cptr \<Rightarrow> arena_ref cptr \<Rightarrow> arena_store \<Rightarrow> usize \<Rightarrow> (bool \<times> heap \<times> stringbuf cptr \<times> arena_store) run" where
  "stringbuf_init_arena h p arena st initial_cap = (case p of
     None \<Rightarrow> violation ''stringbuf_init_arena: sb cannot be NULL''
   | Some sb \<Rightarrow> (case arena of
       None \<Rightarrow> violation ''stringbuf_init_arena: arena cannot be NULL''
     | Some r \<Rightarrow>
         require_msg (initial_cap > 1) ''stringbuf_init_arena: initial_cap must be > 1''
         (bindR (arena_load st r) (\<lambda>a.
          bindR (arena_alloc (Some a) initial_cap) (\<lambda>(buf, p').
          bindR (deref p') (\<lambda>a'. let st' = st(r \<mapsto> a') in
          if buf = null_ptr then ret (False, h, p, st')
          else bindR (write_bytes h buf [0]) (\<lambda>h'.
            ret (True, h', Some (sb\<lparr>sb_arena := arena, sb_data := buf, sb_len := 0, sb_cap := initial_cap\<rparr>), st'))))))))"

definition stringbuf_init_buffer :: "heap \<Rightarrow> stringbuf cptr \<Rightarrow> uptr \<Rightarrow> usize \<Rightarrow> (heap \<times> stringbuf cptr) run" where
  "stringbuf_init_buffer h p buffer cap = (case p of
     None \<Rightarrow> violation ''stringbuf_init_buffer: sb cannot be NULL''
   | Some sb \<Rightarrow>
       require_msg (buffer \<noteq> null_ptr) ''stringbuf_init_buffer: buffer cannot be NULL''
       (require_msg (cap > 1) ''stringbuf_init_buffer: cap must be > 1''
       (bindR (write_bytes h buffer [0]) (\<lambda>h'.
         ret (h', Some (sb\<lparr>sb_arena := None, sb_data := buffer, sb_len := 0, sb_cap := cap\<rparr>))))))"

text \<open>The lifetime of a string buffer, in the debug build (a no-op in the default build).\<close>

definition stringbuf_lifetime_open :: "bool \<Rightarrow> uptr \<Rightarrow> lifetime \<Rightarrow> u64 \<Rightarrow> lifetime \<times> u64" where
  "stringbuf_lifetime_open debug sb lt counter = (if debug then lifetime_open sb lt counter else (lt, counter))"

definition stringbuf_lifetime_close :: "bool \<Rightarrow> lifetime \<Rightarrow> lifetime" where
  "stringbuf_lifetime_close debug lt = (if debug then lifetime_close lt else lt)"

definition stringbuf_close :: "bool \<Rightarrow> stringbuf cptr \<Rightarrow> lifetime \<Rightarrow> lifetime" where
  "stringbuf_close debug p lt = (if p = None then lt else stringbuf_lifetime_close debug lt)"

subsection \<open>Appending\<close>

definition stringbuf_append_bytes ::
  "bool \<Rightarrow> heap \<Rightarrow> stringbuf \<Rightarrow> uptr \<Rightarrow> usize \<Rightarrow> (bool \<times> heap \<times> stringbuf) run" where
  "stringbuf_append_bytes builtin h sb src add_len =
     bindR (checked_add builtin (sb_len sb) add_len (Some 0)) (\<lambda>(fits, e).
     if \<not> fits then ret (False, h, sb)
     else bindR (deref e) (\<lambda>end_len.
     bindR (checked_add builtin end_len 1 (Some 0)) (\<lambda>(fits2, w).
     if \<not> fits2 then ret (False, h, sb)
     else bindR (deref w) (\<lambda>with_nul.
     if with_nul > sb_cap sb then ret (False, h, sb)
     else bindR (mem_move h (sb_data sb + sb_len sb) src add_len) (\<lambda>h1.
     bindR (write_bytes h1 (sb_data sb + end_len) [0]) (\<lambda>h2.
       ret (True, h2, sb\<lparr>sb_len := end_len\<rparr>)))))))"

definition on_stringbuf ::
  "heap \<Rightarrow> stringbuf cptr \<Rightarrow> (stringbuf \<Rightarrow> (bool \<times> heap \<times> stringbuf) run) \<Rightarrow> (bool \<times> heap \<times> stringbuf cptr) run" where
  "on_stringbuf h p f = (case p of
     None \<Rightarrow> ret (False, h, p)
   | Some sb \<Rightarrow> if sb_data sb = null_ptr then ret (False, h, p)
       else bindR (f sb) (\<lambda>(ok, h', sb'). ret (ok, h', Some sb')))"

definition stringbuf_append :: "bool \<Rightarrow> heap \<Rightarrow> stringbuf cptr \<Rightarrow> uptr \<Rightarrow> (bool \<times> heap \<times> stringbuf cptr) run" where
  "stringbuf_append builtin h p s = on_stringbuf h p (\<lambda>sb.
     if s = null_ptr then ret (True, h, sb)
     else bindR (std_strlen h s (2 ^ 64 - unat s)) (\<lambda>n. stringbuf_append_bytes builtin h sb s n))"

definition stringbuf_append_str :: "bool \<Rightarrow> heap \<Rightarrow> stringbuf cptr \<Rightarrow> str \<Rightarrow> (bool \<times> heap \<times> stringbuf cptr) run" where
  "stringbuf_append_str builtin h p s = on_stringbuf h p (\<lambda>sb.
     if v_ptr s = null_ptr \<or> v_len s = 0 then ret (True, h, sb)
     else stringbuf_append_bytes builtin h sb (v_ptr s) (v_len s))"

definition stringbuf_append_char :: "bool \<Rightarrow> heap \<Rightarrow> stringbuf cptr \<Rightarrow> u8 \<Rightarrow> (bool \<times> heap \<times> stringbuf cptr) run" where
  "stringbuf_append_char builtin h p c = on_stringbuf h p (\<lambda>sb.
     bindR (checked_add builtin (sb_len sb) 2 (Some 0)) (\<lambda>(fits, w).
     if \<not> fits then ret (False, h, sb)
     else bindR (deref w) (\<lambda>with_nul.
     if with_nul > sb_cap sb then ret (False, h, sb)
     else bindR (write_bytes h (sb_data sb + sb_len sb) [c]) (\<lambda>h1.
     let len = sb_len sb + 1 in
     bindR (write_bytes h1 (sb_data sb + len) [0]) (\<lambda>h2. ret (True, h2, sb\<lparr>sb_len := len\<rparr>))))))"

text \<open>The loop of \<open>stringbuf_append_n\<close>: \<open>k\<close> iterations are left, \<open>i\<close> is \<open>actual_len\<close>.\<close>

fun append_n_loop :: "heap \<Rightarrow> uptr \<Rightarrow> usize \<Rightarrow> nat \<Rightarrow> usize run" where
  "append_n_loop h s i 0 = ret i"
| "append_n_loop h s i (Suc k) = bindR (read_bytes h (s + i) 1) (\<lambda>bs.
     if hd bs = 0 then ret i else append_n_loop h s (i + 1) k)"

definition stringbuf_append_n ::
  "bool \<Rightarrow> heap \<Rightarrow> stringbuf cptr \<Rightarrow> uptr \<Rightarrow> usize \<Rightarrow> (bool \<times> heap \<times> stringbuf cptr) run" where
  "stringbuf_append_n builtin h p s n = on_stringbuf h p (\<lambda>sb.
     if s = null_ptr \<or> n = 0 then ret (True, h, sb)
     else bindR (append_n_loop h s 0 (unat n)) (\<lambda>actual_len.
       if actual_len = 0 then ret (True, h, sb)
       else stringbuf_append_bytes builtin h sb s actual_len))"

subsection \<open>Formatted appending\<close>

type_synonym 'a vsnprintf = "heap \<Rightarrow> uptr \<Rightarrow> usize \<Rightarrow> uptr \<Rightarrow> 'a \<Rightarrow> (int \<times> heap) run"

definition stringbuf_append_fmt_va ::
  "bool \<Rightarrow> 'a vsnprintf \<Rightarrow> heap \<Rightarrow> stringbuf cptr \<Rightarrow> uptr \<Rightarrow> 'a \<Rightarrow> (bool \<times> heap \<times> stringbuf cptr) run" where
  "stringbuf_append_fmt_va builtin vsnprintf h p fmt args = (if fmt = null_ptr then ret (False, h, p) else
     on_stringbuf h p (\<lambda>sb.
       bindR (vsnprintf h null_ptr 0 fmt args) (\<lambda>(needed_i, h).
       if needed_i < 0 then ret (False, h, sb)
       else let needed = word_of_int needed_i in
       bindR (checked_add builtin (sb_len sb) needed (Some 0)) (\<lambda>(fits, e).
       if \<not> fits then ret (False, h, sb)
       else bindR (deref e) (\<lambda>end_len.
       bindR (checked_add builtin end_len 1 (Some 0)) (\<lambda>(fits2, w).
       if \<not> fits2 then ret (False, h, sb)
       else bindR (deref w) (\<lambda>with_nul.
       if with_nul > sb_cap sb then ret (False, h, sb)
       else bindR (vsnprintf h (sb_data sb + sb_len sb) (with_nul - sb_len sb) fmt args) (\<lambda>(written, h1).
       if written < 0 \<or> word_of_int written \<noteq> needed
       then bindR (write_bytes h1 (sb_data sb + sb_len sb) [0]) (\<lambda>h2. ret (False, h2, sb))
       else ret (True, h1, sb\<lparr>sb_len := end_len\<rparr>)))))))))"

definition stringbuf_append_fmt ::
  "bool \<Rightarrow> 'a vsnprintf \<Rightarrow> heap \<Rightarrow> stringbuf cptr \<Rightarrow> uptr \<Rightarrow> 'a \<Rightarrow> (bool \<times> heap \<times> stringbuf cptr) run" where
  "stringbuf_append_fmt builtin vsnprintf h p fmt args =
     (if fmt = null_ptr then ret (False, h, p)
      else case p of
        None \<Rightarrow> ret (False, h, p)
      | Some sb \<Rightarrow> if sb_data sb = null_ptr then ret (False, h, p)
          else stringbuf_append_fmt_va builtin vsnprintf h p fmt args)"

subsection \<open>Views\<close>

definition stringbuf_str :: "uptr \<Rightarrow> stringbuf cptr \<Rightarrow> uptr" where
  "stringbuf_str empty_literal p = (case p of
     None \<Rightarrow> empty_literal
   | Some sb \<Rightarrow> if sb_data sb = null_ptr then empty_literal else sb_data sb)"

definition sb_view :: "'v \<Rightarrow> stringbuf cptr \<Rightarrow> (stringbuf \<Rightarrow> 'v run) \<Rightarrow> 'v run" where
  "sb_view empty_view p f = (case p of
     None \<Rightarrow> ret empty_view
   | Some sb \<Rightarrow> if sb_data sb = null_ptr then ret empty_view else f sb)"

definition stringbuf_as_str :: "stringbuf cptr \<Rightarrow> str run" where
  "stringbuf_as_str p = sb_view str_empty p (\<lambda>sb. str_from (sb_data sb) (sb_len sb))"

definition stringbuf_as_bytes :: "stringbuf cptr \<Rightarrow> bytes run" where
  "stringbuf_as_bytes p = sb_view bytes_empty p (\<lambda>sb. bytes_from (sb_data sb) (sb_len sb))"

definition stringbuf_as_cbytes :: "stringbuf cptr \<Rightarrow> cbytes run" where
  "stringbuf_as_cbytes p = sb_view cbytes_empty p (\<lambda>sb. cbytes_from (sb_data sb) (sb_len sb))"

definition stringbuf_buffer_bytes :: "stringbuf cptr \<Rightarrow> bytes run" where
  "stringbuf_buffer_bytes p = sb_view bytes_empty p (\<lambda>sb. bytes_from (sb_data sb) (sb_cap sb))"

definition stringbuf_buffer_cbytes :: "stringbuf cptr \<Rightarrow> cbytes run" where
  "stringbuf_buffer_cbytes p = sb_view cbytes_empty p (\<lambda>sb. cbytes_from (sb_data sb) (sb_cap sb))"

text \<open>The tracked views: \<open>lt\<close> is where the lifetime of the buffer is, \<open>src\<close> the address of the buffer.\<close>

definition sb_lt :: "bool \<Rightarrow> lt_ref \<Rightarrow> lt_ref cptr" where
  "sb_lt debug lt = (if debug then Some lt else None)"

definition stringbuf_as_borrowed_str ::
  "bool \<Rightarrow> lt_store \<Rightarrow> lt_ref \<Rightarrow> uptr \<Rightarrow> stringbuf cptr \<Rightarrow> borrowed_str run" where
  "stringbuf_as_borrowed_str debug lts lt src p = sb_view borrowed_str_empty p (\<lambda>sb.
     bindR (str_from (sb_data sb) (sb_len sb)) (\<lambda>s. borrowed_str_from_lifetime debug lts s (sb_lt debug lt) src))"

definition stringbuf_as_borrowed_bytes ::
  "bool \<Rightarrow> lt_store \<Rightarrow> lt_ref \<Rightarrow> uptr \<Rightarrow> stringbuf cptr \<Rightarrow> borrowed_bytes run" where
  "stringbuf_as_borrowed_bytes debug lts lt src p = sb_view borrowed_bytes_empty p (\<lambda>sb.
     borrowed_bytes_from_lifetime debug lts (sb_data sb) (sb_len sb) (sb_lt debug lt) src)"

definition stringbuf_buffer_as_borrowed_bytes ::
  "bool \<Rightarrow> lt_store \<Rightarrow> lt_ref \<Rightarrow> uptr \<Rightarrow> stringbuf cptr \<Rightarrow> borrowed_bytes run" where
  "stringbuf_buffer_as_borrowed_bytes debug lts lt src p = sb_view borrowed_bytes_empty p (\<lambda>sb.
     borrowed_bytes_from_lifetime debug lts (sb_data sb) (sb_cap sb) (sb_lt debug lt) src)"

subsection \<open>Queries, clearing and truncation\<close>

definition stringbuf_len :: "stringbuf cptr \<Rightarrow> usize" where
  "stringbuf_len p = (case p of None \<Rightarrow> 0 | Some sb \<Rightarrow> sb_len sb)"

definition stringbuf_capacity :: "stringbuf cptr \<Rightarrow> usize" where
  "stringbuf_capacity p = (case p of None \<Rightarrow> 0 | Some sb \<Rightarrow> sb_cap sb)"

definition stringbuf_remaining :: "bool \<Rightarrow> stringbuf cptr \<Rightarrow> usize run" where
  "stringbuf_remaining builtin p = (case p of
     None \<Rightarrow> ret 0
   | Some sb \<Rightarrow> if sb_cap sb = 0 then ret 0
       else bindR (checked_sub builtin (sb_cap sb) (sb_len sb + 1) (Some 0)) (\<lambda>(fits, usable).
         if \<not> fits then ret 0 else deref usable))"

definition stringbuf_is_empty :: "stringbuf cptr \<Rightarrow> bool" where
  "stringbuf_is_empty p = (case p of None \<Rightarrow> True | Some sb \<Rightarrow> sb_len sb = 0)"

definition stringbuf_is_full :: "stringbuf cptr \<Rightarrow> bool" where
  "stringbuf_is_full p = (case p of None \<Rightarrow> True | Some sb \<Rightarrow> sb_len sb + 1 \<ge> sb_cap sb)"

definition stringbuf_is_arena_backed :: "stringbuf cptr \<Rightarrow> bool" where
  "stringbuf_is_arena_backed p = (case p of None \<Rightarrow> False | Some sb \<Rightarrow> sb_arena sb \<noteq> None)"

definition stringbuf_clear :: "heap \<Rightarrow> stringbuf cptr \<Rightarrow> (heap \<times> stringbuf cptr) run" where
  "stringbuf_clear h p = (case p of
     None \<Rightarrow> ret (h, p)
   | Some sb \<Rightarrow> if sb_data sb = null_ptr then ret (h, p)
       else bindR (write_bytes h (sb_data sb) [0]) (\<lambda>h'. ret (h', Some (sb\<lparr>sb_len := 0\<rparr>))))"

definition stringbuf_truncate :: "heap \<Rightarrow> stringbuf cptr \<Rightarrow> usize \<Rightarrow> (heap \<times> stringbuf cptr) run" where
  "stringbuf_truncate h p new_len = (case p of
     None \<Rightarrow> ret (h, p)
   | Some sb \<Rightarrow> if sb_data sb = null_ptr \<or> \<not> new_len < sb_len sb then ret (h, p)
       else bindR (write_bytes h (sb_data sb + new_len) [0]) (\<lambda>h'. ret (h', Some (sb\<lparr>sb_len := new_len\<rparr>))))"

subsection \<open>Writing inside an object\<close>

declare write_bytes.simps(2) [simp del] read_bytes.simps(2) [simp del]

lemma region_append: "region h p (xs @ ys) \<longleftrightarrow> region h p xs \<and> region h (p + of_nat (length xs)) ys"
  by (induction xs arbitrary: p) (auto simp: add.assoc)

lemma unat_ptr_plus:
  assumes "fits p n" "k < n"
  shows "unat (p + of_nat k) = unat p + k"
proof -
  have "unat (of_nat k :: usize) = k"
    using assms by (simp add: unat_of_nat take_bit_nat_eq_self_iff fits_def)
  then show ?thesis using assms by (subst unat_usize_add) (simp_all add: fits_def)
qed

lemma object_replace:
  assumes "object h p (xs @ ys @ zs) n" "length ys' = length ys" "ys \<noteq> []" "region h' (p + of_nat (length xs)) ys'"
    and frame: "\<forall>q. q \<notin> span (p + of_nat (length xs)) (length ys) \<longrightarrow> h' q = h q"
  shows "object h' p (xs @ ys' @ zs) n \<and> (\<forall>q. q \<notin> span p (unat n) \<longrightarrow> h' q = h q)"
proof -
  let ?x = "length xs" and ?y = "length ys"
  have len: "?x + ?y + length zs = unat n" "fits p (unat n)" using assms(1) by (simp_all add: object_def)
  have ux: "unat (p + of_nat ?x) = unat p + ?x"
    using len(1) assms(3) by (intro unat_ptr_plus [OF len(2)]) (cases ys, simp_all)
  have r: "region h p xs" "region h (p + of_nat ?x + of_nat ?y) zs"
    using assms(1) by (simp_all add: object_def region_append)
  have "region h' p xs"
    using frame r(1) ux len by (subst region_cong [of p xs h' h]) (auto simp: fits_def span_def)
  moreover have "region h' (p + of_nat ?x + of_nat ?y) zs"
  proof (cases "zs = []")
    case False
    have uz: "unat (p + of_nat ?x + of_nat ?y) = unat p + ?x + ?y"
      using unat_ptr_plus [OF len(2), of "?x + ?y"] len(1) False by (cases zs) (simp_all add: add.assoc)
    then show ?thesis
      using frame r(2) ux len by (subst region_cong [of _ zs h' h]) (auto simp: fits_def span_def)
  qed simp
  moreover have "span (p + of_nat ?x) ?y \<subseteq> span p (unat n)" using ux len(1) by (auto simp: span_def)
  ultimately show ?thesis using assms frame by (auto simp: object_def region_append)
qed

lemma object_middle:
  assumes "object h p (xs @ ys @ zs) n" "ys \<noteq> []"
  shows "object h (p + of_nat (length xs)) ys (of_nat (length ys))"
proof -
  have len: "length xs + length ys + length zs = unat n" "fits p (unat n)" "p \<noteq> 0"
    using assms(1) by (simp_all add: object_def)
  have ux: "unat (p + of_nat (length xs)) = unat p + length xs"
    using len(1) assms(2) by (intro unat_ptr_plus [OF len(2)]) (cases ys, simp_all)
  then have "p + of_nat (length xs) \<noteq> 0" using len(3) by (metis add_is_0 unat_0 unat_eq_zero)
  moreover have "length ys < 2 ^ 64" using len(1) usize_bound [of n] by linarith
  ultimately show ?thesis
    using assms(1) len ux by (simp add: object_def region_append unat_of_small fits_def)
qed

lemma object_splice:
  assumes "object h p (xs @ ys @ zs) n" "length ys' = length ys"
  shows "\<exists>h'. write_bytes h (p + of_nat (length xs)) ys' = ret h' \<and> object h' p (xs @ ys' @ zs) n \<and>
    (\<forall>q. q \<notin> span p (unat n) \<longrightarrow> h' q = h q)"
proof (cases "ys = []")
  case True
  with assms show ?thesis by simp
next
  case False
  note mid = object_middle [OF assms(1) False]
  then have y: "unat (of_nat (length ys) :: usize) = length ys" by (simp add: object_def)
  with object_write [OF mid, of ys'] assms(2) obtain h' where
    h': "write_bytes h (p + of_nat (length xs)) ys' = ret h'" "region h' (p + of_nat (length xs)) ys'"
      "\<forall>q. q \<notin> span (p + of_nat (length xs)) (length ys) \<longrightarrow> h' q = h q" by (auto simp: object_def)
  with object_replace [OF assms(1,2) False h'(2,3)] show ?thesis by blast
qed

lemma region_mapped: "fits p (length xs) \<Longrightarrow> region h p xs \<Longrightarrow> q \<in> span p (length xs) \<Longrightarrow> h q \<noteq> None"
proof (induction xs arbitrary: p)
  case (Cons x xs)
  show ?case
  proof (cases "xs = []")
    case True
    with Cons.prems show ?thesis by (simp add: span_Suc)
  next
    case False
    with Cons fits_Suc [of p "length xs"] show ?thesis by (auto simp: span_Suc)
  qed
qed simp

lemma read_bytes_length: "read_bytes h p n = ret ys \<Longrightarrow> length ys = n"
  by (induction n arbitrary: p ys) (auto simp: read_bytes.simps bindR_eq_Inr split: option.splits)

subsection \<open>The invariant\<close>

text \<open>The buffer is an object with the string, a zero byte and unused bytes.\<close>

definition sb_ok :: "heap \<Rightarrow> stringbuf \<Rightarrow> u8 list \<Rightarrow> bool" where
  "sb_ok h sb xs \<longleftrightarrow> unat (sb_len sb) = length xs \<and> (\<exists>rest. object h (sb_data sb) (xs @ 0 # rest) (sb_cap sb))"

abbreviation sb_span :: "stringbuf \<Rightarrow> uptr set" where
  "sb_span sb \<equiv> span (sb_data sb) (unat (sb_cap sb))"

text \<open>What an operation leaves: the place and the size of the buffer, and the memory outside it.\<close>

definition sb_keeps :: "heap \<Rightarrow> stringbuf \<Rightarrow> heap \<Rightarrow> stringbuf \<Rightarrow> bool" where
  "sb_keeps h sb h' sb' \<longleftrightarrow> sb_arena sb' = sb_arena sb \<and> sb_data sb' = sb_data sb \<and> sb_cap sb' = sb_cap sb \<and>
     (\<forall>q. q \<notin> sb_span sb \<longrightarrow> h' q = h q)"

lemma sb_keeps_refl [simp]: "sb_keeps h sb h sb"
  by (simp add: sb_keeps_def)

lemma sb_keeps_trans: "sb_keeps h sb h1 sb1 \<Longrightarrow> sb_keeps h1 sb1 h2 sb2 \<Longrightarrow> sb_keeps h sb h2 sb2"
  by (simp add: sb_keeps_def)

lemma sb_ok_bounds: "sb_ok h sb xs \<Longrightarrow> length xs < unat (sb_cap sb) \<and> sb_data sb \<noteq> 0 \<and> unat (sb_len sb) = length xs"
  by (auto simp: sb_ok_def object_def)

lemma of_unat: "unat w = k \<Longrightarrow> w = of_nat k" for w :: usize
  by (drule sym) simp

lemma sb_len_nat: "sb_ok h sb xs \<Longrightarrow> sb_len sb = of_nat (length xs)"
  by (intro of_unat) (simp add: sb_ok_def)

text \<open>Writing over the end of the string, and the new terminator.\<close>

lemma sb_write:
  assumes "sb_ok h sb xs" "k \<le> length xs" "k + length ys < unat (sb_cap sb)"
  shows "\<exists>h1 h2. write_bytes h (sb_data sb + of_nat k) ys = ret h1 \<and>
    write_bytes h1 (sb_data sb + of_nat (k + length ys)) [0] = ret h2 \<and>
    sb_keeps h sb h2 (sb\<lparr>sb_len := of_nat (k + length ys)\<rparr>) \<and>
    sb_ok h2 (sb\<lparr>sb_len := of_nat (k + length ys)\<rparr>) (take k xs @ ys)"
proof -
  obtain rest where rest: "object h (sb_data sb) (xs @ 0 # rest) (sb_cap sb)" using assms(1) by (auto simp: sb_ok_def)
  let ?t = "drop k xs @ 0 # rest" and ?y = "length ys"
  have n: "length xs + Suc (length rest) = unat (sb_cap sb)" using rest by (simp add: object_def)
  obtain z zs where z: "drop ?y ?t = z # zs" using n assms(2,3) by (cases "drop ?y ?t") auto
  have A: "length (take k xs) = k" using assms(2) by simp
  obtain Y where Y: "object h (sb_data sb) (take k xs @ Y @ z # zs) (sb_cap sb)" "length Y = ?y"
  proof
    show "object h (sb_data sb) (take k xs @ take ?y ?t @ z # zs) (sb_cap sb)"
      unfolding z [symmetric] using rest by (simp only: append_take_drop_id append.assoc [symmetric])
    show "length (take ?y ?t) = ?y" using n assms(2,3) by auto
  qed
  from object_splice [OF Y(1), of ys] Y(2) A obtain h1 where
    h1: "write_bytes h (sb_data sb + of_nat k) ys = ret h1"
      "object h1 (sb_data sb) (take k xs @ ys @ z # zs) (sb_cap sb)" "\<forall>q. q \<notin> sb_span sb \<longrightarrow> h1 q = h q"
    by auto
  from object_splice [of h1 "sb_data sb" "take k xs @ ys" "[z]" zs "sb_cap sb" "[0]"] h1(2) A obtain h2 where
    h2: "write_bytes h1 (sb_data sb + of_nat (k + ?y)) [0] = ret h2"
      "object h2 (sb_data sb) ((take k xs @ ys) @ [0] @ zs) (sb_cap sb)" "\<forall>q. q \<notin> sb_span sb \<longrightarrow> h2 q = h1 q"
    by (auto simp del: length_take)
  have "k + ?y < 2 ^ 64" using assms(3) usize_bound [of "sb_cap sb"] by linarith
  then have "unat (of_nat (k + ?y) :: usize) = k + ?y" by (rule unat_of_small)
  with h1 h2 assms(2) show ?thesis by (auto simp: sb_keeps_def sb_ok_def min_def)
qed

lemma stringbuf_append_bytes_value:
  assumes "sb_ok h sb xs" "read_bytes h src (unat n) = ret ys" "src \<noteq> 0"
  shows "if length xs + length ys < unat (sb_cap sb)
    then \<exists>h' sb'. stringbuf_append_bytes builtin h sb src n = ret (True, h', sb') \<and> sb_ok h' sb' (xs @ ys) \<and> sb_keeps h sb h' sb'
    else stringbuf_append_bytes builtin h sb src n = ret (False, h, sb)"
proof -
  have y: "unat n = length ys" using read_bytes_length [OF assms(2)] by simp
  note b = sb_ok_bounds [OF assms(1)] and len = sb_len_nat [OF assms(1)]
  have nn: "n = of_nat (length ys)" using y by (rule of_unat)
  have cap: "unat (sb_cap sb) < 2 ^ 64" by (rule usize_bound)
  show ?thesis
  proof (cases "length xs + length ys < unat (sb_cap sb)")
    case True
    have e: "sb_len sb + n = of_nat (length xs + length ys)" using len nn by simp
    from sb_write [OF assms(1) le_refl True, folded e] obtain h1 h2 where
      h: "write_bytes h (sb_data sb + sb_len sb) ys = ret h1"
        "write_bytes h1 (sb_data sb + (sb_len sb + n)) [0] = ret h2"
        "sb_keeps h sb h2 (sb\<lparr>sb_len := sb_len sb + n\<rparr>)"
        "sb_ok h2 (sb\<lparr>sb_len := sb_len sb + n\<rparr>) (xs @ ys)" using len by auto
    have ue: "unat (sb_len sb + n) = length xs + length ys" "unat (sb_len sb + n + 1) = length xs + length ys + 1"
      using True cap b y by (simp_all add: unat_usize_add unat_usize_Suc)
    have "unat (sb_data sb + sb_len sb) = unat (sb_data sb) + length xs"
      unfolding len using assms(1) b by (intro unat_ptr_plus) (auto simp: sb_ok_def object_def)
    then have "sb_data sb + sb_len sb \<noteq> 0" using b by (metis add_is_0 unat_0 unat_eq_zero)
    then have mv: "mem_move h (sb_data sb + sb_len sb) src n = ret h1"
      using h(1) assms(2,3) y by (auto simp: mem_move_def std_memmove_def null_ptr_def write_bytes.simps(2))
    show ?thesis using True b y ue h mv cap
      by (simp add: stringbuf_append_bytes_def word_less_nat_alt)
  next
    case False
    then show ?thesis using b y
      by (auto simp: stringbuf_append_bytes_def unat_usize_add unat_usize_Suc word_less_nat_alt)
  qed
qed

lemmas on_sb_simps = on_stringbuf_def null_ptr_def

lemma stringbuf_append_str_value:
  assumes "sb_ok h sb xs" "shows_bytes h s ys"
  shows "if length xs + length ys < unat (sb_cap sb)
    then \<exists>h' sb'. stringbuf_append_str builtin h (Some sb) s = ret (True, h', Some sb') \<and> sb_ok h' sb' (xs @ ys) \<and>
      sb_keeps h sb h' sb'
    else stringbuf_append_str builtin h (Some sb) s = ret (False, h, Some sb)"
proof (cases "v_ptr s = 0 \<or> v_len s = 0")
  case True
  with assms(2) have "ys = []" by (auto simp: shows_bytes_def object_def null_ptr_def split: if_splits)
  moreover have "length xs < unat (sb_cap sb)" using sb_ok_bounds [OF assms(1)] by simp
  ultimately show ?thesis using True assms(1) sb_ok_bounds [OF assms(1)]
    by (auto simp: stringbuf_append_str_def on_sb_simps)
next
  case False
  with assms(2) have "object h (v_ptr s) ys (v_len s)" by (auto simp: shows_bytes_def null_ptr_def)
  from stringbuf_append_bytes_value [OF assms(1) object_read [OF this], of builtin] False sb_ok_bounds [OF assms(1)]
  show ?thesis by (auto simp: stringbuf_append_str_def on_sb_simps split: if_splits)
qed

lemma stringbuf_append_value:
  assumes "sb_ok h sb xs" "region h s (ys @ [0])" "0 \<notin> set ys" "s \<noteq> 0" "fits s (Suc (length ys))"
  shows "if length xs + length ys < unat (sb_cap sb)
    then \<exists>h' sb'. stringbuf_append builtin h (Some sb) s = ret (True, h', Some sb') \<and> sb_ok h' sb' (xs @ ys) \<and>
      sb_keeps h sb h' sb'
    else stringbuf_append builtin h (Some sb) s = ret (False, h, Some sb)"
proof -
  have "length ys < 2 ^ 64" "length ys < 2 ^ 64 - unat s" using assms(5) by (simp_all add: fits_def)
  then have n: "std_strlen h s (2 ^ 64 - unat s) = ret (of_nat (length ys))" "unat (of_nat (length ys) :: usize) = length ys"
    using std_strlen_region [OF assms(2,3)] by (simp_all add: unat_of_small)
  have "read_bytes h s (unat (of_nat (length ys) :: usize)) = ret ys"
    using assms(2) by (simp only: n(2)) (simp add: region_append read_bytes_region)
  from stringbuf_append_bytes_value [OF assms(1) this assms(4), of builtin] n(1) assms(4) sb_ok_bounds [OF assms(1)]
  show ?thesis by (auto simp: stringbuf_append_def on_sb_simps split: if_splits)
qed

lemma stringbuf_append_char_value:
  assumes "sb_ok h sb xs"
  shows "if length xs + 1 < unat (sb_cap sb)
    then \<exists>h' sb'. stringbuf_append_char builtin h (Some sb) c = ret (True, h', Some sb') \<and> sb_ok h' sb' (xs @ [c]) \<and>
      sb_keeps h sb h' sb'
    else stringbuf_append_char builtin h (Some sb) c = ret (False, h, Some sb)"
proof -
  note b = sb_ok_bounds [OF assms] and len = sb_len_nat [OF assms]
  have cap: "unat (sb_cap sb) < 2 ^ 64" by (rule usize_bound)
  have e: "sb_len sb + 1 = of_nat (length xs + length [c])" using len by simp
  show ?thesis
  proof (cases "length xs + 1 < unat (sb_cap sb)")
    case True
    then have "unat (sb_len sb + 2) = length xs + 2" using b cap by (subst unat_usize_add) simp_all
    moreover from sb_write [OF assms le_refl, of "[c]", folded e] True obtain h1 h2 where
      "write_bytes h (sb_data sb + sb_len sb) [c] = ret h1"
      "write_bytes h1 (sb_data sb + (sb_len sb + 1)) [0] = ret h2"
      "sb_keeps h sb h2 (sb\<lparr>sb_len := sb_len sb + 1\<rparr>)"
      "sb_ok h2 (sb\<lparr>sb_len := sb_len sb + 1\<rparr>) (xs @ [c])" using len by auto
    ultimately show ?thesis using True b cap
      by (simp add: stringbuf_append_char_def on_sb_simps word_less_nat_alt Let_def)
  next
    case False
    then show ?thesis using b
      by (auto simp: stringbuf_append_char_def on_sb_simps unat_usize_add word_less_nat_alt)
  qed
qed

text \<open>What \<open>stringbuf_append_n\<close> reads: \<open>n\<close> bytes, or fewer and then a zero byte.\<close>

definition n_string :: "heap \<Rightarrow> uptr \<Rightarrow> nat \<Rightarrow> u8 list \<Rightarrow> bool" where
  "n_string h s n ys \<longleftrightarrow> 0 \<notin> set ys \<and>
     (if length ys = n then region h s ys else length ys < n \<and> region h s (ys @ [0]))"

lemma append_n_loop_value:
  "n_string h (s + i) k ys \<Longrightarrow> append_n_loop h s i k = ret (i + of_nat (length ys))"
proof (induction k arbitrary: i ys)
  case 0
  then show ?case by (simp add: n_string_def split: if_splits)
next
  case (Suc k)
  show ?case
  proof (cases ys)
    case Nil
    with Suc.prems show ?thesis by (simp add: n_string_def read_bytes.simps)
  next
    case (Cons y zs)
    with Suc.prems have "n_string h (s + (i + 1)) k zs" "h (s + i) = Some y" "y \<noteq> 0"
      by (auto simp: n_string_def add.assoc split: if_splits)
    with Suc.IH [of "i + 1" zs] Cons show ?thesis by (simp add: read_bytes.simps add.assoc)
  qed
qed

lemma stringbuf_append_n_value:
  assumes "sb_ok h sb xs" "n_string h s (unat n) ys" "s \<noteq> 0"
  shows "if length xs + length ys < unat (sb_cap sb)
    then \<exists>h' sb'. stringbuf_append_n builtin h (Some sb) s n = ret (True, h', Some sb') \<and> sb_ok h' sb' (xs @ ys) \<and>
      sb_keeps h sb h' sb'
    else stringbuf_append_n builtin h (Some sb) s n = ret (False, h, Some sb)"
proof -
  let ?m = "of_nat (length ys) :: usize"
  have le: "length ys \<le> unat n" using assms(2) by (auto simp: n_string_def split: if_splits)
  then have m: "unat ?m = length ys" using usize_bound [of n] by (intro unat_of_small) linarith
  have b: "length xs < unat (sb_cap sb)" "sb_data sb \<noteq> 0" using sb_ok_bounds [OF assms(1)] by auto
  have loop: "append_n_loop h s 0 (unat n) = ret ?m" using append_n_loop_value [of h s 0 "unat n" ys] assms(2) by simp
  show ?thesis
  proof (cases "ys = []")
    case True
    then show ?thesis using b assms(1) loop by (auto simp: stringbuf_append_n_def on_sb_simps)
  next
    case False
    then have "?m \<noteq> 0" "n \<noteq> 0" using m le by (cases ys; auto simp: usize_eq_iff)+
    moreover have "read_bytes h s (unat ?m) = ret ys" unfolding m
      using assms(2) by (intro read_bytes_region) (auto simp: n_string_def region_append split: if_splits)
    ultimately show ?thesis
      using stringbuf_append_bytes_value [OF assms(1) _ assms(3), of ?m ys builtin] b loop assms(3)
      by (auto simp: stringbuf_append_n_def on_sb_simps split: if_splits)
  qed
qed

lemma stringbuf_truncate_value:
  assumes "sb_ok h sb xs"
  shows "\<exists>h' sb'. stringbuf_truncate h (Some sb) n = ret (h', Some sb') \<and> sb_ok h' sb' (take (unat n) xs) \<and> sb_keeps h sb h' sb'"
proof (cases "n < sb_len sb")
  case True
  note b = sb_ok_bounds [OF assms]
  have n: "unat n < length xs" "n = of_nat (unat n)" using True b by (simp_all add: word_less_nat_alt)
  from sb_write [OF assms less_imp_le [OF n(1)], of "[]", unfolded list.size add_0_right n(2) [symmetric]] n b
  show ?thesis using True by (auto simp: stringbuf_truncate_def null_ptr_def)
next
  case False
  then have "length xs \<le> unat n" using sb_ok_bounds [OF assms] by (simp add: word_less_nat_alt)
  with False assms show ?thesis by (auto simp: stringbuf_truncate_def)
qed

lemma stringbuf_clear_value:
  assumes "sb_ok h sb xs"
  shows "\<exists>h' sb'. stringbuf_clear h (Some sb) = ret (h', Some sb') \<and> sb_ok h' sb' [] \<and> sb_keeps h sb h' sb'"
  using sb_write [OF assms, of 0 "[]"] sb_ok_bounds [OF assms] by (auto simp: stringbuf_clear_def null_ptr_def)

subsection \<open>Formatted appending\<close>

text \<open>
  What the C standard says of a \<open>vsnprintf\<close> that returns: the result is an \<open>int\<close>; with size 0 nothing
  is written; else at most \<open>n\<close> bytes at \<open>s\<close> are written, and when the result is not negative and
  below \<open>n\<close>, that many bytes and a terminator were written. This is a statement about calls that
  return: a call whose format or arguments C leaves undefined need not. Formats with a \<open>%n\<close>
  conversion, which store through an argument, are not covered.
\<close>

definition vsnprintf_wrote :: "heap \<Rightarrow> uptr \<Rightarrow> usize \<Rightarrow> int \<Rightarrow> heap \<Rightarrow> bool" where
  "vsnprintf_wrote h s n r h' \<longleftrightarrow> r < 2 ^ 31 \<and> (n = 0 \<longrightarrow> h' = h) \<and>
     (\<forall>xs. n \<noteq> 0 \<longrightarrow> object h s xs n \<longrightarrow> (\<forall>q. q \<notin> span s (unat n) \<longrightarrow> h' q = h q) \<and>
        (\<exists>ys. object h' s ys n \<and> (0 \<le> r \<and> nat r < unat n \<longrightarrow> (\<exists>out rest. ys = out @ 0 # rest \<and> length out = nat r))))"

definition vsnprintf_ok :: "'a vsnprintf \<Rightarrow> bool" where
  "vsnprintf_ok v \<longleftrightarrow> (\<forall>h s n fmt args r h'. v h s n fmt args = ret (r, h') \<longrightarrow> vsnprintf_wrote h s n r h')"

lemma vsnprintf_okD: "vsnprintf_ok v \<Longrightarrow> v h s n fmt args = ret (r, h') \<Longrightarrow> vsnprintf_wrote h s n r h'"
  by (simp add: vsnprintf_ok_def)

lemma vsnprintf_wroteD:
  assumes "vsnprintf_wrote h s n r h'" "n \<noteq> 0" "object h s xs n"
  shows "r < 2 ^ 31" "\<forall>q. q \<notin> span s (unat n) \<longrightarrow> h' q = h q"
    "\<exists>ys. object h' s ys n \<and> (0 \<le> r \<and> nat r < unat n \<longrightarrow> (\<exists>out rest. ys = out @ 0 # rest \<and> length out = nat r))"
proof -
  have "\<exists>xs. object h s xs n" using assms(3) by (rule exI)
  with assms(1,2) show "r < 2 ^ 31" "\<forall>q. q \<notin> span s (unat n) \<longrightarrow> h' q = h q"
    "\<exists>ys. object h' s ys n \<and> (0 \<le> r \<and> nat r < unat n \<longrightarrow> (\<exists>out rest. ys = out @ 0 # rest \<and> length out = nat r))"
    by (simp_all add: vsnprintf_wrote_def)
qed

text \<open>The writing pass gets the exact room of its output behind the string.\<close>

lemma sb_fmt_pass:
  assumes "vsnprintf_ok v" "sb_ok h sb xs" "length xs + k < unat (sb_cap sb)" "n = of_nat (Suc k)"
    "v h (sb_data sb + sb_len sb) n fmt args = ret (w, h1)"
  shows "w < 2 ^ 31" "\<exists>ys. length ys = Suc k \<and> (\<exists>rest. object h1 (sb_data sb) (xs @ ys @ rest) (sb_cap sb)) \<and>
      (w = int k \<longrightarrow> ys ! k = 0)" "\<forall>q. q \<notin> sb_span sb \<longrightarrow> h1 q = h q"
proof -
  obtain rest where rest: "object h (sb_data sb) (xs @ 0 # rest) (sb_cap sb)" using assms(2) by (auto simp: sb_ok_def)
  let ?t = "0 # rest"
  have len: "length xs + Suc (length rest) = unat (sb_cap sb)" using rest by (simp add: object_def)
  have o: "object h (sb_data sb) (xs @ take (Suc k) ?t @ drop (Suc k) ?t) (sb_cap sb)"
    using rest by (simp only: append_take_drop_id)
  have l: "length (take (Suc k) ?t) = Suc k" using len assms(3) by simp
  have "Suc k < 2 ^ 64" using assms(3) usize_bound [of "sb_cap sb"] by linarith
  then have n: "unat n = Suc k" unfolding assms(4) by (rule unat_of_small)
  then have nz: "n \<noteq> 0" by auto
  have m: "object h (sb_data sb + sb_len sb) (take (Suc k) ?t) n"
    using object_middle [OF o] l assms(4) sb_len_nat [OF assms(2)] by (simp del: of_nat_Suc)
  note wrote = vsnprintf_wroteD [OF vsnprintf_okD [OF assms(1,5)] nz m, unfolded n]
  from wrote(3) obtain ys where ys: "object h1 (sb_data sb + sb_len sb) ys n"
    "0 \<le> w \<and> nat w < Suc k \<longrightarrow> (\<exists>out rest. ys = out @ 0 # rest \<and> length out = nat w)" by blast
  have ly: "length ys = length (take (Suc k) ?t)" using ys(1) n l by (simp add: object_def)
  have "object h1 (sb_data sb) (xs @ ys @ drop (Suc k) ?t) (sb_cap sb) \<and> (\<forall>q. q \<notin> sb_span sb \<longrightarrow> h1 q = h q)"
    using wrote(2) ys(1) l sb_len_nat [OF assms(2)] by (intro object_replace [OF o ly]) (simp_all add: object_def)
  moreover have "w = int k \<longrightarrow> ys ! k = 0" using ys(2) by auto
  ultimately show "w < 2 ^ 31" "\<exists>ys. length ys = Suc k \<and> (\<exists>rest. object h1 (sb_data sb) (xs @ ys @ rest) (sb_cap sb)) \<and>
      (w = int k \<longrightarrow> ys ! k = 0)" "\<forall>q. q \<notin> sb_span sb \<longrightarrow> h1 q = h q"
    using wrote(1) ly l by auto
qed

lemma unat_of_int_small: "0 \<le> r \<Longrightarrow> r < 2 ^ 31 \<Longrightarrow> unat (of_int r :: usize) = nat r"
  by (cases r) (simp_all add: unat_of_small)

text \<open>
  The outcome of a formatted append. The first pass measures \<open>r\<close> bytes; the second one returns \<open>w\<close>. If
  they agree the string grows by \<open>r\<close> bytes, else it is the old one.
\<close>

lemma stringbuf_append_fmt_va_measure:
  assumes "vsnprintf_ok v" "sb_ok h sb xs" "fmt \<noteq> 0" "v h 0 0 fmt args = ret (r, h0)"
  shows "r < 0 \<or> unat (sb_cap sb) \<le> length xs + nat r \<Longrightarrow>
      stringbuf_append_fmt_va builtin v h (Some sb) fmt args = ret (False, h, Some sb)"
    "0 \<le> r \<Longrightarrow> length xs + nat r < unat (sb_cap sb) \<Longrightarrow>
      stringbuf_append_fmt_va builtin v h (Some sb) fmt args =
        bindR (v h (sb_data sb + sb_len sb) (of_nat (Suc (nat r))) fmt args) (\<lambda>(w, h1).
          if w < 0 \<or> word_of_int w \<noteq> (word_of_int r :: usize)
          then bindR (write_bytes h1 (sb_data sb + sb_len sb) [0]) (\<lambda>h2. ret (False, h2, Some sb))
          else ret (True, h1, Some (sb\<lparr>sb_len := sb_len sb + word_of_int r\<rparr>)))"
proof -
  have h0: "r < 2 ^ 31" "h0 = h" using vsnprintf_okD [OF assms(1,4)] by (simp_all add: vsnprintf_wrote_def)
  note b = sb_ok_bounds [OF assms(2)]
  have cap: "unat (sb_cap sb) < 2 ^ 64" by (rule usize_bound)
  have r: "0 \<le> r \<Longrightarrow> unat (of_int r :: usize) = nat r" using h0 by (intro unat_of_int_small)
  {
    assume fail: "r < 0 \<or> unat (sb_cap sb) \<le> length xs + nat r"
    show "stringbuf_append_fmt_va builtin v h (Some sb) fmt args = ret (False, h, Some sb)"
    proof (cases "r < 0")
      case True
      then show ?thesis using assms(3,4) b h0 by (simp add: stringbuf_append_fmt_va_def on_sb_simps)
    next
      case False
      then show ?thesis using assms(3,4) b h0 fail r
        by (auto simp: stringbuf_append_fmt_va_def on_sb_simps Let_def unat_usize_add unat_usize_Suc word_less_nat_alt)
    qed
  }
  assume ok: "0 \<le> r" "length xs + nat r < unat (sb_cap sb)"
  have e: "unat (sb_len sb + word_of_int r) = length xs + nat r"
    "unat (sb_len sb + word_of_int r + 1) = length xs + nat r + 1"
    using ok r b cap by (simp_all add: unat_usize_add unat_usize_Suc)
  have n: "sb_len sb + word_of_int r + 1 - sb_len sb = of_nat (Suc (nat r))" using ok by simp
  show "stringbuf_append_fmt_va builtin v h (Some sb) fmt args =
        bindR (v h (sb_data sb + sb_len sb) (of_nat (Suc (nat r))) fmt args) (\<lambda>(w, h1).
          if w < 0 \<or> word_of_int w \<noteq> (word_of_int r :: usize)
          then bindR (write_bytes h1 (sb_data sb + sb_len sb) [0]) (\<lambda>h2. ret (False, h2, Some sb))
          else ret (True, h1, Some (sb\<lparr>sb_len := sb_len sb + word_of_int r\<rparr>)))"
    using assms(3,4) b h0 ok e r cap unfolding n [symmetric]
    by (cases "v h (sb_data sb + sb_len sb) (sb_len sb + word_of_int r + 1 - sb_len sb) fmt args")
      (auto simp: stringbuf_append_fmt_va_def on_sb_simps Let_def word_less_nat_alt bindR_assoc)
qed

lemma stringbuf_append_fmt_va_write:
  assumes "vsnprintf_ok v" "sb_ok h sb xs" "fmt \<noteq> 0" "v h 0 0 fmt args = ret (r, h0)"
    "0 \<le> r" "length xs + nat r < unat (sb_cap sb)"
    "v h (sb_data sb + sb_len sb) (of_nat (Suc (nat r))) fmt args = ret (w, h1)"
  shows "w = r \<Longrightarrow> \<exists>out h' sb'. stringbuf_append_fmt_va builtin v h (Some sb) fmt args = ret (True, h', Some sb') \<and>
      length out = nat r \<and> sb_ok h' sb' (xs @ out) \<and> sb_keeps h sb h' sb'"
    "w \<noteq> r \<Longrightarrow> \<exists>h'. stringbuf_append_fmt_va builtin v h (Some sb) fmt args = ret (False, h', Some sb) \<and>
      sb_ok h' sb xs \<and> sb_keeps h sb h' sb"
proof -
  have h0: "r < 2 ^ 31" using vsnprintf_okD [OF assms(1,4)] by (simp add: vsnprintf_wrote_def)
  note b = sb_ok_bounds [OF assms(2)] and val = stringbuf_append_fmt_va_measure(2) [OF assms(1-6), of builtin]
  note pass = sb_fmt_pass [OF assms(1,2,6) refl assms(7)]
  from pass(2) obtain ys rest where ys: "length ys = Suc (nat r)" "object h1 (sb_data sb) (xs @ ys @ rest) (sb_cap sb)"
    "w = r \<longrightarrow> ys ! nat r = 0" using assms(5) by auto
  have cap: "unat (sb_cap sb) < 2 ^ 64" by (rule usize_bound)
  {
    assume w: "w = r"
    have "ys = take (nat r) ys @ [0]" using ys(1,3) w by (metis take_Suc_conv_app_nth lessI take_all order_refl)
    then have "object h1 (sb_data sb) ((xs @ take (nat r) ys) @ 0 # rest) (sb_cap sb)" using ys(2) by (metis append.assoc append_Cons append_Nil)
    moreover have "unat (sb_len sb + word_of_int r) = length xs + nat r"
      using b cap assms(5,6) h0 by (simp add: unat_usize_add unat_of_int_small)
    ultimately have "sb_ok h1 (sb\<lparr>sb_len := sb_len sb + word_of_int r\<rparr>) (xs @ take (nat r) ys)"
      using ys(1) unfolding sb_ok_def by auto
    moreover have "sb_keeps h sb h1 (sb\<lparr>sb_len := sb_len sb + word_of_int r\<rparr>)" using pass(3) by (simp add: sb_keeps_def)
    moreover have "length (take (nat r) ys) = nat r" using ys(1) by simp
    ultimately show "\<exists>out h' sb'. stringbuf_append_fmt_va builtin v h (Some sb) fmt args = ret (True, h', Some sb') \<and>
      length out = nat r \<and> sb_ok h' sb' (xs @ out) \<and> sb_keeps h sb h' sb'"
      using val assms(5,7) w by fastforce
  }
  assume w: "w \<noteq> r"
  then have ne: "w < 0 \<or> word_of_int w \<noteq> (word_of_int r :: usize)"
    using unat_of_int_small [of w] unat_of_int_small [of r] pass(1) h0 assms(5) by (metis eq_nat_nat_iff not_le)
  obtain y ys' where "ys = y # ys'" using ys(1) by (cases ys) auto
  with ys(2) object_splice [of h1 "sb_data sb" xs "[y]" "ys' @ rest" "sb_cap sb" "[0]"] obtain h2 where
    h2: "write_bytes h1 (sb_data sb + sb_len sb) [0] = ret h2" "object h2 (sb_data sb) (xs @ 0 # (ys' @ rest)) (sb_cap sb)"
      "\<forall>q. q \<notin> sb_span sb \<longrightarrow> h2 q = h1 q" using sb_len_nat [OF assms(2)] by auto
  then have "sb_ok h2 sb xs" "sb_keeps h sb h2 sb" using b pass(3) by (auto simp: sb_ok_def sb_keeps_def)
  with h2(1) val assms(7) ne show "\<exists>h'. stringbuf_append_fmt_va builtin v h (Some sb) fmt args = ret (False, h', Some sb) \<and>
      sb_ok h' sb xs \<and> sb_keeps h sb h' sb" by auto
qed

subsection \<open>Sequences of operations\<close>

datatype 'a sb_op =
    Sb_append uptr
  | Sb_append_str str
  | Sb_append_char u8
  | Sb_append_n uptr usize
  | Sb_append_fmt uptr 'a
  | Sb_truncate usize
  | Sb_clear

definition sb_step ::
  "bool \<Rightarrow> 'a vsnprintf \<Rightarrow> heap \<times> stringbuf cptr \<Rightarrow> 'a sb_op \<Rightarrow> (bool \<times> heap \<times> stringbuf cptr) run" where
  "sb_step builtin v s oper = (case s of (h, p) \<Rightarrow> (case oper of
     Sb_append src \<Rightarrow> stringbuf_append builtin h p src
   | Sb_append_str src \<Rightarrow> stringbuf_append_str builtin h p src
   | Sb_append_char c \<Rightarrow> stringbuf_append_char builtin h p c
   | Sb_append_n src n \<Rightarrow> stringbuf_append_n builtin h p src n
   | Sb_append_fmt fmt args \<Rightarrow> stringbuf_append_fmt builtin v h p fmt args
   | Sb_truncate n \<Rightarrow> bindR (stringbuf_truncate h p n) (\<lambda>(h', p'). ret (True, h', p'))
   | Sb_clear \<Rightarrow> bindR (stringbuf_clear h p) (\<lambda>(h', p'). ret (True, h', p'))))"

fun sb_exec ::
  "bool \<Rightarrow> 'a vsnprintf \<Rightarrow> 'a sb_op list \<Rightarrow> heap \<times> stringbuf cptr \<Rightarrow> (bool list \<times> heap \<times> stringbuf cptr) run" where
  "sb_exec builtin v [] s = ret ([], s)"
| "sb_exec builtin v (oper # opers) s = bindR (sb_step builtin v s oper) (\<lambda>(ok, s').
     bindR (sb_exec builtin v opers s') (\<lambda>(oks, t). ret (ok # oks, t)))"

text \<open>Every operation that returns leaves a string in the same buffer, whatever its sources are.\<close>

lemma append_bytes_type:
  assumes "sb_ok h sb xs" "src \<noteq> 0" "stringbuf_append_bytes builtin h sb src n = ret (ok, h', sb')"
  shows "\<exists>ys. sb_ok h' sb' ys \<and> sb_keeps h sb h' sb'"
proof (cases "read_bytes h src (unat n)")
  case (Inr ys)
  from stringbuf_append_bytes_value [OF assms(1) Inr assms(2), of builtin] assms(1,3) show ?thesis
    by (auto split: if_splits)
next
  case (Inl e)
  then have "unat n \<noteq> 0" by (cases "unat n") auto
  moreover have "sb_data sb + sb_len sb \<noteq> 0"
  proof -
    have "unat (sb_data sb + sb_len sb) = unat (sb_data sb) + length xs"
      unfolding sb_len_nat [OF assms(1)] using assms(1) by (intro unat_ptr_plus) (auto simp: sb_ok_def object_def)
    then show ?thesis using sb_ok_bounds [OF assms(1)] by (metis add_is_0 unat_0 unat_eq_zero)
  qed
  ultimately have "sb' = sb" "h' = h"
    using assms(2,3) Inl
    by (auto simp: stringbuf_append_bytes_def mem_move_def std_memmove_def null_ptr_def unat_gt_0 split: if_splits)
  with assms(1) show ?thesis by auto
qed

lemma append_fmt_type:
  assumes "vsnprintf_ok v" "sb_ok h sb xs" "stringbuf_append_fmt_va builtin v h (Some sb) fmt args = ret (ok, h', p')"
  shows "\<exists>sb' ys. p' = Some sb' \<and> sb_ok h' sb' ys \<and> sb_keeps h sb h' sb'"
proof (cases "fmt = 0")
  case True
  with assms(2,3) show ?thesis by (auto simp: stringbuf_append_fmt_va_def null_ptr_def)
next
  case fmt: False
  show ?thesis
  proof (cases "v h 0 0 fmt args")
    case (Inl e)
    with assms(2,3) fmt sb_ok_bounds [OF assms(2)] show ?thesis by (simp add: stringbuf_append_fmt_va_def on_sb_simps)
  next
    case (Inr a)
    then obtain r h0 where m: "v h 0 0 fmt args = ret (r, h0)" by (cases a) auto
    show ?thesis
    proof (cases "r < 0 \<or> unat (sb_cap sb) \<le> length xs + nat r")
      case True
      with stringbuf_append_fmt_va_measure(1) [OF assms(1,2) fmt m True, of builtin] assms(2,3) show ?thesis by auto
    next
      case False
      then have r: "0 \<le> r" "length xs + nat r < unat (sb_cap sb)" by simp_all
      show ?thesis
      proof (cases "v h (sb_data sb + sb_len sb) (of_nat (Suc (nat r))) fmt args")
        case (Inl e)
        with stringbuf_append_fmt_va_measure(2) [OF assms(1,2) fmt m r, of builtin] assms(3) show ?thesis by simp
      next
        case (Inr b)
        then obtain w h1 where "v h (sb_data sb + sb_len sb) (of_nat (Suc (nat r))) fmt args = ret (w, h1)" by (cases b) auto
        from stringbuf_append_fmt_va_write [OF assms(1,2) fmt m r this, of builtin] assms(2,3) show ?thesis
          by (cases "w = r") auto
      qed
    qed
  qed
qed

lemma on_stringbuf_eq: "sb_ok h sb xs \<Longrightarrow> on_stringbuf h (Some sb) f = bindR (f sb) (\<lambda>(ok, h', sb'). ret (ok, h', Some sb'))"
  using sb_ok_bounds [of h sb xs] by (simp add: on_sb_simps)

lemma sb_step_type:
  assumes "vsnprintf_ok v" "sb_ok h sb xs" "sb_step builtin v (h, Some sb) oper = ret (ok, h', p')"
  shows "\<exists>sb' ys. p' = Some sb' \<and> sb_ok h' sb' ys \<and> sb_keeps h sb h' sb'"
proof (cases oper)
  case (Sb_append src)
  with assms(2,3) append_bytes_type [OF assms(2)] show ?thesis
    by (fastforce simp: sb_step_def stringbuf_append_def on_stringbuf_eq [OF assms(2)] bindR_eq_Inr null_ptr_def split: if_splits)
next
  case (Sb_append_str src)
  with assms(2,3) append_bytes_type [OF assms(2)] show ?thesis
    by (fastforce simp: sb_step_def stringbuf_append_str_def on_stringbuf_eq [OF assms(2)] bindR_eq_Inr null_ptr_def split: if_splits)
next
  case (Sb_append_char c)
  with assms stringbuf_append_char_value [OF assms(2), of builtin c] show ?thesis
    by (auto simp: sb_step_def split: if_splits)
next
  case (Sb_append_n src n)
  with assms(2,3) append_bytes_type [OF assms(2)] show ?thesis
    by (fastforce simp: sb_step_def stringbuf_append_n_def on_stringbuf_eq [OF assms(2)] bindR_eq_Inr null_ptr_def split: if_splits)
next
  case (Sb_append_fmt fmt args)
  with assms append_fmt_type [OF assms(1,2)] show ?thesis
    by (auto simp: sb_step_def stringbuf_append_fmt_def split: if_splits)
next
  case (Sb_truncate n)
  with assms stringbuf_truncate_value [OF assms(2), of n] show ?thesis
    by (auto simp: sb_step_def) (rule exI, assumption)
next
  case Sb_clear
  with assms stringbuf_clear_value [OF assms(2)] show ?thesis
    by (auto simp: sb_step_def) (rule exI, assumption)
qed

lemma sb_exec_type:
  "vsnprintf_ok v \<Longrightarrow> sb_ok h sb xs \<Longrightarrow> sb_exec builtin v opers (h, Some sb) = ret (oks, h', p') \<Longrightarrow>
   \<exists>sb' ys. p' = Some sb' \<and> sb_ok h' sb' ys \<and> sb_keeps h sb h' sb'"
proof (induction opers arbitrary: h sb xs oks)
  case (Cons oper opers)
  from Cons.prems(3) obtain ok h1 p1 oks' where s: "sb_step builtin v (h, Some sb) oper = ret (ok, h1, p1)"
    "sb_exec builtin v opers (h1, p1) = ret (oks', h', p')" by (auto simp: bindR_eq_Inr)
  from sb_step_type [OF Cons.prems(1,2) s(1)] obtain sb1 ys where
    "p1 = Some sb1" "sb_ok h1 sb1 ys" "sb_keeps h sb h1 sb1" by blast
  with Cons.IH [OF Cons.prems(1)] s(2) show ?case by (meson sb_keeps_trans)
qed auto

subsection \<open>Sources outside the buffer\<close>

text \<open>\<open>reads_at h U s zs\<close>: at \<open>s\<close> are the bytes \<open>zs\<close>, outside \<open>U\<close>. \<open>op_reads\<close>: what an operation appends.\<close>

definition reads_at :: "heap \<Rightarrow> uptr set \<Rightarrow> uptr \<Rightarrow> u8 list \<Rightarrow> bool" where
  "reads_at h U s zs \<longleftrightarrow> s \<noteq> 0 \<and> region h s zs \<and> fits s (length zs) \<and> span s (length zs) \<inter> U = {}"

fun op_reads :: "heap \<Rightarrow> uptr set \<Rightarrow> 'a sb_op \<Rightarrow> u8 list \<Rightarrow> bool" where
  "op_reads h U (Sb_append s) ys \<longleftrightarrow> s = 0 \<and> ys = [] \<or> 0 \<notin> set ys \<and> reads_at h U s (ys @ [0])"
| "op_reads h U (Sb_append_str v) ys \<longleftrightarrow>
     v_ptr v = 0 \<and> v_len v = 0 \<and> ys = [] \<or> reads_at h U (v_ptr v) ys \<and> length ys = unat (v_len v)"
| "op_reads h U (Sb_append_char c) ys \<longleftrightarrow> ys = [c]"
| "op_reads h U (Sb_append_n s n) ys \<longleftrightarrow>
     (s = 0 \<or> n = 0) \<and> ys = [] \<or> 0 \<notin> set ys \<and>
       (if length ys = unat n then reads_at h U s ys else length ys < unat n \<and> reads_at h U s (ys @ [0]))"
| "op_reads h U (Sb_append_fmt fmt args) ys \<longleftrightarrow> False"
| "op_reads h U (Sb_truncate n) ys \<longleftrightarrow> ys = []"
| "op_reads h U Sb_clear ys \<longleftrightarrow> ys = []"

lemma reads_at_frame: "reads_at h U s zs \<Longrightarrow> \<forall>q. q \<notin> U \<longrightarrow> h' q = h q \<Longrightarrow> reads_at h' U s zs"
  unfolding reads_at_def using region_cong [of s zs h h'] by (metis disjoint_iff)

lemma op_reads_frame: "op_reads h U oper ys \<Longrightarrow> \<forall>q. q \<notin> U \<longrightarrow> h' q = h q \<Longrightarrow> op_reads h' U oper ys"
  by (cases oper) (auto dest: reads_at_frame split: if_splits)

text \<open>The abstract machine: a list of bounded length, an append that does not fit is refused.\<close>

fun bounded_step :: "nat \<Rightarrow> u8 list \<Rightarrow> 'a sb_op \<times> u8 list \<Rightarrow> bool \<times> u8 list" where
  "bounded_step cap xs (Sb_truncate n, ys) = (True, take (unat n) xs)"
| "bounded_step cap xs (Sb_clear, ys) = (True, [])"
| "bounded_step cap xs (oper, ys) = (if length xs + length ys < cap then (True, xs @ ys) else (False, xs))"

fun bounded_exec :: "nat \<Rightarrow> u8 list \<Rightarrow> ('a sb_op \<times> u8 list) list \<Rightarrow> bool list \<times> u8 list" where
  "bounded_exec cap xs [] = ([], xs)"
| "bounded_exec cap xs (c # cs) = (let (ok, ys) = bounded_step cap xs c; (oks, zs) = bounded_exec cap ys cs in (ok # oks, zs))"

lemma sb_step_refines:
  assumes "sb_ok h sb xs" "op_reads h (sb_span sb) oper ys"
  shows "\<exists>h' sb'. sb_step builtin v (h, Some sb) oper = ret (fst (bounded_step (unat (sb_cap sb)) xs (oper, ys)), h', Some sb') \<and>
    sb_ok h' sb' (snd (bounded_step (unat (sb_cap sb)) xs (oper, ys))) \<and> sb_keeps h sb h' sb'"
proof (cases oper)
  case (Sb_append s)
  note b = sb_ok_bounds [OF assms(1)]
  show ?thesis
  proof (cases "s = 0")
    case True
    with assms Sb_append b show ?thesis
      by (auto simp: sb_step_def stringbuf_append_def on_sb_simps reads_at_def)
  next
    case False
    with assms(2) Sb_append have "region h s (ys @ [0])" "0 \<notin> set ys" "fits s (Suc (length ys))"
      by (auto simp: reads_at_def)
    from stringbuf_append_value [OF assms(1) this(1,2) False this(3), of builtin] assms(1) Sb_append show ?thesis
      by (auto simp: sb_step_def split: if_splits)
  qed
next
  case (Sb_append_str s)
  with assms(2) have "shows_bytes h s ys" by (auto simp: shows_bytes_def reads_at_def object_def null_ptr_def)
  from stringbuf_append_str_value [OF assms(1) this, of builtin] assms(1) Sb_append_str show ?thesis
    by (auto simp: sb_step_def split: if_splits)
next
  case (Sb_append_char c)
  with stringbuf_append_char_value [OF assms(1), of builtin c] assms show ?thesis
    by (auto simp: sb_step_def split: if_splits)
next
  case (Sb_append_n s n)
  note b = sb_ok_bounds [OF assms(1)]
  show ?thesis
  proof (cases "s = 0 \<or> n = 0")
    case True
    then have "ys = []" using assms(2) Sb_append_n by (auto simp: reads_at_def split: if_splits)
    with True assms Sb_append_n b show ?thesis by (auto simp: sb_step_def stringbuf_append_n_def on_sb_simps)
  next
    case False
    with assms(2) Sb_append_n have "n_string h s (unat n) ys" by (auto simp: n_string_def reads_at_def split: if_splits)
    from stringbuf_append_n_value [OF assms(1) this, of builtin] False assms(1) Sb_append_n show ?thesis
      by (auto simp: sb_step_def split: if_splits)
  qed
next
  case (Sb_append_fmt fmt args)
  with assms show ?thesis by simp
next
  case (Sb_truncate n)
  with stringbuf_truncate_value [OF assms(1), of n] show ?thesis by (auto simp: sb_step_def)
next
  case Sb_clear
  with stringbuf_clear_value [OF assms(1)] show ?thesis by (auto simp: sb_step_def)
qed

lemma sb_exec_refines:
  "sb_ok h sb xs \<Longrightarrow> list_all2 (op_reads h (sb_span sb)) opers yss \<Longrightarrow>
   \<exists>h' sb'. sb_exec builtin v opers (h, Some sb) = ret (fst (bounded_exec (unat (sb_cap sb)) xs (zip opers yss)), h', Some sb') \<and>
     sb_ok h' sb' (snd (bounded_exec (unat (sb_cap sb)) xs (zip opers yss))) \<and> sb_keeps h sb h' sb'"
proof (induction opers arbitrary: h sb xs yss)
  case Nil
  then show ?case by auto
next
  case (Cons oper opers)
  then obtain ys yss' where y: "yss = ys # yss'" "op_reads h (sb_span sb) oper ys"
    "list_all2 (op_reads h (sb_span sb)) opers yss'" by (auto simp: list_all2_Cons1)
  from sb_step_refines [OF Cons.prems(1) y(2), of builtin v] obtain ok h1 sb1 zs where
    s: "bounded_step (unat (sb_cap sb)) xs (oper, ys) = (ok, zs)" "sb_step builtin v (h, Some sb) oper = ret (ok, h1, Some sb1)"
      "sb_ok h1 sb1 zs" "sb_keeps h sb h1 sb1" by (metis prod.collapse)
  then have "sb_span sb1 = sb_span sb" "sb_cap sb1 = sb_cap sb" "\<forall>q. q \<notin> sb_span sb \<longrightarrow> h1 q = h q"
    by (simp_all add: sb_keeps_def)
  moreover from this y(3) have "list_all2 (op_reads h1 (sb_span sb1)) opers yss'"
    by (auto elim!: list_all2_mono intro: op_reads_frame)
  ultimately show ?case using Cons.IH [OF s(3), of yss'] s y(1)
    by (auto simp: case_prod_beta intro: sb_keeps_trans)
qed

subsection \<open>Initialisation\<close>

lemma stringbuf_init_ok:
  assumes "object h buffer bs cap" "1 < cap"
  shows "\<exists>h'. write_bytes h buffer [0] = ret h' \<and> (\<forall>q. q \<notin> span buffer (unat cap) \<longrightarrow> h' q = h q) \<and>
    sb_ok h' \<lparr>sb_arena = a, sb_data = buffer, sb_len = 0, sb_cap = cap\<rparr> []"
proof -
  have "bs \<noteq> []" using assms by (auto simp: object_def word_less_nat_alt)
  then obtain b bs' where bs: "bs = b # bs'" by (cases bs) auto
  from object_splice [of h buffer "[]" "[b]" bs' cap "[0]"] assms(1) bs show ?thesis by (auto simp: sb_ok_def)
qed

lemma stringbuf_init_buffer_value:
  assumes "object h buffer bs cap" "1 < cap"
  shows "\<exists>h' sb'. stringbuf_init_buffer h (Some sb) buffer cap = ret (h', Some sb') \<and> sb_ok h' sb' [] \<and>
    sb_data sb' = buffer \<and> sb_cap sb' = cap \<and> (\<forall>q. q \<notin> span buffer (unat cap) \<longrightarrow> h' q = h q)"
proof -
  have "buffer \<noteq> null_ptr" using assms(1) by (simp add: object_def null_ptr_def)
  with assms(2) stringbuf_init_ok [OF assms, of None] show ?thesis
    by (cases sb) (auto simp: stringbuf_init_buffer_def)
qed

lemma backed_frame:
  assumes "arena_backed h p" "\<forall>q. q \<notin> sb_span sb \<longrightarrow> h' q = h q" "sb_ok h' sb xs"
  shows "arena_backed h' p"
proof -
  from assms(3) obtain rest where o: "object h' (sb_data sb) (xs @ 0 # rest) (sb_cap sb)" by (auto simp: sb_ok_def)
  then have "h' q \<noteq> None" if "q \<in> sb_span sb" for q
    using that region_mapped [of "sb_data sb" "xs @ 0 # rest" h' q] by (simp add: object_def)
  with assms(1,2) show ?thesis by (auto simp: arena_backed_def backed_def split: option.splits) metis
qed

lemma stringbuf_init_arena_value:
  assumes "arena_ok (Some a)" "arena_backed h (Some a)" "1 < cap" "st r = Some a"
  shows "\<exists>a' ok h' sb'. stringbuf_init_arena h (Some sb) (Some r) st cap = ret (ok, h', Some sb', st(r \<mapsto> a')) \<and>
    arena_ok (Some a') \<and> arena_backed h' (Some a') \<and>
    (if ok then sb_ok h' sb' [] \<and> sb_cap sb' = cap \<and> sb_span sb' \<subseteq> arena_free (Some a) - arena_free (Some a') \<and>
       arena_free (Some a') \<subseteq> arena_free (Some a) \<and> (\<forall>q. q \<notin> sb_span sb' \<longrightarrow> h' q = h q)
     else a' = a \<and> h' = h \<and> sb' = sb)"
proof -
  from arena_alloc_step [OF assms(1), of cap] obtain q p' where al: "arena_alloc (Some a) cap = ret (q, p')"
    "arena_ok p'" "arena_grows (Some a) p'" "block_span (q, unat cap) \<subseteq> arena_free (Some a)"
    "arena_free p' \<subseteq> arena_free (Some a) - block_span (q, unat cap)" "q \<noteq> null_ptr \<longrightarrow> fits q (unat cap)"
    "q = null_ptr \<longrightarrow> p' = Some a" by blast
  obtain a' where a': "p' = Some a'" using al(2) by (auto simp: arena_ok_def split: option.splits)
  show ?thesis
  proof (cases "q = null_ptr")
    case True
    with al assms a' show ?thesis by (auto simp: stringbuf_init_arena_def arena_load_def Let_def)
  next
    case False
    have "backed h q (unat cap)" using arena_free_backed [OF assms(1,2) al(4) False] .
    then obtain bs where "length bs = unat cap" "region h q bs" using backed_region al(6) False by blast
    then have o: "object h q bs cap" using False al(6) by (simp add: object_def null_ptr_def)
    from stringbuf_init_ok [OF o assms(3), of "Some r"] obtain h' where
      h': "write_bytes h q [0] = ret h'" "\<forall>x. x \<notin> span q (unat cap) \<longrightarrow> h' x = h x"
        "sb_ok h' \<lparr>sb_arena = Some r, sb_data = q, sb_len = 0, sb_cap = cap\<rparr> []" by blast
    have "arena_backed h' (Some a)"
      using backed_frame [OF assms(2) _ h'(3)] h'(2) by simp
    then have "arena_backed h' (Some a')" using al(3) a' by (simp add: arena_backed_def backed_def arena_grows_def)
    then show ?thesis using al assms(3,4) a' False h'
      by (cases sb) (auto simp: stringbuf_init_arena_def arena_load_def Let_def block_span_def)
  qed
qed

lemma stringbuf_init_arena_fresh:
  assumes "arena_ok (Some a)" "arena_backed h (Some a)" "1 < cap" "st r = Some a"
    and "stringbuf_init_arena h (Some sb) (Some r) st cap = ret (True, h', Some sb', st')"
  shows "\<exists>a'. st' = st(r \<mapsto> a') \<and> arena_ok (Some a') \<and> arena_backed h' (Some a') \<and> sb_ok h' sb' [] \<and>
    sb_span sb' \<subseteq> arena_free (Some a) - arena_free (Some a') \<and> (\<forall>q. q \<notin> sb_span sb' \<longrightarrow> h' q = h q)"
proof -
  from stringbuf_init_arena_value [where st = st and r = r and sb = sb, OF assms(1-4)] obtain a1 ok h1 sb1 where
    v: "stringbuf_init_arena h (Some sb) (Some r) st cap = ret (ok, h1, Some sb1, st(r \<mapsto> a1))"
      "arena_ok (Some a1)" "arena_backed h1 (Some a1)"
      "if ok then sb_ok h1 sb1 [] \<and> sb_cap sb1 = cap \<and> sb_span sb1 \<subseteq> arena_free (Some a) - arena_free (Some a1) \<and>
         arena_free (Some a1) \<subseteq> arena_free (Some a) \<and> (\<forall>q. q \<notin> sb_span sb1 \<longrightarrow> h1 q = h q)
       else a1 = a \<and> h1 = h \<and> sb1 = sb" by blast
  from v(1) assms(5) have "ok" "h1 = h'" "sb1 = sb'" "st' = st(r \<mapsto> a1)" by simp_all
  with v(2-4) show ?thesis by auto
qed

subsection \<open>A concrete vsnprintf\<close>

text \<open>For the witnesses: the argument is the output, and the format is not looked at.\<close>

definition vsn_copy :: "u8 list vsnprintf" where
  "vsn_copy h s n fmt out =
     (if length out \<ge> 2 ^ 31 then ret (- 1, h)
      else if n = 0 then ret (int (length out), h)
      else bindR (write_bytes h s (take (unat n - 1) out @ [0])) (\<lambda>h'. ret (int (length out), h')))"

lemma vsn_copy_wrote:
  assumes "vsn_copy h s n fmt out = ret (r, h')" "n \<noteq> 0" "object h s xs n"
  shows "(\<forall>q. q \<notin> span s (unat n) \<longrightarrow> h' q = h q) \<and>
    (\<exists>ys. object h' s ys n \<and> (0 \<le> r \<and> nat r < unat n \<longrightarrow> (\<exists>out rest. ys = out @ 0 # rest \<and> length out = nat r)))"
proof (cases "length out \<ge> 2 ^ 31")
  case True
  with assms show ?thesis by (auto simp: vsn_copy_def)
next
  case False
  let ?ys = "take (unat n - 1) out @ [0]"
  have "length xs = unat n" "0 < unat n" using assms(2,3) by (simp_all add: object_def unat_gt_0)
  then have l: "length ?ys = length (take (length ?ys) xs)" by simp
  have "object h s ([] @ take (length ?ys) xs @ drop (length ?ys) xs) n" using assms(3) by (simp only: append_Nil append_take_drop_id)
  from object_splice [OF this l] obtain h1 where
    h1: "write_bytes h s ?ys = ret h1" "object h1 s (?ys @ drop (length ?ys) xs) n" "\<forall>q. q \<notin> span s (unat n) \<longrightarrow> h1 q = h q" by auto
  then have "h' = h1" "r = int (length out)" using assms(1,2) False by (auto simp: vsn_copy_def)
  moreover have "nat r < unat n \<Longrightarrow> ?ys @ drop (length ?ys) xs = out @ 0 # drop (length ?ys) xs \<and> length out = nat r"
    using calculation(2) by simp
  ultimately show ?thesis using h1(2,3) by blast
qed

lemma vsn_copy_ok: "vsnprintf_ok vsn_copy"
  unfolding vsnprintf_ok_def vsnprintf_wrote_def
proof (intro allI impI conjI)
  fix h s n fmt out r h'
  assume a: "vsn_copy h s n fmt out = ret (r, h')"
  show "r < 2 ^ 31" using a by (auto simp: vsn_copy_def bindR_eq_Inr split: if_splits)
  show "h' = h" if "n = 0" using a that by (auto simp: vsn_copy_def split: if_splits)
  show "h' q = h q" if "n \<noteq> 0" "object h s xs n" "q \<notin> span s (unat n)" for xs q
    using vsn_copy_wrote [OF a that(1,2)] that(3) by blast
  show "\<exists>ys. object h' s ys n \<and> (0 \<le> r \<and> nat r < unat n \<longrightarrow> (\<exists>out rest. ys = out @ 0 # rest \<and> length out = nat r))"
    if "n \<noteq> 0" "object h s xs n" for xs
    using vsn_copy_wrote [OF a that] by blast
qed

subsection \<open>Properties\<close>

text \<open>C11: A string buffer over a caller's memory behaves as a list of bounded length for every sequence of
  operations whose sources lie outside the buffer: appends of C strings, views, characters and
  the first \<open>n\<close> bytes of a string, truncations and clears. An append that does not leave room for
  the terminator is refused and changes nothing, every operation returns, the terminator is in
  place at the end, and no byte outside the buffer is written.\<close>

theorem stringbuf_refines_bounded_string:
  assumes "object h buffer bs cap" "1 < cap"
    and "list_all2 (op_reads h (span buffer (unat cap))) opers contents"
  shows "\<exists>h' sb'. bindR (stringbuf_init_buffer h (Some sb) buffer cap) (sb_exec builtin v opers) =
      ret (fst (bounded_exec (unat cap) [] (zip opers contents)), h', Some sb') \<and>
    sb_ok h' sb' (snd (bounded_exec (unat cap) [] (zip opers contents))) \<and>
    sb_data sb' = buffer \<and> sb_cap sb' = cap \<and> (\<forall>q. q \<notin> span buffer (unat cap) \<longrightarrow> h' q = h q)"
proof -
  from stringbuf_init_buffer_value [OF assms(1,2), of sb] obtain h1 sb1 where
    i: "stringbuf_init_buffer h (Some sb) buffer cap = ret (h1, Some sb1)" "sb_ok h1 sb1 []"
      "sb_data sb1 = buffer" "sb_cap sb1 = cap" "\<forall>q. q \<notin> span buffer (unat cap) \<longrightarrow> h1 q = h q" by blast
  have "list_all2 (op_reads h1 (sb_span sb1)) opers contents"
    using assms(3) i(3-5) by (auto elim!: list_all2_mono intro: op_reads_frame)
  from sb_exec_refines [OF i(2) this, of builtin v] i show ?thesis by (auto simp: sb_keeps_def)
qed

theorem stringbuf_refines_bounded_string_witness:
  "let h = (\<lambda>q. if q \<in> span 64 8 then Some 7 else None) in
   \<exists>h' sb'. bindR (stringbuf_init_buffer h (Some \<lparr>sb_arena = None, sb_data = 0, sb_len = 0, sb_cap = 0\<rparr>) 64 4)
      (sb_exec True (\<lambda>h s n fmt (args :: unit). ret (0, h))
        [Sb_append_char 72, Sb_append_str \<lparr>v_ptr = 68, v_len = 3\<rparr>, Sb_append_str \<lparr>v_ptr = 68, v_len = 2\<rparr>, Sb_truncate 2]) =
      ret ([True, False, True, True], h', Some sb') \<and> sb_ok h' sb' [72, 7]"
proof -
  define h :: heap where "h = (\<lambda>q. if q \<in> span 64 8 then Some 7 else None)"
  have "object h 64 [7, 7, 7, 7] 4" "reads_at h (span 64 4) 68 [7, 7, 7]" "reads_at h (span 64 4) 68 [7, 7]"
    by (auto simp: h_def object_def reads_at_def span_def fits_def)
  with stringbuf_refines_bounded_string [of h 64 "[7, 7, 7, 7]" 4 "[Sb_append_char 72, Sb_append_str \<lparr>v_ptr = 68, v_len = 3\<rparr>,
      Sb_append_str \<lparr>v_ptr = 68, v_len = 2\<rparr>, Sb_truncate 2]" "[[72], [7, 7, 7], [7, 7], []]"
      "\<lparr>sb_arena = None, sb_data = 0, sb_len = 0, sb_cap = 0\<rparr>" True "\<lambda>h s n fmt (args :: unit). ret (0, h)"]
  show ?thesis unfolding h_def [symmetric] Let_def by auto
qed

text \<open>A part of the buffer's own string can be appended to it (the copy is a memmove): the string
  grows by the bytes that the part had before, whatever the overlap.\<close>

theorem stringbuf_append_own_part:
  assumes "sb_ok h sb xs" "length xs + length (drop (unat start) (take (unat stop) xs)) < unat (sb_cap sb)"
  shows "\<exists>h' sb'. bindR (stringbuf_as_str (Some sb)) (\<lambda>s. stringbuf_append_str builtin h (Some sb) (str_slice s start stop)) =
      ret (True, h', Some sb') \<and> sb_ok h' sb' (xs @ drop (unat start) (take (unat stop) xs)) \<and> sb_keeps h sb h' sb'"
proof -
  obtain rest where rest: "object h (sb_data sb) (xs @ 0 # rest) (sb_cap sb)" "unat (sb_len sb) = length xs"
    using assms(1) by (auto simp: sb_ok_def)
  let ?s = "\<lparr>v_ptr = sb_data sb, v_len = sb_len sb\<rparr>"
  have "stringbuf_as_str (Some sb) = ret ?s"
    using sb_ok_bounds [OF assms(1)] by (simp add: stringbuf_as_str_def sb_view_def str_from_def null_ptr_def)
  moreover have "object h (sb_data sb) xs (sb_len sb)"
    using rest region_take [of h "sb_data sb" "xs @ 0 # rest" "length xs"] by (auto simp: object_def fits_def)
  then have "shows_bytes h ?s xs" by (simp add: shows_bytes_def object_def null_ptr_def)
  ultimately show ?thesis
    using stringbuf_append_str_value [OF assms(1) bytes_slice_shows, of ?s xs start stop builtin] assms(2) by (simp add: str_bytes_same)
qed

theorem stringbuf_append_own_part_witness:
  "let h = (\<lambda>q. if q \<in> span 64 8 then Some 0 else None)(64 \<mapsto> 1, 65 \<mapsto> 2);
     sb = \<lparr>sb_arena = None, sb_data = 64, sb_len = 2, sb_cap = 8\<rparr> in
   \<exists>h' sb'. bindR (stringbuf_as_str (Some sb)) (\<lambda>s. stringbuf_append_str True h (Some sb) (str_slice s 0 2)) =
     ret (True, h', Some sb') \<and> sb_ok h' sb' [1, 2, 1, 2]"
proof -
  let ?h = "(\<lambda>q. if q \<in> span 64 8 then Some 0 else None)(64 \<mapsto> 1, 65 \<mapsto> 2)"
  let ?sb = "\<lparr>sb_arena = None, sb_data = 64, sb_len = 2, sb_cap = 8\<rparr>"
  have "sb_ok ?h ?sb [1, 2]"
    unfolding sb_ok_def by (auto simp: object_def fits_def span_def intro: exI [of _ "[0, 0, 0, 0, 0]"])
  from stringbuf_append_own_part [OF this, of 0 2 True] show ?thesis by auto
qed

text \<open>C34: A formatted append succeeds exactly when the measuring pass gives a length \<open>r\<close> that leaves room
  for the terminator and the writing pass, which gets room for \<open>r + 1\<close> bytes, returns \<open>r\<close> again;
  the string then grows by \<open>r\<close> bytes. In every other case, a negative result, no room, or passes
  that disagree, the string is the old one and its terminator is restored. \<open>vsnprintf\<close> is any
  function that keeps the promises of the C standard; the measuring call has to return, and the
  writing call only when there is room for its output: without room it may fault, since the code
  does not make it.\<close>

theorem stringbuf_append_fmt_outcome:
  assumes "vsnprintf_ok v" "sb_ok h sb xs" "fmt \<noteq> null_ptr" "v h 0 0 fmt args = ret (r, h0)"
    and "0 \<le> r \<and> length xs + nat r < unat (sb_cap sb) \<Longrightarrow>
      v h (sb_data sb + sb_len sb) (of_nat (Suc (nat r))) fmt args = ret (w, h1)"
  shows "\<exists>ok h' sb' ys. stringbuf_append_fmt builtin v h (Some sb) fmt args = ret (ok, h', Some sb') \<and>
    sb_ok h' sb' (xs @ ys) \<and> sb_keeps h sb h' sb' \<and>
    (ok \<longleftrightarrow> 0 \<le> r \<and> length xs + nat r < unat (sb_cap sb) \<and> w = r) \<and>
    (if ok then length ys = nat r else ys = [] \<and> sb' = sb)"
proof -
  have va: "stringbuf_append_fmt builtin v h (Some sb) fmt args = stringbuf_append_fmt_va builtin v h (Some sb) fmt args"
    using assms(3) sb_ok_bounds [OF assms(2)] by (simp add: stringbuf_append_fmt_def null_ptr_def)
  have fmt: "fmt \<noteq> 0" using assms(3) by (simp add: null_ptr_def)
  show ?thesis
  proof (cases "0 \<le> r \<and> length xs + nat r < unat (sb_cap sb)")
    case False
    then show ?thesis using stringbuf_append_fmt_va_measure(1) [OF assms(1,2) fmt assms(4), of builtin] va assms(2) by auto
  next
    case True
    then have r: "0 \<le> r" "length xs + nat r < unat (sb_cap sb)" by simp_all
    note val = stringbuf_append_fmt_va_write [OF assms(1,2) fmt assms(4) r assms(5) [OF True], of builtin]
    show ?thesis
    proof (cases "w = r")
      case w: True
      from val(1) [OF w] va True w show ?thesis by fastforce
    next
      case w: False
      from val(2) [OF w] va w show ?thesis by fastforce
    qed
  qed
qed

theorem stringbuf_append_fmt_outcome_witness:
  "let h = (\<lambda>q. if q \<in> span 64 8 then Some 0 else None); sb = \<lparr>sb_arena = None, sb_data = 64, sb_len = 0, sb_cap = 8\<rparr> in
   (\<exists>h' sb' ys. stringbuf_append_fmt True vsn_copy h (Some sb) 32 [104, 105] = ret (True, h', Some sb') \<and>
     sb_ok h' sb' ys \<and> length ys = 2) \<and>
   vsn_copy h 64 9 32 (replicate 8 104) = undefined_behaviour ''write outside every object'' \<and>
   (\<exists>h'. stringbuf_append_fmt True vsn_copy h (Some sb) 32 (replicate 8 104) = ret (False, h', Some sb) \<and> sb_ok h' sb [])"
proof -
  let ?h = "\<lambda>q. if q \<in> span 64 8 then Some 0 else None"
  let ?sb = "\<lparr>sb_arena = None, sb_data = 64, sb_len = 0, sb_cap = 8\<rparr>"
  have ok: "sb_ok ?h ?sb []"
    unfolding sb_ok_def by (auto simp: object_def fits_def span_def intro: exI [of _ "[0, 0, 0, 0, 0, 0, 0]"])
  have m: "vsn_copy ?h 0 0 32 [104, 105] = ret (2, ?h)" by (simp add: vsn_copy_def)
  have w: "vsn_copy ?h (sb_data ?sb + sb_len ?sb) (of_nat (Suc (nat 2))) 32 [104, 105] =
      ret (2, ?h(64 \<mapsto> 104, 65 \<mapsto> 105, 66 \<mapsto> 0))"
    by (simp add: vsn_copy_def write_bytes.simps span_def)
  have m8: "vsn_copy ?h 0 0 32 (replicate 8 104) = ret (8, ?h)" by (simp add: vsn_copy_def)
  have rep: "replicate 8 (104 :: u8) = [104, 104, 104, 104, 104, 104, 104, 104]" by code_simp
  have w8: "vsn_copy ?h 64 9 32 (replicate 8 104) = undefined_behaviour ''write outside every object''"
    unfolding rep by (simp add: vsn_copy_def write_bytes.simps span_def)
  have "\<exists>h' sb' ys. stringbuf_append_fmt True vsn_copy ?h (Some ?sb) 32 [104, 105] = ret (True, h', Some sb') \<and>
     sb_ok h' sb' ys \<and> length ys = 2"
    using stringbuf_append_fmt_outcome [OF vsn_copy_ok ok _ m w, of True] by (fastforce simp: null_ptr_def)
  moreover have "\<exists>h'. stringbuf_append_fmt True vsn_copy ?h (Some ?sb) 32 (replicate 8 104) = ret (False, h', Some ?sb) \<and>
     sb_ok h' ?sb []"
    using stringbuf_append_fmt_outcome [OF vsn_copy_ok ok _ m8, of 8 ?h True] by (fastforce simp: null_ptr_def)
  ultimately show ?thesis using w8 by (simp add: Let_def)
qed

text \<open>C35: Type safety: whatever the sources of the operations are, formats and pieces of the buffer
  itself included, a sequence of operations that returns leaves a string buffer with a terminated
  string shorter than the capacity, over the same memory, and has written nothing outside it.\<close>

theorem stringbuf_ops_keep_well_formed:
  assumes "vsnprintf_ok v" "sb_ok h sb xs" "sb_exec builtin v opers (h, Some sb) = ret (oks, h', p')"
  shows "\<exists>sb' ys rest. p' = Some sb' \<and> sb_data sb' = sb_data sb \<and> sb_cap sb' = sb_cap sb \<and>
    object h' (sb_data sb) (ys @ 0 # rest) (sb_cap sb) \<and> unat (sb_len sb') = length ys \<and> sb_len sb' < sb_cap sb' \<and>
    (\<forall>q. q \<notin> span (sb_data sb) (unat (sb_cap sb)) \<longrightarrow> h' q = h q)"
proof -
  from sb_exec_type [OF assms] obtain sb' ys where
    s: "p' = Some sb'" "sb_ok h' sb' ys" "sb_keeps h sb h' sb'" by blast
  moreover have "sb_len sb' < sb_cap sb'" using sb_ok_bounds [OF s(2)] by (simp add: word_less_nat_alt)
  ultimately show ?thesis by (auto simp: sb_ok_def sb_keeps_def)
qed

theorem stringbuf_ops_keep_well_formed_witness:
  "let h = (\<lambda>q. if q \<in> span 64 8 then Some 0 else None); sb = \<lparr>sb_arena = None, sb_data = 64, sb_len = 0, sb_cap = 8\<rparr> in
   \<exists>h' sb' ys rest. sb_exec True vsn_copy [Sb_append_fmt 32 [104, 105], Sb_truncate 1] (h, Some sb) =
       ret ([True, True], h', Some sb') \<and> object h' 64 (ys @ 0 # rest) 8 \<and> unat (sb_len sb') = length ys"
proof -
  let ?h = "\<lambda>q. if q \<in> span 64 8 then Some 0 else None"
  let ?sb = "\<lparr>sb_arena = None, sb_data = 64, sb_len = 0, sb_cap = 8\<rparr>"
  have ok: "sb_ok ?h ?sb []"
    unfolding sb_ok_def by (auto simp: object_def fits_def span_def intro: exI [of _ "[0, 0, 0, 0, 0, 0, 0]"])
  have e: "sb_exec True vsn_copy [Sb_append_fmt 32 [104, 105], Sb_truncate 1] (?h, Some ?sb) =
      ret ([True, True], ?h(64 \<mapsto> 104, 65 \<mapsto> 0, 66 \<mapsto> 0), Some (?sb\<lparr>sb_len := 1\<rparr>))"
    by (simp add: sb_step_def stringbuf_append_fmt_def stringbuf_append_fmt_va_def on_sb_simps vsn_copy_def
        stringbuf_truncate_def write_bytes.simps span_def fun_upd_twist)
  show ?thesis using stringbuf_ops_keep_well_formed [OF vsn_copy_ok ok e] e by fastforce
qed

text \<open>C36: Two string buffers from one arena are independent. The second one, made after any use of the
  first, comes from memory that the arena still had, so that the two share no byte; no sequence of
  operations on the second that returns changes the string of the first; and going on with the
  first one after that does not change the string of the second.\<close>

theorem arena_stringbufs_independent:
  assumes "arena_ok (Some a)" "arena_backed h (Some a)" "1 < cap1" "1 < cap2" "st r = Some a" "vsnprintf_ok v"
    and "stringbuf_init_arena h (Some sb0) (Some r) st cap1 = ret (True, h1, Some sb1, st1)"
    and "sb_exec builtin v opers1 (h1, Some sb1) = ret (oks1, h2, Some sb2)" "sb_ok h2 sb2 xs"
    and "stringbuf_init_arena h2 (Some sb0) (Some r) st1 cap2 = ret (True, h3, Some sb3, st3)"
    and "sb_exec builtin v opers2 (h3, Some sb3) = ret (oks2, h4, p4)"
  shows "\<exists>a1 sb4 ys. st1 r = Some a1 \<and> sb_span sb3 \<subseteq> arena_free (Some a1) \<and> sb_span sb3 \<inter> sb_span sb2 = {} \<and>
    sb_ok h4 sb2 xs \<and> p4 = Some sb4 \<and> sb_ok h4 sb4 ys \<and> sb_span sb4 = sb_span sb3 \<and>
    (\<forall>opers3 oks3 h5 p5. sb_exec builtin v opers3 (h4, Some sb2) = ret (oks3, h5, p5) \<longrightarrow> sb_ok h5 sb4 ys)"
proof -
  from stringbuf_init_arena_fresh [where st = st and r = r, OF assms(1-3,5,7)] obtain a1 where
    i1: "st1 = st(r \<mapsto> a1)" "arena_ok (Some a1)" "arena_backed h1 (Some a1)" "sb_ok h1 sb1 []"
      "sb_span sb1 \<subseteq> arena_free (Some a) - arena_free (Some a1)" by blast
  from sb_exec_type [OF assms(6) i1(4) assms(8)] have k1: "sb_keeps h1 sb1 h2 sb2" by auto
  then have "arena_backed h2 (Some a1)"
    using backed_frame [OF i1(3) _ assms(9)] by (simp add: sb_keeps_def)
  from stringbuf_init_arena_fresh [where st = st1 and r = r, OF i1(2) this assms(4) _ assms(10)] i1(1) have
    i3: "sb_ok h3 sb3 []" "sb_span sb3 \<subseteq> arena_free (Some a1)" "\<forall>q. q \<notin> sb_span sb3 \<longrightarrow> h3 q = h2 q" by auto
  from sb_exec_type [OF assms(6) i3(1) assms(11)] obtain sb4 ys where
    k3: "p4 = Some sb4" "sb_ok h4 sb4 ys" "sb_keeps h3 sb3 h4 sb4" by blast
  have sp: "sb_span sb4 = sb_span sb3" using k3(3) by (simp add: sb_keeps_def)
  have dj: "sb_span sb3 \<inter> sb_span sb2 = {}" using i1(5) i3(2) k1 by (auto simp: sb_keeps_def)
  have fr: "\<forall>q. q \<notin> sb_span sb3 \<longrightarrow> h4 q = h2 q" using k3(3) i3(3) by (simp add: sb_keeps_def)
  have first: "sb_ok h4 sb2 xs" using assms(9) unfolding sb_ok_def using object_frame [OF _ fr dj] by blast
  have "sb_ok h5 sb4 ys" if "sb_exec builtin v opers3 (h4, Some sb2) = ret (oks3, h5, p5)" for opers3 oks3 h5 p5
  proof -
    from sb_exec_type [OF assms(6) first that] have "\<forall>q. q \<notin> sb_span sb2 \<longrightarrow> h5 q = h4 q"
      by (auto simp: sb_keeps_def)
    moreover have "sb_span sb2 \<inter> sb_span sb4 = {}" using dj sp by blast
    ultimately show ?thesis using k3(2) unfolding sb_ok_def using object_frame by blast
  qed
  then show ?thesis using i1(1) i3(2) dj first k3(1,2) sp by (intro exI [of _ a1] exI [of _ sb4] exI [of _ ys]) simp
qed

theorem arena_stringbufs_independent_witness:
  "let h = (\<lambda>q. if q \<in> span 64 64 then Some 0 else None);
     a = \<lparr>arena_buffer = 64, arena_cap = 64, arena_offset = 0, arena_padding = 0\<rparr>;
     sb0 = \<lparr>sb_arena = None, sb_data = 0, sb_len = 0, sb_cap = 0\<rparr>
   in \<exists>h1 sb1 st1 h2 sb2 h3 sb3 st3 h4 sb4 h5 sb5 ys.
     stringbuf_init_arena h (Some sb0) (Some 0) [0 \<mapsto> a] 2 = ret (True, h1, Some sb1, st1) \<and>
     sb_exec True vsn_copy [Sb_append_char 72] (h1, Some sb1) = ret ([True], h2, Some sb2) \<and>
     stringbuf_init_arena h2 (Some sb0) (Some 0) st1 2 = ret (True, h3, Some sb3, st3) \<and>
     sb_exec True vsn_copy [Sb_append_char 73] (h3, Some sb3) = ret ([True], h4, Some sb4) \<and> sb_ok h4 sb2 [72] \<and>
     sb_span sb3 \<inter> sb_span sb2 = {} \<and> sb_exec True vsn_copy [Sb_truncate 0] (h4, Some sb2) = ret ([True], h5, sb5) \<and>
     sb_ok h5 sb4 ys"
proof -
  define h :: heap where "h = (\<lambda>q. if q \<in> span 64 64 then Some 0 else None)"
  let ?a = "\<lparr>arena_buffer = 64, arena_cap = 64, arena_offset = 0, arena_padding = 0\<rparr>"
  let ?sb0 = "\<lparr>sb_arena = None, sb_data = 0, sb_len = 0, sb_cap = 0\<rparr>"
  let ?a1 = "?a\<lparr>arena_offset := 2\<rparr>" and ?a3 = "?a\<lparr>arena_offset := 18, arena_padding := 14\<rparr>"
  let ?sb1 = "\<lparr>sb_arena = Some 0, sb_data = 64, sb_len = 0, sb_cap = 2\<rparr>"
  let ?sb3 = "\<lparr>sb_arena = Some 0, sb_data = 80, sb_len = 0, sb_cap = 2\<rparr>"
  have a: "arena_ok (Some ?a)" "arena_backed h (Some ?a)"
    by (auto simp: arena_ok_def arena_backed_def backed_def null_ptr_def h_def)
  have al: "arena_alloc (Some ?a) 2 = ret (64, Some ?a1)" "arena_alloc (Some ?a1) 2 = ret (80, Some ?a3)"
    by code_simp+
  have h: "h 64 = Some 0" "h 65 = Some 0" "h 80 = Some 0" "h 81 = Some 0" by (simp_all add: h_def span_def)
  have i1: "stringbuf_init_arena h (Some ?sb0) (Some 0) [0 \<mapsto> ?a] 2 = ret (True, h(64 \<mapsto> 0), Some ?sb1, [0 \<mapsto> ?a1])"
    using h al by (simp add: stringbuf_init_arena_def arena_load_def null_ptr_def write_bytes.simps)
  have e1: "sb_exec True vsn_copy [Sb_append_char 72] (h(64 \<mapsto> 0), Some ?sb1) =
      ret ([True], h(64 \<mapsto> 72, 65 \<mapsto> 0), Some (?sb1\<lparr>sb_len := 1\<rparr>))"
    using h by (simp add: sb_step_def stringbuf_append_char_def on_sb_simps write_bytes.simps fun_upd_twist)
  have i3: "stringbuf_init_arena (h(64 \<mapsto> 72, 65 \<mapsto> 0)) (Some ?sb0) (Some 0) [0 \<mapsto> ?a1] 2 =
      ret (True, h(64 \<mapsto> 72, 65 \<mapsto> 0, 80 \<mapsto> 0), Some ?sb3, [0 \<mapsto> ?a3])"
    using h al by (simp add: stringbuf_init_arena_def arena_load_def null_ptr_def write_bytes.simps)
  have e3: "sb_exec True vsn_copy [Sb_append_char 73] (h(64 \<mapsto> 72, 65 \<mapsto> 0, 80 \<mapsto> 0), Some ?sb3) =
      ret ([True], h(64 \<mapsto> 72, 65 \<mapsto> 0, 80 \<mapsto> 73, 81 \<mapsto> 0), Some (?sb3\<lparr>sb_len := 1\<rparr>))"
    using h by (simp add: sb_step_def stringbuf_append_char_def on_sb_simps write_bytes.simps)
  have ok: "sb_ok (h(64 \<mapsto> 72, 65 \<mapsto> 0)) (?sb1\<lparr>sb_len := 1\<rparr>) [72]"
    unfolding sb_ok_def by (auto simp: object_def fits_def intro: exI [of _ "[]"])
  have e5: "sb_exec True vsn_copy [Sb_truncate 0] (h(64 \<mapsto> 72, 65 \<mapsto> 0, 80 \<mapsto> 73, 81 \<mapsto> 0), Some (?sb1\<lparr>sb_len := 1\<rparr>)) =
      ret ([True], h(64 \<mapsto> 0, 65 \<mapsto> 0, 80 \<mapsto> 73, 81 \<mapsto> 0), Some ?sb1)"
    using h by (simp add: sb_step_def stringbuf_truncate_def on_sb_simps write_bytes.simps fun_upd_twist)
  have lt: "(1 :: usize) < 2" and ld: "[0 \<mapsto> ?a] 0 = Some ?a" by simp_all
  from arena_stringbufs_independent [OF a lt lt ld vsn_copy_ok i1 e1 ok i3 e3] obtain sb4 ys where
    t: "sb_span ?sb3 \<inter> sb_span (?sb1\<lparr>sb_len := 1\<rparr>) = {}"
      "sb_ok (h(64 \<mapsto> 72, 65 \<mapsto> 0, 80 \<mapsto> 73, 81 \<mapsto> 0)) (?sb1\<lparr>sb_len := 1\<rparr>) [72]"
      "Some (?sb3\<lparr>sb_len := 1\<rparr>) = Some sb4"
      "\<forall>opers3 oks3 h5 p5. sb_exec True vsn_copy opers3 (h(64 \<mapsto> 72, 65 \<mapsto> 0, 80 \<mapsto> 73, 81 \<mapsto> 0), Some (?sb1\<lparr>sb_len := 1\<rparr>)) =
         ret (oks3, h5, p5) \<longrightarrow> sb_ok h5 sb4 ys"
    by (elim exE conjE) (rule that; assumption)
  have t5: "sb_ok (h(64 \<mapsto> 0, 65 \<mapsto> 0, 80 \<mapsto> 73, 81 \<mapsto> 0)) (?sb3\<lparr>sb_len := 1\<rparr>) ys"
    using t(4) [rule_format, OF e5] unfolding t(3) [unfolded option.inject] .
  show ?thesis unfolding h_def [symmetric] Let_def
    by (rule exI, rule exI, rule exI, rule exI, rule exI, rule exI, rule exI, rule exI, rule exI, rule exI, rule exI, rule exI, rule exI)
      (rule conjI, rule i1, rule conjI, rule e1, rule conjI, rule i3, rule conjI, rule e3, rule conjI, rule t(2),
       rule conjI, rule t(1), rule conjI, rule e5, rule t5)
qed

end
