(* ===== verification/Canon_Str.thy ===== *)
theory Canon_Str
  imports Canon_StringBuf
begin

section \<open>C strings and string views (util/str/str.h, util/str/str_view.h)\<close>

text \<open>
  Functions on C strings and on views of bytes, over the byte heap. A loop over a string ends at its
  terminator; \<open>fuel\<close> is the number of addresses from its start to the end of the address space, and
  running out of it is undefined behaviour. \<open>malloc\<close> and \<open>free\<close> are parameters; what the C standard
  promises of \<open>malloc\<close> is \<open>malloc_ok\<close>. The empty string literal has an address, which is a parameter.

  \<open>cstr h s xs\<close> says that the C string at \<open>s\<close> is \<open>xs\<close>. The lemmas give every function as a function of
  such lists: lengths, the lexicographic order of unsigned bytes, prefixes and suffixes, parts,
  and the contents of the copies.
\<close>

subsection \<open>str.h\<close>

definition load_byte :: "heap \<Rightarrow> uptr \<Rightarrow> u8 run" where
  "load_byte h p = (case h p of None \<Rightarrow> undefined_behaviour ''read outside every object'' | Some b \<Rightarrow> ret b)"

fun str_len_loop :: "heap \<Rightarrow> uptr \<Rightarrow> usize \<Rightarrow> nat \<Rightarrow> usize run" where
  "str_len_loop h s len 0 = undefined_behaviour ''string without a terminator''"
| "str_len_loop h s len (Suc fuel) = bindR (load_byte h (s + len)) (\<lambda>b.
     if b \<noteq> 0 then str_len_loop h s (len + 1) fuel else ret len)"

definition str_len :: "heap \<Rightarrow> uptr \<Rightarrow> usize run" where
  "str_len h s = (if s = null_ptr then ret 0 else str_len_loop h s 0 (2 ^ 64 - unat s))"

fun str_compare_loop :: "heap \<Rightarrow> uptr \<Rightarrow> uptr \<Rightarrow> nat \<Rightarrow> int run" where
  "str_compare_loop h pa pb 0 = undefined_behaviour ''string without a terminator''"
| "str_compare_loop h pa pb (Suc fuel) = bindR (load_byte h pa) (\<lambda>a. bindR (load_byte h pb) (\<lambda>b.
     if a \<noteq> 0 \<and> a = b then str_compare_loop h (pa + 1) (pb + 1) fuel
     else ret (int (unat a) - int (unat b))))"

definition str_compare :: "heap \<Rightarrow> uptr \<Rightarrow> uptr \<Rightarrow> int run" where
  "str_compare h a b =
     require_msg (a \<noteq> null_ptr) ''str_compare: a is NULL''
     (require_msg (b \<noteq> null_ptr) ''str_compare: b is NULL''
     (str_compare_loop h a b (2 ^ 64 - unat a)))"

text \<open>\<open>k\<close> is \<open>m - 1\<close>: the loop runs while \<open>m > 1\<close>.\<close>

fun str_ncompare_loop :: "heap \<Rightarrow> uptr \<Rightarrow> uptr \<Rightarrow> nat \<Rightarrow> int run" where
  "str_ncompare_loop h pa pb 0 = bindR (load_byte h pa) (\<lambda>a. bindR (load_byte h pb) (\<lambda>b.
     ret (int (unat a) - int (unat b))))"
| "str_ncompare_loop h pa pb (Suc k) = bindR (load_byte h pa) (\<lambda>a. bindR (load_byte h pb) (\<lambda>b.
     if a \<noteq> 0 \<and> a = b then str_ncompare_loop h (pa + 1) (pb + 1) k
     else ret (int (unat a) - int (unat b))))"

definition str_ncompare :: "heap \<Rightarrow> uptr \<Rightarrow> uptr \<Rightarrow> usize \<Rightarrow> int run" where
  "str_ncompare h a b n =
     (if n = 0 then ret 0
      else require_msg (a \<noteq> null_ptr) ''str_ncompare: a is NULL''
        (require_msg (b \<noteq> null_ptr) ''str_ncompare: b is NULL''
        (str_ncompare_loop h a b (unat n - 1))))"

type_synonym malloc = "usize \<Rightarrow> heap \<Rightarrow> uptr \<times> heap"

definition str_alloc_copy :: "malloc \<Rightarrow> heap \<Rightarrow> uptr \<Rightarrow> (uptr option \<times> heap) run" where
  "str_alloc_copy malloc h s =
     (if s = null_ptr then ret (None, h)
      else bindR (str_len h s) (\<lambda>len.
        let (copy, h1) = mem_alloc malloc (len + 1) h in
        if copy = null_ptr then ret (None, h1)
        else bindR (mem_copy h1 copy s (len + 1)) (\<lambda>h2. ret (Some copy, h2))))"

definition str_alloc_concat :: "malloc \<Rightarrow> heap \<Rightarrow> uptr \<Rightarrow> uptr \<Rightarrow> (uptr option \<times> heap) run" where
  "str_alloc_concat malloc h a b =
     require_msg (a \<noteq> null_ptr) ''str_alloc_concat: a is NULL''
     (require_msg (b \<noteq> null_ptr) ''str_alloc_concat: b is NULL''
     (bindR (str_len h a) (\<lambda>len_a. bindR (str_len h b) (\<lambda>len_b.
        let (result, h1) = mem_alloc malloc (len_a + len_b + 1) h in
        if result = null_ptr then ret (None, h1)
        else bindR (mem_copy h1 result a len_a) (\<lambda>h2.
          bindR (mem_copy h2 (result + len_a) b (len_b + 1)) (\<lambda>h3. ret (Some result, h3)))))))"

definition str_alloc_sub :: "malloc \<Rightarrow> heap \<Rightarrow> uptr \<Rightarrow> usize \<Rightarrow> usize \<Rightarrow> (uptr option \<times> heap) run" where
  "str_alloc_sub malloc h s start len =
     require_msg (s \<noteq> null_ptr) ''str_alloc_sub: s is NULL''
     (bindR (str_len h s) (\<lambda>s_len.
        if start \<ge> s_len then ret (None, h)
        else let l = (if start + len > s_len then s_len - start else len);
                 (result, h1) = mem_alloc malloc (l + 1) h in
          if result = null_ptr then ret (None, h1)
          else bindR (mem_copy h1 result (s + start) l) (\<lambda>h2.
            bindR (write_bytes h2 (result + l) [0]) (\<lambda>h3. ret (Some result, h3)))))"

definition str_free :: "(uptr \<Rightarrow> heap \<Rightarrow> heap) \<Rightarrow> uptr \<Rightarrow> heap \<Rightarrow> heap" where
  "str_free free s h = mem_free free s h"

definition str_copy_into :: "heap \<Rightarrow> uptr \<Rightarrow> usize \<Rightarrow> uptr \<Rightarrow> (bool \<times> heap) run" where
  "str_copy_into h dest dest_size src =
     require_msg (dest \<noteq> null_ptr) ''str_copy_into: dest is NULL''
     (require_msg (src \<noteq> null_ptr) ''str_copy_into: src is NULL''
     (if dest_size = 0 then ret (False, h)
      else bindR (str_len h src) (\<lambda>src_len.
        if src_len + 1 > dest_size then ret (False, h)
        else bindR (mem_copy h dest src (src_len + 1)) (\<lambda>h'. ret (True, h')))))"

definition str_concat_into :: "heap \<Rightarrow> uptr \<Rightarrow> usize \<Rightarrow> uptr \<Rightarrow> uptr \<Rightarrow> (bool \<times> heap) run" where
  "str_concat_into h dest dest_size a b =
     require_msg (dest \<noteq> null_ptr) ''str_concat_into: dest is NULL''
     (require_msg (a \<noteq> null_ptr) ''str_concat_into: a is NULL''
     (require_msg (b \<noteq> null_ptr) ''str_concat_into: b is NULL''
     (if dest_size = 0 then ret (False, h)
      else bindR (str_len h a) (\<lambda>len_a. bindR (str_len h b) (\<lambda>len_b.
        if len_a + len_b + 1 > dest_size then ret (False, h)
        else bindR (mem_copy h dest a len_a) (\<lambda>h1.
          bindR (mem_copy h1 (dest + len_a) b (len_b + 1)) (\<lambda>h2. ret (True, h2))))))))"

definition str_equals :: "heap \<Rightarrow> uptr \<Rightarrow> uptr \<Rightarrow> bool run" where
  "str_equals h a b =
     (if a = b then ret True
      else if a = null_ptr \<or> b = null_ptr then ret False
      else bindR (str_compare h a b) (\<lambda>c. ret (c = 0)))"

definition cstr_starts_with :: "heap \<Rightarrow> uptr \<Rightarrow> uptr \<Rightarrow> bool run" where
  "cstr_starts_with h s prefix =
     require_msg (s \<noteq> null_ptr) ''cstr_starts_with: s is NULL''
     (require_msg (prefix \<noteq> null_ptr) ''cstr_starts_with: prefix is NULL''
     (bindR (str_len h prefix) (\<lambda>prefix_len.
        if prefix_len = 0 then ret True
        else bindR (str_ncompare h s prefix prefix_len) (\<lambda>c. ret (c = 0)))))"

definition cstr_ends_with :: "heap \<Rightarrow> uptr \<Rightarrow> uptr \<Rightarrow> bool run" where
  "cstr_ends_with h s suffix =
     require_msg (s \<noteq> null_ptr) ''cstr_ends_with: s is NULL''
     (require_msg (suffix \<noteq> null_ptr) ''cstr_ends_with: suffix is NULL''
     (bindR (str_len h s) (\<lambda>s_len. bindR (str_len h suffix) (\<lambda>suffix_len.
        if suffix_len > s_len then ret False
        else bindR (str_compare h (s + s_len - suffix_len) suffix) (\<lambda>c. ret (c = 0))))))"

subsection \<open>str_view.h\<close>

type_synonym str_view = view

definition str_view_null :: str_view where
  "str_view_null = \<lparr>v_ptr = null_ptr, v_len = 0\<rparr>"

definition str_view_empty :: "uptr \<Rightarrow> str_view" where
  "str_view_empty empty_literal = \<lparr>v_ptr = empty_literal, v_len = 0\<rparr>"

definition str_view_from :: "heap \<Rightarrow> uptr \<Rightarrow> str_view run" where
  "str_view_from h s = (if s = null_ptr then ret str_view_null
     else bindR (str_len h s) (\<lambda>n. ret \<lparr>v_ptr = s, v_len = n\<rparr>))"

definition str_view_from_len :: "uptr \<Rightarrow> usize \<Rightarrow> str_view" where
  "str_view_from_len p len = \<lparr>v_ptr = p, v_len = len\<rparr>"

definition str_view_len :: "str_view \<Rightarrow> usize" where
  "str_view_len v = v_len v"

definition str_view_is_empty :: "str_view \<Rightarrow> bool" where
  "str_view_is_empty v \<longleftrightarrow> v_len v = 0"

definition str_view_is_null :: "str_view \<Rightarrow> bool" where
  "str_view_is_null v \<longleftrightarrow> v_ptr v = null_ptr"

definition str_view_has_data :: "str_view \<Rightarrow> bool" where
  "str_view_has_data v \<longleftrightarrow> v_ptr v \<noteq> null_ptr \<and> v_len v > 0"

definition str_view_equals :: "heap \<Rightarrow> str_view \<Rightarrow> str_view \<Rightarrow> bool run" where
  "str_view_equals h a b =
     (if v_len a \<noteq> v_len b then ret False
      else if v_len a = 0 then ret True
      else bindR (mem_compare h (v_ptr a) (v_ptr b) (v_len a)) (\<lambda>c. ret (c = 0)))"

definition str_view_compare :: "heap \<Rightarrow> str_view \<Rightarrow> str_view \<Rightarrow> int run" where
  "str_view_compare h a b = (let min_len = (if v_len a < v_len b then v_len a else v_len b);
       rest = (if v_len a < v_len b then - 1 else if v_len a > v_len b then 1 else 0) in
     if min_len > 0 then bindR (mem_compare h (v_ptr a) (v_ptr b) min_len) (\<lambda>cmp.
       if cmp \<noteq> 0 then ret cmp else ret rest)
     else ret rest)"

definition str_view_starts_with :: "heap \<Rightarrow> str_view \<Rightarrow> str_view \<Rightarrow> bool run" where
  "str_view_starts_with h v prefix =
     (if v_len prefix > v_len v then ret False
      else if v_len prefix = 0 then ret True
      else bindR (mem_compare h (v_ptr v) (v_ptr prefix) (v_len prefix)) (\<lambda>c. ret (c = 0)))"

definition str_view_ends_with :: "heap \<Rightarrow> str_view \<Rightarrow> str_view \<Rightarrow> bool run" where
  "str_view_ends_with h v suffix =
     (if v_len suffix > v_len v then ret False
      else if v_len suffix = 0 then ret True
      else bindR (mem_compare h (v_ptr v + v_len v - v_len suffix) (v_ptr suffix) (v_len suffix)) (\<lambda>c. ret (c = 0)))"

definition str_view_sub :: "uptr \<Rightarrow> str_view \<Rightarrow> usize \<Rightarrow> usize \<Rightarrow> str_view" where
  "str_view_sub empty_literal v start len =
     (if start \<ge> v_len v then str_view_empty empty_literal
      else let avail = v_len v - start in
        str_view_from_len (v_ptr v + start) (if len < avail then len else avail))"

definition str_view_prefix :: "uptr \<Rightarrow> str_view \<Rightarrow> usize \<Rightarrow> str_view" where
  "str_view_prefix empty_literal v n = str_view_sub empty_literal v 0 n"

definition str_view_suffix :: "str_view \<Rightarrow> usize \<Rightarrow> str_view" where
  "str_view_suffix v n = (if n \<ge> v_len v then v else str_view_from_len (v_ptr v + v_len v - n) n)"

text \<open>The search loop: \<open>k\<close> iterations are left, \<open>i\<close> is the index.\<close>

fun find_char_loop :: "heap \<Rightarrow> str_view \<Rightarrow> u8 \<Rightarrow> usize \<Rightarrow> nat \<Rightarrow> usize run" where
  "find_char_loop h v c i 0 = ret (v_len v)"
| "find_char_loop h v c i (Suc k) = bindR (load_byte h (v_ptr v + i)) (\<lambda>b.
     if b = c then ret i else find_char_loop h v c (i + 1) k)"

definition str_view_find_char :: "heap \<Rightarrow> str_view \<Rightarrow> u8 \<Rightarrow> usize run" where
  "str_view_find_char h v c = find_char_loop h v c 0 (unat (v_len v))"

definition str_view_contains_char :: "heap \<Rightarrow> str_view \<Rightarrow> u8 \<Rightarrow> bool run" where
  "str_view_contains_char h v c = bindR (str_view_find_char h v c) (\<lambda>i. ret (i < v_len v))"

definition str_view_equals_cstr :: "heap \<Rightarrow> str_view \<Rightarrow> uptr \<Rightarrow> bool run" where
  "str_view_equals_cstr h v s = bindR (str_view_from h s) (\<lambda>w. str_view_equals h v w)"

definition str_view_starts_with_cstr :: "heap \<Rightarrow> str_view \<Rightarrow> uptr \<Rightarrow> bool run" where
  "str_view_starts_with_cstr h v prefix = bindR (str_view_from h prefix) (\<lambda>w. str_view_starts_with h v w)"

definition str_view_ends_with_cstr :: "heap \<Rightarrow> str_view \<Rightarrow> uptr \<Rightarrow> bool run" where
  "str_view_ends_with_cstr h v suffix = bindR (str_view_from h suffix) (\<lambda>w. str_view_ends_with h v w)"

definition str_view_to_cstr :: "heap \<Rightarrow> str_view \<Rightarrow> uptr \<Rightarrow> usize \<Rightarrow> (bool \<times> heap) run" where
  "str_view_to_cstr h v buf buf_size =
     require_msg (buf \<noteq> null_ptr) ''str_view_to_cstr: buf is NULL''
     (if buf_size \<le> v_len v then ret (False, h)
      else bindR (if v_len v > 0 then mem_copy h buf (v_ptr v) (v_len v) else ret h) (\<lambda>h1.
        bindR (write_bytes h1 (buf + v_len v) [0]) (\<lambda>h2. ret (True, h2))))"

subsection \<open>C strings\<close>

definition cstr :: "heap \<Rightarrow> uptr \<Rightarrow> u8 list \<Rightarrow> bool" where
  "cstr h s xs \<longleftrightarrow> s \<noteq> 0 \<and> 0 \<notin> set xs \<and> region h s (xs @ [0]) \<and> fits s (Suc (length xs))"

lemma region_nth: "region h p xs \<Longrightarrow> i < length xs \<Longrightarrow> h (p + of_nat i) = Some (xs ! i)"
proof (induction xs arbitrary: p i)
  case (Cons x xs)
  then show ?case using Cons.IH [of "p + 1" "i - 1"] by (cases i) (auto simp: add.assoc)
qed simp

lemma cstr_bounds: "cstr h s xs \<Longrightarrow> length xs < 2 ^ 64 - unat s \<and> unat (of_nat (length xs) :: usize) = length xs"
  by (auto simp: cstr_def fits_def intro!: unat_of_small)

lemma cstr_region: "cstr h s xs \<Longrightarrow> region h s xs" "cstr h s xs \<Longrightarrow> region h s (xs @ [0])"
  by (simp_all add: cstr_def region_append)

lemma cstr_reads: "cstr h s xs \<Longrightarrow> U \<inter> span s (Suc (length xs)) = {} \<Longrightarrow> \<forall>q. q \<notin> U \<longrightarrow> h' q = h q \<Longrightarrow> cstr h' s xs"
  unfolding cstr_def using region_cong [of s "xs @ [0]" h h'] by fastforce

lemma str_len_loop_value:
  "region h (s + len) (xs @ [0]) \<Longrightarrow> 0 \<notin> set xs \<Longrightarrow> length xs < fuel \<Longrightarrow>
   str_len_loop h s len fuel = ret (len + of_nat (length xs))"
proof (induction xs arbitrary: len fuel)
  case Nil
  then show ?case by (cases fuel) (simp_all add: load_byte_def)
next
  case (Cons x xs)
  then obtain f where "fuel = Suc f" by (cases fuel) auto
  with Cons.prems Cons.IH [of "len + 1" f] show ?case by (simp add: load_byte_def add.assoc)
qed

lemma str_len_value: "cstr h s xs \<Longrightarrow> str_len h s = ret (of_nat (length xs))"
  using str_len_loop_value [of h s 0 xs] cstr_bounds [of h s xs] by (simp add: str_len_def cstr_def null_ptr_def)

lemma region_eq_prefix: "region h s xs \<Longrightarrow> region h s ys \<Longrightarrow> length xs \<le> length ys \<Longrightarrow> xs = take (length xs) ys"
  using region_unique [of h s xs "take (length xs) ys"] region_take [of h s ys "length xs"] by simp

lemma cstr_unique:
  assumes "cstr h s xs" "cstr h s ys"
  shows "xs = ys"
proof -
  have "(of_nat (length xs) :: usize) = of_nat (length ys)"
    using str_len_value [OF assms(1)] str_len_value [OF assms(2)] by simp
  then have "unat (of_nat (length xs) :: usize) = unat (of_nat (length ys) :: usize)" by (rule arg_cong)
  then have "length xs = length ys"
    unfolding cstr_bounds [OF assms(1), THEN conjunct2] cstr_bounds [OF assms(2), THEN conjunct2] .
  with region_unique [OF cstr_region(1) [OF assms(1)] cstr_region(1) [OF assms(2)]] show ?thesis by simp
qed

text \<open>A suffix of a C string is a C string.\<close>

lemma cstr_drop:
  assumes "cstr h s xs" "k \<le> length xs"
  shows "cstr h (s + of_nat k) (drop k xs)"
proof -
  have u: "unat (s + of_nat k) = unat s + k" using assms by (intro unat_ptr_plus) (auto simp: cstr_def)
  then have "s + of_nat k \<noteq> 0" using assms(1) by (metis add_is_0 cstr_def unat_0 unat_eq_zero)
  moreover have "region h (s + of_nat k) (drop k xs @ [0])"
    using region_drop [OF cstr_region(2) [OF assms(1)], of k] assms(2) by simp
  moreover have "0 \<notin> set (drop k xs)" using assms(1) by (auto simp: cstr_def dest: in_set_dropD)
  ultimately show ?thesis using assms u by (simp add: cstr_def fits_def)
qed

subsection \<open>Comparison of C strings\<close>

text \<open>The difference of the first bytes that differ, the end of a string counting as 0.\<close>

fun cstr_diff :: "u8 list \<Rightarrow> u8 list \<Rightarrow> int" where
  "cstr_diff (x # xs) (y # ys) = (if x = y then cstr_diff xs ys else int (unat x) - int (unat y))"
| "cstr_diff [] (y # ys) = - int (unat y)"
| "cstr_diff (x # xs) [] = int (unat x)"
| "cstr_diff [] [] = 0"

abbreviation byte_less :: "u8 list \<Rightarrow> u8 list \<Rightarrow> bool" where
  "byte_less xs ys \<equiv> (xs, ys) \<in> lexord {(a, b). a < b}"

lemma byte_order: "uint x < uint y \<longleftrightarrow> x < y" "uint x = uint y \<longleftrightarrow> x = y" "0 < uint x \<longleftrightarrow> x \<noteq> 0" "uint x = 0 \<longleftrightarrow> x = 0"
  for x y :: u8
  by (simp_all flip: word_less_def word_uint_eq_iff uint_0_iff) (simp add: order_less_le uint_0_iff)

lemma cstr_diff_sign:
  "0 \<notin> set xs \<Longrightarrow> 0 \<notin> set ys \<Longrightarrow> (cstr_diff xs ys < 0 \<longleftrightarrow> byte_less xs ys) \<and> (cstr_diff xs ys = 0 \<longleftrightarrow> xs = ys)"
  by (induction xs ys rule: cstr_diff.induct) (auto simp: byte_order)

lemma str_compare_loop_value:
  "region h a (xs @ [0]) \<Longrightarrow> region h b (ys @ [0]) \<Longrightarrow> 0 \<notin> set xs \<Longrightarrow> 0 \<notin> set ys \<Longrightarrow> length xs < fuel \<Longrightarrow>
   str_compare_loop h a b fuel = ret (cstr_diff xs ys)"
proof (induction xs arbitrary: a b ys fuel)
  case Nil
  then obtain f where "fuel = Suc f" by (cases fuel) auto
  with Nil show ?case by (cases ys) (auto simp: load_byte_def)
next
  case (Cons x xs)
  then obtain f where "fuel = Suc f" by (cases fuel) auto
  with Cons show ?case by (cases ys) (auto simp: load_byte_def)
qed

lemma str_compare_value: "cstr h a xs \<Longrightarrow> cstr h b ys \<Longrightarrow> str_compare h a b = ret (cstr_diff xs ys)"
  using str_compare_loop_value [of h a xs b ys] cstr_bounds [of h a xs]
  by (simp add: str_compare_def cstr_def null_ptr_def)

lemma str_ncompare_loop_value:
  "region h a (xs @ [0]) \<Longrightarrow> region h b (ys @ [0]) \<Longrightarrow> 0 \<notin> set xs \<Longrightarrow> 0 \<notin> set ys \<Longrightarrow>
   str_ncompare_loop h a b k = ret (cstr_diff (take (Suc k) xs) (take (Suc k) ys))"
proof (induction k arbitrary: a b xs ys)
  case 0
  then show ?case by (cases xs; cases ys) (auto simp: load_byte_def)
next
  case (Suc k)
  show ?case
  proof (cases xs)
    case Nil
    with Suc.prems show ?thesis by (cases ys) (auto simp: load_byte_def)
  next
    case (Cons x xs')
    with Suc show ?thesis by (cases ys) (auto simp: load_byte_def)
  qed
qed

lemma str_ncompare_value:
  "cstr h a xs \<Longrightarrow> cstr h b ys \<Longrightarrow> str_ncompare h a b n = ret (cstr_diff (take (unat n) xs) (take (unat n) ys))"
  using str_ncompare_loop_value [of h a xs b ys "unat n - 1"] unat_gt_0 [of n]
  by (auto simp: str_ncompare_def cstr_def null_ptr_def)

lemma str_equals_value: "cstr h a xs \<Longrightarrow> cstr h b ys \<Longrightarrow> str_equals h a b = ret (xs = ys)"
  using cstr_unique [of h a xs ys] cstr_diff_sign [of xs ys]
  by (auto simp: str_equals_def str_compare_value null_ptr_def cstr_def)

lemma cstr_starts_with_value:
  assumes "cstr h s xs" "cstr h p ys"
  shows "cstr_starts_with h s p = ret (take (length ys) xs = ys)"
proof -
  have n: "unat (of_nat (length ys) :: usize) = length ys" using cstr_bounds [OF assms(2)] by simp
  then have "(of_nat (length ys) :: usize) = 0 \<longleftrightarrow> ys = []" by (auto simp: unat_eq_zero [symmetric] simp del: unat_eq_zero)
  moreover have "cstr_diff (take (length ys) xs) (take (length ys) ys) = 0 \<longleftrightarrow> take (length ys) xs = ys"
    using cstr_diff_sign [of "take (length ys) xs" ys] assms by (auto simp: cstr_def dest: in_set_takeD)
  ultimately show ?thesis using assms
    by (auto simp: cstr_starts_with_def str_len_value [OF assms(2)] str_ncompare_value [OF assms] n cstr_def null_ptr_def)
qed

lemma cstr_ends_with_value:
  assumes "cstr h s xs" "cstr h p ys"
  shows "cstr_ends_with h s p = ret (length ys \<le> length xs \<and> drop (length xs - length ys) xs = ys)"
proof -
  have n: "unat (of_nat (length ys) :: usize) = length ys" "unat (of_nat (length xs) :: usize) = length xs"
    using cstr_bounds [OF assms(2)] cstr_bounds [OF assms(1)] by simp_all
  show ?thesis
  proof (cases "length ys \<le> length xs")
    case True
    let ?k = "length xs - length ys"
    have e: "s + of_nat (length xs) - of_nat (length ys) = s + (of_nat ?k :: usize)" using True by simp
    have "str_compare h (s + of_nat (length xs) - of_nat (length ys)) p = ret (cstr_diff (drop ?k xs) ys)"
      unfolding e by (rule str_compare_value [OF cstr_drop [OF assms(1)] assms(2)]) simp
    moreover have "cstr_diff (drop ?k xs) ys = 0 \<longleftrightarrow> drop ?k xs = ys"
      using cstr_diff_sign [of "drop ?k xs" ys] assms by (auto simp: cstr_def dest: in_set_dropD)
    ultimately show ?thesis using assms True n
      by (auto simp: cstr_ends_with_def str_len_value word_less_nat_alt cstr_def null_ptr_def)
  next
    case False
    then show ?thesis using assms n
      by (auto simp: cstr_ends_with_def str_len_value word_less_nat_alt cstr_def null_ptr_def)
  qed
qed

subsection \<open>Copies\<close>

text \<open>A copy into the middle of an object from outside it.\<close>

lemma mem_copy_splice:
  assumes "object h p (xs @ ys @ zs) n" "unat m = length ys" "region h src bs" "length bs = length ys" "src \<noteq> 0"
    "span src (length bs) \<inter> span p (unat n) = {}"
  shows "\<exists>h'. mem_copy h (p + of_nat (length xs)) src m = ret h' \<and> object h' p (xs @ bs @ zs) n \<and>
    (\<forall>q. q \<notin> span p (unat n) \<longrightarrow> h' q = h q)"
proof (cases "ys = []")
  case True
  then have "m = 0" using assms(2) by (simp add: unat_eq_zero)
  with True assms show ?thesis by (auto simp: mem_copy_def)
next
  case False
  let ?d = "p + of_nat (length xs)"
  from object_splice [OF assms(1,4)] obtain h' where
    h': "write_bytes h ?d bs = ret h'" "object h' p (xs @ bs @ zs) n" "\<forall>q. q \<notin> span p (unat n) \<longrightarrow> h' q = h q" by blast
  have m: "m \<noteq> 0" using False assms(2) by auto
  have "length xs + length ys + length zs = unat n" "fits p (unat n)" using assms(1) by (simp_all add: object_def)
  moreover from this have "unat ?d = unat p + length xs" using False by (intro unat_ptr_plus) (auto simp: length_greater_0_conv [symmetric] simp del: length_greater_0_conv)
  ultimately have "span ?d (unat m) \<subseteq> span p (unat n)" using assms(2) by (auto simp: span_def)
  then have "span ?d (unat m) \<inter> span src (unat m) = {}" using assms(2,4,6) by auto
  moreover have "?d \<noteq> 0" using object_middle [OF assms(1) False] by (simp add: object_def)
  ultimately have no: "\<not> mem_regions_overlap ?d src m" using assms(5) by (simp add: mem_regions_overlap_iff)
  have "std_memcpy h ?d src m = std_memmove h ?d src m"
    using no \<open>?d \<noteq> 0\<close> assms(5) m by (auto simp: std_memcpy_def mem_regions_overlap_def null_ptr_def split: if_splits)
  moreover have "std_memmove h ?d src m = ret h'"
    using h'(1) read_bytes_region [OF assms(3)] assms(2,4) by (simp add: std_memmove_def)
  ultimately have "mem_copy h ?d src m = ret h'" using no \<open>?d \<noteq> 0\<close> assms(5) m by (simp add: mem_copy_def null_ptr_def)
  with h' show ?thesis by blast
qed

lemma cstr_len_Suc: "cstr h s xs \<Longrightarrow> unat (of_nat (length xs) + 1 :: usize) = Suc (length xs)"
  using cstr_bounds [of h s xs] by (subst unat_usize_Suc) (auto simp: cstr_def unat_gt_0 [symmetric] word_gt_0)

lemma object_cstr: "object h p (xs @ 0 # zs) n \<Longrightarrow> 0 \<notin> set xs \<Longrightarrow> cstr h p xs"
  by (auto simp: cstr_def object_def region_append fits_def)

text \<open>Room for \<open>k\<close> bytes at position \<open>length xs\<close> of an object.\<close>

lemma object_room:
  assumes "object h p (xs @ rest) n" "length xs + k \<le> unat n"
  shows "\<exists>ys zs. rest = ys @ zs \<and> length ys = k"
  using assms by (intro exI [of _ "take k rest"] exI [of _ "drop k rest"]) (auto simp: object_def)

lemma mem_copy_into:
  assumes "object h p (xs @ rest) n" "unat m = length bs" "region h src bs" "src \<noteq> 0"
    "span src (length bs) \<inter> span p (unat n) = {}" "length xs + length bs \<le> unat n" "d = p + of_nat (length xs)"
  shows "\<exists>h' zs. mem_copy h d src m = ret h' \<and> object h' p (xs @ bs @ zs) n \<and> (\<forall>q. q \<notin> span p (unat n) \<longrightarrow> h' q = h q)"
proof -
  from object_room [OF assms(1,6)] obtain ys zs where "rest = ys @ zs" "length ys = length bs" by blast
  then have "object h p (xs @ ys @ zs) n" "unat m = length ys" "length bs = length ys" using assms(1,2) by simp_all
  from mem_copy_splice [OF this(1,2) assms(3) this(3) assms(4,5)] show ?thesis unfolding assms(7) by blast
qed

lemma str_copy_into_value:
  assumes "cstr h src xs" "object h dest ys n" "span src (Suc (length xs)) \<inter> span dest (unat n) = {}"
  shows "if length xs < unat n
    then \<exists>h'. str_copy_into h dest n src = ret (True, h') \<and> cstr h' dest xs \<and> (\<forall>q. q \<notin> span dest (unat n) \<longrightarrow> h' q = h q)
    else str_copy_into h dest n src = ret (False, h)"
proof -
  note len = cstr_len_Suc [OF assms(1)]
  have nn: "src \<noteq> 0" "dest \<noteq> 0" "0 \<notin> set xs" using assms(1,2) by (simp_all add: cstr_def object_def)
  show ?thesis
  proof (cases "length xs < unat n")
    case True
    from mem_copy_into [of h dest "[]" ys n "of_nat (length xs) + 1" "xs @ [0]" src dest] assms len True nn
      cstr_region(2) [OF assms(1)] obtain h' zs where
      "mem_copy h dest src (of_nat (length xs) + 1) = ret h'" "object h' dest ((xs @ [0]) @ zs) n"
      "\<forall>q. q \<notin> span dest (unat n) \<longrightarrow> h' q = h q" by auto
    with True nn len object_cstr [of h' dest xs zs n] show ?thesis
      by (auto simp: str_copy_into_def str_len_value [OF assms(1)] null_ptr_def word_less_nat_alt)
  next
    case False
    with nn len show ?thesis
      by (auto simp: str_copy_into_def str_len_value [OF assms(1)] null_ptr_def word_less_nat_alt)
  qed
qed

text \<open>Two copies one behind the other, the second with the terminator.\<close>

lemma copy_two:
  assumes "cstr h a xs" "cstr h b ys" "object h p rest n" "length xs + length ys < unat n"
    "span a (Suc (length xs)) \<inter> span p (unat n) = {}" "span b (Suc (length ys)) \<inter> span p (unat n) = {}"
  shows "\<exists>h1 h2. mem_copy h p a (of_nat (length xs)) = ret h1 \<and>
    mem_copy h1 (p + of_nat (length xs)) b (of_nat (length ys) + 1) = ret h2 \<and> cstr h2 p (xs @ ys) \<and>
    (\<forall>q. q \<notin> span p (unat n) \<longrightarrow> h2 q = h q)"
proof -
  have nn: "a \<noteq> 0" "b \<noteq> 0" "0 \<notin> set (xs @ ys)" using assms(1,2) by (simp_all add: cstr_def)
  have "span a (length xs) \<inter> span p (unat n) = {}" using assms(5) by (auto simp: span_def)
  with mem_copy_into [of h p "[]" rest n "of_nat (length xs)" xs a p] assms nn cstr_region(1) [OF assms(1)] cstr_bounds [OF assms(1)]
  obtain h1 zs where h1: "mem_copy h p a (of_nat (length xs)) = ret h1" "object h1 p (xs @ zs) n"
    "\<forall>q. q \<notin> span p (unat n) \<longrightarrow> h1 q = h q" by auto
  have "cstr h1 b ys" using cstr_reads [OF assms(2) _ h1(3)] assms(6) by blast
  with mem_copy_into [of h1 p xs zs n "of_nat (length ys) + 1" "ys @ [0]" b] h1 assms nn cstr_region(2) cstr_len_Suc [OF assms(2)]
  obtain h2 zs' where h2: "mem_copy h1 (p + of_nat (length xs)) b (of_nat (length ys) + 1) = ret h2"
    "object h2 p (xs @ (ys @ [0]) @ zs') n" "\<forall>q. q \<notin> span p (unat n) \<longrightarrow> h2 q = h1 q" by fastforce
  then have "cstr h2 p (xs @ ys)" using nn(3) by (intro object_cstr [of _ _ _ zs' n]) simp_all
  with h1 h2 show ?thesis by auto
qed

lemma str_concat_into_value:
  assumes "cstr h a xs" "cstr h b ys" "object h dest rest n" "length xs + length ys + 1 < 2 ^ 64"
    "span a (Suc (length xs)) \<inter> span dest (unat n) = {}" "span b (Suc (length ys)) \<inter> span dest (unat n) = {}"
  shows "if length xs + length ys < unat n
    then \<exists>h'. str_concat_into h dest n a b = ret (True, h') \<and> cstr h' dest (xs @ ys) \<and> (\<forall>q. q \<notin> span dest (unat n) \<longrightarrow> h' q = h q)
    else str_concat_into h dest n a b = ret (False, h)"
proof -
  have "of_nat (length xs) + of_nat (length ys) + 1 = (of_nat (length xs + length ys + 1) :: usize)" by simp
  then have "unat (of_nat (length xs) + of_nat (length ys) + 1 :: usize) = length xs + length ys + 1"
    using unat_of_small [OF assms(4)] by (simp only:)
  moreover have "a \<noteq> 0" "b \<noteq> 0" "dest \<noteq> 0" using assms(1-3) by (simp_all add: cstr_def object_def)
  ultimately show ?thesis using copy_two [OF assms(1,2,3) _ assms(5,6)]
    by (auto simp: str_concat_into_def str_len_value [OF assms(1)] str_len_value [OF assms(2)] null_ptr_def word_less_nat_alt)
qed

subsection \<open>Allocated copies\<close>

text \<open>What C promises of malloc: NULL, or an object in memory where no object was.\<close>

definition malloc_ok :: "malloc \<Rightarrow> bool" where
  "malloc_ok malloc \<longleftrightarrow> (\<forall>n h p h'. malloc n h = (p, h') \<longrightarrow> p = 0 \<and> h' = h \<or>
     (\<exists>bs. object h' p bs n) \<and> (\<forall>q \<in> span p (unat n). h q = None) \<and> (\<forall>q. q \<notin> span p (unat n) \<longrightarrow> h' q = h q))"

lemma malloc_okD:
  assumes "malloc_ok malloc" "malloc n h = (p, h')"
  shows "p = 0 \<and> h' = h \<or> (\<exists>bs. object h' p bs n) \<and> (\<forall>q \<in> span p (unat n). h q = None) \<and>
    (\<forall>q. q \<notin> span p (unat n) \<longrightarrow> h' q = h q)"
  using assms(1) [unfolded malloc_ok_def, rule_format, OF assms(2)] .

definition heap_extends :: "heap \<Rightarrow> heap \<Rightarrow> bool" where
  "heap_extends h h' \<longleftrightarrow> (\<forall>q. h q \<noteq> None \<longrightarrow> h' q = h q)"

lemma cstr_span: "cstr h s xs \<Longrightarrow> q \<in> span s (Suc (length xs)) \<Longrightarrow> h q \<noteq> None"
  using region_mapped [of s "xs @ [0]" h q] by (simp add: cstr_def)

text \<open>An allocation fails, or gives memory away from every C string; writing it keeps the rest.\<close>

lemma mem_alloc_value:
  assumes "malloc_ok malloc" "mem_alloc malloc n h = (p, h1)"
  shows "p = 0 \<and> h1 = h \<or> (\<exists>bs. object h1 p bs n) \<and>
    (\<forall>h2. (\<forall>q. q \<notin> span p (unat n) \<longrightarrow> h2 q = h1 q) \<longrightarrow> heap_extends h h2) \<and>
    (\<forall>s xs. cstr h s xs \<longrightarrow> cstr h1 s xs \<and> span s (Suc (length xs)) \<inter> span p (unat n) = {})"
proof (cases "n = 0 \<or> p = 0 \<and> h1 = h")
  case True
  with assms show ?thesis by (auto simp: mem_alloc_def null_ptr_def)
next
  case False
  with assms have m: "\<exists>bs. object h1 p bs n" "\<forall>q \<in> span p (unat n). h q = None" "\<forall>q. q \<notin> span p (unat n) \<longrightarrow> h1 q = h q"
    using malloc_okD [OF assms(1), of n h p h1] by (auto simp: mem_alloc_def)
  then have "\<forall>h2. (\<forall>q. q \<notin> span p (unat n) \<longrightarrow> h2 q = h1 q) \<longrightarrow> heap_extends h h2"
    unfolding heap_extends_def by metis
  moreover have "span s (Suc (length xs)) \<inter> span p (unat n) = {}" if "cstr h s xs" for s xs
    using cstr_span [OF that] m(2) by (metis disjoint_iff)
  moreover from this have "cstr h1 s xs" if "cstr h s xs" for s xs using cstr_reads [OF that _ m(3)] that by blast
  ultimately show ?thesis using m by blast
qed

lemma str_alloc_copy_value:
  assumes "malloc_ok malloc" "cstr h s xs"
  shows "\<exists>r h'. str_alloc_copy malloc h s = ret (r, h') \<and> heap_extends h h' \<and>
    (case r of None \<Rightarrow> h' = h | Some p \<Rightarrow> cstr h' p xs)"
proof -
  note len = cstr_len_Suc [OF assms(2)]
  obtain p h1 where a: "mem_alloc malloc (of_nat (length xs) + 1) h = (p, h1)" by (cases "mem_alloc malloc (of_nat (length xs) + 1) h")
  have s: "s \<noteq> 0" "0 \<notin> set xs" using assms(2) by (simp_all add: cstr_def)
  show ?thesis
  proof (cases "p = 0")
    case True
    with mem_alloc_value [OF assms(1) a] a s show ?thesis
      by (auto simp: str_alloc_copy_def str_len_value [OF assms(2)] null_ptr_def heap_extends_def object_def)
  next
    case False
    let ?n = "of_nat (length xs) + 1 :: usize"
    from False mem_alloc_value [OF assms(1) a] assms(2) obtain bs where m: "object h1 p bs ?n" "cstr h1 s xs"
      "\<And>h2. \<forall>q. q \<notin> span p (unat ?n) \<longrightarrow> h2 q = h1 q \<Longrightarrow> heap_extends h h2"
      "span s (Suc (length xs)) \<inter> span p (unat ?n) = {}" by blast
    have "object h1 p ([] @ bs) ?n" using m(1) by simp
    from mem_copy_into [OF this _ cstr_region(2) [OF m(2)] s(1), of ?n p] m(4) obtain h2 zs where
      h2: "mem_copy h1 p s ?n = ret h2" "object h2 p ((xs @ [0]) @ zs) ?n" "\<forall>q. q \<notin> span p (unat ?n) \<longrightarrow> h2 q = h1 q"
      using len by auto
    have "cstr h2 p xs" using h2(2) s(2) by (intro object_cstr [of _ _ _ zs]) simp_all
    moreover have "heap_extends h h2" using m(3) h2(3) by blast
    ultimately show ?thesis using False a s h2(1)
      by (auto simp: str_alloc_copy_def str_len_value [OF assms(2)] null_ptr_def)
  qed
qed

lemma str_alloc_concat_value:
  assumes "malloc_ok malloc" "cstr h a xs" "cstr h b ys" "length xs + length ys + 1 < 2 ^ 64"
  shows "\<exists>r h'. str_alloc_concat malloc h a b = ret (r, h') \<and> heap_extends h h' \<and>
    (case r of None \<Rightarrow> h' = h | Some p \<Rightarrow> cstr h' p (xs @ ys))"
proof -
  let ?n = "of_nat (length xs) + of_nat (length ys) + 1 :: usize"
  have e: "?n = of_nat (length xs + length ys + 1)" by simp
  have len: "unat ?n = length xs + length ys + 1" unfolding e by (rule unat_of_small [OF assms(4)])
  obtain p h1 where al: "mem_alloc malloc ?n h = (p, h1)" by (cases "mem_alloc malloc ?n h")
  have s: "a \<noteq> 0" "b \<noteq> 0" using assms(2,3) by (simp_all add: cstr_def)
  note defs = str_alloc_concat_def str_len_value [OF assms(2)] str_len_value [OF assms(3)] null_ptr_def
  show ?thesis
  proof (cases "p = 0")
    case True
    with mem_alloc_value [OF assms(1) al] al s show ?thesis by (auto simp: defs heap_extends_def object_def)
  next
    case False
    with mem_alloc_value [OF assms(1) al] assms(2,3) obtain bs where m: "object h1 p bs ?n" "cstr h1 a xs" "cstr h1 b ys"
      "\<And>h2. \<forall>q. q \<notin> span p (unat ?n) \<longrightarrow> h2 q = h1 q \<Longrightarrow> heap_extends h h2"
      "span a (Suc (length xs)) \<inter> span p (unat ?n) = {}" "span b (Suc (length ys)) \<inter> span p (unat ?n) = {}" by blast
    from copy_two [OF m(2,3,1) _ m(5,6)] len obtain h2 h3 where
      "mem_copy h1 p a (of_nat (length xs)) = ret h2" "mem_copy h2 (p + of_nat (length xs)) b (of_nat (length ys) + 1) = ret h3"
      "cstr h3 p (xs @ ys)" "\<forall>q. q \<notin> span p (unat ?n) \<longrightarrow> h3 q = h1 q" by auto
    with False al s m(4) show ?thesis by (auto simp: defs)
  qed
qed

text \<open>The substring is clamped to the string, when \<open>start + len\<close> does not wrap.\<close>

lemma str_alloc_sub_value:
  assumes "malloc_ok malloc" "cstr h s xs" "unat start + unat len < 2 ^ 64"
  shows "\<exists>r h'. str_alloc_sub malloc h s start len = ret (r, h') \<and> heap_extends h h' \<and>
    (case r of None \<Rightarrow> h' = h | Some p \<Rightarrow> unat start < length xs \<and> cstr h' p (take (unat len) (drop (unat start) xs)))"
proof (cases "unat start < length xs")
  case False
  then show ?thesis using assms(2) cstr_bounds [OF assms(2)]
    by (auto simp: str_alloc_sub_def str_len_value [OF assms(2)] null_ptr_def cstr_def word_le_nat_alt heap_extends_def)
next
  case True
  let ?l = "if start + len > of_nat (length xs) then of_nat (length xs) - start else len"
  let ?ys = "take (unat len) (drop (unat start) xs)"
  have u: "unat (of_nat (length xs) :: usize) = length xs" using cstr_bounds [OF assms(2)] by simp
  have l: "unat ?l = length ?ys"
    using True u assms(3) by (auto simp: word_less_nat_alt word_le_nat_alt unat_usize_add unat_sub min_def)
  have lt: "length ?ys < 2 ^ 64 - 1"
    using cstr_bounds [OF assms(2)] assms(2) by (auto simp: cstr_def unat_gt_0 [symmetric] word_gt_0)
  then have l1: "unat (?l + 1) = Suc (length ?ys)" using l by (subst unat_usize_Suc) simp_all
  obtain p h1 where al: "mem_alloc malloc (?l + 1) h = (p, h1)" by (cases "mem_alloc malloc (?l + 1) h")
  have s: "s \<noteq> 0" "0 \<notin> set ?ys" using assms(2) by (auto simp: cstr_def dest: in_set_takeD in_set_dropD)
  have nlt: "\<not> start \<ge> of_nat (length xs)" using True u by (simp add: word_le_nat_alt)
  have val: "str_alloc_sub malloc h s start len =
      (if p = 0 then ret (None, h1)
       else bindR (mem_copy h1 p (s + start) ?l) (\<lambda>h2. bindR (write_bytes h2 (p + ?l) [0]) (\<lambda>h3. ret (Some p, h3))))"
    using s(1) nlt al by (simp add: str_alloc_sub_def str_len_value [OF assms(2)] null_ptr_def Let_def)
  show ?thesis
  proof (cases "p = 0")
    case True
    with mem_alloc_value [OF assms(1) al] show ?thesis by (auto simp: val heap_extends_def object_def)
  next
    case False
    with mem_alloc_value [OF assms(1) al] assms(2) obtain bs where m: "object h1 p ([] @ bs) (?l + 1)" "cstr h1 s xs"
      "\<And>h2. \<forall>q. q \<notin> span p (unat (?l + 1)) \<longrightarrow> h2 q = h1 q \<Longrightarrow> heap_extends h h2"
      "span s (Suc (length xs)) \<inter> span p (unat (?l + 1)) = {}" by (metis append_Nil)
    have d: "cstr h1 (s + start) (drop (unat start) xs)"
      using cstr_drop [OF m(2), of "unat start"] True \<open>unat start < length xs\<close> by simp
    have us: "unat (s + start) = unat s + unat start"
      using \<open>unat start < length xs\<close> m(2) unat_ptr_plus [of s "Suc (length xs)" "unat start"] by (simp add: cstr_def)
    then have "span (s + start) (length ?ys) \<subseteq> span s (Suc (length xs))"
      using \<open>unat start < length xs\<close> by (auto simp: span_def)
    then have dj: "span (s + start) (length ?ys) \<inter> span p (unat (?l + 1)) = {}" using m(4) by blast
    from mem_copy_into [OF m(1) l region_take [OF cstr_region(1) [OF d]] _ dj, of p] d l1 obtain h2 zs where
      h2: "mem_copy h1 p (s + start) ?l = ret h2" "object h2 p (?ys @ zs) (?l + 1)"
        "\<forall>q. q \<notin> span p (unat (?l + 1)) \<longrightarrow> h2 q = h1 q" by (auto simp: cstr_def)
    have "zs \<noteq> []" using h2(2) l1 by (auto simp: object_def)
    then obtain z zs' where z: "zs = [z] @ zs'" by (cases zs) auto
    have pl: "p + ?l = p + of_nat (length ?ys)" using l by (metis of_unat)
    from object_splice [of h2 p ?ys "[z]" zs' "?l + 1" "[0]"] h2(2) z obtain h3 where
      h3: "write_bytes h2 (p + ?l) [0] = ret h3" "object h3 p (?ys @ [0] @ zs') (?l + 1)"
        "\<forall>q. q \<notin> span p (unat (?l + 1)) \<longrightarrow> h3 q = h2 q" unfolding pl by auto
    then have "cstr h3 p ?ys" using s(2) by (intro object_cstr [of _ _ _ zs']) simp_all
    moreover have "heap_extends h h3" using h2(3) h3(3) by (intro m(3)) simp
    ultimately show ?thesis using False h2(1) h3(1) \<open>unat start < length xs\<close> by (simp add: val)
  qed
qed

subsection \<open>Views\<close>

lemma shows_bytes_cases:
  assumes "shows_bytes h v xs"
  obtains "xs = []" "v_len v = 0" | "object h (v_ptr v) xs (v_len v)" "v_ptr v \<noteq> 0" "v_len v \<noteq> 0"
  using assms by (cases "v_len v = 0") (auto simp: shows_bytes_def object_def null_ptr_def split: if_splits)

lemma view_len: "shows_bytes h v xs \<Longrightarrow> unat (v_len v) = length xs"
  by (simp add: shows_bytes_length)

lemma mem_compare_object:
  assumes "object h a xs n" "object h b ys n"
  shows "mem_compare h a b n = ret (bytes_compare xs ys)"
proof (cases "a = b \<or> n = 0")
  case True
  with assms have "xs = ys" by (auto simp: object_def dest: region_unique)
  moreover have "bytes_compare ys ys = 0" by (simp add: bytes_compare_eq_0)
  ultimately show ?thesis using True assms by (auto simp: mem_compare_def object_def null_ptr_def)
next
  case False
  then show ?thesis using assms object_read [OF assms(1)] object_read [OF assms(2)]
    by (simp add: mem_compare_def std_memcmp_def object_def null_ptr_def)
qed

lemma object_prefix: "object h p xs n \<Longrightarrow> unat m \<le> unat n \<Longrightarrow> object h p (take (unat m) xs) m"
  by (auto simp: object_def fits_def region_take)

lemma object_suffix:
  assumes "object h p xs n" "m \<noteq> 0" "m \<le> n"
  shows "object h (p + n - m) (drop (unat n - unat m) xs) m"
proof -
  have "unat (n - m) = unat n - unat m" "unat m \<le> unat n" "0 < unat m"
    using assms(2,3) by (simp_all add: unat_sub word_le_nat_alt unat_gt_0)
  then have "object h (p + (n - m)) (take (unat m) (drop (unat (n - m)) xs)) m"
    by (intro object_part [OF assms(1)]) auto
  then show ?thesis using assms(1) \<open>unat (n - m) = _\<close> \<open>unat m \<le> unat n\<close> by (simp add: object_def algebra_simps)
qed

lemma str_view_equals_value:
  assumes "shows_bytes h a xs" "shows_bytes h b ys"
  shows "str_view_equals h a b = ret (xs = ys)"
proof (cases "v_len a = v_len b")
  case False
  with view_len [OF assms(1)] view_len [OF assms(2)] show ?thesis
    by (auto simp: str_view_equals_def word_unat_eq_iff)
next
  case True
  from assms(1) show ?thesis
  proof (cases rule: shows_bytes_cases)
    case 1
    with True view_len [OF assms(2)] show ?thesis by (simp add: str_view_equals_def)
  next
    case 2
    with assms(2) True have "object h (v_ptr b) ys (v_len a)" by (auto elim: shows_bytes_cases)
    with 2 True mem_compare_object [OF 2(1) this] bytes_compare_eq_0 [of xs ys] show ?thesis
      by (simp add: str_view_equals_def object_def)
  qed
qed

lemma bytes_compare_take: "bytes_compare (take (min (length xs) (length ys)) xs) (take (min (length xs) (length ys)) ys) = bytes_compare xs ys"
  by (induction xs ys rule: bytes_compare.induct) auto

lemma bytes_compare_sign:
  "let c = (if bytes_compare xs ys \<noteq> 0 then bytes_compare xs ys
     else if length xs < length ys then - 1 else if length xs > length ys then 1 else 0) in
   (c < 0 \<longleftrightarrow> byte_less xs ys) \<and> (c = 0 \<longleftrightarrow> xs = ys)"
  by (induction xs ys rule: bytes_compare.induct) (auto simp: Let_def, simp_all add: neq_Nil_conv)

lemma str_view_compare_value:
  assumes "shows_bytes h a xs" "shows_bytes h b ys"
  shows "\<exists>c. str_view_compare h a b = ret c \<and> (c < 0 \<longleftrightarrow> byte_less xs ys) \<and> (c = 0 \<longleftrightarrow> xs = ys)"
proof -
  let ?m = "if v_len a < v_len b then v_len a else v_len b"
  let ?r = "if length xs < length ys then - 1 else if length xs > length ys then 1 else (0 :: int)"
  note len = view_len [OF assms(1)] view_len [OF assms(2)]
  have m: "unat ?m = min (length xs) (length ys)" using len by (auto simp: word_less_nat_alt)
  have "str_view_compare h a b = ret (if bytes_compare xs ys \<noteq> 0 then bytes_compare xs ys else ?r)"
  proof (cases "?m = 0")
    case True
    with m len have "xs = [] \<or> ys = []" by (auto simp: min_def split: if_splits)
    then have "bytes_compare xs ys = 0" by auto
    with True len show ?thesis by (auto simp: str_view_compare_def Let_def word_less_nat_alt)
  next
    case False
    then have "v_len a \<noteq> 0" "v_len b \<noteq> 0" by (auto split: if_splits simp: word_gt_0)
    with assms have o: "object h (v_ptr a) xs (v_len a)" "object h (v_ptr b) ys (v_len b)" by (auto elim: shows_bytes_cases)
    have "mem_compare h (v_ptr a) (v_ptr b) ?m = ret (bytes_compare xs ys)"
      using mem_compare_object [OF object_prefix [OF o(1)] object_prefix [OF o(2)], of ?m] m len
      by (simp add: bytes_compare_take)
    with False len show ?thesis by (auto simp: str_view_compare_def Let_def word_less_nat_alt word_gt_0)
  qed
  with bytes_compare_sign [of xs ys] show ?thesis by (auto simp: Let_def)
qed

lemma str_view_starts_with_value:
  assumes "shows_bytes h v xs" "shows_bytes h p ys"
  shows "str_view_starts_with h v p = ret (take (length ys) xs = ys)"
proof -
  note len = view_len [OF assms(1)] view_len [OF assms(2)]
  show ?thesis
  proof (cases "v_len p = 0 \<or> v_len p > v_len v")
    case True
    with len have "ys = [] \<or> length xs < length ys" by (auto simp: word_less_nat_alt)
    with True len show ?thesis by (auto simp: str_view_starts_with_def word_less_nat_alt)
  next
    case False
    then have "v_len p \<le> v_len v" "v_len v \<noteq> 0" by (auto simp: not_less)
    then have le: "unat (v_len p) \<le> unat (v_len v)" "v_len v \<noteq> 0" by (simp_all add: word_le_nat_alt)
    with assms False have o: "object h (v_ptr v) xs (v_len v)" "object h (v_ptr p) ys (v_len p)" by (auto elim: shows_bytes_cases)
    from mem_compare_object [OF object_prefix [OF o(1) le(1)] o(2)] bytes_compare_eq_0 [of "take (length ys) xs" ys] False len le(1)
    show ?thesis by (simp add: str_view_starts_with_def)
  qed
qed

lemma str_view_ends_with_value:
  assumes "shows_bytes h v xs" "shows_bytes h p ys"
  shows "str_view_ends_with h v p = ret (length ys \<le> length xs \<and> drop (length xs - length ys) xs = ys)"
proof -
  note len = view_len [OF assms(1)] view_len [OF assms(2)]
  show ?thesis
  proof (cases "v_len p = 0 \<or> v_len p > v_len v")
    case True
    with len have "ys = [] \<or> length xs < length ys" by (auto simp: word_less_nat_alt)
    with True len show ?thesis by (auto simp: str_view_ends_with_def word_less_nat_alt)
  next
    case False
    then have le: "v_len p \<le> v_len v" "v_len p \<noteq> 0" "v_len v \<noteq> 0" by (auto simp: not_less)
    with assms have o: "object h (v_ptr v) xs (v_len v)" "object h (v_ptr p) ys (v_len p)" by (auto elim: shows_bytes_cases)
    from mem_compare_object [OF object_suffix [OF o(1) le(2,1)] o(2)] False len le
      bytes_compare_eq_0 [of "drop (length xs - length ys) xs" ys]
    show ?thesis by (simp add: str_view_ends_with_def word_le_nat_alt)
  qed
qed

lemma str_view_sub_shows:
  assumes "shows_bytes h v xs" "lit \<noteq> 0"
  shows "shows_bytes h (str_view_sub lit v start len) (take (unat len) (drop (unat start) xs))"
proof (cases "start \<ge> v_len v")
  case True
  with view_len [OF assms(1)] assms(2) usize_bound [of lit] show ?thesis
    by (auto simp: str_view_sub_def str_view_empty_def shows_bytes_def object_def fits_def null_ptr_def word_le_nat_alt
        intro: less_imp_le)
next
  case False
  let ?l = "if len < v_len v - start then len else v_len v - start"
  have lt: "unat start < unat (v_len v)" using False by (simp add: word_le_nat_alt)
  then have "v_len v \<noteq> 0" by auto
  with assms(1) have o: "object h (v_ptr v) xs (v_len v)" by (auto elim: shows_bytes_cases)
  have sub: "unat (v_len v - start) = unat (v_len v) - unat start" using False by (intro unat_sub) simp
  then have l: "unat ?l = min (unat len) (length xs - unat start)" using view_len [OF assms(1)] by (auto simp: word_less_nat_alt)
  then have "unat start + unat ?l \<le> unat (v_len v)" using lt view_len [OF assms(1)] by auto
  from object_part [OF o lt this] l view_len [OF assms(1)] show ?thesis using False
    by (auto simp: str_view_sub_def str_view_from_len_def Let_def shows_bytes_def object_def null_ptr_def min_def)
qed

lemma str_view_suffix_shows:
  assumes "shows_bytes h v xs" "n \<noteq> 0"
  shows "shows_bytes h (str_view_suffix v n) (drop (length xs - unat n) xs)"
proof (cases "n \<ge> v_len v")
  case True
  with view_len [OF assms(1)] assms(1) show ?thesis by (simp add: str_view_suffix_def word_le_nat_alt)
next
  case False
  then have "v_len v \<noteq> 0" "n \<le> v_len v" by (auto simp: word_le_nat_alt)
  with assms(1) have o: "object h (v_ptr v) xs (v_len v)" by (auto elim: shows_bytes_cases)
  from object_suffix [OF o assms(2) \<open>n \<le> v_len v\<close>] False view_len [OF assms(1)] show ?thesis
    by (auto simp: str_view_suffix_def str_view_from_len_def shows_bytes_def object_def null_ptr_def)
qed

lemma find_char_loop_value:
  "region h (v_ptr v + i) xs \<Longrightarrow> unat i + length xs = unat (v_len v) \<Longrightarrow>
   find_char_loop h v c i (length xs) = ret (i + of_nat (length (takeWhile (\<lambda>b. b \<noteq> c) xs)))"
proof (induction xs arbitrary: i)
  case Nil
  then have "i = v_len v" by (simp add: word_unat_eq_iff)
  then show ?case by simp
next
  case (Cons x xs)
  have "unat (i + 1) = Suc (unat i)" using Cons.prems(2) usize_bound [of "v_len v"] by (intro unat_usize_Suc) simp
  with Cons show ?case by (auto simp: load_byte_def add.assoc)
qed

lemma str_view_find_char_value:
  assumes "shows_bytes h v xs"
  shows "str_view_find_char h v c = ret (of_nat (length (takeWhile (\<lambda>b. b \<noteq> c) xs)))"
    "str_view_contains_char h v c = ret (c \<in> set xs)"
proof -
  note len = view_len [OF assms]
  have "region h (v_ptr v + 0) xs" using assms by (auto elim!: shows_bytes_cases simp: object_def)
  from find_char_loop_value [OF this, of c] len
  show f: "str_view_find_char h v c = ret (of_nat (length (takeWhile (\<lambda>b. b \<noteq> c) xs)))" by (simp add: str_view_find_char_def)
  have "length (takeWhile (\<lambda>b. b \<noteq> c) xs) \<le> length xs" by (rule length_takeWhile_le)
  then have "unat (of_nat (length (takeWhile (\<lambda>b. b \<noteq> c) xs)) :: usize) = length (takeWhile (\<lambda>b. b \<noteq> c) xs)"
    using len usize_bound [of "v_len v"] by (intro unat_of_small) linarith
  moreover have "length (takeWhile (\<lambda>b. b \<noteq> c) xs) < length xs \<longleftrightarrow> c \<in> set xs"
    by (induction xs) auto
  ultimately show "str_view_contains_char h v c = ret (c \<in> set xs)"
    using f len by (simp add: str_view_contains_char_def word_less_nat_alt)
qed

lemma str_view_to_cstr_value:
  assumes "shows_bytes h v xs" "object h buf rest n" "span (v_ptr v) (length xs) \<inter> span buf (unat n) = {}"
  shows "if length xs < unat n
    then \<exists>h'. str_view_to_cstr h v buf n = ret (True, h') \<and> region h' buf (xs @ [0]) \<and> (\<forall>q. q \<notin> span buf (unat n) \<longrightarrow> h' q = h q)
    else str_view_to_cstr h v buf n = ret (False, h)"
proof (cases "length xs < unat n")
  case False
  with view_len [OF assms(1)] assms(2) show ?thesis
    by (simp add: str_view_to_cstr_def object_def null_ptr_def word_le_nat_alt)
next
  case True
  note len = view_len [OF assms(1)]
  have nb: "buf \<noteq> null_ptr" using assms(2) by (simp add: object_def null_ptr_def)
  have o: "object h buf ([] @ rest) n" using assms(2) by simp
  have "\<exists>h1 zs. (if v_len v > 0 then mem_copy h buf (v_ptr v) (v_len v) else ret h) = ret h1 \<and> object h1 buf (xs @ zs) n \<and>
      (\<forall>q. q \<notin> span buf (unat n) \<longrightarrow> h1 q = h q)"
    using assms(1)
  proof (cases rule: shows_bytes_cases)
    case 1
    with assms(2) show ?thesis by auto
  next
    case 2
    from mem_copy_into [OF o len _ 2(2) assms(3), of buf] 2 True show ?thesis by (auto simp: object_def word_gt_0)
  qed
  then obtain h1 zs where h1: "(if v_len v > 0 then mem_copy h buf (v_ptr v) (v_len v) else ret h) = ret h1"
    "object h1 buf (xs @ zs) n" "\<forall>q. q \<notin> span buf (unat n) \<longrightarrow> h1 q = h q" by blast
  have "zs \<noteq> []" using h1(2) True by (auto simp: object_def)
  then obtain z zs' where z: "zs = [z] @ zs'" by (cases zs) auto
  have e: "buf + v_len v = buf + of_nat (length xs)" using len by (metis of_unat)
  from object_splice [of h1 buf xs "[z]" zs' n "[0]"] h1(2) z obtain h2 where
    "write_bytes h1 (buf + v_len v) [0] = ret h2" "object h2 buf (xs @ [0] @ zs') n"
    "\<forall>q. q \<notin> span buf (unat n) \<longrightarrow> h2 q = h1 q" unfolding e by auto
  moreover have "\<not> n \<le> v_len v" using True len by (simp add: word_le_nat_alt)
  ultimately show ?thesis using True nb h1(1,3)
    by (auto simp: str_view_to_cstr_def object_def region_append)
qed

subsection \<open>Properties\<close>

text \<open>The comparisons of C strings: \<open>str_compare\<close> is negative, zero or positive as the first string is
  lexicographically smaller, equal or greater by unsigned bytes, \<open>str_ncompare\<close> is so for the first
  \<open>n\<close> bytes, and equality, prefix and suffix tests decide what they name. All of them return.\<close>

theorem cstr_comparisons_correct:
  assumes "cstr h a xs" "cstr h b ys"
  shows "\<exists>c d. str_compare h a b = ret c \<and> str_ncompare h a b n = ret d \<and>
    (c < 0 \<longleftrightarrow> byte_less xs ys) \<and> (c = 0 \<longleftrightarrow> xs = ys) \<and>
    (d < 0 \<longleftrightarrow> byte_less (take (unat n) xs) (take (unat n) ys)) \<and> (d = 0 \<longleftrightarrow> take (unat n) xs = take (unat n) ys) \<and>
    str_equals h a b = ret (xs = ys) \<and>
    cstr_starts_with h a b = ret (take (length ys) xs = ys) \<and>
    cstr_ends_with h a b = ret (length ys \<le> length xs \<and> drop (length xs - length ys) xs = ys)"
proof -
  have "0 \<notin> set xs" "0 \<notin> set ys" "0 \<notin> set (take (unat n) xs)" "0 \<notin> set (take (unat n) ys)"
    using assms by (auto simp: cstr_def dest: in_set_takeD)
  then show ?thesis
    using str_compare_value [OF assms] str_ncompare_value [OF assms, of n] str_equals_value [OF assms]
      cstr_starts_with_value [OF assms] cstr_ends_with_value [OF assms] cstr_diff_sign by auto
qed

theorem cstr_comparisons_correct_witness:
  "let h = [64 \<mapsto> 97, 65 \<mapsto> 98, 66 \<mapsto> 0, 80 \<mapsto> 97, 81 \<mapsto> 200, 82 \<mapsto> 0] in
   \<exists>c. str_compare h 64 80 = ret c \<and> c < 0 \<and> str_equals h 64 80 = ret False"
proof -
  let ?h = "[64 \<mapsto> 97, 65 \<mapsto> 98, 66 \<mapsto> 0, 80 \<mapsto> 97, 81 \<mapsto> 200, 82 \<mapsto> 0]"
  have "cstr ?h 64 [97, 98]" "cstr ?h 80 [97, 200]" by (simp_all add: cstr_def fits_def)
  from cstr_comparisons_correct [OF this, of 1] show ?thesis by auto
qed

text \<open>The three-way comparison of string views is a total order: its sign tells which view is
  lexicographically smaller by unsigned bytes, a prefix being smaller, and it is zero exactly on
  equal contents, as \<open>str_view_equals\<close> says.\<close>

theorem str_view_order_correct:
  assumes "shows_bytes h a xs" "shows_bytes h b ys"
  shows "\<exists>c. str_view_compare h a b = ret c \<and> (c < 0 \<longleftrightarrow> byte_less xs ys) \<and> (c > 0 \<longleftrightarrow> byte_less ys xs) \<and>
    str_view_equals h a b = ret (c = 0)"
proof -
  obtain c where c: "str_view_compare h a b = ret c" "c < 0 \<longleftrightarrow> byte_less xs ys" "c = 0 \<longleftrightarrow> xs = ys"
    using str_view_compare_value [OF assms] by blast
  have "byte_less xs ys \<or> xs = ys \<or> byte_less ys xs" by (rule lexord_linear) (auto simp: not_less)
  moreover have "\<not> (byte_less xs ys \<and> byte_less ys xs)"
    using lexord_asymmetric [of "{(a, b). a < (b :: u8)}" xs ys] asymI [of "{(a, b). a < (b :: u8)}"] by auto
  moreover have "\<not> byte_less xs xs" by (rule lexord_irreflexive) simp
  moreover have "c > 0 \<longleftrightarrow> \<not> c < 0 \<and> c \<noteq> 0" by linarith
  ultimately have "c > 0 \<longleftrightarrow> byte_less ys xs" using c(2,3) by blast
  with c str_view_equals_value [OF assms] show ?thesis by auto
qed

theorem str_view_order_correct_witness:
  "\<exists>c. str_view_compare [64 \<mapsto> 97, 65 \<mapsto> 98] \<lparr>v_ptr = 64, v_len = 1\<rparr> \<lparr>v_ptr = 64, v_len = 2\<rparr> = ret c \<and> c < 0"
proof -
  have "shows_bytes [64 \<mapsto> 97, 65 \<mapsto> 98] \<lparr>v_ptr = 64, v_len = 1\<rparr> [97]"
    "shows_bytes [64 \<mapsto> 97, 65 \<mapsto> 98] \<lparr>v_ptr = 64, v_len = 2\<rparr> [97, 98]"
    by (simp_all add: shows_bytes_def object_def fits_def null_ptr_def)
  from str_view_order_correct [OF this] show ?thesis by auto
qed

text \<open>The clamping of \<open>str_alloc_sub\<close> misses a length so large that \<open>start + len\<close> wraps: asked for the rest
  of a string from index 1 with the largest length it returns None without asking for memory,
  whatever the allocator, and not the clamped substring.\<close>

theorem str_alloc_sub_wraps:
  assumes "cstr h s xs" "1 < length xs"
  shows "str_alloc_sub malloc h s 1 canon_usize_max = ret (None, h)"
proof -
  have "unat (of_nat (length xs) :: usize) = length xs" using cstr_bounds [OF assms(1)] by simp
  then have "\<not> (of_nat (length xs) :: usize) \<le> 1" using assms(2) by (simp add: word_le_nat_alt)
  moreover have "canon_usize_max + 1 = 0" "1 + canon_usize_max = 0" by (simp_all add: canon_usize_max_def)
  ultimately show ?thesis using assms(1)
    by (simp add: str_alloc_sub_def str_len_value [OF assms(1)] mem_alloc_def cstr_def null_ptr_def)
qed

theorem str_alloc_sub_wraps_witness:
  "str_alloc_sub (\<lambda>n h. (0, h)) [64 \<mapsto> 97, 65 \<mapsto> 98, 66 \<mapsto> 0] 64 1 canon_usize_max = ret (None, [64 \<mapsto> 97, 65 \<mapsto> 98, 66 \<mapsto> 0])"
  by (rule str_alloc_sub_wraps [of _ _ "[97, 98]"]) (simp_all add: cstr_def fits_def)

end
