(* ===== verification/Canon_Intern.thy ===== *)
theory Canon_Intern
  imports Canon_Str
begin

section \<open>String interning (util/str/intern.h)\<close>

text \<open>
  A fixed table of views with linear probing, keyed by the FNV-1a hash of the string; the table and the
  copies of the strings come from one arena. The table is a list of views: the number of views that
  the bytes allocated for it hold.

  The lemmas: the probing finds a string exactly when it is in the table; the table holds no
  string twice and no pointer twice, strings interned stay where they are. Hence two views of one
  pool have equal pointers exactly when their strings are equal.
\<close>

record intern_pool =
  ip_arena :: "arena_ref cptr"
  ip_entries :: "str_view list cptr"
  ip_cap :: usize
  ip_count :: usize

subsection \<open>The hash\<close>

fun intern_hash_loop :: "heap \<Rightarrow> uptr \<Rightarrow> usize \<Rightarrow> nat \<Rightarrow> u64 \<Rightarrow> u64 run" where
  "intern_hash_loop h s i 0 acc = ret acc"
| "intern_hash_loop h s i (Suc k) acc = bindR (load_byte h (s + i)) (\<lambda>b.
     intern_hash_loop h s (i + 1) k ((acc XOR ucast b) * 1099511628211))"

definition intern_hash :: "heap \<Rightarrow> uptr \<Rightarrow> usize \<Rightarrow> u64 run" where
  "intern_hash h s len = bindR (intern_hash_loop h s 0 (unat len) 14695981039346656037) (\<lambda>acc.
     ret (if acc \<noteq> 0 then acc else 1))"

subsection \<open>Interning\<close>

text \<open>A new entry at the slot \<open>index\<close>.\<close>

definition intern_new ::
  "heap \<Rightarrow> arena_store \<Rightarrow> intern_pool \<Rightarrow> uptr \<Rightarrow> usize \<Rightarrow> usize \<Rightarrow> (str_view \<times> heap \<times> arena_store \<times> intern_pool) run" where
  "intern_new h st pool str len index =
     (if ip_count pool \<ge> ip_cap pool then ret (str_view_null, h, st, pool)
      else bindR (deref (ip_arena pool)) (\<lambda>r.
        bindR (arena_load st r) (\<lambda>a.
        bindR (arena_alloc (Some a) (len + 1)) (\<lambda>(copy, p').
        bindR (deref p') (\<lambda>a'. let st' = st(r \<mapsto> a') in
        if copy = null_ptr then ret (str_view_null, h, st', pool)
        else bindR (mem_copy h copy str len) (\<lambda>h1.
          bindR (write_bytes h1 (copy + len) [0]) (\<lambda>h2.
          bindR (deref (ip_entries pool)) (\<lambda>es.
          let entry = \<lparr>v_ptr = copy, v_len = len\<rparr> in
          bindR (arr_set es index entry) (\<lambda>es'.
            ret (entry, h2, st', pool\<lparr>ip_entries := Some es', ip_count := ip_count pool + 1\<rparr>))))))))))"

text \<open>The probing: \<open>k\<close> probes are left.\<close>

fun intern_probe ::
  "heap \<Rightarrow> arena_store \<Rightarrow> intern_pool \<Rightarrow> uptr \<Rightarrow> usize \<Rightarrow> usize \<Rightarrow> nat \<Rightarrow>
   (str_view \<times> heap \<times> arena_store \<times> intern_pool) run" where
  "intern_probe h st pool str len index 0 = ret (str_view_null, h, st, pool)"
| "intern_probe h st pool str len index (Suc k) =
     bindR (deref (ip_entries pool)) (\<lambda>es. bindR (arr_get es index) (\<lambda>entry.
     if v_ptr entry = null_ptr then intern_new h st pool str len index
     else bindR (if v_len entry = len then bindR (mem_compare h (v_ptr entry) str len) (\<lambda>c. ret (c = 0)) else ret False) (\<lambda>same.
       if same then ret (entry, h, st, pool)
       else bindR (mod_usize (index + 1) (ip_cap pool)) (\<lambda>index'. intern_probe h st pool str len index' k))))"

definition intern_string ::
  "uptr \<Rightarrow> heap \<Rightarrow> arena_store \<Rightarrow> intern_pool cptr \<Rightarrow> uptr \<Rightarrow> (str_view \<times> heap \<times> arena_store \<times> intern_pool cptr) run" where
  "intern_string empty_literal h st p s = (case p of
     None \<Rightarrow> violation ''intern_string: pool is NULL''
   | Some pool \<Rightarrow>
       require_msg (ip_arena pool \<noteq> None) ''intern_string: pool->arena is NULL''
       (require_msg (ip_entries pool \<noteq> None) ''intern_string: pool->entries is NULL''
       (let str = (if s = null_ptr then empty_literal else s) in
        bindR (str_len h str) (\<lambda>len. bindR (intern_hash h str len) (\<lambda>hash.
        bindR (mod_usize hash (ip_cap pool)) (\<lambda>index.
        bindR (intern_probe h st pool str len index (unat (ip_cap pool))) (\<lambda>(v, h', st', pool').
          ret (v, h', st', Some pool'))))))))"

text \<open>A view takes 16 bytes. The product is not checked: it wraps.\<close>

definition intern_pool_init ::
  "uptr \<Rightarrow> heap \<Rightarrow> intern_pool cptr \<Rightarrow> arena_ref cptr \<Rightarrow> usize \<Rightarrow> arena_store \<Rightarrow>
   (bool \<times> heap \<times> intern_pool cptr \<times> arena_store) run" where
  "intern_pool_init empty_literal h p arena capacity st = (case p of
     None \<Rightarrow> violation ''intern_pool_init: pool is NULL''
   | Some pool \<Rightarrow> (case arena of
       None \<Rightarrow> violation ''intern_pool_init: arena is NULL''
     | Some r \<Rightarrow>
         require_msg (capacity > 0) ''intern_pool_init: capacity is 0''
         (let size = capacity * 16 in
          bindR (arena_load st r) (\<lambda>a. bindR (arena_alloc (Some a) size) (\<lambda>(entries, p').
          bindR (deref p') (\<lambda>a'. let st' = st(r \<mapsto> a') in
          if entries = null_ptr then ret (False, h, p, st')
          else bindR (mem_set h entries 0 size) (\<lambda>h1.
            bindR (intern_string empty_literal h1 st'
                (Some \<lparr>ip_arena = arena, ip_entries = Some (replicate (unat size div 16) str_view_null),
                       ip_cap = capacity, ip_count = 0\<rparr>) empty_literal) (\<lambda>(v, h2, st2, p2).
              ret (True, h2, p2, st2)))))))))"

definition intern_equals :: "str_view \<Rightarrow> str_view \<Rightarrow> bool" where
  "intern_equals a b \<longleftrightarrow> v_ptr a = v_ptr b"

definition intern_count :: "intern_pool cptr \<Rightarrow> usize run" where
  "intern_count p = (case p of
     None \<Rightarrow> violation ''intern_count: pool is NULL''
   | Some pool \<Rightarrow> ret (ip_count pool))"

subsection \<open>The hash of a string\<close>

definition fnv1a :: "u8 list \<Rightarrow> u64" where
  "fnv1a xs = (let acc = foldl (\<lambda>acc b. (acc XOR ucast b) * 1099511628211) 14695981039346656037 xs in
     if acc \<noteq> 0 then acc else 1)"

lemma intern_hash_loop_value:
  "region h (s + i) xs \<Longrightarrow> intern_hash_loop h s i (length xs) acc =
     ret (foldl (\<lambda>acc b. (acc XOR ucast b) * 1099511628211) acc xs)"
  by (induction xs arbitrary: i acc) (auto simp: load_byte_def add.assoc)

lemma intern_hash_value: "cstr h s xs \<Longrightarrow> intern_hash h s (of_nat (length xs)) = ret (fnv1a xs)"
  using intern_hash_loop_value [of h s 0 xs] cstr_region(1) [of h s xs] cstr_bounds [of h s xs]
  by (simp add: intern_hash_def fnv1a_def Let_def)

lemma cstr_object: "cstr h s xs \<Longrightarrow> object h s xs (of_nat (length xs))"
  using cstr_region(1) [of h s xs] cstr_bounds [of h s xs] by (auto simp: object_def cstr_def fits_def)

subsection \<open>The invariant\<close>

text \<open>
  \<open>tab\<close> gives the string in each slot. A string sits at some distance behind its home slot with all slots
  in between occupied; no string and no pointer is there twice; the copies are outside the memory that
  the arena can still hand out.
\<close>

definition home :: "nat \<Rightarrow> u8 list \<Rightarrow> nat" where
  "home cap xs = unat (fnv1a xs) mod cap"

definition slot_at :: "nat \<Rightarrow> u8 list \<Rightarrow> nat \<Rightarrow> nat" where
  "slot_at cap xs d = (home cap xs + d) mod cap"

definition entry_ok :: "heap \<Rightarrow> uptr set \<Rightarrow> str_view \<Rightarrow> u8 list option \<Rightarrow> bool" where
  "entry_ok h free e t = (case t of
     None \<Rightarrow> v_ptr e = 0
   | Some xs \<Rightarrow> cstr h (v_ptr e) xs \<and> unat (v_len e) = length xs \<and> span (v_ptr e) (Suc (length xs)) \<inter> free = {})"

definition tab_ok :: "nat \<Rightarrow> str_view list \<Rightarrow> (nat \<Rightarrow> u8 list option) \<Rightarrow> bool" where
  "tab_ok cap es tab \<longleftrightarrow>
     (\<forall>i j xs. i < cap \<longrightarrow> j < cap \<longrightarrow> tab i = Some xs \<longrightarrow> tab j = Some xs \<longrightarrow> i = j) \<and>
     (\<forall>i j. i < cap \<longrightarrow> j < cap \<longrightarrow> tab i \<noteq> None \<longrightarrow> v_ptr (es ! i) = v_ptr (es ! j) \<longrightarrow> i = j) \<and>
     (\<forall>i xs. i < cap \<longrightarrow> tab i = Some xs \<longrightarrow> (\<exists>d < cap. i = slot_at cap xs d \<and> (\<forall>d' < d. tab (slot_at cap xs d') \<noteq> None)))"

definition intern_inv ::
  "heap \<Rightarrow> arena_store \<Rightarrow> intern_pool \<Rightarrow> arena_ref \<Rightarrow> arena \<Rightarrow> str_view list \<Rightarrow> (nat \<Rightarrow> u8 list option) \<Rightarrow> bool" where
  "intern_inv h st pool r a es tab \<longleftrightarrow>
     ip_arena pool = Some r \<and> st r = Some a \<and> arena_ok (Some a) \<and> arena_backed h (Some a) \<and>
     ip_entries pool = Some es \<and> length es = unat (ip_cap pool) \<and> 0 < ip_cap pool \<and>
     (\<forall>i < unat (ip_cap pool). entry_ok h (arena_free (Some a)) (es ! i) (tab i)) \<and>
     tab_ok (unat (ip_cap pool)) es tab \<and>
     unat (ip_count pool) = card {i. i < unat (ip_cap pool) \<and> tab i \<noteq> None}"

lemma tab_ok_probed:
  "tab_ok cap es tab \<Longrightarrow> i < cap \<Longrightarrow> tab i = Some xs \<Longrightarrow>
   \<exists>d < cap. i = slot_at cap xs d \<and> (\<forall>d' < d. tab (slot_at cap xs d') \<noteq> None)"
  by (simp add: tab_ok_def)

lemma slot_at_lt: "0 < cap \<Longrightarrow> slot_at cap xs d < cap"
  by (simp add: slot_at_def)

lemma slot_at_onto:
  assumes "i < cap"
  shows "\<exists>d < cap. slot_at cap xs d = i"
proof -
  let ?h = "home cap xs"
  have h: "?h < cap" using assms by (simp add: home_def)
  show ?thesis
  proof (cases "?h \<le> i")
    case True
    then show ?thesis using assms by (intro exI [of _ "i - ?h"]) (simp add: slot_at_def)
  next
    case False
    then have "?h + (i + cap - ?h) = i + cap" using h by simp
    with False h assms show ?thesis by (intro exI [of _ "i + cap - ?h"]) (simp add: slot_at_def)
  qed
qed

lemma slot_at_Suc: "slot_at cap xs (Suc d) = Suc (slot_at cap xs d) mod cap"
  by (simp add: slot_at_def mod_Suc_eq)

text \<open>The probing looks at the slots from the home on.\<close>

lemma probe_step:
  assumes "intern_inv h st pool r a es tab" "cstr h s xs" "index = of_nat (slot_at (unat (ip_cap pool)) xs d)"
  shows "intern_probe h st pool s (of_nat (length xs)) index (Suc k) = (case tab (slot_at (unat (ip_cap pool)) xs d) of
     None \<Rightarrow> intern_new h st pool s (of_nat (length xs)) index
   | Some ys \<Rightarrow> if ys = xs then ret (es ! slot_at (unat (ip_cap pool)) xs d, h, st, pool)
      else intern_probe h st pool s (of_nat (length xs)) (of_nat (slot_at (unat (ip_cap pool)) xs (Suc d))) k)"
proof -
  let ?cap = "unat (ip_cap pool)" and ?n = "of_nat (length xs) :: usize"
  let ?i = "slot_at ?cap xs d"
  have cap: "0 < ?cap" "ip_cap pool \<noteq> 0" using assms(1) by (auto simp: intern_inv_def unat_gt_0 word_gt_0)
  have i: "?i < ?cap" using cap(1) by (rule slot_at_lt)
  have ui: "unat index = ?i" unfolding assms(3) using i usize_bound [of "ip_cap pool"] by (intro unat_of_small) linarith
  have es: "ip_entries pool = Some es" "length es = ?cap" "entry_ok h (arena_free (Some a)) (es ! ?i) (tab ?i)"
    using assms(1) i by (auto simp: intern_inv_def)
  have n: "unat ?n = length xs" using cstr_bounds [OF assms(2)] by simp
  have "unat (index + 1) = Suc ?i" using ui i usize_bound [of "ip_cap pool"] by (subst unat_usize_Suc) simp_all
  then have nx: "mod_usize (index + 1) (ip_cap pool) = ret (of_nat (slot_at ?cap xs (Suc d)))"
    using cap(2) by (auto simp: slot_at_Suc unat_mod_word intro!: of_unat)
  show ?thesis
  proof (cases "tab ?i")
    case None
    with es ui i show ?thesis by (simp add: entry_ok_def null_ptr_def)
  next
    case (Some ys)
    with es(3) have e: "cstr h (v_ptr (es ! ?i)) ys" "unat (v_len (es ! ?i)) = length ys" by (simp_all add: entry_ok_def)
    have len: "v_len (es ! ?i) = ?n \<longleftrightarrow> length ys = length xs" using e(2) n by (auto simp: word_unat_eq_iff)
    have "(if v_len (es ! ?i) = ?n then bindR (mem_compare h (v_ptr (es ! ?i)) s ?n) (\<lambda>c. ret (c = 0)) else ret False) = ret (ys = xs)"
    proof (cases "length ys = length xs")
      case True
      then show ?thesis using len mem_compare_object [OF _ cstr_object [OF assms(2)], of "v_ptr (es ! ?i)" ys]
          cstr_object [OF e(1)] bytes_compare_eq_0 [of ys xs] by simp
    next
      case False
      then show ?thesis using len by auto
    qed
    moreover have "v_ptr (es ! ?i) \<noteq> null_ptr" using e(1) by (simp add: cstr_def null_ptr_def)
    ultimately show ?thesis using es ui i Some nx by simp
  qed
qed

text \<open>The probing finds the string, or the first free slot, or a full table.\<close>

lemma intern_probe_value:
  assumes inv: "intern_inv h st pool r a es tab" "cstr h s xs"
  defines "cap \<equiv> unat (ip_cap pool)" and "n \<equiv> of_nat (length xs)"
  shows "d + k = cap \<Longrightarrow> \<forall>d' < d. tab (slot_at cap xs d') \<noteq> None \<and> tab (slot_at cap xs d') \<noteq> Some xs \<Longrightarrow>
    (\<exists>i < cap. tab i = Some xs \<and> intern_probe h st pool s n (of_nat (slot_at cap xs d)) k = ret (es ! i, h, st, pool)) \<or>
    (\<forall>i < cap. tab i \<noteq> Some xs) \<and>
    ((\<exists>e < cap. tab (slot_at cap xs e) = None \<and> (\<forall>d' < e. tab (slot_at cap xs d') \<noteq> None) \<and>
        intern_probe h st pool s n (of_nat (slot_at cap xs d)) k = intern_new h st pool s n (of_nat (slot_at cap xs e))) \<or>
     (\<forall>i < cap. tab i \<noteq> None) \<and> intern_probe h st pool s n (of_nat (slot_at cap xs d)) k = ret (str_view_null, h, st, pool))"
proof (induction k arbitrary: d)
  case 0
  then have all: "tab i \<noteq> None \<and> tab i \<noteq> Some xs" if "i < cap" for i using slot_at_onto [OF that, of xs] by auto
  then show ?case by auto
next
  case (Suc k)
  have d: "d < cap" "0 < cap" using Suc.prems(1) by simp_all
  let ?i = "slot_at cap xs d"
  have i: "?i < cap" using d(2) by (rule slot_at_lt)
  note step = probe_step [OF inv refl, where d = d and k = k, folded cap_def n_def]
  show ?case
  proof (cases "tab ?i")
    case None
    have "tab j \<noteq> Some xs" if j: "j < cap" for j
    proof
      assume t: "tab j = Some xs"
      then obtain e where e: "e < cap" "j = slot_at cap xs e" "\<forall>d' < e. tab (slot_at cap xs d') \<noteq> None"
        using tab_ok_probed [OF _ j] inv(1) unfolding intern_inv_def cap_def by blast
      from e(3) None have "\<not> d < e" by auto
      moreover from Suc.prems(2) t e(2) have "\<not> e < d" by auto
      ultimately have "e = d" by simp
      with t e(2) None show False by simp
    qed
    with None d Suc.prems(2) step show ?thesis by auto
  next
    case (Some ys)
    show ?thesis
    proof (cases "ys = xs")
      case True
      with Some i step show ?thesis by auto
    next
      case False
      have "\<forall>d' < Suc d. tab (slot_at cap xs d') \<noteq> None \<and> tab (slot_at cap xs d') \<noteq> Some xs"
        using Suc.prems(2) Some False by (auto simp: less_Suc_eq)
      from Suc.IH [OF _ this] Suc.prems(1) have IH: "(\<exists>i < cap. tab i = Some xs \<and>
            intern_probe h st pool s n (of_nat (slot_at cap xs (Suc d))) k = ret (es ! i, h, st, pool)) \<or>
          (\<forall>i < cap. tab i \<noteq> Some xs) \<and>
          ((\<exists>e < cap. tab (slot_at cap xs e) = None \<and> (\<forall>d' < e. tab (slot_at cap xs d') \<noteq> None) \<and>
            intern_probe h st pool s n (of_nat (slot_at cap xs (Suc d))) k = intern_new h st pool s n (of_nat (slot_at cap xs e))) \<or>
           (\<forall>i < cap. tab i \<noteq> None) \<and> intern_probe h st pool s n (of_nat (slot_at cap xs (Suc d))) k = ret (str_view_null, h, st, pool))"
        by simp
      have "intern_probe h st pool s n (of_nat ?i) (Suc k) = intern_probe h st pool s n (of_nat (slot_at cap xs (Suc d))) k"
        using step Some False by simp
      with IH show ?thesis by simp
    qed
  qed
qed

text \<open>A new entry, at the first free slot of its string.\<close>

lemma tab_ok_insert:
  assumes "tab_ok cap es tab" "length es = cap" "e < cap" "tab (slot_at cap xs e) = None"
    "\<forall>d < e. tab (slot_at cap xs d) \<noteq> None" "\<forall>i < cap. tab i \<noteq> Some xs"
    "\<forall>i < cap. v_ptr (es ! i) \<noteq> v_ptr v"
  shows "tab_ok cap (es[slot_at cap xs e := v]) (tab(slot_at cap xs e \<mapsto> xs))"
proof -
  have i: "slot_at cap xs e < cap" using assms(3) by (intro slot_at_lt) simp
  have "\<exists>d < cap. j = slot_at cap ys d \<and> (\<forall>d' < d. (tab(slot_at cap xs e \<mapsto> xs)) (slot_at cap ys d') \<noteq> None)"
    if j: "j < cap" "(tab(slot_at cap xs e \<mapsto> xs)) j = Some ys" for j ys
  proof (cases "j = slot_at cap xs e")
    case True
    with j(2) assms(3,5) show ?thesis by auto
  next
    case False
    with j have "tab j = Some ys" by simp
    with assms(1) j(1) obtain d where "d < cap" "j = slot_at cap ys d" "\<forall>d' < d. tab (slot_at cap ys d') \<noteq> None"
      unfolding tab_ok_def by blast
    then show ?thesis by auto
  qed
  moreover have "i = j" if "i < cap" "j < cap" "(tab(slot_at cap xs e \<mapsto> xs)) i = Some ys" "(tab(slot_at cap xs e \<mapsto> xs)) j = Some ys" for i j ys
    using that assms(1,6) by (auto simp: tab_ok_def split: if_splits)
  moreover have "i = j" if "i < cap" "j < cap" "(tab(slot_at cap xs e \<mapsto> xs)) i \<noteq> None"
      "v_ptr (es[slot_at cap xs e := v] ! i) = v_ptr (es[slot_at cap xs e := v] ! j)" for i j
    using that assms(1,2,7) i by (auto simp: tab_ok_def nth_list_update split: if_splits)
  ultimately show ?thesis unfolding tab_ok_def by blast
qed

lemma arena_backed_write:
  assumes "arena_backed h (Some a)" "object h' p bs n" "\<forall>q. q \<notin> span p (unat n) \<longrightarrow> h' q = h q"
  shows "arena_backed h' (Some a)"
proof -
  have "h' q \<noteq> None" if "q \<in> span p (unat n)" for q
    using that region_mapped [of p bs h' q] assms(2) by (simp add: object_def)
  with assms(1,3) show ?thesis by (auto simp: arena_backed_def backed_def) metis
qed

lemma entry_ok_frame:
  assumes "entry_ok h free e t" "\<forall>q. q \<notin> U \<longrightarrow> h' q = h q" "U \<subseteq> free" "free' \<subseteq> free"
  shows "entry_ok h' free' e t"
proof (cases t)
  case None
  with assms show ?thesis by (simp add: entry_ok_def)
next
  case (Some xs)
  with assms have c: "cstr h (v_ptr e) xs" "unat (v_len e) = length xs" "span (v_ptr e) (Suc (length xs)) \<inter> free = {}"
    by (simp_all add: entry_ok_def)
  then have "cstr h' (v_ptr e) xs" using cstr_reads [OF c(1) _ assms(2)] assms(3) by blast
  with c assms(4) Some show ?thesis by (auto simp: entry_ok_def)
qed

text \<open>What the interning of a string that is not there does.\<close>

definition interned ::
  "heap \<Rightarrow> arena_store \<Rightarrow> intern_pool \<Rightarrow> arena_ref \<Rightarrow> arena \<Rightarrow> str_view list \<Rightarrow> (nat \<Rightarrow> u8 list option) \<Rightarrow> u8 list \<Rightarrow>
   str_view \<times> heap \<times> arena_store \<times> intern_pool \<Rightarrow> bool" where
  "interned h st pool r a es tab xs res \<longleftrightarrow> (case res of (v, h', st', pool') \<Rightarrow>
     if v_ptr v = 0 then v = str_view_null \<and> h' = h \<and> st' = st \<and> pool' = pool \<and>
       ((\<forall>i < unat (ip_cap pool). tab i \<noteq> None) \<or>
        (\<exists>p'. arena_alloc (Some a) (of_nat (length xs) + 1) = ret (null_ptr, p')))
     else \<exists>i a' . i < unat (ip_cap pool) \<and> tab i = None \<and>
       intern_inv h' st' pool' r a' (es[i := v]) (tab(i \<mapsto> xs)) \<and> ip_cap pool' = ip_cap pool \<and>
       arena_free (Some a') \<subseteq> arena_free (Some a) \<and> (\<forall>q. q \<notin> arena_free (Some a) \<longrightarrow> h' q = h q))"

text \<open>A C string is copied with its terminator into a block of memory elsewhere.\<close>

lemma copy_cstr_to_block:
  assumes "cstr h s xs" "backed h q (Suc (length xs))" "fits q (Suc (length xs))" "q \<noteq> 0"
    "span s (Suc (length xs)) \<inter> span q (Suc (length xs)) = {}"
  shows "\<exists>h1 h2. mem_copy h q s (of_nat (length xs)) = ret h1 \<and> write_bytes h1 (q + of_nat (length xs)) [0] = ret h2 \<and>
    cstr h2 q xs \<and> (\<forall>x. x \<notin> span q (Suc (length xs)) \<longrightarrow> h2 x = h x)"
proof -
  let ?n = "of_nat (length xs) :: usize"
  note n = cstr_bounds [OF assms(1)] cstr_len_Suc [OF assms(1)]
  obtain bs where "length bs = Suc (length xs)" "region h q bs" using backed_region assms(2,3) by blast
  then have o: "object h q ([] @ bs) (?n + 1)" using assms(3,4) n by (simp add: object_def)
  have "span s (length xs) \<inter> span q (unat (?n + 1)) = {}" using assms(5) n by (auto simp: span_def)
  from mem_copy_into [OF o n(1) [THEN conjunct2] cstr_region(1) [OF assms(1)] _ this, of q] assms(1) n obtain h1 zs where
    h1: "mem_copy h q s ?n = ret h1" "object h1 q (xs @ zs) (?n + 1)" "\<forall>x. x \<notin> span q (Suc (length xs)) \<longrightarrow> h1 x = h x"
    by (auto simp: cstr_def)
  have "length zs = 1" using h1(2) n by (simp add: object_def)
  then obtain z where z: "zs = [z] @ []" by (cases zs) auto
  from object_splice [of h1 q xs "[z]" "[]" "?n + 1" "[0]"] h1(2) z n obtain h2 where
    h2: "write_bytes h1 (q + ?n) [0] = ret h2" "object h2 q (xs @ [0]) (?n + 1)" "\<forall>x. x \<notin> span q (Suc (length xs)) \<longrightarrow> h2 x = h1 x"
    by auto
  have "cstr h2 q xs" using h2(2) assms(1) object_cstr [of h2 q xs "[]"] by (simp add: cstr_def)
  with h1 h2 show ?thesis by auto
qed

lemma intern_new_value:
  assumes inv: "intern_inv h st pool r a es tab" and c: "cstr h s xs" "span s (Suc (length xs)) \<inter> arena_free (Some a) = {}"
    and e: "e < unat (ip_cap pool)" "tab (slot_at (unat (ip_cap pool)) xs e) = None"
      "\<forall>d < e. tab (slot_at (unat (ip_cap pool)) xs d) \<noteq> None" "\<forall>i < unat (ip_cap pool). tab i \<noteq> Some xs"
  shows "\<exists>res. intern_new h st pool s (of_nat (length xs)) (of_nat (slot_at (unat (ip_cap pool)) xs e)) = ret res \<and>
    interned h st pool r a es tab xs res"
proof -
  let ?cap = "unat (ip_cap pool)" and ?n = "of_nat (length xs) :: usize"
  let ?i = "slot_at ?cap xs e"
  have I: "ip_arena pool = Some r" "st r = Some a" "arena_ok (Some a)" "arena_backed h (Some a)" "ip_entries pool = Some es"
    "length es = ?cap" "tab_ok ?cap es tab" "unat (ip_count pool) = card {i. i < ?cap \<and> tab i \<noteq> None}"
    "\<And>j. j < ?cap \<Longrightarrow> entry_ok h (arena_free (Some a)) (es ! j) (tab j)"
    using inv by (simp_all add: intern_inv_def)
  have i: "?i < ?cap" using e(1) by (intro slot_at_lt) simp
  have ui: "unat (of_nat ?i :: usize) = ?i" using i usize_bound [of "ip_cap pool"] by (intro unat_of_small) linarith
  have occ: "{j. j < ?cap \<and> (tab(?i \<mapsto> xs)) j \<noteq> None} = insert ?i {j. j < ?cap \<and> tab j \<noteq> None}" using i by auto
  have "?i \<notin> {j. j < ?cap \<and> tab j \<noteq> None}" using e(2) by simp
  then have card: "card {j. j < ?cap \<and> (tab(?i \<mapsto> xs)) j \<noteq> None} = Suc (unat (ip_count pool))"
    unfolding occ using I(8) by simp
  have "{j. j < ?cap \<and> (tab(?i \<mapsto> xs)) j \<noteq> None} \<subseteq> {..<?cap}" by auto
  from card_mono [OF _ this] card have cnt: "unat (ip_count pool) < ?cap" by simp
  note n = cstr_bounds [OF c(1)] cstr_len_Suc [OF c(1)]
  from arena_alloc_step [OF I(3), of "?n + 1"] n obtain q p' where al: "arena_alloc (Some a) (?n + 1) = ret (q, p')"
    "arena_ok p'" "arena_grows (Some a) p'" "block_span (q, Suc (length xs)) \<subseteq> arena_free (Some a)"
    "arena_free p' \<subseteq> arena_free (Some a) - block_span (q, Suc (length xs))" "q \<noteq> null_ptr \<longrightarrow> fits q (Suc (length xs))"
    "q = null_ptr \<longrightarrow> p' = Some a" by auto
  obtain a' where a': "p' = Some a'" using al(2) by (auto simp: arena_ok_def split: option.splits)
  have val: "intern_new h st pool s ?n (of_nat ?i) = (if q = 0 then ret (str_view_null, h, st(r \<mapsto> a'), pool)
      else bindR (mem_copy h q s ?n) (\<lambda>h1. bindR (write_bytes h1 (q + ?n) [0]) (\<lambda>h2.
        ret (\<lparr>v_ptr = q, v_len = ?n\<rparr>, h2, st(r \<mapsto> a'),
          pool\<lparr>ip_entries := Some (es[?i := \<lparr>v_ptr = q, v_len = ?n\<rparr>]), ip_count := ip_count pool + 1\<rparr>))))"
    using cnt I(1,2,5,6) al(1) a' i ui by (simp add: intern_new_def word_le_nat_alt arena_load_def Let_def null_ptr_def)
  show ?thesis
  proof (cases "q = 0")
    case True
    then have "st(r \<mapsto> a') = st" using al(7) a' I(2) by (auto simp: null_ptr_def)
    with True al(1) show ?thesis by (auto simp: val interned_def str_view_null_def null_ptr_def)
  next
    case False
    then have q: "fits q (Suc (length xs))" "span q (Suc (length xs)) \<subseteq> arena_free (Some a)"
      "arena_free (Some a') \<inter> span q (Suc (length xs)) = {}" "arena_free (Some a') \<subseteq> arena_free (Some a)"
      using al a' by (auto simp: block_span_def null_ptr_def)
    have "backed h q (Suc (length xs))" using arena_free_backed [OF I(3,4) al(4)] False by (simp add: null_ptr_def)
    moreover have "span s (Suc (length xs)) \<inter> span q (Suc (length xs)) = {}" using c(2) q(2) by blast
    ultimately obtain h1 h2 where h1: "mem_copy h q s ?n = ret h1" and h2: "write_bytes h1 (q + ?n) [0] = ret h2"
      and qc: "cstr h2 q xs" and fr: "\<forall>x. x \<notin> span q (Suc (length xs)) \<longrightarrow> h2 x = h x"
      using copy_cstr_to_block [OF c(1) _ q(1) False] by blast
    let ?v = "\<lparr>v_ptr = q, v_len = ?n\<rparr>"
    let ?pool = "pool\<lparr>ip_entries := Some (es[?i := ?v]), ip_count := ip_count pool + 1\<rparr>"
    have new: "entry_ok h2 (arena_free (Some a')) (es[?i := ?v] ! j) ((tab(?i \<mapsto> xs)) j)" if "j < ?cap" for j
    proof (cases "j = ?i")
      case True
      with qc n q(3) I(6) i show ?thesis by (auto simp: entry_ok_def)
    next
      case False
      with entry_ok_frame [OF I(9) [OF that] fr q(2,4)] show ?thesis by simp
    qed
    have pf: "v_ptr (es ! j) \<noteq> q" if "j < ?cap" for j
    proof (cases "tab j")
      case None
      with I(9) [OF that] False show ?thesis by (simp add: entry_ok_def)
    next
      case (Some ys)
      have "x \<in> span x (Suc k)" for x :: uptr and k by (simp add: span_def)
      with Some I(9) [OF that] q(2) show ?thesis by (fastforce simp: entry_ok_def)
    qed
    have "object h2 q (xs @ [0]) (?n + 1)" using qc n by (simp add: object_def cstr_def)
    moreover have "\<forall>x. x \<notin> span q (unat (?n + 1)) \<longrightarrow> h2 x = h x" using fr unfolding n(2) .
    ultimately have "arena_backed h2 (Some a)" by (rule arena_backed_write [OF I(4)])
    then have "arena_backed h2 (Some a')" using al(3) a' by (simp add: arena_backed_def arena_grows_def)
    have "tab_ok ?cap (es[?i := ?v]) (tab(?i \<mapsto> xs))"
      using pf by (intro tab_ok_insert [OF I(7,6) e]) simp
    moreover note \<open>arena_backed h2 (Some a')\<close>
    moreover have "unat (ip_count pool + 1) = card {j. j < ?cap \<and> (tab(?i \<mapsto> xs)) j \<noteq> None}"
      using card cnt usize_bound [of "ip_cap pool"] by (subst unat_usize_Suc) simp_all
    moreover have "0 < ip_cap pool" using inv by (simp add: intern_inv_def)
    ultimately have "intern_inv h2 (st(r \<mapsto> a')) ?pool r a' (es[?i := ?v]) (tab(?i \<mapsto> xs))"
      using new I(1,6) al(2) a' by (simp add: intern_inv_def)
    then have "interned h st pool r a es tab xs (?v, h2, st(r \<mapsto> a'), ?pool)"
      using False i e(2) q(2,4) fr unfolding interned_def prod.case
      by (auto intro!: exI [of _ ?i] exI [of _ a'])
    then show ?thesis using False h1 h2 by (auto simp: val)
  qed
qed

lemma intern_string_value:
  assumes inv: "intern_inv h st pool r a es tab" and c: "cstr h (if s = null_ptr then lit else s) xs"
    "span (if s = null_ptr then lit else s) (Suc (length xs)) \<inter> arena_free (Some a) = {}"
  shows "\<exists>v h' st' pool'. intern_string lit h st (Some pool) s = ret (v, h', st', Some pool') \<and>
    ((\<exists>i < unat (ip_cap pool). tab i = Some xs \<and> v = es ! i \<and> h' = h \<and> st' = st \<and> pool' = pool) \<or>
     (\<forall>i < unat (ip_cap pool). tab i \<noteq> Some xs) \<and> interned h st pool r a es tab xs (v, h', st', pool'))"
proof -
  let ?s = "if s = null_ptr then lit else s" and ?cap = "unat (ip_cap pool)" and ?n = "of_nat (length xs) :: usize"
  have cap: "ip_cap pool \<noteq> 0" "0 < ?cap" using inv by (auto simp: intern_inv_def unat_gt_0 word_gt_0)
  have "unat (fnv1a xs mod ip_cap pool) = slot_at ?cap xs 0" by (simp add: slot_at_def home_def unat_mod_word)
  then have "fnv1a xs mod ip_cap pool = of_nat (slot_at ?cap xs 0)" by (rule of_unat)
  then have val: "intern_string lit h st (Some pool) s =
      bindR (intern_probe h st pool ?s ?n (of_nat (slot_at ?cap xs 0)) ?cap) (\<lambda>(v, h', st', pool'). ret (v, h', st', Some pool'))"
    using inv cap(1) by (simp add: intern_string_def intern_inv_def str_len_value [OF c(1)] intern_hash_value [OF c(1)] Let_def)
  from intern_probe_value [OF inv c(1), of 0 ?cap] consider
      (found) i where "i < ?cap" "tab i = Some xs" "intern_probe h st pool ?s ?n (of_nat (slot_at ?cap xs 0)) ?cap = ret (es ! i, h, st, pool)"
    | (free) e where "\<forall>i < ?cap. tab i \<noteq> Some xs" "e < ?cap" "tab (slot_at ?cap xs e) = None" "\<forall>d' < e. tab (slot_at ?cap xs d') \<noteq> None"
        "intern_probe h st pool ?s ?n (of_nat (slot_at ?cap xs 0)) ?cap = intern_new h st pool ?s ?n (of_nat (slot_at ?cap xs e))"
    | (full) "\<forall>i < ?cap. tab i \<noteq> Some xs" "\<forall>i < ?cap. tab i \<noteq> None"
        "intern_probe h st pool ?s ?n (of_nat (slot_at ?cap xs 0)) ?cap = ret (str_view_null, h, st, pool)" by auto
  then show ?thesis
  proof cases
    case found
    then show ?thesis unfolding val by auto
  next
    case free
    from intern_new_value [OF inv c free(2-4,1)] free(1,5) show ?thesis unfolding val by fastforce
  next
    case full
    then show ?thesis unfolding val by (auto simp: interned_def str_view_null_def null_ptr_def)
  qed
qed

subsection \<open>Sequences\<close>

fun intern_all ::
  "uptr \<Rightarrow> heap \<Rightarrow> arena_store \<Rightarrow> intern_pool cptr \<Rightarrow> uptr list \<Rightarrow> (str_view list \<times> heap \<times> arena_store \<times> intern_pool cptr) run" where
  "intern_all lit h st p [] = ret ([], h, st, p)"
| "intern_all lit h st p (s # ss) = bindR (intern_string lit h st p s) (\<lambda>(v, h', st', p').
     bindR (intern_all lit h' st' p' ss) (\<lambda>(vs, h'', st'', p''). ret (v # vs, h'', st'', p'')))"

text \<open>A result that is not NULL is an entry of the table, for its string, and stays so.\<close>

definition holds :: "nat \<Rightarrow> str_view list \<Rightarrow> (nat \<Rightarrow> u8 list option) \<Rightarrow> u8 list \<Rightarrow> str_view \<Rightarrow> bool" where
  "holds cap es tab xs v \<longleftrightarrow> v_ptr v \<noteq> 0 \<longrightarrow> (\<exists>i < cap. tab i = Some xs \<and> es ! i = v)"

lemma intern_string_step:
  assumes inv: "intern_inv h st pool r a es tab" and c: "cstr h (if s = null_ptr then lit else s) xs"
    "span (if s = null_ptr then lit else s) (Suc (length xs)) \<inter> arena_free (Some a) = {}"
  shows "\<exists>v h' st' pool' a' es' tab'. intern_string lit h st (Some pool) s = ret (v, h', st', Some pool') \<and>
    intern_inv h' st' pool' r a' es' tab' \<and> ip_cap pool' = ip_cap pool \<and> holds (unat (ip_cap pool)) es' tab' xs v \<and>
    (\<forall>ys w. holds (unat (ip_cap pool)) es tab ys w \<longrightarrow> holds (unat (ip_cap pool)) es' tab' ys w) \<and>
    arena_free (Some a') \<subseteq> arena_free (Some a) \<and> (\<forall>q. q \<notin> arena_free (Some a) \<longrightarrow> h' q = h q) \<and>
    ((\<exists>i < unat (ip_cap pool). tab i = Some xs) \<longrightarrow> v_ptr v \<noteq> 0)"
proof -
  let ?cap = "unat (ip_cap pool)"
  have len: "length es = ?cap" using inv by (simp add: intern_inv_def)
  from intern_string_value [OF inv c] obtain v h' st' pool' where
    v: "intern_string lit h st (Some pool) s = ret (v, h', st', Some pool')"
      "(\<exists>i < ?cap. tab i = Some xs \<and> v = es ! i \<and> h' = h \<and> st' = st \<and> pool' = pool) \<or>
       (\<forall>i < ?cap. tab i \<noteq> Some xs) \<and> interned h st pool r a es tab xs (v, h', st', pool')" by blast
  from v(2) consider (found) i where "i < ?cap" "tab i = Some xs" "v = es ! i" "h' = h" "st' = st" "pool' = pool"
    | (failed) "\<forall>i < ?cap. tab i \<noteq> Some xs" "v_ptr v = 0" "h' = h" "st' = st" "pool' = pool"
    | (new) i a' where "\<forall>i < ?cap. tab i \<noteq> Some xs" "v_ptr v \<noteq> 0" "i < ?cap" "tab i = None"
        "intern_inv h' st' pool' r a' (es[i := v]) (tab(i \<mapsto> xs))" "ip_cap pool' = ip_cap pool"
        "arena_free (Some a') \<subseteq> arena_free (Some a)" "\<forall>q. q \<notin> arena_free (Some a) \<longrightarrow> h' q = h q"
    by (auto simp: interned_def split: if_splits)
  then show ?thesis
  proof cases
    case found
    moreover have "v_ptr (es ! i) \<noteq> 0" using inv found(1,2) by (auto simp: intern_inv_def entry_ok_def cstr_def)
    ultimately show ?thesis using v(1) inv by (auto simp: holds_def)
  next
    case failed
    then show ?thesis using v(1) inv by (auto simp: holds_def)
  next
    case new
    have "holds ?cap (es[i := v]) (tab(i \<mapsto> xs)) xs v" using new len by (auto simp: holds_def)
    moreover have "holds ?cap (es[i := v]) (tab(i \<mapsto> xs)) ys w" if "holds ?cap es tab ys w" for ys w
      using that new(4) unfolding holds_def by (metis fun_upd_apply nth_list_update_neq option.distinct(1))
    ultimately show ?thesis using v(1) new by blast
  qed
qed

text \<open>The strings to intern lie outside the memory that the arena can hand out.\<close>

definition source_ok :: "uptr \<Rightarrow> heap \<Rightarrow> uptr set \<Rightarrow> uptr \<Rightarrow> u8 list \<Rightarrow> bool" where
  "source_ok lit h free s xs \<longleftrightarrow> cstr h (if s = null_ptr then lit else s) xs \<and>
     span (if s = null_ptr then lit else s) (Suc (length xs)) \<inter> free = {}"

lemma source_ok_frame:
  "source_ok lit h free s xs \<Longrightarrow> \<forall>q. q \<notin> free \<longrightarrow> h' q = h q \<Longrightarrow> free' \<subseteq> free \<Longrightarrow> source_ok lit h' free' s xs"
  unfolding source_ok_def
proof (elim conjE, intro conjI)
  let ?s = "if s = null_ptr then lit else s"
  assume a: "cstr h ?s xs" "span ?s (Suc (length xs)) \<inter> free = {}" "\<forall>q. q \<notin> free \<longrightarrow> h' q = h q" "free' \<subseteq> free"
  from a(2) have "free \<inter> span ?s (Suc (length xs)) = {}" by blast
  from cstr_reads [OF a(1) this a(3)] show "cstr h' ?s xs" .
  show "span ?s (Suc (length xs)) \<inter> free' = {}" using a(2,4) by blast
qed

lemma intern_all_value:
  "intern_inv h st pool r a es tab \<Longrightarrow> list_all2 (source_ok lit h (arena_free (Some a))) ss xss \<Longrightarrow>
   \<exists>vs h' st' pool' a' es' tab'. intern_all lit h st (Some pool) ss = ret (vs, h', st', Some pool') \<and>
     intern_inv h' st' pool' r a' es' tab' \<and> ip_cap pool' = ip_cap pool \<and>
     list_all2 (holds (unat (ip_cap pool)) es' tab') xss vs \<and>
     (\<forall>ys w. holds (unat (ip_cap pool)) es tab ys w \<longrightarrow> holds (unat (ip_cap pool)) es' tab' ys w) \<and>
     (\<forall>k < length vs. (\<exists>i < unat (ip_cap pool). tab i = Some (xss ! k)) \<longrightarrow> v_ptr (vs ! k) \<noteq> 0) \<and>
     (\<forall>j k. j < k \<longrightarrow> k < length vs \<longrightarrow> xss ! j = xss ! k \<longrightarrow> v_ptr (vs ! j) \<noteq> 0 \<longrightarrow> v_ptr (vs ! k) \<noteq> 0)"
proof (induction ss arbitrary: h st pool a es tab xss)
  case Nil
  then show ?case by auto
next
  case (Cons s ss)
  let ?cap = "unat (ip_cap pool)"
  from Cons.prems(2) obtain xs xss' where x: "xss = xs # xss'" "source_ok lit h (arena_free (Some a)) s xs"
    "list_all2 (source_ok lit h (arena_free (Some a))) ss xss'" by (auto simp: list_all2_Cons1)
  from intern_string_step [OF Cons.prems(1), of s lit xs] x(2) obtain v h1 st1 pool1 a1 es1 tab1 where
    s: "intern_string lit h st (Some pool) s = ret (v, h1, st1, Some pool1)" "intern_inv h1 st1 pool1 r a1 es1 tab1"
      "ip_cap pool1 = ip_cap pool" "holds ?cap es1 tab1 xs v"
      "\<forall>ys w. holds ?cap es tab ys w \<longrightarrow> holds ?cap es1 tab1 ys w"
      "arena_free (Some a1) \<subseteq> arena_free (Some a)" "\<forall>q. q \<notin> arena_free (Some a) \<longrightarrow> h1 q = h q"
      "(\<exists>i < ?cap. tab i = Some xs) \<longrightarrow> v_ptr v \<noteq> 0" unfolding source_ok_def by blast
  have "list_all2 (source_ok lit h1 (arena_free (Some a1))) ss xss'"
    using x(3) source_ok_frame [OF _ s(7,6)] by (rule list_all2_mono)
  from Cons.IH [OF s(2) this] obtain vs h' st' pool' a' es' tab' where
    I: "intern_all lit h1 st1 (Some pool1) ss = ret (vs, h', st', Some pool')" "intern_inv h' st' pool' r a' es' tab'"
      "ip_cap pool' = ip_cap pool" "list_all2 (holds ?cap es' tab') xss' vs"
      "\<forall>ys w. holds ?cap es1 tab1 ys w \<longrightarrow> holds ?cap es' tab' ys w"
      "\<forall>k < length vs. (\<exists>i < ?cap. tab1 i = Some (xss' ! k)) \<longrightarrow> v_ptr (vs ! k) \<noteq> 0"
      "\<forall>j k. j < k \<longrightarrow> k < length vs \<longrightarrow> xss' ! j = xss' ! k \<longrightarrow> v_ptr (vs ! j) \<noteq> 0 \<longrightarrow> v_ptr (vs ! k) \<noteq> 0"
    unfolding s(3) by (elim exE conjE) (rule that; assumption)
  have "list_all2 (holds ?cap es' tab') xss (v # vs)" using I(4,5) s(4) x(1) by simp
  moreover have "v_ptr ((v # vs) ! k) \<noteq> 0" if "k < length (v # vs)" "\<exists>i < ?cap. tab i = Some (xss ! k)" for k
  proof (cases k)
    case 0
    with that s(8) x(1) show ?thesis by simp
  next
    case (Suc k')
    have "\<exists>i < ?cap. tab1 i = Some (xss' ! k')"
    proof -
      from that(2) Suc x(1) obtain i where i: "i < ?cap" "tab i = Some (xss' ! k')" by auto
      then have "v_ptr (es ! i) \<noteq> 0" using Cons.prems(1) by (auto simp: intern_inv_def entry_ok_def cstr_def)
      with s(5) i show ?thesis unfolding holds_def by blast
    qed
    with I(6) that(1) Suc show ?thesis by simp
  qed
  moreover have "v_ptr ((v # vs) ! k) \<noteq> 0"
    if "j < k" "k < length (v # vs)" "xss ! j = xss ! k" "v_ptr ((v # vs) ! j) \<noteq> 0" for j k
  proof (cases j)
    case 0
    with that s(4) I(6) x(1) show ?thesis by (cases k) (auto simp: holds_def)
  next
    case (Suc j')
    with that I(7) x(1) show ?thesis by (cases k) auto
  qed
  moreover have "intern_all lit h st (Some pool) (s # ss) = ret (v # vs, h', st', Some pool')" using s(1) I(1) by simp
  moreover have "\<forall>ys w. holds ?cap es tab ys w \<longrightarrow> holds ?cap es' tab' ys w" using s(5) I(5) by blast
  ultimately show ?case using I(2,3) by blast
qed

subsection \<open>Initialisation\<close>

lemma intern_pool_init_value:
  assumes "arena_ok (Some a)" "arena_backed h (Some a)" "st r = Some a" "0 < capacity" "unat capacity * 16 < 2 ^ 64"
    "source_ok lit h (arena_free (Some a)) lit []"
  shows "\<exists>ok h1 p1 st1. intern_pool_init lit h (Some pool0) (Some r) capacity st = ret (ok, h1, p1, st1) \<and>
    (if ok then \<exists>pool a' es tab. p1 = Some pool \<and> intern_inv h1 st1 pool r a' es tab \<and> ip_cap pool = capacity \<and>
       arena_free (Some a') \<subseteq> arena_free (Some a) \<and> (\<forall>q. q \<notin> arena_free (Some a) \<longrightarrow> h1 q = h q)
     else (\<exists>p'. arena_alloc (Some a) (capacity * 16) = ret (null_ptr, p')) \<and> h1 = h \<and> p1 = Some pool0 \<and> st1 = st)"
proof -
  let ?size = "capacity * 16"
  have sz: "unat ?size = unat capacity * 16" using assms(5) by (simp add: unat_word_ariths)
  from arena_alloc_step [OF assms(1), of ?size] obtain q p' where al: "arena_alloc (Some a) ?size = ret (q, p')"
    "arena_ok p'" "arena_grows (Some a) p'" "block_span (q, unat ?size) \<subseteq> arena_free (Some a)"
    "arena_free p' \<subseteq> arena_free (Some a) - block_span (q, unat ?size)" "q \<noteq> null_ptr \<longrightarrow> fits q (unat ?size)"
    "q = null_ptr \<longrightarrow> p' = Some a" by auto
  obtain a1 where a1: "p' = Some a1" using al(2) by (auto simp: arena_ok_def split: option.splits)
  note defs = intern_pool_init_def arena_load_def assms(3) al(1) a1 Let_def
  show ?thesis
  proof (cases "q = null_ptr")
    case True
    moreover have "st(r \<mapsto> a1) = st" using al(7) True a1 assms(3) by auto
    ultimately show ?thesis using assms(4) al(1) by (auto simp: defs)
  next
    case False
    have "backed h q (unat ?size)" using arena_free_backed [OF assms(1,2) al(4) False] .
    then obtain bs where "length bs = unat ?size" "region h q bs" using backed_region al(6) False by blast
    then have o: "object h q bs ?size" using False al(6) by (simp add: object_def null_ptr_def)
    from mem_set_object [OF o, of 0] obtain h1 where h1: "mem_set h q 0 ?size = ret h1"
      "object h1 q (replicate (unat ?size) (word_of_int 0)) ?size" "\<forall>x. x \<notin> span q (unat ?size) \<longrightarrow> h1 x = h x" by blast
    have sp: "span q (unat ?size) \<subseteq> arena_free (Some a)" using al(4) False by (simp add: block_span_def)
    then have fr: "\<forall>x. x \<notin> arena_free (Some a) \<longrightarrow> h1 x = h x" using h1(3) by blast
    have sub: "arena_free (Some a1) \<subseteq> arena_free (Some a)" using al(5) a1 by auto
    let ?es = "replicate (unat ?size div 16) str_view_null"
    let ?pool = "\<lparr>ip_arena = Some r, ip_entries = Some ?es, ip_cap = capacity, ip_count = 0\<rparr>"
    have "arena_backed h1 (Some a1)"
      using arena_backed_write [OF assms(2) h1(2,3)] al(3) a1 by (simp add: arena_backed_def arena_grows_def)
    then have inv: "intern_inv h1 (st(r \<mapsto> a1)) ?pool r a1 ?es (\<lambda>_. None)"
      using al(2) a1 assms(4) sz by (auto simp: intern_inv_def tab_ok_def entry_ok_def str_view_null_def null_ptr_def)
    have "source_ok lit h1 (arena_free (Some a1)) lit []" using source_ok_frame [OF assms(6) fr sub] .
    from intern_string_step [OF inv, of lit lit "[]"] this obtain v h2 st2 pool2 a2 es2 tab2 where
      s: "intern_string lit h1 (st(r \<mapsto> a1)) (Some ?pool) lit = ret (v, h2, st2, Some pool2)"
        "intern_inv h2 st2 pool2 r a2 es2 tab2" "ip_cap pool2 = capacity"
        "arena_free (Some a2) \<subseteq> arena_free (Some a1)" "\<forall>q. q \<notin> arena_free (Some a1) \<longrightarrow> h2 q = h1 q"
      unfolding source_ok_def by auto
    have "intern_pool_init lit h (Some pool0) (Some r) capacity st = ret (True, h2, Some pool2, st2)"
      using assms(4) False h1(1) s(1) by (simp add: defs)
    moreover have "\<forall>q. q \<notin> arena_free (Some a) \<longrightarrow> h2 q = h q" using s(5) fr sub by auto
    moreover have "arena_free (Some a2) \<subseteq> arena_free (Some a)" using s(4) sub by blast
    ultimately show ?thesis using s(2,3)
      by (intro exI [of _ True] exI [of _ h2] exI [of _ "Some pool2"] exI [of _ st2]) auto
  qed
qed

lemma intern_history:
  assumes "intern_inv h st pool r a es tab" "list_all2 (holds (unat (ip_cap pool)) es tab) xss vs"
  shows "\<forall>j < length vs. v_ptr (vs ! j) \<noteq> 0 \<longrightarrow> cstr h (v_ptr (vs ! j)) (xss ! j) \<and> unat (v_len (vs ! j)) = length (xss ! j)"
    "\<forall>j < length vs. \<forall>k < length vs. v_ptr (vs ! j) \<noteq> 0 \<longrightarrow> v_ptr (vs ! k) \<noteq> 0 \<longrightarrow>
       (intern_equals (vs ! j) (vs ! k) \<longleftrightarrow> xss ! j = xss ! k) \<and> (xss ! j = xss ! k \<longrightarrow> vs ! k = vs ! j)"
proof -
  let ?cap = "unat (ip_cap pool)"
  have entry: "\<exists>i < ?cap. tab i = Some (xss ! j) \<and> es ! i = vs ! j" if "j < length vs" "v_ptr (vs ! j) \<noteq> 0" for j
    using list_all2_nthD2 [OF assms(2) that(1)] that(2) by (simp add: holds_def)
  show "\<forall>j < length vs. v_ptr (vs ! j) \<noteq> 0 \<longrightarrow> cstr h (v_ptr (vs ! j)) (xss ! j) \<and> unat (v_len (vs ! j)) = length (xss ! j)"
  proof (intro allI impI)
    fix j assume "j < length vs" "v_ptr (vs ! j) \<noteq> 0"
    from entry [OF this] obtain i where i: "i < ?cap" "tab i = Some (xss ! j)" "es ! i = vs ! j" by blast
    have "entry_ok h (arena_free (Some a)) (es ! i) (tab i)" using assms(1) i(1) unfolding intern_inv_def by blast
    with i show "cstr h (v_ptr (vs ! j)) (xss ! j) \<and> unat (v_len (vs ! j)) = length (xss ! j)" by (simp add: entry_ok_def)
  qed
  have t: "tab_ok ?cap es tab" using assms(1) by (simp add: intern_inv_def)
  show "\<forall>j < length vs. \<forall>k < length vs. v_ptr (vs ! j) \<noteq> 0 \<longrightarrow> v_ptr (vs ! k) \<noteq> 0 \<longrightarrow>
       (intern_equals (vs ! j) (vs ! k) \<longleftrightarrow> xss ! j = xss ! k) \<and> (xss ! j = xss ! k \<longrightarrow> vs ! k = vs ! j)"
  proof (intro allI impI)
    fix j k assume jk: "j < length vs" "k < length vs" "v_ptr (vs ! j) \<noteq> 0" "v_ptr (vs ! k) \<noteq> 0"
    from entry [OF jk(1,3)] entry [OF jk(2,4)] obtain i l where
      i: "i < ?cap" "tab i = Some (xss ! j)" "es ! i = vs ! j" and l: "l < ?cap" "tab l = Some (xss ! k)" "es ! l = vs ! k" by blast
    have "v_ptr (vs ! j) = v_ptr (vs ! k) \<Longrightarrow> i = l"
      using t i l unfolding tab_ok_def by (metis option.distinct(1))
    moreover have "xss ! j = xss ! k \<Longrightarrow> i = l" using t i l unfolding tab_ok_def by metis
    ultimately show "(intern_equals (vs ! j) (vs ! k) \<longleftrightarrow> xss ! j = xss ! k) \<and> (xss ! j = xss ! k \<longrightarrow> vs ! k = vs ! j)"
      using i l unfolding intern_equals_def by (metis option.inject)
  qed
qed

lemma probe_outside:
  "ip_entries pool = Some es \<Longrightarrow> length es \<le> unat index \<Longrightarrow> 0 < k \<Longrightarrow>
   intern_probe h st pool s n index k = undefined_behaviour ''read outside the array''"
  by (cases k) (simp_all add: arr_get_def)

text \<open>
  What interning the strings \<open>xss\<close> promises of the views \<open>vs\<close>: those that are not NULL show their strings,
  have equal pointers exactly when the strings are equal, and repeat the view of an earlier request.
\<close>

definition views_of_strings :: "heap \<Rightarrow> u8 list list \<Rightarrow> str_view list \<Rightarrow> bool" where
  "views_of_strings h xss vs \<longleftrightarrow> length vs = length xss \<and>
     (\<forall>j < length vs. v_ptr (vs ! j) \<noteq> 0 \<longrightarrow> cstr h (v_ptr (vs ! j)) (xss ! j) \<and> unat (v_len (vs ! j)) = length (xss ! j)) \<and>
     (\<forall>j < length vs. \<forall>k < length vs. v_ptr (vs ! j) \<noteq> 0 \<longrightarrow> v_ptr (vs ! k) \<noteq> 0 \<longrightarrow>
        (intern_equals (vs ! j) (vs ! k) \<longleftrightarrow> xss ! j = xss ! k)) \<and>
     (\<forall>j k. j < k \<longrightarrow> k < length vs \<longrightarrow> xss ! j = xss ! k \<longrightarrow> v_ptr (vs ! j) \<noteq> 0 \<longrightarrow> vs ! k = vs ! j)"

subsection \<open>Properties\<close>

text \<open>C13: Interning decides equality by pointers. Initialisation fails only when the arena has no room for the
  table. After it, for every sequence of strings outside the memory that the arena can still hand
  out, every call returns; each view that is not NULL shows a copy of its string at the end of the
  sequence; two such views have equal pointers exactly when their strings are equal; and once a
  string has been interned every later request for it gives the same view.\<close>

theorem intern_pointer_equality:
  assumes "arena_ok (Some a)" "arena_backed h (Some a)" "st r = Some a" "0 < capacity" "unat capacity * 16 < 2 ^ 64"
    and "source_ok lit h (arena_free (Some a)) lit []" "list_all2 (source_ok lit h (arena_free (Some a))) ss xss"
  shows "\<exists>ok h1 p1 st1. intern_pool_init lit h (Some pool0) (Some r) capacity st = ret (ok, h1, p1, st1) \<and>
    (if \<not> ok then \<exists>p'. arena_alloc (Some a) (capacity * 16) = ret (null_ptr, p')
     else \<exists>vs h' st' p'. intern_all lit h1 st1 p1 ss = ret (vs, h', st', p') \<and> views_of_strings h' xss vs)"
proof -
  from intern_pool_init_value [where st = st and r = r, OF assms(1-6)] obtain ok h1 p1 st1 where
    i: "intern_pool_init lit h (Some pool0) (Some r) capacity st = ret (ok, h1, p1, st1)"
      "if ok then \<exists>pool a' es tab. p1 = Some pool \<and> intern_inv h1 st1 pool r a' es tab \<and> ip_cap pool = capacity \<and>
         arena_free (Some a') \<subseteq> arena_free (Some a) \<and> (\<forall>q. q \<notin> arena_free (Some a) \<longrightarrow> h1 q = h q)
       else (\<exists>p'. arena_alloc (Some a) (capacity * 16) = ret (null_ptr, p')) \<and> h1 = h \<and> p1 = Some pool0 \<and> st1 = st" by blast
  show ?thesis
  proof (cases ok)
    case False
    with i show ?thesis by auto
  next
    case True
    with i(2) obtain pool a' es tab where p: "p1 = Some pool" "intern_inv h1 st1 pool r a' es tab"
      "arena_free (Some a') \<subseteq> arena_free (Some a)" "\<forall>q. q \<notin> arena_free (Some a) \<longrightarrow> h1 q = h q" by auto
    have "list_all2 (source_ok lit h1 (arena_free (Some a'))) ss xss"
      using assms(7) source_ok_frame [OF _ p(4,3)] by (rule list_all2_mono)
    from intern_all_value [OF p(2) this] obtain vs h' st' pool' a2 es' tab' where
      v: "intern_all lit h1 st1 (Some pool) ss = ret (vs, h', st', Some pool')" "intern_inv h' st' pool' r a2 es' tab'"
        "ip_cap pool' = ip_cap pool" "list_all2 (holds (unat (ip_cap pool)) es' tab') xss vs"
        "\<forall>j k. j < k \<longrightarrow> k < length vs \<longrightarrow> xss ! j = xss ! k \<longrightarrow> v_ptr (vs ! j) \<noteq> 0 \<longrightarrow> v_ptr (vs ! k) \<noteq> 0"
      by (elim exE conjE) (rule that; assumption)
    have len: "length vs = length xss" using v(4) by (simp add: list_all2_lengthD)
    note hist = intern_history [OF v(2) v(4) [folded v(3)]]
    have "vs ! k = vs ! j" if "j < k" "k < length vs" "xss ! j = xss ! k" "v_ptr (vs ! j) \<noteq> 0" for j k
      using hist(2) [rule_format, of j k] v(5) [rule_format, OF that] that by simp
    then have "views_of_strings h' xss vs" using hist len by (simp add: views_of_strings_def)
    with v(1) p(1) i(1) True show ?thesis by auto
  qed
qed

theorem intern_pointer_equality_witness:
  "let h = (\<lambda>q. if q \<in> span 4096 256 then Some 0 else None)(64 \<mapsto> 0, 72 \<mapsto> 97, 73 \<mapsto> 0, 80 \<mapsto> 97, 81 \<mapsto> 0);
     a = \<lparr>arena_buffer = 4096, arena_cap = 256, arena_offset = 0, arena_padding = 0\<rparr>;
     pool0 = \<lparr>ip_arena = None, ip_entries = None, ip_cap = 0, ip_count = 0\<rparr> in
   \<exists>h1 p1 st1 vs h' st' p'. intern_pool_init 64 h (Some pool0) (Some 0) 4 [0 \<mapsto> a] = ret (True, h1, p1, st1) \<and>
     intern_all 64 h1 st1 p1 [72, 80] = ret (vs, h', st', p') \<and> (v_ptr (vs ! 0) \<noteq> 0 \<longrightarrow> vs ! 1 = vs ! 0)"
proof -
  define h :: heap where "h = (\<lambda>q. if q \<in> span 4096 256 then Some 0 else None)(64 \<mapsto> 0, 72 \<mapsto> 97, 73 \<mapsto> 0, 80 \<mapsto> 97, 81 \<mapsto> 0)"
  let ?a = "\<lparr>arena_buffer = 4096, arena_cap = 256, arena_offset = 0, arena_padding = 0\<rparr>"
  have a: "arena_ok (Some ?a)" "arena_backed h (Some ?a)"
    by (auto simp: arena_ok_def arena_backed_def backed_def null_ptr_def h_def)
  have src: "source_ok 64 h (arena_free (Some ?a)) 64 []" "source_ok 64 h (arena_free (Some ?a)) 72 [97]"
    "source_ok 64 h (arena_free (Some ?a)) 80 [97]"
    by (auto simp: source_ok_def cstr_def fits_def span_def h_def null_ptr_def arena_free_def)
  have al: "arena_alloc (Some ?a) (4 * 16) = ret (4096, Some (?a\<lparr>arena_offset := 64\<rparr>))" by code_simp
  have ss: "list_all2 (source_ok 64 h (arena_free (Some ?a))) [72, 80] [[97], [97]]" using src by simp
  let ?pool0 = "\<lparr>ip_arena = None, ip_entries = None, ip_cap = 0, ip_count = 0\<rparr>"
  from intern_pointer_equality [OF a _ _ _ src(1) ss, of "[0 \<mapsto> ?a]" 0 4 ?pool0] obtain ok h1 p1 st1 where
    i: "intern_pool_init 64 h (Some ?pool0) (Some 0) 4 [0 \<mapsto> ?a] = ret (ok, h1, p1, st1)"
      "if \<not> ok then \<exists>p'. arena_alloc (Some ?a) (4 * 16) = ret (null_ptr, p')
       else \<exists>vs h' st' p'. intern_all 64 h1 st1 p1 [72, 80] = ret (vs, h', st', p') \<and> views_of_strings h' [[97], [97]] vs"
    by (simp del: intern_all.simps) blast
  with al have ok: "ok = True" by (auto simp: null_ptr_def split: if_splits)
  with i obtain vs h' st' p' where v: "intern_all 64 h1 st1 p1 [72, 80] = ret (vs, h', st', p')" "views_of_strings h' [[97], [97]] vs"
    by auto
  then have "v_ptr (vs ! 0) \<noteq> 0 \<longrightarrow> vs ! 1 = vs ! 0" by (auto simp: views_of_strings_def)
  with i(1) [unfolded ok] v(1) show ?thesis unfolding h_def [symmetric] Let_def by blast
qed

text \<open>C37: The size of the table wraps: for a capacity of \<open>2 ^ 60 + 1\<close> entries \<open>intern_pool_init\<close> asks the arena
  for 16 bytes, one entry, and then probes for the empty string outside that table, which is
  undefined behaviour, in every arena that has those 16 bytes.\<close>

theorem intern_pool_init_wraps:
  assumes "arena_ok (Some a)" "arena_backed h (Some a)" "st r = Some a" "source_ok lit h (arena_free (Some a)) lit []"
    and "arena_alloc (Some a) 16 = ret (q, p')" "q \<noteq> null_ptr"
  shows "intern_pool_init lit h (Some pool0) (Some r) (2 ^ 60 + 1) st = undefined_behaviour ''read outside the array''"
proof -
  from arena_alloc_step [OF assms(1), of 16] assms(5,6) have al: "arena_ok p'" "block_span (q, 16) \<subseteq> arena_free (Some a)"
    "arena_free p' \<subseteq> arena_free (Some a)" "fits q 16" by auto
  obtain a1 where a1: "p' = Some a1" using al(1) by (auto simp: arena_ok_def split: option.splits)
  have "backed h q 16" using arena_free_backed [OF assms(1,2) al(2) assms(6)] .
  then obtain bs where "length bs = 16" "region h q bs" using backed_region al(4) by blast
  then have "object h q bs 16" using assms(6) al(4) by (simp add: object_def null_ptr_def)
  from mem_set_object [OF this, of 0] obtain h1 where h1: "mem_set h q 0 16 = ret h1" "\<forall>x. x \<notin> span q 16 \<longrightarrow> h1 x = h x" by auto
  have "\<forall>x. x \<notin> arena_free (Some a) \<longrightarrow> h1 x = h x" using h1(2) al(2) assms(6) by (auto simp: block_span_def)
  from source_ok_frame [OF assms(4) this subset_refl] have c: "cstr h1 lit []" by (simp add: source_ok_def split: if_splits)
  have "intern_string lit h1 (st(r \<mapsto> a1))
      (Some \<lparr>ip_arena = Some r, ip_entries = Some (replicate 1 str_view_null), ip_cap = 2 ^ 60 + 1, ip_count = 0\<rparr>) lit =
      undefined_behaviour ''read outside the array''"
    using c intern_hash_value [OF c] str_len_value [OF c]
    by (simp add: intern_string_def fnv1a_def probe_outside)
  moreover have size: "(18446744073709551632 :: usize) = 16" by simp
  ultimately show ?thesis using assms(3,5,6) a1 h1(1) by (simp add: intern_pool_init_def arena_load_def Let_def size)
qed

theorem intern_pool_init_wraps_witness:
  "let h = (\<lambda>q. if q \<in> span 4096 256 then Some 0 else None)(64 \<mapsto> 0);
     a = \<lparr>arena_buffer = 4096, arena_cap = 256, arena_offset = 0, arena_padding = 0\<rparr>;
     pool0 = \<lparr>ip_arena = None, ip_entries = None, ip_cap = 0, ip_count = 0\<rparr>
   in intern_pool_init 64 h (Some pool0) (Some 0) (2 ^ 60 + 1) [0 \<mapsto> a] = undefined_behaviour ''read outside the array''"
proof -
  define h :: heap where "h = (\<lambda>q. if q \<in> span 4096 256 then Some 0 else None)(64 \<mapsto> 0)"
  let ?a = "\<lparr>arena_buffer = 4096, arena_cap = 256, arena_offset = 0, arena_padding = 0\<rparr>"
  have "arena_ok (Some ?a)" "arena_backed h (Some ?a)"
    by (auto simp: arena_ok_def arena_backed_def backed_def null_ptr_def h_def)
  moreover have "source_ok 64 h (arena_free (Some ?a)) 64 []"
    by (auto simp: source_ok_def cstr_def fits_def span_def h_def null_ptr_def arena_free_def)
  moreover have "arena_alloc (Some ?a) 16 = ret (4096, Some (?a\<lparr>arena_offset := 16\<rparr>))" by code_simp
  ultimately show ?thesis unfolding h_def [symmetric] Let_def
    by (intro intern_pool_init_wraps [where q = 4096]) (simp_all add: null_ptr_def)
qed

end
