(* ===== verification/Canon_Split.thy ===== *)
theory Canon_Split
  imports Canon_Str
begin

section \<open>Splitting and trimming C strings (util/str/str_split.h)\<close>

text \<open>
  An array of parts is a list of addresses. \<open>scan_while\<close> and \<open>scan_back\<close> are the loops that move a
  pointer over bytes; \<open>P\<close> is the condition on the byte.

  The specification cuts the list of bytes: \<open>fields d xs\<close> are the pieces between the delimiters,
  \<open>tokens d xs\<close> those that are not empty, and \<open>joined sep\<close> puts pieces together. The lemmas show that
  the fields put together with the delimiter are the string, that the pointers found by the two
  splitting functions are those of the fields, and that trimming leaves the string without the bytes
  at its ends.
\<close>

subsection \<open>str_split.h\<close>

definition split_is_ws :: "u8 \<Rightarrow> bool" where
  "split_is_ws c \<longleftrightarrow> c = 32 \<or> c = 9 \<or> c = 10 \<or> c = 13 \<or> c = 12 \<or> c = 11"

fun scan_while :: "heap \<Rightarrow> (u8 \<Rightarrow> bool) \<Rightarrow> uptr \<Rightarrow> nat \<Rightarrow> uptr run" where
  "scan_while h P p 0 = undefined_behaviour ''string without a terminator''"
| "scan_while h P p (Suc fuel) = bindR (load_byte h p) (\<lambda>c.
     if P c then scan_while h P (p + 1) fuel else ret p)"

fun str_split_loop :: "heap \<Rightarrow> u8 \<Rightarrow> uptr list \<Rightarrow> usize \<Rightarrow> usize \<Rightarrow> uptr \<Rightarrow> nat \<Rightarrow> (usize \<times> uptr list) run" where
  "str_split_loop h delim parts max_parts count p 0 = undefined_behaviour ''string without a terminator''"
| "str_split_loop h delim parts max_parts count p (Suc fuel) = bindR (load_byte h p) (\<lambda>c.
     if c = 0 then ret (count, parts)
     else bindR (scan_while h (\<lambda>c. c = delim) p (Suc fuel)) (\<lambda>p1. bindR (load_byte h p1) (\<lambda>c1.
       if c1 = 0 then ret (count, parts)
       else if count < max_parts then
         bindR (arr_set parts count p1) (\<lambda>parts1.
         bindR (scan_while h (\<lambda>c. c \<noteq> 0 \<and> c \<noteq> delim) p1 (Suc fuel)) (\<lambda>p2.
         str_split_loop h delim parts1 max_parts (count + 1) p2 fuel))
       else ret (count, parts))))"

definition str_split :: "heap \<Rightarrow> uptr \<Rightarrow> u8 \<Rightarrow> uptr list cptr \<Rightarrow> usize \<Rightarrow> (usize \<times> uptr list cptr) run" where
  "str_split h s delim parts_out max_parts =
     require_msg (s \<noteq> null_ptr) ''str_split: s is NULL''
     (case parts_out of
        None \<Rightarrow> violation ''str_split: parts_out is NULL''
      | Some parts \<Rightarrow>
          if max_parts = 0 then ret (0, parts_out)
          else bindR (str_split_loop h delim parts max_parts 0 s (2 ^ 64 - unat s))
            (\<lambda>(count, parts'). ret (count, Some parts')))"

fun split_keep_loop :: "heap \<Rightarrow> u8 \<Rightarrow> uptr list \<Rightarrow> usize \<Rightarrow> usize \<Rightarrow> uptr \<Rightarrow> uptr \<Rightarrow> nat \<Rightarrow> (usize \<times> uptr list) run" where
  "split_keep_loop h delim parts max_parts count start p 0 = undefined_behaviour ''string without a terminator''"
| "split_keep_loop h delim parts max_parts count start p (Suc fuel) = bindR (load_byte h p) (\<lambda>c.
     if c = delim \<or> c = 0 then
       if count < max_parts then
         bindR (arr_set parts count start) (\<lambda>parts1.
           if c = 0 then ret (count + 1, parts1)
           else split_keep_loop h delim parts1 max_parts (count + 1) (p + 1) (p + 1) fuel)
       else ret (count, parts)
     else split_keep_loop h delim parts max_parts count start (p + 1) fuel)"

definition str_split_keep_empty :: "heap \<Rightarrow> uptr \<Rightarrow> u8 \<Rightarrow> uptr list cptr \<Rightarrow> usize \<Rightarrow> (usize \<times> uptr list cptr) run" where
  "str_split_keep_empty h s delim parts_out max_parts =
     require_msg (s \<noteq> null_ptr) ''str_split_keep_empty: s is NULL''
     (case parts_out of
        None \<Rightarrow> violation ''str_split_keep_empty: parts_out is NULL''
      | Some parts \<Rightarrow>
          if max_parts = 0 then ret (0, parts_out)
          else bindR (load_byte h s) (\<lambda>c.
            if c = 0 then ret (0, parts_out)
            else bindR (split_keep_loop h delim parts max_parts 0 s s (2 ^ 64 - unat s))
              (\<lambda>(count, parts'). ret (count, Some parts'))))"

text \<open>\<open>k\<close> is \<open>end - s\<close>: the loop stops at \<open>s\<close>.\<close>

fun scan_back :: "heap \<Rightarrow> (u8 \<Rightarrow> bool) \<Rightarrow> uptr \<Rightarrow> nat \<Rightarrow> uptr run" where
  "scan_back h P e 0 = ret e"
| "scan_back h P e (Suc k) = bindR (load_byte h (e - 1)) (\<lambda>c. if P c then scan_back h P (e - 1) k else ret e)"

text \<open>The body of both trimming functions, for the conditions of their two loops.\<close>

definition trim_inplace :: "heap \<Rightarrow> (u8 \<Rightarrow> bool) \<Rightarrow> (u8 \<Rightarrow> bool) \<Rightarrow> uptr \<Rightarrow> (uptr \<times> heap) run" where
  "trim_inplace h P Q s = bindR (load_byte h s) (\<lambda>c.
     if c = 0 then ret (s, h)
     else bindR (scan_while h P s (2 ^ 64 - unat s)) (\<lambda>start. bindR (load_byte h start) (\<lambda>c1.
       if c1 = 0 then bindR (write_bytes h s [0]) (\<lambda>h1. ret (s, h1))
       else bindR (if start > s then bindR (str_len h start) (\<lambda>len. mem_move h s start (len + 1)) else ret h) (\<lambda>h1.
         bindR (str_len h1 s) (\<lambda>len. bindR (scan_back h1 Q (s + len) (unat len)) (\<lambda>e.
         bindR (write_bytes h1 e [0]) (\<lambda>h2. ret (s, h2))))))))"

definition str_trim_char_inplace :: "heap \<Rightarrow> uptr \<Rightarrow> u8 \<Rightarrow> (uptr \<times> heap) run" where
  "str_trim_char_inplace h s trim_ch =
     require_msg (s \<noteq> null_ptr) ''str_trim_char_inplace: s is NULL''
     (trim_inplace h (\<lambda>c. c = trim_ch) (\<lambda>c. c = trim_ch) s)"

definition str_trim_whitespace_inplace :: "heap \<Rightarrow> uptr \<Rightarrow> (uptr \<times> heap) run" where
  "str_trim_whitespace_inplace h s =
     require_msg (s \<noteq> null_ptr) ''str_trim_whitespace_inplace: s is NULL''
     (trim_inplace h (\<lambda>c. c \<noteq> 0 \<and> split_is_ws c) split_is_ws s)"

subsection \<open>Pieces of a list\<close>

primrec fields :: "'a \<Rightarrow> 'a list \<Rightarrow> 'a list list" where
  "fields d [] = [[]]"
| "fields d (x # xs) = (if x = d then [] # fields d xs else (x # hd (fields d xs)) # tl (fields d xs))"

definition tokens :: "'a \<Rightarrow> 'a list \<Rightarrow> 'a list list" where
  "tokens d xs = filter (\<lambda>f. f \<noteq> []) (fields d xs)"

fun joined :: "'a list \<Rightarrow> 'a list list \<Rightarrow> 'a list" where
  "joined sep [] = []"
| "joined sep [x] = x"
| "joined sep (x # y # ys) = x @ sep @ joined sep (y # ys)"

lemma fields_nonempty [simp]: "fields d xs \<noteq> []"
  by (cases xs) simp_all

lemma fields_cons: "fields d xs = hd (fields d xs) # tl (fields d xs)"
  by simp

text \<open>The fields contain no delimiter, and together they are the string: this determines them.\<close>

lemma fields_clean: "\<forall>f \<in> set (fields d xs). d \<notin> set f"
proof (induction xs)
  case (Cons x xs)
  then show ?case by (cases "fields d xs") (auto dest: in_set_dropD)
qed simp

lemma joined_fields: "joined [d] (fields d xs) = xs"
proof (induction xs)
  case (Cons x xs)
  obtain f fs where "fields d xs = f # fs" by (cases "fields d xs") simp_all
  with Cons show ?case by (cases fs) auto
qed simp

lemma fields_clean_append: "d \<notin> set t \<Longrightarrow> fields d (t @ d # xs) = t # fields d xs" "d \<notin> set t \<Longrightarrow> fields d t = [t]"
  by (induction t) auto

lemma fields_joined: "fs \<noteq> [] \<Longrightarrow> \<forall>f \<in> set fs. d \<notin> set f \<Longrightarrow> fields d (joined [d] fs) = fs"
proof (induction "[d]" fs rule: joined.induct)
  case (3 f g fs)
  then show ?case using fields_clean_append(1) [of d f "joined [d] (g # fs)"] by simp
qed (simp_all add: fields_clean_append)

text \<open>Where the fields are.\<close>

fun field_ptrs :: "uptr \<Rightarrow> u8 list list \<Rightarrow> uptr list" where
  "field_ptrs s [] = []"
| "field_ptrs s (f # fs) = s # field_ptrs (s + of_nat (length f) + 1) fs"

fun token_ptrs :: "uptr \<Rightarrow> u8 list list \<Rightarrow> uptr list" where
  "token_ptrs s [] = []"
| "token_ptrs s (f # fs) = (if f = [] then [] else [s]) @ token_ptrs (s + of_nat (length f) + 1) fs"

lemma field_ptrs_length [simp]: "length (field_ptrs s fs) = length fs"
  by (induction fs arbitrary: s) simp_all

lemma token_ptrs_length: "length (token_ptrs s fs) = length (filter (\<lambda>f. f \<noteq> []) fs)"
  by (induction fs arbitrary: s) simp_all

text \<open>A piece of the string at \<open>q\<close> ends at a delimiter or at the end of the string.\<close>

definition field_at :: "heap \<Rightarrow> u8 \<Rightarrow> uptr \<Rightarrow> u8 list \<Rightarrow> bool" where
  "field_at h d q f \<longleftrightarrow> region h q f \<and> d \<notin> set f \<and> 0 \<notin> set f \<and>
     (h (q + of_nat (length f)) = Some d \<or> h (q + of_nat (length f)) = Some 0)"

lemma field_at_joined:
  "region h s (joined [d] (f # fs) @ [0]) \<Longrightarrow> \<forall>g \<in> set (f # fs). d \<notin> set g \<and> 0 \<notin> set g \<Longrightarrow>
   list_all2 (field_at h d) (field_ptrs s (f # fs)) (f # fs)"
proof (induction fs arbitrary: s f)
  case Nil
  then show ?case by (auto simp: field_at_def region_append)
next
  case (Cons g fs)
  have "region h s f" "h (s + of_nat (length f)) = Some d"
    "region h (s + of_nat (length f) + 1) (joined [d] (g # fs) @ [0])"
    using Cons.prems(1) by (auto simp: region_append)
  with Cons.IH [of "s + of_nat (length f) + 1" g] Cons.prems(2) show ?case by (auto simp: field_at_def)
qed

lemma field_at_fields:
  assumes "cstr h s xs"
  shows "list_all2 (field_at h d) (field_ptrs s (fields d xs)) (fields d xs)"
proof -
  obtain f fs where f: "fields d xs = f # fs" by (cases "fields d xs") simp_all
  have "set f \<subseteq> set (joined [d] (f # fs))" for f fs by (cases fs) auto
  have "set g \<subseteq> set (joined [d] gs)" if "g \<in> set gs" for g and gs :: "u8 list list"
    using that by (induction "[d]" gs rule: joined.induct) auto
  then have "\<forall>g \<in> set (fields d xs). d \<notin> set g \<and> 0 \<notin> set g"
    using fields_clean [of d xs] assms joined_fields [of d xs] by (fastforce simp: cstr_def)
  with field_at_joined [of h s d f fs] cstr_region(2) [OF assms] joined_fields [of d xs] f show ?thesis by simp
qed

lemma list_all2_tokens:
  "list_all2 P (field_ptrs s fs) fs \<Longrightarrow> list_all2 P (token_ptrs s fs) (filter (\<lambda>f. f \<noteq> []) fs)"
  by (induction fs arbitrary: s) auto

subsection \<open>The splitting loops\<close>

lemma scan_while_value:
  assumes "region h p (xs @ [0])" "length xs < fuel" "dropWhile P xs \<noteq> [] \<or> \<not> P 0"
  shows "scan_while h P p fuel = ret (p + of_nat (length (takeWhile P xs)))"
  using assms
proof (induction xs arbitrary: p fuel)
  case Nil
  then show ?case by (cases fuel) (simp_all add: load_byte_def)
next
  case (Cons x xs)
  then obtain f where "fuel = Suc f" by (cases fuel) auto
  with Cons show ?case by (auto simp: load_byte_def add.assoc)
qed

lemma region_dropWhile:
  "region h p (xs @ [0]) \<Longrightarrow> region h (p + of_nat (length (takeWhile P xs))) (dropWhile P xs @ [0])"
  using region_append [of h p "takeWhile P xs" "dropWhile P xs @ [0]"] takeWhile_dropWhile_id [of P xs]
  by (metis append_assoc)

lemma token_ptrs_skip:
  "token_ptrs p (fields d xs) =
     token_ptrs (p + of_nat (length (takeWhile (\<lambda>c. c = d) xs))) (fields d (dropWhile (\<lambda>c. c = d) xs))"
  by (induction xs arbitrary: p) (simp_all add: add.assoc add.commute)

lemma fields_takeWhile:
  "fields d xs = (let t = takeWhile (\<lambda>c. c \<noteq> d) xs in
     case dropWhile (\<lambda>c. c \<noteq> d) xs of [] \<Rightarrow> [t] | y # ys \<Rightarrow> t # fields d ys)"
  by (induction xs) (auto simp: Let_def simp del: dropWhile_eq_Nil_conv split: list.splits)

text \<open>The first token and what follows it.\<close>

lemma tokens_step:
  assumes "xs \<noteq> []" "hd xs \<noteq> d" "t = takeWhile (\<lambda>c. c \<noteq> d) xs" "r = dropWhile (\<lambda>c. c \<noteq> d) xs"
  shows "token_ptrs p (fields d xs) = p # token_ptrs (p + of_nat (length t)) (fields d r)" "tokens d xs = t # tokens d r"
    "t \<noteq> []" "length r < length xs" "\<forall>c \<in> set t. c \<noteq> d"
proof -
  have f: "fields d xs = (case r of [] \<Rightarrow> [t] | y # ys \<Rightarrow> t # fields d ys)"
    unfolding assms(3,4) using fields_takeWhile [of d xs] by (simp only: Let_def)
  show t: "t \<noteq> []" using assms by (cases xs) auto
  have r: "r = [] \<or> (\<exists>ys. r = d # ys)"
    using hd_dropWhile [of "\<lambda>c. c \<noteq> d" xs] unfolding assms(4) by (cases "dropWhile (\<lambda>c. c \<noteq> d) xs") auto
  then show "token_ptrs p (fields d xs) = p # token_ptrs (p + of_nat (length t)) (fields d r)" "tokens d xs = t # tokens d r"
    using f t by (auto simp: tokens_def)
  have "length t + length r = length xs" unfolding assms(3,4) by (metis length_append takeWhile_dropWhile_id)
  with t show "length r < length xs" by (cases t) auto
  show "\<forall>c \<in> set t. c \<noteq> d" using assms(3) by (auto dest: set_takeWhileD)
qed

lemma tokens_skip: "tokens d xs = tokens d (dropWhile (\<lambda>c. c = d) xs)"
  by (induction xs) (simp_all add: tokens_def)

lemma dropWhile_in_set: "0 \<notin> set xs \<Longrightarrow> 0 \<notin> set (dropWhile P xs)"
  by (auto dest: set_dropWhileD)

lemma scan_delim:
  assumes "region h p (xs @ [0])" "0 \<notin> set xs" "length xs < fuel" "xs \<noteq> []"
  shows "scan_while h (\<lambda>c. c = d) p fuel = ret (p + of_nat (length (takeWhile (\<lambda>c. c = d) xs)))"
proof (rule scan_while_value [OF assms(1,3)])
  show "dropWhile (\<lambda>c. c = d) xs \<noteq> [] \<or> 0 \<noteq> d" using assms(2,4) by (cases xs) auto
qed

lemma scan_token:
  assumes "region h p (xs @ [0])" "0 \<notin> set xs" "length xs < fuel"
  shows "scan_while h (\<lambda>c. c \<noteq> 0 \<and> c \<noteq> d) p fuel = ret (p + of_nat (length (takeWhile (\<lambda>c. c \<noteq> d) xs)))"
proof -
  have "takeWhile (\<lambda>c. c \<noteq> 0 \<and> c \<noteq> d) xs = takeWhile (\<lambda>c. c \<noteq> d) xs"
    using assms(2) by (intro takeWhile_cong) auto
  with scan_while_value [OF assms(1,3), of "\<lambda>c. c \<noteq> 0 \<and> c \<noteq> d"] show ?thesis by simp
qed

lemma load_head: "region h p (xs @ [0]) \<Longrightarrow> load_byte h p = ret (case xs of [] \<Rightarrow> 0 | x # _ \<Rightarrow> x)"
  by (cases xs) (simp_all add: load_byte_def)

text \<open>The start of a round: it ends the loop \<open>A\<close>, or goes on at the first token.\<close>

lemma token_scan:
  assumes "region h p (xs @ [0])" "0 \<notin> set xs" "length xs < fuel"
  shows "bindR (load_byte h p) (\<lambda>c. if c = 0 then A
      else bindR (scan_while h (\<lambda>c. c = d) p fuel) (\<lambda>q. bindR (load_byte h q) (\<lambda>c1. if c1 = 0 then A else F q))) =
    (if dropWhile (\<lambda>c. c = d) xs = [] then A else F (p + of_nat (length (takeWhile (\<lambda>c. c = d) xs))))"
proof (cases xs)
  case Nil
  then show ?thesis using assms(1) by (simp add: load_byte_def)
next
  case (Cons x xt)
  let ?q = "p + of_nat (length (takeWhile (\<lambda>c. c = d) xs))"
  have "scan_while h (\<lambda>c. c = d) p fuel = ret ?q" using scan_delim [OF assms, of d] Cons by simp
  moreover have "load_byte h p = ret x" "x \<noteq> 0" using Cons assms(1,2) by (auto simp: load_byte_def)
  moreover have "load_byte h ?q = ret (case dropWhile (\<lambda>c. c = d) xs of [] \<Rightarrow> 0 | y # _ \<Rightarrow> y)"
    by (rule load_head) (rule region_dropWhile [OF assms(1)])
  moreover have "hd (dropWhile (\<lambda>c. c = d) xs) \<noteq> 0" if "dropWhile (\<lambda>c. c = d) xs \<noteq> []"
    using dropWhile_in_set [OF assms(2), of "\<lambda>c. c = d"] that by (metis list.set_sel(1))
  ultimately show ?thesis by (cases "dropWhile (\<lambda>c. c = d) xs") (simp_all del: dropWhile_eq_Nil_conv)
qed

lemma drop_replaced: "length qs < n \<Longrightarrow> drop n ((qs @ [a]) @ rest) = drop n (qs @ b # rest)"
  by (cases "n - length qs") auto

lemma str_split_loop_value:
  assumes "region h p (xs @ [0])" "0 \<notin> set xs" "length xs < fuel"
    "unat m \<le> length (qs @ rest)" "length qs \<le> unat m" "ps = take (unat m) (qs @ token_ptrs p (fields d xs))"
  shows "str_split_loop h d (qs @ rest) m (of_nat (length qs)) p fuel = ret (of_nat (length ps), ps @ drop (length ps) (qs @ rest))"
  using assms
proof (induction fuel arbitrary: xs p qs rest)
  case (Suc fuel)
  define ys where "ys = dropWhile (\<lambda>c. c = d) xs"
  define p1 where "p1 = p + of_nat (length (takeWhile (\<lambda>c. c = d) xs))"
  have ys: "region h p1 (ys @ [0])" "0 \<notin> set ys"
    unfolding ys_def p1_def using region_dropWhile [OF Suc.prems(1)] dropWhile_in_set [OF Suc.prems(2)] by blast+
  have k: "unat (of_nat (length qs) :: usize) = length qs"
    using Suc.prems(5) usize_bound [of m] by (intro unat_of_small) simp
  have ps: "ps = take (unat m) (qs @ token_ptrs p1 (fields d ys))"
    using Suc.prems(6) token_ptrs_skip [of p d xs] by (simp add: ys_def p1_def)
  have start: "str_split_loop h d (qs @ rest) m (of_nat (length qs)) p (Suc fuel) =
      (if ys = [] then ret (of_nat (length qs), qs @ rest)
       else if (of_nat (length qs)) < m then
         bindR (arr_set (qs @ rest) (of_nat (length qs)) p1) (\<lambda>parts1.
         bindR (scan_while h (\<lambda>c. c \<noteq> 0 \<and> c \<noteq> d) p1 (Suc fuel)) (\<lambda>p2.
         str_split_loop h d parts1 m (of_nat (length qs) + 1) p2 fuel))
       else ret (of_nat (length qs), qs @ rest))"
    unfolding str_split_loop.simps token_scan [OF Suc.prems(1-3)] by (simp only: ys_def p1_def)
  show ?case
  proof (cases ys)
    case Nil
    then have "ps = qs" using ps Suc.prems(5) by simp
    with Nil start show ?thesis by simp
  next
    case (Cons y yt)
    then have y: "y \<noteq> 0" "y \<noteq> d" using ys(2) hd_dropWhile [of "\<lambda>c. c = d" xs] by (auto simp: ys_def)
    have le: "length ys < Suc fuel"
      using length_dropWhile_le [of "\<lambda>c. c = d" xs] Suc.prems(3) unfolding ys_def by linarith
    define t where "t = takeWhile (\<lambda>c. c \<noteq> d) ys"
    define r where "r = dropWhile (\<lambda>c. c \<noteq> d) ys"
    have "ys \<noteq> []" "hd ys \<noteq> d" using Cons y by simp_all
    note step = tokens_step [OF this t_def r_def]
    have r: "region h (p1 + of_nat (length t)) (r @ [0])" "0 \<notin> set r"
      unfolding r_def t_def using region_dropWhile [OF ys(1)] dropWhile_in_set [OF ys(2)] by blast+
    have "scan_while h (\<lambda>c. c \<noteq> 0 \<and> c \<noteq> d) p1 (Suc fuel) = ret (p1 + of_nat (length t))"
      using scan_token [OF ys le] by (simp add: t_def)
    then have val: "str_split_loop h d (qs @ rest) m (of_nat (length qs)) p (Suc fuel) =
        (if length qs < unat m then
           bindR (arr_set (qs @ rest) (of_nat (length qs)) p1) (\<lambda>parts1.
             str_split_loop h d parts1 m (of_nat (length qs) + 1) (p1 + of_nat (length t)) fuel)
         else ret (of_nat (length qs), qs @ rest))"
      unfolding start using Cons k by (simp add: word_less_nat_alt del: scan_while.simps)
    show ?thesis
    proof (cases "length qs < unat m")
      case True
      then obtain q rest' where rest: "rest = q # rest'" using Suc.prems(4) by (cases rest) auto
      have ps': "ps = take (unat m) ((qs @ [p1]) @ token_ptrs (p1 + of_nat (length t)) (fields d r))"
        using ps step(1) [of p1] by simp
      have "str_split_loop h d (qs @ rest) m (of_nat (length qs)) p (Suc fuel) =
          str_split_loop h d ((qs @ [p1]) @ rest') m (of_nat (length (qs @ [p1]))) (p1 + of_nat (length t)) fuel"
        unfolding val using True k rest Suc.prems(4) by (simp add: list_update_append add.commute)
      also have "\<dots> = ret (of_nat (length ps), ps @ drop (length ps) ((qs @ [p1]) @ rest'))"
        using step(4) le True rest Suc.prems(4) by (intro Suc.IH [OF r _ _ _ ps']) simp_all
      also have "drop (length ps) ((qs @ [p1]) @ rest') = drop (length ps) (qs @ rest)"
        unfolding rest by (rule drop_replaced) (use ps' True in simp)
      finally show ?thesis .
    next
      case False
      then have "ps = qs" using ps Suc.prems(5) by simp
      with False val show ?thesis by simp
    qed
  qed
qed simp

lemma str_split_value:
  assumes "cstr h s xs" "unat m \<le> length parts" "ps = take (unat m) (token_ptrs s (fields d xs))"
  shows "str_split h s d (Some parts) m = ret (of_nat (length ps), Some (ps @ drop (length ps) parts))"
proof -
  have "str_split_loop h d ([] @ parts) m (of_nat (length ([] :: uptr list))) s (2 ^ 64 - unat s) =
      ret (of_nat (length ps), ps @ drop (length ps) ([] @ parts))"
    using assms cstr_bounds [OF assms(1)] by (intro str_split_loop_value [of _ _ xs]) (simp_all add: cstr_def)
  then show ?thesis using assms by (simp add: str_split_def cstr_def null_ptr_def)
qed

lemma split_keep_loop_value:
  assumes "region h p (xs @ [0])" "0 \<notin> set xs" "length xs < fuel"
    "unat m \<le> length (qs @ rest)" "length qs \<le> unat m" "p = start + of_nat (length cur)"
    "fields d xs = f # fs" "ps = take (unat m) (qs @ field_ptrs start ((cur @ f) # fs))"
  shows "split_keep_loop h d (qs @ rest) m (of_nat (length qs)) start p fuel =
    ret (of_nat (length ps), ps @ drop (length ps) (qs @ rest))"
  using assms
proof (induction fuel arbitrary: xs p qs rest start cur f fs)
  case (Suc fuel)
  have k: "unat (of_nat (length qs) :: usize) = length qs"
    using Suc.prems(5) usize_bound [of m] by (intro unat_of_small) simp
  show ?case
  proof (cases "length qs < unat m \<or> (\<exists>x xt. xs = x # xt \<and> x \<noteq> d)")
    case False
    then have "ps = qs" using Suc.prems(5,8) by simp
    with False k Suc.prems(2) show ?thesis
      by (cases xs) (auto simp: load_head [OF Suc.prems(1)] word_less_nat_alt)
  next
    case True
    show ?thesis
    proof (cases xs)
      case Nil
      with True obtain q rest' where "rest = q # rest'" "length qs < unat m" using Suc.prems(4) by (cases rest) auto
      moreover from this Nil Suc.prems(7,8) have "ps = qs @ [start]" by simp
      ultimately show ?thesis using Nil k
        by (simp add: load_head [OF Suc.prems(1)] word_less_nat_alt list_update_append add.commute)
    next
      case (Cons x xt)
      have r: "region h (p + 1) (xt @ [0])" using Suc.prems(1) Cons by simp
      have x0: "x \<noteq> 0" "0 \<notin> set xt" using Suc.prems(2) Cons by auto
      show ?thesis
      proof (cases "x = d")
        case False
        obtain g gs where g: "fields d xt = g # gs" by (cases "fields d xt") simp_all
        with False Cons Suc.prems(7) have "f = x # g" "fs = gs" by simp_all
        with Suc.IH [OF r x0(2) _ Suc.prems(4,5), of start "cur @ [x]" g gs] Suc.prems False x0 Cons g show ?thesis
          by (simp add: load_byte_def add.assoc)
      next
        case x: True
        with Cons Suc.prems(7) have f: "f = []" "fs = fields d xt" by auto
        obtain g gs where g: "fields d xt = g # gs" by (cases "fields d xt") simp_all
        from x Cons True obtain q rest' where rest: "rest = q # rest'" "length qs < unat m" using Suc.prems(4) by (cases rest) auto
        have ps: "ps = take (unat m) ((qs @ [start]) @ field_ptrs (p + 1) (([] @ g) # gs))"
          using Suc.prems(6,8) f g by simp
        have "split_keep_loop h d (qs @ rest) m (of_nat (length qs)) start p (Suc fuel) =
            split_keep_loop h d ((qs @ [start]) @ rest') m (of_nat (length (qs @ [start]))) (p + 1) (p + 1) fuel"
          using rest k Cons x x0 by (simp add: load_head [OF Suc.prems(1)] word_less_nat_alt list_update_append add.commute)
        also have "\<dots> = ret (of_nat (length ps), ps @ drop (length ps) ((qs @ [start]) @ rest'))"
          using rest Suc.prems(3,4) Cons by (intro Suc.IH [OF r x0(2) _ _ _ _ g ps]) simp_all
        also have "drop (length ps) ((qs @ [start]) @ rest') = drop (length ps) (qs @ rest)"
          unfolding rest(1) by (rule drop_replaced) (use ps rest(2) in simp)
        finally show ?thesis .
      qed
    qed
  qed
qed simp

lemma str_split_keep_empty_value:
  assumes "cstr h s xs" "unat m \<le> length parts" "xs \<noteq> []" "ps = take (unat m) (field_ptrs s (fields d xs))"
  shows "str_split_keep_empty h s d (Some parts) m = ret (of_nat (length ps), Some (ps @ drop (length ps) parts))"
proof -
  have "split_keep_loop h d ([] @ parts) m (of_nat (length ([] :: uptr list))) s s (2 ^ 64 - unat s) =
      ret (of_nat (length ps), ps @ drop (length ps) ([] @ parts))"
    using assms cstr_bounds [OF assms(1)]
    by (intro split_keep_loop_value [where cur = "[]" and f = "hd (fields d xs)" and fs = "tl (fields d xs)" and xs = xs])
       (simp_all add: cstr_def)
  then show ?thesis using assms load_head [OF cstr_region(2) [OF assms(1)]]
    by (cases xs) (auto simp: str_split_keep_empty_def cstr_def null_ptr_def)
qed

subsection \<open>Trimming\<close>

definition trimmed :: "('a \<Rightarrow> bool) \<Rightarrow> 'a list \<Rightarrow> 'a list" where
  "trimmed P xs = rev (dropWhile P (rev (dropWhile P xs)))"

text \<open>What is left is the part of the string between the bytes that are trimmed at both ends.\<close>

lemma trimmed_parts:
  "\<exists>pre post. xs = pre @ trimmed P xs @ post \<and> (\<forall>c \<in> set (pre @ post). P c) \<and>
     (trimmed P xs \<noteq> [] \<longrightarrow> \<not> P (hd (trimmed P xs)) \<and> \<not> P (last (trimmed P xs)))"
proof -
  let ?ys = "dropWhile P xs"
  have r: "?ys = trimmed P xs @ rev (takeWhile P (rev ?ys))"
    unfolding trimmed_def rev_append [symmetric] takeWhile_dropWhile_id by simp
  have "\<not> P (hd (trimmed P xs))" if "trimmed P xs \<noteq> []"
  proof -
    have "hd ?ys = hd (trimmed P xs)" using r that by (metis hd_append2)
    moreover have "?ys \<noteq> []" using r that by (metis append_is_Nil_conv)
    ultimately show ?thesis using hd_dropWhile [of P xs] by simp
  qed
  moreover have "\<not> P (last (trimmed P xs))" if "trimmed P xs \<noteq> []"
    using hd_dropWhile [of P "rev ?ys"] that by (simp add: trimmed_def last_rev)
  ultimately show ?thesis using r
    by (intro exI [of _ "takeWhile P xs"] exI [of _ "rev (takeWhile P (rev ?ys))"])
       (auto dest: set_takeWhileD simp flip: r)
qed

lemma scan_back_value:
  "region h s ys \<Longrightarrow> scan_back h Q (s + of_nat (length ys)) (length ys) = ret (s + of_nat (length (dropWhile Q (rev ys))))"
proof (induction ys rule: rev_induct)
  case (snoc y ys)
  have "s + of_nat (length (ys @ [y])) - 1 = s + (of_nat (length ys) :: usize)" by simp
  with snoc show ?case by (simp add: region_append load_byte_def add.commute)
qed simp

lemma cstr_whole: "cstr h s xs \<Longrightarrow> object h s (xs @ [0]) (of_nat (length xs) + 1)"
  using cstr_len_Suc [of h s xs] by (simp add: cstr_def object_def)

lemma cut_string:
  assumes "cstr h s (xs @ ys)"
  shows "\<exists>h'. write_bytes h (s + of_nat (length xs)) [0] = ret h' \<and> cstr h' s xs \<and>
    (\<forall>q. q \<notin> span s (Suc (length (xs @ ys))) \<longrightarrow> h' q = h q)"
proof -
  note len = cstr_len_Suc [OF assms]
  obtain b zs where b: "(xs @ ys) @ [0] = xs @ [b] @ zs" by (cases ys) auto
  have "object h s (xs @ [b] @ zs) (of_nat (length (xs @ ys)) + 1)" using cstr_whole [OF assms] by (simp only: b)
  from object_splice [OF this, of "[0]"] obtain h' where h': "write_bytes h (s + of_nat (length xs)) [0] = ret h'"
    "object h' s (xs @ [0] @ zs) (of_nat (length (xs @ ys)) + 1)"
    "\<forall>q. q \<notin> span s (unat (of_nat (length (xs @ ys)) + 1 :: usize)) \<longrightarrow> h' q = h q" by auto
  moreover have "cstr h' s xs" using h'(2) assms by (intro object_cstr [of _ _ _ zs]) (simp_all add: cstr_def)
  ultimately show ?thesis unfolding len by blast
qed

text \<open>The move of the rest of the string to its start.\<close>

lemma move_to_start:
  assumes "cstr h s (pre @ ys)"
  shows "\<exists>h1. (if s + of_nat (length pre) > s then
        bindR (str_len h (s + of_nat (length pre))) (\<lambda>len. mem_move h s (s + of_nat (length pre)) (len + 1)) else ret h) = ret h1 \<and>
      cstr h1 s ys \<and> (\<forall>q. q \<notin> span s (Suc (length (pre @ ys))) \<longrightarrow> h1 q = h q)"
proof (cases "pre = []")
  case True
  then show ?thesis using assms by simp
next
  case False
  let ?start = "s + of_nat (length pre)"
  have start: "cstr h ?start ys" using cstr_drop [OF assms, of "length pre"] by simp
  have "unat ?start = unat s + length pre" using assms by (intro unat_ptr_plus) (auto simp: cstr_def)
  then have gt: "?start > s" using False by (simp add: word_less_nat_alt)
  define zs where "zs = take (Suc (length ys)) ((pre @ ys) @ [0])"
  have "region h s zs" unfolding zs_def using cstr_region(2) [OF assms] by (rule region_take)
  moreover have "region h ?start (ys @ [0])" "?start \<noteq> 0" "s \<noteq> 0" "fits s (length (ys @ [0]))" "0 \<notin> set ys"
    using start assms by (auto simp: cstr_def fits_def)
  moreover have "unat (of_nat (length ys) + 1 :: usize) = length (ys @ [0])" using cstr_len_Suc [OF start] by simp
  moreover have "length zs = length (ys @ [0])" by (simp add: zs_def)
  ultimately obtain h1 where h1: "mem_move h s ?start (of_nat (length ys) + 1) = ret h1" "region h1 s (ys @ [0])"
    "\<forall>q. q \<notin> span s (length (ys @ [0])) \<longrightarrow> h1 q = h q"
    using mem_move_region [of h ?start "ys @ [0]" s zs "of_nat (length ys) + 1"] by blast
  moreover have "cstr h1 s ys" using h1(2) assms by (auto simp: cstr_def fits_def)
  moreover have "span s (length (ys @ [0])) \<subseteq> span s (Suc (length (pre @ ys)))" by (auto simp: span_def)
  ultimately show ?thesis using gt str_len_value [OF start] by auto
qed

lemma trim_inplace_value:
  assumes "cstr h s xs" "\<And>c. c \<noteq> 0 \<Longrightarrow> P c = Q c" "xs \<noteq> [] \<Longrightarrow> dropWhile P xs \<noteq> [] \<or> \<not> P 0"
  shows "\<exists>h'. trim_inplace h P Q s = ret (s, h') \<and> cstr h' s (trimmed Q xs) \<and>
    (\<forall>q. q \<notin> span s (Suc (length xs)) \<longrightarrow> h' q = h q)"
proof (cases "xs = []")
  case True
  then show ?thesis using assms(1) load_head [OF cstr_region(2) [OF assms(1)]]
    by (auto simp: trim_inplace_def trimmed_def)
next
  case False
  define pre where "pre = takeWhile P xs"
  define ys where "ys = dropWhile P xs"
  have xs: "xs = pre @ ys" by (simp add: pre_def ys_def)
  have "dropWhile P xs = dropWhile Q xs" using assms(1,2) by (intro dropWhile_cong refl) (metis cstr_def)
  then have t: "trimmed Q xs = rev (dropWhile Q (rev ys))" by (simp add: trimmed_def ys_def)
  have scan: "scan_while h P s (2 ^ 64 - unat s) = ret (s + of_nat (length pre))"
    unfolding pre_def using assms(3) False cstr_bounds [OF assms(1)] cstr_region(2) [OF assms(1)] by (intro scan_while_value) auto
  have "cstr h (s + of_nat (length pre)) ys" using cstr_drop [OF assms(1), of "length pre"] xs by simp
  note c1 = load_head [OF cstr_region(2) [OF this]]
  obtain x xt where x: "xs = x # xt" "x \<noteq> 0" using False assms(1) by (cases xs) (auto simp: cstr_def)
  have c: "load_byte h s = ret x" using load_head [OF cstr_region(2) [OF assms(1)]] x(1) by simp
  show ?thesis
  proof (cases ys)
    case Nil
    with cut_string [of h s "[]" xs] assms(1) scan c c1 x t show ?thesis by (auto simp: trim_inplace_def)
  next
    case (Cons y yt)
    then have y: "y \<noteq> 0" using assms(1) xs by (auto simp: cstr_def)
    from move_to_start [of h s pre ys] assms(1) xs obtain h1 where
      h1: "(if s + of_nat (length pre) > s then
        bindR (str_len h (s + of_nat (length pre))) (\<lambda>len. mem_move h s (s + of_nat (length pre)) (len + 1)) else ret h) = ret h1"
        "cstr h1 s ys" "\<forall>q. q \<notin> span s (Suc (length xs)) \<longrightarrow> h1 q = h q" by auto
    have ysp: "ys = trimmed Q xs @ rev (takeWhile Q (rev ys))"
      unfolding t rev_append [symmetric] takeWhile_dropWhile_id by simp
    with cut_string [of h1 s "trimmed Q xs" "rev (takeWhile Q (rev ys))"] h1(2) obtain h2 where
      h2: "write_bytes h1 (s + of_nat (length (trimmed Q xs))) [0] = ret h2" "cstr h2 s (trimmed Q xs)"
        "\<forall>q. q \<notin> span s (Suc (length ys)) \<longrightarrow> h2 q = h1 q" by auto
    have "scan_back h1 Q (s + of_nat (length ys)) (unat (of_nat (length ys) :: usize)) = ret (s + of_nat (length (trimmed Q xs)))"
      using scan_back_value [OF cstr_region(1) [OF h1(2)], of Q] cstr_bounds [OF h1(2)] by (simp add: t)
    moreover have "span s (Suc (length ys)) \<subseteq> span s (Suc (length xs))" using xs by (auto simp: span_def)
    ultimately show ?thesis
      using h2 h1(3) scan c c1 x(2) y Cons
      by (auto simp: trim_inplace_def h1(1) str_len_value [OF h1(2)])
  qed
qed

lemma str_trim_char_inplace_value:
  assumes "cstr h s xs"
  shows "\<exists>h'. str_trim_char_inplace h s c = ret (s, h') \<and> cstr h' s (trimmed (\<lambda>x. x = c) xs) \<and>
    (\<forall>q. q \<notin> span s (Suc (length xs)) \<longrightarrow> h' q = h q)"
proof -
  have "dropWhile (\<lambda>x. x = c) xs \<noteq> [] \<or> 0 \<noteq> c" if "xs \<noteq> []" using assms that by (cases xs) (auto simp: cstr_def)
  with trim_inplace_value [OF assms, of "\<lambda>x. x = c" "\<lambda>x. x = c"] assms show ?thesis
    by (auto simp: str_trim_char_inplace_def cstr_def null_ptr_def)
qed

lemma str_trim_whitespace_inplace_value:
  assumes "cstr h s xs"
  shows "\<exists>h'. str_trim_whitespace_inplace h s = ret (s, h') \<and> cstr h' s (trimmed split_is_ws xs) \<and>
    (\<forall>q. q \<notin> span s (Suc (length xs)) \<longrightarrow> h' q = h q)"
  using trim_inplace_value [OF assms, of "\<lambda>c. c \<noteq> 0 \<and> split_is_ws c" split_is_ws] assms
  by (auto simp: str_trim_whitespace_inplace_def cstr_def null_ptr_def)

subsection \<open>Splitting and trimming\<close>

text \<open>C28: \<open>str_split\<close> finds the nonempty pieces between the delimiters, in order, and \<open>str_split_keep_empty\<close>, on a
  string that is not empty, all of them: both write a pointer to each piece, up to \<open>max_parts\<close>, and return their
  number. The pieces put together with the delimiter are the string.\<close>

theorem str_split_correct:
  assumes "cstr h s xs" "unat max_parts \<le> length parts"
  shows "(\<exists>ps. str_split h s d (Some parts) max_parts = ret (of_nat (length ps), Some (ps @ drop (length ps) parts)) \<and>
      list_all2 (field_at h d) ps (take (unat max_parts) (filter (\<lambda>f. f \<noteq> []) (fields d xs)))) \<and>
    (xs \<noteq> [] \<longrightarrow> (\<exists>ps. str_split_keep_empty h s d (Some parts) max_parts =
        ret (of_nat (length ps), Some (ps @ drop (length ps) parts)) \<and>
      list_all2 (field_at h d) ps (take (unat max_parts) (fields d xs)))) \<and>
    joined [d] (fields d xs) = xs \<and> (\<forall>f \<in> set (fields d xs). d \<notin> set f)"
proof -
  note f = field_at_fields [OF assms(1), of d]
  show ?thesis
  proof (intro conjI impI)
    show "\<exists>ps. str_split h s d (Some parts) max_parts = ret (of_nat (length ps), Some (ps @ drop (length ps) parts)) \<and>
        list_all2 (field_at h d) ps (take (unat max_parts) (filter (\<lambda>f. f \<noteq> []) (fields d xs)))"
      by (intro exI conjI) (rule str_split_value [OF assms refl], rule list_all2_takeI [OF list_all2_tokens [OF f]])
    show "\<exists>ps. str_split_keep_empty h s d (Some parts) max_parts = ret (of_nat (length ps), Some (ps @ drop (length ps) parts)) \<and>
        list_all2 (field_at h d) ps (take (unat max_parts) (fields d xs))" if "xs \<noteq> []"
      by (intro exI conjI) (rule str_split_keep_empty_value [OF assms that refl], rule list_all2_takeI [OF f])
  qed (rule joined_fields, rule fields_clean)
qed

theorem str_split_correct_witness:
  "\<exists>ps. str_split [64 \<mapsto> 97, 65 \<mapsto> 44, 66 \<mapsto> 44, 67 \<mapsto> 98, 68 \<mapsto> 0] 64 44 (Some [0, 0]) 2 =
       ret (of_nat (length ps), Some (ps @ drop (length ps) [0, 0])) \<and>
     list_all2 (field_at [64 \<mapsto> 97, 65 \<mapsto> 44, 66 \<mapsto> 44, 67 \<mapsto> 98, 68 \<mapsto> 0] 44) ps [[97], [98]]"
  using str_split_correct [of "[64 \<mapsto> 97, 65 \<mapsto> 44, 66 \<mapsto> 44, 67 \<mapsto> 98, 68 \<mapsto> 0]" 64 "[97, 44, 44, 98]" 2 "[0, 0]" 44]
  by (simp add: cstr_def fits_def)

text \<open>Trimming in place leaves the longest part of the string that neither begins nor ends with white space,
  at the same address and with its terminator, and changes no byte outside the string.\<close>

theorem str_trim_whitespace_correct:
  assumes "cstr h s xs"
  shows "\<exists>h' pre ys post. str_trim_whitespace_inplace h s = ret (s, h') \<and> cstr h' s ys \<and> xs = pre @ ys @ post \<and>
    (\<forall>c \<in> set (pre @ post). split_is_ws c) \<and> (ys \<noteq> [] \<longrightarrow> \<not> split_is_ws (hd ys) \<and> \<not> split_is_ws (last ys)) \<and>
    (\<forall>q. q \<notin> span s (Suc (length xs)) \<longrightarrow> h' q = h q)"
proof -
  from str_trim_whitespace_inplace_value [OF assms] obtain h' where "str_trim_whitespace_inplace h s = ret (s, h')"
    "cstr h' s (trimmed split_is_ws xs)" "\<forall>q. q \<notin> span s (Suc (length xs)) \<longrightarrow> h' q = h q" by blast
  moreover from trimmed_parts [of xs split_is_ws] obtain pre post where "xs = pre @ trimmed split_is_ws xs @ post"
    "\<forall>c \<in> set (pre @ post). split_is_ws c"
    "trimmed split_is_ws xs \<noteq> [] \<longrightarrow> \<not> split_is_ws (hd (trimmed split_is_ws xs)) \<and> \<not> split_is_ws (last (trimmed split_is_ws xs))" by blast
  ultimately show ?thesis by blast
qed

theorem str_trim_whitespace_correct_witness:
  "\<exists>h'. str_trim_whitespace_inplace [64 \<mapsto> 32, 65 \<mapsto> 97, 66 \<mapsto> 10, 67 \<mapsto> 0] 64 = ret (64, h')"
  using str_trim_whitespace_correct [of "[64 \<mapsto> 32, 65 \<mapsto> 97, 66 \<mapsto> 10, 67 \<mapsto> 0]" 64 "[32, 97, 10]"]
  by (auto simp: cstr_def fits_def)

end
