(* ===== verification/Canon_Join.thy ===== *)
theory Canon_Join
  imports Canon_Split
begin

section \<open>Joining C strings (util/str/str_join.h)\<close>

text \<open>
  Joining into a buffer or into allocated memory, splitting into a scratch buffer, and the two together.
  The lemmas show that the result is \<open>joined\<close> of the parts, where they are not NULL and the result fits,
  and the empty string otherwise; that the parts written to the scratch buffer are the tokens of the string;
  and what the composition does.
\<close>

subsection \<open>The functions\<close>

text \<open>\<open>k\<close> is \<open>count - i\<close>; \<open>put_empty\<close> is the failure of the function.\<close>

definition put_empty :: "heap \<Rightarrow> uptr \<Rightarrow> (bool \<times> heap) run" where
  "put_empty h dest = bindR (write_bytes h dest [0]) (\<lambda>h1. ret (False, h1))"

fun str_join_loop :: "heap \<Rightarrow> uptr \<Rightarrow> usize \<Rightarrow> uptr list \<Rightarrow> usize \<Rightarrow> uptr \<Rightarrow> usize \<Rightarrow> usize \<Rightarrow> usize \<Rightarrow> nat \<Rightarrow> (bool \<times> heap) run" where
  "str_join_loop h dest dest_size parts count sp sep_len i pos 0 =
     bindR (write_bytes h (dest + pos) [0]) (\<lambda>h1. ret (True, h1))"
| "str_join_loop h dest dest_size parts count sp sep_len i pos (Suc k) =
     bindR (arr_get parts i) (\<lambda>part.
       if part = null_ptr then put_empty h dest
       else bindR (str_len h part) (\<lambda>part_len.
         let with_sep = i + 1 < count \<and> sep_len > 0;
             needed = part_len + 1 + (if with_sep then sep_len else 0) in
         if pos + needed > dest_size then put_empty h dest
         else bindR (mem_copy h (dest + pos) part part_len) (\<lambda>h1.
           if with_sep then
             bindR (mem_copy h1 (dest + (pos + part_len)) sp sep_len) (\<lambda>h2.
             str_join_loop h2 dest dest_size parts count sp sep_len (i + 1) (pos + part_len + sep_len) k)
           else str_join_loop h1 dest dest_size parts count sp sep_len (i + 1) (pos + part_len) k)))"

text \<open>\<open>lit\<close> is the address of the literal \<open>""\<close>.\<close>

definition str_join :: "uptr \<Rightarrow> heap \<Rightarrow> uptr \<Rightarrow> usize \<Rightarrow> uptr list cptr \<Rightarrow> usize \<Rightarrow> uptr \<Rightarrow> (bool \<times> heap) run" where
  "str_join lit h dest dest_size parts count sep =
     require_msg (dest \<noteq> null_ptr) ''str_join: dest is NULL''
     (require_msg (dest_size > 0) ''str_join: dest_size is 0''
     (if count = 0 then bindR (write_bytes h dest [0]) (\<lambda>h1. ret (True, h1))
      else case parts of
        None \<Rightarrow> violation ''str_join: parts is NULL''
      | Some ps \<Rightarrow>
          let sp = (if sep = null_ptr then lit else sep) in
          bindR (str_len h sp) (\<lambda>sep_len.
          str_join_loop h dest dest_size ps count sp sep_len 0 0 (unat count))))"

fun join_size_loop :: "heap \<Rightarrow> uptr list \<Rightarrow> usize \<Rightarrow> usize \<Rightarrow> usize \<Rightarrow> usize \<Rightarrow> nat \<Rightarrow> usize option run" where
  "join_size_loop h parts count sep_len i total_len 0 = ret (Some total_len)"
| "join_size_loop h parts count sep_len i total_len (Suc k) =
     bindR (arr_get parts i) (\<lambda>part.
       if part = null_ptr then ret None
       else bindR (str_len h part) (\<lambda>part_len.
         join_size_loop h parts count sep_len (i + 1)
           (total_len + part_len + (if i + 1 < count \<and> sep_len > 0 then sep_len else 0)) k))"

text \<open>\<open>malloc\<close> and \<open>free\<close> are the library's.\<close>

definition str_alloc_join :: "malloc \<Rightarrow> (uptr \<Rightarrow> heap \<Rightarrow> heap) \<Rightarrow> uptr \<Rightarrow> heap \<Rightarrow> uptr list cptr \<Rightarrow> usize \<Rightarrow> uptr \<Rightarrow>
    (uptr option \<times> heap) run" where
  "str_alloc_join malloc free lit h parts count sep =
     (if count = 0 then str_alloc_copy malloc h lit
      else case parts of
        None \<Rightarrow> violation ''str_alloc_join: parts is NULL''
      | Some ps \<Rightarrow>
          let sp = (if sep = null_ptr then lit else sep) in
          bindR (str_len h sp) (\<lambda>sep_len.
          bindR (join_size_loop h ps count sep_len 0 1 (unat count)) (\<lambda>size.
            case size of
              None \<Rightarrow> ret (None, h)
            | Some total_len \<Rightarrow>
                let (buffer, h1) = mem_alloc malloc total_len h in
                if buffer = null_ptr then ret (None, h1)
                else bindR (str_join lit h1 buffer total_len parts count sp) (\<lambda>(ok, h2).
                  if ok then ret (Some buffer, h2)
                  else ret (None, mem_free free buffer h2)))))"

fun split_parts_loop :: "heap \<Rightarrow> u8 \<Rightarrow> uptr list \<Rightarrow> usize \<Rightarrow> uptr \<Rightarrow> usize \<Rightarrow> usize \<Rightarrow> usize \<Rightarrow> uptr \<Rightarrow> nat \<Rightarrow>
    (usize \<times> uptr list \<times> heap) run" where
  "split_parts_loop h delim parts max_parts buf buf_size count pos p 0 = undefined_behaviour ''string without a terminator''"
| "split_parts_loop h delim parts max_parts buf buf_size count pos p (Suc fuel) = bindR (load_byte h p) (\<lambda>c.
     if c = 0 then ret (count, parts, h)
     else bindR (scan_while h (\<lambda>c. c = delim) p (Suc fuel)) (\<lambda>start. bindR (load_byte h start) (\<lambda>c1.
       if c1 = 0 then ret (count, parts, h)
       else bindR (scan_while h (\<lambda>c. c \<noteq> 0 \<and> c \<noteq> delim) start (Suc fuel)) (\<lambda>p2.
         let part_len = p2 - start in
         if pos + part_len + 1 > buf_size then ret (0, parts, h)
         else if count \<ge> max_parts then ret (0, parts, h)
         else bindR (mem_copy h (buf + pos) start part_len) (\<lambda>h1.
           bindR (write_bytes h1 (buf + (pos + part_len)) [0]) (\<lambda>h2.
           bindR (arr_set parts count (buf + pos)) (\<lambda>parts1.
           split_parts_loop h2 delim parts1 max_parts buf buf_size (count + 1) (pos + part_len + 1) p2 fuel)))))))"

definition str_split_to_parts :: "heap \<Rightarrow> uptr \<Rightarrow> u8 \<Rightarrow> uptr list cptr \<Rightarrow> usize \<Rightarrow> uptr \<Rightarrow> usize \<Rightarrow>
    (usize \<times> uptr list cptr \<times> heap) run" where
  "str_split_to_parts h s delim out_parts max_parts scratch_buf scratch_size =
     require_msg (s \<noteq> null_ptr) ''str_split_to_parts: s is NULL''
     (case out_parts of
        None \<Rightarrow> violation ''str_split_to_parts: out_parts is NULL''
      | Some parts \<Rightarrow>
          require_msg (scratch_buf \<noteq> null_ptr) ''str_split_to_parts: scratch_buf is NULL''
          (if max_parts = 0 \<or> scratch_size = 0 then ret (0, out_parts, h)
           else bindR (split_parts_loop h delim parts max_parts scratch_buf scratch_size 0 0 s (2 ^ 64 - unat s))
             (\<lambda>(count, parts', h'). ret (count, Some parts', h'))))"

definition str_rejoin :: "uptr \<Rightarrow> heap \<Rightarrow> uptr \<Rightarrow> u8 \<Rightarrow> uptr list cptr \<Rightarrow> usize \<Rightarrow> uptr \<Rightarrow> usize \<Rightarrow> uptr \<Rightarrow> usize \<Rightarrow> uptr \<Rightarrow>
    (bool \<times> uptr list cptr \<times> heap) run" where
  "str_rejoin lit h s delim parts_buf max_parts scratch_buf scratch_size dest dest_size new_sep =
     require_msg (s \<noteq> null_ptr) ''str_rejoin: s is NULL''
     (require_msg (parts_buf \<noteq> None) ''str_rejoin: parts_buf is NULL''
     (require_msg (scratch_buf \<noteq> null_ptr) ''str_rejoin: scratch_buf is NULL''
     (require_msg (dest \<noteq> null_ptr) ''str_rejoin: dest is NULL''
     (require_msg (dest_size > 0) ''str_rejoin: dest_size is 0''
     (bindR (str_split_to_parts h s delim parts_buf max_parts scratch_buf scratch_size) (\<lambda>(count, parts, h1).
        bindR (if count = 0 then put_empty h1 dest else str_join lit h1 dest dest_size parts count new_sep)
          (\<lambda>(ok, h2). ret (ok, parts, h2))))))))"

subsection \<open>Joining\<close>

lemma joined_Cons: "joined sep (x # xs) = (x @ (if xs = [] then [] else sep)) @ joined sep xs"
  by (cases xs) simp_all

lemma disjoint_spans_room:
  assumes "fits p a" "fits b n" "p \<noteq> 0" "b \<noteq> 0" "0 < a" "0 < n" "span p a \<inter> span b n = {}"
  shows "a + n < 2 ^ 64"
proof -
  have "0 < unat p" "0 < unat b" using assms(3,4) by (simp_all add: unat_gt_0)
  moreover have "b \<notin> span p a" "p \<notin> span b n"
    using assms(5-7) by (auto simp: span_def)
  ultimately show ?thesis using assms(1,2) by (auto simp: span_def fits_def)
qed

lemma put_empty_value:
  assumes "object h dest bs n" "n \<noteq> 0"
  shows "\<exists>h' zs. put_empty h dest = ret (False, h') \<and> write_bytes h dest [0] = ret h' \<and> object h' dest (0 # zs) n \<and>
    (\<forall>q. q \<notin> span dest (unat n) \<longrightarrow> h' q = h q)"
proof -
  obtain b zs where "bs = [] @ [b] @ zs" using assms by (cases bs) (auto simp: object_def unat_eq_zero)
  with object_splice [of h dest "[]" "[b]" zs n "[0]"] assms(1) obtain h' where "write_bytes h dest [0] = ret h'"
    "object h' dest (0 # zs) n" "\<forall>q. q \<notin> span dest (unat n) \<longrightarrow> h' q = h q" by auto
  then show ?thesis by (auto simp: put_empty_def)
qed

text \<open>A part of the array: NULL, or a C string away from the buffer and of a length that can be added to the
  size of the buffer and to the length of the separator.\<close>

definition part_at :: "heap \<Rightarrow> uptr set \<Rightarrow> nat \<Rightarrow> uptr \<Rightarrow> u8 list option \<Rightarrow> bool" where
  "part_at h U k p x = (case x of None \<Rightarrow> p = null_ptr
     | Some xs \<Rightarrow> cstr h p xs \<and> span p (Suc (length xs)) \<inter> U = {} \<and> length xs + 1 + k < 2 ^ 64)"

lemma part_at_frame:
  assumes "part_at h U k p x" "\<forall>q. q \<notin> U \<longrightarrow> h' q = h q"
  shows "part_at h' U k p x"
proof (cases x)
  case (Some xs)
  then show ?thesis using assms(1) cstr_reads [OF _ _ assms(2), of p xs] by (simp add: part_at_def Int_commute)
qed (use assms in \<open>simp add: part_at_def\<close>)

lemma parts_at_frame:
  "list_all2 (part_at h U k) ps xss \<Longrightarrow> \<forall>q. q \<notin> U \<longrightarrow> h' q = h q \<Longrightarrow> list_all2 (part_at h' U k) ps xss"
  by (erule list_all2_mono) (rule part_at_frame)

text \<open>One round: the part, and the separator when \<open>follows\<close>.\<close>

lemma join_copies:
  assumes "object h dest (acc @ rest) n" "cstr h p xs" "span p (Suc (length xs)) \<inter> span dest (unat n) = {}"
    "cstr h sp sep" "span sp (Suc (length sep)) \<inter> span dest (unat n) = {}"
    "ext = (if follows then sep else [])" "length acc + length xs + length ext < unat n"
  shows "\<exists>h2 zs. (\<forall>F G. bindR (mem_copy h (dest + of_nat (length acc)) p (of_nat (length xs))) (\<lambda>h1.
        if follows then bindR (mem_copy h1 (dest + (of_nat (length acc) + of_nat (length xs))) sp (of_nat (length sep))) F
        else G h1) = (if follows then F h2 else G h2)) \<and>
      object h2 dest ((acc @ xs @ ext) @ zs) n \<and> (\<forall>q. q \<notin> span dest (unat n) \<longrightarrow> h2 q = h q)"
proof -
  have sub: "span p (length xs) \<inter> span dest (unat n) = {}" "span sp (length sep) \<inter> span dest (unat n) = {}"
    using assms(3,5) by (auto simp: span_def)
  from mem_copy_into [OF assms(1) _ cstr_region(1) [OF assms(2)] _ sub(1), of "of_nat (length xs)"] cstr_bounds [OF assms(2)] assms(2,7)
  obtain h1 zs where h1: "mem_copy h (dest + of_nat (length acc)) p (of_nat (length xs)) = ret h1" "object h1 dest (acc @ xs @ zs) n"
    "\<forall>q. q \<notin> span dest (unat n) \<longrightarrow> h1 q = h q" by (auto simp: cstr_def)
  show ?thesis
  proof (cases follows)
    case True
    have "cstr h1 sp sep" using cstr_reads [OF assms(4) _ h1(3)] assms(5) by blast
    with mem_copy_into [of h1 dest "acc @ xs" zs n "of_nat (length sep)" sep sp "dest + (of_nat (length acc) + of_nat (length xs))"]
      h1(2) sub(2) cstr_bounds [OF assms(4)] assms(6,7) cstr_region(1) True
    obtain h2 zs' where "mem_copy h1 (dest + (of_nat (length acc) + of_nat (length xs))) sp (of_nat (length sep)) = ret h2"
      "object h2 dest ((acc @ xs) @ sep @ zs') n" "\<forall>q. q \<notin> span dest (unat n) \<longrightarrow> h2 q = h1 q" by (auto simp: cstr_def)
    with h1 True assms(6) show ?thesis by (intro exI [of _ h2] exI [of _ zs']) simp
  next
    case False
    with h1 assms(6) show ?thesis by (intro exI [of _ h1] exI [of _ zs]) simp
  qed
qed

definition join_result :: "u8 list \<Rightarrow> u8 list \<Rightarrow> u8 list option list \<Rightarrow> u8 list option" where
  "join_result acc sep xss =
     (if None \<in> set xss then None else Some (acc @ joined sep (map the xss)))"

lemma join_result_step:
  "join_result acc sep (Some xs # xss) = join_result (acc @ xs @ (if xss = [] then [] else sep)) sep xss"
  "join_result acc sep (None # xss) = None"
  "join_result acc sep [] = Some acc"
  by (simp_all add: join_result_def joined_Cons)

lemma join_result_prefix: "join_result acc sep xss = Some ys \<Longrightarrow> length acc \<le> length ys"
  by (auto simp: join_result_def split: if_splits)

text \<open>What a joining function leaves: the joined string where it exists and fits, else the empty string.\<close>

definition joins :: "heap \<Rightarrow> uptr \<Rightarrow> usize \<Rightarrow> u8 list option \<Rightarrow> (bool \<times> heap) run \<Rightarrow> bool" where
  "joins h dest n res r = (\<exists>ok h' ys zs. r = ret (ok, h') \<and> object h' dest (ys @ 0 # zs) n \<and>
     (\<forall>q. q \<notin> span dest (unat n) \<longrightarrow> h' q = h q) \<and>
     (case res of None \<Rightarrow> \<not> ok \<and> ys = []
      | Some xs \<Rightarrow> if length xs < unat n then ok \<and> ys = xs else \<not> ok \<and> ys = []))"

lemma joins_frame:
  assumes "joins h1 dest n res r" "\<forall>q. q \<notin> span dest (unat n) \<longrightarrow> h1 q = h q"
  shows "joins h dest n res r"
proof -
  from assms(1) obtain ok h' ys zs where "r = ret (ok, h')" "object h' dest (ys @ 0 # zs) n" "\<forall>q. q \<notin> span dest (unat n) \<longrightarrow> h' q = h1 q"
    "case res of None \<Rightarrow> \<not> ok \<and> ys = [] | Some xs \<Rightarrow> if length xs < unat n then ok \<and> ys = xs else \<not> ok \<and> ys = []"
    unfolding joins_def by (elim exE conjE) (rule that; assumption)
  with assms(2) show ?thesis unfolding joins_def
    by (intro exI [of _ ok] exI [of _ h'] exI [of _ ys] exI [of _ zs]) simp
qed

lemma joins_fail:
  assumes "object h dest bs n" "n \<noteq> 0" "res = None \<or> (\<exists>xs. res = Some xs \<and> unat n \<le> length xs)"
  shows "joins h dest n res (put_empty h dest)"
proof -
  from put_empty_value [OF assms(1,2)] obtain h' zs where "put_empty h dest = ret (False, h')" "object h' dest ([] @ 0 # zs) n"
    "\<forall>q. q \<notin> span dest (unat n) \<longrightarrow> h' q = h q" by auto
  with assms(3) show ?thesis unfolding joins_def
    by (intro exI [of _ False] exI [of _ h'] exI [of _ "[]"] exI [of _ zs]) auto
qed

lemma str_join_loop_value:
  assumes "object h dest (acc @ rest) n" "length acc < unat n" "cstr h sp sep"
    "span sp (Suc (length sep)) \<inter> span dest (unat n) = {}"
    "list_all2 (part_at h (span dest (unat n)) (unat n + length sep)) qs xss"
    "ps = pre @ qs @ post" "unat cnt = length pre + length qs" "i = of_nat (length pre)" "pos = of_nat (length acc)"
  shows "joins h dest n (join_result acc sep xss) (str_join_loop h dest n ps cnt sp (of_nat (length sep)) i pos (length qs))"
  using assms
proof (induction xss arbitrary: h acc rest qs pre i pos)
  case Nil
  then obtain b zs where "rest = [b] @ zs" by (cases rest) (auto simp: object_def)
  with object_splice [of h dest acc "[b]" zs n "[0]"] Nil.prems(1) obtain h' where
    "write_bytes h (dest + of_nat (length acc)) [0] = ret h'" "object h' dest (acc @ 0 # zs) n"
    "\<forall>q. q \<notin> span dest (unat n) \<longrightarrow> h' q = h q" by auto
  with Nil show ?case by (auto simp: joins_def join_result_def)
next
  case (Cons x xss)
  from Cons.prems(5) obtain p qs' where qs: "qs = p # qs'" "part_at h (span dest (unat n)) (unat n + length sep) p x"
    "list_all2 (part_at h (span dest (unat n)) (unat n + length sep)) qs' xss" by (cases qs) auto
  have n: "n \<noteq> 0" using Cons.prems(2) by auto
  have i: "unat i = length pre" using Cons.prems(7,8) usize_bound [of cnt] by (auto intro!: unat_of_small)
  then have part: "arr_get ps i = ret p" using Cons.prems(6) qs(1) by simp
  have "i < cnt" using i Cons.prems(7) qs(1) by (simp add: word_less_nat_alt)
  then have i1: "unat (i + 1) = Suc (length pre)" using i unat_usize_lt_Suc by metis
  then have more: "i + 1 < cnt \<longleftrightarrow> xss \<noteq> []"
    using Cons.prems(7) qs(1,3) by (auto simp: word_less_nat_alt list_all2_lengthD)
  show ?case
  proof (cases x)
    case None
    then show ?thesis using qs joins_fail [OF Cons.prems(1) n, of None] part
      by (simp add: part_at_def join_result_step)
  next
    case (Some xs)
    then have p: "cstr h p xs" "span p (Suc (length xs)) \<inter> span dest (unat n) = {}" "length xs + 1 + (unat n + length sep) < 2 ^ 64"
      using qs(2) by (simp_all add: part_at_def)
    note len = str_len_value [OF p(1)]
    let ?ext = "if xss = [] then [] else sep"
    have seplen: "0 < (of_nat (length sep) :: usize) \<longleftrightarrow> sep \<noteq> []"
      using cstr_bounds [OF Cons.prems(3)] by (auto simp: word_less_nat_alt)
    let ?needed = "of_nat (length xs) + 1 + (if i + 1 < cnt \<and> 0 < (of_nat (length sep) :: usize) then of_nat (length sep) else 0) :: usize"
    have "pos + ?needed = of_nat (length acc + (length xs + 1 + length ?ext))" using more seplen Cons.prems(9) by simp
    moreover have "length acc + (length xs + 1 + length ?ext) < 2 ^ 64" using p(3) Cons.prems(2) by auto
    ultimately have "unat (pos + ?needed) = length acc + (length xs + 1 + length ?ext)" by (metis unat_of_small)
    then have big: "pos + ?needed > n \<longleftrightarrow> unat n \<le> length acc + length xs + length ?ext" by (auto simp: word_less_nat_alt)
    have pnn: "p \<noteq> null_ptr" using p(1) by (simp add: cstr_def null_ptr_def)
    show ?thesis
    proof (cases "unat n \<le> length acc + length xs + length ?ext")
      case True
      have "\<exists>ys. r = Some ys \<and> unat n \<le> length ys \<or> r = None"
        if "r = join_result (acc @ xs @ ?ext) sep xss" for r
        using that join_result_prefix [of "acc @ xs @ ?ext" sep xss] True by (cases r) fastforce+
      then have "joins h dest n (join_result acc sep (x # xss)) (put_empty h dest)"
        using Some by (intro joins_fail [OF Cons.prems(1) n]) (auto simp: join_result_step)
      then show ?thesis using big True qs(1) part pnn len by (simp add: Let_def)
    next
      case False
      let ?follows = "i + 1 < cnt \<and> 0 < (of_nat (length sep) :: usize)"
      have room: "length acc + length xs + length ?ext < unat n" using False by (simp only: not_le)
      have ext: "?ext = (if ?follows then sep else [])" using more seplen by auto
      from join_copies [OF Cons.prems(1) p(1,2) Cons.prems(3,4) ext room] obtain h2 zs where
        h2: "\<forall>F (G :: heap \<Rightarrow> (bool \<times> heap) run). bindR (mem_copy h (dest + of_nat (length acc)) p (of_nat (length xs))) (\<lambda>h1.
            if ?follows then bindR (mem_copy h1 (dest + (of_nat (length acc) + of_nat (length xs))) sp (of_nat (length sep))) F
            else G h1) = (if ?follows then F h2 else G h2)"
          "object h2 dest ((acc @ xs @ ?ext) @ zs) n" "\<forall>q. q \<notin> span dest (unat n) \<longrightarrow> h2 q = h q"
        by (elim exE conjE) (rule that; assumption)
      have pos: "of_nat (length (acc @ xs @ ?ext)) =
          (if ?follows then pos + of_nat (length xs) + of_nat (length sep) else pos + of_nat (length xs))"
        using ext Cons.prems(9) by simp
      have "joins h2 dest n (join_result (acc @ xs @ ?ext) sep xss)
          (str_join_loop h2 dest n ps cnt sp (of_nat (length sep)) (i + 1) (of_nat (length (acc @ xs @ ?ext))) (length qs'))"
        using Cons.prems(4,6-8) False qs(1)
        by (intro Cons.IH [OF h2(2) _ cstr_reads [OF Cons.prems(3) _ h2(3)] _ parts_at_frame [OF qs(3) h2(3)],
              where pre = "pre @ [p]"]) auto
      from joins_frame [OF this h2(3)] have
        "joins h dest n (join_result acc sep (x # xss)) (if ?follows
          then str_join_loop h2 dest n ps cnt sp (of_nat (length sep)) (i + 1) (pos + of_nat (length xs) + of_nat (length sep)) (length qs')
          else str_join_loop h2 dest n ps cnt sp (of_nat (length sep)) (i + 1) (pos + of_nat (length xs)) (length qs'))"
        unfolding pos using Some by (simp add: join_result_step split del: if_split) (auto split: if_splits)
      moreover have "\<not> pos + ?needed > n" using big False by simp
      ultimately show ?thesis
        using qs(1) part pnn len h2(1) unfolding Cons.prems(9) by (simp add: Let_def split del: if_split)
    qed
  qed
qed

text \<open>\<open>sep\<close> may be NULL: the separator is then the empty literal.\<close>

lemma str_join_value:
  assumes "object h dest bs n" "n \<noteq> 0" "cstr h (if sep = null_ptr then lit else sep) zs"
    "span (if sep = null_ptr then lit else sep) (Suc (length zs)) \<inter> span dest (unat n) = {}"
    "list_all2 (part_at h (span dest (unat n)) (unat n + length zs)) qs xss" "unat cnt = length qs"
  shows "joins h dest n (join_result [] zs xss) (str_join lit h dest n (Some (qs @ post)) cnt sep)"
proof (cases "cnt = 0")
  case True
  with assms(5,6) have "xss = []" by simp
  moreover from put_empty_value [OF assms(1,2)] obtain h' ys where
    "write_bytes h dest [0] = ret h'" "object h' dest ([] @ 0 # ys) n" "\<forall>q. q \<notin> span dest (unat n) \<longrightarrow> h' q = h q" by auto
  ultimately show ?thesis using True assms(1,2)
    unfolding joins_def by (intro exI [of _ True] exI [of _ h'] exI [of _ "[]"] exI [of _ ys])
      (auto simp: str_join_def join_result_def object_def null_ptr_def word_gt_0)
next
  case False
  have "dest \<noteq> 0" "0 < n" using assms(1,2) by (simp_all add: object_def word_gt_0)
  moreover have "joins h dest n (join_result [] zs xss) (str_join_loop h dest n (qs @ post) cnt
      (if sep = null_ptr then lit else sep) (of_nat (length zs)) 0 0 (length qs))"
    using assms by (intro str_join_loop_value [OF _ _ assms(3-5), where pre = "[]" and post = post and rest = bs]) (auto simp: unat_gt_0)
  ultimately show ?thesis using False assms(6) str_len_value [OF assms(3)]
    by (simp add: str_join_def null_ptr_def Let_def del: str_join_loop.simps)
qed

subsection \<open>Joining into allocated memory\<close>

lemma join_size_loop_value:
  assumes "list_all2 (part_at h U k) qs xss" "ps = pre @ qs @ post" "unat cnt = length pre + length qs" "i = of_nat (length pre)"
  shows "join_size_loop h ps cnt (of_nat (length sep)) i acc (length qs) =
    ret (if None \<in> set xss then None else Some (acc + of_nat (length (joined sep (map the xss)))))"
  using assms
proof (induction xss arbitrary: qs pre i acc rule: list.induct)
  case (Cons x xss)
  then obtain p qs' where qs: "qs = p # qs'" "part_at h U k p x" "list_all2 (part_at h U k) qs' xss" by (cases qs) auto
  have i: "unat i = length pre" using Cons.prems(3,4) usize_bound [of cnt] by (auto intro!: unat_of_small)
  then have part: "arr_get ps i = ret p" using Cons.prems(2) qs(1) by simp
  have "i < cnt" using i Cons.prems(3) qs(1) by (simp add: word_less_nat_alt)
  then have "unat (i + 1) = Suc (length pre)" using i unat_usize_lt_Suc by metis
  then have more: "i + 1 < cnt \<longleftrightarrow> xss \<noteq> []"
    using Cons.prems(3) qs(1,3) by (auto simp: word_less_nat_alt list_all2_lengthD)
  show ?case
  proof (cases x)
    case None
    then show ?thesis using qs part by (simp add: part_at_def)
  next
    case (Some xs)
    then have "p \<noteq> null_ptr" "str_len h p = ret (of_nat (length xs))"
      using qs(2) str_len_value [of h p xs] by (auto simp: part_at_def cstr_def null_ptr_def)
    moreover have "(if xss \<noteq> [] \<and> 0 < (of_nat (length sep) :: usize) then of_nat (length sep) else 0) =
        (of_nat (length (if xss = [] then [] else sep)) :: usize)"
      by (auto simp: word_gt_0)
    ultimately show ?thesis
      using Cons.IH [OF qs(3), of "pre @ [p]" "i + 1"] Cons.prems(2-4) part qs(1) more Some
      by (simp add: joined_Cons add.assoc)
  qed
qed simp

lemma set_joined: "set (joined sep ts) \<subseteq> set sep \<union> (\<Union>t \<in> set ts. set t)"
  by (induction sep ts rule: joined.induct) auto

lemma parts_clean: "list_all2 (part_at h U k) qs xss \<Longrightarrow> None \<notin> set xss \<Longrightarrow> \<forall>x \<in> set xss. 0 \<notin> set (the x)"
  by (induction rule: list_all2_induct) (auto simp: part_at_def cstr_def split: option.splits)

lemma part_at_alloc:
  assumes "malloc_ok malloc" "mem_alloc malloc n h = (p, h1)" "p \<noteq> 0"
  shows "part_at h {} k q x \<Longrightarrow> part_at h1 (span p (unat n)) k q x"
  using mem_alloc_value [OF assms(1,2)] assms(3) by (auto simp: part_at_def split: option.splits)

text \<open>The allocated join fails for a NULL part or without memory; its buffer is as long as the joined string.\<close>

lemma str_alloc_join_value:
  assumes "malloc_ok malloc" "cstr h (if sep = null_ptr then lit else sep) zs" "unat cnt = length qs" "qs \<noteq> []"
    and "list_all2 (part_at h {} (length (joined zs (map the xss)) + 1 + length zs)) qs xss"
    and "length (joined zs (map the xss)) + 1 < 2 ^ 64" "lit \<noteq> null_ptr"
  shows "\<exists>r h'. str_alloc_join malloc free lit h (Some (qs @ post)) cnt sep = ret (r, h') \<and> heap_extends h h' \<and>
    (case r of None \<Rightarrow> h' = h | Some p \<Rightarrow> None \<notin> set xss \<and> cstr h' p (joined zs (map the xss)))"
proof -
  let ?sp = "if sep = null_ptr then lit else sep" and ?js = "joined zs (map the xss)"
  let ?n = "1 + of_nat (length ?js) :: usize"
  have "?n = of_nat (length ?js + 1)" by simp
  then have n: "unat ?n = length ?js + 1" using unat_of_small [OF assms(6)] by (simp only:)
  then have nz: "?n \<noteq> 0" by (metis Suc_eq_plus1 nat.distinct(1) unat_0)
  have cnt: "cnt \<noteq> 0" using assms(3,4) by auto
  have sp: "(if ?sp = null_ptr then lit else ?sp) = ?sp" using assms(7) by simp
  have val: "str_alloc_join malloc free lit h (Some (qs @ post)) cnt sep =
      (if None \<in> set xss then ret (None, h)
       else let (buffer, h1) = mem_alloc malloc ?n h in
         if buffer = null_ptr then ret (None, h1)
         else bindR (str_join lit h1 buffer ?n (Some (qs @ post)) cnt ?sp) (\<lambda>(ok, h2).
           if ok then ret (Some buffer, h2) else ret (None, mem_free free buffer h2)))"
    using cnt str_len_value [OF assms(2)] join_size_loop_value [OF assms(5), where pre = "[]" and post = post and cnt = cnt] assms(3)
    by (simp add: str_alloc_join_def Let_def)
  obtain p h1 where al: "mem_alloc malloc ?n h = (p, h1)" by (cases "mem_alloc malloc ?n h")
  consider "None \<in> set xss" | "None \<notin> set xss" "p = 0" | "None \<notin> set xss" "p \<noteq> 0" by blast
  then show ?thesis
  proof cases
    case 3
    from mem_alloc_value [OF assms(1) al] 3(2) assms(2) obtain bs where m: "object h1 p bs ?n" "cstr h1 ?sp zs"
      "\<And>h2. \<forall>q. q \<notin> span p (unat ?n) \<longrightarrow> h2 q = h1 q \<Longrightarrow> heap_extends h h2"
      "span ?sp (Suc (length zs)) \<inter> span p (unat ?n) = {}" by blast
    have "list_all2 (part_at h1 (span p (unat ?n)) (unat ?n + length zs)) qs xss"
      using assms(5) by (rule list_all2_mono) (use part_at_alloc [OF assms(1) al 3(2)] n in auto)
    from str_join_value [OF m(1), of "?sp" lit, unfolded sp, OF _ m(2,4) this assms(3), of post] n
    have "joins h1 p ?n (join_result [] zs xss) (str_join lit h1 p ?n (Some (qs @ post)) cnt ?sp)" using nz by simp
    then obtain ok h2 ys ws where j: "str_join lit h1 p ?n (Some (qs @ post)) cnt ?sp = ret (ok, h2)" "object h2 p (ys @ 0 # ws) ?n"
      "\<forall>q. q \<notin> span p (unat ?n) \<longrightarrow> h2 q = h1 q"
      "case join_result [] zs xss of None \<Rightarrow> \<not> ok \<and> ys = [] | Some xs \<Rightarrow> if length xs < unat ?n then ok \<and> ys = xs else \<not> ok \<and> ys = []"
      unfolding joins_def by (elim exE conjE) (rule that; assumption)
    then have ok: "ok" "ys = ?js" using 3(1) n by (auto simp: join_result_def)
    have "0 \<notin> set ?js"
      using set_joined [of zs "map the xss"] parts_clean [OF assms(5) 3(1)] assms(2) by (fastforce simp: cstr_def)
    with j(2) ok(2) have "cstr h2 p ?js" by (auto intro: object_cstr)
    with j(1,3) ok 3 m(3) al show ?thesis unfolding val by (simp add: null_ptr_def)
  qed (use mem_alloc_value [OF assms(1) al] al in \<open>auto simp: val null_ptr_def heap_extends_def object_def\<close>)
qed

subsection \<open>Splitting into a scratch buffer\<close>

definition packed :: "u8 list list \<Rightarrow> u8 list" where
  "packed ts = concat (map (\<lambda>t. t @ [0]) ts)"

lemma packed_simps [simp]:
  "packed [] = []" "packed (t # ts) = t @ 0 # packed ts" "packed (ts @ us) = packed ts @ packed us"
  by (simp_all add: packed_def)

lemma field_ptrs_append:
  "field_ptrs s (ts @ us) = field_ptrs s ts @ field_ptrs (s + of_nat (length (packed ts))) us"
  by (induction ts arbitrary: s) (simp_all add: add.assoc add.left_commute)

text \<open>The strings in the buffer.\<close>

lemma packed_strings:
  assumes "object h buf (packed ts @ rest) n" "\<forall>t \<in> set ts. 0 \<notin> set t"
  shows "list_all2 (\<lambda>q t. cstr h q t \<and> span q (Suc (length t)) \<subseteq> span buf (unat n)) (field_ptrs buf ts) ts"
proof (rule list_all2_all_nthI)
  fix k assume k: "k < length (field_ptrs buf ts)"
  let ?q = "buf + of_nat (length (packed (take k ts)))"
  have ts: "ts = take k ts @ ts ! k # drop (Suc k) ts" using k by (simp add: id_take_nth_drop)
  have q: "field_ptrs buf ts ! k = ?q"
    using k by (subst ts, subst field_ptrs_append) (simp add: nth_append)
  have o: "object h buf (packed (take k ts) @ (ts ! k @ [0]) @ (packed (drop (Suc k) ts) @ rest)) n"
    using assms(1) by (subst (asm) ts) simp
  from object_middle [OF this] have m: "object h ?q (ts ! k @ [0]) (of_nat (length (ts ! k @ [0])))" by simp
  have len: "length (packed (take k ts)) + Suc (length (ts ! k)) \<le> unat n" "fits buf (unat n)" using o by (auto simp: object_def)
  then have "unat ?q = unat buf + length (packed (take k ts))" by (intro unat_ptr_plus) auto
  then have "span ?q (Suc (length (ts ! k))) \<subseteq> span buf (unat n)" "fits ?q (Suc (length (ts ! k)))"
    using len by (auto simp: span_def fits_def)
  moreover have "0 \<notin> set (ts ! k)" using assms(2) k by simp
  ultimately show "cstr h (field_ptrs buf ts ! k) (ts ! k) \<and> span (field_ptrs buf ts ! k) (Suc (length (ts ! k))) \<subseteq> span buf (unat n)"
    using m by (simp add: q cstr_def object_def)
qed simp

definition splits_into :: "heap \<Rightarrow> uptr \<Rightarrow> usize \<Rightarrow> usize \<Rightarrow> nat \<Rightarrow> u8 list list \<Rightarrow> (usize \<times> uptr list \<times> heap) run \<Rightarrow> bool" where
  "splits_into h buf n m k ts r = (\<exists>cnt parts' h'. r = ret (cnt, parts', h') \<and> length parts' = k \<and>
     (\<forall>q. q \<notin> span buf (unat n) \<longrightarrow> h' q = h q) \<and>
     (if length (packed ts) \<le> unat n \<and> length ts \<le> unat m
      then cnt = of_nat (length ts) \<and> (\<exists>rest prest. object h' buf (packed ts @ rest) n \<and> parts' = field_ptrs buf ts @ prest)
      else cnt = 0))"

lemma splits_into_frame:
  assumes "splits_into h1 buf n m k ts r" "\<forall>q. q \<notin> span buf (unat n) \<longrightarrow> h1 q = h q"
  shows "splits_into h buf n m k ts r"
proof -
  from assms(1) obtain cnt parts' h' where "r = ret (cnt, parts', h')" "length parts' = k"
     "\<forall>q. q \<notin> span buf (unat n) \<longrightarrow> h' q = h1 q"
     "if length (packed ts) \<le> unat n \<and> length ts \<le> unat m
      then cnt = of_nat (length ts) \<and> (\<exists>rest prest. object h' buf (packed ts @ rest) n \<and> parts' = field_ptrs buf ts @ prest)
      else cnt = 0"
    unfolding splits_into_def by (elim exE conjE) (rule that; assumption)
  with assms(2) show ?thesis unfolding splits_into_def
    by (intro exI [of _ cnt] exI [of _ parts'] exI [of _ h']) simp
qed

lemma cstr_tail:
  assumes "cstr h p (xs @ ys)"
  shows "cstr h (p + of_nat (length xs)) ys" "span (p + of_nat (length xs)) (Suc (length ys)) \<subseteq> span p (Suc (length (xs @ ys)))"
    "region h p xs"
proof -
  show "cstr h (p + of_nat (length xs)) ys" using cstr_drop [OF assms, of "length xs"] by simp
  have "unat (p + of_nat (length xs)) = unat p + length xs" using assms by (intro unat_ptr_plus) (auto simp: cstr_def)
  then show "span (p + of_nat (length xs)) (Suc (length ys)) \<subseteq> span p (Suc (length (xs @ ys)))" by (auto simp: span_def)
  show "region h p xs" using cstr_region(1) [OF assms] by (simp add: region_append)
qed

text \<open>A token and its terminator written to the buffer.\<close>

lemma store_token:
  assumes "object h buf (packed ts @ rest) n" "region h p t" "p \<noteq> 0" "span p (length t) \<inter> span buf (unat n) = {}"
    "length (packed ts) + length t + 1 \<le> unat n"
  shows "\<exists>h1 h2 zs. mem_copy h (buf + of_nat (length (packed ts))) p (of_nat (length t)) = ret h1 \<and>
    write_bytes h1 (buf + (of_nat (length (packed ts)) + of_nat (length t))) [0] = ret h2 \<and>
    object h2 buf (packed (ts @ [t]) @ zs) n \<and> (\<forall>q. q \<notin> span buf (unat n) \<longrightarrow> h2 q = h q)"
proof -
  have "unat (of_nat (length t) :: usize) = length t" using assms(5) usize_bound [of n] by (intro unat_of_small) simp
  from mem_copy_into [OF assms(1) this assms(2-4)] assms(5) obtain h1 zs where
    h1: "mem_copy h (buf + of_nat (length (packed ts))) p (of_nat (length t)) = ret h1" "object h1 buf (packed ts @ t @ zs) n"
    "\<forall>q. q \<notin> span buf (unat n) \<longrightarrow> h1 q = h q" by auto
  then obtain b zs' where "zs = [b] @ zs'" using assms(5) by (cases zs) (auto simp: object_def)
  with h1(2) object_splice [of h1 buf "packed ts @ t" "[b]" zs' n "[0]"] obtain h2 where
    "write_bytes h1 (buf + of_nat (length (packed ts @ t))) [0] = ret h2" "object h2 buf ((packed ts @ t) @ [0] @ zs') n"
    "\<forall>q. q \<notin> span buf (unat n) \<longrightarrow> h2 q = h1 q" by auto
  with h1 show ?thesis by (intro exI [of _ h1] exI [of _ h2] exI [of _ zs']) simp
qed

lemma split_parts_loop_value:
  assumes "cstr h p xs" "length xs < fuel" "span p (Suc (length xs)) \<inter> span buf (unat n) = {}"
    "object h buf (packed ts @ rest) n" "unat m \<le> length ps" "length ts \<le> unat m" "n \<noteq> 0"
    "ps = field_ptrs buf ts @ prest" "cnt = of_nat (length ts)" "pos = of_nat (length (packed ts))"
  shows "splits_into h buf n m (length ps) (ts @ tokens d xs) (split_parts_loop h d ps m buf n cnt pos p fuel)"
  using assms
proof (induction fuel arbitrary: h xs p ts rest ps prest cnt pos)
  case (Suc fuel)
  define ys where "ys = dropWhile (\<lambda>c. c = d) xs"
  define pre where "pre = takeWhile (\<lambda>c. c = d) xs"
  have xs: "xs = pre @ ys" by (simp add: pre_def ys_def)
  let ?p1 = "p + of_nat (length pre)"
  note p1 = cstr_tail [OF Suc.prems(1) [unfolded xs]]
  have n0: "0 \<notin> set xs" "p \<noteq> 0" "fits p (Suc (length xs))" using Suc.prems(1) by (simp_all add: cstr_def)
  note start = token_scan [OF cstr_region(2) [OF Suc.prems(1)] n0(1) Suc.prems(2), where d = d, folded ys_def pre_def]
  have cnt: "unat cnt = length ts" using Suc.prems(6,9) usize_bound [of m] by (auto intro!: unat_of_small)
  show ?case
  proof (cases "ys = []")
    case True
    then have "tokens d xs = []" using tokens_skip [of d xs] by (simp add: ys_def tokens_def del: dropWhile_eq_Nil_conv)
    with True Suc.prems(4-9) show ?thesis
      unfolding split_parts_loop.simps start splits_into_def by (auto simp: object_def)
  next
    case False
    define t where "t = takeWhile (\<lambda>c. c \<noteq> d) ys"
    define r where "r = dropWhile (\<lambda>c. c \<noteq> d) ys"
    have tr: "ys = t @ r" by (simp add: t_def r_def)
    have "hd ys \<noteq> d" using hd_dropWhile [of "\<lambda>c. c = d" xs] False by (simp add: ys_def)
    note step = tokens_step [OF False this t_def r_def]
    have toks: "tokens d xs = t # tokens d r" using tokens_skip [of d xs] step(2) by (simp add: ys_def)
    note p2 = cstr_tail [OF p1(1) [unfolded tr]]
    let ?p2 = "?p1 + of_nat (length t)"
    have scan: "scan_while h (\<lambda>c. c \<noteq> 0 \<and> c \<noteq> d) ?p1 (Suc fuel) = ret ?p2"
      unfolding t_def using p1(1) xs Suc.prems(2) by (intro scan_token) (auto simp: cstr_def)
    have lens: "length xs = length pre + length t + length r" by (simp add: xs tr)
    have buf: "buf \<noteq> 0" "fits buf (unat n)" "length (packed ts) \<le> unat n" "0 < unat n"
      using Suc.prems(4,7) by (auto simp: object_def unat_gt_0)
    have "Suc (length xs) + unat n < 2 ^ 64"
      using disjoint_spans_room [OF n0(3) buf(2) n0(2) buf(1) _ buf(4) Suc.prems(3)] by simp
    then have "length (packed ts) + length t + 1 < 2 ^ 64" using buf(3) lens by linarith
    then have "unat (of_nat (length (packed ts) + length t + 1) :: usize) = length (packed ts) + length t + 1" by (rule unat_of_small)
    then have big: "unat (pos + of_nat (length t) + 1) = length (packed ts) + length t + 1"
      using Suc.prems(10) by (simp add: add.commute)
    have val: "split_parts_loop h d ps m buf n cnt pos p (Suc fuel) =
        (if unat n < length (packed ts) + length t + 1 \<or> unat m \<le> length ts then ret (0, ps, h)
         else bindR (mem_copy h (buf + pos) ?p1 (of_nat (length t))) (\<lambda>h1.
           bindR (write_bytes h1 (buf + (pos + of_nat (length t))) [0]) (\<lambda>h2.
           bindR (arr_set ps cnt (buf + pos)) (\<lambda>parts1.
           split_parts_loop h2 d parts1 m buf n (cnt + 1) (pos + of_nat (length t) + 1) ?p2 fuel))))"
      unfolding split_parts_loop.simps start using False scan cnt big
      by (simp add: Let_def word_less_nat_alt word_le_nat_alt del: scan_while.simps)
    show ?thesis
    proof (cases "unat n < length (packed ts) + length t + 1 \<or> unat m \<le> length ts")
      case True
      then show ?thesis unfolding val by (auto simp: splits_into_def toks)
    next
      case False
      have "?p1 \<noteq> 0" "span ?p1 (length t) \<subseteq> span ?p1 (Suc (length (t @ r)))" using p1(1) by (auto simp: cstr_def span_def)
      with p1(2) Suc.prems(3) xs tr have "?p1 \<noteq> 0" "span ?p1 (length t) \<inter> span buf (unat n) = {}" by auto
      from store_token [OF Suc.prems(4) p2(3) this] False obtain h1 h2 zs where
        st: "mem_copy h (buf + pos) ?p1 (of_nat (length t)) = ret h1"
          "write_bytes h1 (buf + (pos + of_nat (length t))) [0] = ret h2"
          "object h2 buf (packed (ts @ [t]) @ zs) n" "\<forall>q. q \<notin> span buf (unat n) \<longrightarrow> h2 q = h q"
        unfolding Suc.prems(10) by auto
      obtain b prest' where "prest = b # prest'" using Suc.prems(5,8) False by (cases prest) auto
      then have ps: "arr_set ps cnt (buf + pos) = ret (ps[length ts := buf + pos])"
        "ps[length ts := buf + pos] = field_ptrs buf (ts @ [t]) @ prest'"
        using Suc.prems(8,10) cnt by (simp_all add: field_ptrs_append list_update_append)
      have rl: "length r < fuel" using lens step(3) Suc.prems(2) by (cases t) auto
      have dis: "span ?p2 (Suc (length r)) \<inter> span buf (unat n) = {}" using p2(2) p1(2) Suc.prems(3) xs tr by auto
      have "splits_into h2 buf n m (length (ps[length ts := buf + pos])) ((ts @ [t]) @ tokens d r)
          (split_parts_loop h2 d (ps[length ts := buf + pos]) m buf n (cnt + 1) (pos + of_nat (length t) + 1) ?p2 fuel)"
        using False Suc.prems(5,7,9,10) rl
        by (intro Suc.IH [OF cstr_reads [OF p2(1) _ st(4)] _ dis st(3) _ _ _ ps(2)]) (use dis in auto)
      from splits_into_frame [OF this st(4)] show ?thesis
        unfolding val using False st(1,2) ps(1) by (simp add: toks)
    qed
  qed
qed simp

lemma str_split_to_parts_value:
  assumes "cstr h s xs" "span s (Suc (length xs)) \<inter> span buf (unat n) = {}" "object h buf bs n" "unat m \<le> length parts" "n \<noteq> 0"
  shows "\<exists>cnt parts' h'. str_split_to_parts h s d (Some parts) m buf n = ret (cnt, Some parts', h') \<and>
    splits_into h buf n m (length parts) (tokens d xs) (ret (cnt, parts', h'))"
proof (cases "m = 0")
  case True
  then show ?thesis using assms
    by (auto simp: str_split_to_parts_def splits_into_def cstr_def object_def null_ptr_def)
next
  case False
  from split_parts_loop_value [OF assms(1) _ assms(2), of "2 ^ 64 - unat s" "[]" bs m parts parts 0 0 d] cstr_bounds [OF assms(1)] assms(3-5)
  have l: "splits_into h buf n m (length parts) (tokens d xs) (split_parts_loop h d parts m buf n 0 0 s (2 ^ 64 - unat s))" by simp
  then obtain cnt parts' h' where "split_parts_loop h d parts m buf n 0 0 s (2 ^ 64 - unat s) = ret (cnt, parts', h')"
    unfolding splits_into_def by blast
  with l assms False show ?thesis by (auto simp: str_split_to_parts_def cstr_def object_def null_ptr_def)
qed

lemma tokens_clean: "0 \<notin> set xs \<Longrightarrow> t \<in> set (tokens d xs) \<Longrightarrow> 0 \<notin> set t"
proof -
  have "set t \<subseteq> set (joined [d] ts)" if "t \<in> set ts" for ts
    using that by (induction "[d]" ts rule: joined.induct) auto
  then show "0 \<notin> set xs \<Longrightarrow> t \<in> set (tokens d xs) \<Longrightarrow> 0 \<notin> set t"
    using joined_fields [of d xs] by (fastforce simp: tokens_def)
qed

lemma tokens_length: "t \<in> set ts \<Longrightarrow> length t < length (packed ts)"
  by (induction ts) auto

lemma packed_parts:
  assumes "object h buf (packed ts @ rest) n" "\<forall>t \<in> set ts. 0 \<notin> set t" "span buf (unat n) \<inter> U = {}" "unat n + k < 2 ^ 64"
  shows "list_all2 (part_at h U k) (field_ptrs buf ts) (map Some ts)"
proof -
  have n: "length (packed ts) \<le> unat n" using assms(1) by (auto simp: object_def)
  have "list_all2 (\<lambda>q t. part_at h U k q (Some t)) (field_ptrs buf ts) ts"
    unfolding list_all2_conv_all_nth
  proof (intro conjI allI impI)
    fix i assume i: "i < length (field_ptrs buf ts)"
    with list_all2_nthD [OF packed_strings [OF assms(1,2)] i] tokens_length [of "ts ! i" ts] n assms(3,4)
    show "part_at h U k (field_ptrs buf ts ! i) (Some (ts ! i))" by (auto simp: part_at_def)
  qed simp
  then show ?thesis by (simp add: list_all2_map2)
qed

subsection \<open>Splitting and joining\<close>

text \<open>C27: \<open>str_rejoin\<close> replaces the delimiter. Where the string has tokens, at most \<open>max_parts\<close>, and they and
  their terminators fit in the scratch buffer and the result in \<open>dest\<close>, it leaves in \<open>dest\<close> the tokens with
  the new separator between them. In every other case it returns false and leaves the empty string.
  It writes to the two buffers alone.\<close>

theorem str_rejoin_correct:
  assumes "cstr h s xs" "cstr h (if sep = null_ptr then lit else sep) zs"
    and "object h buf bs n" "n \<noteq> 0" "object h dest ds m" "m \<noteq> 0" "unat max_parts \<le> length parts"
    and "span s (Suc (length xs)) \<inter> span buf (unat n) = {}"
    and "span (if sep = null_ptr then lit else sep) (Suc (length zs)) \<inter> (span buf (unat n) \<union> span dest (unat m)) = {}"
    and "span buf (unat n) \<inter> span dest (unat m) = {}" "unat n + unat m + length zs < 2 ^ 64"
  shows "\<exists>ok parts' h' ys zs'. str_rejoin lit h s d (Some parts) max_parts buf n dest m sep = ret (ok, Some parts', h') \<and>
    object h' dest (ys @ 0 # zs') m \<and> (\<forall>q. q \<notin> span buf (unat n) \<union> span dest (unat m) \<longrightarrow> h' q = h q) \<and>
    (let ts = tokens d xs in
     if ts \<noteq> [] \<and> length ts \<le> unat max_parts \<and> length (packed ts) \<le> unat n \<and> length (joined zs ts) < unat m
     then ok \<and> ys = joined zs ts else \<not> ok \<and> ys = [])"
proof -
  let ?sp = "if sep = null_ptr then lit else sep" and ?ts = "tokens d xs"
  let ?fits = "length (packed ?ts) \<le> unat n \<and> length ?ts \<le> unat max_parts"
  from str_split_to_parts_value [OF assms(1,8,3,7,4), of d] obtain cnt parts' h1 where
    sp: "str_split_to_parts h s d (Some parts) max_parts buf n = ret (cnt, Some parts', h1)"
      "splits_into h buf n max_parts (length parts) ?ts (ret (cnt, parts', h1))" by blast
  from sp(2) have h1: "\<forall>q. q \<notin> span buf (unat n) \<longrightarrow> h1 q = h q"
    "if ?fits then cnt = of_nat (length ?ts) \<and> (\<exists>rest prest. object h1 buf (packed ?ts @ rest) n \<and> parts' = field_ptrs buf ?ts @ prest)
     else cnt = 0" by (auto simp: splits_into_def split: if_splits)
  have nn: "s \<noteq> null_ptr" "buf \<noteq> null_ptr" "dest \<noteq> null_ptr" "0 < m"
    using assms by (auto simp: cstr_def object_def null_ptr_def word_gt_0)
  have o1: "object h1 dest ds m" using object_frame [OF assms(5) h1(1)] assms(10) by simp
  have val: "str_rejoin lit h s d (Some parts) max_parts buf n dest m sep =
      bindR (if cnt = 0 then put_empty h1 dest else str_join lit h1 dest m (Some parts') cnt sep)
        (\<lambda>(ok, h2). ret (ok, Some parts', h2))"
    using nn sp(1) by (simp add: str_rejoin_def)
  let ?res = "if ?fits \<and> ?ts \<noteq> [] then Some (joined zs ?ts) else None"
  have "joins h1 dest m ?res (if cnt = 0 then put_empty h1 dest else str_join lit h1 dest m (Some parts') cnt sep)"
  proof (cases "?fits \<and> ?ts \<noteq> []")
    case False
    then have "cnt = 0" using h1(2) by (auto split: if_splits)
    with False joins_fail [OF o1 assms(6), of None] show ?thesis by auto
  next
    case True
    with h1(2) obtain rest prest where p: "cnt = of_nat (length ?ts)" "object h1 buf (packed ?ts @ rest) n"
      "parts' = field_ptrs buf ?ts @ prest" by auto
    have cnt: "unat cnt = length ?ts" unfolding p(1) using True usize_bound [of max_parts] by (intro unat_of_small) simp
    note pa = packed_parts [OF p(2) _ assms(10), of "unat m + length zs"]
    have "cstr h1 ?sp zs" using cstr_reads [OF assms(2) _ h1(1)] assms(9) by blast
    from str_join_value [OF o1 assms(6) this _ pa, of cnt prest] assms(1,9,11) cnt tokens_clean [of xs _ d] have
      "joins h1 dest m (join_result [] zs (map Some ?ts)) (str_join lit h1 dest m (Some parts') cnt sep)"
      unfolding p(3) by (simp add: Int_Un_distrib cstr_def)
    moreover have "cnt \<noteq> 0" using cnt True by auto
    moreover have "join_result [] zs (map Some ?ts) = Some (joined zs ?ts)" by (auto simp: join_result_def comp_def)
    ultimately show ?thesis using True by simp
  qed
  then obtain ok h2 ys zs' where j: "(if cnt = 0 then put_empty h1 dest else str_join lit h1 dest m (Some parts') cnt sep) = ret (ok, h2)"
    "object h2 dest (ys @ 0 # zs') m" "\<forall>q. q \<notin> span dest (unat m) \<longrightarrow> h2 q = h1 q"
    "case ?res of None \<Rightarrow> \<not> ok \<and> ys = [] | Some xs \<Rightarrow> if length xs < unat m then ok \<and> ys = xs else \<not> ok \<and> ys = []"
    unfolding joins_def by (elim exE conjE) (rule that; assumption)
  show ?thesis unfolding val j(1) using j(2-4) h1(1)
    by (intro exI [of _ ok] exI [of _ parts'] exI [of _ h2] exI [of _ ys] exI [of _ zs']) (auto simp: Let_def split: if_splits)
qed

theorem str_rejoin_correct_witness:
  "let h = (\<lambda>q. if q \<in> span 64 4 \<union> span 80 4 \<union> span 96 4 \<union> span 112 2 then Some 0 else None)
         (64 \<mapsto> 97, 65 \<mapsto> 44, 66 \<mapsto> 98, 112 \<mapsto> 59)
   in \<exists>parts' h' zs'. str_rejoin 1 h 64 44 (Some [0, 0]) 2 80 4 96 4 112 = ret (True, Some parts', h') \<and>
     object h' 96 ([97, 59, 98] @ 0 # zs') 4"
proof -
  define h :: heap where "h = (\<lambda>q. if q \<in> span 64 4 \<union> span 80 4 \<union> span 96 4 \<union> span 112 2 then Some 0 else None)
         (64 \<mapsto> 97, 65 \<mapsto> 44, 66 \<mapsto> 98, 112 \<mapsto> 59)"
  have "cstr h 64 [97, 44, 98]" "cstr h (if 112 = null_ptr then 1 else 112) [59]"
    by (auto simp: cstr_def fits_def h_def span_def null_ptr_def)
  moreover have "object h 80 [0, 0, 0, 0] 4" "object h 96 [0, 0, 0, 0] 4"
    by (auto simp: object_def fits_def h_def span_def)
  moreover have "tokens 44 [97, 44, 98 :: u8] = [[97], [98]]" by (simp add: tokens_def)
  moreover have "span 64 (Suc (length [97, 44, 98 :: u8])) \<inter> span 80 (unat (4 :: usize)) = {}" "span 80 (unat (4 :: usize)) \<inter> span 96 (unat (4 :: usize)) = {}"
    "span (if 112 = null_ptr then 1 else 112) (Suc (length [59 :: u8])) \<inter> (span 80 (unat (4 :: usize)) \<union> span 96 (unat (4 :: usize))) = {}"
    by (auto simp: span_def null_ptr_def)
  ultimately show ?thesis unfolding h_def [symmetric] Let_def
    using str_rejoin_correct [of h 64 "[97, 44, 98]" 112 1 "[59]" 80 "[0, 0, 0, 0]" 4 96 "[0, 0, 0, 0]" 4 2 "[0, 0]" 44]
    by (auto simp: Let_def)
qed

end
