(* ===== verification/Canon_Diag.thy ===== *)
theory Canon_Diag
  imports Canon_Str Canon_Semantics
begin

section \<open>Diagnostic chains (semantics/diag.h)\<close>

text \<open>
  A \<open>Diag\<close> is an array of \<open>DIAG_MAX_FRAMES\<close> frames (8) and its depth. The file and function of a frame are
  addresses of strings, its message is an array of \<open>DIAG_MAX_MSG_LEN\<close> bytes (128). The message that is pushed
  lies in the heap, outside the chain. \<open>snprintf\<close> and \<open>fprintf\<close> are parameters; their arguments are those of the
  two formats of the header, which differ in the newline at the end.

  The lemmas show that a push keeps the chain well formed and appends its frame, or slides the chain by one
  frame when it is full; that after any sequence of pushes the chain is the last frames pushed; and that
  rendering writes the text of all frames, cut to the buffer, and returns the length of the whole text.
\<close>

record diag_frame =
  df_file :: uptr
  df_func :: uptr
  df_line :: usize
  df_code :: error
  df_message :: "u8 list"

record diag =
  dg_frames :: "diag_frame list"
  dg_depth :: usize

definition diag_max_frames :: usize where
  "diag_max_frames = 8"

definition diag_max_msg_len :: usize where
  "diag_max_msg_len = 128"

text \<open>All bytes zero: null pointers, line 0, \<open>ERR_OK\<close> and an empty message.\<close>

definition diag_zero_frame :: diag_frame where
  "diag_zero_frame = \<lparr>df_file = null_ptr, df_func = null_ptr, df_line = 0, df_code = ERR_OK,
     df_message = replicate (unat diag_max_msg_len) 0\<rparr>"

definition diag_init :: diag where
  "diag_init = \<lparr>dg_frames = replicate (unat diag_max_frames) diag_zero_frame, dg_depth = 0\<rparr>"

definition diag_clear :: "diag cptr \<Rightarrow> diag cptr" where
  "diag_clear p = (case p of None \<Rightarrow> None | Some d \<Rightarrow> Some (d\<lparr>dg_depth := 0\<rparr>))"

text \<open>The scan of the message: \<open>k\<close> is \<open>DIAG_MAX_MSG_LEN - 1 - len\<close>.\<close>

fun diag_msg_len :: "heap \<Rightarrow> uptr \<Rightarrow> usize \<Rightarrow> nat \<Rightarrow> usize run" where
  "diag_msg_len h msg len 0 = ret len"
| "diag_msg_len h msg len (Suc k) = bindR (read_bytes h (msg + len) 1) (\<lambda>bs.
     if hd bs \<noteq> 0 then diag_msg_len h msg (len + 1) k else ret len)"

definition diag_set_message :: "heap \<Rightarrow> u8 list \<Rightarrow> uptr \<Rightarrow> u8 list run" where
  "diag_set_message h message msg =
     (if msg \<noteq> null_ptr then
        bindR (diag_msg_len h msg 0 (unat (diag_max_msg_len - 1))) (\<lambda>len.
        bindR (read_bytes h msg (unat len)) (\<lambda>bs.
        arr_set (bs @ drop (length bs) message) len 0))
      else arr_set message 0 0)"

definition diag_push :: "heap \<Rightarrow> diag cptr \<Rightarrow> uptr \<Rightarrow> usize \<Rightarrow> uptr \<Rightarrow> error \<Rightarrow> uptr \<Rightarrow> (bool \<times> diag cptr) run" where
  "diag_push h p file line func code msg = (case p of
     None \<Rightarrow> ret (False, None)
   | Some d \<Rightarrow>
       require_msg (dg_depth d \<le> diag_max_frames) ''diag_push: depth exceeded DIAG_MAX_FRAMES -- chain is corrupt''
       (let full = dg_depth d = diag_max_frames;
            n = unat (diag_max_frames - 1);
            frames = (if full then take n (drop 1 (dg_frames d)) @ drop n (dg_frames d) else dg_frames d);
            depth = (if full then dg_depth d - 1 else dg_depth d);
            depth = (if depth \<ge> diag_max_frames then diag_max_frames - 1 else depth) in
        bindR (arr_get frames depth) (\<lambda>f.
        bindR (diag_set_message h (df_message f) msg) (\<lambda>message.
        bindR (arr_set frames depth \<lparr>df_file = file, df_func = func, df_line = line, df_code = code, df_message = message\<rparr>)
          (\<lambda>frames'. ret (full, Some \<lparr>dg_frames = frames', dg_depth = depth + 1\<rparr>))))))"

definition diag_depth :: "diag cptr \<Rightarrow> usize" where
  "diag_depth p = (case p of None \<Rightarrow> 0 | Some d \<Rightarrow> dg_depth d)"

definition diag_has_error :: "diag cptr \<Rightarrow> bool" where
  "diag_has_error p = (case p of None \<Rightarrow> False | Some d \<Rightarrow> dg_depth d > 0)"

definition diag_frame_at :: "diag cptr \<Rightarrow> usize \<Rightarrow> diag_frame cptr run" where
  "diag_frame_at p i = (case p of
     None \<Rightarrow> ret None
   | Some d \<Rightarrow> if i \<ge> dg_depth d then ret None else bindR (arr_get (dg_frames d) i) (\<lambda>f. ret (Some f)))"

definition diag_root :: "diag cptr \<Rightarrow> diag_frame cptr run" where
  "diag_root p = diag_frame_at p 0"

definition diag_latest :: "diag cptr \<Rightarrow> diag_frame cptr run" where
  "diag_latest p = (case p of
     None \<Rightarrow> ret None
   | Some d \<Rightarrow> if dg_depth d = 0 then ret None else bindR (arr_get (dg_frames d) (dg_depth d - 1)) (\<lambda>f. ret (Some f)))"

definition diag_root_code :: "diag cptr \<Rightarrow> error run" where
  "diag_root_code p = bindR (diag_root p) (\<lambda>f. ret (case f of None \<Rightarrow> ERR_OK | Some f \<Rightarrow> df_code f))"

definition diag_latest_code :: "diag cptr \<Rightarrow> error run" where
  "diag_latest_code p = bindR (diag_latest p) (\<lambda>f. ret (case f of None \<Rightarrow> ERR_OK | Some f \<Rightarrow> df_code f))"

subsection \<open>Output\<close>

text \<open>
  The arguments of the format: index, file, line, function, code and message, with the literals \<open>"?"\<close>, at the
  address \<open>q\<close>, and \<open>"(no message)"\<close> in place of what is missing.
\<close>

type_synonym diag_args = "usize \<times> uptr \<times> usize \<times> uptr \<times> int \<times> u8 list"

definition no_message :: "u8 list" where
  "no_message = [40, 110, 111, 32, 109, 101, 115, 115, 97, 103, 101, 41, 0]"

definition diag_format_args :: "uptr \<Rightarrow> usize \<Rightarrow> diag_frame \<Rightarrow> diag_args run" where
  "diag_format_args q i f = bindR (arr_get (df_message f) 0) (\<lambda>c.
     ret (i, if df_file f \<noteq> null_ptr then df_file f else q, df_line f,
          if df_func f \<noteq> null_ptr then df_func f else q, error_code (df_code f),
          if c \<noteq> 0 then df_message f else no_message))"

text \<open>\<open>fprintf\<close> acts on the state of the stream; its result is ignored. \<open>k\<close> is \<open>depth - i\<close>.\<close>

fun diag_print_loop :: "(diag_args \<Rightarrow> 's \<Rightarrow> 's) \<Rightarrow> uptr \<Rightarrow> diag \<Rightarrow> usize \<Rightarrow> 's \<Rightarrow> nat \<Rightarrow> 's run" where
  "diag_print_loop fprintf q d i s 0 = ret s"
| "diag_print_loop fprintf q d i s (Suc k) =
     bindR (arr_get (dg_frames d) i) (\<lambda>f. bindR (diag_format_args q i f) (\<lambda>args.
     diag_print_loop fprintf q d (i + 1) (fprintf args s) k))"

definition diag_print :: "(diag_args \<Rightarrow> 's \<Rightarrow> 's) \<Rightarrow> uptr \<Rightarrow> diag cptr \<Rightarrow> 's cptr \<Rightarrow> 's cptr run" where
  "diag_print fprintf q p stream = (case (p, stream) of
     (Some d, Some s) \<Rightarrow>
       if dg_depth d = 0 then ret stream
       else bindR (diag_print_loop fprintf q d 0 s (unat (dg_depth d))) (\<lambda>s'. ret (Some s'))
   | _ \<Rightarrow> ret stream)"

definition diag_clear_buf :: "heap \<Rightarrow> uptr \<Rightarrow> usize \<Rightarrow> heap run" where
  "diag_clear_buf h buf buf_size =
     (if buf \<noteq> null_ptr \<and> buf_size > 0 then write_bytes h buf [0] else ret h)"

definition diag_render_frame ::
  "diag_args vsnprintf \<Rightarrow> uptr \<Rightarrow> uptr \<Rightarrow> heap \<Rightarrow> diag_frame cptr \<Rightarrow> usize \<Rightarrow> uptr \<Rightarrow> usize \<Rightarrow> (usize \<times> heap) run" where
  "diag_render_frame snprintf fmt q h p index buf buf_size =
     bindR (diag_clear_buf h buf buf_size) (\<lambda>h1. case p of
       None \<Rightarrow> ret (0, h1)
     | Some f \<Rightarrow>
         if buf = null_ptr \<or> buf_size = 0 then ret (0, h1)
         else bindR (diag_format_args q index f) (\<lambda>args.
           bindR (snprintf h1 buf buf_size fmt args) (\<lambda>(n, h2).
           ret (if n < 0 then 0 else word_of_int n, h2))))"

text \<open>\<open>k\<close> is \<open>depth - i\<close>.\<close>

fun diag_render_loop ::
  "diag_args vsnprintf \<Rightarrow> uptr \<Rightarrow> uptr \<Rightarrow> diag \<Rightarrow> uptr \<Rightarrow> usize \<Rightarrow> heap \<Rightarrow> usize \<Rightarrow> usize \<Rightarrow> nat \<Rightarrow> (usize \<times> heap) run" where
  "diag_render_loop snprintf fmt q d buf buf_size h total_len i 0 = ret (total_len, h)"
| "diag_render_loop snprintf fmt q d buf buf_size h total_len i (Suc k) =
     bindR (arr_get (dg_frames d) i) (\<lambda>f. bindR (diag_format_args q i f) (\<lambda>args.
       let dst = (if total_len < buf_size then buf + total_len else buf);
           rem = (if total_len < buf_size then buf_size - total_len else 0) in
       bindR (snprintf h dst rem fmt args) (\<lambda>(n, h1).
       diag_render_loop snprintf fmt q d buf buf_size h1 (if n < 0 then total_len else total_len + word_of_int n) (i + 1) k)))"

definition diag_render ::
  "diag_args vsnprintf \<Rightarrow> uptr \<Rightarrow> uptr \<Rightarrow> heap \<Rightarrow> diag cptr \<Rightarrow> uptr \<Rightarrow> usize \<Rightarrow> (usize \<times> heap) run" where
  "diag_render snprintf fmt q h p buf buf_size =
     bindR (diag_clear_buf h buf buf_size) (\<lambda>h1. case p of
       None \<Rightarrow> ret (0, h1)
     | Some d \<Rightarrow>
         if buf = null_ptr \<or> buf_size = 0 \<or> dg_depth d = 0 then ret (0, h1)
         else diag_render_loop snprintf fmt q d buf buf_size h1 0 0 (unat (dg_depth d)))"

subsection \<open>The chain\<close>

definition diag_ok :: "diag \<Rightarrow> bool" where
  "diag_ok d \<longleftrightarrow> length (dg_frames d) = 8 \<and> unat (dg_depth d) \<le> 8 \<and>
     (\<forall>f \<in> set (dg_frames d). length (df_message f) = 128)"

definition diag_chain :: "diag \<Rightarrow> diag_frame list" where
  "diag_chain d = take (unat (dg_depth d)) (dg_frames d)"

lemma diag_init_ok: "diag_ok diag_init" "diag_chain diag_init = []"
  by (simp_all add: diag_ok_def diag_init_def diag_chain_def diag_max_frames_def diag_zero_frame_def diag_max_msg_len_def)

lemma diag_clear_ok: "diag_ok d \<Longrightarrow> \<exists>d'. diag_clear (Some d) = Some d' \<and> diag_ok d' \<and> diag_chain d' = []"
  by (simp add: diag_clear_def diag_ok_def diag_chain_def)

text \<open>A message: NULL, or the bytes up to the terminator, at most 127.\<close>

definition message_at :: "heap \<Rightarrow> uptr \<Rightarrow> u8 list \<Rightarrow> bool" where
  "message_at h msg xs \<longleftrightarrow> (if msg = null_ptr then xs = [] else n_string h msg 127 xs)"

definition frame_shows :: "uptr \<times> usize \<times> uptr \<times> error \<times> u8 list \<Rightarrow> diag_frame \<Rightarrow> bool" where
  "frame_shows e f = (case e of (file, line, func, code, xs) \<Rightarrow>
     df_file f = file \<and> df_line f = line \<and> df_func f = func \<and> df_code f = code \<and>
     0 \<notin> set xs \<and> (\<exists>rest. df_message f = xs @ 0 # rest))"

lemma diag_msg_len_append: "diag_msg_len h msg len k = append_n_loop h msg len k"
  by (induction k arbitrary: len) (auto intro!: arg_cong2 [where f = bindR])

lemma diag_set_message_value:
  assumes "message_at h msg xs" "length message = 128"
  shows "\<exists>rest. diag_set_message h message msg = ret (xs @ 0 # rest) \<and> length (xs @ 0 # rest) = 128 \<and> 0 \<notin> set xs"
proof (cases "msg = null_ptr")
  case True
  then show ?thesis using assms by (cases message) (auto simp: diag_set_message_def message_at_def)
next
  case False
  then have n: "n_string h msg 127 xs" using assms(1) by (simp add: message_at_def)
  then have xs: "length xs \<le> 127" "0 \<notin> set xs" "region h msg xs"
    by (auto simp: n_string_def region_append split: if_splits)
  have "diag_msg_len h msg 0 127 = ret (of_nat (length xs))"
    using append_n_loop_value [of h msg 0 127 xs] n by (simp add: diag_msg_len_append)
  moreover have "unat (of_nat (length xs) :: usize) = length xs" using xs(1) by (intro unat_of_small) simp
  moreover have "read_bytes h msg (length xs) = ret xs" by (rule read_bytes_region [OF xs(3)])
  moreover obtain m ms where "drop (length xs) message = m # ms" "length ms = 127 - length xs"
    using assms(2) xs(1) by (cases "drop (length xs) message") (auto dest: arg_cong [of _ _ length])
  ultimately show ?thesis using False xs assms(2)
    by (auto simp: diag_set_message_def diag_max_msg_len_def list_update_append)
qed

lemma diag_push_value:
  assumes "diag_ok d" "message_at h msg xs"
  shows "\<exists>d' f. diag_push h (Some d) file line func code msg = ret (length (diag_chain d) = 8, Some d') \<and> diag_ok d' \<and>
    diag_chain d' = (if length (diag_chain d) = 8 then tl (diag_chain d) else diag_chain d) @ [f] \<and>
    frame_shows (file, line, func, code, xs) f"
proof -
  have ok: "length (dg_frames d) = 8" "unat (dg_depth d) \<le> 8" "\<And>f. f \<in> set (dg_frames d) \<Longrightarrow> length (df_message f) = 128"
    using assms(1) by (simp_all add: diag_ok_def)
  define full where "full \<longleftrightarrow> dg_depth d = diag_max_frames"
  define frames where "frames = (if full then take 7 (drop 1 (dg_frames d)) @ drop 7 (dg_frames d) else dg_frames d)"
  define k where "k = (if full then 7 else unat (dg_depth d))"
  have full: "full \<longleftrightarrow> unat (dg_depth d) = 8" by (simp add: full_def diag_max_frames_def usize_eq_iff)
  have k: "k < 8" using ok(2) full by (auto simp: k_def)
  have len: "length frames = 8" using ok(1) by (simp add: frames_def)
  have sub: "set frames \<subseteq> set (dg_frames d)" by (auto simp: frames_def dest: in_set_takeD in_set_dropD)
  have chain: "take k frames = (if full then tl (diag_chain d) else diag_chain d)"
    using ok(1) full by (auto simp: k_def frames_def diag_chain_def drop_Suc)
  have "frames ! k \<in> set frames" using k len by simp
  then have "length (df_message (frames ! k)) = 128" using sub ok(3) by blast
  from diag_set_message_value [OF assms(2) this] obtain rest where
    m: "diag_set_message h (df_message (frames ! k)) msg = ret (xs @ 0 # rest)" "length (xs @ 0 # rest) = 128" "0 \<notin> set xs" by blast
  let ?f = "\<lparr>df_file = file, df_func = func, df_line = line, df_code = code, df_message = xs @ 0 # rest\<rparr>"
  let ?d = "\<lparr>dg_frames = frames[k := ?f], dg_depth = of_nat (Suc k)\<rparr>"
  have w: "unat (of_nat k :: usize) = k" "unat (1 + of_nat k :: usize) = Suc k"
    using k unat_of_small [of k] unat_of_small [of "Suc k"] by simp_all
  have "dg_depth d = of_nat (unat (dg_depth d))" by simp
  then have "(if dg_depth d = 8 then dg_depth d - 1 else dg_depth d) = of_nat k"
    by (auto simp: k_def full_def diag_max_frames_def)
  moreover have "dg_depth d \<le> 8" "\<not> (8 :: usize) \<le> of_nat k" using ok(2) k w(1) by (simp_all add: word_le_nat_alt)
  moreover have "unat (8 - 1 :: usize) = 7" by simp
  ultimately have "diag_push h (Some d) file line func code msg = bindR (arr_get frames (of_nat k)) (\<lambda>f.
      bindR (diag_set_message h (df_message f) msg) (\<lambda>message.
      bindR (arr_set frames (of_nat k) \<lparr>df_file = file, df_func = func, df_line = line, df_code = code, df_message = message\<rparr>)
        (\<lambda>frames'. ret (full, Some \<lparr>dg_frames = frames', dg_depth = of_nat k + 1\<rparr>))))"
    unfolding frames_def full_def diag_max_frames_def by (simp add: diag_push_def diag_max_frames_def Let_def)
  then have "diag_push h (Some d) file line func code msg = ret (full, Some ?d)"
    using k len m(1) w by (simp add: add.commute)
  moreover have "\<forall>f \<in> set (frames[k := ?f]). length (df_message f) = 128"
  proof
    fix f assume "f \<in> set (frames[k := ?f])"
    then have "f = ?f \<or> f \<in> set frames" using set_update_subset_insert [of frames k ?f] by blast
    then show "length (df_message f) = 128" using sub ok(3) m(2) by auto
  qed
  then have "diag_ok ?d" using len k w by (simp add: diag_ok_def)
  moreover have "diag_chain ?d = (if full then tl (diag_chain d) else diag_chain d) @ [?f]"
    using k len w chain by (simp add: diag_chain_def take_Suc_update)
  moreover have "length (diag_chain d) = 8 \<longleftrightarrow> full" using ok(1,2) full by (auto simp: diag_chain_def)
  ultimately show ?thesis using m(3) by (auto simp: frame_shows_def)
qed

subsection \<open>Sequences of pushes\<close>

fun diag_pushes :: "heap \<Rightarrow> (uptr \<times> usize \<times> uptr \<times> error \<times> uptr) list \<Rightarrow> diag cptr \<Rightarrow> (bool list \<times> diag cptr) run" where
  "diag_pushes h [] p = ret ([], p)"
| "diag_pushes h ((file, line, func, code, msg) # es) p =
     bindR (diag_push h p file line func code msg) (\<lambda>(dropped, p1).
     bindR (diag_pushes h es p1) (\<lambda>(bs, p2). ret (dropped # bs, p2)))"

definition event_at :: "heap \<Rightarrow> uptr \<times> usize \<times> uptr \<times> error \<times> uptr \<Rightarrow> uptr \<times> usize \<times> uptr \<times> error \<times> u8 list \<Rightarrow> bool" where
  "event_at h e v = (case (e, v) of ((file, line, func, code, msg), (file', line', func', code', xs)) \<Rightarrow>
     file' = file \<and> line' = line \<and> func' = func \<and> code' = code \<and> message_at h msg xs)"

definition last_part :: "nat \<Rightarrow> 'a list \<Rightarrow> 'a list" where
  "last_part n xs = drop (length xs - n) xs"

lemma last_part_snoc: "0 < n \<Longrightarrow> length ys = min n (length xs) \<Longrightarrow> ys = last_part n xs \<Longrightarrow>
  (if length ys = n then tl ys else ys) @ [x] = last_part n (xs @ [x])"
  by (auto simp: last_part_def drop_Suc [symmetric] min_def Suc_diff_le split: if_splits)
     (metis Suc_diff_le drop_Suc tl_drop nat_le_linear)

lemma list_all2_last_part: "list_all2 P xs ys \<Longrightarrow> list_all2 P (last_part n xs) (last_part n ys)"
  unfolding last_part_def using list_all2_lengthD [of P xs ys] by (simp add: list_all2_dropI)

lemma diag_pushes_value:
  assumes "diag_ok d" "list_all2 (event_at h) es vs" "list_all2 frame_shows (last_part 8 us) (diag_chain d)"
  shows "\<exists>d'. diag_pushes h es (Some d) = ret (map (\<lambda>i. 8 \<le> i) [length us..<length us + length es], Some d') \<and> diag_ok d' \<and>
    list_all2 frame_shows (last_part 8 (us @ vs)) (diag_chain d')"
  using assms(2,1,3)
proof (induction es vs arbitrary: d us rule: list_all2_induct)
  case Nil
  then show ?case by simp
next
  case (Cons e es v vs)
  obtain path line func code msg where e: "e = (path, line, func, code, msg)" by (cases e)
  obtain xs where v: "v = (path, line, func, code, xs)" "message_at h msg xs"
    using Cons.hyps(1) e by (cases v) (auto simp: event_at_def)
  from diag_push_value [OF Cons.prems(1) v(2)] obtain d1 f where
    d1: "diag_push h (Some d) path line func code msg = ret (length (diag_chain d) = 8, Some d1)" "diag_ok d1"
      "diag_chain d1 = (if length (diag_chain d) = 8 then tl (diag_chain d) else diag_chain d) @ [f]"
      "frame_shows v f" unfolding v(1) by blast
  let ?us = "last_part 8 us"
  have len: "length (diag_chain d) = length ?us" "length ?us = min 8 (length us)"
    using list_all2_lengthD [OF Cons.prems(2)] by (auto simp: last_part_def)
  have "list_all2 frame_shows ((if length ?us = 8 then tl ?us else ?us) @ [v]) (diag_chain d1)"
    unfolding d1(3) len(1) using Cons.prems(2) d1(4) list_all2_dropI [OF Cons.prems(2), of 1]
    by (simp add: list_all2_appendI drop_Suc)
  then have "list_all2 frame_shows (last_part 8 (us @ [v])) (diag_chain d1)"
    using last_part_snoc [of 8 ?us us v] len(2) by simp
  from Cons.IH [OF d1(2) this] obtain d2 where d2:
    "diag_pushes h es (Some d1) = ret (map (\<lambda>i. 8 \<le> i) [Suc (length us)..<Suc (length us) + length es], Some d2)" "diag_ok d2"
    "list_all2 frame_shows (last_part 8 (us @ v # vs)) (diag_chain d2)" by auto
  have "map (\<lambda>i. 8 \<le> i) [length us..<length us + length (e # es)] =
      (length (diag_chain d) = 8) # map (\<lambda>i. 8 \<le> i) [Suc (length us)..<Suc (length us) + length es]"
    using len by (subst upt_conv_Cons) auto
  with d1(1) d2 show ?case by (simp add: e)
qed

lemma diag_reads:
  assumes "diag_ok d"
  shows "diag_depth (Some d) = of_nat (length (diag_chain d))"
    "diag_has_error (Some d) \<longleftrightarrow> diag_chain d \<noteq> []"
    "diag_frame_at (Some d) i = ret (if unat i < length (diag_chain d) then Some (diag_chain d ! unat i) else None)"
    "diag_root (Some d) = ret (if diag_chain d = [] then None else Some (hd (diag_chain d)))"
    "diag_latest (Some d) = ret (if diag_chain d = [] then None else Some (last (diag_chain d)))"
proof -
  have ok: "length (dg_frames d) = 8" "unat (dg_depth d) \<le> 8" using assms by (simp_all add: diag_ok_def)
  then have len: "length (diag_chain d) = unat (dg_depth d)" by (simp add: diag_chain_def)
  then show "diag_depth (Some d) = of_nat (length (diag_chain d))" by (simp add: diag_depth_def)
  have ne: "diag_chain d \<noteq> [] \<longleftrightarrow> dg_depth d \<noteq> 0" using ok by (auto simp: diag_chain_def unat_eq_zero)
  then show "diag_has_error (Some d) \<longleftrightarrow> diag_chain d \<noteq> []" by (simp add: diag_has_error_def word_gt_0)
  have at: "diag_frame_at (Some d) i = ret (if unat i < length (diag_chain d) then Some (diag_chain d ! unat i) else None)" for i
    unfolding len using ok by (auto simp: diag_frame_at_def diag_chain_def word_le_nat_alt)
  then show "diag_frame_at (Some d) i = ret (if unat i < length (diag_chain d) then Some (diag_chain d ! unat i) else None)" .
  show "diag_root (Some d) = ret (if diag_chain d = [] then None else Some (hd (diag_chain d)))"
    unfolding diag_root_def at by (auto simp: hd_conv_nth)
  show "diag_latest (Some d) = ret (if diag_chain d = [] then None else Some (last (diag_chain d)))"
  proof (cases "dg_depth d = 0")
    case True
    then show ?thesis using ne by (auto simp: diag_latest_def)
  next
    case False
    then have "unat (dg_depth d - 1) = unat (dg_depth d) - 1" "0 < unat (dg_depth d)"
      by (simp_all add: unat_usize_pred unat_gt_0)
    then show ?thesis using False ne ok len
      by (auto simp: diag_latest_def last_conv_nth diag_chain_def)
  qed
qed

subsection \<open>Rendering\<close>

text \<open>
  The text of a frame, by the format \<open>[%zu] %s:%zu in %s() -- error %d: "%s"\<close> and a newline, whose bytes are
  \<open>diag_format\<close>.
\<close>

fun decimal :: "nat \<Rightarrow> u8 list" where
  "decimal n = (if n < 10 then [48 + of_nat n] else decimal (n div 10) @ [48 + of_nat (n mod 10)])"

declare decimal.simps [simp del]

definition decimal_int :: "int \<Rightarrow> u8 list" where
  "decimal_int k = (if k < 0 then 45 # decimal (nat (- k)) else decimal (nat k))"

definition diag_format :: "u8 list" where
  "diag_format = [91, 37, 122, 117, 93, 32, 37, 115, 58, 37, 122, 117, 32, 105, 110, 32, 37, 115, 40, 41, 32, 45, 45, 32,
     101, 114, 114, 111, 114, 32, 37, 100, 58, 32, 34, 37, 115, 34, 10]"

definition diag_text :: "nat \<Rightarrow> u8 list \<Rightarrow> nat \<Rightarrow> u8 list \<Rightarrow> int \<Rightarrow> u8 list \<Rightarrow> u8 list" where
  "diag_text i path line func code message =
     91 # decimal i @ [93, 32] @ path @ 58 # decimal line @ [32, 105, 110, 32] @ func @
     [40, 41, 32, 45, 45, 32, 101, 114, 114, 111, 114, 32] @ decimal_int code @ [58, 32, 34] @ message @ [34, 10]"

text \<open>
  What C says of \<open>snprintf\<close> with this format. A call is defined when the format, the file and the function are C
  strings and the message is terminated, none of it in the memory \<open>U\<close> that is written (the message array of a frame
  lies in the chain). Then the result is the length of the text, an \<open>int\<close>; with a size it writes as much of the text as
  leaves room for the terminator, and the terminator; with size 0 it writes nothing. Of other calls nothing is assumed.
\<close>

definition cstr_off :: "heap \<Rightarrow> uptr set \<Rightarrow> uptr \<Rightarrow> u8 list \<Rightarrow> bool" where
  "cstr_off h U p xs \<longleftrightarrow> cstr h p xs \<and> span p (Suc (length xs)) \<inter> U = {}"

definition terminated :: "u8 list \<Rightarrow> u8 list \<Rightarrow> bool" where
  "terminated message xs \<longleftrightarrow> 0 \<notin> set xs \<and> (\<exists>rest. message = xs @ 0 # rest)"

definition diag_call :: "heap \<Rightarrow> uptr set \<Rightarrow> uptr \<Rightarrow> diag_args \<Rightarrow> u8 list \<Rightarrow> bool" where
  "diag_call h U fmt args out \<longleftrightarrow> (case args of (i, file, line, func, code, message) \<Rightarrow>
     \<exists>path name xs. cstr_off h U fmt diag_format \<and> cstr_off h U file path \<and> cstr_off h U func name \<and> terminated message xs \<and>
       out = diag_text (unat i) path (unat line) name code xs \<and> length out < 2 ^ 31)"

definition snprintf_prints :: "diag_args vsnprintf \<Rightarrow> bool" where
  "snprintf_prints v \<longleftrightarrow> (\<forall>h s n fmt args out. diag_call h (span s (unat n)) fmt args out \<longrightarrow>
     n = 0 \<or> (\<exists>bs. object h s bs n) \<longrightarrow>
     (\<exists>h'. v h s n fmt args = ret (int (length out), h') \<and>
        (if n = 0 then h' = h
         else (\<exists>zs. object h' s (take (unat n - 1) out @ 0 # zs) n) \<and> (\<forall>q. q \<notin> span s (unat n) \<longrightarrow> h' q = h q))))"

lemma diag_callI:
  assumes "cstr_off h U fmt diag_format" "cstr_off h U file path" "cstr_off h U func name" "terminated message xs"
    "length (diag_text (unat i) path (unat line) name code xs) < 2 ^ 31"
  shows "diag_call h U fmt (i, file, line, func, code, message) (diag_text (unat i) path (unat line) name code xs)"
  unfolding diag_call_def prod.case using assms
  by (intro exI [of _ path] exI [of _ name] exI [of _ xs] conjI refl)

lemma cstr_off_frame:
  assumes "cstr_off h0 U p xs" "\<forall>q. q \<notin> U \<longrightarrow> h q = h0 q" "V \<subseteq> U"
  shows "cstr_off h V p xs"
  using assms cstr_reads [of h0 p xs U h] unfolding cstr_off_def by blast

lemma diag_call_frame:
  assumes "diag_call h0 U fmt args out" "\<forall>q. q \<notin> U \<longrightarrow> h q = h0 q" "V \<subseteq> U"
  shows "diag_call h V fmt args out"
  using assms(1) cstr_off_frame [OF _ assms(2,3)] unfolding diag_call_def by (auto split: prod.splits)

lemma snprintf_printsD:
  assumes "snprintf_prints v" "diag_call h0 U fmt args out" "\<forall>q. q \<notin> U \<longrightarrow> h q = h0 q"
  shows "length out < 2 ^ 31" "v h s 0 fmt args = ret (int (length out), h)"
    "n \<noteq> 0 \<Longrightarrow> object h s bs n \<Longrightarrow> span s (unat n) \<subseteq> U \<Longrightarrow>
      \<exists>h' zs. v h s n fmt args = ret (int (length out), h') \<and>
        object h' s (take (unat n - 1) out @ 0 # zs) n \<and> (\<forall>q. q \<notin> span s (unat n) \<longrightarrow> h' q = h q)"
proof -
  show "length out < 2 ^ 31" using assms(2) by (auto simp: diag_call_def)
  have "diag_call h (span s (unat (0 :: usize))) fmt args out" by (rule diag_call_frame [OF assms(2,3)]) simp
  from assms(1) [unfolded snprintf_prints_def, rule_format, OF this] show "v h s 0 fmt args = ret (int (length out), h)" by simp
  assume n: "n \<noteq> 0" "object h s bs n" "span s (unat n) \<subseteq> U"
  from assms(1) [unfolded snprintf_prints_def, rule_format, OF diag_call_frame [OF assms(2,3) n(3)]] n
  show "\<exists>h' zs. v h s n fmt args = ret (int (length out), h') \<and>
        object h' s (take (unat n - 1) out @ 0 # zs) n \<and> (\<forall>q. q \<notin> span s (unat n) \<longrightarrow> h' q = h q)" by auto
qed

definition diag_line :: "uptr \<Rightarrow> diag_frame list \<Rightarrow> nat \<Rightarrow> diag_args" where
  "diag_line q fs i = (let f = fs ! i in
     (of_nat i, if df_file f \<noteq> null_ptr then df_file f else q, df_line f,
      if df_func f \<noteq> null_ptr then df_func f else q, error_code (df_code f),
      if df_message f ! 0 \<noteq> 0 then df_message f else no_message))"

lemma diag_format_args_value:
  "df_message (fs ! i) \<noteq> [] \<Longrightarrow> diag_format_args q (of_nat i) (fs ! i) = ret (diag_line q fs i)"
  by (simp add: diag_format_args_def diag_line_def Let_def)

text \<open>One round: the output behind the text that is there, or nothing when the text fills the buffer.\<close>

lemma diag_render_round:
  assumes "snprintf_prints v" "diag_call h0 (span buf (unat n)) fmt args ys" "object h buf (take (unat n - 1) txs @ 0 # rest) n"
    "n \<noteq> 0" "\<forall>q. q \<notin> span buf (unat n) \<longrightarrow> h q = h0 q" "unat t = length txs"
  shows "\<exists>h' rest'. v h (if t < n then buf + t else buf) (if t < n then n - t else 0) fmt args = ret (int (length ys), h') \<and>
    object h' buf (take (unat n - 1) (txs @ ys) @ 0 # rest') n \<and> (\<forall>q. q \<notin> span buf (unat n) \<longrightarrow> h' q = h0 q)"
proof (cases "t < n")
  case False
  then have "unat n \<le> length txs" using assms(6) by (simp add: word_less_nat_alt)
  then have "take (unat n - 1) (txs @ ys) = take (unat n - 1) txs" by simp
  then show ?thesis using False snprintf_printsD(2) [OF assms(1,2,5)] assms(3,5) by auto
next
  case True
  then have lt: "length txs < unat n" using assms(6) by (simp add: word_less_nat_alt)
  let ?dst = "buf + of_nat (length txs)" and ?rem = "of_nat (length (0 # rest)) :: usize"
  have t: "t = of_nat (length txs)" using assms(6) by (rule of_unat)
  have o: "object h buf (txs @ (0 # rest) @ []) n" using assms(3) lt by simp
  then have len: "length txs + Suc (length rest) = unat n" "fits buf (unat n)" by (auto simp: object_def)
  have rem: "unat ?rem = Suc (length rest)" "n - t = ?rem"
  proof -
    show "unat ?rem = Suc (length rest)" using len(1) usize_bound [of n] unat_of_small [of "Suc (length rest)"] by simp
    then show "n - t = ?rem" using len(1) True assms(6) by (simp add: usize_eq_iff unat_sub_if' word_less_nat_alt)
  qed
  have "unat ?dst = unat buf + length txs" using len by (intro unat_ptr_plus) auto
  then have sub: "span ?dst (unat ?rem) \<subseteq> span buf (unat n)" using len rem(1) by (auto simp: span_def)
  have "?rem \<noteq> 0" using rem(1) by auto
  from snprintf_printsD(3) [OF assms(1,2,5) this object_middle [OF o] sub] obtain h' zs where
    h': "v h ?dst ?rem fmt args = ret (int (length ys), h')" "object h' ?dst (take (unat ?rem - 1) ys @ 0 # zs) ?rem"
      "\<forall>q. q \<notin> span ?dst (unat ?rem) \<longrightarrow> h' q = h q" by auto
  let ?new = "take (unat ?rem - 1) ys @ 0 # zs"
  have "length ?new = length (0 # rest)" "region h' ?dst ?new" using h'(2) rem(1) by (simp_all only: object_def) auto
  with object_replace [OF o, of ?new h'] h'(3) rem(1) have
    new: "object h' buf (txs @ ?new) n" "\<forall>q. q \<notin> span buf (unat n) \<longrightarrow> h' q = h q" by auto
  have eq: "txs @ ?new = take (unat n - 1) (txs @ ys) @ 0 # zs" using rem(1) len(1) [symmetric] by simp
  have "object h' buf (take (unat n - 1) (txs @ ys) @ 0 # zs) n" using new(1) unfolding eq .
  moreover have "\<forall>q. q \<notin> span buf (unat n) \<longrightarrow> h' q = h0 q" using new(2) assms(5) by simp
  ultimately show ?thesis using True h'(1) t rem(2) by (intro exI [of _ h'] exI [of _ zs]) simp
qed

lemma diag_render_loop_value:
  assumes "snprintf_prints v" "n \<noteq> 0" "diag_ok d"
    "\<And>j. j < unat (dg_depth d) \<Longrightarrow> diag_call h0 (span buf (unat n)) fmt (diag_line q (dg_frames d) j) (out j)"
  shows "object h buf (take (unat n - 1) txs @ 0 # rest) n \<Longrightarrow> \<forall>q. q \<notin> span buf (unat n) \<longrightarrow> h q = h0 q \<Longrightarrow>
    t = of_nat (length txs) \<Longrightarrow> length txs + k * 2 ^ 31 < 2 ^ 64 \<Longrightarrow> i + k = unat (dg_depth d) \<Longrightarrow>
    ys = txs @ concat (map (\<lambda>j. out j) [i..<i + k]) \<Longrightarrow>
    \<exists>h' rest'. diag_render_loop v fmt q d buf n h t (of_nat i) k = ret (of_nat (length ys), h') \<and> length ys < 2 ^ 64 \<and>
      object h' buf (take (unat n - 1) ys @ 0 # rest') n \<and> (\<forall>q. q \<notin> span buf (unat n) \<longrightarrow> h' q = h0 q)"
proof (induction k arbitrary: h txs rest t i)
  case 0
  then show ?case by auto
next
  case (Suc k)
  have i: "i < 8" "i < length (dg_frames d)" "dg_frames d ! i \<in> set (dg_frames d)"
    using Suc.prems(5) assms(3) by (auto simp: diag_ok_def)
  then have ui: "unat (of_nat i :: usize) = i" by (intro unat_of_small) simp
  have "df_message (dg_frames d ! i) \<noteq> []" using i(3) assms(3) by (auto simp: diag_ok_def)
  note args = diag_format_args_value [OF this]
  let ?a = "diag_line q (dg_frames d) i"
  have call: "diag_call h0 (span buf (unat n)) fmt ?a (out i)" using assms(4) Suc.prems(5) by simp
  have t: "unat t = length txs" using Suc.prems(3,4) by (simp add: unat_of_small)
  from diag_render_round [OF assms(1) call Suc.prems(1) assms(2) Suc.prems(2) t] obtain h1 rest1 where
    h1: "v h (if t < n then buf + t else buf) (if t < n then n - t else 0) fmt ?a = ret (int (length (out i)), h1)"
      "object h1 buf (take (unat n - 1) (txs @ out i) @ 0 # rest1) n" "\<forall>q. q \<notin> span buf (unat n) \<longrightarrow> h1 q = h0 q" by blast
  have "length (out i) < 2 ^ 31" by (rule snprintf_printsD(1) [OF assms(1) call Suc.prems(2)])
  then have small: "length (txs @ out i) + k * 2 ^ 31 < 2 ^ 64" using Suc.prems(4) by simp
  have upt: "[i..<i + Suc k] = i # [Suc i..<Suc i + k]" by (subst upt_conv_Cons) simp_all
  have ys: "ys = (txs @ out i) @ concat (map (\<lambda>j. out j) [Suc i..<Suc i + k])"
    by (simp only: Suc.prems(6) upt list.map concat.simps append_assoc)
  have "Suc i + k = unat (dg_depth d)" using Suc.prems(5) by simp
  from Suc.IH [OF h1(2,3) refl small this ys]
  have "\<exists>h' rest'. diag_render_loop v fmt q d buf n h1 (of_nat (length (txs @ out i))) (of_nat (Suc i)) k = ret (of_nat (length ys), h') \<and>
      length ys < 2 ^ 64 \<and> object h' buf (take (unat n - 1) ys @ 0 # rest') n \<and> (\<forall>q. q \<notin> span buf (unat n) \<longrightarrow> h' q = h0 q)" .
  moreover have "diag_render_loop v fmt q d buf n h t (of_nat i) (Suc k) =
      diag_render_loop v fmt q d buf n h1 (of_nat (length (txs @ out i))) (of_nat (Suc i)) k"
    using i(2) ui args h1(1) unfolding Suc.prems(3) by (simp add: Let_def add.commute split del: if_split)
  ultimately show ?case by simp
qed

text \<open>
  The strings of a frame, as the header asks (\<open>frame_strings_ok\<close>): the file and the function are NULL or C strings, here
  outside the memory \<open>U\<close>, and the message is terminated within its array. \<open>frame_text\<close> is the line that shows them, with
  a question mark and \<open>(no message)\<close> for what is missing.
\<close>

definition frame_strings_ok :: "heap \<Rightarrow> uptr set \<Rightarrow> diag_frame \<Rightarrow> u8 list \<times> u8 list \<times> u8 list \<Rightarrow> bool" where
  "frame_strings_ok h U f t = (case t of (path, name, xs) \<Rightarrow>
     (if df_file f = null_ptr then path = [63] else cstr_off h U (df_file f) path) \<and>
     (if df_func f = null_ptr then name = [63] else cstr_off h U (df_func f) name) \<and>
     length (df_message f) = 128 \<and> terminated (df_message f) xs)"

definition frame_text :: "nat \<Rightarrow> diag_frame \<Rightarrow> u8 list \<times> u8 list \<times> u8 list \<Rightarrow> u8 list" where
  "frame_text i f t = (case t of (path, name, xs) \<Rightarrow>
     diag_text i path (unat (df_line f)) name (error_code (df_code f)) (if xs = [] then butlast no_message else xs))"

lemma diag_line_call:
  assumes "frame_strings_ok h U (fs ! i) t" "cstr_off h U fmt diag_format" "cstr_off h U q [63]"
    "length (frame_text i (fs ! i) t) < 2 ^ 31" "i < 2 ^ 64"
  shows "diag_call h U fmt (diag_line q fs i) (frame_text i (fs ! i) t)"
proof -
  obtain path name xs where t: "t = (path, name, xs)" by (cases t)
  obtain rest where m: "df_message (fs ! i) = xs @ 0 # rest" "0 \<notin> set xs" using assms(1) t by (auto simp: frame_strings_ok_def terminated_def)
  have c: "cstr_off h U (if df_file (fs ! i) \<noteq> null_ptr then df_file (fs ! i) else q) path"
    "cstr_off h U (if df_func (fs ! i) \<noteq> null_ptr then df_func (fs ! i) else q) name"
    using assms(1,3) t by (auto simp: frame_strings_ok_def split: if_splits)
  have m': "terminated (if df_message (fs ! i) ! 0 \<noteq> 0 then df_message (fs ! i) else no_message)
      (if xs = [] then butlast no_message else xs)"
  proof (cases xs)
    case Nil
    then show ?thesis using m(1) by (simp add: terminated_def no_message_def)
  next
    case (Cons x ys)
    then show ?thesis using m by (auto simp: terminated_def)
  qed
  have u: "unat (of_nat i :: usize) = i" using assms(5) by (intro unat_of_small)
  from diag_callI [OF assms(2) c m', of "of_nat i" "df_line (fs ! i)" "error_code (df_code (fs ! i))"] assms(4)
  show ?thesis unfolding diag_line_def Let_def frame_text_def t prod.case u by blast
qed

subsection \<open>Properties\<close>

text \<open>C29: After any number of pushes onto an empty chain the chain holds the last eight pushed, oldest first, each
  with its location, its code and its message cut to 127 bytes; a push reports a dropped frame exactly from the
  ninth on. The root of the chain is the oldest frame that is left, the latest the one pushed last.\<close>

theorem diag_keeps_last_frames:
  assumes "list_all2 (event_at h) es vs"
  shows "\<exists>d. diag_pushes h es (Some diag_init) = ret (map (\<lambda>i. 8 \<le> i) [0..<length es], Some d) \<and>
    diag_depth (Some d) = of_nat (min 8 (length es)) \<and>
    (\<exists>fs. list_all2 frame_shows (drop (length vs - 8) vs) fs \<and>
      (\<forall>i. diag_frame_at (Some d) i = ret (if unat i < length fs then Some (fs ! unat i) else None)) \<and>
      diag_root (Some d) = ret (if fs = [] then None else Some (hd fs)) \<and>
      diag_latest (Some d) = ret (if fs = [] then None else Some (last fs)))"
proof -
  from diag_pushes_value [OF diag_init_ok(1) assms, of "[]"] obtain d where
    d: "diag_pushes h es (Some diag_init) = ret (map (\<lambda>i. 8 \<le> i) [0..<length es], Some d)" "diag_ok d"
      "list_all2 frame_shows (last_part 8 vs) (diag_chain d)" by (auto simp: diag_init_ok last_part_def)
  moreover have "length (diag_chain d) = min 8 (length es)"
    using list_all2_lengthD [OF d(3)] list_all2_lengthD [OF assms] by (auto simp: last_part_def)
  moreover have "list_all2 frame_shows (drop (length vs - 8) vs) (diag_chain d)" using d(3) by (simp only: last_part_def)
  ultimately show ?thesis using diag_reads [OF d(2)] by (intro exI [of _ d] conjI exI [of _ "diag_chain d"]) simp_all
qed

theorem diag_keeps_last_frames_witness:
  "\<exists>d. diag_pushes Map.empty (map (\<lambda>i. (64, i, 80, ERR_TIMEOUT, 0)) [1, 2, 3, 4, 5, 6, 7, 8, 9]) (Some diag_init) =
      ret ([False, False, False, False, False, False, False, False, True], Some d) \<and> diag_depth (Some d) = 8"
  using diag_keeps_last_frames [of Map.empty "map (\<lambda>i. (64, i, 80, ERR_TIMEOUT, 0)) [1, 2, 3, 4, 5, 6, 7, 8, 9]"
      "map (\<lambda>i. (64, i, 80, ERR_TIMEOUT, [])) [1, 2, 3, 4, 5, 6, 7, 8, 9]"]
  by (auto simp: event_at_def message_at_def null_ptr_def upt_rec)

text \<open>
  For the witness: a \<open>snprintf\<close> that reads the format and the strings in the heap, where they have to be, and writes the
  text.
\<close>

definition read_cstr :: "heap \<Rightarrow> uptr \<Rightarrow> u8 list run" where
  "read_cstr h p = bindR (str_len h p) (\<lambda>k. read_bytes h p (unat k))"

definition snprintf_frame :: "diag_args vsnprintf" where
  "snprintf_frame h s n fmt args = (case args of (i, file, line, func, code, message) \<Rightarrow>
     bindR (read_cstr h fmt) (\<lambda>f. if f \<noteq> diag_format then undefined_behaviour ''format'' else
     bindR (read_cstr h file) (\<lambda>path. bindR (read_cstr h func) (\<lambda>name.
     if 0 \<notin> set message then undefined_behaviour ''read outside every object''
     else vsn_copy h s n fmt (diag_text (unat i) path (unat line) name code (takeWhile (\<lambda>c. c \<noteq> 0) message))))))"

lemma read_cstr_value: "cstr h p xs \<Longrightarrow> read_cstr h p = ret xs"
  using read_bytes_region [OF cstr_region(1), of h p xs] cstr_bounds [of h p xs]
  by (simp add: read_cstr_def str_len_value unat_of_small)

lemma vsn_copy_write:
  assumes "length out < 2 ^ 31" "n \<noteq> 0" "object h s bs n"
  shows "\<exists>h' zs. vsn_copy h s n fmt out = ret (int (length out), h') \<and>
      object h' s (take (unat n - 1) out @ 0 # zs) n \<and> (\<forall>q. q \<notin> span s (unat n) \<longrightarrow> h' q = h q)"
proof -
  have pos: "0 < unat n" using assms(2) by (simp add: unat_gt_0)
  let ?ys = "take (unat n - 1) out @ [0]"
  have "length ?ys \<le> length bs" using assms(3) pos by (auto simp: object_def min_def)
  then have "length ?ys = length (take (length ?ys) bs)" by simp
  moreover have "object h s ([] @ take (length ?ys) bs @ drop (length ?ys) bs) n" using assms(3) by (simp only: append_Nil append_take_drop_id)
  ultimately obtain h1 where "write_bytes h s ?ys = ret h1" "object h1 s (?ys @ drop (length ?ys) bs) n"
    "\<forall>q. q \<notin> span s (unat n) \<longrightarrow> h1 q = h q" using object_splice [of h s "[]" "take (length ?ys) bs" "drop (length ?ys) bs" n ?ys] by auto
  then show ?thesis using assms(1,2) by (intro exI [of _ h1] exI [of _ "drop (length ?ys) bs"]) (simp add: vsn_copy_def not_le)
qed

lemma snprintf_frame_prints: "snprintf_prints snprintf_frame"
  unfolding snprintf_prints_def
proof (intro allI impI)
  fix h s n fmt args out
  assume c: "diag_call h (span s (unat n)) fmt args out" and o: "n = 0 \<or> (\<exists>bs. object h s bs n)"
  obtain i loc line func code message where args: "args = (i, loc, line, func, code, message)" by (cases args)
  from c obtain path name xs where w: "cstr h fmt diag_format" "cstr h loc path" "cstr h func name" "terminated message xs"
    "out = diag_text (unat i) path (unat line) name code xs" "length out < 2 ^ 31"
    by (auto simp: diag_call_def args cstr_off_def)
  have "0 \<in> set message" "takeWhile (\<lambda>c. c \<noteq> 0) message = xs" using w(4) by (auto simp: terminated_def takeWhile_append)
  then have val: "snprintf_frame h s n fmt args = vsn_copy h s n fmt out"
    using w(5) by (simp add: snprintf_frame_def args read_cstr_value [OF w(1)] read_cstr_value [OF w(2)] read_cstr_value [OF w(3)])
  show "\<exists>h'. snprintf_frame h s n fmt args = ret (int (length out), h') \<and>
      (if n = 0 then h' = h
       else (\<exists>zs. object h' s (take (unat n - 1) out @ 0 # zs) n) \<and> (\<forall>q. q \<notin> span s (unat n) \<longrightarrow> h' q = h q))"
  proof (cases "n = 0")
    case True
    then show ?thesis using w(6) unfolding val by (simp add: vsn_copy_def)
  next
    case False
    with o vsn_copy_write [OF w(6), of n h s _ fmt] show ?thesis unfolding val by auto
  qed
qed

text \<open>C30: Rendering a chain writes the lines of its frames, in order, each with its index, location, error code and message in
  the format of the header, as far as they fit in the buffer with the terminator, writes nothing outside the buffer,
  and returns the length of the whole text, which may exceed the size of the buffer. The files and functions are NULL or
  C strings outside the buffer and the messages are terminated, as the header asks; \<open>snprintf\<close> is any function that
  prints this format for such arguments, and each line is short enough for its result to be an \<open>int\<close>.\<close>

theorem diag_render_correct:
  assumes "diag_ok d" "object h buf bs n" "n \<noteq> 0" "snprintf_prints v"
    and "cstr_off h (span buf (unat n)) fmt diag_format" "cstr_off h (span buf (unat n)) q [63]"
    and "list_all2 (frame_strings_ok h (span buf (unat n))) (diag_chain d) ts"
    and "lines = map (\<lambda>i. frame_text i (diag_chain d ! i) (ts ! i)) [0..<length (diag_chain d)]"
    and "\<forall>xs \<in> set lines. length xs < 2 ^ 31"
  shows "\<exists>h' rest. diag_render v fmt q h (Some d) buf n = ret (of_nat (length (concat lines)), h') \<and>
    unat (of_nat (length (concat lines)) :: usize) = length (concat lines) \<and>
    object h' buf (take (unat n - 1) (concat lines) @ 0 # rest) n \<and>
    (\<forall>p. p \<notin> span buf (unat n) \<longrightarrow> h' p = h p)"
proof -
  have ok: "length (dg_frames d) = 8" "unat (dg_depth d) \<le> 8" using assms(1) by (simp_all add: diag_ok_def)
  have len: "length (diag_chain d) = unat (dg_depth d)" using ok by (simp add: diag_chain_def)
  have at: "diag_chain d ! i = dg_frames d ! i" if "i < unat (dg_depth d)" for i using that ok by (simp add: diag_chain_def)
  let ?out = "\<lambda>i. frame_text i (dg_frames d ! i) (ts ! i)"
  have call: "diag_call h (span buf (unat n)) fmt (diag_line q (dg_frames d) i) (?out i)" if i: "i < unat (dg_depth d)" for i
  proof -
    have "frame_strings_ok h (span buf (unat n)) (dg_frames d ! i) (ts ! i)"
      using list_all2_nthD [OF assms(7), of i] i len at by simp
    moreover have "length (?out i) < 2 ^ 31" using assms(8,9) i len at by simp
    moreover have "i < 2 ^ 64" using i ok(2) by simp
    ultimately show ?thesis using assms(5,6) by (intro diag_line_call)
  qed
  obtain b zs where "bs = [] @ [b] @ zs" using assms(2,3) by (cases bs) (auto simp: object_def unat_eq_zero)
  with object_splice [of h buf "[]" "[b]" zs n "[0]"] assms(2) obtain h1 where h1: "write_bytes h buf [0] = ret h1"
    "object h1 buf (take (unat n - 1) [] @ 0 # zs) n" "\<forall>q. q \<notin> span buf (unat n) \<longrightarrow> h1 q = h q" by auto
  have b: "diag_clear_buf h buf n = ret h1" "buf \<noteq> null_ptr"
    using h1(1) assms(2,3) by (auto simp: diag_clear_buf_def object_def null_ptr_def word_gt_0)
  have "lines = map ?out [0..<unat (dg_depth d)]" unfolding assms(8) len using at by (intro map_cong) simp_all
  then have ys: "concat lines = [] @ concat (map ?out [0..<0 + unat (dg_depth d)])" by simp
  from diag_render_loop_value [OF assms(4,3,1) call h1(2,3) _ _ _ ys, of 0] ok obtain h' rest where
    "diag_render_loop v fmt q d buf n h1 0 0 (unat (dg_depth d)) = ret (of_nat (length (concat lines)), h')"
    "length (concat lines) < 2 ^ 64"
    "object h' buf (take (unat n - 1) (concat lines) @ 0 # rest) n" "\<forall>q. q \<notin> span buf (unat n) \<longrightarrow> h' q = h q" by auto
  then show ?thesis using b assms(3) unat_of_small [of "length (concat lines)"]
    by (cases "dg_depth d = 0") (auto simp: diag_render_def)
qed

theorem diag_render_correct_witness:
  "let h = (\<lambda>p. if p \<in> span 64 8 then Some 7 else if p \<in> span 500 40 then Some ((diag_format @ [0]) ! (unat p - 500))
        else [300 \<mapsto> 63, 301 \<mapsto> 0, 400 \<mapsto> 97, 401 \<mapsto> 0] p);
     f = \<lparr>df_file = 400, df_func = 0, df_line = 7, df_code = ERR_TIMEOUT, df_message = 120 # replicate 127 0\<rparr>;
     d = \<lparr>dg_frames = f # replicate 7 diag_zero_frame, dg_depth = 1\<rparr>
   in \<exists>h' rest. diag_render snprintf_frame 500 300 h (Some d) 64 8 = ret (33, h') \<and>
     object h' 64 ([91, 48, 93, 32, 97, 58, 55] @ 0 # rest) 8"
proof -
  let ?h = "\<lambda>p. if p \<in> span 64 8 then Some 7 else if p \<in> span 500 40 then Some ((diag_format @ [0]) ! (unat p - 500))
        else [300 \<mapsto> 63, 301 \<mapsto> 0, 400 \<mapsto> 97, 401 \<mapsto> 0] p"
  let ?f = "\<lparr>df_file = 400, df_func = 0, df_line = 7, df_code = ERR_TIMEOUT, df_message = 120 # replicate 127 0\<rparr>"
  let ?d = "\<lparr>dg_frames = ?f # replicate 7 diag_zero_frame, dg_depth = 1\<rparr>" and ?t = "([97], [63], [120]) :: u8 list \<times> u8 list \<times> u8 list"
  let ?U = "span 64 (unat (8 :: usize))"
  have chain: "diag_chain ?d = [?f]" by (simp add: diag_chain_def)
  have ok: "diag_ok ?d" by (simp add: diag_ok_def diag_zero_frame_def diag_max_msg_len_def)
  have o: "object ?h 64 [7, 7, 7, 7, 7, 7, 7, 7] 8" by (simp add: object_def fits_def span_def)
  have fmt: "cstr_off ?h ?U 500 diag_format" by (auto simp: cstr_off_def cstr_def fits_def span_def diag_format_def)
  have q: "cstr_off ?h ?U 300 [63]" by (auto simp: cstr_off_def cstr_def fits_def span_def)
  have loc: "cstr_off ?h ?U 400 [97]" by (auto simp: cstr_off_def cstr_def fits_def span_def)
  have "replicate 127 (0 :: u8) = 0 # replicate 126 0" using replicate_Suc [of 126 "0 :: u8"] by simp
  then have msg: "terminated (120 # replicate 127 0) [120]" by (auto simp: terminated_def)
  have ts: "list_all2 (frame_strings_ok ?h ?U) (diag_chain ?d) [?t]"
    unfolding chain using loc msg by (simp add: frame_strings_ok_def null_ptr_def)
  have tx: "frame_text 0 ?f ?t = [91, 48, 93, 32, 97, 58, 55, 32, 105, 110, 32, 63, 40, 41, 32, 45, 45, 32, 101, 114, 114, 111, 114, 32,
      50, 48, 50, 58, 32, 34, 120, 34, 10]" by (simp add: frame_text_def diag_text_def decimal_int_def decimal.simps)
  have lines: "[frame_text 0 ?f ?t] = map (\<lambda>i. frame_text i (diag_chain ?d ! i) ([?t] ! i)) [0..<length (diag_chain ?d)]"
    unfolding chain by simp
  have small: "\<forall>xs \<in> set [frame_text 0 ?f ?t]. length xs < 2 ^ 31" unfolding tx by simp
  have n: "(8 :: usize) \<noteq> 0" by simp
  from diag_render_correct [OF ok o n snprintf_frame_prints fmt q ts lines small] obtain h' rest where
    "diag_render snprintf_frame 500 300 ?h (Some ?d) 64 8 = ret (of_nat (length (concat [frame_text 0 ?f ?t])), h')"
    "object h' 64 (take (unat (8 :: usize) - 1) (concat [frame_text 0 ?f ?t]) @ 0 # rest) 8" by blast
  then show ?thesis unfolding tx Let_def by auto
qed

end
