(* ===== verification/Canon_Array.thy ===== *)
theory Canon_Array
  imports Canon_Slice Canon_Vec
begin

section \<open>Fixed arrays (data/array.h)\<close>

text \<open>
  \<open>array_type_N\<close> is the list of its \<open>N\<close> items; \<open>n\<close> is \<open>N\<close>, which the header requires to be positive, and
  \<open>esz\<close> is \<open>sizeof(type)\<close>. \<open>zero\<close> is the element whose bytes are all zero. A pointer to an item is its index.
  Where the code hands out bytes, \<open>addr\<close> is the address of the items; \<open>repr\<close> gives the bytes of an
  element, which determine it for the types without padding that the header allows there.
\<close>

definition array_zero :: "'a \<Rightarrow> usize \<Rightarrow> 'a list" where
  "array_zero zero n = replicate (unat n) zero"

text \<open>The loop of the two fill functions: \<open>k\<close> is \<open>N - i\<close>.\<close>

fun array_fill_loop :: "'a list \<Rightarrow> 'a \<Rightarrow> usize \<Rightarrow> nat \<Rightarrow> 'a list run" where
  "array_fill_loop a v i 0 = ret a"
| "array_fill_loop a v i (Suc k) = bindR (arr_set a i v) (\<lambda>a'. array_fill_loop a' v (i + 1) k)"

text \<open>\<open>junk\<close> are the items of the local array before the loop.\<close>

definition array_fill :: "'a list \<Rightarrow> usize \<Rightarrow> 'a \<Rightarrow> 'a list run" where
  "array_fill junk n v = array_fill_loop junk v 0 (unat n)"

definition array_from_ptr :: "bool \<Rightarrow> usize \<Rightarrow> 'a \<Rightarrow> usize \<Rightarrow> 'a list cptr \<Rightarrow> usize \<Rightarrow> 'a list run" where
  "array_from_ptr builtin esz zero n src cnt =
     (let a = replicate (unat n) zero in
      if src = None \<or> cnt = 0 then ret a
      else let copy_n = (if cnt < n then cnt else n) in
        bindR (checked_mul builtin copy_n esz (Some 0)) (\<lambda>(fits, _).
          if \<not> fits then ret a
          else bindR (deref src) (\<lambda>xs. arr_copy a 0 xs copy_n)))"

definition array_len :: "usize \<Rightarrow> usize" where
  "array_len n = n"

definition array_size_bytes :: "bool \<Rightarrow> usize \<Rightarrow> usize \<Rightarrow> usize run" where
  "array_size_bytes builtin esz n = bindR (checked_mul builtin n esz (Some 0)) (\<lambda>(fits, w).
     if \<not> fits then ret canon_usize_max else deref w)"

definition array_get :: "usize \<Rightarrow> 'a list cptr \<Rightarrow> usize \<Rightarrow> 'a cptr \<Rightarrow> (bool \<times> 'a cptr) run" where
  "array_get n p i out = (case p of
     None \<Rightarrow> ret (False, out)
   | Some a \<Rightarrow> if out = None \<or> i \<ge> n then ret (False, out) else bindR (arr_get a i) (\<lambda>x. ret (True, Some x)))"

definition array_get_option :: "usize \<Rightarrow> 'a list cptr \<Rightarrow> usize \<Rightarrow> 'a option run" where
  "array_get_option n p i = (case p of
     None \<Rightarrow> ret option_none
   | Some a \<Rightarrow> if i \<ge> n then ret option_none else bindR (arr_get a i) (\<lambda>x. ret (option_some x)))"

definition array_get_unchecked :: "usize \<Rightarrow> 'a list cptr \<Rightarrow> usize \<Rightarrow> 'a run" where
  "array_get_unchecked n p i =
     ensure_msg (p \<noteq> None) ''array_get_unchecked: a cannot be NULL''
     (ensure_msg (i < n) ''array_get_unchecked: index out of bounds''
     (bindR (deref p) (\<lambda>a. arr_get a i)))"

definition array_set :: "usize \<Rightarrow> 'a list cptr \<Rightarrow> usize \<Rightarrow> 'a \<Rightarrow> (bool \<times> 'a list cptr) run" where
  "array_set n p i v = (case p of
     None \<Rightarrow> ret (False, None)
   | Some a \<Rightarrow> if i \<ge> n then ret (False, p) else bindR (arr_set a i v) (\<lambda>a'. ret (True, Some a')))"

definition array_at :: "usize \<Rightarrow> 'a list cptr \<Rightarrow> usize \<Rightarrow> usize cptr" where
  "array_at n p i = (case p of None \<Rightarrow> None | Some a \<Rightarrow> if i \<ge> n then None else Some i)"

definition array_first :: "'a list cptr \<Rightarrow> usize run" where
  "array_first p = require_msg (p \<noteq> None) ''array_first: a cannot be NULL'' (ret 0)"

definition array_last :: "usize \<Rightarrow> 'a list cptr \<Rightarrow> usize run" where
  "array_last n p = require_msg (p \<noteq> None) ''array_last: a cannot be NULL'' (ret (n - 1))"

definition array_first_option :: "'a list cptr \<Rightarrow> 'a option run" where
  "array_first_option p = (case p of
     None \<Rightarrow> ret option_none | Some a \<Rightarrow> bindR (arr_get a 0) (\<lambda>x. ret (option_some x)))"

definition array_last_option :: "usize \<Rightarrow> 'a list cptr \<Rightarrow> 'a option run" where
  "array_last_option n p = (case p of
     None \<Rightarrow> ret option_none | Some a \<Rightarrow> bindR (arr_get a (n - 1)) (\<lambda>x. ret (option_some x)))"

definition array_fill_all :: "usize \<Rightarrow> 'a list cptr \<Rightarrow> 'a \<Rightarrow> 'a list cptr run" where
  "array_fill_all n p v = (case p of
     None \<Rightarrow> ret None | Some a \<Rightarrow> bindR (array_fill_loop a v 0 (unat n)) (\<lambda>a'. ret (Some a')))"

definition array_copy_from :: "'a list cptr \<Rightarrow> 'a list cptr \<Rightarrow> 'a list cptr run" where
  "array_copy_from dst src =
     require_msg (dst \<noteq> None) ''array_copy_from: dst cannot be NULL''
     (require_msg (src \<noteq> None) ''array_copy_from: src cannot be NULL'' (ret src))"

text \<open>\<open>same\<close> says that the two pointers are equal.\<close>

definition array_equal :: "('a \<Rightarrow> u8 list) \<Rightarrow> bool \<Rightarrow> 'a list cptr \<Rightarrow> 'a list cptr \<Rightarrow> bool" where
  "array_equal repr same p q = (case (p, q) of
     (Some a, Some b) \<Rightarrow> same \<or> concat (map repr a) = concat (map repr b)
   | _ \<Rightarrow> False)"

definition array_as_slice :: "usize \<Rightarrow> 'a list cptr \<Rightarrow> 'a slice run" where
  "array_as_slice n p = require_msg (p \<noteq> None) ''array_as_slice: a cannot be NULL'' (slice_from p n)"

definition array_as_bytes :: "bool \<Rightarrow> usize \<Rightarrow> usize \<Rightarrow> uptr \<Rightarrow> 'a list cptr \<Rightarrow> bytes run" where
  "array_as_bytes builtin esz n addr p = require_msg (p \<noteq> None) ''array_as_bytes: a cannot be NULL''
     (bindR (checked_mul builtin n esz (Some 0)) (\<lambda>(fits, w).
        if \<not> fits then ret bytes_empty else bindR (deref w) (bytes_from addr)))"

definition array_as_cbytes :: "bool \<Rightarrow> usize \<Rightarrow> usize \<Rightarrow> uptr \<Rightarrow> 'a list cptr \<Rightarrow> cbytes run" where
  "array_as_cbytes builtin esz n addr p = require_msg (p \<noteq> None) ''array_as_cbytes: a cannot be NULL''
     (bindR (checked_mul builtin n esz (Some 0)) (\<lambda>(fits, w).
        if \<not> fits then ret cbytes_empty else bindR (deref w) (cbytes_from addr)))"

text \<open>\<open>ARRAY_FOR\<close> with a loop body on a state \<open>s\<close>, which may change the array; \<open>k\<close> is \<open>N - i\<close>.\<close>

fun array_for_loop :: "('a list \<Rightarrow> usize \<Rightarrow> 's \<Rightarrow> ('a list \<times> 's) run) \<Rightarrow> usize \<Rightarrow> 'a list \<Rightarrow> 's \<Rightarrow> nat \<Rightarrow> ('a list \<times> 's) run" where
  "array_for_loop body i a s 0 = ret (a, s)"
| "array_for_loop body i a s (Suc k) = bindR (body a i s) (\<lambda>(a', s'). array_for_loop body (i + 1) a' s' k)"

definition array_for :: "('a list \<Rightarrow> usize \<Rightarrow> 's \<Rightarrow> ('a list \<times> 's) run) \<Rightarrow> usize \<Rightarrow> 'a list cptr \<Rightarrow> 's \<Rightarrow> ('a list cptr \<times> 's) run" where
  "array_for body n p s = (case p of
     None \<Rightarrow> ret (None, s)
   | Some a \<Rightarrow> bindR (array_for_loop body 0 a s (unat n)) (\<lambda>(a', s'). ret (Some a', s')))"

subsection \<open>The functions on lists\<close>

definition array_ok :: "usize \<Rightarrow> 'a list \<Rightarrow> bool" where
  "array_ok n a \<longleftrightarrow> length a = unat n \<and> 0 < n"

lemma array_fill_loop_value:
  "length a = i + k \<Longrightarrow> i + k < 2 ^ 64 \<Longrightarrow> array_fill_loop a v (of_nat i) k = ret (take i a @ replicate k v)"
proof (induction k arbitrary: a i)
  case (Suc k)
  have i: "unat (of_nat i :: usize) = i" using Suc.prems(2) by (intro unat_of_small) simp
  with Suc.IH [of "a[i := v]" "Suc i"] Suc.prems show ?case by (simp add: take_Suc_update add.commute)
qed simp

lemma array_fill_value: "array_ok n junk \<Longrightarrow> array_fill junk n v = ret (replicate (unat n) v)"
  using array_fill_loop_value [of junk 0 "unat n" v] usize_bound [of n] by (simp add: array_fill_def array_ok_def)

lemma array_fill_all_value: "array_ok n a \<Longrightarrow> array_fill_all n (Some a) v = ret (Some (replicate (unat n) v))"
  using array_fill_loop_value [of a 0 "unat n" v] usize_bound [of n] by (simp add: array_fill_all_def array_ok_def)

text \<open>The source may be shorter or longer than the array: the rest of the array is zero, the rest of the source is left.\<close>

lemma array_from_ptr_value:
  assumes "unat cnt \<le> length xs" "unat n * unat esz < 2 ^ 64"
  shows "array_from_ptr builtin esz zero n (Some xs) cnt =
    ret (take (unat n) (take (unat cnt) xs @ replicate (unat n) zero))"
proof -
  let ?k = "if cnt < n then cnt else n"
  have k: "unat ?k = min (unat cnt) (unat n)" by (auto simp: word_less_nat_alt min_def)
  then have "unat ?k * unat esz \<le> unat n * unat esz" by simp
  then have "unat ?k * unat esz < 2 ^ 64" using assms(2) by linarith
  then show ?thesis using assms(1) k
    by (auto simp: array_from_ptr_def Let_def arr_copy_def min_def unat_eq_zero take_replicate word_less_nat_alt)
qed

lemma array_access:
  assumes "array_ok n a"
  shows "array_get n (Some a) i (Some y) = ret (if unat i < length a then (True, Some (a ! unat i)) else (False, Some y))"
    "array_get_option n (Some a) i = ret (if unat i < length a then Some (a ! unat i) else None)"
    "array_set n (Some a) i x = ret (unat i < length a, Some (a[unat i := x]))"
    "array_first_option (Some a) = ret (Some (hd a))" "array_last_option n (Some a) = ret (Some (last a))"
proof -
  have n: "length a = unat n" "0 < unat n" using assms by (simp_all add: array_ok_def word_less_nat_alt)
  then have "n \<noteq> 0" by auto
  with n have "a \<noteq> []" "unat (n - 1) = length a - 1" by (auto simp: unat_usize_pred)
  then show "array_get n (Some a) i (Some y) = ret (if unat i < length a then (True, Some (a ! unat i)) else (False, Some y))"
    "array_get_option n (Some a) i = ret (if unat i < length a then Some (a ! unat i) else None)"
    "array_set n (Some a) i x = ret (unat i < length a, Some (a[unat i := x]))"
    "array_first_option (Some a) = ret (Some (hd a))" "array_last_option n (Some a) = ret (Some (last a))"
    using n by (auto simp: array_get_def array_get_option_def array_set_def array_first_option_def array_last_option_def
        option_some_def option_none_def word_le_nat_alt hd_conv_nth last_conv_nth list_update_beyond)
qed

lemma array_equal_iff:
  assumes "inj repr" "\<And>x. length (repr x) = m" "0 < m" "length a = length b"
  shows "array_equal repr same (Some a) (Some b) \<longleftrightarrow> same \<or> a = b"
proof -
  have "concat (map repr a) = concat (map repr b) \<longleftrightarrow> a = b"
    using assms(4)
  proof (induction a b rule: list_induct2)
    case (Cons x xs y ys)
    have "repr x @ concat (map repr xs) = repr y @ concat (map repr ys) \<longleftrightarrow> repr x = repr y \<and> concat (map repr xs) = concat (map repr ys)"
      by (rule append_eq_append_conv) (simp add: assms(2))
    then show ?case using Cons.IH by (simp add: inj_eq [OF assms(1)])
  qed simp
  then show ?thesis by (simp add: array_equal_def)
qed

text \<open>A loop whose body reads the items folds over them in order.\<close>

lemma array_for_loop_fold:
  "length a = i + k \<Longrightarrow> i + k < 2 ^ 64 \<Longrightarrow>
   array_for_loop (\<lambda>a i s. bindR (arr_get a i) (\<lambda>x. ret (a, f x s))) (of_nat i) a s k = ret (a, fold f (drop i a) s)"
proof (induction k arbitrary: i s)
  case (Suc k)
  have i: "unat (of_nat i :: usize) = i" using Suc.prems(2) by (intro unat_of_small) simp
  have "drop i a = a ! i # drop (Suc i) a" using Suc.prems(1) by (simp add: Cons_nth_drop_Suc)
  then show ?case using Suc.IH [of "Suc i" "f (a ! i) s"] Suc.prems i by (simp add: add.commute)
qed simp

lemma array_for_fold:
  assumes "array_ok n a"
  shows "array_for (\<lambda>a i s. bindR (arr_get a i) (\<lambda>x. ret (a, f x s))) n (Some a) s = ret (Some a, fold f a s)"
  using array_for_loop_fold [of a 0 "unat n" f s] assms usize_bound [of n] by (simp add: array_for_def array_ok_def)

text \<open>A loop that writes \<open>g\<close> of each item maps the array.\<close>

lemma array_for_loop_map:
  "length a = i + k \<Longrightarrow> i + k < 2 ^ 64 \<Longrightarrow>
   array_for_loop (\<lambda>a i s. bindR (arr_get a i) (\<lambda>x. bindR (arr_set a i (g x)) (\<lambda>a'. ret (a', s)))) (of_nat i) a s k =
     ret (take i a @ map g (drop i a), s)"
proof (induction k arbitrary: a i)
  case (Suc k)
  have i: "unat (of_nat i :: usize) = i" using Suc.prems(2) by (intro unat_of_small) simp
  have "drop i a = a ! i # drop (Suc i) a" using Suc.prems(1) by (simp add: Cons_nth_drop_Suc)
  then show ?case using Suc.IH [of "a[i := g (a ! i)]" "Suc i"] Suc.prems i by (simp add: take_Suc_update add.commute)
qed simp

end
