(* ===== verification/Canon_DynVec.thy ===== *)
theory Canon_DynVec
  imports Canon_Vec
begin

section \<open>The growing vector (data/convenience/dynvec.h)\<close>

text \<open>
  A vector that owns an allocated buffer and grows it. The buffer is the list of its elements, or NULL; \<open>esz\<close> is
  \<open>sizeof(type)\<close>. \<open>malloc\<close> and \<open>realloc\<close> are parameters from the buffer and a number of bytes to the new buffer,
  or NULL; what the C standard promises of \<open>realloc\<close> is \<open>realloc_ok\<close>. A pointer to an element is its index.
  The lifetime token of the debug build is compiled out.

  \<open>dynvec_ok\<close> is the representation invariant and \<open>dv_list\<close> the elements. The lemmas show each operation as an
  operation on that list, which fails exactly when the memory that it needs is not given and then changes nothing; that
  the vector is a list with a capacity for every sequence of operations, each with its own \<open>realloc\<close>; and that pushing
  leaves at most half of the buffer unused.
\<close>

subsection \<open>The functions\<close>

record 'a dynvec =
  dv_data :: "'a list cptr"
  dv_len :: usize
  dv_cap :: usize

definition dynvec_initial_capacity :: usize where
  "dynvec_initial_capacity = 8"

definition dynvec_growth_factor :: usize where
  "dynvec_growth_factor = 2"

type_synonym 'a realloc = "'a list cptr \<Rightarrow> usize \<Rightarrow> 'a list cptr"

definition dynvec_grow :: "bool \<Rightarrow> 'a realloc \<Rightarrow> usize \<Rightarrow> 'a dynvec cptr \<Rightarrow> usize \<Rightarrow> (bool \<times> 'a dynvec cptr) run" where
  "dynvec_grow builtin realloc esz p min_cap =
     ensure_msg (p \<noteq> None) ''dynvec_grow: v cannot be NULL''
     (case p of
        None \<Rightarrow> ret (False, None)
      | Some v \<Rightarrow>
          bindR (if dv_cap v \<noteq> 0
                 then bindR (checked_mul builtin (dv_cap v) dynvec_growth_factor (Some dynvec_initial_capacity)) (\<lambda>(fits, w).
                   if \<not> fits then ret min_cap else deref w)
                 else ret dynvec_initial_capacity) (\<lambda>c.
          let new_cap = (if c < min_cap then min_cap else c) in
          bindR (checked_mul builtin new_cap esz (Some 0)) (\<lambda>(fits, w).
            if \<not> fits then ret (False, p)
            else bindR (deref w) (\<lambda>bytes.
              case realloc (dv_data v) bytes of
                None \<Rightarrow> ret (False, p)
              | Some new_data \<Rightarrow> ret (True, Some (v\<lparr>dv_data := Some new_data, dv_cap := new_cap\<rparr>))))))"

definition dynvec_init :: "'a dynvec" where
  "dynvec_init = \<lparr>dv_data = None, dv_len = 0, dv_cap = 0\<rparr>"

definition dynvec_with_capacity :: "bool \<Rightarrow> (usize \<Rightarrow> 'a list cptr) \<Rightarrow> usize \<Rightarrow> usize \<Rightarrow> 'a dynvec run" where
  "dynvec_with_capacity builtin malloc esz capacity =
     (if capacity = 0 then ret dynvec_init
      else bindR (checked_mul builtin capacity esz (Some 0)) (\<lambda>(fits, w).
        if \<not> fits then ret dynvec_init
        else bindR (deref w) (\<lambda>bytes.
          case malloc bytes of
            None \<Rightarrow> ret dynvec_init
          | Some xs \<Rightarrow> ret (dynvec_init\<lparr>dv_data := Some xs, dv_cap := capacity\<rparr>))))"

definition dynvec_len :: "'a dynvec cptr \<Rightarrow> usize" where
  "dynvec_len p = (case p of Some v \<Rightarrow> dv_len v | None \<Rightarrow> 0)"

definition dynvec_capacity :: "'a dynvec cptr \<Rightarrow> usize" where
  "dynvec_capacity p = (case p of Some v \<Rightarrow> dv_cap v | None \<Rightarrow> 0)"

definition dynvec_is_empty :: "'a dynvec cptr \<Rightarrow> bool" where
  "dynvec_is_empty p = (case p of None \<Rightarrow> True | Some v \<Rightarrow> dv_len v = 0)"

definition dv_get :: "'a dynvec \<Rightarrow> usize \<Rightarrow> 'a run" where
  "dv_get v i = bindR (deref (dv_data v)) (\<lambda>xs. arr_get xs i)"

definition dv_put :: "'a dynvec \<Rightarrow> usize \<Rightarrow> 'a \<Rightarrow> 'a dynvec run" where
  "dv_put v i x = bindR (deref (dv_data v)) (\<lambda>xs. bindR (arr_set xs i x) (\<lambda>ys. ret (v\<lparr>dv_data := Some ys\<rparr>)))"

definition dynvec_get :: "'a dynvec cptr \<Rightarrow> usize \<Rightarrow> 'a cptr \<Rightarrow> (bool \<times> 'a cptr) run" where
  "dynvec_get p i out = (case p of
     None \<Rightarrow> ret (False, out)
   | Some v \<Rightarrow> if out = None \<or> i \<ge> dv_len v then ret (False, out) else bindR (dv_get v i) (\<lambda>x. ret (True, Some x)))"

definition dynvec_get_unchecked :: "'a dynvec cptr \<Rightarrow> usize \<Rightarrow> 'a run" where
  "dynvec_get_unchecked p i =
     ensure_msg (p \<noteq> None) ''dynvec_get_unchecked: v cannot be NULL'' (bindR (deref p) (\<lambda>v.
     ensure_msg (i < dv_len v) ''dynvec_get_unchecked: index out of bounds'' (dv_get v i)))"

definition dynvec_set :: "'a dynvec cptr \<Rightarrow> usize \<Rightarrow> 'a \<Rightarrow> (bool \<times> 'a dynvec cptr) run" where
  "dynvec_set p i x = (case p of
     None \<Rightarrow> ret (False, p)
   | Some v \<Rightarrow> if i \<ge> dv_len v then ret (False, p) else bindR (dv_put v i x) (\<lambda>v'. ret (True, Some v')))"

definition dynvec_data :: "'a dynvec cptr \<Rightarrow> 'a list cptr" where
  "dynvec_data p = (case p of None \<Rightarrow> None | Some v \<Rightarrow> dv_data v)"

definition dynvec_first :: "'a dynvec cptr \<Rightarrow> usize cptr" where
  "dynvec_first p = (case p of None \<Rightarrow> None | Some v \<Rightarrow> if dv_len v > 0 then Some 0 else None)"

definition dynvec_last :: "'a dynvec cptr \<Rightarrow> usize cptr" where
  "dynvec_last p = (case p of None \<Rightarrow> None | Some v \<Rightarrow> if dv_len v > 0 then Some (dv_len v - 1) else None)"

text \<open>The common start of \<open>push\<close> and \<open>insert\<close>: room for one element.\<close>

definition dv_room :: "bool \<Rightarrow> 'a realloc \<Rightarrow> usize \<Rightarrow> 'a dynvec \<Rightarrow> (bool \<times> 'a dynvec cptr) run" where
  "dv_room builtin realloc esz v =
     (if dv_len v \<ge> dv_cap v then dynvec_grow builtin realloc esz (Some v) (dv_len v + 1) else ret (True, Some v))"

definition dynvec_push :: "bool \<Rightarrow> 'a realloc \<Rightarrow> usize \<Rightarrow> 'a dynvec cptr \<Rightarrow> 'a \<Rightarrow> (bool \<times> 'a dynvec cptr) run" where
  "dynvec_push builtin realloc esz p x = (case p of
     None \<Rightarrow> ret (False, p)
   | Some v \<Rightarrow> bindR (dv_room builtin realloc esz v) (\<lambda>(ok, p1).
       if \<not> ok then ret (False, p1)
       else bindR (deref p1) (\<lambda>v1. bindR (dv_put v1 (dv_len v1) x) (\<lambda>v2.
         ret (True, Some (v2\<lparr>dv_len := dv_len v1 + 1\<rparr>))))))"

definition dynvec_pop :: "'a dynvec cptr \<Rightarrow> 'a cptr \<Rightarrow> (bool \<times> 'a dynvec cptr \<times> 'a cptr) run" where
  "dynvec_pop p out = (case p of
     None \<Rightarrow> ret (False, p, out)
   | Some v \<Rightarrow> if out = None \<or> dv_len v = 0 then ret (False, p, out)
       else bindR (dv_get v (dv_len v - 1)) (\<lambda>x. ret (True, Some (v\<lparr>dv_len := dv_len v - 1\<rparr>), Some x)))"

definition dynvec_insert :: "bool \<Rightarrow> 'a realloc \<Rightarrow> usize \<Rightarrow> 'a dynvec cptr \<Rightarrow> usize \<Rightarrow> 'a \<Rightarrow> (bool \<times> 'a dynvec cptr) run" where
  "dynvec_insert builtin realloc esz p i x = (case p of
     None \<Rightarrow> ret (False, p)
   | Some v \<Rightarrow>
       if i > dv_len v then ret (False, p)
       else bindR (dv_room builtin realloc esz v) (\<lambda>(ok, p1).
         if \<not> ok then ret (False, p1)
         else bindR (deref p1) (\<lambda>v1. bindR (deref (dv_data v1)) (\<lambda>xs.
           bindR (if i < dv_len v1 then arr_move xs (i + 1) i (dv_len v1 - i) else ret xs) (\<lambda>ys.
           bindR (arr_set ys i x) (\<lambda>zs. ret (True, Some (v1\<lparr>dv_data := Some zs, dv_len := dv_len v1 + 1\<rparr>))))))))"

definition dynvec_remove :: "'a dynvec cptr \<Rightarrow> usize \<Rightarrow> 'a cptr \<Rightarrow> (bool \<times> 'a dynvec cptr \<times> 'a cptr) run" where
  "dynvec_remove p i out = (case p of
     None \<Rightarrow> ret (False, p, out)
   | Some v \<Rightarrow>
       if out = None \<or> i \<ge> dv_len v then ret (False, p, out)
       else bindR (deref (dv_data v)) (\<lambda>xs. bindR (arr_get xs i) (\<lambda>x.
         bindR (if i < dv_len v - 1 then arr_move xs i (i + 1) (dv_len v - i - 1) else ret xs) (\<lambda>ys.
         ret (True, Some (v\<lparr>dv_data := Some ys, dv_len := dv_len v - 1\<rparr>), Some x)))))"

definition dynvec_clear :: "'a dynvec cptr \<Rightarrow> 'a dynvec cptr" where
  "dynvec_clear p = (case p of None \<Rightarrow> None | Some v \<Rightarrow> Some (v\<lparr>dv_len := 0\<rparr>))"

text \<open>
  The source of \<open>extend\<close>: NULL, another array, or the elements of the vector's own buffer from an index on. Growing
  moves the buffer, and the code moves a pointer into it along. \<open>mem_copy\<close> refuses overlapping regions.
\<close>

datatype 'a dv_source = Dv_null | Dv_outside "'a list" | Dv_inside usize

definition dv_copy :: "'a dynvec \<Rightarrow> 'a dv_source \<Rightarrow> usize \<Rightarrow> 'a list run" where
  "dv_copy v src cnt = bindR (deref (dv_data v)) (\<lambda>xs. case src of
     Dv_null \<Rightarrow> undefined_behaviour ''null dereference''
   | Dv_outside ys \<Rightarrow> arr_copy xs (dv_len v) ys cnt
   | Dv_inside k \<Rightarrow>
       require_msg (\<not> (if dv_len v \<le> k then k - dv_len v < cnt else dv_len v - k < cnt)) ''mem_copy: regions overlap''
         (arr_copy xs (dv_len v) (drop (unat k) xs) cnt))"

definition dynvec_extend ::
  "bool \<Rightarrow> 'a realloc \<Rightarrow> usize \<Rightarrow> 'a dynvec cptr \<Rightarrow> 'a dv_source \<Rightarrow> usize \<Rightarrow> (bool \<times> 'a dynvec cptr) run" where
  "dynvec_extend builtin realloc esz p src cnt = (case p of
     None \<Rightarrow> ret (False, p)
   | Some v \<Rightarrow>
       if (case src of Dv_null \<Rightarrow> True | _ \<Rightarrow> False) then ret (False, p)
       else if cnt = 0 then ret (True, p)
       else bindR (checked_add builtin (dv_len v) cnt (Some 0)) (\<lambda>(fits, w).
         if \<not> fits then ret (False, p)
         else bindR (deref w) (\<lambda>need.
           bindR (if need > dv_cap v
                  then if (case src of Dv_inside k \<Rightarrow> k \<ge> dv_cap v | _ \<Rightarrow> False)
                       then undefined_behaviour ''source outside every object''
                       else dynvec_grow builtin realloc esz p need
                  else ret (True, p)) (\<lambda>(ok, p1).
             if \<not> ok then ret (False, p1)
             else bindR (deref p1) (\<lambda>v1. bindR (dv_copy v1 src cnt) (\<lambda>ys.
               ret (True, Some (v1\<lparr>dv_data := Some ys, dv_len := dv_len v1 + cnt\<rparr>))))))))"

definition dynvec_reserve :: "bool \<Rightarrow> 'a realloc \<Rightarrow> usize \<Rightarrow> 'a dynvec cptr \<Rightarrow> usize \<Rightarrow> (bool \<times> 'a dynvec cptr) run" where
  "dynvec_reserve builtin realloc esz p min_cap = (case p of
     None \<Rightarrow> ret (False, p)
   | Some v \<Rightarrow> if dv_cap v \<ge> min_cap then ret (True, p) else dynvec_grow builtin realloc esz p min_cap)"

definition dynvec_shrink_to_fit :: "'a realloc \<Rightarrow> usize \<Rightarrow> 'a dynvec cptr \<Rightarrow> bool \<times> 'a dynvec cptr" where
  "dynvec_shrink_to_fit realloc esz p = (case p of
     None \<Rightarrow> (True, p)
   | Some v \<Rightarrow>
       if dv_len v = dv_cap v then (True, p)
       else if dv_len v = 0 then (True, Some (v\<lparr>dv_data := None, dv_cap := 0\<rparr>))
       else case realloc (dv_data v) (dv_len v * esz) of
         None \<Rightarrow> (False, p)
       | Some ys \<Rightarrow> (True, Some (v\<lparr>dv_data := Some ys, dv_cap := dv_len v\<rparr>)))"

text \<open>The result is also the buffer that is handed to \<open>free\<close>.\<close>

definition dynvec_free :: "'a dynvec cptr \<Rightarrow> 'a list cptr \<times> 'a dynvec cptr" where
  "dynvec_free p = (case p of
     None \<Rightarrow> (None, None)
   | Some v \<Rightarrow> (dv_data v, Some \<lparr>dv_data = None, dv_len = 0, dv_cap = 0\<rparr>))"

subsection \<open>The invariant\<close>

definition dynvec_ok :: "usize \<Rightarrow> 'a dynvec \<Rightarrow> bool" where
  "dynvec_ok esz v \<longleftrightarrow> dv_len v \<le> dv_cap v \<and> unat (dv_cap v) * unat esz < 2 ^ 64 \<and>
     (case dv_data v of None \<Rightarrow> dv_cap v = 0 | Some xs \<Rightarrow> length xs = unat (dv_cap v))"

definition dv_list :: "'a dynvec \<Rightarrow> 'a list" where
  "dv_list v = (case dv_data v of None \<Rightarrow> [] | Some xs \<Rightarrow> take (unat (dv_len v)) xs)"

text \<open>What C promises of \<open>realloc\<close>: NULL, or a buffer of as many elements as fit that size, whose start is that of the old one.\<close>

definition realloc_ok :: "usize \<Rightarrow> 'a realloc \<Rightarrow> bool" where
  "realloc_ok esz r \<longleftrightarrow> (\<forall>d bytes ys. r d bytes = Some ys \<longrightarrow> length ys = unat bytes div unat esz \<and>
     (\<forall>xs. d = Some xs \<longrightarrow> take (min (length xs) (length ys)) ys = take (min (length xs) (length ys)) xs))"

lemma dynvec_okD:
  assumes "dynvec_ok esz v"
  shows "unat (dv_len v) \<le> unat (dv_cap v)" "length (dv_list v) = unat (dv_len v)"
    "dv_data v = Some xs \<Longrightarrow> length xs = unat (dv_cap v) \<and> dv_list v = take (unat (dv_len v)) xs"
    "dv_data v = None \<Longrightarrow> dv_cap v = 0 \<and> dv_len v = 0"
  using assms by (auto simp: dynvec_ok_def dv_list_def word_le_nat_alt unat_eq_zero split: option.splits)

lemma dynvec_init_ok: "dynvec_ok esz dynvec_init" "dv_list dynvec_init = []"
  by (simp_all add: dynvec_ok_def dynvec_init_def dv_list_def)

text \<open>
  The capacity after growing; and whether a buffer \<open>d\<close> can be changed to one of \<open>w\<close> elements, if the operation
  needs that: its size is representable, and the \<open>realloc\<close> of this operation gives it.
\<close>

definition dv_grown :: "nat \<Rightarrow> nat \<Rightarrow> nat" where
  "dv_grown cap need = max need (if cap = 0 then 8 else if cap * 2 < 2 ^ 64 then cap * 2 else 0)"

definition dv_new_cap :: "usize \<Rightarrow> usize \<Rightarrow> nat" where
  "dv_new_cap cap min_cap = dv_grown (unat cap) (unat min_cap)"

definition dv_granted :: "usize \<Rightarrow> 'a realloc \<Rightarrow> 'a list cptr \<Rightarrow> nat option \<Rightarrow> bool" where
  "dv_granted esz r d w = (case w of None \<Rightarrow> True
     | Some k \<Rightarrow> k * unat esz < 2 ^ 64 \<and> r d (of_nat (k * unat esz)) \<noteq> None)"

lemma dv_new_cap_max: "dv_new_cap cap min_cap = max (unat min_cap)
     (if cap = 0 then 8 else if unat cap * 2 < 2 ^ 64 then unat cap * 2 else 0)"
  by (simp add: dv_new_cap_def dv_grown_def unat_eq_zero)

lemma dynvec_grow_value:
  assumes "dynvec_ok esz v" "realloc_ok esz r" "esz \<noteq> 0" "dv_cap v \<le> min_cap"
  shows "\<exists>ok v'. dynvec_grow builtin r esz (Some v) min_cap = ret (ok, Some v') \<and> dynvec_ok esz v' \<and> dv_list v' = dv_list v \<and>
    dv_len v' = dv_len v \<and> (if ok then dv_data v' \<noteq> None \<and> unat (dv_cap v') = dv_new_cap (dv_cap v) min_cap else v' = v) \<and>
    ok = dv_granted esz r (dv_data v) (Some (dv_new_cap (dv_cap v) min_cap))"
proof -
  define c where "c = (if dv_cap v = 0 then 8 else if unat (dv_cap v) * 2 < 2 ^ 64 then dv_cap v * 2 else min_cap)"
  define k where "k = (if c < min_cap then min_cap else c)"
  have uc: "unat (dv_cap v * 2) = unat (dv_cap v) * 2" if "unat (dv_cap v) * 2 < 2 ^ 64"
    using that by (simp add: unat_word_ariths)
  then have n: "unat k = dv_new_cap (dv_cap v) min_cap"
    by (auto simp: dv_new_cap_max k_def c_def word_less_nat_alt max_def)
  have start: "(if dv_cap v \<noteq> 0
         then bindR (checked_mul builtin (dv_cap v) dynvec_growth_factor (Some dynvec_initial_capacity)) (\<lambda>(fits, w).
           if \<not> fits then ret min_cap else deref w)
         else ret dynvec_initial_capacity) = ret c"
    by (simp add: c_def dynvec_growth_factor_def dynvec_initial_capacity_def)
  have val: "dynvec_grow builtin r esz (Some v) min_cap =
      (if \<not> unat k * unat esz < 2 ^ 64 then ret (False, Some v)
       else case r (dv_data v) (k * esz) of None \<Rightarrow> ret (False, Some v)
         | Some ys \<Rightarrow> ret (True, Some (v\<lparr>dv_data := Some ys, dv_cap := k\<rparr>)))"
    unfolding dynvec_grow_def option.simps start bindR_simps Let_def k_def [symmetric] by (simp cong: if_cong option.case_cong)
  have g: "dv_granted esz r (dv_data v) (Some (dv_new_cap (dv_cap v) min_cap)) \<longleftrightarrow>
      unat k * unat esz < 2 ^ 64 \<and> r (dv_data v) (k * esz) \<noteq> None"
    unfolding n [symmetric] dv_granted_def by simp
  show ?thesis
  proof (cases "unat k * unat esz < 2 ^ 64 \<and> r (dv_data v) (k * esz) \<noteq> None")
    case False
    then have "dynvec_grow builtin r esz (Some v) min_cap = ret (False, Some v)" unfolding val by (auto split: option.splits)
    then show ?thesis using assms(1) g False by (intro exI [of _ False] exI [of _ v]) simp
  next
    case True
    then obtain ys where ys: "r (dv_data v) (k * esz) = Some ys" by blast
    have "unat (k * esz) = unat k * unat esz" using True by (simp add: unat_word_ariths)
    moreover have "unat esz \<noteq> 0" using assms(3) by (simp add: unat_eq_zero)
    moreover have "length ys = unat (k * esz) div unat esz" using assms(2) ys by (auto simp: realloc_ok_def)
    ultimately have len: "length ys = unat k" by simp
    let ?v = "v\<lparr>dv_data := Some ys, dv_cap := k\<rparr>"
    have le: "unat (dv_len v) \<le> unat (dv_cap v)" "unat (dv_cap v) \<le> unat k"
      using dynvec_okD(1) [OF assms(1)] assms(4) by (auto simp: k_def word_le_nat_alt word_less_nat_alt)
    have "dv_list ?v = dv_list v"
    proof (cases "dv_data v")
      case None
      then show ?thesis using dynvec_okD(4) [OF assms(1)] by (simp add: dv_list_def)
    next
      case (Some xs)
      then have x: "length xs = unat (dv_cap v)" using dynvec_okD(3) [OF assms(1)] by blast
      moreover have "take (min (length xs) (length ys)) ys = take (min (length xs) (length ys)) xs"
        using assms(2) [unfolded realloc_ok_def] ys Some by blast
      ultimately have "take (unat (dv_cap v)) ys = xs" using le len by (simp add: min_absorb1)
      then have "take (unat (dv_len v)) ys = take (unat (dv_len v)) xs" using le(1) by (metis min_absorb1 take_take)
      then show ?thesis using Some by (simp add: dv_list_def)
    qed
    moreover have "dynvec_ok esz ?v" using True len le by (simp add: dynvec_ok_def word_le_nat_alt)
    ultimately show ?thesis unfolding g val using True ys n by (intro exI [of _ True] exI [of _ ?v]) simp
  qed
qed

subsection \<open>Operations on the list\<close>

text \<open>
  \<open>dv_done r esz v p xs (ok, p')\<close>: an operation whose effect is the list \<open>xs\<close> and whose argument was in
  range (\<open>p\<close>) was done, or it was refused, for the range or for want of memory, and changed nothing.
\<close>

definition dv_outcome :: "usize \<Rightarrow> 'a dynvec \<Rightarrow> bool \<Rightarrow> 'a list \<Rightarrow> bool \<Rightarrow> 'a dynvec \<Rightarrow> bool" where
  "dv_outcome esz v pre xs ok v' \<longleftrightarrow> dynvec_ok esz v' \<and> (if ok then pre \<and> dv_list v' = xs else dv_list v' = dv_list v)"

text \<open>
  Whether an operation that needs a buffer of \<open>need\<close> elements asks for a larger one; and that it was done exactly when
  the memory it asked for, if any, was granted, with the capacity that it asked for.
\<close>

definition dv_wants_for :: "nat \<Rightarrow> nat \<Rightarrow> nat option" where
  "dv_wants_for cap need = (if need \<le> cap then None else Some (dv_grown cap need))"

definition dv_memory :: "usize \<Rightarrow> 'a realloc \<Rightarrow> 'a dynvec \<Rightarrow> nat option \<Rightarrow> bool \<Rightarrow> 'a dynvec \<Rightarrow> bool" where
  "dv_memory esz r v w ok v' \<longleftrightarrow> ok = dv_granted esz r (dv_data v) w \<and>
     unat (dv_cap v') = (case w of Some k \<Rightarrow> if ok then k else unat (dv_cap v) | None \<Rightarrow> unat (dv_cap v))"

lemma dv_outcome_refuse: "dynvec_ok esz v \<Longrightarrow> dv_outcome esz v pre xs False v"
  by (simp add: dv_outcome_def)

lemma dv_room_value:
  assumes "dynvec_ok esz v" "realloc_ok esz r" "esz \<noteq> 0" "unat (dv_len v) < 2 ^ 64 - 1"
  shows "\<exists>ok v'. dv_room builtin r esz v = ret (ok, Some v') \<and> dynvec_ok esz v' \<and> dv_list v' = dv_list v \<and> dv_len v' = dv_len v \<and>
    (ok \<longrightarrow> (\<exists>xs. dv_data v' = Some xs \<and> unat (dv_len v) < length xs) \<and>
       unat (dv_cap v') = (if unat (dv_len v) < unat (dv_cap v) then unat (dv_cap v) else dv_new_cap (dv_cap v) (dv_len v + 1))) \<and>
    (\<not> ok \<longrightarrow> v' = v) \<and>
    ok = dv_granted esz r (dv_data v)
      (if unat (dv_len v) < unat (dv_cap v) then None else Some (dv_new_cap (dv_cap v) (dv_len v + 1)))"
proof (cases "unat (dv_len v) < unat (dv_cap v)")
  case True
  then obtain xs where "dv_data v = Some xs" using dynvec_okD(4) [OF assms(1)] by (cases "dv_data v") auto
  with True assms(1) show ?thesis using dynvec_okD(3) [OF assms(1)] by (auto simp: dv_room_def dv_granted_def word_le_nat_alt)
next
  case False
  have s: "unat (dv_len v + 1) = Suc (unat (dv_len v))" using assms(4) by (rule unat_usize_Suc)
  have le: "dv_cap v \<le> dv_len v + 1" using False s by (simp add: word_le_nat_alt)
  from dynvec_grow_value [OF assms(1-3) le, of builtin] obtain ok v' where
    g: "dynvec_grow builtin r esz (Some v) (dv_len v + 1) = ret (ok, Some v')" "dynvec_ok esz v'" "dv_list v' = dv_list v"
      "dv_len v' = dv_len v" "if ok then dv_data v' \<noteq> None \<and> unat (dv_cap v') = dv_new_cap (dv_cap v) (dv_len v + 1) else v' = v"
      "ok = dv_granted esz r (dv_data v) (Some (dv_new_cap (dv_cap v) (dv_len v + 1)))"
    by (elim exE conjE) (rule that; assumption)
  have "\<exists>xs. dv_data v' = Some xs \<and> unat (dv_len v) < length xs" if ok
  proof -
    from g(5) that obtain xs where "dv_data v' = Some xs" by auto
    moreover have "unat (dv_len v + 1) \<le> dv_new_cap (dv_cap v) (dv_len v + 1)" by (simp add: dv_new_cap_max)
    ultimately show ?thesis using dynvec_okD(3) [OF g(2)] g(5) that s by auto
  qed
  with False g show ?thesis by (auto simp: dv_room_def word_le_nat_alt split: if_splits)
qed

lemma dv_room_memory:
  assumes "dynvec_ok esz v" "realloc_ok esz r" "esz \<noteq> 0" "unat (dv_len v) < 2 ^ 64 - 1"
    "dv_room builtin r esz v = ret (ok, Some v')" "dv_cap w = dv_cap v'"
  shows "dv_memory esz r v (dv_wants_for (unat (dv_cap v)) (Suc (length (dv_list v)))) ok w"
proof -
  have "unat (dv_len v + 1) = Suc (unat (dv_len v))" using assms(4) by (rule unat_usize_Suc)
  moreover have "(ok \<longrightarrow> unat (dv_cap v') = (if unat (dv_len v) < unat (dv_cap v) then unat (dv_cap v) else dv_new_cap (dv_cap v) (dv_len v + 1))) \<and>
    (\<not> ok \<longrightarrow> v' = v) \<and>
    ok = dv_granted esz r (dv_data v) (if unat (dv_len v) < unat (dv_cap v) then None else Some (dv_new_cap (dv_cap v) (dv_len v + 1)))"
    using dv_room_value [OF assms(1-4), of builtin] assms(5) by auto
  ultimately show ?thesis using dynvec_okD(2) [OF assms(1)] assms(6)
    by (auto simp: dv_memory_def dv_wants_for_def dv_new_cap_def less_eq_Suc_le)
qed

text \<open>A new element behind the others, or at a position.\<close>

lemma dynvec_insert_value:
  assumes "dynvec_ok esz v" "realloc_ok esz r" "esz \<noteq> 0" "unat (dv_len v) < 2 ^ 64 - 1"
  shows "\<exists>ok v'. dynvec_insert builtin r esz (Some v) i x = ret (ok, Some v') \<and>
    dv_outcome esz v (unat i \<le> length (dv_list v)) (take (unat i) (dv_list v) @ x # drop (unat i) (dv_list v)) ok v' \<and>
    (unat i \<le> length (dv_list v) \<longrightarrow> (\<exists>v1. dv_room builtin r esz v = ret (ok, Some v1) \<and> dv_cap v' = dv_cap v1))"
proof (cases "i > dv_len v")
  case True
  then show ?thesis using assms(1) dynvec_okD(2) [OF assms(1)]
    by (intro exI [of _ False] exI [of _ v]) (simp add: dynvec_insert_def dv_outcome_refuse word_less_nat_alt)
next
  case False
  from dv_room_value [OF assms, of builtin] obtain ok v1 where
    g: "dv_room builtin r esz v = ret (ok, Some v1)" "dynvec_ok esz v1" "dv_list v1 = dv_list v" "dv_len v1 = dv_len v"
      "ok \<longrightarrow> (\<exists>xs. dv_data v1 = Some xs \<and> unat (dv_len v) < length xs)" by blast
  show ?thesis
  proof (cases ok)
    case False
    with g \<open>\<not> i > dv_len v\<close> show ?thesis by (auto simp: dynvec_insert_def dv_outcome_def)
  next
    case True
    with g(5) obtain xs where xs: "dv_data v1 = Some xs" "unat (dv_len v) < length xs" by blast
    have i: "unat i \<le> unat (dv_len v)" using \<open>\<not> i > dv_len v\<close> by (simp add: word_less_nat_alt)
    from insert_in_place [OF i xs(2), of x] obtain ys where
      ys: "(if i < dv_len v then arr_move xs (i + 1) i (dv_len v - i) else ret xs) = ret ys" "length ys = length xs"
        "arr_set ys i x = ret (ys[unat i := x])"
        "take (Suc (unat (dv_len v))) (ys[unat i := x]) = take (unat i) xs @ x # drop (unat i) (take (unat (dv_len v)) xs)" by blast
    let ?v = "v1\<lparr>dv_data := Some (ys[unat i := x]), dv_len := dv_len v + 1\<rparr>"
    have val: "dynvec_insert builtin r esz (Some v) i x = ret (True, Some ?v)"
      using \<open>\<not> i > dv_len v\<close> g(1,4) True xs(1) ys(1,3) by (simp add: dynvec_insert_def split del: if_split cong: if_cong)
    have len: "unat (dv_len v + 1) = Suc (unat (dv_len v))" using assms(4) by (rule unat_usize_Suc)
    have cap: "length xs = unat (dv_cap v1)" "dv_list v = take (unat (dv_len v)) xs"
      using dynvec_okD(3) [OF g(2) xs(1)] g(3,4) by simp_all
    have "dynvec_ok esz ?v" using g(2) cap(1) ys(2) len xs(2) by (simp add: dynvec_ok_def xs(1) word_le_nat_alt)
    moreover have "dv_list ?v = take (unat i) (dv_list v) @ x # drop (unat i) (dv_list v)"
      using ys(4) i len cap(2) by (simp add: dv_list_def min_absorb1)
    ultimately show ?thesis unfolding val using i dynvec_okD(2) [OF assms(1)] g(1) True
      by (intro exI [of _ True] exI [of _ ?v]) (simp add: dv_outcome_def)
  qed
qed

lemma dynvec_push_insert: "dynvec_push builtin r esz (Some v) x = dynvec_insert builtin r esz (Some v) (dv_len v) x"
  if "\<And>ok v1. dv_room builtin r esz v = ret (ok, Some v1) \<Longrightarrow> dv_len v1 = dv_len v"
proof (cases "dv_room builtin r esz v")
  case (Inr z)
  obtain ok p1 where "z = (ok, p1)" by (cases z)
  with Inr show ?thesis using that [of ok]
    by (cases p1) (auto simp: dynvec_push_def dynvec_insert_def dv_put_def bindR_assoc)
qed (simp add: dynvec_push_def dynvec_insert_def)

lemma dynvec_push_value:
  assumes "dynvec_ok esz v" "realloc_ok esz r" "esz \<noteq> 0" "unat (dv_len v) < 2 ^ 64 - 1"
  shows "\<exists>ok v'. dynvec_push builtin r esz (Some v) x = ret (ok, Some v') \<and> dv_outcome esz v True (dv_list v @ [x]) ok v' \<and>
    (\<exists>v1. dv_room builtin r esz v = ret (ok, Some v1) \<and> dv_cap v' = dv_cap v1)"
proof -
  have "dv_len v1 = dv_len v" if "dv_room builtin r esz v = ret (ok, Some v1)" for ok v1
    using dv_room_value [OF assms, of builtin] that by auto
  then show ?thesis using dynvec_insert_value [OF assms, of builtin "dv_len v" x] dynvec_okD(2) [OF assms(1)]
    by (simp add: dynvec_push_insert)
qed

lemma dynvec_pop_value:
  assumes "dynvec_ok esz v"
  shows "\<exists>ok v' out. dynvec_pop (Some v) (Some y) = ret (ok, Some v', Some out) \<and>
    dv_outcome esz v (dv_list v \<noteq> []) (butlast (dv_list v)) ok v' \<and> ok = (dv_list v \<noteq> []) \<and> out = (if ok then last (dv_list v) else y)"
proof (cases "dv_len v = 0")
  case True
  then have "dv_list v = []" using dynvec_okD(2) [OF assms] by simp
  with True assms show ?thesis by (intro exI [of _ False] exI [of _ v]) (simp add: dynvec_pop_def dv_outcome_refuse)
next
  case False
  then obtain xs where xs: "dv_data v = Some xs" using dynvec_okD(4) [OF assms] by (cases "dv_data v") auto
  have l: "unat (dv_len v - 1) = unat (dv_len v) - 1" "0 < unat (dv_len v)" using False by (simp_all add: unat_usize_pred unat_gt_0)
  have x: "length xs = unat (dv_cap v)" "dv_list v = take (unat (dv_len v)) xs" "unat (dv_len v) \<le> length xs"
    using dynvec_okD(1,3) [OF assms] xs by simp_all
  have ne: "dv_list v \<noteq> []" using x l(2) by (cases xs) auto
  have "dynvec_pop (Some v) (Some y) = ret (True, Some (v\<lparr>dv_len := dv_len v - 1\<rparr>), Some (xs ! (unat (dv_len v) - 1)))"
    using False l x xs by (simp add: dynvec_pop_def dv_get_def)
  moreover have "last (dv_list v) = xs ! (unat (dv_len v) - 1)" using ne x l by (simp add: last_conv_nth min_absorb2)
  moreover have "dynvec_ok esz (v\<lparr>dv_len := dv_len v - 1\<rparr>)" using assms l x xs by (simp add: dynvec_ok_def word_le_nat_alt)
  moreover have "dv_list (v\<lparr>dv_len := dv_len v - 1\<rparr>) = butlast (dv_list v)" using x xs l by (simp add: dv_list_def butlast_take)
  ultimately show ?thesis using ne by (auto simp: dv_outcome_def)
qed

lemma dynvec_set_value:
  assumes "dynvec_ok esz v"
  shows "\<exists>ok v'. dynvec_set (Some v) i x = ret (ok, Some v') \<and> ok = (unat i < length (dv_list v)) \<and>
    dv_outcome esz v (unat i < length (dv_list v)) ((dv_list v)[unat i := x]) ok v'"
proof (cases "i \<ge> dv_len v")
  case True
  then show ?thesis using assms dynvec_okD(2) [OF assms] by (auto simp: dynvec_set_def dv_outcome_refuse word_le_nat_alt)
next
  case False
  then have i: "unat i < unat (dv_len v)" by (simp add: word_le_nat_alt)
  then obtain xs where xs: "dv_data v = Some xs" using dynvec_okD(4) [OF assms] by (cases "dv_data v") auto
  have x: "length xs = unat (dv_cap v)" "dv_list v = take (unat (dv_len v)) xs" "unat (dv_len v) \<le> length xs"
    using dynvec_okD(1,3) [OF assms] xs by simp_all
  then show ?thesis using False i xs assms
    by (auto simp: dynvec_set_def dv_put_def dv_outcome_def dynvec_ok_def dv_list_def take_update_swap)
qed

lemma dynvec_remove_value:
  assumes "dynvec_ok esz v"
  shows "\<exists>ok v' out. dynvec_remove (Some v) i (Some y) = ret (ok, Some v', Some out) \<and> ok = (unat i < length (dv_list v)) \<and>
    dv_outcome esz v (unat i < length (dv_list v)) (take (unat i) (dv_list v) @ drop (Suc (unat i)) (dv_list v)) ok v' \<and>
    out = (if ok then dv_list v ! unat i else y)"
proof (cases "i \<ge> dv_len v")
  case True
  then show ?thesis using assms dynvec_okD(2) [OF assms] by (auto simp: dynvec_remove_def dv_outcome_refuse word_le_nat_alt)
next
  case False
  then have i: "unat i < unat (dv_len v)" by (simp add: word_le_nat_alt)
  then obtain xs where xs: "dv_data v = Some xs" using dynvec_okD(4) [OF assms] by (cases "dv_data v") auto
  have x: "length xs = unat (dv_cap v)" "dv_list v = take (unat (dv_len v)) xs" "unat (dv_len v) \<le> length xs"
    using dynvec_okD(1,3) [OF assms] xs by simp_all
  from remove_in_place [OF i x(3)] obtain ys where
    ys: "(if i < dv_len v - 1 then arr_move xs i (i + 1) (dv_len v - i - 1) else ret xs) = ret ys" "length ys = length xs"
      "arr_get xs i = ret (dv_list v ! unat i)" "unat (dv_len v - 1) = unat (dv_len v) - 1"
      "take (unat (dv_len v) - 1) ys = take (unat i) (dv_list v) @ drop (Suc (unat i)) (dv_list v)" unfolding x(2) by blast
  let ?v = "v\<lparr>dv_data := Some ys, dv_len := dv_len v - 1\<rparr>"
  have "dynvec_remove (Some v) i (Some y) = ret (True, Some ?v, Some (dv_list v ! unat i))"
    using False xs ys(1,3) by (simp add: dynvec_remove_def split del: if_split cong: if_cong)
  moreover have "dynvec_ok esz ?v" using assms ys(2,4) x xs by (simp add: dynvec_ok_def word_le_nat_alt)
  moreover have "dv_list ?v = take (unat i) (dv_list v) @ drop (Suc (unat i)) (dv_list v)" using ys(4,5) by (simp add: dv_list_def)
  ultimately show ?thesis using i dynvec_okD(2) [OF assms] by (auto simp: dv_outcome_def)
qed

text \<open>Several elements behind the others, from another array or from the vector itself.\<close>

lemma arr_copy_behind:
  assumes "dynvec_ok esz v" "dv_data v = Some xs" "unat (dv_len v) + unat cnt \<le> length xs" "unat cnt \<le> length ys"
    "unat (dv_len v) + unat cnt < 2 ^ 64"
  shows "\<exists>zs. arr_copy xs (dv_len v) ys cnt = ret zs \<and> dynvec_ok esz (v\<lparr>dv_data := Some zs, dv_len := dv_len v + cnt\<rparr>) \<and>
    dv_list (v\<lparr>dv_data := Some zs, dv_len := dv_len v + cnt\<rparr>) = dv_list v @ take (unat cnt) ys"
proof -
  have x: "length xs = unat (dv_cap v)" "dv_list v = take (unat (dv_len v)) xs" using dynvec_okD(3) [OF assms(1,2)] by simp_all
  have l: "unat (dv_len v + cnt) = unat (dv_len v) + unat cnt" using assms(5) by (simp add: unat_word_ariths)
  define zs where "zs = take (unat (dv_len v)) xs @ take (unat cnt) ys @ drop (unat (dv_len v) + unat cnt) xs"
  have "arr_copy xs (dv_len v) ys cnt = ret zs" using assms(3,4) by (simp add: arr_copy_def zs_def)
  moreover have "dynvec_ok esz (v\<lparr>dv_data := Some zs, dv_len := dv_len v + cnt\<rparr>)"
    using assms x l by (simp add: dynvec_ok_def zs_def word_le_nat_alt)
  moreover have "dv_list (v\<lparr>dv_data := Some zs, dv_len := dv_len v + cnt\<rparr>) = dv_list v @ take (unat cnt) ys"
    using assms(3,4) x(2) l by (simp add: dv_list_def zs_def)
  ultimately show ?thesis by blast
qed

definition dv_source_items :: "'a dynvec \<Rightarrow> 'a dv_source \<Rightarrow> 'a list" where
  "dv_source_items v src = (case src of Dv_null \<Rightarrow> [] | Dv_outside ys \<Rightarrow> ys | Dv_inside k \<Rightarrow> drop (unat k) (dv_list v))"

lemma dv_copy_value:
  assumes "dynvec_ok esz v" "dv_data v = Some xs" "unat (dv_len v) + unat cnt \<le> length xs"
    "unat cnt \<le> length (dv_source_items v src)" "0 < cnt"
  shows "\<exists>zs. dv_copy v src cnt = ret zs \<and> dynvec_ok esz (v\<lparr>dv_data := Some zs, dv_len := dv_len v + cnt\<rparr>) \<and>
    dv_list (v\<lparr>dv_data := Some zs, dv_len := dv_len v + cnt\<rparr>) = dv_list v @ take (unat cnt) (dv_source_items v src)"
proof -
  have x: "length xs = unat (dv_cap v)" "dv_list v = take (unat (dv_len v)) xs" "unat (dv_len v) \<le> length xs"
    using dynvec_okD(1,3) [OF assms(1)] assms(2) by simp_all
  have c: "0 < unat cnt" using assms(5) by (simp add: word_less_nat_alt)
  have "unat (dv_len v) + unat cnt < 2 ^ 64" using assms(3) x(1) usize_bound [of "dv_cap v"] by simp
  note behind = arr_copy_behind [OF assms(1-3) _ this]
  show ?thesis
  proof (cases src)
    case Dv_null
    with assms(4) c show ?thesis by (simp add: dv_source_items_def)
  next
    case (Dv_outside ys)
    then show ?thesis using behind [of ys] assms(2,4) by (simp add: dv_source_items_def dv_copy_def)
  next
    case (Dv_inside k)
    with assms(4) x(2,3) have k: "unat k + unat cnt \<le> unat (dv_len v)" "drop (unat k) (dv_list v) = take (unat (dv_len v) - unat k) (drop (unat k) xs)"
      using c by (simp_all add: dv_source_items_def drop_take)
    have "\<not> dv_len v \<le> k" using k c by (simp add: word_le_nat_alt)
    moreover have "\<not> dv_len v - k < cnt" using k by (simp add: word_less_nat_alt unat_sub_if_size word_size)
    ultimately have "dv_copy v src cnt = arr_copy xs (dv_len v) (drop (unat k) xs) cnt"
      using Dv_inside assms(2) by (simp add: dv_copy_def)
    moreover have "take (unat cnt) (dv_source_items v src) = take (unat cnt) (drop (unat k) xs)"
      using Dv_inside k by (simp add: dv_source_items_def min_absorb1)
    ultimately show ?thesis using behind [of "drop (unat k) xs"] k x(3) by simp
  qed
qed

lemma dynvec_extend_value:
  assumes "dynvec_ok esz v" "realloc_ok esz r" "esz \<noteq> 0" "unat cnt \<le> length (dv_source_items v src)" "src \<noteq> Dv_null"
  shows "\<exists>ok v'. dynvec_extend builtin r esz (Some v) src cnt = ret (ok, Some v') \<and>
    dv_outcome esz v True (dv_list v @ take (unat cnt) (dv_source_items v src)) ok v' \<and>
    (unat (dv_len v) + unat cnt < 2 ^ 64 \<longrightarrow> dv_memory esz r v (dv_wants_for (unat (dv_cap v)) (unat (dv_len v) + unat cnt)) ok v')"
proof -
  consider (none) "cnt = 0" | (wrap) "cnt \<noteq> 0" "\<not> unat (dv_len v) + unat cnt < 2 ^ 64"
    | (fits) "0 < cnt" "unat (dv_len v) + unat cnt < 2 ^ 64" by (auto simp: word_gt_0)
  then show ?thesis
  proof cases
    case none
    with assms show ?thesis using dynvec_okD(1) [OF assms(1)]
      by (intro exI [of _ True] exI [of _ v])
        (auto simp: dynvec_extend_def dv_outcome_def dv_memory_def dv_granted_def dv_wants_for_def split: dv_source.splits)
  next
    case wrap
    with assms show ?thesis
      by (intro exI [of _ False] exI [of _ v]) (auto simp: dynvec_extend_def dv_outcome_refuse split: dv_source.splits)
  next
    case fits
    have l: "unat (dv_len v + cnt) = unat (dv_len v) + unat cnt" using fits(2) by (simp add: unat_word_ariths)
    have inside: "\<not> dv_cap v \<le> k" if "src = Dv_inside k" for k
      using that assms(4) fits(1) dynvec_okD(1,2) [OF assms(1)] by (auto simp: dv_source_items_def word_less_nat_alt word_le_nat_alt)
    define room where "room = (if dv_len v + cnt > dv_cap v then dynvec_grow builtin r esz (Some v) (dv_len v + cnt) else ret (True, Some v))"
    have val: "dynvec_extend builtin r esz (Some v) src cnt = bindR room (\<lambda>(ok, p1).
        if \<not> ok then ret (False, p1)
        else bindR (deref p1) (\<lambda>v1. bindR (dv_copy v1 src cnt) (\<lambda>ys.
          ret (True, Some (v1\<lparr>dv_data := Some ys, dv_len := dv_len v1 + cnt\<rparr>)))))"
      using fits assms(5) inside by (cases src) (simp_all add: dynvec_extend_def room_def word_gt_0 cong: if_cong)
    have "\<exists>ok v1. room = ret (ok, Some v1) \<and> dynvec_ok esz v1 \<and> dv_list v1 = dv_list v \<and> dv_len v1 = dv_len v \<and>
        (ok \<longrightarrow> (\<exists>xs. dv_data v1 = Some xs \<and> unat (dv_len v) + unat cnt \<le> length xs)) \<and>
        dv_memory esz r v (dv_wants_for (unat (dv_cap v)) (unat (dv_len v) + unat cnt)) ok v1"
    proof (cases "dv_len v + cnt > dv_cap v")
      case True
      then have "dv_cap v \<le> dv_len v + cnt" by simp
      from dynvec_grow_value [OF assms(1-3) this, of builtin] obtain ok v1 where
        g: "dynvec_grow builtin r esz (Some v) (dv_len v + cnt) = ret (ok, Some v1)" "dynvec_ok esz v1" "dv_list v1 = dv_list v"
          "dv_len v1 = dv_len v" "if ok then dv_data v1 \<noteq> None \<and> unat (dv_cap v1) = dv_new_cap (dv_cap v) (dv_len v + cnt) else v1 = v"
          "ok = dv_granted esz r (dv_data v) (Some (dv_new_cap (dv_cap v) (dv_len v + cnt)))"
        by (elim exE conjE) (rule that; assumption)
      moreover have "\<exists>xs. dv_data v1 = Some xs \<and> unat (dv_len v) + unat cnt \<le> length xs" if ok
      proof -
        from g(5) that obtain xs where "dv_data v1 = Some xs" by auto
        then show ?thesis using dynvec_okD(3) [OF g(2)] g(5) that l by (auto simp: dv_new_cap_max)
      qed
      moreover have "dv_wants_for (unat (dv_cap v)) (unat (dv_len v) + unat cnt) = Some (dv_new_cap (dv_cap v) (dv_len v + cnt))"
        using True l by (simp add: dv_wants_for_def dv_new_cap_def word_less_nat_alt)
      then have "dv_memory esz r v (dv_wants_for (unat (dv_cap v)) (unat (dv_len v) + unat cnt)) ok v1"
        using g(5,6) by (auto simp: dv_memory_def split: if_splits)
      ultimately show ?thesis using True by (auto simp: room_def)
    next
      case False
      then have c: "unat (dv_len v) + unat cnt \<le> unat (dv_cap v)" using l by (simp add: word_less_nat_alt)
      then obtain xs where "dv_data v = Some xs" using dynvec_okD(4) [OF assms(1)] fits(1) by (cases "dv_data v") (auto simp: word_less_nat_alt)
      with False c assms(1) show ?thesis using dynvec_okD(3) [OF assms(1)]
        by (auto simp: room_def dv_memory_def dv_granted_def dv_wants_for_def)
    qed
    then obtain ok v1 where g: "room = ret (ok, Some v1)" "dynvec_ok esz v1" "dv_list v1 = dv_list v" "dv_len v1 = dv_len v"
      "ok \<longrightarrow> (\<exists>xs. dv_data v1 = Some xs \<and> unat (dv_len v) + unat cnt \<le> length xs)"
      "dv_memory esz r v (dv_wants_for (unat (dv_cap v)) (unat (dv_len v) + unat cnt)) ok v1" by blast
    show ?thesis
    proof (cases ok)
      case False
      with g show ?thesis unfolding val by (intro exI [of _ False] exI [of _ v1]) (simp add: dv_outcome_def)
    next
      case True
      with g(5) obtain xs where xs: "dv_data v1 = Some xs" "unat (dv_len v1) + unat cnt \<le> length xs" using g(4) by auto
      have items: "dv_source_items v1 src = dv_source_items v src" by (simp add: dv_source_items_def g(3) split: dv_source.split)
      from dv_copy_value [OF g(2) xs, of src] items assms(4) fits(1) obtain zs where
        "dv_copy v1 src cnt = ret zs" "dynvec_ok esz (v1\<lparr>dv_data := Some zs, dv_len := dv_len v1 + cnt\<rparr>)"
        "dv_list (v1\<lparr>dv_data := Some zs, dv_len := dv_len v1 + cnt\<rparr>) = dv_list v @ take (unat cnt) (dv_source_items v src)"
        using g(3) by auto
      with True g(1) show ?thesis unfolding val
        using g(6)
        by (intro exI [of _ True] exI [of _ "v1\<lparr>dv_data := Some zs, dv_len := dv_len v1 + cnt\<rparr>"]) (simp add: dv_outcome_def dv_memory_def)
    qed
  qed
qed

lemma dynvec_clear_value:
  assumes "dynvec_ok esz v"
  shows "\<exists>v'. dynvec_clear (Some v) = Some v' \<and> dynvec_ok esz v' \<and> dv_list v' = []"
  using assms by (auto simp: dynvec_clear_def dynvec_ok_def dv_list_def split: option.splits)

lemma dynvec_reserve_value:
  assumes "dynvec_ok esz v" "realloc_ok esz r" "esz \<noteq> 0"
  shows "\<exists>ok v'. dynvec_reserve builtin r esz (Some v) n = ret (ok, Some v') \<and> dv_outcome esz v True (dv_list v) ok v' \<and>
    dv_memory esz r v (dv_wants_for (unat (dv_cap v)) (unat n)) ok v'"
proof (cases "dv_cap v \<ge> n")
  case True
  with assms(1) show ?thesis by (intro exI [of _ True] exI [of _ v])
    (simp add: dynvec_reserve_def dv_outcome_def dv_memory_def dv_granted_def dv_wants_for_def word_le_nat_alt)
next
  case False
  then have "dv_cap v \<le> n" and w: "dv_wants_for (unat (dv_cap v)) (unat n) = Some (dv_new_cap (dv_cap v) n)"
    by (simp_all add: dv_wants_for_def dv_new_cap_def word_le_nat_alt)
  from dynvec_grow_value [OF assms this(1), of builtin] obtain ok v1 where
    "dynvec_grow builtin r esz (Some v) n = ret (ok, Some v1)" "dynvec_ok esz v1" "dv_list v1 = dv_list v"
    "if ok then dv_data v1 \<noteq> None \<and> unat (dv_cap v1) = dv_new_cap (dv_cap v) n else v1 = v"
    "ok = dv_granted esz r (dv_data v) (Some (dv_new_cap (dv_cap v) n))"
    by (elim exE conjE) (rule that; assumption)
  with False w show ?thesis by (auto simp: dynvec_reserve_def dv_outcome_def dv_memory_def split: if_splits)
qed

lemma dynvec_shrink_value:
  assumes "dynvec_ok esz v" "realloc_ok esz r" "esz \<noteq> 0"
  shows "\<exists>ok v'. dynvec_shrink_to_fit r esz (Some v) = (ok, Some v') \<and> dv_outcome esz v True (dv_list v) ok v' \<and>
    (if ok then dv_cap v' = dv_len v' else v' = v) \<and>
    ok = dv_granted esz r (dv_data v) (if dv_len v = dv_cap v \<or> dv_len v = 0 then None else Some (unat (dv_len v)))"
proof -
  consider (fits) "dv_len v = dv_cap v" | (empty) "dv_len v \<noteq> dv_cap v" "dv_len v = 0"
    | (some) "dv_len v \<noteq> dv_cap v" "dv_len v \<noteq> 0" by blast
  then show ?thesis
  proof cases
    case fits
    with assms(1) show ?thesis by (intro exI [of _ True] exI [of _ v]) (simp add: dynvec_shrink_to_fit_def dv_outcome_def dv_granted_def)
  next
    case empty
    with assms(1) show ?thesis
      by (auto simp: dynvec_shrink_to_fit_def dv_outcome_def dynvec_ok_def dv_list_def dv_granted_def split: option.splits)
  next
    case some
    have e: "of_nat (unat (dv_len v) * unat esz) = dv_len v * esz" by simp
    have cap: "unat (dv_len v) \<le> unat (dv_cap v)" "unat (dv_cap v) * unat esz < 2 ^ 64"
      using dynvec_okD(1) [OF assms(1)] assms(1) by (simp_all add: dynvec_ok_def)
    have g: "dv_granted esz r (dv_data v) (Some (unat (dv_len v))) \<longleftrightarrow> r (dv_data v) (dv_len v * esz) \<noteq> None"
      using le_less_trans [OF mult_le_mono1 [OF cap(1), of "unat esz"] cap(2)] unfolding dv_granted_def by (simp add: e)
    show ?thesis
    proof (cases "r (dv_data v) (dv_len v * esz)")
      case None
      with some assms(1) show ?thesis by (intro exI [of _ False] exI [of _ v]) (simp add: g dynvec_shrink_to_fit_def dv_outcome_def)
    next
      case (Some ys)
      obtain xs where xs: "dv_data v = Some xs" using some dynvec_okD(4) [OF assms(1)] by (cases "dv_data v") auto
      have le: "unat (dv_len v) \<le> unat (dv_cap v)" "length xs = unat (dv_cap v)" "unat (dv_cap v) * unat esz < 2 ^ 64"
        using dynvec_okD(1,3) [OF assms(1)] xs assms(1) by (simp_all add: dynvec_ok_def)
      have m: "unat (dv_len v) * unat esz < 2 ^ 64" using mult_le_mono1 [OF le(1), of "unat esz"] le(3) by linarith
      then have "unat (dv_len v * esz) = unat (dv_len v) * unat esz" by (simp add: unat_word_ariths)
      moreover have "unat esz \<noteq> 0" using assms(3) by (simp add: unat_eq_zero)
      moreover have "length ys = unat (dv_len v * esz) div unat esz" using assms(2) Some by (auto simp: realloc_ok_def)
      ultimately have len: "length ys = unat (dv_len v)" by simp
      have gr: "dv_granted esz r (Some xs) (Some (unat (dv_len v)))" using g Some xs by simp
      have "take (min (length xs) (length ys)) ys = take (min (length xs) (length ys)) xs"
        using assms(2) [unfolded realloc_ok_def] Some xs by blast
      then have "ys = take (unat (dv_len v)) xs" using len le by (simp add: min_absorb2)
      with gr some Some assms(1) len m xs show ?thesis
        by (intro exI [of _ True] exI [of _ "v\<lparr>dv_data := Some ys, dv_cap := dv_len v\<rparr>"]) (simp add: g dynvec_shrink_to_fit_def dv_outcome_def dynvec_ok_def dv_list_def)
    qed
  qed
qed

subsection \<open>Any sequence of operations\<close>

text \<open>
  Each operation comes with the \<open>realloc\<close> it meets; its answer is the flag and the element read, if any.
  \<open>dv_spec\<close> is the operation on a list: whether the argument is in range, the new list, and the element.
\<close>

datatype 'a dv_op =
  Dv_push 'a | Dv_insert usize 'a | Dv_set usize 'a | Dv_pop | Dv_remove usize | Dv_get usize | Dv_clear
  | Dv_extend "'a list" | Dv_extend_own usize usize | Dv_reserve usize | Dv_shrink

type_synonym 'a dv_answer = "bool \<times> 'a cptr"

definition dv_flag :: "(bool \<times> 'a dynvec cptr) run \<Rightarrow> ('a dv_answer \<times> 'a dynvec cptr) run" where
  "dv_flag m = bindR m (\<lambda>(ok, p). ret ((ok, None), p))"

definition dv_read :: "(bool \<times> 'a dynvec cptr \<times> 'a cptr) run \<Rightarrow> ('a dv_answer \<times> 'a dynvec cptr) run" where
  "dv_read m = bindR m (\<lambda>(ok, p, out). ret ((ok, if ok then out else None), p))"

text \<open>
  \<open>y\<close> is what the caller's variable holds before. The caller of \<open>extend\<close> has to point to elements that are there: a
  step that would name others of the vector's own does not call it.
\<close>

definition dv_step :: "bool \<Rightarrow> usize \<Rightarrow> 'a \<Rightarrow> 'a realloc \<times> 'a dv_op \<Rightarrow> 'a dynvec cptr \<Rightarrow> ('a dv_answer \<times> 'a dynvec cptr) run" where
  "dv_step builtin esz y rc p = (case rc of (r, c) \<Rightarrow> (case c of
     Dv_push x \<Rightarrow> dv_flag (dynvec_push builtin r esz p x)
   | Dv_insert i x \<Rightarrow> dv_flag (dynvec_insert builtin r esz p i x)
   | Dv_set i x \<Rightarrow> dv_flag (dynvec_set p i x)
   | Dv_pop \<Rightarrow> dv_read (dynvec_pop p (Some y))
   | Dv_remove i \<Rightarrow> dv_read (dynvec_remove p i (Some y))
   | Dv_get i \<Rightarrow> dv_read (bindR (dynvec_get p i (Some y)) (\<lambda>(ok, out). ret (ok, p, out)))
   | Dv_clear \<Rightarrow> dv_flag (ret (True, dynvec_clear p))
   | Dv_extend ys \<Rightarrow> dv_flag (dynvec_extend builtin r esz p (Dv_outside ys) (of_nat (length ys)))
   | Dv_extend_own k n \<Rightarrow>
       if unat k + unat n \<le> unat (dynvec_len p) then dv_flag (dynvec_extend builtin r esz p (Dv_inside k) n) else ret ((False, None), p)
   | Dv_reserve n \<Rightarrow> dv_flag (dynvec_reserve builtin r esz p n)
   | Dv_shrink \<Rightarrow> dv_flag (ret (dynvec_shrink_to_fit r esz p))))"

fun dv_run :: "bool \<Rightarrow> usize \<Rightarrow> 'a \<Rightarrow> ('a realloc \<times> 'a dv_op) list \<Rightarrow> 'a dynvec cptr \<Rightarrow> ('a dv_answer list \<times> 'a dynvec cptr) run" where
  "dv_run builtin esz y [] p = ret ([], p)"
| "dv_run builtin esz y (rc # rcs) p = bindR (dv_step builtin esz y rc p) (\<lambda>(a, p1).
     bindR (dv_run builtin esz y rcs p1) (\<lambda>(as, p2). ret (a # as, p2)))"

fun dv_spec :: "'a dv_op \<Rightarrow> 'a list \<Rightarrow> bool \<times> 'a list \<times> 'a cptr" where
  "dv_spec (Dv_push x) xs = (True, xs @ [x], None)"
| "dv_spec (Dv_insert i x) xs = (unat i \<le> length xs, take (unat i) xs @ x # drop (unat i) xs, None)"
| "dv_spec (Dv_set i x) xs = (unat i < length xs, xs[unat i := x], None)"
| "dv_spec Dv_pop xs = (xs \<noteq> [], butlast xs, Some (last xs))"
| "dv_spec (Dv_remove i) xs = (unat i < length xs, take (unat i) xs @ drop (Suc (unat i)) xs, Some (xs ! unat i))"
| "dv_spec (Dv_get i) xs = (unat i < length xs, xs, Some (xs ! unat i))"
| "dv_spec Dv_clear xs = (True, [], None)"
| "dv_spec (Dv_extend ys) xs = (True, xs @ ys, None)"
| "dv_spec (Dv_extend_own k n) xs = (unat k + unat n \<le> length xs, xs @ take (unat n) (drop (unat k) xs), None)"
| "dv_spec (Dv_reserve n) xs = (True, xs, None)"
| "dv_spec Dv_shrink xs = (True, xs, None)"

text \<open>How many elements an operation can add.\<close>

fun dv_adds :: "'a dv_op \<Rightarrow> nat" where
  "dv_adds (Dv_push x) = 1"
| "dv_adds (Dv_insert i x) = 1"
| "dv_adds (Dv_extend ys) = length ys"
| "dv_adds (Dv_extend_own k n) = unat n"
| "dv_adds c = 0"

text \<open>
  The capacity that an operation in range asks memory for, if it asks at all, on a list in a buffer of \<open>cap\<close>
  elements: room for what it adds or reserves when there is not enough, and less room for \<open>shrink\<close>; and the capacity
  after it was done.
\<close>

fun dv_wants :: "'a dv_op \<Rightarrow> 'a list \<Rightarrow> nat \<Rightarrow> nat option" where
  "dv_wants (Dv_push x) xs cap = dv_wants_for cap (Suc (length xs))"
| "dv_wants (Dv_insert i x) xs cap = dv_wants_for cap (Suc (length xs))"
| "dv_wants (Dv_extend ys) xs cap = dv_wants_for cap (length xs + length ys)"
| "dv_wants (Dv_extend_own k n) xs cap = dv_wants_for cap (length xs + unat n)"
| "dv_wants (Dv_reserve n) xs cap = dv_wants_for cap (unat n)"
| "dv_wants Dv_shrink xs cap = (if length xs = cap \<or> xs = [] then None else Some (length xs))"
| "dv_wants c xs cap = None"

fun dv_cap_after :: "'a dv_op \<Rightarrow> 'a list \<Rightarrow> nat \<Rightarrow> nat" where
  "dv_cap_after Dv_shrink xs cap = length xs"
| "dv_cap_after c xs cap = (case dv_wants c xs cap of None \<Rightarrow> cap | Some k \<Rightarrow> k)"

text \<open>
  The abstract vector is a list and a capacity. \<open>dv_served\<close> says that an operation that asks for \<open>w\<close> was done
  exactly when the \<open>realloc\<close> it met gave that to a buffer that holds the list in this capacity. \<open>dv_account\<close> replays
  a sequence of operations with their answers: out of range, an operation has to be refused; in range, it has to be
  done exactly when it needs no memory or is served, with the effect and the answer of \<open>dv_spec\<close>; a refusal changes
  neither the list nor the capacity.
\<close>

definition dv_holds :: "'a list cptr \<Rightarrow> 'a list \<Rightarrow> nat \<Rightarrow> bool" where
  "dv_holds d xs cap = (case d of None \<Rightarrow> xs = [] \<and> cap = 0 | Some zs \<Rightarrow> length zs = cap \<and> take (length xs) zs = xs)"

definition dv_served :: "usize \<Rightarrow> 'a realloc \<Rightarrow> 'a list \<Rightarrow> nat \<Rightarrow> nat option \<Rightarrow> bool \<Rightarrow> bool" where
  "dv_served esz r xs cap w ok \<longleftrightarrow> (\<exists>d. dv_holds d xs cap \<and> ok = dv_granted esz r d w)"

fun dv_account ::
  "usize \<Rightarrow> ('a realloc \<times> 'a dv_op) list \<Rightarrow> 'a dv_answer list \<Rightarrow> 'a list \<times> nat \<Rightarrow> ('a list \<times> nat) option" where
  "dv_account esz [] [] s = Some s"
| "dv_account esz ((r, c) # rcs) ((ok, out) # as) (xs, cap) = (case dv_spec c xs of (pre, ys, z) \<Rightarrow>
     if (if pre then dv_served esz r xs cap (dv_wants c xs cap) ok else \<not> ok) \<and> out = (if ok then z else None)
     then dv_account esz rcs as (if ok then (ys, dv_cap_after c xs cap) else (xs, cap)) else None)"
| "dv_account _ _ _ _ = None"

lemma dynvec_get_value:
  assumes "dynvec_ok esz v"
  shows "dynvec_get (Some v) i (Some y) =
    (if unat i < length (dv_list v) then ret (True, Some (dv_list v ! unat i)) else ret (False, Some y))"
proof (cases "i \<ge> dv_len v")
  case True
  then show ?thesis using dynvec_okD(2) [OF assms] by (simp add: dynvec_get_def word_le_nat_alt)
next
  case False
  then have i: "unat i < unat (dv_len v)" by (simp add: word_le_nat_alt)
  then obtain xs where xs: "dv_data v = Some xs" using dynvec_okD(4) [OF assms] by (cases "dv_data v") auto
  then show ?thesis using False i dynvec_okD(1,3) [OF assms] by (simp add: dynvec_get_def dv_get_def)
qed

definition dv_step_ok :: "usize \<Rightarrow> 'a realloc \<Rightarrow> 'a dynvec \<Rightarrow> 'a dv_op \<Rightarrow> ('a dv_answer \<times> 'a dynvec cptr) run \<Rightarrow> bool" where
  "dv_step_ok esz r v c m \<longleftrightarrow> (\<exists>ok out v'. m = ret ((ok, out), Some v') \<and> dynvec_ok esz v' \<and>
     (case dv_spec c (dv_list v) of (pre, ys, z) \<Rightarrow>
        (if pre then ok = dv_granted esz r (dv_data v) (dv_wants c (dv_list v) (unat (dv_cap v))) else \<not> ok) \<and>
        out = (if ok then z else None) \<and>
        (dv_list v', unat (dv_cap v')) = (if ok then (ys, dv_cap_after c (dv_list v) (unat (dv_cap v))) else (dv_list v, unat (dv_cap v)))))"

lemma dv_flag_ok:
  assumes "m = ret (ok, Some v')" "dv_outcome esz v True ys ok v'" "dv_spec c (dv_list v) = (True, ys, None)"
    "dv_memory esz r v (dv_wants c (dv_list v) (unat (dv_cap v))) ok v'" "c \<noteq> Dv_shrink"
  shows "dv_step_ok esz r v c (dv_flag m)"
proof -
  have "dv_cap_after c (dv_list v) (unat (dv_cap v)) =
      (case dv_wants c (dv_list v) (unat (dv_cap v)) of None \<Rightarrow> unat (dv_cap v) | Some k \<Rightarrow> k)"
    using assms(5) by (cases c) simp_all
  with assms(1-4) show ?thesis
    by (auto simp: dv_step_ok_def dv_flag_def dv_outcome_def dv_memory_def split: if_splits option.splits)
qed

lemma dv_refused_ok:
  assumes "dynvec_ok esz v" "\<not> fst (dv_spec c (dv_list v))"
  shows "dv_step_ok esz r v c (ret ((False, None), Some v))"
proof -
  obtain pre ys z where "dv_spec c (dv_list v) = (pre, ys, z)" by (cases "dv_spec c (dv_list v)") auto
  with assms show ?thesis unfolding dv_step_ok_def by (intro exI [of _ False] exI [of _ None] exI [of _ v]) simp
qed

text \<open>The operations that never ask for memory.\<close>

lemma dv_plain_cap:
  "dynvec_set (Some v) i x = ret (ok, Some v') \<Longrightarrow> dv_cap v' = dv_cap v"
  "dynvec_pop (Some v) q = ret (ok, Some v', out) \<Longrightarrow> dv_cap v' = dv_cap v"
  "dynvec_remove (Some v) i q = ret (ok, Some v', out) \<Longrightarrow> dv_cap v' = dv_cap v"
  by (auto simp: dynvec_set_def dv_put_def dynvec_pop_def dynvec_remove_def bindR_eq_Inr split: if_splits)

lemma dv_plain_ok:
  assumes "m = ret ((ok, out), Some v')" "dv_outcome esz v pre ys ok v'" "dv_spec c (dv_list v) = (pre, ys, z)" "ok = pre"
    "out = (if ok then z else None)" "dv_cap v' = dv_cap v" "dv_wants c (dv_list v) (unat (dv_cap v)) = None" "c \<noteq> Dv_shrink"
  shows "dv_step_ok esz r v c m"
proof -
  have "dv_cap_after c (dv_list v) (unat (dv_cap v)) = unat (dv_cap v)" using assms(7,8) by (cases c) simp_all
  with assms(1-7) show ?thesis
    by (auto simp: dv_step_ok_def dv_outcome_def dv_granted_def split: if_splits)
qed

lemma dv_step_value:
  assumes "dynvec_ok esz v" "realloc_ok esz r" "esz \<noteq> 0" "length (dv_list v) + dv_adds c < 2 ^ 64"
  shows "dv_step_ok esz r v c (dv_step builtin esz y (r, c) (Some v))"
proof -
  have small: "unat (dv_len v) < 2 ^ 64 - 1" if "dv_adds c = 1" using assms(4) that dynvec_okD(2) [OF assms(1)] by simp
  note len = dynvec_okD(2) [OF assms(1)]
  show ?thesis
  proof (cases c)
    case (Dv_push x)
    then have sm: "unat (dv_len v) < 2 ^ 64 - 1" using small by simp
    from dynvec_push_value [OF assms(1-3) sm, of builtin x] obtain ok v' v1 where
      p: "dynvec_push builtin r esz (Some v) x = ret (ok, Some v')" "dv_outcome esz v True (dv_list v @ [x]) ok v'"
        "dv_room builtin r esz v = ret (ok, Some v1)" "dv_cap v' = dv_cap v1"
      by (elim exE conjE) (rule that; assumption)
    have "dv_step_ok esz r v c (dv_flag (dynvec_push builtin r esz (Some v) x))"
      using dv_room_memory [OF assms(1-3) sm p(3,4)] by (intro dv_flag_ok [OF p(1,2)]) (simp_all add: Dv_push)
    then show ?thesis by (simp add: Dv_push dv_step_def)
  next
    case (Dv_insert i x)
    then have sm: "unat (dv_len v) < 2 ^ 64 - 1" using small by simp
    show ?thesis
    proof (cases "unat i \<le> length (dv_list v)")
      case True
      from dynvec_insert_value [OF assms(1-3) sm, of builtin i x] True obtain ok v' v1 where
        p: "dynvec_insert builtin r esz (Some v) i x = ret (ok, Some v')"
          "dv_outcome esz v True (take (unat i) (dv_list v) @ x # drop (unat i) (dv_list v)) ok v'"
          "dv_room builtin r esz v = ret (ok, Some v1)" "dv_cap v' = dv_cap v1" by auto
      have "dv_step_ok esz r v c (dv_flag (dynvec_insert builtin r esz (Some v) i x))"
        using dv_room_memory [OF assms(1-3) sm p(3,4)] True by (intro dv_flag_ok [OF p(1,2)]) (simp_all add: Dv_insert)
      then show ?thesis by (simp add: Dv_insert dv_step_def)
    next
      case False
      then have "dynvec_insert builtin r esz (Some v) i x = ret (False, Some v)"
        using len by (simp add: dynvec_insert_def word_less_nat_alt)
      with False assms(1) show ?thesis by (simp add: Dv_insert dv_step_def dv_flag_def dv_refused_ok)
    qed
  next
    case (Dv_set i x)
    from dynvec_set_value [OF assms(1), of i x] obtain ok v' where
      p: "dynvec_set (Some v) i x = ret (ok, Some v')" "ok = (unat i < length (dv_list v))"
        "dv_outcome esz v (unat i < length (dv_list v)) ((dv_list v)[unat i := x]) ok v'" by blast
    have "dv_step_ok esz r v c (ret ((ok, None), Some v'))"
      by (rule dv_plain_ok [OF refl p(3) _ p(2), of _ None]) (simp_all add: Dv_set dv_plain_cap(1) [OF p(1)])
    then show ?thesis by (simp add: Dv_set dv_step_def dv_flag_def p(1))
  next
    case Dv_pop
    from dynvec_pop_value [OF assms(1), of y] obtain ok v' out where
      p: "dynvec_pop (Some v) (Some y) = ret (ok, Some v', Some out)"
        "dv_outcome esz v (dv_list v \<noteq> []) (butlast (dv_list v)) ok v'" "ok = (dv_list v \<noteq> [])"
        "out = (if ok then last (dv_list v) else y)" by blast
    have "dv_step_ok esz r v c (ret ((ok, if ok then Some out else None), Some v'))"
      by (rule dv_plain_ok [OF refl p(2) _ p(3), of _ "Some (last (dv_list v))"])
        (simp_all add: Dv_pop dv_plain_cap(2) [OF p(1)] p(4))
    then show ?thesis by (simp add: Dv_pop dv_step_def dv_read_def p(1))
  next
    case (Dv_remove i)
    from dynvec_remove_value [OF assms(1), of i y] obtain ok v' out where
      p: "dynvec_remove (Some v) i (Some y) = ret (ok, Some v', Some out)" "ok = (unat i < length (dv_list v))"
        "dv_outcome esz v (unat i < length (dv_list v)) (take (unat i) (dv_list v) @ drop (Suc (unat i)) (dv_list v)) ok v'"
        "out = (if ok then dv_list v ! unat i else y)" by blast
    have "dv_step_ok esz r v c (ret ((ok, if ok then Some out else None), Some v'))"
      by (rule dv_plain_ok [OF refl p(3) _ p(2), of _ "Some (dv_list v ! unat i)"])
        (simp_all add: Dv_remove dv_plain_cap(3) [OF p(1)] p(4))
    then show ?thesis by (simp add: Dv_remove dv_step_def dv_read_def p(1))
  next
    case (Dv_get i)
    show ?thesis
    proof (cases "unat i < length (dv_list v)")
      case True
      have "dv_step_ok esz r v c (ret ((True, Some (dv_list v ! unat i)), Some v))"
        using True assms(1) by (intro dv_plain_ok [where pre = True and ys = "dv_list v" and z = "Some (dv_list v ! unat i)"])
          (simp_all add: Dv_get dv_outcome_def)
      with True show ?thesis by (simp add: Dv_get dv_step_def dv_read_def dynvec_get_value [OF assms(1)])
    next
      case False
      with assms(1) show ?thesis by (simp add: Dv_get dv_step_def dv_read_def dynvec_get_value [OF assms(1)] dv_refused_ok)
    qed
  next
    case Dv_clear
    from dynvec_clear_value [OF assms(1)] have "dynvec_ok esz (v\<lparr>dv_len := 0\<rparr>)" "dv_list (v\<lparr>dv_len := 0\<rparr>) = []"
      by (simp_all add: dynvec_clear_def)
    then have "dv_step_ok esz r v c (ret ((True, None), Some (v\<lparr>dv_len := 0\<rparr>)))"
      by (intro dv_plain_ok [where pre = True and ys = "[]" and z = None and v' = "v\<lparr>dv_len := 0\<rparr>"])
        (simp_all add: Dv_clear dv_outcome_def)
    then show ?thesis by (simp add: Dv_clear dv_step_def dv_flag_def dynvec_clear_def)
  next
    case (Dv_extend ys)
    then have n: "unat (of_nat (length ys) :: usize) = length ys" using assms(4) by (simp add: unat_of_small)
    then have "unat (of_nat (length ys) :: usize) \<le> length (dv_source_items v (Dv_outside ys))" by (simp add: dv_source_items_def)
    from dynvec_extend_value [OF assms(1-3) this, of builtin] obtain ok v' where
      p: "dynvec_extend builtin r esz (Some v) (Dv_outside ys) (of_nat (length ys)) = ret (ok, Some v')"
        "dv_outcome esz v True (dv_list v @ ys) ok v'"
        "unat (dv_len v) + length ys < 2 ^ 64 \<longrightarrow> dv_memory esz r v (dv_wants_for (unat (dv_cap v)) (unat (dv_len v) + length ys)) ok v'"
      by (auto simp: n dv_source_items_def)
    have "dv_step_ok esz r v c (dv_flag (dynvec_extend builtin r esz (Some v) (Dv_outside ys) (of_nat (length ys))))"
      using p(3) assms(4) len by (intro dv_flag_ok [OF p(1,2)]) (simp_all add: Dv_extend)
    then show ?thesis by (simp add: Dv_extend dv_step_def)
  next
    case (Dv_extend_own k n)
    show ?thesis
    proof (cases "unat k + unat n \<le> unat (dv_len v)")
      case True
      then have "unat n \<le> length (dv_source_items v (Dv_inside k))" using len by (simp add: dv_source_items_def)
      from dynvec_extend_value [OF assms(1-3) this, of builtin] obtain ok v' where
        p: "dynvec_extend builtin r esz (Some v) (Dv_inside k) n = ret (ok, Some v')"
          "dv_outcome esz v True (dv_list v @ take (unat n) (drop (unat k) (dv_list v))) ok v'"
          "unat (dv_len v) + unat n < 2 ^ 64 \<longrightarrow> dv_memory esz r v (dv_wants_for (unat (dv_cap v)) (unat (dv_len v) + unat n)) ok v'"
        by (auto simp: dv_source_items_def)
      have "dv_step_ok esz r v c (dv_flag (dynvec_extend builtin r esz (Some v) (Dv_inside k) n))"
        using p(3) assms(4) len True by (intro dv_flag_ok [OF p(1,2)]) (simp_all add: Dv_extend_own)
      with True show ?thesis by (simp add: Dv_extend_own dv_step_def dynvec_len_def)
    next
      case False
      with Dv_extend_own len assms(1) show ?thesis by (simp add: dv_step_def dv_refused_ok dynvec_len_def)
    qed
  next
    case (Dv_reserve n)
    from dynvec_reserve_value [OF assms(1-3), of builtin n] obtain ok v' where
      p: "dynvec_reserve builtin r esz (Some v) n = ret (ok, Some v')" "dv_outcome esz v True (dv_list v) ok v'"
        "dv_memory esz r v (dv_wants_for (unat (dv_cap v)) (unat n)) ok v'" by blast
    have "dv_step_ok esz r v c (dv_flag (dynvec_reserve builtin r esz (Some v) n))"
      using p(3) by (intro dv_flag_ok [OF p(1,2)]) (simp_all add: Dv_reserve)
    then show ?thesis by (simp add: Dv_reserve dv_step_def)
  next
    case Dv_shrink
    from dynvec_shrink_value [OF assms(1-3)] obtain ok v' where
      p: "dynvec_shrink_to_fit r esz (Some v) = (ok, Some v')" "dv_outcome esz v True (dv_list v) ok v'"
        "if ok then dv_cap v' = dv_len v' else v' = v"
        "ok = dv_granted esz r (dv_data v) (if dv_len v = dv_cap v \<or> dv_len v = 0 then None else Some (unat (dv_len v)))" by blast
    have "dv_wants Dv_shrink (dv_list v) (unat (dv_cap v)) =
        (if dv_len v = dv_cap v \<or> dv_len v = 0 then None else Some (unat (dv_len v)))"
      using len length_0_conv [of "dv_list v"] by (simp add: word_unat_eq_iff [of "dv_len v" "dv_cap v"] word_unat_eq_iff [of "dv_len v" 0])
    moreover have "unat (dv_cap v') = length (dv_list v)" if ok
      using p(2,3) that dynvec_okD(2) [of esz v'] by (auto simp: dv_outcome_def)
    ultimately have "dv_step_ok esz r v c (ret ((ok, None), Some v'))"
      using p(2-4) by (auto simp: Dv_shrink dv_step_ok_def dv_outcome_def split: if_splits)
    then show ?thesis by (simp add: Dv_shrink dv_step_def dv_flag_def p(1))
  qed
qed

lemma dv_spec_length: "length (fst (snd (dv_spec c xs))) \<le> length xs + dv_adds c"
  by (cases c) auto

lemma dv_holds_data: "dynvec_ok esz v \<Longrightarrow> dv_holds (dv_data v) (dv_list v) (unat (dv_cap v))"
  using dynvec_okD [of esz v] by (cases "dv_data v") (auto simp: dv_holds_def)

lemma dv_run_account:
  assumes "dynvec_ok esz v" "\<forall>(r, c) \<in> set rcs. realloc_ok esz r" "esz \<noteq> 0"
    "length (dv_list v) + sum_list (map (dv_adds \<circ> snd) rcs) < 2 ^ 64"
  shows "\<exists>as v'. dv_run builtin esz y rcs (Some v) = ret (as, Some v') \<and> dynvec_ok esz v' \<and>
    dv_account esz rcs as (dv_list v, unat (dv_cap v)) = Some (dv_list v', unat (dv_cap v'))"
  using assms
proof (induction rcs arbitrary: v)
  case Nil
  then show ?case by simp
next
  case (Cons rc rcs)
  obtain r c where rc: "rc = (r, c)" by (cases rc)
  from Cons.prems rc have "realloc_ok esz r" "length (dv_list v) + dv_adds c < 2 ^ 64" by auto
  from dv_step_value [OF Cons.prems(1) this(1) Cons.prems(3) this(2), of builtin y] obtain ok out v1 where
    st: "dv_step builtin esz y (r, c) (Some v) = ret ((ok, out), Some v1)" "dynvec_ok esz v1"
      "case dv_spec c (dv_list v) of (pre, ys, z) \<Rightarrow>
        (if pre then ok = dv_granted esz r (dv_data v) (dv_wants c (dv_list v) (unat (dv_cap v))) else \<not> ok) \<and>
        out = (if ok then z else None) \<and>
        (dv_list v1, unat (dv_cap v1)) = (if ok then (ys, dv_cap_after c (dv_list v) (unat (dv_cap v))) else (dv_list v, unat (dv_cap v)))"
    unfolding dv_step_ok_def by (elim exE conjE) (rule that; assumption)
  obtain pre ys z where sp: "dv_spec c (dv_list v) = (pre, ys, z)" by (cases "dv_spec c (dv_list v)") auto
  have "length (dv_list v1) \<le> length (dv_list v) + dv_adds c"
    using st(3) sp dv_spec_length [of c "dv_list v"] by (cases ok) auto
  then have "length (dv_list v1) + sum_list (map (dv_adds \<circ> snd) rcs) < 2 ^ 64" using Cons.prems(4) rc by (simp add: comp_def)
  moreover have "\<forall>(r, c) \<in> set rcs. realloc_ok esz r" using Cons.prems(2) by simp
  ultimately obtain as v2 where
    r: "dv_run builtin esz y rcs (Some v1) = ret (as, Some v2)" "dynvec_ok esz v2"
      "dv_account esz rcs as (dv_list v1, unat (dv_cap v1)) = Some (dv_list v2, unat (dv_cap v2))"
    using Cons.IH [OF st(2)] Cons.prems(3) by blast
  have "dv_served esz r (dv_list v) (unat (dv_cap v)) (dv_wants c (dv_list v) (unat (dv_cap v))) ok" if pre
    unfolding dv_served_def using st(3) sp that dv_holds_data [OF Cons.prems(1)] by (intro exI [of _ "dv_data v"]) simp
  then have "dv_account esz (rc # rcs) ((ok, out) # as) (dv_list v, unat (dv_cap v)) = Some (dv_list v2, unat (dv_cap v2))"
    using st(3) sp r(3) rc by simp
  then show ?case using st(1) r(1,2) rc by (intro exI [of _ "(ok, out) # as"] exI [of _ v2]) simp
qed

text \<open>A \<open>realloc\<close> that fills the new space with zeros, and one that fails.\<close>

definition zero_realloc :: "usize \<Rightarrow> nat realloc" where
  "zero_realloc esz d bytes = (let n = unat bytes div unat esz; xs = (case d of None \<Rightarrow> [] | Some xs \<Rightarrow> xs) in
     Some (take n (xs @ replicate (n - length xs) 0)))"

definition no_realloc :: "nat realloc" where
  "no_realloc d bytes = None"

lemma zero_realloc_ok: "realloc_ok esz (zero_realloc esz)" "zero_realloc esz d b \<noteq> None"
  by (auto simp: realloc_ok_def zero_realloc_def Let_def min_def)

lemma no_realloc_ok: "realloc_ok esz no_realloc"
  by (simp add: realloc_ok_def no_realloc_def)

lemmas dv_run_defs = dv_step_def dv_flag_def dv_read_def dynvec_push_def dv_room_def dynvec_grow_def dynvec_initial_capacity_def
  dynvec_growth_factor_def zero_realloc_def no_realloc_def dynvec_reserve_def dynvec_insert_def dynvec_extend_def
  dynvec_remove_def dynvec_shrink_to_fit_def dynvec_pop_def dv_get_def dv_put_def dv_copy_def dynvec_init_def
  arr_move_def arr_copy_def arr_set_def arr_get_def dynvec_len_def

text \<open>C17: A growing vector is a list with a capacity: from an empty vector, any sequence of operations, each meeting its
own lawful \<open>realloc\<close> that may fail, runs without a contract failure or an access outside the buffer and keeps the
invariant. An operation out of range is refused; one in range is done exactly when it needs no memory in the current
capacity, or the size it asks for is representable and its \<open>realloc\<close> gives it, and then has the effect and the answer
of the list operation and the capacity that doubling, reserving or shrinking gives. A refused operation leaves the
elements and the capacity as they were. The elements that a sequence adds are fewer than \<open>\<open>2 ^ 64\<close>\<close>.\<close>

theorem dynvec_refines_list:
  assumes "\<forall>(r, c) \<in> set rcs. realloc_ok esz r" "esz \<noteq> 0" "sum_list (map (dv_adds \<circ> snd) rcs) < 2 ^ 64"
  shows "\<exists>as v. dv_run builtin esz y rcs (Some dynvec_init) = ret (as, Some v) \<and> dynvec_ok esz v \<and>
    dv_account esz rcs as ([], 0) = Some (dv_list v, unat (dv_cap v))"
proof -
  have "unat (dv_cap (dynvec_init :: 'a dynvec)) = 0" by (simp add: dynvec_init_def)
  then show ?thesis using dv_run_account [OF dynvec_init_ok(1) assms(1,2), of builtin y] assms(3) by (simp add: dynvec_init_ok)
qed

theorem dynvec_refines_list_witness:
  "let rcs = [(zero_realloc 4, Dv_push 5), (no_realloc, Dv_reserve 8), (no_realloc, Dv_reserve 20), (no_realloc, Dv_insert 0 7),
      (no_realloc, Dv_extend_own 0 2), (zero_realloc 4, Dv_remove 9), (no_realloc, Dv_shrink), (no_realloc, Dv_pop)];
     as = [(True, None), (True, None), (False, None), (True, None), (True, None), (False, None), (False, None), (True, Some 5)] in
   \<exists>v. dv_run True 4 9 rcs (Some dynvec_init) = ret (as, Some v) \<and> dynvec_ok 4 v \<and>
    dv_account 4 rcs as ([], 0) = Some ([7, 5, 7], 8)"
proof -
  let ?rcs = "[(zero_realloc 4, Dv_push 5), (no_realloc, Dv_reserve 8), (no_realloc, Dv_reserve 20), (no_realloc, Dv_insert 0 7),
      (no_realloc, Dv_extend_own 0 2), (zero_realloc 4, Dv_remove 9), (no_realloc, Dv_shrink), (no_realloc, Dv_pop)]"
  let ?as = "[(True, None), (True, None), (False, None), (True, None), (True, None), (False, None), (False, None), (True, Some 5)]"
  let ?s1 = "Some \<lparr>dv_data = Some [5 :: nat, 0, 0, 0, 0, 0, 0, 0], dv_len = 1, dv_cap = 8\<rparr>"
  let ?s4 = "Some \<lparr>dv_data = Some [7 :: nat, 5, 0, 0, 0, 0, 0, 0], dv_len = 2, dv_cap = 8\<rparr>"
  let ?s5 = "Some \<lparr>dv_data = Some [7 :: nat, 5, 7, 5, 0, 0, 0, 0], dv_len = 4, dv_cap = 8\<rparr>"
  let ?v = "\<lparr>dv_data = Some [7 :: nat, 5, 7, 5, 0, 0, 0, 0], dv_len = 3, dv_cap = 8\<rparr>"
  have rep: "replicate 8 (0 :: nat) = [0, 0, 0, 0, 0, 0, 0, 0]" by (simp add: numeral_eq_Suc)
  have le: "\<not> (8 :: usize) \<le> 1" by (simp add: not_le)
  have "dv_step True 4 9 (zero_realloc 4, Dv_push 5) (Some dynvec_init) = ret ((True, None), ?s1)"
    "dv_step True 4 9 (no_realloc, Dv_reserve 8) ?s1 = ret ((True, None), ?s1)"
    "dv_step True 4 9 (no_realloc, Dv_reserve 20) ?s1 = ret ((False, None), ?s1)"
    "dv_step True 4 9 (no_realloc, Dv_insert 0 7) ?s1 = ret ((True, None), ?s4)"
    "dv_step True 4 9 (no_realloc, Dv_extend_own 0 2) ?s4 = ret ((True, None), ?s5)"
    "dv_step True 4 9 (zero_realloc 4, Dv_remove 9) ?s5 = ret ((False, None), ?s5)"
    "dv_step True 4 9 (no_realloc, Dv_shrink) ?s5 = ret ((False, None), ?s5)"
    "dv_step True 4 9 (no_realloc, Dv_pop) ?s5 = ret ((True, Some 5), Some ?v)"
    by (simp_all add: dv_run_defs rep le Let_def)
  then have run: "dv_run True 4 9 ?rcs (Some dynvec_init) = ret (?as, Some ?v)" by simp
  have "\<forall>(r, c) \<in> set ?rcs. realloc_ok 4 r" by (simp add: zero_realloc_ok no_realloc_ok)
  from dynvec_refines_list [OF this, of True 9] run
  have ok: "dynvec_ok 4 ?v \<and> dv_account 4 ?rcs ?as ([], 0) = Some (dv_list ?v, unat (dv_cap ?v))" by simp
  have "dv_list ?v = [7, 5, 7]" "unat (dv_cap ?v) = 8" by (simp_all add: dv_list_def)
  with ok have "dynvec_ok 4 ?v \<and> dv_account 4 ?rcs ?as ([], 0) = Some ([7, 5, 7], 8)" by (simp only:)
  with run show ?thesis unfolding Let_def by blast
qed

subsection \<open>The growth of the buffer\<close>

text \<open>When memory never runs out, pushing always succeeds, and doubling keeps at least half of the buffer used.\<close>

fun dv_push_all :: "bool \<Rightarrow> 'a realloc \<Rightarrow> usize \<Rightarrow> 'a list \<Rightarrow> 'a dynvec cptr \<Rightarrow> (bool \<times> 'a dynvec cptr) run" where
  "dv_push_all builtin r esz [] p = ret (True, p)"
| "dv_push_all builtin r esz (x # xs) p = bindR (dynvec_push builtin r esz p x) (\<lambda>(ok, p1).
     if ok then dv_push_all builtin r esz xs p1 else ret (False, p1))"

lemma dynvec_push_room:
  assumes "dynvec_ok esz v" "realloc_ok esz r" "esz \<noteq> 0" "\<forall>d b. r d b \<noteq> None"
    "max 8 (2 * Suc (length (dv_list v))) * unat esz < 2 ^ 64" "unat (dv_cap v) \<le> max 8 (2 * length (dv_list v))"
  shows "\<exists>v'. dynvec_push builtin r esz (Some v) x = ret (True, Some v') \<and> dynvec_ok esz v' \<and> dv_list v' = dv_list v @ [x] \<and>
    unat (dv_cap v') \<le> max 8 (2 * length (dv_list v'))"
proof -
  have l: "length (dv_list v) = unat (dv_len v)" "unat (dv_len v) \<le> unat (dv_cap v)"
    using dynvec_okD(1,2) [OF assms(1)] by simp_all
  have e: "0 < unat esz" using assms(3) by (simp add: unat_gt_0)
  have "max 8 (2 * Suc (unat (dv_len v))) \<le> max 8 (2 * Suc (unat (dv_len v))) * unat esz"
    using mult_le_mono2 [of 1 "unat esz" "max 8 (2 * Suc (unat (dv_len v)))"] e by simp
  then have big: "max 8 (2 * Suc (unat (dv_len v))) < 2 ^ 64" using assms(5) unfolding l(1) by (rule le_less_trans)
  then have small: "unat (dv_len v) < 2 ^ 64 - 1" by simp
  have nc: "dv_new_cap (dv_cap v) (dv_len v + 1) \<le> max 8 (2 * Suc (unat (dv_len v)))" if "\<not> unat (dv_len v) < unat (dv_cap v)"
    using that l(2) small by (auto simp: dv_new_cap_max unat_usize_Suc)
  have fits: "dv_new_cap (dv_cap v) (dv_len v + 1) * unat esz < 2 ^ 64" if "\<not> unat (dv_len v) < unat (dv_cap v)"
    using mult_le_mono1 [OF nc [OF that], of "unat esz"] assms(5) unfolding l(1) by (rule le_less_trans)
  from dynvec_push_value [OF assms(1-3) small, of builtin x] obtain ok v' v1 where
    p: "dynvec_push builtin r esz (Some v) x = ret (ok, Some v')" "dv_outcome esz v True (dv_list v @ [x]) ok v'"
      "dv_room builtin r esz v = ret (ok, Some v1)" "dv_cap v' = dv_cap v1"
    by (elim exE conjE) (rule that; assumption)
  have room: "ok \<and> unat (dv_cap v1) =
      (if unat (dv_len v) < unat (dv_cap v) then unat (dv_cap v) else dv_new_cap (dv_cap v) (dv_len v + 1))"
    using dv_room_value [OF assms(1-3) small, of builtin] p(3) assms(4) fits by (auto simp: dv_granted_def)
  then have "dynvec_ok esz v'" "dv_list v' = dv_list v @ [x]" using p(2) by (simp_all add: dv_outcome_def)
  moreover have "unat (dv_cap v1) \<le> max 8 (2 * Suc (unat (dv_len v)))"
    using room nc assms(6) l(1) by (auto split: if_splits)
  ultimately show ?thesis using p(1,4) room l(1) by simp
qed

lemma dv_push_all_value:
  assumes "realloc_ok esz r" "esz \<noteq> 0" "\<forall>d b. r d b \<noteq> None" "dynvec_ok esz v"
    "max 8 (2 * (length (dv_list v) + length xs)) * unat esz < 2 ^ 64" "unat (dv_cap v) \<le> max 8 (2 * length (dv_list v))"
  shows "\<exists>v'. dv_push_all builtin r esz xs (Some v) = ret (True, Some v') \<and> dynvec_ok esz v' \<and> dv_list v' = dv_list v @ xs \<and>
    unat (dv_cap v') \<le> max 8 (2 * length (dv_list v'))"
  using assms(4-6)
proof (induction xs arbitrary: v)
  case Nil
  then show ?case by simp
next
  case (Cons x xs)
  have "max 8 (2 * Suc (length (dv_list v))) \<le> max 8 (2 * (length (dv_list v) + length (x # xs)))" by auto
  from mult_le_mono1 [OF this, of "unat esz"]
  have "max 8 (2 * Suc (length (dv_list v))) * unat esz < 2 ^ 64" using Cons.prems(2) by linarith
  from dynvec_push_room [OF Cons.prems(1) assms(1-3) this Cons.prems(3), of builtin x] obtain v1 where
    p: "dynvec_push builtin r esz (Some v) x = ret (True, Some v1)" "dynvec_ok esz v1" "dv_list v1 = dv_list v @ [x]"
      "unat (dv_cap v1) \<le> max 8 (2 * length (dv_list v1))"
    by (elim exE conjE) (rule that; assumption)
  have "max 8 (2 * (length (dv_list v1) + length xs)) * unat esz < 2 ^ 64" using Cons.prems(2) p(3) by simp
  with Cons.IH [OF p(2) _ p(4)] p(1,3) show ?case by simp
qed

text \<open>C26: When memory does not run out, any number of pushes on an empty vector succeeds and gives the pushed elements in
their order, and the buffer never has more than twice as many places as elements, or eight.\<close>

theorem dynvec_growth_bounded:
  assumes "realloc_ok esz r" "\<forall>d b. r d b \<noteq> None" "esz \<noteq> 0" "max 8 (2 * length xs) * unat esz < 2 ^ 64"
  shows "\<exists>v. dv_push_all builtin r esz xs (Some dynvec_init) = ret (True, Some v) \<and> dynvec_ok esz v \<and> dv_list v = xs \<and>
    unat (dv_cap v) \<le> max 8 (2 * length xs)"
proof -
  have "unat (dv_cap (dynvec_init :: 'a dynvec)) = 0" by (simp add: dynvec_init_def)
  then show ?thesis
    using dv_push_all_value [OF assms(1,3,2) dynvec_init_ok(1), of xs builtin] assms(4) by (auto simp: dynvec_init_ok)
qed

theorem dynvec_growth_bounded_witness:
  "\<exists>v. dv_push_all False (zero_realloc 2) 2 [1, 2, 3, 4, 5, 6, 7, 8, 9] (Some dynvec_init) = ret (True, Some v) \<and> dynvec_ok 2 v \<and>
    dv_list v = [1, 2, 3, 4, 5, 6, 7, 8, 9] \<and> unat (dv_cap v) \<le> max 8 (2 * length [1 :: nat, 2, 3, 4, 5, 6, 7, 8, 9])"
  using dynvec_growth_bounded [of 2 "zero_realloc 2" "[1, 2, 3, 4, 5, 6, 7, 8, 9]" False] by (simp add: zero_realloc_ok)

end
