(* ===== verification/Canon_SmallVec.thy ===== *)
theory Canon_SmallVec
  imports Canon_Vec Canon_Arena Canon_DynVec
begin

section \<open>The small vector (data/convenience/smallvec.h)\<close>

text \<open>
  A vector whose elements are inside the struct until they do not fit, when they move once to a buffer from an arena
  or from \<open>malloc\<close>. The pointer to the arena is the state of the arena. \<open>esz\<close> is \<open>sizeof(type)\<close>, \<open>icap\<close> is
  \<open>INLINE_CAP\<close>. \<open>malloc\<close> is a parameter as in \<open>Canon_DynVec\<close>, and so is the content \<open>mem\<close> of the memory that the arena
  hands out: an address and a number of elements to the elements found there. Sources are as in \<open>Canon_DynVec\<close>; one
  inside the vector is given by its index in the active buffer. The debug token is compiled out.

  \<open>smallvec_ok\<close> is the invariant and \<open>sv_list\<close> the elements. The lemmas show each operation on the list, that the
  elements move at most once and that the capacity does not change after that, and the view as a vector.
\<close>

subsection \<open>The functions\<close>

record 'a smallvec =
  sv_data :: "'a list cptr"
  sv_len :: usize
  sv_cap :: usize
  sv_arena :: "arena cptr"
  sv_inline :: bool
  sv_buf :: "'a list"

text \<open>\<open>junk\<close> is the uninitialised \<open>inline_buf\<close>.\<close>

definition smallvec_init :: "usize \<Rightarrow> 'a list \<Rightarrow> 'a smallvec" where
  "smallvec_init icap junk = \<lparr>sv_data = None, sv_len = 0, sv_cap = icap, sv_arena = None, sv_inline = True, sv_buf = junk\<rparr>"

definition smallvec_init_arena :: "usize \<Rightarrow> 'a list \<Rightarrow> arena cptr \<Rightarrow> 'a smallvec run" where
  "smallvec_init_arena icap junk ar = require_msg (ar \<noteq> None) ''smallvec_init_arena: arena cannot be NULL''
     (ret ((smallvec_init icap junk)\<lparr>sv_arena := ar\<rparr>))"

definition smallvec_active :: "'a smallvec \<Rightarrow> 'a list cptr" where
  "smallvec_active v = (if sv_inline v then Some (sv_buf v) else sv_data v)"

text \<open>A write to the active buffer.\<close>

definition sv_store :: "'a smallvec \<Rightarrow> 'a list \<Rightarrow> 'a smallvec" where
  "sv_store v xs = (if sv_inline v then v\<lparr>sv_buf := xs\<rparr> else v\<lparr>sv_data := Some xs\<rparr>)"

type_synonym 'a sv_mem = "(usize \<Rightarrow> 'a list cptr) \<times> (uptr \<Rightarrow> usize \<Rightarrow> 'a list)"

definition sv_alloc :: "'a sv_mem \<Rightarrow> usize \<Rightarrow> arena cptr \<Rightarrow> usize \<Rightarrow> ('a list cptr \<times> arena cptr) run" where
  "sv_alloc mm esz ar new_cap = (case mm of (malloc, mem) \<Rightarrow>
     if ar \<noteq> None
     then bindR (arena_alloc_array ar esz new_cap) (\<lambda>(q, ar'). ret (if q = null_ptr then None else Some (mem q new_cap), ar'))
     else ret (malloc (new_cap * esz), ar))"

definition smallvec_spill :: "'a sv_mem \<Rightarrow> usize \<Rightarrow> 'a smallvec cptr \<Rightarrow> usize \<Rightarrow> (bool \<times> 'a smallvec cptr) run" where
  "smallvec_spill mm esz p min_cap =
     ensure_msg (p \<noteq> None) ''smallvec_spill: v cannot be NULL'' (bindR (deref p) (\<lambda>v.
     ensure_msg (sv_inline v) ''smallvec_spill: not using inline buffer''
     (if \<not> sv_inline v then ret (False, p)
      else let c = sv_cap v * 2; new_cap = (if c < min_cap then min_cap else c) in
        bindR (sv_alloc mm esz (sv_arena v) new_cap) (\<lambda>(new_buf, ar).
          case new_buf of
            None \<Rightarrow> ret (False, Some (v\<lparr>sv_arena := ar\<rparr>))
          | Some xs \<Rightarrow> bindR (arr_copy xs 0 (sv_buf v) (sv_len v)) (\<lambda>ys.
              ret (True, Some (v\<lparr>sv_arena := ar, sv_data := Some ys, sv_cap := new_cap, sv_inline := False\<rparr>)))))))"

definition smallvec_len :: "'a smallvec cptr \<Rightarrow> usize" where
  "smallvec_len p = (case p of Some v \<Rightarrow> sv_len v | None \<Rightarrow> 0)"

definition smallvec_capacity :: "'a smallvec cptr \<Rightarrow> usize" where
  "smallvec_capacity p = (case p of Some v \<Rightarrow> sv_cap v | None \<Rightarrow> 0)"

definition smallvec_is_empty :: "'a smallvec cptr \<Rightarrow> bool" where
  "smallvec_is_empty p = (case p of None \<Rightarrow> True | Some v \<Rightarrow> sv_len v = 0)"

definition smallvec_using_inline :: "'a smallvec cptr \<Rightarrow> bool" where
  "smallvec_using_inline p = (case p of None \<Rightarrow> False | Some v \<Rightarrow> sv_inline v)"

definition sv_get :: "'a smallvec \<Rightarrow> usize \<Rightarrow> 'a run" where
  "sv_get v i = bindR (deref (smallvec_active v)) (\<lambda>xs. arr_get xs i)"

definition sv_put :: "'a smallvec \<Rightarrow> usize \<Rightarrow> 'a \<Rightarrow> 'a smallvec run" where
  "sv_put v i x = bindR (deref (smallvec_active v)) (\<lambda>xs. bindR (arr_set xs i x) (\<lambda>ys. ret (sv_store v ys)))"

definition smallvec_get :: "'a smallvec cptr \<Rightarrow> usize \<Rightarrow> 'a cptr \<Rightarrow> (bool \<times> 'a cptr) run" where
  "smallvec_get p i out = (case p of
     None \<Rightarrow> ret (False, out)
   | Some v \<Rightarrow> if out = None \<or> i \<ge> sv_len v then ret (False, out) else bindR (sv_get v i) (\<lambda>x. ret (True, Some x)))"

definition smallvec_get_unchecked :: "'a smallvec cptr \<Rightarrow> usize \<Rightarrow> 'a run" where
  "smallvec_get_unchecked p i =
     ensure_msg (p \<noteq> None) ''smallvec_get_unchecked: v cannot be NULL'' (bindR (deref p) (\<lambda>v.
     ensure_msg (i < sv_len v) ''smallvec_get_unchecked: index out of bounds'' (sv_get v i)))"

definition smallvec_data :: "'a smallvec cptr \<Rightarrow> 'a list cptr" where
  "smallvec_data p = (case p of None \<Rightarrow> None | Some v \<Rightarrow> smallvec_active v)"

definition smallvec_first :: "'a smallvec cptr \<Rightarrow> usize cptr" where
  "smallvec_first p = (case p of None \<Rightarrow> None | Some v \<Rightarrow> if sv_len v > 0 then Some 0 else None)"

definition smallvec_last :: "'a smallvec cptr \<Rightarrow> usize cptr" where
  "smallvec_last p = (case p of None \<Rightarrow> None | Some v \<Rightarrow> if sv_len v > 0 then Some (sv_len v - 1) else None)"

definition sv_push_at_end :: "'a smallvec \<Rightarrow> 'a \<Rightarrow> (bool \<times> 'a smallvec cptr) run" where
  "sv_push_at_end v x = bindR (sv_put v (sv_len v) x) (\<lambda>v'. ret (True, Some (v'\<lparr>sv_len := sv_len v + 1\<rparr>)))"

definition smallvec_push :: "'a sv_mem \<Rightarrow> usize \<Rightarrow> 'a smallvec cptr \<Rightarrow> 'a \<Rightarrow> (bool \<times> 'a smallvec cptr) run" where
  "smallvec_push mm esz p x = (case p of
     None \<Rightarrow> ret (False, p)
   | Some v \<Rightarrow>
       if sv_len v < sv_cap v then sv_push_at_end v x
       else bindR (if sv_inline v then smallvec_spill mm esz p (sv_len v + 1) else ret (True, p)) (\<lambda>(ok, p1).
         if \<not> ok then ret (False, p1)
         else bindR (deref p1) (\<lambda>v1. if sv_len v1 \<ge> sv_cap v1 then ret (False, p1) else sv_push_at_end v1 x)))"

definition smallvec_pop :: "'a smallvec cptr \<Rightarrow> 'a cptr \<Rightarrow> (bool \<times> 'a smallvec cptr \<times> 'a cptr) run" where
  "smallvec_pop p out = (case p of
     None \<Rightarrow> ret (False, p, out)
   | Some v \<Rightarrow> if out = None \<or> sv_len v = 0 then ret (False, p, out)
       else bindR (sv_get v (sv_len v - 1)) (\<lambda>x. ret (True, Some (v\<lparr>sv_len := sv_len v - 1\<rparr>), Some x)))"

definition smallvec_insert :: "'a sv_mem \<Rightarrow> usize \<Rightarrow> 'a smallvec cptr \<Rightarrow> usize \<Rightarrow> 'a \<Rightarrow> (bool \<times> 'a smallvec cptr) run" where
  "smallvec_insert mm esz p i x = (case p of
     None \<Rightarrow> ret (False, p)
   | Some v \<Rightarrow>
       if i > sv_len v then ret (False, p)
       else bindR (if sv_len v = sv_cap v
                   then if \<not> sv_inline v then ret (False, p) else smallvec_spill mm esz p (sv_len v + 1)
                   else ret (True, p)) (\<lambda>(ok, p1).
         if \<not> ok then ret (False, p1)
         else bindR (deref p1) (\<lambda>v1. bindR (deref (smallvec_active v1)) (\<lambda>xs.
           bindR (if i < sv_len v1 then arr_move xs (i + 1) i (sv_len v1 - i) else ret xs) (\<lambda>ys.
           bindR (arr_set ys i x) (\<lambda>zs. ret (True, Some ((sv_store v1 zs)\<lparr>sv_len := sv_len v1 + 1\<rparr>))))))))"

definition smallvec_remove :: "'a smallvec cptr \<Rightarrow> usize \<Rightarrow> 'a cptr \<Rightarrow> (bool \<times> 'a smallvec cptr \<times> 'a cptr) run" where
  "smallvec_remove p i out = (case p of
     None \<Rightarrow> ret (False, p, out)
   | Some v \<Rightarrow>
       if out = None \<or> i \<ge> sv_len v then ret (False, p, out)
       else bindR (deref (smallvec_active v)) (\<lambda>xs. bindR (arr_get xs i) (\<lambda>x.
         bindR (if i < sv_len v - 1 then arr_move xs i (i + 1) (sv_len v - i - 1) else ret xs) (\<lambda>ys.
         ret (True, Some ((sv_store v ys)\<lparr>sv_len := sv_len v - 1\<rparr>), Some x)))))"

text \<open>
  After a spill a source in the vector is still in \<open>inline_buf\<close>, which is not the destination; without one it is in the
  destination, where \<open>mem_copy\<close> refuses overlapping regions.
\<close>

definition sv_copy :: "bool \<Rightarrow> 'a smallvec \<Rightarrow> 'a dv_source \<Rightarrow> usize \<Rightarrow> 'a list run" where
  "sv_copy spilled v src cnt = bindR (deref (smallvec_active v)) (\<lambda>xs. case src of
     Dv_null \<Rightarrow> undefined_behaviour ''null dereference''
   | Dv_outside ys \<Rightarrow> arr_copy xs (sv_len v) ys cnt
   | Dv_inside k \<Rightarrow>
       if spilled then arr_copy xs (sv_len v) (drop (unat k) (sv_buf v)) cnt
       else require_msg (\<not> (if sv_len v \<le> k then k - sv_len v < cnt else sv_len v - k < cnt)) ''mem_copy: regions overlap''
         (arr_copy xs (sv_len v) (drop (unat k) xs) cnt))"

definition smallvec_extend :: "'a sv_mem \<Rightarrow> usize \<Rightarrow> 'a smallvec cptr \<Rightarrow> 'a dv_source \<Rightarrow> usize \<Rightarrow> (bool \<times> 'a smallvec cptr) run" where
  "smallvec_extend mm esz p src cnt = (case p of
     None \<Rightarrow> ret (False, p)
   | Some v \<Rightarrow>
       if (case src of Dv_null \<Rightarrow> True | _ \<Rightarrow> False) then ret (False, p)
       else if cnt = 0 then ret (True, p)
       else let full = sv_len v + cnt > sv_cap v in
         bindR (if full
                then if \<not> sv_inline v then ret (False, p) else smallvec_spill mm esz p (sv_len v + cnt)
                else ret (True, p)) (\<lambda>(ok, p1).
           if \<not> ok then ret (False, p1)
           else bindR (deref p1) (\<lambda>v1. bindR (sv_copy full v1 src cnt) (\<lambda>ys.
             ret (True, Some ((sv_store v1 ys)\<lparr>sv_len := sv_len v1 + cnt\<rparr>))))))"

definition smallvec_clear :: "'a smallvec cptr \<Rightarrow> 'a smallvec cptr" where
  "smallvec_clear p = (case p of None \<Rightarrow> None | Some v \<Rightarrow> Some (v\<lparr>sv_len := 0\<rparr>))"

text \<open>The result is also the buffer that is handed to \<open>free\<close>, if any.\<close>

definition smallvec_free :: "usize \<Rightarrow> 'a list \<Rightarrow> 'a smallvec cptr \<Rightarrow> 'a list cptr \<times> 'a smallvec cptr" where
  "smallvec_free icap junk p = (case p of
     None \<Rightarrow> (None, None)
   | Some v \<Rightarrow> (if \<not> sv_inline v \<and> sv_arena v = None then sv_data v else None, Some (smallvec_init icap junk)))"

definition smallvec_as_vec :: "usize \<Rightarrow> 'a smallvec cptr \<Rightarrow> 'a vec run" where
  "smallvec_as_vec esz p = require_msg (p \<noteq> None) ''smallvec_as_vec: v cannot be NULL'' (bindR (deref p) (\<lambda>v.
     bindR (vec_init esz (smallvec_active v) (sv_cap v)) (\<lambda>w. ret (w\<lparr>vec_length := sv_len v\<rparr>))))"

subsection \<open>The invariant\<close>

definition smallvec_ok :: "usize \<Rightarrow> 'a smallvec \<Rightarrow> bool" where
  "smallvec_ok icap v \<longleftrightarrow> sv_len v \<le> sv_cap v \<and> length (sv_buf v) = unat icap \<and>
     (if sv_inline v then sv_cap v = icap \<and> sv_data v = None else \<exists>xs. sv_data v = Some xs \<and> length xs = unat (sv_cap v)) \<and>
     (sv_arena v = None \<or> arena_ok (sv_arena v))"

definition sv_list :: "'a smallvec \<Rightarrow> 'a list" where
  "sv_list v = (case smallvec_active v of None \<Rightarrow> [] | Some xs \<Rightarrow> take (unat (sv_len v)) xs)"

text \<open>Once the elements have left the struct they stay out, and the capacity is fixed; it only changes when they leave.\<close>

definition sv_moves :: "'a smallvec \<Rightarrow> 'a smallvec \<Rightarrow> bool" where
  "sv_moves v v' \<longleftrightarrow> (if sv_inline v' then sv_inline v \<and> sv_cap v' = sv_cap v else sv_inline v \<or> sv_cap v' = sv_cap v)"

lemma sv_moves_refl [simp]: "sv_moves v v"
  by (simp add: sv_moves_def)

lemma sv_moves_trans: "sv_moves u v \<Longrightarrow> sv_moves v w \<Longrightarrow> sv_moves u w"
  by (auto simp: sv_moves_def split: if_splits)

text \<open>
  What C promises of \<open>malloc\<close>, as for \<open>realloc\<close>, and that the memory handed out has room for the elements. The sizes are
  those that fit the address space: twice the inline buffer does.
\<close>

definition sv_mem_ok :: "usize \<Rightarrow> usize \<Rightarrow> 'a sv_mem \<Rightarrow> bool" where
  "sv_mem_ok icap esz mm \<longleftrightarrow> esz \<noteq> 0 \<and> 2 * unat icap * unat esz < 2 ^ 64 \<and>
     (\<forall>bytes ys. fst mm bytes = Some ys \<longrightarrow> length ys = unat bytes div unat esz) \<and> (\<forall>q n. length (snd mm q n) = unat n)"

lemma smallvec_active_some:
  assumes "smallvec_ok icap v"
  obtains xs where "smallvec_active v = Some xs" "length xs = unat (sv_cap v)" "sv_list v = take (unat (sv_len v)) xs"
    "unat (sv_len v) \<le> length xs" "length (sv_list v) = unat (sv_len v)"
proof -
  obtain xs where x: "smallvec_active v = Some xs" "length xs = unat (sv_cap v)"
    using assms by (auto simp: smallvec_ok_def smallvec_active_def split: if_splits)
  moreover have "unat (sv_len v) \<le> length xs" using assms x(2) by (simp add: smallvec_ok_def word_le_nat_alt)
  ultimately show ?thesis using that [of xs] by (simp add: sv_list_def)
qed

lemma sv_inline_store [simp]: "sv_inline (sv_store v zs) = sv_inline v"
  by (simp add: sv_store_def)

lemma sv_store_ok:
  assumes "smallvec_ok icap v" "length zs = unat (sv_cap v)" "l \<le> sv_cap v"
  shows "smallvec_ok icap ((sv_store v zs)\<lparr>sv_len := l\<rparr>)" "sv_list ((sv_store v zs)\<lparr>sv_len := l\<rparr>) = take (unat l) zs"
    "sv_moves v ((sv_store v zs)\<lparr>sv_len := l\<rparr>)"
  using assms by (auto simp: sv_store_def smallvec_ok_def sv_list_def smallvec_active_def sv_moves_def split: if_splits)

lemma smallvec_init_ok:
  "length junk = unat icap \<Longrightarrow> smallvec_ok icap (smallvec_init icap junk) \<and> sv_list (smallvec_init icap junk) = []"
  by (simp add: smallvec_init_def smallvec_ok_def sv_list_def smallvec_active_def)

subsection \<open>Leaving the struct\<close>

lemma sv_alloc_value:
  assumes "sv_mem_ok icap esz mm" "unat n * unat esz < 2 ^ 64" "ar = None \<or> arena_ok ar"
  shows "\<exists>b ar'. sv_alloc mm esz ar n = ret (b, ar') \<and> (ar' = None \<or> arena_ok ar') \<and> (\<forall>xs. b = Some xs \<longrightarrow> length xs = unat n)"
proof (cases "ar = None")
  case True
  have "unat (n * esz) = unat n * unat esz" using assms(2) by (simp add: unat_word_ariths)
  moreover have "unat esz \<noteq> 0" using assms(1) by (simp add: sv_mem_ok_def unat_eq_zero)
  ultimately have "length xs = unat n" if "fst mm (n * esz) = Some xs" for xs using assms(1) that by (simp add: sv_mem_ok_def)
  with True show ?thesis by (auto simp: sv_alloc_def split: prod.split)
next
  case False
  have "esz \<noteq> 0" using assms(1) by (simp add: sv_mem_ok_def)
  moreover obtain q ar' where "arena_alloc ar (esz * n) = ret (q, ar')" "arena_ok ar'"
    using arena_alloc_step [of ar "esz * n"] assms(3) False by blast
  ultimately show ?thesis using False assms(1,3)
    by (auto simp: sv_alloc_def arena_alloc_array_def sv_mem_ok_def split: prod.split)
qed

definition sv_room :: "'a sv_mem \<Rightarrow> usize \<Rightarrow> 'a smallvec \<Rightarrow> usize \<Rightarrow> (bool \<times> 'a smallvec cptr) run" where
  "sv_room mm esz v n = (if n > sv_cap v then if \<not> sv_inline v then ret (False, Some v) else smallvec_spill mm esz (Some v) n
     else ret (True, Some v))"

lemma sv_room_value:
  assumes "smallvec_ok icap v" "sv_mem_ok icap esz mm" "unat n * unat esz < 2 ^ 64" "sv_len v \<le> n"
  shows "\<exists>ok v1. sv_room mm esz v n = ret (ok, Some v1) \<and> smallvec_ok icap v1 \<and> sv_list v1 = sv_list v \<and> sv_len v1 = sv_len v \<and>
    sv_moves v v1 \<and> sv_buf v1 = sv_buf v \<and> (ok \<longrightarrow> n \<le> sv_cap v1) \<and> (n \<le> sv_cap v \<longrightarrow> ok \<and> v1 = v) \<and>
    (n > sv_cap v \<longrightarrow> (if sv_inline v then ok = (\<not> sv_inline v1) else \<not> ok))"
proof -
  consider (fits) "n \<le> sv_cap v" | (full) "n > sv_cap v" "\<not> sv_inline v" | (spill) "n > sv_cap v" "sv_inline v" by fastforce
  then show ?thesis
  proof cases
    case fits
    with assms(1) show ?thesis by (intro exI [of _ True] exI [of _ v]) (simp add: sv_room_def)
  next
    case full
    with assms(1) show ?thesis by (intro exI [of _ False] exI [of _ v]) (simp add: sv_room_def)
  next
    case spill
    have icap: "sv_cap v = icap" "length (sv_buf v) = unat icap" using assms(1) spill(2) by (simp_all add: smallvec_ok_def)
    define k where "k = (if sv_cap v * 2 < n then n else sv_cap v * 2)"
    have "2 * unat icap < 2 ^ 64"
      using assms(2) mult_le_mono2 [of 1 "unat esz" "2 * unat icap"] by (cases "unat esz") (auto simp: sv_mem_ok_def unat_eq_zero)
    then have "unat (sv_cap v * 2) = 2 * unat icap" using icap by (simp add: unat_word_ariths)
    then have k: "unat k * unat esz < 2 ^ 64" using assms(2,3) by (auto simp: k_def sv_mem_ok_def)
    have n: "n \<le> k" by (simp add: k_def not_less)
    have ar: "sv_arena v = None \<or> arena_ok (sv_arena v)" using assms(1) by (simp add: smallvec_ok_def)
    from sv_alloc_value [OF assms(2) k ar] obtain b ar' where
      a: "sv_alloc mm esz (sv_arena v) k = ret (b, ar')" "ar' = None \<or> arena_ok ar'" "\<forall>xs. b = Some xs \<longrightarrow> length xs = unat k" by blast
    show ?thesis
    proof (cases b)
      case None
      then have "sv_room mm esz v n = ret (False, Some (v\<lparr>sv_arena := ar'\<rparr>))"
        using spill a(1) by (simp add: sv_room_def smallvec_spill_def Let_def k_def)
      then show ?thesis using assms(1) spill a(2)
        by (intro exI [of _ False] exI [of _ "v\<lparr>sv_arena := ar'\<rparr>"]) (auto simp: smallvec_ok_def sv_list_def smallvec_active_def sv_moves_def)
    next
      case (Some xs)
      then have x: "length xs = unat k" using a(3) by simp
      have len: "unat (sv_len v) \<le> unat icap" "unat (sv_len v) \<le> unat k"
        using assms(1,4) n icap(1) by (simp_all add: smallvec_ok_def word_le_nat_alt)
      define ys where "ys = take (unat (sv_len v)) (sv_buf v) @ drop (unat (sv_len v)) xs"
      have "arr_copy xs 0 (sv_buf v) (sv_len v) = ret ys" using len x icap(2) by (simp add: arr_copy_def ys_def)
      then have "sv_room mm esz v n = ret (True, Some (v\<lparr>sv_arena := ar', sv_data := Some ys, sv_cap := k, sv_inline := False\<rparr>))"
        using spill a(1) Some by (simp add: sv_room_def smallvec_spill_def Let_def k_def)
      moreover have "length ys = unat k" "take (unat (sv_len v)) ys = take (unat (sv_len v)) (sv_buf v)"
        using len x icap(2) by (simp_all add: ys_def)
      ultimately show ?thesis using assms(1) spill a(2) n len
        by (intro exI [of _ True] exI [of _ "v\<lparr>sv_arena := ar', sv_data := Some ys, sv_cap := k, sv_inline := False\<rparr>"])
          (simp add: smallvec_ok_def sv_list_def smallvec_active_def sv_moves_def word_le_nat_alt word_less_nat_alt)
    qed
  qed
qed

subsection \<open>Operations on the list\<close>

text \<open>
  \<open>sv_outcome\<close>: an operation in range (\<open>pre\<close>) with the list \<open>ys\<close> as its effect was done, or it was refused and the list
  is the old one. It is not refused when it is in range and \<open>ys\<close> fits the capacity; the elements do not move then. It is
  refused when \<open>ys\<close> does not fit the capacity of a vector that has left the struct.
\<close>

definition sv_outcome :: "usize \<Rightarrow> 'a smallvec \<Rightarrow> bool \<Rightarrow> 'a list \<Rightarrow> bool \<Rightarrow> 'a smallvec \<Rightarrow> bool" where
  "sv_outcome icap v pre ys ok v' \<longleftrightarrow> smallvec_ok icap v' \<and> sv_moves v v' \<and> (if ok then pre \<and> sv_list v' = ys else sv_list v' = sv_list v) \<and>
     (pre \<and> length ys \<le> unat (sv_cap v) \<longrightarrow> ok \<and> sv_inline v' = sv_inline v) \<and>
     (length ys > unat (sv_cap v) \<and> \<not> sv_inline v \<longrightarrow> \<not> ok) \<and> (\<not> pre \<longrightarrow> v' = v)"

lemma sv_outcome_refuse:
  "smallvec_ok icap v \<Longrightarrow> \<not> pre \<Longrightarrow> sv_outcome icap v pre ys False v"
  by (simp add: sv_outcome_def)

lemma smallvec_insert_value:
  assumes "smallvec_ok icap v" "sv_mem_ok icap esz mm" "Suc (length (sv_list v)) * unat esz < 2 ^ 64"
  shows "\<exists>ok v'. smallvec_insert mm esz (Some v) i x = ret (ok, Some v') \<and>
    sv_outcome icap v (unat i \<le> length (sv_list v)) (take (unat i) (sv_list v) @ x # drop (unat i) (sv_list v)) ok v'"
proof -
  have l: "length (sv_list v) = unat (sv_len v)" using smallvec_active_some [OF assms(1)] by metis
  have esz: "0 < unat esz" using assms(2) by (simp add: sv_mem_ok_def unat_gt_0)
  have "Suc (unat (sv_len v)) \<le> Suc (unat (sv_len v)) * unat esz" using mult_le_mono2 [of 1 "unat esz" "Suc (unat (sv_len v))"] esz by simp
  then have small: "unat (sv_len v) < 2 ^ 64 - 1" using assms(3) unfolding l by linarith
  then have s: "unat (sv_len v + 1) = Suc (unat (sv_len v))" by (rule unat_usize_Suc)
  show ?thesis
  proof (cases "i > sv_len v")
    case True
    then show ?thesis using assms(1) l
      by (intro exI [of _ False] exI [of _ v]) (simp add: smallvec_insert_def sv_outcome_refuse word_less_nat_alt)
  next
    case in_range: False
    then have i: "unat i \<le> unat (sv_len v)" by (simp add: word_less_nat_alt)
    have fits: "unat (sv_len v + 1) * unat esz < 2 ^ 64" "sv_len v \<le> sv_len v + 1" using assms(3) l s by (simp_all add: word_le_nat_alt)
    from sv_room_value [OF assms(1,2) fits] obtain ok v1 where
      g: "sv_room mm esz v (sv_len v + 1) = ret (ok, Some v1)" "smallvec_ok icap v1" "sv_list v1 = sv_list v" "sv_len v1 = sv_len v"
        "sv_moves v v1" "ok \<longrightarrow> sv_len v + 1 \<le> sv_cap v1" "sv_len v + 1 \<le> sv_cap v \<longrightarrow> ok \<and> v1 = v"
        "sv_len v + 1 > sv_cap v \<longrightarrow> (if sv_inline v then ok = (\<not> sv_inline v1) else \<not> ok)"
      by (elim exE conjE) (rule that; assumption)
    have "sv_len v \<le> sv_cap v" using assms(1) by (simp add: smallvec_ok_def)
    then have "sv_len v = sv_cap v \<longleftrightarrow> sv_len v + 1 > sv_cap v" using s by (auto simp: word_le_nat_alt word_less_nat_alt word_unat_eq_iff)
    then have "(if sv_len v = sv_cap v then if \<not> sv_inline v then ret (False, Some v) else smallvec_spill mm esz (Some v) (sv_len v + 1)
        else ret (True, Some v)) = ret (ok, Some v1)" using g(1) by (simp add: sv_room_def)
    note val = smallvec_insert_def [of mm esz "Some v" i x, simplified option.simps if_not_P [OF in_range] this bindR_simps]
    show ?thesis
    proof (cases ok)
      case False
      then show ?thesis using val g l s i
        by (intro exI [of _ False] exI [of _ v1]) (auto simp: sv_outcome_def word_le_nat_alt)
    next
      case True
      obtain xs where xs: "smallvec_active v1 = Some xs" "length xs = unat (sv_cap v1)" "sv_list v1 = take (unat (sv_len v1)) xs"
        using smallvec_active_some [OF g(2)] by metis
      have room: "unat (sv_len v) < length xs" using g(6) True s xs(2) by (simp add: word_le_nat_alt)
      from insert_in_place [OF i room, of x] obtain ys where
        ys: "(if i < sv_len v then arr_move xs (i + 1) i (sv_len v - i) else ret xs) = ret ys" "length ys = length xs"
          "arr_set ys i x = ret (ys[unat i := x])"
          "take (Suc (unat (sv_len v))) (ys[unat i := x]) = take (unat i) xs @ x # drop (unat i) (take (unat (sv_len v)) xs)" by blast
      have r: "smallvec_insert mm esz (Some v) i x = ret (True, Some ((sv_store v1 (ys[unat i := x]))\<lparr>sv_len := sv_len v + 1\<rparr>))"
        using val True xs(1) ys(1,3) g(4) by (simp split del: if_split cong: if_cong)
      have "length (ys[unat i := x]) = unat (sv_cap v1)" "sv_len v + 1 \<le> sv_cap v1" using ys(2) xs(2) g(6) True by simp_all
      note st = sv_store_ok [OF g(2) this]
      have "sv_list ((sv_store v1 (ys[unat i := x]))\<lparr>sv_len := sv_len v + 1\<rparr>) = take (unat i) (sv_list v) @ x # drop (unat i) (sv_list v)"
        using st(2) s ys(4) i xs(3) g(3,4) by (simp add: min_absorb1)
      moreover have "Suc (unat (sv_len v)) \<le> unat (sv_cap v) \<Longrightarrow> v1 = v" using g(7) s by (simp add: word_le_nat_alt)
      moreover have "\<not> (unat (sv_cap v) < Suc (unat (sv_len v)) \<and> \<not> sv_inline v)" using g(8) s True by (simp add: word_less_nat_alt split: if_splits)
      ultimately show ?thesis unfolding r using i l st(1) sv_moves_trans [OF g(5) st(3)]
        by (intro exI [of _ True] exI [of _ "(sv_store v1 (ys[unat i := x]))\<lparr>sv_len := sv_len v + 1\<rparr>"]) (simp add: sv_outcome_def)
    qed
  qed
qed

lemma smallvec_push_insert:
  assumes "smallvec_ok icap v" "sv_mem_ok icap esz mm" "Suc (length (sv_list v)) * unat esz < 2 ^ 64"
  shows "smallvec_push mm esz (Some v) x = smallvec_insert mm esz (Some v) (sv_len v) x"
proof -
  have l: "length (sv_list v) = unat (sv_len v)" using smallvec_active_some [OF assms(1)] by metis
  have esz: "0 < unat esz" using assms(2) by (simp add: sv_mem_ok_def unat_gt_0)
  have "Suc (unat (sv_len v)) \<le> Suc (unat (sv_len v)) * unat esz" using mult_le_mono2 [of 1 "unat esz" "Suc (unat (sv_len v))"] esz by simp
  then have "unat (sv_len v) < 2 ^ 64 - 1" using assms(3) unfolding l by linarith
  then have s: "unat (sv_len v + 1) = Suc (unat (sv_len v))" by (rule unat_usize_Suc)
  have put: "sv_push_at_end w x = bindR (deref (smallvec_active w)) (\<lambda>xs. bindR (arr_set xs (sv_len w) x)
      (\<lambda>zs. ret (True, Some ((sv_store w zs)\<lparr>sv_len := sv_len w + 1\<rparr>))))" for w
    by (simp add: sv_push_at_end_def sv_put_def bindR_assoc)
  have le: "sv_len v \<le> sv_cap v" using assms(1) by (simp add: smallvec_ok_def)
  show ?thesis
  proof (cases "sv_len v < sv_cap v")
    case True
    then have "sv_len v \<noteq> sv_cap v" by simp
    with True show ?thesis by (simp add: smallvec_push_def smallvec_insert_def put bindR_assoc)
  next
    case False
    then have eq: "sv_len v = sv_cap v" using le by simp
    have fits: "unat (sv_len v + 1) * unat esz < 2 ^ 64" "sv_len v \<le> sv_len v + 1" using assms(3) l s by (simp_all add: word_le_nat_alt)
    have full: "sv_len v + 1 > sv_cap v" using s eq by (simp add: word_less_nat_alt)
    show ?thesis
    proof (cases "sv_inline v")
      case True
      from sv_room_value [OF assms(1,2) fits] full True obtain ok v1 where
        "smallvec_spill mm esz (Some v) (sv_len v + 1) = ret (ok, Some v1)" "sv_len v1 = sv_len v" "ok \<longrightarrow> sv_len v + 1 \<le> sv_cap v1"
        by (auto simp: sv_room_def)
      moreover from this(3) s have "ok \<Longrightarrow> \<not> sv_cap v1 \<le> sv_len v" by (simp add: word_le_nat_alt)
      ultimately show ?thesis using True eq by (cases ok) (simp_all add: smallvec_push_def smallvec_insert_def put)
    next
      case False
      then show ?thesis using eq by (simp add: smallvec_push_def smallvec_insert_def)
    qed
  qed
qed

lemma smallvec_push_value:
  assumes "smallvec_ok icap v" "sv_mem_ok icap esz mm" "Suc (length (sv_list v)) * unat esz < 2 ^ 64"
  shows "\<exists>ok v'. smallvec_push mm esz (Some v) x = ret (ok, Some v') \<and> sv_outcome icap v True (sv_list v @ [x]) ok v'"
proof -
  have l: "length (sv_list v) = unat (sv_len v)" using smallvec_active_some [OF assms(1)] by metis
  then show ?thesis using smallvec_insert_value [OF assms, of "sv_len v" x] by (simp add: smallvec_push_insert [OF assms])
qed

lemma smallvec_pop_value:
  assumes "smallvec_ok icap v"
  shows "\<exists>ok v'. smallvec_pop (Some v) (Some y) = ret (ok, Some v', Some (if ok then last (sv_list v) else y)) \<and>
    sv_outcome icap v (sv_list v \<noteq> []) (butlast (sv_list v)) ok v'"
proof -
  obtain xs where xs: "smallvec_active v = Some xs" "length xs = unat (sv_cap v)" "sv_list v = take (unat (sv_len v)) xs"
    "unat (sv_len v) \<le> length xs" "length (sv_list v) = unat (sv_len v)" using smallvec_active_some [OF assms] by metis
  show ?thesis
  proof (cases "sv_len v = 0")
    case True
    with xs(3) assms show ?thesis by (intro exI [of _ False] exI [of _ v]) (simp add: smallvec_pop_def sv_outcome_refuse)
  next
    case False
    have n: "unat (sv_len v - 1) = unat (sv_len v) - 1" "0 < unat (sv_len v)" using False by (simp_all add: unat_usize_pred unat_gt_0)
    have ne: "sv_list v \<noteq> []" using xs(5) n(2) by auto
    let ?v = "v\<lparr>sv_len := sv_len v - 1\<rparr>"
    have "smallvec_pop (Some v) (Some y) = ret (True, Some ?v, Some (last (sv_list v)))"
      using False n xs ne by (simp add: smallvec_pop_def sv_get_def last_conv_nth)
    moreover have "smallvec_ok icap ?v" using assms n by (auto simp: smallvec_ok_def word_le_nat_alt)
    moreover have "sv_list ?v = butlast (sv_list v)"
      using xs n by (simp add: sv_list_def smallvec_active_def butlast_take split: if_splits)
    moreover have "sv_moves v ?v" by (simp add: sv_moves_def)
    moreover have "length (butlast (sv_list v)) \<le> unat (sv_cap v)" using xs by simp
    ultimately show ?thesis using ne by (intro exI [of _ True] exI [of _ ?v]) (simp add: sv_outcome_def)
  qed
qed

lemma smallvec_remove_value:
  assumes "smallvec_ok icap v"
  shows "\<exists>ok v'. smallvec_remove (Some v) i (Some y) = ret (ok, Some v', Some (if ok then sv_list v ! unat i else y)) \<and>
    sv_outcome icap v (unat i < length (sv_list v)) (take (unat i) (sv_list v) @ drop (Suc (unat i)) (sv_list v)) ok v'"
proof -
  obtain xs where xs: "smallvec_active v = Some xs" "length xs = unat (sv_cap v)" "sv_list v = take (unat (sv_len v)) xs"
    "unat (sv_len v) \<le> length xs" "length (sv_list v) = unat (sv_len v)" using smallvec_active_some [OF assms] by metis
  show ?thesis
  proof (cases "i \<ge> sv_len v")
    case True
    with xs(5) assms show ?thesis
      by (intro exI [of _ False] exI [of _ v]) (simp add: smallvec_remove_def sv_outcome_refuse word_le_nat_alt)
  next
    case False
    then have i: "unat i < unat (sv_len v)" by (simp add: word_le_nat_alt)
    from remove_in_place [OF i xs(4)] obtain ys where
      ys: "(if i < sv_len v - 1 then arr_move xs i (i + 1) (sv_len v - i - 1) else ret xs) = ret ys" "length ys = length xs"
        "arr_get xs i = ret (sv_list v ! unat i)" "unat (sv_len v - 1) = unat (sv_len v) - 1"
        "take (unat (sv_len v) - 1) ys = take (unat i) (sv_list v) @ drop (Suc (unat i)) (sv_list v)" unfolding xs(3) by blast
    let ?v = "(sv_store v ys)\<lparr>sv_len := sv_len v - 1\<rparr>"
    have "sv_len v \<le> sv_cap v" using assms by (simp add: smallvec_ok_def)
    then have "length ys = unat (sv_cap v)" "sv_len v - 1 \<le> sv_cap v" using ys(2,4) xs(2) by (simp_all add: word_le_nat_alt)
    note st = sv_store_ok [OF assms this]
    have "smallvec_remove (Some v) i (Some y) = ret (True, Some ?v, Some (sv_list v ! unat i))"
      using False xs(1) ys(1,3) by (simp add: smallvec_remove_def split del: if_split cong: if_cong)
    moreover have "sv_list ?v = take (unat i) (sv_list v) @ drop (Suc (unat i)) (sv_list v)" using st(2) ys(4,5) by simp
    moreover have "length (take (unat i) (sv_list v) @ drop (Suc (unat i)) (sv_list v)) \<le> unat (sv_cap v)" using xs i by simp
    ultimately show ?thesis using i xs(5) st(1,3) by (intro exI [of _ True] exI [of _ ?v]) (simp add: sv_outcome_def)
  qed
qed

lemma smallvec_get_value:
  assumes "smallvec_ok icap v"
  shows "smallvec_get (Some v) i (Some y) =
    (if unat i < length (sv_list v) then ret (True, Some (sv_list v ! unat i)) else ret (False, Some y))"
proof -
  obtain xs where xs: "smallvec_active v = Some xs" "sv_list v = take (unat (sv_len v)) xs" "unat (sv_len v) \<le> length xs"
    "length (sv_list v) = unat (sv_len v)" using smallvec_active_some [OF assms] by metis
  then show ?thesis by (auto simp: smallvec_get_def sv_get_def word_le_nat_alt)
qed

lemma smallvec_clear_value:
  assumes "smallvec_ok icap v"
  shows "\<exists>v'. smallvec_clear (Some v) = Some v' \<and> sv_outcome icap v True [] True v'"
proof -
  obtain xs where "smallvec_active v = Some xs" using smallvec_active_some [OF assms] by metis
  then show ?thesis using assms
    by (auto simp: smallvec_clear_def sv_outcome_def sv_moves_def smallvec_ok_def sv_list_def smallvec_active_def split: if_splits)
qed

text \<open>Several elements behind the others, from another array or from the vector itself.\<close>

lemma copy_behind:
  assumes "unat n + unat cnt \<le> length xs" "unat cnt \<le> length ys"
  shows "\<exists>zs. arr_copy xs n ys cnt = ret zs \<and> length zs = length xs \<and> take (unat n + unat cnt) zs = take (unat n) xs @ take (unat cnt) ys"
  using assms by (simp add: arr_copy_def)

definition sv_source_items :: "'a smallvec \<Rightarrow> 'a dv_source \<Rightarrow> 'a list" where
  "sv_source_items v src = (case src of Dv_null \<Rightarrow> [] | Dv_outside ys \<Rightarrow> ys | Dv_inside k \<Rightarrow> drop (unat k) (sv_list v))"

lemma sv_copy_value:
  assumes "smallvec_ok icap v" "smallvec_active v1 = Some xs" "sv_len v1 = sv_len v" "unat (sv_len v) + unat cnt \<le> length xs"
    "unat cnt \<le> length (sv_source_items v src)" "0 < cnt" "if spilled then sv_inline v \<and> sv_buf v1 = sv_buf v else v1 = v"
  shows "\<exists>zs. sv_copy spilled v1 src cnt = ret zs \<and> length zs = length xs \<and>
    take (unat (sv_len v) + unat cnt) zs = take (unat (sv_len v)) xs @ take (unat cnt) (sv_source_items v src)"
proof -
  have c: "0 < unat cnt" using assms(6) by (simp add: word_less_nat_alt)
  show ?thesis
  proof (cases src)
    case Dv_null
    with assms(5) c show ?thesis by (simp add: sv_source_items_def)
  next
    case (Dv_outside ys)
    with copy_behind [OF assms(4), of ys] assms(2,3,5) show ?thesis by (simp add: sv_copy_def sv_source_items_def)
  next
    case (Dv_inside k)
    obtain as where as: "smallvec_active v = Some as" "sv_list v = take (unat (sv_len v)) as" "unat (sv_len v) \<le> length as"
      using smallvec_active_some [OF assms(1)] by metis
    have k: "unat k + unat cnt \<le> unat (sv_len v)" using assms(5) Dv_inside as(2,3) c by (simp add: sv_source_items_def)
    then have "\<not> sv_len v \<le> k" "\<not> sv_len v - k < cnt" using c by (simp_all add: word_le_nat_alt word_less_nat_alt unat_sub_if_size word_size)
    then have "sv_copy spilled v1 src cnt = arr_copy xs (sv_len v) (drop (unat k) as) cnt"
      using Dv_inside assms(2,3,7) as(1) by (auto simp: sv_copy_def smallvec_active_def split: if_splits)
    moreover have "take (unat cnt) (sv_source_items v src) = take (unat cnt) (drop (unat k) as)"
      using Dv_inside as(2) k by (simp add: sv_source_items_def drop_take min_absorb1)
    ultimately show ?thesis using copy_behind [OF assms(4), of "drop (unat k) as"] k as(3) by simp
  qed
qed

lemma smallvec_extend_value:
  assumes "smallvec_ok icap v" "sv_mem_ok icap esz mm" "(length (sv_list v) + unat cnt) * unat esz < 2 ^ 64"
    "unat cnt \<le> length (sv_source_items v src)" "src \<noteq> Dv_null"
  shows "\<exists>ok v'. smallvec_extend mm esz (Some v) src cnt = ret (ok, Some v') \<and>
    sv_outcome icap v True (sv_list v @ take (unat cnt) (sv_source_items v src)) ok v'"
proof -
  obtain as where as: "smallvec_active v = Some as" "length as = unat (sv_cap v)" "unat (sv_len v) \<le> length as"
    "length (sv_list v) = unat (sv_len v)" using smallvec_active_some [OF assms(1)] by metis
  note l = as(4)
  have esz: "0 < unat esz" using assms(2) by (simp add: sv_mem_ok_def unat_gt_0)
  have "unat (sv_len v) + unat cnt \<le> (unat (sv_len v) + unat cnt) * unat esz"
    using mult_le_mono2 [of 1 "unat esz" "unat (sv_len v) + unat cnt"] esz by simp
  then have s: "unat (sv_len v + cnt) = unat (sv_len v) + unat cnt" using assms(3) unfolding l by (subst unat_usize_add) linarith+
  show ?thesis
  proof (cases "cnt = 0")
    case True
    then have "smallvec_extend mm esz (Some v) src cnt = ret (True, Some v)" using assms(5) by (cases src) (simp_all add: smallvec_extend_def)
    with True assms(1) as l show ?thesis by (intro exI [of _ True] exI [of _ v]) (simp add: sv_outcome_def)
  next
    case False
    then have c: "0 < cnt" by (simp add: word_gt_0)
    define full where "full = (sv_len v + cnt > sv_cap v)"
    have fits: "unat (sv_len v + cnt) * unat esz < 2 ^ 64" "sv_len v \<le> sv_len v + cnt" using assms(3) l s by (simp_all add: word_le_nat_alt)
    from sv_room_value [OF assms(1,2) fits] obtain ok v1 where
      g: "sv_room mm esz v (sv_len v + cnt) = ret (ok, Some v1)" "smallvec_ok icap v1" "sv_list v1 = sv_list v" "sv_len v1 = sv_len v"
        "sv_moves v v1" "sv_buf v1 = sv_buf v" "ok \<longrightarrow> sv_len v + cnt \<le> sv_cap v1" "sv_len v + cnt \<le> sv_cap v \<longrightarrow> ok \<and> v1 = v"
        "sv_len v + cnt > sv_cap v \<longrightarrow> (if sv_inline v then ok = (\<not> sv_inline v1) else \<not> ok)"
      by (elim exE conjE) (rule that; assumption)
    have room_eq: "(if full then if \<not> sv_inline v then ret (False, Some v) else smallvec_spill mm esz (Some v) (sv_len v + cnt)
        else ret (True, Some v)) = ret (ok, Some v1)" using g(1) by (simp add: sv_room_def full_def)
    have val: "smallvec_extend mm esz (Some v) src cnt = (if \<not> ok then ret (False, Some v1)
        else bindR (sv_copy full v1 src cnt) (\<lambda>ys. ret (True, Some ((sv_store v1 ys)\<lparr>sv_len := sv_len v + cnt\<rparr>))))"
      unfolding smallvec_extend_def option.simps Let_def full_def [symmetric] room_eq using False assms(5) g(4) by (cases src) simp_all
    have n: "length (sv_list v @ take (unat cnt) (sv_source_items v src)) = unat (sv_len v) + unat cnt" using l assms(4) by simp
    have keep: "unat (sv_len v) + unat cnt \<le> unat (sv_cap v) \<Longrightarrow> ok \<and> v1 = v" using g(8) s by (simp add: word_le_nat_alt)
    have stop: "unat (sv_cap v) < unat (sv_len v) + unat cnt \<Longrightarrow> \<not> sv_inline v \<Longrightarrow> \<not> ok" using g(9) s by (simp add: word_less_nat_alt)
    show ?thesis
    proof (cases ok)
      case False
      then show ?thesis unfolding val using g(2,3,5) n keep by (intro exI [of _ False] exI [of _ v1]) (auto simp: sv_outcome_def)
    next
      case True
      obtain xs where xs: "smallvec_active v1 = Some xs" "length xs = unat (sv_cap v1)" "sv_list v1 = take (unat (sv_len v1)) xs"
        using smallvec_active_some [OF g(2)] by metis
      have room: "unat (sv_len v) + unat cnt \<le> length xs" using g(7) True s xs(2) by (simp add: word_le_nat_alt)
      have "if full then sv_inline v \<and> sv_buf v1 = sv_buf v else v1 = v"
        using g(6,8,9) True by (auto simp: full_def not_less split: if_splits)
      from sv_copy_value [OF assms(1) xs(1) g(4) room assms(4) c this] obtain zs where
        z: "sv_copy full v1 src cnt = ret zs" "length zs = length xs"
          "take (unat (sv_len v) + unat cnt) zs = take (unat (sv_len v)) xs @ take (unat cnt) (sv_source_items v src)" by blast
      have "length zs = unat (sv_cap v1)" "sv_len v + cnt \<le> sv_cap v1" using z(2) xs(2) g(7) True by simp_all
      note st = sv_store_ok [OF g(2) this]
      have "sv_list ((sv_store v1 zs)\<lparr>sv_len := sv_len v + cnt\<rparr>) = sv_list v @ take (unat cnt) (sv_source_items v src)"
        using st(2) s z(3) xs(3) g(3,4) by simp
      then show ?thesis unfolding val using True z(1) st(1) sv_moves_trans [OF g(5) st(3)] n keep stop
        by (intro exI [of _ True] exI [of _ "(sv_store v1 zs)\<lparr>sv_len := sv_len v + cnt\<rparr>"]) (auto simp: sv_outcome_def)
    qed
  qed
qed

subsection \<open>The view as a vector\<close>

text \<open>
  The view is a vector with the elements, when the capacity is one that \<open>vec_init\<close> accepts. It refuses a buffer of more
  than \<open>CANON_VEC_MAX_CAPACITY\<close> bytes, and then the view has no buffer and the length of the small vector.
\<close>

lemma smallvec_as_vec_value:
  assumes "smallvec_ok icap v" "esz \<noteq> 0" "sv_cap v \<le> canon_vec_max_capacity div esz"
  shows "\<exists>w. smallvec_as_vec esz (Some v) = ret w \<and> vec_ok w \<and> vec_list w = sv_list v \<and> vec_cap w = sv_cap v"
proof -
  obtain xs where xs: "smallvec_active v = Some xs" "length xs = unat (sv_cap v)" "sv_list v = take (unat (sv_len v)) xs"
    using smallvec_active_some [OF assms(1)] by metis
  have "sv_len v \<le> sv_cap v" "\<not> sv_cap v > canon_vec_max_capacity div esz" using assms(1,3) by (simp_all add: smallvec_ok_def)
  with xs assms(2) show ?thesis
    by (auto simp: smallvec_as_vec_def vec_init_def vec_ok_def vec_list_def dest: leD)
qed

lemma smallvec_as_vec_large:
  assumes "smallvec_ok icap v" "esz \<noteq> 0" "sv_cap v > canon_vec_max_capacity div esz"
  shows "smallvec_as_vec esz (Some v) = ret \<lparr>vec_items = None, vec_length = sv_len v, vec_cap = 0\<rparr>"
proof -
  obtain xs where "smallvec_active v = Some xs" using smallvec_active_some [OF assms(1)] by metis
  with assms(2,3) show ?thesis by (simp add: smallvec_as_vec_def vec_init_def)
qed

subsection \<open>Any sequence of operations\<close>

text \<open>The operations, each with the memory it meets; as operations on a list they are those of the growing vector.\<close>

datatype 'a sv_op =
  Sv_push 'a | Sv_insert usize 'a | Sv_pop | Sv_remove usize | Sv_get usize | Sv_clear | Sv_extend "'a list" | Sv_extend_own usize usize

fun sv_list_op :: "'a sv_op \<Rightarrow> 'a dv_op" where
  "sv_list_op (Sv_push x) = Dv_push x"
| "sv_list_op (Sv_insert i x) = Dv_insert i x"
| "sv_list_op Sv_pop = Dv_pop"
| "sv_list_op (Sv_remove i) = Dv_remove i"
| "sv_list_op (Sv_get i) = Dv_get i"
| "sv_list_op Sv_clear = Dv_clear"
| "sv_list_op (Sv_extend ys) = Dv_extend ys"
| "sv_list_op (Sv_extend_own k n) = Dv_extend_own k n"

definition sv_flag :: "(bool \<times> 'a smallvec cptr) run \<Rightarrow> ('a dv_answer \<times> 'a smallvec cptr) run" where
  "sv_flag m = bindR m (\<lambda>(ok, p). ret ((ok, None), p))"

definition sv_read :: "(bool \<times> 'a smallvec cptr \<times> 'a cptr) run \<Rightarrow> ('a dv_answer \<times> 'a smallvec cptr) run" where
  "sv_read m = bindR m (\<lambda>(ok, p, out). ret ((ok, if ok then out else None), p))"

definition sv_step :: "usize \<Rightarrow> 'a \<Rightarrow> 'a sv_mem \<times> 'a sv_op \<Rightarrow> 'a smallvec cptr \<Rightarrow> ('a dv_answer \<times> 'a smallvec cptr) run" where
  "sv_step esz y mc p = (case mc of (mm, c) \<Rightarrow> (case c of
     Sv_push x \<Rightarrow> sv_flag (smallvec_push mm esz p x)
   | Sv_insert i x \<Rightarrow> sv_flag (smallvec_insert mm esz p i x)
   | Sv_pop \<Rightarrow> sv_read (smallvec_pop p (Some y))
   | Sv_remove i \<Rightarrow> sv_read (smallvec_remove p i (Some y))
   | Sv_get i \<Rightarrow> sv_read (bindR (smallvec_get p i (Some y)) (\<lambda>(ok, out). ret (ok, p, out)))
   | Sv_clear \<Rightarrow> sv_flag (ret (True, smallvec_clear p))
   | Sv_extend ys \<Rightarrow> sv_flag (smallvec_extend mm esz p (Dv_outside ys) (of_nat (length ys)))
   | Sv_extend_own k n \<Rightarrow>
       if unat k + unat n \<le> unat (smallvec_len p) then sv_flag (smallvec_extend mm esz p (Dv_inside k) n) else ret ((False, None), p)))"

fun sv_run :: "usize \<Rightarrow> 'a \<Rightarrow> ('a sv_mem \<times> 'a sv_op) list \<Rightarrow> 'a smallvec cptr \<Rightarrow> ('a dv_answer list \<times> 'a smallvec cptr) run" where
  "sv_run esz y [] p = ret ([], p)"
| "sv_run esz y (mc # mcs) p = bindR (sv_step esz y mc p) (\<lambda>(a, p1). bindR (sv_run esz y mcs p1) (\<lambda>(as, p2). ret (a # as, p2)))"

text \<open>What a step may do: the operation or a refusal, and no move of the elements when there is room.\<close>

definition sv_step_ok :: "usize \<Rightarrow> 'a smallvec \<Rightarrow> 'a sv_op \<Rightarrow> ('a dv_answer \<times> 'a smallvec cptr) run \<Rightarrow> bool" where
  "sv_step_ok icap v c m \<longleftrightarrow> (\<exists>ok out v'. m = ret ((ok, out), Some v') \<and> smallvec_ok icap v' \<and> sv_moves v v' \<and>
     (length (sv_list v) + dv_adds (sv_list_op c) \<le> unat (sv_cap v) \<longrightarrow> sv_inline v' = sv_inline v) \<and>
     (case dv_spec (sv_list_op c) (sv_list v) of (pre, ys, z) \<Rightarrow>
        if ok then pre \<and> out = z \<and> sv_list v' = ys
        else (\<not> pre \<or> length ys > unat (sv_cap v)) \<and> out = None \<and> sv_list v' = sv_list v))"

lemma sv_step_okI:
  assumes "m = ret ((ok, out), Some v')" "sv_outcome icap v pre ys ok v'" "dv_spec (sv_list_op c) (sv_list v) = (pre, ys, z)"
    "out = (if ok then z else None)"
  shows "sv_step_ok icap v c m"
proof -
  have len: "length ys \<le> length (sv_list v) + dv_adds (sv_list_op c)" using dv_spec_length [of "sv_list_op c" "sv_list v"] assms(3) by simp
  have "sv_inline v' = sv_inline v" if "length (sv_list v) + dv_adds (sv_list_op c) \<le> unat (sv_cap v)"
  proof -
    have "length ys \<le> unat (sv_cap v)" using len that by (rule order_trans)
    then show ?thesis using assms(2) by (cases pre) (simp_all add: sv_outcome_def)
  qed
  moreover have "pre \<longrightarrow> length ys \<le> unat (sv_cap v) \<longrightarrow> ok" using assms(2) by (simp add: sv_outcome_def)
  ultimately show ?thesis using assms unfolding sv_step_ok_def
    by (intro exI [of _ ok] exI [of _ out] exI [of _ v']) (auto simp: sv_outcome_def not_le)
qed

lemma sv_step_value:
  assumes "smallvec_ok icap v" "sv_mem_ok icap esz mm" "(length (sv_list v) + dv_adds (sv_list_op c)) * unat esz < 2 ^ 64"
  shows "sv_step_ok icap v c (sv_step esz y (mm, c) (Some v))"
proof -
  have l: "length (sv_list v) = unat (sv_len v)" using smallvec_active_some [OF assms(1)] by metis
  show ?thesis
  proof (cases c)
    case (Sv_push x)
    have "Suc (length (sv_list v)) * unat esz < 2 ^ 64" using assms(3) Sv_push by simp
    from smallvec_push_value [OF assms(1,2) this, of x] obtain ok v' where
      "smallvec_push mm esz (Some v) x = ret (ok, Some v')" "sv_outcome icap v True (sv_list v @ [x]) ok v'" by blast
    then show ?thesis using Sv_push by (intro sv_step_okI [of _ ok None v' _ _ True "sv_list v @ [x]" _ None]) (simp_all add: sv_step_def sv_flag_def)
  next
    case (Sv_insert i x)
    have "Suc (length (sv_list v)) * unat esz < 2 ^ 64" using assms(3) Sv_insert by simp
    from smallvec_insert_value [OF assms(1,2) this, of i x] obtain ok v' where
      "smallvec_insert mm esz (Some v) i x = ret (ok, Some v')"
      "sv_outcome icap v (unat i \<le> length (sv_list v)) (take (unat i) (sv_list v) @ x # drop (unat i) (sv_list v)) ok v'" by blast
    then show ?thesis using Sv_insert by (intro sv_step_okI [of _ ok None v' _ _ _ _ _ None]) (simp_all add: sv_step_def sv_flag_def)
  next
    case Sv_pop
    from smallvec_pop_value [OF assms(1), of y] obtain ok v' where
      "smallvec_pop (Some v) (Some y) = ret (ok, Some v', Some (if ok then last (sv_list v) else y))"
      "sv_outcome icap v (sv_list v \<noteq> []) (butlast (sv_list v)) ok v'" by blast
    then show ?thesis using Sv_pop
      by (intro sv_step_okI [of _ ok "if ok then Some (last (sv_list v)) else None" v']) (simp_all add: sv_step_def sv_read_def)
  next
    case (Sv_remove i)
    from smallvec_remove_value [OF assms(1), of i y] obtain ok v' where
      "smallvec_remove (Some v) i (Some y) = ret (ok, Some v', Some (if ok then sv_list v ! unat i else y))"
      "sv_outcome icap v (unat i < length (sv_list v)) (take (unat i) (sv_list v) @ drop (Suc (unat i)) (sv_list v)) ok v'" by blast
    then show ?thesis using Sv_remove
      by (intro sv_step_okI [of _ ok "if ok then Some (sv_list v ! unat i) else None" v']) (simp_all add: sv_step_def sv_read_def)
  next
    case (Sv_get i)
    have "length (sv_list v) \<le> unat (sv_cap v)" using l assms(1) by (simp add: smallvec_ok_def word_le_nat_alt)
    then have "sv_outcome icap v (unat i < length (sv_list v)) (sv_list v) (unat i < length (sv_list v)) v"
      using assms(1) by (simp add: sv_outcome_def)
    then show ?thesis using Sv_get smallvec_get_value [OF assms(1), of i y]
      by (intro sv_step_okI [of _ "unat i < length (sv_list v)" "if unat i < length (sv_list v) then Some (sv_list v ! unat i) else None" v])
        (simp_all add: sv_step_def sv_read_def)
  next
    case Sv_clear
    from smallvec_clear_value [OF assms(1)] obtain v' where "smallvec_clear (Some v) = Some v'" "sv_outcome icap v True [] True v'" by blast
    then show ?thesis using Sv_clear by (intro sv_step_okI [of _ True None v']) (simp_all add: sv_step_def sv_flag_def)
  next
    case (Sv_extend ys)
    have esz: "0 < unat esz" using assms(2) by (simp add: sv_mem_ok_def unat_gt_0)
    have "length ys \<le> (length (sv_list v) + length ys) * unat esz"
    proof -
      have "length (sv_list v) + length ys \<le> (length (sv_list v) + length ys) * unat esz" using esz by (cases "unat esz") simp_all
      then show ?thesis by linarith
    qed
    then have n: "unat (of_nat (length ys) :: usize) = length ys" using assms(3) Sv_extend by (intro unat_of_small) simp
    with assms(3) Sv_extend smallvec_extend_value [OF assms(1,2), of "of_nat (length ys)" "Dv_outside ys"] obtain ok v' where
      "smallvec_extend mm esz (Some v) (Dv_outside ys) (of_nat (length ys)) = ret (ok, Some v')"
      "sv_outcome icap v True (sv_list v @ ys) ok v'" by (auto simp: sv_source_items_def)
    then show ?thesis using Sv_extend by (intro sv_step_okI [of _ ok None v' _ _ True "sv_list v @ ys" _ None]) (simp_all add: sv_step_def sv_flag_def)
  next
    case (Sv_extend_own k n)
    show ?thesis
    proof (cases "unat k + unat n \<le> unat (sv_len v)")
      case True
      then have "unat n \<le> length (sv_source_items v (Dv_inside k))" using l by (simp add: sv_source_items_def)
      with assms(3) Sv_extend_own l smallvec_extend_value [OF assms(1,2), of n "Dv_inside k"] obtain ok v' where
        "smallvec_extend mm esz (Some v) (Dv_inside k) n = ret (ok, Some v')"
        "sv_outcome icap v True (sv_list v @ take (unat n) (drop (unat k) (sv_list v))) ok v'" by (auto simp: sv_source_items_def)
      then show ?thesis using Sv_extend_own True l
        by (intro sv_step_okI [of _ ok None v' _ _ True "sv_list v @ take (unat n) (drop (unat k) (sv_list v))" _ None])
          (simp_all add: sv_step_def sv_flag_def smallvec_len_def)
    next
      case False
      then show ?thesis using Sv_extend_own l assms(1)
        by (intro sv_step_okI [of _ False None v _ _ False _ _ None]) (simp_all add: sv_step_def smallvec_len_def sv_outcome_refuse)
    qed
  qed
qed

text \<open>
  Whether the answers are possible for a list, and the list they leave: an operation that says it was done was in
  range and has the effect and the answer of \<open>dv_spec\<close>; one that says it was not was out of range, or may need memory.
\<close>

fun dv_allocates :: "'a dv_op \<Rightarrow> bool" where
  "dv_allocates Dv_pop = False"
| "dv_allocates (Dv_set i x) = False"
| "dv_allocates (Dv_remove i) = False"
| "dv_allocates (Dv_get i) = False"
| "dv_allocates Dv_clear = False"
| "dv_allocates c = True"

fun dv_replay :: "'a dv_op list \<Rightarrow> 'a dv_answer list \<Rightarrow> 'a list \<Rightarrow> 'a list option" where
  "dv_replay [] [] xs = Some xs"
| "dv_replay (c # cs) ((ok, out) # as) xs = (case dv_spec c xs of (pre, ys, z) \<Rightarrow>
     if ok then if pre \<and> out = z then dv_replay cs as ys else None
     else if (\<not> pre \<or> dv_allocates c) \<and> out = None then dv_replay cs as xs else None)"
| "dv_replay _ _ xs = None"

lemma sv_run_replay:
  assumes "smallvec_ok icap v" "\<forall>(mm, c) \<in> set mcs. sv_mem_ok icap esz mm"
    "(length (sv_list v) + sum_list (map (dv_adds \<circ> sv_list_op \<circ> snd) mcs)) * unat esz < 2 ^ 64"
  shows "\<exists>as v'. sv_run esz y mcs (Some v) = ret (as, Some v') \<and> smallvec_ok icap v' \<and> sv_moves v v' \<and>
    (length (sv_list v) + sum_list (map (dv_adds \<circ> sv_list_op \<circ> snd) mcs) \<le> unat (sv_cap v) \<longrightarrow> sv_inline v' = sv_inline v) \<and>
    dv_replay (map (sv_list_op \<circ> snd) mcs) as (sv_list v) = Some (sv_list v')"
  using assms
proof (induction mcs arbitrary: v)
  case Nil
  then show ?case by simp
next
  case (Cons mc mcs)
  obtain mm c where mc: "mc = (mm, c)" by (cases mc)
  let ?k = "sum_list (map (dv_adds \<circ> sv_list_op \<circ> snd) mcs)"
  have tot: "(length (sv_list v) + (dv_adds (sv_list_op c) + ?k)) * unat esz < 2 ^ 64" using Cons.prems(3) mc by (simp add: comp_def)
  have "(length (sv_list v) + dv_adds (sv_list_op c)) * unat esz \<le> (length (sv_list v) + (dv_adds (sv_list_op c) + ?k)) * unat esz"
    by (intro mult_le_mono1) simp
  then have "(length (sv_list v) + dv_adds (sv_list_op c)) * unat esz < 2 ^ 64" using tot by (rule le_less_trans)
  moreover have "sv_mem_ok icap esz mm" using Cons.prems(2) mc by auto
  ultimately have "sv_step_ok icap v c (sv_step esz y (mm, c) (Some v))" using Cons.prems(1) by (intro sv_step_value)
  then obtain ok out v1 where
    st: "sv_step esz y (mm, c) (Some v) = ret ((ok, out), Some v1)" "smallvec_ok icap v1" "sv_moves v v1"
      "length (sv_list v) + dv_adds (sv_list_op c) \<le> unat (sv_cap v) \<longrightarrow> sv_inline v1 = sv_inline v"
      "case dv_spec (sv_list_op c) (sv_list v) of (pre, ys, z) \<Rightarrow> if ok then pre \<and> out = z \<and> sv_list v1 = ys
        else (\<not> pre \<or> length ys > unat (sv_cap v)) \<and> out = None \<and> sv_list v1 = sv_list v"
    unfolding sv_step_ok_def by (elim exE conjE) (rule that; assumption)
  obtain pre ys z where sp: "dv_spec (sv_list_op c) (sv_list v) = (pre, ys, z)" by (cases "dv_spec (sv_list_op c) (sv_list v)") auto
  have grow: "length (sv_list v1) \<le> length (sv_list v) + dv_adds (sv_list_op c)"
    using st(5) sp dv_spec_length [of "sv_list_op c" "sv_list v"] by (cases ok) auto
  then have "(length (sv_list v1) + ?k) * unat esz \<le> (length (sv_list v) + (dv_adds (sv_list_op c) + ?k)) * unat esz"
    by (intro mult_le_mono1) simp
  then have "(length (sv_list v1) + ?k) * unat esz < 2 ^ 64" using tot by (rule le_less_trans)
  moreover have "\<forall>(mm, c) \<in> set mcs. sv_mem_ok icap esz mm" using Cons.prems(2) by simp
  ultimately obtain as v2 where
    r: "sv_run esz y mcs (Some v1) = ret (as, Some v2)" "smallvec_ok icap v2" "sv_moves v1 v2"
      "length (sv_list v1) + ?k \<le> unat (sv_cap v1) \<longrightarrow> sv_inline v2 = sv_inline v1"
      "dv_replay (map (sv_list_op \<circ> snd) mcs) as (sv_list v1) = Some (sv_list v2)"
    using Cons.IH [OF st(2)] by blast
  have "sv_inline v2 = sv_inline v" if "length (sv_list v) + (dv_adds (sv_list_op c) + ?k) \<le> unat (sv_cap v)"
  proof -
    have same: "sv_inline v1 = sv_inline v" using st(4) that by simp
    then have "sv_cap v1 = sv_cap v" using st(3) by (auto simp: sv_moves_def split: if_splits)
    with r(4) same grow that show ?thesis by simp
  qed
  moreover have "dv_replay (map (sv_list_op \<circ> snd) (mc # mcs)) ((ok, out) # as) (sv_list v) = Some (sv_list v2)"
  proof (cases ok)
    case True
    with st(5) sp r(5) mc show ?thesis by simp
  next
    case False
    have "dv_allocates (sv_list_op c)" if "pre"
    proof -
      have "length ys > unat (sv_cap v)" using st(5) sp False that by simp
      moreover have "length (sv_list v) \<le> unat (sv_cap v)"
        using smallvec_active_some [OF Cons.prems(1)] Cons.prems(1) by (metis smallvec_ok_def word_le_nat_alt)
      ultimately show ?thesis using sp by (cases c) auto
    qed
    with False st(5) sp r(5) mc show ?thesis by auto
  qed
  ultimately show ?case using st(1) r(1,2) sv_moves_trans [OF st(3) r(3)] mc
    by (intro exI [of _ "(ok, out) # as"] exI [of _ v2]) (simp add: comp_def)
qed

text \<open>C16: A small vector is a list for every sequence of operations, whatever memory they meet, with an arena and without: none
of them fails a contract or leaves a buffer, each that reports success had the effect and the answer of the list
operation and each that does not left the list alone. The elements leave the struct at most once and the capacity is
fixed from then on, and they do not leave it when all that is added fits the inline buffer.\<close>

theorem smallvec_refines_list:
  assumes "smallvec_ok icap v" "\<forall>(mm, c) \<in> set mcs. sv_mem_ok icap esz mm"
    "(length (sv_list v) + sum_list (map (dv_adds \<circ> sv_list_op \<circ> snd) mcs)) * unat esz < 2 ^ 64"
  shows "\<exists>as v'. sv_run esz y mcs (Some v) = ret (as, Some v') \<and> smallvec_ok icap v' \<and>
    dv_replay (map (sv_list_op \<circ> snd) mcs) as (sv_list v) = Some (sv_list v') \<and>
    (\<not> sv_inline v \<longrightarrow> \<not> sv_inline v' \<and> sv_cap v' = sv_cap v) \<and>
    (sv_inline v \<and> length (sv_list v) + sum_list (map (dv_adds \<circ> sv_list_op \<circ> snd) mcs) \<le> unat icap \<longrightarrow>
      sv_inline v' \<and> sv_cap v' = icap)"
proof -
  from sv_run_replay [OF assms, of y] obtain as v' where
    r: "sv_run esz y mcs (Some v) = ret (as, Some v')" "smallvec_ok icap v'" "sv_moves v v'"
      "length (sv_list v) + sum_list (map (dv_adds \<circ> sv_list_op \<circ> snd) mcs) \<le> unat (sv_cap v) \<longrightarrow> sv_inline v' = sv_inline v"
      "dv_replay (map (sv_list_op \<circ> snd) mcs) as (sv_list v) = Some (sv_list v')"
    by (elim exE conjE) (rule that; assumption)
  have "\<not> sv_inline v \<longrightarrow> \<not> sv_inline v' \<and> sv_cap v' = sv_cap v" using r(3) by (auto simp: sv_moves_def split: if_splits)
  moreover have "sv_inline v \<longrightarrow> sv_cap v = icap" "sv_inline v' \<longrightarrow> sv_cap v' = icap"
    using assms(1) r(2) by (auto simp: smallvec_ok_def)
  ultimately show ?thesis using r by (intro exI [of _ as] exI [of _ v']) auto
qed

text \<open>Memory that is never refused, and filled with zeros.\<close>

definition zero_mem :: "usize \<Rightarrow> nat sv_mem" where
  "zero_mem esz = (\<lambda>bytes. Some (replicate (unat bytes div unat esz) 0), \<lambda>q n. replicate (unat n) 0)"

theorem smallvec_refines_list_witness:
  "\<exists>as v'. sv_run 4 9 [(zero_mem 4, Sv_push 5), (zero_mem 4, Sv_insert 0 7), (zero_mem 4, Sv_extend_own 0 2), (zero_mem 4, Sv_remove 1),
      (zero_mem 4, Sv_pop)] (Some (smallvec_init 2 [1, 1])) = ret (as, Some v') \<and> smallvec_ok 2 v' \<and>
    dv_replay [Dv_push 5, Dv_insert 0 7, Dv_extend_own 0 2, Dv_remove 1, Dv_pop] as [] = Some (sv_list v')"
proof -
  have "smallvec_ok 2 (smallvec_init 2 [1, 1 :: nat]) \<and> sv_list (smallvec_init 2 [1, 1 :: nat]) = []" by (rule smallvec_init_ok) simp
  moreover have "sv_mem_ok 2 4 (zero_mem 4)" by (simp add: sv_mem_ok_def zero_mem_def)
  ultimately show ?thesis
    using smallvec_refines_list [of 2 "smallvec_init 2 [1, 1]" "[(zero_mem 4, Sv_push 5), (zero_mem 4, Sv_insert 0 7),
        (zero_mem 4, Sv_extend_own 0 2), (zero_mem 4, Sv_remove 1), (zero_mem 4, Sv_pop)]" 4 9] by auto
qed

end
