(* ===== verification/Canon_SortSlice.thy ===== *)
theory Canon_SortSlice
  imports Canon_Sort Canon_Search Canon_Slice
begin

section \<open>Sorting and searching slices (algo/sort/sort.h, algo/search/search.h)\<close>

text \<open>
  The functions on typed slices: the contracts are checked, an empty slice is answered without looking at its pointer,
  and the rest is passed on. The lemmas compose the two: a slice that was sorted is searched.
\<close>

subsection \<open>The functions\<close>

definition sorted_slice_guard :: "char list \<Rightarrow> 'a slice \<Rightarrow> 'a cptr \<Rightarrow> 'a cmp_fn cptr \<Rightarrow> 'b run \<Rightarrow> 'b run" where
  "sorted_slice_guard name sv key cmp rest =
     require_msg (key \<noteq> None) (name @ '': key cannot be NULL'')
     (require_msg (cmp \<noteq> None) (name @ '': cmp cannot be NULL'')
     (require_msg (s_len sv = 0 \<or> s_ptr sv \<noteq> None) (name @ '': non-empty slice has NULL ptr'') rest))"

definition algo_lower_bound_slice :: "usize \<Rightarrow> 'a slice \<Rightarrow> 'a cptr \<Rightarrow> 'a cmp_fn cptr \<Rightarrow> usize run" where
  "algo_lower_bound_slice esz sv key cmp = sorted_slice_guard ''algo_lower_bound_slice'' sv key cmp
     (if s_len sv = 0 then ret 0 else algo_lower_bound (s_ptr sv) (s_len sv) esz key cmp)"

definition algo_upper_bound_slice :: "usize \<Rightarrow> 'a slice \<Rightarrow> 'a cptr \<Rightarrow> 'a cmp_fn cptr \<Rightarrow> usize run" where
  "algo_upper_bound_slice esz sv key cmp = sorted_slice_guard ''algo_upper_bound_slice'' sv key cmp
     (if s_len sv = 0 then ret 0 else algo_upper_bound (s_ptr sv) (s_len sv) esz key cmp)"

definition algo_find_sorted_slice :: "usize \<Rightarrow> 'a slice \<Rightarrow> 'a cptr \<Rightarrow> 'a cmp_fn cptr \<Rightarrow> usize run" where
  "algo_find_sorted_slice esz sv key cmp = sorted_slice_guard ''algo_find_sorted_slice'' sv key cmp
     (if s_len sv = 0 then ret canon_usize_max else algo_find_sorted (s_ptr sv) (s_len sv) esz key cmp)"

definition algo_binary_search_slice :: "usize \<Rightarrow> 'a slice \<Rightarrow> 'a cptr \<Rightarrow> 'a cmp_fn cptr \<Rightarrow> bool run" where
  "algo_binary_search_slice esz sv key cmp = sorted_slice_guard ''algo_binary_search_slice'' sv key cmp
     (if s_len sv = 0 then ret False else algo_binary_search (s_ptr sv) (s_len sv) esz key cmp)"

definition algo_equal_range_slice ::
  "usize \<Rightarrow> 'a slice \<Rightarrow> 'a cptr \<Rightarrow> 'a cmp_fn cptr \<Rightarrow> (usize \<times> usize) cptr \<Rightarrow> (usize \<times> usize) cptr run" where
  "algo_equal_range_slice esz sv key cmp out_range =
     require_msg (key \<noteq> None) ''algo_equal_range_slice: key cannot be NULL''
     (require_msg (cmp \<noteq> None) ''algo_equal_range_slice: cmp cannot be NULL''
     (require_msg (out_range \<noteq> None) ''algo_equal_range_slice: out_range cannot be NULL''
     (require_msg (s_len sv = 0 \<or> s_ptr sv \<noteq> None) ''algo_equal_range_slice: non-empty slice has NULL ptr''
     (if s_len sv = 0 then ret (Some (0, 0)) else algo_equal_range (s_ptr sv) (s_len sv) esz key cmp out_range))))"

text \<open>The result is the array of the slice afterwards.\<close>

definition algo_sort_slice :: "usize \<Rightarrow> 'a slice \<Rightarrow> 'a cmp_fn cptr \<Rightarrow> 'a list cptr \<Rightarrow> usize \<Rightarrow> 'a list cptr run" where
  "algo_sort_slice esz sv cmp temp temp_cap =
     require_msg (cmp \<noteq> None) ''algo_sort_slice: cmp cannot be NULL''
     (require_msg (s_len sv = 0 \<or> s_ptr sv \<noteq> None) ''algo_sort_slice: non-empty slice has NULL ptr''
     (if s_len sv < 2 then ret (s_ptr sv)
      else let tmp = (if temp \<noteq> None \<and> temp_cap \<ge> s_len sv then temp else None) in
        bindR (algo_sort (s_ptr sv) (s_len sv) esz cmp tmp) (\<lambda>xs. ret (Some xs))))"

definition algo_is_sorted_slice :: "usize \<Rightarrow> 'a slice \<Rightarrow> 'a cmp_fn cptr \<Rightarrow> bool run" where
  "algo_is_sorted_slice esz sv cmp =
     require_msg (cmp \<noteq> None) ''algo_is_sorted_slice: cmp cannot be NULL''
     (require_msg (s_len sv = 0 \<or> s_ptr sv \<noteq> None) ''algo_is_sorted_slice: non-empty slice has NULL ptr''
     (if s_len sv < 2 then ret True else algo_is_sorted (s_ptr sv) (s_len sv) esz cmp))"

subsection \<open>Searching a sorted slice\<close>

lemma algo_sort_slice_value:
  assumes "comparator cmp" "array_fits esz (length xs)" "unat esz \<le> 256" "unat n \<le> length xs"
    "\<forall>ts. temp = Some ts \<longrightarrow> array_fits esz (length ts) \<and> unat temp_cap \<le> length ts"
  shows "\<exists>ys. algo_sort_slice esz \<lparr>s_ptr = Some xs, s_len = n\<rparr> (Some cmp) temp temp_cap = ret (Some (ys @ drop (unat n) xs)) \<and>
    stable_sort_of cmp (take (unat n) xs) ys"
proof (cases "n < 2")
  case True
  then have "unat n = 0 \<or> unat n = 1" by (auto simp: word_less_nat_alt)
  then have "stable_sort_of cmp (take (unat n) xs) (take (unat n) xs)" using assms(4) comparator.stable_sort_of_refl [OF assms(1)] by (cases xs) auto
  with True show ?thesis by (intro exI [of _ "take (unat n) xs"]) (simp add: algo_sort_slice_def)
next
  case False
  define tmp where "tmp = (if temp \<noteq> None \<and> temp_cap \<ge> n then temp else None)"
  have t: "array_fits esz (length ts) \<and> unat n \<le> length ts" if "tmp = Some ts" for ts
    using that assms(5) by (auto simp: tmp_def word_le_nat_alt split: if_splits)
  have "esz \<le> algo_sort_swap_buf_size" using assms(3) by (simp add: algo_sort_swap_buf_size_def word_le_nat_alt)
  from comparator.algo_sort_sorts [OF assms(1,2) this assms(4), of tmp, OF t] obtain ys where
    "algo_sort (Some xs) n esz (Some cmp) tmp = ret (ys @ drop (unat n) xs)" "stable_sort_of cmp (take (unat n) xs) ys" by blast
  moreover have "algo_sort_slice esz \<lparr>s_ptr = Some xs, s_len = n\<rparr> (Some cmp) temp temp_cap =
      bindR (algo_sort (Some xs) n esz (Some cmp) tmp) (\<lambda>xs. ret (Some xs))"
    using False by (simp add: algo_sort_slice_def tmp_def Let_def)
  ultimately show ?thesis by auto
qed

context comparator
begin

lemma is_sorted_slice_ordered:
  assumes "array_fits esz (length ys)" "unat n \<le> length ys" "ordered (take (unat n) ys)"
  shows "algo_is_sorted_slice esz \<lparr>s_ptr = Some ys, s_len = n\<rparr> (Some cmp) = ret True"
proof (cases "n < 2")
  case False
  have "0 < esz" using assms(1) by (simp add: array_fits_def word_less_nat_alt)
  have "1 + (unat n - 1) \<le> length ys" using False assms(2) by (simp add: word_less_nat_alt)
  then have "is_sorted_loop esz cmp ys 1 (unat n - 1) =
      ret (\<forall>m. 1 \<le> m \<and> m < 1 + (unat n - 1) \<longrightarrow> cmp (ys ! (m - 1)) (ys ! m) \<le> 0)"
    using is_sorted_loop_value [OF assms(1), of 1 "unat n - 1" cmp] by simp
  moreover have "cmp (ys ! (m - 1)) (ys ! m) \<le> 0" if "1 \<le> m \<and> m < 1 + (unat n - 1)" for m
    using that ordered_take_nth [OF assms(3,2), of "m - 1" m] False by (simp add: word_less_nat_alt)
  ultimately show ?thesis using False \<open>0 < esz\<close> by (simp add: algo_is_sorted_slice_def algo_is_sorted_def)
qed (simp add: algo_is_sorted_slice_def)

text \<open>The five searches of a sorted slice: \<open>[lo, hi)\<close> are the positions of the elements that compare equal.\<close>

lemma searches_slice:
  assumes "array_fits esz (length ys)" "unat n \<le> length ys" "ordered (take (unat n) ys)"
  shows "\<exists>lo hi. unat lo \<le> unat hi \<and> unat hi \<le> unat n \<and>
    (\<forall>i < unat n. cmp (ys ! i) key = 0 \<longleftrightarrow> unat lo \<le> i \<and> i < unat hi) \<and>
    algo_lower_bound_slice esz \<lparr>s_ptr = Some ys, s_len = n\<rparr> (Some key) (Some cmp) = ret lo \<and>
    algo_upper_bound_slice esz \<lparr>s_ptr = Some ys, s_len = n\<rparr> (Some key) (Some cmp) = ret hi \<and>
    algo_equal_range_slice esz \<lparr>s_ptr = Some ys, s_len = n\<rparr> (Some key) (Some cmp) (Some out) = ret (Some (lo, hi)) \<and>
    algo_find_sorted_slice esz \<lparr>s_ptr = Some ys, s_len = n\<rparr> (Some key) (Some cmp) = ret (if lo < hi then lo else canon_usize_max) \<and>
    algo_binary_search_slice esz \<lparr>s_ptr = Some ys, s_len = n\<rparr> (Some key) (Some cmp) = ret (lo < hi)"
proof (cases "n = 0")
  case True
  then show ?thesis
    by (intro exI [of _ 0]) (simp add: algo_lower_bound_slice_def algo_upper_bound_slice_def algo_equal_range_slice_def
        algo_find_sorted_slice_def algo_binary_search_slice_def sorted_slice_guard_def)
next
  case False
  have e: "0 < esz" using assms(1) by (simp add: array_fits_def word_less_nat_alt)
  obtain lo where lo: "algo_lower_bound_impl ys n esz key cmp = ret lo" "algo_lower_bound (Some ys) n esz (Some key) (Some cmp) = ret lo"
    "partition_point (\<lambda>x. cmp x key < 0) (take (unat n) ys) (unat lo)"
    using lower_bound_finds [OF assms, of key] e False by (auto simp: algo_lower_bound_def)
  obtain hi where hi: "algo_upper_bound (Some ys) n esz (Some key) (Some cmp) = ret hi"
    "partition_point (\<lambda>x. cmp x key \<le> 0) (take (unat n) ys) (unat hi)"
    using upper_bound_finds [OF assms, of key] by blast
  have b: "unat lo \<le> unat n" "unat hi \<le> unat n" "\<And>i. i < unat lo \<Longrightarrow> cmp (ys ! i) key < 0"
    "\<And>i. unat lo \<le> i \<Longrightarrow> i < unat n \<Longrightarrow> \<not> cmp (ys ! i) key < 0" "\<And>i. i < unat hi \<Longrightarrow> cmp (ys ! i) key \<le> 0"
    "\<And>i. unat hi \<le> i \<Longrightarrow> i < unat n \<Longrightarrow> \<not> cmp (ys ! i) key \<le> 0"
    using lo(3) hi(2) assms(2) by (auto simp: partition_point_def)
  have le: "unat lo \<le> unat hi"
  proof (rule ccontr)
    assume "\<not> unat lo \<le> unat hi"
    then show False using b(1) b(3) [of "unat hi"] b(6) [of "unat hi"] by simp
  qed
  have eq: "cmp (ys ! i) key = 0 \<longleftrightarrow> unat lo \<le> i \<and> i < unat hi" if "i < unat n" for i
    using b(3-6) [of i] that by (cases "i < unat lo"; cases "i < unat hi") fastforce+
  have found: "algo_find_sorted (Some ys) n esz (Some key) (Some cmp) = ret (if lo < hi then lo else canon_usize_max)"
  proof (cases "lo < hi")
    case True
    then have l: "unat lo < unat hi" by (simp add: word_less_nat_alt)
    then have m: "cmp (ys ! unat lo) key = 0" "unat lo < unat n" using eq [of "unat lo"] b(2) by simp_all
    then have ex: "\<exists>i < unat n. cmp (ys ! i) key = 0" by blast
    from find_sorted_finds [OF assms, of key, unfolded if_P [OF ex]] obtain r where
      r: "algo_find_sorted (Some ys) n esz (Some key) (Some cmp) = ret r" "unat r < unat n" "cmp (ys ! unat r) key = 0"
        "\<forall>i < unat r. cmp (ys ! i) key \<noteq> 0" by blast
    have "unat r = unat lo" using eq [OF r(2)] r(3,4) m by (meson le_neq_implies_less not_less)
    then have "r = lo" by (simp add: word_unat_eq_iff)
    then show ?thesis using r(1) True by simp
  next
    case False
    then have "\<not> (\<exists>i < unat n. cmp (ys ! i) key = 0)" using eq by (auto simp: word_less_nat_alt)
    from find_sorted_finds [OF assms, of key, unfolded if_not_P [OF this]] False show ?thesis by simp
  qed
  have "lo < hi \<Longrightarrow> lo \<noteq> canon_usize_max" using usize_bound [of hi] by (auto simp: word_less_nat_alt unat_usize_max)
  then show ?thesis using False e lo(1,2) hi(1) le eq b(2) found
    by (intro exI [of _ lo] exI [of _ hi]) (auto simp: algo_lower_bound_slice_def algo_upper_bound_slice_def algo_equal_range_slice_def
        algo_equal_range_def algo_find_sorted_slice_def algo_binary_search_slice_def algo_binary_search_def sorted_slice_guard_def)
qed

end

lemma count_between:
  assumes "hi \<le> length ys" "\<forall>i < length ys. P (ys ! i) \<longleftrightarrow> lo \<le> i \<and> i < hi"
  shows "length (filter P ys) = hi - lo"
proof -
  have "{i. i < length ys \<and> P (ys ! i)} = {lo..<hi}" using assms by auto
  then show ?thesis by (simp add: length_filter_conv_card)
qed

text \<open>C20: Sorting a slice and then searching it: the sort ends with a stable permutation that the sortedness test accepts; in it
the equal range of a key is exactly the positions of the elements that compare equal to the key, as many as there were
before sorting, the bounds agree with it, and the searches find the first of them, or report that there is none. Nothing
outside the slice is read or written, with and without a temporary buffer, and for an empty slice.\<close>

theorem sort_then_search:
  assumes "comparator cmp" "array_fits esz (length xs)" "unat esz \<le> 256" "unat n \<le> length xs"
    "\<forall>ts. temp = Some ts \<longrightarrow> array_fits esz (length ts) \<and> unat temp_cap \<le> length ts"
  shows "\<exists>ys lo hi. algo_sort_slice esz \<lparr>s_ptr = Some xs, s_len = n\<rparr> (Some cmp) temp temp_cap = ret (Some ys) \<and>
    length ys = length xs \<and> drop (unat n) ys = drop (unat n) xs \<and> stable_sort_of cmp (take (unat n) xs) (take (unat n) ys) \<and>
    algo_is_sorted_slice esz \<lparr>s_ptr = Some ys, s_len = n\<rparr> (Some cmp) = ret True \<and>
    unat lo \<le> unat hi \<and> unat hi \<le> unat n \<and> unat hi - unat lo = length (filter (\<lambda>x. cmp x key = 0) (take (unat n) xs)) \<and>
    (\<forall>i < unat n. cmp (ys ! i) key = 0 \<longleftrightarrow> unat lo \<le> i \<and> i < unat hi) \<and>
    algo_lower_bound_slice esz \<lparr>s_ptr = Some ys, s_len = n\<rparr> (Some key) (Some cmp) = ret lo \<and>
    algo_upper_bound_slice esz \<lparr>s_ptr = Some ys, s_len = n\<rparr> (Some key) (Some cmp) = ret hi \<and>
    algo_equal_range_slice esz \<lparr>s_ptr = Some ys, s_len = n\<rparr> (Some key) (Some cmp) (Some out) = ret (Some (lo, hi)) \<and>
    algo_find_sorted_slice esz \<lparr>s_ptr = Some ys, s_len = n\<rparr> (Some key) (Some cmp) = ret (if lo < hi then lo else canon_usize_max) \<and>
    algo_binary_search_slice esz \<lparr>s_ptr = Some ys, s_len = n\<rparr> (Some key) (Some cmp) = ret (lo < hi)"
proof -
  from algo_sort_slice_value [OF assms] obtain zs where
    z: "algo_sort_slice esz \<lparr>s_ptr = Some xs, s_len = n\<rparr> (Some cmp) temp temp_cap = ret (Some (zs @ drop (unat n) xs))"
      "stable_sort_of cmp (take (unat n) xs) zs" by blast
  define ys where "ys = zs @ drop (unat n) xs"
  have len: "length zs = unat n" using stable_sort_of_length [OF z(2)] assms(4) by simp
  then have ys: "length ys = length xs" "take (unat n) ys = zs" "drop (unat n) ys = drop (unat n) xs"
    using assms(4) by (simp_all add: ys_def)
  have "comparator.ordered cmp zs" using z(2) by (simp add: stable_sort_of_def comparator.ordered_def [OF assms(1)])
  then have pre: "array_fits esz (length ys)" "unat n \<le> length ys" "comparator.ordered cmp (take (unat n) ys)"
    using assms(2,4) ys by simp_all
  from comparator.searches_slice [OF assms(1) pre, of key out] obtain lo hi where
    s: "unat lo \<le> unat hi" "unat hi \<le> unat n" "\<forall>i < unat n. cmp (ys ! i) key = 0 \<longleftrightarrow> unat lo \<le> i \<and> i < unat hi"
      "algo_lower_bound_slice esz \<lparr>s_ptr = Some ys, s_len = n\<rparr> (Some key) (Some cmp) = ret lo"
      "algo_upper_bound_slice esz \<lparr>s_ptr = Some ys, s_len = n\<rparr> (Some key) (Some cmp) = ret hi"
      "algo_equal_range_slice esz \<lparr>s_ptr = Some ys, s_len = n\<rparr> (Some key) (Some cmp) (Some out) = ret (Some (lo, hi))"
      "algo_find_sorted_slice esz \<lparr>s_ptr = Some ys, s_len = n\<rparr> (Some key) (Some cmp) = ret (if lo < hi then lo else canon_usize_max)"
      "algo_binary_search_slice esz \<lparr>s_ptr = Some ys, s_len = n\<rparr> (Some key) (Some cmp) = ret (lo < hi)"
    by (elim exE conjE) (rule that; assumption)
  have "\<forall>i < length zs. cmp (zs ! i) key = 0 \<longleftrightarrow> unat lo \<le> i \<and> i < unat hi" using s(3) len by (simp add: ys_def nth_append)
  then have "length (filter (\<lambda>x. cmp x key = 0) zs) = unat hi - unat lo" using s(2) len by (intro count_between) simp_all
  moreover have "length (filter (\<lambda>x. cmp x key = 0) zs) = length (filter (\<lambda>x. cmp x key = 0) (take (unat n) xs))"
    using z(2) unfolding stable_sort_of_def by (metis mset_filter size_mset)
  ultimately have cnt: "unat hi - unat lo = length (filter (\<lambda>x. cmp x key = 0) (take (unat n) xs))" by simp
  have st: "stable_sort_of cmp (take (unat n) xs) (take (unat n) ys)" using z(2) ys(2) by simp
  note srt = z(1) [folded ys_def] comparator.is_sorted_slice_ordered [OF assms(1) pre]
  show ?thesis by (intro exI [of _ ys] exI [of _ lo] exI [of _ hi] conjI) (rule srt ys st cnt s)+
qed

theorem sort_then_search_witness:
  "\<exists>ys lo hi. algo_sort_slice 1 \<lparr>s_ptr = Some [7, 3, 1, 3], s_len = 4\<rparr> (Some algo_cmp_u8) None 0 = ret (Some ys) \<and>
    unat hi - unat lo = 2 \<and>
    algo_equal_range_slice 1 \<lparr>s_ptr = Some ys, s_len = 4\<rparr> (Some 3) (Some algo_cmp_u8) (Some (0, 0)) = ret (Some (lo, hi))"
proof -
  have "filter (\<lambda>x. algo_cmp_u8 x 3 = 0) [7, 3, 1, 3] = [3, 3]" by (simp add: algo_cmp_u8_def)
  with sort_then_search [OF u8_up.comparator_axioms, of 1 "[7, 3, 1, 3]" 4 None 0 3 "(0, 0)"] show ?thesis
    by (auto simp: array_fits_def)
qed

end
