(* ===== verification/Canon_Views.thy ===== *)
theory Canon_Views
  imports Canon_Vec Canon_Range Canon_RobinHood
begin

section \<open>Ranges and hash maps as vectors (data/vec/vec_range.h, data/hashmap/hashmap_range.h)\<close>

text \<open>
  The functions in which two containers meet: a vector takes the values of a range, with the conversion of each to
  the element type checked, and a vector takes the keys or the values of a hash map. They are composed of the models
  of the range, the hash map and the vector. The lemmas show the vector afterwards, on success and on every error.
\<close>

subsection \<open>A vector from a range\<close>

text \<open>
  The element type is an integer type, \<open>'b word\<close> with the flag \<open>sg\<close> for a signed one. \<open>elem_back\<close> is the conversion
  to \<open>isize\<close>, \<open>elem_below_one\<close> the test \<open>elem < (type)1\<close>. \<open>u\<close> and \<open>w\<close> are the contents of uninitialised variables.
\<close>

definition elem_back :: "bool \<Rightarrow> 'b::len word \<Rightarrow> isize" where
  "elem_back sg e = wrap_isize (if sg then sint e else uint e)"

definition elem_below_one :: "bool \<Rightarrow> 'b::len word \<Rightarrow> bool" where
  "elem_below_one sg e = (if sg then sint e < 1 else uint e < 1)"

fun vec_range_loop :: "bool \<Rightarrow> bool \<Rightarrow> isize \<Rightarrow> nat \<Rightarrow> usize \<Rightarrow> 'b::len word vec \<Rightarrow> rng cptr \<Rightarrow> (bool \<times> 'b word vec) run" where
  "vec_range_loop sg builtin u 0 i v r = ret (True, v)"
| "vec_range_loop sg builtin u (Suc k) i v r = bindR (range_next builtin u r) (\<lambda>(value, r').
     let elem = word_of_int value in
     if elem_back sg elem \<noteq> value \<or> value < 0 \<and> \<not> elem_below_one sg elem then ret (False, v)
     else bindR (items_set v (vec_length v + i) elem) (\<lambda>v'. vec_range_loop sg builtin u k (i + 1) v' r'))"

definition vec_extend_from_range ::
  "bool \<Rightarrow> bool \<Rightarrow> isize \<Rightarrow> usize \<Rightarrow> 'b::len word vec cptr \<Rightarrow> rng \<Rightarrow> (bool_result \<times> 'b word vec cptr) run" where
  "vec_extend_from_range sg builtin u w p r = (case p of
     None \<Rightarrow> ret (Err ERR_INVALID_ARG, p)
   | Some v \<Rightarrow>
       if vec_items v = None then ret (Err ERR_INVALID_ARG, p)
       else if rg_step r = canon_isize_min then ret (Err ERR_INVALID_ARG, p)
       else bindR (if rg_step r = 0 then ret 0 else range_len (Some r)) (\<lambda>count.
         bindR (checked_add builtin (vec_length v) count (Some w)) (\<lambda>(fits, out).
           if \<not> fits then ret (Err ERR_OVERFLOW, p)
           else bindR (deref out) (\<lambda>n.
             if n > vec_cap v then ret (Err ERR_CAPACITY_EXCEEDED, p)
             else bindR (vec_range_loop sg builtin u (unat count) 0 v (Some r)) (\<lambda>(ok, v').
               if \<not> ok then ret (Err ERR_OUT_OF_RANGE, Some v')
               else ret (Ok True, Some (v'\<lparr>vec_length := n\<rparr>)))))))"

definition type_holds :: "bool \<Rightarrow> 'b::len itself \<Rightarrow> int \<Rightarrow> bool" where
  "type_holds sg t x \<longleftrightarrow> (if sg then - (2 ^ (LENGTH('b) - 1)) \<le> x \<and> x < 2 ^ (LENGTH('b) - 1) else 0 \<le> x \<and> x < 2 ^ LENGTH('b))"

text \<open>The values of a range; the struct may also have the step 0, for which the code takes no values.\<close>

definition range_values :: "rng \<Rightarrow> isize list" where
  "range_values r = (if rg_step r = 0 then [] else rng_list r)"

lemma rng_list_isize:
  assumes "rng_ok r" "x \<in> set (rng_list r)"
  shows "isize_ok x"
proof -
  obtain i where i: "i < rng_count r" "x = rg_current r + int i * rg_step r" using assms(2) by (auto simp: rng_list_def)
  then have "int i * \<bar>rg_step r\<bar> < rng_span r" using less_rng_count [OF assms(1)] by blast
  then show ?thesis using i(2) rng_advance_ok [OF assms(1), of i] by (simp add: rng_advance_def rng_ok_def)
qed

text \<open>The test of the code accepts exactly the values that the element type holds.\<close>

lemma elem_fits_iff:
  assumes "isize_ok x"
  shows "\<not> (elem_back sg (word_of_int x :: 'b::len word) \<noteq> x \<or> x < 0 \<and> \<not> elem_below_one sg (word_of_int x :: 'b word)) \<longleftrightarrow>
    type_holds sg TYPE('b) x"
proof (cases sg)
  case True
  have s: "sint (word_of_int x :: 'b word) = signed_take_bit (LENGTH('b) - 1) x" by (simp add: signed_of_int)
  show ?thesis
  proof (cases "- (2 ^ (LENGTH('b) - 1)) \<le> x \<and> x < 2 ^ (LENGTH('b) - 1)")
    case in_range: True
    then have "sint (word_of_int x :: 'b word) = x" using s by (simp add: signed_take_bit_int_eq_self)
    then show ?thesis using in_range assms True by (auto simp: elem_back_def elem_below_one_def type_holds_def wrap_isize_ok)
  next
    case False
    have small: "isize_ok (signed_take_bit (LENGTH('b) - 1) x)"
    proof -
      have "- (2 ^ (LENGTH('b) - 1)) \<le> signed_take_bit (LENGTH('b) - 1) x" "signed_take_bit (LENGTH('b) - 1) x < 2 ^ (LENGTH('b) - 1)"
        by simp_all
      moreover have "- (2 ^ (LENGTH('b) - 1)) > x \<or> x \<ge> 2 ^ (LENGTH('b) - 1)" using False by auto
      ultimately show ?thesis using assms unfolding isize_ok_def canon_isize_min_def canon_isize_max_def by linarith
    qed
    have "signed_take_bit (LENGTH('b) - 1) x \<noteq> x" using False by (auto simp: signed_take_bit_int_eq_self_iff)
    then show ?thesis using False small s True by (auto simp: elem_back_def type_holds_def wrap_isize_ok)
  qed
next
  case False
  have u: "uint (word_of_int x :: 'b word) = take_bit LENGTH('b) x" by (simp add: uint_word_of_int take_bit_eq_mod)
  show ?thesis
  proof (cases "x < 0")
    case True
    have "wrap_isize (take_bit LENGTH('b) x) \<noteq> x \<or> \<not> take_bit LENGTH('b) x < 1"
    proof (cases "take_bit LENGTH('b) x = 0")
      case zero: True
      have "wrap_isize 0 = 0" by (simp add: wrap_isize_def)
      then show ?thesis using zero True by simp
    next
      case False
      then show ?thesis using take_bit_nonnegative [of "LENGTH('b)" x] by linarith
    qed
    then show ?thesis using True u \<open>\<not> sg\<close> by (auto simp: elem_back_def elem_below_one_def type_holds_def)
  next
    case pos: False
    have "take_bit LENGTH('b) x \<le> x" using pos by (simp add: take_bit_int_less_eq_self_iff)
    then have "isize_ok (take_bit LENGTH('b) x)"
      using assms take_bit_nonnegative [of "LENGTH('b)" x] unfolding isize_ok_def canon_isize_min_def by linarith
    moreover have "take_bit LENGTH('b) x = x \<longleftrightarrow> x < 2 ^ LENGTH('b)" using pos by (simp add: take_bit_int_eq_self_iff)
    ultimately show ?thesis using pos u \<open>\<not> sg\<close> by (auto simp: elem_back_def elem_below_one_def type_holds_def wrap_isize_ok)
  qed
qed

lemma vec_range_loop_value:
  fixes v :: "'b::len word vec"
  assumes "rng_ok r" "rng_count r = k" "vec_items v = Some xs" "unat (vec_length v) + unat i + k \<le> length xs" "length xs < 2 ^ 64"
  shows "\<exists>zs. vec_range_loop sg builtin u k i v (Some r) =
      ret (list_all (type_holds sg TYPE('b)) (rng_list r), v\<lparr>vec_items := Some zs\<rparr>) \<and> length zs = length xs \<and>
    take (unat (vec_length v) + unat i) zs = take (unat (vec_length v) + unat i) xs \<and>
    (list_all (type_holds sg TYPE('b)) (rng_list r) \<longrightarrow>
      take (unat (vec_length v) + unat i + k) zs = take (unat (vec_length v) + unat i) xs @ map word_of_int (rng_list r))"
  using assms
proof (induction k arbitrary: i v r xs)
  case 0
  then have "rng_list r = []" by (simp add: rng_list_def)
  with 0 show ?case by (intro exI [of _ xs]) simp
next
  case (Suc k)
  have span: "0 < rng_span r" using Suc.prems(2) rng_count_0_iff [OF Suc.prems(1)] by simp
  note cons = rng_list_Cons [OF Suc.prems(1) span]
  have cnt: "rng_count (rng_advance r 1) = k" using arg_cong [OF cons, of length] Suc.prems(2) by (simp add: rng_list_def)
  have ok: "rng_ok (rng_advance r 1)" using Suc.prems(1) by (rule rng_advance_ok)
  have cur: "isize_ok (rg_current r)" using Suc.prems(1) by (simp add: rng_ok_def)
  note next1 = range_next_ret [OF Suc.prems(1) span, of builtin u]
  let ?n = "unat (vec_length v) + unat i"
  let ?e = "word_of_int (rg_current r) :: 'b word"
  have n: "unat (vec_length v + i) = ?n" "unat (i + 1) = Suc (unat i)"
    using Suc.prems(4,5) by (simp_all add: unat_word_ariths)
  show ?case
  proof (cases "type_holds sg TYPE('b) (rg_current r)")
    case False
    then show ?thesis using elem_fits_iff [OF cur, of sg, where 'b = 'b] next1 cons Suc.prems(3)
      by (intro exI [of _ xs]) (auto simp: Let_def)
  next
    case True
    let ?v = "v\<lparr>vec_items := Some (xs[?n := ?e])\<rparr>"
    have "vec_range_loop sg builtin u (Suc k) i v (Some r) = vec_range_loop sg builtin u k (i + 1) ?v (Some (rng_advance r 1))"
      using True elem_fits_iff [OF cur, of sg, where 'b = 'b] next1 Suc.prems(3,4) n(1)
      by (auto simp: Let_def items_set_def)
    moreover have "unat (vec_length ?v) + unat (i + 1) + k \<le> length (xs[?n := ?e])" using Suc.prems(4) n(2) by simp
    ultimately obtain zs where
      "vec_range_loop sg builtin u (Suc k) i v (Some r) =
        ret (list_all (type_holds sg TYPE('b)) (rng_list (rng_advance r 1)), v\<lparr>vec_items := Some zs\<rparr>)" "length zs = length xs"
      and z: "take (Suc ?n) zs = take (Suc ?n) (xs[?n := ?e])"
        "list_all (type_holds sg TYPE('b)) (rng_list (rng_advance r 1)) \<longrightarrow>
          take (Suc ?n + k) zs = take (Suc ?n) (xs[?n := ?e]) @ map word_of_int (rng_list (rng_advance r 1))"
      using Suc.IH [OF ok cnt, of ?v "xs[?n := ?e]" "i + 1"] Suc.prems(5) n(2) by auto
    moreover have "take ?n zs = take ?n xs" using arg_cong [OF z(1), of "take ?n"] by simp
    moreover have "take (Suc ?n) (xs[?n := ?e]) = take ?n xs @ [?e]" using Suc.prems(4) by (simp add: take_Suc_update)
    ultimately show ?thesis unfolding cons using True by (intro exI [of _ zs]) simp
  qed
qed

text \<open>The values and their loop, also for the step 0.\<close>

definition range_struct_ok :: "rng \<Rightarrow> bool" where
  "range_struct_ok r \<longleftrightarrow> isize_ok (rg_current r) \<and> isize_ok (rg_end r) \<and> isize_ok (rg_step r) \<and> rg_step r \<noteq> canon_isize_min"

lemma range_struct_rng_ok: "range_struct_ok r \<Longrightarrow> rg_step r \<noteq> 0 \<Longrightarrow> rng_ok r"
  by (simp add: range_struct_ok_def rng_ok_def)

lemma range_struct_count:
  assumes "range_struct_ok r"
  shows "\<exists>n. (if rg_step r = 0 then ret 0 else range_len (Some r)) = ret n \<and> unat n = length (range_values r)"
  using range_len_ret [OF range_struct_rng_ok [OF assms]] by (cases "rg_step r = 0") (auto simp: range_values_def rng_list_def)

lemma elem_same:
  assumes "range_struct_ok r" "x \<in> set (range_values r)" "type_holds sg TYPE('b::len) x"
  shows "elem_back sg (word_of_int x :: 'b word) = x"
proof -
  have "rng_ok r" "x \<in> set (rng_list r)" using range_struct_rng_ok [OF assms(1)] assms(2) by (auto simp: range_values_def split: if_splits)
  then have "isize_ok x" by (rule rng_list_isize)
  from elem_fits_iff [OF this, of sg, where 'b = 'b] assms(3) show ?thesis by blast
qed

lemma vec_extend_loop:
  fixes v :: "'b::len word vec"
  assumes "range_struct_ok r" "vec_items v = Some xs" "length xs < 2 ^ 64" "n = length (range_values r)" "unat (vec_length v) + n \<le> length xs"
  shows "\<exists>zs. vec_range_loop sg builtin u n 0 v (Some r) =
      ret (list_all (type_holds sg TYPE('b)) (range_values r), v\<lparr>vec_items := Some zs\<rparr>) \<and> length zs = length xs \<and>
    take (unat (vec_length v)) zs = take (unat (vec_length v)) xs \<and>
    (list_all (type_holds sg TYPE('b)) (range_values r) \<longrightarrow>
      take (unat (vec_length v) + n) zs = take (unat (vec_length v)) xs @ map word_of_int (range_values r))"
proof (cases "rg_step r = 0")
  case True
  with assms(2,4) show ?thesis by (intro exI [of _ xs]) (simp add: range_values_def)
next
  case False
  then have "rng_count r = n" using assms(4) by (simp add: range_values_def rng_list_def)
  with vec_range_loop_value [OF range_struct_rng_ok [OF assms(1) False] this assms(2), of 0 sg builtin u] assms(3,5) False
  show ?thesis by (simp add: range_values_def)
qed

text \<open>What happens when there is no room for the values, and when there is.\<close>

lemma vec_extend_no_room:
  assumes "vec_items v = Some xs" "range_struct_ok r" "unat (vec_length v) + length (range_values r) > unat (vec_cap v)"
  shows "vec_extend_from_range sg builtin u w (Some v) r =
    ret (Err (if unat (vec_length v) + length (range_values r) \<ge> 2 ^ 64 then ERR_OVERFLOW else ERR_CAPACITY_EXCEEDED), Some v)"
proof -
  obtain n where n: "(if rg_step r = 0 then ret 0 else range_len (Some r)) = ret n" "unat n = length (range_values r)"
    using range_struct_count [OF assms(2)] by blast
  have ns: "rg_step r \<noteq> canon_isize_min" using assms(2) by (simp add: range_struct_ok_def)
  show ?thesis
  proof (cases "unat (vec_length v) + unat n \<ge> 2 ^ 64")
    case True
    then show ?thesis using assms(1) n ns by (simp add: vec_extend_from_range_def)
  next
    case False
    then have "unat (vec_length v + n) = unat (vec_length v) + unat n" by (simp add: unat_word_ariths)
    then show ?thesis using False assms n ns by (simp add: vec_extend_from_range_def word_less_nat_alt)
  qed
qed

lemma vec_extend_room:
  fixes v :: "'b::len word vec"
  assumes "vec_ok v" "vec_items v = Some xs" "length xs < 2 ^ 64" "range_struct_ok r"
    "unat (vec_length v) + length (range_values r) \<le> unat (vec_cap v)"
  shows "\<exists>v'. vec_extend_from_range sg builtin u w (Some v) r =
      ret (if list_all (type_holds sg TYPE('b)) (range_values r) then Ok True else Err ERR_OUT_OF_RANGE, Some v') \<and>
    vec_ok v' \<and> vec_cap v' = vec_cap v \<and>
    vec_list v' = vec_list v @ (if list_all (type_holds sg TYPE('b)) (range_values r) then map word_of_int (range_values r) else [])"
proof -
  have v: "vec_length v \<le> vec_cap v" "unat (vec_cap v) \<le> length xs" using assms(1,2) by (auto simp: vec_ok_def)
  obtain n where n: "(if rg_step r = 0 then ret 0 else range_len (Some r)) = ret n" "unat n = length (range_values r)"
    using range_struct_count [OF assms(4)] by blast
  have ns: "rg_step r \<noteq> canon_isize_min" using assms(4) by (simp add: range_struct_ok_def)
  have lt: "unat (vec_length v) + unat n < 2 ^ 64" using assms(5) n(2) usize_bound [of "vec_cap v"] by linarith
  then have l: "unat (vec_length v + n) = unat (vec_length v) + unat n" by (simp add: unat_word_ariths)
  have "unat (vec_length v) + unat n \<le> length xs" using assms(5) n(2) v(2) by linarith
  from vec_extend_loop [OF assms(4,2,3) n(2) this, of sg builtin u] obtain zs where
    zs: "vec_range_loop sg builtin u (unat n) 0 v (Some r) = ret (list_all (type_holds sg TYPE('b)) (range_values r), v\<lparr>vec_items := Some zs\<rparr>)"
      "length zs = length xs" "take (unat (vec_length v)) zs = take (unat (vec_length v)) xs"
      "list_all (type_holds sg TYPE('b)) (range_values r) \<longrightarrow>
        take (unat (vec_length v) + unat n) zs = take (unat (vec_length v)) xs @ map word_of_int (range_values r)"
    by (elim exE conjE) (rule that; assumption)
  define v' where "v' = (if list_all (type_holds sg TYPE('b)) (range_values r)
    then v\<lparr>vec_items := Some zs, vec_length := vec_length v + n\<rparr> else v\<lparr>vec_items := Some zs\<rparr>)"
  have "vec_extend_from_range sg builtin u w (Some v) r =
      ret (if list_all (type_holds sg TYPE('b)) (range_values r) then Ok True else Err ERR_OUT_OF_RANGE, Some v')"
    using assms(2,5) lt l n zs(1) ns by (simp add: vec_extend_from_range_def word_less_nat_alt v'_def)
  moreover have "vec_ok v'" "vec_cap v' = vec_cap v"
    using assms(2,5) v l n(2) zs(2) by (simp_all add: v'_def vec_ok_def word_le_nat_alt)
  moreover have "vec_list v' = vec_list v @ (if list_all (type_holds sg TYPE('b)) (range_values r) then map word_of_int (range_values r) else [])"
    using assms(2) l zs(3,4) by (simp add: v'_def vec_list_def)
  ultimately show ?thesis by blast
qed

text \<open>C24: Filling a vector from a range, for every element type and every range: a step of \<open>ISIZE_MIN\<close> is refused;
more values than the vector has room for are refused (a count that \<open>usize\<close> cannot hold as an overflow) and nothing is
written; if the element type does not hold one of the values, the result is an error and the elements are as before;
otherwise the values are behind the old elements, each one equal to its value in the range.\<close>

theorem vec_extend_from_range_correct:
  fixes v :: "'b::len word vec"
  assumes "vec_ok v" "length (the (vec_items v)) < 2 ^ 64" "isize_ok (rg_current r)" "isize_ok (rg_end r)" "isize_ok (rg_step r)"
  shows "\<exists>v'. vec_extend_from_range sg builtin u w (Some v) r = ret (
       if rg_step r = canon_isize_min then Err ERR_INVALID_ARG
       else if unat (vec_length v) + length (range_values r) \<ge> 2 ^ 64 then Err ERR_OVERFLOW
       else if unat (vec_length v) + length (range_values r) > unat (vec_cap v) then Err ERR_CAPACITY_EXCEEDED
       else if \<exists>x \<in> set (range_values r). \<not> type_holds sg TYPE('b) x then Err ERR_OUT_OF_RANGE
       else Ok True, Some v') \<and> vec_ok v' \<and> vec_cap v' = vec_cap v \<and>
    vec_list v' = vec_list v @
      (if rg_step r \<noteq> canon_isize_min \<and> unat (vec_length v) + length (range_values r) \<le> unat (vec_cap v) \<and>
          (\<forall>x \<in> set (range_values r). type_holds sg TYPE('b) x)
       then map word_of_int (range_values r) else []) \<and>
    (rg_step r \<noteq> canon_isize_min \<longrightarrow>
      (\<forall>x \<in> set (range_values r). type_holds sg TYPE('b) x \<longrightarrow> elem_back sg (word_of_int x :: 'b word) = x))"
proof (cases "rg_step r = canon_isize_min")
  case True
  then show ?thesis using assms(1) by (auto simp: vec_extend_from_range_def vec_ok_def split: option.splits)
next
  case False
  then have ok: "range_struct_ok r" using assms(3-5) by (simp add: range_struct_ok_def)
  obtain xs where xs: "vec_items v = Some xs" "length xs < 2 ^ 64" using assms(1,2) by (auto simp: vec_ok_def split: option.splits)
  have same: "\<forall>x \<in> set (range_values r). type_holds sg TYPE('b) x \<longrightarrow> elem_back sg (word_of_int x :: 'b word) = x"
    using elem_same [OF ok] by blast
  show ?thesis
  proof (cases "unat (vec_length v) + length (range_values r) \<le> unat (vec_cap v)")
    case True
    have "unat (vec_length v) + length (range_values r) < 2 ^ 64" using True usize_bound [of "vec_cap v"] by linarith
    moreover note vec_extend_room [OF assms(1) xs ok True, of sg builtin u w]
    ultimately show ?thesis using False True same by (auto simp: list_all_iff)
  next
    case full: False
    then show ?thesis using vec_extend_no_room [OF xs(1) ok, of sg builtin u w] False assms(1) same by auto
  qed
qed

theorem vec_extend_from_range_correct_witness:
  "\<exists>v'. vec_extend_from_range False True 0 0 (Some \<lparr>vec_items = Some [7 :: 8 word, 0, 0, 0], vec_length = 1, vec_cap = 4\<rparr>)
      \<lparr>rg_current = 250, rg_end = 256, rg_step = 4\<rparr> = ret (Ok True, Some v') \<and> vec_list v' = [7, 250, 254]"
proof -
  let ?v = "\<lparr>vec_items = Some [7 :: 8 word, 0, 0, 0], vec_length = 1, vec_cap = 4\<rparr>"
  let ?r = "\<lparr>rg_current = 250, rg_end = 256, rg_step = 4\<rparr>"
  have vals: "range_values ?r = [250, 254]"
    by (simp add: range_values_def rng_list_def rng_count_def rng_span_def upt_rec)
  have "vec_ok ?v" "vec_list ?v = [7]" by (simp_all add: vec_ok_def vec_list_def)
  moreover have "isize_ok 250" "isize_ok 256" "isize_ok 4" "(4 :: int) \<noteq> canon_isize_min" by (simp_all add: isize_defs)
  ultimately show ?thesis
    using vec_extend_from_range_correct [of ?v ?r False True 0 0] by (auto simp: vals type_holds_def)
qed

subsection \<open>The keys and the values of a hash map\<close>

text \<open>
  \<open>field\<close> is the part of the slot that is collected; the pointers that \<open>iter_next\<close> gives are slot indices, and \<open>uk\<close>
  and \<open>uv\<close> the contents of the two pointer variables before. The loop visits a slot once, so that the capacity and one
  more rounds are enough.
\<close>

fun hm_collect_loop ::
  "(('k, 'v) slot \<Rightarrow> 'a) \<Rightarrow> nat \<Rightarrow> ('k, 'v) hashmap cptr \<Rightarrow> ('k, 'v) slot list \<Rightarrow> usize cptr \<Rightarrow> usize cptr \<Rightarrow> usize cptr \<Rightarrow>
   'a vec cptr \<Rightarrow> (bool_result \<times> 'a vec cptr) run" where
  "hm_collect_loop field 0 p slots iter k v out = undefined_behaviour ''out of fuel''"
| "hm_collect_loop field (Suc n) p slots iter k v out = bindR (hm_iter_next p iter k v) (\<lambda>(more_slots, iter', k', v').
     if \<not> more_slots then ret (Ok True, out)
     else bindR (deref k') (\<lambda>j. bindR (arr_get slots j) (\<lambda>s. bindR (vec_push out (field s)) (\<lambda>(push_res, out').
       if result_is_err push_res then ret (Err ERR_CAPACITY_EXCEEDED, out')
       else hm_collect_loop field n p slots iter' k' v' out'))))"

definition hm_collect ::
  "char list \<Rightarrow> (('k, 'v) slot \<Rightarrow> 'a) \<Rightarrow> usize \<Rightarrow> usize \<Rightarrow> ('k, 'v) hashmap cptr \<Rightarrow> 'a vec cptr \<Rightarrow> (bool_result \<times> 'a vec cptr) run" where
  "hm_collect msg field uk uv p out = (case p of
     None \<Rightarrow> ret (Err ERR_INVALID_ARG, out)
   | Some m \<Rightarrow>
       if out = None then ret (Err ERR_INVALID_ARG, out)
       else (case hm_slots m of
         None \<Rightarrow> violation msg
       | Some slots \<Rightarrow> hm_collect_loop field (Suc (unat (hm_cap m))) p slots (Some 0) (Some uk) (Some uv) out))"

definition hm_collect_keys :: "usize \<Rightarrow> usize \<Rightarrow> ('k, 'v) hashmap cptr \<Rightarrow> 'k vec cptr \<Rightarrow> (bool_result \<times> 'k vec cptr) run" where
  "hm_collect_keys = hm_collect ''hashmap_collect_keys: map is uninitialized'' slot_key"

definition hm_collect_values :: "usize \<Rightarrow> usize \<Rightarrow> ('k, 'v) hashmap cptr \<Rightarrow> 'v vec cptr \<Rightarrow> (bool_result \<times> 'v vec cptr) run" where
  "hm_collect_values = hm_collect ''hashmap_collect_values: map is uninitialized'' slot_val"

text \<open>The occupied slots in their order.\<close>

definition hm_entries :: "('k, 'v) hashmap \<Rightarrow> ('k, 'v) slot list" where
  "hm_entries m = (case hm_slots m of None \<Rightarrow> [] | Some ss \<Rightarrow> filter slot_occupied (take (unat (hm_cap m)) ss))"

lemma filter_first:
  assumes "i \<le> j" "j < n" "n \<le> length ss" "P (ss ! j)" "\<forall>e. i \<le> e \<and> e < j \<longrightarrow> \<not> P (ss ! e)"
  shows "filter P (drop i (take n ss)) = ss ! j # filter P (drop (Suc j) (take n ss))"
proof -
  have "drop i (take n ss) = take (j - i) (drop i (take n ss)) @ drop j (take n ss)"
    using assms(1) by (metis append_take_drop_id drop_drop le_add_diff_inverse2)
  from arg_cong [OF this, of "filter P"]
  have "filter P (drop i (take n ss)) = filter P (take (j - i) (drop i (take n ss))) @ filter P (drop j (take n ss))"
    unfolding filter_append .
  moreover have "drop j (take n ss) = ss ! j # drop (Suc j) (take n ss)" using assms(2,3) by (simp add: Cons_nth_drop_Suc [symmetric])
  moreover have "filter P (take (j - i) (drop i (take n ss))) = []"
    using assms by (auto simp: filter_empty_conv in_set_conv_nth)
  ultimately show ?thesis using assms(4) by simp
qed

text \<open>A call of \<open>iter_next\<close> takes the first of the occupied slots from the position on.\<close>

lemma hm_iter_cases:
  assumes "hm_ok hash eq (Some m)" "hm_slots m = Some ss" "i \<le> hm_cap m"
  obtains (finished) "filter slot_occupied (drop (unat i) (take (unat (hm_cap m)) ss)) = []"
      "hm_iter_next (Some m) (Some i) (Some k) (Some v) = ret (False, Some (hm_cap m), Some k, Some v)"
    | (slot) j where "hm_iter_next (Some m) (Some i) (Some k) (Some v) = ret (True, Some (j + 1), Some j, Some j)"
      "filter slot_occupied (drop (unat i) (take (unat (hm_cap m)) ss)) =
        ss ! unat j # filter slot_occupied (drop (unat (j + 1)) (take (unat (hm_cap m)) ss))"
      "arr_get ss j = ret (ss ! unat j)" "j + 1 \<le> hm_cap m" "unat i < unat (j + 1)"
proof -
  let ?C = "unat (hm_cap m)"
  have len: "?C \<le> length ss" using assms(1,2) by (simp add: hm_ok_def robin_hood_def)
  note nxt = hm_iter_next_correct [OF assms, of k v]
  show ?thesis
  proof (cases "\<exists>j. unat i \<le> j \<and> j < ?C \<and> slot_occupied (ss ! j)")
    case False
    have "filter slot_occupied (drop (unat i) (take ?C ss)) = []"
      unfolding filter_empty_conv
    proof
      fix s assume "s \<in> set (drop (unat i) (take ?C ss))"
      then obtain e where "e < ?C - unat i" "s = ss ! (unat i + e)" using len by (auto simp: in_set_conv_nth)
      then have "unat i \<le> unat i + e" "unat i + e < ?C" by simp_all
      with False \<open>s = ss ! (unat i + e)\<close> show "\<not> slot_occupied s" by blast
    qed
    with nxt [unfolded if_not_P [OF False]] finished show ?thesis by blast
  next
    case True
    from nxt [unfolded if_P [OF True]] obtain j where
      j: "hm_iter_next (Some m) (Some i) (Some k) (Some v) = ret (True, Some (j + 1), Some j, Some j)"
        "unat i \<le> unat j" "unat j < ?C" "slot_occupied (ss ! unat j)" "\<forall>e. unat i \<le> e \<and> e < unat j \<longrightarrow> \<not> slot_occupied (ss ! e)"
      by (elim exE conjE) (rule that; assumption)
    have j1: "unat (j + 1) = Suc (unat j)" using j(3) usize_bound [of "hm_cap m"] by (intro unat_usize_Suc) linarith
    show ?thesis
    proof (rule slot [OF j(1)])
      show "filter slot_occupied (drop (unat i) (take ?C ss)) = ss ! unat j # filter slot_occupied (drop (unat (j + 1)) (take ?C ss))"
        unfolding j1 by (rule filter_first [OF j(2,3) len, of slot_occupied, OF j(4,5)])
      show "arr_get ss j = ret (ss ! unat j)" using j(3) len by simp
      show "j + 1 \<le> hm_cap m" "unat i < unat (j + 1)" using j1 j(2,3) by (simp_all add: word_le_nat_alt)
    qed
  qed
qed

lemma hm_collect_loop_value:
  assumes "hm_ok hash eq (Some m)" "hm_slots m = Some ss" "vec_inv out" "i \<le> hm_cap m" "unat (hm_cap m) - unat i < n"
  shows "\<exists>out'. hm_collect_loop field n (Some m) ss (Some i) (Some k) (Some v) out = ret
      (if length (filter slot_occupied (drop (unat i) (take (unat (hm_cap m)) ss))) + length (vec_contents out) \<le> vec_room out
       then Ok True else Err ERR_CAPACITY_EXCEEDED, out') \<and> vec_inv out' \<and> vec_room out' = vec_room out \<and>
    vec_contents out' = take (vec_room out)
      (vec_contents out @ map field (filter slot_occupied (drop (unat i) (take (unat (hm_cap m)) ss))))"
  using assms(3-5)
proof (induction n arbitrary: out i k v)
  case 0
  then show ?case by simp
next
  case (Suc n)
  have room: "length (vec_contents out) \<le> vec_room out" using Suc.prems(1) by (elim vec_invE) auto
  show ?case
  proof (rule hm_iter_cases [OF assms(1,2) Suc.prems(2), of k v])
    assume "filter slot_occupied (drop (unat i) (take (unat (hm_cap m)) ss)) = []"
      "hm_iter_next (Some m) (Some i) (Some k) (Some v) = ret (False, Some (hm_cap m), Some k, Some v)"
    with Suc.prems(1) room show ?thesis by simp
  next
    fix j
    assume j: "hm_iter_next (Some m) (Some i) (Some k) (Some v) = ret (True, Some (j + 1), Some j, Some j)"
      "filter slot_occupied (drop (unat i) (take (unat (hm_cap m)) ss)) =
        ss ! unat j # filter slot_occupied (drop (unat (j + 1)) (take (unat (hm_cap m)) ss))"
      "arr_get ss j = ret (ss ! unat j)" "j + 1 \<le> hm_cap m" "unat i < unat (j + 1)"
    show ?thesis
    proof (cases "length (vec_contents out) < vec_room out")
      case False
      then show ?thesis using vec_push_full [OF Suc.prems(1)] j(1-3) room Suc.prems(1) by (simp add: result_is_err_def)
    next
      case space: True
      from vec_push_room [OF Suc.prems(1) this, of "field (ss ! unat j)"] obtain out1 where
        o: "vec_push out (field (ss ! unat j)) = ret (Ok True, out1)" "vec_inv out1" "vec_room out1 = vec_room out"
          "vec_contents out1 = vec_contents out @ [field (ss ! unat j)]" by blast
      have "unat (hm_cap m) - unat (j + 1) < n" using j(4,5) Suc.prems(3) by (simp add: word_le_nat_alt)
      from Suc.IH [OF o(2) j(4) this, of j j] j(1-3) o show ?thesis by (simp add: result_is_err_def)
    qed
  qed
qed

lemma hm_collect_value:
  assumes "hm_ok hash eq (Some m)" "vec_inv out"
  shows "\<exists>out'. hm_collect msg field uk uv (Some m) out = ret
      (if length (hm_entries m) + length (vec_contents out) \<le> vec_room out then Ok True else Err ERR_CAPACITY_EXCEEDED, out') \<and>
    vec_inv out' \<and> vec_room out' = vec_room out \<and>
    vec_contents out' = take (vec_room out) (vec_contents out @ map field (hm_entries m))"
proof -
  obtain ss where ss: "hm_slots m = Some ss" using assms(1) by (auto simp: hm_ok_def split: option.splits)
  have "out \<noteq> None" using assms(2) by (cases out) (simp_all add: vec_inv_def)
  then show ?thesis
    using hm_collect_loop_value [OF assms(1) ss assms(2), of 0 "Suc (unat (hm_cap m))" field uk uv] ss
    by (simp add: hm_collect_def hm_entries_def del: hm_collect_loop.simps)
qed

lemma sorted_wrt_filter_cond: "sorted_wrt (\<lambda>a b. P a \<longrightarrow> P b \<longrightarrow> Q a b) xs \<Longrightarrow> sorted_wrt Q (filter P xs)"
  by (induction xs) auto

lemma hm_entries_value:
  assumes "hash_keys hash eq" "hm_ok hash eq (Some m)"
  shows "length (hm_entries m) = hm_count (Some m)"
    "hm_value eq (Some m) k = Some v \<longleftrightarrow> (\<exists>s \<in> set (hm_entries m). eq (slot_key s) k \<and> slot_val s = v)"
    "sorted_wrt (\<lambda>s t. \<not> eq (slot_key s) (slot_key t)) (hm_entries m)"
proof -
  obtain ss where ss: "hm_slots m = Some ss" using assms(2) by (auto simp: hm_ok_def split: option.splits)
  let ?C = "unat (hm_cap m)"
  have rh: "robin_hood hash eq ?C ss" "card (occupied ?C ss) = unat (hm_length m)" using assms(2) ss by (simp_all add: hm_ok_def)
  have C: "?C \<le> length ss" using rh(1) by (simp add: robin_hood_def)
  have "length (hm_entries m) = card {i. i < length (take ?C ss) \<and> slot_occupied (take ?C ss ! i)}"
    using ss by (simp add: hm_entries_def length_filter_conv_card)
  also have "{i. i < length (take ?C ss) \<and> slot_occupied (take ?C ss ! i)} = occupied ?C ss" using C by (auto simp: occupied_def)
  finally show "length (hm_entries m) = hm_count (Some m)" using rh(2) by (simp add: hm_count_def)
  show "hm_value eq (Some m) k = Some v \<longleftrightarrow> (\<exists>s \<in> set (hm_entries m). eq (slot_key s) k \<and> slot_val s = v)"
    using hash_keys.hm_value_entry(1) [OF assms(1) refl ss rh(1), of k v] C ss
    by (fastforce simp: hm_entry_def has_key_at_def hm_entries_def in_set_conv_nth)
  have "sorted_wrt (\<lambda>s t. slot_occupied s \<longrightarrow> slot_occupied t \<longrightarrow> \<not> eq (slot_key s) (slot_key t)) (take ?C ss)"
    unfolding sorted_wrt_iff_nth_less
  proof (intro allI impI)
    fix i j assume "i < j" "j < length (take ?C ss)" "slot_occupied (take ?C ss ! i)" "slot_occupied (take ?C ss ! j)"
    then have ij: "i < ?C" "j < ?C" "i \<noteq> j" "slot_occupied (ss ! i)" "slot_occupied (ss ! j)" by simp_all
    then have "\<not> eq (slot_key (ss ! i)) (slot_key (ss ! j))" using rh(1) unfolding robin_hood_def keys_differ_def by blast
    then show "\<not> eq (slot_key (take ?C ss ! i)) (slot_key (take ?C ss ! j))" using ij by simp
  qed
  then show "sorted_wrt (\<lambda>s t. \<not> eq (slot_key s) (slot_key t)) (hm_entries m)"
    using ss by (simp add: hm_entries_def sorted_wrt_filter_cond)
qed

text \<open>C25: Collecting the keys of a hash map into one vector and its values into another: when both have room for the entries,
the vectors get the entries of the dictionary behind what they hold, key and value at the same place, every key once and
no other; a vector without room gets as many as it can take and the result is an error.\<close>

theorem hm_collect_correct:
  assumes "hash_keys hash eq" "hm_ok hash eq (Some m)" "vec_inv ko" "vec_inv vo"
  shows "\<exists>ks vs ko' vo'. length ks = hm_count (Some m) \<and> length vs = hm_count (Some m) \<and>
    sorted_wrt (\<lambda>a b. \<not> eq a b) ks \<and> (\<forall>k v. hm_value eq (Some m) k = Some v \<longleftrightarrow> (\<exists>i < length ks. eq (ks ! i) k \<and> vs ! i = v)) \<and>
    hm_collect_keys u1 u2 (Some m) ko = ret
      (if length ks + length (vec_contents ko) \<le> vec_room ko then Ok True else Err ERR_CAPACITY_EXCEEDED, ko') \<and>
    vec_inv ko' \<and> vec_contents ko' = take (vec_room ko) (vec_contents ko @ ks) \<and>
    hm_collect_values u3 u4 (Some m) vo = ret
      (if length vs + length (vec_contents vo) \<le> vec_room vo then Ok True else Err ERR_CAPACITY_EXCEEDED, vo') \<and>
    vec_inv vo' \<and> vec_contents vo' = take (vec_room vo) (vec_contents vo @ vs)"
proof -
  let ?es = "hm_entries m"
  note e = hm_entries_value [OF assms(1,2)]
  obtain ko' where k: "hm_collect_keys u1 u2 (Some m) ko = ret
      (if length ?es + length (vec_contents ko) \<le> vec_room ko then Ok True else Err ERR_CAPACITY_EXCEEDED, ko')"
      "vec_inv ko'" "vec_contents ko' = take (vec_room ko) (vec_contents ko @ map slot_key ?es)"
    using hm_collect_value [OF assms(2,3), of "''hashmap_collect_keys: map is uninitialized''" slot_key u1 u2]
    unfolding hm_collect_keys_def [symmetric] by (elim exE conjE) (rule that; assumption)
  obtain vo' where v: "hm_collect_values u3 u4 (Some m) vo = ret
      (if length ?es + length (vec_contents vo) \<le> vec_room vo then Ok True else Err ERR_CAPACITY_EXCEEDED, vo')"
      "vec_inv vo'" "vec_contents vo' = take (vec_room vo) (vec_contents vo @ map slot_val ?es)"
    using hm_collect_value [OF assms(2,4), of "''hashmap_collect_values: map is uninitialized''" slot_val u3 u4]
    unfolding hm_collect_values_def [symmetric] by (elim exE conjE) (rule that; assumption)
  have "sorted_wrt (\<lambda>a b. \<not> eq a b) (map slot_key ?es)" using e(3) by (simp add: sorted_wrt_map)
  moreover have "hm_value eq (Some m) k = Some w \<longleftrightarrow> (\<exists>i < length ?es. eq (map slot_key ?es ! i) k \<and> map slot_val ?es ! i = w)" for k w
    unfolding e(2) by (metis in_set_conv_nth nth_map)
  ultimately show ?thesis using k v e(1)
    by (intro exI [of _ "map slot_key ?es"] exI [of _ "map slot_val ?es"] exI [of _ ko'] exI [of _ vo']) simp
qed

theorem hm_collect_correct_witness:
  "\<exists>ko'. hm_collect_keys 0 0 (Some hm_sample) (Some \<lparr>vec_items = Some [3, 0], vec_length = 1, vec_cap = 2\<rparr>) = ret (Ok True, ko') \<and>
    vec_contents ko' = [3]"
proof -
  let ?v = "Some \<lparr>vec_items = Some [3, 0], vec_length = 1, vec_cap = 2\<rparr>"
  have "vec_inv ?v" "vec_contents ?v = [3]" "vec_room ?v = 2" "hm_count (Some hm_sample) = 0"
    by (simp_all add: vec_inv_def vec_ok_def vec_contents_def vec_list_def vec_room_def vec_capacity_def hm_count_def hm_sample_def)
  with hm_collect_correct [OF u64_keys.hash_keys_axioms hm_sample_ok, of ?v "Some \<lparr>vec_items = Some [], vec_length = 0, vec_cap = 0\<rparr>" 0 0 0 0]
  show ?thesis by (auto simp: vec_inv_def vec_ok_def)
qed

end
