(* ===== verification/Canon_Fmt.thy ===== *)
theory Canon_Fmt
  imports Canon_Views Canon_StringBuf
begin

section \<open>Containers as text (data/vec/vec_fmt.h, data/hashmap/hashmap_fmt.h)\<close>

text \<open>
  The functions that append every element of a vector, or every entry of a hash map, to a string buffer, by a format
  string or by a callback. The container lies outside the byte heap of the string buffer. \<open>vsnprintf\<close> and the
  callbacks are parameters. The locale \<open>appender\<close> is their contract: an element has a text, which is appended when it
  fits and leaves the string alone when it does not; what is proved once in it is that a sequence of elements stops at
  the first one that does not fit and keeps those before.
\<close>

subsection \<open>The functions\<close>

type_synonym 'a put = "heap \<Rightarrow> stringbuf cptr \<Rightarrow> 'a \<Rightarrow> (bool \<times> heap \<times> stringbuf cptr) run"




text \<open>
  \<open>lits\<close> are the addresses of the format of the first line and of the literals of the entries and of the last line;
  \<open>head_args\<close> is what the first line is printed from: the length, the capacity and the load factor \<open>load\<close> of the two,
  which is floating point. The entry of a slot is printed in five parts. A round of the loop visits a slot.
\<close>

record fmt_lits =
  lit_head :: uptr
  lit_open :: uptr
  lit_arrow :: uptr
  lit_newline :: uptr
  lit_close :: uptr

definition put_then :: "(bool \<times> heap \<times> stringbuf cptr) run \<Rightarrow> (heap \<Rightarrow> stringbuf cptr \<Rightarrow> (bool \<times> heap \<times> stringbuf cptr) run) \<Rightarrow>
    (bool \<times> heap \<times> stringbuf cptr) run" where
  "put_then m f = bindR m (\<lambda>(ok, h, p). if \<not> ok then ret (False, h, p) else f h p)"

definition hm_fmt_entry ::
  "bool \<Rightarrow> fmt_lits \<Rightarrow> 'k put \<Rightarrow> 'v put \<Rightarrow> heap \<Rightarrow> stringbuf cptr \<Rightarrow> ('k, 'v) slot \<Rightarrow> (bool \<times> heap \<times> stringbuf cptr) run" where
  "hm_fmt_entry builtin lits key_fn val_fn h p s =
     put_then (stringbuf_append builtin h p (lit_open lits)) (\<lambda>h p.
     put_then (key_fn h p (slot_key s)) (\<lambda>h p.
     put_then (stringbuf_append builtin h p (lit_arrow lits)) (\<lambda>h p.
     put_then (val_fn h p (slot_val s)) (\<lambda>h p. stringbuf_append builtin h p (lit_newline lits)))))"

fun hm_fmt_loop ::
  "bool \<Rightarrow> fmt_lits \<Rightarrow> 'k put \<Rightarrow> 'v put \<Rightarrow> ('k, 'v) hashmap cptr \<Rightarrow> ('k, 'v) slot list \<Rightarrow> nat \<Rightarrow>
   usize cptr \<Rightarrow> usize cptr \<Rightarrow> usize cptr \<Rightarrow> heap \<Rightarrow> stringbuf cptr \<Rightarrow> (bool \<times> heap \<times> stringbuf cptr) run" where
  "hm_fmt_loop builtin lits key_fn val_fn m slots 0 iter k v h p = undefined_behaviour ''out of fuel''"
| "hm_fmt_loop builtin lits key_fn val_fn m slots (Suc n) iter k v h p =
     bindR (hm_iter_next m iter k v) (\<lambda>(more_slots, iter', k', v').
       if \<not> more_slots then ret (True, h, p)
       else bindR (deref k') (\<lambda>j. bindR (arr_get slots j) (\<lambda>s.
         put_then (hm_fmt_entry builtin lits key_fn val_fn h p s) (\<lambda>h p.
           hm_fmt_loop builtin lits key_fn val_fn m slots n iter' k' v' h p))))"

definition hm_to_stringbuf ::
  "bool \<Rightarrow> (usize \<times> usize \<times> 'f) vsnprintf \<Rightarrow> (usize \<Rightarrow> usize \<Rightarrow> 'f) \<Rightarrow> fmt_lits \<Rightarrow> 'k put \<Rightarrow> 'v put \<Rightarrow> usize \<Rightarrow> usize \<Rightarrow> heap \<Rightarrow>
   stringbuf cptr \<Rightarrow> ('k, 'v) hashmap cptr \<Rightarrow> (bool \<times> heap \<times> stringbuf cptr) run" where
  "hm_to_stringbuf builtin vsnprintf load lits key_fn val_fn uk uv h sbp p =
     require_msg (sbp \<noteq> None) ''hashmap_to_stringbuf: sb cannot be NULL''
     (require_msg (p \<noteq> None) ''hashmap_to_stringbuf: map cannot be NULL''
     (bindR (deref p) (\<lambda>m.
      put_then (stringbuf_append_fmt builtin vsnprintf h sbp (lit_head lits) (hm_length m, hm_cap m, load (hm_length m) (hm_cap m))) (\<lambda>h sbp.
      put_then (case hm_slots m of
          None \<Rightarrow> violation ''hashmap_iter_next: map is uninitialized''
        | Some slots \<Rightarrow> hm_fmt_loop builtin lits key_fn val_fn p slots (Suc (unat (hm_cap m))) (Some 0) (Some uk) (Some uv) h sbp) (\<lambda>h sbp.
      stringbuf_append builtin h sbp (lit_close lits))))))"

subsection \<open>Appending a sequence\<close>

fun put_list :: "'a put \<Rightarrow> 'a list \<Rightarrow> heap \<Rightarrow> stringbuf cptr \<Rightarrow> (bool \<times> heap \<times> stringbuf cptr) run" where
  "put_list put [] h p = ret (True, h, p)"
| "put_list put (x # xs) h p = put_then (put h p x) (put_list put xs)"

text \<open>On strings of at most \<open>c - 1\<close> bytes; an element without a text is refused.\<close>

fun text_list :: "nat \<Rightarrow> u8 list \<Rightarrow> u8 list option list \<Rightarrow> bool \<times> u8 list" where
  "text_list c xs [] = (True, xs)"
| "text_list c xs (t # ts) = (case t of
     None \<Rightarrow> (False, xs)
   | Some ys \<Rightarrow> if length xs + length ys < c then text_list c (xs @ ys) ts else (False, xs))"

locale appender =
  fixes put :: "'a put" and shown :: "'a \<Rightarrow> u8 list option" and env :: "heap \<Rightarrow> stringbuf \<Rightarrow> bool"
  assumes put_value: "sb_ok h sb xs \<Longrightarrow> env h sb \<Longrightarrow> \<exists>h' sb'. put h (Some sb) x =
      ret (fst (text_list (unat (sb_cap sb)) xs [shown x]), h', Some sb') \<and>
      sb_ok h' sb' (snd (text_list (unat (sb_cap sb)) xs [shown x])) \<and> sb_keeps h sb h' sb'"
    and env_keeps: "env h sb \<Longrightarrow> sb_keeps h sb h' sb' \<Longrightarrow> env h' sb'"
begin

lemma put_list_value:
  "sb_ok h sb xs \<Longrightarrow> env h sb \<Longrightarrow> \<exists>h' sb'. put_list put ys h (Some sb) =
     ret (fst (text_list (unat (sb_cap sb)) xs (map shown ys)), h', Some sb') \<and>
     sb_ok h' sb' (snd (text_list (unat (sb_cap sb)) xs (map shown ys))) \<and> sb_keeps h sb h' sb'"
proof (induction ys arbitrary: h sb xs)
  case Nil
  then show ?case by simp
next
  case (Cons y ys)
  from put_value [OF Cons.prems, of y] obtain h1 sb1 where
    p: "put h (Some sb) y = ret (fst (text_list (unat (sb_cap sb)) xs [shown y]), h1, Some sb1)"
      "sb_ok h1 sb1 (snd (text_list (unat (sb_cap sb)) xs [shown y]))" "sb_keeps h sb h1 sb1"
    by (elim exE conjE) (rule that; assumption)
  have cap: "sb_cap sb1 = sb_cap sb" using p(3) by (simp add: sb_keeps_def)
  show ?case
  proof (cases "shown y")
    case None
    with p show ?thesis by (simp add: put_then_def)
  next
    case (Some zs)
    show ?thesis
    proof (cases "length xs + length zs < unat (sb_cap sb)")
      case False
      with p Some show ?thesis by (simp add: put_then_def)
    next
      case True
      with p(2) Some have "sb_ok h1 sb1 (xs @ zs)" by simp
      from Cons.IH [OF this env_keeps [OF Cons.prems(2) p(3)]] obtain h2 sb2 where
        i: "put_list put ys h1 (Some sb1) = ret (fst (text_list (unat (sb_cap sb)) (xs @ zs) (map shown ys)), h2, Some sb2)"
          "sb_ok h2 sb2 (snd (text_list (unat (sb_cap sb)) (xs @ zs) (map shown ys)))" "sb_keeps h1 sb1 h2 sb2"
        unfolding cap by (elim exE conjE) (rule that; assumption)
      have "sb_keeps h sb h2 sb2" using p(3) i(3) by (rule sb_keeps_trans)
      with i(1,2) p(1) True Some show ?thesis by (intro exI [of _ h2] exI [of _ sb2]) (simp add: put_then_def)
    qed
  qed
qed

end

text \<open>With room for all the texts, all are appended; else as many whole texts as fit.\<close>

lemma text_list_all:
  assumes "length xs < c" "length xs + length (concat ts) < c"
  shows "text_list c xs (map Some ts) = (True, xs @ concat ts)"
  using assms by (induction ts arbitrary: xs) simp_all

lemma text_list_prefix:
  assumes "text_list c xs ts = (ok, ys)"
  shows "\<exists>k \<le> length ts. ys = xs @ concat (map the (take k ts)) \<and> None \<notin> set (take k ts) \<and> ok = (k = length ts) \<and>
    (\<not> ok \<longrightarrow> ts ! k = None \<or> c \<le> length ys + length (the (ts ! k)))"
  using assms
proof (induction ts arbitrary: xs)
  case (Cons t ts)
  show ?case
  proof (cases "t = None \<or> \<not> length xs + length (the t) < c")
    case True
    then show ?thesis using Cons.prems by (intro exI [of _ 0]) (auto split: option.splits if_splits)
  next
    case False
    then obtain zs where "t = Some zs" "length xs + length zs < c" by auto
    moreover from this Cons.prems have "text_list c (xs @ zs) ts = (ok, ys)" by simp
    from Cons.IH [OF this] obtain k where "k \<le> length ts" "ys = (xs @ zs) @ concat (map the (take k ts))" "None \<notin> set (take k ts)"
      "ok = (k = length ts)" "\<not> ok \<longrightarrow> ts ! k = None \<or> c \<le> length ys + length (the (ts ! k))"
      by (elim exE conjE) (rule that; assumption)
    ultimately show ?thesis by (intro exI [of _ "Suc k"]) simp
  qed
qed simp

subsection \<open>The formatted append and the callbacks as appenders\<close>

lemma sb_ok_tail:
  assumes "sb_ok h sb xs" "length xs + k < unat (sb_cap sb)"
  shows "\<exists>ys. object h (sb_data sb + sb_len sb) ys (of_nat (Suc k))"
proof -
  obtain rest where rest: "object h (sb_data sb) (xs @ 0 # rest) (sb_cap sb)" using assms(1) by (auto simp: sb_ok_def)
  then have "length (take (Suc k) (0 # rest)) = Suc k" using assms(2) by (simp add: object_def)
  moreover have "object h (sb_data sb) (xs @ take (Suc k) (0 # rest) @ drop (Suc k) (0 # rest)) (sb_cap sb)"
    using rest by (simp only: append_take_drop_id)
  ultimately have "object h (sb_data sb + of_nat (length xs)) (take (Suc k) (0 # rest)) (of_nat (Suc k))"
    using object_middle [of h "sb_data sb" xs "take (Suc k) (0 # rest)"] by (simp del: of_nat_Suc take_Suc_Cons)
  then show ?thesis using sb_len_nat [OF assms(1)] by auto
qed

text \<open>
  A \<open>vsnprintf\<close> that keeps the promises of the C standard and prints an argument by the format \<open>fmt\<close> as its text: the
  measuring call returns its length and the writing call writes it; an argument without a text makes the measuring
  call fail.
\<close>

locale printer =
  fixes v :: "'a vsnprintf" and fmt :: uptr and shown :: "'a \<Rightarrow> u8 list option"
  assumes promises: "vsnprintf_ok v" and fmt_given: "fmt \<noteq> 0"
    and fails: "shown x = None \<Longrightarrow> \<exists>r h0. v h 0 0 fmt x = ret (r, h0) \<and> r < 0"
    and measures: "shown x = Some ys \<Longrightarrow> \<exists>h0. v h 0 0 fmt x = ret (int (length ys), h0)"
    and writes: "shown x = Some ys \<Longrightarrow> object h s zs n \<Longrightarrow> unat n = Suc (length ys) \<Longrightarrow>
      \<exists>h1. v h s n fmt x = ret (int (length ys), h1) \<and> region h1 s (ys @ [0])"
begin

lemma append_fmt_value:
  assumes "sb_ok h sb xs"
  shows "\<exists>h' sb'. stringbuf_append_fmt builtin v h (Some sb) fmt x =
      ret (fst (text_list (unat (sb_cap sb)) xs [shown x]), h', Some sb') \<and>
      sb_ok h' sb' (snd (text_list (unat (sb_cap sb)) xs [shown x])) \<and> sb_keeps h sb h' sb'"
proof -
  have va: "stringbuf_append_fmt builtin v h (Some sb) fmt x = stringbuf_append_fmt_va builtin v h (Some sb) fmt x"
    using fmt_given sb_ok_bounds [OF assms] by (simp add: stringbuf_append_fmt_def null_ptr_def)
  note measure = stringbuf_append_fmt_va_measure [OF promises assms fmt_given, of x _ _ builtin]
  show ?thesis
  proof (cases "shown x")
    case None
    from fails [OF this] obtain r h0 where "v h 0 0 fmt x = ret (r, h0)" "r < 0" by blast
    with measure(1) va None assms show ?thesis by (intro exI [of _ h] exI [of _ sb]) simp
  next
    case (Some ys)
    from measures [OF this] obtain h0 where m: "v h 0 0 fmt x = ret (int (length ys), h0)" by blast
    show ?thesis
    proof (cases "length xs + length ys < unat (sb_cap sb)")
      case False
      with measure(1) [OF m] va Some assms show ?thesis by (intro exI [of _ h] exI [of _ sb]) simp
    next
      case True
      obtain zs where o: "object h (sb_data sb + sb_len sb) zs (of_nat (Suc (length ys)))"
        using sb_ok_tail [OF assms True] by blast
      have n: "unat (of_nat (Suc (length ys)) :: usize) = Suc (length ys)"
        using True usize_bound [of "sb_cap sb"] by (intro unat_of_small) linarith
      from writes [OF Some o n] obtain h1 where
        w: "v h (sb_data sb + sb_len sb) (of_nat (Suc (length ys))) fmt x = ret (int (length ys), h1)"
          "region h1 (sb_data sb + sb_len sb) (ys @ [0])" by blast
      note wrote = stringbuf_append_fmt_va_write(1) [OF promises assms fmt_given m, simplified nat_int, OF _ True w(1) refl, of builtin]
      from wrote obtain out h' sb' where
        r: "stringbuf_append_fmt_va builtin v h (Some sb) fmt x = ret (True, h', Some sb')" "length out = length ys"
          "sb_ok h' sb' (xs @ out)" "sb_keeps h sb h' sb'" by auto
      have "h' = h1" using measure(2) [OF m, simplified nat_int, OF _ True] w(1) r(1) by (simp split: if_splits)
      moreover have "region h' (sb_data sb + sb_len sb) out"
        using r(3,4) sb_len_nat [OF assms] by (auto simp: sb_ok_def sb_keeps_def object_def region_append)
      ultimately have "out = ys" using w(2) r(2) region_unique [of h1 "sb_data sb + sb_len sb" out ys] by (simp add: region_append)
      with r True Some va show ?thesis by (intro exI [of _ h'] exI [of _ sb']) simp
    qed
  qed
qed

lemma append_fmt_appender: "appender (\<lambda>h p x. stringbuf_append_fmt builtin v h p fmt x) shown (\<lambda>h sb. True)"
  by unfold_locales (use append_fmt_value in simp_all)

end

sublocale printer \<subseteq> fmt_append: appender "\<lambda>h p x. stringbuf_append_fmt builtin v h p fmt x" shown "\<lambda>h sb. True" for builtin
  by (rule append_fmt_appender)

lemma append_char_appender: "appender (stringbuf_append_char builtin) (\<lambda>c. Some [c]) (\<lambda>h sb. True)"
proof unfold_locales
  fix h sb xs and c :: u8 assume ok: "sb_ok h sb xs"
  show "\<exists>h' sb'. stringbuf_append_char builtin h (Some sb) c = ret (fst (text_list (unat (sb_cap sb)) xs [Some [c]]), h', Some sb') \<and>
      sb_ok h' sb' (snd (text_list (unat (sb_cap sb)) xs [Some [c]])) \<and> sb_keeps h sb h' sb'"
    using stringbuf_append_char_value [OF ok, of builtin c] ok
    by (cases "length xs + 1 < unat (sb_cap sb)") auto
qed simp

interpretation append_char: appender "stringbuf_append_char True" "\<lambda>c. Some [c]" "\<lambda>h sb. True"
  by (rule append_char_appender)



subsection \<open>Vectors\<close>



text \<open>What a sequence of elements leaves of a string buffer that held \<open>xs\<close>: the texts of a longest prefix that fits.\<close>

definition texts_appended :: "('a \<Rightarrow> u8 list option) \<Rightarrow> nat \<Rightarrow> u8 list \<Rightarrow> 'a list \<Rightarrow> bool \<Rightarrow> u8 list \<Rightarrow> bool" where
  "texts_appended shown c xs items ok ys \<longleftrightarrow> (\<exists>k \<le> length items. ys = xs @ concat (map (the \<circ> shown) (take k items)) \<and>
     (\<forall>x \<in> set (take k items). shown x \<noteq> None) \<and> ok = (k = length items) \<and>
     (\<not> ok \<longrightarrow> shown (items ! k) = None \<or> c \<le> length ys + length (the (shown (items ! k)))))"

lemma text_list_appended: "texts_appended shown c xs items (fst (text_list c xs (map shown items))) (snd (text_list c xs (map shown items)))"
proof -
  obtain ok ys where r: "text_list c xs (map shown items) = (ok, ys)" by (cases "text_list c xs (map shown items)")
  from text_list_prefix [OF r] obtain k where k: "k \<le> length items" "ys = xs @ concat (map the (take k (map shown items)))"
    "None \<notin> set (take k (map shown items))" "ok = (k = length items)"
    "\<not> ok \<longrightarrow> map shown items ! k = None \<or> c \<le> length ys + length (the (map shown items ! k))" by auto
  have "\<forall>x \<in> set (take k items). shown x \<noteq> None" using k(3) by (force simp: take_map)
  moreover have "\<not> ok \<longrightarrow> shown (items ! k) = None \<or> c \<le> length ys + length (the (shown (items ! k)))"
    using k(1,4,5) by auto
  ultimately show ?thesis using k(1,2,4) unfolding r texts_appended_def
    by (intro exI [of _ k]) (simp add: take_map)
qed





subsection \<open>Hash maps\<close>

text \<open>What \<open>hashmap_to_stringbuf\<close> appends, part by part, and the text of each part.\<close>

datatype fmt_lit = L_open | L_arrow | L_newline | L_close

fun lit_addr :: "fmt_lits \<Rightarrow> fmt_lit \<Rightarrow> uptr" where
  "lit_addr lits L_open = lit_open lits"
| "lit_addr lits L_arrow = lit_arrow lits"
| "lit_addr lits L_newline = lit_newline lits"
| "lit_addr lits L_close = lit_close lits"

text \<open>\<open>"  ["\<close>, \<open>"] => "\<close>, a newline, and \<open>"}\<close> with a newline.\<close>

fun lit_text :: "fmt_lit \<Rightarrow> u8 list" where
  "lit_text L_open = [32, 32, 91]"
| "lit_text L_arrow = [93, 32, 61, 62, 32]"
| "lit_text L_newline = [10]"
| "lit_text L_close = [125, 10]"

datatype ('k, 'v, 'f) hm_part = Part_head "usize \<times> usize \<times> 'f" | Part_lit fmt_lit | Part_key 'k | Part_val 'v

fun put_part :: "bool \<Rightarrow> (usize \<times> usize \<times> 'f) vsnprintf \<Rightarrow> fmt_lits \<Rightarrow> 'k put \<Rightarrow> 'v put \<Rightarrow> ('k, 'v, 'f) hm_part put" where
  "put_part builtin vsn lits key_fn val_fn h p (Part_head args) = stringbuf_append_fmt builtin vsn h p (lit_head lits) args"
| "put_part builtin vsn lits key_fn val_fn h p (Part_lit s) = stringbuf_append builtin h p (lit_addr lits s)"
| "put_part builtin vsn lits key_fn val_fn h p (Part_key k) = key_fn h p k"
| "put_part builtin vsn lits key_fn val_fn h p (Part_val v) = val_fn h p v"

definition entry_parts :: "('k, 'v) slot \<Rightarrow> ('k, 'v, 'f) hm_part list" where
  "entry_parts s = [Part_lit L_open, Part_key (slot_key s), Part_lit L_arrow, Part_val (slot_val s), Part_lit L_newline]"

definition hm_parts :: "(usize \<Rightarrow> usize \<Rightarrow> 'f) \<Rightarrow> ('k, 'v) hashmap \<Rightarrow> ('k, 'v, 'f) hm_part list" where
  "hm_parts load m = Part_head (hm_length m, hm_cap m, load (hm_length m) (hm_cap m)) #
     concat (map (entry_parts) (hm_entries m)) @ [Part_lit L_close]"

lemma put_then_simps [simp]:
  "put_then (ret (ok, h, p)) f = (if ok then f h p else ret (False, h, p))"
  "put_then (put_then m f) g = put_then m (\<lambda>h p. put_then (f h p) g)"
  "put_then m (\<lambda>h p. ret (True, h, p)) = m"
proof -
  show "put_then (ret (ok, h, p)) f = (if ok then f h p else ret (False, h, p))" by (simp add: put_then_def)
  show "put_then (put_then m f) g = put_then m (\<lambda>h p. put_then (f h p) g)"
    unfolding put_then_def bindR_assoc by (intro bindR_cong refl) (auto split: prod.split)
  have "(\<lambda>(ok, h :: heap, p :: stringbuf cptr). if \<not> ok then ret (False, h, p) else ret (True, h, p)) = ret" by (auto simp: fun_eq_iff)
  then show "put_then m (\<lambda>h p. ret (True, h, p)) = m" unfolding put_then_def by (cases m) simp_all
qed

lemma put_list_fun:
  "put_list put [] = (\<lambda>h p. ret (True, h, p))" "put_list put (x # xs) = (\<lambda>h p. put_then (put h p x) (put_list put xs))"
  by (intro ext; simp)+

lemma put_list_append: "put_list put (xs @ ys) h p = put_then (put_list put xs h p) (put_list put ys)"
proof (induction xs arbitrary: h p)
  case (Cons x xs)
  have "(\<lambda>h p. put_list put (xs @ ys) h p) = (\<lambda>h p. put_then (put_list put xs h p) (put_list put ys))"
    by (intro ext Cons.IH)
  then show ?case by simp
qed simp

lemma put_list_append_fun: "put_list put (xs @ ys) = (\<lambda>h p. put_then (put_list put xs h p) (put_list put ys))"
  by (intro ext) (rule put_list_append)

lemma hm_fmt_entry_parts:
  "hm_fmt_entry builtin lits key_fn val_fn h p s = put_list (put_part builtin vsn lits key_fn val_fn) (entry_parts s) h p"
  by (simp add: hm_fmt_entry_def entry_parts_def put_list_fun)

lemma hm_fmt_loop_parts:
  assumes "hm_ok hash eq (Some m)" "hm_slots m = Some ss"
  shows "i \<le> hm_cap m \<Longrightarrow> unat (hm_cap m) - unat i < n \<Longrightarrow>
    hm_fmt_loop builtin lits key_fn val_fn (Some m) ss n (Some i) (Some k) (Some v) h p =
    put_list (put_part builtin vsn lits key_fn val_fn)
      (concat (map (entry_parts) (filter slot_occupied (drop (unat i) (take (unat (hm_cap m)) ss))))) h p"
proof (induction n arbitrary: i k v h p)
  case (Suc n)
  show ?case
  proof (rule hm_iter_cases [OF assms Suc.prems(1), of k v])
    assume "filter slot_occupied (drop (unat i) (take (unat (hm_cap m)) ss)) = []"
      "hm_iter_next (Some m) (Some i) (Some k) (Some v) = ret (False, Some (hm_cap m), Some k, Some v)"
    then show ?thesis by simp
  next
    fix j
    assume j: "hm_iter_next (Some m) (Some i) (Some k) (Some v) = ret (True, Some (j + 1), Some j, Some j)"
      "filter slot_occupied (drop (unat i) (take (unat (hm_cap m)) ss)) =
        ss ! unat j # filter slot_occupied (drop (unat (j + 1)) (take (unat (hm_cap m)) ss))"
      "arr_get ss j = ret (ss ! unat j)" "j + 1 \<le> hm_cap m" "unat i < unat (j + 1)"
    have "unat (hm_cap m) - unat (j + 1) < n" using j(4,5) Suc.prems(2) by (simp add: word_le_nat_alt)
    then have IH: "hm_fmt_loop builtin lits key_fn val_fn (Some m) ss n (Some (j + 1)) (Some j) (Some j) =
        put_list (put_part builtin vsn lits key_fn val_fn)
          (concat (map (entry_parts) (filter slot_occupied (drop (unat (j + 1)) (take (unat (hm_cap m)) ss)))))"
      by (intro ext Suc.IH [OF j(4)])
    show ?thesis using j(1-3)
      by (simp add: put_list_append IH hm_fmt_entry_parts [where vsn = vsn])
  qed
qed simp

lemma hm_to_stringbuf_parts:
  assumes "hm_ok hash eq (Some m)"
  shows "hm_to_stringbuf builtin vsn load lits key_fn val_fn uk uv h (Some sb) (Some m) =
    put_list (put_part builtin vsn lits key_fn val_fn) (hm_parts load m) h (Some sb)"
proof -
  obtain ss where ss: "hm_slots m = Some ss" using assms by (auto simp: hm_ok_def split: option.splits)
  have "hm_fmt_loop builtin lits key_fn val_fn (Some m) ss (Suc (unat (hm_cap m))) (Some 0) (Some uk) (Some uv) h p =
      put_list (put_part builtin vsn lits key_fn val_fn) (concat (map (entry_parts) (hm_entries m))) h p" for h p
    using hm_fmt_loop_parts [OF assms ss, of 0 "Suc (unat (hm_cap m))"] ss by (simp add: hm_entries_def del: hm_fmt_loop.simps)
  then show ?thesis using ss
    by (simp add: hm_to_stringbuf_def hm_parts_def put_list_append_fun put_list_fun del: hm_fmt_loop.simps)
qed

fun part_text ::
  "(usize \<times> usize \<times> 'f \<Rightarrow> u8 list option) \<Rightarrow> ('k \<Rightarrow> u8 list option) \<Rightarrow> ('v \<Rightarrow> u8 list option) \<Rightarrow> ('k, 'v, 'f) hm_part \<Rightarrow> u8 list option" where
  "part_text head_text key_text val_text (Part_head args) = head_text args"
| "part_text head_text key_text val_text (Part_lit s) = Some (lit_text s)"
| "part_text head_text key_text val_text (Part_key k) = key_text k"
| "part_text head_text key_text val_text (Part_val v) = val_text v"

definition lits_at :: "fmt_lits \<Rightarrow> heap \<Rightarrow> stringbuf \<Rightarrow> bool" where
  "lits_at lits h sb \<longleftrightarrow> (\<forall>l. reads_at h (sb_span sb) (lit_addr lits l) (lit_text l @ [0]))"

lemma put_part_appender:
  assumes "printer vsn (lit_head lits) head_text"
    "appender key_fn key_text (\<lambda>h sb. True)" "appender val_fn val_text (\<lambda>h sb. True)"
  shows "appender (put_part builtin vsn lits key_fn val_fn) (part_text head_text key_text val_text) (lits_at lits)"
proof unfold_locales
  fix h sb xs and x :: "('b, 'c, 'a) hm_part" assume ok: "sb_ok h sb xs" "lits_at lits h sb"
  show "\<exists>h' sb'. put_part builtin vsn lits key_fn val_fn h (Some sb) x =
      ret (fst (text_list (unat (sb_cap sb)) xs [part_text head_text key_text val_text x]), h', Some sb') \<and>
      sb_ok h' sb' (snd (text_list (unat (sb_cap sb)) xs [part_text head_text key_text val_text x])) \<and> sb_keeps h sb h' sb'"
  proof (cases x)
    case (Part_head args)
    then show ?thesis using printer.append_fmt_value [OF assms(1) ok(1), of builtin args] by simp
  next
    case (Part_lit l)
    have "reads_at h (sb_span sb) (lit_addr lits l) (lit_text l @ [0])" using ok(2) by (simp add: lits_at_def)
    then have r: "region h (lit_addr lits l) (lit_text l @ [0])" "lit_addr lits l \<noteq> 0" "fits (lit_addr lits l) (Suc (length (lit_text l)))"
      by (simp_all add: reads_at_def)
    have "0 \<notin> set (lit_text l)" by (cases l) simp_all
    from stringbuf_append_value [OF ok(1) r(1) this r(2,3), of builtin] Part_lit ok(1) show ?thesis
      by (cases "length xs + length (lit_text l) < unat (sb_cap sb)") auto
  next
    case (Part_key k)
    then show ?thesis using appender.put_value [OF assms(2) ok(1), of k] by simp
  next
    case (Part_val v)
    then show ?thesis using appender.put_value [OF assms(3) ok(1), of v] by simp
  qed
next
  fix h sb h' sb' assume "lits_at lits h sb" "sb_keeps h sb h' sb'"
  then show "lits_at lits h' sb'" unfolding lits_at_def sb_keeps_def by (auto dest: reads_at_frame)
qed

lemma hm_to_stringbuf_value:
  assumes "hm_ok hash eq (Some m)" "printer vsn (lit_head lits) head_text"
    "appender key_fn key_text (\<lambda>h sb. True)" "appender val_fn val_text (\<lambda>h sb. True)" "sb_ok h sb xs" "lits_at lits h sb"
  shows "\<exists>ok h' sb' ys. hm_to_stringbuf builtin vsn load lits key_fn val_fn uk uv h (Some sb) (Some m) = ret (ok, h', Some sb') \<and>
    sb_ok h' sb' ys \<and> sb_keeps h sb h' sb' \<and>
    texts_appended (part_text head_text key_text val_text) (unat (sb_cap sb)) xs (hm_parts load m) ok ys"
  unfolding hm_to_stringbuf_parts [OF assms(1)]
  using appender.put_list_value [OF put_part_appender [OF assms(2-4)] assms(5,6), of builtin "hm_parts load m"]
    text_list_appended [of "part_text head_text key_text val_text" "unat (sb_cap sb)" xs "hm_parts load m"]
  by fastforce

end
