(* ===== verification/Canon_Parse.thy ===== *)
theory Canon_Parse
  imports Canon_Semantics Canon_Split "HOL-Library.Sublist"
begin

section \<open>Parsing of numbers (util/parse.h)\<close>

text \<open>
  The parsers over the byte heap, with \<open>errno\<close> as a value that is passed on. The functions of the C library
  that they call are modelled from the C standard: \<open>strtoll\<close> and \<open>strtoull\<close> with base 0 in the C locale; \<open>strtod\<close>,
  whose results are floating point, is a parameter. A value of \<open>i64\<close> is an integer. An \<open>endptr\<close> that is not NULL is the
  pointer it points to.

  The specification is the grammar of integer constants, \<open>int_literal\<close>: the lemmas show that an integer parser
  finds the longest prefix of the string that is in it, and that numbers printed in one of the three
  notations are parsed back.
\<close>

subsection \<open>strtoll and strtoull\<close>

definition erange :: int where
  "erange = 34"

text \<open>The value of a byte as a digit; 36 is not a digit in any base.\<close>

definition digit_val :: "u8 \<Rightarrow> nat" where
  "digit_val c = (if 48 \<le> c \<and> c \<le> 57 then unat c - 48
     else if 97 \<le> c \<and> c \<le> 122 then unat c - 87
     else if 65 \<le> c \<and> c \<le> 90 then unat c - 55 else 36)"

abbreviation is_digit :: "nat \<Rightarrow> u8 \<Rightarrow> bool" where
  "is_digit b c \<equiv> digit_val c < b"

definition number :: "nat \<Rightarrow> u8 list \<Rightarrow> nat" where
  "number b ds = foldl (\<lambda>n c. n * b + digit_val c) 0 ds"

text \<open>What is scanned: the magnitude and the number of bytes.\<close>

definition scan_digits :: "nat \<Rightarrow> nat \<Rightarrow> u8 list \<Rightarrow> nat \<times> nat" where
  "scan_digits b skip ds = (let xs = takeWhile (is_digit b) ds in (number b xs, skip + length xs))"

definition scan_magnitude :: "u8 list \<Rightarrow> (nat \<times> nat) option" where
  "scan_magnitude cs = (case cs of [] \<Rightarrow> None | c # ds \<Rightarrow>
     if c = 48 then
       (case ds of x # d # _ \<Rightarrow>
          if (x = 120 \<or> x = 88) \<and> is_digit 16 d then Some (scan_digits 16 2 (tl ds)) else Some (scan_digits 8 1 ds)
        | _ \<Rightarrow> Some (scan_digits 8 1 ds))
     else if is_digit 10 c then Some (scan_digits 10 0 cs)
     else None)"

definition scan_signed :: "u8 list \<Rightarrow> (bool \<times> nat \<times> nat) option" where
  "scan_signed cs = (case cs of [] \<Rightarrow> None | c # ds \<Rightarrow>
     if c = 45 \<or> c = 43 then map_option (\<lambda>(m, n). (c = 45, m, Suc n)) (scan_magnitude ds)
     else map_option (\<lambda>(m, n). (False, m, n)) (scan_magnitude cs))"

definition strto_scan :: "u8 list \<Rightarrow> (bool \<times> nat \<times> nat) option" where
  "strto_scan xs = map_option (\<lambda>(neg, m, n). (neg, m, length (takeWhile split_is_ws xs) + n)) (scan_signed (dropWhile split_is_ws xs))"

text \<open>The bytes of a C string.\<close>

fun cstr_load :: "heap \<Rightarrow> uptr \<Rightarrow> nat \<Rightarrow> u8 list run" where
  "cstr_load h p 0 = undefined_behaviour ''string without a terminator''"
| "cstr_load h p (Suc fuel) = bindR (load_byte h p) (\<lambda>c.
     if c = 0 then ret [] else bindR (cstr_load h (p + 1) fuel) (\<lambda>cs. ret (c # cs)))"

text \<open>The results are the value, the new \<open>*endptr\<close> and \<open>errno\<close>.\<close>

definition strtoll :: "heap \<Rightarrow> uptr \<Rightarrow> int \<Rightarrow> (int \<times> uptr \<times> int) run" where
  "strtoll h s errno = bindR (cstr_load h s (2 ^ 64 - unat s)) (\<lambda>xs.
     case strto_scan xs of
       None \<Rightarrow> ret (0, s, errno)
     | Some (neg, m, n) \<Rightarrow>
         let v = (if neg then - int m else int m); e = s + of_nat n in
         if v > 2 ^ 63 - 1 then ret (2 ^ 63 - 1, e, erange)
         else if v < - (2 ^ 63) then ret (- (2 ^ 63), e, erange)
         else ret (v, e, errno))"

definition strtoull :: "heap \<Rightarrow> uptr \<Rightarrow> int \<Rightarrow> (u64 \<times> uptr \<times> int) run" where
  "strtoull h s errno = bindR (cstr_load h s (2 ^ 64 - unat s)) (\<lambda>xs.
     case strto_scan xs of
       None \<Rightarrow> ret (0, s, errno)
     | Some (neg, m, n) \<Rightarrow>
         let e = s + of_nat n in
         if m \<ge> 2 ^ 64 then ret (- 1, e, erange)
         else ret (if neg then - of_nat m else of_nat m, e, errno))"

subsection \<open>parse.h\<close>

definition parse_is_ws :: "u8 \<Rightarrow> bool" where
  "parse_is_ws c \<longleftrightarrow> c = 32 \<or> c = 9 \<or> c = 10 \<or> c = 13 \<or> c = 12 \<or> c = 11"

definition parse_skip_ws :: "heap \<Rightarrow> uptr \<Rightarrow> uptr run" where
  "parse_skip_ws h s =
     (if s = null_ptr then ret s else scan_while h (\<lambda>c. c \<noteq> 0 \<and> parse_is_ws c) s (2 ^ 64 - unat s))"

text \<open>An assignment to \<open>*endptr\<close> when it is not NULL.\<close>

definition put_end :: "uptr cptr \<Rightarrow> uptr \<Rightarrow> uptr cptr" where
  "put_end endptr p = (if endptr \<noteq> None then Some p else endptr)"

definition parse_i64 :: "heap \<Rightarrow> uptr \<Rightarrow> uptr cptr \<Rightarrow> int \<Rightarrow> ((int, error) result \<times> uptr cptr \<times> int) run" where
  "parse_i64 h s endptr errno =
     require_msg (s \<noteq> null_ptr) ''parse_i64: input string is NULL''
     (bindR (load_byte h s) (\<lambda>c.
      if c = 0 \<or> parse_is_ws c then ret (Err ERR_PARSE_FAILED, put_end endptr s, errno)
      else bindR (strtoll h s 0) (\<lambda>(val, eptr, errno').
        if eptr = s \<or> errno' = erange then ret (Err ERR_PARSE_FAILED, put_end endptr s, errno')
        else ret (Ok val, put_end endptr eptr, errno'))))"

definition parse_u64 :: "heap \<Rightarrow> uptr \<Rightarrow> uptr cptr \<Rightarrow> int \<Rightarrow> ((u64, error) result \<times> uptr cptr \<times> int) run" where
  "parse_u64 h s endptr errno =
     require_msg (s \<noteq> null_ptr) ''parse_u64: input string is NULL''
     (bindR (load_byte h s) (\<lambda>c.
      if c = 0 \<or> parse_is_ws c then ret (Err ERR_PARSE_FAILED, put_end endptr s, errno)
      else if c = 45 then ret (Err ERR_PARSE_FAILED, put_end endptr s, errno)
      else bindR (strtoull h s 0) (\<lambda>(val, eptr, errno').
        if eptr = s \<or> errno' = erange then ret (Err ERR_PARSE_FAILED, put_end endptr s, errno')
        else ret (Ok val, put_end endptr eptr, errno'))))"

type_synonym 'f strtod = "heap \<Rightarrow> uptr \<Rightarrow> int \<Rightarrow> 'f \<times> uptr \<times> int"

definition parse_f64 :: "'f strtod \<Rightarrow> heap \<Rightarrow> uptr \<Rightarrow> uptr cptr \<Rightarrow> int \<Rightarrow> (('f, error) result \<times> uptr cptr \<times> int) run" where
  "parse_f64 strtod h s endptr errno =
     require_msg (s \<noteq> null_ptr) ''parse_f64: input string is NULL''
     (bindR (load_byte h s) (\<lambda>c.
      if c = 0 \<or> parse_is_ws c then ret (Err ERR_PARSE_FAILED, put_end endptr s, errno)
      else (case strtod h s errno of (val, eptr, errno') \<Rightarrow>
        if eptr = s then ret (Err ERR_PARSE_FAILED, put_end endptr s, errno')
        else ret (Ok val, put_end endptr eptr, errno'))))"

subsection \<open>The grammar\<close>

text \<open>The integer constants of C without a suffix, and such a constant with a sign or without.\<close>

inductive int_constant :: "u8 list \<Rightarrow> nat \<Rightarrow> bool" where
  decimal: "is_digit 10 d \<Longrightarrow> d \<noteq> 48 \<Longrightarrow> list_all (is_digit 10) ds \<Longrightarrow> int_constant (d # ds) (number 10 (d # ds))"
| octal: "list_all (is_digit 8) ds \<Longrightarrow> int_constant (48 # ds) (number 8 ds)"
| hexadecimal: "x = 120 \<or> x = 88 \<Longrightarrow> ds \<noteq> [] \<Longrightarrow> list_all (is_digit 16) ds \<Longrightarrow> int_constant (48 # x # ds) (number 16 ds)"

inductive int_literal :: "u8 list \<Rightarrow> int \<Rightarrow> bool" where
  unsigned: "int_constant cs m \<Longrightarrow> int_literal cs (int m)"
| plus: "int_constant cs m \<Longrightarrow> int_literal (43 # cs) (int m)"
| minus: "int_constant cs m \<Longrightarrow> int_literal (45 # cs) (- int m)"

text \<open>The longest prefix in a set of strings with values.\<close>

definition longest :: "('b list \<Rightarrow> 'c \<Rightarrow> bool) \<Rightarrow> 'b list \<Rightarrow> 'b list \<Rightarrow> 'c \<Rightarrow> bool" where
  "longest G xs ys v \<longleftrightarrow> prefix ys xs \<and> G ys v \<and> (\<forall>zs w. prefix zs xs \<and> G zs w \<longrightarrow> prefix zs ys)"

inductive_cases int_constantE: "int_constant cs m"
inductive_simps int_literal_cases: "int_literal cs v"

lemma prefix_takeWhile: "prefix zs cs \<Longrightarrow> list_all P zs \<Longrightarrow> prefix zs (takeWhile P cs)"
  by (induction cs arbitrary: zs) (auto simp: prefix_Cons)

lemma prefix_ConsE: "prefix (x # xs) ys \<Longrightarrow> (\<And>ys'. ys = x # ys' \<Longrightarrow> prefix xs ys' \<Longrightarrow> thesis) \<Longrightarrow> thesis"
  by (cases ys) auto

lemma takeWhile_prefix: "takeWhile P cs = take (length (takeWhile P cs)) cs"
  by (metis append_eq_conv_conj takeWhile_dropWhile_id)

lemma list_all_takeWhile: "list_all P (takeWhile P cs)"
  by (induction cs) simp_all

lemma int_constant_zero:
  assumes "int_constant zs m" "prefix zs (48 # ds)"
  shows "(\<exists>os. zs = 48 # os \<and> prefix os (takeWhile (is_digit 8) ds)) \<or>
    (\<exists>x d hs. zs = 48 # x # d # hs \<and> (x = 120 \<or> x = 88) \<and> is_digit 16 d \<and> prefix (x # d # hs) ds \<and>
      prefix (d # hs) (takeWhile (is_digit 16) (tl ds)))"
  using assms(1)
proof (cases rule: int_constant.cases)
  case (hexadecimal x hs)
  then obtain d hs' where h: "hs = d # hs'" by (cases hs) simp_all
  with hexadecimal assms(2) obtain ds' where "ds = x # ds'" "prefix hs ds'" by (auto elim: prefix_ConsE)
  with hexadecimal h prefix_takeWhile [of hs ds'] show ?thesis by auto
qed (use assms(2) prefix_takeWhile in \<open>auto simp: prefix_Cons\<close>)

lemma scan_digits_value:
  "scan_digits b k ds = (number b (takeWhile (is_digit b) ds), k + length (takeWhile (is_digit b) ds))"
  by (simp add: scan_digits_def Let_def)

lemma scan_octal_longest:
  assumes "\<not> (\<exists>x d es. ds = x # d # es \<and> (x = 120 \<or> x = 88) \<and> is_digit 16 d)"
  shows "longest int_constant (48 # ds) (48 # takeWhile (is_digit 8) ds) (number 8 (takeWhile (is_digit 8) ds))"
  unfolding longest_def
proof (intro conjI allI impI, goal_cases)
  case 1
  show ?case by (simp add: prefix_def) (metis takeWhile_dropWhile_id)
next
  case 2
  show ?case by (intro octal list_all_takeWhile)
next
  case (3 zs w)
  with int_constant_zero [of zs w ds] assms show ?case by (auto elim!: prefix_ConsE)
qed

lemma scan_hex_longest:
  fixes ds :: "u8 list"
  assumes "x = 120 \<or> x = 88" "is_digit 16 d"
  defines "hs \<equiv> takeWhile (is_digit 16) (d # ds)"
  shows "longest int_constant (48 # x # d # ds) (48 # x # hs) (number 16 hs)"
  unfolding longest_def
proof (intro conjI allI impI, goal_cases)
  case 1
  show ?case unfolding hs_def by (simp add: prefix_def) (metis takeWhile_dropWhile_id)
next
  case 2
  show ?case using assms by (intro hexadecimal) (auto simp: hs_def list_all_takeWhile)
next
  case (3 zs w)
  have "\<not> is_digit 8 x" using assms(1) by (auto simp: digit_val_def)
  with 3 int_constant_zero [of zs w "x # d # ds"] show ?case by (auto simp: hs_def)
qed

lemma scan_decimal_longest:
  fixes ds :: "u8 list"
  assumes "is_digit 10 c" "c \<noteq> 48"
  defines "xs \<equiv> takeWhile (is_digit 10) (c # ds)"
  shows "longest int_constant (c # ds) xs (number 10 xs)"
  unfolding longest_def
proof (intro conjI allI impI, goal_cases)
  case 1
  show ?case unfolding xs_def by (metis takeWhile_dropWhile_id prefix_def)
next
  case 2
  show ?case using assms list_all_takeWhile [of "is_digit 10" ds] by (auto simp: xs_def intro: decimal)
next
  case (3 zs w)
  then have "prefix zs (c # ds)" "int_constant zs w" by simp_all
  then have "list_all (is_digit 10) zs" using assms(2) by (auto elim!: int_constantE simp: prefix_Cons)
  with 3 show ?case unfolding xs_def by (intro prefix_takeWhile) simp_all
qed

lemma scan_magnitude_longest:
  "case scan_magnitude cs of
     None \<Rightarrow> \<nexists>zs m. prefix zs cs \<and> int_constant zs m
   | Some (m, n) \<Rightarrow> 0 < n \<and> n \<le> length cs \<and> longest int_constant cs (take n cs) m"
proof (cases cs)
  case Nil
  then show ?thesis by (auto simp: scan_magnitude_def elim: int_constantE)
next
  case (Cons c ds)
  consider "c = 48" "\<not> (\<exists>x d es. ds = x # d # es \<and> (x = 120 \<or> x = 88) \<and> is_digit 16 d)"
    | x d es where "c = 48" "ds = x # d # es" "x = 120 \<or> x = 88" "is_digit 16 d"
    | "c \<noteq> 48" "is_digit 10 c" | "c \<noteq> 48" "\<not> is_digit 10 c" by blast
  then show ?thesis
  proof cases
    case 1
    then have "scan_magnitude cs = Some (scan_digits 8 1 ds)"
      using Cons by (auto simp: scan_magnitude_def split: list.splits)
    then show ?thesis using scan_octal_longest [OF 1(2)] Cons 1(1) takeWhile_prefix [of "is_digit 8" ds] length_takeWhile_le [of "is_digit 8" ds]
      by (simp add: scan_digits_value)
  next
    case 2
    then have "scan_magnitude cs = Some (scan_digits 16 2 (d # es))" using Cons by (simp add: scan_magnitude_def)
    moreover have "48 # x # takeWhile (is_digit 16) (d # es) = take (2 + length (takeWhile (is_digit 16) (d # es))) cs"
      using Cons 2(1,2) takeWhile_prefix [of "is_digit 16" "d # es"] by simp
    ultimately show ?thesis using scan_hex_longest [OF 2(3,4), of es] Cons 2(1,2) length_takeWhile_le [of "is_digit 16" es]
      by (simp add: scan_digits_value)
  next
    case 3
    then have "scan_magnitude cs = Some (scan_digits 10 0 cs)" using Cons by (simp add: scan_magnitude_def)
    then show ?thesis using scan_decimal_longest [OF 3(2,1), of ds] Cons 3 takeWhile_prefix [of "is_digit 10" cs] length_takeWhile_le [of "is_digit 10" ds]
      by (simp add: scan_digits_value)
  next
    case 4
    then have "scan_magnitude cs = None" using Cons by (simp add: scan_magnitude_def)
    moreover have "\<not> int_constant zs m" if "prefix zs cs" for zs m
      using that Cons 4 by (auto simp: prefix_Cons elim: int_constantE)
    ultimately show ?thesis by simp
  qed
qed

definition signed_value :: "bool \<Rightarrow> nat \<Rightarrow> int" where
  "signed_value neg m = (if neg then - int m else int m)"

lemma scan_signed_longest:
  "case scan_signed cs of
     None \<Rightarrow> \<nexists>zs v. prefix zs cs \<and> int_literal zs v
   | Some (neg, m, n) \<Rightarrow> 0 < n \<and> n \<le> length cs \<and> (neg \<longleftrightarrow> hd cs = 45) \<and> longest int_literal cs (take n cs) (signed_value neg m)"
proof (cases cs)
  case Nil
  then show ?thesis by (auto simp: scan_signed_def int_literal_cases elim: int_constantE)
next
  case (Cons c ds)
  have no: "\<not> int_constant (c # zs) m" if "c = 45 \<or> c = 43" for zs m
    using that by (auto elim!: int_constantE simp: digit_val_def)
  show ?thesis
  proof (cases "c = 45 \<or> c = 43")
    case True
    have lit: "int_literal (c # zs) v \<longleftrightarrow> (\<exists>m. int_constant zs m \<and> v = signed_value (c = 45) m)" for zs v
      using True no by (auto simp: int_literal_cases signed_value_def)
    have nil: "\<not> int_literal [] v" for v by (auto simp: int_literal_cases elim: int_constantE)
    show ?thesis
    proof (cases "scan_magnitude ds")
      case None
      then have "scan_signed cs = None" using Cons True by (simp add: scan_signed_def)
      then show ?thesis using scan_magnitude_longest [of ds] None Cons lit nil by (auto simp: prefix_Cons)
    next
      case (Some p)
      obtain m n where p: "p = (m, n)" by (cases p)
      then have "scan_signed cs = Some (c = 45, m, Suc n)" using Cons True Some by (simp add: scan_signed_def)
      moreover have "longest int_literal cs (c # take n ds) (signed_value (c = 45) m)"
        using scan_magnitude_longest [of ds] Some p Cons lit nil by (auto simp: longest_def prefix_Cons) blast
      ultimately show ?thesis using scan_magnitude_longest [of ds] Some p Cons by simp
    qed
  next
    case False
    have lit: "int_literal zs v \<longleftrightarrow> (\<exists>m. int_constant zs m \<and> v = int m)" if "prefix zs cs" for zs v
      using False Cons that by (auto simp: int_literal_cases prefix_Cons)
    show ?thesis
    proof (cases "scan_magnitude cs")
      case None
      then have "scan_signed cs = None" using Cons False by (simp add: scan_signed_def)
      then show ?thesis using scan_magnitude_longest [of cs] None lit by auto
    next
      case (Some p)
      obtain m n where p: "p = (m, n)" by (cases p)
      then have "scan_signed cs = Some (False, m, n)" using Cons False Some by (simp add: scan_signed_def)
      moreover have "longest int_literal cs (take n cs) (int m)"
        using scan_magnitude_longest [of cs] Some p lit by (auto simp: longest_def)
      ultimately show ?thesis using scan_magnitude_longest [of cs] Some p Cons False by (simp add: signed_value_def)
    qed
  qed
qed

subsection \<open>The parsers find the longest literal\<close>

lemma cstr_load_loop_value:
  "region h p (xs @ [0]) \<Longrightarrow> 0 \<notin> set xs \<Longrightarrow> length xs < fuel \<Longrightarrow> cstr_load h p fuel = ret xs"
proof (induction xs arbitrary: p fuel)
  case Nil
  then show ?case by (cases fuel) (simp_all add: load_byte_def)
next
  case (Cons x xs)
  then show ?case by (cases fuel) (simp_all add: load_byte_def)
qed

lemma cstr_load_value: "cstr h s xs \<Longrightarrow> cstr_load h s (2 ^ 64 - unat s) = ret xs"
  using cstr_load_loop_value [of h s xs] cstr_bounds [of h s xs] by (simp add: cstr_def)

lemma strto_scan_value: "xs \<noteq> [] \<Longrightarrow> \<not> split_is_ws (hd xs) \<Longrightarrow> strto_scan xs = scan_signed xs"
  by (cases xs) (simp_all add: strto_scan_def case_prod_eta option.map_id id_def [symmetric])

lemma parse_is_ws_eq: "parse_is_ws = split_is_ws"
  by (simp add: fun_eq_iff parse_is_ws_def split_is_ws_def)

lemma no_literal:
  assumes "xs = [] \<or> split_is_ws (hd xs)" "prefix zs xs"
  shows "\<not> int_literal zs v"
  using assms by (auto simp: int_literal_cases prefix_Cons neq_Nil_conv split_is_ws_def digit_val_def elim!: int_constantE elim: prefix_ConsE)

lemma cstr_first_byte: "cstr h s xs \<Longrightarrow> load_byte h s = ret (case xs of [] \<Rightarrow> 0 | x # _ \<Rightarrow> x)"
  by (cases xs) (simp_all add: cstr_def load_byte_def)

lemma cstr_nonnull: "cstr h s xs \<Longrightarrow> s \<noteq> 0"
  by (simp add: cstr_def)

lemma cstr_forward:
  assumes "cstr h s xs" "0 < n" "n \<le> length xs"
  shows "s + of_nat n \<noteq> s"
proof -
  have "unat (of_nat n :: usize) = n" using cstr_bounds [OF assms(1)] assms(3) by (intro unat_of_small) linarith
  then show ?thesis using assms(2) by (metis add_cancel_right_right less_numeral_extra(3) unat_0)
qed

lemma i64_range: "isize_ok v \<longleftrightarrow> - (2 ^ 63) \<le> v \<and> v \<le> 2 ^ 63 - 1"
  by (simp add: isize_ok_def canon_isize_min_def canon_isize_max_def)

text \<open>One run of either parser on a string that starts with no white space, for the result \<open>f\<close> of a literal.\<close>

definition parse_outcome ::
  "heap \<Rightarrow> uptr \<Rightarrow> u8 list \<Rightarrow> uptr cptr \<Rightarrow> (int \<Rightarrow> 't option) \<Rightarrow> (('t, error) result \<times> uptr cptr \<times> int) run \<Rightarrow> bool" where
  "parse_outcome h s xs ep f r \<longleftrightarrow>
     (if \<exists>ys v. prefix ys xs \<and> int_literal ys v
      then \<exists>ys v er. longest int_literal xs ys v \<and>
        r = ret (case f v of None \<Rightarrow> (Err ERR_PARSE_FAILED, put_end ep s, er) | Some x \<Rightarrow> (Ok x, put_end ep (s + of_nat (length ys)), er))
      else \<exists>er. r = ret (Err ERR_PARSE_FAILED, put_end ep s, er))"

lemma parse_outcome_none:
  "xs = [] \<or> split_is_ws (hd xs) \<Longrightarrow> parse_outcome h s xs ep f (ret (Err ERR_PARSE_FAILED, put_end ep s, er))"
  using no_literal [of xs] by (auto simp: parse_outcome_def)

lemma parse_outcome_scan:
  assumes "cstr h s xs"
    "r = (case scan_signed xs of None \<Rightarrow> ret (Err ERR_PARSE_FAILED, put_end ep s, er)
       | Some (neg, m, n) \<Rightarrow> ret (case f (signed_value neg m) of None \<Rightarrow> (Err ERR_PARSE_FAILED, put_end ep s, er' neg m n)
           | Some x \<Rightarrow> (Ok x, put_end ep (s + of_nat n), er' neg m n)))"
  shows "parse_outcome h s xs ep f r"
proof (cases "scan_signed xs")
  case None
  then show ?thesis using scan_signed_longest [of xs] assms(2) by (auto simp: parse_outcome_def)
next
  case (Some p)
  obtain neg m n where p: "p = (neg, m, n)" by (cases p)
  have l: "n \<le> length xs" "longest int_literal xs (take n xs) (signed_value neg m)"
    using scan_signed_longest [of xs] unfolding Some p by auto
  then have "prefix (take n xs) xs" "int_literal (take n xs) (signed_value neg m)" by (simp_all add: longest_def)
  moreover have "length (take n xs) = n" using l(1) by simp
  ultimately have "(\<exists>ys v. prefix ys xs \<and> int_literal ys v) \<and> length (take n xs) = n" by blast
  then show ?thesis using assms(2) l(2) unfolding parse_outcome_def Some p
    by (simp split del: option.split) (intro exI conjI, assumption, cases "f (signed_value neg m)", auto)
qed

lemma strtoll_value:
  assumes "cstr h s xs" "xs \<noteq> []" "\<not> split_is_ws (hd xs)"
  shows "strtoll h s errno = ret (case scan_signed xs of None \<Rightarrow> (0, s, errno)
    | Some (neg, m, n) \<Rightarrow> if isize_ok (signed_value neg m) then (signed_value neg m, s + of_nat n, errno)
        else (if neg then - (2 ^ 63) else 2 ^ 63 - 1, s + of_nat n, erange))"
  unfolding strtoll_def cstr_load_value [OF assms(1)] bindR_simps i64_range signed_value_def
  by (auto simp: strto_scan_value [OF assms(2,3)] Let_def split: option.splits)

lemma strtoull_value:
  assumes "cstr h s xs" "xs \<noteq> []" "\<not> split_is_ws (hd xs)"
  shows "strtoull h s errno = ret (case scan_signed xs of None \<Rightarrow> (0, s, errno)
    | Some (neg, m, n) \<Rightarrow> if m < 2 ^ 64 then (if neg then - of_nat m else of_nat m, s + of_nat n, errno)
        else (- 1, s + of_nat n, erange))"
  unfolding strtoull_def cstr_load_value [OF assms(1)] bindR_simps
  by (auto simp: strto_scan_value [OF assms(2,3)] Let_def split: option.splits)

text \<open>The parsers on a string that starts with no white space, by the scan of its bytes.\<close>

lemma parse_start:
  assumes "cstr h s xs" "xs \<noteq> []" "\<not> split_is_ws (hd xs)"
  shows "load_byte h s = ret (hd xs) \<and> hd xs \<noteq> 0 \<and> \<not> parse_is_ws (hd xs) \<and> s \<noteq> null_ptr \<and>
    (case scan_signed xs of None \<Rightarrow> True | Some (neg, m, n) \<Rightarrow> s + of_nat n \<noteq> s \<and> (neg \<longleftrightarrow> hd xs = 45))"
  using assms scan_signed_longest [of xs] cstr_forward [OF assms(1)] cstr_first_byte [OF assms(1)] cstr_nonnull [OF assms(1)]
  by (cases xs) (auto simp: parse_is_ws_eq null_ptr_def cstr_def split: option.splits)

lemma parse_i64_value:
  assumes "cstr h s xs" "xs \<noteq> []" "\<not> split_is_ws (hd xs)"
  shows "parse_i64 h s ep errno = (case scan_signed xs of None \<Rightarrow> ret (Err ERR_PARSE_FAILED, put_end ep s, 0)
      | Some (neg, m, n) \<Rightarrow> ret (case if isize_ok (signed_value neg m) then Some (signed_value neg m) else None of
            None \<Rightarrow> (Err ERR_PARSE_FAILED, put_end ep s, erange) | Some x \<Rightarrow> (Ok x, put_end ep (s + of_nat n), 0)))"
  using parse_start [OF assms]
  by (auto simp: parse_i64_def strtoll_value [OF assms] erange_def split: option.splits)

lemma parse_u64_value:
  assumes "cstr h s xs" "xs \<noteq> []" "\<not> split_is_ws (hd xs)" "hd xs \<noteq> 45"
  shows "parse_u64 h s ep errno = (case scan_signed xs of None \<Rightarrow> ret (Err ERR_PARSE_FAILED, put_end ep s, 0)
      | Some (neg, m, n) \<Rightarrow> ret (case if signed_value neg m < 2 ^ 64 then Some (word_of_int (signed_value neg m)) else None of
            None \<Rightarrow> (Err ERR_PARSE_FAILED, put_end ep s, erange) | Some x \<Rightarrow> (Ok x, put_end ep (s + of_nat n), 0)))"
  using parse_start [OF assms(1-3)] assms(4)
  by (auto simp: parse_u64_def strtoull_value [OF assms(1-3)] signed_value_def erange_def split: option.splits)

text \<open>C18: The integer parsers return what the longest prefix of the string that is an integer constant with an optional
sign says: its value and the address behind it, when the type holds the value; an error and the address of the string
otherwise, also when there is no such prefix, when the string is empty or starts with white space, and for \<open>u64\<close> when
it starts with a minus sign. No byte outside the string is read.\<close>

theorem parse_longest_literal:
  assumes "cstr h s xs"
  shows "parse_outcome h s xs ep (\<lambda>v. if isize_ok v then Some v else None) (parse_i64 h s ep errno) \<and>
    parse_outcome h s xs ep (\<lambda>v. if hd xs \<noteq> 45 \<and> v < 2 ^ 64 then Some (word_of_int v) else None) (parse_u64 h s ep errno)"
proof (cases "xs = [] \<or> split_is_ws (hd xs)")
  case True
  then have "parse_i64 h s ep errno = ret (Err ERR_PARSE_FAILED, put_end ep s, errno)"
    "parse_u64 h s ep errno = ret (Err ERR_PARSE_FAILED, put_end ep s, errno)"
    using cstr_first_byte [OF assms] cstr_nonnull [OF assms]
    by (cases xs; simp add: parse_i64_def parse_u64_def parse_is_ws_eq null_ptr_def)+
  with True show ?thesis by (simp add: parse_outcome_none)
next
  case False
  then have c: "xs \<noteq> []" "\<not> split_is_ws (hd xs)" by simp_all
  note st = parse_start [OF assms c]
  have "parse_outcome h s xs ep (\<lambda>v. if isize_ok v then Some v else None) (parse_i64 h s ep errno)"
    unfolding parse_i64_value [OF assms c]
    by (intro parse_outcome_scan [OF assms, where er = 0 and er' = "\<lambda>neg m n. if isize_ok (signed_value neg m) then 0 else erange"])
      (auto split: option.splits)
  moreover have "parse_outcome h s xs ep (\<lambda>v. if hd xs \<noteq> 45 \<and> v < 2 ^ 64 then Some (word_of_int v) else None) (parse_u64 h s ep errno)"
  proof (cases "hd xs = 45")
    case True
    then have "parse_u64 h s ep errno = ret (Err ERR_PARSE_FAILED, put_end ep s, errno)" using st by (simp add: parse_u64_def)
    then show ?thesis using True
      by (intro parse_outcome_scan [OF assms, where er = errno and er' = "\<lambda>neg m n. errno"]) (auto split: option.splits)
  next
    case False
    show ?thesis unfolding parse_u64_value [OF assms c False] using False
      by (intro parse_outcome_scan [OF assms, where er = 0 and er' = "\<lambda>neg m n. if signed_value neg m < 2 ^ 64 then 0 else erange"])
        (auto split: option.splits)
  qed
  ultimately show ?thesis by blast
qed

theorem parse_longest_literal_witness:
  "parse_outcome [64 \<mapsto> 48, 65 \<mapsto> 120, 66 \<mapsto> 49, 67 \<mapsto> 103, 68 \<mapsto> 0] 64 [48, 120, 49, 103] (Some 0)
     (\<lambda>v. if isize_ok v then Some v else None)
     (parse_i64 [64 \<mapsto> 48, 65 \<mapsto> 120, 66 \<mapsto> 49, 67 \<mapsto> 103, 68 \<mapsto> 0] 64 (Some 0) 7) \<and>
   prefix [48] [48, 120, 49, 103 :: u8] \<and> int_literal [48] 0"
  using parse_longest_literal [of "[64 \<mapsto> 48, 65 \<mapsto> 120, 66 \<mapsto> 49, 67 \<mapsto> 103, 68 \<mapsto> 0]" 64 "[48, 120, 49, 103]" "Some 0" 7]
    int_literal.unsigned [OF octal [of "[]"]]
  by (simp add: cstr_def fits_def number_def)

text \<open>White space is skipped up to the first byte that is none, and the terminator at the latest. What \<open>parse_f64\<close> adds to
\<open>strtod\<close> is the test of the first byte and that nothing parsed is an error.\<close>

lemma parse_skip_ws_value: "cstr h s xs \<Longrightarrow> parse_skip_ws h s = ret (s + of_nat (length (takeWhile parse_is_ws xs)))"
proof -
  assume c: "cstr h s xs"
  then have "takeWhile (\<lambda>c. c \<noteq> 0 \<and> parse_is_ws c) xs = takeWhile parse_is_ws xs"
    by (intro takeWhile_cong) (auto simp: cstr_def)
  with scan_while_value [of h s xs "2 ^ 64 - unat s" "\<lambda>c. c \<noteq> 0 \<and> parse_is_ws c"] c cstr_bounds [OF c]
  show ?thesis by (simp add: parse_skip_ws_def cstr_def null_ptr_def)
qed

lemma parse_f64_value:
  assumes "cstr h s xs"
  shows "parse_f64 strtod h s ep errno = (if xs = [] \<or> parse_is_ws (hd xs) then ret (Err ERR_PARSE_FAILED, put_end ep s, errno)
    else (case strtod h s errno of (v, e, errno') \<Rightarrow>
      if e = s then ret (Err ERR_PARSE_FAILED, put_end ep s, errno') else ret (Ok v, put_end ep e, errno')))"
  using cstr_first_byte [OF assms] cstr_nonnull [OF assms] assms
  by (cases xs) (auto simp: parse_f64_def null_ptr_def cstr_def)

subsection \<open>Numbers printed and parsed back\<close>

definition digit_char :: "nat \<Rightarrow> u8" where
  "digit_char d = (if d < 10 then of_nat (48 + d) else of_nat (87 + d))"

function render :: "nat \<Rightarrow> nat \<Rightarrow> u8 list" where
  "render b n = (if b < 2 \<or> n < b then [digit_char n] else render b (n div b) @ [digit_char (n mod b)])"
  by pat_completeness auto
termination by (relation "measure snd") auto

declare render.simps [simp del]

datatype notation_of = Decimal | Octal | Hexadecimal

fun magnitude_text :: "notation_of \<Rightarrow> nat \<Rightarrow> u8 list" where
  "magnitude_text Decimal n = render 10 n"
| "magnitude_text Octal n = 48 # render 8 n"
| "magnitude_text Hexadecimal n = 48 # 120 # render 16 n"

definition int_text :: "notation_of \<Rightarrow> int \<Rightarrow> u8 list" where
  "int_text f x = (if x < 0 then [45] else []) @ magnitude_text f (nat \<bar>x\<bar>)"

lemma digit_val_char: "d < 16 \<Longrightarrow> digit_val (digit_char d) = d"
proof -
  have "\<forall>d \<in> set [0..<16]. digit_val (digit_char d) = d" by code_simp
  then show "d < 16 \<Longrightarrow> digit_val (digit_char d) = d" by simp
qed

lemma number_snoc: "number b (ds @ [d]) = number b ds * b + digit_val d"
  by (simp add: number_def)

lemma render_digits:
  assumes "2 \<le> b" "b \<le> 16"
  shows "number b (render b n) = n \<and> list_all (is_digit b) (render b n) \<and> render b n \<noteq> [] \<and> (0 < n \<longrightarrow> digit_val (hd (render b n)) \<noteq> 0)"
proof (induction n rule: less_induct)
  case (less n)
  show ?case
  proof (cases "n < b")
    case True
    then show ?thesis using assms digit_val_char [of n] by (simp add: render.simps number_def)
  next
    case False
    then have "n div b < n" "0 < n div b" using assms by (simp_all add: div_greater_zero_iff)
    moreover have "digit_val (digit_char (n mod b)) = n mod b" "n mod b < b"
      using assms digit_val_char [of "n mod b"] mod_less_divisor [of b n] by linarith+
    ultimately show ?thesis using less.IH [of "n div b"] False assms
      by (subst (1 2 3 4) render.simps) (simp add: number_snoc hd_append)
  qed
qed

lemma render_scanned:
  assumes "2 \<le> b" "b \<le> 16" "rest = [] \<or> digit_val (hd rest) = 36"
  shows "scan_digits b k (render b n @ rest) = (n, k + length (render b n))"
proof -
  have "takeWhile (is_digit b) rest = []" using assms(2,3) by (cases rest) auto
  then show ?thesis using render_digits [OF assms(1,2), of n] by (simp add: scan_digits_value takeWhile_append2 list_all_iff)
qed

lemma magnitude_text_scanned:
  assumes "rest = [] \<or> digit_val (hd rest) = 36"
  shows "scan_magnitude (magnitude_text f n @ rest) = Some (n, length (magnitude_text f n)) \<and>
    is_digit 10 (hd (magnitude_text f n)) \<and> magnitude_text f n \<noteq> []"
proof (cases f)
  case Decimal
  obtain d ds where d: "render 10 n = d # ds" "is_digit 10 d" using render_digits [of 10 n] by (cases "render 10 n") auto
  show ?thesis
  proof (cases "n = 0")
    case True
    then show ?thesis using Decimal assms
      by (cases rest) (auto simp: render.simps digit_char_def scan_magnitude_def scan_digits_def number_def digit_val_def split: list.splits)
  next
    case False
    then have "d \<noteq> 48" using render_digits [of 10 n] d(1) by (auto simp: digit_val_def)
    then have "scan_magnitude (render 10 n @ rest) = Some (scan_digits 10 0 (render 10 n @ rest))" using d by (simp add: scan_magnitude_def)
    then show ?thesis using Decimal d render_scanned [of 10 rest 0 n] assms by simp
  qed
next
  case Octal
  obtain d ds where d: "render 8 n = d # ds" "is_digit 8 d" using render_digits [of 8 n] by (cases "render 8 n") auto
  then have "d \<noteq> 120" "d \<noteq> 88" by (auto simp: digit_val_def)
  then have "scan_magnitude (48 # render 8 n @ rest) = Some (scan_digits 8 1 (render 8 n @ rest))"
    using d by (auto simp: scan_magnitude_def split: list.splits)
  then show ?thesis using Octal render_scanned [of 8 rest 1 n] assms by (simp add: digit_val_def)
next
  case Hexadecimal
  obtain d ds where d: "render 16 n = d # ds" "is_digit 16 d" using render_digits [of 16 n] by (cases "render 16 n") auto
  then have "scan_magnitude (48 # 120 # render 16 n @ rest) = Some (scan_digits 16 2 (render 16 n @ rest))"
    by (simp add: scan_magnitude_def)
  then show ?thesis using Hexadecimal render_scanned [of 16 rest 2 n] assms by (simp add: digit_val_def)
qed

lemma int_text_scanned:
  assumes "rest = [] \<or> digit_val (hd rest) = 36"
  shows "scan_signed (int_text f x @ rest) = Some (x < 0, nat \<bar>x\<bar>, length (int_text f x)) \<and> int_text f x \<noteq> [] \<and>
    \<not> split_is_ws (hd (int_text f x)) \<and> (hd (int_text f x) = 45 \<longleftrightarrow> x < 0)"
proof (cases "x < 0")
  case True
  then show ?thesis using magnitude_text_scanned [OF assms, of f "nat \<bar>x\<bar>"] by (simp add: int_text_def scan_signed_def split_is_ws_def)
next
  case False
  obtain d ds where d: "magnitude_text f (nat \<bar>x\<bar>) = d # ds" "is_digit 10 d" "scan_magnitude ((d # ds) @ rest) = Some (nat \<bar>x\<bar>, length (d # ds))"
    using magnitude_text_scanned [OF assms, of f "nat \<bar>x\<bar>"] by (cases "magnitude_text f (nat \<bar>x\<bar>)") auto
  then have "d \<noteq> 45" "d \<noteq> 43" "\<not> split_is_ws d" by (auto simp: digit_val_def split_is_ws_def)
  then show ?thesis using False d by (simp add: int_text_def scan_signed_def)
qed

text \<open>C19: A number that is printed in decimal, octal or hexadecimal and followed by something that is no digit or letter is
parsed back, by \<open>parse_i64\<close> if it is an \<open>i64\<close> and by \<open>parse_u64\<close> if it is a \<open>u64\<close>, and the end pointer is the address behind
the number, where the next parse starts.\<close>

theorem parse_round_trip:
  assumes "cstr h s (int_text f x @ rest)" "rest = [] \<or> digit_val (hd rest) = 36"
  shows "(isize_ok x \<longrightarrow> parse_i64 h s (Some e) errno = ret (Ok x, Some (s + of_nat (length (int_text f x))), 0)) \<and>
    (0 \<le> x \<and> x < 2 ^ 64 \<longrightarrow> parse_u64 h s (Some e) errno = ret (Ok (word_of_int x), Some (s + of_nat (length (int_text f x))), 0))"
proof -
  note sc = int_text_scanned [OF assms(2), of f x]
  then have c: "int_text f x @ rest \<noteq> []" "\<not> split_is_ws (hd (int_text f x @ rest))" by simp_all
  have v: "signed_value (x < 0) (nat \<bar>x\<bar>) = x" by (simp add: signed_value_def)
  have "isize_ok x \<longrightarrow> parse_i64 h s (Some e) errno = ret (Ok x, Some (s + of_nat (length (int_text f x))), 0)"
    unfolding parse_i64_value [OF assms(1) c] using sc v by (simp add: put_end_def)
  moreover have "parse_u64 h s (Some e) errno = ret (Ok (word_of_int x), Some (s + of_nat (length (int_text f x))), 0)"
    if "0 \<le> x \<and> x < 2 ^ 64"
  proof -
    have "hd (int_text f x @ rest) \<noteq> 45" using sc that by simp
    from parse_u64_value [OF assms(1) c this] sc v that show ?thesis by (simp add: put_end_def)
  qed
  ultimately show ?thesis by blast
qed

theorem parse_round_trip_witness:
  "parse_i64 [64 \<mapsto> 45, 65 \<mapsto> 55, 66 \<mapsto> 32, 67 \<mapsto> 0] 64 (Some 0) 5 = ret (Ok (- 7), Some 66, 0)"
proof -
  have "int_text Decimal (- 7) = [45, 55]" by (simp add: int_text_def render.simps digit_char_def)
  then show ?thesis using parse_round_trip [of "[64 \<mapsto> 45, 65 \<mapsto> 55, 66 \<mapsto> 32, 67 \<mapsto> 0]" 64 Decimal "- 7" "[32]" 0 5]
    by (simp add: cstr_def fits_def isize_ok_def canon_isize_min_def canon_isize_max_def digit_val_def)
qed

end
