(* ===== verification/Canon_DynString.thy ===== *)
theory Canon_DynString
  imports Canon_Str
begin

section \<open>The growing string (data/convenience/dynstring.h)\<close>

text \<open>
  A string that owns an allocated buffer and grows it. The memory is the byte heap together with the blocks that
  \<open>malloc\<close> and \<open>realloc\<close> have given out and that are not freed: so freeing twice, or a pointer that was not allocated,
  and reading freed memory are undefined behaviour. \<open>malloc\<close> and \<open>realloc\<close> are parameters, with what the C standard
  promises of them in \<open>malloc_gives\<close> and \<open>realloc_gives\<close>; \<open>free\<close> leaves no choice and is a definition. \<open>vsnprintf\<close> is a
  parameter too, and need not return unless the strings it reads are there (\<open>vsnprintf_prints\<close>). The lifetime token of the debug build is compiled out.

  \<open>ds_ok m s xs\<close> says that the string \<open>s\<close> holds \<open>xs\<close>, and \<open>outside m s\<close> is the memory without its buffer. The lemmas show
  each operation as an operation on \<open>xs\<close> that may fail for want of memory, and that it leaves the memory outside exactly
  as it was: nothing is lost and nothing is leaked.
\<close>

subsection \<open>Memory with blocks\<close>

record cmem =
  heap_of :: heap
  blocks :: "uptr \<Rightarrow> usize option"

type_synonym c_malloc = "usize \<Rightarrow> cmem \<Rightarrow> uptr \<times> cmem"
type_synonym c_realloc = "uptr \<Rightarrow> usize \<Rightarrow> cmem \<Rightarrow> uptr \<times> cmem"

text \<open>The memory without the block of \<open>n\<close> bytes at \<open>p\<close>.\<close>

definition without :: "cmem \<Rightarrow> uptr \<Rightarrow> usize \<Rightarrow> cmem" where
  "without m p n = m\<lparr>heap_of := (\<lambda>q. if unat p \<le> unat q \<and> unat q < unat p + unat n then None else heap_of m q),
     blocks := (blocks m)(p := None)\<rparr>"

definition c_free :: "uptr \<Rightarrow> cmem \<Rightarrow> cmem run" where
  "c_free p m = (if p = null_ptr then ret m
     else case blocks m p of
       None \<Rightarrow> undefined_behaviour ''free of a pointer that is not allocated''
     | Some n \<Rightarrow> ret (without m p n))"

definition on_heap :: "cmem \<Rightarrow> (heap \<Rightarrow> heap run) \<Rightarrow> cmem run" where
  "on_heap m f = bindR (f (heap_of m)) (\<lambda>h. ret (m\<lparr>heap_of := h\<rparr>))"

subsection \<open>The functions\<close>

record dynstring =
  ds_data :: uptr
  ds_len :: usize
  ds_cap :: usize

definition dynstring_initial_capacity :: usize where
  "dynstring_initial_capacity = 64"

definition dynstring_growth_factor :: usize where
  "dynstring_growth_factor = 2"

definition dynstring_next_cap :: "bool \<Rightarrow> dynstring \<Rightarrow> usize \<Rightarrow> usize run" where
  "dynstring_next_cap builtin s min_cap =
     bindR (if ds_cap s \<noteq> 0
            then bindR (checked_mul builtin (ds_cap s) dynstring_growth_factor (Some dynstring_initial_capacity)) (\<lambda>(fits, w).
              if \<not> fits then ret min_cap else deref w)
            else ret dynstring_initial_capacity) (\<lambda>new_cap.
     ret (if new_cap < min_cap then min_cap else new_cap))"

text \<open>The last part of the result is \<open>*old_out\<close>.\<close>

definition dynstring_grow_detached ::
  "bool \<Rightarrow> c_malloc \<Rightarrow> cmem \<Rightarrow> dynstring \<Rightarrow> usize \<Rightarrow> (bool \<times> cmem \<times> dynstring \<times> uptr) run" where
  "dynstring_grow_detached builtin malloc m s min_cap =
     (if ds_cap s \<ge> min_cap then ret (True, m, s, null_ptr)
      else bindR (dynstring_next_cap builtin s min_cap) (\<lambda>new_cap.
        case malloc new_cap m of (new_data, m1) \<Rightarrow>
          if new_data = null_ptr then ret (False, m1, s, null_ptr)
          else bindR (on_heap m1 (\<lambda>h. if ds_data s \<noteq> null_ptr then mem_copy h new_data (ds_data s) (ds_len s + 1)
                                       else write_bytes h new_data [0])) (\<lambda>m2.
            ret (True, m2, s\<lparr>ds_data := new_data, ds_cap := new_cap\<rparr>, ds_data s))))"

definition dynstring_ensure_capacity ::
  "bool \<Rightarrow> c_realloc \<Rightarrow> cmem \<Rightarrow> dynstring cptr \<Rightarrow> usize \<Rightarrow> (bool \<times> cmem \<times> dynstring cptr) run" where
  "dynstring_ensure_capacity builtin realloc m p min_cap =
     ensure_msg (p \<noteq> None) ''dynstring_ensure_capacity: s cannot be NULL''
     (case p of
        None \<Rightarrow> ret (False, m, p)
      | Some s \<Rightarrow>
          if ds_cap s \<ge> min_cap then ret (True, m, p)
          else bindR (dynstring_next_cap builtin s min_cap) (\<lambda>new_cap.
            case realloc (ds_data s) new_cap m of (new_data, m1) \<Rightarrow>
              if new_data = null_ptr then ret (False, m1, p)
              else bindR (if ds_data s = null_ptr then on_heap m1 (\<lambda>h. write_bytes h new_data [0]) else ret m1) (\<lambda>m2.
                ret (True, m2, Some (s\<lparr>ds_data := new_data, ds_cap := new_cap\<rparr>)))))"

definition dynstring_init :: dynstring where
  "dynstring_init = \<lparr>ds_data = null_ptr, ds_len = 0, ds_cap = 0\<rparr>"

definition dynstring_with_capacity :: "c_malloc \<Rightarrow> cmem \<Rightarrow> usize \<Rightarrow> (dynstring \<times> cmem) run" where
  "dynstring_with_capacity malloc m capacity =
     (if capacity = 0 then ret (dynstring_init, m)
      else case malloc capacity m of (p, m1) \<Rightarrow>
        if p \<noteq> null_ptr
        then bindR (on_heap m1 (\<lambda>h. write_bytes h p [0])) (\<lambda>m2. ret (dynstring_init\<lparr>ds_data := p, ds_cap := capacity\<rparr>, m2))
        else ret (dynstring_init\<lparr>ds_data := p\<rparr>, m1))"

definition dynstring_from :: "c_malloc \<Rightarrow> cmem \<Rightarrow> uptr \<Rightarrow> (dynstring \<times> cmem) run" where
  "dynstring_from malloc m str =
     (if str = null_ptr then ret (dynstring_init, m)
      else bindR (str_len (heap_of m) str) (\<lambda>len. let cap = len + 1 in
        case malloc cap m of (p, m1) \<Rightarrow>
          if p \<noteq> null_ptr
          then bindR (on_heap m1 (\<lambda>h. mem_copy h p str (len + 1))) (\<lambda>m2. ret (\<lparr>ds_data = p, ds_len = len, ds_cap = cap\<rparr>, m2))
          else ret (dynstring_init\<lparr>ds_data := p\<rparr>, m1)))"

definition dynstring_len :: "dynstring cptr \<Rightarrow> usize" where
  "dynstring_len p = (case p of Some s \<Rightarrow> ds_len s | None \<Rightarrow> 0)"

definition dynstring_capacity :: "dynstring cptr \<Rightarrow> usize" where
  "dynstring_capacity p = (case p of Some s \<Rightarrow> ds_cap s | None \<Rightarrow> 0)"

definition dynstring_is_empty :: "dynstring cptr \<Rightarrow> bool" where
  "dynstring_is_empty p \<longleftrightarrow> (case p of None \<Rightarrow> True | Some s \<Rightarrow> ds_len s = 0)"

text \<open>\<open>lit\<close> is the address of the empty string literal.\<close>

definition dynstring_str :: "uptr \<Rightarrow> dynstring cptr \<Rightarrow> uptr" where
  "dynstring_str lit p = (case p of Some s \<Rightarrow> if ds_data s \<noteq> null_ptr then ds_data s else lit | None \<Rightarrow> lit)"

text \<open>What the appends of text do when there is room: copy, terminate, free the old buffer.\<close>

definition ds_put :: "cmem \<Rightarrow> dynstring \<Rightarrow> uptr \<Rightarrow> usize \<Rightarrow> uptr \<Rightarrow> (bool \<times> cmem \<times> dynstring cptr) run" where
  "ds_put m s str n old =
     bindR (on_heap m (\<lambda>h. mem_copy h (ds_data s + ds_len s) str n)) (\<lambda>m1.
     let len = ds_len s + n in
     bindR (on_heap m1 (\<lambda>h. write_bytes h (ds_data s + len) [0])) (\<lambda>m2.
     bindR (c_free old m2) (\<lambda>m3. ret (True, m3, Some (s\<lparr>ds_len := len\<rparr>)))))"

definition dynstring_append ::
  "bool \<Rightarrow> c_malloc \<Rightarrow> cmem \<Rightarrow> dynstring cptr \<Rightarrow> uptr \<Rightarrow> (bool \<times> cmem \<times> dynstring cptr) run" where
  "dynstring_append builtin malloc m p str = (case p of
     None \<Rightarrow> ret (False, m, p)
   | Some s \<Rightarrow>
       if str = null_ptr then ret (True, m, p)
       else bindR (str_len (heap_of m) str) (\<lambda>add_len.
         if add_len = 0 then ret (True, m, p)
         else bindR (dynstring_grow_detached builtin malloc m s (ds_len s + add_len + 1)) (\<lambda>(ok, m1, s1, old).
           if \<not> ok then ret (False, m1, Some s1) else ds_put m1 s1 str add_len old)))"

definition dynstring_append_char ::
  "bool \<Rightarrow> c_realloc \<Rightarrow> cmem \<Rightarrow> dynstring cptr \<Rightarrow> u8 \<Rightarrow> (bool \<times> cmem \<times> dynstring cptr) run" where
  "dynstring_append_char builtin realloc m p c = (case p of
     None \<Rightarrow> ret (False, m, p)
   | Some s \<Rightarrow>
       bindR (dynstring_ensure_capacity builtin realloc m p (ds_len s + 2)) (\<lambda>(ok, m1, p1).
         if \<not> ok then ret (False, m1, p1)
         else bindR (deref p1) (\<lambda>s1.
           bindR (on_heap m1 (\<lambda>h. write_bytes h (ds_data s1 + ds_len s1) [c])) (\<lambda>m2.
           let len = ds_len s1 + 1 in
           bindR (on_heap m2 (\<lambda>h. write_bytes h (ds_data s1 + len) [0])) (\<lambda>m3.
             ret (True, m3, Some (s1\<lparr>ds_len := len\<rparr>)))))))"

definition dynstring_append_fmt ::
  "bool \<Rightarrow> 'a vsnprintf \<Rightarrow> c_malloc \<Rightarrow> cmem \<Rightarrow> dynstring cptr \<Rightarrow> uptr \<Rightarrow> 'a \<Rightarrow> (bool \<times> cmem \<times> dynstring cptr) run" where
  "dynstring_append_fmt builtin vsnprintf malloc m p fmt args = (case p of
     None \<Rightarrow> ret (False, m, p)
   | Some s \<Rightarrow>
       if fmt = null_ptr then ret (False, m, p)
       else bindR (vsnprintf (heap_of m) null_ptr 0 fmt args) (\<lambda>(needed, h0). let m0 = m\<lparr>heap_of := h0\<rparr> in
         if needed < 0 then ret (False, m0, p)
         else bindR (dynstring_grow_detached builtin malloc m0 s (ds_len s + word_of_int needed + 1)) (\<lambda>(ok, m1, s1, old).
           if \<not> ok then ret (False, m1, Some s1)
           else bindR (vsnprintf (heap_of m1) (ds_data s1 + ds_len s1) (ds_cap s1 - ds_len s1) fmt args) (\<lambda>(written, h2).
             bindR (c_free old (m1\<lparr>heap_of := h2\<rparr>)) (\<lambda>m3.
             if written < 0 \<or> written \<noteq> needed
             then bindR (on_heap m3 (\<lambda>h. write_bytes h (ds_data s1 + ds_len s1) [0])) (\<lambda>m4. ret (False, m4, Some s1))
             else ret (True, m3, Some (s1\<lparr>ds_len := ds_len s1 + word_of_int written\<rparr>)))))))"

definition dynstring_append_n ::
  "bool \<Rightarrow> c_malloc \<Rightarrow> cmem \<Rightarrow> dynstring cptr \<Rightarrow> uptr \<Rightarrow> usize \<Rightarrow> (bool \<times> cmem \<times> dynstring cptr) run" where
  "dynstring_append_n builtin malloc m p str n = (case p of
     None \<Rightarrow> ret (False, m, p)
   | Some s \<Rightarrow>
       if str = null_ptr \<or> n = 0 then ret (True, m, p)
       else bindR (append_n_loop (heap_of m) str 0 (unat n)) (\<lambda>actual_len.
         if actual_len = 0 then ret (True, m, p)
         else bindR (dynstring_grow_detached builtin malloc m s (ds_len s + actual_len + 1)) (\<lambda>(ok, m1, s1, old).
           if \<not> ok then ret (False, m1, Some s1) else ds_put m1 s1 str actual_len old)))"

definition dynstring_clear :: "cmem \<Rightarrow> dynstring cptr \<Rightarrow> (cmem \<times> dynstring cptr) run" where
  "dynstring_clear m p = (case p of
     None \<Rightarrow> ret (m, p)
   | Some s \<Rightarrow> if ds_data s = null_ptr then ret (m, p)
       else bindR (on_heap m (\<lambda>h. write_bytes h (ds_data s) [0])) (\<lambda>m1. ret (m1, Some (s\<lparr>ds_len := 0\<rparr>))))"

definition dynstring_truncate :: "cmem \<Rightarrow> dynstring cptr \<Rightarrow> usize \<Rightarrow> (cmem \<times> dynstring cptr) run" where
  "dynstring_truncate m p new_len = (case p of
     None \<Rightarrow> ret (m, p)
   | Some s \<Rightarrow> if ds_data s = null_ptr \<or> \<not> new_len < ds_len s then ret (m, p)
       else bindR (on_heap m (\<lambda>h. write_bytes h (ds_data s + new_len) [0])) (\<lambda>m1. ret (m1, Some (s\<lparr>ds_len := new_len\<rparr>))))"

definition dynstring_reserve ::
  "bool \<Rightarrow> c_realloc \<Rightarrow> cmem \<Rightarrow> dynstring cptr \<Rightarrow> usize \<Rightarrow> (bool \<times> cmem \<times> dynstring cptr) run" where
  "dynstring_reserve builtin realloc m p min_cap =
     (if p = None then ret (False, m, p) else dynstring_ensure_capacity builtin realloc m p min_cap)"

definition dynstring_shrink_to_fit :: "c_realloc \<Rightarrow> cmem \<Rightarrow> dynstring cptr \<Rightarrow> (bool \<times> cmem \<times> dynstring cptr) run" where
  "dynstring_shrink_to_fit realloc m p = (case p of
     None \<Rightarrow> ret (True, m, p)
   | Some s \<Rightarrow>
       if ds_data s = null_ptr then ret (True, m, p)
       else if ds_len s = 0
       then bindR (c_free (ds_data s) m) (\<lambda>m1. ret (True, m1, Some (s\<lparr>ds_data := null_ptr, ds_cap := 0\<rparr>)))
       else if ds_cap s = ds_len s + 1 then ret (True, m, p)
       else let new_cap = ds_len s + 1 in
         case realloc (ds_data s) new_cap m of (new_data, m1) \<Rightarrow>
           if new_data = null_ptr then ret (False, m1, p)
           else ret (True, m1, Some (s\<lparr>ds_data := new_data, ds_cap := new_cap\<rparr>)))"

definition dynstring_free :: "cmem \<Rightarrow> dynstring cptr \<Rightarrow> (cmem \<times> dynstring cptr) run" where
  "dynstring_free m p = (case p of
     None \<Rightarrow> ret (m, p)
   | Some s \<Rightarrow> if ds_data s = null_ptr then ret (m, p)
       else bindR (c_free (ds_data s) m) (\<lambda>m1. ret (m1, Some \<lparr>ds_data = null_ptr, ds_len = 0, ds_cap = 0\<rparr>)))"

definition dynstring_to_cstr :: "uptr \<Rightarrow> c_malloc \<Rightarrow> cmem \<Rightarrow> dynstring cptr \<Rightarrow> (uptr \<times> cmem) run" where
  "dynstring_to_cstr lit malloc m p =
     (let src = (case p of Some s \<Rightarrow> if ds_data s \<noteq> null_ptr then ds_data s else lit | None \<Rightarrow> lit);
          len = (case p of Some s \<Rightarrow> if ds_data s \<noteq> null_ptr then ds_len s else 0 | None \<Rightarrow> 0) in
      case malloc (len + 1) m of (copy, m1) \<Rightarrow>
        if copy = null_ptr then ret (null_ptr, m1)
        else bindR (on_heap m1 (\<lambda>h. mem_copy h copy src (len + 1))) (\<lambda>m2. ret (copy, m2)))"

subsection \<open>The invariant\<close>

definition ds_ok :: "cmem \<Rightarrow> dynstring \<Rightarrow> u8 list \<Rightarrow> bool" where
  "ds_ok m s xs \<longleftrightarrow> ds_len s = of_nat (length xs) \<and>
     (if ds_data s = 0 then ds_cap s = 0 \<and> xs = []
      else blocks m (ds_data s) = Some (ds_cap s) \<and> (\<exists>rest. object (heap_of m) (ds_data s) (xs @ 0 # rest) (ds_cap s)))"

definition outside :: "cmem \<Rightarrow> dynstring \<Rightarrow> cmem" where
  "outside m s = (if ds_data s = 0 then m else without m (ds_data s) (ds_cap s))"

text \<open>
  What the C standard promises of \<open>malloc\<close>, \<open>realloc\<close> and \<open>vsnprintf\<close>. A call of \<open>vsnprintf\<close> is defined only when
  the arguments match the format and the strings it reads are there and do not overlap what it writes. So
  \<open>ptrs f args\<close> gives the addresses of the strings that a format text \<open>f\<close> reads of its arguments, or None for
  arguments that do not match; \<open>printed f args Y\<close> is the output when the string at \<open>p\<close> is \<open>Y p\<close>. Only for a format
  and arguments that are C strings in this heap, away from the destination, \<open>vsnprintf\<close> has to return: a negative
  number, or the length of the output, which it has written if there is room. Of every other call, as one with a pointer
  into freed memory, nothing is assumed.
\<close>

definition malloc_gives :: "c_malloc \<Rightarrow> bool" where
  "malloc_gives malloc \<longleftrightarrow> (\<forall>n m p m'. malloc n m = (p, m') \<longrightarrow>
     p = 0 \<and> m' = m \<or> (\<exists>bs. object (heap_of m') p bs n) \<and> blocks m' p = Some n \<and> without m' p n = m)"

definition realloc_gives :: "c_realloc \<Rightarrow> bool" where
  "realloc_gives realloc \<longleftrightarrow> (\<forall>p n m q m'. realloc p n m = (q, m') \<longrightarrow> n \<noteq> 0 \<longrightarrow> q = 0 \<and> m' = m \<or>
     (if p = 0 then (\<exists>bs. object (heap_of m') q bs n) \<and> blocks m' q = Some n \<and> without m' q n = m
      else \<forall>k xs. blocks m p = Some k \<longrightarrow> object (heap_of m) p xs k \<longrightarrow>
        (\<exists>ys. object (heap_of m') q ys n \<and> take (min (unat k) (unat n)) ys = take (min (unat k) (unat n)) xs) \<and>
        blocks m' q = Some n \<and> without m' q n = without m p k))"

definition vsnprintf_prints ::
  "'a vsnprintf \<Rightarrow> (u8 list \<Rightarrow> 'a \<Rightarrow> uptr set option) \<Rightarrow> (u8 list \<Rightarrow> 'a \<Rightarrow> (uptr \<Rightarrow> u8 list) \<Rightarrow> u8 list) \<Rightarrow> bool" where
  "vsnprintf_prints v ptrs printed \<longleftrightarrow> (\<forall>h s n fmt args P Y. ptrs (Y fmt) args = Some P \<longrightarrow>
     (\<forall>p \<in> insert fmt P. cstr h p (Y p) \<and> span p (Suc (length (Y p))) \<inter> span s (unat n) = {}) \<longrightarrow>
     n = 0 \<or> (\<exists>xs. object h s xs n) \<longrightarrow>
     (\<exists>r h'. v h s n fmt args = ret (r, h') \<and> (0 \<le> r \<longrightarrow> r = int (length (printed (Y fmt) args Y)) \<and>
        (nat r < unat n \<longrightarrow> region h' s (printed (Y fmt) args Y)))))"

lemma vsnprintf_printsD:
  assumes "vsnprintf_prints v ptrs printed" "ptrs (Y fmt) args = Some P"
    "\<And>p. p \<in> insert fmt P \<Longrightarrow> cstr h p (Y p)" "\<And>p. p \<in> insert fmt P \<Longrightarrow> span p (Suc (length (Y p))) \<inter> span s (unat n) = {}"
    "n = 0 \<or> (\<exists>xs. object h s xs n)"
  shows "\<exists>r h'. v h s n fmt args = ret (r, h') \<and> (0 \<le> r \<longrightarrow> r = int (length (printed (Y fmt) args Y)) \<and>
        (nat r < unat n \<longrightarrow> region h' s (printed (Y fmt) args Y)))"
proof -
  have "\<forall>p \<in> insert fmt P. cstr h p (Y p) \<and> span p (Suc (length (Y p))) \<inter> span s (unat n) = {}" using assms(3,4) by blast
  with assms(1) [unfolded vsnprintf_prints_def, rule_format, of Y fmt args P h s n] assms(2,5) show ?thesis by blast
qed

lemma without_simps [simp]:
  "heap_of (without m p n) q = (if q \<in> span p (unat n) then None else heap_of m q)"
  "blocks (without m p n) = (blocks m)(p := None)"
  by (simp_all add: without_def span_def)

lemma cmem_eqI: "(\<And>q. heap_of m q = heap_of m' q) \<Longrightarrow> blocks m = blocks m' \<Longrightarrow> m = (m' :: cmem)"
  by (cases m; cases m') (simp add: fun_eq_iff)

lemma without_commute: "without (without m a k) b n = without (without m b n) a k"
  by (intro cmem_eqI) (auto simp: fun_upd_twist fun_eq_iff)

lemma without_cong:
  assumes "\<And>q. q \<notin> span p (unat n) \<Longrightarrow> heap_of m q = heap_of m' q" "\<And>q. q \<noteq> p \<Longrightarrow> blocks m q = blocks m' q"
  shows "without m p n = without m' p n"
  using assms by (intro cmem_eqI) (auto simp: fun_eq_iff)

lemma outside_len [simp]: "outside m (s\<lparr>ds_len := n\<rparr>) = outside m s"
  by (simp add: outside_def)

lemma on_heap_simps [simp]:
  "f (heap_of m) = ret h \<Longrightarrow> on_heap m f = ret (m\<lparr>heap_of := h\<rparr>)"
  by (simp add: on_heap_def)

lemma object_span: "object h p xs n \<Longrightarrow> q \<in> span p (unat n) \<Longrightarrow> h q \<noteq> None"
  using region_mapped [of p xs h q] by (simp add: object_def)

lemma object_cong:
  assumes "object h p xs n" "\<And>q. q \<in> span p (unat n) \<Longrightarrow> h' q = h q"
  shows "object h' p xs n"
  using assms region_cong [of p xs h h'] by (auto simp: object_def)

lemma ds_ok_len:
  assumes "ds_ok m s xs"
  shows "unat (ds_len s) = length xs" "ds_data s \<noteq> 0 \<Longrightarrow> length xs < unat (ds_cap s)"
proof -
  have "ds_data s \<noteq> 0 \<Longrightarrow> length xs < unat (ds_cap s)" using assms by (auto simp: ds_ok_def object_def)
  moreover from this have "length xs < 2 ^ 64" using assms usize_bound [of "ds_cap s"]
    by (cases "ds_data s = 0") (auto simp: ds_ok_def)
  ultimately show "unat (ds_len s) = length xs" "ds_data s \<noteq> 0 \<Longrightarrow> length xs < unat (ds_cap s)"
    using assms by (simp_all add: ds_ok_def unat_of_small)
qed

lemma ds_ok_cap: "ds_ok m s xs \<Longrightarrow> 0 < unat (ds_cap s) \<Longrightarrow> ds_data s \<noteq> 0"
  by (auto simp: ds_ok_def)

lemma dynstring_next_cap_value: "\<exists>c. dynstring_next_cap builtin s n = ret c \<and> n \<le> c"
  by (auto simp: dynstring_next_cap_def)

lemma malloc_givesD:
  assumes "malloc_gives malloc" "malloc n m = (p, m')" "p \<noteq> 0"
  shows "\<exists>bs. object (heap_of m') p bs n" "blocks m' p = Some n" "without m' p n = m"
  using assms(1) [unfolded malloc_gives_def, rule_format, OF assms(2)] assms(3) by simp_all

lemma malloc_gives_null: "malloc_gives malloc \<Longrightarrow> malloc n m = (0, m') \<Longrightarrow> m' = m"
  unfolding malloc_gives_def object_def by blast

subsection \<open>Growing by a new buffer\<close>

text \<open>The buffer of \<open>s\<close> has room, or the string has moved to a new buffer and the old one is still allocated.\<close>

definition grown :: "cmem \<Rightarrow> dynstring \<Rightarrow> uptr \<Rightarrow> cmem \<Rightarrow> dynstring \<Rightarrow> bool" where
  "grown m s old m1 s1 \<longleftrightarrow> m1 = m \<and> s1 = s \<and> old = 0 \<or>
     old = ds_data s \<and> ds_data s1 \<noteq> 0 \<and> without m1 (ds_data s1) (ds_cap s1) = m"

lemma write_at:
  assumes "object h p (xs @ y # zs) n"
  shows "\<exists>h'. write_bytes h (p + of_nat (length xs)) [c] = ret h' \<and> object h' p (xs @ c # zs) n \<and> (\<forall>q. q \<notin> span p (unat n) \<longrightarrow> h' q = h q)"
  using object_splice [of h p xs "[y]" zs n "[c]"] assms by simp

text \<open>A copy behind \<open>xs\<close> from anywhere but the part that is written.\<close>

lemma copy_tail:
  assumes "object h p (xs @ rest) n" "region h src ys" "src \<noteq> 0" "fits src (length ys)" "ys \<noteq> []" "length xs + length ys \<le> unat n"
    "span src (length ys) \<inter> span (p + of_nat (length xs)) (unat n - length xs) = {}"
  shows "\<exists>h' zs. mem_copy h (p + of_nat (length xs)) src (of_nat (length ys)) = ret h' \<and> object h' p (xs @ ys @ zs) n \<and>
    (\<forall>q. q \<notin> span p (unat n) \<longrightarrow> h' q = h q)"
proof -
  from object_room [OF assms(1,6)] obtain as zs where r: "rest = as @ zs" "length as = length ys" by blast
  then have o: "object h p (xs @ as @ zs) n" "as \<noteq> []" using assms(1,5) by auto
  let ?d = "p + of_nat (length xs)" and ?n = "of_nat (length ys) :: usize"
  have d: "object h ?d as ?n" using object_middle [OF o] r(2) by simp
  then have n: "unat ?n = length ys" using r(2) by (simp add: object_def)
  have "object h src ys ?n" using assms(2-4) n by (simp add: object_def)
  moreover have "span ?d (length ys) \<subseteq> span ?d (unat n - length xs)" using assms(6) by (auto simp: span_def)
  then have "\<not> mem_regions_overlap ?d src ?n" using assms(3,7) d n by (subst mem_regions_overlap_iff) (auto simp: object_def)
  ultimately obtain h' where h': "mem_copy h ?d src ?n = ret h'" "object h' ?d ys ?n" "\<forall>q. q \<notin> span ?d (unat ?n) \<longrightarrow> h' q = h q"
    using mem_copy_object [of h src ys ?n ?d as] d by auto
  then have "region h' ?d ys" "\<forall>q. q \<notin> span ?d (length as) \<longrightarrow> h' q = h q" using n r(2) by (simp_all add: object_def)
  from object_replace [OF o(1) r(2) [symmetric] o(2) this] h'(1) show ?thesis by blast
qed

text \<open>A block of memory is not where a new one is.\<close>

lemma new_block_apart:
  assumes "without m1 p n = m" "object (heap_of m) d xs k" "q \<in> span d (unat k)"
  shows "q \<notin> span p (unat n) \<and> heap_of m1 q = heap_of m q"
proof -
  have "heap_of m q \<noteq> None" by (rule object_span [OF assms(2,3)])
  then show ?thesis using assms(1) without_simps(1) [of m1 p n q] by (auto split: if_splits)
qed

text \<open>The new buffer gets the text and a terminator.\<close>

definition fill_new :: "dynstring \<Rightarrow> uptr \<Rightarrow> heap \<Rightarrow> heap run" where
  "fill_new s p h = (if ds_data s \<noteq> null_ptr then mem_copy h p (ds_data s) (ds_len s + 1) else write_bytes h p [0])"

lemma fill_new_value:
  assumes "ds_ok m s xs" "object (heap_of m1) p bs c" "without m1 p c = m" "unat (ds_cap s) < unat c"
  shows "\<exists>h rest. fill_new s p (heap_of m1) = ret h \<and> object h p (xs @ 0 # rest) c \<and> (\<forall>q. q \<notin> span p (unat c) \<longrightarrow> h q = heap_of m1 q)"
proof (cases "ds_data s = 0")
  case True
  then have "xs = []" using assms(1) by (simp add: ds_ok_def)
  moreover obtain b bs' where "bs = b # bs'" using assms(2,4) by (cases bs) (auto simp: object_def)
  ultimately show ?thesis using write_at [of "heap_of m1" p "[]" b bs' c 0] assms(2) True by (auto simp: fill_new_def null_ptr_def)
next
  case False
  then obtain rest where o: "object (heap_of m) (ds_data s) (xs @ 0 # rest) (ds_cap s)" using assms(1) by (auto simp: ds_ok_def)
  have len: "length (xs @ [0]) \<le> unat (ds_cap s)" using ds_ok_len(2) [OF assms(1) False] by simp
  note apart = new_block_apart [OF assms(3) o]
  have "object (heap_of m1) (ds_data s) (xs @ 0 # rest) (ds_cap s)" using apart by (intro object_cong [OF o]) blast
  then have "region (heap_of m1) (ds_data s) ((xs @ [0]) @ rest)" "fits (ds_data s) (length (xs @ [0]))"
    using len by (simp_all add: object_def fits_def)
  moreover have "span (ds_data s) (length (xs @ [0])) \<subseteq> span (ds_data s) (unat (ds_cap s))" using len by (auto simp: span_def)
  then have "span (ds_data s) (length (xs @ [0])) \<inter> span p (unat c) = {}" using apart by blast
  moreover have "ds_len s + 1 = of_nat (length (xs @ [0]))" using assms(1) by (simp add: ds_ok_def)
  ultimately show ?thesis
    using copy_tail [of "heap_of m1" p "[]" bs c "ds_data s" "xs @ [0]"] assms(2) False len assms(4)
    by (simp add: fill_new_def null_ptr_def region_append add.commute)
qed

lemma grow_detached_value:
  assumes "malloc_gives malloc" "ds_ok m s xs" "n \<noteq> 0"
  shows "\<exists>ok m1 s1 old. dynstring_grow_detached builtin malloc m s n = ret (ok, m1, s1, old) \<and>
    (if ok then ds_ok m1 s1 xs \<and> n \<le> ds_cap s1 \<and> ds_data s1 \<noteq> 0 \<and> grown m s old m1 s1 else m1 = m \<and> s1 = s)"
proof (cases "n \<le> ds_cap s")
  case True
  have "0 < unat n" using assms(3) by (simp add: unat_gt_0)
  then have "ds_data s \<noteq> 0" using True ds_ok_cap [OF assms(2)] by (auto simp: word_le_nat_alt)
  with True assms(2) show ?thesis by (auto simp: dynstring_grow_detached_def grown_def null_ptr_def)
next
  case False
  obtain c where c: "dynstring_next_cap builtin s n = ret c" "n \<le> c" using dynstring_next_cap_value by blast
  obtain p m1 where al: "malloc c m = (p, m1)" by (cases "malloc c m")
  show ?thesis
  proof (cases "p = 0")
    case True
    then show ?thesis using False c(1) al malloc_gives_null [OF assms(1), of c m m1]
      by (auto simp: dynstring_grow_detached_def null_ptr_def)
  next
    case p: False
    note g = malloc_givesD [OF assms(1) al p]
    have "unat (ds_cap s) < unat c" using False c(2) by (simp add: word_le_nat_alt)
    with fill_new_value [OF assms(2) _ g(3)] g(1) obtain h rest where h: "fill_new s p (heap_of m1) = ret h"
      "object h p (xs @ 0 # rest) c" "\<forall>q. q \<notin> span p (unat c) \<longrightarrow> h q = heap_of m1 q" by blast
    let ?s = "s\<lparr>ds_data := p, ds_cap := c\<rparr>" and ?m = "m1\<lparr>heap_of := h\<rparr>"
    have "dynstring_grow_detached builtin malloc m s n = ret (True, ?m, ?s, ds_data s)"
      using False c(1) al p h(1) by (simp add: dynstring_grow_detached_def fill_new_def null_ptr_def on_heap_def)
    moreover have "ds_ok ?m ?s xs" using assms(2) h(2) g(2) p by (auto simp: ds_ok_def)
    moreover have "without ?m p c = m" unfolding g(3) [symmetric] using h(3) by (intro without_cong) simp_all
    ultimately show ?thesis using c(2) p by (auto simp: grown_def)
  qed
qed

text \<open>When the new buffer is written, the old one is freed.\<close>

lemma grown_outside: "grown m s old m1 s1 \<Longrightarrow> old = 0 \<Longrightarrow> outside m1 s1 = outside m s"
  by (auto simp: grown_def outside_def)

lemma free_old:
  assumes "grown m s old m1 s1" "ds_ok m s xs" "ds_data s1 \<noteq> 0" "blocks m1 (ds_data s1) = Some (ds_cap s1)"
    "\<forall>q. q \<notin> span (ds_data s1) (unat (ds_cap s1)) \<longrightarrow> h q = heap_of m1 q"
  shows "\<exists>m3. c_free old (m1\<lparr>heap_of := h\<rparr>) = ret m3 \<and> outside m3 s1 = outside m s \<and> blocks m3 (ds_data s1) = Some (ds_cap s1) \<and>
    (\<forall>q \<in> span (ds_data s1) (unat (ds_cap s1)). heap_of m3 q = h q)"
proof -
  let ?m = "m1\<lparr>heap_of := h\<rparr>" and ?d = "ds_data s1" and ?n = "ds_cap s1"
  have w: "without ?m ?d ?n = without m1 ?d ?n" using assms(5) by (intro without_cong) simp_all
  show ?thesis
  proof (cases "old = 0")
    case True
    then have "outside ?m s1 = outside m s" using grown_outside [OF assms(1)] w assms(3) by (simp add: outside_def)
    then show ?thesis using True assms(4) by (simp add: c_free_def null_ptr_def)
  next
    case False
    then have g: "old = ds_data s" "without m1 ?d ?n = m" using assms(1) by (auto simp: grown_def)
    have b: "blocks m old = Some (ds_cap s)" using assms(2) g(1) False by (simp add: ds_ok_def)
    then have ne: "old \<noteq> ?d" "blocks m1 old = Some (ds_cap s)" using g(2) without_simps(2) [of m1 ?d ?n] by (auto split: if_splits)
    have out: "q \<notin> span old (unat (ds_cap s))" if "q \<in> span ?d (unat ?n)" for q
    proof
      assume q: "q \<in> span old (unat (ds_cap s))"
      obtain rest where "object (heap_of m) old (xs @ 0 # rest) (ds_cap s)" using assms(2) g(1) False by (auto simp: ds_ok_def)
      from object_span [OF this q] have "heap_of m q \<noteq> None" .
      then show False using that g(2) without_simps(1) [of m1 ?d ?n q] by simp
    qed
    have "c_free old ?m = ret (without ?m old (ds_cap s))" using False ne(2) by (simp add: c_free_def null_ptr_def)
    moreover have "outside (without ?m old (ds_cap s)) s1 = outside m s"
      using assms(3) False g w without_commute [of ?m old "ds_cap s" ?d ?n] by (simp add: outside_def)
    moreover have "blocks (without ?m old (ds_cap s)) ?d = Some ?n" using ne(1) assms(4) by simp
    moreover have "\<forall>q \<in> span ?d (unat ?n). heap_of (without ?m old (ds_cap s)) q = h q" using out by simp
    ultimately show ?thesis by blast
  qed
qed

text \<open>A text that the appends may be given: it lies where the copy does not write.\<close>

definition ds_source :: "cmem \<Rightarrow> dynstring \<Rightarrow> uptr \<Rightarrow> u8 list \<Rightarrow> bool" where
  "ds_source m s str ys \<longleftrightarrow> region (heap_of m) str ys \<and> str \<noteq> 0 \<and> fits str (length ys) \<and>
     (ds_data s \<noteq> 0 \<longrightarrow> span str (length ys) \<inter> span (ds_data s + ds_len s) (unat (ds_cap s) - unat (ds_len s)) = {})"

lemma ds_put_value:
  assumes "grown m s old m1 s1" "ds_ok m s xs" "ds_ok m1 s1 xs" "ds_data s1 \<noteq> 0" "ds_source m s str ys" "ys \<noteq> []"
    "length xs + length ys < unat (ds_cap s1)" "n = of_nat (length ys)"
  shows "\<exists>m' s'. ds_put m1 s1 str n old = ret (True, m', Some s') \<and> ds_ok m' s' (xs @ ys) \<and> outside m' s' = outside m s"
proof -
  let ?d = "ds_data s1" and ?n = "ds_cap s1"
  obtain rest where o: "object (heap_of m1) ?d (xs @ 0 # rest) ?n" and b: "blocks m1 ?d = Some ?n"
    and l: "ds_len s1 = of_nat (length xs)" using assms(3,4) by (auto simp: ds_ok_def)
  have src: "region (heap_of m1) str ys \<and> span str (length ys) \<inter> span (?d + of_nat (length xs)) (unat ?n - length xs) = {}"
  proof (cases "m1 = m \<and> s1 = s")
    case True
    then show ?thesis using assms(4,5) l ds_ok_len(1) [OF assms(3)] by (auto simp: ds_source_def)
  next
    case False
    then have w: "without m1 ?d ?n = m" using assms(1) by (auto simp: grown_def)
    have r: "region (heap_of m) str ys" "fits str (length ys)" using assms(5) by (simp_all add: ds_source_def)
    have q: "q \<notin> span ?d (unat ?n) \<and> heap_of m1 q = heap_of m q" if "q \<in> span str (length ys)" for q
      using region_mapped [OF r(2,1) that] w without_simps(1) [of m1 ?d ?n q] by auto
    have "region (heap_of m1) str ys" using r q by (subst region_cong [of str ys _ "heap_of m"]) auto
    moreover have "span (?d + of_nat (length xs)) (unat ?n - length xs) \<subseteq> span ?d (unat ?n)"
      using o unat_ptr_plus [of ?d "unat ?n" "length xs"] by (auto simp: span_def object_def)
    ultimately show ?thesis using q by blast
  qed
  have "str \<noteq> 0" "fits str (length ys)" using assms(5) by (simp_all add: ds_source_def)
  from copy_tail [OF o _ this assms(6)] src assms(7) obtain h1 zs where
    h1: "mem_copy (heap_of m1) (?d + of_nat (length xs)) str n = ret h1" "object h1 ?d (xs @ ys @ zs) ?n"
      "\<forall>q. q \<notin> span ?d (unat ?n) \<longrightarrow> h1 q = heap_of m1 q" unfolding assms(8) by auto
  obtain z zs' where "zs = z # zs'" using h1(2) assms(7) by (cases zs) (auto simp: object_def)
  with write_at [of h1 ?d "xs @ ys" z zs' ?n 0] h1(2) obtain h2 where
    h2: "write_bytes h1 (?d + of_nat (length xs + length ys)) [0] = ret h2" "object h2 ?d ((xs @ ys) @ 0 # zs') ?n"
      "\<forall>q. q \<notin> span ?d (unat ?n) \<longrightarrow> h2 q = h1 q" by auto
  have "\<forall>q. q \<notin> span ?d (unat ?n) \<longrightarrow> h2 q = heap_of m1 q" using h1(3) h2(3) by simp
  from free_old [OF assms(1,2,4) b this] obtain m3 where
    m3: "c_free old (m1\<lparr>heap_of := h2\<rparr>) = ret m3" "outside m3 s1 = outside m s" "blocks m3 ?d = Some ?n"
      "\<forall>q \<in> span ?d (unat ?n). heap_of m3 q = h2 q" by blast
  have len: "ds_len s1 + n = of_nat (length (xs @ ys))" using l assms(8) by simp
  have "ds_put m1 s1 str n old = ret (True, m3, Some (s1\<lparr>ds_len := ds_len s1 + n\<rparr>))"
    using h1(1) h2(1) m3(1) l assms(8) by (simp add: ds_put_def on_heap_def Let_def)
  moreover have "object (heap_of m3) ?d ((xs @ ys) @ 0 # zs') ?n" using m3(4) by (intro object_cong [OF h2(2)]) simp
  then have "ds_ok m3 (s1\<lparr>ds_len := ds_len s1 + n\<rparr>) (xs @ ys)" using len m3(3) assms(4) by (auto simp: ds_ok_def)
  ultimately show ?thesis using m3(2) by auto
qed

subsection \<open>The operations\<close>

text \<open>The operation gives the text \<open>ys\<close>, or it fails and nothing has happened.\<close>

definition ds_outcome :: "cmem \<Rightarrow> dynstring \<Rightarrow> u8 list \<Rightarrow> (bool \<times> cmem \<times> dynstring cptr) run \<Rightarrow> bool" where
  "ds_outcome m s ys r \<longleftrightarrow> (\<exists>ok m' s'. r = ret (ok, m', Some s') \<and>
     (if ok then ds_ok m' s' ys \<and> outside m' s' = outside m s else m' = m \<and> s' = s))"

lemma ds_outcome_done: "ds_ok m s ys \<Longrightarrow> ds_outcome m s ys (ret (True, m, Some s))"
  by (auto simp: ds_outcome_def)

lemma grow_then_put:
  assumes "malloc_gives malloc" "ds_ok m s xs" "ds_source m s str ys" "ys \<noteq> []" "length xs + length ys + 1 < 2 ^ 64"
    "n = of_nat (length ys)"
  shows "ds_outcome m s (xs @ ys) (bindR (dynstring_grow_detached builtin malloc m s (ds_len s + n + 1)) (\<lambda>(ok, m1, s1, old).
    if \<not> ok then ret (False, m1, Some s1) else ds_put m1 s1 str n old))"
proof -
  let ?r = "ds_len s + n + 1"
  have "?r = of_nat (length xs + length ys + 1)" using assms(2,6) by (simp add: ds_ok_def)
  then have r: "unat ?r = length xs + length ys + 1" using unat_of_small [OF assms(5)] by (simp only:)
  then have "?r \<noteq> 0" by auto
  from grow_detached_value [OF assms(1,2) this, of builtin] obtain ok m1 s1 old where
    g: "dynstring_grow_detached builtin malloc m s ?r = ret (ok, m1, s1, old)"
    "if ok then ds_ok m1 s1 xs \<and> ?r \<le> ds_cap s1 \<and> ds_data s1 \<noteq> 0 \<and> grown m s old m1 s1 else m1 = m \<and> s1 = s" by blast
  show ?thesis
  proof (cases ok)
    case True
    then have "length xs + length ys < unat (ds_cap s1)" using g(2) r by (simp add: word_le_nat_alt)
    with True g ds_put_value [of m s old m1 s1 xs str ys n] assms(2-4,6) show ?thesis by (auto simp: ds_outcome_def)
  qed (use g in \<open>auto simp: ds_outcome_def\<close>)
qed

lemma dynstring_append_value:
  assumes "malloc_gives malloc" "ds_ok m s xs" "cstr (heap_of m) str ys" "ds_source m s str ys" "length xs + length ys + 1 < 2 ^ 64"
  shows "ds_outcome m s (xs @ ys) (dynstring_append builtin malloc m (Some s) str)"
proof (cases "ys = []")
  case True
  then show ?thesis using assms(2) str_len_value [OF assms(3)] by (simp add: dynstring_append_def ds_outcome_done)
next
  case False
  have "(of_nat (length ys) :: usize) \<noteq> 0" using False cstr_bounds [OF assms(3)] by (metis length_0_conv unat_0)
  then show ?thesis using grow_then_put [OF assms(1,2,4) False assms(5) refl, of builtin] assms(3) str_len_value [OF assms(3)]
    by (simp add: dynstring_append_def cstr_def null_ptr_def)
qed

lemma dynstring_append_n_value:
  assumes "malloc_gives malloc" "ds_ok m s xs" "n_string (heap_of m) str (unat n) ys" "ds_source m s str ys"
    "length xs + length ys + 1 < 2 ^ 64"
  shows "ds_outcome m s (xs @ ys) (dynstring_append_n builtin malloc m (Some s) str n)"
proof -
  have loop: "append_n_loop (heap_of m) str 0 (unat n) = ret (of_nat (length ys))"
    using append_n_loop_value [of "heap_of m" str 0 "unat n" ys] assms(3) by simp
  have le: "length ys \<le> unat n" using assms(3) by (auto simp: n_string_def split: if_splits)
  show ?thesis
  proof (cases "ys = []")
    case True
    then show ?thesis using assms(2) loop by (simp add: dynstring_append_n_def ds_outcome_done)
  next
    case False
    then have "(of_nat (length ys) :: usize) \<noteq> 0" using unat_of_small [of "length ys"] assms(5) by (metis add_lessD1 add.commute length_0_conv unat_0)
    moreover have "n \<noteq> 0" "str \<noteq> null_ptr" using False le assms(4) by (auto simp: ds_source_def null_ptr_def)
    ultimately show ?thesis using grow_then_put [OF assms(1,2,4) False assms(5) refl, of builtin] loop
      by (simp add: dynstring_append_n_def)
  qed
qed

text \<open>\<open>realloc\<close> of the buffer, to a size that holds the string.\<close>

lemma realloc_string:
  assumes "realloc_gives realloc" "ds_ok m s xs" "realloc (ds_data s) n m = (p, m1)" "length xs < unat n"
  shows "p = 0 \<and> m1 = m \<or> p \<noteq> 0 \<and> (ds_data s \<noteq> 0 \<longrightarrow> (\<exists>rest. object (heap_of m1) p (xs @ 0 # rest) n)) \<and>
    (\<exists>bs. object (heap_of m1) p bs n) \<and> blocks m1 p = Some n \<and> without m1 p n = outside m s"
proof -
  have "n \<noteq> 0" using assms(4) by auto
  note g = assms(1) [unfolded realloc_gives_def, rule_format, OF assms(3) this]
  show ?thesis
  proof (cases "ds_data s = 0")
    case True
    then show ?thesis using g by (auto simp: outside_def object_def)
  next
    case False
    let ?k = "min (unat (ds_cap s)) (unat n)"
    obtain rest where o: "object (heap_of m) (ds_data s) (xs @ 0 # rest) (ds_cap s)" "blocks m (ds_data s) = Some (ds_cap s)"
      using assms(2) False by (auto simp: ds_ok_def)
    with g False consider "p = 0 \<and> m1 = m" | zs where "object (heap_of m1) p zs n" "take ?k zs = take ?k (xs @ 0 # rest)"
      "blocks m1 p = Some n" "without m1 p n = without m (ds_data s) (ds_cap s)" by (auto simp del: take_append)
    then show ?thesis
    proof cases
      case 2
      have "length xs < ?k" using ds_ok_len(2) [OF assms(2) False] assms(4) by simp
      then obtain j where "?k - length xs = Suc j" by (metis Suc_diff_Suc)
      then have "zs = xs @ 0 # (take j rest @ drop ?k zs)"
        using 2(2) \<open>length xs < ?k\<close> append_take_drop_id [of ?k zs] by (auto simp del: append_take_drop_id)
      then have "\<exists>rest. object (heap_of m1) p (xs @ 0 # rest) n" using 2(1) by metis
      then show ?thesis using 2 False by (auto simp: outside_def object_def)
    qed blast
  qed
qed

lemma ensure_capacity_value:
  assumes "realloc_gives realloc" "ds_ok m s xs"
  shows "\<exists>ok m' s'. dynstring_ensure_capacity builtin realloc m (Some s) n = ret (ok, m', Some s') \<and>
    (if ok then ds_ok m' s' xs \<and> outside m' s' = outside m s \<and> n \<le> ds_cap s' else m' = m \<and> s' = s)"
proof (cases "n \<le> ds_cap s")
  case True
  then show ?thesis using assms(2) by (auto simp: dynstring_ensure_capacity_def)
next
  case False
  obtain c where c: "dynstring_next_cap builtin s n = ret c" "n \<le> c" using dynstring_next_cap_value by blast
  obtain p m1 where al: "realloc (ds_data s) c m = (p, m1)" by (cases "realloc (ds_data s) c m")
  have lt: "unat (ds_cap s) < unat c" using False c(2) by (simp add: word_le_nat_alt)
  then have "length xs < unat c" using ds_ok_len(2) [OF assms(2)] assms(2) by (cases "ds_data s = 0") (auto simp: ds_ok_def)
  note g = realloc_string [OF assms al this]
  have val: "dynstring_ensure_capacity builtin realloc m (Some s) n =
    (if p = 0 then ret (False, m1, Some s) else bindR (if ds_data s = 0 then on_heap m1 (\<lambda>h. write_bytes h p [0]) else ret m1) (\<lambda>m2.
       ret (True, m2, Some (s\<lparr>ds_data := p, ds_cap := c\<rparr>))))"
    using False c(1) al by (simp add: dynstring_ensure_capacity_def null_ptr_def)
  consider "p = 0" "m1 = m" | "p \<noteq> 0" "ds_data s = 0" | "p \<noteq> 0" "ds_data s \<noteq> 0" using g by blast
  then show ?thesis
  proof cases
    case 1
    then show ?thesis using val by auto
  next
    case 2
    then obtain bs where bs: "object (heap_of m1) p bs c" "blocks m1 p = Some c" "without m1 p c = m"
      using g by (auto simp: outside_def)
    then obtain b bs' where "bs = b # bs'" using lt by (cases bs) (auto simp: object_def)
    with bs write_at [of "heap_of m1" p "[]" b bs' c 0] obtain h where
      h: "write_bytes (heap_of m1) p [0] = ret h" "object h p (0 # bs') c" "\<forall>q. q \<notin> span p (unat c) \<longrightarrow> h q = heap_of m1 q" by auto
    have "without (m1\<lparr>heap_of := h\<rparr>) p c = m" unfolding bs(3) [symmetric] using h(3) by (intro without_cong) simp_all
    then show ?thesis using val 2 h bs(2) c(2) assms(2) by (auto simp: ds_ok_def outside_def)
  next
    case 3
    then show ?thesis using val g c(2) assms(2) by (auto simp: ds_ok_def outside_def)
  qed
qed

lemma dynstring_shrink_to_fit_value:
  assumes "realloc_gives realloc" "ds_ok m s xs"
  shows "ds_outcome m s xs (dynstring_shrink_to_fit realloc m (Some s))"
proof (cases "ds_data s = 0 \<or> ds_cap s = ds_len s + 1 \<and> ds_len s \<noteq> 0")
  case True
  then show ?thesis using assms(2) by (auto simp: dynstring_shrink_to_fit_def null_ptr_def intro: ds_outcome_done)
next
  case False
  then have d: "ds_data s \<noteq> 0" by simp
  note l = ds_ok_len(1) [OF assms(2)] ds_ok_len(2) [OF assms(2) d]
  have b: "blocks m (ds_data s) = Some (ds_cap s)" using assms(2) d by (simp add: ds_ok_def)
  show ?thesis
  proof (cases "ds_len s = 0")
    case True
    then have "xs = []" using l(1) by simp
    then show ?thesis using True d b by (auto simp: dynstring_shrink_to_fit_def c_free_def null_ptr_def ds_outcome_def ds_ok_def outside_def)
  next
    case n: False
    let ?n = "ds_len s + 1"
    obtain p m1 where al: "realloc (ds_data s) ?n m = (p, m1)" by (cases "realloc (ds_data s) ?n m")
    have "length xs < unat ?n" using l usize_bound [of "ds_cap s"] by (simp add: unat_usize_Suc)
    note g = realloc_string [OF assms al this]
    have val: "dynstring_shrink_to_fit realloc m (Some s) =
      (if p = 0 then ret (False, m1, Some s) else ret (True, m1, Some (s\<lparr>ds_data := p, ds_cap := ?n\<rparr>)))"
      using False n d al by (simp add: dynstring_shrink_to_fit_def null_ptr_def)
    show ?thesis
    proof (cases "p = 0")
      case True
      then show ?thesis using val g by (auto simp: ds_outcome_def)
    next
      case False
      then show ?thesis using val g d assms(2) by (auto simp: ds_outcome_def ds_ok_def outside_def)
    qed
  qed
qed

lemma dynstring_reserve_value:
  "realloc_gives realloc \<Longrightarrow> ds_ok m s xs \<Longrightarrow> ds_outcome m s xs (dynstring_reserve builtin realloc m (Some s) n)"
  using ensure_capacity_value [of realloc m s xs builtin n] by (auto simp: dynstring_reserve_def ds_outcome_def split: if_splits)

text \<open>A terminator in the string.\<close>

lemma ds_cut:
  assumes "ds_ok m s xs" "ds_data s \<noteq> 0" "k \<le> length xs"
  shows "\<exists>h. write_bytes (heap_of m) (ds_data s + of_nat k) [0] = ret h \<and> ds_ok (m\<lparr>heap_of := h\<rparr>) (s\<lparr>ds_len := of_nat k\<rparr>) (take k xs) \<and>
    outside (m\<lparr>heap_of := h\<rparr>) s = outside m s"
proof -
  obtain rest where o: "object (heap_of m) (ds_data s) (xs @ 0 # rest) (ds_cap s)" "blocks m (ds_data s) = Some (ds_cap s)"
    using assms(1,2) by (auto simp: ds_ok_def)
  obtain z zs where "drop k xs @ 0 # rest = z # zs" by (cases "drop k xs @ 0 # rest") simp_all
  then have "xs @ 0 # rest = take k xs @ z # zs" by (metis append.assoc append_take_drop_id)
  with write_at [of "heap_of m" "ds_data s" "take k xs" z zs "ds_cap s" 0] o(1) assms(3) obtain h where
    h: "write_bytes (heap_of m) (ds_data s + of_nat k) [0] = ret h" "object h (ds_data s) (take k xs @ 0 # zs) (ds_cap s)"
    "\<forall>q. q \<notin> span (ds_data s) (unat (ds_cap s)) \<longrightarrow> h q = heap_of m q" by (auto simp: min_absorb1)
  have "outside (m\<lparr>heap_of := h\<rparr>) s = outside m s" using h(3) assms(2) by (auto simp: outside_def intro!: without_cong)
  with h assms o(2) show ?thesis by (auto simp: ds_ok_def min_absorb1)
qed

lemma dynstring_clear_value:
  assumes "ds_ok m s xs"
  shows "\<exists>m' s'. dynstring_clear m (Some s) = ret (m', Some s') \<and> ds_ok m' s' [] \<and> outside m' s' = outside m s"
proof (cases "ds_data s = 0")
  case True
  then show ?thesis using assms by (simp add: dynstring_clear_def null_ptr_def ds_ok_def)
next
  case False
  then show ?thesis using ds_cut [OF assms False, of 0] by (auto simp: dynstring_clear_def null_ptr_def on_heap_def)
qed

lemma dynstring_truncate_value:
  assumes "ds_ok m s xs"
  shows "\<exists>m' s'. dynstring_truncate m (Some s) n = ret (m', Some s') \<and> ds_ok m' s' (take (unat n) xs) \<and> outside m' s' = outside m s"
proof (cases "ds_data s = 0 \<or> \<not> n < ds_len s")
  case True
  then have "take (unat n) xs = xs" using assms ds_ok_len(1) [OF assms] by (auto simp: ds_ok_def word_less_nat_alt)
  then show ?thesis using True assms by (simp add: dynstring_truncate_def null_ptr_def)
next
  case False
  then have "ds_data s \<noteq> 0" "unat n \<le> length xs" using ds_ok_len(1) [OF assms] by (simp_all add: word_less_nat_alt)
  from ds_cut [OF assms this] False show ?thesis by (auto simp: dynstring_truncate_def null_ptr_def on_heap_def)
qed

lemma dynstring_append_char_value:
  assumes "realloc_gives realloc" "ds_ok m s xs" "length xs + 2 < 2 ^ 64"
  shows "ds_outcome m s (xs @ [c]) (dynstring_append_char builtin realloc m (Some s) c)"
proof -
  obtain ok m1 s1 where e: "dynstring_ensure_capacity builtin realloc m (Some s) (ds_len s + 2) = ret (ok, m1, Some s1)"
    "if ok then ds_ok m1 s1 xs \<and> outside m1 s1 = outside m s \<and> ds_len s + 2 \<le> ds_cap s1 else m1 = m \<and> s1 = s"
    using ensure_capacity_value [OF assms(1,2)] by blast
  show ?thesis
  proof (cases ok)
    case False
    then show ?thesis using e by (auto simp: dynstring_append_char_def ds_outcome_def)
  next
    case True
    then have s1: "ds_ok m1 s1 xs" "outside m1 s1 = outside m s" "ds_len s + 2 \<le> ds_cap s1" using e(2) by simp_all
    have "ds_len s + 2 = of_nat (length xs + 2)" using assms(2) by (simp add: ds_ok_def)
    then have "unat (ds_len s + 2) = length xs + 2" using unat_of_small [OF assms(3)] by (simp only:)
    then have cap: "length xs + 2 \<le> unat (ds_cap s1)" using s1(3) by (simp add: word_le_nat_alt)
    then have d: "ds_data s1 \<noteq> 0" using ds_ok_cap [OF s1(1)] by linarith
    obtain rest where o: "object (heap_of m1) (ds_data s1) (xs @ 0 # rest) (ds_cap s1)" "blocks m1 (ds_data s1) = Some (ds_cap s1)"
      and l: "ds_len s1 = of_nat (length xs)" using s1(1) d by (auto simp: ds_ok_def)
    obtain z zs where r: "rest = z # zs" using o(1) cap by (cases rest) (auto simp: object_def)
    from write_at [OF o(1), of c] obtain h1 where h1: "write_bytes (heap_of m1) (ds_data s1 + ds_len s1) [c] = ret h1"
      "object h1 (ds_data s1) (xs @ c # z # zs) (ds_cap s1)" "\<forall>q. q \<notin> span (ds_data s1) (unat (ds_cap s1)) \<longrightarrow> h1 q = heap_of m1 q"
      unfolding l r by blast
    from write_at [of h1 "ds_data s1" "xs @ [c]" z zs "ds_cap s1" 0] h1(2) obtain h2 where
      h2: "write_bytes h1 (ds_data s1 + (ds_len s1 + 1)) [0] = ret h2" "object h2 (ds_data s1) ((xs @ [c]) @ 0 # zs) (ds_cap s1)"
      "\<forall>q. q \<notin> span (ds_data s1) (unat (ds_cap s1)) \<longrightarrow> h2 q = h1 q" unfolding l by (auto simp: ac_simps)
    let ?m = "m1\<lparr>heap_of := h2\<rparr>" and ?s = "s1\<lparr>ds_len := ds_len s1 + 1\<rparr>"
    have "dynstring_append_char builtin realloc m (Some s) c = ret (True, ?m, Some ?s)"
      using True e(1) h1(1) h2(1) by (simp add: dynstring_append_char_def on_heap_def Let_def)
    moreover have "ds_ok ?m ?s (xs @ [c])" using h2(2) o(2) d l by (auto simp: ds_ok_def)
    moreover have "outside ?m ?s = outside m s" unfolding s1(2) [symmetric] using h1(3) h2(3) d by (auto simp: outside_def intro!: without_cong)
    ultimately show ?thesis by (auto simp: ds_outcome_def)
  qed
qed

lemma dynstring_free_value:
  assumes "ds_ok m s xs"
  shows "\<exists>s'. dynstring_free m (Some s) = ret (outside m s, Some s') \<and> ds_ok (outside m s) s' []"
proof (cases "ds_data s = 0")
  case True
  then show ?thesis using assms by (simp add: dynstring_free_def null_ptr_def outside_def ds_ok_def)
next
  case False
  then show ?thesis using assms by (simp add: dynstring_free_def c_free_def null_ptr_def outside_def ds_ok_def)
qed

subsection \<open>Formatted appending\<close>

text \<open>The writing pass of \<open>vsnprintf\<close> into the room behind the string.\<close>

lemma ds_tail:
  assumes "ds_ok m s xs" "ds_data s \<noteq> 0"
  shows "\<exists>zs. object (heap_of m) (ds_data s + ds_len s) (0 # zs) (ds_cap s - ds_len s) \<and>
      object (heap_of m) (ds_data s) (xs @ 0 # zs) (ds_cap s) \<and> Suc (length zs) = unat (ds_cap s) - length xs"
    "unat (ds_cap s - ds_len s) = unat (ds_cap s) - length xs"
    "span (ds_data s + ds_len s) (unat (ds_cap s - ds_len s)) \<subseteq> span (ds_data s) (unat (ds_cap s))"
proof -
  let ?d = "ds_data s" and ?n = "ds_cap s - ds_len s"
  obtain zs where o: "object (heap_of m) ?d (xs @ 0 # zs) (ds_cap s)" and l: "ds_len s = of_nat (length xs)"
    using assms by (auto simp: ds_ok_def)
  note b = ds_ok_len(1) [OF assms(1)] ds_ok_len(2) [OF assms]
  show n: "unat ?n = unat (ds_cap s) - length xs" using b by (simp add: unat_sub_if_size word_size)
  have "Suc (length xs + length zs) = unat (ds_cap s)" using o by (simp add: object_def)
  then have len: "length (0 # zs) = unat ?n" using n by simp
  then have "?n = of_nat (length (0 # zs))" by simp
  then have "object (heap_of m) (?d + ds_len s) (0 # zs) ?n"
    using object_middle [of "heap_of m" ?d xs "0 # zs" "[]" "ds_cap s"] o l by simp
  with o len n show "\<exists>zs. object (heap_of m) (?d + ds_len s) (0 # zs) ?n \<and>
      object (heap_of m) ?d (xs @ 0 # zs) (ds_cap s) \<and> Suc (length zs) = unat (ds_cap s) - length xs" by auto
  show "span (?d + ds_len s) (unat ?n) \<subseteq> span ?d (unat (ds_cap s))"
    using o l n b unat_ptr_plus [of ?d "unat (ds_cap s)" "length xs"] by (auto simp: span_def object_def)
qed

lemma ds_fmt_pass:
  assumes "vsnprintf_ok v" "ds_ok m s xs" "ds_data s \<noteq> 0"
    "v (heap_of m) (ds_data s + ds_len s) (ds_cap s - ds_len s) fmt args = ret (w, h)"
    "0 \<le> w \<longrightarrow> w = int (length out) \<and> (nat w < unat (ds_cap s - ds_len s) \<longrightarrow> region h (ds_data s + ds_len s) out)"
  shows "\<exists>ys. object h (ds_data s) (xs @ ys) (ds_cap s) \<and> ys \<noteq> [] \<and>
    (\<forall>q. q \<notin> span (ds_data s) (unat (ds_cap s)) \<longrightarrow> h q = heap_of m q) \<and>
    (0 \<le> w \<and> length xs + nat w < unat (ds_cap s) \<longrightarrow> (\<exists>rest. ys = out @ 0 # rest))"
proof -
  let ?d = "ds_data s" and ?n = "ds_cap s - ds_len s"
  have l: "ds_len s = of_nat (length xs)" using assms(2) by (simp add: ds_ok_def)
  obtain zs where zs: "object (heap_of m) (?d + ds_len s) (0 # zs) ?n" "object (heap_of m) ?d (xs @ 0 # zs) (ds_cap s)"
    "Suc (length zs) = unat (ds_cap s) - length xs" using ds_tail(1) [OF assms(2,3)] by blast
  note n = ds_tail(2) [OF assms(2,3)]
  have nz: "?n \<noteq> 0" using n zs(3) by auto
  note wrote = vsnprintf_wroteD [OF vsnprintf_okD [OF assms(1,4)] nz zs(1)]
  from wrote(3) obtain ys where ys: "object h (?d + ds_len s) ys ?n"
    "0 \<le> w \<and> nat w < unat ?n \<longrightarrow> (\<exists>out rest. ys = out @ 0 # rest \<and> length out = nat w)" by blast
  have ly: "length ys = length (0 # zs)" using ys(1) zs(3) n by (simp add: object_def)
  have e: "length xs + unat ?n = unat (ds_cap s)" using n ds_ok_len(2) [OF assms(2,3)] by simp
  have "object h ?d (xs @ ys @ []) (ds_cap s) \<and> (\<forall>q. q \<notin> span ?d (unat (ds_cap s)) \<longrightarrow> h q = heap_of m q)"
    using zs(2) wrote(2) ys(1) ly zs(3) l e
    by (intro object_replace [of "heap_of m" ?d xs "0 # zs" "[]"]) (simp_all add: object_def)
  moreover have "ys \<noteq> []" using ly by auto
  moreover have "\<exists>rest. ys = out @ 0 # rest" if "0 \<le> w" "length xs + nat w < unat (ds_cap s)"
  proof -
    from ys(2) that n obtain out' rest where o: "ys = out' @ 0 # rest" "length out' = nat w" by auto
    have "region h (?d + ds_len s) out" "w = int (length out)" using assms(5) that n by auto
    moreover have "region h (?d + ds_len s) out'" using ys(1) o(1) by (simp add: object_def region_append)
    ultimately have "out' = out" using region_unique [of h "?d + ds_len s" out' out] o(2) by simp
    with o(1) show ?thesis by blast
  qed
  ultimately show ?thesis by auto
qed

text \<open>The end of a formatted append: the old buffer is freed, and the text is cut back when the two passes differ.\<close>

lemma ds_fmt_end:
  assumes "object (heap_of m) (ds_data s) (xs @ ys) (ds_cap s)" "blocks m (ds_data s) = Some (ds_cap s)" "ds_data s \<noteq> 0"
    "ds_len s = of_nat (length xs)"
  shows "ys \<noteq> [] \<Longrightarrow> \<exists>h. write_bytes (heap_of m) (ds_data s + ds_len s) [0] = ret h \<and> ds_ok (m\<lparr>heap_of := h\<rparr>) s xs \<and>
      outside (m\<lparr>heap_of := h\<rparr>) s = outside m s"
    "ys = out @ 0 # rest \<Longrightarrow> ds_ok m (s\<lparr>ds_len := ds_len s + of_nat (length out)\<rparr>) (xs @ out)"
proof -
  assume "ys \<noteq> []"
  then obtain y ys' where "ys = y # ys'" by (cases ys) simp_all
  with write_at [of "heap_of m" "ds_data s" xs y ys' "ds_cap s" 0] assms(1,4) obtain h where
    h: "write_bytes (heap_of m) (ds_data s + ds_len s) [0] = ret h" "object h (ds_data s) (xs @ 0 # ys') (ds_cap s)"
    "\<forall>q. q \<notin> span (ds_data s) (unat (ds_cap s)) \<longrightarrow> h q = heap_of m q" by auto
  then have "ds_ok (m\<lparr>heap_of := h\<rparr>) s xs" using assms(2-4) by (auto simp: ds_ok_def)
  moreover have "outside (m\<lparr>heap_of := h\<rparr>) s = outside m s" using h(3) assms(3) by (auto simp: outside_def intro!: without_cong)
  ultimately show "\<exists>h. write_bytes (heap_of m) (ds_data s + ds_len s) [0] = ret h \<and> ds_ok (m\<lparr>heap_of := h\<rparr>) s xs \<and>
      outside (m\<lparr>heap_of := h\<rparr>) s = outside m s" using h(1) by blast
next
  assume "ys = out @ 0 # rest"
  then show "ds_ok m (s\<lparr>ds_len := ds_len s + of_nat (length out)\<rparr>) (xs @ out)" using assms by (auto simp: ds_ok_def)
qed

text \<open>
  After growing, the strings that the format reads are still there, in the old buffer too, and away from the room
  behind the text; without growing, those away from the buffer are.
\<close>

lemma grown_strings:
  assumes "grown m s old m1 s1" "ds_ok m1 s1 xs" "ds_data s1 \<noteq> 0" "cstr (heap_of m) p ys"
    "m1 = m \<and> s1 = s \<Longrightarrow> span p (Suc (length ys)) \<inter> span (ds_data s) (unat (ds_cap s)) = {}"
  shows "cstr (heap_of m1) p ys \<and>
    span p (Suc (length ys)) \<inter> span (ds_data s1 + ds_len s1) (unat (ds_cap s1 - ds_len s1)) = {}"
proof (cases "m1 = m \<and> s1 = s")
  case True
  then have "span (ds_data s1 + ds_len s1) (unat (ds_cap s1 - ds_len s1)) \<subseteq> span (ds_data s) (unat (ds_cap s))"
    using ds_tail(3) [OF assms(2,3)] by simp
  then show ?thesis using assms(4) assms(5) [OF True] True by blast
next
  case False
  then have w: "without m1 (ds_data s1) (ds_cap s1) = m" using assms(1) by (auto simp: grown_def)
  have q: "q \<notin> span (ds_data s1) (unat (ds_cap s1)) \<and> heap_of m1 q = heap_of m q" if "q \<in> span p (Suc (length ys))" for q
    using cstr_span [OF assms(4) that] w without_simps(1) [of m1 "ds_data s1" "ds_cap s1" q] by (auto split: if_splits)
  have "cstr (heap_of m1) p ys"
    using q by (intro cstr_reads [OF assms(4), of "- span p (Suc (length ys))"]) auto
  then show ?thesis using q ds_tail(3) [OF assms(2,3)] by blast
qed

lemma dynstring_append_fmt_value:
  assumes "malloc_gives malloc" "vsnprintf_ok v" "vsnprintf_prints v ptrs printed" "ds_ok m s xs" "length xs + 2 ^ 31 < 2 ^ 64"
    and str: "ptrs (Y fmt) args = Some P" "\<And>p. p \<in> insert fmt P \<Longrightarrow> cstr (heap_of m) p (Y p)"
    and apart: "(\<forall>p \<in> insert fmt P. span p (Suc (length (Y p))) \<inter> span (ds_data s) (unat (ds_cap s)) = {}) \<or>
      (\<forall>r h. v (heap_of m) 0 0 fmt args = ret (r, h) \<longrightarrow> 0 \<le> r \<longrightarrow> unat (ds_cap s) \<le> length xs + nat r)"
  shows "\<exists>ok m' s'. dynstring_append_fmt builtin v malloc m (Some s) fmt args = ret (ok, m', Some s') \<and>
    ds_ok m' s' (if ok then xs @ printed (Y fmt) args Y else xs) \<and> outside m' s' = outside m s \<and>
    (ok \<longrightarrow> length (printed (Y fmt) args Y) < 2 ^ 31)"
proof -
  let ?out = "printed (Y fmt) args Y"
  have fmt: "fmt \<noteq> 0" using str(2) [of fmt] by (simp add: cstr_def)
  from vsnprintf_printsD [where Y = Y and fmt = fmt and s = 0 and n = 0, OF assms(3) str] obtain r h0 where
    r: "v (heap_of m) 0 0 fmt args = ret (r, h0)" "0 \<le> r \<longrightarrow> r = int (length ?out)" by auto
  have h0: "h0 = heap_of m" "r < 2 ^ 31" using vsnprintf_okD [OF assms(2) r(1)] by (simp_all add: vsnprintf_wrote_def)
  show ?thesis
  proof (cases "r < 0")
    case True
    then show ?thesis using r(1) h0 assms(4) fmt by (auto simp: dynstring_append_fmt_def null_ptr_def intro!: exI [of _ m])
  next
    case False
    let ?r = "ds_len s + word_of_int r + 1"
    have "?r = of_nat (length xs + nat r + 1)" using assms(4) False by (simp add: ds_ok_def)
    moreover have "nat r < 2 ^ 31" using h0(2) by simp
    with assms(5) have "length xs + nat r + 1 < 2 ^ 64" by linarith
    ultimately have ur: "unat ?r = length xs + nat r + 1" using unat_of_small by (simp only:)
    then have "?r \<noteq> 0" by auto
    from grow_detached_value [OF assms(1,4) this, of builtin] obtain ok m1 s1 old where
      g: "dynstring_grow_detached builtin malloc m s ?r = ret (ok, m1, s1, old)"
      "if ok then ds_ok m1 s1 xs \<and> ?r \<le> ds_cap s1 \<and> ds_data s1 \<noteq> 0 \<and> grown m s old m1 s1 else m1 = m \<and> s1 = s" by blast
    show ?thesis
    proof (cases ok)
      case no: False
      then show ?thesis using g r(1) h0 assms(4) fmt False by (auto simp: dynstring_append_fmt_def null_ptr_def Let_def)
    next
      case True
      let ?d = "ds_data s1" and ?n = "ds_cap s1"
      have s1: "ds_ok m1 s1 xs" "ds_data s1 \<noteq> 0" "grown m s old m1 s1" and cap: "length xs + nat r < unat ?n"
        using g(2) True ur by (simp_all add: word_le_nat_alt)
      then have b: "blocks m1 ?d = Some ?n" and l: "ds_len s1 = of_nat (length xs)" by (simp_all add: ds_ok_def)
      have away: "span p (Suc (length (Y p))) \<inter> span (ds_data s) (unat (ds_cap s)) = {}"
        if "p \<in> insert fmt P" "m1 = m \<and> s1 = s" for p
        using apart r(1) False cap that by fastforce
      have "cstr (heap_of m1) p (Y p) \<and> span p (Suc (length (Y p))) \<inter> span (?d + ds_len s1) (unat (?n - ds_len s1)) = {}"
        if "p \<in> insert fmt P" for p
        by (rule grown_strings [OF s1(3,1,2) str(2) [OF that] away [OF that]])
      moreover have "\<exists>zs. object (heap_of m1) (?d + ds_len s1) zs (?n - ds_len s1)" using ds_tail(1) [OF s1(1,2)] by blast
      ultimately obtain w h where
        w: "v (heap_of m1) (?d + ds_len s1) (?n - ds_len s1) fmt args = ret (w, h)"
        "0 \<le> w \<longrightarrow> w = int (length ?out) \<and> (nat w < unat (?n - ds_len s1) \<longrightarrow> region h (?d + ds_len s1) ?out)"
        using vsnprintf_printsD [where Y = Y and fmt = fmt and h = "heap_of m1" and s = "?d + ds_len s1" and n = "?n - ds_len s1", OF assms(3) str(1)]
        by blast
      from ds_fmt_pass [OF assms(2) s1(1,2) w] obtain ys where
        ys: "object h ?d (xs @ ys) ?n" "ys \<noteq> []" "\<forall>q. q \<notin> span ?d (unat ?n) \<longrightarrow> h q = heap_of m1 q"
        "0 \<le> w \<and> length xs + nat w < unat ?n \<longrightarrow> (\<exists>rest. ys = ?out @ 0 # rest)" by blast
      from free_old [OF s1(3) assms(4) s1(2) b ys(3)] obtain m3 where
        m3: "c_free old (m1\<lparr>heap_of := h\<rparr>) = ret m3" "outside m3 s1 = outside m s" "blocks m3 ?d = Some ?n"
          "\<forall>q \<in> span ?d (unat ?n). heap_of m3 q = h q" by blast
      have o: "object (heap_of m3) ?d (xs @ ys) ?n" using m3(4) by (intro object_cong [OF ys(1)]) simp
      have val: "dynstring_append_fmt builtin v malloc m (Some s) fmt args =
        (if w < 0 \<or> w \<noteq> r then bindR (on_heap m3 (\<lambda>h. write_bytes h (?d + ds_len s1) [0])) (\<lambda>m4. ret (False, m4, Some s1))
         else ret (True, m3, Some (s1\<lparr>ds_len := ds_len s1 + word_of_int w\<rparr>)))"
        using r(1) h0 fmt False True g(1) w(1) m3(1) by (simp add: dynstring_append_fmt_def null_ptr_def Let_def)
      show ?thesis
      proof (cases "w = r")
        case eq: True
        then obtain rest where ys': "ys = ?out @ 0 # rest" "length ?out = nat r" using ys(4) w(2) cap False by auto
        then have "ds_ok m3 (s1\<lparr>ds_len := ds_len s1 + word_of_int w\<rparr>) (xs @ ?out)"
          using ds_fmt_end(2) [OF o m3(3) s1(2) l ys'(1)] eq False by simp
        moreover have "outside m3 (s1\<lparr>ds_len := ds_len s1 + word_of_int w\<rparr>) = outside m s" using m3(2) by simp
        moreover have "length ?out < 2 ^ 31" using ys'(2) h0(2) by simp
        moreover have "dynstring_append_fmt builtin v malloc m (Some s) fmt args =
          ret (True, m3, Some (s1\<lparr>ds_len := ds_len s1 + word_of_int w\<rparr>))" unfolding val using eq False by simp
        ultimately show ?thesis
          by (intro exI [of _ True] exI [of _ m3] exI [of _ "s1\<lparr>ds_len := ds_len s1 + word_of_int w\<rparr>"]) simp
      next
        case ne: False
        from ds_fmt_end(1) [OF o m3(3) s1(2) l ys(2)] obtain h4 where h4: "write_bytes (heap_of m3) (?d + ds_len s1) [0] = ret h4"
          "ds_ok (m3\<lparr>heap_of := h4\<rparr>) s1 xs" "outside (m3\<lparr>heap_of := h4\<rparr>) s1 = outside m s" unfolding m3(2) by blast
        note h4(2,3)
        moreover have "dynstring_append_fmt builtin v malloc m (Some s) fmt args = ret (False, m3\<lparr>heap_of := h4\<rparr>, Some s1)"
          unfolding val using ne h4(1) by (simp add: on_heap_def)
        ultimately show ?thesis by (intro exI [of _ False] exI [of _ "m3\<lparr>heap_of := h4\<rparr>"] exI [of _ s1]) simp
      qed
    qed
  qed
qed

subsection \<open>Constructors and copies\<close>

lemma dynstring_init_value: "ds_ok m dynstring_init [] \<and> outside m dynstring_init = m"
  by (simp add: dynstring_init_def ds_ok_def outside_def null_ptr_def)

text \<open>A new block and a write into it: nothing else changes.\<close>

lemma malloc_write:
  assumes "malloc_gives malloc" "malloc n m = (p, m1)" "p \<noteq> 0" "f (heap_of m1) = ret h" "object h p (xs @ 0 # rest) n"
    "\<forall>q. q \<notin> span p (unat n) \<longrightarrow> h q = heap_of m1 q" "n = of_nat k"
  shows "on_heap m1 f = ret (m1\<lparr>heap_of := h\<rparr>) \<and> ds_ok (m1\<lparr>heap_of := h\<rparr>) \<lparr>ds_data = p, ds_len = of_nat (length xs), ds_cap = n\<rparr> xs \<and>
    without (m1\<lparr>heap_of := h\<rparr>) p n = m"
proof -
  note g = malloc_givesD [OF assms(1-3)]
  have "without (m1\<lparr>heap_of := h\<rparr>) p n = m" unfolding g(3) [symmetric] using assms(6) by (intro without_cong) simp_all
  then show ?thesis using assms(3-5) g(2) by (auto simp: ds_ok_def on_heap_def)
qed

lemma dynstring_with_capacity_value:
  assumes "malloc_gives malloc"
  shows "\<exists>s m'. dynstring_with_capacity malloc m n = ret (s, m') \<and> ds_ok m' s [] \<and> outside m' s = m \<and> (ds_cap s = n \<or> s = dynstring_init)"
proof -
  obtain p m1 where al: "malloc n m = (p, m1)" by (cases "malloc n m")
  consider "n = 0" | "n \<noteq> 0" "p = 0" | "n \<noteq> 0" "p \<noteq> 0" by blast
  then show ?thesis
  proof cases
    case 1
    then show ?thesis using dynstring_init_value [of m] by (simp add: dynstring_with_capacity_def)
  next
    case 2
    then have "dynstring_with_capacity malloc m n = ret (dynstring_init, m)"
      using al malloc_gives_null [OF assms, of n m m1] by (simp add: dynstring_with_capacity_def null_ptr_def dynstring_init_def)
    then show ?thesis using dynstring_init_value [of m] by simp
  next
    case 3
    from malloc_givesD(1) [OF assms al 3(2)] obtain b bs where "object (heap_of m1) p (b # bs) n"
      using 3(1) by (metis length_0_conv neq_Nil_conv object_def unat_eq_zero)
    with write_at [of "heap_of m1" p "[]" b bs n 0] obtain h where
      h: "write_bytes (heap_of m1) p [0] = ret h" "object h p ([] @ 0 # bs) n" "\<forall>q. q \<notin> span p (unat n) \<longrightarrow> h q = heap_of m1 q" by auto
    have "n = of_nat (unat n)" by simp
    from malloc_write [OF assms al 3(2), of "\<lambda>h. write_bytes h p [0]", OF h this] 3 al show ?thesis
      by (simp add: dynstring_with_capacity_def null_ptr_def dynstring_init_def outside_def)
  qed
qed

text \<open>The copy of a C string into a new block.\<close>

lemma copy_to_new_block:
  assumes "malloc_gives malloc" "malloc n m = (p, m1)" "p \<noteq> 0" "region (heap_of m) str (xs @ [0])" "str \<noteq> 0"
    "fits str (Suc (length xs))" "n = of_nat (Suc (length xs))"
  shows "\<exists>h rest. mem_copy (heap_of m1) p str n = ret h \<and> object h p (xs @ 0 # rest) n \<and>
    (\<forall>q. q \<notin> span p (unat n) \<longrightarrow> h q = heap_of m1 q)"
proof -
  note g = malloc_givesD [OF assms(1-3)]
  obtain bs where bs: "object (heap_of m1) p bs n" using g(1) by blast
  have "unat str \<noteq> 0" using assms(5) by (simp add: unat_eq_zero)
  then have n: "unat n = Suc (length xs)" using assms(6,7) by (simp only: fits_def) (intro unat_of_small, linarith)
  have q: "q \<notin> span p (unat n) \<and> heap_of m1 q = heap_of m q" if "q \<in> span str (length (xs @ [0]))" for q
    using region_mapped [OF _ assms(4) that] assms(6) g(3) without_simps(1) [of m1 p n q] by auto
  have "region (heap_of m1) str (xs @ [0])" using assms(4,6) q by (subst region_cong [of str "xs @ [0]" _ "heap_of m"]) auto
  with copy_tail [of "heap_of m1" p "[]" bs n str "xs @ [0]"] bs assms(5-7) n q show ?thesis by fastforce
qed

lemma dynstring_from_value:
  assumes "malloc_gives malloc" "cstr (heap_of m) str xs"
  shows "\<exists>s m'. dynstring_from malloc m str = ret (s, m') \<and> outside m' s = m \<and> (ds_ok m' s xs \<and> ds_data s \<noteq> 0 \<or> m' = m \<and> s = dynstring_init)"
proof -
  let ?n = "of_nat (Suc (length xs)) :: usize"
  obtain p m1 where al: "malloc ?n m = (p, m1)" by (cases "malloc ?n m")
  have val: "dynstring_from malloc m str = (if p \<noteq> 0
      then bindR (on_heap m1 (\<lambda>h. mem_copy h p str ?n)) (\<lambda>m2. ret (\<lparr>ds_data = p, ds_len = of_nat (length xs), ds_cap = ?n\<rparr>, m2))
      else ret (dynstring_init, m1))"
    using assms(2) al str_len_value [OF assms(2)]
    by (simp add: dynstring_from_def cstr_def null_ptr_def dynstring_init_def Let_def add.commute)
  show ?thesis
  proof (cases "p = 0")
    case True
    then show ?thesis using val al malloc_gives_null [OF assms(1), of ?n m m1] dynstring_init_value [of m] by simp
  next
    case False
    have "region (heap_of m) str (xs @ [0])" "str \<noteq> 0" "fits str (Suc (length xs))" using assms(2) by (simp_all add: cstr_def)
    from copy_to_new_block [OF assms(1) al False this refl] obtain h rest where
      h: "mem_copy (heap_of m1) p str ?n = ret h" "object h p (xs @ 0 # rest) ?n" "\<forall>q. q \<notin> span p (unat ?n) \<longrightarrow> h q = heap_of m1 q" by blast
    from malloc_write [OF assms(1) al False, of "\<lambda>h. mem_copy h p str ?n", OF h refl] val False show ?thesis
      by (simp add: outside_def)
  qed
qed

text \<open>The copy that \<open>dynstring_to_cstr\<close> gives is a block of its own with the text and a terminator.\<close>

lemma dynstring_to_cstr_value:
  assumes "malloc_gives malloc" "ds_ok m s xs" "cstr (heap_of m) lit []"
  shows "\<exists>p m'. dynstring_to_cstr lit malloc m (Some s) = ret (p, m') \<and>
    (p = 0 \<and> m' = m \<or> p \<noteq> 0 \<and> (\<exists>n rest. object (heap_of m') p (xs @ 0 # rest) n \<and> blocks m' p = Some n \<and> without m' p n = m))"
proof -
  let ?n = "of_nat (Suc (length xs)) :: usize" and ?src = "if ds_data s \<noteq> 0 then ds_data s else lit"
  obtain p m1 where al: "malloc ?n m = (p, m1)" by (cases "malloc ?n m")
  have "(if ds_data s \<noteq> 0 then ds_len s else 0) = of_nat (length xs)" using assms(2) by (simp add: ds_ok_def)
  then have val: "dynstring_to_cstr lit malloc m (Some s) =
      (if p = 0 then ret (0, m1) else bindR (on_heap m1 (\<lambda>h. mem_copy h p ?src ?n)) (\<lambda>m2. ret (p, m2)))"
    using al by (simp add: dynstring_to_cstr_def null_ptr_def Let_def add.commute)
  show ?thesis
  proof (cases "p = 0")
    case True
    then show ?thesis using val al malloc_gives_null [OF assms(1), of ?n m m1] by simp
  next
    case False
    have "region (heap_of m) ?src (xs @ [0]) \<and> ?src \<noteq> 0 \<and> fits ?src (Suc (length xs))"
      using assms(2,3) by (auto simp: ds_ok_def object_def cstr_def region_append fits_def split: if_splits)
    with copy_to_new_block [OF assms(1) al False, of ?src xs] obtain h rest where
      h: "mem_copy (heap_of m1) p ?src ?n = ret h" "object h p (xs @ 0 # rest) ?n" "\<forall>q. q \<notin> span p (unat ?n) \<longrightarrow> h q = heap_of m1 q"
      by auto
    from malloc_write [OF assms(1) al False, of "\<lambda>h. mem_copy h p ?src ?n", OF h refl] h(2) val False malloc_givesD(2) [OF assms(1) al False]
    show ?thesis by (intro exI [of _ p] exI [of _ "m1\<lparr>heap_of := h\<rparr>"]) auto
  qed
qed

subsection \<open>Sequences of operations\<close>

text \<open>
  \<open>Ds_append_own k\<close> appends the own text from position \<open>k\<close> on, and \<open>Ds_append_fmt_own fmt mk k\<close> prints with arguments
  made from a pointer to it. A caller can only name positions of the text; and a print of the own text is undefined when
  there is room for it, since \<open>vsnprintf\<close> would write over the string it reads: such a step does not call the function.
\<close>

datatype 'a ds_op =
    Ds_append uptr
  | Ds_append_own usize
  | Ds_append_n uptr usize
  | Ds_append_char u8
  | Ds_append_fmt uptr 'a
  | Ds_append_fmt_own uptr "uptr \<Rightarrow> 'a" usize
  | Ds_truncate usize
  | Ds_clear
  | Ds_reserve usize
  | Ds_shrink

definition ds_step ::
  "bool \<Rightarrow> 'a vsnprintf \<Rightarrow> uptr \<Rightarrow> c_malloc \<Rightarrow> c_realloc \<Rightarrow> 'a ds_op \<Rightarrow> cmem \<Rightarrow> dynstring cptr \<Rightarrow> (bool \<times> cmem \<times> dynstring cptr) run" where
  "ds_step builtin v lit malloc realloc oper m p = (case oper of
     Ds_append str \<Rightarrow> dynstring_append builtin malloc m p str
   | Ds_append_own k \<Rightarrow> if dynstring_len p < k then ret (False, m, p) else dynstring_append builtin malloc m p (dynstring_str lit p + k)
   | Ds_append_n str n \<Rightarrow> dynstring_append_n builtin malloc m p str n
   | Ds_append_char c \<Rightarrow> dynstring_append_char builtin realloc m p c
   | Ds_append_fmt fmt args \<Rightarrow> dynstring_append_fmt builtin v malloc m p fmt args
   | Ds_append_fmt_own fmt mk k \<Rightarrow> if dynstring_len p < k \<or> fmt = null_ptr then ret (False, m, p)
       else let args = mk (dynstring_str lit p + k) in
         bindR (v (heap_of m) null_ptr 0 fmt args) (\<lambda>(r, _).
           if 0 \<le> r \<and> unat (dynstring_len p) + nat r < unat (dynstring_capacity p) then ret (False, m, p)
           else dynstring_append_fmt builtin v malloc m p fmt args)
   | Ds_truncate n \<Rightarrow> bindR (dynstring_truncate m p n) (\<lambda>(m', p'). ret (True, m', p'))
   | Ds_clear \<Rightarrow> bindR (dynstring_clear m p) (\<lambda>(m', p'). ret (True, m', p'))
   | Ds_reserve n \<Rightarrow> dynstring_reserve builtin realloc m p n
   | Ds_shrink \<Rightarrow> dynstring_shrink_to_fit realloc m p)"

fun ds_run ::
  "bool \<Rightarrow> 'a vsnprintf \<Rightarrow> uptr \<Rightarrow> (c_malloc \<times> c_realloc \<times> 'a ds_op) list \<Rightarrow> cmem \<Rightarrow> dynstring cptr \<Rightarrow> (bool list \<times> cmem \<times> dynstring cptr) run" where
  "ds_run builtin v lit [] m p = ret ([], m, p)"
| "ds_run builtin v lit ((malloc, realloc, oper) # steps) m p = bindR (ds_step builtin v lit malloc realloc oper m p) (\<lambda>(ok, m', p').
     bindR (ds_run builtin v lit steps m' p') (\<lambda>(oks, m'', p''). ret (ok # oks, m'', p'')))"

text \<open>
  The text after a successful operation; \<open>E\<close> gives the C strings outside, and \<open>out\<close> is what a formatted append
  prints: the output that its format gives for the strings outside, and for the own text at the address it has then.
\<close>

definition own_text :: "usize \<Rightarrow> u8 list \<Rightarrow> u8 list" where
  "own_text k xs = takeWhile (\<lambda>c. c \<noteq> 0) (drop (unat k) xs)"

fun ds_text :: "(uptr \<Rightarrow> u8 list) \<Rightarrow> u8 list \<Rightarrow> 'a ds_op \<Rightarrow> u8 list \<Rightarrow> u8 list" where
  "ds_text E out (Ds_append str) xs = xs @ E str"
| "ds_text E out (Ds_append_own k) xs = xs @ own_text k xs"
| "ds_text E out (Ds_append_n str n) xs = xs @ take (unat n) (E str)"
| "ds_text E out (Ds_append_char c) xs = xs @ [c]"
| "ds_text E out (Ds_append_fmt fmt args) xs = xs @ out"
| "ds_text E out (Ds_append_fmt_own fmt mk k) xs = xs @ out"
| "ds_text E out (Ds_truncate n) xs = take (unat n) xs"
| "ds_text E out Ds_clear xs = []"
| "ds_text E out (Ds_reserve n) xs = xs"
| "ds_text E out Ds_shrink xs = xs"

type_synonym 'a printed = "u8 list \<Rightarrow> 'a \<Rightarrow> (uptr \<Rightarrow> u8 list) \<Rightarrow> u8 list"

fun ds_prints :: "'a printed \<Rightarrow> (uptr \<Rightarrow> u8 list) \<Rightarrow> 'a ds_op \<Rightarrow> u8 list \<Rightarrow> u8 list \<Rightarrow> bool" where
  "ds_prints printed E (Ds_append_fmt fmt args) xs out \<longleftrightarrow> out = printed (E fmt) args E \<and> length out < 2 ^ 31"
| "ds_prints printed E (Ds_append_fmt_own fmt mk k) xs out \<longleftrightarrow>
     (\<exists>q. out = printed (E fmt) (mk q) (E(q := own_text k xs))) \<and> length out < 2 ^ 31"
| "ds_prints printed E oper xs out \<longleftrightarrow> True"

fun ds_may_fail :: "'a ds_op \<Rightarrow> bool" where
  "ds_may_fail (Ds_truncate n) \<longleftrightarrow> False"
| "ds_may_fail Ds_clear \<longleftrightarrow> False"
| "ds_may_fail oper \<longleftrightarrow> True"

definition ds_does :: "'a printed \<Rightarrow> (uptr \<Rightarrow> u8 list) \<Rightarrow> 'a ds_op \<Rightarrow> u8 list \<Rightarrow> bool \<Rightarrow> u8 list \<Rightarrow> bool" where
  "ds_does printed E oper xs ok ys \<longleftrightarrow>
     (if ok then \<exists>out. ds_prints printed E oper xs out \<and> ys = ds_text E out oper xs else ds_may_fail oper \<and> ys = xs)"

fun ds_replay :: "'a printed \<Rightarrow> (uptr \<Rightarrow> u8 list) \<Rightarrow> 'a ds_op list \<Rightarrow> bool list \<Rightarrow> u8 list \<Rightarrow> u8 list \<Rightarrow> bool" where
  "ds_replay printed E [] [] xs ys \<longleftrightarrow> ys = xs"
| "ds_replay printed E (oper # opers) (ok # oks) xs ys \<longleftrightarrow>
     (\<exists>zs. ds_does printed E oper xs ok zs \<and> ds_replay printed E opers oks zs ys)"
| "ds_replay printed E _ _ xs ys \<longleftrightarrow> False"

text \<open>A bound on the length of the text after an operation; \<open>vsnprintf\<close> prints less than \<open>2 ^ 31\<close> bytes.\<close>

fun ds_bound :: "(uptr \<Rightarrow> u8 list) \<Rightarrow> 'a ds_op \<Rightarrow> nat \<Rightarrow> nat" where
  "ds_bound E (Ds_append str) n = n + length (E str)"
| "ds_bound E (Ds_append_own k) n = 2 * n"
| "ds_bound E (Ds_append_n str k) n = n + length (E str)"
| "ds_bound E (Ds_append_char c) n = n + 1"
| "ds_bound E (Ds_append_fmt fmt args) n = n + 2 ^ 31"
| "ds_bound E (Ds_append_fmt_own fmt mk k) n = n + 2 ^ 31"
| "ds_bound E oper n = n"

definition ds_peak :: "(uptr \<Rightarrow> u8 list) \<Rightarrow> 'a ds_op list \<Rightarrow> nat \<Rightarrow> nat" where
  "ds_peak E opers n = foldl (\<lambda>n oper. ds_bound E oper n) n opers"

text \<open>
  The addresses outside where an operation reads a C string: also the format and its arguments, which have to match
  the format.
\<close>

type_synonym 'a read_ptrs = "u8 list \<Rightarrow> 'a \<Rightarrow> uptr set option"

fun ds_strings :: "'a read_ptrs \<Rightarrow> (uptr \<Rightarrow> u8 list) \<Rightarrow> 'a ds_op \<Rightarrow> uptr set" where
  "ds_strings ptrs E (Ds_append str) = {str}"
| "ds_strings ptrs E (Ds_append_n str n) = {str}"
| "ds_strings ptrs E (Ds_append_fmt fmt args) = (if fmt = 0 then {} else insert fmt (the (ptrs (E fmt) args)))"
| "ds_strings ptrs E (Ds_append_fmt_own fmt mk k) =
     (if fmt = 0 then {} else insert fmt (\<Union>q. the (ptrs (E fmt) (mk q)) - {q}))"
| "ds_strings ptrs E oper = {}"

fun ds_matches :: "'a read_ptrs \<Rightarrow> (uptr \<Rightarrow> u8 list) \<Rightarrow> 'a ds_op \<Rightarrow> bool" where
  "ds_matches ptrs E (Ds_append_fmt fmt args) \<longleftrightarrow> (fmt \<noteq> 0 \<longrightarrow> ptrs (E fmt) args \<noteq> None)"
| "ds_matches ptrs E (Ds_append_fmt_own fmt mk k) \<longleftrightarrow> (fmt \<noteq> 0 \<longrightarrow> (\<forall>q. ptrs (E fmt) (mk q) \<noteq> None))"
| "ds_matches ptrs E oper \<longleftrightarrow> True"

definition strings_ok :: "'a read_ptrs \<Rightarrow> (uptr \<Rightarrow> u8 list) \<Rightarrow> uptr \<Rightarrow> heap \<Rightarrow> 'a ds_op list \<Rightarrow> bool" where
  "strings_ok ptrs E lit h opers \<longleftrightarrow> E lit = [] \<and> cstr h lit [] \<and>
     (\<forall>oper \<in> set opers. ds_matches ptrs E oper \<and> (\<forall>p \<in> ds_strings ptrs E oper. cstr h p (E p)))"

lemma ds_bound_mono: "n \<le> k \<Longrightarrow> ds_bound E oper n \<le> ds_bound E oper k"
  by (cases oper) simp_all

lemma ds_bound_le: "n \<le> ds_bound E oper n"
  by (cases oper) simp_all

lemma ds_peak_mono: "n \<le> k \<Longrightarrow> ds_peak E opers n \<le> ds_peak E opers k"
  by (induction opers arbitrary: n k) (simp_all add: ds_peak_def ds_bound_mono)

lemma ds_peak_le: "n \<le> ds_peak E opers n"
  by (induction opers arbitrary: n) (auto simp: ds_peak_def intro: order_trans [OF ds_bound_le])

lemma ds_peak_Cons: "ds_peak E (oper # opers) n = ds_peak E opers (ds_bound E oper n)"
  by (simp add: ds_peak_def)

lemma own_text_length: "length (own_text k xs) \<le> length xs"
  unfolding own_text_def by (rule order_trans [OF length_takeWhile_le]) simp

lemma ds_does_bound:
  assumes "ds_does printed E oper xs ok ys"
  shows "length ys \<le> ds_bound E oper (length xs)"
  using assms own_text_length [of _ xs] by (cases oper) (auto simp: ds_does_def split: if_splits)

text \<open>A string outside the buffer, and a part of the own text, can be appended.\<close>

lemma outside_source:
  assumes "cstr (heap_of (outside m s)) str ys" "ds_ok m s xs" "k \<le> length ys"
  shows "cstr (heap_of m) str ys \<and> ds_source m s str (take k ys) \<and> n_string (heap_of m) str k (take k ys)"
proof (cases "ds_data s = 0")
  case True
  then have "cstr (heap_of m) str ys" using assms(1) by (simp add: outside_def)
  then show ?thesis using True assms(3)
    by (auto simp: ds_source_def n_string_def cstr_def region_append fits_def region_take min_absorb2 dest: in_set_takeD)
next
  case False
  let ?U = "span (ds_data s) (unat (ds_cap s))"
  have q: "q \<notin> ?U" if "q \<in> span str (Suc (length ys))" for q
    using cstr_span [OF assms(1) that] False by (auto simp: outside_def)
  then have c: "cstr (heap_of m) str ys" using assms(1) False
    by (intro cstr_reads [OF assms(1), of ?U]) (auto simp: outside_def)
  have "span str k \<subseteq> span str (Suc (length ys))" using assms(3) by (auto simp: span_def)
  moreover obtain rest where "object (heap_of m) (ds_data s) (xs @ 0 # rest) (ds_cap s)" "ds_len s = of_nat (length xs)"
    using assms(2) False by (auto simp: ds_ok_def)
  then have "span (ds_data s + ds_len s) (unat (ds_cap s) - unat (ds_len s)) \<subseteq> ?U"
    using unat_ptr_plus [of "ds_data s" "unat (ds_cap s)" "length xs"] ds_ok_len(1) [OF assms(2)] by (auto simp: span_def object_def)
  ultimately have "span str k \<inter> span (ds_data s + ds_len s) (unat (ds_cap s) - unat (ds_len s)) = {}" using q by blast
  then show ?thesis using c assms(3)
    by (auto simp: ds_source_def n_string_def cstr_def region_append fits_def region_take min_absorb2 dest: in_set_takeD)
qed

lemma outside_apart:
  assumes "cstr (heap_of (outside m s)) str ys" "ds_data s \<noteq> 0"
  shows "span str (Suc (length ys)) \<inter> span (ds_data s) (unat (ds_cap s)) = {}"
proof -
  have "q \<notin> span (ds_data s) (unat (ds_cap s))" if "q \<in> span str (Suc (length ys))" for q
    using cstr_span [OF assms(1) that] assms(2) by (auto simp: outside_def)
  then show ?thesis by blast
qed

lemma own_source:
  assumes "ds_ok m s xs" "ds_data s \<noteq> 0" "unat k \<le> length xs"
  defines "ys \<equiv> own_text k xs"
  shows "cstr (heap_of m) (ds_data s + k) ys \<and> ds_source m s (ds_data s + k) ys"
proof -
  obtain rest where o: "object (heap_of m) (ds_data s) (xs @ 0 # rest) (ds_cap s)" and l: "ds_len s = of_nat (length xs)"
    using assms(1,2) by (auto simp: ds_ok_def)
  obtain zs where zs: "drop (unat k) xs @ 0 # rest = ys @ 0 # zs"
  proof (cases "dropWhile (\<lambda>c. c \<noteq> 0) (drop (unat k) xs)")
    case Nil
    then have "drop (unat k) xs = ys" unfolding ys_def own_text_def by (metis append_Nil2 takeWhile_dropWhile_id)
    then show thesis using that by simp
  next
    case (Cons z as)
    then have "z = 0" by (simp add: dropWhile_eq_Cons_conv)
    moreover have "drop (unat k) xs = ys @ dropWhile (\<lambda>c. c \<noteq> 0) (drop (unat k) xs)" by (simp add: ys_def own_text_def)
    ultimately have "drop (unat k) xs = ys @ 0 # as" using Cons by simp
    then show thesis using that [of "as @ 0 # rest"] by simp
  qed
  have "xs @ 0 # rest = take (unat k) xs @ (ys @ 0 # zs) @ []" using zs append_take_drop_id [of "unat k" xs] by (metis append.assoc append_Nil2)
  with o have "object (heap_of m) (ds_data s + of_nat (length (take (unat k) xs))) (ys @ 0 # zs) (of_nat (length (ys @ 0 # zs)))"
    by (intro object_middle [where zs = "[]"]) simp_all
  then have mid: "object (heap_of m) (ds_data s + k) (ys @ 0 # zs) (of_nat (length (ys @ 0 # zs)))" using assms(3) by (simp add: min_absorb2)
  moreover have "0 \<notin> set ys" unfolding ys_def own_text_def by (auto dest: set_takeWhileD)
  ultimately have c: "cstr (heap_of m) (ds_data s + k) ys" by (rule object_cstr)
  have "length ys \<le> length xs - unat k" unfolding ys_def own_text_def by (rule order_trans [OF length_takeWhile_le]) simp
  moreover have "unat (ds_data s + k) = unat (ds_data s) + unat k" "unat (ds_data s + ds_len s) = unat (ds_data s) + length xs"
    using o assms(3) l unat_ptr_plus [of "ds_data s" "unat (ds_cap s)" "unat k"] unat_ptr_plus [of "ds_data s" "unat (ds_cap s)" "length xs"]
    by (simp_all add: object_def)
  ultimately have "span (ds_data s + k) (length ys) \<inter> span (ds_data s + ds_len s) (unat (ds_cap s) - unat (ds_len s)) = {}"
    using assms(3) by (auto simp: span_def)
  then show ?thesis using c by (auto simp: ds_source_def cstr_def region_append fits_def)
qed

definition ds_done ::
  "'a printed \<Rightarrow> (uptr \<Rightarrow> u8 list) \<Rightarrow> 'a ds_op \<Rightarrow> cmem \<Rightarrow> dynstring \<Rightarrow> u8 list \<Rightarrow> (bool \<times> cmem \<times> dynstring cptr) run \<Rightarrow> bool" where
  "ds_done printed E oper m s xs r \<longleftrightarrow> (\<exists>ok m' s' ys. r = ret (ok, m', Some s') \<and> ds_ok m' s' ys \<and> outside m' s' = outside m s \<and>
     ds_does printed E oper xs ok ys)"

lemma ds_outcome_done':
  assumes "ds_outcome m s ys r" "ds_ok m s xs" "ds_prints printed E oper xs out" "ys = ds_text E out oper xs" "ds_may_fail oper"
  shows "ds_done printed E oper m s xs r"
proof -
  from assms(1) obtain ok m' s' where r: "r = ret (ok, m', Some s')"
    "if ok then ds_ok m' s' ys \<and> outside m' s' = outside m s else m' = m \<and> s' = s" unfolding ds_outcome_def by blast
  have "ds_does printed E oper xs ok (if ok then ys else xs)" using assms(3-5) by (auto simp: ds_does_def)
  then show ?thesis using r assms(2) unfolding ds_done_def
    by (intro exI [of _ ok] exI [of _ m'] exI [of _ s'] exI [of _ "if ok then ys else xs"]) auto
qed

lemma ds_refused:
  assumes "ds_ok m s xs" "ds_may_fail oper"
  shows "ds_done printed E oper m s xs (ret (False, m, Some s))"
  using assms unfolding ds_done_def ds_does_def by auto

lemma own_cstr:
  assumes "ds_ok m s xs" "unat k \<le> length xs" "cstr (heap_of (outside m s)) lit []"
  shows "cstr (heap_of m) (dynstring_str lit (Some s) + k) (own_text k xs) \<and> ds_source m s (dynstring_str lit (Some s) + k) (own_text k xs)"
proof (cases "ds_data s = 0")
  case True
  then have "xs = []" "k = 0" using assms(1,2) by (auto simp: ds_ok_def unat_eq_zero)
  with outside_source [OF assms(3,1), of 0] True show ?thesis by (simp add: dynstring_str_def null_ptr_def own_text_def)
next
  case False
  then show ?thesis using own_source [OF assms(1) False assms(2)] by (simp add: dynstring_str_def null_ptr_def)
qed

lemma append_own_value:
  assumes "malloc_gives malloc" "ds_ok m s xs" "unat k \<le> length xs" "cstr (heap_of (outside m s)) lit []" "2 * length xs + 1 < 2 ^ 64"
  shows "ds_outcome m s (xs @ own_text k xs) (dynstring_append builtin malloc m (Some s) (dynstring_str lit (Some s) + k))"
proof -
  have "length xs + length (own_text k xs) + 1 < 2 ^ 64" using assms(5) own_text_length [of k xs] by linarith
  then show ?thesis using dynstring_append_value [OF assms(1,2)] own_cstr [OF assms(2-4)] by blast
qed

text \<open>Formatted appends, of strings outside and of the own text.\<close>

lemma fmt_step:
  assumes "ds_ok m s xs" "malloc_gives malloc" "vsnprintf_ok v" "vsnprintf_prints v ptrs printed"
    "strings_ok ptrs E lit (heap_of (outside m s)) [Ds_append_fmt fmt args]" "length xs + 2 ^ 31 + 2 < 2 ^ 64"
  shows "ds_done printed E (Ds_append_fmt fmt args) m s xs (dynstring_append_fmt builtin v malloc m (Some s) fmt args)"
proof (cases "fmt = 0")
  case True
  then show ?thesis using assms(1) by (simp add: dynstring_append_fmt_def null_ptr_def ds_refused)
next
  case False
  then obtain P where P: "ptrs (E fmt) args = Some P" "\<And>p. p \<in> insert fmt P \<Longrightarrow> cstr (heap_of (outside m s)) p (E p)"
    using assms(5) by (fastforce simp: strings_ok_def)
  have c: "cstr (heap_of m) p (E p)" if "p \<in> insert fmt P" for p using outside_source [OF P(2) [OF that] assms(1), of 0] by simp
  have "span p (Suc (length (E p))) \<inter> span (ds_data s) (unat (ds_cap s)) = {}" if "p \<in> insert fmt P" for p
    using outside_apart [OF P(2) [OF that]] assms(1) by (cases "ds_data s = 0") (auto simp: ds_ok_def)
  then have apart: "(\<forall>p \<in> insert fmt P. span p (Suc (length (E p))) \<inter> span (ds_data s) (unat (ds_cap s)) = {}) \<or>
      (\<forall>r h. v (heap_of m) 0 0 fmt args = ret (r, h) \<longrightarrow> 0 \<le> r \<longrightarrow> unat (ds_cap s) \<le> length xs + nat r)" by blast
  have len: "length xs + 2 ^ 31 < 2 ^ 64" using assms(6) by simp
  from dynstring_append_fmt_value [where Y = E and fmt = fmt and builtin = builtin, OF assms(2-4,1) len P(1) c apart] obtain ok m' s' where
    r: "dynstring_append_fmt builtin v malloc m (Some s) fmt args = ret (ok, m', Some s')"
      "ds_ok m' s' (if ok then xs @ printed (E fmt) args E else xs)" "outside m' s' = outside m s"
      "ok \<longrightarrow> length (printed (E fmt) args E) < 2 ^ 31" by blast
  have "ds_does printed E (Ds_append_fmt fmt args) xs ok (if ok then xs @ printed (E fmt) args E else xs)"
    using r(4) by (simp add: ds_does_def)
  then show ?thesis unfolding ds_done_def using r by blast
qed

lemma fmt_own_step:
  assumes "ds_ok m s xs" "malloc_gives malloc" "vsnprintf_ok v" "vsnprintf_prints v ptrs printed"
    "strings_ok ptrs E lit (heap_of (outside m s)) [Ds_append_fmt_own fmt mk k]" "length xs + 2 ^ 31 + 2 < 2 ^ 64"
  shows "ds_done printed E (Ds_append_fmt_own fmt mk k) m s xs
    (ds_step builtin v lit malloc realloc (Ds_append_fmt_own fmt mk k) m (Some s))"
proof (cases "length xs < unat k \<or> fmt = 0")
  case True
  then have "ds_step builtin v lit malloc realloc (Ds_append_fmt_own fmt mk k) m (Some s) = ret (False, m, Some s)"
    using ds_ok_len(1) [OF assms(1)] by (auto simp: ds_step_def dynstring_len_def word_less_nat_alt null_ptr_def)
  then show ?thesis using assms(1) by (simp add: ds_refused)
next
  case False
  let ?q = "dynstring_str lit (Some s) + k"
  let ?Y = "E(?q := own_text k xs)" and ?args = "mk ?q"
  have k: "unat k \<le> length xs" and nz: "fmt \<noteq> 0" using False by simp_all
  have lit: "E lit = []" "cstr (heap_of (outside m s)) lit []" using assms(5) by (simp_all add: strings_ok_def)
  note own = own_cstr [OF assms(1) k lit(2)]
  from assms(5) nz obtain P where P: "ptrs (E fmt) ?args = Some P" by (fastforce simp: strings_ok_def)
  have sub: "insert fmt (P - {?q}) \<subseteq> ds_strings ptrs E (Ds_append_fmt_own fmt mk k)"
    using nz P by (auto intro: exI [of _ ?q])
  then have out: "cstr (heap_of (outside m s)) p (E p)" if "p \<in> insert fmt (P - {?q})" for p
    using assms(5) that by (auto simp: strings_ok_def)
  have fmt: "?Y fmt = E fmt"
  proof (cases "fmt = ?q")
    case True
    have "ds_data s = 0"
    proof (rule ccontr)
      assume d: "ds_data s \<noteq> 0"
      have "?q \<in> span (ds_data s) (unat (ds_cap s))"
      proof -
        have "unat (ds_data s + k) = unat (ds_data s) + unat k"
          using d k ds_ok_len [OF assms(1)] assms(1) unat_ptr_plus [of "ds_data s" "unat (ds_cap s)" "unat k"]
          by (auto simp: ds_ok_def object_def)
        then show ?thesis using d k ds_ok_len(2) [OF assms(1) d] by (simp add: dynstring_str_def null_ptr_def span_def)
      qed
      moreover have "fmt \<in> span fmt (Suc (length (E fmt)))" by (simp add: span_def)
      ultimately show False using outside_apart [OF out [of fmt] d] True by auto
    qed
    then have "xs = []" "?q = lit + k" "k = 0"
      using assms(1) k by (auto simp: ds_ok_def dynstring_str_def null_ptr_def unat_eq_zero)
    then show ?thesis using True lit(1) by (simp add: own_text_def)
  qed simp
  have c: "cstr (heap_of m) p (?Y p)" if "p \<in> insert fmt P" for p
    using own outside_source [OF out [of p] assms(1), of 0] that by (cases "p = ?q") auto
  have len: "length xs + 2 ^ 31 < 2 ^ 64" using assms(6) by simp
  have PY: "ptrs (?Y fmt) ?args = Some P" using P unfolding fmt .
  from vsnprintf_printsD [where Y = ?Y and fmt = fmt and s = 0 and n = 0, OF assms(4) PY c] obtain r h where
    r: "v (heap_of m) 0 0 fmt ?args = ret (r, h)" by auto
  have st: "ds_step builtin v lit malloc realloc (Ds_append_fmt_own fmt mk k) m (Some s) =
      (if 0 \<le> r \<and> length xs + nat r < unat (ds_cap s) then ret (False, m, Some s)
       else dynstring_append_fmt builtin v malloc m (Some s) fmt ?args)"
    using False ds_ok_len(1) [OF assms(1)] r
    by (simp add: ds_step_def dynstring_len_def dynstring_capacity_def word_less_nat_alt null_ptr_def Let_def)
  show ?thesis
  proof (cases "0 \<le> r \<and> length xs + nat r < unat (ds_cap s)")
    case True
    then show ?thesis unfolding st if_P [OF True] using assms(1) by (simp add: ds_refused)
  next
    case grow: False
    then have apart: "(\<forall>p \<in> insert fmt P. span p (Suc (length (?Y p))) \<inter> span (ds_data s) (unat (ds_cap s)) = {}) \<or>
      (\<forall>r h. v (heap_of m) 0 0 fmt ?args = ret (r, h) \<longrightarrow> 0 \<le> r \<longrightarrow> unat (ds_cap s) \<le> length xs + nat r)"
      using r by auto
    from dynstring_append_fmt_value [where Y = ?Y and fmt = fmt and builtin = builtin, OF assms(2-4,1) len PY c apart] obtain ok m' s' where
      f: "dynstring_append_fmt builtin v malloc m (Some s) fmt ?args = ret (ok, m', Some s')"
        "ds_ok m' s' (if ok then xs @ printed (?Y fmt) ?args ?Y else xs)" "outside m' s' = outside m s"
        "ok \<longrightarrow> length (printed (?Y fmt) ?args ?Y) < 2 ^ 31" by blast
    have "ds_does printed E (Ds_append_fmt_own fmt mk k) xs ok (if ok then xs @ printed (?Y fmt) ?args ?Y else xs)"
      using f(4) unfolding ds_does_def fmt by (cases ok) auto
    then show ?thesis unfolding ds_done_def st if_not_P [OF grow] using f(1-3) by blast
  qed
qed

lemma ds_step_value:
  fixes v :: "'a vsnprintf"
  assumes "ds_ok m s xs" "malloc_gives malloc" "realloc_gives realloc" "vsnprintf_ok v" "vsnprintf_prints v ptrs printed"
    "strings_ok ptrs E lit (heap_of (outside m s)) [oper]" "ds_bound E oper (length xs) + 2 < 2 ^ 64"
  shows "ds_done printed E oper m s xs (ds_step builtin v lit malloc realloc oper m (Some s))"
proof (cases oper)
  case (Ds_append str)
  with assms(6) outside_source [OF _ assms(1), of str "E str" "length (E str)"] have
    "cstr (heap_of m) str (E str)" "ds_source m s str (E str)" by (simp_all add: strings_ok_def)
  with dynstring_append_value [OF assms(2,1)] assms(1,7) Ds_append show ?thesis
    by (intro ds_outcome_done') (simp_all add: ds_step_def)
next
  case (Ds_append_own k)
  show ?thesis
  proof (cases "length xs < unat k")
    case True
    then have "ds_step builtin v lit malloc realloc oper m (Some s) = ret (False, m, Some s)"
      using Ds_append_own ds_ok_len(1) [OF assms(1)] by (simp add: ds_step_def dynstring_len_def word_less_nat_alt)
    then show ?thesis using Ds_append_own assms(1) by (simp add: ds_refused)
  next
    case False
    then have "ds_outcome m s (xs @ own_text k xs) (dynstring_append builtin malloc m (Some s) (dynstring_str lit (Some s) + k))"
      using assms(6,7) Ds_append_own by (intro append_own_value [OF assms(2,1)]) (simp_all add: strings_ok_def)
    moreover have "ds_step builtin v lit malloc realloc oper m (Some s) = dynstring_append builtin malloc m (Some s) (dynstring_str lit (Some s) + k)"
      using Ds_append_own False ds_ok_len(1) [OF assms(1)] by (simp add: ds_step_def dynstring_len_def word_less_nat_alt)
    ultimately show ?thesis using assms(1) Ds_append_own by (intro ds_outcome_done') simp_all
  qed
next
  case (Ds_append_n str n)
  let ?k = "min (unat n) (length (E str))"
  have t: "take (unat n) (E str) = take ?k (E str)" by (simp add: min_def)
  from Ds_append_n assms(6) outside_source [OF _ assms(1), of str "E str" ?k] have
    src: "cstr (heap_of m) str (E str)" "ds_source m s str (take (unat n) (E str))" unfolding t by (simp_all add: strings_ok_def)
  have "n_string (heap_of m) str (unat n) (take (unat n) (E str))"
    using src(1) region_take [of "heap_of m" str "E str" "unat n"]
    by (auto simp: n_string_def cstr_def region_append min_def dest: in_set_takeD)
  moreover have "length xs + length (take (unat n) (E str)) + 1 < 2 ^ 64" using assms(7) Ds_append_n by simp
  ultimately have "ds_outcome m s (xs @ take (unat n) (E str)) (dynstring_append_n builtin malloc m (Some s) str n)"
    using dynstring_append_n_value [OF assms(2,1)] src(2) by blast
  then show ?thesis using Ds_append_n assms(1) by (intro ds_outcome_done') (simp_all add: ds_step_def)
next
  case (Ds_append_char c)
  then show ?thesis using dynstring_append_char_value [OF assms(3,1)] assms(1,7)
    by (intro ds_outcome_done') (simp_all add: ds_step_def)
next
  case (Ds_append_fmt fmt args)
  then show ?thesis using fmt_step [OF assms(1,2,4,5)] assms(6,7) by (simp add: ds_step_def)
next
  case (Ds_append_fmt_own fmt mk k)
  then show ?thesis using fmt_own_step [OF assms(1,2,4,5)] assms(6,7) by simp
next
  case (Ds_truncate n)
  then show ?thesis using dynstring_truncate_value [OF assms(1), of n] by (auto simp: ds_done_def ds_step_def ds_does_def)
next
  case Ds_clear
  then show ?thesis using dynstring_clear_value [OF assms(1)] by (auto simp: ds_done_def ds_step_def ds_does_def)
next
  case (Ds_reserve n)
  then show ?thesis using dynstring_reserve_value [OF assms(3,1), of builtin n] assms(1)
    by (intro ds_outcome_done') (simp_all add: ds_step_def)
next
  case Ds_shrink
  then show ?thesis using dynstring_shrink_to_fit_value [OF assms(3,1)] assms(1)
    by (intro ds_outcome_done') (simp_all add: ds_step_def)
qed

fun ds_opers :: "(c_malloc \<times> c_realloc \<times> 'a ds_op) list \<Rightarrow> 'a ds_op list" where
  "ds_opers [] = []"
| "ds_opers ((malloc, realloc, oper) # steps) = oper # ds_opers steps"

definition steps_ok :: "(c_malloc \<times> c_realloc \<times> 'a ds_op) list \<Rightarrow> bool" where
  "steps_ok steps \<longleftrightarrow> list_all (\<lambda>(malloc, realloc, oper). malloc_gives malloc \<and> realloc_gives realloc) steps"

lemma ds_run_replay:
  assumes "ds_ok m s xs" "steps_ok steps" "vsnprintf_ok v" "vsnprintf_prints v ptrs printed"
    "strings_ok ptrs E lit (heap_of (outside m s)) (ds_opers steps)" "ds_peak E (ds_opers steps) (length xs) + 2 < 2 ^ 64"
  shows "\<exists>oks m' s' ys. ds_run builtin v lit steps m (Some s) = ret (oks, m', Some s') \<and> ds_ok m' s' ys \<and>
    outside m' s' = outside m s \<and> ds_replay printed E (ds_opers steps) oks xs ys"
  using assms(1,2,5,6)
proof (induction steps arbitrary: m s xs)
  case Nil
  then show ?case by auto
next
  case (Cons st steps)
  obtain malloc realloc oper where st: "st = (malloc, realloc, oper)" by (cases st)
  have g: "malloc_gives malloc" "realloc_gives realloc" "steps_ok steps" using Cons.prems(2) st by (simp_all add: steps_ok_def)
  let ?ops = "ds_opers steps"
  have pk: "ds_peak E ?ops (ds_bound E oper (length xs)) + 2 < 2 ^ 64" using Cons.prems(4) st by (simp add: ds_peak_Cons)
  then have bd: "ds_bound E oper (length xs) + 2 < 2 ^ 64" using ds_peak_le [of "ds_bound E oper (length xs)" E ?ops] by linarith
  have ok: "strings_ok ptrs E lit (heap_of (outside m s)) [oper]" "strings_ok ptrs E lit (heap_of (outside m s)) ?ops"
    using Cons.prems(3) st by (simp_all add: strings_ok_def)
  from ds_step_value [where builtin = builtin, OF Cons.prems(1) g(1,2) assms(3,4) ok(1) bd]
  obtain ok' m1 s1 ys where s1: "ds_step builtin v lit malloc realloc oper m (Some s) = ret (ok', m1, Some s1)" "ds_ok m1 s1 ys"
    "outside m1 s1 = outside m s" "ds_does printed E oper xs ok' ys" unfolding ds_done_def by auto
  have "ds_peak E ?ops (length ys) + 2 < 2 ^ 64"
    using pk ds_peak_mono [OF ds_does_bound [OF s1(4)], of E ?ops] by linarith
  from Cons.IH [OF s1(2) g(3) _ this] ok(2) s1(3) obtain oks m' s' zs where
    "ds_run builtin v lit steps m1 (Some s1) = ret (oks, m', Some s')" "ds_ok m' s' zs" "outside m' s' = outside m1 s1"
    "ds_replay printed E ?ops oks ys zs" by auto
  then show ?case using st s1 by (intro exI [of _ "ok' # oks"] exI [of _ m'] exI [of _ s'] exI [of _ zs]) auto
qed

text \<open>An allocator: \<open>malloc\<close> gives zeroed memory at one address as long as it is free there, \<open>realloc\<close> always fails.\<close>

definition one_block :: "uptr \<Rightarrow> c_malloc" where
  "one_block p n m = (if p \<noteq> 0 \<and> fits p (unat n) \<and> blocks m p = None \<and> (\<forall>q \<in> span p (unat n). heap_of m q = None)
     then (p, \<lparr>heap_of = (\<lambda>q. if q \<in> span p (unat n) then Some 0 else heap_of m q), blocks = (blocks m)(p := Some n)\<rparr>) else (0, m))"

lemma region_zeros: "fits p k \<Longrightarrow> \<forall>q \<in> span p k. h q = Some 0 \<Longrightarrow> region h p (replicate k 0)"
proof (induction k arbitrary: p)
  case (Suc k)
  show ?case
  proof (cases "k = 0")
    case True
    then show ?thesis using Suc.prems(2) by (simp add: span_def)
  next
    case False
    then have "unat (p + 1) = Suc (unat p)" using Suc.prems(1) by (intro unat_usize_Suc) (simp add: fits_def)
    then show ?thesis using Suc by (auto simp: fits_def span_def)
  qed
qed simp

lemma one_block_gives: "malloc_gives (one_block p)"
  unfolding malloc_gives_def
proof (intro allI impI)
  fix n m q m' assume a: "one_block p n m = (q, m')"
  show "q = 0 \<and> m' = m \<or> (\<exists>bs. object (heap_of m') q bs n) \<and> blocks m' q = Some n \<and> without m' q n = m"
  proof (cases "p \<noteq> 0 \<and> fits p (unat n) \<and> blocks m p = None \<and> (\<forall>q \<in> span p (unat n). heap_of m q = None)")
    case True
    then have q: "q = p" "m' = \<lparr>heap_of = (\<lambda>q. if q \<in> span p (unat n) then Some 0 else heap_of m q), blocks = (blocks m)(p := Some n)\<rparr>"
      using a unfolding one_block_def if_P [OF True] by auto
    then have "object (heap_of m') q (replicate (unat n) 0) n" using True region_zeros [of p "unat n" "heap_of m'"] by (simp add: object_def)
    moreover have "without m' q n = m" using True q by (intro cmem_eqI) (auto simp: fun_eq_iff)
    ultimately show ?thesis using q by auto
  next
    case False
    then show ?thesis using a unfolding one_block_def if_not_P [OF False] by simp
  qed
qed

text \<open>
  A \<open>vsnprintf\<close> for the format \<open>%s\<close>: it reads the format and the string that its argument points to in the heap, and
  reaches undefined behaviour where they are not.
\<close>

definition vsn_s :: "uptr vsnprintf" where
  "vsn_s h s n fmt p = bindR (read_bytes h fmt 3) (\<lambda>f.
     if f \<noteq> [37, 115, 0] then undefined_behaviour ''format'' else
     bindR (str_len h p) (\<lambda>k. bindR (read_bytes h p (unat k)) (\<lambda>xs.
       if 2 ^ 31 \<le> unat k then ret (- 1, h)
       else if n = 0 then ret (int (unat k), h)
       else bindR (write_bytes h s (take (unat n - 1) xs @ [0])) (\<lambda>h'. ret (int (unat k), h')))))"

definition s_ptrs :: "uptr read_ptrs" where
  "s_ptrs f p = (if f = [37, 115] then Some {p} else None)"

definition s_printed :: "uptr printed" where
  "s_printed f p Y = Y p"

lemma vsn_s_write:
  assumes "object h s as n" "n \<noteq> 0"
  shows "\<exists>h'. write_bytes h s (take (unat n - 1) xs @ [0]) = ret h' \<and>
    object h' s ((take (unat n - 1) xs @ [0]) @ drop (Suc (min (length xs) (unat n - 1))) as) n \<and>
    (\<forall>q. q \<notin> span s (unat n) \<longrightarrow> h' q = h q)"
proof -
  let ?k = "Suc (min (length xs) (unat n - 1))" and ?ys = "take (unat n - 1) xs @ [0]"
  have "0 < unat n" using assms(2) by (simp add: unat_gt_0)
  then have "?k \<le> length as" using assms(1) by (simp add: object_def)
  then have "object h s ([] @ take ?k as @ drop ?k as) n" "length ?ys = length (take ?k as)"
    using assms(1) by simp_all
  from object_splice [OF this] show ?thesis by simp
qed

lemma vsn_s_ok: "vsnprintf_ok vsn_s"
  unfolding vsnprintf_ok_def vsnprintf_wrote_def
proof (intro allI impI conjI)
  fix h s n fmt p r h' assume a: "vsn_s h s n fmt p = ret (r, h')"
  then obtain f :: "u8 list" where "(if f \<noteq> [37, 115, 0] then undefined_behaviour ''format'' else
     bindR (str_len h p) (\<lambda>k. bindR (read_bytes h p (unat k)) (\<lambda>xs.
       if 2 ^ 31 \<le> unat k then ret (- 1, h)
       else if n = 0 then ret (int (unat k), h)
       else bindR (write_bytes h s (take (unat n - 1) xs @ [0])) (\<lambda>h'. ret (int (unat k), h'))))) = ret (r, h')"
    unfolding vsn_s_def bindR_eq_Inr by blast
  moreover from this have "f = [37, 115, 0]" by (cases "f = [37, 115, 0]") simp_all
  ultimately obtain k xs where k: "str_len h p = ret k" "read_bytes h p (unat k) = ret xs"
    "(if 2 ^ 31 \<le> unat k then ret (- 1, h) else if n = 0 then ret (int (unat k), h)
      else bindR (write_bytes h s (take (unat n - 1) xs @ [0])) (\<lambda>h'. ret (int (unat k), h'))) = ret (r, h')"
    by (simp only: if_not_P not_not) (simp only: bindR_eq_Inr, blast)
  then have "r = - 1 \<or> unat k < 2 ^ 31 \<and> r = int (unat k)" by (auto simp: bindR_eq_Inr split: if_splits)
  then show "r < 2 ^ 31"
  proof
    assume "unat k < 2 ^ 31 \<and> r = int (unat k)"
    moreover from this have "int (unat k) < int (2 ^ 31)" by (simp only: of_nat_less_iff)
    ultimately show ?thesis by simp
  qed simp
  from k(3) show "h' = h" if "n = 0" using that by (auto split: if_splits)
  fix as assume n: "n \<noteq> 0" and o: "object h s as n"
  from vsn_s_write [OF o n, of xs] obtain h2 where w: "write_bytes h s (take (unat n - 1) xs @ [0]) = ret h2"
    "object h2 s ((take (unat n - 1) xs @ [0]) @ drop (Suc (min (length xs) (unat n - 1))) as) n"
    "\<forall>q. q \<notin> span s (unat n) \<longrightarrow> h2 q = h q" by blast
  have c: "h' = h \<and> r = - 1 \<or> h' = h2 \<and> r = int (unat k)" using k(3) n w(1) by (auto split: if_splits)
  then show "h' q = h q" if "q \<notin> span s (unat n)" for q using w(3) that by auto
  have len: "length xs = unat k" by (rule read_bytes_length [OF k(2)])
  from c show "\<exists>ys. object h' s ys n \<and> (0 \<le> r \<and> nat r < unat n \<longrightarrow> (\<exists>out rest. ys = out @ 0 # rest \<and> length out = nat r))"
  proof
    assume "h' = h \<and> r = - 1"
    then show ?thesis using o by auto
  next
    assume e: "h' = h2 \<and> r = int (unat k)"
    let ?ys = "(take (unat n - 1) xs @ [0]) @ drop (Suc (min (length xs) (unat n - 1))) as"
    have "\<exists>out rest. ?ys = out @ 0 # rest \<and> length out = unat k" if "unat k < unat n"
      using that len by (intro exI [of _ xs] exI [of _ "drop (Suc (min (length xs) (unat n - 1))) as"]) simp
    then show ?thesis using w(2) e by (intro exI [of _ ?ys]) simp
  qed
qed

lemma vsn_s_value:
  assumes "cstr h fmt [37, 115]" "cstr h p ys"
  shows "vsn_s h s n fmt p = (if 2 ^ 31 \<le> length ys then ret (- 1, h) else if n = 0 then ret (int (length ys), h)
      else bindR (write_bytes h s (take (unat n - 1) ys @ [0])) (\<lambda>h'. ret (int (length ys), h')))"
proof -
  have rf: "read_bytes h fmt 3 = ret [37, 115, 0]" using read_bytes_region [of h fmt "[37, 115, 0]"] assms(1) by (simp add: cstr_def numeral_3_eq_3)
  have k: "unat (of_nat (length ys) :: usize) = length ys" using cstr_bounds [OF assms(2)] by (simp add: unat_of_small)
  have rp: "read_bytes h p (length ys) = ret ys" using read_bytes_region [OF cstr_region(1) [OF assms(2)]] .
  show ?thesis unfolding vsn_s_def rf bindR_simps str_len_value [OF assms(2)] k rp by simp
qed

lemma vsn_s_prints: "vsnprintf_prints vsn_s s_ptrs s_printed"
  unfolding vsnprintf_prints_def
proof (intro allI impI)
  fix h s n fmt p P and Y :: "uptr \<Rightarrow> u8 list"
  assume P: "s_ptrs (Y fmt) p = Some P" and c: "\<forall>q \<in> insert fmt P. cstr h q (Y q) \<and> span q (Suc (length (Y q))) \<inter> span s (unat n) = {}"
    and o: "n = 0 \<or> (\<exists>xs. object h s xs n)"
  have f: "Y fmt = [37, 115]" "P = {p}" using P by (auto simp: s_ptrs_def split: if_splits)
  have cf: "cstr h fmt [37, 115]" and cp: "cstr h p (Y p)" using c f by auto
  note val = vsn_s_value [OF cf cp, of s n]
  show "\<exists>r h'. vsn_s h s n fmt p = ret (r, h') \<and> (0 \<le> r \<longrightarrow> r = int (length (s_printed (Y fmt) p Y)) \<and>
      (nat r < unat n \<longrightarrow> region h' s (s_printed (Y fmt) p Y)))"
  proof (cases "2 ^ 31 \<le> length (Y p) \<or> n = 0")
    case True
    then show ?thesis unfolding val by (auto simp: s_printed_def)
  next
    case False
    with o obtain as where "object h s as n" "n \<noteq> 0" by blast
    from vsn_s_write [OF this, of "Y p"] obtain h2 where w: "write_bytes h s (take (unat n - 1) (Y p) @ [0]) = ret h2"
      "object h2 s ((take (unat n - 1) (Y p) @ [0]) @ drop (Suc (min (length (Y p)) (unat n - 1))) as) n" by blast
    have "region h2 s (Y p)" if "length (Y p) < unat n" using w(2) that by (simp add: object_def region_append)
    then show ?thesis unfolding val using False w(1) by (simp add: s_printed_def)
  qed
qed

text \<open>C15: A growing string is a string for every sequence of operations and every behaviour of the allocator that the C
standard allows, in memory where use after free and a double free are undefined behaviour: no operation reaches either,
each that reports success had the effect of the string operation and each that does not left the text alone, also when
the text that is appended or printed is a part of the string itself. Freeing the string at the end leaves exactly the
memory that was there without its buffer: no other byte was written and no block was leaked. \<open>vsnprintf\<close> has to return
only when the format and the strings its arguments point to are C strings in memory that is not freed and away from what
it writes, and its output is then what the format gives for these strings; the arguments have to match the format. A
formatted append of the own text into a buffer that has room for it is undefined and is left out.\<close>

theorem dynstring_refines_string:
  assumes "ds_ok m s xs" "steps_ok steps" "vsnprintf_ok v" "vsnprintf_prints v ptrs printed"
    "strings_ok ptrs E lit (heap_of (outside m s)) (ds_opers steps)" "ds_peak E (ds_opers steps) (length xs) + 2 < 2 ^ 64"
  shows "\<exists>oks m' s' ys s''. ds_run builtin v lit steps m (Some s) = ret (oks, m', Some s') \<and> ds_ok m' s' ys \<and>
    ds_replay printed E (ds_opers steps) oks xs ys \<and> dynstring_free m' (Some s') = ret (outside m s, Some s'')"
proof -
  from ds_run_replay [OF assms] obtain oks m' s' ys where
    r: "ds_run builtin v lit steps m (Some s) = ret (oks, m', Some s')" "ds_ok m' s' ys"
      "outside m' s' = outside m s" "ds_replay printed E (ds_opers steps) oks xs ys" by blast
  from dynstring_free_value [OF r(2)] r(3) obtain s'' where "dynstring_free m' (Some s') = ret (outside m s, Some s'')" by auto
  with r show ?thesis by blast
qed

theorem dynstring_refines_string_witness:
  "let m = \<lparr>heap_of = [1 \<mapsto> 0, 200 \<mapsto> 97, 201 \<mapsto> 0, 400 \<mapsto> 37, 401 \<mapsto> 115, 402 \<mapsto> 0], blocks = [200 \<mapsto> 2]\<rparr>;
     s = \<lparr>ds_data = 200, ds_len = 1, ds_cap = 2\<rparr>;
     E = (\<lambda>p. if p = 400 then [37, 115] else []);
     steps = [(one_block 300, \<lambda>p n m. (0, m), Ds_append_fmt_own 400 (\<lambda>q. q) 0)] in
   \<exists>m' s' s''. ds_run True vsn_s 1 steps m (Some s) = ret ([True], m', Some s') \<and> ds_ok m' s' [97, 97] \<and>
     ds_replay s_printed E (ds_opers steps) [True] [97] [97, 97] \<and>
     dynstring_free m' (Some s') = ret (\<lparr>heap_of = [1 \<mapsto> 0, 400 \<mapsto> 37, 401 \<mapsto> 115, 402 \<mapsto> 0], blocks = Map.empty\<rparr>, Some s'')"
proof -
  let ?m = "\<lparr>heap_of = [1 \<mapsto> 0, 200 \<mapsto> 97, 201 \<mapsto> 0, 400 \<mapsto> 37, 401 \<mapsto> 115, 402 \<mapsto> 0], blocks = [200 \<mapsto> 2]\<rparr>"
  let ?s = "\<lparr>ds_data = 200, ds_len = 1, ds_cap = 2\<rparr>"
  let ?E = "\<lambda>p :: uptr. if p = 400 then [37, 115] else [] :: u8 list"
  let ?r = "\<lambda>p n m. (0, m) :: uptr \<times> cmem"
  let ?steps = "[(one_block 300, ?r, Ds_append_fmt_own 400 (\<lambda>q. q) 0)]"
  have ok: "ds_ok ?m ?s [97]" by (auto simp: ds_ok_def object_def fits_def intro: exI [of _ "[]"])
  have out: "outside ?m ?s = \<lparr>heap_of = [1 \<mapsto> 0, 400 \<mapsto> 37, 401 \<mapsto> 115, 402 \<mapsto> 0], blocks = Map.empty\<rparr>"
  proof (intro cmem_eqI)
    have "fits 200 (Suc 1)" "fits 201 (Suc 0)" by (simp_all add: fits_def)
    from span_Suc [OF this(1)] span_Suc [OF this(2)] have sp: "span (200 :: uptr) 2 = {200, 201}" by (simp add: numeral_2_eq_2)
    show "heap_of (outside ?m ?s) q = heap_of \<lparr>heap_of = [1 \<mapsto> 0, 400 \<mapsto> 37, 401 \<mapsto> 115, 402 \<mapsto> 0], blocks = Map.empty\<rparr> q" for q
      by (simp add: outside_def sp)
  qed (simp add: outside_def)
  have "realloc_gives ?r" by (simp add: realloc_gives_def)
  then have steps: "steps_ok ?steps" by (simp add: steps_ok_def one_block_gives)
  have strs: "strings_ok s_ptrs ?E 1 (heap_of (outside ?m ?s)) (ds_opers ?steps)"
    unfolding out by (simp add: strings_ok_def s_ptrs_def cstr_def fits_def)
  have cs: "str_len (heap_of ?m) 200 = ret 1" using str_len_value [of "heap_of ?m" 200 "[97]"] by (simp add: cstr_def fits_def)
  have "ds_peak ?E (ds_opers ?steps) (length [97 :: u8]) + 2 < 2 ^ 64" by (simp add: ds_peak_def)
  from dynstring_refines_string [OF ok steps vsn_s_ok vsn_s_prints strs this, of True] obtain oks m' s' ys s'' where
    r: "ds_run True vsn_s 1 ?steps ?m (Some ?s) = ret (oks, m', Some s')" "ds_ok m' s' ys"
      "ds_replay s_printed ?E (ds_opers ?steps) oks [97] ys" "dynstring_free m' (Some s') = ret (outside ?m ?s, Some s'')" by blast
  let ?h = "heap_of ?m"
  let ?h1 = "(\<lambda>q. if q \<in> span 300 4 then Some 0 else ?h q)(300 \<mapsto> 97, 301 \<mapsto> 0)"
  let ?m1 = "\<lparr>heap_of = ?h1, blocks = [200 \<mapsto> 2, 300 \<mapsto> 4]\<rparr>" and ?s1 = "\<lparr>ds_data = 300, ds_len = 1, ds_cap = 4\<rparr>"
  have v1: "vsn_s ?h 0 0 400 200 = ret (1, ?h)" using vsn_s_value [of ?h 400 200 "[97]" 0 0] by (simp add: cstr_def fits_def)
  have fresh: "\<forall>q \<in> span 300 4. ?h q = None" by (auto simp: span_def)
  let ?h0 = "\<lambda>q. if q \<in> span 300 4 then Some 0 else ?h q"
  have "region ?h0 200 [97, 0]" by (simp add: span_def)
  from read_bytes_region [OF this] have rb: "read_bytes ?h0 200 2 = ret [97, 0]" by (simp add: numeral_2_eq_2)
  have "std_memcpy ?h0 300 200 2 = ret ?h1" unfolding std_memcpy_def std_memmove_def using rb by (simp add: write_bytes.simps span_def)
  then have cp: "mem_copy ?h0 300 200 2 = ret ?h1" by (simp add: mem_copy_def mem_regions_overlap_def null_ptr_def)
  have g: "dynstring_grow_detached True (one_block 300) ?m ?s 3 = ret (True, ?m1, ?s1, 200)"
    using fresh cp by (simp add: dynstring_grow_detached_def dynstring_next_cap_def dynstring_growth_factor_def one_block_def null_ptr_def
      on_heap_def Let_def fits_def)
  have v2: "vsn_s ?h1 301 3 400 200 = ret (1, ?h1(301 \<mapsto> 97, 302 \<mapsto> 0))"
    using vsn_s_value [of ?h1 400 200 "[97]" 301 3] by (simp add: cstr_def fits_def span_def write_bytes.simps)
  have "\<exists>m' p'. ds_step True vsn_s 1 (one_block 300) ?r (Ds_append_fmt_own 400 (\<lambda>q. q) 0) ?m (Some ?s) = ret (True, m', p')"
    using v1 g v2 by (simp add: ds_step_def dynstring_len_def dynstring_str_def dynstring_capacity_def null_ptr_def Let_def
      dynstring_append_fmt_def c_free_def)
  then have oks: "oks = [True]" using r(1) by auto
  then have "ys = [97, 97]" using r(3) by (auto simp: ds_does_def s_printed_def own_text_def)
  then show ?thesis using r oks out unfolding Let_def by auto
qed

end
