(* ===== verification/Spec2Isabelle.thy ===== *)
theory Spec2Isabelle
  imports Canon_Semantics Canon_Checked Canon_Bits Canon_Ptr Canon_Memory Canon_Slice Canon_Arena Canon_Pool
    Canon_Queue Canon_Stack Canon_Compare Canon_Sort Canon_Search Canon_Algo Canon_PriorityQueue Canon_RobinHood
    Canon_BitsetOps Canon_Range Canon_Random Canon_Borrow Canon_StringBuf
    Canon_Str Canon_Intern Canon_Split Canon_Join Canon_Diag Canon_Array Canon_DynVec
    Canon_SmallVec Canon_SortSlice Canon_Views Canon_Fmt Canon_Parse Canon_DynString
begin

text \<open>
  A verification development for Canon-C, a header-only C99 library of semantic primitives: checked
  arithmetic, explicit ownership and memory, error values, and containers and algorithms that never
  allocate behind the caller's back. All paths below are relative to \<open>src/\<close>.

  \<^bold>\<open>The program.\<close> The library is layered. \<open>core/primitives\<close> (types, limits, contracts, checked
  arithmetic, bits, pointers, comparators) is used by everything. \<open>core\<close> (memory, slices, arena, pool)
  works on raw memory. \<open>semantics\<close> (error, option, result) gives the values in which failure is
  reported. \<open>data\<close> (vector, stack, deque, queue, priority queue, hash map) are containers over a
  buffer of the caller, and \<open>algo\<close> (sort, search, filter, fold and others) work on arrays of the caller. The containers are
  C macros that are instantiated at an element type; the models are polymorphic in it.

  \<^bold>\<open>Configuration.\<close> The models are the code of the default build on an LP64 machine with 8-bit
  bytes: \<open>NDEBUG\<close>, \<open>CANON_NO_REQUIRE\<close>, \<open>CANON_STRICT\<close> and the debug counters are off and the
  contract handler is the default one, which does not return. Where a function chooses between a
  compiler builtin and portable code, checked arithmetic models both (a flag argument) and bits
  models the portable one.

  \<^bold>\<open>Conventions\<close> (\<open>Canon_Prelude\<close>).
  \<^item> \<open>usize\<close> and \<open>u64\<close> are \<open>64 word\<close>, \<open>u32\<close> is \<open>32 word\<close>: their arithmetic wraps as in C.
  \<^item> A call is a value of \<open>'a run\<close>: \<open>ret x\<close>, or a fault. A fault is a violated contract (the handler
    is called and the call never returns) or undefined behaviour of C (an access outside an array,
    a division by zero, a signed overflow). Theorems that a call is \<open>ret\<close> of something therefore say
    that it returns, that no contract fails and that nothing undefined is reached.
  \<^item> A pointer to one object that may be NULL is an option (\<open>'a cptr\<close>); an operation that mutates the
    object returns the new one. An array is a list; reads and writes out of its bounds are undefined
    behaviour. Where addresses matter (\<open>Canon_Ptr\<close>, \<open>Canon_Memory\<close>, \<open>Canon_Slice\<close>, \<open>Canon_Arena\<close>)
    memory is a byte heap from 64-bit addresses.
  \<^item> An error is a value of the enumeration \<open>error\<close>; \<open>RESULT\<close> and \<open>OPTION\<close> structs are sums and options.
  \<^item> A loop is a recursive function. Loops with a counter in the code recurse on the counter. Those
    whose end needs an argument have a termination proof by a measure (\<open>bound_loop\<close>, \<open>merge_both\<close>),
    or take fuel that the caller sets to a bound the loop cannot exceed, with running out of fuel
    a fault, so that every theorem of the form \<open>ret\<close> also shows that the fuel is enough (the sift
    loops of the priority queue: the number of elements and one more).

  \<^bold>\<open>Theories and what their lemmas show.\<close>
  \<^item> \<open>Canon_Prelude\<close>: runs, arrays, words, limits and contracts (\<open>core/primitives/types.h\<close>, \<open>limits.h\<close>,
    \<open>contract.h\<close>), and the lemmas on them that all theories use.
  \<^item> \<open>Canon_Semantics\<close>: \<open>semantics/error.h\<close>, \<open>option_impl.h\<close>, \<open>result_impl.h\<close>.
  \<^item> \<open>Canon_Checked\<close>: \<open>core/primitives/checked.h\<close>; each checked operation is exact or reports overflow,
    in the builtin branch and in the portable one.
  \<^item> \<open>Canon_Bits\<close>, \<open>Canon_Ptr\<close>: \<open>core/primitives/bits.h\<close> and \<open>ptr.h\<close>.
  \<^item> \<open>Canon_Interfaces\<close>: the locales of the contracts several components share (a bounded sequence,
    stack and queue refinements, an allocator, a total preorder of a comparator).
  \<^item> \<open>Canon_Memory\<close>, \<open>Canon_Slice\<close>, \<open>Canon_Arena\<close>: \<open>core/memory.h\<close>, \<open>slice.h\<close>, \<open>arena.h\<close>. Blocks served by an
    arena are disjoint, aligned and inside the unreserved part of its buffer.
  \<^item> \<open>Canon_Pool\<close>: \<open>core/pool.h\<close> over a store of arenas; the slots are disjoint and come from a region
    that the arena no longer hands out, index access gives the address of the allocation.
  \<^item> \<open>Canon_Vec\<close>, \<open>Canon_Stack\<close>: \<open>data/vec/vec_impl.h\<close>, \<open>data/stack.h\<close>; insertion and removal as list
    operations, the stack as a bounded LIFO.
  \<^item> \<open>Canon_Array\<close>, \<open>Canon_DynVec\<close>: \<open>data/array.h\<close>, \<open>data/convenience/dynvec.h\<close>; arrays of fixed size as lists, and
    the growing vector as a list with a capacity for every sequence of operations and every behaviour of
    \<open>realloc\<close>, refused exactly when it is out of range or the memory it needs is not given.
  \<^item> \<open>Canon_SmallVec\<close>: \<open>data/convenience/smallvec.h\<close>; the vector that starts in a buffer of its own struct and moves once
    to \<open>malloc\<close> or an arena, as a list for every sequence of operations and every behaviour of the allocator.
  \<^item> \<open>Canon_Deque\<close>, \<open>Canon_Queue\<close>: \<open>data/deque/deque_impl.h\<close>, \<open>data/queue.h\<close>; the ring buffer as a bounded
    FIFO for every sequence of operations.
  \<^item> \<open>Canon_Compare\<close>, \<open>Canon_Sort\<close>, \<open>Canon_Search\<close>: \<open>core/primitives/compare.h\<close>, \<open>algo/sort\<close>, \<open>algo/search\<close>; the
    sort is a stable sorted permutation, the searches find the partition points. \<open>Canon_SortSlice\<close>: the functions on
    typed slices of \<open>sort.h\<close> and \<open>search.h\<close>, and searching what was sorted.
  \<^item> \<open>Canon_Views\<close>, \<open>Canon_Fmt\<close>: \<open>data/vec/vec_range.h\<close>, \<open>data/hashmap/hashmap_range.h\<close>, \<open>data/vec/vec_fmt.h\<close>,
    \<open>data/hashmap/hashmap_fmt.h\<close>; vectors filled from ranges and maps, containers printed into string buffers. The loops
    over a map take its capacity and one more as fuel, one round for each slot.
  \<^item> \<open>Canon_Algo\<close>: \<open>algo/find\<close>, \<open>any_all\<close>, \<open>filter\<close>, \<open>map\<close>, \<open>unique\<close>, \<open>reverse\<close>, \<open>fold\<close>, on arrays and on typed
    slices; each computes its list function. The loops of \<open>reverse\<close> take the length as fuel, twice
    what they need.
  \<^item> \<open>Canon_Heap\<close>, \<open>Canon_PriorityQueue\<close>: heap order on lists and \<open>data/priority_queue.h\<close>; pops are in order.
  \<^item> \<open>Canon_HashMap\<close>, \<open>Canon_RobinHood\<close>: \<open>data/hashmap/hashmap_impl.h\<close> and the Robin Hood invariant; the
    map as a bounded dictionary for every sequence of operations. The capacity is at most \<open>2 ^ 30\<close>
    in these theorems, the bound that the annotations of the repository state
    (\<open>vmacros/vdrivers/hashmap_verify.h\<close>), because probe lengths are 32-bit; the code refuses no larger one.
  \<^item> \<open>Canon_Popcount\<close>, \<open>Canon_Bitset\<close>, \<open>Canon_BitsetOps\<close>: the portable population count and
    \<open>data/bitset.h\<close>; the words of a bitset as a set of indices, the single-set operations and the
    binary ones, with what they leave in the padding
    when the other operand is wider. \<open>bitset_for_each\<close> takes as many steps as the
    set has elements and one more.
  \<^item> \<open>Canon_Range\<close>: \<open>data/range.h\<close>; the values a range yields, and skipping as repeated stepping. The
    loop takes the length of the range and one more as fuel.
  \<^item> \<open>Canon_Borrow\<close>: \<open>core/primitives/lifetime.h\<close>, \<open>semantics/borrow.h\<close>, \<open>core/region.h\<close>; a tracked borrow can be
    read until the first event of its owner, in the debug build that the other theories leave out;
    tokens of concurrent owners, and when two live ones share a token; the hooks of a region run in reverse order.
  \<^item> \<open>Canon_StringBuf\<close>: \<open>data/stringbuf.h\<close> on the byte heap; a bounded string for every sequence of
    operations, aliased appends and failed formatted appends included. \<open>vsnprintf\<close> is a parameter.
  \<^item> \<open>Canon_Str\<close>: \<open>util/str/str.h\<close>, \<open>util/str/str_view.h\<close>; every function as a function of the lists of bytes.
    The loops over C strings take as fuel the addresses from the string to the end of the address
    space, which a terminated string cannot use up.
  \<^item> \<open>Canon_DynString\<close>: \<open>data/convenience/dynstring.h\<close> on a byte heap with allocated blocks, where use after free and a
    double free are undefined behaviour; a string for every sequence of operations, appends of its own text included, that
    neither leaks a block nor writes outside its own. \<open>malloc\<close>, \<open>realloc\<close> and \<open>vsnprintf\<close> are parameters;
    \<open>vsnprintf\<close> is relied on only for a format and arguments that match, with strings that are alive and apart from what it
    writes.
  \<^item> \<open>Canon_Intern\<close>: \<open>util/str/intern.h\<close>; equal pointers exactly for equal strings, for every sequence of
    requests.
  \<^item> \<open>Canon_Split\<close>, \<open>Canon_Join\<close>: \<open>util/str/str_split.h\<close>, \<open>str_join.h\<close>; the pointers of a split are those of the pieces
    between the delimiters, trimming and joining as list functions, and splitting composed with joining.
    The fuel of the loops over a string is that of \<open>Canon_Str\<close>.
  \<^item> \<open>Canon_Parse\<close>: \<open>util/parse.h\<close>; the integer parsers find the longest integer constant, numbers printed in decimal,
    octal and hexadecimal are parsed back. \<open>strtoll\<close> and \<open>strtoull\<close> are modelled from the C standard, \<open>strtod\<close> is a
    parameter.
  \<^item> \<open>Canon_Diag\<close>: \<open>semantics/diag.h\<close>; the chain is the last frames pushed, rendering is the lines of the frames, cut to
    the buffer. \<open>snprintf\<close> and \<open>fprintf\<close> are parameters; \<open>snprintf\<close> is relied on only for the calls that the code makes, with
    frames whose strings are terminated and apart from the buffer, as diag.h asks.
  \<^item> \<open>Canon_Random\<close>: \<open>util/random.h\<close>; the generator has full period, and the rejection loop of
    \<open>random_range\<close> therefore ends within \<open>2 ^ 64\<close> rounds.

  \<^bold>\<open>Not modelled.\<close> Floating point (the load factor, the floating-point comparators), I/O and logging,
  time, \<open>malloc\<close> and \<open>free\<close> (parameters where the code relies on them; \<open>Canon_DynString\<close> defines \<open>free\<close>), the ACSL drivers under
  \<open>vmacros\<close>, the tests and the examples. The manifest lists every part with the reason.
\<close>

end
